(* ===== verification/Prelude.thy ===== *)
theory Prelude
  imports Main
begin

text \<open>
  Shared vocabulary of the development.

  \<^item> The library code is C with global state: a function is modelled as a HOL function from
    its arguments and the state to an outcome and the new state. The outcome is \<open>Inr x\<close>
    for a normal return and \<open>Inl e\<close> for the other ways a C function may end, listed in
    \<open>exn\<close>. \<open>bnd\<close> is sequential composition, \<open>ret\<close> the normal return.
  \<^item> \<open>runs m P\<close> is the total-correctness judgement used everywhere: \<open>m\<close> returns
    normally with \<open>P\<close>, or the process has legitimately ended (the default error handler
    called \<open>exit\<close>, or an allocation failed). It excludes \<open>abort\<close>, running
    out of fuel, undefined behaviour and an unexpected \<open>longjmp\<close>.
  \<^item> \<open>chain\<close> relates a linked list threaded through the node table to the list of the
    indices on it; it serves the hash buckets and the free list.
\<close>

datatype exn =
    Longjmp          \<comment> \<open>\<open>longjmp(bddexception,1)\<close> was executed\<close>
  | Abort            \<comment> \<open>\<open>abort()\<close> or a failed \<open>assert\<close>\<close>
  | Trap             \<comment> \<open>undefined behaviour, e.g. division by zero\<close>
  | Nofuel           \<comment> \<open>a recursion or loop exceeded the fuel of the model\<close>
  | Exit int         \<comment> \<open>\<open>exit(n)\<close> from the default error handler\<close>
  | Oom              \<comment> \<open>an allocation failed: the model stops\<close>

definition ret :: "'a \<Rightarrow> 's \<Rightarrow> ('e + 'a) \<times> 's" where
  "ret x s = (Inr x, s)"

definition fail :: "'e \<Rightarrow> 's \<Rightarrow> ('e + 'a) \<times> 's" where
  "fail e s = (Inl e, s)"

definition bnd :: "('e + 'a) \<times> 's \<Rightarrow> ('a \<Rightarrow> 's \<Rightarrow> ('e + 'b) \<times> 's) \<Rightarrow> ('e + 'b) \<times> 's" where
  "bnd m f = (case m of (Inl e, s) \<Rightarrow> (Inl e, s) | (Inr x, s) \<Rightarrow> f x s)"

lemma bnd_ret [simp]: "bnd (ret x s) f = f x s"
  by (simp add: bnd_def ret_def)

lemma bnd_Inr [simp]: "bnd (Inr x, s) f = f x s"
  by (simp add: bnd_def)

lemma bnd_Inl [simp]: "bnd (Inl e, s) f = (Inl e, s)"
  by (simp add: bnd_def)

lemma bnd_fail [simp]: "bnd (fail e s) f = fail e s"
  by (simp add: bnd_def fail_def)

lemma bnd_assoc: "bnd (bnd m f) g = bnd m (\<lambda>x s. bnd (f x s) g)"
  by (cases m; cases "fst m") (auto simp: bnd_def)

definition runs :: "(exn + 'a) \<times> 's \<Rightarrow> ('a \<Rightarrow> 's \<Rightarrow> bool) \<Rightarrow> bool" where
  "runs m P = (case m of
      (Inr x, s) \<Rightarrow> P x s
    | (Inl e, s) \<Rightarrow> (case e of Exit n \<Rightarrow> True | Oom \<Rightarrow> True | _ \<Rightarrow> False))"

lemma runs_ret [simp]: "runs (ret x s) P = P x s"
  by (simp add: runs_def ret_def)

lemma runs_Inr [simp]: "runs (Inr x, s) P = P x s"
  by (simp add: runs_def)

lemma runs_Exit [simp]: "runs (Inl (Exit n), s) P" "runs (fail (Exit n) s) P"
  by (simp_all add: runs_def fail_def)

lemma runs_Oom [simp]: "runs (Inl Oom, s) P" "runs (fail Oom s) P"
  by (simp_all add: runs_def fail_def)

lemma runs_stuck [simp]:
  "\<not> runs (Inl Longjmp, s) P" "\<not> runs (Inl Abort, s) P" "\<not> runs (Inl Trap, s) P"
  "\<not> runs (Inl Nofuel, s) P"
  by (simp_all add: runs_def)

lemma runs_conseq: "runs m P \<Longrightarrow> (\<And>x s. P x s \<Longrightarrow> Q x s) \<Longrightarrow> runs m Q"
  by (cases m; cases "fst m") (auto simp: runs_def split: exn.splits)

lemma runs_bnd: "runs m P \<Longrightarrow> (\<And>x s. P x s \<Longrightarrow> runs (f x s) Q) \<Longrightarrow> runs (bnd m f) Q"
proof -
  assume m: "runs m P" and f: "\<And>x s. P x s \<Longrightarrow> runs (f x s) Q"
  obtain r s where rs: "m = (r, s)" by (cases m)
  show "runs (bnd m f) Q"
  proof (cases r)
    case (Inl e)
    with m rs show ?thesis by (simp add: runs_def)
  next
    case (Inr x)
    with m rs show ?thesis by (simp add: f)
  qed
qed

lemma runs_bndI: "runs m (\<lambda>x s. runs (f x s) Q) \<Longrightarrow> runs (bnd m f) Q"
  by (rule runs_bnd)

lemma runs_InrD: "runs m P \<Longrightarrow> m = (Inr x, s) \<Longrightarrow> P x s"
  by (simp add: runs_def)

section \<open>Linked lists threaded through a table\<close>

primrec chain :: "(int \<Rightarrow> int) \<Rightarrow> int \<Rightarrow> int list \<Rightarrow> bool" where
  "chain nx a [] = (a = 0)"
| "chain nx a (x # xs) = (a = x \<and> a \<noteq> 0 \<and> chain nx (nx a) xs)"

lemma chain_0 [simp]: "chain nx 0 xs = (xs = [])"
  by (cases xs) auto

lemma chain_nonzero: "a \<noteq> 0 \<Longrightarrow> chain nx a xs = (\<exists>ys. xs = a # ys \<and> chain nx (nx a) ys)"
  by (cases xs) auto

lemma chain_unique: "chain nx a xs \<Longrightarrow> chain nx a ys \<Longrightarrow> xs = ys"
proof (induction xs arbitrary: a ys)
  case Nil
  then show ?case by simp
next
  case (Cons x xs)
  then show ?case by (cases ys) auto
qed

lemma chain_cong: "(\<And>x. x \<in> set xs \<Longrightarrow> nx x = nx' x) \<Longrightarrow> chain nx a xs = chain nx' a xs"
  by (induction xs arbitrary: a) auto

lemma chain_upd_notin: "u \<notin> set xs \<Longrightarrow> chain (nx(u := v)) a xs = chain nx a xs"
  by (rule chain_cong) auto

lemma chain_nz: "chain nx a xs \<Longrightarrow> 0 \<notin> set xs"
  by (induction xs arbitrary: a) auto

end
