(* ===== verification/Prime.thy ===== *)
theory Prime
  imports Prelude "HOL-Library.Word"
begin

unbundle bit_operations_syntax

text \<open>
  Model of \<^verbatim>\<open>src/prime.c\<close>: the Miller-Rabin search for table sizes.
  The C library's \<open>rand()\<close> is a stream \<open>R\<close> of naturals with a read position;
  \<open>rand() % 0\<close> is undefined behaviour and is the outcome \<open>Trap\<close>.
  Numbers are C \<open>unsigned int\<close>, kept below \<open>2^32\<close> by the explicit \<open>mod\<close>;
  the 64-bit product of \<open>u64_mulmod\<close> does not overflow for sizes below \<open>2^31\<close>, which
  is all the callers ask for.
\<close>

type_synonym rng = "nat \<Rightarrow> nat"

definition CHECKTIMES :: nat where "CHECKTIMES = 20"

definition isEven :: "nat \<Rightarrow> bool" where "isEven src = (\<not> bit src 0)"

definition hasFactor :: "nat \<Rightarrow> nat \<Rightarrow> bool" where
  "hasFactor src n = (src \<noteq> n \<and> src mod n = 0)"

definition BitIsSet :: "nat \<Rightarrow> nat \<Rightarrow> bool" where "BitIsSet src b = bit src b"

definition u64_mulmod :: "nat \<Rightarrow> nat \<Rightarrow> nat \<Rightarrow> nat" where
  "u64_mulmod a b c = (a * b) mod c"

fun numberOfBits_loop :: "nat \<Rightarrow> nat \<Rightarrow> nat" where
  "numberOfBits_loop src 0 = 1"
| "numberOfBits_loop src (Suc b) =
     (if BitIsSet src (Suc b) then Suc b + 1 else numberOfBits_loop src b)"

definition numberOfBits :: "nat \<Rightarrow> nat" where
  "numberOfBits src = (if src = 0 then 0 else numberOfBits_loop src 31)"

text \<open>The loop of \<open>isWitness\<close>; \<open>Suc i\<close> stands for the loop counter \<open>i\<close>.\<close>

fun isWitness_loop :: "nat \<Rightarrow> nat \<Rightarrow> nat \<Rightarrow> nat \<Rightarrow> bool" where
  "isWitness_loop witness src 0 d = (d \<noteq> 1)"
| "isWitness_loop witness src (Suc i) d =
     (let x = d; d' = u64_mulmod d d src in
      if d' = 1 \<and> x \<noteq> 1 \<and> x \<noteq> src - 1 then True
      else isWitness_loop witness src i
             (if BitIsSet (src - 1) i then u64_mulmod d' witness src else d'))"

definition isWitness :: "nat \<Rightarrow> nat \<Rightarrow> bool" where
  "isWitness witness src = isWitness_loop witness src (numberOfBits (src - 1)) 1"

primrec isMillerRabinPrime_loop :: "nat \<Rightarrow> rng \<Rightarrow> nat \<Rightarrow> nat \<Rightarrow> (exn + bool) \<times> nat" where
  "isMillerRabinPrime_loop 0 R src p = (Inr True, p)"
| "isMillerRabinPrime_loop (Suc n) R src p =
     (if src - 1 = 0 then (Inl Trap, p)
      else if isWitness (R p mod (src - 1) + 1) src then (Inr False, Suc p)
      else isMillerRabinPrime_loop n R src (Suc p))"

definition isMillerRabinPrime :: "rng \<Rightarrow> nat \<Rightarrow> nat \<Rightarrow> (exn + bool) \<times> nat" where
  "isMillerRabinPrime R src p = isMillerRabinPrime_loop CHECKTIMES R src p"

definition hasEasyFactors :: "nat \<Rightarrow> bool" where
  "hasEasyFactors src =
     (hasFactor src 3 \<or> hasFactor src 5 \<or> hasFactor src 7 \<or> hasFactor src 11 \<or> hasFactor src 13)"

definition isPrime :: "rng \<Rightarrow> nat \<Rightarrow> nat \<Rightarrow> (exn + bool) \<times> nat" where
  "isPrime R src p = (if hasEasyFactors src then (Inr False, p) else isMillerRabinPrime R src p)"

text \<open>The two searches may in principle not end: \<open>None\<close> is non-termination.\<close>

partial_function (option) prime_gte_loop ::
    "rng \<Rightarrow> nat \<Rightarrow> nat \<Rightarrow> ((exn + nat) \<times> nat) option" where
  "prime_gte_loop R src p =
     (case isPrime R src p of
        (Inl e, p') \<Rightarrow> Some (Inl e, p')
      | (Inr b, p') \<Rightarrow> if b then Some (Inr src, p')
                     else prime_gte_loop R ((src + 2) mod 2 ^ 32) p')"

definition bdd_prime_gte :: "rng \<Rightarrow> nat \<Rightarrow> nat \<Rightarrow> ((exn + nat) \<times> nat) option" where
  "bdd_prime_gte R src p = prime_gte_loop R (if isEven src then (src + 1) mod 2 ^ 32 else src) p"

partial_function (option) prime_lte_loop ::
    "rng \<Rightarrow> nat \<Rightarrow> nat \<Rightarrow> ((exn + nat) \<times> nat) option" where
  "prime_lte_loop R src p =
     (case isPrime R src p of
        (Inl e, p') \<Rightarrow> Some (Inl e, p')
      | (Inr b, p') \<Rightarrow> if b then Some (Inr src, p')
                     else prime_lte_loop R ((src + (2 ^ 32 - 2)) mod 2 ^ 32) p')"

definition bdd_prime_lte :: "rng \<Rightarrow> nat \<Rightarrow> nat \<Rightarrow> ((exn + nat) \<times> nat) option" where
  "bdd_prime_lte R src p =
     prime_lte_loop R (if isEven src then (src + (2 ^ 32 - 1)) mod 2 ^ 32 else src) p"

end
