(* ===== verification/State.thy ===== *)
theory State
  imports Prime Complex_Main
begin

text \<open>
  The global state of the library (the globals of \<^verbatim>\<open>kernel.c\<close>,
  \<^verbatim>\<open>bddop.c\<close>, \<^verbatim>\<open>reorder.c\<close>, \<^verbatim>\<open>pairs.c\<close> and
  \<^verbatim>\<open>mtbdd.c\<close> that the modelled functions use) as records, and the macros of
  \<^verbatim>\<open>kernel.h\<close> as accessors and updates on it.

  C \<open>int\<close>s are \<open>int\<close>; the places where a width matters (hashes, the
  reference-count and level bit fields, the table size) write the bound out. The node table, the
  caches and the per-level arrays are functions from indices together with their size, so that a
  write is a function update; the invariants of the other theories show that every index used is
  below the size.
\<close>

type_synonym BDD = int

section \<open>Constants\<close>

definition MAXLEVEL :: int where "MAXLEVEL = 0x1FFFFF"
definition MAXVAR :: int where "MAXVAR = 0x1FFFFF"
definition MAXREF :: int where "MAXREF = 0x3FF"
definition DEFAULTMAXNODEINC :: int where "DEFAULTMAXNODEINC = 50000"
definition INT_MAX :: int where "INT_MAX = 2 ^ 31 - 1"

definition bddtrue :: BDD where "bddtrue = 1"
definition bddfalse :: BDD where "bddfalse = 0"

definition BDD_MEMORY :: int where "BDD_MEMORY = -1"
definition BDD_VAR :: int where "BDD_VAR = -2"
definition BDD_RANGE :: int where "BDD_RANGE = -3"
definition BDD_DEREF :: int where "BDD_DEREF = -4"
definition BDD_RUNNING :: int where "BDD_RUNNING = -5"
definition BDD_BREAK :: int where "BDD_BREAK = -9"
definition BDD_NODES :: int where "BDD_NODES = -11"
definition BDD_OP :: int where "BDD_OP = -12"
definition BDD_VARSET :: int where "BDD_VARSET = -13"
definition BDD_VARBLK :: int where "BDD_VARBLK = -14"
definition BDD_DECVNUM :: int where "BDD_DECVNUM = -15"
definition BDD_REPLACE :: int where "BDD_REPLACE = -16"
definition BDD_NODENUM :: int where "BDD_NODENUM = -17"
definition BDD_ILLBDD :: int where "BDD_ILLBDD = -18"
definition BDD_SIZE :: int where "BDD_SIZE = -19"
definition BDD_ERRNUM :: int where "BDD_ERRNUM = 24"

lemmas error_codes =
  BDD_MEMORY_def BDD_VAR_def BDD_RANGE_def BDD_DEREF_def BDD_RUNNING_def BDD_BREAK_def
  BDD_NODES_def BDD_OP_def BDD_VARSET_def BDD_VARBLK_def BDD_DECVNUM_def BDD_REPLACE_def BDD_NODENUM_def
  BDD_ILLBDD_def BDD_SIZE_def

section \<open>Records\<close>

text \<open>
  A table entry. The union of the C struct is kept as its two words: for a terminal with an
  external value the first word is \<open>index\<close> and the second \<open>type\<close>, so that
  \<open>low = -1\<close> is a type of all ones; for an inline value the first word is the value.
\<close>

record BddNode =
  n_high :: int
  n_low :: int
  n_refcou :: int
  n_level :: int
  n_mark :: bool
  n_hash :: int
  n_next :: int

text \<open>
  A cache entry; the two members of the union \<open>r\<close> are separate fields, since the operation
  stored in \<open>c\<close> decides which of the two an entry holds. A cache with
  \<open>tablesize = 0\<close> has a \<open>NULL\<close> table.
\<close>

record BddCacheData =
  c_res :: int
  c_dres :: real
  c_r2 :: int
  c_a :: int
  c_b :: int
  c_c :: int
  c_d :: int
  c_generation :: int

record BddCache =
  table :: "int \<Rightarrow> BddCacheData"
  tablesize :: int
  current_generation :: int

record bddCaches =
  applycache :: BddCache
  itecache :: BddCache
  quantcache :: BddCache
  appexcache :: BddCache
  replacecache :: BddCache
  misccache :: BddCache
  mtbdd_cache_apply :: BddCache
  mtbdd_cache_ite :: BddCache
  mtbdd_cache_operation :: BddCache
  g_cache_registry :: "BddCache list"

text \<open>
  Terminal values of MTBDDs (\<^verbatim>\<open>mtbdd.c\<close>, \<^verbatim>\<open>terminal.c\<close>).
  A stored value is its 64-bit pattern, or the address of a custom value (0 is \<open>NULL\<close>).
  User callbacks are functions on addresses.
\<close>

datatype domainTypes =
  NODOMAIN | INTVAL | FLOATVAL | CHARVAL | UNSIGNEDVAL | DOUBLEVAL | LDOUBLEVAL | LONGVAL
| ULONGVAL | CUSTOM

record mtbdd_terminal_functions =
  hashfun :: "(int \<Rightarrow> int) option"
  comparefun :: "(int \<Rightarrow> int \<Rightarrow> bool) option"
  freefun :: "nat option"
  toStrFun :: "nat option"

record mtbddValues =
  domaintype :: domainTypes
  vals :: "int \<Rightarrow> int"
  indexstack :: "int list"
  mtbddTerminalUsed :: int
  mtbddmaxTerminalSize :: int
  mtbddLastValueIndex :: int
  mtbdd_terminal_functions_list :: "mtbdd_terminal_functions list"
  mtbdd_terminal_type_size :: int

text \<open>The error hook: none, the default handler (which exits), or a user's function.\<close>

datatype errhandler = NoHandler | DefaultHandler | UserHandler nat

text \<open>Calls of user code and of the allocator that the model records.\<close>

datatype event =
    EvError nat int            \<comment> \<open>user error handler called with a code\<close>
  | EvGbc bool int int int     \<comment> \<open>gbc handler: pre?, nodes, free nodes, number\<close>
  | EvResize int int           \<comment> \<open>resize handler: old and new size\<close>
  | EvFreefun nat int          \<comment> \<open>a type's free callback on a value\<close>
  | EvFree int                 \<comment> \<open>\<open>free\<close> of a custom value\<close>
  | EvReorder nat int          \<comment> \<open>reorder handler called with its flag\<close>
  | EvAllsat "int list"        \<comment> \<open>\<open>bdd_allsat\<close> handler called on a profile\<close>

text \<open>\<open>p_addr\<close> is the pointer itself; \<open>p_result\<close> the array indexed by level.\<close>

record bddPair =
  p_addr :: nat
  p_result :: "int \<Rightarrow> BDD"
  p_last :: int
  p_id :: int

text \<open>A finite-domain block of \<^verbatim>\<open>fdd.c\<close>; \<open>d_ivar\<close> has \<open>d_binsize\<close> entries.\<close>

record Domain =
  d_realsize :: int
  d_binsize :: int
  d_ivar :: "int list"
  d_var :: BDD

text \<open>The static variables of \<^verbatim>\<open>bddop.c\<close>.\<close>

record opglobals =
  applyop :: int
  appexop :: int
  appexid :: int
  quantid :: int
  quantvarset :: "int \<Rightarrow> int"
  quantvarsetID :: int
  quantlast :: int
  replaceid :: int
  replacepair :: "int \<Rightarrow> BDD"
  replacelast :: int
  composelevel :: int
  miscid :: int
  supportID :: int
  supportMin :: int
  supportMax :: int
  supportSet :: "int \<Rightarrow> int"
  supportSize :: int
  cacheratio :: int
  satPolarity :: int

text \<open>
  Reordering: the sub-tables of the unique table, indexed by variable; the interaction matrix; a
  variable block with the addresses of its neighbours and of its first sub-block (0 is \<open>NULL\<close>);
  the static variables of \<^verbatim>\<open>reorder.c\<close>. \<open>extroots\<close> has \<open>extrootsize\<close> entries.
  The hooks are numbers for user functions; the results of the user's size function
  are the stream \<open>probe\<close>. \<open>tree_nodes\<close> is the store of blocks, \<open>tree_next\<close> the next address.
\<close>

record levelData =
  lv_start :: int
  lv_size :: int
  lv_maxsize :: int
  lv_nodenum :: int

record imatrix =
  im_rows :: "int \<Rightarrow> int \<Rightarrow> int"
  im_size :: int

record BddTree =
  t_first :: int
  t_last :: int
  t_pos :: int
  t_seq :: "int list"
  t_fixed :: int
  t_id :: int
  t_next :: nat
  t_prev :: nat
  t_nextlevel :: nat

datatype reohandler = NoReohandler | DefaultReohandler | UserReohandler nat

record reorder_globals =
  rlevels :: "int \<Rightarrow> levelData"
  iactmtx :: imatrix
  extroots :: "int list"
  resizedInMakenode :: bool
  tree_nodes :: "nat \<Rightarrow> BddTree"
  tree_next :: nat
  blockid :: int
  verbose :: int
  reorder_handler :: reohandler
  reorder_filehandler :: "nat option"
  reorder_nodenum :: "nat option"
  probe :: "nat \<Rightarrow> int"
  probepos :: nat

record bdd_state =
  bddrunning :: bool
  bdderrorcond :: int
  bddnodesize :: int
  bddmaxnodesize :: int
  bddmaxnodeincrease :: int
  bddnodes :: "int \<Rightarrow> BddNode"
  bddfreepos :: int
  bddfreenum :: int
  bddproduced :: int
  bddvarnum :: int
  bddrefstack :: "int list"
  bddrefslots :: int
  bddvar2level :: "int \<Rightarrow> int"
  bddlevel2var :: "int \<Rightarrow> int"
  bddvarset :: "int \<Rightarrow> BDD"
  bddresized :: bool
  checkSameChildren :: bool
  mtbdd :: bool
  gbcollectnum :: int
  cachesize :: int
  usednodes_nextreorder :: int
  minfreenodes :: int
  err_handler :: errhandler
  gbc_handler :: "nat option"
  resize_handler :: "nat option"
  reorderdisabled :: bool
  bddreordermethod :: int
  bddreordertimes :: int
  vartree :: nat
  reo :: reorder_globals
  usednum_before :: int
  usednum_after :: int
  caches :: bddCaches
  ops :: opglobals
  mtvals :: mtbddValues
  pairsid :: int
  pairs :: "bddPair list"
  pairs_freed :: bool
  next_addr :: nat
  firstbddvar :: int
  fdvaralloc :: int
  fdvarnum :: int
  domain :: "(int \<Rightarrow> Domain) option"
  rand :: rng
  randpos :: nat
  memlimit :: int
  trace :: "event list"

text \<open>
  \<open>vartree\<close> is the address of the first variable block;
  \<open>bddrefslots\<close> is the length of the reference-stack array (0 while it is
  \<open>NULL\<close>), \<open>memlimit\<close> the number of entries the allocator can provide for one
  table, \<open>rand\<close> and \<open>randpos\<close> the random stream. \<open>pairs_freed\<close> says that the
  list of pairs points to freed memory (after \<open>bdd_pairs_done\<close>), \<open>next_addr\<close> is the next
  address \<open>malloc\<close> returns for a pair.
\<close>

type_synonym 'a bm = "(exn + 'a) \<times> bdd_state"

end
