(* ===== verification/Macros.thy ===== *)
theory Macros
  imports State
begin

text \<open>
  The macros of \<^verbatim>\<open>kernel.h\<close>, \<^verbatim>\<open>cache.h\<close> and
  \<^verbatim>\<open>mtbdd.h\<close>: node accessors, reference counts, the hash functions with their 32
  and 64 bit wrap-around, the internal reference stack, the argument checks and error reporting.
\<close>

unbundle bit_operations_syntax

section \<open>Nodes\<close>

definition LEVEL :: "bdd_state \<Rightarrow> BDD \<Rightarrow> int" where "LEVEL s n = n_level (bddnodes s n)"
definition LOW :: "bdd_state \<Rightarrow> BDD \<Rightarrow> BDD" where "LOW s n = n_low (bddnodes s n)"
definition HIGH :: "bdd_state \<Rightarrow> BDD \<Rightarrow> BDD" where "HIGH s n = n_high (bddnodes s n)"

definition ISCONST :: "BDD \<Rightarrow> bool" where "ISCONST a = (a < 2)"
definition ISONE :: "BDD \<Rightarrow> bool" where "ISONE a = (a = 1)"
definition ISZERO :: "BDD \<Rightarrow> bool" where "ISZERO a = (a = 0)"

definition MARKED :: "bdd_state \<Rightarrow> BDD \<Rightarrow> bool" where "MARKED s n = n_mark (bddnodes s n)"

definition upd_node :: "(BddNode \<Rightarrow> BddNode) \<Rightarrow> int \<Rightarrow> bdd_state \<Rightarrow> bdd_state" where
  "upd_node f n s = s\<lparr>bddnodes := (bddnodes s)(n := f (bddnodes s n))\<rparr>"

definition SETMARK :: "BDD \<Rightarrow> bdd_state \<Rightarrow> bdd_state" where
  "SETMARK n = upd_node (\<lambda>d. d\<lparr>n_mark := True\<rparr>) n"
definition UNMARK :: "BDD \<Rightarrow> bdd_state \<Rightarrow> bdd_state" where
  "UNMARK n = upd_node (\<lambda>d. d\<lparr>n_mark := False\<rparr>) n"

definition HASREF :: "bdd_state \<Rightarrow> BDD \<Rightarrow> bool" where
  "HASREF s n = (0 < n_refcou (bddnodes s n))"
definition INCREF :: "BDD \<Rightarrow> bdd_state \<Rightarrow> bdd_state" where
  "INCREF n s =
     (if n_refcou (bddnodes s n) < MAXREF
      then upd_node (\<lambda>d. d\<lparr>n_refcou := n_refcou d + 1\<rparr>) n s else s)"
definition DECREF :: "BDD \<Rightarrow> bdd_state \<Rightarrow> bdd_state" where
  "DECREF n s =
     (if n_refcou (bddnodes s n) \<noteq> MAXREF \<and> 0 < n_refcou (bddnodes s n)
      then upd_node (\<lambda>d. d\<lparr>n_refcou := n_refcou d - 1\<rparr>) n s else s)"

definition DOMAIN_NOT_SHORT :: "bdd_state \<Rightarrow> bool" where
  "DOMAIN_NOT_SHORT s = (domaintype (mtvals s) \<notin> {INTVAL, FLOATVAL, UNSIGNEDVAL})"

definition ISTERMINAL :: "bdd_state \<Rightarrow> BDD \<Rightarrow> bool" where
  "ISTERMINAL s a = (LEVEL s a = MAXLEVEL \<and> LOW s a \<noteq> -1)"

section \<open>Hash functions\<close>

definition u32 :: "int \<Rightarrow> int" where "u32 x = x mod 2 ^ 32"
definition u64 :: "int \<Rightarrow> int" where "u64 x = x mod 2 ^ 64"

definition PAIR :: "int \<Rightarrow> int \<Rightarrow> int" where
  "PAIR a b = (let x = u32 (u32 a + u32 b) in u32 (u32 (x * u32 (x + 1)) div 2 + u32 a))"

definition HASH_K0 :: int where "HASH_K0 = 0xC13FA9A99E3779B9"
definition HASH_K1 :: int where "HASH_K1 = 0x91E10DA5C79E7B1D"
definition HASH_K2 :: int where "HASH_K2 = 0xC2B2AE3D27D4EB4F"

definition HASH_W2 :: "int \<Rightarrow> int \<Rightarrow> int" where
  "HASH_W2 a b = push_bit 32 (u32 a) OR u32 b"
definition HASH_FOLD :: "int \<Rightarrow> int" where
  "HASH_FOLD x = u32 (drop_bit 32 (x XOR u64 (push_bit 32 x)))"
definition HASH1 :: "int \<Rightarrow> int" where
  "HASH1 a = u32 (u32 a * u32 HASH_K0)"
definition HASH2 :: "int \<Rightarrow> int \<Rightarrow> int" where
  "HASH2 a b = HASH_FOLD (u64 (HASH_W2 a b * HASH_K0))"
definition HASH3 :: "int \<Rightarrow> int \<Rightarrow> int \<Rightarrow> int" where
  "HASH3 a b c = HASH_FOLD (u64 (u64 (HASH_W2 a b * HASH_K0) + u64 (u32 c * HASH_K1)))"
definition HASHNODE :: "int \<Rightarrow> int \<Rightarrow> int \<Rightarrow> int" where
  "HASHNODE lvl l h =
     u32 (drop_bit 32 (u64 ((HASH_W2 l h XOR u64 (u32 lvl * HASH_K1)) * HASH_K0)))"
definition HASHRANGE :: "int \<Rightarrow> int \<Rightarrow> int" where
  "HASHRANGE h n = u32 (drop_bit 32 (u64 (u32 h * u32 n)))"

definition NODEHASH :: "bdd_state \<Rightarrow> int \<Rightarrow> int \<Rightarrow> int \<Rightarrow> int" where
  "NODEHASH s lvl l h = HASHRANGE (HASHNODE lvl l h) (bddnodesize s)"

lemma HASHRANGE_range:
  assumes "0 < n" "n < 2 ^ 32"
  shows "0 \<le> HASHRANGE h n \<and> HASHRANGE h n < n"
proof -
  let ?p = "u32 h * n"
  have h: "0 \<le> u32 h" "u32 h < 2 ^ 32" by (simp_all add: u32_def)
  have n: "u32 n = n" using assms by (simp add: u32_def)
  have lt0: "u32 h * n < 2 ^ 32 * n" using h assms by (intro mult_strict_right_mono) auto
  then have lt: "?p div 2 ^ 32 < n" using zdiv_mono1 [of ?p "2 ^ 32 * n - 1" "2 ^ 32"] by simp
  have p0: "0 \<le> ?p" using h assms by simp
  have "2 ^ 32 * n < 2 ^ 32 * (2 ^ 32 :: int)" using assms by (intro mult_strict_left_mono) auto
  with lt0 have "?p < 2 ^ 32 * 2 ^ 32" by (rule less_trans)
  then have "?p < 2 ^ 64" by simp
  then have "u64 ?p = ?p" using p0 by (simp add: u64_def)
  moreover have "u32 (?p div 2 ^ 32) = ?p div 2 ^ 32"
    using lt p0 assms by (simp add: u32_def pos_imp_zdiv_nonneg_iff)
  moreover have "0 \<le> ?p div 2 ^ 32" using p0 by (simp add: pos_imp_zdiv_nonneg_iff)
  ultimately show ?thesis using lt by (simp add: HASHRANGE_def n drop_bit_eq_div)
qed

section \<open>Errors and argument checks\<close>

definition bdd_error :: "int \<Rightarrow> bdd_state \<Rightarrow> int bm" where
  "bdd_error e s = (case err_handler s of
      NoHandler \<Rightarrow> ret e s
    | DefaultHandler \<Rightarrow> fail (Exit (abs e)) s
    | UserHandler h \<Rightarrow> ret e (s\<lparr>trace := trace s @ [EvError h e]\<rparr>))"

definition errorstrings :: "string list" where
  "errorstrings =
    [''Out of memory'', ''Unknown variable'', ''Value out of range'',
     ''Unknown BDD root dereferenced'', ''bdd_init() called twice'',
     ''File operation failed'', ''Incorrect file format'',
     ''Variables not in ascending order'', ''User called break'',
     ''Mismatch in size of variable sets'',
     ''Cannot allocate fewer nodes than already in use'',
     ''Unknown operator'', ''Illegal variable set'',
     ''Bad variable block operation'',
     ''Trying to decrease the number of variables'',
     ''Trying to replace with variables already in the bdd'',
     ''Number of nodes reached user defined maximum'',
     ''Unknown BDD - was not in node table'',
     ''Bad size argument'',
     ''Mismatch in bitvector size'',
     ''Illegal shift-left/right parameter'',
     ''Division by zero'']"

text \<open>The array has \<open>BDD_ERRNUM\<close> entries; the ones without an initialiser are \<open>NULL\<close>.\<close>

definition bdd_errstring :: "int \<Rightarrow> string option" where
  "bdd_errstring e0 = (let e = abs e0 in
     if e < 1 \<or> e > BDD_ERRNUM then None
     else if nat (e - 1) < length errorstrings then Some (errorstrings ! nat (e - 1)) else None)"

text \<open>
  \<open>CHECK\<close> and \<open>CHECKa\<close> share the test \<open>check_code\<close>; they differ in what
  the enclosing function returns.
\<close>

definition check_code :: "BDD \<Rightarrow> bdd_state \<Rightarrow> int" where
  "check_code r s =
     (if \<not> bddrunning s then BDD_RUNNING
      else if r < 0 \<or> r \<ge> bddnodesize s then BDD_ILLBDD
      else if r \<ge> 2 \<and> LOW s r = -1 then BDD_ILLBDD
      else 0)"

definition CHECK :: "BDD \<Rightarrow> bdd_state \<Rightarrow> (bdd_state \<Rightarrow> int bm) \<Rightarrow> int bm" where
  "CHECK r s k = (if check_code r s \<noteq> 0 then bdd_error (check_code r s) s else k s)"

definition CHECKa :: "BDD \<Rightarrow> 'a \<Rightarrow> bdd_state \<Rightarrow> (bdd_state \<Rightarrow> 'a bm) \<Rightarrow> 'a bm" where
  "CHECKa r a s k =
     (if check_code r s \<noteq> 0 then bnd (bdd_error (check_code r s) s) (\<lambda>_ s. ret a s) else k s)"

section \<open>The internal reference stack\<close>

text \<open>The top of the stack is the head of the list.\<close>

definition INITREF :: "bdd_state \<Rightarrow> bdd_state" where
  "INITREF s = s\<lparr>bddrefstack := []\<rparr>"

definition PUSHREF :: "BDD \<Rightarrow> bdd_state \<Rightarrow> BDD bm" where
  "PUSHREF a s =
     (if bddrefslots s \<le> int (length (bddrefstack s)) then fail Abort s
      else ret a (s\<lparr>bddrefstack := a # bddrefstack s\<rparr>))"

definition READREF :: "nat \<Rightarrow> bdd_state \<Rightarrow> BDD" where
  "READREF a s = bddrefstack s ! (a - 1)"

definition POPREF :: "nat \<Rightarrow> bdd_state \<Rightarrow> unit bm" where
  "POPREF a s =
     (if length (bddrefstack s) < a then fail Abort s
      else ret () (s\<lparr>bddrefstack := drop a (bddrefstack s)\<rparr>))"

section \<open>Reordering switches (\<^verbatim>\<open>reorder.c\<close>)\<close>

definition bdd_disable_reorder :: "bdd_state \<Rightarrow> bdd_state" where
  "bdd_disable_reorder s = s\<lparr>reorderdisabled := True\<rparr>"

definition bdd_enable_reorder :: "bdd_state \<Rightarrow> bdd_state" where
  "bdd_enable_reorder s = s\<lparr>reorderdisabled := False\<rparr>"

definition BDD_REORDER_NONE :: int where "BDD_REORDER_NONE = 0"

definition bdd_reorder_ready :: "bdd_state \<Rightarrow> bool" where
  "bdd_reorder_ready s =
     (\<not> (bddreordermethod s = BDD_REORDER_NONE \<or> vartree s = 0 \<or> bddreordertimes s = 0 \<or>
         reorderdisabled s))"

definition bdd_autoreorder :: "int \<Rightarrow> bdd_state \<Rightarrow> int bm" where
  "bdd_autoreorder m s =
     ret (bddreordermethod s) (s\<lparr>bddreordermethod := m, bddreordertimes := -1\<rparr>)"

definition bdd_autoreorder_times :: "int \<Rightarrow> int \<Rightarrow> bdd_state \<Rightarrow> int bm" where
  "bdd_autoreorder_times m num s =
     ret (bddreordermethod s) (s\<lparr>bddreordermethod := m, bddreordertimes := num\<rparr>)"

text \<open>C division truncates towards zero.\<close>

definition cdiv :: "int \<Rightarrow> int \<Rightarrow> int" where
  "cdiv a b = sgn a * sgn b * (\<bar>a\<bar> div \<bar>b\<bar>)"

definition bdd_reorder_gain :: "bdd_state \<Rightarrow> int" where
  "bdd_reorder_gain s =
     (if usednum_before s = 0 then 0
      else cdiv (100 * (usednum_before s - usednum_after s)) (usednum_before s))"

end
