(* ===== verification/Cache.thy ===== *)
theory Cache
  imports Macros
begin

text \<open>
  Model of \<^verbatim>\<open>src/cache.c\<close>, \<^verbatim>\<open>cache.h\<close> and
  \<^verbatim>\<open>mtbdd_cache_registry.c\<close>: direct-mapped operation caches whose entries are
  invalidated all at once by bumping a generation counter. A cache passed by pointer in C is
  returned updated.

  The interface the operations rely on is the locale \<open>entry_cache\<close>: the set of valid
  entries, emptied by \<open>reset\<close> and extended by at most the new entry in \<open>store\<close>.
\<close>

definition s32 :: "int \<Rightarrow> int" where "s32 x = (x + 2 ^ 31) mod 2 ^ 32 - 2 ^ 31"

text \<open>The prime search on the state's random stream.\<close>

definition prime_gte_st :: "int \<Rightarrow> bdd_state \<Rightarrow> int bm" where
  "prime_gte_st n s = (case bdd_prime_gte (rand s) (nat (u32 n)) (randpos s) of
      None \<Rightarrow> fail Nofuel s
    | Some (Inl e, p) \<Rightarrow> fail e (s\<lparr>randpos := p\<rparr>)
    | Some (Inr r, p) \<Rightarrow> ret (s32 (int r)) (s\<lparr>randpos := p\<rparr>))"

definition prime_lte_st :: "int \<Rightarrow> bdd_state \<Rightarrow> int bm" where
  "prime_lte_st n s = (case bdd_prime_lte (rand s) (nat (u32 n)) (randpos s) of
      None \<Rightarrow> fail Nofuel s
    | Some (Inl e, p) \<Rightarrow> fail e (s\<lparr>randpos := p\<rparr>)
    | Some (Inr r, p) \<Rightarrow> ret (s32 (int r)) (s\<lparr>randpos := p\<rparr>))"

text \<open>The allocator: a request beyond \<open>memlimit\<close> entries stops the model.\<close>

definition alloc :: "int \<Rightarrow> bdd_state \<Rightarrow> unit bm" where
  "alloc n s = (if n \<le> memlimit s then ret () s else fail Oom s)"

section \<open>Caches\<close>

definition zero_entry :: BddCacheData where
  "zero_entry = \<lparr>c_res = 0, c_dres = 0, c_r2 = 0, c_a = 0, c_b = 0, c_c = 0, c_d = 0,
                 c_generation = 0\<rparr>"

definition null_cache :: BddCache where
  "null_cache = \<lparr>table = (\<lambda>_. zero_entry), tablesize = 0, current_generation = 0\<rparr>"

definition BddCache_init :: "int \<Rightarrow> bdd_state \<Rightarrow> BddCache bm" where
  "BddCache_init size0 s =
     bnd (prime_gte_st size0 s) (\<lambda>size s.
     bnd (alloc size s) (\<lambda>_ s.
     ret \<lparr>table = (\<lambda>_. zero_entry), tablesize = size, current_generation = 1\<rparr> s))"

definition BddCache_done :: "BddCache \<Rightarrow> BddCache" where
  "BddCache_done c = c\<lparr>table := (\<lambda>_. zero_entry), tablesize := 0\<rparr>"

definition BddCache_resize :: "int \<Rightarrow> BddCache \<Rightarrow> bdd_state \<Rightarrow> BddCache bm" where
  "BddCache_resize newsize0 c s =
     bnd (prime_gte_st newsize0 s) (\<lambda>newsize s.
     bnd (alloc newsize s) (\<lambda>_ s.
     ret (c\<lparr>table := (\<lambda>_. zero_entry), current_generation := current_generation c + 1,
            tablesize := newsize\<rparr>) s))"

definition BddCache_reset :: "BddCache \<Rightarrow> BddCache" where
  "BddCache_reset c = c\<lparr>current_generation := current_generation c + 1\<rparr>"

text \<open>The pointer to an entry is its index in the table.\<close>

definition BddCache_lookup :: "BddCache \<Rightarrow> int \<Rightarrow> int" where
  "BddCache_lookup c h = HASHRANGE h (tablesize c)"

definition BddCache_is_valid :: "BddCache \<Rightarrow> int \<Rightarrow> bool" where
  "BddCache_is_valid c i = (c_generation (table c i) = current_generation c)"

text \<open>Writing an entry: the update of its fields, and the current generation.\<close>

definition write_entry :: "(BddCacheData \<Rightarrow> BddCacheData) \<Rightarrow> int \<Rightarrow> BddCache \<Rightarrow> BddCache" where
  "write_entry f i c =
     c\<lparr>table := (table c)(i := (f (table c i))\<lparr>c_generation := current_generation c\<rparr>)\<rparr>"

definition BddCache_store :: "int \<Rightarrow> int \<Rightarrow> int \<Rightarrow> int \<Rightarrow> int \<Rightarrow> BddCache \<Rightarrow> BddCache" where
  "BddCache_store i a b c r = write_entry (\<lambda>e. e\<lparr>c_a := a, c_b := b, c_c := c, c_d := -1, c_res := r\<rparr>) i"

section \<open>The registry of local caches\<close>

definition MtbddCache_registry_reset_all :: "bddCaches \<Rightarrow> bddCaches" where
  "MtbddCache_registry_reset_all cs = cs\<lparr>g_cache_registry := map BddCache_reset (g_cache_registry cs)\<rparr>"

definition MtbddCache_registry_register :: "BddCache \<Rightarrow> bddCaches \<Rightarrow> bddCaches" where
  "MtbddCache_registry_register c cs = cs\<lparr>g_cache_registry := c # g_cache_registry cs\<rparr>"

section \<open>The interface\<close>

locale entry_cache =
  fixes entries :: "'c \<Rightarrow> 'e set"
    and wf :: "'c \<Rightarrow> bool"
    and reset :: "'c \<Rightarrow> 'c"
    and store :: "('e \<Rightarrow> 'e) \<Rightarrow> 'i \<Rightarrow> 'c \<Rightarrow> 'c"
    and stored :: "('e \<Rightarrow> 'e) \<Rightarrow> 'i \<Rightarrow> 'c \<Rightarrow> 'e"
  assumes entries_reset: "wf c \<Longrightarrow> entries (reset c) = {}"
    and wf_reset: "wf c \<Longrightarrow> wf (reset c)"
    and entries_store: "entries (store f i c) \<subseteq> insert (stored f i c) (entries c)"
    and wf_store: "wf c \<Longrightarrow> wf (store f i c)"
begin

text \<open>All valid entries satisfy \<open>P\<close>: the shape of every cache invariant below.\<close>

definition all_ok :: "('e \<Rightarrow> bool) \<Rightarrow> 'c \<Rightarrow> bool" where
  "all_ok P c \<longleftrightarrow> wf c \<and> (\<forall>e\<in>entries c. P e)"

lemma all_ok_reset: "all_ok P c \<Longrightarrow> all_ok Q (reset c)"
  by (simp add: all_ok_def entries_reset wf_reset)

lemma all_ok_store: "all_ok P c \<Longrightarrow> P (stored f i c) \<Longrightarrow> all_ok P (store f i c)"
  using entries_store [of f i c] by (auto simp: all_ok_def wf_store)

lemma all_ok_mono: "all_ok P c \<Longrightarrow> (\<And>e. e \<in> entries c \<Longrightarrow> P e \<Longrightarrow> Q e) \<Longrightarrow> all_ok Q c"
  by (simp add: all_ok_def)

lemma all_ok_hit: "all_ok P c \<Longrightarrow> e \<in> entries c \<Longrightarrow> P e"
  by (simp add: all_ok_def)

lemma all_ok_wf: "all_ok P c \<Longrightarrow> wf c"
  by (simp add: all_ok_def)

end

definition valid_entries :: "BddCache \<Rightarrow> BddCacheData set" where
  "valid_entries c = {table c i | i. BddCache_is_valid c i}"

definition cache_wf :: "BddCache \<Rightarrow> bool" where
  "cache_wf c = (0 \<le> current_generation c \<and> (\<forall>i. c_generation (table c i) \<le> current_generation c))"

definition written :: "(BddCacheData \<Rightarrow> BddCacheData) \<Rightarrow> int \<Rightarrow> BddCache \<Rightarrow> BddCacheData" where
  "written f i c = (f (table c i))\<lparr>c_generation := current_generation c\<rparr>"

interpretation bc: entry_cache valid_entries cache_wf BddCache_reset write_entry written
proof
  fix c assume "cache_wf c"
  then have le: "c_generation (table c i) \<le> current_generation c" for i
    by (simp add: cache_wf_def)
  have "c_generation (table c i) \<noteq> current_generation c + 1" for i
    using le [of i] by linarith
  then show "valid_entries (BddCache_reset c) = {}"
    by (simp add: valid_entries_def BddCache_is_valid_def BddCache_reset_def)
  from \<open>cache_wf c\<close> show "cache_wf (BddCache_reset c)"
    by (auto simp: cache_wf_def BddCache_reset_def intro: order_trans)
next
  fix f i c
  show "valid_entries (write_entry f i c) \<subseteq> insert (written f i c) (valid_entries c)"
    by (auto simp: valid_entries_def BddCache_is_valid_def write_entry_def written_def split: if_splits)
next
  fix c f i assume "cache_wf c"
  then show "cache_wf (write_entry f i c)" by (auto simp: cache_wf_def write_entry_def)
qed

lemma valid_entry_in: "BddCache_is_valid c i \<Longrightarrow> table c i \<in> valid_entries c"
  by (auto simp: valid_entries_def)

abbreviation cache_ok :: "(BddCacheData \<Rightarrow> bool) \<Rightarrow> BddCache \<Rightarrow> bool" where
  "cache_ok \<equiv> bc.all_ok"

lemma write_entry_tablesize [simp]: "tablesize (write_entry f i c) = tablesize c"
  by (simp add: write_entry_def)

lemma BddCache_reset_tablesize [simp]: "tablesize (BddCache_reset c) = tablesize c"
  by (simp add: BddCache_reset_def)

lemma fresh_cache_ok: "0 < g \<Longrightarrow> cache_ok P \<lparr>table = (\<lambda>_. zero_entry), tablesize = n, current_generation = g\<rparr>"
  by (auto simp: bc.all_ok_def cache_wf_def valid_entries_def BddCache_is_valid_def zero_entry_def)

text \<open>A stored result is found again by the same lookup.\<close>

lemma store_then_lookup:
  "BddCache_is_valid (BddCache_store i a b c r ca) i \<and>
   table (BddCache_store i a b c r ca) i =
     (table ca i)\<lparr>c_a := a, c_b := b, c_c := c, c_d := -1, c_res := r,
        c_generation := current_generation ca\<rparr>"
  by (simp add: BddCache_store_def write_entry_def BddCache_is_valid_def)

end
