(* ===== verification/OpSetup.thy ===== *)
theory OpSetup
  imports Cache
begin

text \<open>
  Model of the setup part of \<^verbatim>\<open>src/bddop.c\<close>: creation, release, reset and
  resizing of the operator caches and of the per-variable table used for quantification.
  \<open>mtbdd_owned_cache_flush\<close> of \<^verbatim>\<open>mtbddop.cxx\<close> has an empty body.
\<close>

definition init_cache :: "((BddCache \<Rightarrow> BddCache) \<Rightarrow> bddCaches \<Rightarrow> bddCaches) \<Rightarrow> int \<Rightarrow> bdd_state \<Rightarrow> unit bm" where
  "init_cache upd n s =
     bnd (BddCache_init n s) (\<lambda>c s. ret () (s\<lparr>caches := upd (\<lambda>_. c) (caches s)\<rparr>))"

definition mtbdd_operator_init :: "int \<Rightarrow> bdd_state \<Rightarrow> int bm" where
  "mtbdd_operator_init n s =
     bnd (init_cache mtbdd_cache_apply_update n s) (\<lambda>_ s.
     bnd (init_cache mtbdd_cache_ite_update n s) (\<lambda>_ s.
     bnd (init_cache mtbdd_cache_operation_update n s) (\<lambda>_ s.
     ret 0 (s\<lparr>ops := (ops s)\<lparr>cacheratio := 0\<rparr>\<rparr>))))"

definition bdd_operator_init :: "int \<Rightarrow> bdd_state \<Rightarrow> int bm" where
  "bdd_operator_init n s =
     bnd (init_cache applycache_update n s) (\<lambda>_ s.
     bnd (init_cache itecache_update n s) (\<lambda>_ s.
     bnd (init_cache quantcache_update n s) (\<lambda>_ s.
     bnd (init_cache appexcache_update n s) (\<lambda>_ s.
     bnd (init_cache replacecache_update n s) (\<lambda>_ s.
     bnd (init_cache misccache_update n s) (\<lambda>_ s.
     bnd (mtbdd_operator_init n s) (\<lambda>_ s.
     ret 0 (s\<lparr>ops := (ops s)\<lparr>quantvarsetID := 0, quantvarset := (\<lambda>_. 0), cacheratio := 0,
                             supportSet := (\<lambda>_. 0), supportSize := 0\<rparr>\<rparr>))))))))"

definition mtbdd_operator_done :: "bdd_state \<Rightarrow> bdd_state" where
  "mtbdd_operator_done s =
     s\<lparr>ops := (ops s)\<lparr>quantvarset := (\<lambda>_. 0)\<rparr>,
       caches := (caches s)
        \<lparr>mtbdd_cache_apply := BddCache_done (mtbdd_cache_apply (caches s)),
         mtbdd_cache_ite := BddCache_done (mtbdd_cache_ite (caches s)),
         mtbdd_cache_operation := BddCache_done (mtbdd_cache_operation (caches s))\<rparr>\<rparr>"

definition bdd_operator_done :: "bdd_state \<Rightarrow> bdd_state" where
  "bdd_operator_done s0 = (let
     s = s0\<lparr>ops := (ops s0)\<lparr>quantvarset := (\<lambda>_. 0)\<rparr>,
       caches := (caches s0)
        \<lparr>applycache := BddCache_done (applycache (caches s0)),
         itecache := BddCache_done (itecache (caches s0)),
         quantcache := BddCache_done (quantcache (caches s0)),
         appexcache := BddCache_done (appexcache (caches s0)),
         replacecache := BddCache_done (replacecache (caches s0)),
         misccache := BddCache_done (misccache (caches s0))\<rparr>\<rparr>;
     s = mtbdd_operator_done s
     in s\<lparr>ops := (ops s)\<lparr>supportSet := (\<lambda>_. 0), supportSize := 0\<rparr>\<rparr>)"

definition mtbdd_operator_reset :: "bdd_state \<Rightarrow> bdd_state" where
  "mtbdd_operator_reset s =
     s\<lparr>caches := MtbddCache_registry_reset_all ((caches s)
        \<lparr>mtbdd_cache_apply := BddCache_reset (mtbdd_cache_apply (caches s)),
         mtbdd_cache_ite := BddCache_reset (mtbdd_cache_ite (caches s)),
         mtbdd_cache_operation := BddCache_reset (mtbdd_cache_operation (caches s))\<rparr>)\<rparr>"

definition bdd_operator_reset :: "bdd_state \<Rightarrow> bdd_state" where
  "bdd_operator_reset s =
     mtbdd_operator_reset (s\<lparr>caches := (caches s)
        \<lparr>applycache := BddCache_reset (applycache (caches s)),
         itecache := BddCache_reset (itecache (caches s)),
         quantcache := BddCache_reset (quantcache (caches s)),
         appexcache := BddCache_reset (appexcache (caches s)),
         replacecache := BddCache_reset (replacecache (caches s)),
         misccache := BddCache_reset (misccache (caches s))\<rparr>\<rparr>)"

definition bdd_operator_varresize :: "bdd_state \<Rightarrow> bdd_state" where
  "bdd_operator_varresize s =
     s\<lparr>ops := (ops s)\<lparr>quantvarset := (\<lambda>_. 0), quantvarsetID := 0\<rparr>,
       caches := (caches s)\<lparr>misccache := BddCache_reset (misccache (caches s))\<rparr>\<rparr>"

definition resize_cache ::
    "(bddCaches \<Rightarrow> BddCache) \<Rightarrow> ((BddCache \<Rightarrow> BddCache) \<Rightarrow> bddCaches \<Rightarrow> bddCaches) \<Rightarrow> int \<Rightarrow>
     bdd_state \<Rightarrow> unit bm" where
  "resize_cache sel upd n s =
     bnd (BddCache_resize n (sel (caches s)) s) (\<lambda>c s.
     ret () (s\<lparr>caches := upd (\<lambda>_. c) (caches s)\<rparr>))"

definition mtbdd_operator_noderesize :: "bdd_state \<Rightarrow> unit bm" where
  "mtbdd_operator_noderesize s =
     (if 0 < cacheratio (ops s) then
        let n = bddnodesize s div cacheratio (ops s) in
        bnd (resize_cache mtbdd_cache_apply mtbdd_cache_apply_update n s) (\<lambda>_ s.
        bnd (resize_cache mtbdd_cache_ite mtbdd_cache_ite_update n s) (\<lambda>_ s.
        resize_cache mtbdd_cache_operation mtbdd_cache_operation_update n s))
      else ret () s)"

definition bdd_operator_noderesize :: "bdd_state \<Rightarrow> unit bm" where
  "bdd_operator_noderesize s =
     (if 0 < cacheratio (ops s) then
        let n = bddnodesize s div cacheratio (ops s) in
        bnd (resize_cache applycache applycache_update n s) (\<lambda>_ s.
        bnd (resize_cache itecache itecache_update n s) (\<lambda>_ s.
        bnd (resize_cache quantcache quantcache_update n s) (\<lambda>_ s.
        bnd (resize_cache appexcache appexcache_update n s) (\<lambda>_ s.
        bnd (resize_cache replacecache replacecache_update n s) (\<lambda>_ s.
        bnd (resize_cache misccache misccache_update n s) (\<lambda>_ s.
        mtbdd_operator_noderesize s))))))
      else ret () s)"

definition bdd_setcacheratio :: "int \<Rightarrow> bdd_state \<Rightarrow> int bm" where
  "bdd_setcacheratio r s =
     (let old = cacheratio (ops s) in
      if r \<le> 0 then bdd_error BDD_RANGE s
      else if bddnodesize s = 0 then ret old s
      else let s = s\<lparr>ops := (ops s)\<lparr>cacheratio := r\<rparr>\<rparr> in
        bnd (if mtbdd s then mtbdd_operator_noderesize s else bdd_operator_noderesize s) (\<lambda>_ s.
        ret old s))"

definition checkresize :: "bdd_state \<Rightarrow> unit bm" where
  "checkresize s =
     bnd (if bddresized s
          then (if mtbdd s then mtbdd_operator_noderesize s else bdd_operator_noderesize s)
          else ret () s) (\<lambda>_ s.
     ret () (s\<lparr>bddresized := False\<rparr>))"

definition mtbdd_checkresize :: "bdd_state \<Rightarrow> unit bm" where
  "mtbdd_checkresize s =
     bnd (if bddresized s then mtbdd_operator_noderesize s else ret () s) (\<lambda>_ s.
     ret () (s\<lparr>bddresized := False\<rparr>))"

text \<open>
  \<open>PLAIN_CACHE_LOOKUP\<close>: the assertion that the cache exists, then the lookup. The
  continuation receives the index of the entry.
\<close>

definition PLAIN_CACHE_LOOKUP ::
    "(bddCaches \<Rightarrow> BddCache) \<Rightarrow> int \<Rightarrow> bdd_state \<Rightarrow> (int \<Rightarrow> 'a bm) \<Rightarrow> 'a bm" where
  "PLAIN_CACHE_LOOKUP sel h s k =
     (if tablesize (sel (caches s)) = 0 then fail Abort s
      else k (BddCache_lookup (sel (caches s)) h))"

end
