(* ===== verification/Terminal.thy ===== *)
theory Terminal
  imports OpSetup
begin

text \<open>
  Model of \<^verbatim>\<open>src/terminal.c\<close> (the registry of terminal types) and of the value
  table of \<^verbatim>\<open>src/mtbdd.c\<close> as far as the kernel uses it: the stack of recycled
  indices, the value and the hash of a terminal, and its deletion during garbage collection.
\<close>

definition TERMINAL_TYPE_ALLOC_CHUNK :: int where "TERMINAL_TYPE_ALLOC_CHUNK = 3"
definition INITIAL_TERMINAL_SIZE :: int where "INITIAL_TERMINAL_SIZE = 10000"

definition null_functions :: mtbdd_terminal_functions where
  "null_functions = \<lparr>hashfun = None, comparefun = None, freefun = None, toStrFun = None\<rparr>"

definition mtbdd_terminal_type_number :: "bdd_state \<Rightarrow> int" where
  "mtbdd_terminal_type_number s = int (length (mtbdd_terminal_functions_list (mtvals s)))"

text \<open>\<open>mtbdd_terminal_functions_list[type]\<close>; every caller has checked the type's range.\<close>

definition type_functions :: "bdd_state \<Rightarrow> int \<Rightarrow> mtbdd_terminal_functions" where
  "type_functions s t =
     (if 0 \<le> t \<and> t < mtbdd_terminal_type_number s
      then mtbdd_terminal_functions_list (mtvals s) ! nat t else null_functions)"

definition mtbdd_new_terminal_type :: "bdd_state \<Rightarrow> int bm" where
  "mtbdd_new_terminal_type s =
     (let v = mtvals s; n = mtbdd_terminal_type_number s;
          size = (if n \<ge> mtbdd_terminal_type_size v
                  then mtbdd_terminal_type_size v + TERMINAL_TYPE_ALLOC_CHUNK
                  else mtbdd_terminal_type_size v)
      in ret n (s\<lparr>mtvals := v\<lparr>mtbdd_terminal_type_size := size,
             mtbdd_terminal_functions_list := mtbdd_terminal_functions_list v @ [null_functions]\<rparr>\<rparr>))"

definition register_function ::
    "(mtbdd_terminal_functions \<Rightarrow> mtbdd_terminal_functions) \<Rightarrow> int \<Rightarrow> bdd_state \<Rightarrow> unit bm" where
  "register_function f t s =
     (if u32 t \<ge> mtbdd_terminal_type_number s
      then bnd (bdd_error BDD_OP s) (\<lambda>_ s. ret () s)
      else ret () (s\<lparr>mtvals := (mtvals s)\<lparr>mtbdd_terminal_functions_list :=
             (mtbdd_terminal_functions_list (mtvals s))[nat (u32 t) := f (type_functions s (u32 t))]\<rparr>\<rparr>))"

definition mtbdd_register_hash_function :: "int \<Rightarrow> (int \<Rightarrow> int) \<Rightarrow> bdd_state \<Rightarrow> unit bm" where
  "mtbdd_register_hash_function t h = register_function (\<lambda>d. d\<lparr>hashfun := Some h\<rparr>) t"
definition mtbdd_register_compare_function :: "int \<Rightarrow> (int \<Rightarrow> int \<Rightarrow> bool) \<Rightarrow> bdd_state \<Rightarrow> unit bm" where
  "mtbdd_register_compare_function t c = register_function (\<lambda>d. d\<lparr>comparefun := Some c\<rparr>) t"
definition mtbdd_register_free_function :: "int \<Rightarrow> nat \<Rightarrow> bdd_state \<Rightarrow> unit bm" where
  "mtbdd_register_free_function t f = register_function (\<lambda>d. d\<lparr>freefun := Some f\<rparr>) t"
definition mtbdd_register_to_str_function :: "int \<Rightarrow> nat \<Rightarrow> bdd_state \<Rightarrow> unit bm" where
  "mtbdd_register_to_str_function t f = register_function (\<lambda>d. d\<lparr>toStrFun := Some f\<rparr>) t"

definition mtbdd_terminal_types_done :: "bdd_state \<Rightarrow> bdd_state" where
  "mtbdd_terminal_types_done s =
     s\<lparr>mtvals := (mtvals s)\<lparr>mtbdd_terminal_functions_list := [], mtbdd_terminal_type_size := 0\<rparr>\<rparr>"

section \<open>The value table\<close>

definition mtbdd_IndexStackPush :: "int \<Rightarrow> mtbddValues \<Rightarrow> mtbddValues" where
  "mtbdd_IndexStackPush i v = v\<lparr>indexstack := i # indexstack v\<rparr>"

definition mtbdd_IndexStackPop :: "mtbddValues \<Rightarrow> int \<times> mtbddValues" where
  "mtbdd_IndexStackPop v =
     (case indexstack v of [] \<Rightarrow> (-1, v) | i # is \<Rightarrow> (i, v\<lparr>indexstack := is\<rparr>))"

definition mtbdd_IndexStackFree :: "mtbddValues \<Rightarrow> mtbddValues" where
  "mtbdd_IndexStackFree v = v\<lparr>indexstack := []\<rparr>"

text \<open>
  What \<open>mtbdd_getvaluep\<close> points at: the inline word, the table entry, or the custom
  pointer. The function reports an error first when the node is no terminal.
\<close>

definition terminal_value :: "bdd_state \<Rightarrow> BddNode \<Rightarrow> int" where
  "terminal_value s nd = (case domaintype (mtvals s) of
      INTVAL \<Rightarrow> n_high nd | FLOATVAL \<Rightarrow> n_high nd | UNSIGNEDVAL \<Rightarrow> n_high nd
    | LONGVAL \<Rightarrow> vals (mtvals s) (u32 (n_high nd))
    | DOUBLEVAL \<Rightarrow> vals (mtvals s) (u32 (n_high nd))
    | CUSTOM \<Rightarrow> vals (mtvals s) (u32 (n_high nd))
    | _ \<Rightarrow> 0)"

definition mtbdd_getvaluep :: "BddNode \<Rightarrow> bdd_state \<Rightarrow> int bm" where
  "mtbdd_getvaluep nd s =
     (if n_level nd \<noteq> MAXLEVEL
      then bnd (bdd_error BDD_OP s) (\<lambda>_ s. ret (terminal_value s nd) s)
      else ret (terminal_value s nd) s)"

definition mtbdd_terminal_hash_gbc :: "bdd_state \<Rightarrow> int \<Rightarrow> int \<Rightarrow> int" where
  "mtbdd_terminal_hash_gbc s v t = (case domaintype (mtvals s) of
      LONGVAL \<Rightarrow> NODEHASH s MAXLEVEL (u32 v) (u32 (drop_bit 32 v))
    | DOUBLEVAL \<Rightarrow> NODEHASH s MAXLEVEL (u32 v) (u32 (drop_bit 32 v))
    | CUSTOM \<Rightarrow> NODEHASH s MAXLEVEL
         (case hashfun (type_functions s t) of None \<Rightarrow> 42 | Some h \<Rightarrow> h v) 42
    | _ \<Rightarrow> NODEHASH s MAXLEVEL 42 42)"

definition release_index :: "int \<Rightarrow> mtbddValues \<Rightarrow> mtbddValues" where
  "release_index i v =
     (mtbdd_IndexStackPush i v)\<lparr>mtbddTerminalUsed := mtbddTerminalUsed v - 1\<rparr>"

definition mtbdd_delete_terminal :: "BddNode \<Rightarrow> bdd_state \<Rightarrow> bdd_state" where
  "mtbdd_delete_terminal nd s =
     (if n_level nd \<noteq> MAXLEVEL \<or> \<not> DOMAIN_NOT_SHORT s then s
      else let i = u32 (n_high nd); t = u32 (n_low nd); v = mtvals s in
      (case domaintype v of
         LONGVAL \<Rightarrow> if i \<ge> mtbddmaxTerminalSize v then s else s\<lparr>mtvals := release_index i v\<rparr>
       | DOUBLEVAL \<Rightarrow> if i \<ge> mtbddmaxTerminalSize v then s else s\<lparr>mtvals := release_index i v\<rparr>
       | CUSTOM \<Rightarrow>
           if t \<ge> mtbdd_terminal_type_number s \<or> i \<ge> mtbddmaxTerminalSize v then s
           else let p = vals v i in
             if p = 0 then s
             else s\<lparr>trace := trace s @
                     (case freefun (type_functions s t) of None \<Rightarrow> [] | Some f \<Rightarrow> [EvFreefun f p]) @
                     [EvFree p],
                   mtvals := release_index i (v\<lparr>vals := (vals v)(i := 0)\<rparr>)\<rparr>
       | _ \<Rightarrow> s))"

end
