(* ===== verification/Kernel.thy ===== *)
theory Kernel
  imports Terminal
begin

text \<open>
  Model of the node table of \<^verbatim>\<open>src/kernel.c\<close>: recursive marking, garbage
  collection, resizing with rehash, and \<open>bdd_makenode\<close>.

  Recursions over the diagram take a fuel argument bounded by the number of table entries
  (\<open>mark_fuel\<close>); the proofs show it is never exhausted. A loop
  \<open>for (n=bddnodesize-1; n>=2; n--)\<close> is a recursion on the number of indices left.
\<close>

definition mark_fuel :: "bdd_state \<Rightarrow> nat" where
  "mark_fuel s = Suc (nat (bddnodesize s))"

section \<open>Marking\<close>

primrec bdd_mark :: "nat \<Rightarrow> BDD \<Rightarrow> bdd_state \<Rightarrow> unit bm" where
  "bdd_mark 0 i s = fail Nofuel s"
| "bdd_mark (Suc k) i s =
     (if i < 2 then ret () s
      else if MARKED s i then ret () s
      else if LOW s i = -1 then ret () s
      else let s = SETMARK i s in
        if LEVEL s i = MAXLEVEL then ret () s
        else bnd (bdd_mark k (LOW s i) s) (\<lambda>_ s. bdd_mark k (HIGH s i) s))"

primrec bdd_mark_upto :: "nat \<Rightarrow> BDD \<Rightarrow> int \<Rightarrow> bdd_state \<Rightarrow> unit bm" where
  "bdd_mark_upto 0 i lev s = fail Nofuel s"
| "bdd_mark_upto (Suc k) i lev s =
     (if i < 2 then ret () s
      else if MARKED s i \<or> LOW s i = -1 then ret () s
      else if LEVEL s i > lev then ret () s
      else let s = SETMARK i s in
        bnd (bdd_mark_upto k (LOW s i) lev s) (\<lambda>_ s. bdd_mark_upto k (HIGH s i) lev s))"

primrec bdd_markcount :: "nat \<Rightarrow> BDD \<Rightarrow> int \<Rightarrow> bdd_state \<Rightarrow> int bm" where
  "bdd_markcount 0 i cou s = fail Nofuel s"
| "bdd_markcount (Suc k) i cou s =
     (if i < 2 then ret cou s
      else if MARKED s i \<or> LOW s i = -1 then ret cou s
      else let s = SETMARK i s in
        bnd (bdd_markcount k (LOW s i) (cou + 1) s) (\<lambda>cou s.
        bdd_markcount k (HIGH s i) cou s))"

primrec bdd_unmark :: "nat \<Rightarrow> BDD \<Rightarrow> bdd_state \<Rightarrow> unit bm" where
  "bdd_unmark 0 i s = fail Nofuel s"
| "bdd_unmark (Suc k) i s =
     (if i < 2 then ret () s
      else if \<not> MARKED s i \<or> LOW s i = -1 then ret () s
      else let s = UNMARK i s in
        bnd (bdd_unmark k (LOW s i) s) (\<lambda>_ s. bdd_unmark k (HIGH s i) s))"

primrec bdd_unmark_upto :: "nat \<Rightarrow> BDD \<Rightarrow> int \<Rightarrow> bdd_state \<Rightarrow> unit bm" where
  "bdd_unmark_upto 0 i lev s = fail Nofuel s"
| "bdd_unmark_upto (Suc k) i lev s =
     (if i < 2 then ret () s
      else if \<not> MARKED s i then ret () s
      else let s = UNMARK i s in
        if LEVEL s i > lev then ret () s
        else bnd (bdd_unmark_upto k (LOW s i) lev s) (\<lambda>_ s. bdd_unmark_upto k (HIGH s i) lev s))"

section \<open>Garbage collection\<close>

text \<open>The bucket a table entry belongs to, as computed while rehashing.\<close>

definition gbc_hash :: "bdd_state \<Rightarrow> int \<Rightarrow> int" where
  "gbc_hash s n =
     (if LEVEL s n = MAXLEVEL \<and> DOMAIN_NOT_SHORT s
      then mtbdd_terminal_hash_gbc s (terminal_value s (bddnodes s n)) (u32 (LOW s n))
      else NODEHASH s (LEVEL s n) (LOW s n) (HIGH s n))"

definition link_node :: "int \<Rightarrow> int \<Rightarrow> bdd_state \<Rightarrow> bdd_state" where
  "link_node n h s =
     upd_node (\<lambda>d. d\<lparr>n_hash := n\<rparr>) h
       (upd_node (\<lambda>d. d\<lparr>n_next := n_hash (bddnodes s h)\<rparr>) n s)"

definition push_free :: "int \<Rightarrow> bdd_state \<Rightarrow> bdd_state" where
  "push_free n s =
     (upd_node (\<lambda>d. d\<lparr>n_next := bddfreepos s\<rparr>) n s)
        \<lparr>bddfreepos := n, bddfreenum := bddfreenum s + 1\<rparr>"

definition rehash_step :: "int \<Rightarrow> bdd_state \<Rightarrow> bdd_state" where
  "rehash_step n s = (if LOW s n \<noteq> -1 then link_node n (gbc_hash s n) s else push_free n s)"

primrec rehash_loop :: "nat \<Rightarrow> bdd_state \<Rightarrow> bdd_state" where
  "rehash_loop 0 s = s"
| "rehash_loop (Suc k) s = rehash_loop k (rehash_step (int k + 2) s)"

definition bdd_gbc_rehash :: "bdd_state \<Rightarrow> bdd_state" where
  "bdd_gbc_rehash s =
     rehash_loop (nat (bddnodesize s - 2)) (s\<lparr>bddfreepos := 0, bddfreenum := 0\<rparr>)"

definition sweep_step :: "int \<Rightarrow> bdd_state \<Rightarrow> bdd_state" where
  "sweep_step n s =
     (if MARKED s n \<and> LOW s n \<noteq> -1 then
        let s = UNMARK n s in link_node n (gbc_hash s n) s
      else
        let s = (if LEVEL s n = MAXLEVEL then mtbdd_delete_terminal (bddnodes s n) s else s);
            s = upd_node (\<lambda>d. d\<lparr>n_low := -1, n_level := 0, n_refcou := 0\<rparr>) n s
        in push_free n s)"

primrec sweep_loop :: "nat \<Rightarrow> bdd_state \<Rightarrow> bdd_state" where
  "sweep_loop 0 s = s"
| "sweep_loop (Suc k) s = sweep_loop k (sweep_step (int k + 2) s)"

primrec mark_stack :: "int list \<Rightarrow> bdd_state \<Rightarrow> unit bm" where
  "mark_stack [] s = ret () s"
| "mark_stack (r # rs) s = bnd (bdd_mark (mark_fuel s) r s) (\<lambda>_ s. mark_stack rs s)"

text \<open>\<open>mark_refs k\<close> is the loop over the indices \<open>0, \<dots>, k - 1\<close>.\<close>

primrec mark_refs :: "nat \<Rightarrow> bdd_state \<Rightarrow> unit bm" where
  "mark_refs 0 s = ret () s"
| "mark_refs (Suc k) s =
     bnd (mark_refs k s) (\<lambda>_ s.
     bnd (if 0 < n_refcou (bddnodes s (int k)) then bdd_mark (mark_fuel s) (int k) s else ret () s)
       (\<lambda>_ s. ret () (upd_node (\<lambda>d. d\<lparr>n_hash := 0\<rparr>) (int k) s)))"

definition gbc_event :: "bool \<Rightarrow> bdd_state \<Rightarrow> bdd_state" where
  "gbc_event pre s = (case gbc_handler s of
      None \<Rightarrow> s
    | Some h \<Rightarrow> s\<lparr>trace := trace s @ [EvGbc pre (bddnodesize s) (bddfreenum s) (gbcollectnum s)]\<rparr>)"

definition bdd_gbc :: "bdd_state \<Rightarrow> unit bm" where
  "bdd_gbc s0 = (let s = gbc_event True s0 in
     bnd (mark_stack (rev (bddrefstack s)) s) (\<lambda>_ s.
     bnd (mark_refs (nat (bddnodesize s)) s) (\<lambda>_ s.
     let s = sweep_loop (nat (bddnodesize s - 2)) (s\<lparr>bddfreepos := 0, bddfreenum := 0\<rparr>);
         s = bdd_operator_reset s;
         s = s\<lparr>gbcollectnum := gbcollectnum s + 1\<rparr>
     in ret () (gbc_event False s))))"

section \<open>Resizing\<close>

definition fresh_node :: "int \<Rightarrow> BddNode \<Rightarrow> BddNode" where
  "fresh_node n d = d\<lparr>n_refcou := 0, n_hash := 0, n_level := 0, n_low := -1, n_mark := False,
                      n_next := n + 1\<rparr>"

text \<open>The size asked of the prime search; the guard of \<open>bdd_noderesize\<close> excludes an overflow.\<close>

definition wanted_size :: "bdd_state \<Rightarrow> int" where
  "wanted_size s = (let
     oldsize = bddnodesize s;
     size = 2 * oldsize;
     size = (if size > oldsize + bddmaxnodeincrease s then oldsize + bddmaxnodeincrease s else size)
   in if size > bddmaxnodesize s \<and> bddmaxnodesize s > 0 then bddmaxnodesize s else size)"

definition resize_event :: "int \<Rightarrow> bdd_state \<Rightarrow> bdd_state" where
  "resize_event oldsize s = (case resize_handler s of
      None \<Rightarrow> s
    | Some h \<Rightarrow> s\<lparr>trace := trace s @ [EvResize oldsize (bddnodesize s)]\<rparr>)"

definition add_nodes :: "bool \<Rightarrow> int \<Rightarrow> bdd_state \<Rightarrow> bdd_state" where
  "add_nodes doRehash oldsize s = (let
      size = bddnodesize s;
      nodes = (\<lambda>n. if doRehash \<and> 0 \<le> n \<and> n < oldsize then (bddnodes s n)\<lparr>n_hash := 0\<rparr>
                   else if oldsize \<le> n \<and> n < size then fresh_node n (bddnodes s n)
                   else bddnodes s n);
      nodes = nodes(size - 1 := (nodes (size - 1))\<lparr>n_next := bddfreepos s\<rparr>)
    in s\<lparr>bddnodes := nodes, bddfreepos := oldsize,
         bddfreenum := bddfreenum s + (size - oldsize)\<rparr>)"

definition bdd_noderesize :: "bool \<Rightarrow> bdd_state \<Rightarrow> int bm" where
  "bdd_noderesize doRehash s =
     (let oldsize = bddnodesize s in
      if oldsize \<ge> bddmaxnodesize s \<and> bddmaxnodesize s > 0 then ret (-1) s
      else if 2 * oldsize > INT_MAX \<or> oldsize + bddmaxnodeincrease s > INT_MAX then fail Trap s
      else bnd (prime_lte_st (wanted_size s) s) (\<lambda>size s.
        bnd (alloc size (resize_event oldsize (s\<lparr>bddnodesize := size\<rparr>))) (\<lambda>_ s. let
          s = add_nodes doRehash oldsize s;
          s = (if doRehash then bdd_gbc_rehash s else s)
        in ret 0 (s\<lparr>bddresized := True\<rparr>))))"

section \<open>The unique table\<close>

primrec find_node :: "nat \<Rightarrow> BDD \<Rightarrow> int \<Rightarrow> BDD \<Rightarrow> BDD \<Rightarrow> bdd_state \<Rightarrow> BDD bm" where
  "find_node 0 res lev lo hi s = fail Nofuel s"
| "find_node (Suc k) res lev lo hi s =
     (if res = 0 then ret 0 s
      else if LEVEL s res = lev \<and> LOW s res = lo \<and> HIGH s res = hi then ret res s
      else find_node k (n_next (bddnodes s res)) lev lo hi s)"

definition build_node :: "int \<Rightarrow> int \<Rightarrow> BDD \<Rightarrow> BDD \<Rightarrow> bdd_state \<Rightarrow> BDD bm" where
  "build_node h lev lo hi s =
     (let res = bddfreepos s;
          s = s\<lparr>bddfreepos := n_next (bddnodes s res), bddfreenum := bddfreenum s - 1,
                bddproduced := bddproduced s + 1\<rparr>;
          s = upd_node (\<lambda>d. d\<lparr>n_level := lev, n_low := lo, n_high := hi, n_refcou := 0,
                              n_mark := False\<rparr>) res s
      in ret res (link_node res h s))"

text \<open>
  The test for a resize, \<open>(bddfreenum*100) / bddnodesize <= minfreenodes\<close>; the product is
  computed in 32 bits.
\<close>

definition few_free :: "bdd_state \<Rightarrow> bool" where
  "few_free s = (cdiv (s32 (bddfreenum s * 100)) (bddnodesize s) \<le> minfreenodes s)"

definition make_room :: "int \<Rightarrow> int \<Rightarrow> BDD \<Rightarrow> BDD \<Rightarrow> bdd_state \<Rightarrow> BDD bm" where
  "make_room h lev lo hi s =
     (if bdderrorcond s \<noteq> 0 then ret 0 s
      else bnd (bdd_gbc s) (\<lambda>_ s.
        if bddnodesize s - bddfreenum s \<ge> usednodes_nextreorder s \<and> bdd_reorder_ready s
        then fail Longjmp s
        else bnd (if few_free s
                  then bnd (bdd_noderesize True s) (\<lambda>_ s. ret (NODEHASH s lev lo hi) s)
                  else ret h s) (\<lambda>h s.
          if bddfreepos s = 0
          then bnd (bdd_error BDD_NODENUM s) (\<lambda>_ s. ret 0 (s\<lparr>bdderrorcond := abs BDD_NODENUM\<rparr>))
          else build_node h lev lo hi s)))"

definition bdd_makenode :: "int \<Rightarrow> BDD \<Rightarrow> BDD \<Rightarrow> bdd_state \<Rightarrow> BDD bm" where
  "bdd_makenode lev lo hi s =
     (let h = NODEHASH s lev lo hi;
          build = (\<lambda>s. if bddfreepos s = 0 then make_room h lev lo hi s else build_node h lev lo hi s)
      in if lev \<noteq> MAXLEVEL \<or> \<not> DOMAIN_NOT_SHORT s then
           if checkSameChildren s \<and> lev \<noteq> MAXLEVEL \<and> lo = hi then ret lo s
           else bnd (find_node (mark_fuel s) (n_hash (bddnodes s h)) lev lo hi s) (\<lambda>res s.
             if res \<noteq> 0 then ret res s else build s)
         else build s)"

end
