(* ===== verification/KernelInv.thy ===== *)
theory KernelInv
  imports Kernel
begin

text \<open>
  The representation invariant of the node table: children of a node are valid and on greater
  levels, inner nodes are unique, every entry is on exactly one list (its hash bucket or the
  free list), no entry is marked between operations, free entries have no references. The
  second half shows that the rehashing loops establish the list part.
\<close>

named_theorems acc \<comment> \<open>how the accessors see an update of the state\<close>

definition allocd :: "bdd_state \<Rightarrow> int \<Rightarrow> bool" where
  "allocd s n = (2 \<le> n \<and> n < bddnodesize s \<and> LOW s n \<noteq> -1)"

definition inner :: "bdd_state \<Rightarrow> int \<Rightarrow> bool" where
  "inner s n = (allocd s n \<and> LEVEL s n \<noteq> MAXLEVEL)"

definition node_id :: "bdd_state \<Rightarrow> int \<Rightarrow> bool" where
  "node_id s n = (n = 0 \<or> n = 1 \<or> allocd s n)"

text \<open>\<open>c\<close> may be the child of a node at level \<open>v\<close>.\<close>

definition below :: "bdd_state \<Rightarrow> int \<Rightarrow> int \<Rightarrow> bool" where
  "below s v c = (2 \<le> c \<longrightarrow> v < LEVEL s c)"

definition wf_nodes :: "bdd_state \<Rightarrow> bool" where
  "wf_nodes s =
     (\<forall>n. inner s n \<longrightarrow>
        0 \<le> LEVEL s n \<and> LEVEL s n < MAXLEVEL \<and>
        node_id s (LOW s n) \<and> node_id s (HIGH s n) \<and>
        below s (LEVEL s n) (LOW s n) \<and> below s (LEVEL s n) (HIGH s n))"

definition unique_nodes :: "bdd_state \<Rightarrow> bool" where
  "unique_nodes s =
     (\<forall>m n. inner s m \<and> inner s n \<and> LEVEL s m = LEVEL s n \<and> LOW s m = LOW s n \<and> HIGH s m = HIGH s n
        \<longrightarrow> m = n)"

lemma unique_nodesD:
  "unique_nodes s \<Longrightarrow> inner s m \<Longrightarrow> inner s n \<Longrightarrow> LEVEL s m = LEVEL s n \<Longrightarrow> LOW s m = LOW s n \<Longrightarrow>
   HIGH s m = HIGH s n \<Longrightarrow> m = n"
  unfolding unique_nodes_def by blast

definition nx :: "bdd_state \<Rightarrow> int \<Rightarrow> int" where "nx s n = n_next (bddnodes s n)"
definition bucket :: "bdd_state \<Rightarrow> int \<Rightarrow> int" where "bucket s b = n_hash (bddnodes s b)"

definition bucket_ok :: "int \<Rightarrow> bdd_state \<Rightarrow> int \<Rightarrow> bool" where
  "bucket_ok c s b =
     (\<exists>xs. chain (nx s) (bucket s b) xs \<and> distinct xs \<and>
           set xs = {n. c \<le> n \<and> n < bddnodesize s \<and> LOW s n \<noteq> -1 \<and> gbc_hash s n = b})"

definition free_ok :: "int \<Rightarrow> bdd_state \<Rightarrow> bool" where
  "free_ok c s =
     (\<exists>ys. chain (nx s) (bddfreepos s) ys \<and> distinct ys \<and>
           set ys = {n. c \<le> n \<and> n < bddnodesize s \<and> LOW s n = -1} \<and>
           bddfreenum s = int (length ys))"

text \<open>\<open>built c s\<close>: the lists are correct for the entries from \<open>c\<close> upwards.\<close>

definition built :: "int \<Rightarrow> bdd_state \<Rightarrow> bool" where
  "built c s = ((\<forall>b. 0 \<le> b \<and> b < bddnodesize s \<longrightarrow> bucket_ok c s b) \<and> free_ok c s)"

definition marks_clear :: "bdd_state \<Rightarrow> bool" where
  "marks_clear s = (\<forall>n. \<not> MARKED s n)"

definition refs_ok :: "bdd_state \<Rightarrow> bool" where
  "refs_ok s =
     ((\<forall>n. 2 \<le> n \<and> n < bddnodesize s \<and> LOW s n = -1 \<longrightarrow>
          n_refcou (bddnodes s n) = 0 \<and> LEVEL s n = 0) \<and>
      (\<forall>n. 0 \<le> n_refcou (bddnodes s n) \<and> n_refcou (bddnodes s n) \<le> MAXREF))"

definition stack_ok :: "bdd_state \<Rightarrow> bool" where
  "stack_ok s = (\<forall>x \<in> set (bddrefstack s). node_id s x)"

text \<open>Custom terminals own distinct slots of the value table.\<close>

definition slots_distinct :: "bdd_state \<Rightarrow> bool" where
  "slots_distinct s =
     (domaintype (mtvals s) = CUSTOM \<longrightarrow>
        (\<forall>m n. allocd s m \<and> allocd s n \<and> LEVEL s m = MAXLEVEL \<and> LEVEL s n = MAXLEVEL \<and> m \<noteq> n
           \<longrightarrow> u32 (HIGH s m) \<noteq> u32 (HIGH s n)))"

definition size_ok :: "bdd_state \<Rightarrow> bool" where
  "size_ok s = (3 \<le> bddnodesize s \<and> bddnodesize s < 2 ^ 31)"

definition consts_ok :: "bdd_state \<Rightarrow> bool" where
  "consts_ok s =
     (LOW s 0 = 0 \<and> HIGH s 0 = 0 \<and> LOW s 1 = 1 \<and> HIGH s 1 = 1 \<and> LEVEL s 0 = LEVEL s 1)"

definition tab_inv :: "bdd_state \<Rightarrow> bool" where
  "tab_inv s =
     (size_ok s \<and> consts_ok s \<and> wf_nodes s \<and> unique_nodes s \<and> built 2 s \<and> marks_clear s \<and>
      refs_ok s \<and> stack_ok s \<and> slots_distinct s)"

lemma tab_invD:
  assumes "tab_inv s"
  shows "size_ok s" "consts_ok s" "wf_nodes s" "unique_nodes s" "built 2 s" "marks_clear s"
    "refs_ok s" "stack_ok s" "slots_distinct s"
  using assms by (simp_all add: tab_inv_def)

section \<open>Accessors\<close>

lemma upd_node_sel [simp]:
  "bddnodes (upd_node f n s) = (bddnodes s)(n := f (bddnodes s n))"
  "bddnodesize (upd_node f n s) = bddnodesize s" "bddfreepos (upd_node f n s) = bddfreepos s"
  "bddfreenum (upd_node f n s) = bddfreenum s" "mtvals (upd_node f n s) = mtvals s"
  "bddrefstack (upd_node f n s) = bddrefstack s" "caches (upd_node f n s) = caches s"
  "bdderrorcond (upd_node f n s) = bdderrorcond s" "ops (upd_node f n s) = ops s"
  by (simp_all add: upd_node_def)

lemma link_node_acc [acc]:
  "LEVEL (link_node n h s) = LEVEL s" "LOW (link_node n h s) = LOW s"
  "HIGH (link_node n h s) = HIGH s" "MARKED (link_node n h s) = MARKED s"
  "nx (link_node n h s) = (nx s)(n := bucket s h)"
  "bucket (link_node n h s) = (bucket s)(h := n)"
  by (auto simp: fun_eq_iff link_node_def LEVEL_def LOW_def HIGH_def MARKED_def nx_def bucket_def)

lemma link_node_sel [simp]:
  "bddnodesize (link_node n h s) = bddnodesize s" "bddfreepos (link_node n h s) = bddfreepos s"
  "bddfreenum (link_node n h s) = bddfreenum s" "mtvals (link_node n h s) = mtvals s"
  "n_refcou (bddnodes (link_node n h s) m) = n_refcou (bddnodes s m)"
  "bddrefstack (link_node n h s) = bddrefstack s" "caches (link_node n h s) = caches s"
  by (simp_all add: link_node_def)

lemma push_free_acc [acc]:
  "LEVEL (push_free n s) = LEVEL s" "LOW (push_free n s) = LOW s"
  "HIGH (push_free n s) = HIGH s" "MARKED (push_free n s) = MARKED s"
  "nx (push_free n s) = (nx s)(n := bddfreepos s)" "bucket (push_free n s) = bucket s"
  by (auto simp: fun_eq_iff push_free_def LEVEL_def LOW_def HIGH_def MARKED_def nx_def bucket_def upd_node_def)

lemma push_free_sel [simp]:
  "bddnodesize (push_free n s) = bddnodesize s" "bddfreepos (push_free n s) = n"
  "bddfreenum (push_free n s) = bddfreenum s + 1" "mtvals (push_free n s) = mtvals s"
  "n_refcou (bddnodes (push_free n s) m) = n_refcou (bddnodes s m)"
  "bddrefstack (push_free n s) = bddrefstack s" "caches (push_free n s) = caches s"
  by (simp_all add: push_free_def upd_node_def)

text \<open>The bucket of an entry depends on the entry, the table size and the value table only.\<close>

definition same_terminal :: "bdd_state \<Rightarrow> bdd_state \<Rightarrow> int \<Rightarrow> bool" where
  "same_terminal s t n =
     (domaintype (mtvals s) = domaintype (mtvals t) \<and>
      mtbdd_terminal_functions_list (mtvals s) = mtbdd_terminal_functions_list (mtvals t) \<and>
      (LEVEL s n = MAXLEVEL \<longrightarrow>
         vals (mtvals s) (u32 (HIGH s n)) = vals (mtvals t) (u32 (HIGH s n))))"

lemma gbc_hash_cong:
  assumes n: "LEVEL s n = LEVEL t n" "LOW s n = LOW t n" "HIGH s n = HIGH t n"
    and g: "bddnodesize s = bddnodesize t" "same_terminal s t n"
  shows "gbc_hash s n = gbc_hash t n"
proof (cases "LEVEL t n = MAXLEVEL")
  case True
  have d: "domaintype (mtvals s) = domaintype (mtvals t)"
    and f: "type_functions s = type_functions t"
    and v: "vals (mtvals s) (u32 (HIGH s n)) = vals (mtvals t) (u32 (HIGH s n))"
    using g(2) n(1) True
    by (auto simp: same_terminal_def fun_eq_iff type_functions_def mtbdd_terminal_type_number_def)
  have "terminal_value s (bddnodes s n) = terminal_value t (bddnodes t n)"
    using n(3) v by (simp add: terminal_value_def HIGH_def d cong: domainTypes.case_cong)
  moreover have "NODEHASH s = NODEHASH t" by (simp add: fun_eq_iff NODEHASH_def g(1))
  moreover have "DOMAIN_NOT_SHORT s = DOMAIN_NOT_SHORT t" by (simp add: DOMAIN_NOT_SHORT_def d)
  ultimately show ?thesis
    by (simp only: gbc_hash_def mtbdd_terminal_hash_gbc_def n d f)
next
  case False
  then show ?thesis by (simp add: gbc_hash_def n NODEHASH_def g(1))
qed

lemma same_terminal_refl [simp]: "mtvals s = mtvals t \<Longrightarrow> same_terminal s t n"
  by (simp add: same_terminal_def)

lemma gbc_hash_link [acc]: "gbc_hash (link_node n h s) = gbc_hash s"
  by (rule ext, rule gbc_hash_cong) (simp_all add: acc)

lemma gbc_hash_push [acc]: "gbc_hash (push_free n s) = gbc_hash s"
  by (rule ext, rule gbc_hash_cong) (simp_all add: acc)

lemma NODEHASH_range: "size_ok s \<Longrightarrow> 0 \<le> NODEHASH s v l h \<and> NODEHASH s v l h < bddnodesize s"
  unfolding NODEHASH_def size_ok_def by (rule HASHRANGE_range) auto

lemma gbc_hash_range: "size_ok s \<Longrightarrow> 0 \<le> gbc_hash s n \<and> gbc_hash s n < bddnodesize s"
  by (auto simp: gbc_hash_def mtbdd_terminal_hash_gbc_def NODEHASH_range split: domainTypes.split)

section \<open>The rehashing steps\<close>

lemma from_here:
  fixes n N :: int
  shows "n < N \<Longrightarrow> P n \<Longrightarrow> {m. n \<le> m \<and> m < N \<and> P m} = insert n {m. n + 1 \<le> m \<and> m < N \<and> P m}"
    and "\<not> P n \<Longrightarrow> {m. n \<le> m \<and> m < N \<and> P m} = {m. n + 1 \<le> m \<and> m < N \<and> P m}"
proof -
  have split: "n \<le> m \<longleftrightarrow> m = n \<or> n + 1 \<le> m" for m by auto
  show "n < N \<Longrightarrow> P n \<Longrightarrow> {m. n \<le> m \<and> m < N \<and> P m} = insert n {m. n + 1 \<le> m \<and> m < N \<and> P m}"
    and "\<not> P n \<Longrightarrow> {m. n \<le> m \<and> m < N \<and> P m} = {m. n + 1 \<le> m \<and> m < N \<and> P m}"
    unfolding split by blast+
qed

lemma bucket_ok_link:
  assumes b: "bucket_ok (n + 1) s b" and n: "2 \<le> n" "n < bddnodesize s" and l: "LOW s n \<noteq> -1"
  shows "bucket_ok n (link_node n (gbc_hash s n) s) b"
proof -
  obtain xs where xs: "chain (nx s) (bucket s b) xs" "distinct xs"
    "set xs = {m. n + 1 \<le> m \<and> m < bddnodesize s \<and> LOW s m \<noteq> -1 \<and> gbc_hash s m = b}"
    using b unfolding bucket_ok_def by auto
  then have notin: "n \<notin> set xs" by auto
  show ?thesis
  proof (cases "gbc_hash s n = b")
    case True
    then have "chain (nx (link_node n (gbc_hash s n) s)) n (n # xs)"
      using xs(1) n notin by (simp add: acc chain_upd_notin)
    moreover have "set (n # xs) = {m. n \<le> m \<and> m < bddnodesize s \<and> LOW s m \<noteq> -1 \<and> gbc_hash s m = b}"
      using from_here(1) [of n "bddnodesize s" "\<lambda>m. LOW s m \<noteq> -1 \<and> gbc_hash s m = b"] xs(3) n l True
      by simp
    ultimately show ?thesis
      using xs(2) notin True unfolding bucket_ok_def
      by (intro exI [of _ "n # xs"] conjI) (simp_all add: acc)
  next
    case False
    moreover have "set xs = {m. n \<le> m \<and> m < bddnodesize s \<and> LOW s m \<noteq> -1 \<and> gbc_hash s m = b}"
      using from_here(2) [of "\<lambda>m. LOW s m \<noteq> -1 \<and> gbc_hash s m = b" n "bddnodesize s"] xs(3) False by simp
    ultimately show ?thesis
      using xs(1,2) notin unfolding bucket_ok_def
      by (intro exI [of _ xs] conjI) (simp_all only: acc fun_upd_other chain_upd_notin link_node_sel not_False_eq_True)
  qed
qed

lemma free_ok_link:
  assumes f: "free_ok (n + 1) s" and l: "LOW s n \<noteq> -1"
  shows "free_ok n (link_node n h s)"
proof -
  obtain ys where ys: "chain (nx s) (bddfreepos s) ys" "distinct ys"
    "set ys = {m. n + 1 \<le> m \<and> m < bddnodesize s \<and> LOW s m = -1}" "bddfreenum s = int (length ys)"
    using f unfolding free_ok_def by auto
  then have "n \<notin> set ys" by auto
  moreover have "set ys = {m. n \<le> m \<and> m < bddnodesize s \<and> LOW s m = -1}"
    using from_here(2) [of "\<lambda>m. LOW s m = -1" n "bddnodesize s"] ys(3) l by simp
  ultimately show ?thesis
    using ys(1,2,4) unfolding free_ok_def
    by (intro exI [of _ ys] conjI) (simp_all only: acc chain_upd_notin link_node_sel not_False_eq_True)
qed

lemma built_link:
  "built (n + 1) s \<Longrightarrow> 2 \<le> n \<Longrightarrow> n < bddnodesize s \<Longrightarrow> LOW s n \<noteq> -1 \<Longrightarrow>
   built n (link_node n (gbc_hash s n) s)"
  unfolding built_def by (simp add: bucket_ok_link free_ok_link)

lemma built_push:
  assumes B: "built (n + 1) s" and n: "2 \<le> n" "n < bddnodesize s" and l: "LOW s n = -1"
  shows "built n (push_free n s)"
  unfolding built_def
proof (intro conjI allI impI)
  fix b assume "0 \<le> b \<and> b < bddnodesize (push_free n s)"
  then have "bucket_ok (n + 1) s b" using B by (simp add: built_def)
  then obtain xs where xs: "chain (nx s) (bucket s b) xs" "distinct xs"
    "set xs = {m. n + 1 \<le> m \<and> m < bddnodesize s \<and> LOW s m \<noteq> -1 \<and> gbc_hash s m = b}"
    unfolding bucket_ok_def by auto
  then have "n \<notin> set xs" by auto
  moreover have "set xs = {m. n \<le> m \<and> m < bddnodesize s \<and> LOW s m \<noteq> -1 \<and> gbc_hash s m = b}"
    using from_here(2) [of "\<lambda>m. LOW s m \<noteq> -1 \<and> gbc_hash s m = b" n "bddnodesize s"] xs(3) l by simp
  ultimately show "bucket_ok n (push_free n s) b"
    using xs(1,2) unfolding bucket_ok_def
    by (intro exI [of _ xs] conjI) (simp_all only: acc chain_upd_notin push_free_sel not_False_eq_True)
next
  obtain ys where ys: "chain (nx s) (bddfreepos s) ys" "distinct ys"
    "set ys = {m. n + 1 \<le> m \<and> m < bddnodesize s \<and> LOW s m = -1}" "bddfreenum s = int (length ys)"
    using B unfolding built_def free_ok_def by auto
  then have notin: "n \<notin> set ys" by auto
  moreover have "set (n # ys) = {m. n \<le> m \<and> m < bddnodesize s \<and> LOW s m = -1}"
    using from_here(1) [of n "bddnodesize s" "\<lambda>m. LOW s m = -1"] ys(3) n l by simp
  ultimately show "free_ok n (push_free n s)"
    using ys(1,2,4) notin n unfolding free_ok_def
    by (intro exI [of _ "n # ys"] conjI) (simp_all add: acc chain_upd_notin)
qed

lemma built_empty:
  assumes "\<And>b. 0 \<le> b \<Longrightarrow> b < bddnodesize s \<Longrightarrow> bucket s b = 0"
    and "bddfreepos s = 0" "bddfreenum s = 0" "bddnodesize s \<le> c"
  shows "built c s"
  using assms unfolding built_def bucket_ok_def free_ok_def by force

text \<open>Entries below \<open>c\<close> may change, as long as they keep their bucket head.\<close>

lemma built_cong:
  assumes B: "built c s"
    and eq: "\<And>n. c \<le> n \<Longrightarrow> n < bddnodesize s \<Longrightarrow> LOW t n = LOW s n"
            "\<And>n. c \<le> n \<Longrightarrow> n < bddnodesize s \<Longrightarrow> nx t n = nx s n"
            "\<And>n. c \<le> n \<Longrightarrow> n < bddnodesize s \<Longrightarrow> LOW s n \<noteq> -1 \<Longrightarrow> gbc_hash t n = gbc_hash s n"
            "\<And>b. 0 \<le> b \<Longrightarrow> b < bddnodesize s \<Longrightarrow> bucket t b = bucket s b"
    and g: "bddnodesize t = bddnodesize s" "bddfreepos t = bddfreepos s" "bddfreenum t = bddfreenum s"
  shows "built c t"
  unfolding built_def
proof (intro conjI allI impI)
  fix b assume b: "0 \<le> b \<and> b < bddnodesize t"
  then have "bucket_ok c s b" using B g by (simp add: built_def)
  then obtain xs where xs: "chain (nx s) (bucket s b) xs" "distinct xs"
    "set xs = {m. c \<le> m \<and> m < bddnodesize s \<and> LOW s m \<noteq> -1 \<and> gbc_hash s m = b}"
    unfolding bucket_ok_def by auto
  have "chain (nx t) (bucket s b) xs = chain (nx s) (bucket s b) xs"
    by (rule chain_cong) (use xs(3) eq(2) in auto)
  moreover have "set xs = {m. c \<le> m \<and> m < bddnodesize t \<and> LOW t m \<noteq> -1 \<and> gbc_hash t m = b}"
    using xs(3) eq(1,3) g(1) by auto
  moreover have "bucket t b = bucket s b" using b g eq(4) by simp
  ultimately show "bucket_ok c t b" using xs unfolding bucket_ok_def by auto
next
  obtain ys where ys: "chain (nx s) (bddfreepos s) ys" "distinct ys"
    "set ys = {m. c \<le> m \<and> m < bddnodesize s \<and> LOW s m = -1}" "bddfreenum s = int (length ys)"
    using B unfolding built_def free_ok_def by auto
  have "chain (nx t) (bddfreepos s) ys = chain (nx s) (bddfreepos s) ys"
    by (rule chain_cong) (use ys(3) eq(2) in auto)
  moreover have "set ys = {m. c \<le> m \<and> m < bddnodesize t \<and> LOW t m = -1}"
    using ys(3) eq(1) g(1) by auto
  ultimately show "free_ok c t" using ys g unfolding free_ok_def by auto
qed

end
