(* ===== verification/KernelMark.thy ===== *)
theory KernelMark
  imports KernelInv
begin

text \<open>
  The marking phase of garbage collection. Marks and bucket heads are seen as a decoration of an
  otherwise unchanged table (\<open>decor\<close>); marking from a root adds exactly nodes reachable
  from it and leaves no marked inner node with an unmarked child, so that after all roots the
  marked entries are the \<open>live\<close> ones. The recursion never needs more fuel than the number
  of unmarked entries.
\<close>

section \<open>Reachability and liveness\<close>

inductive reach :: "bdd_state \<Rightarrow> int \<Rightarrow> int \<Rightarrow> bool" for s :: bdd_state and i :: int where
  reach_self: "reach s i i"
| reach_low: "reach s i n \<Longrightarrow> inner s n \<Longrightarrow> reach s i (LOW s n)"
| reach_high: "reach s i n \<Longrightarrow> inner s n \<Longrightarrow> reach s i (HIGH s n)"

inductive live :: "bdd_state \<Rightarrow> int \<Rightarrow> bool" for s :: bdd_state where
  live_stack: "x \<in> set (bddrefstack s) \<Longrightarrow> live s x"
| live_ref: "0 \<le> n \<Longrightarrow> n < bddnodesize s \<Longrightarrow> 0 < n_refcou (bddnodes s n) \<Longrightarrow> live s n"
| live_low: "live s n \<Longrightarrow> inner s n \<Longrightarrow> live s (LOW s n)"
| live_high: "live s n \<Longrightarrow> inner s n \<Longrightarrow> live s (HIGH s n)"

inductive_cases reachE: "reach s i n"

lemma reach_trans: "reach s j n \<Longrightarrow> reach s i j \<Longrightarrow> reach s i n"
  by (induction rule: reach.induct) (auto intro: reach.intros)

lemma reach_live: "reach s i n \<Longrightarrow> live s i \<Longrightarrow> live s n"
  by (induction rule: reach.induct) (auto intro: live.intros)

lemma wf_nodes_child:
  assumes "wf_nodes s" "inner s n"
  shows "node_id s (LOW s n)" "node_id s (HIGH s n)" "below s (LEVEL s n) (LOW s n)"
    "below s (LEVEL s n) (HIGH s n)" "0 \<le> LEVEL s n" "LEVEL s n < MAXLEVEL"
  using assms unfolding wf_nodes_def by blast+

lemma reach_node_id: "reach s i n \<Longrightarrow> wf_nodes s \<Longrightarrow> node_id s i \<Longrightarrow> node_id s n"
  by (induction rule: reach.induct) (auto dest: wf_nodes_child)

lemma live_node_id:
  assumes "live s n" "wf_nodes s" "stack_ok s" "refs_ok s"
  shows "node_id s n"
  using assms
proof (induction rule: live.induct)
  case (live_stack x)
  then show ?case by (simp add: stack_ok_def)
next
  case (live_ref n)
  then show ?case by (auto simp: refs_ok_def node_id_def allocd_def)
qed (auto dest: wf_nodes_child)

section \<open>Decorations\<close>

definition decor :: "(int \<Rightarrow> bool) \<Rightarrow> (int \<Rightarrow> int) \<Rightarrow> bdd_state \<Rightarrow> bdd_state" where
  "decor m h s = s\<lparr>bddnodes := (\<lambda>n. (bddnodes s n)\<lparr>n_mark := m n, n_hash := h n\<rparr>)\<rparr>"

lemma decor_id: "decor (MARKED s) (bucket s) s = s"
  by (simp add: decor_def MARKED_def bucket_def)

lemma decor_sel [simp]:
  "LEVEL (decor m h s) = LEVEL s" "LOW (decor m h s) = LOW s" "HIGH (decor m h s) = HIGH s"
  "MARKED (decor m h s) = m" "bucket (decor m h s) = h" "nx (decor m h s) = nx s"
  "n_refcou (bddnodes (decor m h s) n) = n_refcou (bddnodes s n)"
  "bddnodesize (decor m h s) = bddnodesize s" "bddrefstack (decor m h s) = bddrefstack s"
  "mark_fuel (decor m h s) = mark_fuel s"
  by (simp_all add: fun_eq_iff decor_def LEVEL_def LOW_def HIGH_def MARKED_def bucket_def nx_def
      mark_fuel_def)

lemma decor_decor [simp]: "decor m h (decor m' h' s) = decor m h s"
  by (simp add: decor_def)

lemma SETMARK_decor [simp]: "SETMARK i (decor m h s) = decor (m(i := True)) h s"
  by (auto simp: SETMARK_def upd_node_def decor_def fun_eq_iff)

lemma UNMARK_decor: "UNMARK i (decor m h s) = decor (m(i := False)) h s"
  by (auto simp: UNMARK_def upd_node_def decor_def fun_eq_iff)

section \<open>Marking from one root\<close>

definition marked :: "(int \<Rightarrow> bool) \<Rightarrow> int \<Rightarrow> bool" where
  "marked m n = (n < 2 \<or> m n)"

text \<open>Both children of \<open>n\<close> are marked.\<close>

definition kids_marked :: "bdd_state \<Rightarrow> (int \<Rightarrow> bool) \<Rightarrow> int \<Rightarrow> bool" where
  "kids_marked s m n = (inner s n \<longrightarrow> marked m (LOW s n) \<and> marked m (HIGH s n))"

definition marks_from :: "bdd_state \<Rightarrow> int \<Rightarrow> (int \<Rightarrow> bool) \<Rightarrow> (int \<Rightarrow> bool) \<Rightarrow> bool" where
  "marks_from s i m m' =
     (m \<le> m' \<and> marked m' i \<and> (\<forall>n. m' n \<and> \<not> m n \<longrightarrow> allocd s n \<and> reach s i n \<and> kids_marked s m' n))"

definition unmarked :: "bdd_state \<Rightarrow> (int \<Rightarrow> bool) \<Rightarrow> int set" where
  "unmarked s m = {n. allocd s n \<and> \<not> m n}"

lemma finite_unmarked [simp]: "finite (unmarked s m)"
  by (rule finite_subset [of _ "{2..<bddnodesize s}"]) (auto simp: unmarked_def allocd_def)

lemma card_unmarked_le: "m \<le> m' \<Longrightarrow> card (unmarked s m') \<le> card (unmarked s m)"
  by (rule card_mono [OF finite_unmarked]) (auto simp: unmarked_def le_fun_def)

lemma card_unmarked_less: "allocd s i \<Longrightarrow> \<not> m i \<Longrightarrow> card (unmarked s (m(i := True))) < card (unmarked s m)"
  by (rule psubset_card_mono [OF finite_unmarked]) (auto simp: unmarked_def)

lemma card_unmarked_fuel: "card (unmarked s m) < mark_fuel s"
proof -
  have "card (unmarked s m) \<le> card {2..<bddnodesize s}"
    by (rule card_mono) (auto simp: unmarked_def allocd_def)
  then show ?thesis by (simp add: mark_fuel_def)
qed

lemma marked_mono: "m \<le> m' \<Longrightarrow> marked m n \<Longrightarrow> marked m' n"
  by (auto simp: marked_def le_fun_def)

lemma kids_marked_mono: "m \<le> m' \<Longrightarrow> kids_marked s m n \<Longrightarrow> kids_marked s m' n"
  by (auto simp: kids_marked_def marked_mono)

lemma marks_from_nothing: "marked m i \<Longrightarrow> marks_from s i m m"
  by (simp add: marks_from_def)

lemma marks_from_inner:
  assumes i: "inner s i" "\<not> m i"
    and l: "marks_from s (LOW s i) (m(i := True)) m1" and h: "marks_from s (HIGH s i) m1 m2"
  shows "marks_from s i m m2"
proof -
  have le: "m(i := True) \<le> m1" "m1 \<le> m2" using l h by (simp_all add: marks_from_def)
  have "m \<le> m(i := True)" by (simp add: le_fun_def)
  with le have mm: "m \<le> m2" by (meson order_trans)
  have mi: "m2 i" using le by (auto simp: le_fun_def)
  have kids: "marked m2 (LOW s i)" "marked m2 (HIGH s i)"
    using l h le(2) by (auto simp: marks_from_def intro: marked_mono)
  have "allocd s n \<and> reach s i n \<and> kids_marked s m2 n" if n: "m2 n" "\<not> m n" for n
  proof -
    consider "n = i" | "m1 n" "\<not> (m(i := True)) n" | "\<not> m1 n"
      using n by (cases "n = i"; cases "m1 n") simp_all
    then show ?thesis
    proof cases
      case 1
      then show ?thesis using i kids by (auto simp: kids_marked_def inner_def intro: reach_self)
    next
      case 2
      then have "allocd s n" "reach s (LOW s i) n" "kids_marked s m1 n"
        using l unfolding marks_from_def by blast+
      moreover have "reach s i (LOW s i)" using i by (auto intro: reach.intros)
      ultimately show ?thesis using le(2) by (auto intro: reach_trans kids_marked_mono)
    next
      case 3
      then have "allocd s n" "reach s (HIGH s i) n" "kids_marked s m2 n"
        using h n unfolding marks_from_def by blast+
      moreover have "reach s i (HIGH s i)" using i by (auto intro: reach.intros)
      ultimately show ?thesis by (auto intro: reach_trans)
    qed
  qed
  then show ?thesis using mm mi by (auto simp: marks_from_def marked_def)
qed

lemma bdd_mark_spec:
  "wf_nodes s \<Longrightarrow> node_id s i \<Longrightarrow> card (unmarked s m) < k \<Longrightarrow>
   \<exists>m'. bdd_mark k i (decor m h s) = ret () (decor m' h s) \<and> marks_from s i m m'"
proof (induction k arbitrary: i m)
  case 0
  then show ?case by simp
next
  case (Suc k)
  show ?case
  proof (cases "i < 2 \<or> m i")
    case True
    then show ?thesis
      by (intro exI [of _ m]) (auto intro: marks_from_nothing simp: marked_def)
  next
    case False
    then have i: "allocd s i" "\<not> i < 2" "\<not> m i" "LOW s i \<noteq> -1"
      using Suc.prems by (auto simp: node_id_def allocd_def)
    let ?m = "m(i := True)"
    have c: "card (unmarked s ?m) < k" using card_unmarked_less [of s i m] i Suc.prems by simp
    show ?thesis
    proof (cases "LEVEL s i = MAXLEVEL")
      case True
      have "marks_from s i m ?m"
        using i True by (auto simp: marks_from_def le_fun_def marked_def kids_marked_def inner_def
            intro: reach_self split: if_splits)
      moreover have "bdd_mark (Suc k) i (decor m h s) = ret () (decor ?m h s)"
        using i True by (simp add: Let_def)
      ultimately show ?thesis by blast
    next
      case False
      then have inn: "inner s i" using i by (simp add: inner_def)
      note ch = wf_nodes_child [OF Suc.prems(1) inn]
      from Suc.IH [OF Suc.prems(1) ch(1) c] obtain m1 where
        m1: "bdd_mark k (LOW s i) (decor ?m h s) = ret () (decor m1 h s)" "marks_from s (LOW s i) ?m m1"
        by blast
      then have "card (unmarked s m1) < k"
        using card_unmarked_le [of ?m m1 s] c by (auto simp: marks_from_def)
      from Suc.IH [OF Suc.prems(1) ch(2) this] obtain m2 where
        m2: "bdd_mark k (HIGH s i) (decor m1 h s) = ret () (decor m2 h s)" "marks_from s (HIGH s i) m1 m2"
        by blast
      have "marks_from s i m m2" using inn i(3) m1(2) m2(2) by (rule marks_from_inner)
      moreover have "bdd_mark (Suc k) i (decor m h s) = ret () (decor m2 h s)"
        using i False m1(1) m2(1) by (simp add: Let_def)
      ultimately show ?thesis by blast
    qed
  qed
qed

section \<open>Marking from all roots\<close>

text \<open>All marked entries are live, and marked inner nodes have marked children.\<close>

definition good_marks :: "bdd_state \<Rightarrow> (int \<Rightarrow> bool) \<Rightarrow> bool" where
  "good_marks s m = (\<forall>n. m n \<longrightarrow> allocd s n \<and> live s n \<and> kids_marked s m n)"

lemma good_marks_from: "good_marks s m \<Longrightarrow> marks_from s i m m' \<Longrightarrow> live s i \<Longrightarrow> good_marks s m'"
  unfolding good_marks_def marks_from_def by (metis kids_marked_mono reach_live)

lemma mark_root:
  assumes "wf_nodes s" "node_id s i" "good_marks s m" "live s i"
  shows "\<exists>m'. bdd_mark (mark_fuel s) i (decor m h s) = ret () (decor m' h s) \<and>
              m \<le> m' \<and> marked m' i \<and> good_marks s m'"
  using bdd_mark_spec [OF assms(1,2) card_unmarked_fuel, of m h] good_marks_from [OF assms(3) _ assms(4)]
  unfolding marks_from_def by metis

lemma mark_stack_spec:
  "wf_nodes s \<Longrightarrow> good_marks s m \<Longrightarrow> (\<And>r. r \<in> set rs \<Longrightarrow> node_id s r \<and> live s r) \<Longrightarrow>
   \<exists>m'. mark_stack rs (decor m h s) = ret () (decor m' h s) \<and> m \<le> m' \<and> good_marks s m' \<and>
        (\<forall>r\<in>set rs. marked m' r)"
proof (induction rs arbitrary: m)
  case Nil
  then show ?case by auto
next
  case (Cons r rs)
  from mark_root [of s r m h] Cons.prems obtain m1 where
    m1: "bdd_mark (mark_fuel s) r (decor m h s) = ret () (decor m1 h s)" "m \<le> m1" "marked m1 r"
      "good_marks s m1" by auto
  with Cons.IH [of m1] Cons.prems obtain m2 where
    m2: "mark_stack rs (decor m1 h s) = ret () (decor m2 h s)" "m1 \<le> m2" "good_marks s m2"
      "\<forall>r\<in>set rs. marked m2 r" by auto
  then show ?case using m1 by (intro exI [of _ m2]) (auto intro: marked_mono order_trans)
qed

definition zeroed :: "nat \<Rightarrow> (int \<Rightarrow> int) \<Rightarrow> int \<Rightarrow> int" where
  "zeroed k h = (\<lambda>n. if 0 \<le> n \<and> n < int k then 0 else h n)"

lemma zero_hash_decor: "upd_node (\<lambda>d. d\<lparr>n_hash := 0\<rparr>) i (decor m h s) = decor m (h(i := 0)) s"
  by (auto simp: upd_node_def decor_def fun_eq_iff)

lemma mark_refs_spec:
  "wf_nodes s \<Longrightarrow> refs_ok s \<Longrightarrow> good_marks s m \<Longrightarrow> int k \<le> bddnodesize s \<Longrightarrow>
   \<exists>m'. mark_refs k (decor m h s) = ret () (decor m' (zeroed k h) s) \<and> m \<le> m' \<and> good_marks s m' \<and>
        (\<forall>n. 0 \<le> n \<and> n < int k \<and> 0 < n_refcou (bddnodes s n) \<longrightarrow> marked m' n)"
proof (induction k)
  case 0
  have "zeroed 0 h = h" by (auto simp: zeroed_def)
  with 0 show ?case by (auto intro!: exI [of _ m])
next
  case (Suc k)
  then obtain m1 where m1: "mark_refs k (decor m h s) = ret () (decor m1 (zeroed k h) s)" "m \<le> m1"
    "good_marks s m1" "\<forall>n. 0 \<le> n \<and> n < int k \<and> 0 < n_refcou (bddnodes s n) \<longrightarrow> marked m1 n" by auto
  have z: "(zeroed k h)(int k := 0) = zeroed (Suc k) h" by (auto simp: zeroed_def fun_eq_iff)
  show ?case
  proof (cases "0 < n_refcou (bddnodes s (int k))")
    case True
    then have lv: "live s (int k)" using Suc.prems by (intro live_ref) auto
    have "node_id s (int k)"
      using True Suc.prems by (auto simp: node_id_def allocd_def refs_ok_def)
    from mark_root [OF Suc.prems(1) this m1(3) lv, of "zeroed k h"] obtain m2 where
      m2: "bdd_mark (mark_fuel s) (int k) (decor m1 (zeroed k h) s) = ret () (decor m2 (zeroed k h) s)"
        "m1 \<le> m2" "marked m2 (int k)" "good_marks s m2" by blast
    have "marked m2 n" if "0 \<le> n" "n < int (Suc k)" "0 < n_refcou (bddnodes s n)" for n
    proof (cases "n = int k")
      case False
      then have "marked m1 n" using that m1(4) by auto
      then show ?thesis using m2(2) by (rule marked_mono [rotated])
    qed (simp add: m2)
    then show ?thesis using m1 m2 True
      by (intro exI [of _ m2]) (auto simp: zero_hash_decor z intro: order_trans)
  next
    case False
    have "marked m1 n" if "0 \<le> n" "n < int (Suc k)" "0 < n_refcou (bddnodes s n)" for n
      using that m1(4) False by (cases "n = int k") auto
    then show ?thesis using m1 False by (intro exI [of _ m1]) (simp add: zero_hash_decor z)
  qed
qed

lemma live_marked:
  assumes "live s n" "good_marks s m"
    and "\<And>x. x \<in> set (bddrefstack s) \<Longrightarrow> marked m x"
    and "\<And>n. 0 \<le> n \<Longrightarrow> n < bddnodesize s \<Longrightarrow> 0 < n_refcou (bddnodes s n) \<Longrightarrow> marked m n"
  shows "marked m n"
  using assms(1)
proof (induction rule: live.induct)
  case (live_low n)
  then have "m n" by (auto simp: marked_def inner_def allocd_def)
  then show ?case using assms(2) live_low by (auto simp: good_marks_def kids_marked_def)
next
  case (live_high n)
  then have "m n" by (auto simp: marked_def inner_def allocd_def)
  then show ?case using assms(2) live_high by (auto simp: good_marks_def kids_marked_def)
qed (simp_all add: assms)

text \<open>The two marking loops of \<open>bdd_gbc\<close> together.\<close>

lemma mark_phase:
  assumes wf: "wf_nodes s" and st: "stack_ok s" and rf: "refs_ok s" and mc: "marks_clear s"
    and sz: "0 \<le> bddnodesize s"
  shows "bnd (mark_stack (rev (bddrefstack s)) s) (\<lambda>_ t. mark_refs (nat (bddnodesize t)) t) =
     ret () (decor (\<lambda>n. allocd s n \<and> live s n) (zeroed (nat (bddnodesize s)) (bucket s)) s)"
proof -
  have "good_marks s (MARKED s)" using mc by (simp add: good_marks_def marks_clear_def)
  then obtain m1 where m1: "mark_stack (rev (bddrefstack s)) s = ret () (decor m1 (bucket s) s)"
    "good_marks s m1" "\<forall>r\<in>set (rev (bddrefstack s)). marked m1 r"
    using mark_stack_spec [OF wf, of "MARKED s" "rev (bddrefstack s)" "bucket s"] st
    unfolding decor_id stack_ok_def by (auto intro: live_stack)
  obtain m2 where m2: "mark_refs (nat (bddnodesize s)) (decor m1 (bucket s) s) =
       ret () (decor m2 (zeroed (nat (bddnodesize s)) (bucket s)) s)"
    "m1 \<le> m2" "good_marks s m2"
    "\<forall>n. 0 \<le> n \<and> n < bddnodesize s \<and> 0 < n_refcou (bddnodes s n) \<longrightarrow> marked m2 n"
    using mark_refs_spec [OF wf rf m1(2), of "nat (bddnodesize s)" "bucket s"] sz by auto
  have "m2 n = (allocd s n \<and> live s n)" for n
  proof
    assume "m2 n"
    then show "allocd s n \<and> live s n" using m2(3) by (simp add: good_marks_def)
  next
    assume n: "allocd s n \<and> live s n"
    have "marked m2 n"
    proof (rule live_marked [OF _ m2(3)])
      show "live s n" using n by simp
      show "marked m2 x" if "x \<in> set (bddrefstack s)" for x
        using m1(3) that by (intro marked_mono [OF m2(2)]) simp
      show "marked m2 x" if "0 \<le> x" "x < bddnodesize s" "0 < n_refcou (bddnodes s x)" for x
        using m2(4) that by blast
    qed
    with n show "m2 n" by (auto simp: marked_def allocd_def)
  qed
  then have eq: "m2 = (\<lambda>n. allocd s n \<and> live s n)" by (rule ext)
  show ?thesis by (simp only: m1(1) bnd_ret decor_sel m2(1) eq)
qed

end
