(* ===== verification/KernelGc.thy ===== *)
theory KernelGc
  imports KernelMark
begin

text \<open>
  The sweep phase and \<open>bdd_gbc\<close> as a whole. Exactly the entries that are not live are
  put on the free list, the live ones keep their level, children and reference count, the unique
  table is rebuilt and every operation cache is emptied.
\<close>

section \<open>What the table operations leave alone\<close>

definition null_caches :: bddCaches where
  "null_caches = \<lparr>applycache = null_cache, itecache = null_cache, quantcache = null_cache,
     appexcache = null_cache, replacecache = null_cache, misccache = null_cache,
     mtbdd_cache_apply = null_cache, mtbdd_cache_ite = null_cache,
     mtbdd_cache_operation = null_cache, g_cache_registry = []\<rparr>"

text \<open>The part of the state that node creation, collection and resizing never touch.\<close>

definition stat :: "bdd_state \<Rightarrow> bdd_state" where
  "stat s = s\<lparr>bddnodes := (\<lambda>_. \<lparr>n_high = 0, n_low = 0, n_refcou = 0, n_level = 0, n_mark = False,
                             n_hash = 0, n_next = 0\<rparr>),
     bddnodesize := 0, bddfreepos := 0, bddfreenum := 0, bddproduced := 0, bddrefstack := [],
     bddresized := False, gbcollectnum := 0, bdderrorcond := 0, caches := null_caches,
     mtvals := (mtvals s)\<lparr>vals := (\<lambda>_. 0), indexstack := [], mtbddTerminalUsed := 0\<rparr>,
     randpos := 0, trace := []\<rparr>"

lemma stat_upd [simp]:
  "stat (s\<lparr>bddnodes := a\<rparr>) = stat s" "stat (s\<lparr>bddnodesize := b\<rparr>) = stat s"
  "stat (s\<lparr>bddfreepos := b\<rparr>) = stat s" "stat (s\<lparr>bddfreenum := b\<rparr>) = stat s"
  "stat (s\<lparr>bddproduced := b\<rparr>) = stat s" "stat (s\<lparr>bddrefstack := c\<rparr>) = stat s"
  "stat (s\<lparr>bddresized := d\<rparr>) = stat s" "stat (s\<lparr>gbcollectnum := b\<rparr>) = stat s"
  "stat (s\<lparr>bdderrorcond := b\<rparr>) = stat s" "stat (s\<lparr>caches := e\<rparr>) = stat s"
  "stat (s\<lparr>randpos := f\<rparr>) = stat s" "stat (s\<lparr>trace := g\<rparr>) = stat s"
  by (simp_all add: stat_def)

lemma stat_mtvals [simp]:
  "mtvals s = v \<Longrightarrow> domaintype v' = domaintype v \<Longrightarrow> mtbddmaxTerminalSize v' = mtbddmaxTerminalSize v \<Longrightarrow>
   mtbddLastValueIndex v' = mtbddLastValueIndex v \<Longrightarrow>
   mtbdd_terminal_functions_list v' = mtbdd_terminal_functions_list v \<Longrightarrow>
   mtbdd_terminal_type_size v' = mtbdd_terminal_type_size v \<Longrightarrow> stat (s\<lparr>mtvals := v'\<rparr>) = stat s"
  by (simp add: stat_def)

lemma stat_sel [simp]:
    "bddrunning (stat s) = bddrunning s" "bddmaxnodesize (stat s) = bddmaxnodesize s"
    "bddmaxnodeincrease (stat s) = bddmaxnodeincrease s" "bddvarnum (stat s) = bddvarnum s"
    "bddrefslots (stat s) = bddrefslots s" "bddvar2level (stat s) = bddvar2level s"
    "bddlevel2var (stat s) = bddlevel2var s" "bddvarset (stat s) = bddvarset s"
    "checkSameChildren (stat s) = checkSameChildren s" "mtbdd (stat s) = mtbdd s"
    "usednodes_nextreorder (stat s) = usednodes_nextreorder s"
    "minfreenodes (stat s) = minfreenodes s" "err_handler (stat s) = err_handler s"
    "gbc_handler (stat s) = gbc_handler s" "resize_handler (stat s) = resize_handler s"
    "reorderdisabled (stat s) = reorderdisabled s" "bddreordermethod (stat s) = bddreordermethod s"
    "bddreordertimes (stat s) = bddreordertimes s" "vartree (stat s) = vartree s"
    "ops (stat s) = ops s" "pairs (stat s) = pairs s" "pairsid (stat s) = pairsid s"
    "rand (stat s) = rand s" "memlimit (stat s) = memlimit s"
    "domaintype (mtvals (stat s)) = domaintype (mtvals s)"
    "mtbddmaxTerminalSize (mtvals (stat s)) = mtbddmaxTerminalSize (mtvals s)"
    "mtbdd_terminal_functions_list (mtvals (stat s)) = mtbdd_terminal_functions_list (mtvals s)"
    "mtbddLastValueIndex (mtvals (stat s)) = mtbddLastValueIndex (mtvals s)"
    "mtbdd_terminal_type_size (mtvals (stat s)) = mtbdd_terminal_type_size (mtvals s)"
  by (simp_all add: stat_def)

lemma statD:
  assumes "stat s = stat t"
  shows
    "bddrunning s = bddrunning t" "bddmaxnodesize s = bddmaxnodesize t"
    "bddmaxnodeincrease s = bddmaxnodeincrease t" "bddvarnum s = bddvarnum t"
    "bddrefslots s = bddrefslots t" "bddvar2level s = bddvar2level t"
    "bddlevel2var s = bddlevel2var t" "bddvarset s = bddvarset t"
    "checkSameChildren s = checkSameChildren t" "mtbdd s = mtbdd t"
    "usednodes_nextreorder s = usednodes_nextreorder t" "minfreenodes s = minfreenodes t"
    "err_handler s = err_handler t" "gbc_handler s = gbc_handler t"
    "resize_handler s = resize_handler t" "reorderdisabled s = reorderdisabled t"
    "bddreordermethod s = bddreordermethod t" "bddreordertimes s = bddreordertimes t"
    "vartree s = vartree t" "ops s = ops t" "pairs s = pairs t" "pairsid s = pairsid t"
    "rand s = rand t" "memlimit s = memlimit t" "domaintype (mtvals s) = domaintype (mtvals t)"
    "mtbddmaxTerminalSize (mtvals s) = mtbddmaxTerminalSize (mtvals t)"
    "mtbdd_terminal_functions_list (mtvals s) = mtbdd_terminal_functions_list (mtvals t)"
    "mtbddLastValueIndex (mtvals s) = mtbddLastValueIndex (mtvals t)"
    "mtbdd_terminal_type_size (mtvals s) = mtbdd_terminal_type_size (mtvals t)"
  by (metis assms stat_sel)+

lemma stat_upd_node [simp]: "stat (upd_node f n s) = stat s"
  by (simp add: upd_node_def)

lemma stat_link_node [simp]: "stat (link_node n h s) = stat s"
  by (simp add: link_node_def)

lemma stat_push_free [simp]: "stat (push_free n s) = stat s"
  by (simp add: push_free_def)

lemma stat_decor [simp]: "stat (decor m h s) = stat s"
  by (simp add: decor_def)

text \<open>A table entry keeps its contents.\<close>

definition same_node :: "bdd_state \<Rightarrow> bdd_state \<Rightarrow> int \<Rightarrow> bool" where
  "same_node s t n =
     (LEVEL t n = LEVEL s n \<and> LOW t n = LOW s n \<and> HIGH t n = HIGH s n \<and>
      n_refcou (bddnodes t n) = n_refcou (bddnodes s n))"

lemma same_node_refl [simp]: "same_node s s n" by (simp add: same_node_def)

lemma same_node_trans: "same_node s t n \<Longrightarrow> same_node t u n \<Longrightarrow> same_node s u n"
  by (simp add: same_node_def)

section \<open>Deleting a terminal\<close>

lemma delete_terminal_sel [simp]:
  "bddnodes (mtbdd_delete_terminal d s) = bddnodes s"
  "bddnodesize (mtbdd_delete_terminal d s) = bddnodesize s"
  "bddfreepos (mtbdd_delete_terminal d s) = bddfreepos s"
  "bddfreenum (mtbdd_delete_terminal d s) = bddfreenum s"
  "bddrefstack (mtbdd_delete_terminal d s) = bddrefstack s"
  "caches (mtbdd_delete_terminal d s) = caches s"
  "bdderrorcond (mtbdd_delete_terminal d s) = bdderrorcond s"
  "bddresized (mtbdd_delete_terminal d s) = bddresized s"
  "randpos (mtbdd_delete_terminal d s) = randpos s"
  "stat (mtbdd_delete_terminal d s) = stat s"
  by (simp_all add: mtbdd_delete_terminal_def Let_def release_index_def mtbdd_IndexStackPush_def
      split: domainTypes.split)

lemma delete_terminal_vals:
  "domaintype (mtvals s) \<noteq> CUSTOM \<or> i \<noteq> u32 (n_high d) \<Longrightarrow>
   vals (mtvals (mtbdd_delete_terminal d s)) i = vals (mtvals s) i"
  by (auto simp: mtbdd_delete_terminal_def Let_def release_index_def mtbdd_IndexStackPush_def
      split: domainTypes.split)

section \<open>Sweeping\<close>

definition gc_frame :: "bdd_state \<Rightarrow> bdd_state \<Rightarrow> bool" where
  "gc_frame s t =
     (stat t = stat s \<and> bddnodesize t = bddnodesize s \<and> bddrefstack t = bddrefstack s \<and>
      bdderrorcond t = bdderrorcond s \<and> bddresized t = bddresized s \<and> randpos t = randpos s)"

abbreviation keep :: "bdd_state \<Rightarrow> int \<Rightarrow> bool" where
  "keep s n \<equiv> allocd s n \<and> live s n"

definition freed :: "bdd_state \<Rightarrow> int \<Rightarrow> bool" where
  "freed t n = (LOW t n = -1 \<and> LEVEL t n = 0 \<and> n_refcou (bddnodes t n) = 0)"

text \<open>The values of terminals that stay are not touched.\<close>

definition vals_kept :: "bdd_state \<Rightarrow> bdd_state \<Rightarrow> bool" where
  "vals_kept s t =
     (\<forall>n. keep s n \<and> LEVEL s n = MAXLEVEL \<longrightarrow>
        vals (mtvals t) (u32 (HIGH s n)) = vals (mtvals s) (u32 (HIGH s n)))"

text \<open>\<open>s\<close> is the state before the collection, \<open>t\<close> when the entries from \<open>c\<close> are done.\<close>

definition swept :: "bdd_state \<Rightarrow> int \<Rightarrow> bdd_state \<Rightarrow> bool" where
  "swept s c t =
     (gc_frame s t \<and> caches t = caches s \<and> built c t \<and> vals_kept s t \<and>
      (\<forall>n. n < c \<or> keep s n \<or> bddnodesize s \<le> n \<longrightarrow> same_node s t n) \<and>
      (\<forall>n. c \<le> n \<and> n < bddnodesize s \<and> \<not> keep s n \<longrightarrow> freed t n) \<and>
      (\<forall>n. MARKED t n = (n < c \<and> keep s n)))"

lemma sweptD:
  assumes "swept s c t"
  shows "gc_frame s t" "caches t = caches s" "built c t" "vals_kept s t"
    "n < c \<or> keep s n \<or> bddnodesize s \<le> n \<Longrightarrow> same_node s t n"
    "c \<le> n \<Longrightarrow> n < bddnodesize s \<Longrightarrow> \<not> keep s n \<Longrightarrow> freed t n"
    "MARKED t n = (n < c \<and> keep s n)"
  using assms unfolding swept_def by blast+

lemma UNMARK_sel [simp]:
  "LEVEL (UNMARK i s) = LEVEL s" "LOW (UNMARK i s) = LOW s" "HIGH (UNMARK i s) = HIGH s"
  "nx (UNMARK i s) = nx s" "bucket (UNMARK i s) = bucket s"
  "MARKED (UNMARK i s) = (MARKED s)(i := False)"
  "n_refcou (bddnodes (UNMARK i s) n) = n_refcou (bddnodes s n)"
  "bddnodesize (UNMARK i s) = bddnodesize s" "bddfreepos (UNMARK i s) = bddfreepos s"
  "bddfreenum (UNMARK i s) = bddfreenum s" "mtvals (UNMARK i s) = mtvals s"
  "stat (UNMARK i s) = stat s" "caches (UNMARK i s) = caches s"
  "bddrefstack (UNMARK i s) = bddrefstack s" "bdderrorcond (UNMARK i s) = bdderrorcond s"
  "bddresized (UNMARK i s) = bddresized s" "randpos (UNMARK i s) = randpos s"
  by (auto simp: UNMARK_def upd_node_def fun_eq_iff LEVEL_def LOW_def HIGH_def MARKED_def nx_def
      bucket_def)

lemma gc_frame_link [simp]: "gc_frame s (link_node n h t) = gc_frame s t"
  by (simp add: gc_frame_def link_node_def upd_node_def)

lemma gc_frame_push [simp]: "gc_frame s (push_free n t) = gc_frame s t"
  by (simp add: gc_frame_def push_free_def upd_node_def)

lemma gc_frame_UNMARK [simp]: "gc_frame s (UNMARK n t) = gc_frame s t"
  by (simp add: gc_frame_def)

lemma gc_frame_upd_node [simp]: "gc_frame s (upd_node f n t) = gc_frame s t"
  by (simp add: gc_frame_def upd_node_def)

lemma gc_frame_delete [simp]: "gc_frame s (mtbdd_delete_terminal d t) = gc_frame s t"
  by (simp add: gc_frame_def)

lemma sweep_keep:
  assumes sw: "swept s (c + 1) t" and c: "2 \<le> c" "c < bddnodesize s" and k: "keep s c"
  shows "swept s c (sweep_step c t)"
proof -
  note S = sweptD [OF sw]
  let ?u = "UNMARK c t"
  have sn: "same_node s t c" using S(5) [of c] k by blast
  then have low: "LOW t c \<noteq> -1" using k by (simp add: same_node_def allocd_def)
  have st: "sweep_step c t = link_node c (gbc_hash ?u c) ?u"
    using low S(7) [of c] k by (simp add: sweep_step_def Let_def)
  have size: "bddnodesize t = bddnodesize s" using S(1) by (simp add: gc_frame_def)
  have "built (c + 1) ?u" using S(3) by (rule built_cong) (auto intro: gbc_hash_cong)
  then have b: "built c (sweep_step c t)" using c low size unfolding st by (intro built_link) auto
  have node: "same_node s (sweep_step c t) n = same_node s t n" for n
    by (simp add: st same_node_def acc)
  show ?thesis unfolding swept_def
  proof (intro conjI allI impI)
    show "gc_frame s (sweep_step c t)" "caches (sweep_step c t) = caches s"
      using S(1,2) by (simp_all add: st)
    show "built c (sweep_step c t)" by fact
    show "vals_kept s (sweep_step c t)" using S(4) by (simp add: st vals_kept_def)
  next
    fix n assume "n < c \<or> keep s n \<or> bddnodesize s \<le> n"
    then show "same_node s (sweep_step c t) n" using S(5) [of n] by (auto simp: node)
  next
    fix n assume n: "c \<le> n \<and> n < bddnodesize s \<and> \<not> keep s n"
    then have "freed t n" using S(6) [of n] k by (cases "n = c") auto
    then show "freed (sweep_step c t) n" by (simp add: st freed_def acc)
  next
    fix n show "MARKED (sweep_step c t) n = (n < c \<and> keep s n)"
      using S(7) [of n] by (auto simp: st acc)
  qed
qed

text \<open>Removing entry \<open>c\<close> does not disturb the value of another live terminal.\<close>

definition drop_value :: "int \<Rightarrow> bdd_state \<Rightarrow> bdd_state" where
  "drop_value c t = (if LEVEL t c = MAXLEVEL then mtbdd_delete_terminal (bddnodes t c) t else t)"

lemma drop_value_sel [simp]:
  "bddnodes (drop_value c t) = bddnodes t" "LEVEL (drop_value c t) = LEVEL t"
  "LOW (drop_value c t) = LOW t" "HIGH (drop_value c t) = HIGH t" "nx (drop_value c t) = nx t"
  "bucket (drop_value c t) = bucket t" "MARKED (drop_value c t) = MARKED t"
  "bddnodesize (drop_value c t) = bddnodesize t" "bddfreepos (drop_value c t) = bddfreepos t"
  "bddfreenum (drop_value c t) = bddfreenum t" "caches (drop_value c t) = caches t"
  "stat (drop_value c t) = stat t" "gc_frame s (drop_value c t) = gc_frame s t"
  by (simp_all add: drop_value_def fun_eq_iff LEVEL_def LOW_def HIGH_def nx_def bucket_def MARKED_def)

lemma drop_value_vals:
  assumes sw: "swept s (c + 1) t" and c: "2 \<le> c" "c < bddnodesize s" "\<not> keep s c"
    and I: "refs_ok s" "slots_distinct s" and n: "keep s n" "LEVEL s n = MAXLEVEL"
  shows "vals (mtvals (drop_value c t)) (u32 (HIGH s n)) = vals (mtvals t) (u32 (HIGH s n))"
proof (cases "LEVEL t c = MAXLEVEL")
  case True
  note S = sweptD [OF sw]
  have sn: "same_node s t c" using S(5) [of c] by simp
  have nc: "n \<noteq> c" using n c by auto
  have "LEVEL s c = MAXLEVEL" using sn True by (simp add: same_node_def)
  moreover from this have "allocd s c"
    using I(1) c by (auto simp: refs_ok_def allocd_def MAXLEVEL_def)
  moreover have "domaintype (mtvals t) = domaintype (mtvals s)"
    using S(1) by (intro statD) (simp add: gc_frame_def)
  ultimately have "domaintype (mtvals t) \<noteq> CUSTOM \<or> u32 (HIGH s n) \<noteq> u32 (HIGH s c)"
    using I(2) n nc unfolding slots_distinct_def by metis
  then show ?thesis
    using True sn by (simp add: drop_value_def same_node_def HIGH_def delete_terminal_vals)
qed (simp add: drop_value_def)

lemma sweep_drop:
  assumes sw: "swept s (c + 1) t" and c: "2 \<le> c" "c < bddnodesize s" and k: "\<not> keep s c"
    and I: "refs_ok s" "slots_distinct s"
  shows "swept s c (sweep_step c t)"
proof -
  note S = sweptD [OF sw]
  let ?f = "\<lambda>d :: BddNode. d\<lparr>n_low := -1, n_level := 0, n_refcou := 0\<rparr>"
  let ?u = "upd_node ?f c (drop_value c t)"
  have st: "sweep_step c t = push_free c ?u"
    using S(7) [of c] k by (simp add: sweep_step_def Let_def drop_value_def)
  have size: "bddnodesize t = bddnodesize s" using S(1) by (simp add: gc_frame_def)
  have u: "LEVEL ?u = (LEVEL t)(c := 0)" "LOW ?u = (LOW t)(c := -1)" "HIGH ?u = HIGH t"
    "nx ?u = nx t" "bucket ?u = bucket t" "MARKED ?u = MARKED t"
    by (auto simp: fun_eq_iff LEVEL_def LOW_def HIGH_def nx_def bucket_def MARKED_def)
  have hash: "gbc_hash ?u n = gbc_hash t n"
    if n: "c + 1 \<le> n" "n < bddnodesize t" "LOW t n \<noteq> -1" for n
  proof -
    have kn: "keep s n" using S(6) [of n] n size by (auto simp: freed_def)
    then have sn: "same_node s t n" using S(5) [of n] by blast
    have "stat (drop_value c t) = stat t" by simp
    note D = statD [OF this]
    have "same_terminal ?u t n"
      using drop_value_vals [OF sw c k I kn] sn n D
      by (simp add: same_terminal_def u same_node_def)
    then show ?thesis using n by (intro gbc_hash_cong) (simp_all add: u)
  qed
  have "built (c + 1) ?u" using S(3) by (rule built_cong) (auto simp: u hash)
  then have b: "built c (sweep_step c t)" using c size unfolding st by (intro built_push) (auto simp: u)
  have node: "n \<noteq> c \<Longrightarrow> same_node s (sweep_step c t) n = same_node s t n" for n
    by (simp add: st same_node_def acc u)
  show ?thesis unfolding swept_def
  proof (intro conjI allI impI)
    show "gc_frame s (sweep_step c t)" "caches (sweep_step c t) = caches s"
      using S(1,2) by (simp_all add: st)
    show "built c (sweep_step c t)" by fact
    show "vals_kept s (sweep_step c t)"
      using S(4) drop_value_vals [OF sw c k I] by (simp add: st vals_kept_def)
  next
    fix n assume "n < c \<or> keep s n \<or> bddnodesize s \<le> n"
    then show "same_node s (sweep_step c t) n" using S(5) [of n] k c by (cases "n = c") (auto simp: node)
  next
    fix n assume n: "c \<le> n \<and> n < bddnodesize s \<and> \<not> keep s n"
    then show "freed (sweep_step c t) n"
      using S(6) [of n] k by (cases "n = c") (auto simp: st freed_def acc u)
  next
    fix n show "MARKED (sweep_step c t) n = (n < c \<and> keep s n)"
      using S(7) [of n] k by (cases "n = c") (auto simp: st acc u)
  qed
qed

lemma sweep_loop_swept:
  assumes I: "refs_ok s" "slots_distinct s"
  shows "int k + 2 \<le> bddnodesize s \<Longrightarrow> swept s (int k + 2) t \<Longrightarrow> swept s 2 (sweep_loop k t)"
proof (induction k arbitrary: t)
  case 0
  then show ?case by simp
next
  case (Suc k)
  let ?c = "int k + 2"
  have c: "2 \<le> ?c" "?c < bddnodesize s" using Suc.prems by auto
  have "swept s (?c + 1) t" using Suc.prems(2) by (simp add: add.commute)
  then have "swept s ?c (sweep_step ?c t)"
    using c I by (cases "keep s ?c") (auto intro: sweep_keep sweep_drop)
  with Suc.IH [of "sweep_step ?c t"] c show ?case by simp
qed

section \<open>The collection\<close>

text \<open>The relation between the states before and after a collection.\<close>

definition collected :: "bdd_state \<Rightarrow> bdd_state \<Rightarrow> bool" where
  "collected s t =
     (gc_frame s t \<and> caches t = caches (bdd_operator_reset s) \<and> vals_kept s t \<and>
      (\<forall>n. n < 2 \<or> keep s n \<or> bddnodesize s \<le> n \<longrightarrow> same_node s t n) \<and>
      (\<forall>n. 2 \<le> n \<and> n < bddnodesize s \<and> \<not> keep s n \<longrightarrow> freed t n))"

lemma swept_start:
  assumes "0 \<le> bddnodesize s"
  shows "swept s (bddnodesize s)
     ((decor (\<lambda>n. keep s n) (zeroed (nat (bddnodesize s)) h) s)\<lparr>bddfreepos := 0, bddfreenum := 0\<rparr>)"
  (is "swept s _ (?d\<lparr>bddfreepos := 0, bddfreenum := 0\<rparr>)")
proof -
  let ?t = "?d\<lparr>bddfreepos := 0, bddfreenum := 0\<rparr>"
  have t: "LEVEL ?t = LEVEL s" "LOW ?t = LOW s" "HIGH ?t = HIGH s" "MARKED ?t = (\<lambda>n. keep s n)"
    "bucket ?t = zeroed (nat (bddnodesize s)) h"
    by (simp_all add: fun_eq_iff LEVEL_def LOW_def HIGH_def MARKED_def bucket_def decor_def)
  have "bucket ?t b = 0" if "0 \<le> b" "b < bddnodesize s" for b
    using that unfolding t by (simp add: zeroed_def)
  then have "built (bddnodesize s) ?t" by (intro built_empty) (simp_all add: decor_def)
  moreover have "keep s n \<Longrightarrow> n < bddnodesize s" for n by (simp add: allocd_def)
  moreover have "gc_frame s ?t" by (simp add: gc_frame_def decor_def)
  moreover have "vals_kept s ?t" "caches ?t = caches s" by (simp_all add: vals_kept_def decor_def)
  moreover have "same_node s ?t n" for n by (simp add: same_node_def LEVEL_def LOW_def HIGH_def decor_def)
  ultimately show ?thesis unfolding swept_def by (auto simp: t)
qed

lemma live_cong:
  assumes "bddnodes t = bddnodes s" "bddnodesize t = bddnodesize s" "bddrefstack t = bddrefstack s"
  shows "live t n = live s n"
proof -
  have acc: "inner t = inner s" "LOW t = LOW s" "HIGH t = HIGH s"
    by (simp_all add: fun_eq_iff inner_def allocd_def LOW_def HIGH_def LEVEL_def assms)
  have "live t n" if "live s n" for n
    using that
  proof (induction rule: live.induct)
    case (live_low n) then show ?case using live.live_low [of t n] by (simp add: acc)
  next
    case (live_high n) then show ?case using live.live_high [of t n] by (simp add: acc)
  qed (auto intro: live.intros simp: assms)
  moreover have "live s n" if "live t n" for n
    using that
  proof (induction rule: live.induct)
    case (live_low n) then show ?case using live.live_low [of s n] by (simp add: acc)
  next
    case (live_high n) then show ?case using live.live_high [of s n] by (simp add: acc)
  qed (auto intro: live.intros simp: assms)
  ultimately show ?thesis by blast
qed

lemma tab_inv_cong:
  assumes "bddnodes t = bddnodes s" "bddnodesize t = bddnodesize s" "bddrefstack t = bddrefstack s"
    "bddfreepos t = bddfreepos s" "bddfreenum t = bddfreenum s" "mtvals t = mtvals s"
  shows "tab_inv t = tab_inv s"
proof -
  have acc: "LEVEL t = LEVEL s" "LOW t = LOW s" "HIGH t = HIGH s" "nx t = nx s"
    "bucket t = bucket s" "MARKED t = MARKED s"
    by (simp_all add: fun_eq_iff LOW_def HIGH_def LEVEL_def nx_def bucket_def MARKED_def assms)
  have "gbc_hash t n = gbc_hash s n" for n by (rule gbc_hash_cong) (simp_all add: acc assms)
  then show ?thesis
    by (simp add: tab_inv_def size_ok_def consts_ok_def wf_nodes_def unique_nodes_def built_def
        bucket_ok_def free_ok_def marks_clear_def refs_ok_def stack_ok_def slots_distinct_def
        inner_def allocd_def node_id_def below_def acc assms)
qed

lemma operator_reset_eq:
  "bdd_operator_reset s = s\<lparr>caches := caches (bdd_operator_reset s)\<rparr>"
  by (simp add: bdd_operator_reset_def mtbdd_operator_reset_def)

lemma operator_reset_caches: "caches s = caches t \<Longrightarrow> caches (bdd_operator_reset s) = caches (bdd_operator_reset t)"
  by (simp add: bdd_operator_reset_def mtbdd_operator_reset_def)

lemma gbc_event_eq: "\<exists>tr. gbc_event b s = s\<lparr>trace := tr\<rparr>"
  by (cases "gbc_handler s") (auto simp: gbc_event_def intro: exI [of _ "trace s"])

text \<open>The invariant after the sweep.\<close>

lemma kept_child:
  assumes I: "tab_inv s" and n: "keep s n" "inner s n"
  shows "node_id s (LOW s n)" "2 \<le> LOW s n \<Longrightarrow> keep s (LOW s n)"
    "node_id s (HIGH s n)" "2 \<le> HIGH s n \<Longrightarrow> keep s (HIGH s n)"
  using wf_nodes_child [OF tab_invD(3) [OF I] n(2)] n
  by (auto simp: node_id_def intro: live_low live_high)

lemma collected_alloc:
  assumes "collected s t" "allocd t n"
  shows "keep s n \<and> same_node s t n"
  using assms by (auto simp: collected_def allocd_def gc_frame_def freed_def)

lemma collected_keep:
  assumes "collected s t" "keep s n"
  shows "allocd t n \<and> same_node s t n"
  using assms by (auto simp: collected_def allocd_def gc_frame_def same_node_def)

lemma collected_wf:
  assumes I: "tab_inv s" and C: "collected s t"
  shows "wf_nodes t"
  unfolding wf_nodes_def
proof (intro allI impI)
  fix n assume n: "inner t n"
  then have k: "keep s n" "same_node s t n" using collected_alloc [OF C] by (auto simp: inner_def)
  then have i: "inner s n" using n by (simp add: inner_def same_node_def)
  note ch = wf_nodes_child [OF tab_invD(3) [OF I] i] and kc = kept_child [OF I k(1) i]
  have "node_id t c \<and> below t (LEVEL s n) c"
    if "node_id s c" "2 \<le> c \<Longrightarrow> keep s c" "below s (LEVEL s n) c" for c
    using that collected_keep [OF C, of c] by (auto simp: node_id_def below_def same_node_def allocd_def)
  then show "0 \<le> LEVEL t n \<and> LEVEL t n < MAXLEVEL \<and> node_id t (LOW t n) \<and> node_id t (HIGH t n) \<and>
      below t (LEVEL t n) (LOW t n) \<and> below t (LEVEL t n) (HIGH t n)"
    using ch kc k(2) by (auto simp: same_node_def)
qed

lemma collected_inv:
  assumes I: "tab_inv s" and C: "collected s t" and b: "built 2 t" and m: "marks_clear t"
  shows "tab_inv t"
proof -
  note D = tab_invD [OF I]
  have fr: "bddnodesize t = bddnodesize s" "bddrefstack t = bddrefstack s" "stat t = stat s"
    using C by (simp_all add: collected_def gc_frame_def)
  have c01: "same_node s t 0" "same_node s t 1" using C by (auto simp: collected_def)
  have "size_ok t" using D(1) fr by (simp add: size_ok_def)
  moreover have "consts_ok t" using D(2) c01 by (simp add: consts_ok_def same_node_def)
  moreover have "unique_nodes t" unfolding unique_nodes_def
  proof (intro allI impI)
    fix m n
    assume mn: "inner t m \<and> inner t n \<and> LEVEL t m = LEVEL t n \<and> LOW t m = LOW t n \<and> HIGH t m = HIGH t n"
    then have k: "keep s m" "same_node s t m" "keep s n" "same_node s t n"
      using collected_alloc [OF C] by (simp_all add: inner_def)
    have i: "inner s m" "inner s n" using mn k by (simp_all add: inner_def same_node_def)
    have "LEVEL s m = LEVEL s n" "LOW s m = LOW s n" "HIGH s m = HIGH s n"
      using mn k(2,4) by (metis same_node_def)+
    with i show "m = n" by (rule unique_nodesD [OF D(4)])
  qed
  moreover have "refs_ok t" unfolding refs_ok_def
  proof (intro conjI allI impI)
    fix n assume n: "2 \<le> n \<and> n < bddnodesize t \<and> LOW t n = -1"
    then have "\<not> keep s n" using collected_keep [OF C, of n] by (auto simp: allocd_def)
    then have "freed t n" using C n fr(1) unfolding collected_def by simp
    then show "n_refcou (bddnodes t n) = 0" "LEVEL t n = 0" by (simp_all add: freed_def)
  next
    fix n
    have "same_node s t n \<or> freed t n"
      using C unfolding collected_def by (meson linorder_not_less)
    then show "0 \<le> n_refcou (bddnodes t n)" "n_refcou (bddnodes t n) \<le> MAXREF"
      using D(7) by (auto simp: refs_ok_def same_node_def freed_def MAXREF_def)
  qed
  moreover have "stack_ok t" unfolding stack_ok_def
  proof
    fix x assume "x \<in> set (bddrefstack t)"
    then have "node_id s x" "live s x" using D(8) fr by (auto simp: stack_ok_def intro: live_stack)
    then show "node_id t x" using collected_keep [OF C, of x] by (auto simp: node_id_def)
  qed
  moreover have "slots_distinct t"
    using D(9) collected_alloc [OF C] statD(25) [OF fr(3)]
    unfolding slots_distinct_def same_node_def by metis
  ultimately show ?thesis using b m collected_wf [OF I C] by (simp add: tab_inv_def)
qed

lemma collected_event:
  assumes "collected (s\<lparr>trace := tr\<rparr>) t"
  shows "collected s t"
proof -
  let ?s = "s\<lparr>trace := tr\<rparr>"
  have "live ?s n = live s n" for n by (rule live_cong) simp_all
  moreover have "allocd ?s n = allocd s n" "same_node ?s t n = same_node s t n" "LEVEL ?s n = LEVEL s n"
    "HIGH ?s n = HIGH s n" for n
    by (simp_all add: allocd_def same_node_def LOW_def LEVEL_def HIGH_def)
  moreover have "gc_frame ?s t = gc_frame s t" by (simp add: gc_frame_def)
  moreover have "caches (bdd_operator_reset ?s) = caches (bdd_operator_reset s)"
    by (rule operator_reset_caches) simp
  ultimately show ?thesis using assms by (simp add: collected_def vals_kept_def)
qed

lemma collected_cong:
  assumes "bddnodes t' = bddnodes t" "gc_frame s t' = gc_frame s t" "caches t' = caches (bdd_operator_reset s)"
    "mtvals t' = mtvals t" and C: "gc_frame s t" "vals_kept s t"
    "\<And>n. n < 2 \<or> keep s n \<or> bddnodesize s \<le> n \<Longrightarrow> same_node s t n"
    "\<And>n. 2 \<le> n \<Longrightarrow> n < bddnodesize s \<Longrightarrow> \<not> keep s n \<Longrightarrow> freed t n"
  shows "collected s t'"
proof -
  have "same_node s t' n = same_node s t n" "freed t' n = freed t n" for n
    by (simp_all add: same_node_def freed_def LOW_def LEVEL_def HIGH_def assms(1))
  then show ?thesis using assms by (simp add: collected_def vals_kept_def)
qed

lemma bdd_gbc_spec:
  assumes I: "tab_inv s"
  shows "\<exists>t. bdd_gbc s = ret () t \<and> tab_inv t \<and> collected s t"
proof -
  obtain tr where ev: "gbc_event True s = s\<lparr>trace := tr\<rparr>" using gbc_event_eq by blast
  let ?s = "s\<lparr>trace := tr\<rparr>"
  have I': "tab_inv ?s" using I by (subst tab_inv_cong [of _ s]) simp_all
  note D = tab_invD [OF I']
  have sz: "2 \<le> bddnodesize ?s" using D(1) by (simp add: size_ok_def)
  then have sz0: "0 \<le> bddnodesize ?s" by simp
  let ?d = "decor (\<lambda>n. keep ?s n) (zeroed (nat (bddnodesize ?s)) (bucket ?s)) ?s"
  let ?b = "?d\<lparr>bddfreepos := 0, bddfreenum := 0\<rparr>"
  have k: "int (nat (bddnodesize ?s - 2)) + 2 = bddnodesize ?s" using sz by simp
  have st: "swept ?s (int (nat (bddnodesize ?s - 2)) + 2) ?b"
    unfolding k by (rule swept_start [OF sz0])
  define u where "u = sweep_loop (nat (bddnodesize ?d - 2)) ?b"
  have sw: "swept ?s 2 u"
    unfolding u_def decor_sel by (rule sweep_loop_swept [OF D(7,9) _ st]) (simp only: k order_refl)
  note S = sweptD [OF sw]
  define v where "v = (bdd_operator_reset u)\<lparr>gbcollectnum := gbcollectnum (bdd_operator_reset u) + 1\<rparr>"
  obtain tr' where ev': "gbc_event False v = v\<lparr>trace := tr'\<rparr>" using gbc_event_eq by blast
  let ?t = "v\<lparr>trace := tr'\<rparr>"
  have t: "bddnodes ?t = bddnodes u" "bddnodesize ?t = bddnodesize u" "bddrefstack ?t = bddrefstack u"
    "bddfreepos ?t = bddfreepos u" "bddfreenum ?t = bddfreenum u" "mtvals ?t = mtvals u"
    "gc_frame ?s ?t = gc_frame ?s u" "caches ?t = caches (bdd_operator_reset u)"
    unfolding v_def by (subst operator_reset_eq, simp add: gc_frame_def)+
  have eq: "bdd_gbc s = ret () ?t"
    unfolding bdd_gbc_def Let_def ev bnd_assoc [symmetric] mark_phase [OF D(3) D(8) D(7) D(6) sz0]
      bnd_ret u_def [symmetric] v_def [symmetric] ev' ..
  have "caches ?t = caches (bdd_operator_reset ?s)"
    unfolding t(8) using S(2) by (rule operator_reset_caches)
  then have C: "collected ?s ?t"
    using collected_cong [OF t(1) t(7) _ t(6) S(1) S(4)] S(5,6) by blast
  have "built 2 ?t" "marks_clear ?t"
  proof -
    have bu: "built 2 u" by (rule S(3))
    show "built 2 ?t"
      by (rule built_cong [OF bu]) (simp_all add: t LOW_def nx_def bucket_def
          gbc_hash_cong [of ?t _ u] LEVEL_def HIGH_def)
    have "MARKED u n = False" for n using S(7) [of n] by (simp add: allocd_def)
    then show "marks_clear ?t" by (simp add: marks_clear_def MARKED_def t(1))
  qed
  then have "tab_inv ?t" by (rule collected_inv [OF I' C])
  then show ?thesis using eq C collected_event by blast
qed

section \<open>Extension\<close>

text \<open>
  \<open>ext s t\<close>: from \<open>s\<close> to \<open>t\<close> nothing that was live has changed. This is what every
  operation guarantees to its caller.
\<close>

definition ext :: "bdd_state \<Rightarrow> bdd_state \<Rightarrow> bool" where
  "ext s t =
     (stat t = stat s \<and> set (bddrefstack s) \<subseteq> set (bddrefstack t) \<and>
      bddnodesize s \<le> bddnodesize t \<and>
      (bdderrorcond t = 0 \<longrightarrow> bdderrorcond s = 0) \<and>
      (\<forall>n. n = 0 \<or> n = 1 \<or> keep s n \<longrightarrow> same_node s t n))"

lemma ext_refl [simp]: "ext s s"
  by (simp add: ext_def)

lemma ext_keep:
  assumes "ext s t" "keep s n"
  shows "allocd t n" "same_node s t n"
  using assms by (auto simp: ext_def allocd_def same_node_def)

lemma ext_live:
  assumes E: "ext s t" and I: "tab_inv s"
  shows "live s n \<Longrightarrow> live t n"
proof (induction rule: live.induct)
  case (live_stack x)
  then show ?case using E by (auto simp: ext_def intro: live.live_stack)
next
  case (live_ref n)
  then have "node_id s n" "live s n"
    using live_node_id [OF live.live_ref] tab_invD [OF I] by (auto intro: live.live_ref)
  then have "same_node s t n" using E by (auto simp: ext_def node_id_def)
  then show ?case using live_ref E by (intro live.live_ref) (auto simp: ext_def same_node_def)
next
  case (live_low n)
  then have "same_node s t n" "allocd t n" using ext_keep [OF E, of n] by (auto simp: inner_def)
  then show ?case using live_low live.live_low [of t n] by (simp add: same_node_def inner_def)
next
  case (live_high n)
  then have "same_node s t n" "allocd t n" using ext_keep [OF E, of n] by (auto simp: inner_def)
  then show ?case using live_high live.live_high [of t n] by (simp add: same_node_def inner_def)
qed

lemma ext_trans:
  assumes I: "tab_inv s" and 1: "ext s t" and 2: "ext t u"
  shows "ext s u"
proof -
  have "same_node s u n" if "n = 0 \<or> n = 1 \<or> keep s n" for n
  proof -
    have "same_node s t n" using 1 that unfolding ext_def by blast
    moreover have "same_node t u n"
      using that 2 ext_keep(1) [OF 1, of n] ext_live [OF 1 I, of n] by (auto simp: ext_def)
    ultimately show ?thesis by (rule same_node_trans)
  qed
  then show ?thesis using 1 2 by (auto simp: ext_def)
qed

lemma collected_ext: "collected s t \<Longrightarrow> ext s t"
  by (simp add: collected_def ext_def gc_frame_def)

end
