(* ===== verification/PrimeFacts.thy ===== *)
theory PrimeFacts
  imports Prime
begin

text \<open>
  Correctness of the prime search: a prime is never rejected (Fermat's little theorem and the
  square roots of one modulo a prime, both proved here), so the two searches stop at or before
  the nearest prime; a number below 289 that is accepted is prime; and the searches from
  0, 1 (and 2 downwards) divide by zero.
\<close>

definition is_prime :: "nat \<Rightarrow> bool" where
  "is_prime p = (2 \<le> p \<and> (\<forall>d. d dvd p \<longrightarrow> d = 1 \<or> d = p))"

lemma is_prime_ge2: "is_prime p \<Longrightarrow> 2 \<le> p"
  by (simp add: is_prime_def)

lemma is_prime_coprime:
  assumes "is_prime p" and "\<not> p dvd k"
  shows "coprime p k"
proof -
  have "gcd p k dvd p" by simp
  then have "gcd p k = 1 \<or> gcd p k = p" using assms(1) unfolding is_prime_def by blast
  moreover have "gcd p k \<noteq> p" using assms(2) by (metis gcd_dvd2)
  ultimately show ?thesis by (simp add: coprime_iff_gcd_eq_1)
qed

lemma is_prime_dvd_mult:
  assumes "is_prime p" and "p dvd a * b"
  shows "p dvd a \<or> p dvd b"
  using assms is_prime_coprime coprime_dvd_mult_right_iff by blast

lemma is_prime_dvd_choose:
  assumes p: "is_prime p" and k: "0 < k" "k < p"
  shows "p dvd (p choose k)"
proof -
  have "k * (p choose k) = p * ((p - 1) choose (k - 1))"
    using k(1) by (rule times_binomial_minus1_eq)
  then have "p dvd k * (p choose k)" by simp
  moreover have "\<not> p dvd k" using k by (auto dest: dvd_imp_le)
  ultimately show ?thesis using is_prime_dvd_mult [OF p] by blast
qed

lemma is_prime_add_power:
  assumes p: "is_prime p"
  shows "((a + 1) ^ p) mod p = (a ^ p + 1) mod p"
proof -
  let ?f = "\<lambda>k. (p choose k) * a ^ k"
  have p0: "0 < p" using is_prime_ge2 [OF p] by simp
  have "(a + 1) ^ p = (\<Sum>k\<le>p. ?f k)"
    using binomial_ring [of a 1 p] by simp
  also have "{..p} = insert 0 (insert p {1..<p})" using p0 by auto
  also have "(\<Sum>k\<in>insert 0 (insert p {1..<p}). ?f k) = 1 + (a ^ p + (\<Sum>k\<in>{1..<p}. ?f k))"
    using p0 by simp
  finally have eq: "(a + 1) ^ p = a ^ p + 1 + (\<Sum>k\<in>{1..<p}. ?f k)" by simp
  have "p dvd (\<Sum>k\<in>{1..<p}. ?f k)"
    by (rule dvd_sum) (auto intro!: dvd_mult2 is_prime_dvd_choose [OF p])
  then show ?thesis unfolding eq by (metis mod_add_right_eq dvd_imp_mod_0 add_0_right)
qed

lemma fermat_little:
  assumes p: "is_prime p"
  shows "(a ^ p) mod p = a mod p"
proof (induction a)
  case 0
  then show ?case using is_prime_ge2 [OF p] by (simp add: power_0_left)
next
  case (Suc a)
  have "(Suc a ^ p) mod p = (a ^ p + 1) mod p" using is_prime_add_power [OF p, of a] by simp
  also have "\<dots> = (a mod p + 1) mod p" using Suc by (metis mod_add_left_eq)
  finally show ?case by (simp add: mod_Suc_eq)
qed

lemma fermat_unit:
  assumes p: "is_prime p" and a: "\<not> p dvd a"
  shows "(a ^ (p - 1)) mod p = 1"
proof -
  have p2: "2 \<le> p" using p by (rule is_prime_ge2)
  have pos: "1 \<le> a ^ (p - 1)" using a by (cases "a = 0") auto
  have ap: "a ^ p = a * a ^ (p - 1)" using p2 by (simp add: power_eq_if)
  have "a \<le> a ^ p" using a p2 by (cases "a = 0") (auto intro: self_le_power)
  then have "p dvd a ^ p - a" using fermat_little [OF p, of a] by (simp add: mod_eq_dvd_iff_nat)
  also have "a ^ p - a = a * (a ^ (p - 1) - 1)" by (simp add: ap diff_mult_distrib2)
  finally have "p dvd a ^ (p - 1) - 1" using is_prime_dvd_mult [OF p] a by blast
  then have "(a ^ (p - 1)) mod p = 1 mod p" using mod_eq_dvd_iff_nat [OF pos, of p] by blast
  then show ?thesis using p2 by simp
qed

lemma prime_sqrt_one:
  assumes p: "is_prime p" and d: "d < p" and sq: "(d * d) mod p = 1"
  shows "d = 1 \<or> d = p - 1"
proof -
  have p2: "2 \<le> p" using p by (rule is_prime_ge2)
  have d0: "0 < d" using sq by (cases "d = 0") auto
  have "p dvd d * d - 1" using sq d0 p2 by (metis mod_eq_dvd_iff_nat mod_less nat_0_less_mult_iff
        Suc_leI One_nat_def Suc_1 Suc_le_lessD)
  also have "d * d - 1 = (d - 1) * (d + 1)" using d0 by (cases d) (simp_all add: algebra_simps)
  finally have "p dvd d - 1 \<or> p dvd d + 1" by (rule is_prime_dvd_mult [OF p])
  then show ?thesis
  proof
    assume "p dvd d - 1"
    then have "d - 1 = 0" using d by (metis dvd_imp_le less_imp_diff_less not_le bot_nat_0.not_eq_extremum)
    then show ?thesis using d0 by simp
  next
    assume "p dvd d + 1"
    then have "p \<le> d + 1" by (rule dvd_imp_le) simp
    then show ?thesis using d by arith
  qed
qed

section \<open>The witness loop\<close>

lemma lt_power_unset_bit: "(n::nat) < 2 ^ Suc k \<Longrightarrow> \<not> bit n k \<Longrightarrow> n < 2 ^ k"
proof -
  assume n: "n < 2 ^ Suc k" and nb: "\<not> bit n k"
  have "n div 2 ^ k < 2" using n by (simp add: less_mult_imp_div_less)
  moreover have "even (n div 2 ^ k)" using nb by (simp add: bit_iff_odd)
  ultimately have "n div 2 ^ k = 0" by (auto elim!: evenE)
  then show ?thesis by (simp add: div_eq_0_iff)
qed

lemma numberOfBits_loop_bound: "src < 2 ^ Suc b \<Longrightarrow> src < 2 ^ numberOfBits_loop src b"
proof (induction src b rule: numberOfBits_loop.induct)
  case (2 src b)
  then show ?case using lt_power_unset_bit [of src "Suc b"] by (cases "bit src (Suc b)") (simp_all add: BitIsSet_def)
qed simp

lemma numberOfBits_bound: "src < 2 ^ 32 \<Longrightarrow> src < 2 ^ numberOfBits src"
  using numberOfBits_loop_bound [of src 31] by (simp add: numberOfBits_def)

lemma numberOfBits_loop_lower: "0 < src \<Longrightarrow> 2 ^ (numberOfBits_loop src b - 1) \<le> src"
proof (induction src b rule: numberOfBits_loop.induct)
  case (2 src b)
  then show ?case
    by (auto simp: BitIsSet_def bit_iff_odd) (metis div_less even_zero not_le power_Suc)
qed auto

lemma div_power_Suc_bit: "(n::nat) div 2 ^ i = 2 * (n div 2 ^ Suc i) + of_bool (bit n i)"
  by (simp add: bit_iff_odd div_mult2_eq [symmetric] mult.commute div_mult2_eq odd_two_times_div_two_succ
      flip: div_mult2_eq) (metis div_mult2_eq mult.commute odd_two_times_div_two_succ even_two_times_div_two add.right_neutral Suc_eq_plus1 of_bool_eq(1) of_bool_eq(2))

lemma isWitness_loop_prime:
  assumes p: "is_prime src" and w: "\<not> src dvd witness"
    and d: "d = witness ^ ((src - 1) div 2 ^ i) mod src"
  shows "\<not> isWitness_loop witness src i d"
  using d
proof (induction i arbitrary: d)
  case 0
  then show ?case using fermat_unit [OF p w] by simp
next
  case (Suc i)
  have p2: "2 \<le> src" using p by (rule is_prime_ge2)
  let ?e = "(src - 1) div 2 ^ Suc i"
  let ?d' = "u64_mulmod d d src"
  have dlt: "d < src" using Suc.prems p2 by simp
  have sq: "?d' = witness ^ (2 * ?e) mod src"
    by (simp add: u64_mulmod_def Suc.prems mod_mult_eq flip: power_add) (simp add: mult_2)
  have odd: "u64_mulmod (witness ^ (2 * ?e) mod src) witness src = witness ^ (2 * ?e + 1) mod src"
    by (simp add: u64_mulmod_def mod_mult_right_eq mult.commute)
  have "(if BitIsSet (src - 1) i then u64_mulmod ?d' witness src else ?d')
      = witness ^ ((src - 1) div 2 ^ i) mod src"
    unfolding div_power_Suc_bit [of "src - 1" i] BitIsSet_def sq odd
    by (cases "bit (src - 1) i") (simp_all only: of_bool_eq if_True if_False add_0_right)
  note IH = Suc.IH [OF this]
  have "\<not> (?d' = 1 \<and> d \<noteq> 1 \<and> d \<noteq> src - 1)"
    using prime_sqrt_one [OF p dlt] by (auto simp: u64_mulmod_def)
  then show ?case using IH by (auto simp: Let_def)
qed

lemma isWitness_prime:
  assumes p: "is_prime src" and "src < 2 ^ 32" and w: "\<not> src dvd witness"
  shows "\<not> isWitness witness src"
proof -
  have "src - 1 < 2 ^ numberOfBits (src - 1)" using assms(2) by (intro numberOfBits_bound) simp
  then have "(src - 1) div 2 ^ numberOfBits (src - 1) = 0" by simp
  then have "1 = witness ^ ((src - 1) div 2 ^ numberOfBits (src - 1)) mod src"
    using is_prime_ge2 [OF p] by simp
  then show ?thesis unfolding isWitness_def by (rule isWitness_loop_prime [OF p w])
qed

section \<open>A prime is never rejected\<close>

lemma isMillerRabinPrime_loop_prime:
  assumes p: "is_prime src" and src: "src < 2 ^ 32"
  shows "3 \<le> src \<Longrightarrow> isMillerRabinPrime_loop n R src pos = (Inr True, pos + n)"
proof (induction n arbitrary: pos)
  case (Suc n)
  have "R pos mod (src - 1) < src - 1" using Suc.prems by simp
  then have "\<not> src dvd R pos mod (src - 1) + 1" by (auto dest: dvd_imp_le)
  from isWitness_prime [OF p src this] Suc show ?case by simp
qed simp

lemma isPrime_prime:
  assumes p: "is_prime src" and src: "src < 2 ^ 32" "3 \<le> src"
  shows "isPrime R src pos = (Inr True, pos + CHECKTIMES)"
proof -
  have "\<not> hasFactor src k" if "k \<noteq> 1" for k
    using p that unfolding hasFactor_def is_prime_def by (metis dvd_eq_mod_eq_0)
  then have "\<not> hasEasyFactors src" by (simp add: hasEasyFactors_def)
  then show ?thesis
    using isMillerRabinPrime_loop_prime [OF p src] by (simp add: isPrime_def isMillerRabinPrime_def)
qed

lemma isMillerRabinPrime_loop_no_trap:
  "2 \<le> src \<Longrightarrow> \<exists>b p'. isMillerRabinPrime_loop n R src p = (Inr b, p')"
  by (induction n arbitrary: p) auto

lemma isPrime_no_trap: "2 \<le> src \<Longrightarrow> \<exists>b p'. isPrime R src p = (Inr b, p')"
  using isMillerRabinPrime_loop_no_trap [of src CHECKTIMES R p]
  by (auto simp: isPrime_def isMillerRabinPrime_def)

lemma is_prime_odd: "is_prime p \<Longrightarrow> 3 \<le> p \<Longrightarrow> odd p"
  unfolding is_prime_def by force

text \<open>Both loops, started at an odd number, stop at or before the prime \<open>q\<close>.\<close>

lemma prime_gte_loop_stops:
  assumes q: "is_prime q" "q < 2 ^ 32" "3 \<le> q"
  shows "odd src \<Longrightarrow> 3 \<le> src \<Longrightarrow> src \<le> q \<Longrightarrow>
    \<exists>r p'. prime_gte_loop R src p = Some (Inr r, p') \<and> src \<le> r \<and> r \<le> q \<and> odd r"
proof (induction "q - src" arbitrary: src p rule: less_induct)
  case less
  obtain b p' where b: "isPrime R src p = (Inr b, p')"
    using isPrime_no_trap [of src R p] less.prems by auto
  show ?case
  proof (cases b)
    case True
    then show ?thesis using b less.prems by (auto simp: prime_gte_loop.simps [of R src])
  next
    case False
    then have "src \<noteq> q" using b isPrime_prime [OF q] by auto
    moreover have "odd q" using q by (intro is_prime_odd) auto
    ultimately have le: "src + 2 \<le> q" using less.prems by presburger
    then have md: "(src + 2) mod 2 ^ 32 = src + 2" using q by simp
    have "\<exists>r p''. prime_gte_loop R (src + 2) p' = Some (Inr r, p'') \<and> src + 2 \<le> r \<and> r \<le> q \<and> odd r"
      using less.prems le by (intro less.hyps) auto
    then show ?thesis using b False md by (auto simp: prime_gte_loop.simps [of R src])
  qed
qed

lemma prime_lte_loop_stops:
  assumes q: "is_prime q" "q < 2 ^ 32" "3 \<le> q"
  shows "odd src \<Longrightarrow> q \<le> src \<Longrightarrow> src < 2 ^ 32 \<Longrightarrow>
    \<exists>r p'. prime_lte_loop R src p = Some (Inr r, p') \<and> q \<le> r \<and> r \<le> src \<and> odd r"
proof (induction "src - q" arbitrary: src p rule: less_induct)
  case less
  obtain b p' where b: "isPrime R src p = (Inr b, p')"
    using isPrime_no_trap [of src R p] less.prems q by auto
  show ?case
  proof (cases b)
    case True
    then show ?thesis using b less.prems by (auto simp: prime_lte_loop.simps [of R src])
  next
    case False
    then have "src \<noteq> q" using b isPrime_prime [OF q] by auto
    moreover have "odd q" using q by (intro is_prime_odd) auto
    ultimately have le: "q + 2 \<le> src" using less.prems by presburger
    then have "src + (2 ^ 32 - 2) = (src - 2) + 2 ^ 32" by simp
    then have md: "(src + (2 ^ 32 - 2)) mod 2 ^ 32 = src - 2" using less.prems le
      by (metis mod_add_self2 mod_less less_imp_diff_less)
    have "\<exists>r p''. prime_lte_loop R (src - 2) p' = Some (Inr r, p'') \<and> q \<le> r \<and> r \<le> src - 2 \<and> odd r"
      using less.prems le by (intro less.hyps) auto
    then show ?thesis using b False md by (fastforce simp: prime_lte_loop.simps [of R src])
  qed
qed

section \<open>What an accepted number is\<close>

lemma divisor_below_17:
  assumes d: "d dvd n" "d \<noteq> 1" "d \<noteq> n" and n: "0 < n" "n < (289::nat)"
  shows "\<exists>p. p dvd n \<and> 2 \<le> p \<and> p < 17 \<and> p < n"
proof -
  obtain e where e: "n = d * e" using d(1) by (auto elim: dvdE)
  have d2: "2 \<le> d" using d n e by (cases "d = 0") auto
  have e2: "2 \<le> e" using d n e by (cases "e = 0"; cases "e = 1") auto
  show ?thesis
  proof (cases "d < 17")
    case True
    then show ?thesis using d d2 n by (auto dest: dvd_imp_le intro!: exI [of _ d] simp: le_less)
  next
    case False
    have "e < 17"
    proof (rule ccontr)
      assume "\<not> e < 17"
      then have "17 * 17 \<le> d * e" using False by (intro mult_le_mono) auto
      then show False using e n by simp
    qed
    moreover have "e < n" using e d2 e2 by simp
    moreover have "e dvd n" using e by simp
    ultimately show ?thesis using e2 by blast
  qed
qed

lemma small_factor_cases:
  "2 \<le> p \<Longrightarrow> p < 17 \<Longrightarrow> even p \<or> 3 dvd p \<or> 5 dvd p \<or> p = 7 \<or> p = 11 \<or> p = (13::nat)"
  by presburger

lemma small_accepted_prime:
  assumes n: "2 \<le> n" "n < 289" "odd n" and ne: "\<not> hasEasyFactors n"
  shows "is_prime n"
proof (rule ccontr)
  assume "\<not> is_prime n"
  then obtain d where "d dvd n" "d \<noteq> 1" "d \<noteq> n" using n by (auto simp: is_prime_def)
  from divisor_below_17 [OF this] n
  obtain p where p: "p dvd n" "2 \<le> p" "p < 17" "p < n" by auto
  have bad: "False" if "k dvd p" "k \<in> {3, 5, 7, 11, 13}" for k
  proof -
    have "k dvd n" using that(1) p(1) by (rule dvd_trans)
    moreover have "k \<noteq> n" using that p by (auto dest: dvd_imp_le)
    ultimately have "hasFactor n k" by (simp add: hasFactor_def dvd_eq_mod_eq_0)
    then show False using ne that(2) by (auto simp: hasEasyFactors_def)
  qed
  have "odd p" using p(1) n(3) by (meson dvd_trans)
  then show False using small_factor_cases [OF p(2,3)] bad [of 3] bad [of 5] bad [of p] by auto
qed

text \<open>
  \<open>mr_sound R N\<close>: with the random stream \<open>R\<close> no composite up to \<open>N\<close> passes the
  test. It holds of every stream for \<open>N < 289\<close>, because the trial divisions suffice there.
\<close>

definition mr_sound :: "rng \<Rightarrow> nat \<Rightarrow> bool" where
  "mr_sound R N = (\<forall>n p p'. 3 \<le> n \<and> n \<le> N \<and> odd n \<and> isPrime R n p = (Inr True, p') \<longrightarrow> is_prime n)"

lemma mr_soundD:
  "mr_sound R N \<Longrightarrow> 3 \<le> n \<Longrightarrow> n \<le> N \<Longrightarrow> odd n \<Longrightarrow> isPrime R n p = (Inr True, p') \<Longrightarrow> is_prime n"
  unfolding mr_sound_def by blast

lemma mr_sound_small: "N < 289 \<Longrightarrow> mr_sound R N"
  unfolding mr_sound_def
proof (intro allI impI)
  fix n p p'
  assume N: "N < 289" and a: "3 \<le> n \<and> n \<le> N \<and> odd n \<and> isPrime R n p = (Inr True, p')"
  then have "\<not> hasEasyFactors n" by (auto simp: isPrime_def)
  then show "is_prime n" using N a by (intro small_accepted_prime) auto
qed

lemma prime_lte_loop_accepted:
  assumes q: "is_prime q" "q < 2 ^ 32" "3 \<le> q"
  shows "odd src \<Longrightarrow> q \<le> src \<Longrightarrow> src < 2 ^ 32 \<Longrightarrow> prime_lte_loop R src p = Some (Inr r, p') \<Longrightarrow>
    \<exists>p0. isPrime R r p0 = (Inr True, p')"
proof (induction "src - q" arbitrary: src p rule: less_induct)
  case less
  obtain b p'' where b: "isPrime R src p = (Inr b, p'')"
    using isPrime_no_trap [of src R p] less.prems q by auto
  show ?case
  proof (cases b)
    case True
    then show ?thesis using b less.prems by (auto simp: prime_lte_loop.simps [of R src])
  next
    case False
    then have "src \<noteq> q" using b isPrime_prime [OF q] by auto
    moreover have "odd q" using q by (intro is_prime_odd) auto
    ultimately have le: "q + 2 \<le> src" using less.prems by presburger
    then have "src + (2 ^ 32 - 2) = (src - 2) + 2 ^ 32" by simp
    then have md: "(src + (2 ^ 32 - 2)) mod 2 ^ 32 = src - 2" using less.prems le
      by (metis mod_add_self2 mod_less less_imp_diff_less)
    have "prime_lte_loop R (src - 2) p'' = Some (Inr r, p')"
      using less.prems b False md by (simp add: prime_lte_loop.simps [of R src])
    then show ?thesis using less.prems le by (intro less.hyps [of "src - 2"]) auto
  qed
qed

lemma prime_gte_loop_accepted:
  assumes q: "is_prime q" "q < 2 ^ 32" "3 \<le> q"
  shows "odd src \<Longrightarrow> 3 \<le> src \<Longrightarrow> src \<le> q \<Longrightarrow> prime_gte_loop R src p = Some (Inr r, p') \<Longrightarrow>
    \<exists>p0. isPrime R r p0 = (Inr True, p')"
proof (induction "q - src" arbitrary: src p rule: less_induct)
  case less
  obtain b p'' where b: "isPrime R src p = (Inr b, p'')"
    using isPrime_no_trap [of src R p] less.prems by auto
  show ?case
  proof (cases b)
    case True
    then show ?thesis using b less.prems by (auto simp: prime_gte_loop.simps [of R src])
  next
    case False
    then have "src \<noteq> q" using b isPrime_prime [OF q] by auto
    moreover have "odd q" using q by (intro is_prime_odd) auto
    ultimately have le: "src + 2 \<le> q" using less.prems by presburger
    then have md: "(src + 2) mod 2 ^ 32 = src + 2" using q by simp
    have "prime_gte_loop R (src + 2) p'' = Some (Inr r, p')"
      using less.prems b False md by (simp add: prime_gte_loop.simps [of R src])
    then show ?thesis using less.prems le by (intro less.hyps [of "src + 2"]) auto
  qed
qed

section \<open>The external interface\<close>

lemma gte_start:
  assumes "2 \<le> src" "src \<le> q" "is_prime q" "3 \<le> q" "q < 2 ^ 32"
  defines "m \<equiv> (if isEven src then (src + 1) mod 2 ^ 32 else src)"
  shows "odd m \<and> 3 \<le> m \<and> m \<le> q \<and> src \<le> m"
proof -
  have odd: "odd q" using assms by (intro is_prime_odd)
  show ?thesis
  proof (cases "isEven src")
    case True
    then have e: "even src" by (simp add: isEven_def bit_0)
    with odd assms(2) have "src + 1 \<le> q" by presburger
    moreover from this assms(5) have "m = src + 1" using True unfolding m_def by simp
    ultimately show ?thesis using e assms(1) by simp
  next
    case False
    then have e: "odd src" by (simp add: isEven_def bit_0)
    with assms(1) have "3 \<le> src" by presburger
    then show ?thesis using e False assms(2) unfolding m_def by simp
  qed
qed

lemma lte_start:
  assumes "3 \<le> q" "q \<le> src" "is_prime q" "src < 2 ^ 32"
  defines "m \<equiv> (if isEven src then (src + (2 ^ 32 - 1)) mod 2 ^ 32 else src)"
  shows "odd m \<and> q \<le> m \<and> m \<le> src"
proof (cases "isEven src")
  case True
  have "odd q" using assms by (intro is_prime_odd)
  moreover have e: "even src" using True by (simp add: isEven_def bit_0)
  ultimately have "q \<le> src - 1" using assms(2) by presburger
  moreover have "m = src - 1"
  proof -
    have "src + (2 ^ 32 - 1) = (src - 1) + 2 ^ 32" using assms by simp
    then show ?thesis using assms True unfolding m_def
      by (metis mod_add_self2 mod_less less_imp_diff_less)
  qed
  ultimately show ?thesis using e assms by auto
next
  case False
  then show ?thesis using assms by (simp add: isEven_def bit_0)
qed

lemma prime_gte_spec:
  assumes "2 \<le> src" "src \<le> q" "is_prime q" "3 \<le> q" "q < 2 ^ 32"
  shows "\<exists>r p'. bdd_prime_gte R src p = Some (Inr r, p') \<and> 3 \<le> r \<and> src \<le> r \<and> r \<le> q \<and> odd r \<and>
     (\<exists>p0. isPrime R r p0 = (Inr True, p'))"
proof -
  note m = gte_start [OF assms]
  from prime_gte_loop_stops [OF assms(3,5,4)] m obtain r p' where
    r: "prime_gte_loop R (if isEven src then (src + 1) mod 2 ^ 32 else src) p = Some (Inr r, p')"
      "(if isEven src then (src + 1) mod 2 ^ 32 else src) \<le> r" "r \<le> q" "odd r"
    by blast
  from prime_gte_loop_accepted [OF assms(3,5,4) _ _ _ r(1)] m r show ?thesis
    unfolding bdd_prime_gte_def by (intro exI [of _ r] exI [of _ p']) auto
qed

lemma prime_lte_spec:
  assumes "3 \<le> q" "q \<le> src" "is_prime q" "src < 2 ^ 32"
  shows "\<exists>r p'. bdd_prime_lte R src p = Some (Inr r, p') \<and> q \<le> r \<and> r \<le> src \<and> odd r \<and>
     (\<exists>p0. isPrime R r p0 = (Inr True, p'))"
proof -
  note m = lte_start [OF assms]
  have q32: "q < 2 ^ 32" using assms by simp
  from prime_lte_loop_stops [OF assms(3) q32 assms(1)] m assms(4) obtain r p' where
    r: "prime_lte_loop R (if isEven src then (src + (2 ^ 32 - 1)) mod 2 ^ 32 else src) p = Some (Inr r, p')"
      "r \<le> (if isEven src then (src + (2 ^ 32 - 1)) mod 2 ^ 32 else src)" "q \<le> r" "odd r"
    by (meson le_less_trans)
  from prime_lte_loop_accepted [OF assms(3) q32 assms(1) _ _ _ r(1)] m r assms(4) show ?thesis
    unfolding bdd_prime_lte_def by (intro exI [of _ r] exI [of _ p']) auto
qed

lemma isPrime_1_traps: "isPrime R 1 p = (Inl Trap, p)"
proof -
  have c: "CHECKTIMES = Suc 19" by (simp add: CHECKTIMES_def)
  have "isMillerRabinPrime R 1 p = (Inl Trap, p)"
    by (simp only: isMillerRabinPrime_def c isMillerRabinPrime_loop.simps) simp
  moreover have "\<not> hasEasyFactors 1" by (simp add: hasEasyFactors_def hasFactor_def)
  ultimately show ?thesis by (simp add: isPrime_def)
qed

lemma prime_loops_1_trap:
  "prime_gte_loop R 1 p = Some (Inl Trap, p)" "prime_lte_loop R 1 p = Some (Inl Trap, p)"
  by (subst prime_gte_loop.simps prime_lte_loop.simps, simp only: isPrime_1_traps prod.case sum.case)+

lemma bdd_prime_gte_traps: "src \<le> 1 \<Longrightarrow> bdd_prime_gte R src p = Some (Inl Trap, p)"
  using prime_loops_1_trap [of R p] by (cases src) (auto simp: bdd_prime_gte_def isEven_def bit_0)

lemma bdd_prime_lte_traps: "src \<in> {1, 2} \<Longrightarrow> bdd_prime_lte R src p = Some (Inl Trap, p)"
  using prime_loops_1_trap [of R p] by (auto simp: bdd_prime_lte_def isEven_def bit_0)

end
