(* ===== verification/KernelResize.thy ===== *)
theory KernelResize
  imports KernelGc PrimeFacts
begin

text \<open>
  The unique table: looking a node up, inserting a new one, enlarging the table, and
  \<open>bdd_makenode\<close>, whose specification is the interface of all diagram operations: the
  result is the only node with the given level and children, everything live is unchanged, and
  the caches are either kept (with every allocated node) or emptied.
\<close>

section \<open>Lookup\<close>

definition matches :: "bdd_state \<Rightarrow> int \<Rightarrow> int \<Rightarrow> int \<Rightarrow> int \<Rightarrow> bool" where
  "matches s lev lo hi n = (LEVEL s n = lev \<and> LOW s n = lo \<and> HIGH s n = hi)"

definition absent :: "bdd_state \<Rightarrow> int \<Rightarrow> int \<Rightarrow> int \<Rightarrow> bool" where
  "absent s lev lo hi = (\<forall>n. inner s n \<longrightarrow> \<not> matches s lev lo hi n)"

lemma find_node_chain:
  "chain (nx s) a xs \<Longrightarrow> length xs < k \<Longrightarrow>
   \<exists>r. find_node k a lev lo hi s = ret r s \<and>
       ((r = 0 \<and> (\<forall>x\<in>set xs. \<not> matches s lev lo hi x)) \<or>
        (r \<in> set xs \<and> r \<noteq> 0 \<and> matches s lev lo hi r))"
proof (induction xs arbitrary: a k)
  case Nil
  then show ?case by (cases k) auto
next
  case (Cons x xs)
  then obtain k' where k: "k = Suc k'" by (cases k) auto
  show ?case
  proof (cases "matches s lev lo hi x")
    case True
    then show ?thesis using Cons.prems k by (auto simp: matches_def)
  next
    case False
    then have "find_node k a lev lo hi s = find_node k' (nx s a) lev lo hi s"
      using Cons.prems k by (auto simp: matches_def nx_def)
    then show ?thesis using Cons.IH [of "nx s a" k'] Cons.prems k False by auto
  qed
qed

lemma table_list_length:
  assumes "distinct xs" "set xs \<subseteq> {2..<bddnodesize s}"
  shows "length xs < mark_fuel s"
proof -
  have "card (set xs) \<le> card {2..<bddnodesize s}" using assms(2) by (intro card_mono) auto
  then show ?thesis using distinct_card [OF assms(1)] by (simp add: mark_fuel_def)
qed

lemma find_node_spec:
  assumes I: "tab_inv s" and lev: "lev \<noteq> MAXLEVEL"
  shows "\<exists>r. find_node (mark_fuel s) (n_hash (bddnodes s (NODEHASH s lev lo hi))) lev lo hi s = ret r s \<and>
     ((r = 0 \<and> absent s lev lo hi) \<or> (r \<noteq> 0 \<and> inner s r \<and> matches s lev lo hi r))"
proof -
  let ?h = "NODEHASH s lev lo hi"
  note D = tab_invD [OF I]
  have "bucket_ok 2 s ?h" using D(5) NODEHASH_range [OF D(1)] by (simp add: built_def)
  then obtain xs where xs: "chain (nx s) (bucket s ?h) xs" "distinct xs"
    "set xs = {n. 2 \<le> n \<and> n < bddnodesize s \<and> LOW s n \<noteq> -1 \<and> gbc_hash s n = ?h}"
    unfolding bucket_ok_def by auto
  have "set xs \<subseteq> {2..<bddnodesize s}" unfolding xs(3) by auto
  with xs(2) have "length xs < mark_fuel s" by (rule table_list_length)
  from find_node_chain [OF xs(1) this, of lev lo hi] obtain r where
    r: "find_node (mark_fuel s) (bucket s ?h) lev lo hi s = ret r s"
      "(r = 0 \<and> (\<forall>x\<in>set xs. \<not> matches s lev lo hi x)) \<or>
       (r \<in> set xs \<and> r \<noteq> 0 \<and> matches s lev lo hi r)" by blast
  have "n \<in> set xs" if "inner s n" "matches s lev lo hi n" for n
    using that lev by (auto simp: xs(3) inner_def allocd_def matches_def gbc_hash_def)
  then have "r = 0 \<and> (\<forall>x\<in>set xs. \<not> matches s lev lo hi x) \<Longrightarrow> absent s lev lo hi"
    by (auto simp: absent_def)
  moreover have "inner s r" if "r \<in> set xs" "matches s lev lo hi r"
    using that lev by (auto simp: xs(3) inner_def allocd_def matches_def)
  ultimately show ?thesis using r by (auto simp: bucket_def)
qed

section \<open>Insertion\<close>

lemma free_head:
  assumes "built 2 s" "bddfreepos s \<noteq> 0"
  shows "2 \<le> bddfreepos s" "bddfreepos s < bddnodesize s" "LOW s (bddfreepos s) = -1"
  using assms by (auto simp: built_def free_ok_def chain_nonzero)

text \<open>The state after \<open>build_node\<close>.\<close>

definition built_node :: "int \<Rightarrow> int \<Rightarrow> BDD \<Rightarrow> BDD \<Rightarrow> bdd_state \<Rightarrow> bdd_state" where
  "built_node h lev lo hi s = snd (build_node h lev lo hi s)"

lemma build_node_ret: "build_node h lev lo hi s = ret (bddfreepos s) (built_node h lev lo hi s)"
  by (simp add: built_node_def build_node_def Let_def ret_def)

lemma built_node_sel:
  "LEVEL (built_node h lev lo hi s) = (LEVEL s)(bddfreepos s := lev)"
  "LOW (built_node h lev lo hi s) = (LOW s)(bddfreepos s := lo)"
  "HIGH (built_node h lev lo hi s) = (HIGH s)(bddfreepos s := hi)"
  "MARKED (built_node h lev lo hi s) = (MARKED s)(bddfreepos s := False)"
  "nx (built_node h lev lo hi s) = (nx s)(bddfreepos s := bucket s h)"
  "bucket (built_node h lev lo hi s) = (bucket s)(h := bddfreepos s)"
  "n_refcou (bddnodes (built_node h lev lo hi s) n) =
     (if n = bddfreepos s then 0 else n_refcou (bddnodes s n))"
  "bddfreepos (built_node h lev lo hi s) = nx s (bddfreepos s)"
  "bddfreenum (built_node h lev lo hi s) = bddfreenum s - 1"
  "bddnodesize (built_node h lev lo hi s) = bddnodesize s"
  "bddrefstack (built_node h lev lo hi s) = bddrefstack s"
  "mtvals (built_node h lev lo hi s) = mtvals s" "caches (built_node h lev lo hi s) = caches s"
  "bdderrorcond (built_node h lev lo hi s) = bdderrorcond s"
  "bddresized (built_node h lev lo hi s) = bddresized s"
  "randpos (built_node h lev lo hi s) = randpos s"
  "stat (built_node h lev lo hi s) = stat s"
  by (auto simp: built_node_def build_node_def Let_def ret_def fun_eq_iff link_node_def upd_node_def
      LEVEL_def LOW_def HIGH_def MARKED_def nx_def bucket_def)

lemma built_node_hash:
  assumes "n \<noteq> bddfreepos s"
  shows "gbc_hash (built_node h lev lo hi s) n = gbc_hash s n"
  using assms by (intro gbc_hash_cong) (simp_all add: built_node_sel)

lemma built_node_built:
  assumes B: "built 2 s" and f: "bddfreepos s \<noteq> 0" and lo: "lo \<noteq> -1"
    and lev: "lev \<noteq> MAXLEVEL \<or> \<not> DOMAIN_NOT_SHORT s" and h: "h = NODEHASH s lev lo hi"
  shows "built 2 (built_node h lev lo hi s)" (is "built 2 ?t")
  unfolding built_def
proof (intro conjI allI impI)
  let ?r = "bddfreepos s"
  note r = free_head [OF B f]
  have hr: "gbc_hash ?t ?r = h"
    using lev by (auto simp: gbc_hash_def built_node_sel h NODEHASH_def DOMAIN_NOT_SHORT_def)
  fix b assume "0 \<le> b \<and> b < bddnodesize ?t"
  then have "bucket_ok 2 s b" using B by (simp add: built_def built_node_sel)
  then obtain xs where xs: "chain (nx s) (bucket s b) xs" "distinct xs"
    "set xs = {n. 2 \<le> n \<and> n < bddnodesize s \<and> LOW s n \<noteq> -1 \<and> gbc_hash s n = b}"
    unfolding bucket_ok_def by auto
  have notin: "?r \<notin> set xs" using r xs(3) by simp
  have c: "chain (nx ?t) (bucket s b) xs" using xs(1) notin by (simp add: built_node_sel chain_upd_notin)
  define ys where "ys = (if b = h then ?r # xs else xs)"
  have "chain (nx ?t) (bucket ?t b) ys"
    using c f by (cases "b = h") (simp_all add: ys_def built_node_sel)
  moreover have "distinct ys" using xs(2) notin by (simp add: ys_def)
  moreover have "n \<in> set ys \<longleftrightarrow> 2 \<le> n \<and> n < bddnodesize ?t \<and> LOW ?t n \<noteq> -1 \<and> gbc_hash ?t n = b" for n
  proof (cases "n = ?r")
    case True
    then show ?thesis using r lo hr notin by (auto simp: ys_def built_node_sel)
  next
    case False
    then show ?thesis using xs(3) by (auto simp: ys_def built_node_sel built_node_hash)
  qed
  ultimately show "bucket_ok 2 ?t b" unfolding bucket_ok_def by blast
next
  let ?r = "bddfreepos s"
  obtain ys where ys: "chain (nx s) ?r ys" "distinct ys"
    "set ys = {n. 2 \<le> n \<and> n < bddnodesize s \<and> LOW s n = -1}" "bddfreenum s = int (length ys)"
    using B unfolding built_def free_ok_def by auto
  then obtain zs where zs: "ys = ?r # zs" "chain (nx s) (nx s ?r) zs"
    using f by (auto simp: chain_nonzero)
  then have notin: "?r \<notin> set zs" using ys(2) by simp
  have "chain (nx ?t) (bddfreepos ?t) zs"
    using zs(2) notin by (simp add: built_node_sel chain_upd_notin)
  moreover have "distinct zs" "bddfreenum ?t = int (length zs)"
    using ys(2,4) zs(1) by (simp_all add: built_node_sel)
  moreover have "n \<in> set zs \<longleftrightarrow> 2 \<le> n \<and> n < bddnodesize ?t \<and> LOW ?t n = -1" for n
  proof (cases "n = ?r")
    case True
    then show ?thesis using notin lo by (simp add: built_node_sel)
  next
    case False
    then have "n \<in> set zs \<longleftrightarrow> n \<in> set ys" using zs(1) by simp
    then show ?thesis using False by (simp add: ys(3) built_node_sel)
  qed
  ultimately show "free_ok 2 ?t" unfolding free_ok_def by blast
qed

text \<open>What a node with the given level and children looks like, and may be created from.\<close>

definition fits :: "bdd_state \<Rightarrow> int \<Rightarrow> int \<Rightarrow> bool" where
  "fits s lev c = (node_id s c \<and> below s lev c \<and> (2 \<le> c \<longrightarrow> live s c))"

lemma same_alloc: "same_node s t n \<Longrightarrow> bddnodesize s \<le> bddnodesize t \<Longrightarrow> allocd s n \<Longrightarrow> allocd t n"
  by (simp add: allocd_def same_node_def)

lemma built_node_same: "n \<noteq> bddfreepos s \<Longrightarrow> same_node s (built_node h lev lo hi s) n"
  by (simp add: same_node_def built_node_sel)

lemma built_node_alloc:
  assumes "built 2 s" "bddfreepos s \<noteq> 0" "lo \<noteq> -1"
  shows "allocd (built_node h lev lo hi s) n = (allocd s n \<or> n = bddfreepos s)"
  using free_head [OF assms(1,2)] assms(3) by (auto simp: allocd_def built_node_sel)

lemma built_node_wf:
  assumes B: "built 2 s" "bddfreepos s \<noteq> 0" and wf: "wf_nodes s"
    and lev: "0 \<le> lev" "lev < MAXLEVEL"
    and lo: "node_id s lo" "below s lev lo" and hi: "node_id s hi" "below s lev hi"
  shows "wf_nodes (built_node h lev lo hi s)" (is "wf_nodes ?t")
proof -
  let ?r = "bddfreepos s"
  have lo1: "lo \<noteq> -1" using lo by (auto simp: node_id_def allocd_def)
  note al = built_node_alloc [OF B lo1, of h lev hi]
  have ne: "c \<noteq> ?r" if "node_id s c" for c
    using that free_head [OF B] by (auto simp: node_id_def allocd_def)
  have child: "node_id ?t c \<and> below ?t v c" if "node_id s c" "below s v c" for v c
    using that ne [of c] by (auto simp: node_id_def al below_def built_node_sel)
  show ?thesis unfolding wf_nodes_def
  proof (intro allI impI)
    fix n assume n: "inner ?t n"
    show "0 \<le> LEVEL ?t n \<and> LEVEL ?t n < MAXLEVEL \<and> node_id ?t (LOW ?t n) \<and> node_id ?t (HIGH ?t n) \<and>
        below ?t (LEVEL ?t n) (LOW ?t n) \<and> below ?t (LEVEL ?t n) (HIGH ?t n)"
    proof (cases "n = ?r")
      case True
      then show ?thesis using lev child [OF lo] child [OF hi] by (simp add: built_node_sel)
    next
      case False
      then have "inner s n" using n by (simp add: inner_def al built_node_sel)
      note ch = wf_nodes_child [OF wf this]
      show ?thesis
        using ch(5,6) child [OF ch(1,3)] child [OF ch(2,4)] False by (simp add: built_node_sel)
    qed
  qed
qed

lemma built_node_inv:
  assumes I: "tab_inv s" and f: "bddfreepos s \<noteq> 0" and lev: "0 \<le> lev" "lev < MAXLEVEL"
    and lo: "node_id s lo" "below s lev lo" and hi: "node_id s hi" "below s lev hi"
    and h: "h = NODEHASH s lev lo hi" and ab: "absent s lev lo hi"
  shows "tab_inv (built_node h lev lo hi s)" (is "tab_inv ?t")
proof -
  let ?r = "bddfreepos s"
  note D = tab_invD [OF I]
  have lo1: "lo \<noteq> -1" using lo by (auto simp: node_id_def allocd_def)
  note al = built_node_alloc [OF D(5) f lo1, of h lev hi] and r = free_head [OF D(5) f]
  have inn: "inner ?t n \<longleftrightarrow> n = ?r \<or> inner s n" for n
    using lev r lo1 by (auto simp: inner_def al built_node_sel allocd_def)
  have nin: "\<not> inner s ?r" "\<not> allocd s ?r" using r by (simp_all add: inner_def allocd_def)
  have "unique_nodes ?t" unfolding unique_nodes_def
  proof (intro allI impI)
    fix m n
    assume mn: "inner ?t m \<and> inner ?t n \<and> LEVEL ?t m = LEVEL ?t n \<and> LOW ?t m = LOW ?t n \<and> HIGH ?t m = HIGH ?t n"
    consider "m = ?r" "n = ?r" | "m = ?r" "n \<noteq> ?r" | "m \<noteq> ?r" "n = ?r" | "m \<noteq> ?r" "n \<noteq> ?r" by blast
    then show "m = n"
    proof cases
      case 2
      then have "inner s n" "matches s lev lo hi n"
        using mn by (auto simp: inn built_node_sel matches_def)
      then show ?thesis using ab by (simp add: absent_def)
    next
      case 3
      then have "inner s m" "matches s lev lo hi m"
        using mn by (auto simp: inn built_node_sel matches_def)
      then show ?thesis using ab by (simp add: absent_def)
    next
      case 4
      then have "inner s m" "inner s n" "LEVEL s m = LEVEL s n" "LOW s m = LOW s n"
        "HIGH s m = HIGH s n" using mn by (simp_all add: inn built_node_sel)
      then show ?thesis by (rule unique_nodesD [OF D(4)])
    qed simp
  qed
  moreover have "slots_distinct ?t"
    unfolding slots_distinct_def
  proof (intro impI allI)
    fix m n
    assume d: "domaintype (mtvals ?t) = CUSTOM"
      and mn: "allocd ?t m \<and> allocd ?t n \<and> LEVEL ?t m = MAXLEVEL \<and> LEVEL ?t n = MAXLEVEL \<and> m \<noteq> n"
    then have "m \<noteq> ?r" "n \<noteq> ?r" using lev by (auto simp: built_node_sel)
    with mn have "allocd s m \<and> allocd s n \<and> LEVEL s m = MAXLEVEL \<and> LEVEL s n = MAXLEVEL \<and> m \<noteq> n"
      by (simp add: al built_node_sel)
    then show "u32 (HIGH ?t m) \<noteq> u32 (HIGH ?t n)"
      using D(9) d \<open>m \<noteq> ?r\<close> \<open>n \<noteq> ?r\<close> unfolding slots_distinct_def by (simp add: built_node_sel)
  qed
  moreover have "built 2 ?t" using lev by (intro built_node_built [OF D(5) f lo1 _ h]) simp
  moreover have "wf_nodes ?t" by (rule built_node_wf [OF D(5) f D(3) lev lo hi])
  moreover have "size_ok ?t" "consts_ok ?t"
    using D(1,2) r by (auto simp: size_ok_def consts_ok_def built_node_sel)
  moreover have "marks_clear ?t" using D(6) by (simp add: marks_clear_def built_node_sel)
  moreover have "refs_ok ?t" using D(7) lo1 by (auto simp: refs_ok_def built_node_sel MAXREF_def)
  moreover have "stack_ok ?t" using D(8) by (auto simp: stack_ok_def built_node_sel node_id_def al)
  ultimately show ?thesis by (simp add: tab_inv_def)
qed

section \<open>Enlarging the table\<close>

text \<open>
  Enlarging the node table (\<open>bdd_noderesize\<close> with rehash) and \<open>bdd_makenode\<close>.
  The new size is the largest number the primality test accepts below the requested one; since
  the old size is prime and the test never rejects a prime, the table never shrinks.
\<close>

section \<open>Rehashing\<close>

definition rehashed :: "bdd_state \<Rightarrow> int \<Rightarrow> bdd_state \<Rightarrow> bool" where
  "rehashed u c t =
     (gc_frame u t \<and> caches t = caches u \<and> mtvals t = mtvals u \<and> LEVEL t = LEVEL u \<and>
      LOW t = LOW u \<and> HIGH t = HIGH u \<and> MARKED t = MARKED u \<and>
      (\<forall>n. n_refcou (bddnodes t n) = n_refcou (bddnodes u n)) \<and> built c t)"

lemma rehash_step_rehashed:
  assumes "rehashed u (c + 1) t" "2 \<le> c" "c < bddnodesize u"
  shows "rehashed u c (rehash_step c t)"
proof -
  have sz: "bddnodesize t = bddnodesize u" using assms(1) by (simp add: rehashed_def gc_frame_def)
  have b: "built (c + 1) t" using assms(1) by (simp add: rehashed_def)
  show ?thesis
  proof (cases "LOW t c \<noteq> -1")
    case True
    then have "built c (rehash_step c t)"
      using built_link [OF b] assms(2,3) sz by (simp add: rehash_step_def)
    then show ?thesis using assms(1) True by (simp add: rehashed_def rehash_step_def acc)
  next
    case False
    then have "built c (rehash_step c t)"
      using built_push [OF b] assms(2,3) sz by (simp add: rehash_step_def)
    then show ?thesis using assms(1) False by (simp add: rehashed_def rehash_step_def acc)
  qed
qed

lemma rehash_loop_rehashed:
  "int k + 2 \<le> bddnodesize u \<Longrightarrow> rehashed u (int k + 2) t \<Longrightarrow> rehashed u 2 (rehash_loop k t)"
proof (induction k arbitrary: t)
  case 0
  then show ?case by simp
next
  case (Suc k)
  have "rehashed u (int k + 2) (rehash_step (int k + 2) t)"
    using Suc.prems by (intro rehash_step_rehashed) (simp_all add: add.commute)
  then show ?case using Suc by simp
qed

lemma bdd_gbc_rehash_spec:
  assumes "2 \<le> bddnodesize u" "\<And>b. 0 \<le> b \<Longrightarrow> b < bddnodesize u \<Longrightarrow> bucket u b = 0"
  shows "rehashed u 2 (bdd_gbc_rehash u)"
proof -
  let ?t = "u\<lparr>bddfreepos := 0, bddfreenum := 0\<rparr>"
  have k: "int (nat (bddnodesize u - 2)) + 2 = bddnodesize u" using assms(1) by simp
  have t: "LEVEL ?t = LEVEL u" "LOW ?t = LOW u" "HIGH ?t = HIGH u" "MARKED ?t = MARKED u"
    "bucket ?t = bucket u"
    by (simp_all add: fun_eq_iff LEVEL_def LOW_def HIGH_def MARKED_def bucket_def)
  have "built (bddnodesize u) ?t" using assms(2) by (intro built_empty) (simp_all add: t)
  then have "rehashed u (bddnodesize u) ?t" by (simp add: rehashed_def t gc_frame_def)
  then show ?thesis
    unfolding bdd_gbc_rehash_def by (intro rehash_loop_rehashed) (simp_all only: k order_refl)
qed

section \<open>Resizing\<close>

text \<open>The size of the table, and the parameters of the session that resizing relies on.\<close>

definition prime_size :: "bdd_state \<Rightarrow> bool" where
  "prime_size s = (is_prime (nat (bddnodesize s)) \<and> bddnodesize s \<le> memlimit s)"

definition env_ok :: "bdd_state \<Rightarrow> bool" where
  "env_ok s =
     (mr_sound (rand s) (nat (memlimit s)) \<and> memlimit s < 2 ^ 30 \<and>
      0 \<le> bddmaxnodeincrease s \<and> bddmaxnodeincrease s \<le> 2 ^ 30 \<and> \<not> bdd_reorder_ready s)"

definition kinv :: "bdd_state \<Rightarrow> bool" where
  "kinv s = (tab_inv s \<and> prime_size s \<and> env_ok s)"

lemma kinvD:
  assumes "kinv s"
  shows "tab_inv s" "prime_size s" "env_ok s" "3 \<le> bddnodesize s" "bddnodesize s < 2 ^ 30"
  using assms by (auto simp: kinv_def prime_size_def env_ok_def tab_inv_def size_ok_def)

lemma env_ok_stat: "stat s = stat t \<Longrightarrow> env_ok s = env_ok t"
  using statD [of s t] by (simp add: env_ok_def bdd_reorder_ready_def)

lemma prime_lte_st_spec:
  assumes "is_prime (nat q)" "3 \<le> q" "q \<le> n" "n < 2 ^ 31"
  shows "\<exists>r p. prime_lte_st n s = ret r (s\<lparr>randpos := p\<rparr>) \<and> q \<le> r \<and> r \<le> n \<and>
     (\<forall>N. mr_sound (rand s) N \<and> nat r \<le> N \<longrightarrow> is_prime (nat r))"
proof -
  have n: "u32 n = n" using assms by (simp add: u32_def)
  have "3 \<le> nat q" "nat q \<le> nat n" "nat n < 2 ^ 32" using assms by auto
  from prime_lte_spec [OF this(1,2) assms(1) this(3), of "rand s" "randpos s"] obtain r p p0 where
    r: "bdd_prime_lte (rand s) (nat n) (randpos s) = Some (Inr r, p)" "nat q \<le> r" "r \<le> nat n" "odd r"
      "isPrime (rand s) r p0 = (Inr True, p)" by blast
  have le: "q \<le> int r" "int r \<le> n" using r(2,3) assms(2,3) by linarith+
  then have "s32 (int r) = int r" using assms(2,4) by (simp add: s32_def)
  then have "prime_lte_st n s = ret (int r) (s\<lparr>randpos := p\<rparr>)"
    using r(1) by (simp add: prime_lte_st_def n)
  moreover have "is_prime r" if "mr_sound (rand s) N" "r \<le> N" for N
  proof -
    have "3 \<le> r" using \<open>3 \<le> nat q\<close> r(2) by (rule order_trans)
    then show ?thesis by (rule mr_soundD [OF that(1) _ that(2) r(4,5)])
  qed
  ultimately show ?thesis
    using le by (intro exI [of _ "int r"] exI [of _ p]) auto
qed

text \<open>The table after enlarging: the old entries, then free ones.\<close>

definition grown :: "bdd_state \<Rightarrow> bdd_state \<Rightarrow> bool" where
  "grown s t =
     (stat t = stat s \<and> bddrefstack t = bddrefstack s \<and> bdderrorcond t = bdderrorcond s \<and>
      caches t = caches s \<and> mtvals t = mtvals s \<and> bddnodesize s \<le> bddnodesize t \<and>
      (\<forall>n. n < bddnodesize s \<longrightarrow> same_node s t n) \<and>
      (\<forall>n. bddnodesize s \<le> n \<and> n < bddnodesize t \<longrightarrow> freed t n) \<and>
      (\<forall>n. bddnodesize t \<le> n \<longrightarrow> same_node s t n))"

lemma grown_alloc:
  assumes G: "grown s t"
  shows "allocd t n = allocd s n"
proof -
  have le: "bddnodesize s \<le> bddnodesize t" using G by (simp add: grown_def)
  consider "n < bddnodesize s" | "bddnodesize s \<le> n" "n < bddnodesize t" | "bddnodesize t \<le> n"
    by linarith
  then show ?thesis
  proof cases
    case 1
    then have "same_node s t n" using G by (simp add: grown_def)
    then show ?thesis using 1 le by (simp add: allocd_def same_node_def)
  next
    case 2
    then have "freed t n" using G by (simp add: grown_def)
    then show ?thesis using 2 by (simp add: allocd_def freed_def)
  next
    case 3
    then show ?thesis using le by (simp add: allocd_def)
  qed
qed

lemma grown_same: "grown s t \<Longrightarrow> allocd s n \<Longrightarrow> same_node s t n"
  by (auto simp: grown_def allocd_def)

lemma grown_ext: "tab_inv s \<Longrightarrow> grown s t \<Longrightarrow> ext s t"
  by (auto simp: ext_def grown_def allocd_def tab_inv_def size_ok_def)

lemma grown_inv:
  assumes I: "tab_inv s" and G: "grown s t" and b: "built 2 t" and m: "marks_clear t"
    and sz: "bddnodesize t < 2 ^ 31"
  shows "tab_inv t"
proof -
  note D = tab_invD [OF I] and al = grown_alloc [OF G] and sn = grown_same [OF G]
  have in_eq: "inner t n = inner s n" for n using al sn by (auto simp: inner_def same_node_def)
  have id: "node_id t n = node_id s n" for n using al by (simp add: node_id_def)
  have c01: "same_node s t 0" "same_node s t 1" using G D(1) by (auto simp: grown_def size_ok_def)
  have "size_ok t" using D(1) sz G by (simp add: size_ok_def grown_def)
  moreover have "consts_ok t" using D(2) c01 by (simp add: consts_ok_def same_node_def)
  moreover have "wf_nodes t" unfolding wf_nodes_def
  proof (intro allI impI)
    fix n assume "inner t n"
    then have n: "inner s n" "same_node s t n" using in_eq sn by (auto simp: inner_def)
    note ch = wf_nodes_child [OF D(3) n(1)]
    have "below t v c" if "node_id s c" "below s v c" for v c
      using that sn [of c] by (auto simp: below_def node_id_def same_node_def)
    then show "0 \<le> LEVEL t n \<and> LEVEL t n < MAXLEVEL \<and> node_id t (LOW t n) \<and> node_id t (HIGH t n) \<and>
        below t (LEVEL t n) (LOW t n) \<and> below t (LEVEL t n) (HIGH t n)"
      using ch n(2) by (simp add: same_node_def id)
  qed
  moreover have "unique_nodes t" unfolding unique_nodes_def
  proof (intro allI impI)
    fix m n
    assume mn: "inner t m \<and> inner t n \<and> LEVEL t m = LEVEL t n \<and> LOW t m = LOW t n \<and> HIGH t m = HIGH t n"
    then have i: "inner s m" "inner s n" by (simp_all add: in_eq)
    then have k: "same_node s t m" "same_node s t n" using sn by (simp_all add: inner_def)
    have "LEVEL s m = LEVEL s n" "LOW s m = LOW s n" "HIGH s m = HIGH s n"
      using mn k by (metis same_node_def)+
    with i show "m = n" by (rule unique_nodesD [OF D(4)])
  qed
  moreover have "refs_ok t" unfolding refs_ok_def
  proof (intro conjI allI impI)
    fix n assume n: "2 \<le> n \<and> n < bddnodesize t \<and> LOW t n = -1"
    have "n_refcou (bddnodes t n) = 0 \<and> LEVEL t n = 0"
    proof (cases "n < bddnodesize s")
      case True
      then have "same_node s t n" using G by (simp add: grown_def)
      then show ?thesis using D(7) n True by (simp add: refs_ok_def same_node_def)
    next
      case False
      then have "freed t n" using G n by (simp add: grown_def)
      then show ?thesis by (simp add: freed_def)
    qed
    then show "n_refcou (bddnodes t n) = 0" "LEVEL t n = 0" by simp_all
  next
    fix n
    have "same_node s t n \<or> freed t n" using G unfolding grown_def by (meson linorder_not_less)
    then show "0 \<le> n_refcou (bddnodes t n)" "n_refcou (bddnodes t n) \<le> MAXREF"
      using D(7) by (auto simp: refs_ok_def same_node_def freed_def MAXREF_def)
  qed
  moreover have "stack_ok t" using D(8) G by (simp add: stack_ok_def grown_def id)
  moreover have "slots_distinct t"
    using D(9) al sn G unfolding slots_distinct_def grown_def same_node_def by metis
  ultimately show ?thesis using b m by (simp add: tab_inv_def)
qed

end
