(* ===== verification/KernelMake.thy ===== *)
theory KernelMake
  imports KernelResize
begin

text \<open>
  The specifications of \<open>bdd_noderesize\<close> and \<open>bdd_makenode\<close>: they end normally (or
  the process ends because the allocator or the default error handler stops it) with the
  invariant, and \<open>bdd_makenode\<close> returns the unique node with the given contents.
\<close>

section \<open>Enlarging the table\<close>

lemma wanted_size_range:
  assumes "kinv s" "\<not> (bddnodesize s \<ge> bddmaxnodesize s \<and> bddmaxnodesize s > 0)"
  shows "bddnodesize s \<le> wanted_size s \<and> wanted_size s < 2 ^ 31"
proof -
  have "0 \<le> bddmaxnodeincrease s" "bddmaxnodeincrease s \<le> 2 ^ 30" "3 \<le> bddnodesize s"
    "bddnodesize s < 2 ^ 30"
    using kinvD [OF assms(1)] by (simp_all add: env_ok_def)
  then show ?thesis using assms(2) unfolding wanted_size_def Let_def by auto
qed

lemma add_nodes_sel:
  "bddnodesize (add_nodes b k s) = bddnodesize s" "bddrefstack (add_nodes b k s) = bddrefstack s"
  "mtvals (add_nodes b k s) = mtvals s" "caches (add_nodes b k s) = caches s"
  "bdderrorcond (add_nodes b k s) = bdderrorcond s" "stat (add_nodes b k s) = stat s"
  by (simp_all add: add_nodes_def Let_def)

definition is_new :: "int \<Rightarrow> bdd_state \<Rightarrow> int \<Rightarrow> bool" where
  "is_new k s n = (k \<le> n \<and> n < bddnodesize s)"

lemma add_nodes_node:
  assumes "0 \<le> k"
  shows
  "n_high (bddnodes (add_nodes b k s) n) = n_high (bddnodes s n)"
  "n_low (bddnodes (add_nodes b k s) n) = (if is_new k s n then -1 else n_low (bddnodes s n))"
  "n_level (bddnodes (add_nodes b k s) n) = (if is_new k s n then 0 else n_level (bddnodes s n))"
  "n_refcou (bddnodes (add_nodes b k s) n) = (if is_new k s n then 0 else n_refcou (bddnodes s n))"
  "n_mark (bddnodes (add_nodes b k s) n) = (if is_new k s n then False else n_mark (bddnodes s n))"
  "n_hash (bddnodes (add_nodes b k s) n) =
     (if is_new k s n \<or> b \<and> 0 \<le> n \<and> n < k then 0 else n_hash (bddnodes s n))"
  using assms by (auto simp: add_nodes_def Let_def fresh_node_def is_new_def)

lemma resize_event_eq: "\<exists>tr. resize_event k s = s\<lparr>trace := tr\<rparr>"
proof (cases "resize_handler s")
  case None
  then show ?thesis by (intro exI [of _ "trace s"]) (simp add: resize_event_def)
qed (auto simp: resize_event_def)

lemma noderesize_grown:
  fixes s :: bdd_state and p :: nat and tr :: "event list"
  assumes K: "kinv s" and r: "bddnodesize s \<le> r" "r \<le> memlimit s" "is_prime (nat r)"
  defines "u \<equiv> add_nodes True (bddnodesize s) (s\<lparr>randpos := p, bddnodesize := r, trace := tr\<rparr>)"
  shows "kinv ((bdd_gbc_rehash u)\<lparr>bddresized := True\<rparr>)" (is "kinv ?t")
    and "grown s ((bdd_gbc_rehash u)\<lparr>bddresized := True\<rparr>)"
proof -
  note I = kinvD [OF K] and D = tab_invD [OF kinvD(1) [OF K]]
  have sz: "bddnodesize u = r" "stat u = stat s" "bddrefstack u = bddrefstack s"
    "bdderrorcond u = bdderrorcond s" "caches u = caches s" "mtvals u = mtvals s"
    by (simp_all add: u_def add_nodes_sel)
  have s0: "0 \<le> bddnodesize s" using I(4) by simp
  note N = add_nodes_node [OF s0, of True "s\<lparr>randpos := p, bddnodesize := r, trace := tr\<rparr>",
      folded u_def]
  let ?new = "\<lambda>n. bddnodesize s \<le> n \<and> n < r"
  have new: "is_new (bddnodesize s) (s\<lparr>randpos := p, bddnodesize := r, trace := tr\<rparr>) n = ?new n" for n
    by (simp add: is_new_def)
  have "bucket u b = 0" if "0 \<le> b" "b < bddnodesize u" for b
    using that by (auto simp: bucket_def N new sz)
  then have R: "rehashed u 2 (bdd_gbc_rehash u)"
    using r I(4) by (intro bdd_gbc_rehash_spec) (simp_all add: sz)
  have t: "bddnodes ?t = bddnodes (bdd_gbc_rehash u)" "bddnodesize ?t = bddnodesize (bdd_gbc_rehash u)"
    by simp_all
  have acc: "LEVEL ?t = LEVEL u" "LOW ?t = LOW u" "HIGH ?t = HIGH u" "MARKED ?t = MARKED u"
    "n_refcou (bddnodes ?t n) = n_refcou (bddnodes u n)" for n
    using R by (simp_all add: rehashed_def fun_eq_iff LEVEL_def LOW_def HIGH_def MARKED_def)
  have fr: "stat ?t = stat s" "bddnodesize ?t = r" "bddrefstack ?t = bddrefstack s"
    "bdderrorcond ?t = bdderrorcond s" "caches ?t = caches s" "mtvals ?t = mtvals s"
    using R sz by (simp_all add: rehashed_def gc_frame_def)
  have old: "same_node s ?t n" if "\<not> ?new n" for n
    using that unfolding same_node_def acc by (auto simp: LEVEL_def LOW_def HIGH_def N new)
  have fresh: "freed ?t n" if "?new n" for n
    using that unfolding freed_def acc by (simp add: LEVEL_def LOW_def HIGH_def N new)
  show G: "grown s ?t" unfolding grown_def using fr r(1) old fresh by simp
  have "built 2 (bdd_gbc_rehash u)" using R by (simp add: rehashed_def)
  then have "built 2 ?t"
    by (rule built_cong) (simp_all add: LOW_def nx_def bucket_def LEVEL_def HIGH_def
        gbc_hash_cong [of ?t _ "bdd_gbc_rehash u"])
  moreover have "marks_clear ?t"
    using D(6) unfolding marks_clear_def acc by (simp add: MARKED_def N new)
  moreover have "bddnodesize ?t < 2 ^ 31" using r(2) I(3) fr(2) by (simp add: env_ok_def)
  ultimately have "tab_inv ?t" by (rule grown_inv [OF I(1) G])
  moreover have "prime_size ?t" using r(2,3) fr(2) statD [OF fr(1)] by (simp add: prime_size_def)
  moreover have "env_ok ?t" using I(3) env_ok_stat [OF fr(1)] by simp
  ultimately show "kinv ?t" by (simp add: kinv_def)
qed

lemma bdd_noderesize_spec:
  assumes K: "kinv s"
  shows "runs (bdd_noderesize True s) (\<lambda>r t. kinv t \<and> (t = s \<or> grown s t))"
proof (cases "bddnodesize s \<ge> bddmaxnodesize s \<and> bddmaxnodesize s > 0")
  case True
  then show ?thesis using K by (simp add: bdd_noderesize_def Let_def)
next
  case False
  note I = kinvD [OF K]
  have w: "bddnodesize s \<le> wanted_size s" "wanted_size s < 2 ^ 31"
    using wanted_size_range [OF K False] by simp_all
  have noov: "\<not> (2 * bddnodesize s > INT_MAX \<or> bddnodesize s + bddmaxnodeincrease s > INT_MAX)"
    using I(3,5) by (auto simp: INT_MAX_def env_ok_def)
  have pr: "is_prime (nat (bddnodesize s))" using I(2) by (simp add: prime_size_def)
  from prime_lte_st_spec [OF pr I(4) w] obtain r p where
    r: "prime_lte_st (wanted_size s) s = ret r (s\<lparr>randpos := p\<rparr>)" "bddnodesize s \<le> r"
      "\<And>N. mr_sound (rand s) N \<Longrightarrow> nat r \<le> N \<Longrightarrow> is_prime (nat r)" by blast
  obtain tr where tr: "resize_event (bddnodesize s) (s\<lparr>randpos := p, bddnodesize := r\<rparr>) =
      s\<lparr>randpos := p, bddnodesize := r, trace := tr\<rparr>"
    using resize_event_eq [of "bddnodesize s" "s\<lparr>randpos := p, bddnodesize := r\<rparr>"] by auto
  show ?thesis
  proof (cases "r \<le> memlimit s")
    case True
    then have "is_prime (nat r)" using r(3) I(3) by (auto simp: env_ok_def)
    from noderesize_grown [OF K r(2) True this, where p = p and tr = tr]
    show ?thesis
      using True noov unfolding bdd_noderesize_def Let_def if_not_P [OF False]
      by (simp add: r(1) tr alloc_def)
  next
    case ov: False
    then show ?thesis
      using noov unfolding bdd_noderesize_def Let_def if_not_P [OF False]
      by (simp add: r(1) tr alloc_def)
  qed
qed

section \<open>Creating nodes\<close>

text \<open>
  Either nothing was collected: the caches and all allocated nodes are as before; or the caches
  are empty.
\<close>

definition caches_rel :: "bdd_state \<Rightarrow> bdd_state \<Rightarrow> bool" where
  "caches_rel s t =
     ((caches t = caches s \<and> (\<forall>n. allocd s n \<longrightarrow> allocd t n \<and> same_node s t n)) \<or>
      caches t = caches (bdd_operator_reset s))"

definition is_node :: "bdd_state \<Rightarrow> int \<Rightarrow> int \<Rightarrow> int \<Rightarrow> int \<Rightarrow> bool" where
  "is_node s lev lo hi r =
     (if checkSameChildren s \<and> lo = hi then r = lo
      else inner s r \<and> LEVEL s r = lev \<and> LOW s r = lo \<and> HIGH s r = hi)"

text \<open>At most the node asked for is new.\<close>

definition only_new :: "bdd_state \<Rightarrow> int \<Rightarrow> int \<Rightarrow> int \<Rightarrow> bdd_state \<Rightarrow> bool" where
  "only_new s lev lo hi t =
     (\<forall>n. allocd t n \<longrightarrow>
        allocd s n \<and> same_node s t n \<or>
        LEVEL t n = lev \<and> LOW t n = lo \<and> HIGH t n = hi \<and> \<not> (checkSameChildren s \<and> lo = hi))"

lemma only_new_refl [simp]: "only_new s lev lo hi s"
  by (simp add: only_new_def)

lemma only_new_trans:
  assumes "\<And>n. allocd u n \<Longrightarrow> allocd s n \<and> same_node s u n" "stat u = stat s" "only_new u lev lo hi t"
  shows "only_new s lev lo hi t"
  unfolding only_new_def
proof (intro allI impI)
  fix n assume "allocd t n"
  then have "allocd u n \<and> same_node u t n \<or>
      LEVEL t n = lev \<and> LOW t n = lo \<and> HIGH t n = hi \<and> \<not> (checkSameChildren u \<and> lo = hi)"
    using assms(3) by (simp add: only_new_def)
  then show "allocd s n \<and> same_node s t n \<or>
      LEVEL t n = lev \<and> LOW t n = lo \<and> HIGH t n = hi \<and> \<not> (checkSameChildren s \<and> lo = hi)"
    using assms(1) [of n] same_node_trans statD(9) [OF assms(2)] by auto
qed

text \<open>What a caller of \<open>bdd_makenode\<close> may rely on.\<close>

definition made :: "bdd_state \<Rightarrow> int \<Rightarrow> int \<Rightarrow> int \<Rightarrow> int \<Rightarrow> bdd_state \<Rightarrow> bool" where
  "made s lev lo hi r t =
     (kinv t \<and> ext s t \<and> bddrefstack t = bddrefstack s \<and> caches_rel s t \<and>
      only_new s lev lo hi t \<and>
      (is_node t lev lo hi r \<or> r = 0 \<and> bdderrorcond t \<noteq> 0))"

lemma fits_ext:
  assumes "ext s t" "tab_inv s" "fits s lev c"
  shows "fits t lev c"
proof -
  have "c = 0 \<or> c = 1 \<or> keep s c" using assms(3) by (auto simp: fits_def node_id_def allocd_def)
  then show ?thesis
    using assms ext_keep [OF assms(1), of c] ext_live [OF assms(1,2), of c]
    by (auto simp: fits_def node_id_def below_def same_node_def allocd_def)
qed

lemma absent_mono:
  assumes "\<And>n. allocd u n \<Longrightarrow> allocd s n \<and> same_node s u n" "absent s lev lo hi"
  shows "absent u lev lo hi"
  unfolding absent_def
proof (intro allI impI)
  fix n assume "inner u n"
  then have "allocd s n" "same_node s u n" "LEVEL u n \<noteq> MAXLEVEL" using assms(1) by (simp_all add: inner_def)
  then show "\<not> matches u lev lo hi n"
    using assms(2) by (simp add: absent_def inner_def matches_def same_node_def)
qed

lemma build_node_spec:
  assumes K: "kinv s" and f: "bddfreepos s \<noteq> 0" and lev: "0 \<le> lev" "lev < MAXLEVEL"
    and lo: "fits s lev lo" and hi: "fits s lev hi"
    and h: "h = NODEHASH s lev lo hi" and ab: "absent s lev lo hi"
    and ne: "\<not> (checkSameChildren s \<and> lo = hi)"
  shows "runs (build_node h lev lo hi s) (\<lambda>r t. made s lev lo hi r t \<and> caches t = caches s \<and>
           (\<forall>n. allocd s n \<longrightarrow> allocd t n \<and> same_node s t n))"
proof -
  let ?r = "bddfreepos s" and ?t = "built_node h lev lo hi s"
  note I = kinvD [OF K]
  have lh: "node_id s lo" "below s lev lo" "node_id s hi" "below s lev hi"
    using lo hi by (simp_all add: fits_def)
  have lo1: "lo \<noteq> -1" using lh by (auto simp: node_id_def allocd_def)
  note B = tab_invD(5) [OF I(1)]
  note r = free_head [OF B f] and al = built_node_alloc [OF B f lo1, of h lev hi]
  have T: "tab_inv ?t" by (rule built_node_inv [OF I(1) f lev lh h ab])
  have st: "stat ?t = stat s" by (simp add: built_node_sel)
  have sn: "same_node s ?t n" if "allocd s n \<or> n = 0 \<or> n = 1" for n
    using that r by (intro built_node_same) (auto simp: allocd_def)
  have "prime_size ?t"
    using I(2) statD [OF st] by (simp add: prime_size_def built_node_sel)
  then have "kinv ?t" using T I(3) env_ok_stat [OF st] by (simp add: kinv_def)
  moreover have "ext s ?t"
    using sn by (auto simp: ext_def st built_node_sel)
  moreover have "is_node ?t lev lo hi ?r"
    using ne lev statD(9) [OF st] by (auto simp: is_node_def inner_def al built_node_sel)
  moreover have "only_new s lev lo hi ?t"
    using ne sn by (auto simp: only_new_def al built_node_sel)
  ultimately show ?thesis
    using sn by (auto simp: build_node_ret made_def caches_rel_def al built_node_sel)
qed

text \<open>The state after a collection and, perhaps, an enlargement of the table.\<close>

definition cleared :: "bdd_state \<Rightarrow> bdd_state \<Rightarrow> bool" where
  "cleared s u =
     (kinv u \<and> ext s u \<and> bddrefstack u = bddrefstack s \<and> caches u = caches (bdd_operator_reset s) \<and>
      (\<forall>n. allocd u n \<longrightarrow> allocd s n \<and> same_node s u n))"

lemma clearedD:
  assumes "cleared s u"
  shows "kinv u" "ext s u" "bddrefstack u = bddrefstack s" "caches u = caches (bdd_operator_reset s)"
    "allocd u n \<Longrightarrow> allocd s n" "allocd u n \<Longrightarrow> same_node s u n"
  using assms by (simp_all add: cleared_def)

text \<open>What \<open>make_room\<close> does before it builds the node, whatever the node is.\<close>

lemma make_room_frees:
  assumes K: "kinv s" and h: "h = NODEHASH s lev lo hi" and e: "bdderrorcond s = 0"
  obtains t where "bdd_gbc s = ret () t" "\<not> bdd_reorder_ready t"
    "runs (if few_free t then bnd (bdd_noderesize True t) (\<lambda>_ s. ret (NODEHASH s lev lo hi) s) else ret h t)
       (\<lambda>h' u. cleared s u \<and> bdderrorcond u = 0 \<and> h' = NODEHASH u lev lo hi)"
proof -
  note I = kinvD [OF K]
  from bdd_gbc_spec [OF I(1)] obtain t where
    t: "bdd_gbc s = ret () t" "tab_inv t" "collected s t" by blast
  have st: "stat t = stat s" and sz: "bddnodesize t = bddnodesize s" and er: "bdderrorcond t = 0"
    and rs: "bddrefstack t = bddrefstack s" and ca: "caches t = caches (bdd_operator_reset s)"
    using t(3) e by (simp_all add: collected_def gc_frame_def)
  have Kt: "kinv t"
    using t(2) I(2,3) sz statD [OF st] env_ok_stat [OF st] by (simp add: kinv_def prime_size_def)
  have Et: "ext s t" using t(3) by (rule collected_ext)
  have ht: "h = NODEHASH t lev lo hi" by (simp add: h NODEHASH_def sz)
  have nr: "\<not> bdd_reorder_ready t" using kinvD(3) [OF Kt] by (simp add: env_ok_def)
  have old: "allocd s n \<and> same_node s t n" if "allocd t n" for n
    using collected_alloc [OF t(3) that] by simp
  let ?m = "if few_free t then bnd (bdd_noderesize True t) (\<lambda>_ s. ret (NODEHASH s lev lo hi) s) else ret h t"
  let ?Q = "\<lambda>h' u. cleared s u \<and> bdderrorcond u = 0 \<and> h' = NODEHASH u lev lo hi"
  have "runs ?m ?Q"
  proof (cases "few_free t")
    case True
    have "runs (bdd_noderesize True t) (\<lambda>r u. ?Q (NODEHASH u lev lo hi) u)"
    proof (rule runs_conseq [OF bdd_noderesize_spec [OF Kt]])
      fix r u assume u: "kinv u \<and> (u = t \<or> grown t u)"
      then have "ext t u" using grown_ext [OF t(2)] by auto
      then have "ext s u" using ext_trans [OF I(1) Et] by blast
      moreover have "allocd s n \<and> same_node s u n" if "allocd u n" for n
        using that u old [of n] grown_alloc [of t u n] grown_same [of t u n] same_node_trans by auto
      ultimately show "?Q (NODEHASH u lev lo hi) u"
        using u er rs ca by (auto simp: grown_def cleared_def)
    qed
    then show ?thesis using True by (simp add: runs_bndI)
  next
    case False
    then show ?thesis using Kt Et er rs ca ht old by (simp add: cleared_def)
  qed
  with t(1) nr show ?thesis by (rule that)
qed

lemma make_room_rule:
  assumes K: "kinv s" and h: "h = NODEHASH s lev lo hi"
    and err: "bdderrorcond s \<noteq> 0 \<Longrightarrow> R 0 s"
    and full: "\<And>u. cleared s u \<Longrightarrow> bdderrorcond u \<noteq> 0 \<Longrightarrow> R 0 u"
    and build: "\<And>u. cleared s u \<Longrightarrow> bddfreepos u \<noteq> 0 \<Longrightarrow>
      runs (build_node (NODEHASH u lev lo hi) lev lo hi u) R"
  shows "runs (make_room h lev lo hi s) R"
proof (cases "bdderrorcond s = 0")
  case False
  then show ?thesis using err by (simp add: make_room_def)
next
  case True
  obtain t where t: "bdd_gbc s = ret () t" "\<not> bdd_reorder_ready t"
    "runs (if few_free t then bnd (bdd_noderesize True t) (\<lambda>_ s. ret (NODEHASH s lev lo hi) s) else ret h t)
       (\<lambda>h' u. cleared s u \<and> bdderrorcond u = 0 \<and> h' = NODEHASH u lev lo hi)"
    by (rule make_room_frees [OF K h True])
  have fin: "runs (if bddfreepos u = 0
          then bnd (bdd_error BDD_NODENUM u) (\<lambda>_ s. ret 0 (s\<lparr>bdderrorcond := abs BDD_NODENUM\<rparr>))
          else build_node h' lev lo hi u) R"
    if Q: "cleared s u \<and> bdderrorcond u = 0 \<and> h' = NODEHASH u lev lo hi" for h' u
  proof (cases "bddfreepos u = 0")
    case True
    have "\<exists>tr. runs (bdd_error BDD_NODENUM u) (\<lambda>_ v. v = u\<lparr>trace := tr\<rparr>)"
      by (cases "err_handler u") (auto simp: bdd_error_def intro: exI [of _ "trace u"])
    then obtain tr where tr: "runs (bdd_error BDD_NODENUM u) (\<lambda>_ v. v = u\<lparr>trace := tr\<rparr>)" ..
    let ?v = "u\<lparr>trace := tr, bdderrorcond := abs BDD_NODENUM\<rparr>"
    note U = clearedD [OF conjunct1 [OF Q]]
    have st: "stat ?v = stat u" by simp
    have "tab_inv ?v" using kinvD(1) [OF U(1)] by (subst tab_inv_cong [of _ u]) simp_all
    then have "kinv ?v"
      using U(1) env_ok_stat [OF st] by (simp add: kinv_def prime_size_def)
    moreover have "ext s ?v"
      using U(2) Q by (auto simp: ext_def same_node_def LEVEL_def LOW_def HIGH_def BDD_NODENUM_def)
    moreover have "allocd s n \<and> same_node s ?v n" if "allocd ?v n" for n
      using that U(5,6) [of n] by (auto simp: allocd_def same_node_def LEVEL_def LOW_def HIGH_def)
    ultimately have "cleared s ?v" using U by (simp add: cleared_def)
    then have "R 0 ?v" by (rule full) (simp add: BDD_NODENUM_def)
    then show ?thesis using True by (simp add: runs_bnd [OF tr])
  qed (use build Q in simp)
  show ?thesis
    unfolding make_room_def using True t(1,2) by (simp add: runs_bnd [OF t(3) fin])
qed

lemma make_room_spec:
  assumes K: "kinv s" and lev: "0 \<le> lev" "lev < MAXLEVEL"
    and lo: "fits s lev lo" and hi: "fits s lev hi" and ab: "absent s lev lo hi"
    and h: "h = NODEHASH s lev lo hi" and ne: "\<not> (checkSameChildren s \<and> lo = hi)"
  shows "runs (make_room h lev lo hi s) (made s lev lo hi)"
proof (rule make_room_rule [OF K h])
  assume "bdderrorcond s \<noteq> 0"
  then show "made s lev lo hi 0 s" using K by (auto simp: made_def caches_rel_def)
next
  fix u assume "cleared s u" "bdderrorcond u \<noteq> 0"
  then show "made s lev lo hi 0 u" by (auto simp: made_def caches_rel_def cleared_def only_new_def)
next
  fix u assume u: "cleared s u" and f: "bddfreepos u \<noteq> 0"
  note U = clearedD [OF u]
  note I = kinvD(1) [OF K]
  have L: "fits u lev lo" "fits u lev hi" using fits_ext [OF U(2) I] lo hi by blast+
  have "\<not> (checkSameChildren u \<and> lo = hi)" using ne U(2) statD(9) [of u s] by (auto simp: ext_def)
  moreover have "absent u lev lo hi" using U(5,6) ab by (blast intro: absent_mono)
  ultimately have "runs (build_node (NODEHASH u lev lo hi) lev lo hi u)
      (\<lambda>r t. made u lev lo hi r t \<and> caches t = caches u)"
    using build_node_spec [OF U(1) f lev L refl] by (auto elim: runs_conseq)
  then show "runs (build_node (NODEHASH u lev lo hi) lev lo hi u) (made s lev lo hi)"
  proof (rule runs_conseq)
    fix r v assume m: "made u lev lo hi r v \<and> caches v = caches u"
    have "stat u = stat s" using U(2) by (simp add: ext_def)
    then have "only_new s lev lo hi v"
      using U(5,6) m by (intro only_new_trans [of u s]) (auto simp: made_def)
    then show "made s lev lo hi r v"
      using U(3,4) m ext_trans [OF I U(2), of v] by (simp add: made_def caches_rel_def)
  qed
qed

lemma is_node_refl_lo: "checkSameChildren s \<Longrightarrow> is_node s lev lo lo lo"
  by (simp add: is_node_def)

lemma bdd_makenode_spec:
  assumes K: "kinv s" and lev: "0 \<le> lev" "lev < MAXLEVEL"
    and lo: "fits s lev lo" and hi: "fits s lev hi"
  shows "runs (bdd_makenode lev lo hi s) (made s lev lo hi)"
proof (cases "checkSameChildren s \<and> lo = hi")
  case True
  then have "made s lev lo hi lo s"
    using K by (simp add: made_def caches_rel_def is_node_def)
  then show ?thesis using True lev by (simp add: bdd_makenode_def Let_def)
next
  case False
  let ?h = "NODEHASH s lev lo hi"
  from find_node_spec [OF kinvD(1) [OF K], of lev lo hi] lev obtain r where
    f: "find_node (mark_fuel s) (n_hash (bddnodes s ?h)) lev lo hi s = ret r s"
    and r: "(r = 0 \<and> absent s lev lo hi) \<or> (r \<noteq> 0 \<and> inner s r \<and> matches s lev lo hi r)"
    by auto
  have eq: "bdd_makenode lev lo hi s =
      (if r \<noteq> 0 then ret r s
       else if bddfreepos s = 0 then make_room ?h lev lo hi s else build_node ?h lev lo hi s)"
    using False lev f by (auto simp: bdd_makenode_def Let_def)
  consider "r \<noteq> 0" | "r = 0" "bddfreepos s = 0" | "r = 0" "bddfreepos s \<noteq> 0" by blast
  then show ?thesis
  proof cases
    case 1
    then have "made s lev lo hi r s"
      using K r False by (auto simp: made_def caches_rel_def is_node_def matches_def)
    then show ?thesis using 1 by (simp add: eq)
  next
    case 2
    then show ?thesis using make_room_spec [OF K lev lo hi _ refl False] r by (simp add: eq)
  next
    case 3
    then show ?thesis
      using build_node_spec [OF K _ lev lo hi refl _ False] r by (auto simp: eq elim: runs_conseq)
  qed
qed

end
