(* ===== verification/Sem.thy ===== *)
theory Sem
  imports KernelMake
begin

text \<open>
  The Boolean function a node stands for (over an assignment of levels), the invariant of a table
  that holds plain BDDs, and canonicity: in such a table two nodes with the same function are
  the same node.
\<close>

section \<open>The function of a node\<close>

text \<open>\<open>evals s e n b\<close>: following the edges chosen by \<open>e\<close> from \<open>n\<close> ends in the constant \<open>b\<close>.\<close>

inductive evals :: "bdd_state \<Rightarrow> (int \<Rightarrow> bool) \<Rightarrow> int \<Rightarrow> bool \<Rightarrow> bool"
  for s :: bdd_state and e :: "int \<Rightarrow> bool" where
  ev_false: "evals s e 0 False"
| ev_true: "evals s e 1 True"
| ev_low: "inner s n \<Longrightarrow> \<not> e (LEVEL s n) \<Longrightarrow> evals s e (LOW s n) b \<Longrightarrow> evals s e n b"
| ev_high: "inner s n \<Longrightarrow> e (LEVEL s n) \<Longrightarrow> evals s e (HIGH s n) b \<Longrightarrow> evals s e n b"

inductive_cases evalsE: "evals s e n b"

definition sem :: "bdd_state \<Rightarrow> int \<Rightarrow> (int \<Rightarrow> bool) \<Rightarrow> bool" where
  "sem s n e = evals s e n True"

lemma not_inner_const [simp]: "\<not> inner s 0" "\<not> inner s 1"
  by (simp_all add: inner_def allocd_def)

lemma sem_const [simp]: "sem s 0 e = False" "sem s 1 e = True"
  unfolding sem_def by (auto elim: evalsE intro: ev_true)

lemma sem_inner: "inner s n \<Longrightarrow> sem s n e = (if e (LEVEL s n) then sem s (HIGH s n) e else sem s (LOW s n) e)"
  unfolding sem_def by (auto elim: evalsE [of s e n] intro: ev_low ev_high)

lemma reach_const: "reach s i n \<Longrightarrow> i = 0 \<or> i = 1 \<Longrightarrow> n = i"
  by (induction rule: reach.induct) auto

lemma evals_transfer:
  assumes "\<And>m. reach s n m \<Longrightarrow> inner s m \<Longrightarrow> inner t m \<and> same_node s t m"
  shows "evals s e n b \<Longrightarrow> evals t e n b"
proof -
  have "evals s e m b \<Longrightarrow> reach s n m \<Longrightarrow> evals t e m b" for m
  proof (induction rule: evals.induct)
    case (ev_low m b)
    then have "inner t m" "same_node s t m" "evals t e (LOW s m) b"
      using assms by (auto intro: reach.intros)
    then show ?case using evals.ev_low [of t m e b] ev_low by (simp add: same_node_def)
  next
    case (ev_high m b)
    then have "inner t m" "same_node s t m" "evals t e (HIGH s m) b"
      using assms by (auto intro: reach.intros)
    then show ?case using evals.ev_high [of t m e b] ev_high by (simp add: same_node_def)
  qed (auto intro: evals.intros)
  then show "evals s e n b \<Longrightarrow> evals t e n b" by (auto intro: reach_self)
qed

text \<open>\<open>agree s t n\<close>: the two states have the same nodes reachable from \<open>n\<close>.\<close>

definition agree :: "bdd_state \<Rightarrow> bdd_state \<Rightarrow> int \<Rightarrow> bool" where
  "agree s t n =
     (node_id s n \<and> (\<forall>m. reach s n m \<and> allocd s m \<longrightarrow> allocd t m \<and> same_node s t m))"

lemma agree_inner:
  assumes wf: "wf_nodes s" and A: "agree s t n" and m: "reach s n m"
  shows "inner t m \<longleftrightarrow> inner s m" "inner s m \<Longrightarrow> same_node s t m"
proof -
  have al: "allocd t m \<and> same_node s t m" if "allocd s m"
    using A m that unfolding agree_def by blast
  then show "inner s m \<Longrightarrow> same_node s t m" by (simp add: inner_def)
  have "node_id s m" by (rule reach_node_id [OF m wf]) (use A in \<open>simp add: agree_def\<close>)
  then consider "allocd s m" | "m = 0" | "m = 1" unfolding node_id_def by blast
  then show "inner t m \<longleftrightarrow> inner s m"
  proof cases
    case 1
    then show ?thesis using al by (simp add: inner_def same_node_def)
  qed simp_all
qed

lemma agree_reach:
  assumes wf: "wf_nodes s" and A: "agree s t n"
  shows "reach t n m \<Longrightarrow> reach s n m"
proof (induction rule: reach.induct)
  case (reach_low m)
  then show ?case
    using agree_inner [OF wf A, of m] reach.reach_low [of s n m] by (auto simp: same_node_def)
next
  case (reach_high m)
  then show ?case
    using agree_inner [OF wf A, of m] reach.reach_high [of s n m] by (auto simp: same_node_def)
qed (rule reach_self)

lemma sem_eq:
  assumes wf: "wf_nodes s" and A: "agree s t n"
  shows "sem t n e = sem s n e"
proof -
  have "evals t e n True \<Longrightarrow> evals s e n True"
  proof (rule evals_transfer)
    fix m assume m: "reach t n m" "inner t m"
    then have "reach s n m" using agree_reach [OF wf A] by blast
    then show "inner s m \<and> same_node t s m"
      using agree_inner [OF wf A, of m] m by (auto simp: same_node_def)
  qed
  moreover have "evals s e n True \<Longrightarrow> evals t e n True"
    by (rule evals_transfer) (use agree_inner [OF wf A] in auto)
  ultimately show ?thesis unfolding sem_def by blast
qed

text \<open>A node a caller may pass to an operation: valid, and safe from collection.\<close>

definition arg :: "bdd_state \<Rightarrow> int \<Rightarrow> bool" where
  "arg s n = (node_id s n \<and> (2 \<le> n \<longrightarrow> live s n))"

lemma arg_const [simp]: "arg s 0" "arg s 1"
  by (simp_all add: arg_def node_id_def)

lemma arg_fits: "arg s n \<Longrightarrow> below s v n \<Longrightarrow> fits s v n"
  by (simp add: arg_def fits_def)

lemma arg_children:
  assumes "tab_inv s" "arg s n" "inner s n"
  shows "arg s (LOW s n)" "arg s (HIGH s n)"
  using wf_nodes_child [OF tab_invD(3) [OF assms(1)] assms(3)] assms(2,3)
  by (auto simp: arg_def inner_def allocd_def intro: live_low live_high)

lemma arg_agree:
  assumes E: "ext s t" and n: "arg s n"
  shows "agree s t n"
  unfolding agree_def
proof (intro conjI allI impI)
  show "node_id s n" using n by (simp add: arg_def)
  fix m assume m: "reach s n m \<and> allocd s m"
  have "live s m"
  proof (cases "2 \<le> n")
    case True
    then show ?thesis using n m reach_live [of s n m] by (simp add: arg_def)
  next
    case False
    then have "n = 0 \<or> n = 1" using n by (auto simp: arg_def node_id_def allocd_def)
    then have "m = n" using m by (intro reach_const [of s]) simp_all
    then show ?thesis using m False by (simp add: allocd_def)
  qed
  then show "allocd t m" "same_node s t m" using ext_keep [OF E, of m] m by simp_all
qed

lemma arg_ext:
  assumes E: "ext s t" and I: "tab_inv s" and n: "arg s n"
  shows "arg t n" "same_node s t n" "sem t n e = sem s n e"
proof -
  have keep: "n = 0 \<or> n = 1 \<or> keep s n" using n by (auto simp: arg_def node_id_def allocd_def)
  show sn: "same_node s t n" using keep E unfolding ext_def by blast
  show "arg t n"
    using keep ext_keep [OF E, of n] ext_live [OF E I, of n] by (auto simp: arg_def node_id_def)
  show "sem t n e = sem s n e" by (rule sem_eq [OF tab_invD(3) [OF I] arg_agree [OF E n]])
qed

text \<open>Nothing allocated has changed.\<close>

definition grow :: "bdd_state \<Rightarrow> bdd_state \<Rightarrow> bool" where
  "grow s t =
     (same_node s t 0 \<and> same_node s t 1 \<and> (\<forall>n. allocd s n \<longrightarrow> allocd t n \<and> same_node s t n))"

lemma grow_refl [simp]: "grow s s"
  by (simp add: grow_def)

lemma grow_agree: "grow s t \<Longrightarrow> node_id s n \<Longrightarrow> agree s t n"
  by (simp add: grow_def agree_def)

lemma grow_node:
  assumes G: "grow s t" and I: "tab_inv s" and n: "node_id s n"
  shows "node_id t n" "same_node s t n" "sem t n e = sem s n e"
proof -
  show "node_id t n" "same_node s t n" using G n by (auto simp: grow_def node_id_def)
  show "sem t n e = sem s n e"
    by (rule sem_eq [OF tab_invD(3) [OF I] grow_agree [OF G n]])
qed

section \<open>Tables of plain BDDs\<close>

text \<open>
  All nodes are inner nodes on levels below \<open>bddvarnum\<close>, reduced, and the constants are on level
  \<open>bddvarnum\<close>.
\<close>

definition bdd_table :: "bdd_state \<Rightarrow> bool" where
  "bdd_table s =
     (checkSameChildren s \<and> 0 \<le> bddvarnum s \<and> bddvarnum s \<le> MAXVAR \<and>
      LEVEL s 0 = bddvarnum s \<and> LEVEL s 1 = bddvarnum s \<and>
      (\<forall>n. allocd s n \<longrightarrow> LEVEL s n < bddvarnum s \<and> LOW s n \<noteq> HIGH s n))"

lemma bdd_table_inner: "bdd_table s \<Longrightarrow> allocd s n \<Longrightarrow> inner s n"
  by (auto simp: bdd_table_def inner_def MAXVAR_def MAXLEVEL_def)

text \<open>A valid node, with the facts about its level and children.\<close>

lemma bdd_node:
  assumes T: "bdd_table s" and I: "tab_inv s" and n: "node_id s n"
  shows "0 \<le> LEVEL s n" "LEVEL s n \<le> bddvarnum s" "n < 2 \<longleftrightarrow> LEVEL s n = bddvarnum s"
    "2 \<le> n \<Longrightarrow> inner s n" "2 \<le> n \<Longrightarrow> LEVEL s n < bddvarnum s" "0 \<le> n"
    "2 \<le> n \<Longrightarrow> node_id s (LOW s n)" "2 \<le> n \<Longrightarrow> node_id s (HIGH s n)"
    "2 \<le> n \<Longrightarrow> LEVEL s n < LEVEL s (LOW s n)" "2 \<le> n \<Longrightarrow> LEVEL s n < LEVEL s (HIGH s n)"
proof -
  have big: "inner s n" "LEVEL s n < bddvarnum s" "0 \<le> LEVEL s n" if "2 \<le> n"
    using that n T wf_nodes_child [OF tab_invD(3) [OF I], of n]
    by (auto simp: node_id_def bdd_table_def inner_def MAXVAR_def MAXLEVEL_def)
  have const: "LEVEL s n = bddvarnum s" if "\<not> 2 \<le> n"
    using that n T by (auto simp: node_id_def bdd_table_def allocd_def)
  have vn: "0 \<le> bddvarnum s" using T by (simp add: bdd_table_def)
  show "0 \<le> LEVEL s n" "LEVEL s n \<le> bddvarnum s" "n < 2 \<longleftrightarrow> LEVEL s n = bddvarnum s" "0 \<le> n"
    using big const vn n by (cases "2 \<le> n"; auto simp: node_id_def allocd_def)+
  show "2 \<le> n \<Longrightarrow> inner s n" "2 \<le> n \<Longrightarrow> LEVEL s n < bddvarnum s" using big by auto
  have child: "LEVEL s n < LEVEL s c" if "2 \<le> n" "node_id s c" "below s (LEVEL s n) c" for c
    using that big(2) T by (auto simp: below_def node_id_def bdd_table_def allocd_def)
  show "2 \<le> n \<Longrightarrow> node_id s (LOW s n)" "2 \<le> n \<Longrightarrow> node_id s (HIGH s n)"
    "2 \<le> n \<Longrightarrow> LEVEL s n < LEVEL s (LOW s n)" "2 \<le> n \<Longrightarrow> LEVEL s n < LEVEL s (HIGH s n)"
    using wf_nodes_child [OF tab_invD(3) [OF I], of n] big(1) child by auto
qed

lemma node_induct [consumes 3, case_names const node]:
  assumes T: "bdd_table s" and I: "tab_inv s" and n: "node_id s n"
    and const: "\<And>n. n = 0 \<or> n = 1 \<Longrightarrow> P n"
    and node: "\<And>n. 2 \<le> n \<Longrightarrow> inner s n \<Longrightarrow> node_id s n \<Longrightarrow> P (LOW s n) \<Longrightarrow> P (HIGH s n) \<Longrightarrow> P n"
  shows "P n"
  using n
proof (induction "nat (bddvarnum s - LEVEL s n)" arbitrary: n rule: less_induct)
  case less
  show ?case
  proof (cases "2 \<le> n")
    case True
    note N = bdd_node [OF T I less.prems]
    have "P (LOW s n)" "P (HIGH s n)" using N(5,7-10) True by (auto intro!: less.hyps)
    then show ?thesis using node True N(4) less.prems by blast
  next
    case False
    then show ?thesis using const bdd_node(6) [OF T I less.prems] by (auto intro: const)
  qed
qed

text \<open>The function of a node depends on the levels from its own downwards only.\<close>

lemma sem_levels:
  assumes T: "bdd_table s" and I: "tab_inv s" and n: "node_id s n"
    and e: "\<And>v. LEVEL s n \<le> v \<Longrightarrow> e v = e' v"
  shows "sem s n e = sem s n e'"
  using T I n e
proof (induction rule: node_induct)
  case (const n)
  then show ?case by auto
next
  case (node n)
  note N = bdd_node [OF T I node(3)]
  have "LEVEL s n < LEVEL s (LOW s n)" "LEVEL s n < LEVEL s (HIGH s n)" using N(9,10) node(1) by auto
  then have "sem s (LOW s n) e = sem s (LOW s n) e'" "sem s (HIGH s n) e = sem s (HIGH s n) e'"
    using node.IH node.prems by auto
  then show ?case using node.prems [of "LEVEL s n"] node(2) by (simp add: sem_inner)
qed

lemma sem_upd:
  assumes "bdd_table s" "tab_inv s" "node_id s n" "v < LEVEL s n"
  shows "sem s n (e(v := b)) = sem s n e"
  using assms(4) by (intro sem_levels [OF assms(1-3)]) auto

lemma sem_cofactors:
  assumes T: "bdd_table s" and I: "tab_inv s" and n: "node_id s n" "2 \<le> n"
  shows "sem s (LOW s n) e = sem s n (e(LEVEL s n := False))"
    "sem s (HIGH s n) e = sem s n (e(LEVEL s n := True))"
  using bdd_node [OF T I n(1)] n(2) by (simp_all add: sem_inner sem_upd [OF T I])

section \<open>Canonicity\<close>

text \<open>Equal functions are equal nodes.\<close>

lemma sem_inject:
  assumes T: "bdd_table s" and I: "tab_inv s"
  shows "node_id s m \<Longrightarrow> node_id s n \<Longrightarrow> (\<And>e. sem s m e = sem s n e) \<Longrightarrow> m = n"
proof (induction "nat (bddvarnum s - LEVEL s m) + nat (bddvarnum s - LEVEL s n)" arbitrary: m n
    rule: less_induct)
  case less
  \<comment> \<open>a node above the other one would have two equal children\<close>
  have above: False
    if a: "node_id s a" "node_id s b" "LEVEL s a < LEVEL s b" "\<And>e. sem s a e = sem s b e"
      and le: "nat (bddvarnum s - LEVEL s a) + nat (bddvarnum s - LEVEL s b) =
        nat (bddvarnum s - LEVEL s m) + nat (bddvarnum s - LEVEL s n)" for a b
  proof -
    note A = bdd_node [OF T I a(1)] and B = bdd_node [OF T I a(2)]
    have a2: "2 \<le> a" using A(3) B(2) a(3) by simp
    have "c = b" if c: "node_id s c" "LEVEL s a < LEVEL s c" "\<And>e. \<exists>v. sem s c e = sem s a (e(LEVEL s a := v))" for c
    proof (rule less.hyps)
      show "nat (bddvarnum s - LEVEL s c) + nat (bddvarnum s - LEVEL s b) <
          nat (bddvarnum s - LEVEL s m) + nat (bddvarnum s - LEVEL s n)"
        using le c(2) A(2) bdd_node(2) [OF T I c(1)] by linarith
      show "sem s c e = sem s b e" for e
        using c(3) [of e] a(3,4) by (auto simp: sem_upd [OF T I a(2)])
    qed (use c(1) a(2) in simp_all)
    then have "LOW s a = b" "HIGH s a = b"
      using A(7-10) a2 sem_cofactors [OF T I a(1) a2] by blast+
    moreover have "LOW s a \<noteq> HIGH s a" using T A(4) a2 by (auto simp: bdd_table_def inner_def)
    ultimately show False by simp
  qed
  consider "LEVEL s m < LEVEL s n" | "LEVEL s n < LEVEL s m" | "LEVEL s m = LEVEL s n" by linarith
  then show ?case
  proof cases
    case 1
    then show ?thesis using above less.prems by blast
  next
    case 2
    then show ?thesis using above [of n m] less.prems by auto
  next
    case 3
    note M = bdd_node [OF T I less.prems(1)] and N = bdd_node [OF T I less.prems(2)]
    show ?thesis
    proof (cases "2 \<le> m")
      case True
      then have n2: "2 \<le> n" using M(3) N(3) 3 by linarith
      note cm = sem_cofactors [OF T I less.prems(1) True] and cn = sem_cofactors [OF T I less.prems(2) n2]
      have lt: "nat (bddvarnum s - LEVEL s c) + nat (bddvarnum s - LEVEL s d) <
          nat (bddvarnum s - LEVEL s m) + nat (bddvarnum s - LEVEL s n)"
        if "LEVEL s m < LEVEL s c" "LEVEL s n < LEVEL s d" for c d
        using that M(5) N(5) True n2 by linarith
      have "LOW s m = LOW s n"
        by (rule less.hyps) (use lt M(7,9) N(7,9) True n2 cm(1) cn(1) less.prems(3) 3 in simp_all)
      moreover have "HIGH s m = HIGH s n"
        by (rule less.hyps) (use lt M(8,10) N(8,10) True n2 cm(2) cn(2) less.prems(3) 3 in simp_all)
      ultimately show ?thesis
        using unique_nodesD [OF tab_invD(4) [OF I]] M(4) N(4) True n2 3 by blast
    next
      case False
      then have "m = 0 \<or> m = 1" "n = 0 \<or> n = 1" using M(3,6) N(3,6) 3 by linarith+
      then show ?thesis using less.prems(3) by auto
    qed
  qed
qed

end
