(* ===== verification/KernelApi.thy ===== *)
theory KernelApi
  imports Kernel
begin

text \<open>
  The rest of \<^verbatim>\<open>src/kernel.c\<close>'s interface on single nodes and on the settings:
  reference counting, access to variables and children, hooks, limits, statistics and
  \<open>bdd_scanset\<close>. Allocation of the small per-variable arrays is taken to succeed; only
  requests for node tables and caches go through \<open>alloc\<close>.
\<close>

section \<open>Settings\<close>

definition bdd_error_hook :: "errhandler \<Rightarrow> bdd_state \<Rightarrow> errhandler bm" where
  "bdd_error_hook h s = (let tmp = err_handler s in ret tmp (s\<lparr>err_handler := h\<rparr>))"

definition bdd_clear_error :: "bdd_state \<Rightarrow> bdd_state" where
  "bdd_clear_error s = bdd_operator_reset (s\<lparr>bdderrorcond := 0\<rparr>)"

definition bdd_gbc_hook :: "nat option \<Rightarrow> bdd_state \<Rightarrow> nat option bm" where
  "bdd_gbc_hook h s = (let tmp = gbc_handler s in ret tmp (s\<lparr>gbc_handler := h\<rparr>))"

definition bdd_resize_hook :: "nat option \<Rightarrow> bdd_state \<Rightarrow> nat option bm" where
  "bdd_resize_hook h s = (let tmp = h in ret tmp (s\<lparr>resize_handler := h\<rparr>))"

definition bdd_setmaxincrease :: "int \<Rightarrow> bdd_state \<Rightarrow> int bm" where
  "bdd_setmaxincrease sz s =
     (let old = bddmaxnodeincrease s in
      if sz < 0 then bdd_error BDD_SIZE s else ret old (s\<lparr>bddmaxnodeincrease := sz\<rparr>))"

definition bdd_setmaxnodenum :: "int \<Rightarrow> bdd_state \<Rightarrow> int bm" where
  "bdd_setmaxnodenum sz s =
     (if sz > bddnodesize s \<or> sz = 0
      then let old = bddmaxnodesize s in ret old (s\<lparr>bddmaxnodesize := sz\<rparr>)
      else bdd_error BDD_NODES s)"

definition bdd_setminfreenodes :: "int \<Rightarrow> bdd_state \<Rightarrow> int bm" where
  "bdd_setminfreenodes mf s =
     (let old = minfreenodes s in
      if mf < 0 \<or> mf > 100 then bdd_error BDD_RANGE s else ret old (s\<lparr>minfreenodes := mf\<rparr>))"

definition bdd_getnodenum :: "bdd_state \<Rightarrow> int" where
  "bdd_getnodenum s = bddnodesize s - bddfreenum s"

definition bdd_getallocnum :: "bdd_state \<Rightarrow> int" where
  "bdd_getallocnum s = bddnodesize s"

definition bdd_isrunning :: "bdd_state \<Rightarrow> bool" where
  "bdd_isrunning s = bddrunning s"

record bddStat =
  st_produced :: int
  st_nodenum :: int
  st_maxnodenum :: int
  st_freenodes :: int
  st_minfreenodes :: int
  st_varnum :: int
  st_cachesize :: int
  st_gbcnum :: int

definition bdd_stats :: "bdd_state \<Rightarrow> bddStat" where
  "bdd_stats s = \<lparr>st_produced = bddproduced s, st_nodenum = bddnodesize s,
     st_maxnodenum = bddmaxnodesize s, st_freenodes = bddfreenum s,
     st_minfreenodes = minfreenodes s, st_varnum = bddvarnum s, st_cachesize = cachesize s,
     st_gbcnum = gbcollectnum s\<rparr>"

section \<open>Variables and nodes\<close>

definition bdd_true :: BDD where "bdd_true = 1"
definition bdd_false :: BDD where "bdd_false = 0"

definition bdd_ithvar :: "int \<Rightarrow> bdd_state \<Rightarrow> BDD bm" where
  "bdd_ithvar var s =
     (if var < 0 \<or> var \<ge> bddvarnum s
      then bnd (bdd_error BDD_VAR s) (\<lambda>_ s. ret bddfalse s)
      else ret (bddvarset s (var * 2)) s)"

definition bdd_nithvar :: "int \<Rightarrow> bdd_state \<Rightarrow> BDD bm" where
  "bdd_nithvar var s =
     (if var < 0 \<or> var \<ge> bddvarnum s
      then bnd (bdd_error BDD_VAR s) (\<lambda>_ s. ret bddfalse s)
      else ret (bddvarset s (var * 2 + 1)) s)"

definition bdd_varnum :: "bdd_state \<Rightarrow> int" where "bdd_varnum s = bddvarnum s"

text \<open>\<open>bddlevel2var\<close> has an entry for each level up to \<open>bddvarnum\<close>.\<close>

definition bdd_var :: "BDD \<Rightarrow> bdd_state \<Rightarrow> int bm" where
  "bdd_var r s =
     CHECK r s (\<lambda>s.
       if r < 2 then bdd_error BDD_ILLBDD s
       else if LEVEL s r > bddvarnum s then fail Trap s
       else ret (bddlevel2var s (LEVEL s r)) s)"

definition bdd_low :: "BDD \<Rightarrow> bdd_state \<Rightarrow> BDD bm" where
  "bdd_low r s =
     CHECK r s (\<lambda>s. if r < 2 then bdd_error BDD_ILLBDD s else ret (LOW s r) s)"

definition bdd_high :: "BDD \<Rightarrow> bdd_state \<Rightarrow> BDD bm" where
  "bdd_high r s =
     CHECK r s (\<lambda>s. if r < 2 then bdd_error BDD_ILLBDD s else ret (HIGH s r) s)"

section \<open>References\<close>

definition bdd_addref :: "BDD \<Rightarrow> bdd_state \<Rightarrow> BDD bm" where
  "bdd_addref r s =
     (if r < 2 \<or> \<not> bddrunning s then ret r s
      else if r \<ge> bddnodesize s then bdd_error BDD_ILLBDD s
      else if LOW s r = -1 then bdd_error BDD_ILLBDD s
      else ret r (INCREF r s))"

definition bdd_delref :: "BDD \<Rightarrow> bdd_state \<Rightarrow> BDD bm" where
  "bdd_delref r s =
     (if r < 2 \<or> \<not> bddrunning s then ret r s
      else if r \<ge> bddnodesize s then bdd_error BDD_ILLBDD s
      else if LOW s r = -1 then bdd_error BDD_ILLBDD s
      else bnd (if \<not> HASREF s r then bdd_error BDD_BREAK s else ret 0 s) (\<lambda>_ s.
           ret r (DECREF r s)))"

section \<open>Variable sets\<close>

text \<open>The variables along the chain of \<open>HIGH\<close> edges; the result is the code and the array.\<close>

primrec scan_high :: "nat \<Rightarrow> BDD \<Rightarrow> bdd_state \<Rightarrow> int list option" where
  "scan_high 0 n s = None"
| "scan_high (Suc k) n s =
     (if n > 1 then map_option (\<lambda>vs. bddlevel2var s (LEVEL s n) # vs) (scan_high k (HIGH s n) s)
      else Some [])"

definition bdd_scanset :: "BDD \<Rightarrow> bdd_state \<Rightarrow> (int \<times> int list) bm" where
  "bdd_scanset r s =
     (if check_code r s \<noteq> 0 then bnd (bdd_error (check_code r s) s) (\<lambda>c s. ret (c, []) s)
      else if r < 2 then ret (0, []) s
      else (case scan_high (nat (bddvarnum s) + 2) r s of
              None \<Rightarrow> fail Nofuel s
            | Some vs \<Rightarrow> ret (0, vs) s))"

end
