(* ===== verification/Pairs.thy ===== *)
theory Pairs
  imports KernelApi
begin

text \<open>
  Model of \<^verbatim>\<open>src/pairs.c\<close>: the tables of variable pairs used by substitution. A
  pair is known by its address; the list \<open>pairs\<close> of the state has the registered ones, newest
  first. Each change of a pair gives it a fresh identifier, which is part of the key under which
  substitution results are cached.
\<close>

definition upd_pair :: "nat \<Rightarrow> (bddPair \<Rightarrow> bddPair) \<Rightarrow> bdd_state \<Rightarrow> bdd_state" where
  "upd_pair a f s = s\<lparr>pairs := map (\<lambda>p. if p_addr p = a then f p else p) (pairs s)\<rparr>"

definition find_pair :: "nat \<Rightarrow> bdd_state \<Rightarrow> bddPair option" where
  "find_pair a s = find (\<lambda>p. p_addr p = a) (pairs s)"

text \<open>Accessing a pair that is not registered (freed) is undefined behaviour.\<close>

definition with_pair :: "nat \<Rightarrow> bdd_state \<Rightarrow> (bddPair \<Rightarrow> 'a bm) \<Rightarrow> 'a bm" where
  "with_pair a s k = (case find_pair a s of None \<Rightarrow> fail Trap s | Some p \<Rightarrow> k p)"

definition bdd_pairs_init :: "bdd_state \<Rightarrow> bdd_state" where
  "bdd_pairs_init s = s\<lparr>pairsid := 0, pairs := [], pairs_freed := False\<rparr>"

text \<open>\<open>for (n=0 ; n<bddvarnum ; n++) bdd_delref(p->result[n])\<close>, counted from \<open>n\<close>.\<close>

primrec delref_results :: "nat \<Rightarrow> int \<Rightarrow> (int \<Rightarrow> BDD) \<Rightarrow> bdd_state \<Rightarrow> unit bm" where
  "delref_results 0 n res s = ret () s"
| "delref_results (Suc k) n res s =
     bnd (bdd_delref (res n) s) (\<lambda>_ s. delref_results k (n + 1) res s)"

primrec delref_pairs :: "bddPair list \<Rightarrow> bdd_state \<Rightarrow> unit bm" where
  "delref_pairs [] s = ret () s"
| "delref_pairs (p # ps) s =
     bnd (delref_results (nat (bddvarnum s)) 0 (p_result p) s) (\<lambda>_ s. delref_pairs ps s)"

definition bdd_pairs_done :: "bdd_state \<Rightarrow> unit bm" where
  "bdd_pairs_done s =
     (if pairs_freed s \<and> pairs s \<noteq> [] then fail Trap s
      else bnd (delref_pairs (pairs s) s) (\<lambda>_ s. ret () (s\<lparr>pairs_freed := True\<rparr>)))"

primrec number_pairs :: "int \<Rightarrow> bddPair list \<Rightarrow> bddPair list" where
  "number_pairs i [] = []"
| "number_pairs i (p # ps) = p\<lparr>p_id := i\<rparr> # number_pairs (i + 1) ps"

definition update_pairsid :: "bdd_state \<Rightarrow> int bm" where
  "update_pairsid s0 = (let s = s0\<lparr>pairsid := pairsid s0 + 1\<rparr> in
     if pairsid s = INT_MAX div 4
     then let s = bdd_operator_reset (s\<lparr>pairs := number_pairs 0 (pairs s),
                                       pairsid := int (length (pairs s))\<rparr>)
          in ret (pairsid s) s
     else ret (pairsid s) s)"

definition bdd_register_pair :: "bddPair \<Rightarrow> bdd_state \<Rightarrow> bdd_state" where
  "bdd_register_pair p s = s\<lparr>pairs := p # pairs s\<rparr>"

definition vardown_pair :: "int \<Rightarrow> bddPair \<Rightarrow> bddPair" where
  "vardown_pair level p =
     p\<lparr>p_result := (p_result p)(level := p_result p (level + 1), level + 1 := p_result p level),
       p_last := (if p_last p = level then p_last p + 1 else p_last p)\<rparr>"

definition bdd_pairs_vardown :: "int \<Rightarrow> bdd_state \<Rightarrow> bdd_state" where
  "bdd_pairs_vardown level s = s\<lparr>pairs := map (vardown_pair level) (pairs s)\<rparr>"

text \<open>\<open>for (n=oldsize ; n<newsize ; n++) result[n] = bdd_ithvar(bddlevel2var[n])\<close>.\<close>

primrec identity_results :: "nat \<Rightarrow> int \<Rightarrow> (int \<Rightarrow> BDD) \<Rightarrow> bdd_state \<Rightarrow> (int \<Rightarrow> BDD) bm" where
  "identity_results 0 n res s = ret res s"
| "identity_results (Suc k) n res s =
     bnd (bdd_ithvar (bddlevel2var s n) s) (\<lambda>v s. identity_results k (n + 1) (res(n := v)) s)"

primrec resize_pairs :: "bddPair list \<Rightarrow> int \<Rightarrow> int \<Rightarrow> bdd_state \<Rightarrow> bddPair list bm" where
  "resize_pairs [] old new s = ret [] s"
| "resize_pairs (p # ps) old new s =
     bnd (identity_results (nat (new - old)) old (p_result p) s) (\<lambda>res s.
     bnd (resize_pairs ps old new s) (\<lambda>ps s. ret (p\<lparr>p_result := res\<rparr> # ps) s))"

definition bdd_pairs_resize :: "int \<Rightarrow> int \<Rightarrow> bdd_state \<Rightarrow> int bm" where
  "bdd_pairs_resize old new s =
     bnd (resize_pairs (pairs s) old new s) (\<lambda>ps s. ret 0 (s\<lparr>pairs := ps\<rparr>))"

definition bdd_newpair :: "bdd_state \<Rightarrow> nat bm" where
  "bdd_newpair s = (let a = next_addr s; s = s\<lparr>next_addr := a + 1\<rparr> in
     bnd (identity_results (nat (bddvarnum s)) 0 (\<lambda>_. 0) s) (\<lambda>res s.
     bnd (update_pairsid s) (\<lambda>i s.
     ret a (bdd_register_pair \<lparr>p_addr = a, p_result = res, p_last = -1, p_id = i\<rparr> s))))"

text \<open>A \<open>NULL\<close> pair is the argument \<open>None\<close>.\<close>

definition bdd_setpair :: "nat option \<Rightarrow> int \<Rightarrow> int \<Rightarrow> bdd_state \<Rightarrow> int bm" where
  "bdd_setpair pair oldvar newvar s = (case pair of
      None \<Rightarrow> ret 0 s
    | Some a \<Rightarrow>
        if oldvar < 0 \<or> oldvar > bddvarnum s - 1 then bdd_error BDD_VAR s
        else if newvar < 0 \<or> newvar > bddvarnum s - 1 then bdd_error BDD_VAR s
        else let l = bddvar2level s oldvar in
          with_pair a s (\<lambda>p.
          bnd (bdd_delref (p_result p l) s) (\<lambda>_ s.
          bnd (bdd_ithvar newvar s) (\<lambda>v s.
          let s = upd_pair a (\<lambda>p. p\<lparr>p_result := (p_result p)(l := v)\<rparr>) s in
          bnd (update_pairsid s) (\<lambda>i s.
          ret 0 (upd_pair a (\<lambda>p. p\<lparr>p_id := i, p_last := (if l > p_last p then l else p_last p)\<rparr>) s))))))"

definition bdd_setbddpair :: "nat option \<Rightarrow> int \<Rightarrow> BDD \<Rightarrow> bdd_state \<Rightarrow> int bm" where
  "bdd_setbddpair pair oldvar newvar s = (case pair of
      None \<Rightarrow> ret 0 s
    | Some a \<Rightarrow>
        CHECK newvar s (\<lambda>s.
        if oldvar < 0 \<or> oldvar \<ge> bddvarnum s then bdd_error BDD_VAR s
        else let oldlevel = bddvar2level s oldvar in
          with_pair a s (\<lambda>p.
          bnd (bdd_delref (p_result p oldlevel) s) (\<lambda>_ s.
          bnd (bdd_addref newvar s) (\<lambda>v s.
          let s = upd_pair a (\<lambda>p. p\<lparr>p_result := (p_result p)(oldlevel := v)\<rparr>) s in
          bnd (update_pairsid s) (\<lambda>i s.
          ret 0 (upd_pair a (\<lambda>p. p\<lparr>p_id := i,
                   p_last := (if oldlevel > p_last p then oldlevel else p_last p)\<rparr>) s)))))))"

fun setpairs_loop ::
    "(int \<Rightarrow> int \<Rightarrow> bdd_state \<Rightarrow> int bm) \<Rightarrow> (int \<times> int) list \<Rightarrow> bdd_state \<Rightarrow> int bm" where
  "setpairs_loop f [] s = ret 0 s"
| "setpairs_loop f ((x, y) # ps) s =
     bnd (f x y s) (\<lambda>e s. if e < 0 then ret e s else setpairs_loop f ps s)"

text \<open>The two arrays and their length are a list of pairs.\<close>

definition bdd_setpairs :: "nat option \<Rightarrow> (int \<times> int) list \<Rightarrow> bdd_state \<Rightarrow> int bm" where
  "bdd_setpairs pair ps s =
     (if pair = None then ret 0 s else setpairs_loop (bdd_setpair pair) ps s)"

definition bdd_setbddpairs :: "nat option \<Rightarrow> (int \<times> BDD) list \<Rightarrow> bdd_state \<Rightarrow> int bm" where
  "bdd_setbddpairs pair ps s =
     (if pair = None then ret 0 s else setpairs_loop (bdd_setbddpair pair) ps s)"

definition bdd_freepair :: "nat option \<Rightarrow> bdd_state \<Rightarrow> unit bm" where
  "bdd_freepair pair s = (case pair of
      None \<Rightarrow> ret () s
    | Some a \<Rightarrow>
        with_pair a s (\<lambda>p.
          let s = s\<lparr>pairs := filter (\<lambda>q. p_addr q \<noteq> a) (pairs s)\<rparr> in
          delref_results (nat (bddvarnum s)) 0 (p_result p) s))"

text \<open>\<open>for (n=0 ; n<bddvarnum ; n++) result[n] = bdd_ithvar(n)\<close>.\<close>

primrec ithvar_results :: "nat \<Rightarrow> int \<Rightarrow> (int \<Rightarrow> BDD) \<Rightarrow> bdd_state \<Rightarrow> (int \<Rightarrow> BDD) bm" where
  "ithvar_results 0 n res s = ret res s"
| "ithvar_results (Suc k) n res s =
     bnd (bdd_ithvar n s) (\<lambda>v s. ithvar_results k (n + 1) (res(n := v)) s)"

definition bdd_resetpair :: "nat \<Rightarrow> bdd_state \<Rightarrow> unit bm" where
  "bdd_resetpair a s =
     with_pair a s (\<lambda>p.
     bnd (ithvar_results (nat (bddvarnum s)) 0 (p_result p) s) (\<lambda>res s.
     let s = upd_pair a (\<lambda>p. p\<lparr>p_result := res, p_last := 0\<rparr>) s in
     bnd (update_pairsid s) (\<lambda>i s. ret () (upd_pair a (\<lambda>p. p\<lparr>p_id := i\<rparr>) s))))"

end
