(* ===== verification/Tree.thy ===== *)
theory Tree
  imports Macros
begin

text \<open>
  Model of \<^verbatim>\<open>src/imatrix.c\<close>: the interaction matrix of reordering, a bit matrix
  with one row of bytes per variable. The rows are bit patterns of unsigned bytes; the function that prints
  the matrix is left out.
\<close>

unbundle bit_operations_syntax

definition imatrixNew :: "int \<Rightarrow> imatrix" where
  "imatrixNew n = \<lparr>im_rows = (\<lambda>_ _. 0), im_size = n\<rparr>"

definition im_bit :: "int \<Rightarrow> int" where
  "im_bit b = push_bit (nat (b mod 8)) 1"

definition im_update :: "int \<Rightarrow> int \<Rightarrow> int \<Rightarrow> imatrix \<Rightarrow> imatrix" where
  "im_update a i x mtx = mtx\<lparr>im_rows := (im_rows mtx)(a := (im_rows mtx a)(i := x))\<rparr>"

definition imatrixSet :: "int \<Rightarrow> int \<Rightarrow> imatrix \<Rightarrow> imatrix" where
  "imatrixSet a b mtx = im_update a (b div 8) (im_rows mtx a (b div 8) OR im_bit b) mtx"

definition imatrixClr :: "int \<Rightarrow> int \<Rightarrow> imatrix \<Rightarrow> imatrix" where
  "imatrixClr a b mtx = im_update a (b div 8) (im_rows mtx a (b div 8) AND NOT (im_bit b)) mtx"

definition imatrixDepends :: "imatrix \<Rightarrow> int \<Rightarrow> int \<Rightarrow> bool" where
  "imatrixDepends mtx a b = (im_rows mtx a (b div 8) AND im_bit b \<noteq> 0)"

section \<open>The matrix as a relation\<close>

lemma bit_im_bit: "bit (im_bit b) n = (n = nat (b mod 8))"
  by (simp add: im_bit_def bit_simps)

lemma and_bit: "(x AND im_bit b \<noteq> 0) = bit x (nat (b mod 8))"
  proof -
  have "(x AND im_bit b = 0) = (\<forall>n. \<not> (bit x n \<and> n = nat (b mod 8)))"
    by (subst bit_eq_iff) (simp add: bit_and_iff bit_im_bit)
  then show ?thesis by blast
qed

lemma imatrixDepends_bit: "imatrixDepends mtx a b = bit (im_rows mtx a (b div 8)) (nat (b mod 8))"
  by (simp add: imatrixDepends_def and_bit)

lemma bit_place: "b div 8 = d div 8 \<Longrightarrow> nat (b mod 8) = nat (d mod 8) \<Longrightarrow> b = (d :: int)"
  by (metis eq_nat_nat_iff mod_mult_div_eq pos_mod_sign zero_less_numeral)

lemma depends_new [simp]: "\<not> imatrixDepends (imatrixNew n) a b"
  by (simp add: imatrixDepends_def imatrixNew_def)

lemma depends_set: "imatrixDepends (imatrixSet a b mtx) c d = (c = a \<and> d = b \<or> imatrixDepends mtx c d)"
proof (cases "c = a \<and> d div 8 = b div 8")
  case True
  then have "nat (d mod 8) = nat (b mod 8) \<longleftrightarrow> d = b" using bit_place [of d b] by auto
  then show ?thesis
    using True
    by (auto simp: imatrixDepends_bit imatrixSet_def im_update_def bit_or_iff bit_im_bit)
next
  case False
  then show ?thesis by (auto simp: imatrixDepends_bit imatrixSet_def im_update_def)
qed

lemma depends_clr: "imatrixDepends (imatrixClr a b mtx) c d = (\<not> (c = a \<and> d = b) \<and> imatrixDepends mtx c d)"
proof (cases "c = a \<and> d div 8 = b div 8")
  case True
  then have "nat (d mod 8) = nat (b mod 8) \<longleftrightarrow> d = b" using bit_place [of d b] by auto
  then show ?thesis
    using True
    by (auto simp: imatrixDepends_bit imatrixClr_def im_update_def bit_and_iff bit_not_iff bit_im_bit)
next
  case False
  then show ?thesis by (auto simp: imatrixDepends_bit imatrixClr_def im_update_def)
qed

section \<open>The tree of variable blocks\<close>

text \<open>
  Model of \<^verbatim>\<open>src/tree.c\<close>: the tree of variable blocks. A block is an entry of the
  store \<open>tree_nodes\<close>, known by its address; 0 is the null pointer. Recursions over the
  pointers have the number of addresses in use as fuel. The function that prints the tree is left out.
\<close>

definition tnode :: "bdd_state \<Rightarrow> nat \<Rightarrow> BddTree" where
  "tnode s t = tree_nodes (reo s) t"

definition upd_reo :: "(reorder_globals \<Rightarrow> reorder_globals) \<Rightarrow> bdd_state \<Rightarrow> bdd_state" where
  "upd_reo f s = s\<lparr>reo := f (reo s)\<rparr>"

definition upd_tree :: "nat \<Rightarrow> (BddTree \<Rightarrow> BddTree) \<Rightarrow> bdd_state \<Rightarrow> bdd_state" where
  "upd_tree t f = upd_reo (\<lambda>r. r\<lparr>tree_nodes := (tree_nodes r)(t := f (tree_nodes r t))\<rparr>)"

definition tree_fuel :: "bdd_state \<Rightarrow> nat" where
  "tree_fuel s = tree_next (reo s) + 1"

text \<open>\<open>low\<close> is the variable of \<open>first..last\<close> on the highest level.\<close>

primrec lowest_var :: "nat \<Rightarrow> int \<Rightarrow> int \<Rightarrow> bdd_state \<Rightarrow> int" where
  "lowest_var 0 n low s = low"
| "lowest_var (Suc k) n low s =
     lowest_var k (n + 1) (if bddvar2level s n < bddvar2level s low then n else low) s"

text \<open>A write outside the array \<open>seq\<close> is undefined behaviour.\<close>

primrec fill_seq :: "nat \<Rightarrow> int \<Rightarrow> int \<Rightarrow> int list \<Rightarrow> bdd_state \<Rightarrow> int list bm" where
  "fill_seq 0 n low seq s = ret seq s"
| "fill_seq (Suc k) n low seq s =
     (let i = bddvar2level s n - bddvar2level s low in
      if i < 0 \<or> i \<ge> int (length seq) then fail Trap s
      else fill_seq k (n + 1) low (seq[nat i := n]) s)"

definition update_seq :: "nat \<Rightarrow> bdd_state \<Rightarrow> unit bm" where
  "update_seq t s = (let
     first = t_first (tnode s t); num = nat (t_last (tnode s t) - first + 1);
     low = lowest_var num first first s
   in bnd (fill_seq num first low (t_seq (tnode s t)) s) (\<lambda>seq s.
      ret () (upd_tree t (\<lambda>d. d\<lparr>t_seq := seq\<rparr>) s)))"

definition bddtree_new :: "int \<Rightarrow> bdd_state \<Rightarrow> nat bm" where
  "bddtree_new ident s = (let t = tree_next (reo s) in
     ret t (upd_reo (\<lambda>r. r\<lparr>tree_next := t + 1, tree_nodes := (tree_nodes r)(t :=
       \<lparr>t_first = -1, t_last = -1, t_pos = t_pos (tree_nodes r t), t_seq = [], t_fixed = 1, t_id = ident,
        t_next = 0, t_prev = 0, t_nextlevel = 0\<rparr>)\<rparr>) s))"

text \<open>Releasing the blocks changes nothing that is read again; what the walk visits is the model.\<close>

primrec bddtree_del :: "nat \<Rightarrow> nat \<Rightarrow> bdd_state \<Rightarrow> unit bm" where
  "bddtree_del 0 t s = fail Nofuel s"
| "bddtree_del (Suc k) t s =
     (if t = 0 then ret () s
      else bnd (bddtree_del k (t_nextlevel (tnode s t)) s) (\<lambda>_ s. bddtree_del k (t_next (tnode s t)) s))"

text \<open>A new block with its range, its sequence still to be filled.\<close>

definition new_block :: "int \<Rightarrow> int \<Rightarrow> int \<Rightarrow> int \<Rightarrow> bdd_state \<Rightarrow> nat bm" where
  "new_block first lastv fixed ident s =
     bnd (bddtree_new ident s) (\<lambda>t s.
     let s = upd_tree t (\<lambda>d. d\<lparr>t_first := first, t_last := lastv, t_fixed := fixed,
               t_seq := replicate (nat (lastv - first + 1)) 0\<rparr>) s
     in bnd (update_seq t s) (\<lambda>_ s. ret t s))"

text \<open>The loop that looks for the last block covered by the new one.\<close>

primrec cover_loop :: "nat \<Rightarrow> nat \<Rightarrow> nat \<Rightarrow> int \<Rightarrow> int \<Rightarrow> int \<Rightarrow> int \<Rightarrow> bdd_state \<Rightarrow> nat bm" where
  "cover_loop 0 this t first lastv fixed ident s = fail Nofuel s"
| "cover_loop (Suc k) this t first lastv fixed ident s =
     (if lastv \<ge> t_first (tnode s this) \<and> lastv < t_last (tnode s this) then ret 0 s
      else if t_next (tnode s this) = 0 \<or> lastv < t_first (tnode s (t_next (tnode s this)))
      then bnd (new_block first lastv fixed ident s) (\<lambda>tnew s. let
          next = t_next (tnode s this);
          s = upd_tree tnew (\<lambda>d. d\<lparr>t_nextlevel := t, t_next := next, t_prev := t_prev (tnode s t)\<rparr>) s;
          s = (if next \<noteq> 0 then upd_tree next (\<lambda>d. d\<lparr>t_prev := tnew\<rparr>) s else s);
          s = upd_tree this (\<lambda>d. d\<lparr>t_next := 0\<rparr>) s;
          s = upd_tree t (\<lambda>d. d\<lparr>t_prev := 0\<rparr>) s
        in ret tnew s)
      else cover_loop k (t_next (tnode s this)) t first lastv fixed ident s)"

primrec bddtree_addrange_rec ::
    "nat \<Rightarrow> nat \<Rightarrow> nat \<Rightarrow> int \<Rightarrow> int \<Rightarrow> int \<Rightarrow> int \<Rightarrow> bdd_state \<Rightarrow> nat bm" where
  "bddtree_addrange_rec 0 t prev first lastv fixed ident s = fail Nofuel s"
| "bddtree_addrange_rec (Suc k) t prev first lastv fixed ident s =
     (if first < 0 \<or> lastv < 0 \<or> lastv < first then ret 0 s
      else if t = 0 then
        bnd (new_block first lastv fixed ident s) (\<lambda>t s. ret t (upd_tree t (\<lambda>d. d\<lparr>t_prev := prev\<rparr>) s))
      else if first = t_first (tnode s t) \<and> lastv = t_last (tnode s t) then ret t s
      else if lastv < t_first (tnode s t) then
        bnd (new_block first lastv fixed ident s) (\<lambda>tnew s. let
          s = upd_tree tnew (\<lambda>d. d\<lparr>t_next := t, t_prev := t_prev (tnode s t)\<rparr>) s;
          s = upd_tree t (\<lambda>d. d\<lparr>t_prev := tnew\<rparr>) s
        in ret tnew s)
      else if first > t_last (tnode s t) then
        bnd (bddtree_addrange_rec k (t_next (tnode s t)) t first lastv fixed ident s) (\<lambda>r s.
        ret t (upd_tree t (\<lambda>d. d\<lparr>t_next := r\<rparr>) s))
      else if first \<ge> t_first (tnode s t) \<and> lastv \<le> t_last (tnode s t) then
        bnd (bddtree_addrange_rec k (t_nextlevel (tnode s t)) 0 first lastv fixed ident s) (\<lambda>r s.
        ret t (upd_tree t (\<lambda>d. d\<lparr>t_nextlevel := r\<rparr>) s))
      else if first \<le> t_first (tnode s t) then
        cover_loop (tree_fuel s) t t first lastv fixed ident s
      else ret 0 s)"

definition bddtree_addrange :: "nat \<Rightarrow> int \<Rightarrow> int \<Rightarrow> int \<Rightarrow> int \<Rightarrow> bdd_state \<Rightarrow> nat bm" where
  "bddtree_addrange t first lastv fixed ident s =
     bddtree_addrange_rec (tree_fuel s) t 0 first lastv fixed ident s"

end
