(* ===== verification/Reorder.thy ===== *)
theory Reorder
  imports Pairs Tree
begin

text \<open>
  Model of the core of \<^verbatim>\<open>src/reorder.c\<close>: the change to and from the reordering
  mode of the node table, and the exchange of two adjacent variables.

  In the reordering mode the field \<open>level\<close> of a node holds its variable, reference counts include
  the references from other nodes, and each variable has its own part of the array of hash buckets.
  The code between \<open>#ifdef USERESIZE\<close> is not compiled (the macro defined is
  \<open>__USERESIZE\<close>) and is left out. Loops over indices are recursions on the number of rounds left;
  walks along hash chains and over the diagram have the fuel \<open>mark_fuel\<close>.
\<close>

section \<open>Accessors\<close>

definition VAR :: "bdd_state \<Rightarrow> BDD \<Rightarrow> int" where "VAR s n = n_level (bddnodes s n)"

definition lvl :: "bdd_state \<Rightarrow> int \<Rightarrow> levelData" where "lvl s v = rlevels (reo s) v"

definition upd_lvl :: "int \<Rightarrow> (levelData \<Rightarrow> levelData) \<Rightarrow> bdd_state \<Rightarrow> bdd_state" where
  "upd_lvl v f = upd_reo (\<lambda>r. r\<lparr>rlevels := (rlevels r)(v := f (rlevels r v))\<rparr>)"

definition add_nodenum :: "int \<Rightarrow> int \<Rightarrow> bdd_state \<Rightarrow> bdd_state" where
  "add_nodenum v k = upd_lvl v (\<lambda>l. l\<lparr>lv_nodenum := lv_nodenum l + k\<rparr>)"

definition RHASH :: "bdd_state \<Rightarrow> int \<Rightarrow> int \<Rightarrow> int \<Rightarrow> int" where
  "RHASH s v l h = u32 (PAIR l h mod u32 (lv_size (lvl s v)) + u32 (lv_start (lvl s v)))"

text \<open>The hash is undefined when the part of the variable is empty.\<close>

definition rhash :: "int \<Rightarrow> int \<Rightarrow> int \<Rightarrow> bdd_state \<Rightarrow> int bm" where
  "rhash v l h s = (if lv_size (lvl s v) = 0 then fail Trap s else ret (RHASH s v l h) s)"

definition set_hash :: "int \<Rightarrow> int \<Rightarrow> bdd_state \<Rightarrow> bdd_state" where
  "set_hash n x = upd_node (\<lambda>d. d\<lparr>n_hash := x\<rparr>) n"

definition set_next :: "int \<Rightarrow> int \<Rightarrow> bdd_state \<Rightarrow> bdd_state" where
  "set_next n x = upd_node (\<lambda>d. d\<lparr>n_next := x\<rparr>) n"

section \<open>Entering the reordering mode\<close>

text \<open>The variable dependencies found so far are the set \<open>dep\<close> as a bit array.\<close>

primrec addref_rec :: "nat \<Rightarrow> BDD \<Rightarrow> (int \<Rightarrow> bool) \<Rightarrow> bdd_state \<Rightarrow> (int \<Rightarrow> bool) bm" where
  "addref_rec 0 r dep s = fail Nofuel s"
| "addref_rec (Suc k) r dep s =
     (if r < 2 then ret dep s
      else bnd (if n_refcou (bddnodes s r) = 0 then let
            s = s\<lparr>bddfreenum := bddfreenum s - 1\<rparr>;
            dep = dep(VAR s r := True);
            s = add_nodenum (VAR s r) 1 s
          in bnd (addref_rec k (LOW s r) dep s) (\<lambda>dep s. addref_rec k (HIGH s r) dep s)
        else ret (\<lambda>n. dep n \<or> 0 \<le> n \<and> n < bddvarnum s \<and> imatrixDepends (iactmtx (reo s)) (VAR s r) n) s)
        (\<lambda>dep s. ret dep (INCREF r s)))"

definition set_dep :: "(int \<Rightarrow> bool) \<Rightarrow> int \<Rightarrow> int \<Rightarrow> imatrix \<Rightarrow> imatrix" where
  "set_dep dep n m mtx = (if dep n \<and> dep m then imatrixSet m n (imatrixSet n m mtx) else mtx)"

primrec deps_row :: "nat \<Rightarrow> int \<Rightarrow> int \<Rightarrow> (int \<Rightarrow> bool) \<Rightarrow> imatrix \<Rightarrow> imatrix" where
  "deps_row 0 n m dep mtx = mtx"
| "deps_row (Suc k) n m dep mtx = deps_row k n (m + 1) dep (set_dep dep n m mtx)"

primrec deps_loop :: "nat \<Rightarrow> int \<Rightarrow> int \<Rightarrow> (int \<Rightarrow> bool) \<Rightarrow> imatrix \<Rightarrow> imatrix" where
  "deps_loop 0 n num dep mtx = mtx"
| "deps_loop (Suc k) n num dep mtx =
     deps_loop k (n + 1) num dep (deps_row (nat (num - n)) n n dep mtx)"

definition addDependencies :: "(int \<Rightarrow> bool) \<Rightarrow> bdd_state \<Rightarrow> bdd_state" where
  "addDependencies dep s =
     upd_reo (\<lambda>r. r\<lparr>iactmtx := deps_loop (nat (bddvarnum s)) 0 (bddvarnum s) dep (iactmtx r)\<rparr>) s"

text \<open>From levels to variables; the nodes with references are marked.\<close>

primrec mark_vars :: "nat \<Rightarrow> int \<Rightarrow> bdd_state \<Rightarrow> bdd_state" where
  "mark_vars 0 n s = s"
| "mark_vars (Suc k) n s = (let
     s = upd_node (\<lambda>d. d\<lparr>n_level := bddlevel2var s (n_level d)\<rparr>) n s
   in mark_vars k (n + 1) (if 0 < n_refcou (bddnodes s n) then SETMARK n s else s))"

primrec mark_deps :: "nat \<Rightarrow> int \<Rightarrow> bdd_state \<Rightarrow> unit bm" where
  "mark_deps 0 n s = ret () s"
| "mark_deps (Suc k) n s =
     bnd (if MARKED s n then let
          s = UNMARK n s;
          s = upd_reo (\<lambda>r. r\<lparr>extroots := extroots r @ [n]\<rparr>) s;
          dep = (\<lambda>v. v = VAR s n);
          s = add_nodenum (VAR s n) 1 s
        in bnd (addref_rec (mark_fuel s) (LOW s n) dep s) (\<lambda>dep s.
           bnd (addref_rec (mark_fuel s) (HIGH s n) dep s) (\<lambda>dep s.
           ret () (addDependencies dep s)))
        else ret () s) (\<lambda>_ s. mark_deps k (n + 1) (set_hash n 0 s))"

definition mark_roots :: "bdd_state \<Rightarrow> int bm" where
  "mark_roots s = (let
     num = nat (bddnodesize s - 2);
     s = mark_vars num 2 s;
     s = upd_reo (\<lambda>r. r\<lparr>extroots := [], iactmtx := imatrixNew (bddvarnum s)\<rparr>) s
   in bnd (mark_deps num 2 s) (\<lambda>_ s. ret 0 (set_hash 1 0 (set_hash 0 0 s))))"

definition insert_node :: "int \<Rightarrow> bdd_state \<Rightarrow> unit bm" where
  "insert_node n s =
     bnd (rhash (VAR s n) (LOW s n) (HIGH s n) s) (\<lambda>h s. ret () (link_node n h s))"

primrec gbc_loop :: "nat \<Rightarrow> bdd_state \<Rightarrow> unit bm" where
  "gbc_loop 0 s = ret () s"
| "gbc_loop (Suc k) s = (let n = int k + 2 in
     bnd (if 0 < n_refcou (bddnodes s n) then insert_node n s
          else ret () (push_free n (upd_node (\<lambda>d. d\<lparr>n_low := -1\<rparr>) n s)))
       (\<lambda>_ s. gbc_loop k s))"

definition reorder_gbc :: "bdd_state \<Rightarrow> unit bm" where
  "reorder_gbc s = gbc_loop (nat (bddnodesize s - 2)) (s\<lparr>bddfreepos := 0, bddfreenum := 0\<rparr>)"

primrec lookup_loop :: "nat \<Rightarrow> int \<Rightarrow> bdd_state \<Rightarrow> unit bm" where
  "lookup_loop 0 n s = ret () s"
| "lookup_loop (Suc k) n s = (let
     m = bddnodesize s div bddvarnum s;
     s = upd_lvl n (\<lambda>l. l\<lparr>lv_maxsize := m, lv_start := n * m, lv_size := m\<rparr>) s
   in bnd (if m \<ge> 4 then bnd (prime_lte_st m s) (\<lambda>p s. ret () (upd_lvl n (\<lambda>l. l\<lparr>lv_size := p\<rparr>) s)) else ret () s)
        (\<lambda>_ s. lookup_loop k (n + 1) s))"

definition reorder_setLevellookup :: "bdd_state \<Rightarrow> unit bm" where
  "reorder_setLevellookup s = lookup_loop (nat (bddvarnum s)) 0 s"

primrec clear_hashes :: "nat \<Rightarrow> bdd_state \<Rightarrow> bdd_state" where
  "clear_hashes 0 s = s"
| "clear_hashes (Suc k) s = clear_hashes k (set_hash (int k) 0 s)"

primrec rehashAll_loop :: "nat \<Rightarrow> bdd_state \<Rightarrow> unit bm" where
  "rehashAll_loop 0 s = ret () s"
| "rehashAll_loop (Suc k) s = (let n = int k + 2 in
     bnd (if 0 < n_refcou (bddnodes s n) then insert_node n s
          else ret () ((set_next n (bddfreepos s) s)\<lparr>bddfreepos := n\<rparr>))
       (\<lambda>_ s. rehashAll_loop k s))"

definition reorder_rehashAll :: "bdd_state \<Rightarrow> unit bm" where
  "reorder_rehashAll s =
     bnd (reorder_setLevellookup s) (\<lambda>_ s. let
       s = s\<lparr>bddfreepos := 0\<rparr>;
       s = clear_hashes (nat (bddnodesize s)) s
     in rehashAll_loop (nat (bddnodesize s - 2)) s)"

section \<open>Node creation\<close>

primrec find_child :: "nat \<Rightarrow> BDD \<Rightarrow> BDD \<Rightarrow> BDD \<Rightarrow> bdd_state \<Rightarrow> BDD bm" where
  "find_child 0 res lo hi s = fail Nofuel s"
| "find_child (Suc k) res lo hi s =
     (if res = 0 then ret 0 s
      else if LOW s res = lo \<and> HIGH s res = hi then ret res s
      else find_child k (n_next (bddnodes s res)) lo hi s)"

definition reorder_build :: "int \<Rightarrow> int \<Rightarrow> BDD \<Rightarrow> BDD \<Rightarrow> bdd_state \<Rightarrow> BDD bm" where
  "reorder_build h var lo hi s = (let
     res = bddfreepos s;
     s = s\<lparr>bddfreepos := n_next (bddnodes s res)\<rparr>;
     s = add_nodenum var 1 s;
     s = s\<lparr>bddproduced := bddproduced s + 1, bddfreenum := bddfreenum s - 1\<rparr>;
     s = upd_node (\<lambda>d. d\<lparr>n_level := var, n_low := lo, n_high := hi\<rparr>) res s;
     s = link_node res h s;
     s = upd_node (\<lambda>d. d\<lparr>n_refcou := 1\<rparr>) res s;
     s = INCREF lo s;
     s = INCREF hi s
   in ret res s)"

definition reorder_makenode :: "int \<Rightarrow> BDD \<Rightarrow> BDD \<Rightarrow> bdd_state \<Rightarrow> BDD bm" where
  "reorder_makenode var lo hi s =
     (if lo = hi then ret lo (INCREF lo s)
      else bnd (rhash var lo hi s) (\<lambda>h s.
        bnd (find_child (mark_fuel s) (n_hash (bddnodes s h)) lo hi s) (\<lambda>res s.
        if res \<noteq> 0 then ret res (INCREF res s)
        else if bddfreepos s = 0 then
          if bdderrorcond s \<noteq> 0 then ret 0 s
          else bnd (bdd_noderesize False s) (\<lambda>_ s.
            let s = upd_reo (\<lambda>r. r\<lparr>resizedInMakenode := True\<rparr>) s in
            if bddfreepos s = 0
            then bnd (bdd_error BDD_NODENUM s) (\<lambda>_ s. ret 0 (s\<lparr>bdderrorcond := abs BDD_NODENUM\<rparr>))
            else reorder_build h var lo hi s)
        else reorder_build h var lo hi s)))"

section \<open>Exchanging two adjacent variables\<close>

text \<open>
  One chain of \<open>reorder_downSimple\<close>: a node without a child at \<open>var1\<close> goes back to the bucket \<open>b\<close>,
  the others are collected in the list that starts at \<open>todo\<close>.
\<close>

primrec down_chain :: "nat \<Rightarrow> BDD \<Rightarrow> BDD \<Rightarrow> int \<Rightarrow> int \<Rightarrow> int \<Rightarrow> bdd_state \<Rightarrow> BDD bm" where
  "down_chain 0 r todo b var0 var1 s = fail Nofuel s"
| "down_chain (Suc k) r todo b var0 var1 s =
     (if r = 0 then ret todo s
      else let next = n_next (bddnodes s r) in
        if VAR s (LOW s r) \<noteq> var1 \<and> VAR s (HIGH s r) \<noteq> var1
        then down_chain k next todo b var0 var1 (add_nodenum var0 1 (link_node r b s))
        else down_chain k next r b var0 var1 (set_next r todo s))"

primrec down_buckets :: "nat \<Rightarrow> int \<Rightarrow> BDD \<Rightarrow> int \<Rightarrow> int \<Rightarrow> bdd_state \<Rightarrow> BDD bm" where
  "down_buckets 0 b todo var0 var1 s = ret todo s"
| "down_buckets (Suc k) b todo var0 var1 s =
     bnd (down_chain (mark_fuel s) (n_hash (bddnodes s b)) todo b var0 var1 (set_hash b 0 s)) (\<lambda>todo s.
     down_buckets k (b + 1) todo var0 var1 s)"

definition next_var :: "bdd_state \<Rightarrow> int \<Rightarrow> int" where
  "next_var s var0 = bddlevel2var s (bddvar2level s var0 + 1)"

definition reorder_downSimple :: "int \<Rightarrow> bdd_state \<Rightarrow> BDD bm" where
  "reorder_downSimple var0 s =
     down_buckets (nat (lv_size (lvl s var0))) (lv_start (lvl s var0)) 0 var0 (next_var s var0)
       (upd_lvl var0 (\<lambda>l. l\<lparr>lv_nodenum := 0\<rparr>) s)"

definition swap_node :: "BDD \<Rightarrow> int \<Rightarrow> int \<Rightarrow> bdd_state \<Rightarrow> unit bm" where
  "swap_node n var0 var1 s = (let
     f0 = LOW s n; f1 = HIGH s n;
     (f00, f01) = (if VAR s f0 = var1 then (LOW s f0, HIGH s f0) else (f0, f0));
     (f10, f11) = (if VAR s f1 = var1 then (LOW s f1, HIGH s f1) else (f1, f1))
   in bnd (reorder_makenode var0 f00 f10 s) (\<lambda>f0 s.
      bnd (reorder_makenode var0 f01 f11 s) (\<lambda>f1 s. let
        s = DECREF (LOW s n) s;
        s = DECREF (HIGH s n) s;
        s = upd_node (\<lambda>d. d\<lparr>n_level := var1, n_low := f0, n_high := f1\<rparr>) n s;
        s = add_nodenum var1 1 s
      in insert_node n s)))"

primrec reorder_swap :: "nat \<Rightarrow> BDD \<Rightarrow> int \<Rightarrow> int \<Rightarrow> bdd_state \<Rightarrow> unit bm" where
  "reorder_swap 0 todo var0 var1 s = fail Nofuel s"
| "reorder_swap (Suc k) todo var0 var1 s =
     (if todo = 0 then ret () s
      else let next = n_next (bddnodes s todo) in
        bnd (swap_node todo var0 var1 s) (\<lambda>_ s. reorder_swap k next var0 var1 s))"

text \<open>A dead node of \<open>reorder_localGbc\<close>.\<close>

definition local_free :: "BDD \<Rightarrow> int \<Rightarrow> bdd_state \<Rightarrow> bdd_state" where
  "local_free r var1 s = (let
     s = DECREF (LOW s r) s;
     s = DECREF (HIGH s r) s;
     s = upd_node (\<lambda>d. d\<lparr>n_low := -1, n_next := bddfreepos s\<rparr>) r s;
     s = add_nodenum var1 (-1) (s\<lparr>bddfreepos := r\<rparr>)
   in s\<lparr>bddfreenum := bddfreenum s + 1\<rparr>)"

primrec local_chain :: "nat \<Rightarrow> BDD \<Rightarrow> int \<Rightarrow> int \<Rightarrow> bdd_state \<Rightarrow> unit bm" where
  "local_chain 0 r b var1 s = fail Nofuel s"
| "local_chain (Suc k) r b var1 s =
     (if r = 0 then ret () s
      else let next = n_next (bddnodes s r) in
        local_chain k next b var1
          (if 0 < n_refcou (bddnodes s r) then link_node r b s else local_free r var1 s))"

primrec local_buckets :: "nat \<Rightarrow> int \<Rightarrow> int \<Rightarrow> bdd_state \<Rightarrow> unit bm" where
  "local_buckets 0 b var1 s = ret () s"
| "local_buckets (Suc k) b var1 s =
     bnd (local_chain (mark_fuel s) (n_hash (bddnodes s b)) b var1 (set_hash b 0 s)) (\<lambda>_ s.
     local_buckets k (b + 1) var1 s)"

definition reorder_localGbc :: "int \<Rightarrow> bdd_state \<Rightarrow> unit bm" where
  "reorder_localGbc var0 s = (let v1 = next_var s var0 in
     local_buckets (nat (lv_size (lvl s v1))) (lv_start (lvl s v1)) v1 s)"

definition swap_tables :: "int \<Rightarrow> int \<Rightarrow> bdd_state \<Rightarrow> bdd_state" where
  "swap_tables var level s = (let
     n = bddlevel2var s level;
     s = s\<lparr>bddlevel2var := (bddlevel2var s)(level := bddlevel2var s (level + 1))\<rparr>;
     s = s\<lparr>bddlevel2var := (bddlevel2var s)(level + 1 := n)\<rparr>;
     n = bddvar2level s var;
     s = s\<lparr>bddvar2level := (bddvar2level s)(var := bddvar2level s (bddlevel2var s level))\<rparr>
   in s\<lparr>bddvar2level := (bddvar2level s)(bddlevel2var s level := n)\<rparr>)"

definition reorder_vardown :: "int \<Rightarrow> bdd_state \<Rightarrow> int bm" where
  "reorder_vardown var s =
     (if var < 0 \<or> var \<ge> bddvarnum s then bdd_error BDD_VAR s
      else let level = bddvar2level s var in
        if level \<ge> bddvarnum s - 1 then ret 0 s
        else let s = upd_reo (\<lambda>r. r\<lparr>resizedInMakenode := False\<rparr>) s in
          bnd (if imatrixDepends (iactmtx (reo s)) var (bddlevel2var s (level + 1))
               then bnd (reorder_downSimple var s) (\<lambda>todo s.
                    bnd (reorder_swap (mark_fuel s) todo var (next_var s var) s) (\<lambda>_ s.
                    reorder_localGbc var s))
               else ret () s) (\<lambda>_ s.
          let s = bdd_pairs_vardown level (swap_tables var level s) in
          if resizedInMakenode (reo s)
          then bnd (reorder_rehashAll s) (\<lambda>_ s. ret 0 s)
          else ret 0 s))"

definition reorder_varup :: "int \<Rightarrow> bdd_state \<Rightarrow> int bm" where
  "reorder_varup var s =
     (if var < 0 \<or> var \<ge> bddvarnum s then bdd_error BDD_VAR s
      else if bddvar2level s var = 0 then ret 0 s
      else reorder_vardown (bddlevel2var s (bddvar2level s var - 1)) s)"

section \<open>Start and end\<close>

primrec init_levels :: "nat \<Rightarrow> int \<Rightarrow> bdd_state \<Rightarrow> bdd_state" where
  "init_levels 0 n s = s"
| "init_levels (Suc k) n s =
     init_levels k (n + 1) (upd_lvl n (\<lambda>l. l\<lparr>lv_start := -1, lv_size := 0, lv_nodenum := 0\<rparr>) s)"

definition reorder_init :: "bdd_state \<Rightarrow> int bm" where
  "reorder_init s = (let s = init_levels (nat (bddvarnum s)) 0 s in
     bnd (mark_roots s) (\<lambda>e s.
     if e < 0 then ret (-1) s
     else bnd (reorder_setLevellookup s) (\<lambda>_ s.
          bnd (reorder_gbc s) (\<lambda>_ s. ret 0 s))))"

primrec mark_list :: "int list \<Rightarrow> bdd_state \<Rightarrow> bdd_state" where
  "mark_list [] s = s"
| "mark_list (n # ns) s = mark_list ns (SETMARK n s)"

primrec done_loop :: "nat \<Rightarrow> int \<Rightarrow> bdd_state \<Rightarrow> bdd_state" where
  "done_loop 0 n s = s"
| "done_loop (Suc k) n s = (let
     s = (if MARKED s n then UNMARK n s else upd_node (\<lambda>d. d\<lparr>n_refcou := 0\<rparr>) n s);
     s = upd_node (\<lambda>d. d\<lparr>n_level := bddvar2level s (n_level d)\<rparr>) n s
   in done_loop k (n + 1) s)"

definition reorder_done :: "bdd_state \<Rightarrow> unit bm" where
  "reorder_done s = (let
     s = mark_list (extroots (reo s)) s;
     s = done_loop (nat (bddnodesize s - 2)) 2 s
   in bdd_gbc s)"

end
