(* ===== verification/ReorderOps.thy ===== *)
theory ReorderOps
  imports Reorder
begin

text \<open>
  Model of the rest of \<^verbatim>\<open>src/reorder.c\<close>: the exchange of blocks, the heuristics
  (windows of size 2 and 3, sifting, random), and the user interface. Printed output, the calls of the size function
  that only feed it, and the clock are left out, as are the functions that print the order.

  Loops that move blocks have fuel: a window or a sifting pass makes at most as many moves as there
  are blocks, a block exchange at most one move per pair of variables; the loops \<open>until nothing is
  gained\<close> have the number of table entries. A pointer \<open>this->prev\<close> of a null pointer is a trap.
\<close>

section \<open>Size of the table\<close>

text \<open>The size function is \<open>bdd_getnodenum\<close> or the user's, whose results are a stream.\<close>

definition nodenum :: "bdd_state \<Rightarrow> int bm" where
  "nodenum s = (case reorder_nodenum (reo s) of
      None \<Rightarrow> ret (bdd_getnodenum s) s
    | Some h \<Rightarrow> ret (probe (reo s) (probepos (reo s))) (upd_reo (\<lambda>r. r\<lparr>probepos := probepos r + 1\<rparr>) s))"

section \<open>Exchanging adjacent blocks\<close>

definition seq_level :: "bdd_state \<Rightarrow> int list \<Rightarrow> nat \<Rightarrow> int" where
  "seq_level s q n = bddvar2level s (q ! n)"

primrec left_round :: "nat \<Rightarrow> nat \<Rightarrow> int list \<Rightarrow> int \<Rightarrow> bdd_state \<Rightarrow> unit bm" where
  "left_round 0 n l rv s = ret () s"
| "left_round (Suc k) n l rv s =
     bnd (if seq_level s l n + 1 \<noteq> seq_level s l (n + 1) \<and> seq_level s l n < bddvar2level s rv
          then reorder_vardown (l ! n) s else ret 0 s)
       (\<lambda>_ s. left_round k (n + 1) l rv s)"

primrec move_left :: "nat \<Rightarrow> int list \<Rightarrow> int \<Rightarrow> bdd_state \<Rightarrow> unit bm" where
  "move_left 0 l rv s = fail Nofuel s"
| "move_left (Suc k) l rv s =
     (if bddvar2level s (l ! 0) < bddvar2level s rv
      then bnd (left_round (length l - 1) 0 l rv s) (\<lambda>_ s.
           bnd (if seq_level s l (length l - 1) < bddvar2level s rv
                then reorder_vardown (l ! (length l - 1)) s else ret 0 s) (\<lambda>_ s.
           move_left k l rv s))
      else ret () s)"

primrec right_round :: "nat \<Rightarrow> int list \<Rightarrow> int \<Rightarrow> bdd_state \<Rightarrow> unit bm" where
  "right_round 0 r start s = ret () s"
| "right_round (Suc n) r start s =
     bnd (if seq_level s r (Suc n) - 1 \<noteq> seq_level s r n \<and> seq_level s r (Suc n) > start
          then reorder_varup (r ! Suc n) s else ret 0 s)
       (\<lambda>_ s. right_round n r start s)"

primrec move_right :: "nat \<Rightarrow> int list \<Rightarrow> int \<Rightarrow> bdd_state \<Rightarrow> unit bm" where
  "move_right 0 r start s = fail Nofuel s"
| "move_right (Suc k) r start s =
     (if bddvar2level s (r ! 0) > start
      then bnd (right_round (length r - 1) r start s) (\<lambda>_ s.
           bnd (if bddvar2level s (r ! 0) > start then reorder_varup (r ! 0) s else ret 0 s) (\<lambda>_ s.
           move_right k r start s))
      else ret () s)"

definition move_fuel :: "bdd_state \<Rightarrow> nat" where
  "move_fuel s = nat (bddvarnum s * bddvarnum s) + 1"

definition swap_blocks :: "nat \<Rightarrow> nat \<Rightarrow> bdd_state \<Rightarrow> bdd_state" where
  "swap_blocks left right s = (let
     s = upd_tree left (\<lambda>d. d\<lparr>t_next := t_next (tnode s right)\<rparr>) s;
     s = upd_tree right (\<lambda>d. d\<lparr>t_prev := t_prev (tnode s left)\<rparr>) s;
     s = upd_tree left (\<lambda>d. d\<lparr>t_prev := right\<rparr>) s;
     s = upd_tree right (\<lambda>d. d\<lparr>t_next := left\<rparr>) s;
     rp = t_prev (tnode s right);
     s = (if rp \<noteq> 0 then upd_tree rp (\<lambda>d. d\<lparr>t_next := right\<rparr>) s else s);
     ln = t_next (tnode s left);
     s = (if ln \<noteq> 0 then upd_tree ln (\<lambda>d. d\<lparr>t_prev := left\<rparr>) s else s);
     n = t_pos (tnode s left);
     s = upd_tree left (\<lambda>d. d\<lparr>t_pos := t_pos (tnode s right)\<rparr>) s
   in upd_tree right (\<lambda>d. d\<lparr>t_pos := n\<rparr>) s)"

definition blockdown :: "nat \<Rightarrow> bdd_state \<Rightarrow> unit bm" where
  "blockdown left s = (let right = t_next (tnode s left); l = t_seq (tnode s left); r = t_seq (tnode s right) in
     if left = 0 \<or> right = 0 \<or> l = [] \<or> r = [] then fail Trap s
     else let start = bddvar2level s (l ! 0) in
       bnd (move_left (move_fuel s) l (r ! (length r - 1)) s) (\<lambda>_ s.
       bnd (move_right (move_fuel s) r start s) (\<lambda>_ s.
       ret () (swap_blocks left right s))))"

section \<open>Windows of size 2\<close>

text \<open>One pass; the result is the first block.\<close>

primrec win2_loop :: "nat \<Rightarrow> nat \<Rightarrow> nat \<Rightarrow> bdd_state \<Rightarrow> nat bm" where
  "win2_loop 0 this first s = fail Nofuel s"
| "win2_loop (Suc k) this first s =
     (if t_next (tnode s this) = 0 then ret first s
      else bnd (nodenum s) (\<lambda>best s.
        bnd (blockdown this s) (\<lambda>_ s.
        bnd (nodenum s) (\<lambda>now s.
        if best < now
        then bnd (blockdown (t_prev (tnode s this)) s) (\<lambda>_ s. win2_loop k (t_next (tnode s this)) first s)
        else win2_loop k this (if first = this then t_prev (tnode s this) else first) s))))"

definition reorder_win2 :: "nat \<Rightarrow> bdd_state \<Rightarrow> nat bm" where
  "reorder_win2 t s = (if t = 0 then ret t s else win2_loop (tree_fuel s) t t s)"

text \<open>Each pass starts from the block that was first at the start, wherever it is now.\<close>

primrec win2ite_loop :: "nat \<Rightarrow> nat \<Rightarrow> nat \<Rightarrow> bdd_state \<Rightarrow> nat bm" where
  "win2ite_loop 0 t first s = fail Nofuel s"
| "win2ite_loop (Suc k) t first s =
     bnd (nodenum s) (\<lambda>lastsize s.
     bnd (win2_loop (tree_fuel s) t first s) (\<lambda>first s.
     bnd (nodenum s) (\<lambda>now s.
     if now \<noteq> lastsize then win2ite_loop k t first s else ret first s)))"

definition reorder_win2ite :: "nat \<Rightarrow> bdd_state \<Rightarrow> nat bm" where
  "reorder_win2ite t s = (if t = 0 then ret t s else win2ite_loop (mark_fuel s) t t s)"

section \<open>Windows of size 3\<close>

definition prevs :: "nat \<Rightarrow> bdd_state \<Rightarrow> nat bm" where
  "prevs this s = (if this = 0 then fail Trap s else ret (t_prev (tnode s this)) s)"

text \<open>\<open>this->prev->prev\<close>.\<close>

definition prev2 :: "nat \<Rightarrow> bdd_state \<Rightarrow> nat bm" where
  "prev2 this s = bnd (prevs this s) (\<lambda>p s. prevs p s)"

text \<open>A step down, and the comparison with the best size so far.\<close>

definition win3_try :: "nat \<Rightarrow> nat \<times> int \<Rightarrow> bdd_state \<Rightarrow> (nat \<times> int) bm" where
  "win3_try this pb s = (case pb of (pos, best) \<Rightarrow>
     bnd (blockdown this s) (\<lambda>_ s.
     bnd (nodenum s) (\<lambda>now s.
     if best > now then bnd (nodenum s) (\<lambda>best s. ret (0, best) s) else ret (pos + 1, best) s)))"

definition win3_two :: "nat \<Rightarrow> int \<Rightarrow> nat \<Rightarrow> bdd_state \<Rightarrow> (nat \<times> nat) bm" where
  "win3_two this best first s = (let setfirst = (t_prev (tnode s this) = 0) in
     bnd (blockdown this s) (\<lambda>_ s.
     bnd (nodenum s) (\<lambda>now s.
     if best < now
     then bnd (blockdown (t_prev (tnode s this)) s) (\<lambda>_ s. ret (t_next (tnode s this), first) s)
     else ret (this, if setfirst then t_prev (tnode s this) else first) s)))"

text \<open>The way back to the best of the six orders.\<close>

definition win3_back :: "nat \<Rightarrow> nat \<Rightarrow> bool \<Rightarrow> nat \<Rightarrow> bdd_state \<Rightarrow> (nat \<times> nat) bm" where
  "win3_back pos this setfirst first s =
     bnd (if pos \<ge> 1 then
            bnd (prevs this s) (\<lambda>this s.
            bnd (blockdown this s) (\<lambda>_ s.
            ret (this, this, if setfirst then t_prev (tnode s this) else first) s))
          else ret (this, 0, first) s) (\<lambda>(this, next, first) s.
     bnd (if pos \<ge> 2 then
            bnd (blockdown this s) (\<lambda>_ s.
            bnd (prevs this s) (\<lambda>p s.
            bnd (prevs p s) (\<lambda>pp s. ret (this, p, if setfirst then pp else first) s)))
          else ret (this, next, first) s) (\<lambda>(this, next, first) s.
     bnd (if pos \<ge> 3 then
            bnd (prev2 this s) (\<lambda>this s.
            bnd (blockdown this s) (\<lambda>_ s.
            ret (this, this, if setfirst then t_prev (tnode s this) else first) s))
          else ret (this, next, first) s) (\<lambda>(this, next, first) s.
     bnd (if pos \<ge> 4 then
            bnd (blockdown this s) (\<lambda>_ s.
            bnd (prevs this s) (\<lambda>p s.
            bnd (prevs p s) (\<lambda>pp s. ret (this, p, if setfirst then pp else first) s)))
          else ret (this, next, first) s) (\<lambda>(this, next, first) s.
     if pos \<ge> 5 then
       bnd (prev2 this s) (\<lambda>this s.
       bnd (blockdown this s) (\<lambda>_ s.
       ret (this, if setfirst then t_prev (tnode s this) else first) s))
     else ret (next, first) s))))"

definition reorder_swapwin3 :: "nat \<Rightarrow> nat \<Rightarrow> bdd_state \<Rightarrow> (nat \<times> nat) bm" where
  "reorder_swapwin3 start first s = (let setfirst = (t_prev (tnode s start) = 0) in
     bnd (nodenum s) (\<lambda>best s.
     if t_next (tnode s (t_next (tnode s start))) = 0 then win3_two start best first s
     else
       bnd (win3_try start (0, best) s) (\<lambda>pb s.
       bnd (win3_try start pb s) (\<lambda>pb s.
       bnd (prev2 start s) (\<lambda>this s.
       bnd (win3_try this pb s) (\<lambda>pb s.
       bnd (win3_try this pb s) (\<lambda>pb s.
       bnd (prev2 this s) (\<lambda>this s.
       bnd (win3_try this pb s) (\<lambda>pb s.
       if fst pb = 0 then ret (start, first) s else win3_back (fst pb) this setfirst first s)))))))))"

primrec win3_loop :: "nat \<Rightarrow> nat \<Rightarrow> nat \<Rightarrow> bdd_state \<Rightarrow> nat bm" where
  "win3_loop 0 this first s = fail Nofuel s"
| "win3_loop (Suc k) this first s =
     (if t_next (tnode s this) = 0 then ret first s
      else bnd (reorder_swapwin3 this first s) (\<lambda>(this, first) s. win3_loop k this first s))"

definition reorder_win3 :: "nat \<Rightarrow> bdd_state \<Rightarrow> nat bm" where
  "reorder_win3 t s = (if t = 0 then ret t s else win3_loop (tree_fuel s) t t s)"

primrec win3ite_pass :: "nat \<Rightarrow> nat \<Rightarrow> nat \<Rightarrow> bdd_state \<Rightarrow> nat bm" where
  "win3ite_pass 0 this first s = fail Nofuel s"
| "win3ite_pass (Suc k) this first s =
     (if t_next (tnode s this) = 0 \<or> t_next (tnode s (t_next (tnode s this))) = 0 then ret first s
      else bnd (reorder_swapwin3 this first s) (\<lambda>(this, first) s. win3ite_pass k this first s))"

primrec win3ite_loop :: "nat \<Rightarrow> nat \<Rightarrow> bdd_state \<Rightarrow> nat bm" where
  "win3ite_loop 0 first s = fail Nofuel s"
| "win3ite_loop (Suc k) first s =
     bnd (nodenum s) (\<lambda>lastsize s.
     bnd (win3ite_pass (tree_fuel s) first first s) (\<lambda>first s.
     bnd (nodenum s) (\<lambda>now s.
     if now \<noteq> lastsize then win3ite_loop k first s else ret first s)))"

definition reorder_win3ite :: "nat \<Rightarrow> bdd_state \<Rightarrow> nat bm" where
  "reorder_win3ite t s = (if t = 0 then ret t s else win3ite_loop (mark_fuel s) t s)"

section \<open>Sifting\<close>

definition max_allowed :: "int \<Rightarrow> bdd_state \<Rightarrow> int" where
  "max_allowed best s =
     (if bddmaxnodesize s > 0
      then min (cdiv best 5 + best) (bddmaxnodesize s - bddmaxnodeincrease s - 2)
      else cdiv best 5 + best)"

text \<open>
  Moving a block up or down while the size stays allowed: the allowed size, the best size and the moves since
  the best position.
\<close>

primrec sift_move ::
    "nat \<Rightarrow> bool \<Rightarrow> nat \<Rightarrow> bool \<Rightarrow> int \<times> int \<times> int \<Rightarrow> bdd_state \<Rightarrow> (int \<times> int \<times> int) bm" where
  "sift_move 0 up blk fresh abp s = fail Nofuel s"
| "sift_move (Suc k) up blk fresh abp s = (case abp of (maxAllowed, best, bestpos) \<Rightarrow>
     if (if up then t_prev (tnode s blk) else t_next (tnode s blk)) = 0 then ret abp s
     else bnd (nodenum s) (\<lambda>now s.
       if \<not> (now \<le> maxAllowed \<or> fresh) then ret abp s
       else bnd (blockdown (if up then t_prev (tnode s blk) else blk) s) (\<lambda>_ s.
         let bestpos = (if up then bestpos - 1 else bestpos + 1) in
         bnd (nodenum s) (\<lambda>now s.
         if now < best
         then bnd (nodenum s) (\<lambda>best s. sift_move k up blk False (max_allowed best s, best, 0) s)
         else sift_move k up blk False (maxAllowed, best, bestpos) s))))"

primrec move_best :: "nat \<Rightarrow> nat \<Rightarrow> int \<Rightarrow> bdd_state \<Rightarrow> unit bm" where
  "move_best 0 blk bestpos s = (if bestpos = 0 then ret () s else fail Nofuel s)"
| "move_best (Suc k) blk bestpos s =
     (if bestpos < 0 then bnd (blockdown blk s) (\<lambda>_ s. move_best k blk (bestpos + 1) s)
      else if bestpos > 0
      then bnd (blockdown (t_prev (tnode s blk)) s) (\<lambda>_ s. move_best k blk (bestpos - 1) s)
      else ret () s)"

definition reorder_sift_bestpos :: "nat \<Rightarrow> int \<Rightarrow> bdd_state \<Rightarrow> unit bm" where
  "reorder_sift_bestpos blk middlePos s =
     bnd (nodenum s) (\<lambda>best s. let
       up = (\<not> t_pos (tnode s blk) > middlePos)
     in bnd (sift_move (tree_fuel s) up blk True (max_allowed best s, best, 0) s) (\<lambda>abp s.
        bnd (nodenum s) (\<lambda>_ s.
        bnd (sift_move (tree_fuel s) (\<not> up) blk True abp s) (\<lambda>abp s.
        bnd (nodenum s) (\<lambda>_ s.
        move_best (nat \<bar>snd (snd abp)\<bar>) blk (snd (snd abp)) s)))))"

primrec first_block :: "nat \<Rightarrow> nat \<Rightarrow> bdd_state \<Rightarrow> nat bm" where
  "first_block 0 this s = fail Nofuel s"
| "first_block (Suc k) this s =
     (if t_prev (tnode s this) = 0 then ret this s else first_block k (t_prev (tnode s this)) s)"

primrec sift_all :: "nat list \<Rightarrow> int \<Rightarrow> bdd_state \<Rightarrow> unit bm" where
  "sift_all [] num s = ret () s"
| "sift_all (b # bs) num s =
     bnd (reorder_sift_bestpos b (num div 2) s) (\<lambda>_ s. sift_all bs num s)"

definition reorder_sift_seq :: "nat \<Rightarrow> nat list \<Rightarrow> int \<Rightarrow> bdd_state \<Rightarrow> nat bm" where
  "reorder_sift_seq t seq num s =
     (if t = 0 then ret t s
      else bnd (sift_all seq num s) (\<lambda>_ s. first_block (tree_fuel s) t s))"

text \<open>The blocks from \<open>t\<close> on.\<close>

primrec siblings :: "nat \<Rightarrow> nat \<Rightarrow> bdd_state \<Rightarrow> nat list bm" where
  "siblings 0 t s = fail Nofuel s"
| "siblings (Suc k) t s =
     (if t = 0 then ret [] s
      else bnd (siblings k (t_next (tnode s t)) s) (\<lambda>ts s. ret (t # ts) s))"

primrec set_positions :: "nat list \<Rightarrow> int \<Rightarrow> bdd_state \<Rightarrow> bdd_state" where
  "set_positions [] n s = s"
| "set_positions (t # ts) n s = set_positions ts (n + 1) (upd_tree t (\<lambda>d. d\<lparr>t_pos := n\<rparr>) s)"

primrec block_val :: "nat \<Rightarrow> int \<Rightarrow> int \<Rightarrow> bdd_state \<Rightarrow> int" where
  "block_val 0 v x s = x"
| "block_val (Suc k) v x s = block_val k (v + 1) (x - lv_nodenum (lvl s v)) s"

definition sift_val :: "bdd_state \<Rightarrow> nat \<Rightarrow> int" where
  "sift_val s t = block_val (nat (t_last (tnode s t) - t_first (tnode s t) + 1)) (t_first (tnode s t)) 0 s"

text \<open>\<open>qsort\<close> is a stable sort here; the C library leaves the order of equal elements open.\<close>

definition reorder_sift :: "nat \<Rightarrow> bdd_state \<Rightarrow> nat bm" where
  "reorder_sift t s =
     bnd (siblings (tree_fuel s) t s) (\<lambda>ts s. let
       s = set_positions ts 0 s;
       seq = sort_key (sift_val s) ts
     in reorder_sift_seq t seq (int (length ts)) s)"

primrec siftite_loop :: "nat \<Rightarrow> nat \<Rightarrow> bdd_state \<Rightarrow> nat bm" where
  "siftite_loop 0 first s = fail Nofuel s"
| "siftite_loop (Suc k) first s =
     bnd (nodenum s) (\<lambda>lastsize s.
     bnd (reorder_sift first s) (\<lambda>first s.
     bnd (nodenum s) (\<lambda>now s.
     if now \<noteq> lastsize then siftite_loop k first s else ret first s)))"

definition reorder_siftite :: "nat \<Rightarrow> bdd_state \<Rightarrow> nat bm" where
  "reorder_siftite t s = (if t = 0 then ret t s else siftite_loop (mark_fuel s) t s)"

section \<open>Random order\<close>

primrec random_moves :: "nat \<Rightarrow> nat list \<Rightarrow> bdd_state \<Rightarrow> unit bm" where
  "random_moves 0 seq s = ret () s"
| "random_moves (Suc k) seq s = (let
     blk = rand s (randpos s) mod length seq;
     s = s\<lparr>randpos := randpos s + 1\<rparr>
   in bnd (if t_next (tnode s (seq ! blk)) \<noteq> 0 then blockdown (seq ! blk) s else ret () s)
        (\<lambda>_ s. random_moves k seq s))"

definition reorder_random :: "nat \<Rightarrow> bdd_state \<Rightarrow> nat bm" where
  "reorder_random t s =
     (if t = 0 then ret t s
      else bnd (siblings (tree_fuel s) t s) (\<lambda>seq s.
           bnd (random_moves (4 * length seq) seq s) (\<lambda>_ s.
           first_block (tree_fuel s) t s)))"

section \<open>Reordering the tree of blocks\<close>

definition BDD_REORDER_WIN2 :: int where "BDD_REORDER_WIN2 = 1"
definition BDD_REORDER_WIN2ITE :: int where "BDD_REORDER_WIN2ITE = 2"
definition BDD_REORDER_SIFT :: int where "BDD_REORDER_SIFT = 3"
definition BDD_REORDER_SIFTITE :: int where "BDD_REORDER_SIFTITE = 4"
definition BDD_REORDER_WIN3 :: int where "BDD_REORDER_WIN3 = 5"
definition BDD_REORDER_WIN3ITE :: int where "BDD_REORDER_WIN3ITE = 6"
definition BDD_REORDER_RANDOM :: int where "BDD_REORDER_RANDOM = 7"
definition BDD_REORDER_FREE :: int where "BDD_REORDER_FREE = 0"

definition run_method :: "int \<Rightarrow> nat \<Rightarrow> bdd_state \<Rightarrow> nat bm" where
  "run_method m t s =
     (if m = BDD_REORDER_WIN2 then reorder_win2 t s
      else if m = BDD_REORDER_WIN2ITE then reorder_win2ite t s
      else if m = BDD_REORDER_SIFT then reorder_sift t s
      else if m = BDD_REORDER_SIFTITE then reorder_siftite t s
      else if m = BDD_REORDER_WIN3 then reorder_win3 t s
      else if m = BDD_REORDER_WIN3ITE then reorder_win3ite t s
      else if m = BDD_REORDER_RANDOM then reorder_random t s
      else ret t s)"

text \<open>\<open>inner\<close> is the loop over the sub-blocks, \<open>reorder_block\<close> its body.\<close>

primrec reorder_block :: "nat \<Rightarrow> bool \<Rightarrow> nat \<Rightarrow> int \<Rightarrow> bdd_state \<Rightarrow> unit bm" where
  "reorder_block 0 loop t m s = fail Nofuel s"
| "reorder_block (Suc k) loop t m s =
     (if t = 0 then ret () s
      else if loop then
        bnd (reorder_block k False t m s) (\<lambda>_ s. reorder_block k True (t_next (tnode s t)) m s)
      else
        bnd (if t_fixed (tnode s t) = BDD_REORDER_FREE \<and> t_nextlevel (tnode s t) \<noteq> 0
             then bnd (run_method m (t_nextlevel (tnode s t)) s) (\<lambda>r s.
                  ret () (upd_tree t (\<lambda>d. d\<lparr>t_nextlevel := r\<rparr>) s))
             else ret () s) (\<lambda>_ s.
        bnd (reorder_block k True (t_nextlevel (tnode s t)) m s) (\<lambda>_ s.
        ret () (upd_tree t (\<lambda>d. d\<lparr>t_seq := sort_key (bddvar2level s) (t_seq d)\<rparr>) s))))"

definition bdd_reorder :: "int \<Rightarrow> bdd_state \<Rightarrow> unit bm" where
  "bdd_reorder m s = (let
     savemethod = bddreordermethod s; savetimes = bddreordertimes s;
     s = s\<lparr>bddreordermethod := m, bddreordertimes := 1\<rparr>
   in bnd (bddtree_new (-1) s) (\<lambda>top s.
      bnd (reorder_init s) (\<lambda>e s.
      if e < 0 then ret () s
      else let
        s = s\<lparr>usednum_before := bddnodesize s - bddfreenum s\<rparr>;
        s = upd_tree top (\<lambda>d. d\<lparr>t_first := 0, t_last := bddvarnum s - 1, t_fixed := 0, t_next := 0,
              t_nextlevel := vartree s\<rparr>) s
      in bnd (reorder_block (2 * tree_fuel s) False top m s) (\<lambda>_ s. let
           s = s\<lparr>vartree := t_nextlevel (tnode s top)\<rparr>;
           s = s\<lparr>usednum_after := bddnodesize s - bddfreenum s\<rparr>
         in bnd (reorder_done s) (\<lambda>_ s.
            ret () (s\<lparr>bddreordermethod := savemethod, bddreordertimes := savetimes\<rparr>))))))"

text \<open>The default handler only prints.\<close>

definition call_reohandler :: "int \<Rightarrow> bdd_state \<Rightarrow> bdd_state" where
  "call_reohandler b s = (case reorder_handler (reo s) of
      UserReohandler h \<Rightarrow> s\<lparr>trace := trace s @ [EvReorder h b]\<rparr>
    | _ \<Rightarrow> s)"

definition bdd_reorder_auto :: "bdd_state \<Rightarrow> unit bm" where
  "bdd_reorder_auto s =
     (if \<not> bdd_reorder_ready s then ret () s
      else let s = call_reohandler 1 s in
        bnd (bdd_reorder (bddreordermethod s) s) (\<lambda>_ s.
        ret () (call_reohandler 0 (s\<lparr>bddreordertimes := bddreordertimes s - 1\<rparr>))))"

definition bdd_checkreorder :: "bdd_state \<Rightarrow> unit bm" where
  "bdd_checkreorder s =
     bnd (bdd_reorder_auto s) (\<lambda>_ s. let
       n = 2 * (bddnodesize s - bddfreenum s);
       g = bdd_reorder_gain s
     in ret () (s\<lparr>usednodes_nextreorder := (if g < 20 then n + cdiv (n * (20 - g)) 20 else n)\<rparr>))"

section \<open>User interface\<close>

primrec down_to :: "nat \<Rightarrow> int \<Rightarrow> int \<Rightarrow> bdd_state \<Rightarrow> unit bm" where
  "down_to 0 v l s = fail Nofuel s"
| "down_to (Suc k) v l s =
     (if bddvar2level s v < l then bnd (reorder_vardown v s) (\<lambda>_ s. down_to k v l s) else ret () s)"

primrec up_to :: "nat \<Rightarrow> int \<Rightarrow> int \<Rightarrow> bdd_state \<Rightarrow> unit bm" where
  "up_to 0 v l s = fail Nofuel s"
| "up_to (Suc k) v l s =
     (if bddvar2level s v > l then bnd (reorder_varup v s) (\<lambda>_ s. up_to k v l s) else ret () s)"

definition bdd_swapvar :: "int \<Rightarrow> int \<Rightarrow> bdd_state \<Rightarrow> int bm" where
  "bdd_swapvar v1 v2 s =
     (if vartree s \<noteq> 0 then bdd_error BDD_VARBLK s
      else if v1 = v2 then ret 0 s
      else if v1 < 0 \<or> v1 \<ge> bddvarnum s \<or> v2 < 0 \<or> v2 \<ge> bddvarnum s then bdd_error BDD_VAR s
      else let
        (v1, v2) = (if bddvar2level s v1 > bddvar2level s v2 then (v2, v1) else (v1, v2));
        l1 = bddvar2level s v1; l2 = bddvar2level s v2
      in bnd (reorder_init s) (\<lambda>_ s.
         bnd (down_to (nat (bddvarnum s) + 1) v1 l2 s) (\<lambda>_ s.
         bnd (up_to (nat (bddvarnum s) + 1) v2 l1 s) (\<lambda>_ s.
         bnd (reorder_done s) (\<lambda>_ s. ret 0 s)))))"

primrec order_loop :: "nat \<Rightarrow> int \<Rightarrow> (int \<Rightarrow> int) \<Rightarrow> bdd_state \<Rightarrow> unit bm" where
  "order_loop 0 level neworder s = ret () s"
| "order_loop (Suc k) level neworder s =
     bnd (up_to (nat (bddvarnum s) + 1) (neworder level) level s) (\<lambda>_ s.
     order_loop k (level + 1) neworder s)"

definition bdd_setvarorder :: "(int \<Rightarrow> int) \<Rightarrow> bdd_state \<Rightarrow> unit bm" where
  "bdd_setvarorder neworder s =
     (if vartree s \<noteq> 0 then bnd (bdd_error BDD_VARBLK s) (\<lambda>_ s. ret () s)
      else bnd (reorder_init s) (\<lambda>_ s.
           bnd (order_loop (nat (bddvarnum s)) 0 neworder s) (\<lambda>_ s. reorder_done s)))"

definition bdd_reorder_hook :: "reohandler \<Rightarrow> bdd_state \<Rightarrow> reohandler bm" where
  "bdd_reorder_hook h s = ret (reorder_handler (reo s)) (upd_reo (\<lambda>r. r\<lparr>reorder_handler := h\<rparr>) s)"

definition bdd_blockfile_hook :: "nat option \<Rightarrow> bdd_state \<Rightarrow> nat option bm" where
  "bdd_blockfile_hook h s =
     ret (reorder_filehandler (reo s)) (upd_reo (\<lambda>r. r\<lparr>reorder_filehandler := h\<rparr>) s)"

definition bdd_var2level :: "int \<Rightarrow> bdd_state \<Rightarrow> int bm" where
  "bdd_var2level v s = (if v < 0 \<or> v \<ge> bddvarnum s then bdd_error BDD_VAR s else ret (bddvar2level s v) s)"

definition bdd_level2var :: "int \<Rightarrow> bdd_state \<Rightarrow> int bm" where
  "bdd_level2var l s = (if l < 0 \<or> l \<ge> bddvarnum s then bdd_error BDD_VAR s else ret (bddlevel2var s l) s)"

definition bdd_getreorder_times :: "bdd_state \<Rightarrow> int" where
  "bdd_getreorder_times s = bddreordertimes s"

definition bdd_getreorder_method :: "bdd_state \<Rightarrow> int" where
  "bdd_getreorder_method s = bddreordermethod s"

definition bdd_reorder_verbose :: "int \<Rightarrow> bdd_state \<Rightarrow> int bm" where
  "bdd_reorder_verbose v s = ret (verbose (reo s)) (upd_reo (\<lambda>r. r\<lparr>verbose := v\<rparr>) s)"

text \<open>A null handler leaves the present one; \<open>bdd_getnodenum\<close> itself is \<open>None\<close>.\<close>

definition bdd_reorder_probe :: "nat option option \<Rightarrow> bdd_state \<Rightarrow> nat option bm" where
  "bdd_reorder_probe h s = (let old = reorder_nodenum (reo s) in
     case h of None \<Rightarrow> ret old s | Some f \<Rightarrow> ret old (upd_reo (\<lambda>r. r\<lparr>reorder_nodenum := f\<rparr>) s))"

definition bdd_clrvarblocks :: "bdd_state \<Rightarrow> unit bm" where
  "bdd_clrvarblocks s =
     bnd (bddtree_del (2 * tree_fuel s) (vartree s) s) (\<lambda>_ s.
     ret () (upd_reo (\<lambda>r. r\<lparr>blockid := 0\<rparr>) (s\<lparr>vartree := 0\<rparr>)))"

primrec adjacent_loop :: "nat \<Rightarrow> int \<Rightarrow> int \<times> int \<Rightarrow> bdd_state \<Rightarrow> int \<times> int" where
  "adjacent_loop 0 n lm s = lm"
| "adjacent_loop (Suc k) n lm s =
     adjacent_loop k (n + 1) (min (fst lm) (bddvar2level s n), max (snd lm) (bddvar2level s n)) s"

definition block_is_adjacent :: "int \<Rightarrow> int \<Rightarrow> bdd_state \<Rightarrow> bool" where
  "block_is_adjacent first lastv s = (let
     (lo, hi) = adjacent_loop (nat (lastv - first)) (first + 1) (bddvar2level s first, bddvar2level s first) s
   in hi - lo = lastv - first)"

text \<open>What \<open>bdd_addvarblock\<close> and \<open>bdd_intaddvarblock\<close> share.\<close>

definition add_block :: "int \<Rightarrow> int \<Rightarrow> int \<Rightarrow> bdd_state \<Rightarrow> int bm" where
  "add_block first lastv fixed s =
     (if \<not> block_is_adjacent first lastv s then bdd_error BDD_VARBLK s
      else bnd (bddtree_addrange (vartree s) first lastv fixed (blockid (reo s)) s) (\<lambda>t s.
        if t = 0 then bdd_error BDD_VARBLK s
        else let ident = blockid (reo s) in
          ret ident (upd_reo (\<lambda>r. r\<lparr>blockid := ident + 1\<rparr>) (s\<lparr>vartree := t\<rparr>))))"

definition bdd_addvarblock :: "BDD \<Rightarrow> int \<Rightarrow> bdd_state \<Rightarrow> int bm" where
  "bdd_addvarblock b fixed s =
     bnd (bdd_scanset b s) (\<lambda>(n, v) s.
     if n < 0 then ret n s
     else if v = [] then bdd_error BDD_VARBLK s
     else add_block (foldl min (hd v) v) (foldl max (hd v) v) fixed s)"

definition bdd_intaddvarblock :: "int \<Rightarrow> int \<Rightarrow> int \<Rightarrow> bdd_state \<Rightarrow> int bm" where
  "bdd_intaddvarblock first lastv fixed s =
     (if first < 0 \<or> first \<ge> bddvarnum s \<or> lastv < 0 \<or> lastv \<ge> bddvarnum s then bdd_error BDD_VAR s
      else add_block first lastv fixed s)"

primrec varblocks_loop :: "nat \<Rightarrow> int \<Rightarrow> bdd_state \<Rightarrow> unit bm" where
  "varblocks_loop 0 n s = ret () s"
| "varblocks_loop (Suc k) n s =
     bnd (bdd_intaddvarblock n n 1 s) (\<lambda>_ s. varblocks_loop k (n + 1) s)"

definition bdd_varblockall :: "bdd_state \<Rightarrow> unit bm" where
  "bdd_varblockall s = varblocks_loop (nat (bddvarnum s)) 0 s"

end
