(* ===== verification/KernelInit.thy ===== *)
theory KernelInit
  imports ReorderOps
begin

text \<open>
  Start and end of a session: \<open>bdd_init\<close>, \<open>bdd_done\<close>, and the definition of variables
  with \<open>bdd_setvarnum\<close> and \<open>bdd_extvarnum\<close>; with the initialisation and release of the
  state of \<^verbatim>\<open>src/reorder.c\<close> and \<^verbatim>\<open>src/fdd.c\<close>.
\<close>

text \<open>The tree of blocks is empty when \<open>bdd_clrvarblocks\<close> is called, so nothing is released.\<close>

definition bdd_reorder_init :: "bdd_state \<Rightarrow> bdd_state" where
  "bdd_reorder_init s =
     upd_reo (\<lambda>r. r\<lparr>reorder_handler := DefaultReohandler, verbose := 0, reorder_nodenum := None, blockid := 0\<rparr>)
       (s\<lparr>reorderdisabled := False, vartree := 0, bddreordermethod := BDD_REORDER_NONE,
          bddreordertimes := 0, usednum_before := 0, usednum_after := 0\<rparr>)"

definition bdd_reorder_done :: "bdd_state \<Rightarrow> unit bm" where
  "bdd_reorder_done s =
     bnd (bddtree_del (2 * tree_fuel s) (vartree s) s) (\<lambda>_ s. ret () ((bdd_operator_reset s)\<lparr>vartree := 0\<rparr>))"

definition bdd_fdd_init :: "bdd_state \<Rightarrow> bdd_state" where
  "bdd_fdd_init s = s\<lparr>domain := None, fdvarnum := 0, fdvaralloc := 0, firstbddvar := 0\<rparr>"

text \<open>\<open>Domain_done\<close> drops the reference to the block's variable set.\<close>

definition Domain_done :: "Domain \<Rightarrow> bdd_state \<Rightarrow> unit bm" where
  "Domain_done d s = bnd (bdd_delref (d_var d) s) (\<lambda>_ s. ret () s)"

primrec domains_done :: "nat \<Rightarrow> int \<Rightarrow> (int \<Rightarrow> Domain) \<Rightarrow> bdd_state \<Rightarrow> unit bm" where
  "domains_done 0 n ds s = ret () s"
| "domains_done (Suc k) n ds s =
     bnd (Domain_done (ds n) s) (\<lambda>_ s. domains_done k (n + 1) ds s)"

definition bdd_fdd_done :: "bdd_state \<Rightarrow> unit bm" where
  "bdd_fdd_done s =
     bnd (case domain s of None \<Rightarrow> ret () s | Some ds \<Rightarrow> domains_done (nat (fdvarnum s)) 0 ds s)
       (\<lambda>_ s. ret () (s\<lparr>domain := None\<rparr>))"

section \<open>Start\<close>

definition init_node :: "int \<Rightarrow> int \<Rightarrow> BddNode" where
  "init_node sz n =
     \<lparr>n_high = (if n = 1 then 1 else 0), n_low = (if n = 0 then 0 else if n = 1 then 1 else -1),
      n_refcou = (if n = 0 \<or> n = 1 then MAXREF else 0),
      n_level = (if n = 0 \<or> n = 1 then MAXLEVEL else 0), n_mark = False, n_hash = 0,
      n_next = (if n = sz - 1 then 0 else n + 1)\<rparr>"

definition bdd_init :: "int \<Rightarrow> int \<Rightarrow> bdd_state \<Rightarrow> int bm" where
  "bdd_init initnodesize cs s =
     (if bddrunning s then bdd_error BDD_RUNNING s
      else bnd (prime_gte_st initnodesize s) (\<lambda>size s.
        let s = s\<lparr>bddnodesize := size\<rparr> in
        bnd (alloc size s) (\<lambda>_ s.
        let s = s\<lparr>bddresized := False,
                  bddnodes := (\<lambda>n. if 0 \<le> n \<and> n < size then init_node size n else bddnodes s n)\<rparr> in
        bnd (if mtbdd s then mtbdd_operator_init cs s else bdd_operator_init cs s) (\<lambda>_ s.
        let s = s\<lparr>bddfreepos := 2, bddfreenum := bddnodesize s - 2, bddrunning := True,
                  bddvarnum := 0, gbcollectnum := 0, cachesize := cs,
                  usednodes_nextreorder := bddnodesize s,
                  bddmaxnodeincrease := DEFAULTMAXNODEINC, bdderrorcond := 0,
                  gbc_handler := Some 0, err_handler := DefaultHandler, resize_handler := None\<rparr>;
            s = bdd_pairs_init s;
            s = bdd_reorder_init s;
            s = bdd_fdd_init s
        in ret 0 s))))"

section \<open>End\<close>

primrec delete_terminals :: "nat \<Rightarrow> int \<Rightarrow> bdd_state \<Rightarrow> bdd_state" where
  "delete_terminals 0 i s = s"
| "delete_terminals (Suc k) i s =
     delete_terminals k (i + 1)
       (if LEVEL s i = MAXLEVEL \<and> LOW s i \<noteq> -1 then mtbdd_delete_terminal (bddnodes s i) s else s)"

definition bdd_done :: "bdd_state \<Rightarrow> unit bm" where
  "bdd_done s =
     bnd (bdd_fdd_done s) (\<lambda>_ s.
     bnd (bdd_reorder_done s) (\<lambda>_ s.
     bnd (bdd_pairs_done s) (\<lambda>_ s. let
       s = delete_terminals (nat (bddnodesize s)) 0 s;
       s = s\<lparr>mtvals := mtbdd_IndexStackFree (mtvals s), bddrefstack := [], bddrefslots := 0,
             bddvarset := (\<lambda>_. 0), bddvar2level := (\<lambda>_. 0), bddlevel2var := (\<lambda>_. 0)\<rparr>;
       s = s\<lparr>mtvals := (mtvals s)\<lparr>vals := (\<lambda>_. 0), mtbddTerminalUsed := 0, mtbddmaxTerminalSize := 0,
                                 mtbddLastValueIndex := 0\<rparr>\<rparr>;
       s = bdd_operator_done s;
       s = s\<lparr>mtbdd := False\<rparr>;
       s = mtbdd_terminal_types_done s
     in ret () (s\<lparr>bddrunning := False, bddnodesize := 0, bddmaxnodesize := 0, bddvarnum := 0,
                  bddproduced := 0, err_handler := NoHandler, gbc_handler := None,
                  resize_handler := None\<rparr>))))"

section \<open>Variables\<close>

text \<open>One round of the loop of \<open>bdd_setvarnum\<close>; the flag says whether it goes on.\<close>

definition setvar_step :: "bdd_state \<Rightarrow> bool bm" where
  "setvar_step s = (let v = bddvarnum s in
     bnd (bdd_makenode v 0 1 s) (\<lambda>r s.
     bnd (PUSHREF r s) (\<lambda>r s.
     let s = s\<lparr>bddvarset := (bddvarset s)(v * 2 := r)\<rparr> in
     bnd (bdd_makenode v 1 0 s) (\<lambda>r s.
     let s = s\<lparr>bddvarset := (bddvarset s)(v * 2 + 1 := r)\<rparr> in
     bnd (POPREF 1 s) (\<lambda>_ s.
     if bdderrorcond s \<noteq> 0 then ret False s
     else let
       s = upd_node (\<lambda>d. d\<lparr>n_refcou := MAXREF\<rparr>) (bddvarset s (v * 2)) s;
       s = upd_node (\<lambda>d. d\<lparr>n_refcou := MAXREF\<rparr>) (bddvarset s (v * 2 + 1)) s
     in ret True (s\<lparr>bddlevel2var := (bddlevel2var s)(v := v),
                   bddvar2level := (bddvar2level s)(v := v)\<rparr>))))))"

primrec setvar_loop :: "nat \<Rightarrow> int \<Rightarrow> bdd_state \<Rightarrow> bool bm" where
  "setvar_loop 0 bdv s = ret True s"
| "setvar_loop (Suc k) bdv s =
     bnd (setvar_step s) (\<lambda>ok s.
       if \<not> ok then ret False (s\<lparr>bddvarnum := bdv\<rparr>)
       else setvar_loop k bdv (s\<lparr>bddvarnum := bddvarnum s + 1\<rparr>))"

definition bdd_setvarnum :: "int \<Rightarrow> bdd_state \<Rightarrow> int bm" where
  "bdd_setvarnum num s0 =
     (let oldbddvarnum = bddvarnum s0 in
      if \<not> bddrunning s0 then bdd_error BDD_RUNNING s0
      else let s = bdd_disable_reorder s0 in
      if num < 1 \<or> num \<ge> MAXVAR then bnd (bdd_error BDD_RANGE s) (\<lambda>_ s. ret bddfalse s)
      else if num < bddvarnum s then bdd_error BDD_DECVNUM s
      else if num = bddvarnum s then ret 0 s
      else let s = s\<lparr>bddrefslots := num * 128 + 8192, bddrefstack := []\<rparr> in
        bnd (setvar_loop (nat (num - bddvarnum s)) (bddvarnum s) s) (\<lambda>ok s.
        if \<not> ok then ret (- bdderrorcond s) s
        else let
          s = upd_node (\<lambda>d. d\<lparr>n_level := num\<rparr>) 0 s;
          s = upd_node (\<lambda>d. d\<lparr>n_level := num\<rparr>) 1 s;
          s = s\<lparr>bddvar2level := (bddvar2level s)(num := num),
                bddlevel2var := (bddlevel2var s)(num := num)\<rparr>
        in bnd (bdd_pairs_resize oldbddvarnum (bddvarnum s) s) (\<lambda>_ s.
           let s = bdd_operator_varresize s in
           ret 0 (bdd_enable_reorder s))))"

definition bdd_extvarnum :: "int \<Rightarrow> bdd_state \<Rightarrow> int bm" where
  "bdd_extvarnum num s =
     (let start = bddvarnum s in
      if num < 0 \<or> num > 0x3FFFFFFF then bdd_error BDD_RANGE s
      else bnd (bdd_setvarnum (bddvarnum s + num) s) (\<lambda>_ s. ret start s))"

end
