(* ===== verification/Bddop.thy ===== *)
theory Bddop
  imports KernelInit
begin

text \<open>
  Model of the operations of \<^verbatim>\<open>src/bddop.c\<close> that build diagrams. Each recursive
  C function is a recursion on fuel: every call goes to a greater top level, so that
  \<open>op_fuel\<close>, the number of levels plus two, is enough (proved with the specifications).
  Statistics counters are left out.

  The shape shared by nearly all of them, \<open>PUSHREF(low); PUSHREF(high); combine; POPREF(2)\<close>,
  is the combinator \<open>both\<close>; the \<open>setjmp\<close> frame of the external functions is \<open>again\<close>.
\<close>

section \<open>Constants and hash functions\<close>

definition bddop_and :: int where "bddop_and = 0"
definition bddop_xor :: int where "bddop_xor = 1"
definition bddop_or :: int where "bddop_or = 2"
definition bddop_nand :: int where "bddop_nand = 3"
definition bddop_nor :: int where "bddop_nor = 4"
definition bddop_imp :: int where "bddop_imp = 5"
definition bddop_biimp :: int where "bddop_biimp = 6"
definition bddop_diff :: int where "bddop_diff = 7"
definition bddop_less :: int where "bddop_less = 8"
definition bddop_invimp :: int where "bddop_invimp = 9"
definition bddop_not :: int where "bddop_not = 10"
definition bddop_simplify :: int where "bddop_simplify = 11"

lemmas bddop_defs = bddop_and_def bddop_xor_def bddop_or_def bddop_nand_def bddop_nor_def
  bddop_imp_def bddop_biimp_def bddop_diff_def bddop_less_def bddop_invimp_def bddop_not_def
  bddop_simplify_def

definition CACHEID_CONSTRAIN :: int where "CACHEID_CONSTRAIN = 0"
definition CACHEID_RESTRICT :: int where "CACHEID_RESTRICT = 1"
definition CACHEID_SATCOU :: int where "CACHEID_SATCOU = 2"
definition CACHEID_SATCOULN :: int where "CACHEID_SATCOULN = 3"
definition CACHEID_PATHCOU :: int where "CACHEID_PATHCOU = 4"
definition CACHEID_REPLACE :: int where "CACHEID_REPLACE = 0"
definition CACHEID_COMPOSE :: int where "CACHEID_COMPOSE = 1"
definition CACHEID_VECCOMPOSE :: int where "CACHEID_VECCOMPOSE = 2"
definition CACHEID_EXIST :: int where "CACHEID_EXIST = 0"
definition CACHEID_FORALL :: int where "CACHEID_FORALL = 1"
definition CACHEID_UNIQUE :: int where "CACHEID_UNIQUE = 2"
definition CACHEID_APPEX :: int where "CACHEID_APPEX = 3"
definition CACHEID_APPAL :: int where "CACHEID_APPAL = 4"
definition CACHEID_APPUN :: int where "CACHEID_APPUN = 5"

lemmas cacheid_defs = CACHEID_CONSTRAIN_def CACHEID_RESTRICT_def CACHEID_SATCOU_def
  CACHEID_SATCOULN_def CACHEID_PATHCOU_def CACHEID_REPLACE_def CACHEID_COMPOSE_def
  CACHEID_VECCOMPOSE_def CACHEID_EXIST_def CACHEID_FORALL_def CACHEID_UNIQUE_def
  CACHEID_APPEX_def CACHEID_APPAL_def CACHEID_APPUN_def

text \<open>\<open>(x << n) | t\<close> on a 32-bit \<open>int\<close>, for a tag \<open>t\<close> below \<open>2 ^ n\<close>.\<close>

definition tagged :: "int \<Rightarrow> nat \<Rightarrow> int \<Rightarrow> int" where
  "tagged x n t = s32 (x * 2 ^ n + t)"

definition NOTHASH :: "int \<Rightarrow> int" where "NOTHASH r = HASH1 r"
definition APPLYHASH :: "int \<Rightarrow> int \<Rightarrow> int \<Rightarrow> int" where "APPLYHASH l r op = HASH3 l r op"
definition ITEHASH :: "int \<Rightarrow> int \<Rightarrow> int \<Rightarrow> int" where "ITEHASH f g h = HASH3 f g h"
definition RESTRHASH :: "int \<Rightarrow> int \<Rightarrow> int" where "RESTRHASH r v = HASH2 r v"
definition CONSTRAINHASH :: "int \<Rightarrow> int \<Rightarrow> int" where "CONSTRAINHASH f c = HASH2 f c"
definition QUANTHASH :: "int \<Rightarrow> int" where "QUANTHASH r = HASH1 r"
definition REPLACEHASH :: "int \<Rightarrow> int" where "REPLACEHASH r = HASH1 r"
definition VECCOMPOSEHASH :: "int \<Rightarrow> int" where "VECCOMPOSEHASH f = HASH1 f"
definition COMPOSEHASH :: "int \<Rightarrow> int \<Rightarrow> int" where "COMPOSEHASH f g = HASH2 f g"
definition SATCOUHASH :: "int \<Rightarrow> int" where "SATCOUHASH r = HASH1 r"
definition PATHCOUHASH :: "int \<Rightarrow> int" where "PATHCOUHASH r = HASH1 r"
definition APPEXHASH :: "int \<Rightarrow> int \<Rightarrow> int \<Rightarrow> int" where "APPEXHASH l r op = HASH2 l r"

text \<open>The result of each operator, indexed by \<open>left << 1 | right\<close>.\<close>

definition oprres :: "int list list" where
  "oprres =
    [[0,0,0,1], [0,1,1,0], [0,1,1,1], [1,1,1,0], [1,0,0,0], [1,1,0,1], [1,0,0,1], [0,0,1,0],
     [0,1,0,0], [1,0,1,1], [1,1,0,0]]"

definition oprres_at :: "int \<Rightarrow> int \<Rightarrow> int \<Rightarrow> int" where
  "oprres_at op l r = oprres ! nat op ! nat (2 * l + r)"

section \<open>The shared shape of the recursions\<close>

definition op_fuel :: "bdd_state \<Rightarrow> nat" where
  "op_fuel s = nat (bddvarnum s) + 2"

definition both ::
    "(bdd_state \<Rightarrow> BDD bm) \<Rightarrow> (bdd_state \<Rightarrow> BDD bm) \<Rightarrow> (BDD \<Rightarrow> BDD \<Rightarrow> bdd_state \<Rightarrow> BDD bm) \<Rightarrow>
     bdd_state \<Rightarrow> BDD bm" where
  "both f g k s =
     bnd (f s) (\<lambda>l s. bnd (PUSHREF l s) (\<lambda>_ s.
     bnd (g s) (\<lambda>h s. bnd (PUSHREF h s) (\<lambda>_ s.
     bnd (k (READREF 2 s) (READREF 1 s) s) (\<lambda>res s.
     bnd (POPREF 2 s) (\<lambda>_ s. ret res s))))))"

text \<open>Storing a result: the fields written, then the current generation.\<close>

definition store ::
    "((BddCache \<Rightarrow> BddCache) \<Rightarrow> bddCaches \<Rightarrow> bddCaches) \<Rightarrow> (BddCacheData \<Rightarrow> BddCacheData) \<Rightarrow> int \<Rightarrow>
     bdd_state \<Rightarrow> bdd_state" where
  "store upd f i s = s\<lparr>caches := upd (write_entry f i) (caches s)\<rparr>"

text \<open>
  The frame of an external function: the attempt, and after a \<open>longjmp\<close> (reordering) one
  more attempt with reordering disabled. An attempt that gives \<open>None\<close> returns \<open>z\<close> from the
  function at once.
\<close>

definition attempt ::
    "(bdd_state \<Rightarrow> int bm) \<Rightarrow> (bdd_state \<Rightarrow> 'a bm) \<Rightarrow> bool \<Rightarrow> bdd_state \<Rightarrow> 'a option bm" where
  "attempt setup m first s =
     bnd (setup s) (\<lambda>e s.
     if e < 0 then ret None s
     else bnd (m (if first then s else bdd_disable_reorder s)) (\<lambda>res s.
          ret (Some res) (if first then s else bdd_enable_reorder s)))"

definition again :: "(bdd_state \<Rightarrow> int bm) \<Rightarrow> (bdd_state \<Rightarrow> BDD bm) \<Rightarrow> bdd_state \<Rightarrow> BDD bm" where
  "again setup m s =
     bnd (case attempt setup m True s of
            (Inl Longjmp, s) \<Rightarrow> bnd (bdd_checkreorder s) (\<lambda>_ s.
              (case attempt setup m False s of
                 (Inl Longjmp, s) \<Rightarrow> bnd (bdd_checkreorder s) (\<lambda>_ s. ret (Some 0) s)
               | r \<Rightarrow> r))
          | r \<Rightarrow> r) (\<lambda>r s.
     case r of None \<Rightarrow> ret bddfalse s
             | Some res \<Rightarrow> bnd (checkresize s) (\<lambda>_ s. ret res s))"

definition set_ops :: "(opglobals \<Rightarrow> opglobals) \<Rightarrow> bdd_state \<Rightarrow> bdd_state" where
  "set_ops f s = s\<lparr>ops := f (ops s)\<rparr>"

section \<open>Negation\<close>

primrec not_rec :: "nat \<Rightarrow> BDD \<Rightarrow> bdd_state \<Rightarrow> BDD bm" where
  "not_rec 0 r s = fail Nofuel s"
| "not_rec (Suc k) r s =
     (if ISZERO r then ret 1 s
      else if ISONE r then ret 0 s
      else PLAIN_CACHE_LOOKUP applycache (NOTHASH r) s (\<lambda>i.
        let e = table (applycache (caches s)) i in
        if BddCache_is_valid (applycache (caches s)) i \<and> c_a e = r \<and> c_c e = bddop_not
        then ret (c_res e) s
        else bnd (both (\<lambda>s. not_rec k (LOW s r) s) (\<lambda>s. not_rec k (HIGH s r) s)
                    (\<lambda>lo hi s. bdd_makenode (LEVEL s r) lo hi s) s) (\<lambda>res s.
             ret res (store applycache_update
               (\<lambda>e. e\<lparr>c_a := r, c_c := bddop_not, c_res := res\<rparr>) i s))))"

definition bdd_not :: "BDD \<Rightarrow> bdd_state \<Rightarrow> BDD bm" where
  "bdd_not r s = CHECKa r bddfalse s (\<lambda>s.
     again (\<lambda>s. ret 0 (INITREF s)) (\<lambda>s. not_rec (op_fuel s) r s) s)"

section \<open>Binary operators\<close>

text \<open>The returns of \<open>apply_rec\<close> before the cache is consulted.\<close>

definition apply_shortcut :: "int \<Rightarrow> BDD \<Rightarrow> BDD \<Rightarrow> BDD option" where
  "apply_shortcut op l r =
     (if op = bddop_and then
        if l = r then Some l
        else if ISZERO l \<or> ISZERO r then Some 0
        else if ISONE l then Some r
        else if ISONE r then Some l else None
      else if op = bddop_or then
        if l = r then Some l
        else if ISONE l \<or> ISONE r then Some 1
        else if ISZERO l then Some r
        else if ISZERO r then Some l else None
      else if op = bddop_xor then
        if l = r then Some 0
        else if ISZERO l then Some r
        else if ISZERO r then Some l else None
      else if op = bddop_nand then
        if ISZERO l \<or> ISZERO r then Some 1 else None
      else if op = bddop_nor then
        if ISONE l \<or> ISONE r then Some 0 else None
      else if op = bddop_imp then
        if ISZERO l then Some 1
        else if ISONE l then Some r
        else if ISONE r then Some 1 else None
      else None)"

primrec apply_rec :: "nat \<Rightarrow> BDD \<Rightarrow> BDD \<Rightarrow> bdd_state \<Rightarrow> BDD bm" where
  "apply_rec 0 l r s = fail Nofuel s"
| "apply_rec (Suc k) l r s =
     (let op = applyop (ops s) in
      case apply_shortcut op l r of
        Some res \<Rightarrow> ret res s
      | None \<Rightarrow>
        if ISCONST l \<and> ISCONST r then ret (oprres_at op l r) s
        else PLAIN_CACHE_LOOKUP applycache (APPLYHASH l r op) s (\<lambda>i.
          let e = table (applycache (caches s)) i in
          if BddCache_is_valid (applycache (caches s)) i \<and> c_a e = l \<and> c_b e = r \<and> c_c e = op
          then ret (c_res e) s
          else bnd
            (if LEVEL s l = LEVEL s r then
               both (\<lambda>s. apply_rec k (LOW s l) (LOW s r) s) (\<lambda>s. apply_rec k (HIGH s l) (HIGH s r) s)
                 (\<lambda>lo hi s. bdd_makenode (LEVEL s l) lo hi s) s
             else if LEVEL s l < LEVEL s r then
               both (\<lambda>s. apply_rec k (LOW s l) r s) (\<lambda>s. apply_rec k (HIGH s l) r s)
                 (\<lambda>lo hi s. bdd_makenode (LEVEL s l) lo hi s) s
             else
               both (\<lambda>s. apply_rec k l (LOW s r) s) (\<lambda>s. apply_rec k l (HIGH s r) s)
                 (\<lambda>lo hi s. bdd_makenode (LEVEL s r) lo hi s) s) (\<lambda>res s.
            ret res (store applycache_update
              (\<lambda>e. e\<lparr>c_a := l, c_b := r, c_c := applyop (ops s), c_res := res\<rparr>) i s))))"

definition bdd_apply :: "BDD \<Rightarrow> BDD \<Rightarrow> int \<Rightarrow> bdd_state \<Rightarrow> BDD bm" where
  "bdd_apply l r op s = CHECKa l bddfalse s (\<lambda>s. CHECKa r bddfalse s (\<lambda>s.
     if op < 0 \<or> op > bddop_invimp then bnd (bdd_error BDD_OP s) (\<lambda>_ s. ret bddfalse s)
     else again (\<lambda>s. ret 0 (set_ops (\<lambda>g. g\<lparr>applyop := op\<rparr>) (INITREF s)))
            (\<lambda>s. apply_rec (op_fuel s) l r s) s))"

definition bdd_and :: "BDD \<Rightarrow> BDD \<Rightarrow> bdd_state \<Rightarrow> BDD bm" where "bdd_and l r = bdd_apply l r bddop_and"
definition bdd_or :: "BDD \<Rightarrow> BDD \<Rightarrow> bdd_state \<Rightarrow> BDD bm" where "bdd_or l r = bdd_apply l r bddop_or"
definition bdd_xor :: "BDD \<Rightarrow> BDD \<Rightarrow> bdd_state \<Rightarrow> BDD bm" where "bdd_xor l r = bdd_apply l r bddop_xor"
definition bdd_imp :: "BDD \<Rightarrow> BDD \<Rightarrow> bdd_state \<Rightarrow> BDD bm" where "bdd_imp l r = bdd_apply l r bddop_imp"
definition bdd_biimp :: "BDD \<Rightarrow> BDD \<Rightarrow> bdd_state \<Rightarrow> BDD bm" where "bdd_biimp l r = bdd_apply l r bddop_biimp"

section \<open>If-then-else\<close>

text \<open>
  The nine cases of \<open>ite_rec\<close> descend in those of \<open>f\<close>, \<open>g\<close>, \<open>h\<close> that are at
  the level of the new node; \<open>ite_split\<close> lists them with that level.
\<close>

datatype which = F_G_H | F_G | H_only | F_H | F_only | G_H | G_only

definition ite_split :: "bdd_state \<Rightarrow> BDD \<Rightarrow> BDD \<Rightarrow> BDD \<Rightarrow> which" where
  "ite_split s f g h =
     (if LEVEL s f = LEVEL s g then
        if LEVEL s f = LEVEL s h then F_G_H
        else if LEVEL s f < LEVEL s h then F_G else H_only
      else if LEVEL s f < LEVEL s g then
        if LEVEL s f = LEVEL s h then F_H
        else if LEVEL s f < LEVEL s h then F_only else H_only
      else
        if LEVEL s g = LEVEL s h then G_H
        else if LEVEL s g < LEVEL s h then G_only else H_only)"

primrec ite_rec :: "nat \<Rightarrow> BDD \<Rightarrow> BDD \<Rightarrow> BDD \<Rightarrow> bdd_state \<Rightarrow> BDD bm" where
  "ite_rec 0 f g h s = fail Nofuel s"
| "ite_rec (Suc k) f g h s =
     (if ISONE f then ret g s
      else if ISZERO f then ret h s
      else if g = h then ret g s
      else if ISONE g \<and> ISZERO h then ret f s
      else if ISZERO g \<and> ISONE h then not_rec (Suc k) f s
      else PLAIN_CACHE_LOOKUP itecache (ITEHASH f g h) s (\<lambda>i.
        let e = table (itecache (caches s)) i in
        if BddCache_is_valid (itecache (caches s)) i \<and> c_a e = f \<and> c_b e = g \<and> c_c e = h
        then ret (c_res e) s
        else bnd (case ite_split s f g h of
            F_G_H \<Rightarrow> both (\<lambda>s. ite_rec k (LOW s f) (LOW s g) (LOW s h) s)
                       (\<lambda>s. ite_rec k (HIGH s f) (HIGH s g) (HIGH s h) s)
                       (\<lambda>lo hi s. bdd_makenode (LEVEL s f) lo hi s) s
          | F_G \<Rightarrow> both (\<lambda>s. ite_rec k (LOW s f) (LOW s g) h s) (\<lambda>s. ite_rec k (HIGH s f) (HIGH s g) h s)
                       (\<lambda>lo hi s. bdd_makenode (LEVEL s f) lo hi s) s
          | H_only \<Rightarrow> both (\<lambda>s. ite_rec k f g (LOW s h) s) (\<lambda>s. ite_rec k f g (HIGH s h) s)
                       (\<lambda>lo hi s. bdd_makenode (LEVEL s h) lo hi s) s
          | F_H \<Rightarrow> both (\<lambda>s. ite_rec k (LOW s f) g (LOW s h) s) (\<lambda>s. ite_rec k (HIGH s f) g (HIGH s h) s)
                       (\<lambda>lo hi s. bdd_makenode (LEVEL s f) lo hi s) s
          | F_only \<Rightarrow> both (\<lambda>s. ite_rec k (LOW s f) g h s) (\<lambda>s. ite_rec k (HIGH s f) g h s)
                       (\<lambda>lo hi s. bdd_makenode (LEVEL s f) lo hi s) s
          | G_H \<Rightarrow> both (\<lambda>s. ite_rec k f (LOW s g) (LOW s h) s) (\<lambda>s. ite_rec k f (HIGH s g) (HIGH s h) s)
                       (\<lambda>lo hi s. bdd_makenode (LEVEL s g) lo hi s) s
          | G_only \<Rightarrow> both (\<lambda>s. ite_rec k f (LOW s g) h s) (\<lambda>s. ite_rec k f (HIGH s g) h s)
                       (\<lambda>lo hi s. bdd_makenode (LEVEL s g) lo hi s) s)
          (\<lambda>res s. ret res (store itecache_update
             (\<lambda>e. e\<lparr>c_a := f, c_b := g, c_c := h, c_res := res\<rparr>) i s))))"

definition bdd_ite :: "BDD \<Rightarrow> BDD \<Rightarrow> BDD \<Rightarrow> bdd_state \<Rightarrow> BDD bm" where
  "bdd_ite f g h s = CHECKa f bddfalse s (\<lambda>s. CHECKa g bddfalse s (\<lambda>s. CHECKa h bddfalse s (\<lambda>s.
     again (\<lambda>s. ret 0 (INITREF s)) (\<lambda>s. ite_rec (op_fuel s) f g h s) s)))"

end
