(* ===== verification/OpFrame.thy ===== *)
theory OpFrame
  imports Sem Bddop
begin

text \<open>
  The frame in which the diagram operations are verified. The locale \<open>op_frame\<close> takes what
  is known of the caches as a predicate \<open>cok\<close> with two laws: it survives the creation of nodes,
  and it holds of emptied caches. From these follow the rules for \<open>bdd_makenode\<close> and the shape
  \<open>both\<close>, which every operation's proof uses. The part of the latter that concerns the reference stack only is in the
  locale \<open>stack_frame\<close>, which the operations on multi-terminal diagrams share.
\<close>

section \<open>Bounds and results\<close>

text \<open>The height of a node above the constants bounds the recursions.\<close>

definition dep :: "bdd_state \<Rightarrow> int \<Rightarrow> nat" where
  "dep s n = nat (bddvarnum s - LEVEL s n)"

definition room :: "bdd_state \<Rightarrow> nat \<Rightarrow> bool" where
  "room s d = (int (length (bddrefstack s)) + 2 * int d \<le> bddrefslots s)"

lemma room_mono: "room s d \<Longrightarrow> d' \<le> d \<Longrightarrow> room s d'"
  by (simp add: room_def)

text \<open>\<open>r\<close> is a node not above level \<open>L\<close> and, unless an error is pending, stands for \<open>F\<close>.\<close>

definition res_ok :: "bdd_state \<Rightarrow> int \<Rightarrow> ((int \<Rightarrow> bool) \<Rightarrow> bool) \<Rightarrow> int \<Rightarrow> bool" where
  "res_ok s L F r =
     (node_id s r \<and> L \<le> LEVEL s r \<and> (bdderrorcond s = 0 \<longrightarrow> (\<forall>e. sem s r e = F e)))"

lemma res_ok_mono: "res_ok s L F r \<Longrightarrow> L' \<le> L \<Longrightarrow> (\<And>e. F e = G e) \<Longrightarrow> res_ok s L' G r"
  by (simp add: res_ok_def)

lemma res_ok_grow:
  assumes "res_ok s L F r" "grow s t" "tab_inv s" "bdderrorcond t = 0 \<Longrightarrow> bdderrorcond s = 0"
  shows "res_ok t L F r"
proof -
  have "node_id s r" using assms(1) by (simp add: res_ok_def)
  note G = grow_node [OF assms(2,3) this]
  show ?thesis using assms(1,4) G by (simp add: res_ok_def same_node_def)
qed

text \<open>The part of the invariant that is not about the caches.\<close>

definition bdd_base :: "bdd_state \<Rightarrow> bool" where
  "bdd_base s = (kinv s \<and> bdd_table s \<and> bddrunning s \<and> \<not> mtbdd s)"

lemma bdd_baseD:
  assumes "bdd_base s"
  shows "kinv s" "bdd_table s" "bddrunning s" "\<not> mtbdd s" "tab_inv s"
  using assms kinvD(1) by (auto simp: bdd_base_def)

lemma arg_level:
  assumes "bdd_base s" "node_id s n"
  shows "0 \<le> LEVEL s n" "LEVEL s n \<le> bddvarnum s"
  using bdd_node [OF bdd_baseD(2,5) [OF assms(1)] assms(2)] by simp_all

lemma dep_pos: "bdd_base s \<Longrightarrow> node_id s n \<Longrightarrow> 2 \<le> n \<Longrightarrow> 0 < dep s n"
  using bdd_node(5) [OF bdd_baseD(2,5)] by (simp add: dep_def)

section \<open>The reference stack\<close>

definition pushed :: "int \<Rightarrow> bdd_state \<Rightarrow> bdd_state" where
  "pushed a s = s\<lparr>bddrefstack := a # bddrefstack s\<rparr>"

lemma acc_refstack [simp]:
  "LEVEL (s\<lparr>bddrefstack := xs\<rparr>) = LEVEL s" "LOW (s\<lparr>bddrefstack := xs\<rparr>) = LOW s"
  "HIGH (s\<lparr>bddrefstack := xs\<rparr>) = HIGH s" "allocd (s\<lparr>bddrefstack := xs\<rparr>) = allocd s"
  "node_id (s\<lparr>bddrefstack := xs\<rparr>) = node_id s" "inner (s\<lparr>bddrefstack := xs\<rparr>) = inner s"
  by (simp_all add: fun_eq_iff LEVEL_def LOW_def HIGH_def allocd_def node_id_def inner_def)

lemma tab_inv_refstack:
  assumes "tab_inv s" "\<And>x. x \<in> set xs \<Longrightarrow> node_id s x"
  shows "tab_inv (s\<lparr>bddrefstack := xs\<rparr>)"
proof -
  have "gbc_hash (s\<lparr>bddrefstack := xs\<rparr>) n = gbc_hash s n" for n
    by (rule gbc_hash_cong) simp_all
  moreover have "nx (s\<lparr>bddrefstack := xs\<rparr>) = nx s" "bucket (s\<lparr>bddrefstack := xs\<rparr>) = bucket s"
    by (simp_all add: fun_eq_iff nx_def bucket_def)
  ultimately have "built 2 (s\<lparr>bddrefstack := xs\<rparr>) = built 2 s"
    by (simp add: built_def bucket_ok_def free_ok_def)
  moreover have "wf_nodes (s\<lparr>bddrefstack := xs\<rparr>) = wf_nodes s"
    "unique_nodes (s\<lparr>bddrefstack := xs\<rparr>) = unique_nodes s"
    "slots_distinct (s\<lparr>bddrefstack := xs\<rparr>) = slots_distinct s"
    by (simp_all add: wf_nodes_def unique_nodes_def slots_distinct_def below_def)
  moreover have "size_ok (s\<lparr>bddrefstack := xs\<rparr>) = size_ok s"
    "consts_ok (s\<lparr>bddrefstack := xs\<rparr>) = consts_ok s"
    "marks_clear (s\<lparr>bddrefstack := xs\<rparr>) = marks_clear s"
    "refs_ok (s\<lparr>bddrefstack := xs\<rparr>) = refs_ok s"
    by (simp_all add: size_ok_def consts_ok_def marks_clear_def refs_ok_def MARKED_def)
  moreover have "stack_ok (s\<lparr>bddrefstack := xs\<rparr>)" using assms(2) by (simp add: stack_ok_def)
  ultimately show ?thesis using assms(1) by (simp add: tab_inv_def)
qed

lemma bdd_base_refstack:
  assumes "bdd_base s" "\<And>x. x \<in> set xs \<Longrightarrow> node_id s x"
  shows "bdd_base (s\<lparr>bddrefstack := xs\<rparr>)"
proof -
  have "env_ok (s\<lparr>bddrefstack := xs\<rparr>) = env_ok s" by (rule env_ok_stat) simp
  then show ?thesis
    using assms tab_inv_refstack [of s xs]
    by (simp add: bdd_base_def kinv_def prime_size_def bdd_table_def)
qed

lemma sem_refstack [simp]: "tab_inv s \<Longrightarrow> node_id s n \<Longrightarrow> sem (s\<lparr>bddrefstack := xs\<rparr>) n e = sem s n e"
  by (rule sem_eq [OF tab_invD(3)]) (simp_all add: agree_def same_node_def)

lemma ext_refstack_push: "set (bddrefstack s) \<subseteq> set xs \<Longrightarrow> ext s (s\<lparr>bddrefstack := xs\<rparr>)"
  by (simp add: ext_def same_node_def)

lemma ext_refstack_pop:
  assumes "ext s t" "set (bddrefstack s) \<subseteq> set xs"
  shows "ext s (t\<lparr>bddrefstack := xs\<rparr>)"
  using assms by (simp add: ext_def same_node_def)

lemma PUSHREF_eq: "room s d \<Longrightarrow> 0 < d \<Longrightarrow> PUSHREF a s = ret a (pushed a s)"
  by (simp add: PUSHREF_def room_def pushed_def)

lemma arg_top: "node_id s a \<Longrightarrow> arg (pushed a s) a"
  by (simp add: arg_def pushed_def live_stack)

section \<open>The shape \<open>both\<close>\<close>

text \<open>
  Two calls whose results are protected on the reference stack, and a third one that combines them. The rule
  is independent of what a state has to satisfy (\<open>good\<close>) and of how results are described (\<open>fine s f r\<close>).
\<close>

locale stack_frame =
  fixes good :: "bdd_state \<Rightarrow> bool"
    and fine :: "bdd_state \<Rightarrow> 'f \<Rightarrow> int \<Rightarrow> bool"
  assumes good_inv: "good s \<Longrightarrow> tab_inv s"
    and good_stack: "good s \<Longrightarrow> (\<And>x. x \<in> set xs \<Longrightarrow> node_id s x) \<Longrightarrow> good (s\<lparr>bddrefstack := xs\<rparr>)"
    and fine_node: "fine s f r \<Longrightarrow> node_id s r"
    and fine_stack: "fine s f r \<Longrightarrow> tab_inv s \<Longrightarrow> fine (s\<lparr>bddrefstack := xs\<rparr>) f r"
    and fine_ext: "fine s f r \<Longrightarrow> ext s t \<Longrightarrow> tab_inv s \<Longrightarrow> arg s r \<Longrightarrow> fine t f r"
begin

definition yields :: "bdd_state \<Rightarrow> ('f \<Rightarrow> bool) \<Rightarrow> int \<Rightarrow> bdd_state \<Rightarrow> bool" where
  "yields s P r t = (\<exists>f. P f \<and> good t \<and> ext s t \<and> bddrefstack t = bddrefstack s \<and> fine t f r)"

lemma good_pushed: "good s \<Longrightarrow> node_id s a \<Longrightarrow> good (pushed a s)"
  unfolding pushed_def
  by (rule good_stack) (use tab_invD(8) [OF good_inv, of s] in \<open>auto simp: stack_ok_def\<close>)

lemma both_yields:
  assumes I: "good s" and R: "room s (Suc d)"
    and f: "runs (f s) (yields s P0)"
    and g: "\<And>s1. good s1 \<Longrightarrow> ext s s1 \<Longrightarrow> room s1 d \<Longrightarrow> runs (g s1) (yields s1 P1)"
    and k: "\<And>s2 l h F0 F1. good s2 \<Longrightarrow> ext s s2 \<Longrightarrow> room s2 d \<Longrightarrow> arg s2 l \<Longrightarrow> arg s2 h \<Longrightarrow>
              P0 F0 \<Longrightarrow> P1 F1 \<Longrightarrow> fine s2 F0 l \<Longrightarrow> fine s2 F1 h \<Longrightarrow>
              runs (k l h s2) (yields s2 P)"
  shows "runs (both f g k s) (yields s P)"
  unfolding both_def
proof (rule runs_bnd [OF f])
  note B = good_inv [OF I]
  fix l t1 assume "yields s P0 l t1"
  then obtain F0 where q0: "P0 F0"
    and t1: "good t1" "ext s t1" "bddrefstack t1 = bddrefstack s" "fine t1 F0 l" "node_id t1 l"
    using fine_node by (auto simp: yields_def)
  have sl1: "bddrefslots t1 = bddrefslots s" using t1(2) by (intro statD) (simp add: ext_def)
  let ?s1 = "pushed l t1"
  have R1: "room t1 (Suc d)" using R t1(3) sl1 by (simp add: room_def)
  have I1: "good ?s1" by (rule good_pushed [OF t1(1,5)])
  have E1: "ext s ?s1" using t1(2,3) unfolding pushed_def by (intro ext_refstack_pop) auto
  have Rs1: "room ?s1 d" using R1 by (simp add: room_def pushed_def)
  have r1: "fine ?s1 F0 l" "arg ?s1 l"
    using t1(4,5) good_inv [OF t1(1)] by (simp_all add: pushed_def fine_stack arg_top [unfolded pushed_def])
  have "runs (bnd (g ?s1) (\<lambda>h s. bnd (PUSHREF h s) (\<lambda>_ s.
      bnd (k (READREF 2 s) (READREF 1 s) s) (\<lambda>res s. bnd (POPREF 2 s) (\<lambda>_ s. ret res s)))))
    (yields s P)"
  proof (rule runs_bnd [OF g [OF I1 E1 Rs1]])
    fix h t2 assume "yields ?s1 P1 h t2"
    then obtain F1 where q1: "P1 F1"
      and t2: "good t2" "ext ?s1 t2" "bddrefstack t2 = l # bddrefstack s" "fine t2 F1 h" "node_id t2 h"
      using t1(3) fine_node by (auto simp: yields_def pushed_def)
    have "bddrefslots t2 = bddrefslots s"
      using t2(2) sl1 statD(5) [of t2 ?s1] by (simp add: ext_def pushed_def)
    then have R2: "room (pushed h t2) d" "int (length (bddrefstack t2)) < bddrefslots t2"
      using R t2(3) by (simp_all add: room_def pushed_def)
    let ?s2 = "pushed h t2"
    have I2: "good ?s2" by (rule good_pushed [OF t2(1,5)])
    have E2: "ext ?s1 ?s2" using t2(2,3) t1(3) unfolding pushed_def by (intro ext_refstack_pop) auto
    then have Es2: "ext s ?s2" by (rule ext_trans [OF B E1])
    have al: "arg ?s2 l" "fine ?s2 F0 l"
      using arg_ext(1) [OF E2 good_inv [OF I1] r1(2)] fine_ext [OF r1(1) E2 good_inv [OF I1] r1(2)]
      by simp_all
    have ah: "arg ?s2 h" "fine ?s2 F1 h"
      using t2(4,5) good_inv [OF t2(1)] by (simp_all add: pushed_def fine_stack arg_top [unfolded pushed_def])
    have rd: "READREF 2 ?s2 = l" "READREF 1 ?s2 = h"
      by (simp_all add: READREF_def pushed_def t2(3))
    have pu: "PUSHREF h t2 = ret h ?s2" using R2(2) by (simp add: PUSHREF_def pushed_def)
    have "runs (bnd (k l h ?s2) (\<lambda>res s. bnd (POPREF 2 s) (\<lambda>_ s. ret res s))) (yields s P)"
    proof (rule runs_bnd [OF k [OF I2 Es2 R2(1) al(1) ah(1) q0 q1 al(2) ah(2)]])
      fix r t3 assume "yields ?s2 P r t3"
      then obtain F where q: "P F"
        and t3: "good t3" "ext ?s2 t3" "bddrefstack t3 = h # l # bddrefstack s" "fine t3 F r"
        using t2(3) by (auto simp: yields_def pushed_def)
      let ?t = "t3\<lparr>bddrefstack := bddrefstack s\<rparr>"
      have "good ?t"
        by (rule good_stack [OF t3(1)])
          (use tab_invD(8) [OF good_inv [OF t3(1)]] t3(3) in \<open>auto simp: stack_ok_def\<close>)
      moreover have "ext s ?t"
        by (rule ext_refstack_pop [OF ext_trans [OF B Es2 t3(2)]]) simp
      ultimately have "yields s P r ?t"
        using q fine_stack [OF t3(4) good_inv [OF t3(1)]] by (auto simp: yields_def)
      then show "runs (bnd (POPREF 2 t3) (\<lambda>_ s. ret r s)) (yields s P)"
        by (simp add: POPREF_def t3(3))
    qed
    then show "runs (bnd (PUSHREF h t2) (\<lambda>_ s. bnd (k (READREF 2 s) (READREF 1 s) s)
        (\<lambda>res s. bnd (POPREF 2 s) (\<lambda>_ s. ret res s)))) (yields s P)"
      by (simp only: pu bnd_ret rd)
  qed
  then show "runs (bnd (PUSHREF l t1) (\<lambda>_ s. bnd (g s) (\<lambda>h s. bnd (PUSHREF h s) (\<lambda>_ s.
      bnd (k (READREF 2 s) (READREF 1 s) s) (\<lambda>res s. bnd (POPREF 2 s) (\<lambda>_ s. ret res s))))))
    (yields s P)"
    by (simp only: PUSHREF_eq [OF R1 zero_less_Suc] bnd_ret)
qed

end

section \<open>The frame\<close>

locale op_frame =
  fixes cok :: "bdd_state \<Rightarrow> bool"
  assumes cok_grow:
      "cok s \<Longrightarrow> tab_inv s \<Longrightarrow> grow s t \<Longrightarrow> caches t = caches s \<Longrightarrow> stat t = stat s \<Longrightarrow>
       (bdderrorcond t = 0 \<Longrightarrow> bdderrorcond s = 0) \<Longrightarrow> cok t"
    and cok_reset:
      "cok s \<Longrightarrow> caches t = caches (bdd_operator_reset s) \<Longrightarrow> stat t = stat s \<Longrightarrow> cok t"
begin

definition inv :: "bdd_state \<Rightarrow> bool" where
  "inv s = (bdd_base s \<and> cok s)"

definition post :: "bdd_state \<Rightarrow> int \<Rightarrow> ((int \<Rightarrow> bool) \<Rightarrow> bool) \<Rightarrow> int \<Rightarrow> bdd_state \<Rightarrow> bool" where
  "post s L F r t = (inv t \<and> ext s t \<and> bddrefstack t = bddrefstack s \<and> res_ok t L F r)"

lemma invD: "inv s \<Longrightarrow> bdd_base s" "inv s \<Longrightarrow> cok s" "inv s \<Longrightarrow> tab_inv s"
  by (simp_all add: inv_def bdd_baseD)

lemma cok_refstack: "inv s \<Longrightarrow> cok (s\<lparr>bddrefstack := xs\<rparr>)"
  by (rule cok_grow [of s]) (auto simp: inv_def bdd_baseD grow_def same_node_def)

lemma inv_refstack: "inv s \<Longrightarrow> (\<And>x. x \<in> set xs \<Longrightarrow> node_id s x) \<Longrightarrow> inv (s\<lparr>bddrefstack := xs\<rparr>)"
  using bdd_base_refstack [of s xs] cok_refstack [of s xs] by (simp add: inv_def)

lemma inv_pushed: "inv s \<Longrightarrow> node_id s a \<Longrightarrow> inv (pushed a s)"
  unfolding pushed_def
  by (rule inv_refstack) (use tab_invD(8) [OF invD(3), of s] in \<open>auto simp: stack_ok_def\<close>)

lemma arg_pushed: "arg s n \<Longrightarrow> inv s \<Longrightarrow> arg (pushed a s) n"
  unfolding pushed_def by (rule arg_ext(1) [OF ext_refstack_push]) (auto intro: invD)

text \<open>A result stays right while it is protected.\<close>

lemma res_ok_ext:
  assumes "res_ok s L F r" "ext s t" "tab_inv s" "arg s r"
  shows "res_ok t L F r"
  using arg_ext [OF assms(2-4)] assms(1,2) by (auto simp: res_ok_def arg_def same_node_def ext_def)

lemma res_ok_refstack: "res_ok s L F r \<Longrightarrow> tab_inv s \<Longrightarrow> res_ok (s\<lparr>bddrefstack := xs\<rparr>) L F r"
  by (simp add: res_ok_def)

section \<open>Node creation\<close>

lemma made_inv:
  assumes I: "inv s" and M: "made s lev lo hi r t" and lev: "0 \<le> lev" "lev < bddvarnum s"
  shows "inv t"
proof -
  note B = bdd_baseD [OF invD(1) [OF I]]
  note T = B(2)
  have K: "kinv t" and E: "ext s t" and C: "caches_rel s t" and N: "only_new s lev lo hi t"
    using M by (simp_all add: made_def)
  have st: "stat t = stat s" using E by (simp add: ext_def)
  note D = statD [OF st]
  have c01: "same_node s t 0" "same_node s t 1" using E by (simp_all add: ext_def)
  have "LEVEL t n < bddvarnum t \<and> LOW t n \<noteq> HIGH t n" if "allocd t n" for n
    using N that T lev D(4) by (auto simp: only_new_def bdd_table_def same_node_def)
  then have "bdd_table t"
    using T D c01 by (simp add: bdd_table_def same_node_def)
  then have "bdd_base t" using K B D by (simp add: bdd_base_def)
  moreover have "cok t"
  proof -
    from C consider "caches t = caches s" "\<forall>n. allocd s n \<longrightarrow> allocd t n \<and> same_node s t n"
      | "caches t = caches (bdd_operator_reset s)" unfolding caches_rel_def by blast
    then show ?thesis
    proof cases
      case 1
      then have "grow s t" using c01 by (simp add: grow_def)
      then show ?thesis using 1 E invD(2,3) [OF I] st by (intro cok_grow [of s t]) (auto simp: ext_def)
    next
      case 2
      then show ?thesis using invD(2) [OF I] st by (intro cok_reset [of s t])
    qed
  qed
  ultimately show ?thesis by (simp add: inv_def)
qed

lemma makenode_rule:
  assumes I: "inv s" and lev: "0 \<le> lev" "lev < bddvarnum s" and a: "arg s lo" "arg s hi"
    and lv: "lev < LEVEL s lo" "lev < LEVEL s hi"
  shows "runs (bdd_makenode lev lo hi s) (post s lev (\<lambda>e. if e lev then sem s hi e else sem s lo e))"
proof -
  note B = bdd_baseD [OF invD(1) [OF I]]
  have lm: "lev < MAXLEVEL" using lev(2) B(2) by (simp add: bdd_table_def MAXVAR_def MAXLEVEL_def)
  have fits: "fits s lev lo" "fits s lev hi" using a lv by (auto intro!: arg_fits simp: below_def)
  show ?thesis
  proof (rule runs_conseq [OF bdd_makenode_spec [OF B(1) lev(1) lm fits]])
    fix r t assume M: "made s lev lo hi r t"
    then have E: "ext s t" and K: "kinv t" and st: "bddrefstack t = bddrefstack s"
      and N: "is_node t lev lo hi r \<or> r = 0 \<and> bdderrorcond t \<noteq> 0" by (simp_all add: made_def)
    have It: "inv t" by (rule made_inv [OF I M lev])
    note L = arg_ext [OF E B(5) a(1)] and H = arg_ext [OF E B(5) a(2)]
    from N have "res_ok t lev (\<lambda>e. if e lev then sem s hi e else sem s lo e) r"
    proof
      assume n: "is_node t lev lo hi r"
      show ?thesis
      proof (cases "checkSameChildren t \<and> lo = hi")
        case True
        then have "r = lo" using n by (simp add: is_node_def)
        then show ?thesis using True L lv by (simp add: res_ok_def arg_def same_node_def)
      next
        case False
        then have "inner t r" "LEVEL t r = lev" "LOW t r = lo" "HIGH t r = hi"
          using n unfolding is_node_def by (simp_all split: if_splits)
        then show ?thesis using L(3) H(3) by (simp add: res_ok_def sem_inner inner_def node_id_def)
      qed
    next
      assume r: "r = 0 \<and> bdderrorcond t \<noteq> 0"
      have "same_node s t 0" using E by (simp add: ext_def)
      then have "LEVEL t 0 = bddvarnum s" using B(2) by (simp add: bdd_table_def same_node_def)
      then show ?thesis using r lev by (simp add: res_ok_def node_id_def)
    qed
    then show "post s lev (\<lambda>e. if e lev then sem s hi e else sem s lo e) r t"
      using It E st by (simp add: post_def)
  qed
qed

section \<open>Two recursive calls\<close>

text \<open>
  A result whose function is only known to have a property: \<open>posts s L P\<close>. The rule for
  \<open>both\<close> is the one of the stack frame in this form.
\<close>

sublocale stack: stack_frame inv "\<lambda>s p r. res_ok s (fst p) (snd p) r"
proof
  show "node_id s r" if "res_ok s (fst f) (snd f) r" for s r and f :: "int \<times> ((int \<Rightarrow> bool) \<Rightarrow> bool)"
    using that by (simp add: res_ok_def)
qed (fact invD(3) inv_refstack res_ok_refstack res_ok_ext)+

definition posts :: "bdd_state \<Rightarrow> int \<Rightarrow> (((int \<Rightarrow> bool) \<Rightarrow> bool) \<Rightarrow> bool) \<Rightarrow> int \<Rightarrow> bdd_state \<Rightarrow> bool" where
  "posts s L P r t = (\<exists>F. P F \<and> post s L F r t)"

lemma posts_eq: "posts s L ((=) F) = post s L F"
  unfolding posts_def by (intro HOL.ext) simp

lemma posts_yields: "posts s L P = stack.yields s (\<lambda>(L', F). L' = L \<and> P F)"
  by (auto simp: fun_eq_iff posts_def post_def stack.yields_def)

lemma posts_post: "posts s L P r t \<Longrightarrow> (\<And>F. P F \<Longrightarrow> post s L F r t \<Longrightarrow> Q) \<Longrightarrow> Q"
  by (auto simp: posts_def)

lemma both_posts:
  assumes I: "inv s" and R: "room s (Suc d)"
    and f: "runs (f s) (posts s L0 P0)"
    and g: "\<And>s1. inv s1 \<Longrightarrow> ext s s1 \<Longrightarrow> room s1 d \<Longrightarrow> runs (g s1) (posts s1 L1 P1)"
    and k: "\<And>s2 l h F0 F1. inv s2 \<Longrightarrow> ext s s2 \<Longrightarrow> room s2 d \<Longrightarrow> arg s2 l \<Longrightarrow> arg s2 h \<Longrightarrow>
              P0 F0 \<Longrightarrow> P1 F1 \<Longrightarrow> res_ok s2 L0 F0 l \<Longrightarrow> res_ok s2 L1 F1 h \<Longrightarrow>
              runs (k l h s2) (posts s2 L P)"
  shows "runs (both f g k s) (posts s L P)"
  unfolding posts_yields
proof (rule stack.both_yields [where f = f and g = g and k = k and s = s and d = d, OF I R])
  show "runs (f s) (stack.yields s (\<lambda>(L', F). L' = L0 \<and> P0 F))" using f by (simp add: posts_yields)
  show "runs (g s1) (stack.yields s1 (\<lambda>(L', F). L' = L1 \<and> P1 F))"
    if "inv s1" "ext s s1" "room s1 d" for s1 using g [OF that] by (simp add: posts_yields)
  fix s2 l h and F0 F1 :: "int \<times> ((int \<Rightarrow> bool) \<Rightarrow> bool)"
  assume "inv s2" "ext s s2" "room s2 d" "arg s2 l" "arg s2 h"
    "case F0 of (L', F) \<Rightarrow> L' = L0 \<and> P0 F" "case F1 of (L', F) \<Rightarrow> L' = L1 \<and> P1 F"
    "res_ok s2 (fst F0) (snd F0) l" "res_ok s2 (fst F1) (snd F1) h"
  then show "runs (k l h s2) (stack.yields s2 (\<lambda>(L', F). L' = L \<and> P F))"
    using k [of s2 l h "snd F0" "snd F1"] by (simp add: posts_yields split_beta)
qed

lemma both_rule:
  assumes I: "inv s" and R: "room s (Suc d)"
    and f: "runs (f s) (post s L0 F0)"
    and g: "\<And>s1. inv s1 \<Longrightarrow> ext s s1 \<Longrightarrow> room s1 d \<Longrightarrow> runs (g s1) (post s1 L1 F1)"
    and k: "\<And>s2 l h. inv s2 \<Longrightarrow> ext s s2 \<Longrightarrow> room s2 d \<Longrightarrow> arg s2 l \<Longrightarrow> arg s2 h \<Longrightarrow>
              res_ok s2 L0 F0 l \<Longrightarrow> res_ok s2 L1 F1 h \<Longrightarrow> runs (k l h s2) (post s2 L F)"
  shows "runs (both f g k s) (post s L F)"
  using both_posts [of s d f L0 "(=) F0" g L1 "(=) F1" k L "(=) F", OF I R] f g k
  by (simp add: posts_eq)

text \<open>Shannon expansion: a new node at the level of the argument \<open>x\<close>.\<close>

lemma shannon_node:
  assumes I: "inv s" and x: "arg s x" "2 \<le> x" and L0: "LEVEL s x < L0" and L1: "LEVEL s x < L1"
    and F: "\<And>e. F e = (if e (LEVEL s x) then F1 e else F0 e)"
    and s2: "inv s2" "ext s s2" and lh: "arg s2 l" "arg s2 h"
    and r: "res_ok s2 L0 F0 l" "res_ok s2 L1 F1 h"
  shows "runs (bdd_makenode (LEVEL s2 x) l h s2) (post s2 (LEVEL s x) F)"
proof -
  note B = bdd_baseD [OF invD(1) [OF I]]
  note X = arg_ext [OF s2(2) B(5) x(1)]
  have lv: "LEVEL s2 x = LEVEL s x" using X(2) by (simp add: same_node_def)
  have nx: "node_id s x" using x(1) by (simp add: arg_def)
  have vn: "bddvarnum s2 = bddvarnum s" using s2(2) by (intro statD) (simp add: ext_def)
  have "runs (bdd_makenode (LEVEL s x) l h s2)
      (post s2 (LEVEL s x) (\<lambda>e. if e (LEVEL s x) then sem s2 h e else sem s2 l e))"
    using bdd_node(1,5) [OF B(2,5) nx] x(2) r L0 L1 vn
    by (intro makenode_rule [OF s2(1) _ _ lh]) (auto simp: res_ok_def)
  then show ?thesis
    unfolding lv
  proof (rule runs_conseq)
    fix q t assume P: "post s2 (LEVEL s x) (\<lambda>e. if e (LEVEL s x) then sem s2 h e else sem s2 l e) q t"
    then have "bdderrorcond t = 0 \<Longrightarrow> bdderrorcond s2 = 0" by (simp add: post_def ext_def)
    then show "post s2 (LEVEL s x) F q t"
      using P r by (simp add: post_def res_ok_def F)
  qed
qed

lemma shannon:
  assumes I: "inv s" and R: "room s (Suc d)" and x: "arg s x" "2 \<le> x"
    and f: "runs (f s) (post s L0 F0)" and L0: "LEVEL s x < L0"
    and g: "\<And>s1. inv s1 \<Longrightarrow> ext s s1 \<Longrightarrow> room s1 d \<Longrightarrow> runs (g s1) (post s1 L1 F1)" and L1: "LEVEL s x < L1"
    and F: "\<And>e. F e = (if e (LEVEL s x) then F1 e else F0 e)"
  shows "runs (both f g (\<lambda>lo hi s. bdd_makenode (LEVEL s x) lo hi s) s) (post s (LEVEL s x) F)"
proof (rule both_rule [of s d f L0 F0 g L1 F1, OF I R f g])
  fix s2 l h
  assume s2: "inv s2" "ext s s2" and lh: "arg s2 l" "arg s2 h"
    and r: "res_ok s2 L0 F0 l" "res_ok s2 L1 F1 h"
  show "runs (bdd_makenode (LEVEL s2 x) l h s2) (post s2 (LEVEL s x) F)"
    by (rule shannon_node [of s x L0 L1 F F1 F0, OF I x L0 L1 F s2 lh r])
qed

end

end
