(* ===== verification/OpCaches.thy ===== *)
theory OpCaches
  imports OpFrame
begin

text \<open>
  What every valid entry of an operation cache means: the nodes it mentions are valid, and, unless
  an error is pending, its result stands for the function that its key asks for. This predicate
  satisfies the laws of \<open>op_frame\<close>, so the frame's rules apply to the library.
\<close>

section \<open>Reference semantics\<close>

text \<open>The binary operators.\<close>

definition bool_op :: "int \<Rightarrow> bool \<Rightarrow> bool \<Rightarrow> bool" where
  "bool_op op a b =
     (if op = bddop_and then a \<and> b
      else if op = bddop_xor then a \<noteq> b
      else if op = bddop_or then a \<or> b
      else if op = bddop_nand then \<not> (a \<and> b)
      else if op = bddop_nor then \<not> (a \<or> b)
      else if op = bddop_imp then (a \<longrightarrow> b)
      else if op = bddop_biimp then a = b
      else if op = bddop_diff then a \<and> \<not> b
      else if op = bddop_less then \<not> a \<and> b
      else (b \<longrightarrow> a))"

text \<open>Quantification of a function over a set of levels.\<close>

definition ex_q :: "int set \<Rightarrow> ((int \<Rightarrow> bool) \<Rightarrow> bool) \<Rightarrow> (int \<Rightarrow> bool) \<Rightarrow> bool" where
  "ex_q V F e = (\<exists>e'. (\<forall>v. v \<notin> V \<longrightarrow> e' v = e v) \<and> F e')"

definition all_q :: "int set \<Rightarrow> ((int \<Rightarrow> bool) \<Rightarrow> bool) \<Rightarrow> (int \<Rightarrow> bool) \<Rightarrow> bool" where
  "all_q V F e = (\<forall>e'. (\<forall>v. v \<notin> V \<longrightarrow> e' v = e v) \<longrightarrow> F e')"

text \<open>The levels in a variable set, which is a chain of \<open>HIGH\<close> edges.\<close>

inductive inset :: "bdd_state \<Rightarrow> int \<Rightarrow> int \<Rightarrow> bool" for s :: bdd_state where
  inset_top: "inner s n \<Longrightarrow> inset s n (LEVEL s n)"
| inset_next: "inner s n \<Longrightarrow> inset s (HIGH s n) v \<Longrightarrow> inset s n v"

inductive_cases insetE: "inset s n v"

definition vset :: "bdd_state \<Rightarrow> int \<Rightarrow> int set" where
  "vset s n = {v. inset s n v}"

text \<open>The values that a cube of literals gives to levels.\<close>

inductive lit :: "bdd_state \<Rightarrow> int \<Rightarrow> int \<Rightarrow> bool \<Rightarrow> bool" for s :: bdd_state where
  lit_pos: "inner s n \<Longrightarrow> LOW s n = 0 \<Longrightarrow> lit s n (LEVEL s n) True"
| lit_neg: "inner s n \<Longrightarrow> LOW s n \<noteq> 0 \<Longrightarrow> lit s n (LEVEL s n) False"
| lit_high: "inner s n \<Longrightarrow> LOW s n = 0 \<Longrightarrow> lit s (HIGH s n) v b \<Longrightarrow> lit s n v b"
| lit_low: "inner s n \<Longrightarrow> LOW s n \<noteq> 0 \<Longrightarrow> lit s (LOW s n) v b \<Longrightarrow> lit s n v b"

definition assign :: "(int \<Rightarrow> bool \<Rightarrow> bool) \<Rightarrow> (int \<Rightarrow> bool) \<Rightarrow> int \<Rightarrow> bool" where
  "assign L e v = (if L v True then True else if L v False then False else e v)"

definition restrict_q :: "(int \<Rightarrow> bool \<Rightarrow> bool) \<Rightarrow> ((int \<Rightarrow> bool) \<Rightarrow> bool) \<Rightarrow> (int \<Rightarrow> bool) \<Rightarrow> bool" where
  "restrict_q L F e = F (assign L e)"

text \<open>The paths from a node to the constant true, as the values of the levels they test.\<close>

inductive path :: "bdd_state \<Rightarrow> int \<Rightarrow> bool list \<Rightarrow> bool" for s :: bdd_state where
  path_end: "path s 1 []"
| path_low: "inner s n \<Longrightarrow> path s (LOW s n) p \<Longrightarrow> path s n (False # p)"
| path_high: "inner s n \<Longrightarrow> path s (HIGH s n) p \<Longrightarrow> path s n (True # p)"

inductive_cases pathE: "path s n p"

definition paths :: "bdd_state \<Rightarrow> int \<Rightarrow> nat" where
  "paths s n = card {p. path s n p}"

text \<open>The number of satisfying assignments of the levels from that of the node downwards.\<close>

definition sats :: "bdd_state \<Rightarrow> int \<Rightarrow> nat" where
  "sats s n = card {A. A \<subseteq> {LEVEL s n..<bddvarnum s} \<and> sem s n (\<lambda>v. v \<in> A)}"

definition log_sats :: "bdd_state \<Rightarrow> int \<Rightarrow> real" where
  "log_sats s n = (if sats s n = 0 then -1 else log 2 (real (sats s n)))"

text \<open>The levels of the nodes below \<open>n\<close>, and the level that replacement with \<open>p\<close> gives to a level.\<close>

definition levels :: "bdd_state \<Rightarrow> int \<Rightarrow> int set" where
  "levels s n = {LEVEL s m | m. reach s n m \<and> inner s m}"

definition pmap :: "bdd_state \<Rightarrow> bddPair \<Rightarrow> int \<Rightarrow> int" where
  "pmap s p l = (if 0 \<le> l \<and> l \<le> p_last p then LEVEL s (p_result p l) else l)"

definition psem :: "bdd_state \<Rightarrow> bddPair \<Rightarrow> (int \<Rightarrow> bool) \<Rightarrow> int \<Rightarrow> bool" where
  "psem s p e l = (if 0 \<le> l \<and> l \<le> p_last p then sem s (p_result p l) e else e l)"

lemma path_transfer:
  assumes "\<And>m. reach s n m \<Longrightarrow> inner s m \<Longrightarrow> inner t m \<and> same_node s t m"
  shows "path s n p \<Longrightarrow> path t n p"
proof -
  have "path s m p \<Longrightarrow> reach s n m \<Longrightarrow> path t m p" for m
  proof (induction rule: path.induct)
    case path_end
    then show ?case by (simp add: path.path_end)
  next
    case (path_low m p)
    then have "path t (LOW s m) p" by (auto intro: reach_low)
    then show ?case using assms [of m] path_low path.path_low [of t m p] by (simp add: same_node_def)
  next
    case (path_high m p)
    then have "path t (HIGH s m) p" by (auto intro: reach_high)
    then show ?case using assms [of m] path_high path.path_high [of t m p] by (simp add: same_node_def)
  qed
  then show "path s n p \<Longrightarrow> path t n p" by (auto intro: reach_self)
qed

lemma inset_transfer:
  assumes "\<And>m. reach s n m \<Longrightarrow> inner s m \<Longrightarrow> inner t m \<and> same_node s t m"
  shows "inset s n v \<Longrightarrow> inset t n v"
proof -
  have "inset s m v \<Longrightarrow> reach s n m \<Longrightarrow> inset t m v" for m
  proof (induction rule: inset.induct)
    case (inset_top m)
    then show ?case using assms [of m] inset.inset_top [of t m] by (simp add: same_node_def)
  next
    case (inset_next m v)
    then have "inset t (HIGH s m) v" by (auto intro: reach_high)
    then show ?case
      using assms [of m] inset_next inset.inset_next [of t m v] by (simp add: same_node_def)
  qed
  then show "inset s n v \<Longrightarrow> inset t n v" by (auto intro: reach_self)
qed

lemma lit_transfer:
  assumes "\<And>m. reach s n m \<Longrightarrow> inner s m \<Longrightarrow> inner t m \<and> same_node s t m"
  shows "lit s n v b \<Longrightarrow> lit t n v b"
proof -
  have "lit s m v b \<Longrightarrow> reach s n m \<Longrightarrow> lit t m v b" for m
  proof (induction rule: lit.induct)
    case (lit_pos m)
    then show ?case using assms [of m] lit.lit_pos [of t m] by (simp add: same_node_def)
  next
    case (lit_neg m)
    then show ?case using assms [of m] lit.lit_neg [of t m] by (simp add: same_node_def)
  next
    case (lit_high m v b)
    then have "lit t (HIGH s m) v b" by (auto intro: reach_high)
    then show ?case using assms [of m] lit_high lit.lit_high [of t m v b] by (simp add: same_node_def)
  next
    case (lit_low m v b)
    then have "lit t (LOW s m) v b" by (auto intro: reach_low)
    then show ?case using assms [of m] lit_low lit.lit_low [of t m v b] by (simp add: same_node_def)
  qed
  then show "lit s n v b \<Longrightarrow> lit t n v b" by (auto intro: reach_self)
qed

lemma agree_reach_fwd:
  assumes wf: "wf_nodes s" and A: "agree s t n"
  shows "reach s n m \<Longrightarrow> reach t n m"
proof (induction rule: reach.induct)
  case (reach_low m)
  then show ?case
    using agree_inner [OF wf A, of m] reach.reach_low [of t n m] by (auto simp: same_node_def)
next
  case (reach_high m)
  then show ?case
    using agree_inner [OF wf A, of m] reach.reach_high [of t n m] by (auto simp: same_node_def)
qed (rule reach_self)

lemma agree_sets:
  assumes wf: "wf_nodes s" and A: "agree s t n"
  shows "vset t n = vset s n" "lit t n v b = lit s n v b" "paths t n = paths s n"
    "levels t n = levels s n"
proof -
  have 1: "inner t m \<and> same_node s t m" if "reach s n m" "inner s m" for m
    using agree_inner [OF wf A] that by blast
  have 2: "inner s m \<and> same_node t s m" if "reach t n m" "inner t m" for m
    using agree_inner [OF wf A, of m] agree_reach [OF wf A, of m] that by (auto simp: same_node_def)
  show "vset t n = vset s n"
    unfolding vset_def using inset_transfer [of s n t, OF 1] inset_transfer [of t n s, OF 2] by blast
  show "lit t n v b = lit s n v b"
    using lit_transfer [of s n t v b, OF 1] lit_transfer [of t n s v b, OF 2] by blast
  show "paths t n = paths s n"
    unfolding paths_def using path_transfer [of s n t, OF 1] path_transfer [of t n s, OF 2]
    by (intro arg_cong [of _ _ card]) blast
  have R: "reach t n m \<longleftrightarrow> reach s n m" for m
    using agree_reach [OF wf A, of m] agree_reach_fwd [OF wf A, of m] by blast
  have "reach s n m \<Longrightarrow> inner t m = inner s m \<and> (inner s m \<longrightarrow> LEVEL t m = LEVEL s m)" for m
    using agree_inner [OF wf A, of m] by (auto simp: same_node_def)
  then show "levels t n = levels s n" unfolding levels_def R by (auto, metis+)
qed

section \<open>Entries\<close>

definition apply_entry :: "bdd_state \<Rightarrow> BddCacheData \<Rightarrow> bool" where
  "apply_entry s e =
     ((0 \<le> c_c e \<and> c_c e \<le> bddop_invimp \<longrightarrow>
         node_id s (c_a e) \<and> node_id s (c_b e) \<and>
         res_ok s (min (LEVEL s (c_a e)) (LEVEL s (c_b e)))
           (\<lambda>x. bool_op (c_c e) (sem s (c_a e) x) (sem s (c_b e) x)) (c_res e)) \<and>
      (c_c e = bddop_not \<longrightarrow>
         node_id s (c_a e) \<and> res_ok s (LEVEL s (c_a e)) (\<lambda>x. \<not> sem s (c_a e) x) (c_res e)) \<and>
      (c_c e = bddop_simplify \<longrightarrow>
         node_id s (c_a e) \<and> node_id s (c_b e) \<and>
         (\<exists>F. res_ok s (min (LEVEL s (c_a e)) (LEVEL s (c_b e))) F (c_res e) \<and>
              (\<forall>x. sem s (c_b e) x \<longrightarrow> F x = sem s (c_a e) x))))"

definition ite_entry :: "bdd_state \<Rightarrow> BddCacheData \<Rightarrow> bool" where
  "ite_entry s e =
     (node_id s (c_a e) \<and> node_id s (c_b e) \<and> node_id s (c_c e) \<and>
      res_ok s (min (LEVEL s (c_a e)) (min (LEVEL s (c_b e)) (LEVEL s (c_c e))))
        (\<lambda>x. if sem s (c_a e) x then sem s (c_b e) x else sem s (c_c e) x) (c_res e))"

text \<open>
  The quantifications have the kinds 0 (existential), 1 (universal) and 2 (unique; only the
  level of its result is specified, see the note at \<open>bdd_unique\<close>).
\<close>

definition quant_sem :: "int \<Rightarrow> int set \<Rightarrow> ((int \<Rightarrow> bool) \<Rightarrow> bool) \<Rightarrow> ((int \<Rightarrow> bool) \<Rightarrow> bool) \<Rightarrow> bool" where
  "quant_sem q V F G = ((q = 0 \<longrightarrow> (\<forall>e. G e = ex_q V F e)) \<and> (q = 1 \<longrightarrow> (\<forall>e. G e = all_q V F e)))"

text \<open>\<open>quantid\<close> for quantifying over \<open>V\<close> alone, and inside \<open>appquant_rec\<close> with operator \<open>op\<close>.\<close>

definition quant_tag :: "int \<Rightarrow> int \<Rightarrow> int" where
  "quant_tag q V = tagged V 3 q"

definition appex_tag :: "int \<Rightarrow> int \<Rightarrow> int \<Rightarrow> int" where
  "appex_tag q op V = tagged V 6 (op * 4 + q)"

definition appquant_tag :: "int \<Rightarrow> int \<Rightarrow> int \<Rightarrow> int" where
  "appquant_tag q op V = tagged (appex_tag q op V) 3 (q + 3)"

definition quant_key :: "int \<Rightarrow> int \<Rightarrow> int \<Rightarrow> bool" where
  "quant_key q V c =
     (c = quant_tag q V \<or> (\<exists>op. 0 \<le> op \<and> op \<le> bddop_invimp \<and> c = appquant_tag q op V))"

definition quant_entry :: "bdd_state \<Rightarrow> BddCacheData \<Rightarrow> bool" where
  "quant_entry s e =
     (node_id s (c_a e) \<and>
      (\<exists>q V F. node_id s V \<and> 2 \<le> V \<and> V < 2 ^ 22 \<and> q \<in> {0, 1, 2} \<and> quant_key q V (c_c e) \<and>
         res_ok s (LEVEL s (c_a e)) F (c_res e) \<and> quant_sem q (vset s V) (sem s (c_a e)) F))"

definition appex_entry :: "bdd_state \<Rightarrow> BddCacheData \<Rightarrow> bool" where
  "appex_entry s e =
     (node_id s (c_a e) \<and> node_id s (c_b e) \<and>
      (\<exists>q V op F. node_id s V \<and> 2 \<le> V \<and> V < 2 ^ 22 \<and> q \<in> {0, 1, 2} \<and> 0 \<le> op \<and> op \<le> bddop_invimp \<and>
         c_c e = appex_tag q op V \<and>
         res_ok s (min (LEVEL s (c_a e)) (LEVEL s (c_b e))) F (c_res e) \<and>
         quant_sem q (vset s V) (\<lambda>x. bool_op op (sem s (c_a e) x) (sem s (c_b e) x)) F))"

definition misc_entry :: "bdd_state \<Rightarrow> BddCacheData \<Rightarrow> bool" where
  "misc_entry s e =
     ((c_c e = CACHEID_CONSTRAIN \<longrightarrow>
         node_id s (c_a e) \<and> node_id s (c_b e) \<and>
         (\<exists>F. res_ok s (min (LEVEL s (c_a e)) (LEVEL s (c_b e))) F (c_res e) \<and>
              (\<forall>x. sem s (c_b e) x \<longrightarrow> F x = sem s (c_a e) x))) \<and>
      (c_c e mod 8 = CACHEID_RESTRICT \<longrightarrow>
         node_id s (c_a e) \<and>
         (\<exists>V. node_id s V \<and> 2 \<le> V \<and> V < 2 ^ 28 \<and> c_c e = tagged V 3 CACHEID_RESTRICT \<and>
              res_ok s (LEVEL s (c_a e)) (restrict_q (lit s V) (sem s (c_a e))) (c_res e))) \<and>
      (c_c e = CACHEID_SATCOU \<longrightarrow> node_id s (c_a e) \<and> c_dres e = real (sats s (c_a e))) \<and>
      (c_c e = CACHEID_SATCOULN \<longrightarrow> node_id s (c_a e) \<and> c_dres e = log_sats s (c_a e)) \<and>
      (c_c e = CACHEID_PATHCOU \<longrightarrow> node_id s (c_a e) \<and> c_dres e = real (paths s (c_a e))))"

text \<open>
  Entries of the substitution cache. Those of \<open>bdd_replace\<close> and \<open>bdd_veccompose\<close> speak about
  the pair with the identifier in the key, if there is still one. A replacement that would merge two
  levels, or that meets a pair with a constant, reports an error and returns some node.
\<close>

definition pair_nodes :: "bdd_state \<Rightarrow> bddPair \<Rightarrow> bool" where
  "pair_nodes s p = (\<forall>l. 0 \<le> l \<and> l \<le> p_last p \<longrightarrow> node_id s (p_result p l))"

definition renames :: "bdd_state \<Rightarrow> bddPair \<Rightarrow> int \<Rightarrow> bool" where
  "renames s p n = (inj_on (pmap s p) (levels s n) \<and> (\<forall>l\<in>levels s n. pmap s p l < bddvarnum s))"

definition compose_entry :: "bdd_state \<Rightarrow> BddCacheData \<Rightarrow> bool" where
  "compose_entry s e =
     (node_id s (c_a e) \<and> node_id s (c_b e) \<and>
      res_ok s (min (LEVEL s (c_a e)) (LEVEL s (c_b e)))
        (\<lambda>x. sem s (c_a e) (x(c_c e div 4 := sem s (c_b e) x))) (c_res e))"

definition subst_entry :: "bdd_state \<Rightarrow> BddCacheData \<Rightarrow> bddPair \<Rightarrow> bool" where
  "subst_entry s e p =
     (pair_nodes s p \<and>
      (\<exists>F. res_ok s 0 F (c_res e) \<and>
        (c_c e mod 4 = CACHEID_REPLACE \<longrightarrow> renames s p (c_a e) \<longrightarrow>
           (\<forall>x. F x = sem s (c_a e) (\<lambda>l. x (pmap s p l)))) \<and>
        (c_c e mod 4 = CACHEID_VECCOMPOSE \<longrightarrow> (\<forall>x. F x = sem s (c_a e) (psem s p x)))))"

definition replace_entry :: "bdd_state \<Rightarrow> BddCacheData \<Rightarrow> bool" where
  "replace_entry s e =
     ((c_c e mod 4 = CACHEID_COMPOSE \<longrightarrow> compose_entry s e) \<and>
      (c_c e mod 4 \<noteq> CACHEID_COMPOSE \<longrightarrow> node_id s (c_a e) \<and> c_c e div 4 \<le> pairsid s \<and>
         (\<forall>p \<in> set (pairs s). p_id p = c_c e div 4 \<longrightarrow> subst_entry s e p)))"

text \<open>The predicates survive the creation of nodes.\<close>

lemma grow_facts:
  assumes G: "grow s t" and I: "tab_inv s" and n: "node_id s n"
  shows "node_id t n" "LEVEL t n = LEVEL s n" "sem t n = sem s n" "vset t n = vset s n" "lit t n = lit s n"
    "paths t n = paths s n" "levels t n = levels s n"
proof -
  note N = grow_node [OF G I n]
  show "node_id t n" "LEVEL t n = LEVEL s n" using N(1,2) by (simp_all add: same_node_def)
  show "sem t n = sem s n" by (rule ext) (rule N(3))
  note A = agree_sets [OF tab_invD(3) [OF I] grow_agree [OF G n]]
  show "vset t n = vset s n" by (rule A)
  show "lit t n = lit s n" by (intro ext) (rule A)
  show "paths t n = paths s n" "levels t n = levels s n" by (rule A)+
qed

definition grown_ok :: "bdd_state \<Rightarrow> bdd_state \<Rightarrow> bool" where
  "grown_ok s t = (tab_inv s \<and> grow s t \<and> stat t = stat s \<and> (bdderrorcond t = 0 \<longrightarrow> bdderrorcond s = 0))"

lemma grown_facts:
  assumes "grown_ok s t" "node_id s n"
  shows "node_id t n" "LEVEL t n = LEVEL s n" "sem t n = sem s n" "vset t n = vset s n" "lit t n = lit s n"
    "paths t n = paths s n" "levels t n = levels s n" "sats t n = sats s n" "log_sats t n = log_sats s n"
proof -
  have G: "grow s t" "tab_inv s" "stat t = stat s" using assms(1) by (simp_all add: grown_ok_def)
  note F = grow_facts [OF G(1,2) assms(2)]
  show "node_id t n" "LEVEL t n = LEVEL s n" "sem t n = sem s n" "vset t n = vset s n" "lit t n = lit s n"
    "paths t n = paths s n" "levels t n = levels s n" by (rule F)+
  show sats: "sats t n = sats s n" using F statD(4) [OF G(3)] by (simp add: sats_def)
  show "log_sats t n = log_sats s n" by (simp add: log_sats_def sats)
qed

lemma grown_res: "grown_ok s t \<Longrightarrow> res_ok s L F r \<Longrightarrow> res_ok t L F r"
  unfolding grown_ok_def by (blast intro: res_ok_grow)

lemma relation_grow:
  assumes G: "grown_ok s t"
    and e: "node_id s a \<and> node_id s b \<and>
      (\<exists>F. res_ok s (min (LEVEL s a) (LEVEL s b)) F r \<and> (\<forall>x. sem s b x \<longrightarrow> F x = sem s a x))"
  shows "node_id t a \<and> node_id t b \<and>
      (\<exists>F. res_ok t (min (LEVEL t a) (LEVEL t b)) F r \<and> (\<forall>x. sem t b x \<longrightarrow> F x = sem t a x))"
  using e grown_facts [OF G, of a] grown_facts [OF G, of b] grown_res [OF G] by metis

lemma apply_entry_grow:
  assumes G: "grown_ok s t" and e: "apply_entry s e"
  shows "apply_entry t e"
  unfolding apply_entry_def
proof (intro conjI impI)
  assume op: "0 \<le> c_c e \<and> c_c e \<le> bddop_invimp"
  then have n: "node_id s (c_a e)" "node_id s (c_b e)"
    and r: "res_ok s (min (LEVEL s (c_a e)) (LEVEL s (c_b e)))
           (\<lambda>x. bool_op (c_c e) (sem s (c_a e) x) (sem s (c_b e) x)) (c_res e)"
    using e by (simp_all add: apply_entry_def)
  show "node_id t (c_a e)" "node_id t (c_b e)"
    "res_ok t (min (LEVEL t (c_a e)) (LEVEL t (c_b e)))
           (\<lambda>x. bool_op (c_c e) (sem t (c_a e) x) (sem t (c_b e) x)) (c_res e)"
    using grown_facts [OF G n(1)] grown_facts [OF G n(2)] grown_res [OF G r] by simp_all
next
  assume op: "c_c e = bddop_not"
  then have n: "node_id s (c_a e)" and r: "res_ok s (LEVEL s (c_a e)) (\<lambda>x. \<not> sem s (c_a e) x) (c_res e)"
    using e by (simp_all add: apply_entry_def)
  show "node_id t (c_a e)" "res_ok t (LEVEL t (c_a e)) (\<lambda>x. \<not> sem t (c_a e) x) (c_res e)"
    using grown_facts [OF G n] grown_res [OF G r] by simp_all
next
  assume "c_c e = bddop_simplify"
  then have "node_id s (c_a e) \<and> node_id s (c_b e) \<and>
      (\<exists>F. res_ok s (min (LEVEL s (c_a e)) (LEVEL s (c_b e))) F (c_res e) \<and>
           (\<forall>x. sem s (c_b e) x \<longrightarrow> F x = sem s (c_a e) x))"
    using e by (simp add: apply_entry_def)
  from relation_grow [OF G this]
  show "node_id t (c_a e)" "node_id t (c_b e)"
    "\<exists>F. res_ok t (min (LEVEL t (c_a e)) (LEVEL t (c_b e))) F (c_res e) \<and>
         (\<forall>x. sem t (c_b e) x \<longrightarrow> F x = sem t (c_a e) x)" by blast+
qed

lemma ite_entry_grow:
  assumes G: "grown_ok s t" and e: "ite_entry s e"
  shows "ite_entry t e"
proof -
  have n: "node_id s (c_a e)" "node_id s (c_b e)" "node_id s (c_c e)"
    and r: "res_ok s (min (LEVEL s (c_a e)) (min (LEVEL s (c_b e)) (LEVEL s (c_c e))))
        (\<lambda>x. if sem s (c_a e) x then sem s (c_b e) x else sem s (c_c e) x) (c_res e)"
    using e unfolding ite_entry_def by blast+
  show ?thesis
    unfolding ite_entry_def using grown_res [OF G r]
    by (simp only: grown_facts [OF G n(1)] grown_facts [OF G n(2)] grown_facts [OF G n(3)])
qed

lemma quant_entry_grow:
  assumes G: "grown_ok s t" and e: "quant_entry s e"
  shows "quant_entry t e"
proof -
  from e obtain q V F where q: "node_id s (c_a e)" "node_id s V" "2 \<le> V \<and> V < 2 ^ 22" "q \<in> {0, 1, 2}"
    "quant_key q V (c_c e)" "res_ok s (LEVEL s (c_a e)) F (c_res e)" "quant_sem q (vset s V) (sem s (c_a e)) F"
    unfolding quant_entry_def by blast
  have "res_ok t (LEVEL t (c_a e)) F (c_res e)" using grown_res [OF G q(6)] grown_facts [OF G q(1)] by simp
  moreover have "quant_sem q (vset t V) (sem t (c_a e)) F"
    using q(7) grown_facts [OF G q(1)] grown_facts [OF G q(2)] by simp
  moreover have "node_id t (c_a e)" "node_id t V"
    using grown_facts [OF G q(1)] grown_facts [OF G q(2)] by simp_all
  ultimately show ?thesis using q(3-5) unfolding quant_entry_def by blast
qed

lemma appex_entry_grow:
  assumes G: "grown_ok s t" and e: "appex_entry s e"
  shows "appex_entry t e"
proof -
  from e obtain q V op F where q: "node_id s (c_a e)" "node_id s (c_b e)" "node_id s V" "2 \<le> V \<and> V < 2 ^ 22"
    "q \<in> {0, 1, 2}" "0 \<le> op" "op \<le> bddop_invimp" "c_c e = appex_tag q op V"
    "res_ok s (min (LEVEL s (c_a e)) (LEVEL s (c_b e))) F (c_res e)"
    "quant_sem q (vset s V) (\<lambda>x. bool_op op (sem s (c_a e) x) (sem s (c_b e) x)) F"
    unfolding appex_entry_def by blast
  note n = grown_facts [OF G q(1)] grown_facts [OF G q(2)] grown_facts [OF G q(3)]
  have "res_ok t (min (LEVEL t (c_a e)) (LEVEL t (c_b e))) F (c_res e)"
    using grown_res [OF G q(9)] n by simp
  moreover have "quant_sem q (vset t V) (\<lambda>x. bool_op op (sem t (c_a e) x) (sem t (c_b e) x)) F"
    using q(10) n by simp
  ultimately show ?thesis
    using q(4-8) grown_facts(1) [OF G q(1)] grown_facts(1) [OF G q(2)] grown_facts(1) [OF G q(3)]
    unfolding appex_entry_def by blast
qed

lemma misc_entry_grow:
  assumes G: "grown_ok s t" and e: "misc_entry s e"
  shows "misc_entry t e"
  unfolding misc_entry_def
proof (intro conjI impI)
  assume "c_c e = CACHEID_CONSTRAIN"
  then have "node_id s (c_a e) \<and> node_id s (c_b e) \<and>
      (\<exists>F. res_ok s (min (LEVEL s (c_a e)) (LEVEL s (c_b e))) F (c_res e) \<and>
           (\<forall>x. sem s (c_b e) x \<longrightarrow> F x = sem s (c_a e) x))"
    using e by (simp add: misc_entry_def)
  from relation_grow [OF G this]
  show "node_id t (c_a e)" "node_id t (c_b e)"
    "\<exists>F. res_ok t (min (LEVEL t (c_a e)) (LEVEL t (c_b e))) F (c_res e) \<and>
         (\<forall>x. sem t (c_b e) x \<longrightarrow> F x = sem t (c_a e) x)" by blast+
next
  assume "c_c e mod 8 = CACHEID_RESTRICT"
  then obtain V where V: "node_id s (c_a e)" "node_id s V" "2 \<le> V \<and> V < 2 ^ 28" "c_c e = tagged V 3 CACHEID_RESTRICT"
    "res_ok s (LEVEL s (c_a e)) (restrict_q (lit s V) (sem s (c_a e))) (c_res e)"
    using e unfolding misc_entry_def by blast
  note n = grown_facts [OF G V(1)] grown_facts [OF G V(2)]
  show "node_id t (c_a e)" by (rule n)
  have "res_ok t (LEVEL t (c_a e)) (restrict_q (lit t V) (sem t (c_a e))) (c_res e)"
    using grown_res [OF G V(5)] n by simp
  then show "\<exists>V. node_id t V \<and> 2 \<le> V \<and> V < 2 ^ 28 \<and> c_c e = tagged V 3 CACHEID_RESTRICT \<and>
      res_ok t (LEVEL t (c_a e)) (restrict_q (lit t V) (sem t (c_a e))) (c_res e)"
    using V(3,4) grown_facts(1) [OF G V(2)] by blast
next
  assume "c_c e = CACHEID_SATCOU"
  then have c: "node_id s (c_a e)" "c_dres e = real (sats s (c_a e))" using e by (simp_all add: misc_entry_def)
  show "node_id t (c_a e)" "c_dres e = real (sats t (c_a e))" using c grown_facts [OF G c(1)] by simp_all
next
  assume "c_c e = CACHEID_SATCOULN"
  then have c: "node_id s (c_a e)" "c_dres e = log_sats s (c_a e)" using e by (simp_all add: misc_entry_def)
  show "node_id t (c_a e)" "c_dres e = log_sats t (c_a e)" using c grown_facts [OF G c(1)] by simp_all
next
  assume "c_c e = CACHEID_PATHCOU"
  then have c: "node_id s (c_a e)" "c_dres e = real (paths s (c_a e))" using e by (simp_all add: misc_entry_def)
  show "node_id t (c_a e)" "c_dres e = real (paths t (c_a e))" using c grown_facts [OF G c(1)] by simp_all
qed

lemma grown_pair:
  assumes G: "grown_ok s t" and p: "pair_nodes s p"
  shows "pair_nodes t p" "pmap t p = pmap s p" "psem t p = psem s p"
  using grown_facts [OF G, of "p_result p l" for l] p
  by (auto simp: fun_eq_iff pair_nodes_def pmap_def psem_def)

lemma subst_entry_grow:
  assumes G: "grown_ok s t" and n: "node_id s (c_a e)" and e: "subst_entry s e p"
  shows "subst_entry t e p"
proof -
  have p: "pair_nodes s p" using e by (simp add: subst_entry_def)
  have "bddvarnum t = bddvarnum s" using G by (auto simp: grown_ok_def dest: statD)
  then have "renames t p (c_a e) = renames s p (c_a e)"
    by (simp add: renames_def grown_pair [OF G p] grown_facts [OF G n])
  then show ?thesis
    using e grown_res [OF G] unfolding subst_entry_def grown_pair [OF G p] grown_facts [OF G n]
    by (auto simp: grown_pair [OF G p])
qed

lemma replace_entry_grow:
  assumes G: "grown_ok s t" and e: "replace_entry s e"
  shows "replace_entry t e"
proof -
  have st: "pairs t = pairs s" "pairsid t = pairsid s" using G by (auto simp: grown_ok_def dest: statD)
  have c: "compose_entry t e" if "compose_entry s e"
  proof -
    have n: "node_id s (c_a e)" "node_id s (c_b e)" using that by (simp_all add: compose_entry_def)
    show ?thesis
      using that grown_res [OF G] unfolding compose_entry_def
      by (simp add: grown_facts [OF G n(1)] grown_facts [OF G n(2)])
  qed
  show ?thesis
    using e c subst_entry_grow [OF G] grown_facts(1) [OF G] unfolding replace_entry_def st by blast
qed

section \<open>The cache invariant\<close>

definition caches_ok :: "bdd_state \<Rightarrow> bool" where
  "caches_ok s = (let c = caches s in
     cache_ok (apply_entry s) (applycache c) \<and> 0 < tablesize (applycache c) \<and>
     cache_ok (ite_entry s) (itecache c) \<and> 0 < tablesize (itecache c) \<and>
     cache_ok (quant_entry s) (quantcache c) \<and> 0 < tablesize (quantcache c) \<and>
     cache_ok (appex_entry s) (appexcache c) \<and> 0 < tablesize (appexcache c) \<and>
     cache_ok (replace_entry s) (replacecache c) \<and> 0 < tablesize (replacecache c) \<and>
     cache_ok (misc_entry s) (misccache c) \<and> 0 < tablesize (misccache c))"

interpretation fr: op_frame caches_ok
proof
  fix s t :: bdd_state
  assume c: "caches_ok s" and I: "tab_inv s" and G: "grow s t" and eq: "caches t = caches s"
    and st: "stat t = stat s" and e: "bdderrorcond t = 0 \<Longrightarrow> bdderrorcond s = 0"
  have "grown_ok s t" using I G e st by (simp add: grown_ok_def)
  note mono = apply_entry_grow [OF this] ite_entry_grow [OF this] quant_entry_grow [OF this]
    appex_entry_grow [OF this] misc_entry_grow [OF this] replace_entry_grow [OF this]
  show "caches_ok t"
    using c unfolding caches_ok_def Let_def eq by (auto elim!: bc.all_ok_mono intro: mono)
next
  fix s t :: bdd_state
  assume "caches_ok s" "caches t = caches (bdd_operator_reset s)"
  then show "caches_ok t"
    by (auto simp: caches_ok_def Let_def bdd_operator_reset_def mtbdd_operator_reset_def
        MtbddCache_registry_reset_all_def intro: bc.all_ok_reset)
qed

abbreviation binv :: "bdd_state \<Rightarrow> bool" where "binv \<equiv> fr.inv"
abbreviation op_post :: "bdd_state \<Rightarrow> int \<Rightarrow> ((int \<Rightarrow> bool) \<Rightarrow> bool) \<Rightarrow> int \<Rightarrow> bdd_state \<Rightarrow> bool"
  where "op_post \<equiv> fr.post"

end
