(* ===== verification/OpRules.thy ===== *)
theory OpRules
  imports OpCaches
begin

text \<open>
  Rules for the steps that the recursive operations share: a cache lookup and a hit, storing a
  result, returning a node, descending to the children of an argument.
\<close>

section \<open>What depends on the table only\<close>

lemma reach_mono:
  assumes "inner t = inner s" "LOW t = LOW s" "HIGH t = HIGH s"
  shows "reach s n m \<Longrightarrow> reach t n m"
proof (induction rule: reach.induct)
  case (reach_low m)
  then show ?case using reach.reach_low [of t n m] assms by simp
next
  case (reach_high m)
  then show ?case using reach.reach_high [of t n m] assms by simp
qed (rule reach_self)

lemma core_eq:
  assumes "bddnodes t = bddnodes s" "bddnodesize t = bddnodesize s"
  shows "LEVEL t = LEVEL s" "LOW t = LOW s" "HIGH t = HIGH s" "inner t = inner s"
    "node_id t = node_id s" "allocd t = allocd s" "sem t = sem s" "vset t = vset s" "lit t = lit s"
    "paths t = paths s" "levels t = levels s" "pmap t = pmap s" "psem t = psem s" "pair_nodes t = pair_nodes s"
proof -
  show acc: "LEVEL t = LEVEL s" "LOW t = LOW s" "HIGH t = HIGH s" "inner t = inner s"
    "node_id t = node_id s" "allocd t = allocd s"
    by (simp_all add: fun_eq_iff LEVEL_def LOW_def HIGH_def inner_def node_id_def allocd_def assms)
  have sn: "same_node s t m" "same_node t s m" for m by (simp_all add: same_node_def acc assms)
  have tr: "inner t m \<and> same_node s t m" if "inner s m" for m using that sn by (simp add: acc)
  have tr': "inner s m \<and> same_node t s m" if "inner t m" for m using that sn by (simp add: acc)
  have "sem t n e = sem s n e" for n e
    unfolding sem_def using evals_transfer [of s n t e True] evals_transfer [of t n s e True] tr tr' by blast
  then show "sem t = sem s" by (intro ext)
  have "vset t n = vset s n" for n
    unfolding vset_def using inset_transfer [of s n t] inset_transfer [of t n s] tr tr' by blast
  then show "vset t = vset s" by (rule ext)
  have "lit t n v b = lit s n v b" for n v b
    using lit_transfer [of s n t v b] lit_transfer [of t n s v b] tr tr' by blast
  then show "lit t = lit s" by (intro ext)
  have "paths t n = paths s n" for n
    unfolding paths_def using path_transfer [of s n t] path_transfer [of t n s] tr tr'
    by (intro arg_cong [of _ _ card]) blast
  then show "paths t = paths s" by (rule ext)
  have "reach t n m = reach s n m" for n m
    using reach_mono [of t s n m] reach_mono [of s t n m] by (auto simp: acc)
  then show "levels t = levels s" by (simp add: fun_eq_iff levels_def acc)
  show "pmap t = pmap s" "psem t = psem s" "pair_nodes t = pair_nodes s"
    by (simp_all add: fun_eq_iff pmap_def psem_def pair_nodes_def acc \<open>sem t = sem s\<close>)
qed

lemma core_counts:
  assumes "bddnodes t = bddnodes s" "bddnodesize t = bddnodesize s" "bddvarnum t = bddvarnum s"
  shows "sats t = sats s" "log_sats t = log_sats s" "renames t = renames s"
proof -
  show "sats t = sats s" by (simp add: fun_eq_iff sats_def core_eq [OF assms(1,2)] assms(3))
  then show "log_sats t = log_sats s" by (simp add: fun_eq_iff log_sats_def)
  show "renames t = renames s" by (simp add: fun_eq_iff renames_def core_eq [OF assms(1,2)] assms(3))
qed

lemma core_caches [simp]:
  "LEVEL (s\<lparr>caches := c\<rparr>) = LEVEL s" "LOW (s\<lparr>caches := c\<rparr>) = LOW s" "HIGH (s\<lparr>caches := c\<rparr>) = HIGH s"
  "node_id (s\<lparr>caches := c\<rparr>) = node_id s" "sem (s\<lparr>caches := c\<rparr>) = sem s"
  "vset (s\<lparr>caches := c\<rparr>) = vset s" "lit (s\<lparr>caches := c\<rparr>) = lit s"
  "res_ok (s\<lparr>caches := c\<rparr>) = res_ok s" "allocd (s\<lparr>caches := c\<rparr>) = allocd s"
  "pmap (s\<lparr>caches := c\<rparr>) = pmap s" "psem (s\<lparr>caches := c\<rparr>) = psem s"
  "pair_nodes (s\<lparr>caches := c\<rparr>) = pair_nodes s" "levels (s\<lparr>caches := c\<rparr>) = levels s"
  "paths (s\<lparr>caches := c\<rparr>) = paths s" "sats (s\<lparr>caches := c\<rparr>) = sats s"
  "log_sats (s\<lparr>caches := c\<rparr>) = log_sats s" "renames (s\<lparr>caches := c\<rparr>) = renames s"
  using core_eq [of "s\<lparr>caches := c\<rparr>" s] core_counts [of "s\<lparr>caches := c\<rparr>" s]
  by (simp_all add: fun_eq_iff res_ok_def)

lemma entries_caches [simp]:
  "apply_entry (s\<lparr>caches := c\<rparr>) = apply_entry s" "ite_entry (s\<lparr>caches := c\<rparr>) = ite_entry s"
  "quant_entry (s\<lparr>caches := c\<rparr>) = quant_entry s" "appex_entry (s\<lparr>caches := c\<rparr>) = appex_entry s"
  "misc_entry (s\<lparr>caches := c\<rparr>) = misc_entry s" "replace_entry (s\<lparr>caches := c\<rparr>) = replace_entry s"
  by (simp_all add: fun_eq_iff apply_entry_def ite_entry_def quant_entry_def appex_entry_def misc_entry_def
      replace_entry_def compose_entry_def subst_entry_def)

lemma bdd_base_caches [simp]: "bdd_base (s\<lparr>caches := c\<rparr>) = bdd_base s"
proof -
  have "tab_inv (s\<lparr>caches := c\<rparr>) = tab_inv s" by (rule tab_inv_cong) simp_all
  moreover have "env_ok (s\<lparr>caches := c\<rparr>) = env_ok s" by (rule env_ok_stat) simp
  ultimately show ?thesis by (simp add: bdd_base_def kinv_def prime_size_def bdd_table_def)
qed

lemma ext_caches: "ext s t \<Longrightarrow> ext s (t\<lparr>caches := c\<rparr>)"
  by (simp add: ext_def same_node_def)

section \<open>Caches\<close>

lemma binv_tables:
  assumes "binv s"
  shows "0 < tablesize (applycache (caches s))" "0 < tablesize (itecache (caches s))"
    "0 < tablesize (quantcache (caches s))" "0 < tablesize (appexcache (caches s))"
    "0 < tablesize (replacecache (caches s))" "0 < tablesize (misccache (caches s))"
  using fr.invD(2) [OF assms] by (simp_all add: caches_ok_def Let_def)

lemma lookup_eq: "0 < tablesize (sel (caches s)) \<Longrightarrow>
    PLAIN_CACHE_LOOKUP sel h s k = k (BddCache_lookup (sel (caches s)) h)"
  by (simp add: PLAIN_CACHE_LOOKUP_def)

lemma hits:
  assumes "binv s"
  shows "BddCache_is_valid (applycache (caches s)) i \<Longrightarrow> apply_entry s (table (applycache (caches s)) i)"
    "BddCache_is_valid (itecache (caches s)) i \<Longrightarrow> ite_entry s (table (itecache (caches s)) i)"
    "BddCache_is_valid (quantcache (caches s)) i \<Longrightarrow> quant_entry s (table (quantcache (caches s)) i)"
    "BddCache_is_valid (appexcache (caches s)) i \<Longrightarrow> appex_entry s (table (appexcache (caches s)) i)"
    "BddCache_is_valid (misccache (caches s)) i \<Longrightarrow> misc_entry s (table (misccache (caches s)) i)"
    "BddCache_is_valid (replacecache (caches s)) i \<Longrightarrow> replace_entry s (table (replacecache (caches s)) i)"
  using fr.invD(2) [OF assms] by (auto simp: caches_ok_def Let_def dest: bc.all_ok_hit [OF _ valid_entry_in])

lemma stores:
  assumes "caches_ok t"
  shows "apply_entry t (written f i (applycache (caches t))) \<Longrightarrow> caches_ok (store applycache_update f i t)"
    "ite_entry t (written f i (itecache (caches t))) \<Longrightarrow> caches_ok (store itecache_update f i t)"
    "quant_entry t (written f i (quantcache (caches t))) \<Longrightarrow> caches_ok (store quantcache_update f i t)"
    "appex_entry t (written f i (appexcache (caches t))) \<Longrightarrow> caches_ok (store appexcache_update f i t)"
    "misc_entry t (written f i (misccache (caches t))) \<Longrightarrow> caches_ok (store misccache_update f i t)"
    "replace_entry t (written f i (replacecache (caches t))) \<Longrightarrow> caches_ok (store replacecache_update f i t)"
  using assms by (auto simp: caches_ok_def Let_def store_def intro: bc.all_ok_store)

lemma post_store:
  assumes P: "op_post s L F r t" and c: "caches_ok (store upd f i t)"
  shows "op_post s L F r (store upd f i t)"
  using P c ext_caches [of s t] by (simp add: fr.post_def fr.inv_def store_def)

section \<open>Results\<close>

lemma post_node:
  "binv s \<Longrightarrow> node_id s n \<Longrightarrow> L \<le> LEVEL s n \<Longrightarrow> (\<And>e. sem s n e = F e) \<Longrightarrow> op_post s L F n s"
  by (simp add: fr.post_def res_ok_def)

lemma post_weaken: "op_post s L F r t \<Longrightarrow> L' \<le> L \<Longrightarrow> (\<And>e. F e = G e) \<Longrightarrow> op_post s L' G r t"
  by (auto simp: fr.post_def intro: res_ok_mono)

lemma binvD:
  assumes "binv s"
  shows "bdd_base s" "bdd_table s" "tab_inv s" "kinv s"
  using bdd_baseD [OF fr.invD(1) [OF assms]] fr.invD(1) [OF assms] by simp_all

lemma const_level: "binv s \<Longrightarrow> LEVEL s 0 = bddvarnum s" "binv s \<Longrightarrow> LEVEL s 1 = bddvarnum s"
  using binvD(2) [of s] by (simp_all add: bdd_table_def)

text \<open>The facts about an argument at level below the constants.\<close>

lemma arg_node:
  assumes I: "binv s" and n: "arg s n"
  shows "0 \<le> LEVEL s n" "LEVEL s n \<le> bddvarnum s" "n < 2 \<longleftrightarrow> LEVEL s n = bddvarnum s" "0 \<le> n"
    "2 \<le> n \<Longrightarrow> LEVEL s n < bddvarnum s" "2 \<le> n \<Longrightarrow> arg s (LOW s n)" "2 \<le> n \<Longrightarrow> arg s (HIGH s n)"
    "2 \<le> n \<Longrightarrow> LEVEL s n < LEVEL s (LOW s n)" "2 \<le> n \<Longrightarrow> LEVEL s n < LEVEL s (HIGH s n)"
    "2 \<le> n \<Longrightarrow> dep s (LOW s n) < dep s n" "2 \<le> n \<Longrightarrow> dep s (HIGH s n) < dep s n"
    "2 \<le> n \<Longrightarrow> sem s n e = (if e (LEVEL s n) then sem s (HIGH s n) e else sem s (LOW s n) e)"
    "node_id s n"
proof -
  have nn: "node_id s n" using n by (simp add: arg_def)
  note N = bdd_node [OF binvD(2,3) [OF I] nn]
  show "0 \<le> LEVEL s n" "LEVEL s n \<le> bddvarnum s" "n < 2 \<longleftrightarrow> LEVEL s n = bddvarnum s" "0 \<le> n"
    "2 \<le> n \<Longrightarrow> LEVEL s n < bddvarnum s" "2 \<le> n \<Longrightarrow> LEVEL s n < LEVEL s (LOW s n)"
    "2 \<le> n \<Longrightarrow> LEVEL s n < LEVEL s (HIGH s n)" "node_id s n"
    using N nn by auto
  show "2 \<le> n \<Longrightarrow> arg s (LOW s n)" "2 \<le> n \<Longrightarrow> arg s (HIGH s n)"
    using arg_children [OF binvD(3) [OF I] n] N(4) by auto
  show "2 \<le> n \<Longrightarrow> dep s (LOW s n) < dep s n" "2 \<le> n \<Longrightarrow> dep s (HIGH s n) < dep s n"
    using N(5,9,10) by (auto simp: dep_def)
  show "2 \<le> n \<Longrightarrow> sem s n e = (if e (LEVEL s n) then sem s (HIGH s n) e else sem s (LOW s n) e)"
    using N(4) by (simp add: sem_inner)
qed

text \<open>An argument seen from a later state.\<close>

lemma arg_later:
  assumes E: "ext s t" and I: "binv s" and n: "arg s n"
  shows "arg t n" "LEVEL t n = LEVEL s n" "LOW t n = LOW s n" "HIGH t n = HIGH s n"
    "sem t n = sem s n" "dep t n = dep s n" "ops t = ops s"
proof -
  note A = arg_ext [OF E binvD(3) [OF I] n]
  show "arg t n" by (rule A)
  show "LEVEL t n = LEVEL s n" "LOW t n = LOW s n" "HIGH t n = HIGH s n"
    using A(2) by (simp_all add: same_node_def)
  show "sem t n = sem s n" by (intro ext) (rule A)
  have "stat t = stat s" using E by (simp add: ext_def)
  note D = statD [OF this]
  show "dep t n = dep s n" using A(2) D by (simp add: dep_def same_node_def)
  show "ops t = ops s" by (rule D)
qed

lemma dep_le_level: "LEVEL s m \<le> LEVEL s n \<Longrightarrow> dep s n \<le> dep s m"
  by (simp add: dep_def)

lemma dep_less_level: "LEVEL s m < LEVEL s n \<Longrightarrow> LEVEL s m < bddvarnum s \<Longrightarrow> dep s n < dep s m"
  by (simp add: dep_def)

section \<open>Descending\<close>

text \<open>The child of \<open>n\<close> for the value \<open>b\<close> of level \<open>v\<close>, or \<open>n\<close> itself when it is lower.\<close>

definition down :: "bdd_state \<Rightarrow> int \<Rightarrow> int \<Rightarrow> bool \<Rightarrow> int" where
  "down s v n b = (if LEVEL s n = v then if b then HIGH s n else LOW s n else n)"

lemma down_facts:
  assumes I: "binv s" and n: "arg s n" and v: "v \<le> LEVEL s n" "v < bddvarnum s"
  shows "arg s (down s v n b)" "v < LEVEL s (down s v n b)"
    "dep s (down s v n b) < nat (bddvarnum s - v)" "sem s n e = sem s (down s v n (e v)) e"
proof -
  note N = arg_node [OF I n]
  have n2: "2 \<le> n" if "LEVEL s n = v" using that v N(3) by linarith
  show A: "arg s (down s v n b)" and L: "v < LEVEL s (down s v n b)"
    using n v N(6-9) n2 by (auto simp: down_def)
  show "dep s (down s v n b) < nat (bddvarnum s - v)" using L v(2) by (simp add: dep_def)
  show "sem s n e = sem s (down s v n (e v)) e" using N(12) n2 by (simp add: down_def)
qed

text \<open>In a later state the children are the same.\<close>

lemma down_later:
  assumes "ext s t" "binv s" "arg s n"
  shows "down t v n b = down s v n b"
  using arg_later [OF assms] by (simp add: down_def)

text \<open>
  The recursion scheme of the binary operations: descend in the arguments at the upper level,
  then combine with \<open>K\<close>.
\<close>

definition bin_shape ::
    "(int \<Rightarrow> int \<Rightarrow> bdd_state \<Rightarrow> BDD bm) \<Rightarrow> (int \<Rightarrow> BDD \<Rightarrow> BDD \<Rightarrow> bdd_state \<Rightarrow> BDD bm) \<Rightarrow>
     int \<Rightarrow> int \<Rightarrow> bdd_state \<Rightarrow> BDD bm" where
  "bin_shape m K l r s =
     (if LEVEL s l = LEVEL s r then
        both (\<lambda>s. m (LOW s l) (LOW s r) s) (\<lambda>s. m (HIGH s l) (HIGH s r) s) (K l) s
      else if LEVEL s l < LEVEL s r then
        both (\<lambda>s. m (LOW s l) r s) (\<lambda>s. m (HIGH s l) r s) (K l) s
      else both (\<lambda>s. m l (LOW s r) s) (\<lambda>s. m l (HIGH s r) s) (K r) s)"

text \<open>The level of the new node and what is left below it.\<close>

definition top2 :: "bdd_state \<Rightarrow> int \<Rightarrow> int \<Rightarrow> int" where
  "top2 s l r = min (LEVEL s l) (LEVEL s r)"

definition dep2 :: "bdd_state \<Rightarrow> int \<Rightarrow> int \<Rightarrow> nat" where
  "dep2 s l r = max (dep s l) (dep s r)"

lemma dep2_top: "dep2 s l r = nat (bddvarnum s - top2 s l r)"
  by (simp add: dep2_def top2_def dep_def)

lemma posts_weaken:
  "fr.posts s L P r t \<Longrightarrow> L' \<le> L \<Longrightarrow> (\<And>F. P F \<Longrightarrow> Q F) \<Longrightarrow> fr.posts s L' Q r t"
  unfolding fr.posts_def by (blast intro: post_weaken)

lemma bin_posts:
  assumes I: "binv s" and a: "arg s l" "arg s r" and v: "top2 s l r < bddvarnum s"
    and R: "room s (dep2 s l r)"
    and rec: "\<And>s1 l' r'. binv s1 \<Longrightarrow> ext s s1 \<Longrightarrow> arg s l' \<Longrightarrow> arg s r' \<Longrightarrow>
        dep2 s l' r' < dep2 s l r \<Longrightarrow> room s1 (dep2 s l r - 1) \<Longrightarrow>
        top2 s l r < top2 s l' r' \<Longrightarrow> runs (m l' r' s1) (fr.posts s1 (top2 s l r + 1) (P l' r'))"
    and K: "\<And>x s2 lo hi F0 F1. x = l \<or> x = r \<Longrightarrow> LEVEL s x = top2 s l r \<Longrightarrow> arg s x \<Longrightarrow> 2 \<le> x \<Longrightarrow>
        binv s2 \<Longrightarrow> ext s s2 \<Longrightarrow> arg s2 lo \<Longrightarrow> arg s2 hi \<Longrightarrow> room s2 (dep2 s l r - 1) \<Longrightarrow>
        P (down s (top2 s l r) l False) (down s (top2 s l r) r False) F0 \<Longrightarrow>
        P (down s (top2 s l r) l True) (down s (top2 s l r) r True) F1 \<Longrightarrow>
        res_ok s2 (top2 s l r + 1) F0 lo \<Longrightarrow> res_ok s2 (top2 s l r + 1) F1 hi \<Longrightarrow>
        runs (K x lo hi s2) (fr.posts s2 (top2 s l r) Q)"
  shows "runs (bin_shape m K l r s) (fr.posts s (top2 s l r) Q)"
proof -
  let ?v = "top2 s l r" and ?D = "dep2 s l r"
  have vl: "?v \<le> LEVEL s l" "?v \<le> LEVEL s r" by (simp_all add: top2_def)
  note DL = down_facts [OF I a(1) vl(1) v] and DR = down_facts [OF I a(2) vl(2) v]
  note L = arg_node [OF I a(1)] and Rn = arg_node [OF I a(2)]
  obtain d where d: "?D = Suc d" using v by (cases ?D) (auto simp: dep2_top)
  have sub: "runs (m (down s ?v l b) (down s ?v r b) s1)
      (fr.posts s1 (?v + 1) (P (down s ?v l b) (down s ?v r b)))"
    if s1: "binv s1" "ext s s1" "room s1 d" for s1 b
  proof -
    have lt: "dep2 s (down s ?v l b) (down s ?v r b) < ?D"
      using DL(3) [of b] DR(3) [of b] unfolding dep2_top [of s l r] by (simp add: dep2_def)
    moreover have "?v < top2 s (down s ?v l b) (down s ?v r b)"
      using DL(2) [of b] DR(2) [of b] unfolding top2_def [of s "down s ?v l b"] by simp
    ultimately show ?thesis using s1 d DL(1) DR(1) by (intro rec) simp_all
  qed
  have step: "runs (both f g (K x) s) (fr.posts s ?v Q)"
    if x: "x = l \<or> x = r" "LEVEL s x = ?v"
      and f: "f s = m (down s ?v l False) (down s ?v r False) s"
      and g: "\<And>s1. ext s s1 \<Longrightarrow> g s1 = m (down s ?v l True) (down s ?v r True) s1" for f g x
  proof (rule fr.both_posts [where d = d])
    show "runs (f s) (fr.posts s (?v + 1) (P (down s ?v l False) (down s ?v r False)))"
      unfolding f using R d by (intro sub [OF I]) (auto intro: room_mono)
    show "runs (g s1) (fr.posts s1 (?v + 1) (P (down s ?v l True) (down s ?v r True)))"
      if "binv s1" "ext s s1" "room s1 d" for s1
      unfolding g [OF that(2)] by (rule sub [OF that])
    have "arg s x" "2 \<le> x" using x a v L(3) Rn(3) by auto
    then show "runs (K x lo hi s2) (fr.posts s2 ?v Q)"
      if "binv s2" "ext s s2" "room s2 d" "arg s2 lo" "arg s2 hi"
        "P (down s ?v l False) (down s ?v r False) F0" "P (down s ?v l True) (down s ?v r True) F1"
        "res_ok s2 (?v + 1) F0 lo" "res_ok s2 (?v + 1) F1 hi" for s2 lo hi F0 F1
      using that x d by (intro K) simp_all
  qed (use I R d in simp_all)
  note later = arg_later(3,4) [OF _ I a(1)] arg_later(3,4) [OF _ I a(2)]
  consider "LEVEL s l = LEVEL s r" | "LEVEL s l < LEVEL s r" | "LEVEL s r < LEVEL s l" by linarith
  then show ?thesis
  proof cases
    case 1
    then have dn: "down s ?v l b = (if b then HIGH s l else LOW s l)"
      "down s ?v r b = (if b then HIGH s r else LOW s r)" "LEVEL s l = ?v" for b
      by (simp_all add: down_def top2_def)
    have "bin_shape m K l r s =
        both (\<lambda>s. m (LOW s l) (LOW s r) s) (\<lambda>s. m (HIGH s l) (HIGH s r) s) (K l) s"
      using 1 by (simp add: bin_shape_def)
    moreover have "runs \<dots> (fr.posts s ?v Q)"
    proof (rule step)
      fix s1 assume "ext s s1"
      note later [OF this]
      then show "m (HIGH s1 l) (HIGH s1 r) s1 = m (down s ?v l True) (down s ?v r True) s1" by (simp add: dn)
    qed (simp_all add: dn)
    ultimately show ?thesis by simp
  next
    case 2
    then have dn: "down s ?v l b = (if b then HIGH s l else LOW s l)" "down s ?v r b = r"
      "LEVEL s l = ?v" for b
      by (simp_all add: down_def top2_def)
    have "bin_shape m K l r s = both (\<lambda>s. m (LOW s l) r s) (\<lambda>s. m (HIGH s l) r s) (K l) s"
      using 2 by (simp add: bin_shape_def)
    moreover have "runs \<dots> (fr.posts s ?v Q)"
    proof (rule step)
      fix s1 assume "ext s s1"
      note later [OF this]
      then show "m (HIGH s1 l) r s1 = m (down s ?v l True) (down s ?v r True) s1" by (simp add: dn)
    qed (simp_all add: dn)
    ultimately show ?thesis by simp
  next
    case 3
    then have dn: "down s ?v l b = l" "down s ?v r b = (if b then HIGH s r else LOW s r)"
      "LEVEL s r = ?v" for b
      by (simp_all add: down_def top2_def)
    have "bin_shape m K l r s = both (\<lambda>s. m l (LOW s r) s) (\<lambda>s. m l (HIGH s r) s) (K r) s"
      using 3 by (simp add: bin_shape_def)
    moreover have "runs \<dots> (fr.posts s ?v Q)"
    proof (rule step)
      fix s1 assume "ext s s1"
      note later [OF this]
      then show "m l (HIGH s1 r) s1 = m (down s ?v l True) (down s ?v r True) s1" by (simp add: dn)
    qed (simp_all add: dn)
    ultimately show ?thesis by simp
  qed
qed

lemma bin_both:
  assumes I: "binv s" and a: "arg s l" "arg s r" and v: "top2 s l r < bddvarnum s"
    and R: "room s (dep2 s l r)"
    and rec: "\<And>s1 l' r'. binv s1 \<Longrightarrow> ext s s1 \<Longrightarrow> arg s l' \<Longrightarrow> arg s r' \<Longrightarrow>
        dep2 s l' r' < dep2 s l r \<Longrightarrow> room s1 (dep2 s l' r') \<Longrightarrow>
        runs (m l' r' s1) (op_post s1 (top2 s l' r') (F l' r'))"
    and K: "\<And>x s2 lo hi. x = l \<or> x = r \<Longrightarrow> LEVEL s x = top2 s l r \<Longrightarrow> arg s x \<Longrightarrow> 2 \<le> x \<Longrightarrow>
        binv s2 \<Longrightarrow> ext s s2 \<Longrightarrow> arg s2 lo \<Longrightarrow> arg s2 hi \<Longrightarrow> room s2 (dep2 s l r - 1) \<Longrightarrow>
        res_ok s2 (top2 s l r + 1) (F (down s (top2 s l r) l False) (down s (top2 s l r) r False)) lo \<Longrightarrow>
        res_ok s2 (top2 s l r + 1) (F (down s (top2 s l r) l True) (down s (top2 s l r) r True)) hi \<Longrightarrow>
        runs (K x lo hi s2) (op_post s2 (top2 s l r) G)"
  shows "runs (bin_shape m K l r s) (op_post s (top2 s l r) G)"
  unfolding fr.posts_eq [symmetric]
proof (rule bin_posts [OF I a v R, where P = "\<lambda>l r. (=) (F l r)"])
  show "runs (m l' r' s1) (fr.posts s1 (top2 s l r + 1) ((=) (F l' r')))"
    if "binv s1" "ext s s1" "arg s l'" "arg s r'" "dep2 s l' r' < dep2 s l r" "room s1 (dep2 s l r - 1)"
      "top2 s l r < top2 s l' r'" for s1 l' r'
    unfolding fr.posts_eq
  proof (rule runs_conseq [OF rec [OF that(1-5)]])
    show "room s1 (dep2 s l' r')" using that(5,6) by (auto intro: room_mono)
    show "op_post s1 (top2 s l r + 1) (F l' r') x t" if "op_post s1 (top2 s l' r') (F l' r') x t" for x t
      using that \<open>top2 s l r < top2 s l' r'\<close> by (auto intro: post_weaken)
  qed
  fix x s2 lo hi F0 F1
  assume x: "x = l \<or> x = r" "LEVEL s x = top2 s l r" "arg s x" "2 \<le> x"
    and s2: "binv s2" "ext s s2" "arg s2 lo" "arg s2 hi" "room s2 (dep2 s l r - 1)"
    and F: "F (down s (top2 s l r) l False) (down s (top2 s l r) r False) = F0"
      "F (down s (top2 s l r) l True) (down s (top2 s l r) r True) = F1"
    and r: "res_ok s2 (top2 s l r + 1) F0 lo" "res_ok s2 (top2 s l r + 1) F1 hi"
  show "runs (K x lo hi s2) (fr.posts s2 (top2 s l r) ((=) G))"
    unfolding fr.posts_eq by (rule K [OF x s2]) (simp_all only: F r)
qed

end
