(* ===== verification/OpApply.thy ===== *)
theory OpApply
  imports OpRules
begin

text \<open>
  Correctness of negation, the binary operators and if-then-else: with enough fuel and room on the
  reference stack each recursion ends with the invariant, everything live unchanged, and a node
  for the right function (unless the table is full, which leaves an error pending).
\<close>

section \<open>Negation\<close>

lemma not_entry:
  assumes "op_post s (LEVEL s r) (\<lambda>e. \<not> sem s r e) res t" "binv s" "arg s r"
  shows "op_post s (LEVEL s r) (\<lambda>e. \<not> sem s r e) res (store applycache_update
           (\<lambda>e. e\<lparr>c_a := r, c_c := bddop_not, c_res := res\<rparr>) i t)"
proof -
  have t: "binv t" "ext s t" "res_ok t (LEVEL s r) (\<lambda>e. \<not> sem s r e) res"
    using assms(1) by (simp_all add: fr.post_def)
  note A = arg_later [OF t(2) assms(2,3)]
  have "node_id t r" using A(1) by (simp add: arg_def)
  then show ?thesis
    using t A by (intro post_store [OF assms(1)] stores(1) fr.invD(2))
      (simp_all add: apply_entry_def written_def bddop_defs)
qed

lemma not_rec_spec:
  "binv s \<Longrightarrow> arg s r \<Longrightarrow> dep s r < k \<Longrightarrow> room s (dep s r) \<Longrightarrow>
   runs (not_rec k r s) (op_post s (LEVEL s r) (\<lambda>e. \<not> sem s r e))"
proof (induction k arbitrary: r s)
  case 0
  then show ?case by simp
next
  case (Suc k)
  note I = Suc.prems(1) and a = Suc.prems(2)
  note N = arg_node [OF I a]
  consider "r = 0" | "r = 1" | "2 \<le> r" using N(4) by linarith
  then show ?case
  proof cases
    case 1
    then show ?thesis
      using I const_level [OF I] by (auto simp: ISZERO_def intro!: post_node simp: node_id_def)
  next
    case 2
    then show ?thesis
      using I const_level [OF I] by (auto simp: ISZERO_def ISONE_def intro!: post_node simp: node_id_def)
  next
    case 3
    let ?i = "BddCache_lookup (applycache (caches s)) (NOTHASH r)"
    let ?e = "table (applycache (caches s)) ?i"
    let ?hit = "BddCache_is_valid (applycache (caches s)) ?i \<and> c_a ?e = r \<and> c_c ?e = bddop_not"
    have eq: "not_rec (Suc k) r s = (if ?hit then ret (c_res ?e) s
        else bnd (both (\<lambda>s. not_rec k (LOW s r) s) (\<lambda>s. not_rec k (HIGH s r) s)
                    (\<lambda>lo hi s. bdd_makenode (LEVEL s r) lo hi s) s) (\<lambda>res s.
             ret res (store applycache_update
               (\<lambda>e. e\<lparr>c_a := r, c_c := bddop_not, c_res := res\<rparr>) ?i s)))"
      using 3 binv_tables(1) [OF I]
      by (simp add: ISZERO_def ISONE_def lookup_eq [where sel = applycache] Let_def)
    show ?thesis
    proof (cases ?hit)
      case True
      then have "apply_entry s ?e" using hits(1) [OF I] by blast
      then have "res_ok s (LEVEL s r) (\<lambda>e. \<not> sem s r e) (c_res ?e)"
        using True by (simp add: apply_entry_def)
      then show ?thesis using True I unfolding eq by (simp add: fr.post_def)
    next
      case False
      obtain d where d: "dep s r = Suc d" using N(10) 3 by (cases "dep s r") auto
      have R: "room s (Suc d)" using Suc.prems(4) d by simp
      have lo: "runs (not_rec k (LOW s r) s) (op_post s (LEVEL s (LOW s r)) (\<lambda>e. \<not> sem s (LOW s r) e))"
        using N(6,10) 3 Suc.prems d by (intro Suc.IH [OF I]) (auto intro: room_mono)
      have hi: "runs (not_rec k (HIGH s1 r) s1)
            (op_post s1 (LEVEL s (HIGH s r)) (\<lambda>e. \<not> sem s (HIGH s r) e))"
        if s1: "binv s1" "ext s s1" "room s1 d" for s1
      proof -
        note A = arg_later [OF s1(2) I a] and H = arg_later [OF s1(2) I N(7) [OF 3]]
        have "runs (not_rec k (HIGH s r) s1)
            (op_post s1 (LEVEL s1 (HIGH s r)) (\<lambda>e. \<not> sem s1 (HIGH s r) e))"
          using H(1,6) N(11) 3 Suc.prems(3) d s1(3) by (intro Suc.IH [OF s1(1)]) (auto intro: room_mono)
        then show ?thesis using A H by simp
      qed
      have "runs (both (\<lambda>s. not_rec k (LOW s r) s) (\<lambda>s. not_rec k (HIGH s r) s)
                    (\<lambda>lo hi s. bdd_makenode (LEVEL s r) lo hi s) s)
          (op_post s (LEVEL s r) (\<lambda>e. \<not> sem s r e))"
        by (rule fr.shannon [where d = d and f = "\<lambda>s. not_rec k (LOW s r) s" and
              g = "\<lambda>s. not_rec k (HIGH s r) s", OF I R a 3 lo N(8) [OF 3] hi N(9) [OF 3]])
          (simp_all add: N(12) [OF 3])
      then show ?thesis
        unfolding eq if_not_P [OF False]
        by (rule runs_bnd) (simp add: not_entry [OF _ I a])
    qed
  qed
qed

section \<open>Binary operators\<close>

lemma apply_shortcut_sound:
  assumes "apply_shortcut op l r = Some q" "\<And>e. S 0 e = False" "\<And>e. S 1 e = True"
  shows "q \<in> {l, r, 0, 1} \<and> (\<forall>e. S q e = bool_op op (S l e) (S r e))"
  using assms
  by (auto simp: apply_shortcut_def ISZERO_def ISONE_def bool_op_def bddop_defs split: if_splits)

lemma oprres_sound:
  assumes "0 \<le> op" "op \<le> bddop_invimp" "l = 0 \<or> l = 1" "r = 0 \<or> r = 1"
  shows "oprres_at op l r = (if bool_op op (l = 1) (r = 1) then 1 else 0)"
proof -
  have "op = 0 \<or> op = 1 \<or> op = 2 \<or> op = 3 \<or> op = 4 \<or> op = 5 \<or> op = 6 \<or> op = 7 \<or> op = 8 \<or> op = 9"
    using assms(1,2) unfolding bddop_invimp_def by presburger
  then show ?thesis
    using assms(3,4) by (elim disjE) (simp_all add: oprres_at_def oprres_def bool_op_def bddop_defs)
qed

definition apply_sem :: "int \<Rightarrow> bdd_state \<Rightarrow> int \<Rightarrow> int \<Rightarrow> (int \<Rightarrow> bool) \<Rightarrow> bool" where
  "apply_sem op s l r = (\<lambda>e. bool_op op (sem s l e) (sem s r e))"

lemma apply_entry_store:
  assumes P: "op_post s (top2 s l r) (apply_sem op s l r) res t"
    and I: "binv s" and a: "arg s l" "arg s r" and op: "0 \<le> op" "op \<le> bddop_invimp" "applyop (ops s) = op"
  shows "op_post s (top2 s l r) (apply_sem op s l r) res
    (store applycache_update (\<lambda>e. e\<lparr>c_a := l, c_b := r, c_c := applyop (ops t), c_res := res\<rparr>) i t)"
proof -
  have t: "binv t" "ext s t" "res_ok t (top2 s l r) (apply_sem op s l r) res"
    using P by (simp_all add: fr.post_def)
  note A = arg_later [OF t(2) I a(1)] and B = arg_later [OF t(2) I a(2)]
  have "node_id t l" "node_id t r" using A(1) B(1) by (simp_all add: arg_def)
  then have "apply_entry t (written (\<lambda>e. e\<lparr>c_a := l, c_b := r, c_c := applyop (ops t), c_res := res\<rparr>) i
      (applycache (caches t)))"
    using t(3) A B op by (auto simp: apply_entry_def written_def bddop_defs top2_def apply_sem_def)
  then show ?thesis by (rule post_store [OF P stores(1) [OF fr.invD(2) [OF t(1)]]])
qed

text \<open>The returns before the recursion.\<close>

lemma apply_early:
  assumes I: "binv s" and a: "arg s l" "arg s r" and op: "0 \<le> op" "op \<le> bddop_invimp"
    and q: "apply_shortcut op l r = Some q \<or> ISCONST l \<and> ISCONST r \<and> q = oprres_at op l r"
  shows "op_post s (top2 s l r) (apply_sem op s l r) q s"
proof -
  note L = arg_node [OF I a(1)] and R = arg_node [OF I a(2)]
  have "q \<in> {l, r, 0, 1} \<and> (\<forall>e. sem s q e = bool_op op (sem s l e) (sem s r e))"
    using q
  proof
    assume "apply_shortcut op l r = Some q"
    then show ?thesis by (rule apply_shortcut_sound) simp_all
  next
    assume c: "ISCONST l \<and> ISCONST r \<and> q = oprres_at op l r"
    then have lr: "l = 0 \<or> l = 1" "r = 0 \<or> r = 1" using L(4) R(4) by (auto simp: ISCONST_def)
    show ?thesis using c oprres_sound [OF op lr] lr by auto
  qed
  then show ?thesis
    using I L(2,13) R(2,13) const_level [OF I]
    by (intro post_node) (auto simp: node_id_def top2_def apply_sem_def)
qed

lemma apply_miss:
  assumes I: "binv s" and a: "arg s l" "arg s r" and nc: "\<not> (ISCONST l \<and> ISCONST r)"
    and R: "room s (dep2 s l r)" and op: "applyop (ops s) = op"
    and rec: "\<And>s1 l' r'. binv s1 \<Longrightarrow> arg s1 l' \<Longrightarrow> arg s1 r' \<Longrightarrow> applyop (ops s1) = op \<Longrightarrow>
        dep2 s1 l' r' < dep2 s l r \<Longrightarrow> room s1 (dep2 s1 l' r') \<Longrightarrow>
        runs (m l' r' s1) (op_post s1 (top2 s1 l' r') (apply_sem op s1 l' r'))"
  shows "runs (bin_shape m (\<lambda>x lo hi s. bdd_makenode (LEVEL s x) lo hi s) l r s)
    (op_post s (top2 s l r) (apply_sem op s l r))"
proof (rule bin_both [OF I a _ R])
  note L = arg_node [OF I a(1)] and Rn = arg_node [OF I a(2)]
  show v: "top2 s l r < bddvarnum s" using nc L(2,3) Rn(2,3) unfolding ISCONST_def top2_def by linarith
  show "runs (m l' r' s1) (op_post s1 (top2 s l' r') (apply_sem op s l' r'))"
    if s1: "binv s1" "ext s s1" and b: "arg s l'" "arg s r'" "dep2 s l' r' < dep2 s l r"
      "room s1 (dep2 s l' r')" for s1 l' r'
  proof -
    note A = arg_later [OF s1(2) I b(1)] and B = arg_later [OF s1(2) I b(2)]
    have eq: "top2 s1 l' r' = top2 s l' r'" "dep2 s1 l' r' = dep2 s l' r'"
      "apply_sem op s1 l' r' = apply_sem op s l' r'"
      using A B by (simp_all add: top2_def dep2_def apply_sem_def)
    show ?thesis using rec [of s1 l' r'] s1 b A(1,7) B(1) op by (simp add: eq)
  qed
  fix x s2 lo hi
  assume x: "x = l \<or> x = r" "LEVEL s x = top2 s l r" "arg s x" "2 \<le> x" and s2: "binv s2" "ext s s2"
    and lh: "arg s2 lo" "arg s2 hi"
    and res: "res_ok s2 (top2 s l r + 1) (apply_sem op s (down s (top2 s l r) l False) (down s (top2 s l r) r False)) lo"
      "res_ok s2 (top2 s l r + 1) (apply_sem op s (down s (top2 s l r) l True) (down s (top2 s l r) r True)) hi"
  have vl: "top2 s l r \<le> LEVEL s l" "top2 s l r \<le> LEVEL s r" by (simp_all add: top2_def)
  have "apply_sem op s l r e =
      (if e (LEVEL s x) then apply_sem op s (down s (top2 s l r) l True) (down s (top2 s l r) r True) e
       else apply_sem op s (down s (top2 s l r) l False) (down s (top2 s l r) r False) e)" for e
    using down_facts(4) [OF I a(1) vl(1) v, of e] down_facts(4) [OF I a(2) vl(2) v, of e] x(2)
    by (simp add: apply_sem_def)
  from fr.shannon_node [OF I x(3,4) _ _ this s2 lh res]
  show "runs (bdd_makenode (LEVEL s2 x) lo hi s2) (op_post s2 (top2 s l r) (apply_sem op s l r))"
    using x(2) by simp
qed

lemma apply_rec_spec:
  "binv s \<Longrightarrow> arg s l \<Longrightarrow> arg s r \<Longrightarrow> 0 \<le> op \<Longrightarrow> op \<le> bddop_invimp \<Longrightarrow> applyop (ops s) = op \<Longrightarrow>
   dep2 s l r < k \<Longrightarrow> room s (dep2 s l r) \<Longrightarrow>
   runs (apply_rec k l r s) (op_post s (top2 s l r) (apply_sem op s l r))"
proof (induction k arbitrary: l r s)
  case 0
  then show ?case by simp
next
  case (Suc k)
  note I = Suc.prems(1) and a = Suc.prems(2,3) and op = Suc.prems(4-6)
  let ?i = "BddCache_lookup (applycache (caches s)) (APPLYHASH l r op)"
  let ?e = "table (applycache (caches s)) ?i"
  let ?hit = "BddCache_is_valid (applycache (caches s)) ?i \<and> c_a ?e = l \<and> c_b ?e = r \<and> c_c ?e = op"
  let ?rest = "bnd (bin_shape (apply_rec k) (\<lambda>x lo hi s. bdd_makenode (LEVEL s x) lo hi s) l r s)
      (\<lambda>res s. ret res (store applycache_update
              (\<lambda>e. e\<lparr>c_a := l, c_b := r, c_c := applyop (ops s), c_res := res\<rparr>) ?i s))"
  have eq: "apply_rec (Suc k) l r s = (case apply_shortcut op l r of Some q \<Rightarrow> ret q s
      | None \<Rightarrow> if ISCONST l \<and> ISCONST r then ret (oprres_at op l r) s
               else if ?hit then ret (c_res ?e) s else ?rest)"
    unfolding apply_rec.simps Let_def bin_shape_def op(3)
      lookup_eq [where sel = applycache and s = s, OF binv_tables(1) [OF I]] ..
  show ?case
  proof (cases "(\<exists>q. apply_shortcut op l r = Some q) \<or> ISCONST l \<and> ISCONST r")
    case True
    then show ?thesis unfolding eq by (auto simp: apply_early [OF I a op(1,2)] split: option.split)
  next
    case False
    show ?thesis
    proof (cases ?hit)
      case True
      then have "apply_entry s ?e" using hits(1) [OF I] by blast
      then have "op_post s (top2 s l r) (apply_sem op s l r) (c_res ?e) s"
        using True I op by (simp add: apply_entry_def top2_def apply_sem_def fr.post_def)
      then show ?thesis using True False unfolding eq by auto
    next
      case miss: False
      have nc: "\<not> (ISCONST l \<and> ISCONST r)" using False by simp
      have "runs ?rest (op_post s (top2 s l r) (apply_sem op s l r))"
      proof (rule runs_bnd [OF apply_miss [OF I a nc Suc.prems(8) op(3)]])
        fix q t assume "op_post s (top2 s l r) (apply_sem op s l r) q t"
        then show "runs (ret q (store applycache_update
            (\<lambda>e. e\<lparr>c_a := l, c_b := r, c_c := applyop (ops t), c_res := q\<rparr>) ?i t))
          (op_post s (top2 s l r) (apply_sem op s l r))"
          by (simp add: apply_entry_store [OF _ I a op])
      qed (use Suc.IH op Suc.prems(7) in simp)
      then show ?thesis using False miss unfolding eq by (cases "apply_shortcut op l r") auto
    qed
  qed
qed

section \<open>If-then-else\<close>

definition top3 :: "bdd_state \<Rightarrow> int \<Rightarrow> int \<Rightarrow> int \<Rightarrow> int" where
  "top3 s f g h = min (LEVEL s f) (min (LEVEL s g) (LEVEL s h))"

definition dep3 :: "bdd_state \<Rightarrow> int \<Rightarrow> int \<Rightarrow> int \<Rightarrow> nat" where
  "dep3 s f g h = nat (bddvarnum s - top3 s f g h)"

definition ite_sem :: "bdd_state \<Rightarrow> int \<Rightarrow> int \<Rightarrow> int \<Rightarrow> (int \<Rightarrow> bool) \<Rightarrow> bool" where
  "ite_sem s f g h = (\<lambda>e. if sem s f e then sem s g e else sem s h e)"

text \<open>The recursive step of \<open>ite_rec\<close>, for any continuation \<open>m\<close>.\<close>

definition ite_shape ::
    "(int \<Rightarrow> int \<Rightarrow> int \<Rightarrow> bdd_state \<Rightarrow> BDD bm) \<Rightarrow> int \<Rightarrow> int \<Rightarrow> int \<Rightarrow> bdd_state \<Rightarrow> BDD bm" where
  "ite_shape m f g h s = (case ite_split s f g h of
      F_G_H \<Rightarrow> both (\<lambda>s. m (LOW s f) (LOW s g) (LOW s h) s) (\<lambda>s. m (HIGH s f) (HIGH s g) (HIGH s h) s)
                   (\<lambda>lo hi s. bdd_makenode (LEVEL s f) lo hi s) s
    | F_G \<Rightarrow> both (\<lambda>s. m (LOW s f) (LOW s g) h s) (\<lambda>s. m (HIGH s f) (HIGH s g) h s)
                   (\<lambda>lo hi s. bdd_makenode (LEVEL s f) lo hi s) s
    | H_only \<Rightarrow> both (\<lambda>s. m f g (LOW s h) s) (\<lambda>s. m f g (HIGH s h) s)
                   (\<lambda>lo hi s. bdd_makenode (LEVEL s h) lo hi s) s
    | F_H \<Rightarrow> both (\<lambda>s. m (LOW s f) g (LOW s h) s) (\<lambda>s. m (HIGH s f) g (HIGH s h) s)
                   (\<lambda>lo hi s. bdd_makenode (LEVEL s f) lo hi s) s
    | F_only \<Rightarrow> both (\<lambda>s. m (LOW s f) g h s) (\<lambda>s. m (HIGH s f) g h s)
                   (\<lambda>lo hi s. bdd_makenode (LEVEL s f) lo hi s) s
    | G_H \<Rightarrow> both (\<lambda>s. m f (LOW s g) (LOW s h) s) (\<lambda>s. m f (HIGH s g) (HIGH s h) s)
                   (\<lambda>lo hi s. bdd_makenode (LEVEL s g) lo hi s) s
    | G_only \<Rightarrow> both (\<lambda>s. m f (LOW s g) h s) (\<lambda>s. m f (HIGH s g) h s)
                   (\<lambda>lo hi s. bdd_makenode (LEVEL s g) lo hi s) s)"

text \<open>Every case of it descends in the arguments that are on the top level.\<close>

lemma ite_shape_eq:
  assumes v: "v = top3 s f g h"
  obtains x p q where "ite_shape m f g h s = both p q (\<lambda>lo hi s. bdd_makenode (LEVEL s x) lo hi s) s"
    "x \<in> {f, g, h}" "LEVEL s x = v"
    "p s = m (down s v f False) (down s v g False) (down s v h False) s"
    "\<And>t. LOW t f = LOW s f \<Longrightarrow> LOW t g = LOW s g \<Longrightarrow> LOW t h = LOW s h \<Longrightarrow>
         HIGH t f = HIGH s f \<Longrightarrow> HIGH t g = HIGH s g \<Longrightarrow> HIGH t h = HIGH s h \<Longrightarrow>
         q t = m (down s v f True) (down s v g True) (down s v h True) t"
proof (cases "ite_split s f g h")
  case F_G_H
  then have "LEVEL s f = LEVEL s g" "LEVEL s f = LEVEL s h" by (simp_all add: ite_split_def split: if_splits)
  then have d: "LEVEL s f = v" "down s v f b = (if b then HIGH s f else LOW s f)" "down s v g b = (if b then HIGH s g else LOW s g)" "down s v h b = (if b then HIGH s h else LOW s h)" for b
    by (simp_all add: v top3_def down_def)
  show ?thesis
    by (rule that [of "\<lambda>s. m (LOW s f) (LOW s g) (LOW s h) s" "\<lambda>s. m (HIGH s f) (HIGH s g) (HIGH s h) s" f])
      (simp_all add: ite_shape_def F_G_H d)
next
  case F_G
  then have "LEVEL s f = LEVEL s g" "LEVEL s f < LEVEL s h" by (simp_all add: ite_split_def split: if_splits)
  then have d: "LEVEL s f = v" "down s v f b = (if b then HIGH s f else LOW s f)" "down s v g b = (if b then HIGH s g else LOW s g)" "down s v h b = h" for b
    by (simp_all add: v top3_def down_def)
  show ?thesis
    by (rule that [of "\<lambda>s. m (LOW s f) (LOW s g) h s" "\<lambda>s. m (HIGH s f) (HIGH s g) h s" f])
      (simp_all add: ite_shape_def F_G d)
next
  case H_only
  then have "LEVEL s h < LEVEL s f" "LEVEL s h < LEVEL s g" by (simp_all add: ite_split_def split: if_splits)
  then have d: "LEVEL s h = v" "down s v f b = f" "down s v g b = g" "down s v h b = (if b then HIGH s h else LOW s h)" for b
    by (simp_all add: v top3_def down_def)
  show ?thesis
    by (rule that [of "\<lambda>s. m f g (LOW s h) s" "\<lambda>s. m f g (HIGH s h) s" h])
      (simp_all add: ite_shape_def H_only d)
next
  case F_H
  then have "LEVEL s f < LEVEL s g" "LEVEL s f = LEVEL s h" by (simp_all add: ite_split_def split: if_splits)
  then have d: "LEVEL s f = v" "down s v f b = (if b then HIGH s f else LOW s f)" "down s v g b = g" "down s v h b = (if b then HIGH s h else LOW s h)" for b
    by (simp_all add: v top3_def down_def)
  show ?thesis
    by (rule that [of "\<lambda>s. m (LOW s f) g (LOW s h) s" "\<lambda>s. m (HIGH s f) g (HIGH s h) s" f])
      (simp_all add: ite_shape_def F_H d)
next
  case F_only
  then have "LEVEL s f < LEVEL s g" "LEVEL s f < LEVEL s h" by (simp_all add: ite_split_def split: if_splits)
  then have d: "LEVEL s f = v" "down s v f b = (if b then HIGH s f else LOW s f)" "down s v g b = g" "down s v h b = h" for b
    by (simp_all add: v top3_def down_def)
  show ?thesis
    by (rule that [of "\<lambda>s. m (LOW s f) g h s" "\<lambda>s. m (HIGH s f) g h s" f])
      (simp_all add: ite_shape_def F_only d)
next
  case G_H
  then have "LEVEL s g < LEVEL s f" "LEVEL s g = LEVEL s h" by (simp_all add: ite_split_def split: if_splits)
  then have d: "LEVEL s g = v" "down s v f b = f" "down s v g b = (if b then HIGH s g else LOW s g)" "down s v h b = (if b then HIGH s h else LOW s h)" for b
    by (simp_all add: v top3_def down_def)
  show ?thesis
    by (rule that [of "\<lambda>s. m f (LOW s g) (LOW s h) s" "\<lambda>s. m f (HIGH s g) (HIGH s h) s" g])
      (simp_all add: ite_shape_def G_H d)
next
  case G_only
  then have "LEVEL s g < LEVEL s f" "LEVEL s g < LEVEL s h" by (simp_all add: ite_split_def split: if_splits)
  then have d: "LEVEL s g = v" "down s v f b = f" "down s v g b = (if b then HIGH s g else LOW s g)" "down s v h b = h" for b
    by (simp_all add: v top3_def down_def)
  show ?thesis
    by (rule that [of "\<lambda>s. m f (LOW s g) h s" "\<lambda>s. m f (HIGH s g) h s" g])
      (simp_all add: ite_shape_def G_only d)
qed

lemma ite_miss:
  assumes I: "binv s" and a: "arg s f" "arg s g" "arg s h" and vd: "v = top3 s f g h" and v: "v < bddvarnum s"
    and R: "room s (dep3 s f g h)"
    and rec: "\<And>s1 f' g' h'. binv s1 \<Longrightarrow> arg s1 f' \<Longrightarrow> arg s1 g' \<Longrightarrow> arg s1 h' \<Longrightarrow>
        dep3 s1 f' g' h' < dep3 s f g h \<Longrightarrow> room s1 (dep3 s1 f' g' h') \<Longrightarrow>
        runs (m f' g' h' s1) (op_post s1 (top3 s1 f' g' h') (ite_sem s1 f' g' h'))"
  shows "runs (ite_shape m f g h s) (op_post s v (ite_sem s f g h))"
proof -
  let ?d = "\<lambda>x b. down s v x b"
  have vl: "v \<le> LEVEL s f" "v \<le> LEVEL s g" "v \<le> LEVEL s h" by (simp_all add: vd top3_def)
  note D = down_facts [OF I a(1) vl(1) v] down_facts [OF I a(2) vl(2) v] down_facts [OF I a(3) vl(3) v]
  obtain d where d: "dep3 s f g h = Suc d" using v by (cases "dep3 s f g h") (auto simp: dep3_def vd)
  let ?F = "\<lambda>b. ite_sem s (?d f b) (?d g b) (?d h b)"
  have sub: "runs (m (?d f b) (?d g b) (?d h b) s1) (op_post s1 (v + 1) (?F b))"
    if s1: "binv s1" "ext s s1" "room s1 d" for s1 b
  proof -
    note A = arg_later [OF s1(2) I D(1) [of b]] and B = arg_later [OF s1(2) I D(5) [of b]]
      and C = arg_later [OF s1(2) I D(9) [of b]]
    have vn: "bddvarnum s1 = bddvarnum s" using s1(2) by (intro statD) (simp add: ext_def)
    have top: "v < top3 s1 (?d f b) (?d g b) (?d h b)"
      using D(2,6,10) [of b] A(2) B(2) C(2) by (simp add: top3_def)
    then have lt: "dep3 s1 (?d f b) (?d g b) (?d h b) < dep3 s f g h"
      using v vn unfolding dep3_def vd [symmetric] by simp
    have "ite_sem s1 (?d f b) (?d g b) (?d h b) = ?F b" using A(5) B(5) C(5) by (simp add: ite_sem_def)
    moreover have "runs (m (?d f b) (?d g b) (?d h b) s1)
        (op_post s1 (top3 s1 (?d f b) (?d g b) (?d h b)) (ite_sem s1 (?d f b) (?d g b) (?d h b)))"
      using s1(1,3) A(1) B(1) C(1) lt d by (intro rec) (auto intro: room_mono)
    ultimately show ?thesis using top by (auto elim!: runs_conseq intro: post_weaken)
  qed
  obtain x p q where
    sh: "ite_shape m f g h s = both p q (\<lambda>lo hi s. bdd_makenode (LEVEL s x) lo hi s) s"
      "x \<in> {f, g, h}" "LEVEL s x = v" "p s = m (?d f False) (?d g False) (?d h False) s"
      "\<And>t. LOW t f = LOW s f \<Longrightarrow> LOW t g = LOW s g \<Longrightarrow> LOW t h = LOW s h \<Longrightarrow>
         HIGH t f = HIGH s f \<Longrightarrow> HIGH t g = HIGH s g \<Longrightarrow> HIGH t h = HIGH s h \<Longrightarrow>
         q t = m (?d f True) (?d g True) (?d h True) t"
    by (rule ite_shape_eq [OF vd, where m = m]) (rule that; assumption)
  have x: "arg s x" using sh(2) a by auto
  have x2: "2 \<le> x" using arg_node(3) [OF I x] sh(3) v by linarith
  have "runs (both p q (\<lambda>lo hi s. bdd_makenode (LEVEL s x) lo hi s) s)
      (op_post s (LEVEL s x) (ite_sem s f g h))"
  proof (rule fr.shannon [where f = p and g = q and d = d, OF I _ x x2])
    show "room s (Suc d)" using R d by simp
    show "runs (p s) (op_post s (v + 1) (?F False))"
      unfolding sh(4) using R d by (intro sub [OF I]) (auto intro: room_mono)
    show "runs (q s1) (op_post s1 (v + 1) (?F True))" if s1: "binv s1" "ext s s1" "room s1 d" for s1
    proof -
      have "q s1 = m (?d f True) (?d g True) (?d h True) s1"
        using arg_later(3,4) [OF s1(2) I a(1)] arg_later(3,4) [OF s1(2) I a(2)]
          arg_later(3,4) [OF s1(2) I a(3)] by (intro sh(5)) simp_all
      then show ?thesis using sub [OF s1] by simp
    qed
    show "ite_sem s f g h e = (if e (LEVEL s x) then ?F True e else ?F False e)" for e
      using D(4) [of e] D(8) [of e] D(12) [of e] unfolding sh(3) ite_sem_def by simp
  qed (simp_all add: sh(3))
  then show ?thesis unfolding sh(1) sh(3) .
qed

lemma ite_early:
  assumes I: "binv s" and a: "arg s f" "arg s g" "arg s h"
    and q: "f = 1 \<and> q = g \<or> f = 0 \<and> q = h \<or> g = h \<and> q = g \<or> g = 1 \<and> h = 0 \<and> q = f"
  shows "op_post s (top3 s f g h) (ite_sem s f g h) q s"
  using q arg_node(13) [OF I a(1)] arg_node(13) [OF I a(2)] arg_node(13) [OF I a(3)]
  by (intro post_node [OF I]) (auto simp: top3_def ite_sem_def)

lemma ite_entry_store:
  assumes P: "op_post s (top3 s f g h) (ite_sem s f g h) res t"
    and I: "binv s" and a: "arg s f" "arg s g" "arg s h"
  shows "op_post s (top3 s f g h) (ite_sem s f g h) res
    (store itecache_update (\<lambda>e. e\<lparr>c_a := f, c_b := g, c_c := h, c_res := res\<rparr>) i t)"
proof -
  have t: "binv t" "ext s t" "res_ok t (top3 s f g h) (ite_sem s f g h) res"
    using P by (simp_all add: fr.post_def)
  note A = arg_later [OF t(2) I a(1)] and B = arg_later [OF t(2) I a(2)] and C = arg_later [OF t(2) I a(3)]
  have "node_id t f" "node_id t g" "node_id t h" using A(1) B(1) C(1) by (simp_all add: arg_def)
  then have "ite_entry t (written (\<lambda>e. e\<lparr>c_a := f, c_b := g, c_c := h, c_res := res\<rparr>) i
      (itecache (caches t)))"
    using t(3) A B C by (simp add: ite_entry_def written_def top3_def ite_sem_def cong: if_cong split del: if_split)
  then show ?thesis by (rule post_store [OF P stores(2) [OF fr.invD(2) [OF t(1)]]])
qed

lemma ite_rec_spec:
  "binv s \<Longrightarrow> arg s f \<Longrightarrow> arg s g \<Longrightarrow> arg s h \<Longrightarrow> dep3 s f g h < k \<Longrightarrow> room s (dep3 s f g h) \<Longrightarrow>
   runs (ite_rec k f g h s) (op_post s (top3 s f g h) (ite_sem s f g h))"
proof (induction k arbitrary: f g h s)
  case 0
  then show ?case by simp
next
  case (Suc k)
  note I = Suc.prems(1) and a = Suc.prems(2-4)
  let ?P = "op_post s (top3 s f g h) (ite_sem s f g h)"
  let ?i = "BddCache_lookup (itecache (caches s)) (ITEHASH f g h)"
  let ?e = "table (itecache (caches s)) ?i"
  let ?hit = "BddCache_is_valid (itecache (caches s)) ?i \<and> c_a ?e = f \<and> c_b ?e = g \<and> c_c ?e = h"
  let ?rest = "bnd (ite_shape (ite_rec k) f g h s) (\<lambda>res s. ret res (store itecache_update
              (\<lambda>e. e\<lparr>c_a := f, c_b := g, c_c := h, c_res := res\<rparr>) ?i s))"
  have eq: "ite_rec (Suc k) f g h s =
      (if f = 1 then ret g s else if f = 0 then ret h s else if g = h then ret g s
       else if g = 1 \<and> h = 0 then ret f s else if g = 0 \<and> h = 1 then not_rec (Suc k) f s
       else if ?hit then ret (c_res ?e) s else ?rest)"
    unfolding ite_rec.simps Let_def ite_shape_def ISONE_def ISZERO_def
      lookup_eq [where sel = itecache and s = s, OF binv_tables(2) [OF I]] ..
  note F = arg_node [OF I a(1)] and G = arg_node [OF I a(2)] and H = arg_node [OF I a(3)]
  consider (early) q where "f = 1 \<and> q = g \<or> f = 0 \<and> q = h \<or> g = h \<and> q = g \<or> g = 1 \<and> h = 0 \<and> q = f"
      "ite_rec (Suc k) f g h s = ret q s"
    | (neg) "g = 0" "h = 1" "ite_rec (Suc k) f g h s = not_rec (Suc k) f s"
    | (hit) ?hit "ite_rec (Suc k) f g h s = ret (c_res ?e) s"
    | (miss) "f \<noteq> 1" "f \<noteq> 0" "ite_rec (Suc k) f g h s = ?rest"
    unfolding eq by (cases "f = 1"; cases "f = 0"; cases "g = h"; cases "g = 1 \<and> h = 0";
        cases "g = 0 \<and> h = 1"; cases ?hit) auto
  then show ?case
  proof cases
    case early
    then show ?thesis using ite_early [OF I a early(1)] by simp
  next
    case neg
    have lv: "top3 s f g h = LEVEL s f" using const_level [OF I] F(2) neg by (simp add: top3_def)
    then have "dep3 s f g h = dep s f" by (simp add: dep3_def dep_def)
    then have "runs (not_rec (Suc k) f s) (op_post s (LEVEL s f) (\<lambda>e. \<not> sem s f e))"
      using Suc.prems by (intro not_rec_spec) simp_all
    moreover have "ite_sem s f g h = (\<lambda>e. \<not> sem s f e)"
      by (simp add: ite_sem_def neg fun_eq_iff)
    ultimately show ?thesis unfolding neg(3) lv by (simp only:)
  next
    case hit
    then have "ite_entry s ?e" using hits(2) [OF I] by blast
    then have "?P (c_res ?e) s"
      using hit(1) I
      by (simp add: ite_entry_def top3_def ite_sem_def fr.post_def cong: if_cong split del: if_split)
    then show ?thesis unfolding hit(2) by simp
  next
    case miss
    have v: "top3 s f g h < bddvarnum s" using miss F(3,5) F(4) by (auto simp: top3_def min_less_iff_disj)
    have "runs (ite_shape (ite_rec k) f g h s) ?P"
      using Suc.prems(5) by (intro ite_miss [OF I a refl v Suc.prems(6)] Suc.IH) simp_all
    then show ?thesis
      unfolding miss(3)
    proof (rule runs_bnd)
      fix q t assume "?P q t"
      then show "runs (ret q (store itecache_update
          (\<lambda>e. e\<lparr>c_a := f, c_b := g, c_c := h, c_res := q\<rparr>) ?i t)) ?P"
        by (simp add: ite_entry_store [OF _ I a])
    qed
  qed
qed

end
