(* ===== verification/OpSession.thy ===== *)
theory OpSession
  imports OpApply
begin

text \<open>
  The state between two calls of the library, and the frame of the external operations: the argument
  checks, \<open>again\<close> (the \<open>setjmp\<close> frame) and \<open>checkresize\<close>.
\<close>

section \<open>Sessions and handles\<close>

text \<open>With a cache ratio the caches are resized to at least two entries.\<close>

definition ratio_ok :: "bdd_state \<Rightarrow> bool" where
  "ratio_ok s = (0 \<le> cacheratio (ops s) \<and> 2 * cacheratio (ops s) \<le> bddnodesize s)"

text \<open>
  The variable tables: \<open>bddvar2level\<close> and \<open>bddlevel2var\<close> are inverse to each other, and
  \<open>bddvarset\<close> has the positive and the negative literal of each variable, referenced forever.
\<close>

definition lit_node :: "bdd_state \<Rightarrow> int \<Rightarrow> int \<Rightarrow> int \<Rightarrow> int \<Rightarrow> bool" where
  "lit_node s n l a b =
     (inner s n \<and> LEVEL s n = l \<and> LOW s n = a \<and> HIGH s n = b \<and> n_refcou (bddnodes s n) = MAXREF)"

definition var_ok :: "bdd_state \<Rightarrow> int \<Rightarrow> bool" where
  "var_ok s v =
     (let l = bddvar2level s v in
      0 \<le> l \<and> l < bddvarnum s \<and> bddlevel2var s l = v \<and>
      lit_node s (bddvarset s (v * 2)) l 0 1 \<and> lit_node s (bddvarset s (v * 2 + 1)) l 1 0)"

definition vars_ok :: "bdd_state \<Rightarrow> bool" where
  "vars_ok s =
     ((\<forall>v. 0 \<le> v \<and> v < bddvarnum s \<longrightarrow> var_ok s v) \<and>
      (\<forall>l. 0 \<le> l \<and> l < bddvarnum s \<longrightarrow>
         0 \<le> bddlevel2var s l \<and> bddlevel2var s l < bddvarnum s \<and>
         bddvar2level s (bddlevel2var s l) = l))"

text \<open>A node the user holds: protected by a reference count, not by the internal stack.\<close>

definition handle :: "bdd_state \<Rightarrow> int \<Rightarrow> bool" where
  "handle s n = arg (INITREF s) n"

text \<open>
  The quantification table holds no identifier that is still to come; the pairs have different
  addresses and identifiers, which are in use already, and their nodes are referenced.
\<close>

definition quant_table :: "int \<Rightarrow> opglobals \<Rightarrow> bool" where
  "quant_table num g =
     (0 \<le> quantvarsetID g \<and> quantvarsetID g \<le> INT_MAX \<and>
      (\<forall>l. 0 \<le> l \<and> l < num \<longrightarrow> \<bar>quantvarset g l\<bar> \<le> quantvarsetID g))"

definition pair_ok :: "bdd_state \<Rightarrow> bddPair \<Rightarrow> bool" where
  "pair_ok s p =
     (0 \<le> p_id p \<and> p_id p \<le> pairsid s \<and> p_last p < bddvarnum s \<and>
      (\<forall>l. 0 \<le> l \<and> l < bddvarnum s \<longrightarrow> handle s (p_result p l)))"

definition pairs_ok :: "bdd_state \<Rightarrow> bool" where
  "pairs_ok s =
     (pairsid s < INT_MAX div 4 \<and> distinct (map p_addr (pairs s)) \<and> distinct (map p_id (pairs s)) \<and>
      (\<forall>p \<in> set (pairs s). pair_ok s p))"

definition session :: "bdd_state \<Rightarrow> bool" where
  "session s =
     (binv s \<and> ratio_ok s \<and> 128 * bddvarnum s + 8192 \<le> bddrefslots s \<and> vars_ok s \<and>
      quant_table (bddvarnum s) (ops s) \<and> pairs_ok s)"

text \<open>Nothing the user holds has changed.\<close>

definition keeps :: "bdd_state \<Rightarrow> bdd_state \<Rightarrow> bool" where
  "keeps s t =
     (\<exists>g. ext (set_ops (\<lambda>_. g) (INITREF s)) t)"

text \<open>What an external operation guarantees.\<close>

definition ends :: "bdd_state \<Rightarrow> int \<Rightarrow> ((int \<Rightarrow> bool) \<Rightarrow> bool) \<Rightarrow> int \<Rightarrow> bdd_state \<Rightarrow> bool" where
  "ends s L F r t = (session t \<and> keeps s t \<and> res_ok t L F r)"

lemma handle_const [simp]: "handle s 0" "handle s 1"
  by (simp_all add: handle_def)

lemma INITREF_sel [simp]:
  "bddrefstack (INITREF s) = []" "bddnodes (INITREF s) = bddnodes s" "bddvarnum (INITREF s) = bddvarnum s"
  "bddnodesize (INITREF s) = bddnodesize s" "bddrefslots (INITREF s) = bddrefslots s"
  "caches (INITREF s) = caches s" "ops (INITREF s) = ops s" "bdderrorcond (INITREF s) = bdderrorcond s"
  by (simp_all add: INITREF_def)

lemma set_ops_sel [simp]:
  "bddrefstack (set_ops g s) = bddrefstack s" "bddnodes (set_ops g s) = bddnodes s"
  "bddnodesize (set_ops g s) = bddnodesize s" "bddrefslots (set_ops g s) = bddrefslots s"
  "caches (set_ops g s) = caches s" "ops (set_ops g s) = g (ops s)" "bddvarnum (set_ops g s) = bddvarnum s"
  "bdderrorcond (set_ops g s) = bdderrorcond s" "bddrunning (set_ops g s) = bddrunning s"
  "mtbdd (set_ops g s) = mtbdd s" "checkSameChildren (set_ops g s) = checkSameChildren s"
  "bddfreepos (set_ops g s) = bddfreepos s" "bddfreenum (set_ops g s) = bddfreenum s"
  "mtvals (set_ops g s) = mtvals s" "memlimit (set_ops g s) = memlimit s" "rand (set_ops g s) = rand s"
  by (simp_all add: set_ops_def)

text \<open>Changes of the state that the invariant does not see.\<close>

definition same_core :: "bdd_state \<Rightarrow> bdd_state \<Rightarrow> bool" where
  "same_core s t =
     (bddnodes t = bddnodes s \<and> bddnodesize t = bddnodesize s \<and> bddrefstack t = bddrefstack s \<and>
      bddfreepos t = bddfreepos s \<and> bddfreenum t = bddfreenum s \<and> mtvals t = mtvals s \<and>
      bdderrorcond t = bdderrorcond s \<and> memlimit t = memlimit s \<and> rand t = rand s \<and>
      bddmaxnodeincrease t = bddmaxnodeincrease s \<and> bddreordermethod t = bddreordermethod s \<and>
      bddreordertimes t = bddreordertimes s \<and> vartree t = vartree s \<and>
      reorderdisabled t = reorderdisabled s \<and> bddvarnum t = bddvarnum s \<and> bddrunning t = bddrunning s \<and>
      mtbdd t = mtbdd s \<and> checkSameChildren t = checkSameChildren s \<and>
      pairs t = pairs s \<and> pairsid t = pairsid s)"

lemma same_core_eqs:
  assumes C: "same_core s t"
  shows "LEVEL t = LEVEL s" "LOW t = LOW s" "HIGH t = HIGH s" "inner t = inner s"
    "node_id t = node_id s" "allocd t = allocd s" "sem t = sem s" "vset t = vset s" "lit t = lit s"
    "res_ok t = res_ok s" "tab_inv t = tab_inv s" "live t n = live s n" "arg t n = arg s n"
proof -
  have e: "bddnodes t = bddnodes s" "bddnodesize t = bddnodesize s" "bddrefstack t = bddrefstack s"
    "bdderrorcond t = bdderrorcond s"
    using C by (simp_all add: same_core_def)
  note E = core_eq [OF e(1,2)]
  show "LEVEL t = LEVEL s" "LOW t = LOW s" "HIGH t = HIGH s" "inner t = inner s"
    "node_id t = node_id s" "allocd t = allocd s" "sem t = sem s" "vset t = vset s" "lit t = lit s"
    by (rule E)+
  show "res_ok t = res_ok s" by (simp add: fun_eq_iff res_ok_def E e)
  show "tab_inv t = tab_inv s" using C by (intro tab_inv_cong) (simp_all add: same_core_def)
  show lv: "live t n = live s n" by (rule live_cong) (simp_all add: e)
  show "arg t n = arg s n" by (simp add: arg_def E lv)
qed

lemma entries_core:
  assumes C: "same_core s t"
  shows "apply_entry t = apply_entry s" "ite_entry t = ite_entry s" "quant_entry t = quant_entry s"
    "appex_entry t = appex_entry s" "misc_entry t = misc_entry s" "replace_entry t = replace_entry s"
proof -
  have e: "bddnodes t = bddnodes s" "bddnodesize t = bddnodesize s" "bddvarnum t = bddvarnum s"
    "pairs t = pairs s" "pairsid t = pairsid s"
    using C by (simp_all add: same_core_def)
  note E = core_eq [OF e(1,2)] core_counts [OF e(1-3)] same_core_eqs(10) [OF C]
  show "apply_entry t = apply_entry s" "ite_entry t = ite_entry s" "quant_entry t = quant_entry s"
    "appex_entry t = appex_entry s" "misc_entry t = misc_entry s" "replace_entry t = replace_entry s"
    by (intro HOL.ext; simp add: apply_entry_def ite_entry_def quant_entry_def appex_entry_def
        misc_entry_def replace_entry_def compose_entry_def subst_entry_def E e)+
qed

lemma caches_ok_core: "same_core s t \<Longrightarrow> caches t = caches s \<Longrightarrow> caches_ok t = caches_ok s"
  using entries_core [of s t] by (simp add: caches_ok_def)

lemma bdd_base_core:
  assumes C: "same_core s t"
  shows "bdd_base t = bdd_base s"
proof -
  have "env_ok t = env_ok s" using C by (simp add: env_ok_def bdd_reorder_ready_def same_core_def)
  moreover have "prime_size t = prime_size s" using C by (simp add: prime_size_def same_core_def)
  moreover have "bdd_table t = bdd_table s"
    using C same_core_eqs [OF C] by (simp add: bdd_table_def same_core_def)
  ultimately show ?thesis
    using C same_core_eqs(11) [OF C] by (simp add: bdd_base_def kinv_def same_core_def)
qed

lemma binv_core: "same_core s t \<Longrightarrow> caches t = caches s \<Longrightarrow> binv t = binv s"
  by (simp add: fr.inv_def bdd_base_core caches_ok_core)

lemma same_core_upd [simp]:
  "same_core s (set_ops g s)" "same_core s (s\<lparr>bddresized := b\<rparr>)" "same_core s (s\<lparr>caches := c\<rparr>)"
  "same_core s (s\<lparr>randpos := p\<rparr>)" "same_core s (s\<lparr>trace := tr\<rparr>)"
  by (simp_all add: same_core_def set_ops_def)

lemma same_core_trans: "same_core s t \<Longrightarrow> same_core t u \<Longrightarrow> same_core s u"
  by (simp add: same_core_def)

lemma binv_INITREF: "binv s \<Longrightarrow> binv (INITREF s)"
  unfolding INITREF_def by (rule fr.inv_refstack) simp_all

lemma binv_opened: "binv s \<Longrightarrow> binv (set_ops g (INITREF s))"
  using binv_core [of "INITREF s" "set_ops g (INITREF s)"] binv_INITREF [of s] by simp

lemma handle_opened: "handle s n \<Longrightarrow> arg (set_ops g (INITREF s)) n"
  using same_core_eqs(13) [of "INITREF s" "set_ops g (INITREF s)"] by (simp add: handle_def)

lemma opened_core:
  "LEVEL (set_ops g (INITREF s)) = LEVEL s" "LOW (set_ops g (INITREF s)) = LOW s"
  "HIGH (set_ops g (INITREF s)) = HIGH s" "sem (set_ops g (INITREF s)) = sem s"
  "node_id (set_ops g (INITREF s)) = node_id s" "vset (set_ops g (INITREF s)) = vset s"
  "lit (set_ops g (INITREF s)) = lit s"
  by (rule core_eq; simp)+

section \<open>What is kept\<close>

lemma live_handle: "live (INITREF s) n \<Longrightarrow> live s n"
proof (induction rule: live.induct)
  case (live_low n)
  then show ?case using live.live_low [of s n] by (simp add: INITREF_def)
next
  case (live_high n)
  then show ?case using live.live_high [of s n] by (simp add: INITREF_def)
qed (auto intro: live.live_ref)

lemma live_nostack: "bddrefstack s = [] \<Longrightarrow> live (INITREF s) n = live s n"
  by (rule live_cong) simp_all

lemma handle_arg: "handle s n \<Longrightarrow> arg s n"
  using live_handle [of s n] by (auto simp: handle_def arg_def INITREF_def)

lemma handle_iff:
  "handle s n \<longleftrightarrow> node_id s n \<and> (2 \<le> n \<longrightarrow> live (INITREF s) n)"
  by (simp add: handle_def arg_def INITREF_def)

lemma live_ref_transfer:
  assumes E: "ext s t" and I: "tab_inv s" and st: "bddrefstack s = []"
  shows "live s n \<Longrightarrow> live (INITREF t) n"
proof (induction rule: live.induct)
  case (live_stack x)
  then show ?case using st by simp
next
  case (live_ref n)
  then have "node_id s n" "live s n"
    using live_node_id [OF live.live_ref] tab_invD [OF I] by (auto intro: live.live_ref)
  then have "same_node s t n" using E by (auto simp: ext_def node_id_def)
  then show ?case using live_ref E by (intro live.live_ref) (auto simp: ext_def same_node_def)
next
  case (live_low n)
  then have "same_node s t n" "allocd t n" using ext_keep [OF E, of n] by (auto simp: inner_def)
  then show ?case
    using live_low live.live_low [of "INITREF t" n] by (simp add: same_node_def inner_def INITREF_def)
next
  case (live_high n)
  then have "same_node s t n" "allocd t n" using ext_keep [OF E, of n] by (auto simp: inner_def)
  then show ?case
    using live_high live.live_high [of "INITREF t" n] by (simp add: same_node_def inner_def INITREF_def)
qed

lemma keepsD:
  assumes k: "keeps s t" and b: "binv s" and h: "handle s n"
  shows "handle t n" "LEVEL t n = LEVEL s n" "LOW t n = LOW s n" "HIGH t n = HIGH s n"
    "n_refcou (bddnodes t n) = n_refcou (bddnodes s n)" "sem t n = sem s n"
    "vset t n = vset s n" "lit t n = lit s n"
proof -
  from k obtain g where E: "ext (set_ops (\<lambda>_. g) (INITREF s)) t" by (auto simp: keeps_def)
  let ?s = "set_ops (\<lambda>_. g) (INITREF s)"
  note A = handle_opened [OF h, of "\<lambda>_. g"] and I = binvD(3) [OF binv_opened [OF b, of "\<lambda>_. g"]]
  note X = arg_ext [OF E I A]
  show "LEVEL t n = LEVEL s n" "LOW t n = LOW s n" "HIGH t n = HIGH s n"
    "n_refcou (bddnodes t n) = n_refcou (bddnodes s n)"
    using X(2) by (simp_all add: same_node_def opened_core)
  show "sem t n = sem s n" using X(3) by (simp add: fun_eq_iff opened_core)
  have "live (INITREF t) n" if "2 \<le> n"
    using live_ref_transfer [OF E I, of n] A that by (simp add: arg_def)
  then show "handle t n" using X(1) by (simp add: handle_iff arg_def)
  note S = agree_sets [OF tab_invD(3) [OF I] arg_agree [OF E A]]
  show "vset t n = vset s n" using S(1) by (simp add: opened_core)
  show "lit t n = lit s n" using S(2) by (simp add: fun_eq_iff opened_core)
qed

lemma keeps_stat:
  assumes "keeps s t"
  shows "bddvarnum t = bddvarnum s" "bdderrorcond t = 0 \<Longrightarrow> bdderrorcond s = 0"
    "bddvar2level t = bddvar2level s" "bddlevel2var t = bddlevel2var s" "bddvarset t = bddvarset s"
    "pairs t = pairs s" "bddnodesize s \<le> bddnodesize t"
    "err_handler t = err_handler s" "bddrefslots t = bddrefslots s" "pairsid t = pairsid s"
proof -
  from assms obtain g where E: "ext (set_ops (\<lambda>_. g) (INITREF s)) t" by (auto simp: keeps_def)
  then have "stat t = stat (set_ops (\<lambda>_. g) (INITREF s))" by (simp add: ext_def)
  note D = statD [OF this]
  show "bddvarnum t = bddvarnum s" "bddvar2level t = bddvar2level s" "bddlevel2var t = bddlevel2var s"
    "bddvarset t = bddvarset s" "pairs t = pairs s" "err_handler t = err_handler s"
    "bddrefslots t = bddrefslots s" "pairsid t = pairsid s"
    using D by (simp_all add: set_ops_def INITREF_def)
  show "bdderrorcond t = 0 \<Longrightarrow> bdderrorcond s = 0" "bddnodesize s \<le> bddnodesize t"
    using E by (simp_all add: ext_def)
qed

lemma stat_set_ops: "stat (set_ops g s) = set_ops g (stat s)"
  by (simp add: stat_def set_ops_def)

lemma ext_set_ops: "ext s t \<Longrightarrow> ext (set_ops (\<lambda>_. h) s) (set_ops (\<lambda>_. h) t)"
proof -
  assume E: "ext s t"
  have lv: "live (set_ops (\<lambda>_. h) s) n = live s n" for n by (rule live_cong) simp_all
  have al: "allocd (set_ops (\<lambda>_. h) s) = allocd s" by (rule core_eq) simp_all
  have sn: "same_node (set_ops (\<lambda>_. h) s) (set_ops (\<lambda>_. h) t) n = same_node s t n" for n
    by (simp add: same_node_def LEVEL_def LOW_def HIGH_def)
  show ?thesis using E by (simp add: ext_def lv al sn stat_set_ops)
qed

lemma keeps_refl: "keeps s s"
proof -
  have "ext (INITREF s) s" unfolding INITREF_def ext_def by (auto simp: same_node_def)
  moreover have "set_ops (\<lambda>_. ops s) (INITREF s) = INITREF s" by (simp add: set_ops_def INITREF_def)
  ultimately show ?thesis unfolding keeps_def by (intro exI [of _ "ops s"]) simp
qed

lemma keeps_trans:
  assumes b: "binv s" and 1: "keeps s t" and 2: "keeps t u"
  shows "keeps s u"
proof -
  from 1 obtain g where g: "ext (set_ops (\<lambda>_. g) (INITREF s)) t" by (auto simp: keeps_def)
  from 2 obtain h where h: "ext (set_ops (\<lambda>_. h) (INITREF t)) u" by (auto simp: keeps_def)
  have I: "tab_inv (set_ops (\<lambda>_. g) (INITREF s))" by (rule binvD(3) [OF binv_opened [OF b]])
  have "ext (set_ops (\<lambda>_. g) (INITREF s)) (INITREF t)"
    using ext_refstack_pop [OF g, of "[]"] by (simp add: INITREF_def)
  from ext_set_ops [OF this, of h]
  have a: "ext (set_ops (\<lambda>_. h) (INITREF s)) (set_ops (\<lambda>_. h) (INITREF t))"
    by (simp add: set_ops_def INITREF_def)
  have "ext (set_ops (\<lambda>_. h) (INITREF s)) u"
    by (rule ext_trans [OF binvD(3) [OF binv_opened [OF b]] a h])
  then show ?thesis unfolding keeps_def by blast
qed

lemma ref_handle: "0 < n_refcou (bddnodes s n) \<Longrightarrow> inner s n \<Longrightarrow> handle s n"
  using live.live_ref [of n "INITREF s"]
  by (auto simp: handle_iff node_id_def inner_def allocd_def)

lemma lit_node_handle: "lit_node s n l a b \<Longrightarrow> handle s n"
  by (rule ref_handle) (simp_all add: lit_node_def MAXREF_def)

lemma handle_inner: "binv s \<Longrightarrow> handle s n \<Longrightarrow> 2 \<le> n \<Longrightarrow> inner s n"
  using bdd_node(4) [OF binvD(2,3)] by (simp add: handle_iff)

lemma lit_node_keeps:
  assumes "keeps s t" "binv s" "binv t" "lit_node s n l a b"
  shows "lit_node t n l a b"
proof -
  note K = keepsD [OF assms(1,2) lit_node_handle [OF assms(4)]]
  have "2 \<le> n" using assms(4) by (simp add: lit_node_def inner_def allocd_def)
  then show ?thesis using handle_inner [OF assms(3) K(1)] K(2-5) assms(4) by (simp add: lit_node_def)
qed

lemma vars_ok_keeps:
  assumes k: "keeps s t" and b: "binv s" "binv t" and v: "vars_ok s"
  shows "vars_ok t"
proof -
  note K = keeps_stat [OF k]
  have "var_ok t v" if "var_ok s v" for v
    using that lit_node_keeps [OF k b] unfolding var_ok_def Let_def K by blast
  then show ?thesis using v unfolding vars_ok_def K by blast
qed

lemma pairs_ok_keeps:
  assumes k: "keeps s t" and b: "binv s" and p: "pairs_ok s"
  shows "pairs_ok t"
  using p keepsD(1) [OF k b] unfolding pairs_ok_def pair_ok_def keeps_stat [OF k] by blast

section \<open>Resizing the caches\<close>

lemma prime_gte_st_spec:
  assumes "is_prime (nat q)" "2 \<le> n" "n \<le> q" "3 \<le> q" "q < 2 ^ 31"
  shows "\<exists>r p. prime_gte_st n s = ret r (s\<lparr>randpos := p\<rparr>) \<and> n \<le> r \<and> r \<le> q \<and> 3 \<le> r \<and>
     (\<forall>N. mr_sound (rand s) N \<and> nat r \<le> N \<longrightarrow> is_prime (nat r))"
proof -
  have n: "u32 n = n" using assms by (simp add: u32_def)
  have "2 \<le> nat n" "nat n \<le> nat q" "3 \<le> nat q" "nat q < 2 ^ 32" using assms by auto
  from prime_gte_spec [OF this(1,2) assms(1) this(3,4), of "rand s" "randpos s"] obtain r p p0 where
    r: "bdd_prime_gte (rand s) (nat n) (randpos s) = Some (Inr r, p)" "3 \<le> r" "nat n \<le> r" "r \<le> nat q"
      "odd r" "isPrime (rand s) r p0 = (Inr True, p)" by blast
  have le: "n \<le> int r" "int r \<le> q" "3 \<le> int r" using r(2-4) assms by linarith+
  then have "s32 (int r) = int r" using assms(5) by (simp add: s32_def)
  then have "prime_gte_st n s = ret (int r) (s\<lparr>randpos := p\<rparr>)"
    using r(1) by (simp add: prime_gte_st_def n)
  moreover have "is_prime r" if "mr_sound (rand s) N" "r \<le> N" for N
    by (rule mr_soundD [OF that(1) r(2) that(2) r(5,6)])
  ultimately show ?thesis
    using le by (intro exI [of _ "int r"] exI [of _ p]) auto
qed

definition resized :: "int \<Rightarrow> BddCache \<Rightarrow> BddCache" where
  "resized n c = c\<lparr>table := (\<lambda>_. zero_entry), current_generation := current_generation c + 1,
                  tablesize := n\<rparr>"

lemma resized_ok: "cache_wf c \<Longrightarrow> cache_ok P (resized n c)"
  by (auto simp: bc.all_ok_def cache_wf_def valid_entries_def BddCache_is_valid_def zero_entry_def
      resized_def)

lemma resized_sel [simp]: "tablesize (resized n c) = n"
  by (simp add: resized_def)

text \<open>Only the caches and the random stream have changed, and the caches are in order.\<close>

definition recached :: "bdd_state \<Rightarrow> bdd_state \<Rightarrow> bool" where
  "recached s t = (\<exists>p c. t = s\<lparr>randpos := p, caches := c\<rparr> \<and> caches_ok t)"

lemma recached_refl: "caches_ok s \<Longrightarrow> recached s s"
  unfolding recached_def by (intro exI [of _ "randpos s"] exI [of _ "caches s"]) simp

lemma resize_cache_eq:
  assumes K: "kinv s" and n: "2 \<le> n" "n \<le> bddnodesize s" and t: "recached s t"
  shows "\<exists>p m. resize_cache sel upd n t =
      ret () (t\<lparr>randpos := p, caches := upd (\<lambda>_. resized m (sel (caches t))) (caches t)\<rparr>) \<and> 0 < m"
proof -
  have B: "is_prime (nat (bddnodesize s))" "bddnodesize s \<le> memlimit s" "3 \<le> bddnodesize s"
    "bddnodesize s < 2 ^ 31"
    using kinvD [OF K] by (simp_all add: prime_size_def)
  from prime_gte_st_spec [OF B(1) n B(3,4), of t] obtain r p where
    r: "prime_gte_st n t = ret r (t\<lparr>randpos := p\<rparr>)" "3 \<le> r" "r \<le> bddnodesize s" by blast
  have "memlimit t = memlimit s" using t by (auto simp: recached_def)
  then have "resize_cache sel upd n t =
      ret () (t\<lparr>randpos := p, caches := upd (\<lambda>_. resized r (sel (caches t))) (caches t)\<rparr>)"
    using r B(2) by (simp add: resize_cache_def BddCache_resize_def alloc_def resized_def)
  with r(2) show ?thesis by (intro exI [of _ p] exI [of _ r]) simp
qed

definition keeps_caches_ok ::
    "(bddCaches \<Rightarrow> BddCache) \<Rightarrow> ((BddCache \<Rightarrow> BddCache) \<Rightarrow> bddCaches \<Rightarrow> bddCaches) \<Rightarrow> bool" where
  "keeps_caches_ok sel upd =
     (\<forall>(t :: bdd_state) m p. caches_ok t \<longrightarrow> 0 < m \<longrightarrow>
        caches_ok (t\<lparr>randpos := p, caches := upd (\<lambda>_. resized m (sel (caches t))) (caches t)\<rparr>))"

lemma resize_each:
  "keeps_caches_ok applycache applycache_update" "keeps_caches_ok itecache itecache_update"
  "keeps_caches_ok quantcache quantcache_update" "keeps_caches_ok appexcache appexcache_update"
  "keeps_caches_ok replacecache replacecache_update" "keeps_caches_ok misccache misccache_update"
  "keeps_caches_ok mtbdd_cache_apply mtbdd_cache_apply_update"
  "keeps_caches_ok mtbdd_cache_ite mtbdd_cache_ite_update"
  "keeps_caches_ok mtbdd_cache_operation mtbdd_cache_operation_update"
proof -
  have C: "same_core t (t\<lparr>randpos := p, caches := c\<rparr>)" for t :: bdd_state and p c
    by (simp add: same_core_def)
  note E = entries_core [OF C]
  show "keeps_caches_ok applycache applycache_update" "keeps_caches_ok itecache itecache_update"
    "keeps_caches_ok quantcache quantcache_update" "keeps_caches_ok appexcache appexcache_update"
    "keeps_caches_ok replacecache replacecache_update" "keeps_caches_ok misccache misccache_update"
    "keeps_caches_ok mtbdd_cache_apply mtbdd_cache_apply_update"
    "keeps_caches_ok mtbdd_cache_ite mtbdd_cache_ite_update"
    "keeps_caches_ok mtbdd_cache_operation mtbdd_cache_operation_update"
    unfolding keeps_caches_ok_def caches_ok_def Let_def E
    by (auto intro!: resized_ok dest: bc.all_ok_wf)
qed

lemma resize_cache_step:
  assumes K: "kinv s" and n: "2 \<le> n" "n \<le> bddnodesize s" and t: "recached s t"
    and keep: "keeps_caches_ok sel upd"
  shows "runs (resize_cache sel upd n t) (\<lambda>_. recached s)"
proof -
  from resize_cache_eq [OF K n t, of sel upd] obtain p m where
    e: "resize_cache sel upd n t =
      ret () (t\<lparr>randpos := p, caches := upd (\<lambda>_. resized m (sel (caches t))) (caches t)\<rparr>)" "0 < m" by blast
  have "caches_ok t" using t by (auto simp: recached_def)
  then have "caches_ok (t\<lparr>randpos := p, caches := upd (\<lambda>_. resized m (sel (caches t))) (caches t)\<rparr>)"
    using keep e(2) unfolding keeps_caches_ok_def by blast
  moreover from t obtain q c where "t = s\<lparr>randpos := q, caches := c\<rparr>" by (auto simp: recached_def)
  then have "t\<lparr>randpos := p, caches := upd (\<lambda>_. resized m (sel (caches t))) (caches t)\<rparr> =
      s\<lparr>randpos := p, caches := upd (\<lambda>_. resized m (sel (caches t))) (caches t)\<rparr>" by simp
  ultimately show ?thesis unfolding e(1) recached_def runs_ret by blast
qed

lemma noderesize_spec:
  assumes I: "binv s" and r: "ratio_ok s"
  shows "runs (bdd_operator_noderesize s) (\<lambda>_. recached s)"
proof (cases "0 < cacheratio (ops s)")
  case False
  then show ?thesis using fr.invD(2) [OF I] by (simp add: bdd_operator_noderesize_def recached_refl)
next
  case True
  let ?n = "bddnodesize s div cacheratio (ops s)"
  have "2 * cacheratio (ops s) \<le> bddnodesize s" using r by (simp add: ratio_ok_def)
  then have n: "2 \<le> ?n" using True zdiv_mono1 [of "2 * cacheratio (ops s)" "bddnodesize s" "cacheratio (ops s)"] by simp
  have "0 \<le> bddnodesize s" using kinvD(4) [OF binvD(4) [OF I]] by simp
  then have n': "?n \<le> bddnodesize s"
    using True zdiv_mono2 [of "bddnodesize s" 1 "cacheratio (ops s)"] by simp
  have c: "cacheratio (ops t) = cacheratio (ops s)" "bddnodesize t = bddnodesize s" if "recached s t" for t
    using that by (auto simp: recached_def)
  note step = resize_cache_step [OF binvD(4) [OF I] n n']
  show ?thesis
    unfolding bdd_operator_noderesize_def mtbdd_operator_noderesize_def Let_def if_P [OF True]
    by (intro runs_bnd [OF step] recached_refl fr.invD(2) [OF I] resize_each)
      (auto simp: c intro!: runs_bnd [OF step] step resize_each)
qed

lemma checkresize_spec:
  assumes I: "binv s" and r: "ratio_ok s"
  shows "runs (checkresize s) (\<lambda>_ t. same_core s t \<and> caches_ok t \<and> ext s t \<and> ops t = ops s)"
proof -
  have P: "same_core s t \<and> caches_ok t \<and> ext s t \<and> ops t = ops s"
    if "recached s u" "t = u\<lparr>bddresized := False\<rparr>" for u t
  proof -
    from that(1) obtain p c where u: "u = s\<lparr>randpos := p, caches := c\<rparr>" "caches_ok u"
      by (auto simp: recached_def)
    have "caches_ok t" using u(2) caches_ok_core [of u t] by (simp add: that(2))
    then show ?thesis by (simp add: u(1) that(2) same_core_def ext_def same_node_def LEVEL_def LOW_def HIGH_def)
  qed
  have "runs (if bddresized s then bdd_operator_noderesize s else ret () s) (\<lambda>_. recached s)"
    using noderesize_spec [OF I r] recached_refl [OF fr.invD(2) [OF I]] by simp
  moreover have "\<not> mtbdd s" by (rule bdd_baseD(4) [OF fr.invD(1) [OF I]])
  ultimately have "runs (if bddresized s then (if mtbdd s then mtbdd_operator_noderesize s
      else bdd_operator_noderesize s) else ret () s) (\<lambda>_. recached s)" by (simp cong: if_cong split del: if_split)
  then show ?thesis
    unfolding checkresize_def by (rule runs_bnd) (simp only: runs_ret P)
qed

section \<open>The frame of the external operations\<close>

lemma check_code_ok: "binv s \<Longrightarrow> node_id s n \<Longrightarrow> check_code n s = 0"
  using bdd_baseD(3) [OF fr.invD(1), of s] kinvD(4) [OF binvD(4), of s]
  by (auto simp: check_code_def node_id_def allocd_def)

lemma CHECKa_ok: "session s \<Longrightarrow> handle s n \<Longrightarrow> CHECKa n a s k = k s"
  by (simp add: CHECKa_def check_code_ok session_def handle_iff)

lemma sessionD: "session s \<Longrightarrow> binv s" "session s \<Longrightarrow> ratio_ok s"
  "session s \<Longrightarrow> 128 * bddvarnum s + 8192 \<le> bddrefslots s" "session s \<Longrightarrow> vars_ok s"
  "session s \<Longrightarrow> quant_table (bddvarnum s) (ops s)" "session s \<Longrightarrow> pairs_ok s"
  by (simp_all add: session_def)

lemma session_roomy:
  assumes "session s"
  shows "room (set_ops g (INITREF s)) (64 * nat (bddvarnum s) + 4096)"
proof -
  have "0 \<le> bddvarnum s" using binvD(2) [OF sessionD(1) [OF assms]] by (simp add: bdd_table_def)
  then show ?thesis using sessionD(3) [OF assms] by (simp add: room_def)
qed

lemma session_room: "session s \<Longrightarrow> room (set_ops g (INITREF s)) (nat (bddvarnum s))"
  by (rule room_mono [OF session_roomy]) simp_all

lemma session_keeps:
  assumes S: "session s" and k: "keeps s t" and t: "binv t" "ratio_ok t" "quant_table (bddvarnum s) (ops t)"
  shows "session t"
proof -
  have "vars_ok t" by (rule vars_ok_keeps [OF k sessionD(1) [OF S] t(1) sessionD(4) [OF S]])
  moreover have "pairs_ok t" by (rule pairs_ok_keeps [OF k sessionD(1,6) [OF S]])
  ultimately show ?thesis using t sessionD(3) [OF S] keeps_stat [OF k] by (simp add: session_def)
qed

text \<open>An attempt that ends normally is followed by \<open>checkresize\<close>; there is no second one.\<close>

lemma again_posts:
  assumes S: "session s" and su: "prep s = ret e (set_ops g (INITREF s))" "0 \<le> e"
    and ratio: "cacheratio (g (ops s)) = cacheratio (ops s)"
    and qt: "quant_table (bddvarnum s) (g (ops s))"
    and m: "runs (m (set_ops g (INITREF s))) (fr.posts (set_ops g (INITREF s)) L P)"
  shows "runs (again prep m s) (\<lambda>r t. \<exists>F. P F \<and> ends s L F r t)"
proof -
  let ?s = "set_ops g (INITREF s)"
  have att: "attempt prep m True s = bnd (m ?s) (\<lambda>res s. ret (Some res) s)"
    using su by (simp add: attempt_def)
  obtain r t where rt: "m ?s = (r, t)" by (cases "m ?s")
  show ?thesis
  proof (cases r)
    case (Inl x)
    have "runs (Inl x, t) (fr.posts ?s L P)" using m rt Inl by simp
    then have x: "x = Oom \<or> (\<exists>n. x = Exit n)" by (cases x) (auto simp: runs_def)
    then show ?thesis
      unfolding again_def att rt Inl by (auto simp: fail_def split: exn.split)
  next
    case (Inr q)
    have "fr.posts ?s L P q t" using m rt Inr by simp
    then obtain F where PF: "P F" and P: "op_post ?s L F q t" by (auto simp: fr.posts_def)
    from P have t: "binv t" "ext ?s t" "bddrefstack t = []" "res_ok t L F q" by (simp_all add: fr.post_def)
    have D: "ops t = g (ops s)" "bddrefslots t = bddrefslots s" "bddvarnum t = bddvarnum s"
      using t(2) statD [of t ?s] by (simp_all add: ext_def)
    have "bddnodesize s \<le> bddnodesize t" using t(2) by (simp add: ext_def)
    then have rt': "ratio_ok t" using sessionD(2) [OF S] D ratio by (simp add: ratio_ok_def)
    have "again prep m s = bnd (checkresize t) (\<lambda>_ s. ret q s)"
      unfolding again_def att rt Inr by (simp add: ret_def [abs_def])
    moreover have "runs (bnd (checkresize t) (\<lambda>_ s. ret q s)) (\<lambda>r t. \<exists>F. P F \<and> ends s L F r t)"
    proof (rule runs_bnd [OF checkresize_spec [OF t(1) rt']])
      fix x :: unit and u
      assume u: "same_core t u \<and> caches_ok u \<and> ext t u \<and> ops u = ops t"
      then have C: "same_core t u" by simp
      have E: "ext ?s u"
        using ext_trans [OF binvD(3) [OF binv_opened [OF sessionD(1) [OF S]]] t(2)] u by blast
      have "binv u"
        using u bdd_base_core [OF C] fr.invD(1) [OF t(1)] by (simp add: fr.inv_def)
      moreover have k: "keeps s u"
        unfolding keeps_def
        using E by (intro exI [of _ "g (ops s)"]) (simp add: set_ops_def INITREF_def)
      ultimately have "session u"
        using u rt' D qt C by (intro session_keeps [OF S k]) (simp_all add: ratio_ok_def same_core_def)
      moreover have "res_ok u L F q" using t(4) same_core_eqs(10) [OF C] by simp
      ultimately show "runs (ret q u) (\<lambda>r t. \<exists>F. P F \<and> ends s L F r t)"
        using k PF by (auto simp: ends_def)
    qed
    ultimately show ?thesis by simp
  qed
qed

lemma again_spec:
  assumes S: "session s" and su: "prep s = ret e (set_ops g (INITREF s))" "0 \<le> e"
    and ratio: "cacheratio (g (ops s)) = cacheratio (ops s)"
    and qt: "quant_table (bddvarnum s) (g (ops s))"
    and m: "runs (m (set_ops g (INITREF s))) (op_post (set_ops g (INITREF s)) L F)"
  shows "runs (again prep m s) (ends s L F)"
  using again_posts [where P = "(=) F" and L = L and m = m and g = g and prep = prep and s = s and e = e, OF S su ratio qt] m
  by (simp add: fr.posts_eq)

section \<open>Negation, binary operators, if-then-else\<close>

lemma dep_le: "session s \<Longrightarrow> handle s n \<Longrightarrow> dep s n \<le> nat (bddvarnum s)"
  using arg_level [OF fr.invD(1) [OF sessionD(1)], of s n] by (simp add: dep_def handle_iff)

lemma opened_dep [simp]: "dep (set_ops g (INITREF s)) n = dep s n"
  by (simp add: dep_def opened_core)

lemma op_fuel_opened [simp]: "op_fuel (set_ops g (INITREF s)) = nat (bddvarnum s) + 2"
  by (simp add: op_fuel_def)

lemma set_ops_id: "set_ops id s = s"
  by (simp add: set_ops_def)

lemma bdd_not_spec:
  assumes S: "session s" and r: "handle s r"
  shows "runs (bdd_not r s) (ends s (LEVEL s r) (\<lambda>e. \<not> sem s r e))"
proof -
  have "runs (again (\<lambda>s. ret 0 (INITREF s)) (\<lambda>s. not_rec (op_fuel s) r s) s)
      (ends s (LEVEL s r) (\<lambda>e. \<not> sem s r e))"
  proof (rule again_spec [where g = id and e = 0, OF S])
    let ?s = "set_ops id (INITREF s)"
    have "runs (not_rec (op_fuel ?s) r ?s) (op_post ?s (LEVEL ?s r) (\<lambda>e. \<not> sem ?s r e))"
      using dep_le [OF S r] room_mono [OF session_room [OF S]]
      by (intro not_rec_spec binv_opened [OF sessionD(1) [OF S]] handle_opened [OF r]) auto
    then show "runs (not_rec (op_fuel ?s) r ?s) (op_post ?s (LEVEL s r) (\<lambda>e. \<not> sem s r e))"
      by (simp add: opened_core)
  qed (use sessionD(5) [OF S] in \<open>simp_all add: set_ops_id\<close>)
  then show ?thesis by (simp add: bdd_not_def CHECKa_ok [OF S r])
qed

lemma bdd_apply_spec:
  assumes S: "session s" and l: "handle s l" and r: "handle s r" and op: "0 \<le> op" "op \<le> bddop_invimp"
  shows "runs (bdd_apply l r op s)
    (ends s (min (LEVEL s l) (LEVEL s r)) (\<lambda>e. bool_op op (sem s l e) (sem s r e)))"
proof -
  let ?g = "\<lambda>g. g\<lparr>applyop := op\<rparr>" and ?F = "\<lambda>e. bool_op op (sem s l e) (sem s r e)"
  have "runs (again (\<lambda>s. ret 0 (set_ops ?g (INITREF s))) (\<lambda>s. apply_rec (op_fuel s) l r s) s)
      (ends s (min (LEVEL s l) (LEVEL s r)) ?F)"
  proof (rule again_spec [where g = ?g and e = 0, OF S])
    let ?s = "set_ops ?g (INITREF s)"
    have d: "dep2 ?s l r \<le> nat (bddvarnum s)"
      using dep_le [OF S l] dep_le [OF S r] by (simp add: dep2_def)
    have "runs (apply_rec (op_fuel ?s) l r ?s) (op_post ?s (top2 ?s l r) (apply_sem op ?s l r))"
      using d room_mono [OF session_room [OF S] d] op
      by (intro apply_rec_spec binv_opened [OF sessionD(1) [OF S]] handle_opened [OF l]
          handle_opened [OF r]) auto
    then show "runs (apply_rec (op_fuel ?s) l r ?s) (op_post ?s (min (LEVEL s l) (LEVEL s r)) ?F)"
      by (simp add: opened_core top2_def apply_sem_def)
  qed (use sessionD(5) [OF S] in \<open>simp_all add: quant_table_def\<close>)
  then show ?thesis
    using op by (simp add: bdd_apply_def CHECKa_ok [OF S l] CHECKa_ok [OF S r])
qed

lemma bdd_ite_spec:
  assumes S: "session s" and f: "handle s f" and g: "handle s g" and h: "handle s h"
  shows "runs (bdd_ite f g h s) (ends s (min (LEVEL s f) (min (LEVEL s g) (LEVEL s h)))
     (\<lambda>e. if sem s f e then sem s g e else sem s h e))"
proof -
  have "runs (again (\<lambda>s. ret 0 (INITREF s)) (\<lambda>s. ite_rec (op_fuel s) f g h s) s)
      (ends s (min (LEVEL s f) (min (LEVEL s g) (LEVEL s h)))
        (\<lambda>e. if sem s f e then sem s g e else sem s h e))"
  proof (rule again_spec [where g = id and e = 0, OF S])
    let ?s = "set_ops id (INITREF s)"
    have d: "dep3 ?s f g h \<le> nat (bddvarnum s)"
      using dep_le [OF S f] dep_le [OF S g] dep_le [OF S h]
      by (simp add: dep3_def dep_def top3_def opened_core min_def)
    have "runs (ite_rec (op_fuel ?s) f g h ?s) (op_post ?s (top3 ?s f g h) (ite_sem ?s f g h))"
      using d room_mono [OF session_room [OF S] d]
      by (intro ite_rec_spec binv_opened [OF sessionD(1) [OF S]] handle_opened [OF f]
          handle_opened [OF g] handle_opened [OF h]) auto
    then show "runs (ite_rec (op_fuel ?s) f g h ?s)
        (op_post ?s (min (LEVEL s f) (min (LEVEL s g) (LEVEL s h)))
          (\<lambda>e. if sem s f e then sem s g e else sem s h e))"
      by (simp add: opened_core top3_def ite_sem_def cong: if_cong split del: if_split)
  qed (use sessionD(5) [OF S] in \<open>simp_all add: set_ops_id\<close>)
  then show ?thesis by (simp add: bdd_ite_def CHECKa_ok [OF S] f g h)
qed

end
