(* ===== verification/Example.thy ===== *)
theory Example
  imports OpSession
begin

text \<open>
  A concrete session on which the theorems are instantiated: two variables, a table of 13 entries
  with the four literals (2 to 5), the conjunction of the two variables (6), which nothing
  references, and their exclusive or (7), which is referenced once; and the state before
  \<open>bdd_init\<close>, with all memory zero.
\<close>

definition zero_node :: BddNode where
  "zero_node = \<lparr>n_high = 0, n_low = 0, n_refcou = 0, n_level = 0, n_mark = False, n_hash = 0, n_next = 0\<rparr>"

definition zero_ops :: opglobals where
  "zero_ops = \<lparr>applyop = 0, appexop = 0, appexid = 0, quantid = 0, quantvarset = (\<lambda>_. 0),
     quantvarsetID = 0, quantlast = 0, replaceid = 0, replacepair = (\<lambda>_. 0), replacelast = 0,
     composelevel = 0, miscid = 0, supportID = 0, supportMin = 0, supportMax = 0,
     supportSet = (\<lambda>_. 0), supportSize = 0, cacheratio = 0, satPolarity = 0\<rparr>"

definition zero_values :: mtbddValues where
  "zero_values = \<lparr>domaintype = NODOMAIN, vals = (\<lambda>_. 0), indexstack = [], mtbddTerminalUsed = 0,
     mtbddmaxTerminalSize = 0, mtbddLastValueIndex = 0, mtbdd_terminal_functions_list = [],
     mtbdd_terminal_type_size = 0\<rparr>"

definition zero_reo :: reorder_globals where
  "zero_reo = \<lparr>rlevels = (\<lambda>_. \<lparr>lv_start = 0, lv_size = 0, lv_maxsize = 0, lv_nodenum = 0\<rparr>),
     iactmtx = imatrixNew 0, extroots = [], resizedInMakenode = False,
     tree_nodes = (\<lambda>_. \<lparr>t_first = 0, t_last = 0, t_pos = 0, t_seq = [], t_fixed = 0, t_id = 0,
                       t_next = 0, t_prev = 0, t_nextlevel = 0\<rparr>),
     tree_next = 1, blockid = 0, verbose = 0, reorder_handler = NoReohandler, reorder_filehandler = None,
     reorder_nodenum = None, probe = (\<lambda>_. 0), probepos = 0\<rparr>"

text \<open>The static initial values; the allocator has room for tables of up to 288 entries.\<close>

definition boot :: bdd_state where
  "boot = \<lparr>bddrunning = False, bdderrorcond = 0, bddnodesize = 0, bddmaxnodesize = 0,
     bddmaxnodeincrease = 0, bddnodes = (\<lambda>_. zero_node), bddfreepos = 0, bddfreenum = 0,
     bddproduced = 0, bddvarnum = 0, bddrefstack = [], bddrefslots = 0, bddvar2level = (\<lambda>_. 0),
     bddlevel2var = (\<lambda>_. 0), bddvarset = (\<lambda>_. 0), bddresized = False, checkSameChildren = True,
     mtbdd = False, gbcollectnum = 0, cachesize = 0, usednodes_nextreorder = 0, minfreenodes = 20,
     err_handler = NoHandler, gbc_handler = None, resize_handler = None, reorderdisabled = False,
     bddreordermethod = 0, bddreordertimes = 0, vartree = 0, reo = zero_reo, usednum_before = 0,
     usednum_after = 0, caches = null_caches, ops = zero_ops, mtvals = zero_values, pairsid = 0,
     pairs = [], pairs_freed = False, next_addr = 0, firstbddvar = 0, fdvaralloc = 0, fdvarnum = 0,
     domain = None, rand = (\<lambda>_. 0), randpos = 0, memlimit = 288, trace = []\<rparr>"

definition ex_node :: "int \<Rightarrow> int \<Rightarrow> int \<Rightarrow> int \<Rightarrow> BddNode" where
  "ex_node l a b r = zero_node\<lparr>n_level := l, n_low := a, n_high := b, n_refcou := r\<rparr>"

definition ex_table :: "int \<Rightarrow> BddNode" where
  "ex_table n =
     (if n = 0 then ex_node 2 0 0 MAXREF else if n = 1 then ex_node 2 1 1 MAXREF
      else if n = 2 then ex_node 0 0 1 MAXREF else if n = 3 then ex_node 0 1 0 MAXREF
      else if n = 4 then ex_node 1 0 1 MAXREF else if n = 5 then ex_node 1 1 0 MAXREF
      else if n = 6 then ex_node 0 0 4 0 else if n = 7 then ex_node 0 4 5 1
      else if 8 \<le> n \<and> n < 13 then ex_node 0 (-1) 0 0 else zero_node)"

definition ex_cache :: BddCache where
  "ex_cache = \<lparr>table = (\<lambda>_. zero_entry), tablesize = 7, current_generation = 1\<rparr>"

definition ex_base :: bdd_state where
  "ex_base = boot\<lparr>bddrunning := True, bddnodesize := 13, bddmaxnodeincrease := DEFAULTMAXNODEINC,
     bddnodes := ex_table, bddvarnum := 2, bddrefslots := 8448,
     bddvar2level := (\<lambda>v. v), bddlevel2var := (\<lambda>v. v), bddvarset := (\<lambda>i. i + 2),
     err_handler := DefaultHandler, gbc_handler := Some 0,
     caches := null_caches\<lparr>applycache := ex_cache, itecache := ex_cache, quantcache := ex_cache,
       appexcache := ex_cache, replacecache := ex_cache, misccache := ex_cache\<rparr>\<rparr>"

definition example :: bdd_state where
  "example = bdd_gbc_rehash ex_base"

text \<open>Rehashing leaves everything but the lists as it is.\<close>

lemma ex_base_sel:
  "bddnodesize ex_base = 13" "bddvarnum ex_base = 2" "bddnodes ex_base = ex_table"
  "bddrefstack ex_base = []"
  by (simp_all add: ex_base_def boot_def)

lemma example_rehashed: "rehashed ex_base 2 example"
  unfolding example_def
  by (rule bdd_gbc_rehash_spec)
    (simp_all add: ex_base_def bucket_def ex_table_def ex_node_def zero_node_def)

lemma ex_table_acc:
  "LEVEL example n = n_level (ex_table n)" "LOW example n = n_low (ex_table n)"
  "HIGH example n = n_high (ex_table n)" "n_refcou (bddnodes example n) = n_refcou (ex_table n)"
  "MARKED example n = n_mark (ex_table n)"
  using example_rehashed
  by (simp_all add: rehashed_def fun_eq_iff LEVEL_def LOW_def HIGH_def MARKED_def ex_base_sel)

lemma example_sel:
  "bddnodesize example = 13" "bddrefstack example = []" "bdderrorcond example = 0"
  "caches example = caches ex_base" "mtvals example = zero_values" "bddvarnum example = 2"
  "bddrunning example" "\<not> mtbdd example" "checkSameChildren example" "ops example = zero_ops"
  "bddrefslots example = 8448" "memlimit example = 288" "bddvar2level example = (\<lambda>v. v)"
  "bddlevel2var example = (\<lambda>v. v)" "bddvarset example = (\<lambda>i. i + 2)" "pairs example = []"
  "rand example = (\<lambda>_. 0)" "bddmaxnodeincrease example = DEFAULTMAXNODEINC" "bddreordermethod example = 0"
  "pairsid example = 0"
  "err_handler example = DefaultHandler"
proof -
  have G: "gc_frame ex_base example" "caches example = caches ex_base" "mtvals example = mtvals ex_base"
    using example_rehashed by (simp_all add: rehashed_def)
  then have "stat example = stat ex_base" by (simp add: gc_frame_def)
  note D = statD [OF this]
  show "bddnodesize example = 13" "bddrefstack example = []" "bdderrorcond example = 0"
    "caches example = caches ex_base" "mtvals example = zero_values"
    using G by (simp_all add: gc_frame_def ex_base_def boot_def)
  show "bddvarnum example = 2" "bddrunning example" "\<not> mtbdd example" "checkSameChildren example"
    "ops example = zero_ops" "bddrefslots example = 8448" "memlimit example = 288"
    "bddvar2level example = (\<lambda>v. v)" "bddlevel2var example = (\<lambda>v. v)" "bddvarset example = (\<lambda>i. i + 2)"
    "pairs example = []" "rand example = (\<lambda>_. 0)" "bddmaxnodeincrease example = DEFAULTMAXNODEINC"
    "bddreordermethod example = 0" "pairsid example = 0" "err_handler example = DefaultHandler"
    using D by (simp_all add: ex_base_def boot_def)
qed

lemma ex_table_simps:
  "ex_table 0 = ex_node 2 0 0 MAXREF" "ex_table 1 = ex_node 2 1 1 MAXREF"
  "ex_table 2 = ex_node 0 0 1 MAXREF" "ex_table 3 = ex_node 0 1 0 MAXREF"
  "ex_table 4 = ex_node 1 0 1 MAXREF" "ex_table 5 = ex_node 1 1 0 MAXREF"
  "ex_table 6 = ex_node 0 0 4 0" "ex_table 7 = ex_node 0 4 5 1"
  by (simp_all add: ex_table_def)

lemma ex_node_sel [simp]:
  "n_level (ex_node l a b r) = l" "n_low (ex_node l a b r) = a" "n_high (ex_node l a b r) = b"
  "n_refcou (ex_node l a b r) = r" "\<not> n_mark (ex_node l a b r)"
  by (simp_all add: ex_node_def zero_node_def)

lemma zero_node_sel [simp]:
  "n_level zero_node = 0" "n_low zero_node = 0" "n_high zero_node = 0" "n_refcou zero_node = 0"
  "\<not> n_mark zero_node"
  by (simp_all add: zero_node_def)

lemma ex_alloc: "allocd example n = (n \<in> {2, 3, 4, 5, 6, 7})"
  by (auto simp: allocd_def example_sel ex_table_acc ex_table_def)

lemma ex_inner: "inner example n = (n \<in> {2, 3, 4, 5, 6, 7})"
  by (auto simp: inner_def ex_alloc ex_table_acc ex_table_simps MAXLEVEL_def)

lemma ex_node_id: "node_id example n = (n \<in> {0, 1, 2, 3, 4, 5, 6, 7})"
  by (auto simp: node_id_def ex_alloc)

lemma ex_tab_inv: "tab_inv example"
  unfolding tab_inv_def
proof (intro conjI)
  show "size_ok example" "consts_ok example"
    by (simp_all add: size_ok_def consts_ok_def example_sel ex_table_acc ex_table_simps)
  show "wf_nodes example"
    unfolding wf_nodes_def ex_inner by (auto simp: ex_table_acc ex_table_simps ex_node_id below_def MAXLEVEL_def)
  show "unique_nodes example"
    unfolding unique_nodes_def ex_inner by (auto simp: ex_table_acc ex_table_simps)
  show "built 2 example" using example_rehashed by (simp add: rehashed_def)
  show "marks_clear example" by (simp add: marks_clear_def ex_table_acc ex_table_def)
  show "refs_ok example"
    by (auto simp: refs_ok_def ex_table_acc ex_table_def MAXREF_def example_sel split: if_splits)
  show "stack_ok example" by (simp add: stack_ok_def example_sel)
  show "slots_distinct example" by (simp add: slots_distinct_def example_sel zero_values_def)
qed

lemma prime_13: "is_prime 13"
  unfolding is_prime_def
proof (intro conjI allI impI)
  fix m :: nat assume m: "m dvd 13"
  then have "m \<le> 13" by (rule dvd_imp_le) simp
  then have "m \<in> {0, 1, 2, 3, 4, 5, 6, 7, 8, 9, 10, 11, 12, 13}" by (simp, presburger)
  then show "m = 1 \<or> m = 13" using m by auto
qed simp

lemma ex_kinv: "kinv example"
  using ex_tab_inv prime_13 mr_sound_small [of 288 "\<lambda>_. 0"]
  by (simp add: kinv_def prime_size_def env_ok_def example_sel DEFAULTMAXNODEINC_def
      bdd_reorder_ready_def BDD_REORDER_NONE_def)

lemma ex_bdd_base: "bdd_base example"
  unfolding bdd_base_def bdd_table_def
  by (auto simp: ex_kinv example_sel ex_table_acc ex_table_simps ex_alloc MAXVAR_def)

lemma ex_caches: "caches_ok example"
  by (simp add: caches_ok_def Let_def example_sel ex_base_def ex_cache_def fresh_cache_ok)

lemma ex_session: "session example"
proof -
  have "lit_node example 2 0 0 1" "lit_node example 3 0 1 0" "lit_node example 4 1 0 1" "lit_node example 5 1 1 0"
    by (simp_all add: lit_node_def ex_inner ex_table_acc ex_table_simps)
  moreover have "v = 0 \<or> v = 1" if "0 \<le> v" "v < 2" for v :: int using that by auto
  ultimately have "var_ok example v" if "0 \<le> v" "v < 2" for v
    using that unfolding var_ok_def Let_def example_sel by fastforce
  then have "vars_ok example" by (simp add: vars_ok_def example_sel)
  then show ?thesis
    using ex_bdd_base ex_caches
    by (simp add: session_def fr.inv_def ratio_ok_def example_sel zero_ops_def quant_table_def pairs_ok_def
        INT_MAX_def)
qed

lemma ex_handles: "handle example 2" "handle example 3" "handle example 4" "handle example 5" "handle example 7"
  by (rule ref_handle; simp add: ex_table_acc ex_table_simps ex_inner MAXREF_def)+

section \<open>With a pair\<close>

text \<open>The session with a pair that exchanges the two variables.\<close>

definition ex_pair :: bddPair where
  "ex_pair = \<lparr>p_addr = 0, p_result = (\<lambda>l. if l = 0 then 4 else 2), p_last = 1, p_id = 1\<rparr>"

definition paired :: bdd_state where
  "paired = example\<lparr>pairs := [ex_pair], pairsid := 1\<rparr>"

lemma paired_sel:
  "bddnodes paired = bddnodes example" "bddnodesize paired = bddnodesize example"
  "bddvarnum paired = 2" "ops paired = zero_ops" "find_pair 0 paired = Some ex_pair"
  by (simp_all add: paired_def find_pair_def ex_pair_def example_sel)

lemma paired_acc:
  "LEVEL paired n = n_level (ex_table n)" "LOW paired n = n_low (ex_table n)"
  "HIGH paired n = n_high (ex_table n)" "inner paired n = (n \<in> {2, 3, 4, 5, 6, 7})"
  using core_eq [OF paired_sel(1,2)] by (simp_all add: ex_table_acc ex_inner)

lemma paired_handle: "handle paired n = handle example n"
proof -
  have "live (INITREF paired) n = live (INITREF example) n" by (rule live_cong) (simp_all add: paired_sel)
  moreover have "node_id paired n = node_id example n" by (simp add: core_eq [OF paired_sel(1,2)])
  ultimately show ?thesis by (simp add: handle_iff)
qed

lemma paired_session: "session paired"
proof -
  have st: "tab_inv paired = tab_inv example" by (rule tab_inv_cong) (simp_all add: paired_def)
  have "kinv paired = kinv example"
    by (simp add: kinv_def st prime_size_def env_ok_def bdd_reorder_ready_def) (simp add: paired_def)
  moreover have "bdd_table paired = bdd_table example"
    unfolding bdd_table_def core_eq [OF paired_sel(1,2)] by (simp add: paired_def)
  ultimately have "bdd_base paired"
    using ex_bdd_base by (simp add: bdd_base_def st) (simp add: paired_def)
  moreover have "caches_ok paired"
    by (simp add: caches_ok_def Let_def paired_def example_sel ex_base_def ex_cache_def fresh_cache_ok)
  moreover have "vars_ok paired = vars_ok example"
    unfolding vars_ok_def var_ok_def lit_node_def core_eq [OF paired_sel(1,2)] by (simp add: paired_def)
  moreover have "pairs_ok paired"
    using ex_handles by (simp add: pairs_ok_def pair_ok_def paired_handle) (simp add: paired_def ex_pair_def INT_MAX_def example_sel)
  ultimately show ?thesis
    using ex_session by (simp add: session_def fr.inv_def ratio_ok_def paired_sel) (simp add: paired_def example_sel)
qed

end
