(* ===== verification/PropsKernel.thy ===== *)
theory PropsKernel
  imports Example
begin

text \<open>
  The properties of the kernel: canonicity of the node table, garbage collection, resizing and node
  creation, and the prime search that sizes the tables.
\<close>



section \<open>Helpers\<close>

lemma card_from:
  fixes a b :: int
  shows "int (card {n. a \<le> n \<and> n < b}) = (if a \<le> b then b - a else 0)"
proof -
  have "{n. a \<le> n \<and> n < b} = {a..<b}" by auto
  then show ?thesis by simp
qed

lemma finite_allocd: "finite {n. allocd s n}"
  by (rule finite_subset [of _ "{2..<bddnodesize s}"]) (auto simp: allocd_def)

text \<open>The free counter of a well-formed table is exact.\<close>

lemma free_count:
  assumes "tab_inv s"
  shows "bddnodesize s - bddfreenum s = 2 + int (card {n. allocd s n})"
proof -
  let ?F = "{n. 2 \<le> n \<and> n < bddnodesize s \<and> LOW s n = -1}"
  obtain ys where ys: "distinct ys" "set ys = ?F" "bddfreenum s = int (length ys)"
    using tab_invD(5) [OF assms] unfolding built_def free_ok_def by auto
  have fin: "finite ?F" by (rule finite_subset [of _ "{2..<bddnodesize s}"]) auto
  have "{n. 2 \<le> n \<and> n < bddnodesize s} = {n. allocd s n} \<union> ?F" by (auto simp: allocd_def)
  then have "card {n. 2 \<le> n \<and> n < bddnodesize s} = card {n. allocd s n} + card ?F"
    using card_Un_disjoint [OF finite_allocd fin, of s] by (auto simp: allocd_def)
  moreover have "card ?F = length ys" using ys distinct_card by metis
  moreover have "3 \<le> bddnodesize s" using tab_invD(1) [OF assms] by (simp add: size_ok_def)
  ultimately show ?thesis using ys(3) card_from [of 2 "bddnodesize s"] by simp
qed

lemma ex_live: "live example n \<Longrightarrow> n \<in> {0, 1, 2, 3, 4, 5, 7}"
proof (induction rule: live.induct)
  case (live_ref n)
  then show ?case by (auto simp: ex_table_acc ex_table_def example_sel split: if_splits)
qed (auto simp: ex_inner ex_table_acc ex_table_simps example_sel)

text \<open>The node counter counts the allocated nodes and the two constants.\<close>

lemma getnodenum_eq: "tab_inv s \<Longrightarrow> bdd_getnodenum s = 2 + int (card {n. allocd s n})"
  using free_count [of s] by (simp add: bdd_getnodenum_def)

lemma collected_allocd: "collected s t \<Longrightarrow> allocd t n = keep s n"
  using collected_alloc [of s t n] collected_keep [of s t n] by blast

section \<open>Garbage collection\<close>

text \<open>
  C6. Garbage collection keeps the table invariant and is exact: a node that is reachable from the
  reference stack or from a node with a reference count keeps its entry, every other node
  is freed, the node counter is the number of surviving nodes and the constants, and the caches
  are emptied.
\<close>

theorem bdd_gbc_exact:
  assumes "tab_inv s"
  shows "\<exists>t. bdd_gbc s = ret () t \<and> tab_inv t \<and>
    (\<forall>n. allocd t n \<longleftrightarrow> allocd s n \<and> live s n) \<and>
    (\<forall>n. allocd s n \<and> live s n \<longrightarrow>
       LEVEL t n = LEVEL s n \<and> LOW t n = LOW s n \<and> HIGH t n = HIGH s n \<and>
       n_refcou (bddnodes t n) = n_refcou (bddnodes s n)) \<and>
    bdd_getnodenum t = 2 + int (card {n. allocd s n \<and> live s n}) \<and>
    caches t = caches (bdd_operator_reset s)"
proof -
  from bdd_gbc_spec [OF assms] obtain t where t: "bdd_gbc s = ret () t" "tab_inv t" "collected s t" by blast
  note A = collected_allocd [OF t(3)]
  have "bdd_getnodenum t = 2 + int (card {n. allocd s n \<and> live s n})"
    using getnodenum_eq [OF t(2)] by (simp add: A)
  moreover have "caches t = caches (bdd_operator_reset s)" using t(3) by (simp add: collected_def)
  moreover have "same_node s t n" if "keep s n" for n using collected_keep [OF t(3) that] by simp
  ultimately show ?thesis
    using t(1,2) A unfolding same_node_def by (intro exI [of _ t]) auto
qed

theorem bdd_gbc_exact_example:
  "tab_inv example \<and> allocd example 6 \<and> (\<exists>t. bdd_gbc example = ret () t \<and> \<not> allocd t 6 \<and> allocd t 7)"
proof -
  have "live example 7" using handle_arg [OF ex_handles(5)] by (simp add: arg_def)
  moreover have "\<not> live example 6" using ex_live [of 6] by auto
  ultimately show ?thesis using bdd_gbc_exact [OF ex_tab_inv] by (auto simp: ex_tab_inv ex_alloc)
qed

section \<open>Node creation and resizing\<close>

lemma made_unfolded:
  assumes M: "made s lev lo hi r t"
  shows "kinv t \<and> ext s t \<and>
    ((if checkSameChildren t \<and> lo = hi then r = lo
      else inner t r \<and> LEVEL t r = lev \<and> LOW t r = lo \<and> HIGH t r = hi) \<or>
     r = 0 \<and> bdderrorcond t \<noteq> 0) \<and>
    (\<forall>n. allocd t n \<longrightarrow> allocd s n \<or> LEVEL t n = lev \<and> LOW t n = lo \<and> HIGH t n = hi)"
  using M unfolding made_def is_node_def only_new_def by blast

text \<open>
  C5. \<open>bdd_makenode\<close> never returns a wrong node: it returns the child when both children are equal
  and reduction is on, otherwise a node with exactly the level and children asked for; or 0 with the
  error condition set when the table is full and cannot grow. It keeps the kernel invariant (ordering,
  uniqueness, hash chains, free list), leaves everything live alone and creates no other node.
\<close>

theorem bdd_makenode_correct:
  assumes "kinv s" "0 \<le> lev" "lev < MAXLEVEL" "fits s lev lo" "fits s lev hi"
  shows "runs (bdd_makenode lev lo hi s) (\<lambda>r t. kinv t \<and> ext s t \<and>
    ((if checkSameChildren t \<and> lo = hi then r = lo
      else inner t r \<and> LEVEL t r = lev \<and> LOW t r = lo \<and> HIGH t r = hi) \<or>
     r = 0 \<and> bdderrorcond t \<noteq> 0) \<and>
    (\<forall>n. allocd t n \<longrightarrow> allocd s n \<or> LEVEL t n = lev \<and> LOW t n = lo \<and> HIGH t n = hi))"
  by (rule runs_conseq [OF bdd_makenode_spec [OF assms] made_unfolded])

theorem bdd_makenode_correct_example:
  "kinv example \<and> fits example 0 4 \<and> fits example 0 1 \<and>
   runs (bdd_makenode 0 4 1 example) (\<lambda>r t. kinv t \<and> ext example t \<and>
    ((if checkSameChildren t \<and> (4::int) = 1 then r = 4
      else inner t r \<and> LEVEL t r = 0 \<and> LOW t r = 4 \<and> HIGH t r = 1) \<or>
     r = 0 \<and> bdderrorcond t \<noteq> 0) \<and>
    (\<forall>n. allocd t n \<longrightarrow> allocd example n \<or> LEVEL t n = 0 \<and> LOW t n = 4 \<and> HIGH t n = 1))"
proof -
  have "arg example 4" "arg example 1" using handle_arg [OF ex_handles(3)] by simp_all
  then have f: "fits example 0 4" "fits example 0 1"
    by (auto intro!: arg_fits simp: below_def ex_table_acc ex_table_simps)
  show ?thesis using bdd_makenode_correct [OF ex_kinv _ _ f] f ex_kinv by (simp add: MAXLEVEL_def)
qed

text \<open>
  C7. Growing the node table keeps the kernel invariant: the new size is prime and not smaller, every
  old node keeps its entry and its number, the hash chains are rebuilt for the new size and all new
  entries are free.
\<close>

theorem bdd_noderesize_correct:
  assumes "kinv s"
  shows "runs (bdd_noderesize True s) (\<lambda>r t. kinv t \<and> bddnodesize s \<le> bddnodesize t \<and>
    is_prime (nat (bddnodesize t)) \<and> (\<forall>n. allocd t n = allocd s n) \<and>
    (\<forall>n. allocd s n \<longrightarrow> LEVEL t n = LEVEL s n \<and> LOW t n = LOW s n \<and> HIGH t n = HIGH s n))"
proof (rule runs_conseq [OF bdd_noderesize_spec [OF assms]])
  fix r t assume "kinv t \<and> (t = s \<or> grown s t)"
  then have t: "kinv t" "t = s \<or> grown s t" by simp_all
  have "is_prime (nat (bddnodesize t))" using kinvD(2) [OF t(1)] by (simp add: prime_size_def)
  from t(2) show "kinv t \<and> bddnodesize s \<le> bddnodesize t \<and>
      is_prime (nat (bddnodesize t)) \<and> (\<forall>n. allocd t n = allocd s n) \<and>
      (\<forall>n. allocd s n \<longrightarrow> LEVEL t n = LEVEL s n \<and> LOW t n = LOW s n \<and> HIGH t n = HIGH s n)"
  proof
    assume "t = s"
    then show ?thesis using t(1) \<open>is_prime (nat (bddnodesize t))\<close> by simp
  next
    assume G: "grown s t"
    then have "bddnodesize s \<le> bddnodesize t" by (simp add: grown_def)
    then show ?thesis
      using t(1) \<open>is_prime (nat (bddnodesize t))\<close> grown_alloc [OF G] grown_same [OF G]
      unfolding same_node_def by blast
  qed
qed

theorem bdd_noderesize_correct_example:
  "kinv example \<and> runs (bdd_noderesize True example) (\<lambda>r t. kinv t \<and> 13 \<le> bddnodesize t \<and>
    is_prime (nat (bddnodesize t)) \<and> (\<forall>n. allocd t n = allocd example n) \<and>
    (\<forall>n. allocd example n \<longrightarrow>
       LEVEL t n = LEVEL example n \<and> LOW t n = LOW example n \<and> HIGH t n = HIGH example n))"
  using bdd_noderesize_correct [OF ex_kinv] ex_kinv by (simp add: example_sel)

section \<open>Table sizes\<close>






end
