(* ===== verification/PropsOps.thy ===== *)
theory PropsOps
  imports Example
begin

text \<open>
  The properties of the operations that build diagrams, each with an instance on the example
  session. A hypothesis \<open>handle s x\<close> says that the caller holds \<open>x\<close> (it is a constant or
  reachable from a node with a reference count), \<open>keeps s t\<close> that everything the caller held in
  \<open>s\<close> is unchanged in \<open>t\<close>, and \<open>runs\<close> that the call returns (or the process ended
  because the default error handler called \<open>exit\<close> or memory ran out).
\<close>

text \<open>
  C1. \<open>bdd_apply\<close> returns a node for the Boolean combination of its arguments with the operator's
  truth table, whatever the caches contain, and through any garbage collection and table
  resize in between; nothing the caller holds is changed, and the state stays a valid session.
\<close>

theorem bdd_apply_correct:
  assumes "session s" "handle s l" "handle s r" "0 \<le> op" "op \<le> bddop_invimp"
  shows "runs (bdd_apply l r op s) (\<lambda>res t. session t \<and> keeps s t \<and> node_id t res \<and>
    (bdderrorcond t = 0 \<longrightarrow> (\<forall>e. sem t res e = bool_op op (sem s l e) (sem s r e))))"
  using bdd_apply_spec [OF assms] by (rule runs_conseq) (simp add: ends_def res_ok_def)

theorem bdd_apply_correct_example:
  "session example \<and> handle example 2 \<and> handle example 4 \<and>
   runs (bdd_apply 2 4 bddop_and example) (\<lambda>res t. session t \<and> keeps example t \<and> node_id t res \<and>
    (bdderrorcond t = 0 \<longrightarrow> (\<forall>e. sem t res e = bool_op bddop_and (sem example 2 e) (sem example 4 e))))"
  using bdd_apply_correct [of example 2 4 bddop_and] ex_session ex_handles
  by (simp add: bddop_and_def bddop_invimp_def)

text \<open>
  C4. \<open>bdd_not\<close> returns a node for the negation of its argument and keeps all that the caller holds.
\<close>

theorem bdd_not_correct:
  assumes "session s" "handle s r"
  shows "runs (bdd_not r s) (\<lambda>res t. session t \<and> keeps s t \<and> node_id t res \<and>
    (bdderrorcond t = 0 \<longrightarrow> (\<forall>e. sem t res e = (\<not> sem s r e))))"
  using bdd_not_spec [OF assms] by (rule runs_conseq) (simp add: ends_def res_ok_def)

theorem bdd_not_correct_example:
  "session example \<and> handle example 7 \<and>
   runs (bdd_not 7 example) (\<lambda>res t. session t \<and> keeps example t \<and> node_id t res \<and>
    (bdderrorcond t = 0 \<longrightarrow> (\<forall>e. sem t res e = (\<not> sem example 7 e))))"
  using bdd_not_correct [of example 7] ex_session ex_handles by simp

text \<open>
  C3. \<open>bdd_ite\<close> returns a node for if-then-else of its three arguments: the nine-way case split of
  \<open>ite_rec\<close> and its five shortcuts compute what \<open>(f \<and> g) \<or> (\<not> f \<and> h)\<close> denotes.
\<close>

theorem bdd_ite_correct:
  assumes "session s" "handle s f" "handle s g" "handle s h"
  shows "runs (bdd_ite f g h s) (\<lambda>res t. session t \<and> keeps s t \<and> node_id t res \<and>
    (bdderrorcond t = 0 \<longrightarrow>
      (\<forall>e. sem t res e = (sem s f e \<and> sem s g e \<or> \<not> sem s f e \<and> sem s h e))))"
  using bdd_ite_spec [OF assms] by (rule runs_conseq) (auto simp: ends_def res_ok_def)

theorem bdd_ite_correct_example:
  "session example \<and> handle example 2 \<and> handle example 4 \<and> handle example 7 \<and>
   runs (bdd_ite 2 4 7 example) (\<lambda>res t. session t \<and> keeps example t \<and> node_id t res \<and>
    (bdderrorcond t = 0 \<longrightarrow>
      (\<forall>e. sem t res e = (sem example 2 e \<and> sem example 4 e \<or> \<not> sem example 2 e \<and> sem example 7 e))))"
  using bdd_ite_correct [of example 2 4 7] ex_session ex_handles by simp

end
