(* ===== verification/BddopSubst.thy ===== *)
theory BddopSubst
  imports Bddop Pairs
begin

text \<open>
  Model of the operations of \<^verbatim>\<open>src/bddop.c\<close> that build cubes and substitute:
  cubes and variable sets, restriction, the generalised cofactors \<open>bdd_constrain\<close> and
  \<open>bdd_simplify\<close>, replacement and composition.
\<close>

section \<open>Cubes and variable sets\<close>

text \<open>The loops run through the variables from the last to the first one.\<close>

primrec buildcube_loop :: "BDD list \<Rightarrow> int \<Rightarrow> BDD \<Rightarrow> bdd_state \<Rightarrow> BDD bm" where
  "buildcube_loop [] value res s = ret res s"
| "buildcube_loop (x # xs) value res s =
     bnd (if value AND 1 \<noteq> 0 then bdd_addref x s
          else bnd (bdd_not x s) (\<lambda>v s. bdd_addref v s)) (\<lambda>v s.
     bnd (bdd_addref res s) (\<lambda>_ s.
     bnd (bdd_apply res v bddop_and s) (\<lambda>tmp s.
     bnd (bdd_delref res s) (\<lambda>_ s.
     bnd (bdd_delref v s) (\<lambda>_ s.
     buildcube_loop xs (drop_bit 1 value) tmp s)))))"

definition bdd_buildcube :: "int \<Rightarrow> BDD list \<Rightarrow> bdd_state \<Rightarrow> BDD bm" where
  "bdd_buildcube value variables s = buildcube_loop (rev variables) value 1 s"

primrec ibuildcube_loop :: "int list \<Rightarrow> int \<Rightarrow> BDD \<Rightarrow> bdd_state \<Rightarrow> BDD bm" where
  "ibuildcube_loop [] value res s = ret res s"
| "ibuildcube_loop (x # xs) value res s =
     bnd (if value AND 1 \<noteq> 0 then bdd_ithvar x s else bdd_nithvar x s) (\<lambda>v s.
     bnd (bdd_addref res s) (\<lambda>_ s.
     bnd (bdd_apply res v bddop_and s) (\<lambda>tmp s.
     bnd (bdd_delref res s) (\<lambda>_ s.
     ibuildcube_loop xs (drop_bit 1 value) tmp s))))"

definition bdd_ibuildcube :: "int \<Rightarrow> int list \<Rightarrow> bdd_state \<Rightarrow> BDD bm" where
  "bdd_ibuildcube value variables s = ibuildcube_loop (rev variables) value 1 s"

primrec makeset_loop :: "int list \<Rightarrow> BDD \<Rightarrow> bdd_state \<Rightarrow> BDD bm" where
  "makeset_loop [] res s = ret res s"
| "makeset_loop (x # xs) res s =
     bnd (bdd_addref res s) (\<lambda>_ s.
     bnd (bdd_ithvar x s) (\<lambda>v s.
     bnd (bdd_apply res v bddop_and s) (\<lambda>tmp s.
     bnd (bdd_delref res s) (\<lambda>_ s.
     makeset_loop xs tmp s))))"

definition bdd_makeset :: "int list \<Rightarrow> bdd_state \<Rightarrow> BDD bm" where
  "bdd_makeset varset s = makeset_loop (rev varset) 1 s"

section \<open>The tables of a variable set\<close>

definition INVARSET :: "bdd_state \<Rightarrow> int \<Rightarrow> bool" where
  "INVARSET s a = (quantvarset (ops s) a = quantvarsetID (ops s))"

definition INSVARSET :: "bdd_state \<Rightarrow> int \<Rightarrow> bool" where
  "INSVARSET s a = (abs (quantvarset (ops s) a) = quantvarsetID (ops s))"

text \<open>
  \<open>quantvarsetID++\<close>, and \<open>memset(quantvarset, 0, sizeof(int)*bddvarnum)\<close> when it reaches the
  limit. Incrementing the largest \<open>int\<close> is undefined.
\<close>

definition next_varset_id :: "int \<Rightarrow> bdd_state \<Rightarrow> unit bm" where
  "next_varset_id limit s =
     (if quantvarsetID (ops s) \<ge> INT_MAX then fail Trap s
      else if quantvarsetID (ops s) + 1 = limit
      then ret () (set_ops (\<lambda>g. g\<lparr>quantvarset := (\<lambda>n. if 0 \<le> n \<and> n < bddvarnum s then 0
                                             else quantvarset g n), quantvarsetID := 1\<rparr>) s)
      else ret () (set_ops (\<lambda>g. g\<lparr>quantvarsetID := quantvarsetID g + 1\<rparr>) s))"

primrec vartable_loop :: "nat \<Rightarrow> BDD \<Rightarrow> bdd_state \<Rightarrow> unit bm" where
  "vartable_loop 0 n s = fail Nofuel s"
| "vartable_loop (Suc k) n s =
     (if n > 1 then
        let s = set_ops (\<lambda>g. g\<lparr>quantvarset := (quantvarset g)(LEVEL s n := quantvarsetID g),
                               quantlast := LEVEL s n\<rparr>) s
        in vartable_loop k (HIGH s n) s
      else ret () s)"

definition varset2vartable :: "BDD \<Rightarrow> bdd_state \<Rightarrow> int bm" where
  "varset2vartable r s =
     (if r < 2 then bdd_error BDD_VARSET s
      else bnd (next_varset_id INT_MAX s) (\<lambda>_ s.
           bnd (vartable_loop (op_fuel s) r s) (\<lambda>_ s. ret 0 s)))"

primrec svartable_loop :: "nat \<Rightarrow> BDD \<Rightarrow> bdd_state \<Rightarrow> unit bm" where
  "svartable_loop 0 n s = fail Nofuel s"
| "svartable_loop (Suc k) n s =
     (if \<not> ISCONST n then
        let pos = ISZERO (LOW s n);
            m = (if pos then HIGH s n else LOW s n);
            s = set_ops (\<lambda>g. g\<lparr>quantvarset := (quantvarset g)
                    (LEVEL s n := (if pos then quantvarsetID g else - quantvarsetID g)),
                  quantlast := LEVEL s m\<rparr>) s
        in svartable_loop k m s
      else ret () s)"

definition varset2svartable :: "BDD \<Rightarrow> bdd_state \<Rightarrow> int bm" where
  "varset2svartable r s =
     (if r < 2 then bdd_error BDD_VARSET s
      else bnd (next_varset_id (INT_MAX div 2) s) (\<lambda>_ s.
           bnd (svartable_loop (op_fuel s) r s) (\<lambda>_ s. ret 0 s)))"

text \<open>A table set up in front of \<open>INITREF\<close> and the choice of the other parameters.\<close>

definition with_table :: "(bdd_state \<Rightarrow> int bm) \<Rightarrow> (opglobals \<Rightarrow> opglobals) \<Rightarrow> bdd_state \<Rightarrow> int bm" where
  "with_table f g s =
     bnd (f s) (\<lambda>e s. if e < 0 then ret e s else ret 0 (set_ops g (INITREF s)))"

section \<open>Restriction\<close>

primrec restrict_rec :: "nat \<Rightarrow> BDD \<Rightarrow> bdd_state \<Rightarrow> BDD bm" where
  "restrict_rec 0 r s = fail Nofuel s"
| "restrict_rec (Suc k) r s =
     (if ISCONST r \<or> LEVEL s r > quantlast (ops s) then ret r s
      else PLAIN_CACHE_LOOKUP misccache (RESTRHASH r (miscid (ops s))) s (\<lambda>i.
        let e = table (misccache (caches s)) i in
        if BddCache_is_valid (misccache (caches s)) i \<and> c_a e = r \<and> c_c e = miscid (ops s)
        then ret (c_res e) s
        else bnd
          (if INSVARSET s (LEVEL s r) then
             if quantvarset (ops s) (LEVEL s r) > 0 then restrict_rec k (HIGH s r) s
             else restrict_rec k (LOW s r) s
           else both (\<lambda>s. restrict_rec k (LOW s r) s) (\<lambda>s. restrict_rec k (HIGH s r) s)
                  (\<lambda>lo hi s. bdd_makenode (LEVEL s r) lo hi s) s) (\<lambda>res s.
          ret res (store misccache_update
            (\<lambda>e. e\<lparr>c_a := r, c_c := miscid (ops s), c_res := res\<rparr>) i s))))"

definition bdd_restrict :: "BDD \<Rightarrow> BDD \<Rightarrow> bdd_state \<Rightarrow> BDD bm" where
  "bdd_restrict r var s = CHECKa r bddfalse s (\<lambda>s. CHECKa var bddfalse s (\<lambda>s.
     if var < 2 then ret r s
     else again (with_table (varset2svartable var) (\<lambda>g. g\<lparr>miscid := tagged var 3 CACHEID_RESTRICT\<rparr>))
            (\<lambda>s. restrict_rec (op_fuel s) r s) s))"

section \<open>Generalised cofactors\<close>

primrec constrain_rec :: "nat \<Rightarrow> BDD \<Rightarrow> BDD \<Rightarrow> bdd_state \<Rightarrow> BDD bm" where
  "constrain_rec 0 f c s = fail Nofuel s"
| "constrain_rec (Suc k) f c s =
     (if ISONE c then ret f s
      else if ISCONST f then ret f s
      else if c = f then ret 1 s
      else if ISZERO c then ret 0 s
      else PLAIN_CACHE_LOOKUP misccache (CONSTRAINHASH f c) s (\<lambda>i.
        let e = table (misccache (caches s)) i in
        if BddCache_is_valid (misccache (caches s)) i \<and> c_a e = f \<and> c_b e = c \<and> c_c e = miscid (ops s)
        then ret (c_res e) s
        else bnd
          (if LEVEL s f = LEVEL s c then
             if ISZERO (LOW s c) then constrain_rec k (HIGH s f) (HIGH s c) s
             else if ISZERO (HIGH s c) then constrain_rec k (LOW s f) (LOW s c) s
             else both (\<lambda>s. constrain_rec k (LOW s f) (LOW s c) s)
                    (\<lambda>s. constrain_rec k (HIGH s f) (HIGH s c) s)
                    (\<lambda>lo hi s. bdd_makenode (LEVEL s f) lo hi s) s
           else if LEVEL s f < LEVEL s c then
             both (\<lambda>s. constrain_rec k (LOW s f) c s) (\<lambda>s. constrain_rec k (HIGH s f) c s)
               (\<lambda>lo hi s. bdd_makenode (LEVEL s f) lo hi s) s
           else
             if ISZERO (LOW s c) then constrain_rec k f (HIGH s c) s
             else if ISZERO (HIGH s c) then constrain_rec k f (LOW s c) s
             else both (\<lambda>s. constrain_rec k f (LOW s c) s) (\<lambda>s. constrain_rec k f (HIGH s c) s)
                    (\<lambda>lo hi s. bdd_makenode (LEVEL s c) lo hi s) s) (\<lambda>res s.
          ret res (store misccache_update
            (\<lambda>e. e\<lparr>c_a := f, c_b := c, c_c := miscid (ops s), c_res := res\<rparr>) i s))))"

definition bdd_constrain :: "BDD \<Rightarrow> BDD \<Rightarrow> bdd_state \<Rightarrow> BDD bm" where
  "bdd_constrain f c s = CHECKa f bddfalse s (\<lambda>s. CHECKa c bddfalse s (\<lambda>s.
     again (\<lambda>s. ret 0 (set_ops (\<lambda>g. g\<lparr>miscid := CACHEID_CONSTRAIN\<rparr>) (INITREF s)))
       (\<lambda>s. constrain_rec (op_fuel s) f c s) s))"

text \<open>\<open>PUSHREF(f); res = k(READREF(1)); POPREF(1)\<close>.\<close>

definition saved :: "(bdd_state \<Rightarrow> BDD bm) \<Rightarrow> (BDD \<Rightarrow> bdd_state \<Rightarrow> BDD bm) \<Rightarrow> bdd_state \<Rightarrow> BDD bm" where
  "saved f k s =
     bnd (f s) (\<lambda>x s. bnd (PUSHREF x s) (\<lambda>_ s.
     bnd (k (READREF 1 s) s) (\<lambda>res s.
     bnd (POPREF 1 s) (\<lambda>_ s. ret res s))))"

primrec simplify_rec :: "nat \<Rightarrow> BDD \<Rightarrow> BDD \<Rightarrow> bdd_state \<Rightarrow> BDD bm" where
  "simplify_rec 0 f d s = fail Nofuel s"
| "simplify_rec (Suc k) f d s =
     (if ISONE d \<or> ISCONST f then ret f s
      else if d = f then ret 1 s
      else if ISZERO d then ret 0 s
      else PLAIN_CACHE_LOOKUP applycache (APPLYHASH f d bddop_simplify) s (\<lambda>i.
        let e = table (applycache (caches s)) i in
        if BddCache_is_valid (applycache (caches s)) i \<and> c_a e = f \<and> c_b e = d \<and> c_c e = bddop_simplify
        then ret (c_res e) s
        else bnd
          (if LEVEL s f = LEVEL s d then
             if ISZERO (LOW s d) then simplify_rec k (HIGH s f) (HIGH s d) s
             else if ISZERO (HIGH s d) then simplify_rec k (LOW s f) (LOW s d) s
             else both (\<lambda>s. simplify_rec k (LOW s f) (LOW s d) s)
                    (\<lambda>s. simplify_rec k (HIGH s f) (HIGH s d) s)
                    (\<lambda>lo hi s. bdd_makenode (LEVEL s f) lo hi s) s
           else if LEVEL s f < LEVEL s d then
             both (\<lambda>s. simplify_rec k (LOW s f) d s) (\<lambda>s. simplify_rec k (HIGH s f) d s)
               (\<lambda>lo hi s. bdd_makenode (LEVEL s f) lo hi s) s
           else
             saved (\<lambda>s. apply_rec (op_fuel s) (LOW s d) (HIGH s d) s)
               (\<lambda>x s. simplify_rec k f x s) s) (\<lambda>res s.
          ret res (store applycache_update
            (\<lambda>e. e\<lparr>c_a := f, c_b := d, c_c := bddop_simplify, c_res := res\<rparr>) i s))))"

definition bdd_simplify :: "BDD \<Rightarrow> BDD \<Rightarrow> bdd_state \<Rightarrow> BDD bm" where
  "bdd_simplify f d s = CHECKa f bddfalse s (\<lambda>s. CHECKa d bddfalse s (\<lambda>s.
     again (\<lambda>s. ret 0 (set_ops (\<lambda>g. g\<lparr>applyop := bddop_or\<rparr>) (INITREF s)))
       (\<lambda>s. simplify_rec (op_fuel s) f d s) s))"

section \<open>Replacement\<close>

primrec bdd_correctify :: "nat \<Rightarrow> int \<Rightarrow> BDD \<Rightarrow> BDD \<Rightarrow> bdd_state \<Rightarrow> BDD bm" where
  "bdd_correctify 0 level l r s = fail Nofuel s"
| "bdd_correctify (Suc k) level l r s =
     (if level < LEVEL s l \<and> level < LEVEL s r then bdd_makenode level l r s
      else if level = LEVEL s l \<or> level = LEVEL s r then
        bnd (bdd_error BDD_REPLACE s) (\<lambda>_ s. ret 0 s)
      else if LEVEL s l = LEVEL s r then
        both (\<lambda>s. bdd_correctify k level (LOW s l) (LOW s r) s)
          (\<lambda>s. bdd_correctify k level (HIGH s l) (HIGH s r) s)
          (\<lambda>lo hi s. bdd_makenode (LEVEL s l) lo hi s) s
      else if LEVEL s l < LEVEL s r then
        both (\<lambda>s. bdd_correctify k level (LOW s l) r s) (\<lambda>s. bdd_correctify k level (HIGH s l) r s)
          (\<lambda>lo hi s. bdd_makenode (LEVEL s l) lo hi s) s
      else
        both (\<lambda>s. bdd_correctify k level l (LOW s r) s) (\<lambda>s. bdd_correctify k level l (HIGH s r) s)
          (\<lambda>lo hi s. bdd_makenode (LEVEL s r) lo hi s) s)"

primrec replace_rec :: "nat \<Rightarrow> BDD \<Rightarrow> bdd_state \<Rightarrow> BDD bm" where
  "replace_rec 0 r s = fail Nofuel s"
| "replace_rec (Suc k) r s =
     (if ISCONST r \<or> LEVEL s r > replacelast (ops s) then ret r s
      else PLAIN_CACHE_LOOKUP replacecache (REPLACEHASH r) s (\<lambda>i.
        let e = table (replacecache (caches s)) i in
        if BddCache_is_valid (replacecache (caches s)) i \<and> c_a e = r \<and> c_c e = replaceid (ops s)
        then ret (c_res e) s
        else bnd
          (both (\<lambda>s. replace_rec k (LOW s r) s) (\<lambda>s. replace_rec k (HIGH s r) s)
             (\<lambda>lo hi s. bdd_correctify (op_fuel s) (LEVEL s (replacepair (ops s) (LEVEL s r))) lo hi s) s)
          (\<lambda>res s.
          ret res (store replacecache_update
            (\<lambda>e. e\<lparr>c_a := r, c_c := replaceid (ops s), c_res := res\<rparr>) i s))))"

text \<open>The pair is known by its address.\<close>

definition bdd_replace :: "BDD \<Rightarrow> nat \<Rightarrow> bdd_state \<Rightarrow> BDD bm" where
  "bdd_replace r pair s = CHECKa r bddfalse s (\<lambda>s.
     again (\<lambda>s. with_pair pair (INITREF s) (\<lambda>p. ret 0 (set_ops (\<lambda>g. g\<lparr>replacepair := p_result p,
              replacelast := p_last p, replaceid := tagged (p_id p) 2 CACHEID_REPLACE\<rparr>) (INITREF s))))
       (\<lambda>s. replace_rec (op_fuel s) r s) s)"

section \<open>Composition\<close>

primrec compose_rec :: "nat \<Rightarrow> BDD \<Rightarrow> BDD \<Rightarrow> bdd_state \<Rightarrow> BDD bm" where
  "compose_rec 0 f g s = fail Nofuel s"
| "compose_rec (Suc k) f g s =
     (if LEVEL s f > composelevel (ops s) then ret f s
      else PLAIN_CACHE_LOOKUP replacecache (COMPOSEHASH f g) s (\<lambda>i.
        let e = table (replacecache (caches s)) i in
        if BddCache_is_valid (replacecache (caches s)) i \<and> c_a e = f \<and> c_b e = g \<and>
           c_c e = replaceid (ops s)
        then ret (c_res e) s
        else bnd
          (if LEVEL s f < composelevel (ops s) then
             if LEVEL s f = LEVEL s g then
               both (\<lambda>s. compose_rec k (LOW s f) (LOW s g) s) (\<lambda>s. compose_rec k (HIGH s f) (HIGH s g) s)
                 (\<lambda>lo hi s. bdd_makenode (LEVEL s f) lo hi s) s
             else if LEVEL s f < LEVEL s g then
               both (\<lambda>s. compose_rec k (LOW s f) g s) (\<lambda>s. compose_rec k (HIGH s f) g s)
                 (\<lambda>lo hi s. bdd_makenode (LEVEL s f) lo hi s) s
             else
               both (\<lambda>s. compose_rec k f (LOW s g) s) (\<lambda>s. compose_rec k f (HIGH s g) s)
                 (\<lambda>lo hi s. bdd_makenode (LEVEL s g) lo hi s) s
           else ite_rec (op_fuel s) g (HIGH s f) (LOW s f) s) (\<lambda>res s.
          ret res (store replacecache_update
            (\<lambda>e. e\<lparr>c_a := f, c_b := g, c_c := replaceid (ops s), c_res := res\<rparr>) i s))))"

definition bdd_compose :: "BDD \<Rightarrow> BDD \<Rightarrow> int \<Rightarrow> bdd_state \<Rightarrow> BDD bm" where
  "bdd_compose f g var s = CHECKa f bddfalse s (\<lambda>s. CHECKa g bddfalse s (\<lambda>s.
     if var < 0 \<or> var \<ge> bddvarnum s then bnd (bdd_error BDD_VAR s) (\<lambda>_ s. ret bddfalse s)
     else again (\<lambda>s. let l = bddvar2level s var in ret 0 (set_ops (\<lambda>g. g\<lparr>composelevel := l,
              replaceid := tagged l 2 CACHEID_COMPOSE\<rparr>) (INITREF s)))
       (\<lambda>s. compose_rec (op_fuel s) f g s) s))"

primrec veccompose_rec :: "nat \<Rightarrow> BDD \<Rightarrow> bdd_state \<Rightarrow> BDD bm" where
  "veccompose_rec 0 f s = fail Nofuel s"
| "veccompose_rec (Suc k) f s =
     (if LEVEL s f > replacelast (ops s) then ret f s
      else PLAIN_CACHE_LOOKUP replacecache (VECCOMPOSEHASH f) s (\<lambda>i.
        let e = table (replacecache (caches s)) i in
        if BddCache_is_valid (replacecache (caches s)) i \<and> c_a e = f \<and> c_c e = replaceid (ops s)
        then ret (c_res e) s
        else bnd
          (both (\<lambda>s. veccompose_rec k (LOW s f) s) (\<lambda>s. veccompose_rec k (HIGH s f) s)
             (\<lambda>lo hi s. ite_rec (op_fuel s) (replacepair (ops s) (LEVEL s f)) hi lo s) s)
          (\<lambda>res s.
          ret res (store replacecache_update
            (\<lambda>e. e\<lparr>c_a := f, c_c := replaceid (ops s), c_res := res\<rparr>) i s))))"

definition bdd_veccompose :: "BDD \<Rightarrow> nat \<Rightarrow> bdd_state \<Rightarrow> BDD bm" where
  "bdd_veccompose f pair s = CHECKa f bddfalse s (\<lambda>s.
     again (\<lambda>s. with_pair pair (INITREF s) (\<lambda>p. ret 0 (set_ops (\<lambda>g. g\<lparr>replacepair := p_result p,
              replaceid := tagged (p_id p) 2 CACHEID_VECCOMPOSE, replacelast := p_last p\<rparr>) (INITREF s))))
       (\<lambda>s. veccompose_rec (op_fuel s) f s) s)"

end
