(* ===== verification/BddopQuant.thy ===== *)
theory BddopQuant
  imports BddopSubst
begin

text \<open>
  Model of quantification in \<^verbatim>\<open>src/bddop.c\<close>, alone and combined with a binary
  operator. The variables are given by a variable set, entered into the table \<open>quantvarset\<close>.
  The three quantifiers differ in the operator that joins the two branches and in the cache tag.
\<close>

section \<open>Quantification\<close>

text \<open>What is done with the two branches: join them, or build a node.\<close>

definition join_or_node :: "BDD \<Rightarrow> BDD \<Rightarrow> BDD \<Rightarrow> bdd_state \<Rightarrow> BDD bm" where
  "join_or_node r lo hi s =
     (if INVARSET s (LEVEL s r) then apply_rec (op_fuel s) lo hi s
      else bdd_makenode (LEVEL s r) lo hi s)"

primrec quant_rec :: "nat \<Rightarrow> BDD \<Rightarrow> bdd_state \<Rightarrow> BDD bm" where
  "quant_rec 0 r s = fail Nofuel s"
| "quant_rec (Suc k) r s =
     (if r < 2 \<or> LEVEL s r > quantlast (ops s) then ret r s
      else PLAIN_CACHE_LOOKUP quantcache (QUANTHASH r) s (\<lambda>i.
        let e = table (quantcache (caches s)) i in
        if BddCache_is_valid (quantcache (caches s)) i \<and> c_a e = r \<and> c_c e = quantid (ops s)
        then ret (c_res e) s
        else bnd
          (both (\<lambda>s. quant_rec k (LOW s r) s) (\<lambda>s. quant_rec k (HIGH s r) s) (join_or_node r) s)
          (\<lambda>res s.
          ret res (store quantcache_update
            (\<lambda>e. e\<lparr>c_a := r, c_c := quantid (ops s), c_res := res\<rparr>) i s))))"

text \<open>The three functions for one quantifier: its operator and its tag.\<close>

definition quantify :: "int \<Rightarrow> int \<Rightarrow> BDD \<Rightarrow> BDD \<Rightarrow> bdd_state \<Rightarrow> BDD bm" where
  "quantify op q r var s = CHECKa r bddfalse s (\<lambda>s. CHECKa var bddfalse s (\<lambda>s.
     if var < 2 then ret r s
     else again (with_table (varset2vartable var) (\<lambda>g. g\<lparr>quantid := tagged var 3 q, applyop := op\<rparr>))
            (\<lambda>s. quant_rec (op_fuel s) r s) s))"

definition bdd_exist :: "BDD \<Rightarrow> BDD \<Rightarrow> bdd_state \<Rightarrow> BDD bm" where
  "bdd_exist = quantify bddop_or CACHEID_EXIST"

definition bdd_forall :: "BDD \<Rightarrow> BDD \<Rightarrow> bdd_state \<Rightarrow> BDD bm" where
  "bdd_forall = quantify bddop_and CACHEID_FORALL"

definition bdd_unique :: "BDD \<Rightarrow> BDD \<Rightarrow> bdd_state \<Rightarrow> BDD bm" where
  "bdd_unique = quantify bddop_xor CACHEID_UNIQUE"

section \<open>A binary operator followed by quantification\<close>

text \<open>The returns before the recursion: a constant, or the quantification of one argument.\<close>

datatype shortcut = Done BDD | Quantify BDD | Goon

definition appquant_shortcut :: "int \<Rightarrow> BDD \<Rightarrow> BDD \<Rightarrow> shortcut" where
  "appquant_shortcut op l r =
     (if op = bddop_and then
        if l = 0 \<or> r = 0 then Done 0
        else if l = r then Quantify l
        else if l = 1 then Quantify r
        else if r = 1 then Quantify l else Goon
      else if op = bddop_or then
        if l = 1 \<or> r = 1 then Done 1
        else if l = r then Quantify l
        else if l = 0 then Quantify r
        else if r = 0 then Quantify l else Goon
      else if op = bddop_xor then
        if l = r then Done 0
        else if l = 0 then Quantify r
        else if r = 0 then Quantify l else Goon
      else if op = bddop_nand then
        if l = 0 \<or> r = 0 then Done 1 else Goon
      else if op = bddop_nor then
        if l = 1 \<or> r = 1 then Done 0 else Goon
      else Goon)"

text \<open>The operator is exchanged for the one of the application below the last quantified level.\<close>

definition apply_below :: "BDD \<Rightarrow> BDD \<Rightarrow> bdd_state \<Rightarrow> BDD bm" where
  "apply_below l r s =
     (let oldop = applyop (ops s);
          s = set_ops (\<lambda>g. g\<lparr>applyop := appexop g\<rparr>) s
      in bnd (apply_rec (op_fuel s) l r s) (\<lambda>res s.
         ret res (set_ops (\<lambda>g. g\<lparr>applyop := oldop\<rparr>) s)))"

primrec appquant_rec :: "nat \<Rightarrow> BDD \<Rightarrow> BDD \<Rightarrow> bdd_state \<Rightarrow> BDD bm" where
  "appquant_rec 0 l r s = fail Nofuel s"
| "appquant_rec (Suc k) l r s =
     (case appquant_shortcut (appexop (ops s)) l r of
        Done res \<Rightarrow> ret res s
      | Quantify x \<Rightarrow> quant_rec (op_fuel s) x s
      | Goon \<Rightarrow>
        if ISCONST l \<and> ISCONST r then ret (oprres_at (appexop (ops s)) l r) s
        else if LEVEL s l > quantlast (ops s) \<and> LEVEL s r > quantlast (ops s) then apply_below l r s
        else PLAIN_CACHE_LOOKUP appexcache (APPEXHASH l r (appexop (ops s))) s (\<lambda>i.
          let e = table (appexcache (caches s)) i in
          if BddCache_is_valid (appexcache (caches s)) i \<and> c_a e = l \<and> c_b e = r \<and>
             c_c e = appexid (ops s)
          then ret (c_res e) s
          else bnd
            (if LEVEL s l = LEVEL s r then
               both (\<lambda>s. appquant_rec k (LOW s l) (LOW s r) s)
                 (\<lambda>s. appquant_rec k (HIGH s l) (HIGH s r) s) (join_or_node l) s
             else if LEVEL s l < LEVEL s r then
               both (\<lambda>s. appquant_rec k (LOW s l) r s) (\<lambda>s. appquant_rec k (HIGH s l) r s)
                 (join_or_node l) s
             else
               both (\<lambda>s. appquant_rec k l (LOW s r) s) (\<lambda>s. appquant_rec k l (HIGH s r) s)
                 (join_or_node r) s) (\<lambda>res s.
            ret res (store appexcache_update
              (\<lambda>e. e\<lparr>c_a := l, c_b := r, c_c := appexid (ops s), c_res := res\<rparr>) i s))))"

text \<open>The settings: the two operators and the two tags, with \<open>t\<close> in the low bits of \<open>appexid\<close>.\<close>

definition appquant_setup :: "int \<Rightarrow> int \<Rightarrow> int \<Rightarrow> int \<Rightarrow> BDD \<Rightarrow> opglobals \<Rightarrow> opglobals" where
  "appquant_setup op t q opr var g =
     (let i = tagged var 6 (opr * 4 + t)
      in g\<lparr>applyop := op, appexop := opr, appexid := i, quantid := tagged i 3 q\<rparr>)"

definition appquant :: "int \<Rightarrow> int \<Rightarrow> int \<Rightarrow> BDD \<Rightarrow> BDD \<Rightarrow> int \<Rightarrow> BDD \<Rightarrow> bdd_state \<Rightarrow> BDD bm" where
  "appquant op t q l r opr var s =
     CHECKa l bddfalse s (\<lambda>s. CHECKa r bddfalse s (\<lambda>s. CHECKa var bddfalse s (\<lambda>s.
     if opr < 0 \<or> opr > bddop_invimp then bnd (bdd_error BDD_OP s) (\<lambda>_ s. ret bddfalse s)
     else if var < 2 then bdd_apply l r opr s
     else again (with_table (varset2vartable var) (appquant_setup op t q opr var))
            (\<lambda>s. appquant_rec (op_fuel s) l r s) s)))"

definition bdd_appex :: "BDD \<Rightarrow> BDD \<Rightarrow> int \<Rightarrow> BDD \<Rightarrow> bdd_state \<Rightarrow> BDD bm" where
  "bdd_appex = appquant bddop_or 0 CACHEID_APPEX"

definition bdd_appall :: "BDD \<Rightarrow> BDD \<Rightarrow> int \<Rightarrow> BDD \<Rightarrow> bdd_state \<Rightarrow> BDD bm" where
  "bdd_appall = appquant bddop_and 1 CACHEID_APPAL"

definition bdd_appuni :: "BDD \<Rightarrow> BDD \<Rightarrow> int \<Rightarrow> BDD \<Rightarrow> bdd_state \<Rightarrow> BDD bm" where
  "bdd_appuni = appquant bddop_xor 2 CACHEID_APPUN"

end
