(* ===== verification/BddopInfo.thy ===== *)
theory BddopInfo
  imports BddopQuant
begin

text \<open>
  Model of the informational functions of \<^verbatim>\<open>src/bddop.c\<close>: support, satisfying
  assignments, counting of assignments, paths and nodes. A C \<open>double\<close> is a real number:
  rounding and overflow of the floating point type are not modelled.
\<close>

section \<open>Support\<close>

primrec support_rec :: "nat \<Rightarrow> BDD \<Rightarrow> bdd_state \<Rightarrow> unit bm" where
  "support_rec 0 r s = fail Nofuel s"
| "support_rec (Suc k) r s =
     (if r < 2 then ret () s
      else if MARKED s r \<or> LOW s r = -1 then ret () s
      else let
        s = set_ops (\<lambda>g. g\<lparr>supportSet := (supportSet g)(LEVEL s r := supportID g)\<rparr>) s;
        s = (if LEVEL s r > supportMax (ops s) then set_ops (\<lambda>g. g\<lparr>supportMax := LEVEL s r\<rparr>) s else s);
        s = SETMARK r s
      in bnd (support_rec k (LOW s r) s) (\<lambda>_ s. support_rec k (HIGH s r) s))"

text \<open>The on-demand allocation, the change counter, and the range of levels.\<close>

definition support_open :: "BDD \<Rightarrow> bdd_state \<Rightarrow> bdd_state" where
  "support_open r s0 = (let
     s = (if supportSize (ops s0) < bddvarnum s0
          then set_ops (\<lambda>g. g\<lparr>supportSet := (\<lambda>_. 0), supportSize := bddvarnum s0, supportID := 0\<rparr>) s0
          else s0);
     s = (if supportID (ops s) = 0x0FFFFFFF
          then set_ops (\<lambda>g. g\<lparr>supportSet := (\<lambda>n. if 0 \<le> n \<and> n < bddvarnum s then 0 else supportSet g n),
                             supportID := 0\<rparr>) s
          else s)
   in set_ops (\<lambda>g. g\<lparr>supportID := supportID g + 1, supportMin := LEVEL s r, supportMax := LEVEL s r\<rparr>) s)"

text \<open>The loop \<open>for (n=supportMax ; n>=supportMin ; --n)\<close>, with the number of levels left.\<close>

primrec support_loop :: "nat \<Rightarrow> int \<Rightarrow> BDD \<Rightarrow> bdd_state \<Rightarrow> BDD bm" where
  "support_loop 0 n res s = ret res s"
| "support_loop (Suc k) n res s =
     bnd (if supportSet (ops s) n = supportID (ops s) then
            bnd (bdd_addref res s) (\<lambda>_ s.
            bnd (bdd_makenode n 0 res s) (\<lambda>tmp s.
            bnd (bdd_delref res s) (\<lambda>_ s. ret tmp s)))
          else ret res s) (\<lambda>res s. support_loop k (n - 1) res s)"

definition bdd_support :: "BDD \<Rightarrow> bdd_state \<Rightarrow> BDD bm" where
  "bdd_support r s = CHECKa r bddfalse s (\<lambda>s.
     if r < 2 then ret bddfalse s
     else bnd (support_rec (mark_fuel s) r (support_open r s)) (\<lambda>_ s.
       bnd (bdd_unmark (mark_fuel s) r s) (\<lambda>_ s.
       let s = bdd_disable_reorder s;
           lo = supportMin (ops s);
           hi = supportMax (ops s)
       in bnd (support_loop (nat (hi - lo + 1)) hi 1 s) (\<lambda>res s.
          ret res (bdd_enable_reorder s)))))"

section \<open>One satisfying assignment\<close>

text \<open>\<open>return PUSHREF( bdd_makenode(level, low, high) )\<close>.\<close>

definition push_node :: "int \<Rightarrow> BDD \<Rightarrow> BDD \<Rightarrow> bdd_state \<Rightarrow> BDD bm" where
  "push_node lev lo hi s = bnd (bdd_makenode lev lo hi s) (\<lambda>n s. PUSHREF n s)"

primrec satone_rec :: "nat \<Rightarrow> BDD \<Rightarrow> bdd_state \<Rightarrow> BDD bm" where
  "satone_rec 0 r s = fail Nofuel s"
| "satone_rec (Suc k) r s =
     (if ISCONST r then ret r s
      else if ISZERO (LOW s r) then
        bnd (satone_rec k (HIGH s r) s) (\<lambda>res s. push_node (LEVEL s r) 0 res s)
      else
        bnd (satone_rec k (LOW s r) s) (\<lambda>res s. push_node (LEVEL s r) res 0 s))"

definition bdd_satone :: "BDD \<Rightarrow> bdd_state \<Rightarrow> BDD bm" where
  "bdd_satone r s = CHECKa r bddfalse s (\<lambda>s.
     if r < 2 then ret r s
     else let s = INITREF (bdd_disable_reorder s) in
       bnd (satone_rec (op_fuel s) r s) (\<lambda>res s.
       bnd (checkresize (bdd_enable_reorder s)) (\<lambda>_ s. ret res s)))"

primrec satoneset_rec :: "nat \<Rightarrow> BDD \<Rightarrow> BDD \<Rightarrow> bdd_state \<Rightarrow> BDD bm" where
  "satoneset_rec 0 r var s = fail Nofuel s"
| "satoneset_rec (Suc k) r var s =
     (if ISCONST r \<and> ISCONST var then ret r s
      else if LEVEL s r < LEVEL s var then
        if ISZERO (LOW s r) then
          bnd (satoneset_rec k (HIGH s r) var s) (\<lambda>res s. push_node (LEVEL s r) 0 res s)
        else
          bnd (satoneset_rec k (LOW s r) var s) (\<lambda>res s. push_node (LEVEL s r) res 0 s)
      else if LEVEL s var < LEVEL s r then
        bnd (satoneset_rec k r (HIGH s var) s) (\<lambda>res s.
          if satPolarity (ops s) = 1 then push_node (LEVEL s var) 0 res s
          else push_node (LEVEL s var) res 0 s)
      else
        if ISZERO (LOW s r) then
          bnd (satoneset_rec k (HIGH s r) (HIGH s var) s) (\<lambda>res s. push_node (LEVEL s r) 0 res s)
        else
          bnd (satoneset_rec k (LOW s r) (HIGH s var) s) (\<lambda>res s. push_node (LEVEL s r) res 0 s))"

definition bdd_satoneset :: "BDD \<Rightarrow> BDD \<Rightarrow> BDD \<Rightarrow> bdd_state \<Rightarrow> BDD bm" where
  "bdd_satoneset r var pol s = CHECKa r bddfalse s (\<lambda>s.
     if ISZERO r then ret r s
     else if \<not> ISCONST pol then bnd (bdd_error BDD_ILLBDD s) (\<lambda>_ s. ret bddfalse s)
     else let s = set_ops (\<lambda>g. g\<lparr>satPolarity := pol\<rparr>) (INITREF (bdd_disable_reorder s)) in
       bnd (satoneset_rec (op_fuel s) r var s) (\<lambda>res s.
       bnd (checkresize (bdd_enable_reorder s)) (\<lambda>_ s. ret res s)))"

text \<open>
  \<open>for ( ; v>bnd0 ; v--) res = PUSHREF( bdd_makenode(v,res,0) )\<close>; the bound is an expression of
  the state.
\<close>

primrec fill_low :: "nat \<Rightarrow> (bdd_state \<Rightarrow> int) \<Rightarrow> int \<Rightarrow> BDD \<Rightarrow> bdd_state \<Rightarrow> BDD bm" where
  "fill_low 0 bnd0 v res s = fail Nofuel s"
| "fill_low (Suc k) bnd0 v res s =
     (if v > bnd0 s then bnd (push_node v res 0 s) (\<lambda>res s. fill_low k bnd0 (v - 1) res s)
      else ret res s)"

primrec fullsatone_rec :: "nat \<Rightarrow> BDD \<Rightarrow> bdd_state \<Rightarrow> BDD bm" where
  "fullsatone_rec 0 r s = fail Nofuel s"
| "fullsatone_rec (Suc k) r s =
     (if r < 2 then ret r s
      else if LOW s r \<noteq> 0 then
        bnd (fullsatone_rec k (LOW s r) s) (\<lambda>res s.
        bnd (fill_low (op_fuel s) (\<lambda>s. LEVEL s r) (LEVEL s (LOW s r) - 1) res s) (\<lambda>res s.
        push_node (LEVEL s r) res 0 s))
      else
        bnd (fullsatone_rec k (HIGH s r) s) (\<lambda>res s.
        bnd (fill_low (op_fuel s) (\<lambda>s. LEVEL s r) (LEVEL s (HIGH s r) - 1) res s) (\<lambda>res s.
        push_node (LEVEL s r) 0 res s)))"

definition bdd_fullsatone :: "BDD \<Rightarrow> bdd_state \<Rightarrow> BDD bm" where
  "bdd_fullsatone r s = CHECKa r bddfalse s (\<lambda>s.
     if r = 0 then ret 0 s
     else let s = INITREF (bdd_disable_reorder s) in
       bnd (fullsatone_rec (op_fuel s) r s) (\<lambda>res s.
       bnd (fill_low (op_fuel s) (\<lambda>_. -1) (LEVEL s r - 1) res s) (\<lambda>res s.
       bnd (checkresize (bdd_enable_reorder s)) (\<lambda>_ s. ret res s))))"

section \<open>All satisfying assignments\<close>

text \<open>
  The profile is indexed by variables; -1 stands for a variable that may have either value. A call
  of the handler is an event with the first \<open>bddvarnum\<close> entries.
\<close>

definition allsatHandler :: "(int \<Rightarrow> int) \<Rightarrow> bdd_state \<Rightarrow> bdd_state" where
  "allsatHandler p s =
     s\<lparr>trace := trace s @ [EvAllsat (map (\<lambda>v. p (int v)) [0..<nat (bddvarnum s)])]\<rparr>"

text \<open>\<open>for ( ; v>bnd0 ; --v) allsatProfile[bddlevel2var[v]] = -1\<close>, with the number of levels left.\<close>

primrec dont_care :: "nat \<Rightarrow> int \<Rightarrow> (int \<Rightarrow> int) \<Rightarrow> bdd_state \<Rightarrow> int \<Rightarrow> int" where
  "dont_care 0 v p s = p"
| "dont_care (Suc k) v p s = dont_care k (v - 1) (p(bddlevel2var s v := -1)) s"

text \<open>Setting the level of \<open>r\<close> to \<open>b\<close>, and clearing the ones between it and its child \<open>c\<close>.\<close>

definition allsat_step :: "BDD \<Rightarrow> BDD \<Rightarrow> int \<Rightarrow> (int \<Rightarrow> int) \<Rightarrow> bdd_state \<Rightarrow> int \<Rightarrow> int" where
  "allsat_step r c b p s =
     dont_care (nat (LEVEL s c - 1 - LEVEL s r)) (LEVEL s c - 1)
       (p(bddlevel2var s (LEVEL s r) := b)) s"

primrec allsat_rec :: "nat \<Rightarrow> BDD \<Rightarrow> (int \<Rightarrow> int) \<Rightarrow> bdd_state \<Rightarrow> (int \<Rightarrow> int) bm" where
  "allsat_rec 0 r p s = fail Nofuel s"
| "allsat_rec (Suc k) r p s =
     (if ISONE r then ret p (allsatHandler p s)
      else if ISZERO r then ret p s
      else bnd (if \<not> ISZERO (LOW s r)
                then allsat_rec k (LOW s r) (allsat_step r (LOW s r) 0 p s) s
                else ret p s) (\<lambda>p s.
           if \<not> ISZERO (HIGH s r)
           then allsat_rec k (HIGH s r) (allsat_step r (HIGH s r) 1 p s) s
           else ret p s))"

definition CHECKn :: "BDD \<Rightarrow> bdd_state \<Rightarrow> (bdd_state \<Rightarrow> unit bm) \<Rightarrow> unit bm" where
  "CHECKn r s k =
     (if check_code r s \<noteq> 0 then bnd (bdd_error (check_code r s) s) (\<lambda>_ s. ret () s) else k s)"

text \<open>\<open>junk\<close> is what \<open>malloc\<close> finds in the memory of the profile.\<close>

definition bdd_allsat :: "(int \<Rightarrow> int) \<Rightarrow> BDD \<Rightarrow> bdd_state \<Rightarrow> unit bm" where
  "bdd_allsat junk r s = CHECKn r s (\<lambda>s.
     let p = dont_care (nat (LEVEL s r)) (LEVEL s r - 1) junk s;
         s = INITREF s
     in bnd (allsat_rec (op_fuel s) r p s) (\<lambda>_ s. ret () s))"

section \<open>Counting\<close>

text \<open>A lookup in \<open>misccache\<close> for a number, and the store of a computed one.\<close>

definition counted ::
    "int \<Rightarrow> BDD \<Rightarrow> (bdd_state \<Rightarrow> real bm) \<Rightarrow> bdd_state \<Rightarrow> real bm" where
  "counted h r m s =
     PLAIN_CACHE_LOOKUP misccache h s (\<lambda>i.
       let e = table (misccache (caches s)) i in
       if BddCache_is_valid (misccache (caches s)) i \<and> c_a e = r \<and> c_c e = miscid (ops s)
       then ret (c_dres e) s
       else bnd (m s) (\<lambda>x s.
         ret x (store misccache_update
           (\<lambda>e. e\<lparr>c_a := r, c_c := miscid (ops s), c_dres := x\<rparr>) i s)))"

primrec satcount_rec :: "nat \<Rightarrow> BDD \<Rightarrow> bdd_state \<Rightarrow> real bm" where
  "satcount_rec 0 r s = fail Nofuel s"
| "satcount_rec (Suc k) r s =
     (if r < 2 then ret (of_int r) s
      else counted (SATCOUHASH r) r (\<lambda>s.
        bnd (satcount_rec k (LOW s r) s) (\<lambda>x s.
        bnd (satcount_rec k (HIGH s r) s) (\<lambda>y s.
        ret (2 powi (LEVEL s (LOW s r) - LEVEL s r - 1) * x +
             2 powi (LEVEL s (HIGH s r) - LEVEL s r - 1) * y) s))) s)"

definition bdd_satcount :: "BDD \<Rightarrow> bdd_state \<Rightarrow> real bm" where
  "bdd_satcount r s = CHECKa r 0 s (\<lambda>s.
     let s = set_ops (\<lambda>g. g\<lparr>miscid := CACHEID_SATCOU\<rparr>) s in
     bnd (satcount_rec (op_fuel s) r s) (\<lambda>x s. ret (2 powi LEVEL s r * x) s))"

text \<open>\<open>for (n=varset ; !ISCONST(n) ; n=HIGH(n)) unused--\<close>.\<close>

primrec unused_loop :: "nat \<Rightarrow> BDD \<Rightarrow> int \<Rightarrow> bdd_state \<Rightarrow> int bm" where
  "unused_loop 0 n unused s = fail Nofuel s"
| "unused_loop (Suc k) n unused s =
     (if \<not> ISCONST n then unused_loop k (HIGH s n) (unused - 1) s else ret unused s)"

definition bdd_satcountset :: "BDD \<Rightarrow> BDD \<Rightarrow> bdd_state \<Rightarrow> real bm" where
  "bdd_satcountset r varset s =
     (if ISCONST varset \<or> ISZERO r then ret 0 s
      else bnd (unused_loop (op_fuel s) varset (bddvarnum s) s) (\<lambda>unused s.
        bnd (bdd_satcount r s) (\<lambda>x s.
        let q = x / 2 powi unused in ret (if q \<ge> 1 then q else 1) s)))"

text \<open>\<open>M_LN2\<close> and \<open>log1p\<close> of the mathematical library.\<close>

definition log1p_over_ln2 :: "real \<Rightarrow> real" where
  "log1p_over_ln2 x = ln (1 + x) / ln 2"

primrec satcountln_rec :: "nat \<Rightarrow> BDD \<Rightarrow> bdd_state \<Rightarrow> real bm" where
  "satcountln_rec 0 r s = fail Nofuel s"
| "satcountln_rec (Suc k) r s =
     (if r = 0 then ret (-1) s
      else if r = 1 then ret 0 s
      else counted (SATCOUHASH r) r (\<lambda>s.
        bnd (satcountln_rec k (LOW s r) s) (\<lambda>s1 s.
        let s1 = (if s1 \<ge> 0 then s1 + of_int (LEVEL s (LOW s r) - LEVEL s r - 1) else s1) in
        bnd (satcountln_rec k (HIGH s r) s) (\<lambda>s2 s.
        let s2 = (if s2 \<ge> 0 then s2 + of_int (LEVEL s (HIGH s r) - LEVEL s r - 1) else s2) in
        ret (if s1 < 0 then s2
             else if s2 < 0 then s1
             else if s1 < s2 then s2 + log1p_over_ln2 (2 powr (s1 - s2))
             else s1 + log1p_over_ln2 (2 powr (s2 - s1))) s))) s)"

definition bdd_satcountln :: "BDD \<Rightarrow> bdd_state \<Rightarrow> real bm" where
  "bdd_satcountln r s = CHECKa r 0 s (\<lambda>s.
     let s = set_ops (\<lambda>g. g\<lparr>miscid := CACHEID_SATCOULN\<rparr>) s in
     bnd (satcountln_rec (op_fuel s) r s) (\<lambda>x s.
     ret (if x \<ge> 0 then x + of_int (LEVEL s r) else x) s))"

definition bdd_satcountlnset :: "BDD \<Rightarrow> BDD \<Rightarrow> bdd_state \<Rightarrow> real bm" where
  "bdd_satcountlnset r varset s =
     (if ISCONST varset then ret 0 s
      else bnd (unused_loop (op_fuel s) varset (bddvarnum s) s) (\<lambda>unused s.
        bnd (bdd_satcountln r s) (\<lambda>x s.
        let q = x - of_int unused in ret (if q \<ge> 0 then q else 0) s)))"

primrec bdd_pathcount_rec :: "nat \<Rightarrow> BDD \<Rightarrow> bdd_state \<Rightarrow> real bm" where
  "bdd_pathcount_rec 0 r s = fail Nofuel s"
| "bdd_pathcount_rec (Suc k) r s =
     (if ISZERO r then ret 0 s
      else if ISONE r then ret 1 s
      else counted (PATHCOUHASH r) r (\<lambda>s.
        bnd (bdd_pathcount_rec k (LOW s r) s) (\<lambda>x s.
        bnd (bdd_pathcount_rec k (HIGH s r) s) (\<lambda>y s. ret (x + y) s))) s)"

definition bdd_pathcount :: "BDD \<Rightarrow> bdd_state \<Rightarrow> real bm" where
  "bdd_pathcount r s = CHECKa r 0 s (\<lambda>s.
     let s = set_ops (\<lambda>g. g\<lparr>miscid := CACHEID_PATHCOU\<rparr>) s in bdd_pathcount_rec (op_fuel s) r s)"

section \<open>Nodes\<close>

definition bdd_nodecount :: "BDD \<Rightarrow> bdd_state \<Rightarrow> int bm" where
  "bdd_nodecount r s = CHECK r s (\<lambda>s.
     bnd (bdd_markcount (mark_fuel s) r 0 s) (\<lambda>num s.
     bnd (bdd_unmark (mark_fuel s) r s) (\<lambda>_ s. ret num s)))"

primrec markcount_all :: "BDD list \<Rightarrow> int \<Rightarrow> bdd_state \<Rightarrow> int bm" where
  "markcount_all [] cou s = ret cou s"
| "markcount_all (r # rs) cou s =
     bnd (bdd_markcount (mark_fuel s) r cou s) (\<lambda>cou s. markcount_all rs cou s)"

primrec unmark_all :: "BDD list \<Rightarrow> bdd_state \<Rightarrow> unit bm" where
  "unmark_all [] s = ret () s"
| "unmark_all (r # rs) s = bnd (bdd_unmark (mark_fuel s) r s) (\<lambda>_ s. unmark_all rs s)"

definition bdd_anodecount :: "BDD list \<Rightarrow> bdd_state \<Rightarrow> int bm" where
  "bdd_anodecount rs s =
     bnd (markcount_all rs 0 s) (\<lambda>cou s. bnd (unmark_all rs s) (\<lambda>_ s. ret cou s))"

text \<open>The profile counts nodes per variable; it is returned as an array of \<open>bddvarnum\<close> entries.\<close>

primrec varprofile_rec :: "nat \<Rightarrow> BDD \<Rightarrow> (int \<Rightarrow> int) \<Rightarrow> bdd_state \<Rightarrow> (int \<Rightarrow> int) bm" where
  "varprofile_rec 0 r p s = fail Nofuel s"
| "varprofile_rec (Suc k) r p s =
     (if r < 2 then ret p s
      else if MARKED s r then ret p s
      else let v = bddlevel2var s (LEVEL s r);
               p = p(v := p v + 1);
               s = SETMARK r s
        in bnd (varprofile_rec k (LOW s r) p s) (\<lambda>p s. varprofile_rec k (HIGH s r) p s))"

definition bdd_varprofile :: "BDD \<Rightarrow> bdd_state \<Rightarrow> int list option bm" where
  "bdd_varprofile r s = CHECKa r None s (\<lambda>s.
     bnd (varprofile_rec (mark_fuel s) r (\<lambda>_. 0) s) (\<lambda>p s.
     bnd (bdd_unmark (mark_fuel s) r s) (\<lambda>_ s.
     ret (Some (map (\<lambda>v. p (int v)) [0..<nat (bddvarnum s)])) s)))"

end
