(* ===== verification/OpCofactor.thy ===== *)
theory OpCofactor
  imports OpSession BddopInfo
begin

text \<open>
  Correctness of \<open>bdd_constrain\<close> and \<open>bdd_simplify\<close>: the result agrees with \<open>f\<close> wherever the
  care set \<open>c\<close> holds, and is not above the two arguments.
\<close>

section \<open>Results with a property\<close>

lemma postsI: "op_post s L F r t \<Longrightarrow> P F \<Longrightarrow> fr.posts s L P r t"
  unfolding fr.posts_def by blast

lemma posts_err:
  "op_post s L F r t \<Longrightarrow> bdderrorcond s \<noteq> 0 \<Longrightarrow> op_post s L G r t"
  by (auto simp: fr.post_def res_ok_def ext_def)

text \<open>The shape \<open>saved\<close>: one protected intermediate result.\<close>

lemma saved_posts:
  assumes I: "binv s" and R: "room s (Suc d)"
    and f: "runs (f s) (op_post s L0 F0)"
    and k: "\<And>s2 x. binv s2 \<Longrightarrow> ext s s2 \<Longrightarrow> room s2 d \<Longrightarrow> arg s2 x \<Longrightarrow> res_ok s2 L0 F0 x \<Longrightarrow>
              runs (k x s2) (fr.posts s2 L P)"
  shows "runs (saved f k s) (fr.posts s L P)"
  unfolding saved_def
proof (rule runs_bnd [OF f])
  fix x t1 assume "op_post s L0 F0 x t1"
  then have t1: "binv t1" "ext s t1" "bddrefstack t1 = bddrefstack s" "res_ok t1 L0 F0 x" "node_id t1 x"
    by (simp_all add: fr.post_def res_ok_def)
  have sl1: "bddrefslots t1 = bddrefslots s" using t1(2) by (intro statD) (simp add: ext_def)
  then have R1: "room t1 (Suc d)" using R t1(3) by (simp add: room_def)
  let ?s1 = "pushed x t1"
  have I1: "binv ?s1" by (rule fr.inv_pushed [OF t1(1,5)])
  have E1: "ext s ?s1" using t1(2,3) unfolding pushed_def by (intro ext_refstack_pop) auto
  have Rs1: "room ?s1 d" using R1 by (simp add: room_def pushed_def)
  have r1: "res_ok ?s1 L0 F0 x" "arg ?s1 x"
    using t1(4,5) fr.invD(3) [OF t1(1)]
    by (simp_all add: pushed_def fr.res_ok_refstack arg_top [unfolded pushed_def])
  have rd: "READREF 1 ?s1 = x" by (simp add: READREF_def pushed_def)
  have "runs (bnd (k x ?s1) (\<lambda>res s. bnd (POPREF 1 s) (\<lambda>_ s. ret res s))) (fr.posts s L P)"
  proof (rule runs_bnd [OF k [OF I1 E1 Rs1 r1(2,1)]])
    fix r t2 assume "fr.posts ?s1 L P r t2"
    then obtain F where q: "P F" and "op_post ?s1 L F r t2" by (auto simp: fr.posts_def)
    then have t2: "binv t2" "ext ?s1 t2" "bddrefstack t2 = x # bddrefstack s" "res_ok t2 L F r"
      using t1(3) by (simp_all add: fr.post_def pushed_def)
    let ?t = "t2\<lparr>bddrefstack := bddrefstack s\<rparr>"
    have "binv ?t"
      by (rule fr.inv_refstack [OF t2(1)])
        (use tab_invD(8) [OF fr.invD(3) [OF t2(1)]] t2(3) in \<open>auto simp: stack_ok_def\<close>)
    moreover have "ext s ?t"
      by (rule ext_refstack_pop [OF ext_trans [OF fr.invD(3) [OF I] E1 t2(2)]]) simp
    ultimately have "op_post s L F r ?t"
      using t2(4) fr.invD(3) [OF t2(1)] by (simp add: fr.post_def fr.res_ok_refstack)
    then show "runs (bnd (POPREF 1 t2) (\<lambda>_ s. ret r s)) (fr.posts s L P)"
      using q by (auto simp: POPREF_def t2(3) fr.posts_def)
  qed
  then show "runs (bnd (PUSHREF x t1) (\<lambda>_ s. bnd (k (READREF 1 s) s)
      (\<lambda>res s. bnd (POPREF 1 s) (\<lambda>_ s. ret res s)))) (fr.posts s L P)"
    by (simp only: PUSHREF_eq [OF R1 zero_less_Suc] bnd_ret rd)
qed

section \<open>The common recursion\<close>

definition agrees :: "bdd_state \<Rightarrow> int \<Rightarrow> int \<Rightarrow> ((int \<Rightarrow> bool) \<Rightarrow> bool) \<Rightarrow> bool" where
  "agrees s f c F = (\<forall>x. sem s c x \<longrightarrow> F x = sem s f x)"

text \<open>
  The steps of the two recursions for a common continuation \<open>m\<close>, which is right for all
  smaller arguments.
\<close>

definition cof_ih :: "(int \<Rightarrow> int \<Rightarrow> bdd_state \<Rightarrow> BDD bm) \<Rightarrow> (bdd_state \<Rightarrow> bool) \<Rightarrow> nat \<Rightarrow> bool" where
  "cof_ih m A D =
     (\<forall>s f c. binv s \<longrightarrow> A s \<longrightarrow> arg s f \<longrightarrow> arg s c \<longrightarrow> dep2 s f c < D \<longrightarrow> room s (dep2 s f c) \<longrightarrow>
        runs (m f c s) (fr.posts s (top2 s f c) (agrees s f c)))"

lemma cof_ihD:
  assumes "cof_ih m A D" "binv s" "A s" "arg s f" "arg s c" "dep2 s f c < D" "room s (dep2 s f c)"
  shows "runs (m f c s) (fr.posts s (top2 s f c) (agrees s f c))"
  using assms unfolding cof_ih_def by blast

lemma cof_sub:
  assumes I: "binv s" and a: "arg s f" "arg s c" and v: "v = top2 s f c" "v < bddvarnum s"
    and ih: "cof_ih m A (dep2 s f c)" and s1: "binv s1" "ext s s1" "A s1" and R: "room s1 (dep2 s f c - 1)"
  shows "runs (m (down s v f b) (down s v c b) s1)
    (fr.posts s1 (v + 1) (agrees s (down s v f b) (down s v c b)))"
proof -
  have vl: "v \<le> LEVEL s f" "v \<le> LEVEL s c" by (simp_all add: v top2_def)
  note F = down_facts(1-3) [OF I a(1) vl(1) v(2), of b] and C = down_facts(1-3) [OF I a(2) vl(2) v(2), of b]
  note A1 = arg_later [OF s1(2) I F(1)] and A2 = arg_later [OF s1(2) I C(1)]
  let ?f = "down s v f b" and ?c = "down s v c b"
  have eq: "top2 s1 ?f ?c = top2 s ?f ?c" "dep2 s1 ?f ?c = dep2 s ?f ?c" "agrees s1 ?f ?c = agrees s ?f ?c"
    using A1 A2 by (simp_all add: fun_eq_iff top2_def dep2_def agrees_def)
  have lt: "dep2 s ?f ?c < dep2 s f c"
    using F(3) C(3) unfolding dep2_top [of s f c] v(1) [symmetric] by (simp add: dep2_def)
  have "runs (m ?f ?c s1) (fr.posts s1 (top2 s1 ?f ?c) (agrees s1 ?f ?c))"
    by (rule cof_ihD [OF ih s1(1,3) A1(1) A2(1)]) (use lt room_mono [OF R] in \<open>simp_all add: eq\<close>)
  moreover have "v + 1 \<le> top2 s ?f ?c" using F(2) C(2) by (simp add: top2_def)
  ultimately show ?thesis unfolding eq by (auto elim!: runs_conseq intro: posts_weaken)
qed

lemma cof_both:
  assumes I: "binv s" and a: "arg s f" "arg s c" and v: "v = top2 s f c" "v < bddvarnum s"
    and ih: "cof_ih m A (dep2 s f c)" and A: "A s" "\<And>t. ext s t \<Longrightarrow> A t"
    and x: "x = f \<or> x = c" "LEVEL s x = v"
    and p: "p s = m (down s v f False) (down s v c False) s"
    and q: "\<And>t. ext s t \<Longrightarrow> q t = m (down s v f True) (down s v c True) t"
    and R: "room s (dep2 s f c)"
  shows "runs (both p q (\<lambda>lo hi s. bdd_makenode (LEVEL s x) lo hi s) s) (fr.posts s v (agrees s f c))"
proof -
  obtain d where d: "dep2 s f c = Suc d" using v by (cases "dep2 s f c") (auto simp: dep2_top)
  have ax: "arg s x" using x a by auto
  have x2: "2 \<le> x" using arg_node(3) [OF I ax] x(2) v(2) by linarith
  have vl: "v \<le> LEVEL s f" "v \<le> LEVEL s c" by (simp_all add: v top2_def)
  note F = down_facts [OF I a(1) vl(1) v(2)] and C = down_facts [OF I a(2) vl(2) v(2)]
  note sub = cof_sub [OF I a v ih]
  show ?thesis
  proof (rule fr.both_posts [where d = d, OF I])
    show "room s (Suc d)" using R d by simp
    show "runs (p s) (fr.posts s (v + 1) (agrees s (down s v f False) (down s v c False)))"
      unfolding p using R d by (intro sub [OF I _ A(1)]) (auto intro: room_mono)
    show "runs (q s1) (fr.posts s1 (v + 1) (agrees s (down s v f True) (down s v c True)))"
      if "binv s1" "ext s s1" "room s1 d" for s1
      unfolding q [OF that(2)] using that d A(2) by (intro sub) simp_all
    fix s2 l h F0 F1
    assume s2: "binv s2" "ext s s2" and lh: "arg s2 l" "arg s2 h"
      and ag: "agrees s (down s v f False) (down s v c False) F0" "agrees s (down s v f True) (down s v c True) F1"
      and r: "res_ok s2 (v + 1) F0 l" "res_ok s2 (v + 1) F1 h"
    let ?F = "\<lambda>e. if e (LEVEL s x) then F1 e else F0 e"
    have "agrees s f c ?F"
      using ag F(4) C(4) unfolding agrees_def x(2) by (metis (full_types))
    moreover have "runs (bdd_makenode (LEVEL s2 x) l h s2) (op_post s2 (LEVEL s x) ?F)"
      by (rule fr.shannon_node [OF I ax x2 _ _ refl s2 lh r]) (simp_all add: x(2))
    ultimately show "runs (bdd_makenode (LEVEL s2 x) l h s2) (fr.posts s2 v (agrees s f c))"
      by (auto elim!: runs_conseq intro: postsI simp: x(2))
  qed
qed

text \<open>A branch on which the care set is empty is skipped.\<close>

lemma cof_skip:
  assumes I: "binv s" and a: "arg s f" "arg s c" and v: "v = top2 s f c" "v < bddvarnum s"
    and ih: "cof_ih m A (dep2 s f c)" and A: "A s"
    and z: "down s v c (\<not> b) = 0" and R: "room s (dep2 s f c)"
  shows "runs (m (down s v f b) (down s v c b) s) (fr.posts s v (agrees s f c))"
proof -
  have vl: "v \<le> LEVEL s f" "v \<le> LEVEL s c" by (simp_all add: v top2_def)
  note F = down_facts(4) [OF I a(1) vl(1) v(2)] and C = down_facts(4) [OF I a(2) vl(2) v(2)]
  have "agrees s f c G" if "agrees s (down s v f b) (down s v c b) G" for G
    unfolding agrees_def
  proof (intro allI impI)
    fix x assume c: "sem s c x"
    have "x v = b"
    proof (rule ccontr)
      assume "x v \<noteq> b"
      then have "x v = (\<not> b)" by simp
      then show False using C [of x] c z by simp
    qed
    then show "G x = sem s f x" using that c C [of x] F [of x] by (simp add: agrees_def)
  qed
  moreover have "runs (m (down s v f b) (down s v c b) s)
      (fr.posts s (v + 1) (agrees s (down s v f b) (down s v c b)))"
    using R by (intro cof_sub [OF I a v ih I _ A]) (auto intro: room_mono)
  ultimately show ?thesis by (auto elim!: runs_conseq intro: posts_weaken)
qed

text \<open>
  The common part of the recursions: \<open>below\<close> is done when the care set is on a level of its own.
\<close>

definition cof_shape ::
    "(int \<Rightarrow> int \<Rightarrow> bdd_state \<Rightarrow> BDD bm) \<Rightarrow> (bdd_state \<Rightarrow> BDD bm) \<Rightarrow> int \<Rightarrow> int \<Rightarrow> bdd_state \<Rightarrow> BDD bm" where
  "cof_shape m lower f c s =
     (if LEVEL s f = LEVEL s c then
        if ISZERO (LOW s c) then m (HIGH s f) (HIGH s c) s
        else if ISZERO (HIGH s c) then m (LOW s f) (LOW s c) s
        else both (\<lambda>s. m (LOW s f) (LOW s c) s) (\<lambda>s. m (HIGH s f) (HIGH s c) s)
               (\<lambda>lo hi s. bdd_makenode (LEVEL s f) lo hi s) s
      else if LEVEL s f < LEVEL s c then
        both (\<lambda>s. m (LOW s f) c s) (\<lambda>s. m (HIGH s f) c s)
          (\<lambda>lo hi s. bdd_makenode (LEVEL s f) lo hi s) s
      else lower s)"

lemma cof_shape_spec:
  assumes I: "binv s" and a: "arg s f" "arg s c" and v: "top2 s f c < bddvarnum s"
    and ih: "cof_ih m A (dep2 s f c)" and A: "A s" "\<And>t. ext s t \<Longrightarrow> A t"
    and R: "room s (dep2 s f c)"
    and lower: "LEVEL s c < LEVEL s f \<Longrightarrow> runs (lower s) (fr.posts s (top2 s f c) (agrees s f c))"
  shows "runs (cof_shape m lower f c s) (fr.posts s (top2 s f c) (agrees s f c))"
proof -
  note both = cof_both [OF I a refl v ih A] and skip = cof_skip [OF I a refl v ih A(1)]
  note later = arg_later(3,4) [OF _ I a(1)] arg_later(3,4) [OF _ I a(2)]
  consider "LEVEL s c = LEVEL s f" | "LEVEL s f < LEVEL s c" | "LEVEL s c < LEVEL s f" by linarith
  then show ?thesis
  proof cases
    case 1
    then have dn: "down s (top2 s f c) f b = (if b then HIGH s f else LOW s f)"
      "down s (top2 s f c) c b = (if b then HIGH s c else LOW s c)" "LEVEL s f = top2 s f c" for b
      by (simp_all add: down_def top2_def)
    consider "LOW s c = 0" | "LOW s c \<noteq> 0" "HIGH s c = 0" | "LOW s c \<noteq> 0" "HIGH s c \<noteq> 0" by blast
    then show ?thesis
    proof cases
      case z: 1
      then show ?thesis using skip [of True] R 1 by (simp add: cof_shape_def ISZERO_def dn)
    next
      case z: 2
      then show ?thesis using skip [of False] R 1 by (simp add: cof_shape_def ISZERO_def dn)
    next
      case z: 3
      have "runs (both (\<lambda>s. m (LOW s f) (LOW s c) s) (\<lambda>s. m (HIGH s f) (HIGH s c) s)
          (\<lambda>lo hi s. bdd_makenode (LEVEL s f) lo hi s) s) (fr.posts s (top2 s f c) (agrees s f c))"
      proof (rule both)
        show "m (HIGH t f) (HIGH t c) t =
            m (down s (top2 s f c) f True) (down s (top2 s f c) c True) t" if "ext s t" for t
          using later [OF that] by (simp add: dn)
      qed (use R in \<open>simp_all add: dn\<close>)
      then show ?thesis using 1 z by (simp add: cof_shape_def ISZERO_def)
    qed
  next
    case 2
    then have dn: "down s (top2 s f c) f b = (if b then HIGH s f else LOW s f)"
      "down s (top2 s f c) c b = c" "LEVEL s f = top2 s f c" for b
      by (simp_all add: down_def top2_def)
    have "runs (both (\<lambda>s. m (LOW s f) c s) (\<lambda>s. m (HIGH s f) c s)
        (\<lambda>lo hi s. bdd_makenode (LEVEL s f) lo hi s) s) (fr.posts s (top2 s f c) (agrees s f c))"
    proof (rule both)
      show "m (HIGH t f) c t = m (down s (top2 s f c) f True) (down s (top2 s f c) c True) t"
        if "ext s t" for t
        using later [OF that] by (simp add: dn)
    qed (use R in \<open>simp_all add: dn\<close>)
    then show ?thesis using 2 by (simp add: cof_shape_def)
  next
    case 3
    then show ?thesis using lower by (simp add: cof_shape_def)
  qed
qed

text \<open>The returns before the recursion.\<close>

lemma cof_early:
  assumes I: "binv s" and a: "arg s f" "arg s c"
    and q: "c = 1 \<and> q = f \<or> q = f \<and> f < 2 \<or> c = f \<and> q = 1 \<or> c = 0 \<and> q = 0"
  shows "fr.posts s (top2 s f c) (agrees s f c) q s"
proof (rule postsI)
  show "op_post s (top2 s f c) (sem s q) q s"
    using q arg_node(2,13) [OF I a(1)] arg_node(2,13) [OF I a(2)] const_level [OF I]
    by (intro post_node [OF I]) (auto simp: top2_def node_id_def)
  show "agrees s f c (sem s q)" using q by (auto simp: agrees_def)
qed

section \<open>Constrain\<close>

abbreviation cof_post :: "bdd_state \<Rightarrow> int \<Rightarrow> int \<Rightarrow> int \<Rightarrow> bdd_state \<Rightarrow> bool" where
  "cof_post s f c \<equiv> fr.posts s (top2 s f c) (agrees s f c)"

text \<open>What a cache entry for one of the two operations says.\<close>

lemma cof_entry:
  assumes I: "binv s" and a: "arg s f" "arg s c"
    and P: "cof_post s f c res t"
  shows "binv t" "node_id t f" "node_id t c"
    "\<exists>F. res_ok t (min (LEVEL t f) (LEVEL t c)) F res \<and> (\<forall>x. sem t c x \<longrightarrow> F x = sem t f x)"
proof -
  from P obtain F where F: "agrees s f c F" "op_post s (top2 s f c) F res t" by (auto simp: fr.posts_def)
  then have t: "binv t" "ext s t" "res_ok t (top2 s f c) F res" by (simp_all add: fr.post_def)
  note A = arg_later [OF t(2) I a(1)] and B = arg_later [OF t(2) I a(2)]
  show "binv t" "node_id t f" "node_id t c" using t(1) A(1) B(1) by (simp_all add: arg_def)
  show "\<exists>F. res_ok t (min (LEVEL t f) (LEVEL t c)) F res \<and> (\<forall>x. sem t c x \<longrightarrow> F x = sem t f x)"
    using t(3) F(1) A B by (intro exI [of _ F]) (simp add: top2_def agrees_def)
qed

lemma cof_hit:
  assumes I: "binv s"
    and e: "\<exists>F. res_ok s (min (LEVEL s f) (LEVEL s c)) F res \<and> (\<forall>x. sem s c x \<longrightarrow> F x = sem s f x)"
  shows "cof_post s f c res s"
proof -
  from e obtain F where "res_ok s (top2 s f c) F res" "agrees s f c F" by (auto simp: top2_def agrees_def)
  then show ?thesis using I by (intro postsI [where F = F]) (simp_all add: fr.post_def)
qed

lemma posts_store:
  assumes P: "fr.posts s L P r t" and c: "caches_ok (store upd f i t)"
  shows "fr.posts s L P r (store upd f i t)"
  using P post_store [OF _ c] unfolding fr.posts_def by blast

lemma constrain_store:
  assumes I: "binv s" and a: "arg s f" "arg s c" and id: "miscid (ops t) = CACHEID_CONSTRAIN"
    and P: "cof_post s f c res t"
  shows "cof_post s f c res
    (store misccache_update (\<lambda>e. e\<lparr>c_a := f, c_b := c, c_c := miscid (ops t), c_res := res\<rparr>) i t)"
proof (rule posts_store [OF P stores(5)])
  note E = cof_entry [OF I a P]
  show "caches_ok t" by (rule fr.invD(2) [OF E(1)])
  show "misc_entry t (written (\<lambda>e. e\<lparr>c_a := f, c_b := c, c_c := miscid (ops t), c_res := res\<rparr>) i
      (misccache (caches t)))"
    using E by (simp add: misc_entry_def written_def id cacheid_defs)
qed

text \<open>In the recursion every call has two arguments below the constants.\<close>

lemma cof_top:
  assumes I: "binv s" and a: "arg s f" and f: "\<not> f < 2"
  shows "top2 s f c < bddvarnum s"
  using arg_node(5) [OF I a] f by (simp add: top2_def)

lemma constrain_rec_spec:
  "binv s \<Longrightarrow> miscid (ops s) = CACHEID_CONSTRAIN \<Longrightarrow> arg s f \<Longrightarrow> arg s c \<Longrightarrow> dep2 s f c < k \<Longrightarrow>
   room s (dep2 s f c) \<Longrightarrow> runs (constrain_rec k f c s) (cof_post s f c)"
proof (induction k arbitrary: f c s)
  case 0
  then show ?case by simp
next
  case (Suc k)
  note I = Suc.prems(1) and id = Suc.prems(2) and a = Suc.prems(3,4)
  let ?i = "BddCache_lookup (misccache (caches s)) (CONSTRAINHASH f c)"
  let ?e = "table (misccache (caches s)) ?i"
  let ?hit = "BddCache_is_valid (misccache (caches s)) ?i \<and> c_a ?e = f \<and> c_b ?e = c \<and>
              c_c ?e = miscid (ops s)"
  let ?lower = "\<lambda>s. if ISZERO (LOW s c) then constrain_rec k f (HIGH s c) s
             else if ISZERO (HIGH s c) then constrain_rec k f (LOW s c) s
             else both (\<lambda>s. constrain_rec k f (LOW s c) s) (\<lambda>s. constrain_rec k f (HIGH s c) s)
                    (\<lambda>lo hi s. bdd_makenode (LEVEL s c) lo hi s) s"
  let ?rest = "bnd (cof_shape (constrain_rec k) ?lower f c s) (\<lambda>res s. ret res (store misccache_update
              (\<lambda>e. e\<lparr>c_a := f, c_b := c, c_c := miscid (ops s), c_res := res\<rparr>) ?i s))"
  have eq: "constrain_rec (Suc k) f c s =
      (if c = 1 then ret f s else if f < 2 then ret f s else if c = f then ret 1 s
       else if c = 0 then ret 0 s else if ?hit then ret (c_res ?e) s else ?rest)"
    unfolding constrain_rec.simps Let_def cof_shape_def ISONE_def ISZERO_def ISCONST_def
      lookup_eq [where sel = misccache and s = s, OF binv_tables(6) [OF I]] ..
  consider (early) q where "c = 1 \<and> q = f \<or> q = f \<and> f < 2 \<or> c = f \<and> q = 1 \<or> c = 0 \<and> q = 0"
      "constrain_rec (Suc k) f c s = ret q s"
    | (hit) ?hit "constrain_rec (Suc k) f c s = ret (c_res ?e) s"
    | (miss) "\<not> f < 2" "c \<noteq> 0" "constrain_rec (Suc k) f c s = ?rest"
    unfolding eq by (cases "c = 1"; cases "f < 2"; cases "c = f"; cases "c = 0"; cases ?hit) auto
  then show ?case
  proof cases
    case early
    then show ?thesis using cof_early [OF I a early(1)] by simp
  next
    case hit
    then have "misc_entry s ?e" using hits(5) [OF I] by blast
    then have "cof_post s f c (c_res ?e) s"
      using hit(1) id by (intro cof_hit [OF I]) (simp add: misc_entry_def)
    then show ?thesis unfolding hit(2) by simp
  next
    case miss
    note v = cof_top [OF I a(1) miss(1), of c]
    have ih: "cof_ih (constrain_rec k) (\<lambda>s. miscid (ops s) = CACHEID_CONSTRAIN) (dep2 s f c)"
      unfolding cof_ih_def using Suc.IH Suc.prems(5) by simp
    have A: "miscid (ops t) = CACHEID_CONSTRAIN" if "ext s t" for t
      using arg_later(7) [OF that I a(1)] id by simp
    have "runs (cof_shape (constrain_rec k) ?lower f c s) (cof_post s f c)"
    proof (rule cof_shape_spec [OF I a v ih id A Suc.prems(6)])
      assume lt: "LEVEL s c < LEVEL s f"
      then have dn: "down s (top2 s f c) f b = f"
        "down s (top2 s f c) c b = (if b then HIGH s c else LOW s c)" "LEVEL s c = top2 s f c" for b
        by (simp_all add: down_def top2_def)
      note skip = cof_skip [OF I a refl v ih id _ Suc.prems(6)]
      consider "LOW s c = 0" | "LOW s c \<noteq> 0" "HIGH s c = 0" | "LOW s c \<noteq> 0" "HIGH s c \<noteq> 0" by blast
      then show "runs (?lower s) (cof_post s f c)"
      proof cases
        case 1
        then show ?thesis using skip [of True] by (simp add: ISZERO_def dn)
      next
        case 2
        then show ?thesis using skip [of False] by (simp add: ISZERO_def dn)
      next
        case 3
        have "runs (both (\<lambda>s. constrain_rec k f (LOW s c) s) (\<lambda>s. constrain_rec k f (HIGH s c) s)
            (\<lambda>lo hi s. bdd_makenode (LEVEL s c) lo hi s) s) (cof_post s f c)"
        proof (rule cof_both [OF I a refl v ih id A _ _ _ _ Suc.prems(6)])
          show "constrain_rec k f (HIGH t c) t =
              constrain_rec k (down s (top2 s f c) f True) (down s (top2 s f c) c True) t" if "ext s t" for t
            using arg_later(4) [OF that I a(2)] by (simp add: dn)
        qed (simp_all add: dn)
        then show ?thesis using 3 by (simp add: ISZERO_def)
      qed
    qed
    then show ?thesis
      unfolding miss(3)
    proof (rule runs_bnd)
      fix q t assume P: "cof_post s f c q t"
      then have "ext s t" by (auto simp: fr.posts_def fr.post_def)
      then show "runs (ret q (store misccache_update
          (\<lambda>e. e\<lparr>c_a := f, c_b := c, c_c := miscid (ops t), c_res := q\<rparr>) ?i t)) (cof_post s f c)"
        using constrain_store [OF I a A P] by simp
    qed
  qed
qed

section \<open>Simplify\<close>

lemma simplify_store:
  assumes I: "binv s" and a: "arg s f" "arg s d" and P: "cof_post s f d res t"
  shows "cof_post s f d res
    (store applycache_update (\<lambda>e. e\<lparr>c_a := f, c_b := d, c_c := bddop_simplify, c_res := res\<rparr>) i t)"
proof (rule posts_store [OF P stores(1)])
  note E = cof_entry [OF I a P]
  show "caches_ok t" by (rule fr.invD(2) [OF E(1)])
  show "apply_entry t (written (\<lambda>e. e\<lparr>c_a := f, c_b := d, c_c := bddop_simplify, c_res := res\<rparr>) i
      (applycache (caches t)))"
    using E by (simp add: apply_entry_def written_def bddop_defs)
qed

text \<open>
  When the care set is on a level of its own it is replaced by the disjunction of its branches, which
  it implies.
\<close>

lemma simplify_lower:
  assumes I: "binv s" and op: "applyop (ops s) = bddop_or" and a: "arg s f" "arg s d"
    and v: "top2 s f d < bddvarnum s" and lt: "LEVEL s d < LEVEL s f"
    and ih: "cof_ih m (\<lambda>s. applyop (ops s) = bddop_or) (dep2 s f d)" and R: "room s (dep2 s f d)"
  shows "runs (saved (\<lambda>s. apply_rec (op_fuel s) (LOW s d) (HIGH s d) s) (\<lambda>x s. m f x s) s) (cof_post s f d)"
proof -
  obtain k where k: "dep2 s f d = Suc k" using v by (cases "dep2 s f d") (auto simp: dep2_top)
  have top: "top2 s f d = LEVEL s d" using lt by (simp add: top2_def)
  note D = arg_node [OF I a(2)]
  have d2: "2 \<le> d" using D(3) v top by linarith
  let ?l = "LOW s d" and ?h = "HIGH s d"
  let ?G = "apply_sem bddop_or s ?l ?h"
  have less: "dep2 s ?l ?h < dep2 s f d" "LEVEL s d < top2 s ?l ?h"
    using D(8-11) d2 v top by (auto simp: dep2_top top2_def)
  show ?thesis
  proof (rule saved_posts [OF I])
    show "room s (Suc k)" using R k by simp
    have "dep2 s ?l ?h \<le> nat (bddvarnum s)" using less(2) D(1) d2 by (auto simp: dep2_top)
    then show "runs (apply_rec (op_fuel s) ?l ?h s) (op_post s (top2 s ?l ?h) ?G)"
      using D(6,7) d2 op less(1) R
      by (intro apply_rec_spec [OF I]) (auto simp: bddop_defs op_fuel_def intro: room_mono)
  next
    fix s2 x assume s2: "binv s2" "ext s s2" "room s2 k" "arg s2 x" "res_ok s2 (top2 s ?l ?h) ?G x"
    note F = arg_later [OF s2(2) I a(1)]
    have vn: "bddvarnum s2 = bddvarnum s" using s2(2) by (intro statD) (simp add: ext_def)
    have lv: "top2 s f d + 1 \<le> top2 s2 f x" using s2(5) less(2) F(2) lt by (auto simp: top2_def res_ok_def)
    then have dl: "dep2 s2 f x < dep2 s f d" using v unfolding dep2_top vn by linarith
    have "runs (m f x s2) (cof_post s2 f x)"
      by (rule cof_ihD [OF ih s2(1) _ F(1) s2(4) dl]) (use F(7) op dl k s2(3) in \<open>auto intro: room_mono\<close>)
    then show "runs (m f x s2) (fr.posts s2 (top2 s f d) (agrees s f d))"
    proof (rule runs_conseq)
      fix r t assume "cof_post s2 f x r t"
      then obtain F' where F': "agrees s2 f x F'" "op_post s2 (top2 s2 f x) F' r t" by (auto simp: fr.posts_def)
      have p: "op_post s2 (top2 s f d) F' r t" using F'(2) lv by (auto intro: post_weaken)
      show "fr.posts s2 (top2 s f d) (agrees s f d) r t"
      proof (cases "bdderrorcond s2 = 0")
        case True
        have "agrees s f d F'"
          unfolding agrees_def
        proof (intro allI impI)
          fix e assume "sem s d e"
          then have "sem s2 x e"
            using s2(5) True D(12) [OF d2, of e]
            by (auto simp: res_ok_def apply_sem_def bool_op_def bddop_defs split: if_splits)
          then show "F' e = sem s f e" using F'(1) F(5) by (simp add: agrees_def)
        qed
        then show ?thesis using p by (rule postsI [rotated])
      next
        case False
        then have "op_post s2 (top2 s f d) (sem s f) r t" using p by (rule posts_err [rotated])
        then show ?thesis by (rule postsI) (simp add: agrees_def)
      qed
    qed
  qed
qed

lemma simplify_rec_spec:
  "binv s \<Longrightarrow> applyop (ops s) = bddop_or \<Longrightarrow> arg s f \<Longrightarrow> arg s d \<Longrightarrow> dep2 s f d < k \<Longrightarrow>
   room s (dep2 s f d) \<Longrightarrow> runs (simplify_rec k f d s) (cof_post s f d)"
proof (induction k arbitrary: f d s)
  case 0
  then show ?case by simp
next
  case (Suc k)
  note I = Suc.prems(1) and id = Suc.prems(2) and a = Suc.prems(3,4)
  let ?i = "BddCache_lookup (applycache (caches s)) (APPLYHASH f d bddop_simplify)"
  let ?e = "table (applycache (caches s)) ?i"
  let ?hit = "BddCache_is_valid (applycache (caches s)) ?i \<and> c_a ?e = f \<and> c_b ?e = d \<and>
              c_c ?e = bddop_simplify"
  let ?lower = "saved (\<lambda>s. apply_rec (op_fuel s) (LOW s d) (HIGH s d) s) (\<lambda>x s. simplify_rec k f x s)"
  let ?rest = "bnd (cof_shape (simplify_rec k) ?lower f d s) (\<lambda>res s. ret res (store applycache_update
              (\<lambda>e. e\<lparr>c_a := f, c_b := d, c_c := bddop_simplify, c_res := res\<rparr>) ?i s))"
  have eq: "simplify_rec (Suc k) f d s =
      (if d = 1 \<or> f < 2 then ret f s else if d = f then ret 1 s
       else if d = 0 then ret 0 s else if ?hit then ret (c_res ?e) s else ?rest)"
    unfolding simplify_rec.simps Let_def cof_shape_def ISONE_def ISZERO_def ISCONST_def
      lookup_eq [where sel = applycache and s = s, OF binv_tables(1) [OF I]] ..
  consider (early) q where "d = 1 \<and> q = f \<or> q = f \<and> f < 2 \<or> d = f \<and> q = 1 \<or> d = 0 \<and> q = 0"
      "simplify_rec (Suc k) f d s = ret q s"
    | (hit) ?hit "simplify_rec (Suc k) f d s = ret (c_res ?e) s"
    | (miss) "\<not> f < 2" "d \<noteq> 0" "simplify_rec (Suc k) f d s = ?rest"
    unfolding eq by (cases "d = 1"; cases "f < 2"; cases "d = f"; cases "d = 0"; cases ?hit) auto
  then show ?case
  proof cases
    case early
    then show ?thesis using cof_early [OF I a early(1)] by simp
  next
    case hit
    then have "apply_entry s ?e" using hits(1) [OF I] by blast
    then have "cof_post s f d (c_res ?e) s"
      using hit(1) id by (intro cof_hit [OF I]) (simp add: apply_entry_def)
    then show ?thesis unfolding hit(2) by simp
  next
    case miss
    note v = cof_top [OF I a(1) miss(1), of d]
    have ih: "cof_ih (simplify_rec k) (\<lambda>s. applyop (ops s) = bddop_or) (dep2 s f d)"
      unfolding cof_ih_def using Suc.IH Suc.prems(5) by simp
    have A: "applyop (ops t) = bddop_or" if "ext s t" for t
      using arg_later(7) [OF that I a(1)] id by simp
    have "runs (cof_shape (simplify_rec k) ?lower f d s) (cof_post s f d)"
      by (rule cof_shape_spec [OF I a v ih id _ Suc.prems(6)])
        (rule A, assumption, rule simplify_lower [OF I id a v _ ih Suc.prems(6)])
    then show ?thesis
      unfolding miss(3)
    proof (rule runs_bnd)
      fix q t assume P: "cof_post s f d q t"
      show "runs (ret q (store applycache_update
          (\<lambda>e. e\<lparr>c_a := f, c_b := d, c_c := bddop_simplify, c_res := q\<rparr>) ?i t)) (cof_post s f d)"
        using simplify_store [OF I a P] by simp
    qed
  qed
qed

section \<open>The external functions\<close>

lemma dep2_le: "session s \<Longrightarrow> handle s l \<Longrightarrow> handle s r \<Longrightarrow> dep2 s l r \<le> nat (bddvarnum s)"
  using dep_le [of s l] dep_le [of s r] by (simp add: dep2_def)

lemma opened_top2 [simp]:
  "top2 (set_ops g (INITREF s)) = top2 s" "dep2 (set_ops g (INITREF s)) = dep2 s"
  "agrees (set_ops g (INITREF s)) = agrees s"
  by (simp_all add: fun_eq_iff top2_def dep2_def agrees_def opened_core)

lemma cof_session:
  assumes S: "session s" and a: "handle s f" "handle s c"
    and g: "cacheratio (g (ops s)) = cacheratio (ops s)" "quant_table (bddvarnum s) (g (ops s))"
    and m: "\<And>t. binv t \<Longrightarrow> ops t = g (ops s) \<Longrightarrow> arg t f \<Longrightarrow> arg t c \<Longrightarrow> dep2 t f c < op_fuel t \<Longrightarrow>
      room t (dep2 t f c) \<Longrightarrow> runs (m f c t) (cof_post t f c)"
  shows "runs (again (\<lambda>s. ret 0 (set_ops g (INITREF s))) (m f c) s)
    (\<lambda>r t. \<exists>F. agrees s f c F \<and> ends s (top2 s f c) F r t)"
proof (rule again_posts [where g = g and e = 0, OF S _ _ g])
  let ?s = "set_ops g (INITREF s)"
  have d: "dep2 s f c \<le> nat (bddvarnum s)" by (rule dep2_le [OF S a])
  have "runs (m f c ?s) (cof_post ?s f c)"
    using d room_mono [OF session_room [OF S] d]
    by (intro m binv_opened [OF sessionD(1) [OF S]] handle_opened a) auto
  then show "runs (m f c ?s) (fr.posts ?s (top2 s f c) (agrees s f c))" by simp
qed simp_all

lemma bdd_constrain_spec:
  assumes S: "session s" and a: "handle s f" "handle s c"
  shows "runs (bdd_constrain f c s) (\<lambda>r t. \<exists>F. agrees s f c F \<and> ends s (top2 s f c) F r t)"
  unfolding bdd_constrain_def CHECKa_ok [OF S a(1)] CHECKa_ok [OF S a(2)]
  by (rule cof_session [OF S a, where m = "\<lambda>f c s. constrain_rec (op_fuel s) f c s"])
    (use sessionD(5) [OF S] in \<open>simp_all add: constrain_rec_spec quant_table_def\<close>)

lemma bdd_simplify_spec:
  assumes S: "session s" and a: "handle s f" "handle s d"
  shows "runs (bdd_simplify f d s) (\<lambda>r t. \<exists>F. agrees s f d F \<and> ends s (top2 s f d) F r t)"
  unfolding bdd_simplify_def CHECKa_ok [OF S a(1)] CHECKa_ok [OF S a(2)]
  by (rule cof_session [OF S a, where m = "\<lambda>f c s. simplify_rec (op_fuel s) f c s"])
    (use sessionD(5) [OF S] in \<open>simp_all add: simplify_rec_spec quant_table_def\<close>)

end
