(* ===== verification/OpRestrict.thy ===== *)
theory OpRestrict
  imports OpCofactor
begin

text \<open>
  The table \<open>quantvarset\<close>, in which quantification and restriction look up whether a level is in
  their variable set. It is not cleared between two operations: entries are compared with an
  identifier that increases, and the invariant \<open>quant_table\<close> says that no entry is ahead of it.
\<close>

section \<open>Variable sets and cubes\<close>

lemma vset_const [simp]: "n < 2 \<Longrightarrow> vset s n = {}"
  by (auto simp: vset_def inner_def allocd_def elim: insetE)

lemma vset_inner: "inner s n \<Longrightarrow> vset s n = insert (LEVEL s n) (vset s (HIGH s n))"
  by (auto simp: vset_def elim: insetE intro: inset.intros)

inductive_cases litE: "lit s n v b"

lemma lit_const [simp]: "n < 2 \<Longrightarrow> \<not> lit s n v b"
  by (auto simp: inner_def allocd_def elim: litE)

text \<open>The child through which a cube goes on.\<close>

definition cube_next :: "bdd_state \<Rightarrow> int \<Rightarrow> int" where
  "cube_next s n = (if LOW s n = 0 then HIGH s n else LOW s n)"

lemma lit_inner:
  "inner s n \<Longrightarrow> lit s n v b \<longleftrightarrow> v = LEVEL s n \<and> b = (LOW s n = 0) \<or> lit s (cube_next s n) v b"
  unfolding cube_next_def
  by (cases b) (auto elim: litE intro: lit.intros)

text \<open>Their levels are those from the node's own downwards.\<close>

lemma vset_levels:
  assumes T: "bdd_table s" and I: "tab_inv s" and n: "node_id s n"
  shows "v \<in> vset s n \<Longrightarrow> LEVEL s n \<le> v \<and> v < bddvarnum s"
  using assms
proof (induction arbitrary: v rule: node_induct)
  case (const n)
  then show ?case by auto
next
  case (node n)
  note N = bdd_node [OF T I node(3)]
  show ?case using node N(5,10) by (fastforce simp: vset_inner)
qed

lemma lit_levels:
  assumes T: "bdd_table s" and I: "tab_inv s" and n: "node_id s n"
  shows "lit s n v b \<Longrightarrow> LEVEL s n \<le> v \<and> v < bddvarnum s"
  using assms
proof (induction arbitrary: v b rule: node_induct)
  case (const n)
  then show ?case by auto
next
  case (node n)
  note N = bdd_node [OF T I node(3)]
  show ?case using node N(5,9,10) by (fastforce simp: lit_inner cube_next_def split: if_splits)
qed

lemma lit_unique:
  assumes T: "bdd_table s" and I: "tab_inv s" and n: "node_id s n"
  shows "lit s n v True \<Longrightarrow> \<not> lit s n v False"
  using assms
proof (induction arbitrary: v rule: node_induct)
  case (const n)
  then show ?case by auto
next
  case (node n)
  note N = bdd_node [OF T I node(3)]
  have c: "node_id s (cube_next s n)" "LEVEL s n < LEVEL s (cube_next s n)"
    using N(7-10) node(1) by (simp_all add: cube_next_def)
  have "\<not> lit s (cube_next s n) (LEVEL s n) b" for b
    using lit_levels [OF T I c(1)] c(2) by fastforce
  moreover have "lit s (cube_next s n) v True \<Longrightarrow> \<not> lit s (cube_next s n) v False"
    using node.IH [of v] by (cases "LOW s n = 0") (auto simp: cube_next_def)
  ultimately show ?case using node(2,6) by (auto simp: lit_inner)
qed

text \<open>A protected variable set stays the same.\<close>

lemma sets_later:
  assumes E: "ext s t" and I: "binv s" and n: "arg s n"
  shows "vset t n = vset s n" "lit t n = lit s n"
  using agree_sets [OF tab_invD(3) [OF binvD(3) [OF I]] arg_agree [OF E n]]
  by (simp_all add: fun_eq_iff)

section \<open>Filling the table\<close>

lemma set_ops_set_ops: "set_ops f (set_ops g s) = set_ops (\<lambda>x. f (g x)) s"
  by (simp add: set_ops_def)

lemma set_ops_INITREF: "INITREF (set_ops g s) = set_ops g (INITREF s)"
  by (simp add: set_ops_def INITREF_def)

lemma set_ops_core:
  "LEVEL (set_ops g s) = LEVEL s" "LOW (set_ops g s) = LOW s" "HIGH (set_ops g s) = HIGH s"
  "vset (set_ops g s) = vset s" "lit (set_ops g s) = lit s"
  by (rule core_eq; simp)+

definition table_entry :: "(int \<Rightarrow> int) \<Rightarrow> int \<Rightarrow> opglobals \<Rightarrow> opglobals" where
  "table_entry qs ql g = g\<lparr>quantvarset := qs, quantlast := ql\<rparr>"

lemma vartable_loop_spec:
  assumes T: "bdd_table s" and I: "tab_inv s" and n: "node_id s n"
  shows "nat (bddvarnum s - LEVEL s n) < k \<Longrightarrow>
    \<exists>ql. vartable_loop k n (set_ops g s) = ret () (set_ops (\<lambda>x. table_entry
        (\<lambda>l. if l \<in> vset s n then quantvarsetID (g (ops s)) else quantvarset (g (ops s)) l) ql (g x)) s) \<and>
      (2 \<le> n \<longrightarrow> (\<forall>l \<in> vset s n. l \<le> ql)) \<and> (n < 2 \<longrightarrow> ql = quantlast (g (ops s)))"
  using T I n
proof (induction arbitrary: k g rule: node_induct)
  case (const n)
  then have n: "n < 2" "\<not> 1 < n" by auto
  obtain j where "k = Suc j" using const by (cases k) auto
  then show ?case using n
    by (intro exI [of _ "quantlast (g (ops s))"]) (simp add: table_entry_def set_ops_def)
next
  case (node n)
  note N = bdd_node [OF T I node(3)]
  obtain j where k: "k = Suc j" using node(6) by (cases k) auto
  let ?h = "\<lambda>x. (g x)\<lparr>quantvarset := (quantvarset (g x))(LEVEL s n := quantvarsetID (g x)),
      quantlast := LEVEL s n\<rparr>"
  have "nat (bddvarnum s - LEVEL s (HIGH s n)) < j" using node(1,6) k N(5,10) by auto
  from node.IH(2) [OF this, of ?h] obtain ql where
    ql: "vartable_loop j (HIGH s n) (set_ops ?h s) = ret () (set_ops (\<lambda>x. table_entry
        (\<lambda>l. if l \<in> vset s (HIGH s n) then quantvarsetID (?h (ops s)) else quantvarset (?h (ops s)) l)
         ql (?h x)) s)"
      "2 \<le> HIGH s n \<longrightarrow> (\<forall>l \<in> vset s (HIGH s n). l \<le> ql)"
      "HIGH s n < 2 \<longrightarrow> ql = quantlast (?h (ops s))" by blast
  have "vartable_loop k n (set_ops g s) = vartable_loop j (HIGH s n) (set_ops ?h s)"
    using node(1) by (simp add: k set_ops_core set_ops_set_ops)
  moreover have "\<forall>l \<in> vset s n. l \<le> ql"
  proof (cases "HIGH s n < 2")
    case True
    then show ?thesis using ql(3) node(2) by (simp add: vset_inner)
  next
    case False
    then have "inner s (HIGH s n)" using bdd_node(4) [OF T I N(8)] node(1) by simp
    then have "LEVEL s (HIGH s n) \<in> vset s (HIGH s n)" by (simp add: vset_inner)
    then have "LEVEL s n \<le> ql" "\<forall>l \<in> vset s (HIGH s n). l \<le> ql" using ql(2) False N(10) node(1) by force+
    then show ?thesis using node(2) by (simp add: vset_inner)
  qed
  moreover have "(\<lambda>x. table_entry (\<lambda>l. if l \<in> vset s (HIGH s n) then quantvarsetID (?h (ops s))
        else quantvarset (?h (ops s)) l) ql (?h x)) =
      (\<lambda>x. table_entry (\<lambda>l. if l \<in> vset s n then quantvarsetID (g (ops s))
        else quantvarset (g (ops s)) l) ql (g x))"
    using node(2) by (auto simp: fun_eq_iff table_entry_def vset_inner)
  ultimately show ?case using ql(1) node(1) by (intro exI [of _ ql]) simp
qed

lemma svartable_loop_spec:
  assumes T: "bdd_table s" and I: "tab_inv s" and n: "node_id s n"
  shows "nat (bddvarnum s - LEVEL s n) < k \<Longrightarrow>
    \<exists>ql. svartable_loop k n (set_ops g s) = ret () (set_ops (\<lambda>x. table_entry
        (\<lambda>l. if lit s n l True then quantvarsetID (g (ops s)) else if lit s n l False
             then - quantvarsetID (g (ops s)) else quantvarset (g (ops s)) l) ql (g x)) s) \<and>
      (2 \<le> n \<longrightarrow> ql = bddvarnum s) \<and> (n < 2 \<longrightarrow> ql = quantlast (g (ops s)))"
  using T I n
proof (induction arbitrary: k g rule: node_induct)
  case (const n)
  then have n: "n < 2" by auto
  obtain j where "k = Suc j" using const by (cases k) auto
  then show ?case using n
    by (intro exI [of _ "quantlast (g (ops s))"]) (simp add: table_entry_def set_ops_def ISCONST_def)
next
  case (node n)
  note N = bdd_node [OF T I node(3)]
  obtain j where k: "k = Suc j" using node(6) by (cases k) auto
  let ?m = "cube_next s n" and ?p = "LOW s n = 0"
  have m: "node_id s ?m" "LEVEL s n < LEVEL s ?m" using N(7-10) node(1) by (simp_all add: cube_next_def)
  let ?h = "\<lambda>x. (g x)\<lparr>quantvarset := (quantvarset (g x))(LEVEL s n := if ?p then quantvarsetID (g x)
      else - quantvarsetID (g x)), quantlast := LEVEL s ?m\<rparr>"
  have le: "nat (bddvarnum s - LEVEL s ?m) < j" using node(1,6) k N(5) m(2) by auto
  have "\<exists>ql. svartable_loop j ?m (set_ops ?h s) = ret () (set_ops (\<lambda>x. table_entry
        (\<lambda>l. if lit s ?m l True then quantvarsetID (?h (ops s)) else if lit s ?m l False
             then - quantvarsetID (?h (ops s)) else quantvarset (?h (ops s)) l) ql (?h x)) s) \<and>
      (2 \<le> ?m \<longrightarrow> ql = bddvarnum s) \<and> (?m < 2 \<longrightarrow> ql = quantlast (?h (ops s)))"
    by (cases ?p) (use node.IH [of j ?h] le in \<open>simp_all only: cube_next_def if_True if_False refl\<close>)
  then obtain ql where
    ql: "svartable_loop j ?m (set_ops ?h s) = ret () (set_ops (\<lambda>x. table_entry
        (\<lambda>l. if lit s ?m l True then quantvarsetID (?h (ops s)) else if lit s ?m l False
             then - quantvarsetID (?h (ops s)) else quantvarset (?h (ops s)) l) ql (?h x)) s)"
      "2 \<le> ?m \<longrightarrow> ql = bddvarnum s" "?m < 2 \<longrightarrow> ql = LEVEL s ?m" by auto
  have "svartable_loop k n (set_ops g s) = svartable_loop j ?m (set_ops ?h s)"
    using node(1) by (simp add: k set_ops_core set_ops_set_ops ISCONST_def ISZERO_def cube_next_def Let_def)
  moreover have "?m < 2 \<Longrightarrow> ql = bddvarnum s" using ql(3) bdd_node(3) [OF T I m(1)] by simp
  then have "ql = bddvarnum s" using ql(2) by linarith
  moreover have "\<not> lit s ?m (LEVEL s n) b" for b
    using lit_levels [OF T I m(1)] m(2) by fastforce
  then have "(\<lambda>x. table_entry (\<lambda>l. if lit s ?m l True then quantvarsetID (?h (ops s))
        else if lit s ?m l False then - quantvarsetID (?h (ops s)) else quantvarset (?h (ops s)) l) ql (?h x)) =
      (\<lambda>x. table_entry (\<lambda>l. if lit s n l True then quantvarsetID (g (ops s))
        else if lit s n l False then - quantvarsetID (g (ops s)) else quantvarset (g (ops s)) l) ql (g x))"
    using node(2) by (auto simp: fun_eq_iff table_entry_def lit_inner)
  ultimately show ?case using ql(1) node(1) by (intro exI [of _ ql]) simp
qed

section \<open>The table of an operation\<close>

definition in_table :: "int \<Rightarrow> int set \<Rightarrow> opglobals \<Rightarrow> bool" where
  "in_table num V g =
     ((\<forall>l. 0 \<le> l \<and> l < num \<longrightarrow> (quantvarset g l = quantvarsetID g) = (l \<in> V)) \<and>
      (\<forall>l \<in> V. l \<le> quantlast g))"

definition in_stable :: "int \<Rightarrow> (int \<Rightarrow> bool \<Rightarrow> bool) \<Rightarrow> opglobals \<Rightarrow> bool" where
  "in_stable num L g =
     (0 < quantvarsetID g \<and>
      (\<forall>l. 0 \<le> l \<and> l < num \<longrightarrow> (quantvarset g l = quantvarsetID g) = L l True \<and>
         (quantvarset g l = - quantvarsetID g) = L l False) \<and>
      (\<forall>l b. L l b \<longrightarrow> l \<le> quantlast g))"

text \<open>The next identifier is ahead of all entries.\<close>

definition fresh_id :: "int \<Rightarrow> opglobals \<Rightarrow> bool" where
  "fresh_id num g =
     (0 < quantvarsetID g \<and> quantvarsetID g \<le> INT_MAX \<and>
      (\<forall>l. 0 \<le> l \<and> l < num \<longrightarrow> \<bar>quantvarset g l\<bar> < quantvarsetID g))"

lemma next_varset_id_spec:
  assumes "quant_table (bddvarnum s) (ops s)" "quantvarsetID (ops s) < INT_MAX"
  shows "\<exists>g. next_varset_id limit s = ret () (set_ops (\<lambda>_. g) s) \<and> fresh_id (bddvarnum s) g \<and>
    cacheratio g = cacheratio (ops s)"
proof (cases "quantvarsetID (ops s) + 1 = limit")
  case True
  let ?g = "(ops s)\<lparr>quantvarset := (\<lambda>n. if 0 \<le> n \<and> n < bddvarnum s then 0
                                             else quantvarset (ops s) n), quantvarsetID := 1\<rparr>"
  have "next_varset_id limit s = ret () (set_ops (\<lambda>_. ?g) s)"
    using assms(2) True by (simp add: next_varset_id_def set_ops_def)
  then show ?thesis by (intro exI [of _ ?g]) (simp add: fresh_id_def INT_MAX_def)
next
  case False
  let ?g = "(ops s)\<lparr>quantvarsetID := quantvarsetID (ops s) + 1\<rparr>"
  have "next_varset_id limit s = ret () (set_ops (\<lambda>_. ?g) s)"
    using assms(2) False by (simp add: next_varset_id_def set_ops_def)
  moreover have "fresh_id (bddvarnum s) ?g"
    using assms by (auto simp: fresh_id_def quant_table_def)
  ultimately show ?thesis by (intro exI [of _ ?g]) simp
qed

lemma op_fuel_dep: "binv s \<Longrightarrow> node_id s n \<Longrightarrow> nat (bddvarnum s - LEVEL s n) < op_fuel s"
  using arg_level [OF fr.invD(1), of s n] by (auto simp: op_fuel_def)

lemma op_fuel_set_ops [simp]: "op_fuel (set_ops g s) = op_fuel s"
  "op_fuel (INITREF s) = nat (bddvarnum s) + 2"
  by (simp_all add: op_fuel_def)

lemma varset2vartable_spec:
  assumes I: "binv s" and Q: "quant_table (bddvarnum s) (ops s)" "quantvarsetID (ops s) < INT_MAX"
    and V: "node_id s V" "2 \<le> V"
  shows "\<exists>g. varset2vartable V s = ret 0 (set_ops (\<lambda>_. g) s) \<and> in_table (bddvarnum s) (vset s V) g \<and>
    quant_table (bddvarnum s) g \<and> cacheratio g = cacheratio (ops s)"
proof -
  from next_varset_id_spec [OF Q, of INT_MAX] obtain g where
    g: "next_varset_id INT_MAX s = ret () (set_ops (\<lambda>_. g) s)" "fresh_id (bddvarnum s) g"
      "cacheratio g = cacheratio (ops s)" by blast
  let ?qs = "\<lambda>l. if l \<in> vset s V then quantvarsetID g else quantvarset g l"
  from vartable_loop_spec [OF binvD(2,3) [OF I] V(1) op_fuel_dep [OF I V(1)], of "\<lambda>_. g"] V(2) obtain ql where
    ql: "vartable_loop (op_fuel s) V (set_ops (\<lambda>_. g) s) = ret () (set_ops (\<lambda>_. table_entry ?qs ql g) s)"
      "\<forall>l \<in> vset s V. l \<le> ql" by auto
  have "varset2vartable V s = ret 0 (set_ops (\<lambda>_. table_entry ?qs ql g) s)"
    using V(2) g(1) ql(1) by (simp add: varset2vartable_def)
  moreover have "in_table (bddvarnum s) (vset s V) (table_entry ?qs ql g)"
    using ql(2) g(2) by (fastforce simp: in_table_def table_entry_def fresh_id_def)
  moreover have "quant_table (bddvarnum s) (table_entry ?qs ql g)"
    using g(2) by (fastforce simp: quant_table_def table_entry_def fresh_id_def)
  ultimately show ?thesis using g(3) by (intro exI [of _ "table_entry ?qs ql g"]) (simp add: table_entry_def)
qed

lemma varset2svartable_spec:
  assumes I: "binv s" and Q: "quant_table (bddvarnum s) (ops s)" "quantvarsetID (ops s) < INT_MAX"
    and V: "node_id s V" "2 \<le> V"
  shows "\<exists>g. varset2svartable V s = ret 0 (set_ops (\<lambda>_. g) s) \<and> in_stable (bddvarnum s) (lit s V) g \<and>
    quant_table (bddvarnum s) g \<and> cacheratio g = cacheratio (ops s)"
proof -
  from next_varset_id_spec [OF Q, of "INT_MAX div 2"] obtain g where
    g: "next_varset_id (INT_MAX div 2) s = ret () (set_ops (\<lambda>_. g) s)" "fresh_id (bddvarnum s) g"
      "cacheratio g = cacheratio (ops s)" by blast
  let ?qs = "\<lambda>l. if lit s V l True then quantvarsetID g else if lit s V l False then - quantvarsetID g
      else quantvarset g l"
  let ?ql = "bddvarnum s"
  note L = lit_levels [OF binvD(2,3) [OF I] V(1)] and U = lit_unique [OF binvD(2,3) [OF I] V(1)]
  from svartable_loop_spec [OF binvD(2,3) [OF I] V(1) op_fuel_dep [OF I V(1)], of "\<lambda>_. g"] V(2)
  have ql: "svartable_loop (op_fuel s) V (set_ops (\<lambda>_. g) s) = ret () (set_ops (\<lambda>_. table_entry ?qs ?ql g) s)"
    by auto
  have "varset2svartable V s = ret 0 (set_ops (\<lambda>_. table_entry ?qs ?ql g) s)"
    using V(2) g(1) ql by (simp add: varset2svartable_def)
  moreover have "in_stable (bddvarnum s) (lit s V) (table_entry ?qs ?ql g)"
  proof -
    have "\<bar>quantvarset g l\<bar> < quantvarsetID g" "0 < quantvarsetID g" if "0 \<le> l" "l < bddvarnum s" for l
      using g(2) that by (simp_all add: fresh_id_def)
    then have "quantvarset g l \<noteq> quantvarsetID g" "quantvarset g l \<noteq> - quantvarsetID g"
      "- quantvarsetID g \<noteq> quantvarsetID g" if "0 \<le> l" "l < bddvarnum s" for l
      using that by fastforce+
    then show ?thesis
      using g(2) L U by (auto simp: in_stable_def table_entry_def fresh_id_def less_imp_le)
  qed
  moreover have "quant_table (bddvarnum s) (table_entry ?qs ?ql g)"
    using g(2) by (fastforce simp: quant_table_def table_entry_def fresh_id_def)
  ultimately show ?thesis using g(3) by (intro exI [of _ "table_entry ?qs ?ql g"]) (simp add: table_entry_def)
qed

lemma with_table_eq:
  "f s = ret 0 (set_ops (\<lambda>_. g) s) \<Longrightarrow> with_table f h s = ret 0 (set_ops (\<lambda>_. h g) (INITREF s))"
  by (simp add: with_table_def set_ops_INITREF set_ops_set_ops)

text \<open>An operation that fills the table in its \<open>setjmp\<close> frame.\<close>

lemma table_posts:
  assumes S: "session s" and f: "f s = ret 0 (set_ops (\<lambda>_. g) s)"
    and g: "cacheratio (h g) = cacheratio (ops s)" "quant_table (bddvarnum s) (h g)"
    and m: "runs (m (set_ops (\<lambda>_. h g) (INITREF s))) (fr.posts (set_ops (\<lambda>_. h g) (INITREF s)) L P)"
  shows "runs (again (with_table f h) m s) (\<lambda>r t. \<exists>F. P F \<and> ends s L F r t)"
  by (rule again_posts [where g = "\<lambda>_. h g" and e = 0 and prep = "with_table f h" and s = s and m = m, OF S])
    (use with_table_eq [of f s g h] f g m in simp_all)

lemma table_spec:
  assumes S: "session s" and f: "f s = ret 0 (set_ops (\<lambda>_. g) s)"
    and g: "cacheratio (h g) = cacheratio (ops s)" "quant_table (bddvarnum s) (h g)"
    and m: "runs (m (set_ops (\<lambda>_. h g) (INITREF s))) (op_post (set_ops (\<lambda>_. h g) (INITREF s)) L F)"
  shows "runs (again (with_table f h) m s) (ends s L F)"
  by (rule again_spec [where g = "\<lambda>_. h g" and e = 0 and prep = "with_table f h" and s = s and m = m, OF S])
    (use with_table_eq [of f s g h] f g m in simp_all)

section \<open>Restriction\<close>

text \<open>
  Correctness of \<open>bdd_restrict\<close>: the result stands for the function with the literals of the cube
  fixed.
\<close>

definition restrict_ctx :: "int \<Rightarrow> bdd_state \<Rightarrow> bool" where
  "restrict_ctx V s =
     (arg s V \<and> 2 \<le> V \<and> V < 2 ^ 28 \<and> miscid (ops s) = tagged V 3 CACHEID_RESTRICT \<and>
      in_stable (bddvarnum s) (lit s V) (ops s))"

lemma ext_stat:
  assumes "ext s t"
  shows "bddvarnum t = bddvarnum s" "ops t = ops s" "bddrefslots t = bddrefslots s" "pairs t = pairs s"
    "pairsid t = pairsid s"
  using assms statD [of t s] by (simp_all add: ext_def)

lemma restrict_ctx_ext: "ext s t \<Longrightarrow> binv s \<Longrightarrow> restrict_ctx V s \<Longrightarrow> restrict_ctx V t"
  using sets_later [of s t V] arg_later(1) [of s t V] ext_stat [of s t] by (simp add: restrict_ctx_def)

text \<open>The tag determines the variable set.\<close>

lemma restrict_tag: "2 \<le> V \<Longrightarrow> V < 2 ^ 28 \<Longrightarrow> tagged V 3 CACHEID_RESTRICT = V * 8 + 1"
  by (simp add: tagged_def s32_def cacheid_defs)

lemma tag_mod8: "(V * 8 + 1) mod 8 = (1::int)"
  by presburger

text \<open>Above the literals of the cube nothing changes.\<close>

lemma restrict_q_below:
  assumes I: "binv s" and n: "node_id s n" and L: "\<And>v b. L v b \<Longrightarrow> v < LEVEL s n"
  shows "restrict_q L (sem s n) e = sem s n e"
proof -
  have "assign L e v = e v" if "LEVEL s n \<le> v" for v
    using L [of v True] L [of v False] that by (auto simp: assign_def)
  then show ?thesis unfolding restrict_q_def by (intro sem_levels [OF binvD(2,3) [OF I] n]) simp
qed

text \<open>On a level of the cube the branch is chosen, on another one the function is split.\<close>

lemma restrict_q_node:
  assumes I: "binv s" and n: "arg s n" "2 \<le> n"
  shows "L (LEVEL s n) True \<Longrightarrow> restrict_q L (sem s n) e = restrict_q L (sem s (HIGH s n)) e"
    "\<not> L (LEVEL s n) True \<Longrightarrow> L (LEVEL s n) False \<Longrightarrow>
       restrict_q L (sem s n) e = restrict_q L (sem s (LOW s n)) e"
    "\<not> L (LEVEL s n) True \<Longrightarrow> \<not> L (LEVEL s n) False \<Longrightarrow> restrict_q L (sem s n) e =
       (if e (LEVEL s n) then restrict_q L (sem s (HIGH s n)) e else restrict_q L (sem s (LOW s n)) e)"
  using arg_node(12) [OF I n(1,2), of "assign L e"] by (simp_all add: restrict_q_def assign_def)

lemma misc_restrict:
  assumes "node_id t (c_a e)" "node_id t V" "2 \<le> V" "V < 2 ^ 28" "c_c e = V * 8 + 1"
    "res_ok t (LEVEL t (c_a e)) (restrict_q (lit t V) (sem t (c_a e))) (c_res e)"
  shows "misc_entry t e"
  using assms restrict_tag [OF assms(3,4)] unfolding misc_entry_def
  by (auto simp: cacheid_defs intro!: exI [of _ V])

lemma misc_restrictD:
  assumes e: "misc_entry s e" "c_c e = V * 8 + 1" and V: "2 \<le> V" "V < 2 ^ 28"
  shows "res_ok s (LEVEL s (c_a e)) (restrict_q (lit s V) (sem s (c_a e))) (c_res e)"
proof -
  have "c_c e mod 8 = CACHEID_RESTRICT" using e(2) tag_mod8 by (simp add: cacheid_defs)
  then obtain W where W: "2 \<le> W" "W < 2 ^ 28" "c_c e = tagged W 3 CACHEID_RESTRICT"
    "res_ok s (LEVEL s (c_a e)) (restrict_q (lit s W) (sem s (c_a e))) (c_res e)"
    using e(1) unfolding misc_entry_def by blast
  then have "W = V" using restrict_tag [OF W(1,2)] e(2) by simp
  then show ?thesis using W(4) by simp
qed

lemma restrict_store:
  assumes P: "op_post s (LEVEL s r) (restrict_q (lit s V) (sem s r)) res t"
    and I: "binv s" and r: "arg s r" and C: "restrict_ctx V s"
  shows "op_post s (LEVEL s r) (restrict_q (lit s V) (sem s r)) res
    (store misccache_update (\<lambda>e. e\<lparr>c_a := r, c_c := miscid (ops t), c_res := res\<rparr>) i t)"
proof -
  have t: "binv t" "ext s t" "res_ok t (LEVEL s r) (restrict_q (lit s V) (sem s r)) res"
    using P by (simp_all add: fr.post_def)
  have V: "arg s V" "2 \<le> V" "V < 2 ^ 28" using C by (simp_all add: restrict_ctx_def)
  note A = arg_later [OF t(2) I r] and B = arg_later [OF t(2) I V(1)]
  have id: "miscid (ops t) = V * 8 + 1"
    using C restrict_tag [OF V(2,3)] ext_stat(2) [OF t(2)] by (simp add: restrict_ctx_def)
  have "misc_entry t (written (\<lambda>e. e\<lparr>c_a := r, c_c := miscid (ops t), c_res := res\<rparr>) i (misccache (caches t)))"
    by (rule misc_restrict [where V = V])
      (use V t(3) A B sets_later [OF t(2) I V(1)] id in \<open>simp_all add: written_def arg_def\<close>)
  then show ?thesis by (rule post_store [OF P stores(5) [OF fr.invD(2) [OF t(1)]]])
qed

lemma restrict_rec_spec:
  "binv s \<Longrightarrow> restrict_ctx V s \<Longrightarrow> arg s r \<Longrightarrow> dep s r < k \<Longrightarrow> room s (dep s r) \<Longrightarrow>
   runs (restrict_rec k r s) (op_post s (LEVEL s r) (restrict_q (lit s V) (sem s r)))"
proof (induction k arbitrary: r s)
  case 0
  then show ?case by simp
next
  case (Suc k)
  note I = Suc.prems(1) and C = Suc.prems(2) and a = Suc.prems(3)
  note N = arg_node [OF I a]
  let ?P = "op_post s (LEVEL s r) (restrict_q (lit s V) (sem s r))"
  have V: "arg s V" "2 \<le> V" "V < 2 ^ 28" and T: "in_stable (bddvarnum s) (lit s V) (ops s)"
    and id: "miscid (ops s) = V * 8 + 1"
    using C restrict_tag by (simp_all add: restrict_ctx_def)
  let ?i = "BddCache_lookup (misccache (caches s)) (RESTRHASH r (miscid (ops s)))"
  let ?e = "table (misccache (caches s)) ?i"
  let ?hit = "BddCache_is_valid (misccache (caches s)) ?i \<and> c_a ?e = r \<and> c_c ?e = miscid (ops s)"
  let ?step = "if INSVARSET s (LEVEL s r) then
             if quantvarset (ops s) (LEVEL s r) > 0 then restrict_rec k (HIGH s r) s
             else restrict_rec k (LOW s r) s
           else both (\<lambda>s. restrict_rec k (LOW s r) s) (\<lambda>s. restrict_rec k (HIGH s r) s)
                  (\<lambda>lo hi s. bdd_makenode (LEVEL s r) lo hi s) s"
  let ?rest = "bnd ?step (\<lambda>res s. ret res (store misccache_update
              (\<lambda>e. e\<lparr>c_a := r, c_c := miscid (ops s), c_res := res\<rparr>) ?i s))"
  have eq: "restrict_rec (Suc k) r s =
      (if r < 2 \<or> LEVEL s r > quantlast (ops s) then ret r s else if ?hit then ret (c_res ?e) s else ?rest)"
    unfolding restrict_rec.simps Let_def ISCONST_def
      lookup_eq [where sel = misccache and s = s, OF binv_tables(6) [OF I]] ..
  consider (early) "r < 2 \<or> LEVEL s r > quantlast (ops s)" "restrict_rec (Suc k) r s = ret r s"
    | (hit) ?hit "restrict_rec (Suc k) r s = ret (c_res ?e) s"
    | (miss) "\<not> r < 2" "restrict_rec (Suc k) r s = ?rest"
    unfolding eq by (cases "r < 2 \<or> LEVEL s r > quantlast (ops s)"; cases ?hit) auto
  then show ?case
  proof cases
    case early
    have "v < LEVEL s r" if l: "lit s V v b" for v b
    proof -
      have "v \<le> quantlast (ops s)" using T l unfolding in_stable_def by blast
      moreover have "v < bddvarnum s"
        using lit_levels [OF binvD(2,3) [OF I], of V] V(1) l by (auto simp: arg_def)
      ultimately show ?thesis using early(1) N(3) by auto
    qed
    then show ?thesis
      unfolding early(2) runs_ret by (intro post_node [OF I N(13)]) (simp_all add: restrict_q_below [OF I N(13)])
  next
    case hit
    then have "misc_entry s ?e" using hits(5) [OF I] by blast
    from misc_restrictD [OF this _ V(2,3)] have "?P (c_res ?e) s"
      using hit(1) id I by (simp add: fr.post_def)
    then show ?thesis unfolding hit(2) by simp
  next
    case miss
    have r2: "2 \<le> r" using miss(1) by simp
    have L: "0 \<le> LEVEL s r" "LEVEL s r < bddvarnum s" using N(1,5) r2 by simp_all
    let ?q = "quantvarset (ops s) (LEVEL s r)" and ?id = "quantvarsetID (ops s)"
    have tab: "(?q = ?id) = lit s V (LEVEL s r) True" "(?q = - ?id) = lit s V (LEVEL s r) False" "0 < ?id"
      using T L by (auto simp: in_stable_def)
    note Q = restrict_q_node [OF I a r2, of "lit s V"]
    obtain d where d: "dep s r = Suc d" using N(10) r2 by (cases "dep s r") auto
    have lo: "runs (restrict_rec k (LOW s r) s)
        (op_post s (LEVEL s (LOW s r)) (restrict_q (lit s V) (sem s (LOW s r))))"
      using N(6,10) r2 Suc.prems d by (intro Suc.IH [OF I C]) (auto intro: room_mono)
    have hi: "runs (restrict_rec k (HIGH s1 r) s1)
          (op_post s1 (LEVEL s (HIGH s r)) (restrict_q (lit s V) (sem s (HIGH s r))))"
      if s1: "binv s1" "ext s s1" "room s1 d" for s1
    proof -
      note A = arg_later [OF s1(2) I a] and H = arg_later [OF s1(2) I N(7) [OF r2]]
      have "runs (restrict_rec k (HIGH s r) s1)
          (op_post s1 (LEVEL s1 (HIGH s r)) (restrict_q (lit s1 V) (sem s1 (HIGH s r))))"
        using H(1,6) N(11) r2 Suc.prems(4) d s1(3)
        by (intro Suc.IH [OF s1(1) restrict_ctx_ext [OF s1(2) I C]]) (auto intro: room_mono)
      then show ?thesis using A H sets_later [OF s1(2) I V(1)] by simp
    qed
    have "runs ?step ?P"
    proof -
      consider "lit s V (LEVEL s r) True" | "\<not> lit s V (LEVEL s r) True" "lit s V (LEVEL s r) False"
        | "\<not> lit s V (LEVEL s r) True" "\<not> lit s V (LEVEL s r) False" by blast
      then show ?thesis
      proof cases
        case 1
        then have "?step = restrict_rec k (HIGH s r) s" using tab by (simp add: INSVARSET_def)
        moreover have "room s d" using Suc.prems(5) d by (auto intro: room_mono)
        then have "runs (restrict_rec k (HIGH s r) s)
            (op_post s (LEVEL s (HIGH s r)) (restrict_q (lit s V) (sem s (HIGH s r))))"
          using hi [OF I _] by simp
        ultimately show ?thesis using Q(1) [OF 1] N(9) [OF r2] by (auto elim!: runs_conseq intro: post_weaken)
      next
        case 2
        then have "?step = restrict_rec k (LOW s r) s" using tab by (auto simp: INSVARSET_def)
        then show ?thesis using lo Q(2) [OF 2] N(8) [OF r2] by (auto elim!: runs_conseq intro: post_weaken)
      next
        case 3
        then have "\<bar>?q\<bar> \<noteq> ?id" using tab by linarith
        then have "?step = both (\<lambda>s. restrict_rec k (LOW s r) s) (\<lambda>s. restrict_rec k (HIGH s r) s)
                  (\<lambda>lo hi s. bdd_makenode (LEVEL s r) lo hi s) s" by (simp add: INSVARSET_def)
        moreover have "runs \<dots> ?P"
          by (rule fr.shannon [where d = d and f = "\<lambda>s. restrict_rec k (LOW s r) s" and
                g = "\<lambda>s. restrict_rec k (HIGH s r) s", OF I _ a r2 lo N(8) [OF r2] hi N(9) [OF r2]])
            (use Suc.prems(5) d Q(3) [OF 3] in simp_all)
        ultimately show ?thesis by simp
      qed
    qed
    then show ?thesis
      unfolding miss(2)
    proof (rule runs_bnd)
      fix q t assume P: "?P q t"
      show "runs (ret q (store misccache_update
          (\<lambda>e. e\<lparr>c_a := r, c_c := miscid (ops t), c_res := q\<rparr>) ?i t)) ?P"
        using restrict_store [OF P I a C] by simp
    qed
  qed
qed

lemma bdd_restrict_spec:
  assumes S: "session s" and a: "handle s r" "handle s V" and V: "V < 2 ^ 28"
    and id: "quantvarsetID (ops s) < INT_MAX"
  shows "runs (bdd_restrict r V s) (\<lambda>q t. if V < 2 then q = r \<and> t = s
    else ends s (LEVEL s r) (restrict_q (lit s V) (sem s r)) q t)"
proof (cases "V < 2")
  case True
  then show ?thesis by (simp add: bdd_restrict_def CHECKa_ok [OF S] a)
next
  case False
  then have V2: "2 \<le> V" by simp
  note I = sessionD(1) [OF S]
  have nV: "node_id s V" using a(2) by (simp add: handle_iff)
  from varset2svartable_spec [OF I sessionD(5) [OF S] id nV V2] obtain g where
    g: "varset2svartable V s = ret 0 (set_ops (\<lambda>_. g) s)" "in_stable (bddvarnum s) (lit s V) g"
      "quant_table (bddvarnum s) g" "cacheratio g = cacheratio (ops s)" by blast
  let ?h = "\<lambda>g. g\<lparr>miscid := tagged V 3 CACHEID_RESTRICT\<rparr>"
  let ?s = "set_ops (\<lambda>_. ?h g) (INITREF s)"
  have "runs (again (with_table (varset2svartable V) ?h) (\<lambda>s. restrict_rec (op_fuel s) r s) s)
      (ends s (LEVEL s r) (restrict_q (lit s V) (sem s r)))"
  proof (rule table_spec [where f = "varset2svartable V" and h = ?h and g = g and s = s, OF S g(1)])
    have "restrict_ctx V ?s"
      using V V2 g(2) handle_opened [OF a(2)] by (simp add: restrict_ctx_def opened_core in_stable_def)
    then have "runs (restrict_rec (op_fuel ?s) r ?s)
        (op_post ?s (LEVEL ?s r) (restrict_q (lit ?s V) (sem ?s r)))"
      using dep_le [OF S a(1)] room_mono [OF session_room [OF S]]
      by (intro restrict_rec_spec binv_opened [OF I] handle_opened [OF a(1)]) auto
    then show "runs (restrict_rec (op_fuel ?s) r ?s)
        (op_post ?s (LEVEL s r) (restrict_q (lit s V) (sem s r)))"
      by (simp add: opened_core)
  qed (use g in \<open>simp_all add: quant_table_def\<close>)
  then show ?thesis using False by (simp add: bdd_restrict_def CHECKa_ok [OF S] a)
qed

end
