(* ===== verification/OpQuant.thy ===== *)
theory OpQuant
  imports OpRestrict
begin

text \<open>
  Correctness of quantification, alone (\<open>quant_rec\<close>) and after a binary operator
  (\<open>appquant_rec\<close>), for the existential and the universal quantifier. For the unique quantifier
  only the safety part is stated (the result is a valid node and nothing else changes).
\<close>

section \<open>Quantifying over levels\<close>

definition indep :: "int \<Rightarrow> ((int \<Rightarrow> bool) \<Rightarrow> bool) \<Rightarrow> bool" where
  "indep v F = (\<forall>e b. F (e(v := b)) = F e)"

definition shannon_at :: "int \<Rightarrow> ((int \<Rightarrow> bool) \<Rightarrow> bool) \<Rightarrow> ((int \<Rightarrow> bool) \<Rightarrow> bool) \<Rightarrow>
    ((int \<Rightarrow> bool) \<Rightarrow> bool) \<Rightarrow> bool" where
  "shannon_at v G G0 G1 =
     (indep v G0 \<and> indep v G1 \<and> (\<forall>e. G e = (if e v then G1 e else G0 e)))"

lemma ex_q_in:
  assumes S: "shannon_at v G G0 G1" and v: "v \<in> V"
  shows "ex_q V G e = (ex_q V G0 e \<or> ex_q V G1 e)"
proof
  assume "ex_q V G e"
  then show "ex_q V G0 e \<or> ex_q V G1 e" using S by (auto simp: ex_q_def shannon_at_def split: if_splits)
next
  have "\<exists>e''. (\<forall>u. u \<notin> V \<longrightarrow> e'' u = e u) \<and> G e''"
    if e': "\<forall>u. u \<notin> V \<longrightarrow> e' u = e u" "if b then G1 e' else G0 e'" for e' b
    using S v e' by (intro exI [of _ "e'(v := b)"]) (auto simp: shannon_at_def indep_def split: if_splits)
  from this [where b = False] this [where b = True]
  show "ex_q V G0 e \<or> ex_q V G1 e \<Longrightarrow> ex_q V G e" unfolding ex_q_def by auto
qed

lemma ex_q_out:
  assumes S: "shannon_at v G G0 G1" and v: "v \<notin> V"
  shows "ex_q V G e = (if e v then ex_q V G1 e else ex_q V G0 e)"
  using S v by (auto simp: ex_q_def shannon_at_def)

text \<open>The universal quantifier is the dual one.\<close>

lemma all_q_dual: "all_q V G e = (\<not> ex_q V (\<lambda>x. \<not> G x) e)"
  by (auto simp: all_q_def ex_q_def)

lemma shannon_at_not: "shannon_at v G G0 G1 \<Longrightarrow> shannon_at v (\<lambda>x. \<not> G x) (\<lambda>x. \<not> G0 x) (\<lambda>x. \<not> G1 x)"
  by (auto simp: shannon_at_def indep_def)

text \<open>A function that does not depend on the set is its own quantification.\<close>

lemma quant_sem_indep:
  assumes "\<And>e e'. (\<And>v. v \<notin> V \<Longrightarrow> e' v = e v) \<Longrightarrow> G e' = G e"
  shows "quant_sem q V G G"
proof -
  have "ex_q V G e = G e" for e unfolding ex_q_def using assms [of _ e] by blast
  moreover have "all_q V G e = G e" for e unfolding all_q_def using assms [of _ e] by blast
  ultimately show ?thesis by (simp add: quant_sem_def)
qed

text \<open>The operator that joins the branches.\<close>

definition join_op :: "int \<Rightarrow> int" where
  "join_op q = (if q = 0 then bddop_or else if q = 1 then bddop_and else bddop_xor)"

lemma join_op_range: "0 \<le> join_op q" "join_op q \<le> bddop_invimp"
  by (simp_all add: join_op_def bddop_defs)

lemma quant_sem_join:
  assumes S: "shannon_at v G G0 G1" and v: "v \<in> V"
    and Q: "quant_sem q V G0 F0" "quant_sem q V G1 F1"
  shows "quant_sem q V G (\<lambda>e. bool_op (join_op q) (F0 e) (F1 e))"
  using Q ex_q_in [OF S v] ex_q_in [OF shannon_at_not [OF S] v]
  by (auto simp: quant_sem_def all_q_dual join_op_def bool_op_def bddop_defs)

lemma quant_sem_node:
  assumes S: "shannon_at v G G0 G1" and v: "v \<notin> V"
    and Q: "quant_sem q V G0 F0" "quant_sem q V G1 F1"
  shows "quant_sem q V G (\<lambda>e. if e v then F1 e else F0 e)"
  using Q ex_q_out [OF S v] ex_q_out [OF shannon_at_not [OF S] v]
  by (auto simp: quant_sem_def all_q_dual)

lemma quant_sem_cong: "(\<And>e. G e = H e) \<Longrightarrow> quant_sem q V G F \<Longrightarrow> quant_sem q V H F"
  by (simp add: quant_sem_def ex_q_def all_q_def)

section \<open>Cache tags\<close>

lemma s32_small: "0 \<le> x \<Longrightarrow> x < 2 ^ 31 \<Longrightarrow> s32 x = x"
  by (simp add: s32_def)

lemma tags:
  assumes V: "0 \<le> V" "V < 2 ^ 22" and q: "q \<in> {0, 1, 2}" and op: "0 \<le> op" "op \<le> bddop_invimp"
  shows "quant_tag q V = V * 8 + q" "appex_tag q op V = V * 64 + op * 4 + q"
    "appquant_tag q op V = V * 512 + op * 32 + q * 9 + 3"
proof -
  have qr: "0 \<le> q" "q \<le> 2" using q by auto
  have o: "op \<le> 9" using op(2) by (simp add: bddop_defs)
  show "quant_tag q V = V * 8 + q" using V qr by (simp add: quant_tag_def tagged_def s32_small)
  show a: "appex_tag q op V = V * 64 + op * 4 + q"
    using V qr op(1) o by (simp add: appex_tag_def tagged_def s32_small)
  show "appquant_tag q op V = V * 512 + op * 32 + q * 9 + 3"
    unfolding appquant_tag_def a tagged_def using V qr op(1) o by (subst s32_small) simp_all
qed

lemma split_digits:
  fixes a b r :: int
  assumes "0 \<le> r" "r < b"
  shows "(a * b + r) div b = a" "(a * b + r) mod b = r"
  using assms by simp_all

text \<open>A tag of the quantifier cache determines the quantifier and the variable set.\<close>

lemma quant_key_digits:
  assumes V: "0 \<le> V" "V < 2 ^ 22" and q: "q \<in> {0, 1, 2}" and k: "quant_key q V c"
  shows "c mod 8 = q \<and> c div 8 = V \<or> c mod 8 = q + 3 \<and> c div 512 = V"
proof -
  have qr: "0 \<le> q" "q \<le> 2" using q by auto
  from k consider "c = V * 8 + q" | op where "0 \<le> op" "op \<le> 9" "c = V * 512 + op * 32 + q * 9 + 3"
    using tags(1) [OF V q, of 0] tags(3) [OF V q] by (auto simp: quant_key_def bddop_defs)
  then show ?thesis
  proof cases
    case 1
    then show ?thesis using split_digits [of q 8 V] qr by simp
  next
    case (2 op)
    have c: "c = (V * 64 + op * 4 + q) * 8 + (q + 3)" "c = V * 512 + (op * 32 + q * 9 + 3)"
      using 2(3) by simp_all
    have "c mod 8 = q + 3" unfolding c(1) by (rule split_digits) (use qr in simp_all)
    moreover have "c div 512 = V" unfolding c(2) by (rule split_digits) (use qr 2(1,2) in simp_all)
    ultimately show ?thesis by simp
  qed
qed

lemma quant_key_inject:
  assumes V: "0 \<le> V" "V < 2 ^ 22" and q: "q \<in> {0, 1, 2}" and k: "quant_key q V c"
    and V': "0 \<le> V'" "V' < 2 ^ 22" and q': "q' \<in> {0, 1, 2}" and k': "quant_key q' V' c"
  shows "q' = q \<and> V' = V"
proof -
  have "0 \<le> q" "q \<le> 2" "0 \<le> q'" "q' \<le> 2" using q q' by auto
  then show ?thesis using quant_key_digits [OF V q k] quant_key_digits [OF V' q' k'] by auto
qed

lemma appex_tag_inject:
  assumes V: "0 \<le> V" "V < 2 ^ 22" and q: "q \<in> {0, 1, 2}" and op: "0 \<le> op" "op \<le> bddop_invimp"
    and V': "0 \<le> V'" "V' < 2 ^ 22" and q': "q' \<in> {0, 1, 2}" and op': "0 \<le> op'" "op' \<le> bddop_invimp"
    and k: "appex_tag q op V = appex_tag q' op' V'"
  shows "q' = q \<and> V' = V \<and> op' = op"
proof -
  have r: "0 \<le> q" "q \<le> 2" "0 \<le> q'" "q' \<le> 2" using q q' by auto
  have o: "op \<le> 9" "op' \<le> 9" using op op' by (simp_all add: bddop_defs)
  have "V * 64 + (op * 4 + q) = V' * 64 + (op' * 4 + q')"
    using k tags(2) [OF V q op] tags(2) [OF V' q' op'] by simp
  then have "V = V'" "op * 4 + q = op' * 4 + q'"
    using split_digits [of "op * 4 + q" 64 V] split_digits [of "op' * 4 + q'" 64 V'] r o op(1) op'(1)
    by auto
  then show ?thesis using split_digits [of q 4 op] split_digits [of q' 4 op'] r by auto
qed

section \<open>Quantification\<close>

definition quant_ctx :: "int \<Rightarrow> int \<Rightarrow> bdd_state \<Rightarrow> bool" where
  "quant_ctx q V s =
     (arg s V \<and> 2 \<le> V \<and> V < 2 ^ 22 \<and> q \<in> {0, 1, 2} \<and> quant_key q V (quantid (ops s)) \<and>
      applyop (ops s) = join_op q \<and> in_table (bddvarnum s) (vset s V) (ops s))"

lemma quant_ctx_ext: "ext s t \<Longrightarrow> binv s \<Longrightarrow> quant_ctx q V s \<Longrightarrow> quant_ctx q V t"
  using sets_later [of s t V] arg_later(1) [of s t V] ext_stat [of s t] by (simp add: quant_ctx_def)

lemma post_cong_err:
  "op_post s L G r t \<Longrightarrow> (bdderrorcond s = 0 \<Longrightarrow> \<forall>e. G e = F e) \<Longrightarrow> op_post s L F r t"
  by (auto simp: fr.post_def res_ok_def ext_def)

text \<open>The functions of the children of a node do not depend on its level.\<close>

lemma indep_sem: "binv s \<Longrightarrow> node_id s n \<Longrightarrow> v < LEVEL s n \<Longrightarrow> indep v (sem s n)"
  by (simp add: indep_def sem_upd [OF binvD(2,3)])

lemma shannon_at_node:
  assumes I: "binv s" and n: "arg s n" "2 \<le> n"
  shows "shannon_at (LEVEL s n) (sem s n) (sem s (LOW s n)) (sem s (HIGH s n))"
proof -
  note N = arg_node [OF I n(1)]
  have "node_id s (LOW s n)" "node_id s (HIGH s n)" using N(6,7) n(2) by (auto simp: arg_def)
  then show ?thesis
    using N(8,9) [OF n(2)] N(12) [OF n(2)] indep_sem [OF I] by (simp add: shannon_at_def)
qed

text \<open>The last step of both recursions, at a node \<open>x\<close> of the level.\<close>

lemma join_spec:
  assumes I: "binv s" and C: "quant_ctx q V s" and x: "arg s x" "2 \<le> x" and d: "dep s x = Suc d"
    and S: "shannon_at (LEVEL s x) G G0 G1"
    and Q: "quant_sem q (vset s V) G0 F0" "quant_sem q (vset s V) G1 F1"
    and s2: "binv s2" "ext s s2" "room s2 d" and lh: "arg s2 lo" "arg s2 hi"
    and r: "res_ok s2 (LEVEL s x + 1) F0 lo" "res_ok s2 (LEVEL s x + 1) F1 hi"
  shows "runs (join_or_node x lo hi s2) (fr.posts s2 (LEVEL s x) (quant_sem q (vset s V) G))"
proof -
  note A = arg_later [OF s2(2) I x(1)] and E = ext_stat [OF s2(2)]
  have lv: "0 \<le> LEVEL s x" "LEVEL s x < bddvarnum s" using arg_node(1,5) [OF I x(1)] x(2) by simp_all
  have in_set: "INVARSET s2 (LEVEL s2 x) = (LEVEL s x \<in> vset s V)"
    using C lv A(2) E(2) by (simp add: INVARSET_def quant_ctx_def in_table_def)
  show ?thesis
  proof (cases "LEVEL s x \<in> vset s V")
    case True
    have op: "applyop (ops s2) = join_op q" using C E(2) by (simp add: quant_ctx_def)
    have lt: "LEVEL s x < LEVEL s2 lo" "LEVEL s x < LEVEL s2 hi" using r by (simp_all add: res_ok_def)
    have dl: "dep2 s2 lo hi \<le> d"
      using lt d E(1) lv unfolding dep2_top by (auto simp: top2_def dep_def)
    have "runs (apply_rec (op_fuel s2) lo hi s2)
        (op_post s2 (top2 s2 lo hi) (apply_sem (join_op q) s2 lo hi))"
      using lh s2(3) dl d E(1) lv
      by (intro apply_rec_spec [OF s2(1) lh join_op_range op]) (auto simp: op_fuel_def dep_def intro: room_mono)
    then have "runs (apply_rec (op_fuel s2) lo hi s2)
        (op_post s2 (LEVEL s x) (\<lambda>e. bool_op (join_op q) (F0 e) (F1 e)))"
      using lt r
      by (elim runs_conseq post_cong_err [OF post_weaken]) (auto simp: top2_def apply_sem_def res_ok_def)
    then show ?thesis
      using True quant_sem_join [OF S True Q]
      by (auto simp: join_or_node_def in_set elim!: runs_conseq intro: postsI)
  next
    case False
    have "runs (bdd_makenode (LEVEL s2 x) lo hi s2)
        (op_post s2 (LEVEL s x) (\<lambda>e. if e (LEVEL s x) then F1 e else F0 e))"
      by (rule fr.shannon_node [OF I x _ _ refl s2(1,2) lh r]) simp_all
    then show ?thesis
      using False quant_sem_node [OF S False Q]
      by (auto simp: join_or_node_def in_set elim!: runs_conseq intro: postsI)
  qed
qed

text \<open>Below the last quantified level nothing is to be done.\<close>

lemma quant_below:
  assumes I: "binv s" and C: "quant_ctx q V s" and n: "node_id s n"
    and lv: "n < 2 \<or> quantlast (ops s) < LEVEL s n"
  shows "quant_sem q (vset s V) (sem s n) (sem s n)"
proof (rule quant_sem_indep)
  have "v < LEVEL s n" if v: "v \<in> vset s V" for v
  proof -
    have "v \<le> quantlast (ops s)" using C v by (simp add: quant_ctx_def in_table_def)
    moreover have "v < bddvarnum s"
      using vset_levels [OF binvD(2,3) [OF I], of V v] C v by (auto simp: quant_ctx_def arg_def)
    ultimately show ?thesis using lv bdd_node(3) [OF binvD(2,3) [OF I] n] by auto
  qed
  then show "sem s n e' = sem s n e" if "\<And>v. v \<notin> vset s V \<Longrightarrow> e' v = e v" for e e'
    by (intro sem_levels [OF binvD(2,3) [OF I] n]) (use that in fastforce)
qed

lemma quant_entryD:
  assumes e: "quant_entry s e" and C: "quant_ctx q V s" and c: "c_c e = quantid (ops s)"
  shows "\<exists>F. res_ok s (LEVEL s (c_a e)) F (c_res e) \<and> quant_sem q (vset s V) (sem s (c_a e)) F"
proof -
  from e obtain q' V' F where F: "2 \<le> V'" "V' < 2 ^ 22" "q' \<in> {0, 1, 2}" "quant_key q' V' (c_c e)"
    "res_ok s (LEVEL s (c_a e)) F (c_res e)" "quant_sem q' (vset s V') (sem s (c_a e)) F"
    unfolding quant_entry_def by blast
  have "q' = q \<and> V' = V"
    using C c F(1-4) by (intro quant_key_inject [of V q "c_c e" V' q']) (auto simp: quant_ctx_def)
  then show ?thesis using F(5,6) by blast
qed

lemma quant_store:
  assumes P: "fr.posts s (LEVEL s r) (quant_sem q (vset s V) (sem s r)) res t"
    and I: "binv s" and r: "arg s r" and C: "quant_ctx q V s"
  shows "fr.posts s (LEVEL s r) (quant_sem q (vset s V) (sem s r)) res
    (store quantcache_update (\<lambda>e. e\<lparr>c_a := r, c_c := quantid (ops t), c_res := res\<rparr>) i t)"
proof -
  from P obtain F where F: "quant_sem q (vset s V) (sem s r) F" "op_post s (LEVEL s r) F res t"
    by (auto simp: fr.posts_def)
  then have t: "binv t" "ext s t" "res_ok t (LEVEL s r) F res" by (simp_all add: fr.post_def)
  have V: "arg s V" using C by (simp add: quant_ctx_def)
  note A = arg_later [OF t(2) I r] and B = arg_later [OF t(2) I V] and S = sets_later [OF t(2) I V]
  have C': "quant_ctx q V t" by (rule quant_ctx_ext [OF t(2) I C])
  have "quant_entry t (written (\<lambda>e. e\<lparr>c_a := r, c_c := quantid (ops t), c_res := res\<rparr>) i (quantcache (caches t)))"
    unfolding quant_entry_def
  proof (intro conjI exI)
    show "quant_sem q (vset t V) (sem t (c_a (written (\<lambda>e. e\<lparr>c_a := r, c_c := quantid (ops t), c_res := res\<rparr>)
        i (quantcache (caches t))))) F"
      using F(1) A(5) S(1) by (simp add: written_def)
  qed (use C' A t(3) B(1) in \<open>simp_all add: written_def quant_ctx_def arg_def\<close>)
  then show ?thesis by (rule posts_store [OF P stores(3) [OF fr.invD(2) [OF t(1)]]])
qed

lemma quant_rec_spec:
  "binv s \<Longrightarrow> quant_ctx q V s \<Longrightarrow> arg s r \<Longrightarrow> dep s r < k \<Longrightarrow> room s (dep s r) \<Longrightarrow>
   runs (quant_rec k r s) (fr.posts s (LEVEL s r) (quant_sem q (vset s V) (sem s r)))"
proof (induction k arbitrary: r s)
  case 0
  then show ?case by simp
next
  case (Suc k)
  note I = Suc.prems(1) and C = Suc.prems(2) and a = Suc.prems(3)
  note N = arg_node [OF I a]
  let ?P = "fr.posts s (LEVEL s r) (quant_sem q (vset s V) (sem s r))"
  have V: "arg s V" using C by (simp add: quant_ctx_def)
  let ?i = "BddCache_lookup (quantcache (caches s)) (QUANTHASH r)"
  let ?e = "table (quantcache (caches s)) ?i"
  let ?hit = "BddCache_is_valid (quantcache (caches s)) ?i \<and> c_a ?e = r \<and> c_c ?e = quantid (ops s)"
  let ?step = "both (\<lambda>s. quant_rec k (LOW s r) s) (\<lambda>s. quant_rec k (HIGH s r) s) (join_or_node r) s"
  let ?rest = "bnd ?step (\<lambda>res s. ret res (store quantcache_update
              (\<lambda>e. e\<lparr>c_a := r, c_c := quantid (ops s), c_res := res\<rparr>) ?i s))"
  have eq: "quant_rec (Suc k) r s =
      (if r < 2 \<or> LEVEL s r > quantlast (ops s) then ret r s else if ?hit then ret (c_res ?e) s else ?rest)"
    unfolding quant_rec.simps Let_def
      lookup_eq [where sel = quantcache and s = s, OF binv_tables(3) [OF I]] ..
  consider (early) "r < 2 \<or> LEVEL s r > quantlast (ops s)" "quant_rec (Suc k) r s = ret r s"
    | (hit) ?hit "quant_rec (Suc k) r s = ret (c_res ?e) s"
    | (miss) "\<not> r < 2" "quant_rec (Suc k) r s = ?rest"
    unfolding eq by (cases "r < 2 \<or> LEVEL s r > quantlast (ops s)"; cases ?hit) auto
  then show ?case
  proof cases
    case early
    have "quant_sem q (vset s V) (sem s r) (sem s r)" by (rule quant_below [OF I C N(13) early(1)])
    moreover have "op_post s (LEVEL s r) (sem s r) r s" by (rule post_node [OF I N(13)]) simp_all
    ultimately show ?thesis unfolding early(2) runs_ret fr.posts_def by blast
  next
    case hit
    then have "quant_entry s ?e" using hits(3) [OF I] by blast
    from quant_entryD [OF this C] hit(1) obtain F where
      F: "res_ok s (LEVEL s r) F (c_res ?e)" "quant_sem q (vset s V) (sem s r) F" by auto
    then have "?P (c_res ?e) s" using I by (intro postsI [where F = F]) (simp_all add: fr.post_def)
    then show ?thesis unfolding hit(2) by simp
  next
    case miss
    have r2: "2 \<le> r" using miss(1) by simp
    obtain d where d: "dep s r = Suc d" using N(10) r2 by (cases "dep s r") auto
    have rec: "runs (quant_rec k c s1) (fr.posts s1 (LEVEL s r + 1) (quant_sem q (vset s V) (sem s c)))"
      if s1: "binv s1" "ext s s1" "room s1 d" and c: "arg s c" "dep s c < dep s r" "LEVEL s r < LEVEL s c"
      for s1 c
    proof -
      note A = arg_later [OF s1(2) I c(1)]
      have "runs (quant_rec k c s1) (fr.posts s1 (LEVEL s1 c) (quant_sem q (vset s1 V) (sem s1 c)))"
        using A(1,6) c(2) Suc.prems(4) d s1(3)
        by (intro Suc.IH [OF s1(1) quant_ctx_ext [OF s1(2) I C]]) (auto intro: room_mono)
      then show ?thesis using A c(3) sets_later [OF s1(2) I V] by (auto elim!: runs_conseq intro: posts_weaken)
    qed
    have "runs ?step ?P"
    proof (rule fr.both_posts [where d = d, OF I])
      show "room s (Suc d)" using Suc.prems(5) d by simp
      show "runs (quant_rec k (LOW s r) s)
          (fr.posts s (LEVEL s r + 1) (quant_sem q (vset s V) (sem s (LOW s r))))"
        using N r2 Suc.prems(5) d by (intro rec [OF I]) (auto intro: room_mono)
      show "runs (quant_rec k (HIGH s1 r) s1)
          (fr.posts s1 (LEVEL s r + 1) (quant_sem q (vset s V) (sem s (HIGH s r))))"
        if s1: "binv s1" "ext s s1" "room s1 d" for s1
        unfolding arg_later(4) [OF s1(2) I a] using N r2 by (intro rec [OF s1]) simp_all
      show "runs (join_or_node r lo hi s2) (fr.posts s2 (LEVEL s r) (quant_sem q (vset s V) (sem s r)))"
        if "binv s2" "ext s s2" "room s2 d" "arg s2 lo" "arg s2 hi"
          "quant_sem q (vset s V) (sem s (LOW s r)) F0" "quant_sem q (vset s V) (sem s (HIGH s r)) F1"
          "res_ok s2 (LEVEL s r + 1) F0 lo" "res_ok s2 (LEVEL s r + 1) F1 hi" for s2 lo hi F0 F1
        by (rule join_spec [OF I C a r2 d shannon_at_node [OF I a r2] that(6,7,1-5,8,9)])
    qed
    then show ?thesis
      unfolding miss(2)
    proof (rule runs_bnd)
      fix res t assume P: "?P res t"
      show "runs (ret res (store quantcache_update
          (\<lambda>e. e\<lparr>c_a := r, c_c := quantid (ops t), c_res := res\<rparr>) ?i t)) ?P"
        using quant_store [OF P I a C] by simp
    qed
  qed
qed

section \<open>A binary operator and quantification\<close>

definition app_ctx :: "int \<Rightarrow> int \<Rightarrow> int \<Rightarrow> bdd_state \<Rightarrow> bool" where
  "app_ctx q op V s =
     (quant_ctx q V s \<and> 0 \<le> op \<and> op \<le> bddop_invimp \<and> appexop (ops s) = op \<and>
      appexid (ops s) = appex_tag q op V)"

lemma app_ctx_ext: "ext s t \<Longrightarrow> binv s \<Longrightarrow> app_ctx q op V s \<Longrightarrow> app_ctx q op V t"
  using quant_ctx_ext [of s t q V] ext_stat [of s t] by (simp add: app_ctx_def)

abbreviation app_post :: "int \<Rightarrow> int \<Rightarrow> int \<Rightarrow> bdd_state \<Rightarrow> int \<Rightarrow> int \<Rightarrow> int \<Rightarrow> bdd_state \<Rightarrow> bool" where
  "app_post q op V s l r \<equiv> fr.posts s (top2 s l r) (quant_sem q (vset s V) (apply_sem op s l r))"

text \<open>The operator is exchanged during \<open>apply_rec\<close> and put back.\<close>

lemma apply_below_spec:
  assumes I: "binv s" and a: "arg s l" "arg s r" and op: "0 \<le> op" "op \<le> bddop_invimp" "appexop (ops s) = op"
    and R: "room s (dep2 s l r)"
  shows "runs (apply_below l r s) (op_post s (top2 s l r) (apply_sem op s l r))"
proof -
  let ?u = "set_ops (\<lambda>g. g\<lparr>applyop := appexop g\<rparr>) s"
  have "same_core s ?u" by simp
  note U = same_core_eqs [OF this]
  have I': "binv ?u" using binv_core [of s ?u] I by simp
  have eq: "top2 ?u l r = top2 s l r" "dep2 ?u l r = dep2 s l r" "apply_sem op ?u l r = apply_sem op s l r"
    by (simp_all add: fun_eq_iff top2_def dep2_def dep_def apply_sem_def U)
  have "dep2 s l r < op_fuel s"
    using arg_node(1) [OF I a(1)] arg_node(1) [OF I a(2)] by (auto simp: dep2_def dep_def op_fuel_def)
  then have "runs (apply_rec (op_fuel ?u) l r ?u) (op_post ?u (top2 ?u l r) (apply_sem op ?u l r))"
    using R op U(13) a by (intro apply_rec_spec [OF I']) (simp_all add: eq, simp add: room_def)
  then show ?thesis
    unfolding apply_below_def Let_def eq
  proof (rule runs_bnd)
    fix res t assume P: "op_post ?u (top2 s l r) (apply_sem op s l r) res t"
    then have t: "binv t" "ext ?u t" "bddrefstack t = bddrefstack s" "res_ok t (top2 s l r) (apply_sem op s l r) res"
      by (simp_all add: fr.post_def)
    let ?t = "set_ops (\<lambda>g. g\<lparr>applyop := applyop (ops s)\<rparr>) t"
    have "ops t = (ops s)\<lparr>applyop := appexop (ops s)\<rparr>" using ext_stat(2) [OF t(2)] by simp
    then have t': "?t = set_ops (\<lambda>_. ops s) t" by (simp add: set_ops_def)
    have "ext s ?t"
      using ext_set_ops [OF t(2), of "ops s"] unfolding t' by (simp add: set_ops_set_ops) (simp add: set_ops_def)
    moreover have "binv ?t" using binv_core [of t ?t] t(1) by simp
    moreover have "res_ok ?t = res_ok t" by (rule same_core_eqs) simp
    ultimately have "op_post s (top2 s l r) (apply_sem op s l r) res ?t" using t(3,4) by (simp add: fr.post_def)
    then show "runs (ret res ?t) (op_post s (top2 s l r) (apply_sem op s l r))" by simp
  qed
qed

lemma appquant_shortcut_sound:
  assumes "\<And>e. S 0 e = False" "\<And>e. S 1 e = True"
  shows "appquant_shortcut op l r = Done x \<Longrightarrow> (x = 0 \<or> x = 1) \<and> (\<forall>e. bool_op op (S l e) (S r e) = S x e)"
    "appquant_shortcut op l r = Quantify x \<Longrightarrow> (x = l \<or> x = r) \<and> (\<forall>e. bool_op op (S l e) (S r e) = S x e)"
  using assms by (auto simp: appquant_shortcut_def bool_op_def bddop_defs split: if_splits)

text \<open>A result that is already quantified, for its own sake.\<close>

lemma app_done:
  assumes I: "binv s" and q: "quant_sem q (vset s V) (sem s x) F"
    and eq: "\<And>e. apply_sem op s l r e = sem s x e"
    and P: "op_post s L F res t" and L: "top2 s l r \<le> L"
  shows "app_post q op V s l r res t"
proof (rule postsI)
  show "op_post s (top2 s l r) F res t" using P L by (rule post_weaken) simp
  show "quant_sem q (vset s V) (apply_sem op s l r) F"
    by (rule quant_sem_cong [OF _ q]) (simp add: eq)
qed

lemma app_const:
  assumes I: "binv s" and C: "quant_ctx q V s" and a: "arg s l" "arg s r" and x: "x = 0 \<or> x = 1"
    and eq: "\<And>e. apply_sem op s l r e = sem s x e"
  shows "app_post q op V s l r x s"
proof (rule app_done [OF I _ eq])
  have n: "node_id s x" using x by (auto simp: node_id_def)
  show "quant_sem q (vset s V) (sem s x) (sem s x)" by (rule quant_below [OF I C n]) (use x in auto)
  show "op_post s (bddvarnum s) (sem s x) x s"
    using x const_level [OF I] by (intro post_node [OF I n]) auto
  show "top2 s l r \<le> bddvarnum s" using arg_node(2) [OF I a(1)] by (simp add: top2_def)
qed

lemma appex_entryD:
  assumes e: "appex_entry s e" and C: "app_ctx q op V s" and c: "c_c e = appexid (ops s)"
  shows "\<exists>F. res_ok s (top2 s (c_a e) (c_b e)) F (c_res e) \<and>
    quant_sem q (vset s V) (apply_sem op s (c_a e) (c_b e)) F"
proof -
  from e obtain q' V' op' F where F: "2 \<le> V'" "V' < 2 ^ 22" "q' \<in> {0, 1, 2}" "0 \<le> op'" "op' \<le> bddop_invimp"
    "c_c e = appex_tag q' op' V'" "res_ok s (top2 s (c_a e) (c_b e)) F (c_res e)"
    "quant_sem q' (vset s V') (apply_sem op' s (c_a e) (c_b e)) F"
    unfolding appex_entry_def top2_def apply_sem_def by blast
  have "q' = q \<and> V' = V \<and> op' = op"
    using C c F(1-6) by (intro appex_tag_inject) (auto simp: app_ctx_def quant_ctx_def)
  then show ?thesis using F(7,8) by blast
qed

lemma appquant_store:
  assumes P: "app_post q op V s l r res t"
    and I: "binv s" and a: "arg s l" "arg s r" and C: "app_ctx q op V s"
  shows "app_post q op V s l r res
    (store appexcache_update (\<lambda>e. e\<lparr>c_a := l, c_b := r, c_c := appexid (ops t), c_res := res\<rparr>) i t)"
proof -
  from P obtain F where F: "quant_sem q (vset s V) (apply_sem op s l r) F" "op_post s (top2 s l r) F res t"
    by (auto simp: fr.posts_def)
  then have t: "binv t" "ext s t" "res_ok t (top2 s l r) F res" by (simp_all add: fr.post_def)
  have V: "arg s V" using C by (simp add: app_ctx_def quant_ctx_def)
  note A = arg_later [OF t(2) I a(1)] and A' = arg_later [OF t(2) I a(2)]
    and B = arg_later [OF t(2) I V] and S = sets_later [OF t(2) I V]
  have C': "app_ctx q op V t" by (rule app_ctx_ext [OF t(2) I C])
  have "appex_entry t (written (\<lambda>e. e\<lparr>c_a := l, c_b := r, c_c := appexid (ops t), c_res := res\<rparr>) i (appexcache (caches t)))"
    unfolding appex_entry_def
  proof (intro conjI exI)
    show "quant_sem q (vset t V) (\<lambda>x. bool_op op
        (sem t (c_a (written (\<lambda>e. e\<lparr>c_a := l, c_b := r, c_c := appexid (ops t), c_res := res\<rparr>) i (appexcache (caches t)))) x)
        (sem t (c_b (written (\<lambda>e. e\<lparr>c_a := l, c_b := r, c_c := appexid (ops t), c_res := res\<rparr>) i (appexcache (caches t)))) x)) F"
      using F(1) A(5) A'(5) S(1) by (simp add: written_def apply_sem_def)
  qed (use C' A A' t(3) B(1) in \<open>simp_all add: written_def app_ctx_def quant_ctx_def arg_def top2_def\<close>)
  then show ?thesis by (rule posts_store [OF P stores(4) [OF fr.invD(2) [OF t(1)]]])
qed

lemma appquant_miss:
  assumes I: "binv s" and C: "app_ctx q op V s" and a: "arg s l" "arg s r" and nc: "\<not> (ISCONST l \<and> ISCONST r)"
    and R: "room s (dep2 s l r)"
    and rec: "\<And>s1 l' r'. binv s1 \<Longrightarrow> app_ctx q op V s1 \<Longrightarrow> arg s1 l' \<Longrightarrow> arg s1 r' \<Longrightarrow>
        dep2 s1 l' r' < dep2 s l r \<Longrightarrow> room s1 (dep2 s1 l' r') \<Longrightarrow>
        runs (m l' r' s1) (app_post q op V s1 l' r')"
  shows "runs (bin_shape m join_or_node l r s) (app_post q op V s l r)"
proof (rule bin_posts [OF I a _ R, where P = "\<lambda>l' r'. quant_sem q (vset s V) (apply_sem op s l' r')"])
  note L = arg_node [OF I a(1)] and Rn = arg_node [OF I a(2)]
  have V: "arg s V" using C by (simp add: app_ctx_def quant_ctx_def)
  show v: "top2 s l r < bddvarnum s" using nc L(2,3) Rn(2,3) unfolding ISCONST_def top2_def by linarith
  show "runs (m l' r' s1) (fr.posts s1 (top2 s l r + 1) (quant_sem q (vset s V) (apply_sem op s l' r')))"
    if s1: "binv s1" "ext s s1" and b: "arg s l'" "arg s r'" "dep2 s l' r' < dep2 s l r"
      "room s1 (dep2 s l r - 1)" "top2 s l r < top2 s l' r'" for s1 l' r'
  proof -
    note A = arg_later [OF s1(2) I b(1)] and B = arg_later [OF s1(2) I b(2)]
    have eq: "top2 s1 l' r' = top2 s l' r'" "dep2 s1 l' r' = dep2 s l' r'"
      "apply_sem op s1 l' r' = apply_sem op s l' r'" "vset s1 V = vset s V"
      using A B sets_later [OF s1(2) I V] by (simp_all add: top2_def dep2_def apply_sem_def)
    have "runs (m l' r' s1) (app_post q op V s1 l' r')"
      using b by (intro rec [OF s1(1) app_ctx_ext [OF s1(2) I C] A(1) B(1)]) (auto simp: eq intro: room_mono)
    then show ?thesis using b(5) by (auto simp: eq elim!: runs_conseq intro: posts_weaken)
  qed
  fix x s2 lo hi F0 F1
  assume x: "x = l \<or> x = r" "LEVEL s x = top2 s l r" "arg s x" "2 \<le> x"
    and s2: "binv s2" "ext s s2" and lh: "arg s2 lo" "arg s2 hi" and R2: "room s2 (dep2 s l r - 1)"
    and Q: "quant_sem q (vset s V) (apply_sem op s (down s (top2 s l r) l False) (down s (top2 s l r) r False)) F0"
      "quant_sem q (vset s V) (apply_sem op s (down s (top2 s l r) l True) (down s (top2 s l r) r True)) F1"
    and res: "res_ok s2 (top2 s l r + 1) F0 lo" "res_ok s2 (top2 s l r + 1) F1 hi"
  have vl: "top2 s l r \<le> LEVEL s l" "top2 s l r \<le> LEVEL s r" by (simp_all add: top2_def)
  note DL = down_facts [OF I a(1) vl(1) v] and DR = down_facts [OF I a(2) vl(2) v]
  have "indep (top2 s l r) (sem s (down s (top2 s l r) l b))" "indep (top2 s l r) (sem s (down s (top2 s l r) r b))" for b
    using DL(1,2) [of b] DR(1,2) [of b] by (auto intro!: indep_sem [OF I] simp: arg_def)
  then have S: "shannon_at (LEVEL s x) (apply_sem op s l r)
      (apply_sem op s (down s (top2 s l r) l False) (down s (top2 s l r) r False))
      (apply_sem op s (down s (top2 s l r) l True) (down s (top2 s l r) r True))"
    using DL(4) DR(4) unfolding shannon_at_def x(2) by (simp add: apply_sem_def indep_def)
  obtain d where d: "dep s x = Suc d" using arg_node(10) [OF I x(3,4)] by (cases "dep s x") auto
  have "dep2 s l r - 1 = d" using x(2) d by (simp add: dep_def dep2_top)
  then have "room s2 d" using R2 by simp
  moreover have "quant_ctx q V s" using C by (simp add: app_ctx_def)
  ultimately show "runs (join_or_node x lo hi s2) (fr.posts s2 (top2 s l r) (quant_sem q (vset s V) (apply_sem op s l r)))"
    using join_spec [OF I _ x(3,4) d S Q s2 _ lh] res unfolding x(2) by blast
qed

lemma appquant_rec_spec:
  "binv s \<Longrightarrow> app_ctx q op V s \<Longrightarrow> arg s l \<Longrightarrow> arg s r \<Longrightarrow> dep2 s l r < k \<Longrightarrow> room s (dep2 s l r) \<Longrightarrow>
   runs (appquant_rec k l r s) (app_post q op V s l r)"
proof (induction k arbitrary: l r s)
  case 0
  then show ?case by simp
next
  case (Suc k)
  note I = Suc.prems(1) and C = Suc.prems(2) and a = Suc.prems(3,4) and R = Suc.prems(6)
  have Q: "quant_ctx q V s" and op: "0 \<le> op" "op \<le> bddop_invimp" "appexop (ops s) = op"
    using C by (simp_all add: app_ctx_def)
  let ?P = "app_post q op V s l r"
  let ?i = "BddCache_lookup (appexcache (caches s)) (APPEXHASH l r op)"
  let ?e = "table (appexcache (caches s)) ?i"
  let ?hit = "BddCache_is_valid (appexcache (caches s)) ?i \<and> c_a ?e = l \<and> c_b ?e = r \<and> c_c ?e = appexid (ops s)"
  let ?rest = "bnd (bin_shape (appquant_rec k) join_or_node l r s) (\<lambda>res s. ret res (store appexcache_update
              (\<lambda>e. e\<lparr>c_a := l, c_b := r, c_c := appexid (ops s), c_res := res\<rparr>) ?i s))"
  let ?below = "LEVEL s l > quantlast (ops s) \<and> LEVEL s r > quantlast (ops s)"
  have eq: "appquant_rec (Suc k) l r s = (case appquant_shortcut op l r of
        Done res \<Rightarrow> ret res s | Quantify x \<Rightarrow> quant_rec (op_fuel s) x s
      | Goon \<Rightarrow> if ISCONST l \<and> ISCONST r then ret (oprres_at op l r) s
               else if ?below then apply_below l r s
               else if ?hit then ret (c_res ?e) s else ?rest)"
    unfolding appquant_rec.simps Let_def bin_shape_def op(3)
      lookup_eq [where sel = appexcache and s = s, OF binv_tables(4) [OF I]]
    by (rule refl)
  note sound = appquant_shortcut_sound [of "sem s" op l r, OF sem_const]
  note L = arg_node [OF I a(1)] and Rn = arg_node [OF I a(2)]
  consider (fin) x where "appquant_shortcut op l r = Done x"
    | (quant) x where "appquant_shortcut op l r = Quantify x"
    | (const) "appquant_shortcut op l r = Goon" "ISCONST l \<and> ISCONST r"
    | (below) "appquant_shortcut op l r = Goon" "\<not> (ISCONST l \<and> ISCONST r)" ?below
    | (hit) ?hit "appquant_rec (Suc k) l r s = ret (c_res ?e) s"
    | (miss) "\<not> (ISCONST l \<and> ISCONST r)" "appquant_rec (Suc k) l r s = ?rest"
    unfolding eq
    by (cases "appquant_shortcut op l r"; cases "ISCONST l \<and> ISCONST r"; cases ?below; cases ?hit) auto
  then show ?case
  proof cases
    case (fin x)
    then have "?P x s" using sound(1) [OF fin] by (intro app_const [OF I Q a]) (auto simp: apply_sem_def)
    then show ?thesis unfolding eq fin by simp
  next
    case (quant x)
    note x = sound(2) [OF quant]
    have ax: "arg s x" using x a by auto
    have dx: "dep s x \<le> dep2 s l r" "top2 s l r \<le> LEVEL s x" using x by (auto simp: dep2_def top2_def)
    have "runs (quant_rec (op_fuel s) x s) (fr.posts s (LEVEL s x) (quant_sem q (vset s V) (sem s x)))"
      using arg_node(1) [OF I ax] room_mono [OF R dx(1)]
      by (intro quant_rec_spec [OF I Q ax]) (simp_all add: dep_def op_fuel_def)
    then show ?thesis
      unfolding eq quant
    proof (simp, elim runs_conseq)
      fix res t assume "fr.posts s (LEVEL s x) (quant_sem q (vset s V) (sem s x)) res t"
      then obtain F where "quant_sem q (vset s V) (sem s x) F" "op_post s (LEVEL s x) F res t"
        by (auto simp: fr.posts_def)
      then show "?P res t"
        using x dx(2) by (intro app_done [OF I]) (auto simp: apply_sem_def)
    qed
  next
    case const
    then have lr: "l = 0 \<or> l = 1" "r = 0 \<or> r = 1" using L(4) Rn(4) by (auto simp: ISCONST_def)
    note o = oprres_sound [OF op(1,2) lr]
    have "?P (oprres_at op l r) s"
      by (rule app_const [OF I Q a]) (use o lr in \<open>auto simp: apply_sem_def\<close>)
    then show ?thesis using const unfolding eq by simp
  next
    case below
    have "quant_sem q (vset s V) (apply_sem op s l r) (apply_sem op s l r)"
    proof (rule quant_sem_indep)
      fix e e' :: "int \<Rightarrow> bool" assume e: "\<And>v. v \<notin> vset s V \<Longrightarrow> e' v = e v"
      have "sem s n e' = sem s n e" if n: "node_id s n" "quantlast (ops s) < LEVEL s n" for n
      proof (rule sem_levels [OF binvD(2,3) [OF I] n(1)])
        fix v assume "LEVEL s n \<le> v"
        then have "v \<notin> vset s V" using Q n(2) by (fastforce simp: quant_ctx_def in_table_def)
        then show "e' v = e v" by (rule e)
      qed
      then show "apply_sem op s l r e' = apply_sem op s l r e" using below L(13) Rn(13) by (simp add: apply_sem_def)
    qed
    then have "runs (apply_below l r s) ?P"
      using apply_below_spec [OF I a op R] by (auto elim!: runs_conseq intro: postsI)
    then show ?thesis using below unfolding eq by auto
  next
    case hit
    then have "appex_entry s ?e" using hits(4) [OF I] by blast
    from appex_entryD [OF this C] hit(1) obtain F where
      F: "res_ok s (top2 s l r) F (c_res ?e)" "quant_sem q (vset s V) (apply_sem op s l r) F" by auto
    then have "?P (c_res ?e) s" using I by (intro postsI [where F = F]) (simp_all add: fr.post_def)
    then show ?thesis unfolding hit(2) by simp
  next
    case miss
    have "runs (bin_shape (appquant_rec k) join_or_node l r s) ?P"
      using Suc.prems(5) by (intro appquant_miss [OF I C a miss(1) R] Suc.IH) simp_all
    then show ?thesis
      unfolding miss(2)
    proof (rule runs_bnd)
      fix res t assume P: "?P res t"
      show "runs (ret res (store appexcache_update
          (\<lambda>e. e\<lparr>c_a := l, c_b := r, c_c := appexid (ops t), c_res := res\<rparr>) ?i t)) ?P"
        using appquant_store [OF P I a C] by simp
    qed
  qed
qed

section \<open>The external functions\<close>

text \<open>\<open>q\<close> is the quantifier, with its operator \<open>join_op q\<close> and its tags.\<close>

lemma quantify_spec:
  assumes S: "session s" and a: "handle s r" "handle s V" and V: "2 \<le> V" "V < 2 ^ 22"
    and id: "quantvarsetID (ops s) < INT_MAX" and q: "q \<in> {0, 1, 2}"
  shows "runs (quantify (join_op q) q r V s)
    (\<lambda>x t. \<exists>F. quant_sem q (vset s V) (sem s r) F \<and> ends s (LEVEL s r) F x t)"
proof -
  note I = sessionD(1) [OF S]
  have nV: "node_id s V" using a(2) by (simp add: handle_iff)
  from varset2vartable_spec [OF I sessionD(5) [OF S] id nV V(1)] obtain g where
    g: "varset2vartable V s = ret 0 (set_ops (\<lambda>_. g) s)" "in_table (bddvarnum s) (vset s V) g"
      "quant_table (bddvarnum s) g" "cacheratio g = cacheratio (ops s)" by blast
  let ?h = "\<lambda>g. g\<lparr>quantid := tagged V 3 q, applyop := join_op q\<rparr>"
  let ?s = "set_ops (\<lambda>_. ?h g) (INITREF s)"
  have "runs (again (with_table (varset2vartable V) ?h) (\<lambda>s. quant_rec (op_fuel s) r s) s)
      (\<lambda>x t. \<exists>F. quant_sem q (vset s V) (sem s r) F \<and> ends s (LEVEL s r) F x t)"
  proof (rule table_posts [where f = "varset2vartable V" and h = ?h and g = g and s = s, OF S g(1)])
    have "quant_ctx q V ?s"
      using V q g(2) handle_opened [OF a(2)]
      by (simp add: quant_ctx_def opened_core in_table_def quant_key_def quant_tag_def)
    then have "runs (quant_rec (op_fuel ?s) r ?s)
        (fr.posts ?s (LEVEL ?s r) (quant_sem q (vset ?s V) (sem ?s r)))"
      using dep_le [OF S a(1)] room_mono [OF session_room [OF S]]
      by (intro quant_rec_spec binv_opened [OF I] handle_opened [OF a(1)]) auto
    then show "runs (quant_rec (op_fuel ?s) r ?s)
        (fr.posts ?s (LEVEL s r) (quant_sem q (vset s V) (sem s r)))"
      by (simp add: opened_core)
  qed (use g in \<open>simp_all add: quant_table_def\<close>)
  then show ?thesis using V(1) by (simp add: quantify_def CHECKa_ok [OF S] a)
qed

lemma appquant_setup_eq:
  "appquant_setup (join_op q) q (q + 3) op V g =
     g\<lparr>applyop := join_op q, appexop := op, appexid := appex_tag q op V, quantid := appquant_tag q op V\<rparr>"
  by (simp add: appquant_setup_def Let_def appex_tag_def appquant_tag_def)

lemma appquant_spec:
  assumes S: "session s" and a: "handle s l" "handle s r" "handle s V" and V: "2 \<le> V" "V < 2 ^ 22"
    and op: "0 \<le> op" "op \<le> bddop_invimp"
    and id: "quantvarsetID (ops s) < INT_MAX" and q: "q \<in> {0, 1, 2}"
  shows "runs (appquant (join_op q) q (q + 3) l r op V s)
    (\<lambda>x t. \<exists>F. quant_sem q (vset s V) (\<lambda>e. bool_op op (sem s l e) (sem s r e)) F \<and> ends s (top2 s l r) F x t)"
proof -
  note I = sessionD(1) [OF S]
  have nV: "node_id s V" using a(3) by (simp add: handle_iff)
  from varset2vartable_spec [OF I sessionD(5) [OF S] id nV V(1)] obtain g where
    g: "varset2vartable V s = ret 0 (set_ops (\<lambda>_. g) s)" "in_table (bddvarnum s) (vset s V) g"
      "quant_table (bddvarnum s) g" "cacheratio g = cacheratio (ops s)" by blast
  let ?h = "appquant_setup (join_op q) q (q + 3) op V"
  let ?s = "set_ops (\<lambda>_. ?h g) (INITREF s)"
  have d: "dep2 s l r \<le> nat (bddvarnum s)" by (rule dep2_le [OF S a(1,2)])
  have "runs (again (with_table (varset2vartable V) ?h) (\<lambda>s. appquant_rec (op_fuel s) l r s) s)
    (\<lambda>x t. \<exists>F. quant_sem q (vset s V) (\<lambda>e. bool_op op (sem s l e) (sem s r e)) F \<and> ends s (top2 s l r) F x t)"
  proof (rule table_posts [where f = "varset2vartable V" and h = ?h and g = g and s = s, OF S g(1)])
    have "app_ctx q op V ?s"
      using V q op g(2) handle_opened [OF a(3)]
      unfolding app_ctx_def quant_ctx_def appquant_setup_eq
      by (auto simp: opened_core in_table_def quant_key_def)
    then have "runs (appquant_rec (op_fuel ?s) l r ?s) (app_post q op V ?s l r)"
      using d room_mono [OF session_room [OF S] d]
      by (intro appquant_rec_spec binv_opened [OF I] handle_opened a(1,2)) auto
    then show "runs (appquant_rec (op_fuel ?s) l r ?s)
        (fr.posts ?s (top2 s l r) (quant_sem q (vset s V) (\<lambda>e. bool_op op (sem s l e) (sem s r e))))"
      by (simp add: opened_core apply_sem_def)
  qed (use g in \<open>simp_all add: quant_table_def appquant_setup_eq\<close>)
  then show ?thesis using V(1) op by (simp add: appquant_def CHECKa_ok [OF S] a)
qed

end
