(* ===== verification/OpCompose.thy ===== *)
theory OpCompose
  imports OpQuant
begin

text \<open>
  Correctness of \<open>bdd_compose\<close>: one variable is replaced by a function, and of
  \<open>bdd_veccompose\<close>: all variables of a pair at once.
\<close>

section \<open>Composition\<close>

definition compose_sem :: "int \<Rightarrow> bdd_state \<Rightarrow> int \<Rightarrow> int \<Rightarrow> (int \<Rightarrow> bool) \<Rightarrow> bool" where
  "compose_sem v s f g = (\<lambda>x. sem s f (x(v := sem s g x)))"

definition compose_ctx :: "int \<Rightarrow> bdd_state \<Rightarrow> bool" where
  "compose_ctx v s = (0 \<le> v \<and> v < bddvarnum s \<and> composelevel (ops s) = v \<and> replaceid (ops s) = v * 4 + 1)"

lemma compose_ctx_ext: "ext s t \<Longrightarrow> compose_ctx v s \<Longrightarrow> compose_ctx v t"
  using ext_stat [of s t] by (simp add: compose_ctx_def)

lemma compose_tag: "0 \<le> v \<Longrightarrow> v \<le> MAXVAR \<Longrightarrow> tagged v 2 CACHEID_COMPOSE = v * 4 + 1"
  by (simp add: tagged_def s32_def cacheid_defs MAXVAR_def)

abbreviation compose_post :: "int \<Rightarrow> bdd_state \<Rightarrow> int \<Rightarrow> int \<Rightarrow> int \<Rightarrow> bdd_state \<Rightarrow> bool" where
  "compose_post v s f g \<equiv> op_post s (top2 s f g) (compose_sem v s f g)"

lemma compose_store:
  assumes P: "compose_post v s f g res t" and I: "binv s" and a: "arg s f" "arg s g" and C: "compose_ctx v s"
  shows "compose_post v s f g res
    (store replacecache_update (\<lambda>e. e\<lparr>c_a := f, c_b := g, c_c := replaceid (ops t), c_res := res\<rparr>) i t)"
proof -
  have t: "binv t" "ext s t" "res_ok t (top2 s f g) (compose_sem v s f g) res"
    using P by (simp_all add: fr.post_def)
  note A = arg_later [OF t(2) I a(1)] and B = arg_later [OF t(2) I a(2)]
  have id: "replaceid (ops t) = v * 4 + 1" using C ext_stat(2) [OF t(2)] by (simp add: compose_ctx_def)
  note d = split_digits [of 1 4 v, simplified]
  have "replace_entry t (written (\<lambda>e. e\<lparr>c_a := f, c_b := g, c_c := replaceid (ops t), c_res := res\<rparr>) i
      (replacecache (caches t)))"
    using t(3) A(1,2,5) B(1,2,5) d
    by (simp add: replace_entry_def compose_entry_def written_def id cacheid_defs
        top2_def compose_sem_def arg_def)
  then show ?thesis by (rule post_store [OF P stores(6) [OF fr.invD(2) [OF t(1)]]])
qed

lemma compose_here:
  assumes I: "binv s" and C: "compose_ctx v s" and a: "arg s f" "arg s g" and v: "LEVEL s f = v"
    and R: "room s (dep2 s f g)"
  shows "runs (ite_rec (op_fuel s) g (HIGH s f) (LOW s f) s) (compose_post v s f g)"
proof -
  note F = arg_node [OF I a(1)]
  have f2: "2 \<le> f" using F(3) v C by (auto simp: compose_ctx_def)
  have top: "top2 s f g \<le> top3 s g (HIGH s f) (LOW s f)" using F(8,9) [OF f2] by (auto simp: top2_def top3_def)
  then have "dep3 s g (HIGH s f) (LOW s f) \<le> dep2 s f g" by (simp add: dep3_def dep2_top)
  moreover have "dep2 s f g < op_fuel s"
    using F(1) arg_node(1) [OF I a(2)] by (auto simp: dep2_def dep_def op_fuel_def)
  ultimately have "runs (ite_rec (op_fuel s) g (HIGH s f) (LOW s f) s)
      (op_post s (top3 s g (HIGH s f) (LOW s f)) (ite_sem s g (HIGH s f) (LOW s f)))"
    using F(6,7) f2 R by (intro ite_rec_spec [OF I a(2)]) (auto intro: room_mono)
  moreover have "ite_sem s g (HIGH s f) (LOW s f) x = compose_sem v s f g x" for x
  proof -
    have "node_id s (LOW s f)" "node_id s (HIGH s f)" using F(6,7) f2 by (auto simp: arg_def)
    then have "sem s (LOW s f) (x(v := b)) = sem s (LOW s f) x" "sem s (HIGH s f) (x(v := b)) = sem s (HIGH s f) x" for b
      using sem_upd [OF binvD(2,3) [OF I]] F(8,9) [OF f2] v by simp_all
    then show ?thesis using F(12) [OF f2, of "x(v := sem s g x)"] v by (simp add: ite_sem_def compose_sem_def)
  qed
  ultimately show ?thesis using top by (auto elim!: runs_conseq intro: post_weaken)
qed

lemma compose_above:
  assumes I: "binv s" and C: "compose_ctx v s" and a: "arg s f" "arg s g" and v: "LEVEL s f < v"
    and R: "room s (dep2 s f g)"
    and rec: "\<And>s1 f' g'. binv s1 \<Longrightarrow> compose_ctx v s1 \<Longrightarrow> arg s1 f' \<Longrightarrow> arg s1 g' \<Longrightarrow>
        dep2 s1 f' g' < dep2 s f g \<Longrightarrow> room s1 (dep2 s1 f' g') \<Longrightarrow> runs (m f' g' s1) (compose_post v s1 f' g')"
  shows "runs (bin_shape m (\<lambda>x lo hi s. bdd_makenode (LEVEL s x) lo hi s) f g s) (compose_post v s f g)"
proof (rule bin_both [OF I a _ R])
  show top: "top2 s f g < bddvarnum s" using v C by (auto simp: top2_def compose_ctx_def min_less_iff_disj)
  show "runs (m f' g' s1) (op_post s1 (top2 s f' g') (compose_sem v s f' g'))"
    if s1: "binv s1" "ext s s1" and b: "arg s f'" "arg s g'" "dep2 s f' g' < dep2 s f g"
      "room s1 (dep2 s f' g')" for s1 f' g'
  proof -
    note A = arg_later [OF s1(2) I b(1)] and B = arg_later [OF s1(2) I b(2)]
    have eq: "top2 s1 f' g' = top2 s f' g'" "dep2 s1 f' g' = dep2 s f' g'"
      "compose_sem v s1 f' g' = compose_sem v s f' g'"
      using A B by (simp_all add: top2_def dep2_def compose_sem_def)
    show ?thesis using rec [OF s1(1) compose_ctx_ext [OF s1(2) C] A(1) B(1)] b by (simp add: eq)
  qed
  fix x s2 lo hi
  assume x: "x = f \<or> x = g" "LEVEL s x = top2 s f g" "arg s x" "2 \<le> x" and s2: "binv s2" "ext s s2"
    and lh: "arg s2 lo" "arg s2 hi"
    and res: "res_ok s2 (top2 s f g + 1) (compose_sem v s (down s (top2 s f g) f False) (down s (top2 s f g) g False)) lo"
      "res_ok s2 (top2 s f g + 1) (compose_sem v s (down s (top2 s f g) f True) (down s (top2 s f g) g True)) hi"
  have vl: "top2 s f g \<le> LEVEL s f" "top2 s f g \<le> LEVEL s g" by (simp_all add: top2_def)
  have "top2 s f g \<noteq> v" using v by (simp add: top2_def)
  then have "compose_sem v s f g e =
      (if e (LEVEL s x) then compose_sem v s (down s (top2 s f g) f True) (down s (top2 s f g) g True) e
       else compose_sem v s (down s (top2 s f g) f False) (down s (top2 s f g) g False) e)" for e
    using down_facts(4) [OF I a(1) vl(1) top, of "e(v := sem s g e)"] down_facts(4) [OF I a(2) vl(2) top, of e]
    unfolding x(2) by (simp add: compose_sem_def)
  from fr.shannon_node [OF I x(3,4) _ _ this s2 lh res]
  show "runs (bdd_makenode (LEVEL s2 x) lo hi s2) (op_post s2 (top2 s f g) (compose_sem v s f g))"
    using x(2) by simp
qed

lemma compose_rec_spec:
  "binv s \<Longrightarrow> compose_ctx v s \<Longrightarrow> arg s f \<Longrightarrow> arg s g \<Longrightarrow> dep2 s f g < k \<Longrightarrow> room s (dep2 s f g) \<Longrightarrow>
   runs (compose_rec k f g s) (compose_post v s f g)"
proof (induction k arbitrary: f g s)
  case 0
  then show ?case by simp
next
  case (Suc k)
  note I = Suc.prems(1) and C = Suc.prems(2) and a = Suc.prems(3,4) and R = Suc.prems(6)
  have v: "composelevel (ops s) = v" "replaceid (ops s) = v * 4 + 1" using C by (simp_all add: compose_ctx_def)
  let ?P = "compose_post v s f g"
  let ?i = "BddCache_lookup (replacecache (caches s)) (COMPOSEHASH f g)"
  let ?e = "table (replacecache (caches s)) ?i"
  let ?hit = "BddCache_is_valid (replacecache (caches s)) ?i \<and> c_a ?e = f \<and> c_b ?e = g \<and>
      c_c ?e = replaceid (ops s)"
  let ?step = "if LEVEL s f < v then bin_shape (compose_rec k) (\<lambda>x lo hi s. bdd_makenode (LEVEL s x) lo hi s) f g s
      else ite_rec (op_fuel s) g (HIGH s f) (LOW s f) s"
  let ?rest = "bnd ?step (\<lambda>res s. ret res (store replacecache_update
              (\<lambda>e. e\<lparr>c_a := f, c_b := g, c_c := replaceid (ops s), c_res := res\<rparr>) ?i s))"
  have eq: "compose_rec (Suc k) f g s =
      (if LEVEL s f > v then ret f s else if ?hit then ret (c_res ?e) s else ?rest)"
    unfolding compose_rec.simps Let_def bin_shape_def v(1)
      lookup_eq [where sel = replacecache and s = s, OF binv_tables(5) [OF I]] ..
  consider (early) "LEVEL s f > v" | (hit) "\<not> LEVEL s f > v" ?hit
    | (miss) "LEVEL s f \<le> v" "compose_rec (Suc k) f g s = ?rest"
    unfolding eq by (cases "LEVEL s f > v"; cases ?hit) auto
  then show ?case
  proof cases
    case early
    have "compose_sem v s f g e = sem s f e" for e
      using sem_upd [OF binvD(2,3) [OF I] _ early] a(1) by (simp add: compose_sem_def arg_def)
    then have "?P f s" using arg_node(13) [OF I a(1)] by (intro post_node [OF I]) (simp_all add: top2_def)
    then show ?thesis using early unfolding eq by simp
  next
    case hit
    have "c_c ?e mod 4 = CACHEID_COMPOSE" "c_c ?e div 4 = v"
      using hit(2) v(2) split_digits [of 1 4 v] by (simp_all add: cacheid_defs)
    moreover have "replace_entry s ?e" using hit hits(6) [OF I] by blast
    ultimately have "?P (c_res ?e) s"
      using hit(2) I by (simp add: replace_entry_def compose_entry_def top2_def compose_sem_def fr.post_def)
    then show ?thesis using hit unfolding eq by simp
  next
    case miss
    have "runs ?step ?P"
    proof (cases "LEVEL s f < v")
      case True
      then show ?thesis
        using compose_above [OF I C a True R, of "compose_rec k"] Suc.IH Suc.prems(5) by simp
    next
      case False
      then show ?thesis using compose_here [OF I C a _ R] miss(1) by simp
    qed
    then show ?thesis
      unfolding miss(2)
    proof (rule runs_bnd)
      fix res t assume P: "?P res t"
      show "runs (ret res (store replacecache_update
          (\<lambda>e. e\<lparr>c_a := f, c_b := g, c_c := replaceid (ops t), c_res := res\<rparr>) ?i t)) ?P"
        using compose_store [OF P I a C] by simp
    qed
  qed
qed

lemma bdd_compose_spec:
  assumes S: "session s" and a: "handle s f" "handle s g" and var: "0 \<le> var" "var < bddvarnum s"
  shows "runs (bdd_compose f g var s) (ends s (top2 s f g) (compose_sem (bddvar2level s var) s f g))"
proof -
  note I = sessionD(1) [OF S]
  let ?v = "bddvar2level s var"
  have v: "0 \<le> ?v" "?v < bddvarnum s"
    using sessionD(4) [OF S] var by (auto simp: vars_ok_def var_ok_def Let_def)
  moreover have "bddvarnum s \<le> MAXVAR" using binvD(2) [OF I] by (simp add: bdd_table_def)
  ultimately have tag: "tagged ?v 2 CACHEID_COMPOSE = ?v * 4 + 1" by (intro compose_tag) simp_all
  let ?g = "\<lambda>g. g\<lparr>composelevel := ?v, replaceid := tagged ?v 2 CACHEID_COMPOSE\<rparr>"
  let ?s = "set_ops ?g (INITREF s)"
  have "runs (again (\<lambda>s. let l = bddvar2level s var in ret 0 (set_ops (\<lambda>g. g\<lparr>composelevel := l,
              replaceid := tagged l 2 CACHEID_COMPOSE\<rparr>) (INITREF s))) (\<lambda>s. compose_rec (op_fuel s) f g s) s)
      (ends s (top2 s f g) (compose_sem ?v s f g))"
  proof (rule again_spec [where g = ?g and e = 0, OF S])
    have d: "dep2 s f g \<le> nat (bddvarnum s)" by (rule dep2_le [OF S a])
    have "runs (compose_rec (op_fuel ?s) f g ?s) (compose_post ?v ?s f g)"
      using d room_mono [OF session_room [OF S] d] v
      by (intro compose_rec_spec binv_opened [OF I] handle_opened a) (auto simp: compose_ctx_def tag)
    then show "runs (compose_rec (op_fuel ?s) f g ?s) (op_post ?s (top2 s f g) (compose_sem ?v s f g))"
      by (simp add: compose_sem_def opened_core)
  qed (use sessionD(5) [OF S] in \<open>simp_all add: quant_table_def Let_def\<close>)
  then show ?thesis using var by (simp add: bdd_compose_def CHECKa_ok [OF S] a)
qed

section \<open>Substitution with a pair\<close>

text \<open>
  While an operation works with the pair \<open>p\<close>; \<open>c\<close> is its tag. The pair's nodes are referenced,
  and no other pair has the same identifier.
\<close>

definition subst_ctx :: "int \<Rightarrow> bddPair \<Rightarrow> bdd_state \<Rightarrow> bool" where
  "subst_ctx c p s =
     (p \<in> set (pairs s) \<and> distinct (map p_id (pairs s)) \<and> p_id p \<le> pairsid s \<and>
      p_last p < bddvarnum s \<and> (\<forall>l. 0 \<le> l \<and> l < bddvarnum s \<longrightarrow> arg s (p_result p l)) \<and>
      replacepair (ops s) = p_result p \<and> replacelast (ops s) = p_last p \<and>
      replaceid (ops s) = p_id p * 4 + c)"

lemma subst_ctx_ext: "ext s t \<Longrightarrow> binv s \<Longrightarrow> subst_ctx c p s \<Longrightarrow> subst_ctx c p t"
  using ext_stat [of s t] arg_later(1) [of s t] by (simp add: subst_ctx_def)

lemma pair_later:
  assumes E: "ext s t" and I: "binv s" and C: "subst_ctx c p s"
  shows "psem t p = psem s p" "pmap t p = pmap s p"
  using C arg_later(2,5) [OF E I, of "p_result p l" for l]
  by (auto simp: fun_eq_iff psem_def pmap_def subst_ctx_def)

lemma pair_nodes_ctx: "subst_ctx c p s \<Longrightarrow> pair_nodes s p"
  by (auto simp: subst_ctx_def pair_nodes_def arg_def)

lemma pair_tag:
  "0 \<le> i \<Longrightarrow> i < INT_MAX div 4 \<Longrightarrow> 0 \<le> c \<Longrightarrow> c < 4 \<Longrightarrow> tagged i 2 c = i * 4 + c"
  by (simp add: tagged_def s32_def INT_MAX_def)

text \<open>An entry for this operation and this pair.\<close>

lemma subst_hit:
  assumes e: "replace_entry s e" "c_c e = replaceid (ops s)" and C: "subst_ctx c p s"
    and c: "c = CACHEID_REPLACE \<or> c = CACHEID_VECCOMPOSE"
  shows "subst_entry s e p" "c_c e mod 4 = c"
proof -
  have d: "c_c e mod 4 = c" "c_c e div 4 = p_id p"
    using e(2) C c split_digits [of c 4 "p_id p"] by (auto simp: subst_ctx_def cacheid_defs)
  show "c_c e mod 4 = c" by (rule d)
  have "c_c e mod 4 \<noteq> CACHEID_COMPOSE" using d(1) c by (auto simp: cacheid_defs)
  then have "\<forall>p\<in>set (pairs s). p_id p = c_c e div 4 \<longrightarrow> subst_entry s e p"
    using e(1) by (simp add: replace_entry_def)
  moreover have "p \<in> set (pairs s)" using C by (simp add: subst_ctx_def)
  ultimately show "subst_entry s e p" using d(2) by simp
qed

lemma subst_store:
  assumes I: "binv t" and C: "subst_ctx c p t" and c: "c = CACHEID_REPLACE \<or> c = CACHEID_VECCOMPOSE"
    and a: "node_id t a" and F: "res_ok t 0 F res"
    and R: "c = CACHEID_REPLACE \<Longrightarrow> renames t p a \<Longrightarrow> \<forall>x. F x = sem t a (\<lambda>l. x (pmap t p l))"
    and V: "c = CACHEID_VECCOMPOSE \<Longrightarrow> \<forall>x. F x = sem t a (psem t p x)"
  shows "replace_entry t (written (\<lambda>e. e\<lparr>c_a := a, c_c := replaceid (ops t), c_res := res\<rparr>) i
    (replacecache (caches t)))"
proof -
  have id: "replaceid (ops t) = p_id p * 4 + c" using C by (simp add: subst_ctx_def)
  have d: "(p_id p * 4 + c) mod 4 = c" "(p_id p * 4 + c) div 4 = p_id p"
    using c split_digits [of c 4 "p_id p"] by (auto simp: cacheid_defs)
  have u: "p' = p" if "p' \<in> set (pairs t)" "p_id p' = p_id p" for p'
    using C that by (auto simp: subst_ctx_def distinct_map inj_on_def)
  have ne: "c \<noteq> CACHEID_COMPOSE" using c by (auto simp: cacheid_defs)
  let ?e = "written (\<lambda>e. e\<lparr>c_a := a, c_c := replaceid (ops t), c_res := res\<rparr>) i (replacecache (caches t))"
  have e: "c_a ?e = a" "c_c ?e = p_id p * 4 + c" "c_res ?e = res" by (simp_all add: written_def id)
  have "subst_entry t ?e p"
    unfolding subst_entry_def e d
    using pair_nodes_ctx [OF C] F R V by (intro conjI exI [of _ F]) blast+
  then show ?thesis
    unfolding replace_entry_def e d using ne a C u by (auto simp: subst_ctx_def)
qed

section \<open>Simultaneous composition\<close>

lemma psem_level: "0 \<le> l \<Longrightarrow> l \<le> p_last p \<Longrightarrow> psem s p x l = sem s (p_result p l) x"
  by (simp add: psem_def)

lemma veccompose_rec_spec:
  "binv s \<Longrightarrow> subst_ctx CACHEID_VECCOMPOSE p s \<Longrightarrow> arg s f \<Longrightarrow> dep s f < k \<Longrightarrow>
   room s (dep s f + nat (bddvarnum s)) \<Longrightarrow>
   runs (veccompose_rec k f s) (op_post s 0 (\<lambda>x. sem s f (psem s p x)))"
proof (induction k arbitrary: f s)
  case 0
  then show ?case by simp
next
  case (Suc k)
  note I = Suc.prems(1) and C = Suc.prems(2) and a = Suc.prems(3) and R = Suc.prems(5)
  note N = arg_node [OF I a]
  let ?P = "op_post s 0 (\<lambda>x. sem s f (psem s p x))"
  have last: "replacelast (ops s) = p_last p" "p_last p < bddvarnum s" using C by (simp_all add: subst_ctx_def)
  let ?i = "BddCache_lookup (replacecache (caches s)) (VECCOMPOSEHASH f)"
  let ?e = "table (replacecache (caches s)) ?i"
  let ?hit = "BddCache_is_valid (replacecache (caches s)) ?i \<and> c_a ?e = f \<and> c_c ?e = replaceid (ops s)"
  let ?K = "\<lambda>lo hi s. ite_rec (op_fuel s) (replacepair (ops s) (LEVEL s f)) hi lo s"
  let ?step = "both (\<lambda>s. veccompose_rec k (LOW s f) s) (\<lambda>s. veccompose_rec k (HIGH s f) s) ?K s"
  let ?rest = "bnd ?step (\<lambda>res s. ret res (store replacecache_update
              (\<lambda>e. e\<lparr>c_a := f, c_c := replaceid (ops s), c_res := res\<rparr>) ?i s))"
  have eq: "veccompose_rec (Suc k) f s =
      (if LEVEL s f > p_last p then ret f s else if ?hit then ret (c_res ?e) s else ?rest)"
    unfolding veccompose_rec.simps Let_def last(1)
      lookup_eq [where sel = replacecache and s = s, OF binv_tables(5) [OF I]] ..
  consider (early) "LEVEL s f > p_last p" | (hit) "\<not> LEVEL s f > p_last p" ?hit
    | (miss) "LEVEL s f \<le> p_last p" "veccompose_rec (Suc k) f s = ?rest"
    unfolding eq by (cases "LEVEL s f > p_last p"; cases ?hit) auto
  then show ?case
  proof cases
    case early
    have "sem s f e = sem s f (psem s p e)" for e
      by (rule sem_levels [OF binvD(2,3) [OF I] N(13)]) (use early in \<open>simp add: psem_def\<close>)
    then have "?P f s" using N(1,13) by (intro post_node [OF I])
    then show ?thesis using early unfolding eq by simp
  next
    case hit
    then have "replace_entry s ?e" using hits(6) [OF I] by blast
    from subst_hit [OF this _ C] hit(2) have "?P (c_res ?e) s"
      using I by (auto simp: subst_entry_def fr.post_def res_ok_def)
    then show ?thesis using hit unfolding eq by simp
  next
    case miss
    have f2: "2 \<le> f" using miss(1) last(2) N(3) by linarith
    obtain d where d: "dep s f = Suc d" using N(10) [OF f2] by (cases "dep s f") auto
    let ?F = "\<lambda>c x. sem s c (psem s p x)"
    have rec: "runs (veccompose_rec k c s1) (op_post s1 0 (?F c))"
      if s1: "binv s1" "ext s s1" "room s1 (d + nat (bddvarnum s))" and c: "arg s c" "dep s c < dep s f" for s1 c
    proof -
      note A = arg_later [OF s1(2) I c(1)]
      have "runs (veccompose_rec k c s1) (op_post s1 0 (\<lambda>x. sem s1 c (psem s1 p x)))"
        using A(1,6) c(2) Suc.prems(4) d s1(3) ext_stat(1) [OF s1(2)]
        by (intro Suc.IH [OF s1(1) subst_ctx_ext [OF s1(2) I C]]) (auto intro: room_mono)
      then show ?thesis using A pair_later [OF s1(2) I C] by simp
    qed
    have "runs ?step ?P"
    proof (rule fr.both_rule [where d = "d + nat (bddvarnum s)", OF I])
      show "room s (Suc (d + nat (bddvarnum s)))" using R d by simp
      show "runs (veccompose_rec k (LOW s f) s) (op_post s 0 (?F (LOW s f)))"
        using N(6,10) [OF f2] R d by (intro rec [OF I]) (auto intro: room_mono)
      show "runs (veccompose_rec k (HIGH s1 f) s1) (op_post s1 0 (?F (HIGH s f)))"
        if s1: "binv s1" "ext s s1" "room s1 (d + nat (bddvarnum s))" for s1
        unfolding arg_later(4) [OF s1(2) I a] using N(7,11) [OF f2] by (intro rec [OF s1]) simp_all
      fix s2 lo hi
      assume s2: "binv s2" "ext s s2" "room s2 (d + nat (bddvarnum s))" and lh: "arg s2 lo" "arg s2 hi"
        and r: "res_ok s2 0 (?F (LOW s f)) lo" "res_ok s2 0 (?F (HIGH s f)) hi"
      have C2: "subst_ctx CACHEID_VECCOMPOSE p s2" by (rule subst_ctx_ext [OF s2(2) I C])
      let ?g = "p_result p (LEVEL s f)"
      have g: "replacepair (ops s2) (LEVEL s2 f) = ?g" "arg s2 ?g"
        using C2 arg_later(2) [OF s2(2) I a] N(5) [OF f2] ext_stat(1) [OF s2(2)] N(1)
        by (simp_all add: subst_ctx_def)
      have vn: "bddvarnum s2 = bddvarnum s" by (rule ext_stat(1) [OF s2(2)])
      have "dep3 s2 ?g hi lo \<le> nat (bddvarnum s)"
        using arg_node(1) [OF s2(1) g(2)] arg_node(1) [OF s2(1) lh(1)] arg_node(1) [OF s2(1) lh(2)]
        by (auto simp: dep3_def top3_def vn)
      then have "runs (ite_rec (op_fuel s2) ?g hi lo s2) (op_post s2 (top3 s2 ?g hi lo) (ite_sem s2 ?g hi lo))"
        using g(2) lh s2(3) by (intro ite_rec_spec [OF s2(1)]) (auto simp: op_fuel_def vn intro: room_mono)
      moreover have "0 \<le> top3 s2 ?g hi lo"
        using arg_node(1) [OF s2(1) g(2)] arg_node(1) [OF s2(1) lh(1)] arg_node(1) [OF s2(1) lh(2)]
        by (simp add: top3_def)
      moreover have "\<forall>e. ite_sem s2 ?g hi lo e = sem s f (psem s p e)" if "bdderrorcond s2 = 0"
      proof
        fix e
        have "sem s2 ?g e = psem s p e (LEVEL s f)"
          using miss(1) N(1) pair_later(1) [OF s2(2) I C] psem_level [of "LEVEL s f" p s2 e] by simp
        then show "ite_sem s2 ?g hi lo e = sem s f (psem s p e)"
          using r that N(12) [OF f2, of "psem s p e"] by (simp add: ite_sem_def res_ok_def)
      qed
      ultimately have "runs (ite_rec (op_fuel s2) ?g hi lo s2) (op_post s2 0 (\<lambda>x. sem s f (psem s p x)))"
        by (auto elim!: runs_conseq intro: post_cong_err post_weaken)
      then show "runs (ite_rec (op_fuel s2) (replacepair (ops s2) (LEVEL s2 f)) hi lo s2)
          (op_post s2 0 (\<lambda>x. sem s f (psem s p x)))"
        unfolding g(1) .
    qed
    then show ?thesis
      unfolding miss(2)
    proof (rule runs_bnd)
      fix res t assume P: "?P res t"
      then have t: "binv t" "ext s t" "res_ok t 0 (\<lambda>x. sem s f (psem s p x)) res" by (simp_all add: fr.post_def)
      note A = arg_later [OF t(2) I a]
      have "caches_ok (store replacecache_update (\<lambda>e. e\<lparr>c_a := f, c_c := replaceid (ops t), c_res := res\<rparr>) ?i t)"
        by (rule stores(6) [OF fr.invD(2) [OF t(1)]], rule subst_store [OF t(1) subst_ctx_ext [OF t(2) I C] _ _ t(3)])
          (use A pair_later [OF t(2) I C] in \<open>simp_all add: arg_def cacheid_defs\<close>)
      then show "runs (ret res (store replacecache_update
          (\<lambda>e. e\<lparr>c_a := f, c_c := replaceid (ops t), c_res := res\<rparr>) ?i t)) ?P"
        using post_store [OF P] by simp
    qed
  qed
qed

text \<open>Opening an operation on a registered pair.\<close>

lemma find_pair_in: "find_pair a s = Some p \<Longrightarrow> p \<in> set (pairs s)"
  by (auto simp: find_pair_def find_Some_iff)

definition pair_setup :: "int \<Rightarrow> bddPair \<Rightarrow> opglobals \<Rightarrow> opglobals" where
  "pair_setup c p g = g\<lparr>replacepair := p_result p, replacelast := p_last p, replaceid := tagged (p_id p) 2 c\<rparr>"

lemma pair_opened:
  assumes S: "session s" and p: "p \<in> set (pairs s)" and c: "0 \<le> c" "c < 4"
  shows "subst_ctx c p (set_ops (pair_setup c p) (INITREF s))"
proof -
  have P: "pair_ok s p" "pairsid s < INT_MAX div 4" "distinct (map p_id (pairs s))"
    using sessionD(6) [OF S] p by (simp_all add: pairs_ok_def)
  have "tagged (p_id p) 2 c = p_id p * 4 + c" using P(1,2) c by (intro pair_tag) (auto simp: pair_ok_def)
  then show ?thesis
    using P p handle_opened [of s _ "pair_setup c p"]
    by (simp add: subst_ctx_def pair_ok_def pair_setup_def) (simp add: set_ops_def INITREF_def)
qed

lemma pair_frame:
  assumes S: "session s" and p: "find_pair a s = Some p"
    and m: "runs (m (set_ops (pair_setup c p) (INITREF s))) (fr.posts (set_ops (pair_setup c p) (INITREF s)) L P)"
  shows "runs (again (\<lambda>s. with_pair a (INITREF s) (\<lambda>p. ret 0 (set_ops (pair_setup c p) (INITREF s)))) m s)
    (\<lambda>r t. \<exists>F. P F \<and> ends s L F r t)"
proof (rule again_posts [where g = "pair_setup c p" and e = 0 and s = s and m = m and L = L and P = P, OF S])
  have "find_pair a (INITREF s) = Some p" using p by (simp add: find_pair_def INITREF_def)
  then show "with_pair a (INITREF s) (\<lambda>p. ret 0 (set_ops (pair_setup c p) (INITREF s))) =
      ret 0 (set_ops (pair_setup c p) (INITREF s))" by (simp add: with_pair_def)
qed (use sessionD(5) [OF S] m in \<open>simp_all add: pair_setup_def quant_table_def\<close>)

lemma pair_setup_order:
  "(g :: opglobals)\<lparr>replacepair := x, replaceid := i, replacelast := l\<rparr> =
   g\<lparr>replacepair := x, replacelast := l, replaceid := i\<rparr>"
  by simp

lemma bdd_veccompose_spec:
  assumes S: "session s" and f: "handle s f" and p: "find_pair a s = Some p"
  shows "runs (bdd_veccompose f a s) (ends s 0 (\<lambda>x. sem s f (psem s p x)))"
proof -
  let ?c = CACHEID_VECCOMPOSE
  let ?s = "set_ops (pair_setup ?c p) (INITREF s)"
  have I: "binv ?s" by (rule binv_opened [OF sessionD(1) [OF S]])
  have C: "subst_ctx ?c p ?s" by (rule pair_opened [OF S find_pair_in [OF p]]) (simp_all add: cacheid_defs)
  have eq: "psem ?s = psem s" by (rule core_eq) simp_all
  have "runs (veccompose_rec (op_fuel ?s) f ?s) (op_post ?s 0 (\<lambda>x. sem ?s f (psem ?s p x)))"
    using dep_le [OF S f]
    by (intro veccompose_rec_spec [OF I C handle_opened [OF f]]) (auto intro: room_mono [OF session_roomy [OF S]])
  then have "runs (veccompose_rec (op_fuel ?s) f ?s) (fr.posts ?s 0 ((=) (\<lambda>x. sem s f (psem s p x))))"
    unfolding fr.posts_eq by (simp add: opened_core eq)
  from pair_frame [where m = "\<lambda>s. veccompose_rec (op_fuel s) f s", OF S p this]
  show ?thesis
    unfolding bdd_veccompose_def CHECKa_ok [OF S f] pair_setup_order
    by (auto simp: pair_setup_def [abs_def] elim!: runs_conseq)
qed

end
