(* ===== verification/OpReplace.thy ===== *)
theory OpReplace
  imports OpCompose
begin

text \<open>
  Correctness of \<open>bdd_replace\<close>: variables are renamed as the pair says, whatever the new order is,
  as long as no two levels of the diagram are renamed to the same one.
\<close>

section \<open>The levels of a diagram\<close>

lemma reach_child:
  assumes n: "inner s n"
  shows "reach s n m \<longleftrightarrow> m = n \<or> reach s (LOW s n) m \<or> reach s (HIGH s n) m"
proof
  show "reach s n m \<Longrightarrow> m = n \<or> reach s (LOW s n) m \<or> reach s (HIGH s n) m"
    by (induction rule: reach.induct) (use n in \<open>auto intro: reach.intros\<close>)
  have up: "reach s c m \<Longrightarrow> reach s n c \<Longrightarrow> reach s n m" for c
    by (induction rule: reach.induct) (auto intro: reach.intros)
  have "reach s n (LOW s n)" "reach s n (HIGH s n)" using n by (auto intro: reach.intros)
  then show "m = n \<or> reach s (LOW s n) m \<or> reach s (HIGH s n) m \<Longrightarrow> reach s n m"
    using up by (auto intro: reach_self)
qed

lemma levels_inner: "inner s n \<Longrightarrow> levels s n = insert (LEVEL s n) (levels s (LOW s n) \<union> levels s (HIGH s n))"
  unfolding levels_def by (auto simp: reach_child)

lemma levels_const: "n = 0 \<or> n = 1 \<Longrightarrow> levels s n = {}"
  by (auto simp: levels_def dest: reach_const)

lemma levels_range:
  assumes T: "bdd_table s" and I: "tab_inv s" and n: "node_id s n"
  shows "levels s n \<subseteq> {LEVEL s n..<bddvarnum s}"
  using assms
proof (induction rule: node_induct)
  case (const n)
  then show ?case by (simp add: levels_const)
next
  case (node n)
  note N = bdd_node [OF T I node(3)]
  have "LEVEL s n < LEVEL s (LOW s n)" "LEVEL s n < LEVEL s (HIGH s n)" using N(9,10) node(1) by auto
  then show ?case using node(4,5) N(5) node(1) by (fastforce simp: levels_inner [OF node(2)])
qed

text \<open>The levels of a reduced diagram are those its function depends on.\<close>

definition depends :: "((int \<Rightarrow> bool) \<Rightarrow> bool) \<Rightarrow> int \<Rightarrow> bool" where
  "depends F v = (\<exists>e. F (e(v := True)) \<noteq> F (e(v := False)))"

lemma levels_depends:
  assumes T: "bdd_table s" and I: "tab_inv s" and n: "node_id s n"
  shows "v \<in> levels s n \<Longrightarrow> depends (sem s n) v"
  using assms
proof (induction rule: node_induct)
  case (const n)
  then show ?case by (simp add: levels_const)
next
  case (node n)
  note N = bdd_node [OF T I node(3)]
  have c: "node_id s (LOW s n)" "node_id s (HIGH s n)" "LEVEL s n < LEVEL s (LOW s n)" "LEVEL s n < LEVEL s (HIGH s n)"
    using N(7-10) node(1) by auto
  have child: "depends (sem s n) v" if d: "depends (sem s c) v" and v: "v \<noteq> LEVEL s n"
    and eq: "\<And>e. sem s c e = sem s n (e(LEVEL s n := b))" for c b
  proof -
    from d obtain e where "sem s c (e(v := True)) \<noteq> sem s c (e(v := False))" by (auto simp: depends_def)
    then show ?thesis
      using v unfolding depends_def eq
      by (intro exI [of _ "e(LEVEL s n := b)"]) (simp add: fun_upd_twist)
  qed
  consider "v = LEVEL s n" | "v \<noteq> LEVEL s n" "v \<in> levels s (LOW s n)" | "v \<noteq> LEVEL s n" "v \<in> levels s (HIGH s n)"
    using node(6) by (auto simp: levels_inner [OF node(2)])
  then show ?case
  proof cases
    case 1
    have "LOW s n \<noteq> HIGH s n" using T node(2) by (auto simp: bdd_table_def inner_def)
    then obtain e where "sem s (LOW s n) e \<noteq> sem s (HIGH s n) e" using sem_inject [OF T I c(1,2)] by blast
    then show ?thesis
      using 1 sem_cofactors [OF T I node(3,1), of e] unfolding depends_def by (intro exI [of _ e]) auto
  next
    case 2
    then show ?thesis using child [OF node(4) _ sem_cofactors(1) [OF T I node(3,1)]] by simp
  next
    case 3
    then show ?thesis using child [OF node(5) _ sem_cofactors(2) [OF T I node(3,1)]] by simp
  qed
qed

lemma sem_on_levels:
  assumes T: "bdd_table s" and I: "tab_inv s" and n: "node_id s n"
  shows "(\<And>v. v \<in> levels s n \<Longrightarrow> e v = e' v) \<Longrightarrow> sem s n e = sem s n e'"
  using assms
proof (induction rule: node_induct)
  case (const n)
  then show ?case by auto
next
  case (node n)
  then show ?case by (simp add: levels_inner sem_inner)
qed

text \<open>A function of renamed levels does not depend on a level that nothing is renamed to.\<close>

lemma renamed_indep:
  assumes I: "binv s" and n: "node_id s n" and v: "v \<notin> \<mu> ` levels s n"
  shows "\<not> depends (\<lambda>x. sem s n (\<lambda>l. x (\<mu> l))) v"
proof -
  have "sem s n (\<lambda>l. (e(v := True)) (\<mu> l)) = sem s n (\<lambda>l. (e(v := False)) (\<mu> l))" for e :: "int \<Rightarrow> bool"
    by (rule sem_on_levels [OF binvD(2,3) [OF I] n]) (use v in auto)
  then show ?thesis by (simp add: depends_def)
qed

section \<open>Placing a variable\<close>

definition correct_sem :: "int \<Rightarrow> bdd_state \<Rightarrow> int \<Rightarrow> int \<Rightarrow> (int \<Rightarrow> bool) \<Rightarrow> bool" where
  "correct_sem v s l r = (\<lambda>x. if x v then sem s r x else sem s l x)"

definition correct_prop :: "int \<Rightarrow> bdd_state \<Rightarrow> int \<Rightarrow> int \<Rightarrow> ((int \<Rightarrow> bool) \<Rightarrow> bool) \<Rightarrow> bool" where
  "correct_prop v s l r F =
     (v < bddvarnum s \<and> v \<notin> levels s l \<and> v \<notin> levels s r \<longrightarrow> (\<forall>x. F x = correct_sem v s l r x))"

text \<open>An error report without an \<open>exit\<close> changes at most the trace.\<close>

lemma bdd_error_spec:
  assumes I: "binv s" and n: "node_id s n" "L \<le> LEVEL s n"
  shows "runs (bnd (bdd_error e s) (\<lambda>_ s. ret n s)) (op_post s L (sem s n))"
proof (cases "err_handler s")
  case NoHandler
  then show ?thesis using n by (simp add: bdd_error_def post_node [OF I])
next
  case DefaultHandler
  then show ?thesis by (simp add: bdd_error_def fail_def)
next
  case (UserHandler h)
  let ?t = "s\<lparr>trace := trace s @ [EvError h e]\<rparr>"
  have C: "same_core s ?t" by simp
  have "binv ?t" using binv_core [OF C] I by simp
  moreover have "ext s ?t" by (simp add: ext_def same_node_def LEVEL_def LOW_def HIGH_def)
  moreover have "res_ok ?t L (sem s n) n" unfolding same_core_eqs(10) [OF C] using n by (simp add: res_ok_def)
  ultimately show ?thesis using UserHandler by (simp add: bdd_error_def fr.post_def)
qed

lemma levels_down:
  assumes I: "binv s" and n: "arg s n" and v: "v < bddvarnum s"
  shows "levels s (down s v n b) \<subseteq> levels s n"
proof (cases "LEVEL s n = v")
  case True
  then have "2 \<le> n" using arg_node(3) [OF I n] v by simp
  then have "inner s n" using bdd_node(4) [OF binvD(2,3) [OF I]] n by (simp add: arg_def)
  then show ?thesis using True by (auto simp: down_def levels_inner)
qed (simp add: down_def)

lemma levels_later:
  assumes E: "ext s t" and I: "binv s" and n: "arg s n"
  shows "levels t n = levels s n"
  using agree_sets(4) [OF tab_invD(3) [OF binvD(3) [OF I]] arg_agree [OF E n]] .

lemma correctify_step:
  assumes I: "binv s" and a: "arg s l" "arg s r" and v: "v \<le> bddvarnum s" "top2 s l r < v"
    and R: "room s (dep2 s l r)"
    and rec: "\<And>s1 l' r'. binv s1 \<Longrightarrow> arg s1 l' \<Longrightarrow> arg s1 r' \<Longrightarrow> bddvarnum s1 = bddvarnum s \<Longrightarrow>
        dep2 s1 l' r' < dep2 s l r \<Longrightarrow> room s1 (dep2 s1 l' r') \<Longrightarrow>
        runs (m l' r' s1) (fr.posts s1 (min v (top2 s1 l' r')) (correct_prop v s1 l' r'))"
  shows "runs (bin_shape m (\<lambda>x lo hi s. bdd_makenode (LEVEL s x) lo hi s) l r s)
    (fr.posts s (top2 s l r) (correct_prop v s l r))"
proof (rule bin_posts [OF I a _ R, where P = "correct_prop v s"])
  show top: "top2 s l r < bddvarnum s" using v by simp
  show "runs (m l' r' s1) (fr.posts s1 (top2 s l r + 1) (correct_prop v s l' r'))"
    if s1: "binv s1" "ext s s1" and b: "arg s l'" "arg s r'" "dep2 s l' r' < dep2 s l r"
      "room s1 (dep2 s l r - 1)" "top2 s l r < top2 s l' r'" for s1 l' r'
  proof -
    note A = arg_later [OF s1(2) I b(1)] and B = arg_later [OF s1(2) I b(2)]
    have eq: "top2 s1 l' r' = top2 s l' r'" "dep2 s1 l' r' = dep2 s l' r'"
      "correct_prop v s1 l' r' = correct_prop v s l' r'"
      using A B levels_later [OF s1(2) I b(1)] levels_later [OF s1(2) I b(2)]
        ext_stat(1) [OF s1(2)]
      by (simp_all add: top2_def dep2_def correct_prop_def correct_sem_def fun_eq_iff)
    have "runs (m l' r' s1) (fr.posts s1 (min v (top2 s l' r')) (correct_prop v s l' r'))"
      using rec [OF s1(1) A(1) B(1) ext_stat(1) [OF s1(2)]] b(3) room_mono [OF b(4), of "dep2 s l' r'"]
      by (simp add: eq)
    then show ?thesis using b(5) v(2) by (auto elim!: runs_conseq intro: posts_weaken)
  qed
  fix x s2 lo hi F0 F1
  assume x: "x = l \<or> x = r" "LEVEL s x = top2 s l r" "arg s x" "2 \<le> x" and s2: "binv s2" "ext s s2"
    and lh: "arg s2 lo" "arg s2 hi"
    and F: "correct_prop v s (down s (top2 s l r) l False) (down s (top2 s l r) r False) F0"
      "correct_prop v s (down s (top2 s l r) l True) (down s (top2 s l r) r True) F1"
    and res: "res_ok s2 (top2 s l r + 1) F0 lo" "res_ok s2 (top2 s l r + 1) F1 hi"
  have vl: "top2 s l r \<le> LEVEL s l" "top2 s l r \<le> LEVEL s r" by (simp_all add: top2_def)
  note DL = down_facts(4) [OF I a(1) vl(1) top] and DR = down_facts(4) [OF I a(2) vl(2) top]
  note sub = levels_down [OF I a(1) top] levels_down [OF I a(2) top]
  let ?F = "\<lambda>e. if e (LEVEL s x) then F1 e else F0 e"
  have "correct_prop v s l r ?F"
    unfolding correct_prop_def
  proof (intro impI allI)
    fix e assume v': "v < bddvarnum s \<and> v \<notin> levels s l \<and> v \<notin> levels s r"
    have "F0 e = correct_sem v s (down s (top2 s l r) l False) (down s (top2 s l r) r False) e"
      "F1 e = correct_sem v s (down s (top2 s l r) l True) (down s (top2 s l r) r True) e"
      using F v' sub unfolding correct_prop_def by blast+
    then show "?F e = correct_sem v s l r e"
      using DL [of e] DR [of e] unfolding x(2) by (simp add: correct_sem_def)
  qed
  moreover have "runs (bdd_makenode (LEVEL s2 x) lo hi s2) (op_post s2 (LEVEL s x) ?F)"
    by (rule fr.shannon_node [OF I x(3,4) _ _ refl s2 lh res]) (simp_all add: x(2))
  ultimately show "runs (bdd_makenode (LEVEL s2 x) lo hi s2) (fr.posts s2 (top2 s l r) (correct_prop v s l r))"
    unfolding x(2) by (auto elim!: runs_conseq intro: postsI)
qed

lemma bdd_correctify_spec:
  "binv s \<Longrightarrow> arg s l \<Longrightarrow> arg s r \<Longrightarrow> 0 \<le> v \<Longrightarrow> v \<le> bddvarnum s \<Longrightarrow> dep2 s l r < k \<Longrightarrow>
   room s (dep2 s l r) \<Longrightarrow>
   runs (bdd_correctify k v l r s) (fr.posts s (min v (top2 s l r)) (correct_prop v s l r))"
proof (induction k arbitrary: l r s)
  case 0
  then show ?case by simp
next
  case (Suc k)
  note I = Suc.prems(1) and a = Suc.prems(2,3) and v = Suc.prems(4,5) and R = Suc.prems(7)
  note L = arg_node [OF I a(1)] and Rn = arg_node [OF I a(2)]
  have eq: "bdd_correctify (Suc k) v l r s =
     (if v < LEVEL s l \<and> v < LEVEL s r then bdd_makenode v l r s
      else if v = LEVEL s l \<or> v = LEVEL s r then bnd (bdd_error BDD_REPLACE s) (\<lambda>_ s. ret 0 s)
      else bin_shape (bdd_correctify k v) (\<lambda>x lo hi s. bdd_makenode (LEVEL s x) lo hi s) l r s)"
    unfolding bdd_correctify.simps bin_shape_def ..
  consider (here) "v < LEVEL s l" "v < LEVEL s r" | (clash) "v = LEVEL s l \<or> v = LEVEL s r"
    | (below) "top2 s l r < v" "v \<noteq> LEVEL s l" "v \<noteq> LEVEL s r" by (fastforce simp: top2_def)
  then show ?case
  proof cases
    case here
    have "v < bddvarnum s" using here(1) L(2) by simp
    then have "runs (bdd_makenode v l r s) (op_post s v (correct_sem v s l r))"
      unfolding correct_sem_def by (rule fr.makenode_rule [OF I v(1) _ a here])
    moreover have "min v (top2 s l r) = v" using here by (simp add: top2_def)
    ultimately show ?thesis
      using here unfolding eq by (auto elim!: runs_conseq intro!: postsI simp: correct_prop_def)
  next
    case clash
    then have "v \<in> levels s l \<or> v \<in> levels s r" if "v < bddvarnum s"
      using that L(3) Rn(3) L(13) Rn(13) bdd_node(4) [OF binvD(2,3) [OF I]] by (fastforce simp: levels_inner)
    then have "correct_prop v s l r (sem s 0)" by (auto simp: correct_prop_def)
    moreover have "min v (top2 s l r) \<le> LEVEL s 0" using v const_level [OF I] by simp
    ultimately show ?thesis
      using clash bdd_error_spec [OF I, of 0 "min v (top2 s l r)" BDD_REPLACE] unfolding eq
      by (auto simp: node_id_def elim!: runs_conseq intro: postsI)
  next
    case below
    have "runs (bin_shape (bdd_correctify k v) (\<lambda>x lo hi s. bdd_makenode (LEVEL s x) lo hi s) l r s)
        (fr.posts s (top2 s l r) (correct_prop v s l r))"
      using v Suc.prems(6) by (intro correctify_step [OF I a v(2) below(1) R] Suc.IH) simp_all
    moreover have "min v (top2 s l r) = top2 s l r" using below(1) by simp
    moreover have "\<not> (v < LEVEL s l \<and> v < LEVEL s r)" using below(1) by (auto simp: top2_def)
    ultimately show ?thesis using below(2,3) unfolding eq by presburger
  qed
qed

section \<open>Replacement\<close>

definition replaced :: "bddPair \<Rightarrow> bdd_state \<Rightarrow> int \<Rightarrow> ((int \<Rightarrow> bool) \<Rightarrow> bool) \<Rightarrow> bool" where
  "replaced p s n F = (renames s p n \<longrightarrow> (\<forall>x. F x = sem s n (\<lambda>l. x (pmap s p l))))"

lemma replaced_later:
  assumes E: "ext s t" and I: "binv s" and C: "subst_ctx c p s" and n: "arg s n"
  shows "replaced p t n = replaced p s n"
proof -
  have "renames t p n = renames s p n"
    unfolding renames_def levels_later [OF E I n] pair_later(2) [OF E I C] ext_stat(1) [OF E] ..
  then show ?thesis
    unfolding replaced_def arg_later(5) [OF E I n] pair_later(2) [OF E I C] by simp
qed

lemma renames_child:
  assumes I: "binv s" and n: "arg s n" "2 \<le> n" and c: "c = LOW s n \<or> c = HIGH s n" and r: "renames s p n"
  shows "renames s p c" "pmap s p (LEVEL s n) \<notin> pmap s p ` levels s c" "pmap s p (LEVEL s n) < bddvarnum s"
proof -
  note N = arg_node [OF I n(1)]
  have i: "inner s n" using bdd_node(4) [OF binvD(2,3) [OF I]] n by (simp add: arg_def)
  have sub: "levels s c \<subseteq> levels s n" and top: "LEVEL s n \<in> levels s n" using c by (auto simp: levels_inner [OF i])
  have "node_id s c" "LEVEL s n < LEVEL s c" using c N(6-9) n(2) by (auto simp: arg_def)
  then have "LEVEL s n \<notin> levels s c" using levels_range [OF binvD(2,3) [OF I]] by fastforce
  then show "pmap s p (LEVEL s n) \<notin> pmap s p ` levels s c"
    using r sub top inj_on_image_mem_iff [of "pmap s p" "levels s n" "LEVEL s n" "levels s c"]
    by (simp add: renames_def)
  show "renames s p c" using r sub unfolding renames_def by (auto intro: inj_on_subset)
  show "pmap s p (LEVEL s n) < bddvarnum s" using r top by (simp add: renames_def)
qed

text \<open>What the placed variable adds to the renamed cofactors.\<close>

lemma replaced_node:
  assumes I: "binv s" and n: "arg s n" "2 \<le> n" and F: "replaced p s (LOW s n) F0" "replaced p s (HIGH s n) F1"
    and t: "binv t" "ext s t" "bdderrorcond t = 0" and c: "arg t lo" "arg t hi"
    and res: "res_ok t 0 F0 lo" "res_ok t 0 F1 hi" and G: "correct_prop (pmap s p (LEVEL s n)) t lo hi F"
  shows "replaced p s n F"
  unfolding replaced_def
proof (intro impI allI)
  fix x assume r: "renames s p n"
  let ?v = "pmap s p (LEVEL s n)"
  note N = arg_node [OF I n(1)]
  have sem: "sem t lo = (\<lambda>x. sem s (LOW s n) (\<lambda>l. x (pmap s p l)))"
    "sem t hi = (\<lambda>x. sem s (HIGH s n) (\<lambda>l. x (pmap s p l)))"
    using F res t(3) renames_child(1) [OF I n _ r] by (simp_all add: replaced_def res_ok_def fun_eq_iff)
  have free: "?v \<notin> levels t d" if "arg t d" "sem t d = (\<lambda>x. sem s c (\<lambda>l. x (pmap s p l)))"
    "c = LOW s n \<or> c = HIGH s n" for c d
  proof
    assume "?v \<in> levels t d"
    then have "depends (sem t d) ?v"
      using that(1) by (intro levels_depends [OF binvD(2,3) [OF t(1)]]) (simp_all add: arg_def)
    moreover have "\<not> depends (\<lambda>x. sem s c (\<lambda>l. x (pmap s p l))) ?v"
      using that(3) N(6,7) n(2) renames_child(2) [OF I n that(3) r]
      by (intro renamed_indep [OF I]) (auto simp: arg_def)
    ultimately show False using that(2) by simp
  qed
  have "?v < bddvarnum t" using renames_child(3) [OF I n disjI1 [OF refl] r] ext_stat(1) [OF t(2)] by simp
  then have "F x = correct_sem ?v t lo hi x"
    using G free [OF c(1) sem(1)] free [OF c(2) sem(2)] by (simp add: correct_prop_def)
  then show "F x = sem s n (\<lambda>l. x (pmap s p l))"
    using N(12) [OF n(2)] by (simp add: correct_sem_def sem)
qed

lemma replace_rec_spec:
  "binv s \<Longrightarrow> subst_ctx CACHEID_REPLACE p s \<Longrightarrow> arg s r \<Longrightarrow> dep s r < k \<Longrightarrow>
   room s (dep s r + nat (bddvarnum s)) \<Longrightarrow> runs (replace_rec k r s) (fr.posts s 0 (replaced p s r))"
proof (induction k arbitrary: r s)
  case 0
  then show ?case by simp
next
  case (Suc k)
  note I = Suc.prems(1) and C = Suc.prems(2) and a = Suc.prems(3) and R = Suc.prems(5)
  note N = arg_node [OF I a]
  let ?P = "fr.posts s 0 (replaced p s r)"
  have last: "replacelast (ops s) = p_last p" "p_last p < bddvarnum s" using C by (simp_all add: subst_ctx_def)
  let ?i = "BddCache_lookup (replacecache (caches s)) (REPLACEHASH r)"
  let ?e = "table (replacecache (caches s)) ?i"
  let ?hit = "BddCache_is_valid (replacecache (caches s)) ?i \<and> c_a ?e = r \<and> c_c ?e = replaceid (ops s)"
  let ?K = "\<lambda>lo hi s. bdd_correctify (op_fuel s) (LEVEL s (replacepair (ops s) (LEVEL s r))) lo hi s"
  let ?step = "both (\<lambda>s. replace_rec k (LOW s r) s) (\<lambda>s. replace_rec k (HIGH s r) s) ?K s"
  let ?rest = "bnd ?step (\<lambda>res s. ret res (store replacecache_update
              (\<lambda>e. e\<lparr>c_a := r, c_c := replaceid (ops s), c_res := res\<rparr>) ?i s))"
  have eq: "replace_rec (Suc k) r s =
      (if ISCONST r \<or> LEVEL s r > p_last p then ret r s else if ?hit then ret (c_res ?e) s else ?rest)"
    unfolding replace_rec.simps Let_def last(1)
      lookup_eq [where sel = replacecache and s = s, OF binv_tables(5) [OF I]] ..
  have const: "ISCONST r \<longleftrightarrow> r < 2" using N(4) by (auto simp: ISCONST_def ISZERO_def ISONE_def)
  consider (early) "r < 2 \<or> LEVEL s r > p_last p" | (hit) "\<not> (r < 2 \<or> LEVEL s r > p_last p)" ?hit
    | (miss) "2 \<le> r" "LEVEL s r \<le> p_last p" "replace_rec (Suc k) r s = ?rest"
    unfolding eq const by (cases "r < 2 \<or> LEVEL s r > p_last p"; cases ?hit) auto
  then show ?case
  proof cases
    case early
    then have gt: "LEVEL s r > p_last p" using N(3) last(2) by auto
    have "sem s r e = sem s r (\<lambda>l. e (pmap s p l))" for e
      by (rule sem_levels [OF binvD(2,3) [OF I] N(13)]) (use gt in \<open>simp add: pmap_def\<close>)
    then have "replaced p s r (sem s r)" by (simp add: replaced_def)
    then show ?thesis
      using early N(1,13) postsI [OF post_node [OF I, of r 0 "sem s r"]] unfolding eq const by simp
  next
    case hit
    then have "replace_entry s ?e" using hits(6) [OF I] by blast
    from subst_hit [OF this _ C] hit(2) obtain F where
      "res_ok s 0 F (c_res ?e)" "replaced p s r F"
      by (auto simp: subst_entry_def replaced_def cacheid_defs)
    then have "?P (c_res ?e) s" using I by (intro postsI) (simp_all add: fr.post_def)
    then show ?thesis using hit unfolding eq const by simp
  next
    case miss
    note r2 = miss(1)
    obtain d where d: "dep s r = Suc d" using N(10) [OF r2] by (cases "dep s r") auto
    have rec: "runs (replace_rec k c s1) (fr.posts s1 0 (replaced p s c))"
      if s1: "binv s1" "ext s s1" "room s1 (d + nat (bddvarnum s))" and c: "arg s c" "dep s c < dep s r" for s1 c
    proof -
      note A = arg_later [OF s1(2) I c(1)]
      have "runs (replace_rec k c s1) (fr.posts s1 0 (replaced p s1 c))"
        using A(1,6) c(2) Suc.prems(4) d s1(3) ext_stat(1) [OF s1(2)]
        by (intro Suc.IH [OF s1(1) subst_ctx_ext [OF s1(2) I C]]) (auto intro: room_mono)
      then show ?thesis unfolding replaced_later [OF s1(2) I C c(1)] .
    qed
    have "runs ?step ?P"
    proof (rule fr.both_posts [where d = "d + nat (bddvarnum s)", OF I])
      show "room s (Suc (d + nat (bddvarnum s)))" using R d by simp
      show "runs (replace_rec k (LOW s r) s) (fr.posts s 0 (replaced p s (LOW s r)))"
        using N(6,10) [OF r2] R d by (intro rec [OF I]) (auto intro: room_mono)
      show "runs (replace_rec k (HIGH s1 r) s1) (fr.posts s1 0 (replaced p s (HIGH s r)))"
        if s1: "binv s1" "ext s s1" "room s1 (d + nat (bddvarnum s))" for s1
        unfolding arg_later(4) [OF s1(2) I a] using N(7,11) [OF r2] by (intro rec [OF s1]) simp_all
      fix s2 lo hi F0 F1
      assume s2: "binv s2" "ext s s2" "room s2 (d + nat (bddvarnum s))" and lh: "arg s2 lo" "arg s2 hi"
        and F: "replaced p s (LOW s r) F0" "replaced p s (HIGH s r) F1"
        and res: "res_ok s2 0 F0 lo" "res_ok s2 0 F1 hi"
      have C2: "subst_ctx CACHEID_REPLACE p s2" by (rule subst_ctx_ext [OF s2(2) I C])
      have vn: "bddvarnum s2 = bddvarnum s" by (rule ext_stat(1) [OF s2(2)])
      let ?v = "pmap s p (LEVEL s r)"
      have g: "arg s2 (p_result p (LEVEL s r))" "replacepair (ops s2) (LEVEL s2 r) = p_result p (LEVEL s r)"
        using C2 arg_later(2) [OF s2(2) I a] N(5) [OF r2] N(1) by (simp_all add: subst_ctx_def vn)
      have v: "LEVEL s2 (replacepair (ops s2) (LEVEL s2 r)) = ?v" "0 \<le> ?v" "?v \<le> bddvarnum s2"
        using arg_node(1,2) [OF s2(1) g(1)] pair_later(2) [OF s2(2) I C, symmetric] g(2) miss(2) N(1)
        by (simp_all add: pmap_def)
      have dl: "dep2 s2 lo hi \<le> nat (bddvarnum s)"
        using arg_node(1) [OF s2(1) lh(1)] arg_node(1) [OF s2(1) lh(2)] by (auto simp: dep2_def dep_def vn)
      then have "runs (bdd_correctify (op_fuel s2) ?v lo hi s2)
          (fr.posts s2 (min ?v (top2 s2 lo hi)) (correct_prop ?v s2 lo hi))"
        using v s2(3) by (intro bdd_correctify_spec [OF s2(1) lh]) (auto simp: op_fuel_def vn intro: room_mono)
      moreover have "0 \<le> min ?v (top2 s2 lo hi)"
        using v(2) arg_node(1) [OF s2(1) lh(1)] arg_node(1) [OF s2(1) lh(2)] by (simp add: top2_def)
      ultimately show "runs (?K lo hi s2) (fr.posts s2 0 (replaced p s r))"
        unfolding v(1)
      proof (elim runs_conseq fr.posts_post)
        fix q t F
        assume q: "correct_prop ?v s2 lo hi F" "op_post s2 (min ?v (top2 s2 lo hi)) F q t"
          and L: "0 \<le> min ?v (top2 s2 lo hi)"
        have P: "op_post s2 0 F q t" by (rule post_weaken [OF q(2) L refl])
        show "fr.posts s2 0 (replaced p s r) q t"
        proof (cases "bdderrorcond s2 = 0")
          case True
          have "replaced p s r F"
            using F s2(1,2) True lh res q(1) by (rule replaced_node [where t = s2, OF I a r2])
          then show ?thesis by (rule postsI [where P = "replaced p s r", OF P])
        next
          case False
          have "op_post s2 0 (\<lambda>x. sem s r (\<lambda>l. x (pmap s p l))) q t" by (rule posts_err [OF P False])
          then show ?thesis by (rule postsI) (simp add: replaced_def)
        qed
      qed
    qed
    then show ?thesis
      unfolding miss(3)
    proof (rule runs_bnd)
      fix res t assume "?P res t"
      then obtain F where P: "op_post s 0 F res t" and F: "replaced p s r F" by (rule fr.posts_post)
      then have t: "binv t" "ext s t" "res_ok t 0 F res" by (simp_all add: fr.post_def)
      have "node_id t r" using arg_later(1) [OF t(2) I a] by (simp add: arg_def)
      moreover have "replaced p t r F" using F unfolding replaced_later [OF t(2) I C a] .
      ultimately have "replace_entry t (written (\<lambda>e. e\<lparr>c_a := r, c_c := replaceid (ops t), c_res := res\<rparr>) ?i
          (replacecache (caches t)))"
        by (intro subst_store [OF t(1) subst_ctx_ext [OF t(2) I C] _ _ t(3)])
          (simp_all add: replaced_def cacheid_defs)
      then have "caches_ok (store replacecache_update
          (\<lambda>e. e\<lparr>c_a := r, c_c := replaceid (ops t), c_res := res\<rparr>) ?i t)"
        by (rule stores(6) [OF fr.invD(2) [OF t(1)]])
      then show "runs (ret res (store replacecache_update
          (\<lambda>e. e\<lparr>c_a := r, c_c := replaceid (ops t), c_res := res\<rparr>) ?i t)) ?P"
        using postsI [where P = "replaced p s r", OF post_store [OF P] F] by simp
    qed
  qed
qed

lemma bdd_replace_spec:
  assumes S: "session s" and r: "handle s r" and p: "find_pair a s = Some p"
  shows "runs (bdd_replace r a s) (\<lambda>q t. \<exists>F. replaced p s r F \<and> ends s 0 F q t)"
proof -
  let ?c = CACHEID_REPLACE
  let ?s = "set_ops (pair_setup ?c p) (INITREF s)"
  have I: "binv ?s" by (rule binv_opened [OF sessionD(1) [OF S]])
  have C: "subst_ctx ?c p ?s" by (rule pair_opened [OF S find_pair_in [OF p]]) (simp_all add: cacheid_defs)
  have "pmap ?s = pmap s" "renames ?s = renames s" by (rule core_eq core_counts; simp)+
  then have eq: "replaced p ?s = replaced p s" by (simp add: fun_eq_iff replaced_def opened_core)
  have "runs (replace_rec (op_fuel ?s) r ?s) (fr.posts ?s 0 (replaced p ?s r))"
    using dep_le [OF S r]
    by (intro replace_rec_spec [OF I C handle_opened [OF r]]) (auto intro: room_mono [OF session_roomy [OF S]])
  then have "runs (replace_rec (op_fuel ?s) r ?s) (fr.posts ?s 0 (replaced p s r))" unfolding eq .
  from pair_frame [where m = "\<lambda>s. replace_rec (op_fuel s) r s", OF S p this]
  show ?thesis
    unfolding bdd_replace_def CHECKa_ok [OF S r] by (simp add: pair_setup_def [abs_def])
qed

end
