(* ===== verification/PropsSubst.thy ===== *)
theory PropsSubst
  imports Example OpReplace OpRestrict OpCofactor
begin

text \<open>
  The properties of the generalised cofactors, of restriction, composition and replacement. The
  hypotheses are those of the binary operators; a pair is known by its address, and every pair
  of a session holds nodes that the pair references.
\<close>

section \<open>Generalised cofactors\<close>

text \<open>
  C11. \<open>bdd_constrain\<close> returns a function that agrees with \<open>f\<close> wherever the constraint \<open>c\<close> holds,
  whatever the caches contain.
\<close>

theorem bdd_constrain_correct:
  assumes "session s" "handle s f" "handle s c"
  shows "runs (bdd_constrain f c s) (\<lambda>res t. session t \<and> keeps s t \<and> node_id t res \<and>
    (bdderrorcond t = 0 \<longrightarrow> (\<forall>e. sem s c e \<longrightarrow> sem t res e = sem s f e)))"
  using bdd_constrain_spec [OF assms]
  by (rule runs_conseq) (auto simp: ends_def res_ok_def agrees_def)

theorem bdd_constrain_correct_example:
  "session example \<and> handle example 7 \<and> handle example 2 \<and>
   runs (bdd_constrain 7 2 example) (\<lambda>res t. session t \<and> keeps example t \<and> node_id t res \<and>
    (bdderrorcond t = 0 \<longrightarrow> (\<forall>e. sem example 2 e \<longrightarrow> sem t res e = sem example 7 e)))"
  using bdd_constrain_correct [of example 7 2] ex_session ex_handles by blast

text \<open>
  C12. \<open>bdd_simplify\<close> (Coudert and Madre's restriction) returns a function that agrees with \<open>f\<close> on
  the domain \<open>d\<close>.
\<close>

theorem bdd_simplify_correct:
  assumes "session s" "handle s f" "handle s d"
  shows "runs (bdd_simplify f d s) (\<lambda>res t. session t \<and> keeps s t \<and> node_id t res \<and>
    (bdderrorcond t = 0 \<longrightarrow> (\<forall>e. sem s d e \<longrightarrow> sem t res e = sem s f e)))"
  using bdd_simplify_spec [OF assms]
  by (rule runs_conseq) (auto simp: ends_def res_ok_def agrees_def)

theorem bdd_simplify_correct_example:
  "session example \<and> handle example 7 \<and> handle example 4 \<and>
   runs (bdd_simplify 7 4 example) (\<lambda>res t. session t \<and> keeps example t \<and> node_id t res \<and>
    (bdderrorcond t = 0 \<longrightarrow> (\<forall>e. sem example 4 e \<longrightarrow> sem t res e = sem example 7 e)))"
  using bdd_simplify_correct [of example 7 4] ex_session ex_handles by blast

section \<open>Restriction\<close>

text \<open>
  C13. \<open>bdd_restrict\<close> fixes the variables of a cube of literals: the result is \<open>r\<close> with each level
  of the cube set as its literal says, so it does not depend on them any more. The cube must have
  a number below \<open>2 ^ 28\<close>, for the key of the cache to keep all its bits.
\<close>

theorem bdd_restrict_correct:
  assumes "session s" "handle s r" "handle s V" "2 \<le> V" "V < 2 ^ 28" "quantvarsetID (ops s) < INT_MAX"
  shows "runs (bdd_restrict r V s) (\<lambda>res t. session t \<and> keeps s t \<and> node_id t res \<and>
    (bdderrorcond t = 0 \<longrightarrow> (\<forall>e. sem t res e =
       sem s r (\<lambda>v. if lit s V v True then True else if lit s V v False then False else e v))))"
  using bdd_restrict_spec [OF assms(1-3,5,6)] assms(4)
  by (elim runs_conseq) (simp add: ends_def res_ok_def restrict_q_def assign_def [abs_def])

lemma ex_quantID [simp]: "quantvarsetID (ops example) < INT_MAX"
  by (simp add: example_sel zero_ops_def INT_MAX_def)

theorem bdd_restrict_correct_example:
  "lit example 3 0 False \<and>
   runs (bdd_restrict 7 3 example) (\<lambda>res t. session t \<and> keeps example t \<and> node_id t res \<and>
    (bdderrorcond t = 0 \<longrightarrow> (\<forall>e. sem t res e =
       sem example 7 (\<lambda>v. if lit example 3 v True then True
         else if lit example 3 v False then False else e v))))"
proof
  show "lit example 3 0 False" using lit_neg [of example 3] by (simp add: ex_inner ex_table_acc ex_table_simps)
qed (rule bdd_restrict_correct [of example 7 3, OF ex_session ex_handles(5) ex_handles(2) _ _ ex_quantID]; simp)

section \<open>Composition\<close>

text \<open>C14. \<open>bdd_compose\<close> puts the function \<open>g\<close> in the place of the variable \<open>var\<close> of \<open>f\<close>.\<close>

theorem bdd_compose_correct:
  assumes "session s" "handle s f" "handle s g" "0 \<le> var" "var < bddvarnum s"
  shows "runs (bdd_compose f g var s) (\<lambda>res t. session t \<and> keeps s t \<and> node_id t res \<and>
    (bdderrorcond t = 0 \<longrightarrow> (\<forall>e. sem t res e = sem s f (e(bddvar2level s var := sem s g e)))))"
  using bdd_compose_spec [OF assms]
  by (rule runs_conseq) (simp add: ends_def res_ok_def compose_sem_def)

theorem bdd_compose_correct_example:
  "session example \<and> handle example 7 \<and> handle example 2 \<and>
   runs (bdd_compose 7 2 1 example) (\<lambda>res t. session t \<and> keeps example t \<and> node_id t res \<and>
    (bdderrorcond t = 0 \<longrightarrow> (\<forall>e. sem t res e =
       sem example 7 (e(bddvar2level example 1 := sem example 2 e)))))"
  using bdd_compose_correct [of example 7 2 1] ex_session ex_handles by (simp add: example_sel)

text \<open>
  C15. \<open>bdd_veccompose\<close> substitutes for all the variables of a pair at once: the functions that the
  pair holds are evaluated under the old assignment.
\<close>

theorem bdd_veccompose_correct:
  assumes "session s" "handle s f" "find_pair a s = Some p"
  shows "runs (bdd_veccompose f a s) (\<lambda>res t. session t \<and> keeps s t \<and> node_id t res \<and>
    (bdderrorcond t = 0 \<longrightarrow> (\<forall>e. sem t res e =
       sem s f (\<lambda>l. if 0 \<le> l \<and> l \<le> p_last p then sem s (p_result p l) e else e l))))"
  using bdd_veccompose_spec [OF assms]
  by (rule runs_conseq) (simp add: ends_def res_ok_def psem_def [abs_def])

theorem bdd_veccompose_correct_example:
  "session paired \<and> handle paired 7 \<and> find_pair 0 paired = Some ex_pair \<and>
   runs (bdd_veccompose 7 0 paired) (\<lambda>res t. session t \<and> keeps paired t \<and> node_id t res \<and>
    (bdderrorcond t = 0 \<longrightarrow> (\<forall>e. sem t res e =
       sem paired 7 (\<lambda>l. if 0 \<le> l \<and> l \<le> p_last ex_pair then sem paired (p_result ex_pair l) e else e l))))"
  using bdd_veccompose_correct [of paired 7 0 ex_pair] paired_session ex_handles paired_sel(5)
  by (simp add: paired_handle)

text \<open>
  C16. \<open>bdd_replace\<close> renames variables: when the pair maps the levels of \<open>r\<close> to different levels below
  the constants, the result is \<open>r\<close> with each level renamed, whatever the order of the new levels
  is (\<open>bdd_correctify\<close> puts a variable that moves down where it belongs).
\<close>

theorem bdd_replace_correct:
  assumes "session s" "handle s r" "find_pair a s = Some p"
    and "inj_on (pmap s p) (levels s r)" "\<forall>l\<in>levels s r. pmap s p l < bddvarnum s"
  shows "runs (bdd_replace r a s) (\<lambda>res t. session t \<and> keeps s t \<and> node_id t res \<and>
    (bdderrorcond t = 0 \<longrightarrow> (\<forall>e. sem t res e = sem s r (\<lambda>l. e (pmap s p l)))))"
  using bdd_replace_spec [OF assms(1-3)] assms(4,5)
  by (elim runs_conseq) (auto simp: ends_def res_ok_def replaced_def renames_def)

theorem bdd_replace_correct_example:
  "inj_on (pmap paired ex_pair) (levels paired 7) \<and> pmap paired ex_pair 0 = 1 \<and> pmap paired ex_pair 1 = 0 \<and>
   runs (bdd_replace 7 0 paired) (\<lambda>res t. session t \<and> keeps paired t \<and> node_id t res \<and>
    (bdderrorcond t = 0 \<longrightarrow> (\<forall>e. sem t res e = sem paired 7 (\<lambda>l. e (pmap paired ex_pair l)))))"
proof -
  have m: "pmap paired ex_pair 0 = 1" "pmap paired ex_pair 1 = 0"
    by (simp_all add: pmap_def ex_pair_def paired_acc ex_table_simps)
  have "node_id paired 7" by (simp add: node_id_def allocd_def paired_acc paired_sel ex_table_simps example_sel)
  then have "levels paired 7 \<subseteq> {0..<2}"
    using levels_range [OF binvD(2,3) [OF sessionD(1) [OF paired_session]], of 7]
    by (simp add: paired_acc paired_sel ex_table_simps)
  moreover have "{0..<2} = {0, 1 :: int}" by auto
  ultimately have l: "levels paired 7 \<subseteq> {0, 1}" by simp
  then have i: "inj_on (pmap paired ex_pair) (levels paired 7)" by (rule inj_on_subset [rotated]) (simp add: inj_on_def m)
  moreover have "\<forall>l\<in>levels paired 7. pmap paired ex_pair l < bddvarnum paired" using l m by (auto simp: paired_sel)
  ultimately show ?thesis
    using bdd_replace_correct [of paired 7 0 ex_pair] m paired_session ex_handles paired_sel(5)
    by (simp add: paired_handle)
qed

end
