(* ===== verification/OpCount.thy ===== *)
theory OpCount
  imports OpSession BddopInfo
begin

text \<open>
  Correctness of the counting functions of \<^verbatim>\<open>src/bddop.c\<close>: \<open>bdd_satcount\<close>,
  \<open>bdd_satcountln\<close> and \<open>bdd_pathcount\<close>. They create no nodes; what changes is the miscellaneous
  cache, which the locale \<open>node_number\<close> deals with once for the three of them.
\<close>

section \<open>Counting sets of levels\<close>

definition models :: "int \<Rightarrow> int \<Rightarrow> ((int \<Rightarrow> bool) \<Rightarrow> bool) \<Rightarrow> nat" where
  "models l h F = card {A. A \<subseteq> {l..<h} \<and> F (\<lambda>v. v \<in> A)}"

lemma models_finite: "finite {A :: int set. A \<subseteq> {l..<h} \<and> P A}"
  by (rule finite_subset [of _ "Pow {l..<h}"]) auto

text \<open>Levels the function does not depend on.\<close>

lemma models_skip:
  assumes l: "l \<le> m" "m \<le> h" and F: "\<And>e e'. (\<And>v. m \<le> v \<Longrightarrow> e v = e' v) \<Longrightarrow> F e = F e'"
  shows "models l h F = 2 ^ nat (m - l) * models m h F"
proof -
  let ?P = "{A. A \<subseteq> {m..<h} \<and> F (\<lambda>v. v \<in> A)}"
  have join: "F (\<lambda>v. v \<in> B \<union> C) = F (\<lambda>v. v \<in> C)" if "B \<subseteq> {l..<m}" for B C
    by (rule F) (use that in auto)
  have eq: "{A. A \<subseteq> {l..<h} \<and> F (\<lambda>v. v \<in> A)} = (\<lambda>(B, C). B \<union> C) ` (Pow {l..<m} \<times> ?P)" (is "?L = ?R")
  proof
    show "?L \<subseteq> ?R"
    proof
      fix A assume A: "A \<in> ?L"
      have "A = A \<inter> {l..<m} \<union> A \<inter> {m..<h}" using A by auto
      moreover have "A \<inter> {m..<h} \<in> ?P" using A join [of "A \<inter> {l..<m}" "A \<inter> {m..<h}"] calculation by auto
      ultimately show "A \<in> ?R" by (intro image_eqI [of _ _ "(A \<inter> {l..<m}, A \<inter> {m..<h})"]) auto
    qed
    show "?R \<subseteq> ?L"
    proof
      fix A assume "A \<in> ?R"
      then obtain B C where A: "A = B \<union> C" "B \<subseteq> {l..<m}" "C \<in> ?P" by auto
      then have "A \<subseteq> {l..<h}" using l by fastforce
      then show "A \<in> ?L" using A join by auto
    qed
  qed
  have "inj_on (\<lambda>(B, C). B \<union> C) (Pow {l..<m} \<times> ?P)"
  proof (rule inj_onI, clarify)
    fix B C B' C' :: "int set"
    assume s: "B \<subseteq> {l..<m}" "B' \<subseteq> {l..<m}" "C \<subseteq> {m..<h}" "C' \<subseteq> {m..<h}" and u: "B \<union> C = B' \<union> C'"
    have "B = (B \<union> C) \<inter> {..<m}" "C = (B \<union> C) \<inter> {m..}" using s by fastforce+
    moreover have "B' = (B' \<union> C') \<inter> {..<m}" "C' = (B' \<union> C') \<inter> {m..}" using s by fastforce+
    ultimately show "B = B' \<and> C = C'" using u by metis
  qed
  then show ?thesis unfolding models_def eq by (simp add: card_image card_cartesian_product card_Pow)
qed

lemma models_split:
  assumes "l < h"
  shows "models l h F = models (l + 1) h (\<lambda>e. F (e(l := False))) + models (l + 1) h (\<lambda>e. F (e(l := True)))"
proof -
  let ?P = "\<lambda>b. {A. A \<subseteq> {l + 1..<h} \<and> F ((\<lambda>v. v \<in> A)(l := b))}"
  have upd: "(\<lambda>v. v \<in> A)(l := False) = (\<lambda>v. v \<in> A)" "(\<lambda>v. v \<in> A)(l := True) = (\<lambda>v. v \<in> insert l A)"
    if "A \<subseteq> {l + 1..<h}" for A using that by (auto simp: fun_eq_iff)
  have "{A. A \<subseteq> {l..<h} \<and> F (\<lambda>v. v \<in> A)} = ?P False \<union> insert l ` ?P True" (is "?L = ?R")
  proof
    show "?L \<subseteq> ?R"
    proof
      fix A assume A: "A \<in> ?L"
      show "A \<in> ?R"
      proof (cases "l \<in> A")
        case True
        have "A - {l} \<subseteq> {l + 1..<h}" "insert l (A - {l}) = A" using A True by fastforce+
        then show ?thesis using A upd(2) [of "A - {l}"] by (intro UnI2 image_eqI [of _ _ "A - {l}"]) auto
      next
        case False
        have "A \<subseteq> {l + 1..<h}"
        proof
          fix v assume "v \<in> A"
          then have "v \<in> {l..<h}" "v \<noteq> l" using A False by auto
          then show "v \<in> {l + 1..<h}" by simp
        qed
        then show ?thesis using A upd(1) [of A] by (intro UnI1) simp
      qed
    qed
    show "?R \<subseteq> ?L" using upd assms by fastforce
  qed
  moreover have "?P False \<inter> insert l ` ?P True = {}" by auto
  moreover have "inj_on (insert l) (?P True)"
  proof (rule inj_onI)
    fix A B assume "A \<in> ?P True" "B \<in> ?P True" "insert l A = insert l B"
    moreover from this have "l \<notin> A" "l \<notin> B" by auto
    ultimately show "A = B" by (simp add: insert_ident)
  qed
  ultimately show ?thesis
    unfolding models_def by (simp add: card_Un_disjoint models_finite card_image)
qed

lemma sats_models: "sats s n = models (LEVEL s n) (bddvarnum s) (sem s n)"
  by (simp add: sats_def models_def)

lemma sats_const:
  assumes "bdd_table s"
  shows "sats s 0 = 0" "sats s 1 = 1"
  using assms by (simp_all add: sats_def bdd_table_def)

lemma sats_from:
  assumes T: "bdd_table s" and I: "tab_inv s" and n: "node_id s n" and l: "l \<le> LEVEL s n"
  shows "models l (bddvarnum s) (sem s n) = 2 ^ nat (LEVEL s n - l) * sats s n"
  unfolding sats_models
proof (rule models_skip [OF l bdd_node(2) [OF T I n]])
  fix e e' :: "int \<Rightarrow> bool" assume "\<And>v. LEVEL s n \<le> v \<Longrightarrow> e v = e' v"
  then show "sem s n e = sem s n e'" by (rule sem_levels [OF T I n])
qed

lemma sats_node:
  assumes T: "bdd_table s" and I: "tab_inv s" and n: "node_id s n" "2 \<le> n"
  shows "sats s n = 2 ^ nat (LEVEL s (LOW s n) - LEVEL s n - 1) * sats s (LOW s n) +
    2 ^ nat (LEVEL s (HIGH s n) - LEVEL s n - 1) * sats s (HIGH s n)"
proof -
  note N = bdd_node [OF T I n(1)] and C = sem_cofactors [OF T I n]
  have e: "(\<lambda>e. sem s n (e(LEVEL s n := False))) = sem s (LOW s n)"
    "(\<lambda>e. sem s n (e(LEVEL s n := True))) = sem s (HIGH s n)" using C by (simp_all add: fun_eq_iff)
  have "LEVEL s n + 1 \<le> LEVEL s (LOW s n)" "LEVEL s n + 1 \<le> LEVEL s (HIGH s n)"
    using N(9,10) n(2) by simp_all
  from sats_from [OF T I N(7) [OF n(2)] this(1)] sats_from [OF T I N(8) [OF n(2)] this(2)] show ?thesis
    unfolding sats_models [of s n] models_split [OF N(5) [OF n(2)]] e by (simp add: algebra_simps)
qed

section \<open>Counting paths\<close>

lemma paths_const:
  assumes "bdd_table s"
  shows "paths s 0 = 0" "paths s 1 = 1"
proof -
  have "{p. path s 0 p} = {}" "{p. path s 1 p} = {[]}"
    by (auto elim: pathE intro: path_end simp: inner_def allocd_def)
  then show "paths s 0 = 0" "paths s 1 = 1" by (simp_all add: paths_def)
qed

lemma path_set:
  "inner s n \<Longrightarrow> {p. path s n p} = Cons False ` {p. path s (LOW s n) p} \<union> Cons True ` {p. path s (HIGH s n) p}"
  by (auto elim: pathE intro: path.intros simp: inner_def allocd_def)

lemma paths_finite:
  assumes "bdd_table s" "tab_inv s" "node_id s n"
  shows "finite {p. path s n p}"
  using assms
proof (induction rule: node_induct)
  case (const n)
  have "finite {p. path s 1 p}" "finite {p. path s 0 p}"
    by (rule finite_subset [of _ "{[]}"]; auto elim: pathE simp: inner_def allocd_def)+
  then show ?case using const by auto
next
  case (node n)
  then show ?case by (simp add: path_set)
qed

lemma paths_node:
  assumes T: "bdd_table s" and I: "tab_inv s" and n: "node_id s n" "2 \<le> n"
  shows "paths s n = paths s (LOW s n) + paths s (HIGH s n)"
proof -
  note N = bdd_node [OF T I n(1)]
  have "paths s n = card (Cons False ` {p. path s (LOW s n) p}) + card (Cons True ` {p. path s (HIGH s n) p})"
    unfolding paths_def path_set [OF N(4) [OF n(2)]]
    using paths_finite [OF T I N(7) [OF n(2)]] paths_finite [OF T I N(8) [OF n(2)]]
    by (intro card_Un_disjoint) auto
  then show ?thesis by (simp add: paths_def card_image)
qed

section \<open>Numbers kept in the miscellaneous cache\<close>

text \<open>The call returns \<open>x\<close>, and only the caches may differ afterwards.\<close>

definition counts :: "bdd_state \<Rightarrow> 'a \<Rightarrow> 'a bm \<Rightarrow> bool" where
  "counts s x m = (\<exists>c. m = ret x (s\<lparr>caches := c\<rparr>) \<and> binv (s\<lparr>caches := c\<rparr>))"

lemma counts_ret: "binv s \<Longrightarrow> x = y \<Longrightarrow> counts s x (ret y s)"
  unfolding counts_def by (rule exI [of _ "caches s"]) simp

lemma counts_bnd:
  assumes "counts s x m" and "\<And>c. binv (s\<lparr>caches := c\<rparr>) \<Longrightarrow> counts (s\<lparr>caches := c\<rparr>) y (k x (s\<lparr>caches := c\<rparr>))"
  shows "counts s y (bnd m k)"
proof -
  obtain c where c: "m = ret x (s\<lparr>caches := c\<rparr>)" "binv (s\<lparr>caches := c\<rparr>)" using assms(1) by (auto simp: counts_def)
  show ?thesis using assms(2) [OF c(2)] unfolding c(1) by (auto simp: counts_def)
qed

text \<open>A number of a node that the miscellaneous cache records under the key \<open>key\<close>.\<close>

locale node_number =
  fixes key :: int and num :: "bdd_state \<Rightarrow> int \<Rightarrow> real"
  assumes entry: "c_c e = key \<Longrightarrow> misc_entry s e = (node_id s (c_a e) \<and> c_dres e = num s (c_a e))"
    and num_caches: "num (s\<lparr>caches := c\<rparr>) = num s"
begin

lemma counted_ok:
  assumes I: "binv s" and n: "node_id s r" and key: "miscid (ops s) = key" and m: "counts s (num s r) (m s)"
  shows "counts s (num s r) (counted h r m s)"
proof -
  let ?i = "BddCache_lookup (misccache (caches s)) h"
  let ?e = "table (misccache (caches s)) ?i"
  have eq: "counted h r m s = (if BddCache_is_valid (misccache (caches s)) ?i \<and> c_a ?e = r \<and> c_c ?e = key
      then ret (c_dres ?e) s
      else bnd (m s) (\<lambda>x s. ret x (store misccache_update
           (\<lambda>e. e\<lparr>c_a := r, c_c := miscid (ops s), c_dres := x\<rparr>) ?i s)))"
    unfolding counted_def lookup_eq [where sel = misccache and s = s, OF binv_tables(6) [OF I]] Let_def key ..
  show ?thesis
  proof (cases "BddCache_is_valid (misccache (caches s)) ?i \<and> c_a ?e = r \<and> c_c ?e = key")
    case True
    then have "c_dres ?e = num s r" using hits(5) [OF I] entry [of ?e s] by auto
    then show ?thesis using True I unfolding eq by (simp add: counts_ret)
  next
    case False
    show ?thesis
      unfolding eq if_not_P [OF False]
    proof (rule counts_bnd [OF m])
      fix c assume B: "binv (s\<lparr>caches := c\<rparr>)"
      let ?t = "s\<lparr>caches := c\<rparr>"
      let ?f = "\<lambda>e :: BddCacheData. e\<lparr>c_a := r, c_c := miscid (ops ?t), c_dres := num s r\<rparr>"
      have "misc_entry ?t (written ?f ?i (misccache (caches ?t)))"
        using n key by (simp add: entry written_def num_caches)
      from stores(5) [OF fr.invD(2) [OF B] this] have "caches_ok (store misccache_update ?f ?i ?t)" .
      then have "binv (store misccache_update ?f ?i ?t)"
        using fr.invD(1) [OF B] by (simp add: fr.inv_def store_def)
      then show "counts ?t (num s r) (ret (num s r) (store misccache_update ?f ?i ?t))"
        unfolding counts_def store_def by (intro exI conjI) simp_all
    qed
  qed
qed

text \<open>The recursion over both children.\<close>

lemma children_ok:
  assumes I: "binv s" and n: "node_id s r" "2 \<le> r" and key: "miscid (ops s) = key"
    and rec: "\<And>s1 c. binv s1 \<Longrightarrow> node_id s1 c \<Longrightarrow> miscid (ops s1) = key \<Longrightarrow> dep s1 c < dep s r \<Longrightarrow>
        counts s1 (num s1 c) (m c s1)"
    and C: "\<And>c c'. C (s\<lparr>caches := c\<rparr>) (s\<lparr>caches := c'\<rparr>) (num s (LOW s r)) (num s (HIGH s r)) = num s r"
  shows "counts s (num s r) (counted h r (\<lambda>s.
    bnd (m (LOW s r) s) (\<lambda>x s. bnd (m (HIGH s r) s) (\<lambda>y s'. ret (C s s' x y) s'))) s)"
proof (rule counted_ok [OF I n(1) key])
  note N = bdd_node [OF binvD(2,3) [OF I] n(1)]
  have d: "dep s (LOW s r) < dep s r" "dep s (HIGH s r) < dep s r"
    using N(5,9,10) n(2) by (auto simp: dep_def)
  show "counts s (num s r) (bnd (m (LOW s r) s) (\<lambda>x s. bnd (m (HIGH s r) s) (\<lambda>y s'. ret (C s s' x y) s')))"
  proof (rule counts_bnd [where x = "num s (LOW s r)"])
    show "counts s (num s (LOW s r)) (m (LOW s r) s)" using rec [OF I N(7)] n(2) key d(1) by simp
    fix c assume B: "binv (s\<lparr>caches := c\<rparr>)"
    have "counts (s\<lparr>caches := c\<rparr>) (num s (HIGH s r)) (m (HIGH s r) (s\<lparr>caches := c\<rparr>))"
      using rec [OF B, of "HIGH s r"] N(8) n(2) key d(2) by (simp add: num_caches dep_def)
    moreover have "counts (s\<lparr>caches := c\<rparr>\<lparr>caches := c'\<rparr>) (num s r)
        (ret (C (s\<lparr>caches := c\<rparr>) (s\<lparr>caches := c\<rparr>\<lparr>caches := c'\<rparr>) (num s (LOW s r)) (num s (HIGH s r)))
          (s\<lparr>caches := c\<rparr>\<lparr>caches := c'\<rparr>))" if "binv (s\<lparr>caches := c\<rparr>\<lparr>caches := c'\<rparr>)" for c'
      using that C [of c c'] by (intro counts_ret) simp_all
    ultimately show "counts (s\<lparr>caches := c\<rparr>) (num s r) (bnd (m (HIGH (s\<lparr>caches := c\<rparr>) r) (s\<lparr>caches := c\<rparr>))
        (\<lambda>y s'. ret (C (s\<lparr>caches := c\<rparr>) s' (num s (LOW s r)) y) s'))"
      using counts_bnd [of "s\<lparr>caches := c\<rparr>" "num s (HIGH s r)" "m (HIGH s r) (s\<lparr>caches := c\<rparr>)" "num s r"
          "\<lambda>y s'. ret (C (s\<lparr>caches := c\<rparr>) s' (num s (LOW s r)) y) s'"] by simp
  qed
qed

end

interpretation sc: node_number CACHEID_SATCOU "\<lambda>s n. real (sats s n)"
  by unfold_locales (simp_all add: misc_entry_def cacheid_defs)

interpretation sl: node_number CACHEID_SATCOULN log_sats
  by unfold_locales (simp_all add: misc_entry_def cacheid_defs)

interpretation pc: node_number CACHEID_PATHCOU "\<lambda>s n. real (paths s n)"
  by unfold_locales (simp_all add: misc_entry_def cacheid_defs)

section \<open>The recursions\<close>

lemma node_const: "node_id s r \<Longrightarrow> \<not> 2 \<le> r \<Longrightarrow> r = 0 \<or> r = 1"
  by (auto simp: node_id_def allocd_def)

lemma satcount_rec_spec:
  "binv s \<Longrightarrow> node_id s r \<Longrightarrow> miscid (ops s) = CACHEID_SATCOU \<Longrightarrow> dep s r < k \<Longrightarrow>
   counts s (real (sats s r)) (satcount_rec k r s)"
proof (induction k arbitrary: r s)
  case 0
  then show ?case by simp
next
  case (Suc k)
  note B = binvD(2,3) [OF Suc.prems(1)] and n = Suc.prems(2)
  show ?case
  proof (cases "2 \<le> r")
    case False
    then show ?thesis
      using node_const [OF n] sats_const [OF B(1)] Suc.prems(1) by (auto intro: counts_ret)
  next
    case True
    note N = bdd_node [OF B n] and S = sats_node [OF B n True]
    have "real (sats s r) = 2 powi (LEVEL s (LOW s r) - LEVEL s r - 1) * real (sats s (LOW s r)) +
        2 powi (LEVEL s (HIGH s r) - LEVEL s r - 1) * real (sats s (HIGH s r))"
      using N(9,10) [OF True] unfolding S by (simp add: power_int_def)
    then show ?thesis
      using True Suc.prems sc.children_ok [OF Suc.prems(1) n True Suc.prems(3), where
          C = "\<lambda>_ s x y. 2 powi (LEVEL s (LOW s r) - LEVEL s r - 1) * x + 2 powi (LEVEL s (HIGH s r) - LEVEL s r - 1) * y"
          and m = "satcount_rec k"] Suc.IH
      by simp
  qed
qed

lemma pathcount_rec_spec:
  "binv s \<Longrightarrow> node_id s r \<Longrightarrow> miscid (ops s) = CACHEID_PATHCOU \<Longrightarrow> dep s r < k \<Longrightarrow>
   counts s (real (paths s r)) (bdd_pathcount_rec k r s)"
proof (induction k arbitrary: r s)
  case 0
  then show ?case by simp
next
  case (Suc k)
  note B = binvD(2,3) [OF Suc.prems(1)] and n = Suc.prems(2)
  show ?case
  proof (cases "2 \<le> r")
    case False
    then show ?thesis
      using node_const [OF n] paths_const [OF B(1)] Suc.prems(1)
      by (auto intro: counts_ret simp: ISZERO_def ISONE_def)
  next
    case True
    then show ?thesis
      using Suc.prems paths_node [OF B n True] pc.children_ok [OF Suc.prems(1) n True Suc.prems(3), where
          C = "\<lambda>_ _. (+)" and m = "bdd_pathcount_rec k"] Suc.IH
      by (simp add: ISZERO_def ISONE_def)
  qed
qed

text \<open>The logarithm of a sum of two terms, each from its logarithm.\<close>

lemma log_add:
  assumes "0 < x" "0 < y"
  shows "log 2 x + log1p_over_ln2 (2 powr (log 2 y - log 2 x)) = log 2 (x + y)"
proof -
  have "2 powr (log 2 y - log 2 x) = y / x" using assms by (simp add: powr_diff)
  moreover have "log1p_over_ln2 (y / x) = log 2 (1 + y / x)" by (simp add: log1p_over_ln2_def log_def)
  moreover have "log 2 x + log 2 (1 + y / x) = log 2 (x * (1 + y / x))"
    using assms add_pos_pos [of 1 "y / x"] by (simp add: log_mult)
  moreover have "x * (1 + y / x) = x + y" using assms by (simp add: field_simps)
  ultimately show ?thesis by simp
qed

lemma log_shift: "0 < n \<Longrightarrow> 0 \<le> k \<Longrightarrow> log 2 (real n) + of_int k = log 2 (real (2 ^ nat k * n))"
  by (simp add: log_mult log_nat_power)

definition log_of :: "nat \<Rightarrow> real" where
  "log_of n = (if n = 0 then -1 else log 2 (real n))"

lemma log_sats_of: "log_sats s n = log_of (sats s n)"
  by (simp add: log_sats_def log_of_def)

lemma log_of_pos: "0 < n \<Longrightarrow> 0 \<le> log_of n"
  by (simp add: log_of_def)

text \<open>The two steps of the recursion on logarithms.\<close>

definition ln_up :: "int \<Rightarrow> real \<Rightarrow> real" where
  "ln_up k x = (if x \<ge> 0 then x + of_int k else x)"

definition ln_sum :: "real \<Rightarrow> real \<Rightarrow> real" where
  "ln_sum x y = (if x < 0 then y else if y < 0 then x
     else if x < y then y + log1p_over_ln2 (2 powr (x - y)) else x + log1p_over_ln2 (2 powr (y - x)))"

lemma ln_up_of: "0 \<le> k \<Longrightarrow> ln_up k (log_of n) = log_of (2 ^ nat k * n)"
  using log_shift [of n k] by (auto simp: ln_up_def log_of_def)

lemma ln_sum_of: "ln_sum (log_of m) (log_of n) = log_of (m + n)"
proof (cases "m = 0 \<or> n = 0")
  case True
  then show ?thesis using log_of_pos [of m] log_of_pos [of n] by (auto simp: ln_sum_def log_of_def)
next
  case False
  then show ?thesis
    using log_of_pos [of m] log_of_pos [of n] log_add [of "real m" "real n"] log_add [of "real n" "real m"]
    by (simp add: ln_sum_def log_of_def add.commute)
qed

lemma satcountln_rec_spec:
  "binv s \<Longrightarrow> node_id s r \<Longrightarrow> miscid (ops s) = CACHEID_SATCOULN \<Longrightarrow> dep s r < k \<Longrightarrow>
   counts s (log_sats s r) (satcountln_rec k r s)"
proof (induction k arbitrary: r s)
  case 0
  then show ?case by simp
next
  case (Suc k)
  note B = binvD(2,3) [OF Suc.prems(1)] and n = Suc.prems(2)
  show ?case
  proof (cases "2 \<le> r")
    case False
    then show ?thesis
      using node_const [OF n] sats_const [OF B(1)] Suc.prems(1) by (auto intro: counts_ret simp: log_sats_def)
  next
    case True
    note N = bdd_node [OF B n] and S = sats_node [OF B n True]
    have "ln_sum (ln_up (LEVEL s (LOW s r) - LEVEL s r - 1) (log_sats s (LOW s r)))
        (ln_up (LEVEL s (HIGH s r) - LEVEL s r - 1) (log_sats s (HIGH s r))) = log_sats s r"
      using N(9,10) [OF True] unfolding log_sats_of S by (simp add: ln_up_of ln_sum_of)
    then have "counts s (log_sats s r) (counted (SATCOUHASH r) r (\<lambda>s.
        bnd (satcountln_rec k (LOW s r) s) (\<lambda>x s1. bnd (satcountln_rec k (HIGH s1 r) s1) (\<lambda>y s2.
        ret (ln_sum (ln_up (LEVEL s1 (LOW s1 r) - LEVEL s1 r - 1) x)
               (ln_up (LEVEL s2 (HIGH s2 r) - LEVEL s2 r - 1) y)) s2))) s)"
      using Suc.prems(4) by (intro sl.children_ok [OF Suc.prems(1) n True Suc.prems(3)] Suc.IH) simp_all
    then show ?thesis using True by (simp add: ln_sum_def ln_up_def Let_def)
  qed
qed

section \<open>The operations\<close>

text \<open>What the three operations set before they start.\<close>

lemma counts_session:
  assumes S: "session s" and m: "counts (set_ops g s) x m"
    and g: "cacheratio (g (ops s)) = cacheratio (ops s)" "quantvarsetID (g (ops s)) = quantvarsetID (ops s)"
      "quantvarset (g (ops s)) = quantvarset (ops s)"
  shows "\<exists>t. m = ret x t \<and> session t \<and> keeps s t"
proof -
  from m obtain c where c: "m = ret x (set_ops g s\<lparr>caches := c\<rparr>)" "binv (set_ops g s\<lparr>caches := c\<rparr>)"
    by (auto simp: counts_def)
  let ?t = "set_ops g s\<lparr>caches := c\<rparr>"
  have "ext (set_ops (\<lambda>_. g (ops s)) (INITREF s)) ?t"
    unfolding ext_def by (auto simp: same_node_def set_ops_def INITREF_def LEVEL_def LOW_def HIGH_def stat_def)
  then have k: "keeps s ?t" unfolding keeps_def by blast
  moreover have "session ?t"
    using sessionD(2,5) [OF S] g by (intro session_keeps [OF S k c(2)]) (simp_all add: ratio_ok_def quant_table_def)
  ultimately show ?thesis using c(1) by blast
qed

lemma opened_key:
  assumes S: "session s" and r: "handle s r"
  shows "binv (set_ops g s)" "node_id (set_ops g s) r" "dep (set_ops g s) r < op_fuel (set_ops g s)"
    "sats (set_ops g s) = sats s" "log_sats (set_ops g s) = log_sats s" "paths (set_ops g s) = paths s"
proof -
  show "binv (set_ops g s)" using binv_core [of s "set_ops g s"] sessionD(1) [OF S] by simp
  show "node_id (set_ops g s) r" using r same_core_eqs(5) [of s "set_ops g s"] by (simp add: handle_iff)
  show "dep (set_ops g s) r < op_fuel (set_ops g s)"
    using dep_le [OF S r] by (simp add: dep_def op_fuel_def LEVEL_def)
  show "sats (set_ops g s) = sats s" "log_sats (set_ops g s) = log_sats s" "paths (set_ops g s) = paths s"
    by (rule core_counts core_eq; simp)+
qed

lemma bdd_satcount_spec:
  assumes S: "session s" and r: "handle s r"
  shows "\<exists>t. bdd_satcount r s = ret (real (models 0 (bddvarnum s) (sem s r))) t \<and> session t \<and> keeps s t"
proof -
  let ?g = "\<lambda>g. g\<lparr>miscid := CACHEID_SATCOU\<rparr>"
  note O = opened_key [OF S r, of ?g]
  have n: "node_id s r" using r by (simp add: handle_iff)
  note B = binvD(2,3) [OF sessionD(1) [OF S]]
  have lv: "0 \<le> LEVEL s r" by (rule bdd_node(1) [OF B n])
  have eq: "real (models 0 (bddvarnum s) (sem s r)) = 2 powi LEVEL s r * real (sats s r)"
    using lv unfolding sats_from [OF B n lv] by (simp add: power_int_def)
  have "counts (set_ops ?g s) (real (models 0 (bddvarnum s) (sem s r)))
      (bnd (satcount_rec (op_fuel (set_ops ?g s)) r (set_ops ?g s)) (\<lambda>x s. ret (2 powi LEVEL s r * x) s))"
  proof (rule counts_bnd [OF satcount_rec_spec [OF O(1,2) _ O(3)]])
    fix c assume "binv (set_ops ?g s\<lparr>caches := c\<rparr>)"
    then show "counts (set_ops ?g s\<lparr>caches := c\<rparr>) (real (models 0 (bddvarnum s) (sem s r)))
        (ret (2 powi LEVEL (set_ops ?g s\<lparr>caches := c\<rparr>) r * real (sats (set_ops ?g s) r)) (set_ops ?g s\<lparr>caches := c\<rparr>))"
      by (intro counts_ret) (simp_all add: eq O(4) LEVEL_def)
  qed simp
  from counts_session [OF S this] show ?thesis
    by (simp add: bdd_satcount_def CHECKa_ok [OF S r] Let_def)
qed

lemma bdd_pathcount_spec:
  assumes S: "session s" and r: "handle s r"
  shows "\<exists>t. bdd_pathcount r s = ret (real (paths s r)) t \<and> session t \<and> keeps s t"
proof -
  let ?g = "\<lambda>g. g\<lparr>miscid := CACHEID_PATHCOU\<rparr>"
  note O = opened_key [OF S r, of ?g]
  have "counts (set_ops ?g s) (real (paths s r)) (bdd_pathcount_rec (op_fuel (set_ops ?g s)) r (set_ops ?g s))"
    using pathcount_rec_spec [OF O(1,2) _ O(3)] O(6) by simp
  from counts_session [OF S this] show ?thesis
    by (simp add: bdd_pathcount_def CHECKa_ok [OF S r] Let_def)
qed

lemma bdd_satcountln_spec:
  assumes S: "session s" and r: "handle s r"
  shows "\<exists>t. bdd_satcountln r s = ret (log_of (models 0 (bddvarnum s) (sem s r))) t \<and> session t \<and> keeps s t"
proof -
  let ?g = "\<lambda>g. g\<lparr>miscid := CACHEID_SATCOULN\<rparr>"
  note O = opened_key [OF S r, of ?g]
  have n: "node_id s r" using r by (simp add: handle_iff)
  note B = binvD(2,3) [OF sessionD(1) [OF S]]
  have lv: "0 \<le> LEVEL s r" by (rule bdd_node(1) [OF B n])
  have eq: "log_of (models 0 (bddvarnum s) (sem s r)) = ln_up (LEVEL s r) (log_sats s r)"
    using lv unfolding sats_from [OF B n lv] log_sats_of by (simp add: ln_up_of)
  have "counts (set_ops ?g s) (log_of (models 0 (bddvarnum s) (sem s r)))
      (bnd (satcountln_rec (op_fuel (set_ops ?g s)) r (set_ops ?g s)) (\<lambda>x s. ret (ln_up (LEVEL s r) x) s))"
  proof (rule counts_bnd [OF satcountln_rec_spec [OF O(1,2) _ O(3)]])
    fix c assume "binv (set_ops ?g s\<lparr>caches := c\<rparr>)"
    then show "counts (set_ops ?g s\<lparr>caches := c\<rparr>) (log_of (models 0 (bddvarnum s) (sem s r)))
        (ret (ln_up (LEVEL (set_ops ?g s\<lparr>caches := c\<rparr>) r) (log_sats (set_ops ?g s) r)) (set_ops ?g s\<lparr>caches := c\<rparr>))"
      by (intro counts_ret) (simp_all add: eq O(5) LEVEL_def)
  qed simp
  from counts_session [OF S this] show ?thesis
    by (simp add: bdd_satcountln_def CHECKa_ok [OF S r] Let_def ln_up_def)
qed

end
