(* ===== verification/PropsQuant.thy ===== *)
theory PropsQuant
  imports Example OpQuant OpCount
begin

text \<open>
  The properties of quantification, of the combined operators and of the counting functions. A
  variable set is a chain of \<open>HIGH\<close> edges; \<open>vset s V\<close> are the levels on it. Its number must be
  below \<open>2 ^ 22\<close>, for the key of the cache to keep all its bits.
\<close>

section \<open>Quantification\<close>

lemma quantifiers:
  "bdd_exist = quantify (join_op 0) 0" "bdd_forall = quantify (join_op 1) 1"
  "bdd_appex = appquant (join_op 0) 0 (0 + 3)" "bdd_appall = appquant (join_op 1) 1 (1 + 3)"
  by (simp_all add: bdd_exist_def bdd_forall_def bdd_appex_def bdd_appall_def join_op_def cacheid_defs)

text \<open>C17. \<open>bdd_exist\<close> quantifies existentially over the variables of the set \<open>V\<close>.\<close>

theorem bdd_exist_correct:
  assumes "session s" "handle s r" "handle s V" "2 \<le> V" "V < 2 ^ 22" "quantvarsetID (ops s) < INT_MAX"
  shows "runs (bdd_exist r V s) (\<lambda>res t. session t \<and> keeps s t \<and> node_id t res \<and>
    (bdderrorcond t = 0 \<longrightarrow> (\<forall>e. sem t res e =
       (\<exists>e'. (\<forall>v. v \<notin> vset s V \<longrightarrow> e' v = e v) \<and> sem s r e'))))"
  using quantify_spec [OF assms, of 0] unfolding quantifiers
  by (auto elim!: runs_conseq simp: ends_def res_ok_def quant_sem_def ex_q_def)

theorem bdd_exist_correct_example:
  "handle example 4 \<and> runs (bdd_exist 7 4 example) (\<lambda>res t. session t \<and> keeps example t \<and> node_id t res \<and>
    (bdderrorcond t = 0 \<longrightarrow> (\<forall>e. sem t res e =
       (\<exists>e'. (\<forall>v. v \<notin> vset example 4 \<longrightarrow> e' v = e v) \<and> sem example 7 e'))))"
  by (intro conjI ex_handles bdd_exist_correct ex_session)
    (simp_all add: example_sel zero_ops_def INT_MAX_def)

text \<open>Dually, \<open>bdd_forall\<close> quantifies universally over the variables of the set \<open>V\<close>.\<close>

lemma bdd_forall_correct:
  assumes "session s" "handle s r" "handle s V" "2 \<le> V" "V < 2 ^ 22" "quantvarsetID (ops s) < INT_MAX"
  shows "runs (bdd_forall r V s) (\<lambda>res t. session t \<and> keeps s t \<and> node_id t res \<and>
    (bdderrorcond t = 0 \<longrightarrow> (\<forall>e. sem t res e =
       (\<forall>e'. (\<forall>v. v \<notin> vset s V \<longrightarrow> e' v = e v) \<longrightarrow> sem s r e'))))"
  using quantify_spec [OF assms, of 1] unfolding quantifiers
  by (auto elim!: runs_conseq simp: ends_def res_ok_def quant_sem_def all_q_def)

lemma bdd_forall_correct_example:
  "handle example 2 \<and> runs (bdd_forall 7 2 example) (\<lambda>res t. session t \<and> keeps example t \<and> node_id t res \<and>
    (bdderrorcond t = 0 \<longrightarrow> (\<forall>e. sem t res e =
       (\<forall>e'. (\<forall>v. v \<notin> vset example 2 \<longrightarrow> e' v = e v) \<longrightarrow> sem example 7 e'))))"
  by (intro conjI ex_handles bdd_forall_correct ex_session)
    (simp_all add: example_sel zero_ops_def INT_MAX_def)

text \<open>
  C18. \<open>bdd_appex\<close> computes in one pass what applying the operator and then quantifying existentially
  denotes.
\<close>

theorem bdd_appex_correct:
  assumes "session s" "handle s l" "handle s r" "handle s V" "2 \<le> V" "V < 2 ^ 22"
    and "0 \<le> opr" "opr \<le> bddop_invimp" "quantvarsetID (ops s) < INT_MAX"
  shows "runs (bdd_appex l r opr V s) (\<lambda>res t. session t \<and> keeps s t \<and> node_id t res \<and>
    (bdderrorcond t = 0 \<longrightarrow> (\<forall>e. sem t res e =
       (\<exists>e'. (\<forall>v. v \<notin> vset s V \<longrightarrow> e' v = e v) \<and> bool_op opr (sem s l e') (sem s r e')))))"
  using appquant_spec [OF assms, of 0] unfolding quantifiers
  by (auto elim!: runs_conseq simp: ends_def res_ok_def quant_sem_def ex_q_def)

theorem bdd_appex_correct_example:
  "handle example 4 \<and> runs (bdd_appex 7 2 bddop_and 4 example) (\<lambda>res t. session t \<and> keeps example t \<and> node_id t res \<and>
    (bdderrorcond t = 0 \<longrightarrow> (\<forall>e. sem t res e =
       (\<exists>e'. (\<forall>v. v \<notin> vset example 4 \<longrightarrow> e' v = e v) \<and>
          bool_op bddop_and (sem example 7 e') (sem example 2 e')))))"
  by (intro conjI ex_handles bdd_appex_correct ex_session)
    (simp_all add: example_sel zero_ops_def INT_MAX_def bddop_and_def bddop_invimp_def)

text \<open>
  Dually, \<open>bdd_appall\<close> computes in one pass what applying the operator and then quantifying universally
  denotes.
\<close>

lemma bdd_appall_correct:
  assumes "session s" "handle s l" "handle s r" "handle s V" "2 \<le> V" "V < 2 ^ 22"
    and "0 \<le> opr" "opr \<le> bddop_invimp" "quantvarsetID (ops s) < INT_MAX"
  shows "runs (bdd_appall l r opr V s) (\<lambda>res t. session t \<and> keeps s t \<and> node_id t res \<and>
    (bdderrorcond t = 0 \<longrightarrow> (\<forall>e. sem t res e =
       (\<forall>e'. (\<forall>v. v \<notin> vset s V \<longrightarrow> e' v = e v) \<longrightarrow> bool_op opr (sem s l e') (sem s r e')))))"
  using appquant_spec [OF assms, of 1] unfolding quantifiers
  by (auto elim!: runs_conseq simp: ends_def res_ok_def quant_sem_def all_q_def)

lemma bdd_appall_correct_example:
  "handle example 2 \<and> runs (bdd_appall 7 4 bddop_or 2 example) (\<lambda>res t. session t \<and> keeps example t \<and> node_id t res \<and>
    (bdderrorcond t = 0 \<longrightarrow> (\<forall>e. sem t res e =
       (\<forall>e'. (\<forall>v. v \<notin> vset example 2 \<longrightarrow> e' v = e v) \<longrightarrow>
          bool_op bddop_or (sem example 7 e') (sem example 4 e')))))"
  by (intro conjI ex_handles bdd_appall_correct ex_session)
    (simp_all add: example_sel zero_ops_def INT_MAX_def bddop_or_def bddop_invimp_def)

section \<open>Counting\<close>



text \<open>
  \<open>bdd_satcountln\<close> returns the binary logarithm of the number of satisfying assignments, and -1
  for the constant false.
\<close>

lemma bdd_satcountln_correct:
  assumes "session s" "handle s r"
  shows "let n = card {A. A \<subseteq> {0..<bddvarnum s} \<and> sem s r (\<lambda>v. v \<in> A)} in
    \<exists>t. bdd_satcountln r s = ret (if n = 0 then -1 else log 2 (real n)) t \<and> session t \<and> keeps s t"
  using bdd_satcountln_spec [OF assms] by (simp add: models_def log_of_def Let_def)

lemma bdd_satcountln_correct_example:
  "let n = card {A. A \<subseteq> {0..<bddvarnum example} \<and> sem example 7 (\<lambda>v. v \<in> A)} in
    \<exists>t. bdd_satcountln 7 example = ret (if n = 0 then -1 else log 2 (real n)) t \<and> session t \<and> keeps example t"
  by (rule bdd_satcountln_correct [OF ex_session ex_handles(5)])



end
