(* ===== verification/OpRefs.thy ===== *)
theory OpRefs
  imports OpSession "HOL-Library.Multiset"
begin

text \<open>
  The client's side of the interface: a ledger of owned references. \<open>own E L s\<close> says that \<open>s\<close> is a
  session in which the client holds, for each entry \<open>(n, F)\<close> of the multiset \<open>L\<close>, one reference
  on a node \<open>n\<close> that stands for \<open>F\<close>. The rules at the end are what the code above the diagram
  operations (Boolean vectors, finite domains) is verified with; no garbage collection appears in them.
\<close>

section \<open>States that differ in reference counts\<close>

definition same_shape :: "bdd_state \<Rightarrow> bdd_state \<Rightarrow> bool" where
  "same_shape s t =
     (bddnodesize t = bddnodesize s \<and> LEVEL t = LEVEL s \<and> LOW t = LOW s \<and> HIGH t = HIGH s)"

lemma shape_acc:
  assumes "same_shape s t"
  shows "LEVEL t = LEVEL s" "LOW t = LOW s" "HIGH t = HIGH s" "inner t = inner s"
    "node_id t = node_id s" "allocd t = allocd s" "bddnodesize t = bddnodesize s"
  using assms by (simp_all add: same_shape_def fun_eq_iff inner_def node_id_def allocd_def)

lemma shape_sym: "same_shape s t \<Longrightarrow> same_shape t s"
  by (simp add: same_shape_def)

lemma shape_walks:
  assumes S: "same_shape s t"
  shows "evals s e n b \<Longrightarrow> evals t e n b" "inset s n v \<Longrightarrow> inset t n v" "lit s n v b \<Longrightarrow> lit t n v b"
    "path s n p \<Longrightarrow> path t n p" "reach s n m \<Longrightarrow> reach t n m"
proof -
  note A = shape_acc(1-4) [OF S]
  show "evals s e n b \<Longrightarrow> evals t e n b"
    by (induction rule: evals.induct) (auto intro: evals.intros [of t, unfolded A])
  show "inset s n v \<Longrightarrow> inset t n v"
    by (induction rule: inset.induct) (auto intro: inset.intros [of t, unfolded A])
  show "lit s n v b \<Longrightarrow> lit t n v b"
    by (induction rule: lit.induct) (auto intro: lit.intros [of t, unfolded A])
  show "path s n p \<Longrightarrow> path t n p"
    by (induction rule: path.induct) (auto intro: path.intros [of t, unfolded A])
  show "reach s n m \<Longrightarrow> reach t n m"
    by (induction rule: reach.induct) (auto intro: reach.intros [of t, unfolded A])
qed

lemma shape_eqs:
  assumes S: "same_shape s t" and v: "bddvarnum t = bddvarnum s"
  shows "sem t = sem s" "vset t = vset s" "lit t = lit s" "paths t = paths s" "levels t = levels s"
    "pmap t = pmap s" "psem t = psem s" "pair_nodes t = pair_nodes s" "sats t = sats s"
    "log_sats t = log_sats s" "renames t = renames s"
proof -
  note A = shape_acc [OF S] and W = shape_walks [OF S] shape_walks [OF shape_sym [OF S]]
  show s: "sem t = sem s" unfolding sem_def using W(1,6) by (intro HOL.ext) blast
  show "vset t = vset s" unfolding vset_def using W(2,7) by (intro HOL.ext) blast
  show "lit t = lit s" using W(3,8) by (intro HOL.ext) blast
  show "paths t = paths s" unfolding paths_def using W(4,9) by (intro HOL.ext arg_cong [of _ _ card]) blast
  have "reach t = reach s" using W(5,10) by (intro HOL.ext) blast
  then show l: "levels t = levels s" by (simp add: fun_eq_iff levels_def A)
  show p: "pmap t = pmap s" "psem t = psem s" "pair_nodes t = pair_nodes s"
    by (simp_all add: fun_eq_iff pmap_def psem_def pair_nodes_def A s)
  show n: "sats t = sats s" by (simp add: fun_eq_iff sats_def A s v)
  show "log_sats t = log_sats s" by (simp add: fun_eq_iff log_sats_def n)
  show "renames t = renames s" by (simp add: fun_eq_iff renames_def l p v)
qed

text \<open>A state with other reference counts.\<close>

definition recounted :: "bdd_state \<Rightarrow> bdd_state \<Rightarrow> bool" where
  "recounted s t =
     (\<exists>c. t = s\<lparr>bddnodes := (\<lambda>n. (bddnodes s n)\<lparr>n_refcou := c n\<rparr>)\<rparr> \<and>
          (\<forall>n. 0 \<le> c n \<and> c n \<le> MAXREF) \<and> (\<forall>n. \<not> allocd s n \<longrightarrow> c n = n_refcou (bddnodes s n)) \<and>
          (\<forall>n. n_refcou (bddnodes s n) = MAXREF \<longrightarrow> c n = MAXREF))"

lemma recounted_shape:
  assumes "recounted s t"
  shows "same_shape s t" "stat t = stat s" "caches t = caches s" "bddrefstack t = bddrefstack s"
    "bdderrorcond t = bdderrorcond s" "bddvarnum t = bddvarnum s" "ops t = ops s"
proof -
  from assms obtain c where t: "t = s\<lparr>bddnodes := (\<lambda>n. (bddnodes s n)\<lparr>n_refcou := c n\<rparr>)\<rparr>"
    by (auto simp: recounted_def)
  have "LEVEL t n = LEVEL s n" "LOW t n = LOW s n" "HIGH t n = HIGH s n" for n
    unfolding t LEVEL_def LOW_def HIGH_def by simp_all
  then show "same_shape s t" by (simp add: same_shape_def fun_eq_iff t)
  show "stat t = stat s" "caches t = caches s" "bddrefstack t = bddrefstack s"
    "bdderrorcond t = bdderrorcond s" "bddvarnum t = bddvarnum s" "ops t = ops s"
    by (simp_all add: t)
qed

lemma recounted_tab:
  assumes R: "recounted s t" and I: "tab_inv s"
  shows "tab_inv t"
proof -
  from R obtain c where t: "t = s\<lparr>bddnodes := (\<lambda>n. (bddnodes s n)\<lparr>n_refcou := c n\<rparr>)\<rparr>"
    and c: "\<And>n. 0 \<le> c n \<and> c n \<le> MAXREF" "\<And>n. \<not> allocd s n \<Longrightarrow> c n = n_refcou (bddnodes s n)"
    by (auto simp: recounted_def)
  note A = shape_acc [OF recounted_shape(1) [OF R]]
  have m: "mtvals t = mtvals s" by (simp add: t)
  have h: "gbc_hash t n = gbc_hash s n" for n by (rule gbc_hash_cong) (simp_all add: A m)
  have e: "nx t = nx s" "bucket t = bucket s" "MARKED t = MARKED s"
    by (simp_all add: fun_eq_iff nx_def bucket_def MARKED_def t)
  have "refs_ok t"
    using tab_invD(7) [OF I] c unfolding refs_ok_def A by (auto simp: t allocd_def)
  moreover have g: "bddfreepos t = bddfreepos s" "bddfreenum t = bddfreenum s" "bddrefstack t = bddrefstack s"
    by (simp_all add: t)
  ultimately show ?thesis
    using I unfolding tab_inv_def size_ok_def consts_ok_def wf_nodes_def unique_nodes_def built_def
      bucket_ok_def free_ok_def marks_clear_def stack_ok_def slots_distinct_def below_def A e h g m
    by blast
qed

lemma recounted_binv:
  assumes R: "recounted s t" and I: "binv s"
  shows "binv t"
proof -
  note A = shape_acc [OF recounted_shape(1) [OF R]] and S = recounted_shape [OF R]
  have d: "bddrunning t = bddrunning s" "mtbdd t = mtbdd s" "checkSameChildren t = checkSameChildren s"
    "pairs t = pairs s" "pairsid t = pairsid s"
    using R by (auto simp: recounted_def)
  have "env_ok t = env_ok s" by (rule env_ok_stat [OF S(2)])
  moreover have "prime_size t = prime_size s" using R by (auto simp: recounted_def prime_size_def)
  moreover have "bdd_table t = bdd_table s" unfolding bdd_table_def A S(6) d ..
  moreover have "tab_inv t" by (rule recounted_tab [OF R binvD(3) [OF I]])
  ultimately have b: "bdd_base t" using binvD(1,3) [OF I] by (simp add: bdd_base_def kinv_def d)
  note E = shape_eqs [OF S(1,6)]
  have r: "res_ok t = res_ok s" by (simp add: fun_eq_iff res_ok_def A E S(5))
  have "apply_entry t = apply_entry s" "ite_entry t = ite_entry s" "quant_entry t = quant_entry s"
    "appex_entry t = appex_entry s" "misc_entry t = misc_entry s" "replace_entry t = replace_entry s"
    by (intro HOL.ext; simp add: apply_entry_def ite_entry_def quant_entry_def appex_entry_def
        misc_entry_def replace_entry_def compose_entry_def subst_entry_def A E r d)+
  then have "caches_ok t = caches_ok s" by (simp add: caches_ok_def S(3))
  then show ?thesis using b fr.invD(2) [OF I] by (simp add: fr.inv_def)
qed

lemma INCREF_recounted: "binv s \<Longrightarrow> allocd s n \<Longrightarrow> recounted s (INCREF n s)"
  using tab_invD(7) [OF binvD(3), of s] unfolding recounted_def refs_ok_def
  by (intro exI [of _ "\<lambda>m. n_refcou (bddnodes (INCREF n s) m)"])
    (auto simp: INCREF_def upd_node_def fun_eq_iff intro: order_trans)

lemma diff_le_self': "n - 1 \<le> (n :: int)"
  by simp

lemma DECREF_recounted: "binv s \<Longrightarrow> allocd s n \<Longrightarrow> recounted s (DECREF n s)"
  using tab_invD(7) [OF binvD(3), of s] unfolding recounted_def refs_ok_def
  by (intro exI [of _ "\<lambda>m. n_refcou (bddnodes (DECREF n s) m)"])
    (auto simp: DECREF_def upd_node_def fun_eq_iff intro: order_trans [OF diff_le_self'])

section \<open>Held references\<close>

type_synonym bfun = "(int \<Rightarrow> bool) \<Rightarrow> bool"

text \<open>Saturated counts are never decremented.\<close>

definition refs_held :: "bdd_state \<Rightarrow> int multiset \<Rightarrow> bool" where
  "refs_held s M =
     (\<forall>n. 2 \<le> n \<and> n \<in># M \<longrightarrow> inner s n \<and>
        (n_refcou (bddnodes s n) = MAXREF \<or> int (count M n) \<le> n_refcou (bddnodes s n)))"

text \<open>The references that the pairs hold.\<close>

definition pair_refs :: "bdd_state \<Rightarrow> int multiset" where
  "pair_refs s = (\<Sum>p\<in>#mset (pairs s). image_mset (p_result p) (mset [0..bddvarnum s - 1]))"

text \<open>The settings are those of \<open>E\<close>, up to what the operations leave in their static variables.\<close>

definition settled :: "bdd_state \<Rightarrow> bdd_state \<Rightarrow> bool" where
  "settled E s = (\<exists>g. stat s = set_ops (\<lambda>_. g) (stat E))"

text \<open>\<open>r\<close> is a node that stands for \<open>F\<close>, unless an error is pending.\<close>

definition stands :: "bdd_state \<Rightarrow> int \<Rightarrow> bfun \<Rightarrow> bool" where
  "stands s r F = (node_id s r \<and> (bdderrorcond s = 0 \<longrightarrow> sem s r = F))"

definition own :: "bdd_state \<Rightarrow> (int \<times> bfun) multiset \<Rightarrow> bdd_state \<Rightarrow> bool" where
  "own E L s =
     (session s \<and> settled E s \<and> refs_held s (image_mset fst L + pair_refs s) \<and>
      (\<forall>(n, F) \<in># L. stands s n F))"

text \<open>A node the client may use: one of the ledger, or a constant.\<close>

definition has :: "(int \<times> bfun) multiset \<Rightarrow> int \<Rightarrow> bfun \<Rightarrow> bool" where
  "has L n F = ((n, F) \<in># L \<or> n = 0 \<and> F = (\<lambda>_. False) \<or> n = 1 \<and> F = (\<lambda>_. True))"

lemma has_const [simp]: "has L 0 (\<lambda>_. False)" "has L 1 (\<lambda>_. True)"
  by (simp_all add: has_def)

lemma has_add [simp]: "has (add_mset (n, F) L) n F"
  by (simp add: has_def)

lemma has_mono: "has L n F \<Longrightarrow> L \<subseteq># L' \<Longrightarrow> has L' n F"
  by (auto simp: has_def dest: mset_subset_eqD)

lemma has_more [simp]: "has L n F \<Longrightarrow> has (add_mset x L) n F"
  by (auto simp: has_def)

lemma settledD:
  assumes "settled E s"
  shows "bddvarnum s = bddvarnum E" "bddvar2level s = bddvar2level E" "bddlevel2var s = bddlevel2var E"
    "bddvarset s = bddvarset E" "pairs s = pairs E" "err_handler s = err_handler E"
    "domain s = domain E" "fdvarnum s = fdvarnum E" "pair_refs s = pair_refs E"
proof -
  from assms obtain g where "stat s = stat (set_ops (\<lambda>_. g) E)" by (auto simp: settled_def stat_set_ops)
  note D = statD [OF this]
  show "bddvarnum s = bddvarnum E" "bddvar2level s = bddvar2level E" "bddlevel2var s = bddlevel2var E"
    "bddvarset s = bddvarset E" "pairs s = pairs E" "err_handler s = err_handler E"
    using D by (simp_all add: set_ops_def)
  then show "pair_refs s = pair_refs E" by (simp add: pair_refs_def)
  have "domain (stat s) = domain (stat (set_ops (\<lambda>_. g) E))" "fdvarnum (stat s) = fdvarnum (stat (set_ops (\<lambda>_. g) E))"
    using \<open>stat s = stat (set_ops (\<lambda>_. g) E)\<close> by simp_all
  then show "domain s = domain E" "fdvarnum s = fdvarnum E" by (simp_all add: stat_def set_ops_def)
qed

lemma settled_refl: "settled s s"
  unfolding settled_def by (rule exI [of _ "ops s"]) (simp add: set_ops_def stat_def)

lemma settled_stat: "settled E s \<Longrightarrow> stat t = stat s \<Longrightarrow> settled E t"
  by (simp add: settled_def)

lemma settled_keeps:
  assumes E: "settled E s" and k: "keeps s t"
  shows "settled E t"
proof -
  from k obtain g where "stat t = stat (set_ops (\<lambda>_. g) (INITREF s))" by (auto simp: keeps_def ext_def)
  then have "stat t = set_ops (\<lambda>_. g) (stat s)" by (simp add: stat_set_ops INITREF_def)
  moreover from E obtain h where "stat s = set_ops (\<lambda>_. h) (stat E)" by (auto simp: settled_def)
  ultimately have "stat t = set_ops (\<lambda>_. g) (stat E)" by (simp add: set_ops_def)
  then show ?thesis unfolding settled_def by blast
qed

lemma held_handle:
  assumes H: "refs_held s M" and n: "n \<in># M" "2 \<le> n"
  shows "handle s n" "inner s n"
proof -
  have i: "inner s n" "n_refcou (bddnodes s n) = MAXREF \<or> int (count M n) \<le> n_refcou (bddnodes s n)"
    using H n by (simp_all add: refs_held_def)
  have "0 < int (count M n)" using n(1) unfolding of_nat_0_less_iff count_greater_zero_iff .
  then have "0 < n_refcou (bddnodes s n)" using i(2) by (elim disjE) (simp add: MAXREF_def, linarith)
  with i(1) show "handle s n" "inner s n" by (auto intro: ref_handle)
qed

lemma own_session: "own E L s \<Longrightarrow> session s"
  by (simp add: own_def)

lemma own_settled: "own E L s \<Longrightarrow> settled E s"
  by (simp add: own_def)

lemma own_has:
  assumes O: "own E L s" and h: "has L n F"
  shows "handle s n" "stands s n F"
proof -
  show st: "stands s n F" using O h by (auto simp: own_def has_def stands_def node_id_def)
  have "node_id s n" using st by (simp add: stands_def)
  then have c: "n = 0 \<or> n = 1 \<or> 2 \<le> n" by (auto simp: node_id_def allocd_def)
  moreover have "handle s n" if "2 \<le> n"
  proof -
    have "(n, F) \<in># L" using h that by (auto simp: has_def)
    then have "n \<in># image_mset fst L + pair_refs s" by force
    moreover have "refs_held s (image_mset fst L + pair_refs s)" using O by (simp add: own_def)
    ultimately show ?thesis using that by (intro held_handle(1))
  qed
  ultimately show "handle s n" by auto
qed

lemma refs_held_keeps:
  assumes "refs_held s M" "keeps s t" "binv s" "binv t"
  shows "refs_held t M"
  unfolding refs_held_def
proof (intro allI impI)
  fix n assume n: "2 \<le> n \<and> n \<in># M"
  then have h: "handle s n" using held_handle [OF assms(1)] by simp
  note K = keepsD [OF assms(2,3) h]
  show "inner t n \<and> (n_refcou (bddnodes t n) = MAXREF \<or> int (count M n) \<le> n_refcou (bddnodes t n))"
    using assms(1) n handle_inner [OF assms(4) K(1)] K(5) by (simp add: refs_held_def)
qed

lemma own_ends:
  assumes O: "own E L s" and e: "ends s lv F r t"
  shows "own E L t \<and> stands t r F"
proof
  have t: "session t" "keeps s t" "res_ok t lv F r" using e by (simp_all add: ends_def)
  note S = own_session [OF O] and st = settled_keeps [OF own_settled [OF O] t(2)]
  show "stands t r F" using t(3) by (auto simp: stands_def res_ok_def)
  have "refs_held t (image_mset fst L + pair_refs t)"
    using refs_held_keeps [OF _ t(2) sessionD(1) [OF S] sessionD(1) [OF t(1)]] O settledD(9) [OF st]
      settledD(9) [OF own_settled [OF O]] by (simp add: own_def)
  moreover have "stands t n G" if "(n, G) \<in># L" for n G
  proof -
    have "has L n G" using that by (simp add: has_def)
    note H = own_has [OF O this]
    show ?thesis
      using H(2) keepsD(1,6) [OF t(2) sessionD(1) [OF S] H(1)] keeps_stat(2) [OF t(2)]
      by (simp add: stands_def handle_iff)
  qed
  ultimately show "own E L t" using t(1) st by (auto simp: own_def)
qed

section \<open>Taking and dropping references\<close>

text \<open>What both need: the session survives when the counts still cover the ledger.\<close>

lemma own_recounted:
  assumes O: "own E L s" and R: "recounted s t"
    and H: "refs_held t (image_mset fst L' + pair_refs s)" and L: "\<forall>(n, F)\<in>#L'. stands s n F"
  shows "own E L' t"
proof -
  note S = own_session [OF O] and Sh = recounted_shape [OF R]
  note A = shape_acc [OF Sh(1)] and Q = shape_eqs [OF Sh(1,6)] and D = statD [OF Sh(2)]
  have b: "binv t" by (rule recounted_binv [OF R sessionD(1) [OF S]])
  have "lit_node t n l a b = lit_node s n l a b" if "lit_node s n l a b" for n l a b
    using that R unfolding lit_node_def A by (auto simp: recounted_def)
  then have "var_ok t v" if "var_ok s v" for v
    using that unfolding var_ok_def Let_def D by blast
  then have v: "vars_ok t" using sessionD(4) [OF S] unfolding vars_ok_def D by blast
  have "handle t (p_result p l)" if p: "p \<in> set (pairs s)" and l: "0 \<le> l" "l < bddvarnum s" for p l
  proof (cases "2 \<le> p_result p l")
    case True
    have "p_result p l \<in># pair_refs s" using p l by (force simp: pair_refs_def)
    then show ?thesis using held_handle(1) [OF H] True by simp
  next
    case False
    have "handle s (p_result p l)" using sessionD(6) [OF S] p l by (auto simp: pairs_ok_def pair_ok_def)
    then show ?thesis using False by (auto simp: handle_iff node_id_def allocd_def)
  qed
  then have p: "pairs_ok t"
    using sessionD(6) [OF S] unfolding pairs_ok_def pair_ok_def D by blast
  have "session t"
    using b v p sessionD(2,3,5) [OF S] unfolding session_def ratio_ok_def D A by simp
  moreover have "pair_refs t = pair_refs s" unfolding pair_refs_def D ..
  moreover have "stands t n F" if "stands s n F" for n F
    using that unfolding stands_def A Q Sh(5) .
  ultimately show ?thesis
    using H L settled_stat [OF own_settled [OF O] Sh(2)] by (auto simp: own_def)
qed

lemma running: "session s \<Longrightarrow> bddrunning s"
  using bdd_baseD(3) [OF fr.invD(1) [OF sessionD(1)]] .

lemma node_alloc: "node_id s r \<Longrightarrow> 2 \<le> r \<Longrightarrow> allocd s r"
  by (auto simp: node_id_def)

lemma addref_rule:
  assumes O: "own E L s" and r: "stands s r F"
  shows "\<exists>t. bdd_addref r s = ret r t \<and> own E (add_mset (r, F) L) t"
proof (cases "2 \<le> r")
  case False
  have "own E (add_mset (r, F) L) s"
    using O r False by (auto simp: own_def refs_held_def)
  then show ?thesis using False by (auto simp: bdd_addref_def)
next
  case True
  have n: "node_id s r" using r by (simp add: stands_def)
  note a = node_alloc [OF n True] and S = own_session [OF O]
  have i: "inner s r" using bdd_node(4) [OF binvD(2,3) [OF sessionD(1) [OF S]] n True] .
  have eq: "bdd_addref r s = ret r (INCREF r s)"
    using True a running [OF S] by (simp add: bdd_addref_def allocd_def)
  note R = INCREF_recounted [OF sessionD(1) [OF S] a]
  let ?M = "image_mset fst L + pair_refs s"
  have H: "refs_held s ?M" using O by (simp add: own_def)
  have c: "count ?M r = 0 \<or> inner s r \<and>
      (n_refcou (bddnodes s r) = MAXREF \<or> int (count ?M r) \<le> n_refcou (bddnodes s r))"
    using H True by (cases "r \<in># ?M") (auto simp: refs_held_def not_in_iff)
  have "0 \<le> n_refcou (bddnodes s r) \<and> n_refcou (bddnodes s r) \<le> MAXREF"
    using tab_invD(7) [OF binvD(3) [OF sessionD(1) [OF S]]] by (simp add: refs_ok_def)
  then have "refs_held (INCREF r s) (add_mset r ?M)"
    using H c i unfolding refs_held_def shape_acc [OF recounted_shape(1) [OF R]]
    by (auto simp: INCREF_def)
  then have "own E (add_mset (r, F) L) (INCREF r s)"
    using O r by (intro own_recounted [OF O R]) (auto simp: own_def)
  then show ?thesis using eq by blast
qed

lemma delref_rule:
  assumes O: "own E (add_mset (r, F) L) s"
  shows "\<exists>t. bdd_delref r s = ret r t \<and> own E L t \<and> (\<forall>n G. stands t n G = stands s n G)"
proof (cases "2 \<le> r")
  case False
  have "refs_held s (image_mset fst L + pair_refs s)"
    using O False unfolding own_def refs_held_def by (force split: if_splits)
  then have "own E L s" using O by (auto simp: own_def)
  then show ?thesis using False by (auto simp: bdd_delref_def)
next
  case True
  note S = own_session [OF O]
  let ?M = "image_mset fst L + pair_refs s"
  have H: "refs_held s (add_mset r ?M)" using O by (simp add: own_def)
  note h = held_handle [OF H _ True]
  have a: "allocd s r" using h by (simp add: inner_def)
  have c: "n_refcou (bddnodes s r) = MAXREF \<or> int (Suc (count ?M r)) \<le> n_refcou (bddnodes s r)"
    using H True unfolding refs_held_def by (metis count_add_mset union_single_eq_member)
  then have "HASREF s r" by (auto simp: HASREF_def MAXREF_def)
  then have eq: "bdd_delref r s = ret r (DECREF r s)"
    using True a running [OF S] by (simp add: bdd_delref_def allocd_def)
  note R = DECREF_recounted [OF sessionD(1) [OF S] a]
  note Sh = recounted_shape [OF R]
  have "refs_held (DECREF r s) ?M"
    unfolding refs_held_def shape_acc [OF Sh(1)]
  proof (intro allI impI)
    fix n assume n: "2 \<le> n \<and> n \<in># ?M"
    then have "inner s n \<and> (n_refcou (bddnodes s n) = MAXREF \<or> int (count (add_mset r ?M) n) \<le> n_refcou (bddnodes s n))"
      using H by (simp add: refs_held_def)
    then show "inner s n \<and> (n_refcou (bddnodes (DECREF r s) n) = MAXREF \<or>
        int (count ?M n) \<le> n_refcou (bddnodes (DECREF r s) n))"
      by (auto simp: DECREF_def split: if_splits)
  qed
  then have "own E L (DECREF r s)"
    using O by (intro own_recounted [OF O R]) (auto simp: own_def)
  moreover have "stands (DECREF r s) n G = stands s n G" for n G
    unfolding stands_def shape_acc [OF Sh(1)] shape_eqs [OF Sh(1,6)] Sh(5) ..
  ultimately show ?thesis using eq by blast
qed

section \<open>The rules of the operations\<close>

lemma stands_cong: "stands s n F \<Longrightarrow> (\<And>e. F e = G e) \<Longrightarrow> stands s n G"
  by (simp add: fun_eq_iff stands_def)

lemma own_result:
  assumes O: "own E L s" and e: "ends s lv F r t" and F: "bdderrorcond s = 0 \<Longrightarrow> F = G"
  shows "own E L t \<and> stands t r G"
proof -
  have "bdderrorcond t = 0 \<Longrightarrow> bdderrorcond s = 0" using e keeps_stat(2) by (auto simp: ends_def)
  then show ?thesis using own_ends [OF O e] F by (auto simp: stands_def)
qed

lemma apply_own:
  assumes O: "own E L s" and h: "has L l F" "has L r G" and op: "0 \<le> op" "op \<le> bddop_invimp"
  shows "runs (bdd_apply l r op s) (\<lambda>x t. own E L t \<and> stands t x (\<lambda>e. bool_op op (F e) (G e)))"
  by (rule runs_conseq [OF bdd_apply_spec [OF own_session [OF O] own_has(1) [OF O h(1)] own_has(1) [OF O h(2)] op]],
      erule own_result [OF O])
    (use own_has(2) [OF O h(1)] own_has(2) [OF O h(2)] in \<open>simp add: stands_def\<close>)

lemma not_own:
  assumes O: "own E L s" and h: "has L r F"
  shows "runs (bdd_not r s) (\<lambda>x t. own E L t \<and> stands t x (\<lambda>e. \<not> F e))"
  by (rule runs_conseq [OF bdd_not_spec [OF own_session [OF O] own_has(1) [OF O h]]], erule own_result [OF O])
    (use own_has(2) [OF O h] in \<open>simp add: stands_def\<close>)

lemma ite_own:
  assumes O: "own E L s" and h: "has L f F" "has L g G" "has L h H"
  shows "runs (bdd_ite f g h s) (\<lambda>x t. own E L t \<and> stands t x (\<lambda>e. if F e then G e else H e))"
  by (rule runs_conseq [OF bdd_ite_spec [OF own_session [OF O] own_has(1) [OF O h(1)]
        own_has(1) [OF O h(2)] own_has(1) [OF O h(3)]]], erule own_result [OF O])
    (use own_has(2) [OF O h(1)] own_has(2) [OF O h(2)] own_has(2) [OF O h(3)] in \<open>simp add: stands_def\<close>)

text \<open>A node whose count is saturated can be owned any number of times: the literals.\<close>

lemma own_forever:
  assumes O: "own E L s" and n: "lit_node s n l a b" and F: "stands s n F"
  shows "own E (add_mset (n, F) L) s"
  using O n F by (auto simp: own_def refs_held_def lit_node_def)

lemma own_const: "own E L s \<Longrightarrow> own E (add_mset (0, \<lambda>_. False) L) s" "own E L s \<Longrightarrow> own E (add_mset (1, \<lambda>_. True) L) s"
  by (auto simp: own_def refs_held_def stands_def node_id_def fun_eq_iff)

text \<open>Nothing more is owned by a session than what its pairs hold.\<close>

definition quiet :: "bdd_state \<Rightarrow> bool" where
  "quiet s = (session s \<and> refs_held s (pair_refs s))"

lemma own_quiet: "own s {#} s = quiet s"
  using settled_refl [of s] by (auto simp: own_def quiet_def)

lemma literal_sem:
  assumes S: "session s" and v: "0 \<le> v" "v < bddvarnum s"
  shows "stands s (bddvarset s (v * 2)) (\<lambda>e. e (bddvar2level s v))"
    "stands s (bddvarset s (v * 2 + 1)) (\<lambda>e. \<not> e (bddvar2level s v))"
proof -
  have V: "lit_node s (bddvarset s (v * 2)) (bddvar2level s v) 0 1"
    "lit_node s (bddvarset s (v * 2 + 1)) (bddvar2level s v) 1 0"
    using sessionD(4) [OF S] v by (simp_all add: vars_ok_def var_ok_def Let_def)
  then show "stands s (bddvarset s (v * 2)) (\<lambda>e. e (bddvar2level s v))"
    "stands s (bddvarset s (v * 2 + 1)) (\<lambda>e. \<not> e (bddvar2level s v))"
    by (auto simp: stands_def lit_node_def node_id_def inner_def fun_eq_iff sem_inner)
qed

lemma ithvar_own:
  assumes O: "own E L s" and v: "0 \<le> v" "v < bddvarnum E"
  shows "\<exists>x. bdd_ithvar v s = ret x s \<and> own E (add_mset (x, \<lambda>e. e (bddvar2level E v)) L) s"
    "\<exists>x. bdd_nithvar v s = ret x s \<and> own E (add_mset (x, \<lambda>e. \<not> e (bddvar2level E v)) L) s"
proof -
  note S = own_session [OF O] and D = settledD [OF own_settled [OF O]]
  have v': "v < bddvarnum s" using v D by simp
  note sm = literal_sem [OF S v(1) v']
  have V: "lit_node s (bddvarset s (v * 2)) (bddvar2level s v) 0 1"
    "lit_node s (bddvarset s (v * 2 + 1)) (bddvar2level s v) 1 0"
    using sessionD(4) [OF S] v v' by (simp_all add: vars_ok_def var_ok_def Let_def)
  show "\<exists>x. bdd_ithvar v s = ret x s \<and> own E (add_mset (x, \<lambda>e. e (bddvar2level E v)) L) s"
    using own_forever [OF O V(1) sm(1)] v v' D(2)
    by (intro exI [of _ "bddvarset s (v * 2)"]) (simp add: bdd_ithvar_def)
  show "\<exists>x. bdd_nithvar v s = ret x s \<and> own E (add_mset (x, \<lambda>e. \<not> e (bddvar2level E v)) L) s"
    using own_forever [OF O V(2) sm(2)] v v' D(2)
    by (intro exI [of _ "bddvarset s (v * 2 + 1)"]) (simp add: bdd_nithvar_def)
qed

end
