(* ===== verification/Bvec.thy ===== *)
theory Bvec
  imports BddopSubst
begin

text \<open>
  Model of \<^verbatim>\<open>src/bvec.c\<close>: vectors of diagrams as binary numbers, least significant bit
  first. A \<open>BVEC\<close> is the list of its entries; \<open>bitnum\<close> is the length. A loop that fills
  \<open>res.bitvec[n]\<close> for increasing \<open>n\<close> is a recursion over the arrays it reads. The allocation of an
  array fails for a negative length only.
\<close>

definition BVEC_SIZE :: int where "BVEC_SIZE = -20"
definition BVEC_SHIFT :: int where "BVEC_SHIFT = -21"
definition BVEC_DIVZERO :: int where "BVEC_DIVZERO = -22"

type_synonym BVEC = "BDD list"

definition bitnum :: "BVEC \<Rightarrow> int" where "bitnum v = int (length v)"

text \<open>\<open>bdd_addref( m )\<close>.\<close>

definition addref_of :: "BDD bm \<Rightarrow> BDD bm" where
  "addref_of m = bnd m (\<lambda>x s. bdd_addref x s)"

text \<open>\<open>res.bitvec[n] = f(a.bitvec[n])\<close> for all \<open>n\<close>.\<close>

primrec each :: "('a \<Rightarrow> bdd_state \<Rightarrow> 'b bm) \<Rightarrow> 'a list \<Rightarrow> bdd_state \<Rightarrow> 'b list bm" where
  "each f [] s = ret [] s"
| "each f (x # xs) s = bnd (f x s) (\<lambda>y s. bnd (each f xs s) (\<lambda>ys s. ret (y # ys) s))"

section \<open>Construction\<close>

definition bvec_build :: "int \<Rightarrow> bool \<Rightarrow> bdd_state \<Rightarrow> BVEC bm" where
  "bvec_build num isTrue s =
     (if num < 0 then bnd (bdd_error BDD_MEMORY s) (\<lambda>_ s. ret [] s)
      else ret (replicate (nat num) (if isTrue then 1 else 0)) s)"

definition bvec_copy :: "BVEC \<Rightarrow> bdd_state \<Rightarrow> BVEC bm" where
  "bvec_copy src s = (if src = [] then ret [] s else each bdd_addref src s)"

definition bvec_true :: "int \<Rightarrow> bdd_state \<Rightarrow> BVEC bm" where
  "bvec_true num s = bvec_build num True s"

definition bvec_false :: "int \<Rightarrow> bdd_state \<Rightarrow> BVEC bm" where
  "bvec_false num s = bvec_build num False s"

primrec con_bits :: "nat \<Rightarrow> int \<Rightarrow> BDD list" where
  "con_bits 0 v = []"
| "con_bits (Suc k) v = (if v mod 2 = 1 then bddtrue else bddfalse) # con_bits k (v div 2)"

definition bvec_con :: "int \<Rightarrow> int \<Rightarrow> bdd_state \<Rightarrow> BVEC bm" where
  "bvec_con num v s = bnd (bvec_build num False s) (\<lambda>vec s. ret (con_bits (length vec) v) s)"

definition bvec_varvec :: "int list \<Rightarrow> bdd_state \<Rightarrow> BVEC bm" where
  "bvec_varvec var s = each bdd_ithvar var s"

definition bvec_var :: "int \<Rightarrow> int \<Rightarrow> int \<Rightarrow> bdd_state \<Rightarrow> BVEC bm" where
  "bvec_var num offset step s =
     bnd (bvec_build num False s) (\<lambda>_ s.
     each bdd_ithvar (map (\<lambda>n. offset + int n * step) [0..<nat num]) s)"

definition bvec_coerce :: "int \<Rightarrow> BVEC \<Rightarrow> bdd_state \<Rightarrow> BVEC bm" where
  "bvec_coerce num v s =
     bnd (bvec_build num False s) (\<lambda>res s.
     bnd (each bdd_addref (take (nat num) v) s) (\<lambda>xs s. ret (xs @ drop (length xs) res) s))"

section \<open>Constants\<close>

definition bvec_isconst :: "BVEC \<Rightarrow> bool" where
  "bvec_isconst e = list_all ISCONST e"

text \<open>\<open>None\<close> is the undefined overflow of the shift.\<close>

primrec val_loop :: "BDD list \<Rightarrow> int \<Rightarrow> int option" where
  "val_loop [] v = Some v"
| "val_loop (b # bs) v =
     (if ISONE b then if v > INT_MAX div 2 then None else val_loop bs (2 * v + 1)
      else if ISZERO b then if v > INT_MAX div 2 then None else val_loop bs (2 * v)
      else Some 0)"

definition bvec_val :: "BVEC \<Rightarrow> int option" where
  "bvec_val e = val_loop (rev e) 0"

section \<open>References\<close>

definition bvec_addref :: "BVEC \<Rightarrow> bdd_state \<Rightarrow> BVEC bm" where
  "bvec_addref v s = bnd (each bdd_addref v s) (\<lambda>_ s. ret v s)"

definition bvec_delref :: "BVEC \<Rightarrow> bdd_state \<Rightarrow> BVEC bm" where
  "bvec_delref v s = bnd (each bdd_delref v s) (\<lambda>_ s. ret v s)"

definition bvec_free :: "BVEC \<Rightarrow> bdd_state \<Rightarrow> unit bm" where
  "bvec_free v s = bnd (bvec_delref v s) (\<lambda>_ s. ret () s)"

section \<open>Bitwise functions\<close>

definition bvec_map1 :: "BVEC \<Rightarrow> (BDD \<Rightarrow> bdd_state \<Rightarrow> BDD bm) \<Rightarrow> bdd_state \<Rightarrow> BVEC bm" where
  "bvec_map1 a f s = each (\<lambda>x s. addref_of (f x s)) a s"

definition bvec_map2 ::
    "BVEC \<Rightarrow> BVEC \<Rightarrow> (BDD \<Rightarrow> BDD \<Rightarrow> bdd_state \<Rightarrow> BDD bm) \<Rightarrow> bdd_state \<Rightarrow> BVEC bm" where
  "bvec_map2 a b f s =
     (if length a \<noteq> length b then bnd (bdd_error BVEC_SIZE s) (\<lambda>_ s. ret [] s)
      else each (\<lambda>(x, y) s. addref_of (f x y s)) (zip a b) s)"

definition bvec_map3 ::
    "BVEC \<Rightarrow> BVEC \<Rightarrow> BVEC \<Rightarrow> (BDD \<Rightarrow> BDD \<Rightarrow> BDD \<Rightarrow> bdd_state \<Rightarrow> BDD bm) \<Rightarrow> bdd_state \<Rightarrow> BVEC bm"
  where
  "bvec_map3 a b c f s =
     (if length a \<noteq> length b \<or> length b \<noteq> length c
      then bnd (bdd_error BVEC_SIZE s) (\<lambda>_ s. ret [] s)
      else each (\<lambda>(x, y, z) s. addref_of (f x y z s)) (zip a (zip b c)) s)"

definition bvec_ite :: "BDD \<Rightarrow> BVEC \<Rightarrow> BVEC \<Rightarrow> bdd_state \<Rightarrow> BVEC bm" where
  "bvec_ite a b c s =
     (if length b \<noteq> length c then bnd (bdd_error BVEC_SIZE s) (\<lambda>_ s. ret [] s)
      else each (\<lambda>(x, y) s. addref_of (bdd_ite a x y s)) (zip b c) s)"

section \<open>Addition and subtraction\<close>

text \<open>The body of the loop returns the new bit and the new carry.\<close>

definition add_bit :: "BDD \<Rightarrow> BDD \<Rightarrow> BDD \<Rightarrow> bdd_state \<Rightarrow> (BDD \<times> BDD) bm" where
  "add_bit l r c s =
     bnd (addref_of (bdd_apply l r bddop_xor s)) (\<lambda>tmp1 s.
     bnd (addref_of (bdd_apply tmp1 c bddop_xor s)) (\<lambda>res s.
     bnd (bdd_delref tmp1 s) (\<lambda>_ s.
     bnd (addref_of (bdd_apply l r bddop_or s)) (\<lambda>tmp1 s.
     bnd (addref_of (bdd_apply c tmp1 bddop_and s)) (\<lambda>tmp2 s.
     bnd (bdd_delref tmp1 s) (\<lambda>_ s.
     bnd (addref_of (bdd_apply l r bddop_and s)) (\<lambda>tmp1 s.
     bnd (addref_of (bdd_apply tmp1 tmp2 bddop_or s)) (\<lambda>tmp3 s.
     bnd (bdd_delref tmp1 s) (\<lambda>_ s.
     bnd (bdd_delref tmp2 s) (\<lambda>_ s.
     bnd (bdd_delref c s) (\<lambda>_ s. ret (res, tmp3) s)))))))))))"

definition sub_bit :: "BDD \<Rightarrow> BDD \<Rightarrow> BDD \<Rightarrow> bdd_state \<Rightarrow> (BDD \<times> BDD) bm" where
  "sub_bit l r c s =
     bnd (addref_of (bdd_apply l r bddop_xor s)) (\<lambda>tmp1 s.
     bnd (addref_of (bdd_apply tmp1 c bddop_xor s)) (\<lambda>res s.
     bnd (bdd_delref tmp1 s) (\<lambda>_ s.
     bnd (addref_of (bdd_apply r c bddop_or s)) (\<lambda>tmp1 s.
     bnd (addref_of (bdd_apply l tmp1 bddop_less s)) (\<lambda>tmp2 s.
     bnd (bdd_delref tmp1 s) (\<lambda>_ s.
     bnd (addref_of (bdd_apply l r bddop_and s)) (\<lambda>tmp1 s.
     bnd (addref_of (bdd_apply tmp1 c bddop_and s)) (\<lambda>tmp3 s.
     bnd (bdd_delref tmp1 s) (\<lambda>_ s.
     bnd (addref_of (bdd_apply tmp3 tmp2 bddop_or s)) (\<lambda>tmp1 s.
     bnd (bdd_delref tmp2 s) (\<lambda>_ s.
     bnd (bdd_delref tmp3 s) (\<lambda>_ s.
     bnd (bdd_delref c s) (\<lambda>_ s. ret (res, tmp1) s)))))))))))))"

text \<open>The loop over the bits of \<open>l\<close> and \<open>r\<close>; at its end the last carry is released.\<close>

primrec carry_loop ::
    "(BDD \<Rightarrow> BDD \<Rightarrow> BDD \<Rightarrow> bdd_state \<Rightarrow> (BDD \<times> BDD) bm) \<Rightarrow> (BDD \<times> BDD) list \<Rightarrow> BDD \<Rightarrow> bdd_state \<Rightarrow>
     BVEC bm" where
  "carry_loop f [] c s = bnd (bdd_delref c s) (\<lambda>_ s. ret [] s)"
| "carry_loop f (p # ps) c s =
     bnd (f (fst p) (snd p) c s) (\<lambda>(x, c) s. bnd (carry_loop f ps c s) (\<lambda>xs s. ret (x # xs) s))"

definition arith :: "(BDD \<Rightarrow> BDD \<Rightarrow> BDD \<Rightarrow> bdd_state \<Rightarrow> (BDD \<times> BDD) bm) \<Rightarrow> BVEC \<Rightarrow> BVEC \<Rightarrow> bdd_state \<Rightarrow> BVEC bm"
  where
  "arith f l r s =
     (if l = [] \<or> r = [] then ret [] s
      else if length l \<noteq> length r then bnd (bdd_error BVEC_SIZE s) (\<lambda>_ s. ret [] s)
      else carry_loop f (zip l r) bddfalse s)"

definition bvec_add :: "BVEC \<Rightarrow> BVEC \<Rightarrow> bdd_state \<Rightarrow> BVEC bm" where
  "bvec_add l r s = arith add_bit l r s"

definition bvec_sub :: "BVEC \<Rightarrow> BVEC \<Rightarrow> bdd_state \<Rightarrow> BVEC bm" where
  "bvec_sub l r s = arith sub_bit l r s"

section \<open>Comparison\<close>

definition less_bit :: "BDD \<Rightarrow> BDD \<Rightarrow> BDD \<Rightarrow> bdd_state \<Rightarrow> BDD bm" where
  "less_bit l r p s =
     bnd (addref_of (bdd_apply l r bddop_less s)) (\<lambda>tmp1 s.
     bnd (addref_of (bdd_apply l r bddop_biimp s)) (\<lambda>tmp2 s.
     bnd (addref_of (bdd_apply tmp2 p bddop_and s)) (\<lambda>tmp3 s.
     bnd (addref_of (bdd_apply tmp1 tmp3 bddop_or s)) (\<lambda>tmp4 s.
     bnd (bdd_delref tmp1 s) (\<lambda>_ s.
     bnd (bdd_delref tmp2 s) (\<lambda>_ s.
     bnd (bdd_delref tmp3 s) (\<lambda>_ s.
     bnd (bdd_delref p s) (\<lambda>_ s. ret tmp4 s))))))))"

definition equ_bit :: "BDD \<Rightarrow> BDD \<Rightarrow> BDD \<Rightarrow> bdd_state \<Rightarrow> BDD bm" where
  "equ_bit l r p s =
     bnd (addref_of (bdd_apply l r bddop_biimp s)) (\<lambda>tmp1 s.
     bnd (addref_of (bdd_apply tmp1 p bddop_and s)) (\<lambda>tmp2 s.
     bnd (bdd_delref tmp1 s) (\<lambda>_ s.
     bnd (bdd_delref p s) (\<lambda>_ s. ret tmp2 s))))"

primrec compare_loop ::
    "(BDD \<Rightarrow> BDD \<Rightarrow> BDD \<Rightarrow> bdd_state \<Rightarrow> BDD bm) \<Rightarrow> (BDD \<times> BDD) list \<Rightarrow> BDD \<Rightarrow> bdd_state \<Rightarrow> BDD bm" where
  "compare_loop f [] p s = bdd_delref p s"
| "compare_loop f (b # bs) p s = bnd (f (fst b) (snd b) p s) (\<lambda>p s. compare_loop f bs p s)"

definition compare ::
    "(BDD \<Rightarrow> BDD \<Rightarrow> BDD \<Rightarrow> bdd_state \<Rightarrow> BDD bm) \<Rightarrow> BDD \<Rightarrow> BVEC \<Rightarrow> BVEC \<Rightarrow> bdd_state \<Rightarrow> BDD bm" where
  "compare f p l r s =
     (if l = [] \<or> r = [] then ret bddfalse s
      else if length l \<noteq> length r then bnd (bdd_error BVEC_SIZE s) (\<lambda>_ s. ret p s)
      else compare_loop f (zip l r) p s)"

definition bvec_lth :: "BVEC \<Rightarrow> BVEC \<Rightarrow> bdd_state \<Rightarrow> BDD bm" where
  "bvec_lth l r s = compare less_bit bddfalse l r s"

definition bvec_lte :: "BVEC \<Rightarrow> BVEC \<Rightarrow> bdd_state \<Rightarrow> BDD bm" where
  "bvec_lte l r s = compare less_bit bddtrue l r s"

definition bvec_equ :: "BVEC \<Rightarrow> BVEC \<Rightarrow> bdd_state \<Rightarrow> BDD bm" where
  "bvec_equ l r s = compare equ_bit bddtrue l r s"

text \<open>\<open>p = bdd_not(tmp)\<close> for a protected \<open>tmp\<close>.\<close>

definition negated :: "BDD bm \<Rightarrow> BDD bm" where
  "negated m =
     bnd (addref_of m) (\<lambda>tmp s.
     bnd (bdd_not tmp s) (\<lambda>p s.
     bnd (bdd_delref tmp s) (\<lambda>_ s. ret p s)))"

definition bvec_gth :: "BVEC \<Rightarrow> BVEC \<Rightarrow> bdd_state \<Rightarrow> BDD bm" where
  "bvec_gth l r s = negated (bvec_lte l r s)"

definition bvec_gte :: "BVEC \<Rightarrow> BVEC \<Rightarrow> bdd_state \<Rightarrow> BDD bm" where
  "bvec_gte l r s = negated (bvec_lth l r s)"

definition bvec_neq :: "BVEC \<Rightarrow> BVEC \<Rightarrow> bdd_state \<Rightarrow> BDD bm" where
  "bvec_neq l r s = negated (bvec_equ l r s)"

section \<open>Shifts\<close>

definition bvec_shlfixed :: "BVEC \<Rightarrow> int \<Rightarrow> BDD \<Rightarrow> bdd_state \<Rightarrow> BVEC bm" where
  "bvec_shlfixed e pos c s =
     (if pos < 0 then bnd (bdd_error BVEC_SHIFT s) (\<lambda>_ s. ret [] s)
      else if e = [] then ret [] s
      else let minnum = min (length e) (nat pos) in
        bnd (each bdd_addref (replicate minnum c) s) (\<lambda>xs s.
        bnd (each bdd_addref (take (length e - minnum) e) s) (\<lambda>ys s. ret (xs @ ys) s)))"

definition bvec_shrfixed :: "BVEC \<Rightarrow> int \<Rightarrow> BDD \<Rightarrow> bdd_state \<Rightarrow> BVEC bm" where
  "bvec_shrfixed e pos c s =
     (if pos < 0 then bnd (bdd_error BVEC_SHIFT s) (\<lambda>_ s. ret [] s)
      else if e = [] then ret [] s
      else let maxnum = length e - nat pos in
        bnd (each bdd_addref (replicate (length e - maxnum) c) s) (\<lambda>ys s.
        bnd (each bdd_addref (drop (nat pos) e) s) (\<lambda>xs s. ret (xs @ ys) s)))"

text \<open>\<open>tmp2 = res[m] | tmp1; bdd_delref(res[m])\<close>.\<close>

definition or_into :: "BDD \<Rightarrow> BDD \<Rightarrow> bdd_state \<Rightarrow> BDD bm" where
  "or_into res tmp1 s = addref_of (bdd_or res tmp1 s)"

text \<open>
  The loop over \<open>m\<close>: \<open>p\<close> pairs the entries of \<open>res\<close> with what is shifted to their places when
  \<open>r\<close> is \<open>n\<close>.
\<close>

definition shift_bit :: "BDD \<Rightarrow> BDD \<times> BDD \<Rightarrow> bdd_state \<Rightarrow> BDD bm" where
  "shift_bit rEquN p s =
     bnd (addref_of (bdd_and rEquN (snd p) s)) (\<lambda>tmp1 s.
     bnd (or_into (fst p) tmp1 s) (\<lambda>tmp2 s.
     bnd (bdd_delref tmp1 s) (\<lambda>_ s.
     bnd (bdd_delref (fst p) s) (\<lambda>_ s. ret tmp2 s))))"

text \<open>The entries of \<open>l\<close> shifted \<open>n\<close> places, filled with \<open>c\<close>.\<close>

definition shifted_left :: "BVEC \<Rightarrow> BDD \<Rightarrow> nat \<Rightarrow> BDD list" where
  "shifted_left l c n = map (\<lambda>m. if m \<ge> n then l ! (m - n) else c) [0..<length l]"

definition shifted_right :: "BVEC \<Rightarrow> BDD \<Rightarrow> nat \<Rightarrow> BDD list" where
  "shifted_right l c n = map (\<lambda>m. if m + n < length l then l ! (m + n) else c) [0..<length l]"

primrec shift_loop :: "(nat \<Rightarrow> BDD list) \<Rightarrow> BVEC \<Rightarrow> nat list \<Rightarrow> BVEC \<Rightarrow> bdd_state \<Rightarrow> BVEC bm" where
  "shift_loop sh r [] res s = ret res s"
| "shift_loop sh r (n # ns) res s =
     bnd (bvec_con (bitnum r) (int n) s) (\<lambda>v s.
     bnd (addref_of (bvec_equ r v s)) (\<lambda>rEquN s.
     bnd (each (shift_bit rEquN) (zip res (sh n)) s) (\<lambda>res s.
     bnd (bdd_delref rEquN s) (\<lambda>_ s.
     bnd (bvec_free v s) (\<lambda>_ s. shift_loop sh r ns res s)))))"

definition shift :: "(nat \<Rightarrow> BDD list) \<Rightarrow> BVEC \<Rightarrow> BVEC \<Rightarrow> BDD \<Rightarrow> bdd_state \<Rightarrow> BVEC bm" where
  "shift sh l r c s =
     (if l = [] \<or> r = [] then ret [] s
      else bnd (bvec_build (bitnum l) False s) (\<lambda>res s.
        bnd (shift_loop sh r [0..<Suc (length l)] res s) (\<lambda>res s.
        bnd (bvec_con (bitnum r) (bitnum l) s) (\<lambda>v s.
        bnd (bvec_gth r v s) (\<lambda>rEquN s.
        bnd (addref_of (bdd_and rEquN c s)) (\<lambda>tmp1 s.
        bnd (each (\<lambda>x s. bnd (or_into x tmp1 s) (\<lambda>tmp2 s. bnd (bdd_delref x s) (\<lambda>_ s. ret tmp2 s))) res s)
          (\<lambda>res s.
        bnd (bdd_delref tmp1 s) (\<lambda>_ s.
        bnd (bdd_delref rEquN s) (\<lambda>_ s.
        bnd (bvec_free v s) (\<lambda>_ s. ret res s))))))))))"

definition bvec_shl :: "BVEC \<Rightarrow> BVEC \<Rightarrow> BDD \<Rightarrow> bdd_state \<Rightarrow> BVEC bm" where
  "bvec_shl l r c s = shift (shifted_left l c) l r c s"

definition bvec_shr :: "BVEC \<Rightarrow> BVEC \<Rightarrow> BDD \<Rightarrow> bdd_state \<Rightarrow> BVEC bm" where
  "bvec_shr l r c s = shift (shifted_right l c) l r c s"

section \<open>Multiplication\<close>

text \<open>The recursion on \<open>c>>1\<close> does not end for negative \<open>c\<close>; for others 32 rounds are enough.\<close>

primrec mulfixed_rec :: "nat \<Rightarrow> BVEC \<Rightarrow> int \<Rightarrow> bdd_state \<Rightarrow> BVEC bm" where
  "mulfixed_rec 0 e c s = fail Nofuel s"
| "mulfixed_rec (Suc k) e c s =
     (if e = [] then ret [] s
      else if c = 0 then bvec_build (bitnum e) False s
      else let next = bddfalse # butlast e in
        bnd (mulfixed_rec k next (c div 2) s) (\<lambda>rest s.
        bnd (if c mod 2 = 1
             then bnd (bvec_add e rest s) (\<lambda>res s. bnd (bvec_free rest s) (\<lambda>_ s. ret res s))
             else ret rest s) (\<lambda>res s.
        bnd (bvec_free next s) (\<lambda>_ s. ret res s))))"

definition bvec_mulfixed :: "BVEC \<Rightarrow> int \<Rightarrow> bdd_state \<Rightarrow> BVEC bm" where
  "bvec_mulfixed e c s = mulfixed_rec 32 e c s"

text \<open>\<open>tmpres = ite(b, added[m], res[m]); bdd_delref(res[m])\<close>.\<close>

definition select_bit :: "BDD \<Rightarrow> BDD \<times> BDD \<Rightarrow> bdd_state \<Rightarrow> BDD bm" where
  "select_bit b p s =
     bnd (addref_of (bdd_ite b (fst p) (snd p) s)) (\<lambda>tmp s.
     bnd (bdd_delref (snd p) s) (\<lambda>_ s. ret tmp s))"

text \<open>The loop over the bits of the right operand.\<close>

primrec mul_loop :: "BDD list \<Rightarrow> BVEC \<Rightarrow> BVEC \<Rightarrow> bdd_state \<Rightarrow> (BVEC \<times> BVEC) bm" where
  "mul_loop [] res leftshift s = ret (res, leftshift) s"
| "mul_loop (b # bs) res leftshift s =
     bnd (bvec_add res leftshift s) (\<lambda>added s.
     bnd (each (select_bit b) (zip added res) s) (\<lambda>res s.
     bnd (bdd_delref (last leftshift) s) (\<lambda>_ s.
     bnd (bvec_free added s) (\<lambda>_ s.
     mul_loop bs res (bddfalse # butlast leftshift) s))))"

definition bvec_mul :: "BVEC \<Rightarrow> BVEC \<Rightarrow> bdd_state \<Rightarrow> BVEC bm" where
  "bvec_mul left right s =
     (if left = [] \<or> right = [] then ret [] s
      else let num = bitnum left + bitnum right in
        bnd (bvec_false num s) (\<lambda>res s.
        bnd (bvec_copy left s) (\<lambda>leftshifttmp s.
        bnd (bvec_coerce num leftshifttmp s) (\<lambda>leftshift s.
        bnd (bvec_free leftshifttmp s) (\<lambda>_ s.
        bnd (mul_loop right res leftshift s) (\<lambda>(res, leftshift) s.
        bnd (bvec_free leftshift s) (\<lambda>_ s. ret res s)))))))"

section \<open>Division\<close>

text \<open>\<open>step\<close> is the argument of the recursion; the new remainder and result are returned.\<close>

primrec bvec_div_rec :: "nat \<Rightarrow> BVEC \<Rightarrow> BVEC \<Rightarrow> BVEC \<Rightarrow> bdd_state \<Rightarrow> (BVEC \<times> BVEC) bm" where
  "bvec_div_rec 0 divisor remainder result s = ret (remainder, result) s"
| "bvec_div_rec (Suc k) divisor remainder result s =
     bnd (addref_of (bvec_lte divisor remainder s)) (\<lambda>isSmaller s.
     bnd (bvec_shlfixed result 1 isSmaller s) (\<lambda>newResult s.
     bnd (bvec_build (bitnum divisor) False s) (\<lambda>zero s.
     bnd (each (\<lambda>(d, z) s. bdd_ite isSmaller d z s) (zip divisor zero) s) (\<lambda>sub s.
     bnd (bvec_sub remainder sub s) (\<lambda>tmp s.
     bnd (bvec_shlfixed tmp 1 (last result) s) (\<lambda>newRemainder s.
     bnd (if 0 < k then bvec_div_rec k divisor newRemainder newResult s
          else ret (newRemainder, newResult) s) (\<lambda>new s.
     bnd (bvec_free tmp s) (\<lambda>_ s.
     bnd (bvec_free sub s) (\<lambda>_ s.
     bnd (bvec_free zero s) (\<lambda>_ s.
     bnd (bdd_delref isSmaller s) (\<lambda>_ s.
     bnd (bvec_free remainder s) (\<lambda>_ s.
     bnd (bvec_free result s) (\<lambda>_ s. ret new s)))))))))))))"

text \<open>The code, the result and the remainder.\<close>

definition bvec_divfixed :: "BVEC \<Rightarrow> int \<Rightarrow> BVEC \<Rightarrow> BVEC \<Rightarrow> bdd_state \<Rightarrow> (int \<times> BVEC \<times> BVEC) bm" where
  "bvec_divfixed e c res rem s =
     (if c > 0 then
        if e = [] then fail Trap s
        else
          bnd (bvec_con (bitnum e) c s) (\<lambda>divisor s.
          bnd (bvec_build (bitnum e) False s) (\<lambda>tmp s.
          bnd (bvec_shlfixed tmp 1 (last e) s) (\<lambda>tmpremainder s.
          bnd (bvec_shlfixed e 1 bddfalse s) (\<lambda>result s.
          bnd (bvec_div_rec (length divisor) divisor tmpremainder result s) (\<lambda>(tmpremainder, result) s.
          bnd (bvec_shrfixed tmpremainder 1 bddfalse s) (\<lambda>remainder s.
          bnd (bvec_free tmp s) (\<lambda>_ s.
          bnd (bvec_free tmpremainder s) (\<lambda>_ s.
          bnd (bvec_free divisor s) (\<lambda>_ s.
          ret (0, result, remainder) s)))))))))
      else bnd (bdd_error BVEC_DIVZERO s) (\<lambda>e s. ret (e, res, rem) s))"

text \<open>
  One round of \<open>bvec_div\<close>; the quotient bits \<open>q\<close> are collected from the most significant one
  down. The first round's bit is not stored.
\<close>

definition div_step :: "bool \<Rightarrow> BVEC \<Rightarrow> BVEC \<Rightarrow> BVEC \<Rightarrow> bdd_state \<Rightarrow> (BVEC \<times> BVEC \<times> BVEC) bm" where
  "div_step keep dv rem q s =
     bnd (addref_of (bvec_lte dv rem s)) (\<lambda>divLteRem s.
     bnd (bvec_sub rem dv s) (\<lambda>remSubDiv s.
     bnd (each (select_bit divLteRem) (zip remSubDiv rem) s) (\<lambda>rem s.
     bnd (bdd_delref (hd dv) s) (\<lambda>_ s.
     bnd (bvec_free remSubDiv s) (\<lambda>_ s.
     ret (tl dv @ [bddfalse], rem, if keep then divLteRem # q else q) s)))))"

primrec div_loop :: "nat \<Rightarrow> BVEC \<Rightarrow> BVEC \<Rightarrow> BVEC \<Rightarrow> bdd_state \<Rightarrow> (BVEC \<times> BVEC \<times> BVEC) bm" where
  "div_loop 0 dv rem q s = ret (dv, rem, q) s"
| "div_loop (Suc k) dv rem q s =
     bnd (div_step True dv rem q s) (\<lambda>(dv, rem, q) s. div_loop k dv rem q s)"

definition bvec_div :: "BVEC \<Rightarrow> BVEC \<Rightarrow> BVEC \<Rightarrow> BVEC \<Rightarrow> bdd_state \<Rightarrow> (int \<times> BVEC \<times> BVEC) bm" where
  "bvec_div left right result remainder s =
     (if left = [] \<or> right = [] \<or> length left \<noteq> length right
      then bnd (bdd_error BVEC_SIZE s) (\<lambda>e s. ret (e, result, remainder) s)
      else let num = bitnum left + bitnum right in
        bnd (bvec_coerce num left s) (\<lambda>rem s.
        bnd (bvec_coerce num right s) (\<lambda>divtmp s.
        bnd (bvec_shlfixed divtmp (bitnum left) bddfalse s) (\<lambda>dv s.
        bnd (bvec_free divtmp s) (\<lambda>_ s.
        bnd (div_step False dv rem [] s) (\<lambda>(dv, rem, q) s.
        bnd (div_loop (length right) dv rem q s) (\<lambda>(dv, rem, res) s.
        bnd (bvec_free result s) (\<lambda>_ s.
        bnd (bvec_free remainder s) (\<lambda>_ s.
        bnd (bvec_coerce (bitnum right) rem s) (\<lambda>remainder s.
        bnd (bvec_free rem s) (\<lambda>_ s.
        ret (0, res, remainder) s)))))))))))"

end
