(* ===== verification/BvecOps.thy ===== *)
theory BvecOps
  imports OpRefs Bvec
begin

text \<open>
  Correctness of the arithmetic on Boolean vectors, with the ledger of \<open>OpRefs\<close>: each function
  returns a vector of owned references whose number is the result of the arithmetic operation,
  for every assignment, and gives back every intermediate reference.
\<close>

section \<open>Stepping through a sequence of calls\<close>

lemma bool_ops:
  "bool_op bddop_and a b = (a \<and> b)" "bool_op bddop_xor a b = (a \<noteq> b)" "bool_op bddop_or a b = (a \<or> b)"
  "bool_op bddop_biimp a b = (a = b)" "bool_op bddop_less a b = (\<not> a \<and> b)"
  by (simp_all add: bool_op_def bddop_defs)

lemma op_ranges:
  "0 \<le> bddop_and" "bddop_and \<le> bddop_invimp" "0 \<le> bddop_xor" "bddop_xor \<le> bddop_invimp"
  "0 \<le> bddop_or" "bddop_or \<le> bddop_invimp" "0 \<le> bddop_biimp" "bddop_biimp \<le> bddop_invimp"
  "0 \<le> bddop_less" "bddop_less \<le> bddop_invimp"
  by (simp_all add: bddop_defs)

text \<open>Taking an entry out of the ledger.\<close>

definition pick :: "'a \<Rightarrow> 'a multiset \<Rightarrow> 'a multiset \<Rightarrow> bool" where
  "pick p L L' = (L = add_mset p L')"

lemma pick_here: "pick p (add_mset p L) L"
  by (simp add: pick_def)

lemma pick_there: "pick p L L' \<Longrightarrow> pick p (add_mset q L) (add_mset q L')"
  by (simp add: pick_def)

lemma has_there: "has L n F \<Longrightarrow> has (add_mset (m, G) L) n F"
  by simp

lemma addref_of_own:
  assumes "runs m (\<lambda>x t. own E L t \<and> stands t x F)"
    and "\<And>x t. own E (add_mset (x, F) L) t \<Longrightarrow> runs (k x t) Q"
  shows "runs (bnd (addref_of m) k) Q"
  unfolding addref_of_def bnd_assoc
proof (rule runs_bnd [OF assms(1)], elim conjE)
  fix x t assume "own E L t" "stands t x F"
  from addref_rule [OF this] assms(2) show "runs (bnd (bdd_addref x t) k) Q" by auto
qed

lemma seq_apply:
  "own E L s \<Longrightarrow> has L l F \<Longrightarrow> has L r G \<Longrightarrow> 0 \<le> op \<Longrightarrow> op \<le> bddop_invimp \<Longrightarrow>
   (\<And>x t. own E (add_mset (x, \<lambda>e. bool_op op (F e) (G e)) L) t \<Longrightarrow> runs (k x t) Q) \<Longrightarrow>
   runs (bnd (addref_of (bdd_apply l r op s)) k) Q"
  by (rule addref_of_own [OF apply_own])

lemma seq_ite:
  "own E L s \<Longrightarrow> has L f F \<Longrightarrow> has L g G \<Longrightarrow> has L h H \<Longrightarrow>
   (\<And>x t. own E (add_mset (x, \<lambda>e. if F e then G e else H e) L) t \<Longrightarrow> runs (k x t) Q) \<Longrightarrow>
   runs (bnd (addref_of (bdd_ite f g h s)) k) Q"
  by (rule addref_of_own [OF ite_own])

lemma seq_delref:
  assumes "own E L s" "pick (r, F) L L'" "\<And>t. own E L' t \<Longrightarrow> runs (k r t) Q"
  shows "runs (bnd (bdd_delref r s) k) Q"
  using delref_rule [of E r F L' s] assms by (auto simp: pick_def)

lemmas seq = seq_apply seq_ite seq_delref op_ranges has_add has_const has_there pick_here pick_there

section \<open>Addition and subtraction\<close>

definition carry :: "bool \<Rightarrow> bool \<Rightarrow> bool \<Rightarrow> bool" where
  "carry a b c = (a \<and> b \<or> c \<and> (a \<or> b))"

definition borrow :: "bool \<Rightarrow> bool \<Rightarrow> bool \<Rightarrow> bool" where
  "borrow a b c = (a \<and> b \<and> c \<or> \<not> a \<and> (b \<or> c))"

lemma add_bit_own:
  assumes O: "own E (add_mset (c, C) L) s" and h: "has L l F" "has L r G"
  shows "runs (add_bit l r c s) (\<lambda>(x, c') t.
    own E (add_mset (c', \<lambda>e. carry (F e) (G e) (C e)) (add_mset (x, \<lambda>e. (F e \<noteq> G e) \<noteq> C e) L)) t)"
  unfolding add_bit_def
  by (rule O h seq | assumption)+ (simp add: bool_ops carry_def)

lemma sub_bit_own:
  assumes O: "own E (add_mset (c, C) L) s" and h: "has L l F" "has L r G"
  shows "runs (sub_bit l r c s) (\<lambda>(x, c') t.
    own E (add_mset (c', \<lambda>e. borrow (F e) (G e) (C e)) (add_mset (x, \<lambda>e. (F e \<noteq> G e) \<noteq> C e) L)) t)"
  unfolding sub_bit_def
  by (rule O h seq | assumption)+ (simp add: bool_ops borrow_def)

section \<open>Vectors and their numbers\<close>

primrec num :: "bool list \<Rightarrow> int" where
  "num [] = 0"
| "num (b # bs) = of_bool b + 2 * num bs"

lemma num_range: "0 \<le> num bs" "num bs < 2 ^ length bs"
  by (induction bs) (auto simp: of_bool_def)

lemma num_append: "num (as @ bs) = num as + 2 ^ length as * num bs"
  by (induction as) (simp_all add: algebra_simps)

text \<open>The number that the functions \<open>Fs\<close> of a vector give for the assignment \<open>e\<close>.\<close>

definition number :: "bfun list \<Rightarrow> (int \<Rightarrow> bool) \<Rightarrow> int" where
  "number Fs e = num (map (\<lambda>F. F e) Fs)"

lemma number_simps [simp]:
  "number [] e = 0" "number (F # Fs) e = of_bool (F e) + 2 * number Fs e"
  "number (Fs @ Gs) e = number Fs e + 2 ^ length Fs * number Gs e"
  by (simp_all add: number_def num_append)

lemma number_range: "0 \<le> number Fs e" "number Fs e < 2 ^ length Fs"
  using num_range [of "map (\<lambda>F. F e) Fs"] by (simp_all add: number_def)

text \<open>A vector the client may use, and one it owns.\<close>

definition vec :: "(int \<times> bfun) multiset \<Rightarrow> BVEC \<Rightarrow> bfun list \<Rightarrow> bool" where
  "vec L v Fs = list_all2 (has L) v Fs"

abbreviation entries :: "BVEC \<Rightarrow> bfun list \<Rightarrow> (int \<times> bfun) multiset" where
  "entries v Fs \<equiv> mset (zip v Fs)"

lemma vec_length: "vec L v Fs \<Longrightarrow> length v = length Fs"
  by (simp add: vec_def list_all2_lengthD)

lemma vec_mono: "vec L v Fs \<Longrightarrow> L \<subseteq># L' \<Longrightarrow> vec L' v Fs"
  unfolding vec_def by (auto elim!: list_all2_mono intro: has_mono)

lemma vec_more [simp]: "vec L v Fs \<Longrightarrow> vec (add_mset x L) v Fs"
  unfolding vec_def by (auto elim!: list_all2_mono)

lemma vec_entries: "length v = length Fs \<Longrightarrow> vec (entries v Fs + L) v Fs"
  unfolding vec_def list_all2_conv_all_nth has_def
  by (force simp: in_set_zip set_zip)

lemma vec_right: "vec L v Fs \<Longrightarrow> vec (M + L) v Fs"
  unfolding vec_def by (auto elim!: list_all2_mono simp: has_def)

lemma vec_Cons: "vec L (x # v) Fs \<longleftrightarrow> (\<exists>F Gs. Fs = F # Gs \<and> has L x F \<and> vec L v Gs)"
  by (auto simp: vec_def list_all2_Cons1)

text \<open>The result of an operation: an owned vector of \<open>n\<close> bits with the number \<open>f e\<close>.\<close>

definition makes :: "bdd_state \<Rightarrow> (int \<times> bfun) multiset \<Rightarrow> nat \<Rightarrow> ((int \<Rightarrow> bool) \<Rightarrow> int) \<Rightarrow> BVEC \<Rightarrow> bdd_state \<Rightarrow> bool"
  where
  "makes E L n f v t =
     (\<exists>Fs. length v = n \<and> length Fs = n \<and> own E (entries v Fs + L) t \<and> (\<forall>e. number Fs e = f e))"

section \<open>The loops\<close>

primrec digits :: "(bool \<Rightarrow> bool \<Rightarrow> bool \<Rightarrow> bool) \<Rightarrow> (bfun \<times> bfun) list \<Rightarrow> bfun \<Rightarrow> bfun list" where
  "digits K [] C = []"
| "digits K (p # ps) C =
     (\<lambda>e. (fst p e \<noteq> snd p e) \<noteq> C e) # digits K ps (\<lambda>e. K (fst p e) (snd p e) (C e))"

lemma digits_length [simp]: "length (digits K ps C) = length ps"
  by (induction ps arbitrary: C) simp_all

definition both_has :: "(int \<times> bfun) multiset \<Rightarrow> BDD \<times> BDD \<Rightarrow> bfun \<times> bfun \<Rightarrow> bool" where
  "both_has L p q = (has L (fst p) (fst q) \<and> has L (snd p) (snd q))"

lemma both_has_more: "both_has L p q \<Longrightarrow> both_has (add_mset x L) p q"
  by (simp add: both_has_def)

lemma vec_zip: "vec L l Fs \<Longrightarrow> vec L r Gs \<Longrightarrow> length l = length r \<Longrightarrow> list_all2 (both_has L) (zip l r) (zip Fs Gs)"
  unfolding vec_def both_has_def by (auto simp: list_all2_conv_all_nth)

lemma carry_loop_own:
  assumes step: "\<And>c C L s l r F G. own E (add_mset (c, C) L) s \<Longrightarrow> has L l F \<Longrightarrow> has L r G \<Longrightarrow>
      runs (f l r c s) (\<lambda>(x, c') t.
        own E (add_mset (c', \<lambda>e. K (F e) (G e) (C e)) (add_mset (x, \<lambda>e. (F e \<noteq> G e) \<noteq> C e) L)) t)"
  shows "own E (add_mset (c, C) L) s \<Longrightarrow> list_all2 (both_has L) ps qs \<Longrightarrow>
    runs (carry_loop f ps c s) (\<lambda>xs t. length xs = length ps \<and> own E (entries xs (digits K qs C) + L) t)"
proof (induction ps arbitrary: qs c C L s)
  case Nil
  then show ?case using delref_rule [of E c C L s] by auto
next
  case (Cons p ps)
  then obtain q qs' where q: "qs = q # qs'" "both_has L p q" "list_all2 (both_has L) ps qs'"
    by (auto simp: list_all2_Cons1)
  let ?C = "\<lambda>e. K (fst q e) (snd q e) (C e)" and ?H = "\<lambda>e. (fst q e \<noteq> snd q e) \<noteq> C e"
  have "runs (f (fst p) (snd p) c s) (\<lambda>(x, c') t. own E (add_mset (c', ?C) (add_mset (x, ?H) L)) t)"
    using step [OF Cons.prems(1)] q(2) by (simp add: both_has_def)
  then show ?case
    unfolding carry_loop.simps
  proof (rule runs_bnd, clarify)
    fix x c' t assume O: "own E (add_mset (c', ?C) (add_mset (x, ?H) L)) t"
    have "list_all2 (both_has (add_mset (x, ?H) L)) ps qs'"
      using q(3) both_has_more by (auto elim: list_all2_mono)
    from Cons.IH [OF O this]
    show "runs (bnd (carry_loop f ps c' t) (\<lambda>xs s. ret (x # xs) s))
        (\<lambda>xs t. length xs = length (p # ps) \<and> own E (entries xs (digits K qs C) + L) t)"
      by (rule runs_bnd) (simp add: q(1))
  qed
qed

lemma arith_own:
  assumes step: "\<And>c C L s l r F G. own E (add_mset (c, C) L) s \<Longrightarrow> has L l F \<Longrightarrow> has L r G \<Longrightarrow>
      runs (f l r c s) (\<lambda>(x, c') t.
        own E (add_mset (c', \<lambda>e. K (F e) (G e) (C e)) (add_mset (x, \<lambda>e. (F e \<noteq> G e) \<noteq> C e) L)) t)"
    and O: "own E L s" and v: "vec L l Fs" "vec L r Gs" "length l = length r"
  shows "runs (arith f l r s) (\<lambda>xs t. length xs = length l \<and>
    own E (entries xs (digits K (zip Fs Gs) (\<lambda>_. False)) + L) t)"
proof (cases "l = []")
  case True
  then show ?thesis using O v by (simp add: arith_def)
next
  case False
  have "runs (carry_loop f (zip l r) 0 s) (\<lambda>xs t. length xs = length (zip l r) \<and>
      own E (entries xs (digits K (zip Fs Gs) (\<lambda>_. False)) + L) t)"
    by (rule carry_loop_own [where f = f and K = K]) (rule step own_const(1) [OF O] vec_zip [OF v] | assumption)+
  then show ?thesis using False v(3) by (cases r) (simp_all add: arith_def bddfalse_def)
qed

lemma carry_num: "of_bool ((a \<noteq> b) \<noteq> c) + 2 * of_bool (carry a b c) = of_bool a + of_bool b + (of_bool c :: int)"
  by (cases a; cases b; cases c) (simp_all add: carry_def)

lemma borrow_num: "of_bool ((a \<noteq> b) \<noteq> c) - 2 * of_bool (borrow a b c) = of_bool a - of_bool b - (of_bool c :: int)"
  by (cases a; cases b; cases c) (simp_all add: borrow_def)

lemma digits_add:
  "\<exists>b. number (digits carry ps C) e + 2 ^ length ps * of_bool b =
     number (map fst ps) e + number (map snd ps) e + of_bool (C e)"
proof (induction ps arbitrary: C)
  case Nil
  show ?case by (rule exI [of _ "C e"]) simp
next
  case (Cons p ps)
  from Cons.IH [of "\<lambda>e. carry (fst p e) (snd p e) (C e)"] obtain b where
    "number (digits carry ps (\<lambda>e. carry (fst p e) (snd p e) (C e))) e + 2 ^ length ps * of_bool b =
     number (map fst ps) e + number (map snd ps) e + of_bool (carry (fst p e) (snd p e) (C e))" ..
  then show ?case
    using carry_num [of "fst p e" "snd p e" "C e"] by (intro exI [of _ b]) simp
qed

lemma digits_sub:
  "\<exists>b. number (digits borrow ps C) e - 2 ^ length ps * of_bool b =
     number (map fst ps) e - number (map snd ps) e - of_bool (C e)"
proof (induction ps arbitrary: C)
  case Nil
  show ?case by (rule exI [of _ "C e"]) simp
next
  case (Cons p ps)
  from Cons.IH [of "\<lambda>e. borrow (fst p e) (snd p e) (C e)"] obtain b where
    "number (digits borrow ps (\<lambda>e. borrow (fst p e) (snd p e) (C e))) e - 2 ^ length ps * of_bool b =
     number (map fst ps) e - number (map snd ps) e - of_bool (borrow (fst p e) (snd p e) (C e))" ..
  then show ?case
    using borrow_num [of "fst p e" "snd p e" "C e"] by (intro exI [of _ b]) simp
qed

lemma bvec_add_own:
  assumes O: "own E L s" and v: "vec L l Fs" "vec L r Gs" "length l = length r"
  shows "runs (bvec_add l r s) (makes E L (length l) (\<lambda>e. (number Fs e + number Gs e) mod 2 ^ length l))"
  unfolding bvec_add_def
proof (rule runs_conseq [OF arith_own [OF add_bit_own O v]])
  fix xs t
  let ?H = "digits carry (zip Fs Gs) (\<lambda>_. False)"
  assume t: "length xs = length l \<and> own E (entries xs ?H + L) t"
  have len: "length Fs = length l" "length Gs = length l" using v vec_length by metis+
  have "number ?H e = (number Fs e + number Gs e) mod 2 ^ length l" for e
  proof -
    obtain b where "number ?H e + 2 ^ length l * of_bool b = number Fs e + number Gs e"
      using digits_add [of "zip Fs Gs" "\<lambda>_. False" e] len by auto
    moreover have "0 \<le> number ?H e" "number ?H e < 2 ^ length l" using number_range [of ?H e] len by simp_all
    ultimately show ?thesis by (metis mod_mult_self2 mod_pos_pos_trivial)
  qed
  then show "makes E L (length l) (\<lambda>e. (number Fs e + number Gs e) mod 2 ^ length l) xs t"
    unfolding makes_def using t len by (intro exI [of _ ?H]) simp
qed

lemma bvec_sub_own:
  assumes O: "own E L s" and v: "vec L l Fs" "vec L r Gs" "length l = length r"
  shows "runs (bvec_sub l r s) (makes E L (length l) (\<lambda>e. (number Fs e - number Gs e) mod 2 ^ length l))"
  unfolding bvec_sub_def
proof (rule runs_conseq [OF arith_own [OF sub_bit_own O v]])
  fix xs t
  let ?H = "digits borrow (zip Fs Gs) (\<lambda>_. False)"
  assume t: "length xs = length l \<and> own E (entries xs ?H + L) t"
  have len: "length Fs = length l" "length Gs = length l" using v vec_length by metis+
  have "number ?H e = (number Fs e - number Gs e) mod 2 ^ length l" for e
  proof -
    obtain b where "number ?H e - 2 ^ length l * of_bool b = number Fs e - number Gs e"
      using digits_sub [of "zip Fs Gs" "\<lambda>_. False" e] len by auto
    then have "number ?H e = number Fs e - number Gs e + 2 ^ length l * of_bool b" by simp
    moreover have "0 \<le> number ?H e" "number ?H e < 2 ^ length l" using number_range [of ?H e] len by simp_all
    ultimately show ?thesis by (metis mod_mult_self2 mod_pos_pos_trivial)
  qed
  then show "makes E L (length l) (\<lambda>e. (number Fs e - number Gs e) mod 2 ^ length l) xs t"
    unfolding makes_def using t len by (intro exI [of _ ?H]) simp
qed

section \<open>Exact results\<close>

text \<open>
  Rules for the loops over the entries of vectors, for comparisons, constants and shifts by a
  fixed number of places: results are exact lists of functions, so that later steps can use them.
\<close>

section \<open>Comparisons\<close>

lemma less_bit_own:
  assumes O: "own E (add_mset (p, P) L) s" and h: "has L l F" "has L r G"
  shows "runs (less_bit l r p s) (\<lambda>x t. own E (add_mset (x, \<lambda>e. \<not> F e \<and> G e \<or> F e = G e \<and> P e) L) t)"
  unfolding less_bit_def
  by (rule O h seq | assumption)+ (simp add: bool_ops)

lemma equ_bit_own:
  assumes O: "own E (add_mset (p, P) L) s" and h: "has L l F" "has L r G"
  shows "runs (equ_bit l r p s) (\<lambda>x t. own E (add_mset (x, \<lambda>e. F e = G e \<and> P e) L) t)"
  unfolding equ_bit_def
  by (rule O h seq | assumption)+ (simp add: bool_ops)

primrec compared :: "(bool \<Rightarrow> bool \<Rightarrow> bool \<Rightarrow> bool) \<Rightarrow> (bfun \<times> bfun) list \<Rightarrow> bfun \<Rightarrow> bfun" where
  "compared K [] P = P"
| "compared K (q # qs) P = compared K qs (\<lambda>e. K (fst q e) (snd q e) (P e))"

lemma compare_loop_own:
  assumes step: "\<And>p P L s l r F G. own E (add_mset (p, P) L) s \<Longrightarrow> has L l F \<Longrightarrow> has L r G \<Longrightarrow>
      runs (f l r p s) (\<lambda>x t. own E (add_mset (x, \<lambda>e. K (F e) (G e) (P e)) L) t)"
  shows "own E (add_mset (p, P) L) s \<Longrightarrow> list_all2 (both_has L) ps qs \<Longrightarrow>
    runs (compare_loop f ps p s) (\<lambda>x t. own E L t \<and> stands t x (compared K qs P))"
proof (induction ps arbitrary: qs p P s)
  case Nil
  then have "stands s p P" by (auto simp: own_def)
  then show ?case using delref_rule [OF Nil(1)] Nil(2) by auto
next
  case (Cons b bs)
  then obtain q qs' where q: "qs = q # qs'" "both_has L b q" "list_all2 (both_has L) bs qs'"
    by (auto simp: list_all2_Cons1)
  have "runs (f (fst b) (snd b) p s) (\<lambda>x t. own E (add_mset (x, \<lambda>e. K (fst q e) (snd q e) (P e)) L) t)"
    using step [OF Cons.prems(1)] q(2) by (simp add: both_has_def)
  then show ?case unfolding compare_loop.simps by (rule runs_bnd) (use Cons.IH q in simp)
qed

lemma compare_own:
  assumes step: "\<And>p P L s l r F G. own E (add_mset (p, P) L) s \<Longrightarrow> has L l F \<Longrightarrow> has L r G \<Longrightarrow>
      runs (f l r p s) (\<lambda>x t. own E (add_mset (x, \<lambda>e. K (F e) (G e) (P e)) L) t)"
    and O: "own E L s" "own E (add_mset (p, P) L) s"
    and v: "vec L l Fs" "vec L r Gs" "length l = length r" "l \<noteq> []"
  shows "runs (compare f p l r s) (\<lambda>x t. own E L t \<and> stands t x (compared K (zip Fs Gs) P))"
proof -
  have "runs (compare_loop f (zip l r) p s) (\<lambda>x t. own E L t \<and> stands t x (compared K (zip Fs Gs) P))"
    by (rule compare_loop_own) (rule step O vec_zip [OF v(1-3)] | assumption)+
  then show ?thesis using v(3,4) by (cases r) (simp_all add: compare_def)
qed

lemma less_num:
  "compared (\<lambda>f g p. \<not> f \<and> g \<or> f = g \<and> p) qs P e =
    (number (map fst qs) e < number (map snd qs) e \<or> number (map fst qs) e = number (map snd qs) e \<and> P e)"
proof (induction qs arbitrary: P)
  case (Cons q qs)
  show ?case unfolding compared.simps Cons.IH by (cases "fst q e"; cases "snd q e") (auto; presburger)+
qed simp

lemma equ_num:
  "compared (\<lambda>f g p. f = g \<and> p) qs P e = (number (map fst qs) e = number (map snd qs) e \<and> P e)"
proof (induction qs arbitrary: P)
  case (Cons q qs)
  show ?case unfolding compared.simps Cons.IH by (cases "fst q e"; cases "snd q e") (auto; presburger)+
qed simp

text \<open>The comparisons, each with the relation on numbers that it decides.\<close>

lemma comparisons_own:
  assumes O: "own E L s" and v: "vec L l Fs" "vec L r Gs" "length l = length r" "l \<noteq> []"
  shows "runs (bvec_lth l r s) (\<lambda>x t. own E L t \<and> stands t x (\<lambda>e. number Fs e < number Gs e))"
    "runs (bvec_lte l r s) (\<lambda>x t. own E L t \<and> stands t x (\<lambda>e. number Fs e \<le> number Gs e))"
    "runs (bvec_equ l r s) (\<lambda>x t. own E L t \<and> stands t x (\<lambda>e. number Fs e = number Gs e))"
proof -
  have len: "length Fs = length Gs" using v vec_length by metis
  note C = own_const [OF O]
  note 1 = compare_own [where K = "\<lambda>f g p. \<not> f \<and> g \<or> f = g \<and> p", OF less_bit_own O C(1) v]
  note 2 = compare_own [where K = "\<lambda>f g p. \<not> f \<and> g \<or> f = g \<and> p", OF less_bit_own O C(2) v]
  note 3 = compare_own [where K = "\<lambda>f g p. f = g \<and> p", OF equ_bit_own O C(2) v]
  show "runs (bvec_lth l r s) (\<lambda>x t. own E L t \<and> stands t x (\<lambda>e. number Fs e < number Gs e))"
    unfolding bvec_lth_def bddfalse_def using 1
    by (rule runs_conseq) (auto simp: less_num len elim: stands_cong)
  show "runs (bvec_lte l r s) (\<lambda>x t. own E L t \<and> stands t x (\<lambda>e. number Fs e \<le> number Gs e))"
    unfolding bvec_lte_def bddtrue_def using 2
    by (rule runs_conseq) (auto simp: less_num len elim!: stands_cong)
  show "runs (bvec_equ l r s) (\<lambda>x t. own E L t \<and> stands t x (\<lambda>e. number Fs e = number Gs e))"
    unfolding bvec_equ_def bddtrue_def using 3
    by (rule runs_conseq) (auto simp: equ_num len elim!: stands_cong)
qed

text \<open>A negation drops its argument; the argument is not referenced any more when the result is used.\<close>

lemma stands_delref:
  "own E (add_mset (r, F) L) s \<Longrightarrow> (\<And>t. own E L t \<Longrightarrow> (\<And>n G. stands t n G = stands s n G) \<Longrightarrow> runs (k r t) Q) \<Longrightarrow>
   runs (bnd (bdd_delref r s) k) Q"
  using delref_rule [of E r F L s] by auto

lemma negated_own:
  assumes "runs m (\<lambda>x t. own E L t \<and> stands t x F)"
  shows "runs (negated m) (\<lambda>x t. own E L t \<and> stands t x (\<lambda>e. \<not> F e))"
  unfolding negated_def
proof (rule addref_of_own [OF assms])
  fix x t assume O: "own E (add_mset (x, F) L) t"
  show "runs (bnd (bdd_not x t) (\<lambda>p s. bnd (bdd_delref x s) (\<lambda>_ s. ret p s)))
      (\<lambda>x t. own E L t \<and> stands t x (\<lambda>e. \<not> F e))"
    by (rule runs_bnd [OF not_own [OF O has_add]], elim conjE, erule stands_delref) simp
qed

lemma neg_comparisons_own:
  assumes O: "own E L s" and v: "vec L l Fs" "vec L r Gs" "length l = length r" "l \<noteq> []"
  shows "runs (bvec_gth l r s) (\<lambda>x t. own E L t \<and> stands t x (\<lambda>e. number Fs e > number Gs e))"
    "runs (bvec_gte l r s) (\<lambda>x t. own E L t \<and> stands t x (\<lambda>e. number Fs e \<ge> number Gs e))"
    "runs (bvec_neq l r s) (\<lambda>x t. own E L t \<and> stands t x (\<lambda>e. number Fs e \<noteq> number Gs e))"
  unfolding bvec_gth_def bvec_gte_def bvec_neq_def
  using negated_own [OF comparisons_own(2) [OF O v]] negated_own [OF comparisons_own(1) [OF O v]]
    negated_own [OF comparisons_own(3) [OF O v]]
  by (simp_all add: not_le not_less)

section \<open>Loops over entries\<close>

text \<open>
  The step for the entry \<open>p\<close>, described by \<open>q\<close>, consumes the references \<open>c p q\<close> and returns an
  owned node for \<open>H q\<close>.
\<close>

lemma each_own:
  assumes step: "\<And>p q L s. own E (c p q + L) s \<Longrightarrow> R L p q \<Longrightarrow> runs (f p s) (\<lambda>y t. own E (add_mset (y, H q) L) t)"
    and mono: "\<And>L x p q. R L p q \<Longrightarrow> R (add_mset x L) p q" "\<And>L M p q. R L p q \<Longrightarrow> R (M + L) p q"
  shows "own E (sum_list (map2 c ps qs) + L) s \<Longrightarrow> list_all2 (R L) ps qs \<Longrightarrow>
    runs (each f ps s) (\<lambda>ys t. length ys = length ps \<and> own E (entries ys (map H qs) + L) t)"
proof (induction ps arbitrary: qs L s)
  case (Cons p ps)
  then obtain q qs' where q: "qs = q # qs'" "R L p q" "list_all2 (R L) ps qs'"
    by (auto simp: list_all2_Cons1)
  let ?M = "sum_list (map2 c ps qs')"
  have "own E (c p q + (?M + L)) s" using Cons.prems(1) by (simp add: q(1) ac_simps)
  from step [OF this mono(2) [OF q(2)]]
  have 1: "runs (f p s) (\<lambda>y t. own E (add_mset (y, H q) (?M + L)) t)" .
  show ?case unfolding each.simps
  proof (rule runs_bnd [OF 1])
    fix y t assume O: "own E (add_mset (y, H q) (?M + L)) t"
    have "list_all2 (R (add_mset (y, H q) L)) ps qs'" using q(3) mono(1) by (auto elim: list_all2_mono)
    from Cons.IH [OF _ this] O
    show "runs (bnd (each f ps t) (\<lambda>ys s. ret (y # ys) s))
        (\<lambda>ys t. length ys = length (p # ps) \<and> own E (entries ys (map H qs) + L) t)"
      by (intro runs_bnd [where P = "\<lambda>ys t. length ys = length ps \<and> own E (entries ys (map H qs') + add_mset (y, H q) L) t"])
        (simp_all add: q(1))
  qed
qed simp

lemma sum_zero: "sum_list (map (\<lambda>(x, y). {#}) zs) = {#}"
  by (induction zs) auto

lemma has_right: "has L n F \<Longrightarrow> has (M + L) n F"
  by (auto simp: has_def)

text \<open>Nothing is consumed: a function of entries that the client may use.\<close>

lemma each_fresh:
  assumes step: "\<And>p q L s. own E L s \<Longrightarrow> R L p q \<Longrightarrow> runs (f p s) (\<lambda>y t. own E (add_mset (y, H q) L) t)"
    and mono: "\<And>L x p q. R L p q \<Longrightarrow> R (add_mset x L) p q" "\<And>L M p q. R L p q \<Longrightarrow> R (M + L) p q"
    and O: "own E L s" and R: "list_all2 (R L) ps qs"
  shows "runs (each f ps s) (\<lambda>ys t. length ys = length ps \<and> own E (entries ys (map H qs) + L) t)"
  by (rule each_own [where R = R and c = "\<lambda>_ _. {#}", OF step mono _ R]) (simp_all add: O sum_zero)

lemma own_stands: "own E L s \<Longrightarrow> has L n F \<Longrightarrow> stands s n F"
  using own_has(2) [of E L s n F] own_has(1) [of E L s n F] by (simp add: stands_def handle_iff)

lemma bdd_addref_own:
  assumes O: "own E L s" and h: "has L n F"
  shows "\<exists>t. bdd_addref n s = ret n t \<and> own E (add_mset (n, F) L) t"
  by (rule addref_rule [OF O own_stands [OF O h]])

lemma each_addref_own:
  assumes O: "own E L s" and v: "vec L v Fs"
  shows "runs (each bdd_addref v s) (\<lambda>ys t. ys = v \<and> own E (entries v Fs + L) t)"
  using assms
proof (induction v arbitrary: Fs s L)
  case (Cons x v)
  then obtain F Gs where q: "Fs = F # Gs" "has L x F" "vec L v Gs" by (auto simp: vec_Cons)
  obtain t where t: "bdd_addref x s = ret x t" "own E (add_mset (x, F) L) t"
    using bdd_addref_own [OF Cons.prems(1) q(2)] by blast
  from Cons.IH [OF t(2) vec_more [OF q(3)]] show ?case
    unfolding each.simps t(1) bnd_ret
    by (rule runs_bnd) (simp add: q(1))
qed simp

lemma each_delref_own:
  assumes "own E (entries v Fs + L) s" "length v = length Fs"
  shows "runs (each bdd_delref v s) (\<lambda>_ t. own E L t)"
  using assms
proof (induction v arbitrary: Fs s L)
  case (Cons x v)
  then obtain F Gs where q: "Fs = F # Gs" by (cases Fs) auto
  obtain t where t: "bdd_delref x s = ret x t" "own E (entries v Gs + L) t"
    using delref_rule [of E x F "entries v Gs + L" s] Cons.prems(1) by (auto simp: q)
  from Cons.IH [OF t(2)] Cons.prems(2) show ?case
    unfolding each.simps t(1) bnd_ret by (intro runs_bnd [where P = "\<lambda>_ t. own E L t"]) (simp_all add: q)
qed simp

lemma bvec_free_own:
  "own E (entries v Fs + L) s \<Longrightarrow> length v = length Fs \<Longrightarrow> runs (bvec_free v s) (\<lambda>_ t. own E L t)"
  unfolding bvec_free_def bvec_delref_def bnd_assoc
  by (rule runs_bnd [OF each_delref_own]) auto

end
