(* ===== verification/BvecShift.thy ===== *)
theory BvecShift
  imports BvecOps
begin

text \<open>
  Constants, their values, coercion, the bitwise functions and shifts by a fixed number of places.
\<close>

section \<open>Vectors of owned entries\<close>

abbreviation gives :: "bdd_state \<Rightarrow> (int \<times> bfun) multiset \<Rightarrow> bfun list \<Rightarrow> BVEC \<Rightarrow> bdd_state \<Rightarrow> bool" where
  "gives E L Fs v t \<equiv> length v = length Fs \<and> own E (entries v Fs + L) t"

lemma vec_Nil [simp]: "vec L [] []"
  by (simp add: vec_def)

lemma vec_app: "vec L v Fs \<Longrightarrow> vec L w Gs \<Longrightarrow> vec L (v @ w) (Fs @ Gs)"
  by (simp add: vec_def list_all2_appendI)

lemma vec_take: "vec L v Fs \<Longrightarrow> vec L (take k v) (take k Fs)"
  by (simp add: vec_def list_all2_takeI)

lemma vec_drop: "vec L v Fs \<Longrightarrow> vec L (drop k v) (drop k Fs)"
  by (simp add: vec_def list_all2_dropI)

lemma vec_replicate: "has L c C \<Longrightarrow> vec L (replicate k c) (replicate k C)"
  by (simp add: vec_def list_all2_conv_all_nth)

lemma entries_append:
  "length v = length Fs \<Longrightarrow> entries (v @ w) (Fs @ Gs) = entries v Fs + entries w Gs"
  by (simp add: zip_append)

lemma number_replicate [simp]: "number (replicate k (\<lambda>_. False)) e = 0"
  by (induction k) simp_all

lemma number_split: "number Fs e = number (take k Fs) e + 2 ^ length (take k Fs) * number (drop k Fs) e"
  by (metis append_take_drop_id number_simps(3))

lemma number_div_mod:
  assumes "k \<le> length Fs"
  shows "number (take k Fs) e = number Fs e mod 2 ^ k" "number (drop k Fs) e = number Fs e div 2 ^ k"
proof -
  have l: "length (take k Fs) = k" using assms by simp
  have r: "0 \<le> number (take k Fs) e" "number (take k Fs) e < 2 ^ k"
    using number_range [of "take k Fs" e] l by simp_all
  have s: "number Fs e = number (take k Fs) e + 2 ^ k * number (drop k Fs) e"
    using number_split [of Fs e k] l by simp
  show "number (take k Fs) e = number Fs e mod 2 ^ k" "number (drop k Fs) e = number Fs e div 2 ^ k"
    using r unfolding s by simp_all
qed

text \<open>Constants need no references.\<close>

definition bits_of :: "bool list \<Rightarrow> BDD list" where
  "bits_of bs = map (\<lambda>b. if b then 1 else 0) bs"

lemma own_bits: "own E L s \<Longrightarrow> own E (entries (bits_of bs) (map (\<lambda>b _. b) bs) + L) s"
proof (induction bs)
  case (Cons b bs)
  from own_const [OF Cons.IH [OF Cons.prems]] show ?case
    by (cases b) (simp_all add: bits_of_def)
qed (simp add: bits_of_def)

lemma bits_length [simp]: "length (bits_of bs) = length bs"
  by (simp add: bits_of_def)

primrec bin :: "nat \<Rightarrow> int \<Rightarrow> bool list" where
  "bin 0 v = []"
| "bin (Suc k) v = (v mod 2 = 1) # bin k (v div 2)"

lemma bin_length [simp]: "length (bin k v) = k"
  by (induction k arbitrary: v) simp_all

lemma con_bits_bin: "con_bits k v = bits_of (bin k v)"
  by (induction k arbitrary: v) (simp_all add: bits_of_def bddtrue_def bddfalse_def)

lemma num_bin: "num (bin k v) = v mod 2 ^ k"
proof (induction k arbitrary: v)
  case (Suc k)
  have "of_bool (v mod 2 = 1) = v mod 2" by (cases "v mod 2 = 1") simp_all
  then show ?case by (simp add: Suc.IH zmod_zmult2_eq)
qed simp

lemma number_bin: "number (map (\<lambda>b _. b) (bin k v)) e = v mod 2 ^ k"
  by (simp add: number_def o_def num_bin)

abbreviation const_funs :: "nat \<Rightarrow> int \<Rightarrow> bfun list" where
  "const_funs k v \<equiv> map (\<lambda>b _. b) (bin k v)"

lemma bvec_con_own:
  assumes O: "own E L s" and k: "0 \<le> k"
  shows "runs (bvec_con k v s) (\<lambda>xs t. xs = con_bits (nat k) v \<and> t = s \<and> gives E L (const_funs (nat k) v) xs t)"
  using own_bits [OF O, of "bin (nat k) v"] k
  by (simp add: bvec_con_def bvec_build_def con_bits_bin)

lemma bvec_build_own:
  assumes O: "own E L s" and k: "0 \<le> k"
  shows "runs (bvec_build k False s) (gives E L (replicate (nat k) (\<lambda>_. False)))"
  using own_bits [OF O, of "replicate (nat k) False"] k by (simp add: bvec_build_def bits_of_def)

section \<open>The value of a constant vector\<close>

lemma val_loop_bits:
  "0 \<le> w \<Longrightarrow> w * 2 ^ length bs + num (rev bs) \<le> INT_MAX \<Longrightarrow>
   val_loop (bits_of bs) w = Some (w * 2 ^ length bs + num (rev bs))"
proof (induction bs arbitrary: w)
  case Nil
  then show ?case by (simp add: bits_of_def)
next
  case (Cons b bs)
  let ?w = "2 * w + of_bool b"
  have e: "w * 2 ^ length (b # bs) + num (rev (b # bs)) = ?w * 2 ^ length bs + num (rev bs)"
    by (simp add: num_append algebra_simps)
  have "0 \<le> num (rev bs)" by (rule num_range)
  moreover have "?w \<le> ?w * 2 ^ length bs"
    using Cons.prems(1) mult_left_mono [of 1 "2 ^ length bs" ?w] by simp
  ultimately have "?w \<le> INT_MAX" using Cons.prems(2) unfolding e by linarith
  then have "\<not> w > INT_MAX div 2" by (cases b) (simp_all add: INT_MAX_def)
  then show ?case
    using Cons.IH [of ?w] Cons.prems unfolding e
    by (cases b) (simp_all add: bits_of_def ISONE_def ISZERO_def)
qed

lemma rev_bits: "rev (bits_of bs) = bits_of (rev bs)"
  by (simp add: bits_of_def rev_map)

lemma bvec_val_bits: "num bs \<le> INT_MAX \<Longrightarrow> bvec_val (bits_of bs) = Some (num bs)"
  using val_loop_bits [of 0 "rev bs"] by (simp add: bvec_val_def rev_bits)

lemma bvec_val_none:
  "INT_MAX < num bs \<Longrightarrow> bvec_val (bits_of bs) = None"
proof -
  have "val_loop (bits_of cs) w = None"
    if "0 \<le> w" "w \<le> INT_MAX" "INT_MAX < w * 2 ^ length cs + num (rev cs)" for w cs
    using that
  proof (induction cs arbitrary: w)
    case (Cons b cs)
    let ?w = "2 * w + of_bool b"
    have e: "w * 2 ^ length (b # cs) + num (rev (b # cs)) = ?w * 2 ^ length cs + num (rev cs)"
      by (simp add: num_append algebra_simps)
    show ?case
    proof (cases "w > INT_MAX div 2")
      case False
      then have "?w \<le> INT_MAX" by (cases b) (simp_all add: INT_MAX_def)
      with Cons.IH [of ?w] Cons.prems False show ?thesis unfolding e
        by (cases b) (simp_all add: bits_of_def ISONE_def ISZERO_def)
    qed (simp add: bits_of_def ISONE_def ISZERO_def)
  qed simp
  from this [of 0 "rev bs"] show "INT_MAX < num bs \<Longrightarrow> bvec_val (bits_of bs) = None"
    by (simp add: bvec_val_def rev_bits INT_MAX_def)
qed

section \<open>Copies and shifts\<close>

lemma bvec_copy_own:
  assumes O: "own E L s" and v: "vec L v Fs"
  shows "runs (bvec_copy v s) (\<lambda>w t. w = v \<and> own E (entries v Fs + L) t)"
  unfolding bvec_copy_def using each_addref_own [OF O v] O by (cases "v = []") simp_all

definition coerced :: "nat \<Rightarrow> bfun list \<Rightarrow> bfun list" where
  "coerced k Fs = take k Fs @ replicate (k - length Fs) (\<lambda>_. False)"

lemma number_coerced: "number (coerced k Fs) e = number Fs e mod 2 ^ k"
proof (cases "k \<le> length Fs")
  case False
  then have "(2 :: int) ^ length Fs \<le> 2 ^ k" by (intro power_increasing) simp_all
  then have "number Fs e mod 2 ^ k = number Fs e"
    using number_range [of Fs e] by (intro mod_pos_pos_trivial) linarith+
  then show ?thesis using False by (simp add: coerced_def)
qed (simp add: coerced_def number_div_mod)

lemma coerced_length [simp]: "length (coerced k Fs) = k"
  by (simp add: coerced_def)

lemma own_zeros: "own E L s \<Longrightarrow> own E (entries (replicate k 0) (replicate k (\<lambda>_. False)) + L) s"
  using own_bits [of E L s "replicate k False"] by (simp add: bits_of_def)

lemma bvec_coerce_own:
  assumes O: "own E L s" and v: "vec L v Fs" and k: "0 \<le> k"
  shows "runs (bvec_coerce k v s) (gives E L (coerced (nat k) Fs))"
proof -
  let ?k = "nat k"
  have l: "length v = length Fs" using v by (rule vec_length)
  have 1: "runs (each bdd_addref (take ?k v) s) (\<lambda>ys t. ys = take ?k v \<and> own E (entries (take ?k v) (take ?k Fs) + L) t)"
    by (rule each_addref_own [OF O vec_take [OF v]])
  show ?thesis unfolding bvec_coerce_def
  proof (rule runs_bnd [where P = "\<lambda>r t. r = replicate ?k 0 \<and> t = s"], use k in \<open>simp add: bvec_build_def\<close>, clarify, rule runs_bnd [OF 1], clarify)
    fix t assume t: "own E (entries (take ?k v) (take ?k Fs) + L) t"
    have "own E (entries (replicate (?k - length Fs) 0) (replicate (?k - length Fs) (\<lambda>_. False)) +
        (entries (take ?k v) (take ?k Fs) + L)) t" by (rule own_zeros [OF t])
    moreover have "?k - min (length Fs) ?k = ?k - length Fs" by simp
    ultimately show "runs (ret (take ?k v @ drop (length (take ?k v)) (replicate ?k 0)) t)
        (\<lambda>v t. gives E L (coerced ?k Fs) v t)"
      using l by (simp add: coerced_def ac_simps)
  qed
qed

definition shl_funs :: "nat \<Rightarrow> bfun \<Rightarrow> bfun list \<Rightarrow> bfun list" where
  "shl_funs k C Fs = replicate (min (length Fs) k) C @ take (length Fs - min (length Fs) k) Fs"

definition shr_funs :: "nat \<Rightarrow> bfun \<Rightarrow> bfun list \<Rightarrow> bfun list" where
  "shr_funs k C Fs = drop k Fs @ replicate (min (length Fs) k) C"

lemma shift_lengths [simp]: "length (shl_funs k C Fs) = length Fs" "length (shr_funs k C Fs) = length Fs"
  by (simp_all add: shl_funs_def shr_funs_def)

lemma number_shl: "number (shl_funs k (\<lambda>_. False) Fs) e = (number Fs e * 2 ^ k) mod 2 ^ length Fs"
proof (cases "k \<le> length Fs")
  case True
  have "(2 :: int) ^ length Fs = 2 ^ k * 2 ^ (length Fs - k)" using True by (simp flip: power_add)
  then show ?thesis using True
    by (simp add: shl_funs_def number_div_mod(1) min_absorb2 mult.commute [of "number Fs e"] mod_mult_mult1)
next
  case False
  then have "(2 :: int) ^ k = 2 ^ (k - length Fs) * 2 ^ length Fs" by (simp flip: power_add)
  then have "number Fs e * 2 ^ k = (number Fs e * 2 ^ (k - length Fs)) * 2 ^ length Fs" by simp
  then have "number Fs e * 2 ^ k mod 2 ^ length Fs = 0" by (simp only: mod_mult_self2_is_0)
  then show ?thesis using False by (simp add: shl_funs_def min_absorb1)
qed

lemma number_shr: "number (shr_funs k (\<lambda>_. False) Fs) e = number Fs e div 2 ^ k"
proof (cases "k \<le> length Fs")
  case False
  then have "(2 :: int) ^ length Fs \<le> 2 ^ k" by (intro power_increasing) simp_all
  then have "number Fs e div 2 ^ k = 0"
    using number_range [of Fs e] by (intro div_pos_pos_trivial) linarith+
  then show ?thesis using False by (simp add: shr_funs_def)
qed (simp add: shr_funs_def number_div_mod)

text \<open>Two runs of references, as both shifts take them.\<close>

lemma two_addrefs_own:
  assumes O: "own E L s" and v: "vec L v Fs" "vec L w Gs"
    and k: "\<And>t. own E (entries v Fs + (entries w Gs + L)) t \<Longrightarrow> runs (k v w t) Q"
  shows "runs (bnd (each bdd_addref v s) (\<lambda>xs s. bnd (each bdd_addref w s) (\<lambda>ys s. k xs ys s))) Q"
proof (rule runs_bnd [OF each_addref_own [OF O v(1)]], clarify)
  fix t assume t: "own E (entries v Fs + L) t"
  show "runs (bnd (each bdd_addref w t) (\<lambda>ys s. k v ys s)) Q"
    by (rule runs_bnd [OF each_addref_own [OF t vec_right [OF v(2)]]]) (auto intro: k simp: ac_simps)
qed

lemma bvec_shlfixed_own:
  assumes O: "own E L s" and v: "vec L v Fs" "has L c C" and k: "0 \<le> k"
  shows "runs (bvec_shlfixed v k c s) (gives E L (shl_funs (nat k) C Fs))"
proof (cases "v = []")
  case True
  then show ?thesis using O v k vec_length [OF v(1)] by (simp add: bvec_shlfixed_def shl_funs_def)
next
  case False
  let ?m = "min (length v) (nat k)"
  have l: "length v = length Fs" using v(1) by (rule vec_length)
  show ?thesis using k False unfolding bvec_shlfixed_def Let_def
    by (simp, intro two_addrefs_own [OF O vec_replicate [OF v(2)] vec_take [OF v(1)]])
      (simp add: l shl_funs_def ac_simps)
qed

lemma bvec_shrfixed_own:
  assumes O: "own E L s" and v: "vec L v Fs" "has L c C" and k: "0 \<le> k"
  shows "runs (bvec_shrfixed v k c s) (gives E L (shr_funs (nat k) C Fs))"
proof (cases "v = []")
  case True
  then show ?thesis using O v k vec_length [OF v(1)] by (simp add: bvec_shrfixed_def shr_funs_def)
next
  case False
  have l: "length v = length Fs" using v(1) by (rule vec_length)
  have m: "length v - (length v - nat k) = min (length Fs) (nat k)" by (simp add: l)
  show ?thesis using k False unfolding bvec_shrfixed_def Let_def m
    by (simp, intro two_addrefs_own [OF O vec_replicate [OF v(2)] vec_drop [OF v(1)]])
      (simp add: l shr_funs_def ac_simps)
qed

section \<open>Bitwise choice\<close>

lemma addref_own:
  assumes "runs m (\<lambda>x t. own E L t \<and> stands t x F)"
  shows "runs (addref_of m) (\<lambda>x t. own E (add_mset (x, F) L) t)"
  unfolding addref_of_def
proof (rule runs_bnd [OF assms], elim conjE)
  fix x t assume "own E L t" "stands t x F"
  from addref_rule [OF this] show "runs (bdd_addref x t) (\<lambda>x t. own E (add_mset (x, F) L) t)" by auto
qed

definition ite_funs :: "bfun \<Rightarrow> bfun list \<Rightarrow> bfun list \<Rightarrow> bfun list" where
  "ite_funs B Fs Gs = map (\<lambda>q e. if B e then fst q e else snd q e) (zip Fs Gs)"

lemma number_ite:
  assumes "length Fs = length Gs"
  shows "number (ite_funs B Fs Gs) e = (if B e then number Fs e else number Gs e)"
proof -
  have "map (\<lambda>F. F e) (ite_funs B Fs Gs) = map (\<lambda>F. F e) (if B e then map fst (zip Fs Gs) else map snd (zip Fs Gs))"
    by (auto simp: ite_funs_def)
  then show ?thesis using assms by (simp add: number_def)
qed

lemma bvec_ite_own:
  assumes O: "own E L s" and b: "has L b B" and v: "vec L v Fs" "vec L w Gs" "length v = length w"
  shows "runs (bvec_ite b v w s) (gives E L (ite_funs B Fs Gs))"
proof -
  let ?R = "\<lambda>L p q. has L b B \<and> both_has L p q"
  have "runs (each (\<lambda>(x, y) s. addref_of (bdd_ite b x y s)) (zip v w) s)
     (\<lambda>ys t. length ys = length (zip v w) \<and>
        own E (entries ys (map (\<lambda>q e. if B e then fst q e else snd q e) (zip Fs Gs)) + L) t)"
  proof (rule each_fresh [where R = ?R, OF _ _ _ O])
    fix p q L s assume O: "own E L s" and R: "?R L p q"
    obtain x y where p: "p = (x, y)" by force
    have h: "has L b B" "has L x (fst q)" "has L y (snd q)" using R by (simp_all add: both_has_def p)
    show "runs ((\<lambda>(x, y) s. addref_of (bdd_ite b x y s)) p s)
        (\<lambda>z t. own E (add_mset (z, \<lambda>e. if B e then fst q e else snd q e) L) t)"
      using addref_own [OF ite_own [OF O h]] by (simp only: p prod.case)
  next
    show "list_all2 (?R L) (zip v w) (zip Fs Gs)"
      using vec_zip [OF v] b by (auto elim: list_all2_mono)
  qed (auto simp: both_has_def has_right)
  then show ?thesis
    unfolding bvec_ite_def using v(3) vec_length [OF v(1)] vec_length [OF v(2)]
    by (auto elim: runs_conseq simp: ite_funs_def)
qed

end
