(* ===== verification/BvecDiv.thy ===== *)
theory BvecDiv
  imports BvecShift
begin

text \<open>Multiplication of two Boolean vectors: shift and add, without loss of bits.\<close>

section \<open>Selecting between two vectors\<close>

lemma select_bit_own:
  assumes O: "own E (add_mset (x, X) L) s" and h: "has L b B" "has L a A"
  shows "runs (select_bit b (a, x) s) (\<lambda>y t. own E (add_mset (y, \<lambda>e. if B e then A e else X e) L) t)"
  unfolding select_bit_def fst_conv snd_conv
  by (rule O h seq | assumption)+ simp

lemma each_select_own:
  assumes O: "own E (entries v Gs + L) s" and h: "has L b B" "vec L w Fs"
    and l: "length w = length v" "length Gs = length v"
  shows "runs (each (select_bit b) (zip w v) s) (gives E L (ite_funs B Fs Gs))"
proof -
  let ?R = "\<lambda>L p q. has L b B \<and> has L (fst p) (fst q)"
  let ?c = "\<lambda>p q. {#(snd p, snd q)#}"
  have lF: "length Fs = length v" using vec_length [OF h(2)] l by simp
  have z: "zip (zip w v) (zip Fs Gs) = map (\<lambda>(p, q). ((fst p, fst q), (snd p, snd q))) (zip (zip w Fs) (zip v Gs))"
    using l lF by (auto intro!: nth_equalityI)
  have sum: "sum_list (map2 ?c (zip w v) (zip Fs Gs)) = entries v Gs" if "length w = length v" "length Fs = length v" "length Gs = length v"
    for w v :: BVEC and Fs Gs :: "bfun list"
    using that
  proof (induction v arbitrary: w Fs Gs)
    case (Cons a v)
    then show ?case by (cases w; cases Fs; cases Gs) auto
  qed simp
  have "runs (each (select_bit b) (zip w v) s)
     (\<lambda>ys t. length ys = length (zip w v) \<and>
        own E (entries ys (map (\<lambda>q e. if B e then fst q e else snd q e) (zip Fs Gs)) + L) t)"
  proof (rule each_own [where R = ?R and c = ?c])
    fix p q L s assume "own E (?c p q + L) s" and "?R L p q"
    then show "runs (select_bit b p s) (\<lambda>y t. own E (add_mset (y, \<lambda>e. if B e then fst q e else snd q e) L) t)"
      using select_bit_own [of E "snd p" "snd q" L s b B "fst p" "fst q"] by simp
  next
    show "own E (sum_list (map2 ?c (zip w v) (zip Fs Gs)) + L) s" using O sum l lF by simp
    show "list_all2 (?R L) (zip w v) (zip Fs Gs)"
      using h l lF by (auto simp: list_all2_conv_all_nth vec_def)
  qed (auto simp: has_right)
  then show ?thesis by (rule runs_conseq) (use l lF in \<open>auto simp: ite_funs_def\<close>)
qed

lemma ite_length [simp]: "length (ite_funs B Fs Gs) = min (length Fs) (length Gs)"
  by (simp add: ite_funs_def)

section \<open>Shifting the left operand\<close>

lemma entries_last:
  assumes "v \<noteq> []" "length v = length Fs"
  shows "entries v Fs = add_mset (last v, last Fs) (entries (butlast v) (butlast Fs))"
proof -
  have "Fs \<noteq> []" using assms by auto
  moreover have "entries (butlast v @ [last v]) (butlast Fs @ [last Fs]) =
      add_mset (last v, last Fs) (entries (butlast v) (butlast Fs))"
    using assms by (subst entries_append) simp_all
  ultimately show ?thesis using assms(1) by (metis append_butlast_last_id)
qed

definition doubled :: "bfun list \<Rightarrow> bfun list" where
  "doubled Fs = (\<lambda>_. False) # butlast Fs"

lemma number_doubled:
  assumes "Fs \<noteq> []"
  shows "number (doubled Fs) e = (2 * number Fs e) mod 2 ^ length Fs"
proof -
  have "doubled Fs = shl_funs 1 (\<lambda>_. False) Fs"
    using assms by (cases Fs) (simp_all add: doubled_def shl_funs_def butlast_conv_take)
  then show ?thesis by (simp add: number_shl mult.commute)
qed

section \<open>Steps on vectors\<close>

lemma runs_cont: "runs m P \<Longrightarrow> (\<And>x t. P x t \<Longrightarrow> runs (k x t) Q) \<Longrightarrow> runs (bnd m k) Q"
  by (rule runs_bnd)

lemma seq_add:
  assumes "own E L s" "vec L l Fs" "vec L r Gs" "length l = length r"
    "\<And>v Hs t. length v = length l \<Longrightarrow> length Hs = length l \<Longrightarrow> own E (entries v Hs + L) t \<Longrightarrow>
       (\<And>e. number Hs e = (number Fs e + number Gs e) mod 2 ^ length l) \<Longrightarrow> runs (k v t) Q"
  shows "runs (bnd (bvec_add l r s) k) Q"
  by (rule runs_cont [OF bvec_add_own [OF assms(1-4)]]) (use assms(5) in \<open>auto simp: makes_def\<close>)

lemma seq_sub:
  assumes "own E L s" "vec L l Fs" "vec L r Gs" "length l = length r"
    "\<And>v Hs t. length v = length l \<Longrightarrow> length Hs = length l \<Longrightarrow> own E (entries v Hs + L) t \<Longrightarrow>
       (\<And>e. number Hs e = (number Fs e - number Gs e) mod 2 ^ length l) \<Longrightarrow> runs (k v t) Q"
  shows "runs (bnd (bvec_sub l r s) k) Q"
  by (rule runs_cont [OF bvec_sub_own [OF assms(1-4)]]) (use assms(5) in \<open>auto simp: makes_def\<close>)

lemma seq_free:
  assumes "own E (entries v Fs + L) s" "length v = length Fs" "\<And>t. own E L t \<Longrightarrow> runs (k () t) Q"
  shows "runs (bnd (bvec_free v s) k) Q"
  by (rule runs_cont [OF bvec_free_own]) (use assms in auto)

lemma seq_select:
  assumes "own E (entries v Gs + L) s" "has L b B" "vec L w Fs" "length w = length v" "length Gs = length v"
    "\<And>v' t. length v' = length v \<Longrightarrow> own E (entries v' (ite_funs B Fs Gs) + L) t \<Longrightarrow> runs (k v' t) Q"
  shows "runs (bnd (each (select_bit b) (zip w v) s) k) Q"
  using vec_length [OF assms(3)]
  by (intro runs_cont [OF each_select_own [OF assms(1-5)]]) (use assms(4-6) in auto)

lemma seq_dropped:
  assumes "own E (add_mset (x, X) L) s" "\<And>t. own E L t \<Longrightarrow> runs (k x t) Q"
  shows "runs (bnd (bdd_delref x s) k) Q"
  by (rule seq_delref) (use assms in \<open>auto simp: pick_def\<close>)

lemma seq_coerce:
  assumes "own E L s" "vec L v Fs" "0 \<le> n"
    "\<And>w t. length w = nat n \<Longrightarrow> own E (entries w (coerced (nat n) Fs) + L) t \<Longrightarrow> runs (k w t) Q"
  shows "runs (bnd (bvec_coerce n v s) k) Q"
  by (rule runs_cont [OF bvec_coerce_own [OF assms(1-3)]]) (use assms(4) in auto)

lemma seq_shlfixed:
  assumes "own E L s" "vec L v Fs" "has L c C" "0 \<le> n"
    "\<And>w t. length w = length v \<Longrightarrow> own E (entries w (shl_funs (nat n) C Fs) + L) t \<Longrightarrow> runs (k w t) Q"
  shows "runs (bnd (bvec_shlfixed v n c s) k) Q"
  by (rule runs_cont [OF bvec_shlfixed_own [OF assms(1-4)]]) (use assms(5) vec_length [OF assms(2)] in auto)

section \<open>The loop\<close>

definition mul_done :: "bdd_state \<Rightarrow> (int \<times> bfun) multiset \<Rightarrow> nat \<Rightarrow> ((int \<Rightarrow> bool) \<Rightarrow> int) \<Rightarrow> BVEC \<times> BVEC \<Rightarrow> bdd_state \<Rightarrow> bool" where
  "mul_done E L N f p t = (\<exists>Rs Ss. length (fst p) = N \<and> length Rs = N \<and> length (snd p) = N \<and> length Ss = N \<and>
     own E (entries (fst p) Rs + (entries (snd p) Ss + L)) t \<and> (\<forall>e. number Rs e = f e mod 2 ^ N))"

lemma mul_loop_own:
  assumes "own E (entries res Rs + (entries ls Ss + L)) s" "vec L bs Gs"
    and "length res = N" "length Rs = N" "length ls = N" "length Ss = N" "0 < N"
    and "\<And>e. number Rs e = r0 e mod 2 ^ N" "\<And>e. number Ss e = s0 e mod 2 ^ N"
  shows "runs (mul_loop bs res ls s) (mul_done E L N (\<lambda>e. r0 e + s0 e * number Gs e))"
  using assms
proof (induction bs arbitrary: res Rs ls Ss Gs s r0 s0)
  case Nil
  then have "Gs = []" using vec_length by fastforce
  then show ?case using Nil unfolding mul_done_def by auto
next
  case (Cons b bs)
  then obtain B Gs' where G: "Gs = B # Gs'" "has L b B" "vec L bs Gs'" by (auto simp: vec_Cons)
  note len = Cons.prems(3-6) and N = Cons.prems(7) and nums = Cons.prems(8,9)
  have ne: "ls \<noteq> []" "Ss \<noteq> []" using len N by auto
  note el = entries_last [OF ne(1) trans [OF len(3) len(4) [symmetric]]]
  let ?M = "entries res Rs + (entries ls Ss + L)"
  have v: "vec ?M res Rs" "vec ?M ls Ss" "length res = length ls"
    using len vec_entries [of res Rs] vec_right [OF vec_entries [of ls Ss L], of "entries res Rs"] by auto
  show ?case unfolding mul_loop.simps
  proof (rule seq_add [OF Cons.prems(1) v], goal_cases)
    case (1 added As t)
    let ?K = "entries ls Ss + (entries added As + L)" and ?I = "ite_funs B As Rs"
    have h: "has ?K b B" "vec ?K added As"
      using G(2) 1 vec_right [OF vec_entries [of added As L], of "entries ls Ss"] by (auto intro: has_right)
    have O: "own E (entries res Rs + ?K) t" using 1(3) by (simp add: ac_simps)
    have "length added = length res" "length Rs = length res" using 1 len by simp_all
    then show ?case
    proof (rule seq_select [OF O h], goal_cases)
      case (1 res' t)
      then have t: "own E (add_mset (last ls, last Ss) (entries added As + (entries res' ?I +
          (entries (butlast ls) (butlast Ss) + L)))) t" by (simp add: el ac_simps)
      have lA: "length added = length As" using \<open>length added = length res\<close> \<open>length As = length res\<close> by simp
      show ?case
      proof (rule seq_dropped [OF t], erule seq_free [OF _ lA], goal_cases)
        case (1 _ u)
        from own_const(1) [OF this]
        have u: "own E (entries res' ?I + (entries (bddfalse # butlast ls) (doubled Ss) + L)) u"
          by (simp add: doubled_def bddfalse_def ac_simps)
        let ?r = "\<lambda>e. if B e then r0 e + s0 e else r0 e" and ?s = "\<lambda>e. 2 * s0 e"
        have l: "length res' = N" "length ?I = N" "length (bddfalse # butlast ls) = N" "length (doubled Ss) = N"
          using \<open>length res' = _\<close> \<open>length As = _\<close> len N by (simp_all add: doubled_def)
        have nI: "number ?I e = ?r e mod 2 ^ N" for e
          using \<open>length As = _\<close> \<open>\<And>e. number As e = _ e\<close> len nums by (simp add: number_ite mod_add_eq)
        have nS: "number (doubled Ss) e = ?s e mod 2 ^ N" for e
          using ne nums(2) len by (simp add: number_doubled mod_mult_right_eq)
        have "?r e + ?s e * number Gs' e = r0 e + s0 e * number Gs e" for e
          by (simp add: G(1) algebra_simps)
        then show ?case using Cons.IH [OF u G(3) l N nI nS] by simp
      qed
    qed
  qed
qed

lemma mul_done_free:
  assumes "mul_done E L (length Fs + length Gs) (\<lambda>e. 0 + number Fs e * number Gs e) (res, ls) t"
  shows "runs (bnd (bvec_free ls t) (\<lambda>_ s. ret res s))
    (makes E L (length Fs + length Gs) (\<lambda>e. number Fs e * number Gs e))"
proof -
  let ?N = "length Fs + length Gs"
  from assms obtain Rs Ss where l: "length res = ?N" "length Rs = ?N" "length ls = ?N" "length Ss = ?N"
    and t: "own E (entries res Rs + (entries ls Ss + L)) t"
    and n: "\<And>e. number Rs e = (number Fs e * number Gs e) mod 2 ^ ?N"
    unfolding mul_done_def fst_conv snd_conv add_0 by blast
  have t: "own E (entries ls Ss + (entries res Rs + L)) t" using t by (simp add: ac_simps)
  have "number Fs e * number Gs e < 2 ^ ?N" for e
    using mult_strict_mono' [OF number_range(2) [of Fs e] number_range(2) [of Gs e] number_range(1) number_range(1)]
    by (simp add: power_add)
  then have "number Rs e = number Fs e * number Gs e" for e
    using n number_range(1) [of Fs e] number_range(1) [of Gs e] by simp
  then show ?thesis by (intro seq_free [OF t trans [OF l(3) l(4) [symmetric]]]) (use l in \<open>auto simp: makes_def\<close>)
qed

lemma bvec_mul_own:
  assumes O: "own E L s" and v: "vec L l Fs" "vec L r Gs"
  shows "runs (bvec_mul l r s)
    (makes E L (if l = [] \<or> r = [] then 0 else length l + length r) (\<lambda>e. number Fs e * number Gs e))"
proof (cases "l = [] \<or> r = []")
  case True
  then have "Fs = [] \<or> Gs = []" using v vec_length by fastforce
  then show ?thesis using True O unfolding bvec_mul_def makes_def by auto
next
  case False
  let ?N = "length l + length r"
  have N: "nat (bitnum l + bitnum r) = ?N" "0 \<le> bitnum l + bitnum r" by (simp_all add: bitnum_def nat_int_add)
  have len: "length l = length Fs" "length r = length Gs" using v vec_length by metis+
  let ?Z = "replicate ?N (\<lambda>_. False) :: bfun list" and ?C = "coerced ?N Fs"
  have "runs (bnd (bvec_build (bitnum l + bitnum r) False s) (\<lambda>res s.
      bnd (bvec_copy l s) (\<lambda>tmp s. bnd (bvec_coerce (bitnum l + bitnum r) tmp s) (\<lambda>ls s.
      bnd (bvec_free tmp s) (\<lambda>_ s. bnd (mul_loop r res ls s) (\<lambda>(res, ls) s.
      bnd (bvec_free ls s) (\<lambda>_ s. ret res s)))))))
    (makes E L ?N (\<lambda>e. number Fs e * number Gs e))"
  proof (rule runs_cont [OF bvec_build_own [OF O N(2)]], unfold N(1), elim conjE, goal_cases)
    case (1 res t)
    show ?case
    proof (rule runs_cont [OF bvec_copy_own [OF 1(2) vec_right [OF v(1)]]], clarify, goal_cases)
      case (1 _ t)
      show ?case
      proof (rule seq_coerce [OF 1 vec_entries [OF len(1)] N(2)], unfold N(1), goal_cases)
        case (1 ls u)
        then have u: "own E (entries l Fs + (entries res ?Z + (entries ls ?C + L))) u" by (simp add: ac_simps)
        have l: "length res = ?N" "length ?Z = ?N" "length ls = ?N" "length ?C = ?N" "0 < ?N"
          using \<open>length ls = _\<close> \<open>length res = _\<close> False by auto
        have nz: "number ?Z e = 0 mod 2 ^ ?N" for e by simp
        show ?case
          by (rule seq_free [OF u len(1)], rule runs_cont [OF mul_loop_own [OF _ v(2) l nz number_coerced]], assumption)
            (auto simp only: len prod.case intro!: mul_done_free)
      qed
    qed
  qed
  then show ?thesis using False by (simp add: bvec_mul_def bvec_false_def Let_def)
qed

section \<open>Division\<close>

text \<open>
  Division of two Boolean vectors. The quotient and the remainder are right; the ledger also shows
  what the function does not give back: the first comparison and the shifted divisor.
\<close>

section \<open>The algorithm on numbers\<close>

text \<open>\<open>k\<close> rounds of restoring division: the quotient and the remainder.\<close>

primrec rounds :: "nat \<Rightarrow> int \<Rightarrow> int \<Rightarrow> int \<times> int" where
  "rounds 0 g r = (0, r)"
| "rounds (Suc k) g r =
     (let b = g * 2 ^ k \<le> r; p = rounds k g (if b then r - g * 2 ^ k else r)
      in (fst p + 2 ^ k * of_bool b, snd p))"

lemma rounds_zero: "0 \<le> r \<Longrightarrow> rounds k 0 r = (2 ^ k - 1, r)"
  by (induction k) simp_all

lemma rounds_div: "0 < g \<Longrightarrow> 0 \<le> r \<Longrightarrow> r < g * 2 ^ k \<Longrightarrow> rounds k g r = (r div g, r mod g)"
proof (induction k arbitrary: r)
  case (Suc k)
  show ?case
  proof (cases "g * 2 ^ k \<le> r")
    case True
    let ?r = "r - g * 2 ^ k"
    have "rounds k g ?r = (?r div g, ?r mod g)" using Suc True by simp
    moreover have "(?r + 2 ^ k * g) div g = 2 ^ k + ?r div g" "(?r + 2 ^ k * g) mod g = ?r mod g"
      using Suc.prems(1) by (simp_all only: div_mult_self1 mod_mult_self1 less_irrefl)
    ultimately show ?thesis using True by (simp add: Let_def mult.commute)
  next
    case False
    then show ?thesis using Suc by (simp add: Let_def)
  qed
qed simp

text \<open>What the quotient vector of \<open>n\<close> bits and the remainder hold, for a zero divisor too.\<close>

definition quotient :: "nat \<Rightarrow> int \<Rightarrow> int \<Rightarrow> int" where
  "quotient n f g = (if g = 0 then 2 ^ n - 1 else f div g)"

lemma rounds_eq:
  assumes "0 \<le> f" "f < 2 ^ n" "0 \<le> g"
  shows "rounds n g f = (quotient n f g, f mod g)"
proof (cases "g = 0")
  case True
  then show ?thesis using assms rounds_zero by (simp add: quotient_def)
next
  case False
  have "(2 :: int) ^ n \<le> g * 2 ^ n" using assms False mult_right_mono [of 1 g "2 ^ n"] by simp
  then have "f < g * 2 ^ n" using assms(2) by linarith
  then show ?thesis using False assms rounds_div by (simp add: quotient_def)
qed

section \<open>One round\<close>

lemma exI2: "P x y \<Longrightarrow> \<exists>x y. P x y"
  by blast

lemma entries_hd:
  assumes "v \<noteq> []" "length v = length Fs"
  shows "entries v Fs = add_mset (hd v, hd Fs) (entries (tl v) (tl Fs))"
  using assms by (cases v; cases Fs) auto

definition halved :: "bfun list \<Rightarrow> bfun list" where
  "halved Fs = tl Fs @ [\<lambda>_. False]"

lemma number_halved:
  assumes "Fs \<noteq> []"
  shows "number (halved Fs) e = number Fs e div 2"
  using assms by (cases Fs) (simp_all add: halved_def)

lemma halved_length [simp]: "Fs \<noteq> [] \<Longrightarrow> length (halved Fs) = length Fs"
  by (cases Fs) (simp_all add: halved_def)

lemma seq_lte:
  assumes "own E L s" "vec L l Fs" "vec L r Gs" "length l = length r" "l \<noteq> []"
    "\<And>x t. own E (add_mset (x, \<lambda>e. number Fs e \<le> number Gs e) L) t \<Longrightarrow> runs (k x t) Q"
  shows "runs (bnd (addref_of (bvec_lte l r s)) k) Q"
  by (rule addref_of_own [OF comparisons_own(2) [OF assms(1-5)]]) (rule assms(6))

definition div_stepped ::
    "bdd_state \<Rightarrow> (int \<times> bfun) multiset \<Rightarrow> nat \<Rightarrow> ((int \<Rightarrow> bool) \<Rightarrow> int) \<Rightarrow> ((int \<Rightarrow> bool) \<Rightarrow> int) \<Rightarrow>
     BVEC \<Rightarrow> BVEC \<Rightarrow> BDD \<Rightarrow> bdd_state \<Rightarrow> bool" where
  "div_stepped E L N d r dv rem b t =
     (\<exists>Ds Rs. length dv = N \<and> length Ds = N \<and> length rem = N \<and> length Rs = N \<and>
        own E (entries dv Ds + (entries rem Rs + add_mset (b, \<lambda>e. d e \<le> r e) L)) t \<and>
        (\<forall>e. number Ds e = d e div 2) \<and> (\<forall>e. number Rs e = (if d e \<le> r e then r e - d e else r e)))"

lemma div_step_own:
  assumes O: "own E (entries dv Ds + (entries rem Rs + L)) s"
    and len: "length dv = N" "length Ds = N" "length rem = N" "length Rs = N" "0 < N"
  shows "runs (div_step kp dv rem q s)
    (\<lambda>(dv, rem, q') t. \<exists>b. q' = (if kp then b # q else q) \<and> div_stepped E L N (number Ds) (number Rs) dv rem b t)"
proof -
  have ne: "dv \<noteq> []" "Ds \<noteq> []" using len by auto
  note eh = entries_hd [OF ne(1) trans [OF len(1) len(2) [symmetric]]]
  let ?M = "entries dv Ds + (entries rem Rs + L)" and ?B = "\<lambda>e. number Ds e \<le> number Rs e"
  have v: "vec ?M dv Ds" "vec ?M rem Rs" "length dv = length rem"
    using len vec_entries [of dv Ds] vec_right [OF vec_entries [of rem Rs L], of "entries dv Ds"] by auto
  show ?thesis unfolding div_step_def
  proof (rule seq_lte [OF O v ne(1)], goal_cases)
    case (1 b t)
    have v': "vec (add_mset (b, ?B) ?M) rem Rs" "vec (add_mset (b, ?B) ?M) dv Ds" "length rem = length dv"
      using v by simp_all
    show ?case
    proof (rule seq_sub [OF 1 v'], goal_cases)
      case (1 sub Ss t)
      let ?K = "entries dv Ds + (entries sub Ss + add_mset (b, ?B) L)"
      have O: "own E (entries rem Rs + ?K) t" using 1(3) by (simp add: ac_simps)
      have h: "has ?K b ?B" "vec ?K sub Ss" "length sub = length rem" "length Rs = length rem"
        using 1 len vec_right [OF vec_entries [of sub Ss], of "entries dv Ds"] by (auto intro: has_right)
      have lS: "length sub = length Ss" using 1 by simp
      show ?case
      proof (rule seq_select [OF O h], goal_cases)
        case (1 rem' t)
        let ?I = "ite_funs ?B Ss Rs"
        have O: "own E (add_mset (hd dv, hd Ds) (entries sub Ss + (entries (tl dv) (tl Ds) + (entries rem' ?I + add_mset (b, ?B) L)))) t"
          using 1(2) by (simp add: eh ac_simps add_mset_commute)
        show ?case
        proof (rule seq_dropped [OF O], erule seq_free [OF _ lS], goal_cases)
          case (1 _ u)
          from own_const(1) [OF this]
          have "own E (entries (tl dv @ [bddfalse]) (halved Ds) + (entries rem' ?I + add_mset (b, ?B) L)) u"
            using len by (simp add: halved_def bddfalse_def entries_append ac_simps add_mset_commute)
          moreover have "number (ite_funs ?B Ss Rs) e = (if ?B e then number Rs e - number Ds e else number Rs e)" for e
          proof -
            have "number Ss e = (number Rs e - number Ds e) mod 2 ^ N"
              using \<open>\<And>e. number Ss e = _ e\<close> len by simp
            moreover have "(number Rs e - number Ds e) mod 2 ^ N = number Rs e - number Ds e" if "?B e"
              using that number_range(2) [of Rs e, unfolded len(4)] number_range(1) [of Ds e]
              by (intro mod_pos_pos_trivial) linarith+
            ultimately show ?thesis using lS h len by (simp add: number_ite)
          qed
          ultimately have "div_stepped E L N (number Ds) (number Rs) (tl dv @ [bddfalse]) rem' b u"
            unfolding div_stepped_def
            using len ne \<open>length rem' = _\<close> \<open>length Ss = _\<close>
            by (intro exI2 [of _ "halved Ds" ?I]) (auto simp: number_halved)
          then show ?case by auto
        qed
      qed
    qed
  qed
qed

section \<open>All rounds\<close>

definition div_looped ::
    "bdd_state \<Rightarrow> (int \<times> bfun) multiset \<Rightarrow> nat \<Rightarrow> nat \<Rightarrow> ((int \<Rightarrow> bool) \<Rightarrow> int) \<Rightarrow> ((int \<Rightarrow> bool) \<Rightarrow> int) \<Rightarrow>
     BVEC \<Rightarrow> BVEC \<times> BVEC \<times> BVEC \<Rightarrow> bdd_state \<Rightarrow> bool" where
  "div_looped E L N k g r q p t =
     (\<exists>bs Bs Ds Rs. snd (snd p) = bs @ q \<and> length bs = k \<and> length Bs = k \<and>
        length (fst p) = N \<and> length Ds = N \<and> length (fst (snd p)) = N \<and> length Rs = N \<and>
        own E (entries bs Bs + (entries (fst (snd p)) Rs + (entries (fst p) Ds + L))) t \<and>
        (\<forall>e. number Bs e = fst (rounds k (g e) (r e))) \<and> (\<forall>e. number Rs e = snd (rounds k (g e) (r e))))"

lemma div_looped_Suc:
  assumes "div_looped E (add_mset (b, \<lambda>e. g e * 2 ^ k \<le> r e) L) N k g
      (\<lambda>e. if g e * 2 ^ k \<le> r e then r e - g e * 2 ^ k else r e) (b # q) p t"
  shows "div_looped E L N (Suc k) g r q p t"
proof -
  let ?B = "\<lambda>e. g e * 2 ^ k \<le> r e"
  let ?r = "\<lambda>e. if ?B e then r e - g e * 2 ^ k else r e"
  from assms obtain bs Bs Ds Rs where q: "snd (snd p) = bs @ b # q" "length bs = k" "length Bs = k"
    and l: "length (fst p) = N" "length Ds = N" "length (fst (snd p)) = N" "length Rs = N"
    and t: "own E (entries bs Bs + (entries (fst (snd p)) Rs + (entries (fst p) Ds + add_mset (b, ?B) L))) t"
    and n: "\<forall>e. number Bs e = fst (rounds k (g e) (?r e))" "\<forall>e. number Rs e = snd (rounds k (g e) (?r e))"
    unfolding div_looped_def by blast
  have "own E (entries (bs @ [b]) (Bs @ [?B]) + (entries (fst (snd p)) Rs + (entries (fst p) Ds + L))) t"
    using t q by (simp add: entries_append ac_simps)
  moreover have "number (Bs @ [?B]) e = fst (rounds (Suc k) (g e) (r e))" for e
    using n(1) q(3) by (simp add: Let_def)
  moreover have "number Rs e = snd (rounds (Suc k) (g e) (r e))" for e
    using n(2) by (simp add: Let_def)
  ultimately show ?thesis
    unfolding div_looped_def using q l 
    by (intro exI2 [of _ "bs @ [b]" "Bs @ [?B]"] exI2 [of _ Ds Rs]) simp
qed

lemma div_loop_own:
  assumes "own E (entries dv Ds + (entries rem Rs + L)) s"
    and "length dv = N" "length Ds = N" "length rem = N" "length Rs = N" "0 < N"
    and "\<And>e. number Ds e = (g e * 2 ^ k) div 2"
  shows "runs (div_loop k dv rem q s) (div_looped E L N k g (number Rs) q)"
  using assms
proof (induction k arbitrary: dv Ds rem Rs L s q)
  case 0
  then show ?case unfolding div_looped_def by (auto simp: ac_simps)
next
  case (Suc k)
  have d: "number Ds = (\<lambda>e. g e * 2 ^ k)" using Suc.prems(7) by (simp add: fun_eq_iff)
  show ?case unfolding div_loop.simps
  proof (rule runs_cont [OF div_step_own [OF Suc.prems(1-6), where kp = True and q = q]], clarsimp, goal_cases)
    case (1 dv' rem' t b)
    then obtain Ds' Rs' where l: "length dv' = N" "length Ds' = N" "length rem' = N" "length Rs' = N"
      and t: "own E (entries dv' Ds' + (entries rem' Rs' + add_mset (b, \<lambda>e. g e * 2 ^ k \<le> number Rs e) L)) t"
      and n: "\<And>e. number Ds' e = (g e * 2 ^ k) div 2"
        "number Rs' = (\<lambda>e. if g e * 2 ^ k \<le> number Rs e then number Rs e - g e * 2 ^ k else number Rs e)"
      unfolding div_stepped_def d by (auto simp: fun_eq_iff)
    from Suc.IH [OF t l Suc.prems(6) n(1), of "b # q"] show ?case
      by (rule runs_conseq) (rule div_looped_Suc, simp add: n(2))
  qed
qed

section \<open>The function\<close>

text \<open>The references \<open>J\<close> that are lost: the shifted divisor and the comparison of the first round.\<close>

definition div_result ::
    "bdd_state \<Rightarrow> (int \<times> bfun) multiset \<Rightarrow> bfun list \<Rightarrow> bfun list \<Rightarrow> int \<times> BVEC \<times> BVEC \<Rightarrow> bdd_state \<Rightarrow> bool" where
  "div_result E L Fs Gs p t =
     (let n = length Fs in fst p = 0 \<and> (\<exists>Qs Rs J. length (fst (snd p)) = n \<and> length Qs = n \<and>
        length (snd (snd p)) = n \<and> length Rs = n \<and> size J = 2 * n + 1 \<and>
        own E (entries (fst (snd p)) Qs + (entries (snd (snd p)) Rs + (J + L))) t \<and>
        (\<forall>e. number Qs e = quotient n (number Fs e) (number Gs e)) \<and>
        (\<forall>e. number Rs e = number Fs e mod number Gs e)))"

lemma div_finish:
  assumes D: "div_looped E (add_mset c (entries old1 F1 + (entries old2 F2 + L))) (2 * n) n (number Gs) (number Fs) [] (dv, rem, res) t"
    and n: "length Fs = n" "length Gs = n" and old: "length old1 = length F1" "length old2 = length F2"
  shows "runs (bnd (bvec_free old1 t) (\<lambda>_ s. bnd (bvec_free old2 s) (\<lambda>_ s. bnd (bvec_coerce (int n) rem s) (\<lambda>remainder s.
      bnd (bvec_free rem s) (\<lambda>_ s. ret (0, res, remainder) s))))) (div_result E L Fs Gs)"
proof -
  have rd: "rounds n (number Gs e) (number Fs e) = (quotient n (number Fs e) (number Gs e), number Fs e mod number Gs e)" for e
    using number_range [of Fs e] number_range [of Gs e] n by (intro rounds_eq) simp_all
  from D obtain Bs Ds Rs where l: "length res = n" "length Bs = n" "length dv = 2 * n" "length Ds = 2 * n"
      "length rem = 2 * n" "length Rs = 2 * n"
    and t: "own E (entries res Bs + (entries rem Rs + (entries dv Ds + add_mset c (entries old1 F1 + (entries old2 F2 + L))))) t"
    and m: "\<And>e. number Bs e = quotient n (number Fs e) (number Gs e)" "\<And>e. number Rs e = number Fs e mod number Gs e"
    unfolding div_looped_def by (auto simp: rd)
  let ?J = "add_mset c (entries dv Ds)"
  have t1: "own E (entries old1 F1 + (entries old2 F2 + (entries rem Rs + (entries res Bs + (?J + L))))) t"
    using t by (simp add: ac_simps)
  have lr: "length rem = length Rs" using l by simp
  show ?thesis
  proof (rule seq_free [OF t1 old(1)], erule seq_free [OF _ old(2)], erule seq_coerce [OF _ vec_entries [OF lr]], goal_cases)
    case (2 _ _ v t)
    then have u: "own E (entries rem Rs + (entries v (coerced n Rs) + (entries res Bs + (?J + L)))) t"
      by (simp add: ac_simps)
    have "number (coerced n Rs) e = number Fs e mod number Gs e" for e
    proof -
      have "number Fs e mod number Gs e \<le> number Fs e"
        using number_range(1) [of Fs e] number_range(1) [of Gs e] by (simp add: zmod_le_nonneg_dividend)
      moreover have "0 \<le> number Rs e" by (rule number_range)
      ultimately show ?thesis using number_range(2) [of Fs e] m(2) [of e] n by (simp add: number_coerced)
    qed
    then have "div_result E L Fs Gs (0, res, v) t" if "own E (entries v (coerced n Rs) + (entries res Bs + (?J + L))) t" for t
      using that 2(1) l m n unfolding div_result_def Let_def
      by (intro conjI [OF _ exI2 [of _ Bs "coerced n Rs"]] exI [of _ ?J]) (simp_all add: ac_simps)
    then show ?case by (intro seq_free [OF u lr]) simp
  qed simp
qed

lemma bvec_div_own:
  assumes O: "own E (entries old1 F1 + (entries old2 F2 + L)) s"
    and v: "vec (entries old1 F1 + (entries old2 F2 + L)) l Fs" "vec (entries old1 F1 + (entries old2 F2 + L)) r Gs" "length l = length r" "l \<noteq> []"
    and old: "length old1 = length F1" "length old2 = length F2"
  shows "runs (bvec_div l r old1 old2 s) (div_result E L Fs Gs)"
proof -
  let ?n = "length l" and ?M = "entries old1 F1 + (entries old2 F2 + L)"
  have ne: "r \<noteq> []" using v(3,4) by auto
  have n: "length Fs = ?n" "length Gs = ?n" "0 < ?n" using v vec_length [OF v(1)] vec_length [OF v(2)] by auto
  have N: "nat (bitnum l + bitnum r) = 2 * ?n" "0 \<le> bitnum l + bitnum r" "nat (bitnum l) = ?n" "0 \<le> bitnum l"
      "bitnum r = int ?n" "length r = ?n"
    using v(3) by (simp_all add: bitnum_def nat_int_add)
  have le: "number Xs e < 2 ^ (2 * ?n)" if "length Xs = ?n" for Xs e
  proof -
    have "(2 :: int) ^ ?n \<le> 2 ^ (2 * ?n)" by (intro power_increasing) simp_all
    then show ?thesis using number_range(2) [of Xs e] unfolding that by linarith
  qed
  show ?thesis unfolding bvec_div_def Let_def using v(3,4) ne
  proof (simp, rule_tac seq_coerce [OF O v(1) N(2)], unfold N(1), erule_tac seq_coerce [OF _ vec_right [OF v(2)] N(2)],
      unfold N(1), goal_cases)
    case (1 rem _ tmp t)
    let ?F = "coerced (2 * ?n) Fs" and ?G = "coerced (2 * ?n) Gs"
    have l1: "length rem = length ?F" "length tmp = length ?G" using 1 by simp_all
    have O: "own E (entries tmp ?G + (entries rem ?F + ?M)) t" using 1 by simp
    show ?case
    proof (rule seq_shlfixed [OF O vec_entries [OF l1(2)] has_const(1) [folded bddfalse_def] N(4)], unfold N(3), goal_cases)
      case (1 dv t)
      let ?D = "shl_funs ?n (\<lambda>_. False) ?G"
      have O: "own E (entries tmp ?G + (entries dv ?D + (entries rem ?F + ?M))) t" using 1(2) by (simp add: ac_simps)
      have l2: "length dv = 2 * ?n" "length ?D = 2 * ?n" "length rem = 2 * ?n" "length ?F = 2 * ?n" "0 < 2 * ?n"
        using 1 l1 n by simp_all
      show ?case
      proof (rule seq_free [OF O l1(2)], rule_tac runs_cont [OF div_step_own [OF _ l2, where kp = False and q = "[]"]], assumption,
          clarsimp, goal_cases)
        case (1 t dv1 rem1 t1 c)
        have nF: "number ?F e = number Fs e" for e
          using le [OF n(1)] number_range(1) [of Fs e] by (simp add: number_coerced)
        have nG: "number ?D e = number Gs e * 2 ^ ?n" for e
        proof -
          have "number Gs e * 2 ^ ?n < 2 ^ ?n * 2 ^ ?n" using number_range(2) [of Gs e] n by simp
          moreover have "number ?G e = number Gs e"
            using le [OF n(2)] number_range(1) [of Gs e] by (simp add: number_coerced)
          ultimately show ?thesis
            using number_range(1) [of Gs e] by (simp add: number_shl mult_2 power_add)
        qed
        have rem0: "(if number Gs e * 2 ^ ?n \<le> number Fs e then number Fs e - number Gs e * 2 ^ ?n else number Fs e) = number Fs e" for e
        proof (cases "number Gs e = 0")
          case False
          then have "1 \<le> number Gs e" using number_range(1) [of Gs e] by simp
          then have "2 ^ ?n \<le> number Gs e * 2 ^ ?n" using mult_right_mono [of 1 "number Gs e" "2 ^ ?n"] by simp
          then have "\<not> number Gs e * 2 ^ ?n \<le> number Fs e"
            using number_range(2) [of Fs e, unfolded n(1)] by linarith
          then show ?thesis by simp
        qed simp
        from 1(2) obtain Ds Rs C where l3: "length dv1 = 2 * ?n" "length Ds = 2 * ?n" "length rem1 = 2 * ?n" "length Rs = 2 * ?n"
          and t1: "own E (entries dv1 Ds + (entries rem1 Rs + add_mset (c, C) ?M)) t1"
          and d: "\<And>e. number Ds e = (number Gs e * 2 ^ ?n) div 2" "number Rs = number Fs"
          unfolding div_stepped_def nF nG by (auto simp: fun_eq_iff rem0)
        show ?case unfolding N(5,6)
          using div_finish [OF _ n(1,2) old]
          by (intro runs_cont [OF div_loop_own [OF t1 l3 l2(5) d(1)]]) (auto simp: d(2))
      qed
    qed
  qed
qed

end
