(* ===== verification/PropsBvec.thy ===== *)
theory PropsBvec
  imports Example BvecDiv
begin

text \<open>
  The properties of Boolean vectors. The state is described by a ledger: \<open>own E L s\<close> says that \<open>s\<close>
  is a session with the variables of \<open>E\<close> in which the client holds the references of \<open>L\<close>, \<open>vec L v Fs\<close>
  that it may use the entries of \<open>v\<close>, which stand for the functions \<open>Fs\<close>, and \<open>number Fs e\<close> is the
  number that these give for the assignment \<open>e\<close>. The result is owned in addition to \<open>L\<close>: every
  intermediate reference has been given back. If an operation reports an error, the results
  are nodes still, but stand for no function any more (\<open>stands\<close>).
\<close>

section \<open>A ledger of literals\<close>

definition ex_ledger :: "(int \<times> bfun) multiset" where
  "ex_ledger = {#(2, \<lambda>e. e 0), (4, \<lambda>e. e 1)#}"

lemma ex_own: "own example ex_ledger example"
proof -
  have 0: "own example {#} example"
    using ex_session by (simp add: own_quiet quiet_def pair_refs_def refs_held_def example_sel)
  have V: "0 \<le> (0::int)" "0 < bddvarnum example" "0 \<le> (1::int)" "1 < bddvarnum example" by (simp_all add: example_sel)
  from ithvar_own(1) [OF 0 V(3,4)] have 1: "own example {#(4, \<lambda>e. e 1)#} example"
    by (simp add: bdd_ithvar_def example_sel ret_def)
  from ithvar_own(1) [OF 1 V(1,2)] show ?thesis
    by (simp add: bdd_ithvar_def example_sel ex_ledger_def add_mset_commute ret_def)
qed

lemma ex_vecs:
  "vec ex_ledger [2, 4] [\<lambda>e. e 0, \<lambda>e. e 1]" "vec ex_ledger [4, 1] [\<lambda>e. e 1, \<lambda>_. True]"
  by (simp_all add: vec_def ex_ledger_def has_def)

section \<open>Arithmetic\<close>







section \<open>Comparison\<close>

text \<open>
  C26. The six comparisons return the diagram of the assignments for which the numbers are in the
  relation; the result is not referenced, and the ledger is as before.
\<close>

theorem bvec_comparison_correct:
  assumes "own E L s" "vec L l Fs" "vec L r Gs" "length l = length r" "l \<noteq> []"
  shows "runs (bvec_lth l r s) (\<lambda>x t. own E L t \<and> stands t x (\<lambda>e. number Fs e < number Gs e)) \<and>
    runs (bvec_lte l r s) (\<lambda>x t. own E L t \<and> stands t x (\<lambda>e. number Fs e \<le> number Gs e)) \<and>
    runs (bvec_gth l r s) (\<lambda>x t. own E L t \<and> stands t x (\<lambda>e. number Fs e > number Gs e)) \<and>
    runs (bvec_gte l r s) (\<lambda>x t. own E L t \<and> stands t x (\<lambda>e. number Fs e \<ge> number Gs e)) \<and>
    runs (bvec_equ l r s) (\<lambda>x t. own E L t \<and> stands t x (\<lambda>e. number Fs e = number Gs e)) \<and>
    runs (bvec_neq l r s) (\<lambda>x t. own E L t \<and> stands t x (\<lambda>e. number Fs e \<noteq> number Gs e))"
  using comparisons_own [OF assms] neg_comparisons_own [OF assms] by simp

theorem bvec_comparison_correct_example:
  "runs (bvec_lth [2, 4] [4, 1] example) (\<lambda>x t. own example ex_ledger t \<and>
     stands t x (\<lambda>e. number [\<lambda>e. e 0, \<lambda>e. e 1] e < number [\<lambda>e. e 1, \<lambda>_. True] e))"
  using bvec_comparison_correct [OF ex_own ex_vecs] by simp

section \<open>Constants and shifts\<close>

text \<open>
  C27. \<open>bvec_val\<close> reads back what \<open>bvec_con\<close> wrote, modulo \<open>2 ^ n\<close>, as long as it fits into an \<open>int\<close>;
  otherwise the computation of the value overflows (\<open>None\<close>).
\<close>

theorem bvec_con_val_roundtrip:
  assumes "0 \<le> n"
  shows "runs (bvec_con n v s) (\<lambda>xs t. t = s \<and> bitnum xs = n \<and> bvec_isconst xs \<and>
    bvec_val xs = (if v mod 2 ^ nat n \<le> INT_MAX then Some (v mod 2 ^ nat n) else None))"
proof -
  have "bvec_isconst (bits_of bs)" for bs
    by (auto simp: bvec_isconst_def bits_of_def list_all_iff ISCONST_def)
  then show ?thesis
    using assms bvec_val_bits [of "bin (nat n) v"] bvec_val_none [of "bin (nat n) v"]
    by (simp add: bvec_con_def bvec_build_def con_bits_bin bitnum_def num_bin)
qed

theorem bvec_con_val_roundtrip_example:
  "runs (bvec_con 4 13 example) (\<lambda>xs t. t = example \<and> bitnum xs = 4 \<and> bvec_isconst xs \<and> bvec_val xs = Some 13)"
  using bvec_con_val_roundtrip [of 4 13 example] by (simp add: INT_MAX_def)

text \<open>
  C28. The shifts by a fixed number of places multiply and divide by a power of two, without
  carry out of the vector; \<open>bvec_coerce\<close> reduces modulo a power of two.
\<close>

theorem bvec_shift_correct:
  assumes "own E L s" "vec L v Fs" "0 \<le> k"
  shows "runs (bvec_shlfixed v k bddfalse s) (\<lambda>w t. \<exists>Hs. length w = length v \<and> length Hs = length v \<and>
      own E (entries w Hs + L) t \<and> (\<forall>e. number Hs e = number Fs e * 2 ^ nat k mod 2 ^ length v)) \<and>
    runs (bvec_shrfixed v k bddfalse s) (\<lambda>w t. \<exists>Hs. length w = length v \<and> length Hs = length v \<and>
      own E (entries w Hs + L) t \<and> (\<forall>e. number Hs e = number Fs e div 2 ^ nat k)) \<and>
    runs (bvec_coerce k v s) (\<lambda>w t. \<exists>Hs. bitnum w = k \<and> int (length Hs) = k \<and>
      own E (entries w Hs + L) t \<and> (\<forall>e. number Hs e = number Fs e mod 2 ^ nat k))"
proof (intro conjI)
  note h = has_const(1) [of L, folded bddfalse_def] and l = vec_length [OF assms(2)]
  show "runs (bvec_shlfixed v k bddfalse s) (\<lambda>w t. \<exists>Hs. length w = length v \<and> length Hs = length v \<and>
      own E (entries w Hs + L) t \<and> (\<forall>e. number Hs e = number Fs e * 2 ^ nat k mod 2 ^ length v))"
    using bvec_shlfixed_own [OF assms(1,2) h assms(3)]
    by (rule runs_conseq) (use l in \<open>auto simp: number_shl intro!: exI [of _ "shl_funs (nat k) (\<lambda>_. False) Fs"]\<close>)
  show "runs (bvec_shrfixed v k bddfalse s) (\<lambda>w t. \<exists>Hs. length w = length v \<and> length Hs = length v \<and>
      own E (entries w Hs + L) t \<and> (\<forall>e. number Hs e = number Fs e div 2 ^ nat k))"
    using bvec_shrfixed_own [OF assms(1,2) h assms(3)]
    by (rule runs_conseq) (use l in \<open>auto simp: number_shr intro!: exI [of _ "shr_funs (nat k) (\<lambda>_. False) Fs"]\<close>)
  show "runs (bvec_coerce k v s) (\<lambda>w t. \<exists>Hs. bitnum w = k \<and> int (length Hs) = k \<and>
      own E (entries w Hs + L) t \<and> (\<forall>e. number Hs e = number Fs e mod 2 ^ nat k))"
    using bvec_coerce_own [OF assms]
    by (rule runs_conseq) (use assms(3) in \<open>auto simp: number_coerced bitnum_def intro!: exI [of _ "coerced (nat k) Fs"]\<close>)
qed

theorem bvec_shift_correct_example:
  "runs (bvec_shlfixed [2, 4] 1 bddfalse example) (\<lambda>w t. \<exists>Hs. length w = 2 \<and> length Hs = 2 \<and>
     own example (entries w Hs + ex_ledger) t \<and>
     (\<forall>e. number Hs e = number [\<lambda>e. e 0, \<lambda>e. e 1] e * 2 mod 4))"
  using bvec_shift_correct [OF ex_own ex_vecs(1), of 1] by (simp add: eval_nat_numeral del: number_simps)

end
