(* ===== verification/Fdd.thy ===== *)
theory Fdd
  imports Bvec KernelInit
begin

text \<open>
  Model of \<^verbatim>\<open>src/fdd.c\<close>: finite domains, each encoded by a block of variables with the least
  significant bit first. The table of domains is a function of the index, \<open>None\<close> while the pointer
  is \<open>NULL\<close>; the entries below \<open>fdvarnum\<close> are defined. An array argument with its length is a
  list. Allocation of the small arrays is taken to succeed.
\<close>

definition BDD_VARNUM :: int where "BDD_VARNUM = -10"

text \<open>\<open>domain[v]\<close>; a read through the null pointer is undefined.\<close>

definition with_domain :: "int \<Rightarrow> bdd_state \<Rightarrow> (Domain \<Rightarrow> 'a bm) \<Rightarrow> 'a bm" where
  "with_domain v s k = (case domain s of None \<Rightarrow> fail Trap s | Some ds \<Rightarrow> k (ds v))"

text \<open>The two checks at the head of most functions.\<close>

definition block_check :: "int list \<Rightarrow> 'a \<Rightarrow> bdd_state \<Rightarrow> (bdd_state \<Rightarrow> 'a bm) \<Rightarrow> 'a bm" where
  "block_check vs a s k =
     (if \<not> bddrunning s then bnd (bdd_error BDD_RUNNING s) (\<lambda>_ s. ret a s)
      else if list_ex (\<lambda>v. v < 0 \<or> v \<ge> fdvarnum s) vs then bnd (bdd_error BDD_VAR s) (\<lambda>_ s. ret a s)
      else k s)"

definition block_check_code :: "int list \<Rightarrow> bdd_state \<Rightarrow> (bdd_state \<Rightarrow> int bm) \<Rightarrow> int bm" where
  "block_check_code vs s k =
     (if \<not> bddrunning s then bdd_error BDD_RUNNING s
      else if list_ex (\<lambda>v. v < 0 \<or> v \<ge> fdvarnum s) vs then bdd_error BDD_VAR s
      else k s)"

section \<open>Definition of domains\<close>

text \<open>The number of bits for a range; 31 rounds are enough for an \<open>int\<close>.\<close>

primrec binsize_loop :: "nat \<Rightarrow> int \<Rightarrow> int \<Rightarrow> int \<Rightarrow> int option" where
  "binsize_loop 0 bound binsize calcsize = None"
| "binsize_loop (Suc k) bound binsize calcsize =
     (if calcsize < bound then binsize_loop k bound (binsize + 1) (2 * calcsize) else Some binsize)"

text \<open>A range out of bounds leaves the entry uninitialised; the caller reads it (\<open>Trap\<close>).\<close>

definition Domain_allocate :: "int \<Rightarrow> bdd_state \<Rightarrow> Domain bm" where
  "Domain_allocate bound s =
     (if bound \<le> 0 \<or> bound > INT_MAX div 2 then bnd (bdd_error BDD_RANGE s) (\<lambda>_ s. fail Trap s)
      else case binsize_loop 31 bound 1 2 of
        None \<Rightarrow> fail Nofuel s
      | Some b \<Rightarrow> ret \<lparr>d_realsize = bound, d_binsize = b, d_ivar = [], d_var = bddtrue\<rparr> s)"

text \<open>One round of the interleaving: bit \<open>bn\<close> of every domain that has one gets the next variable.\<close>

primrec interleave_round :: "int \<Rightarrow> Domain list \<Rightarrow> int \<Rightarrow> Domain list \<times> int" where
  "interleave_round bn [] binoffset = ([], binoffset)"
| "interleave_round bn (d # ds) binoffset =
     (if bn < d_binsize d
      then let p = interleave_round bn ds (binoffset + 1)
           in (d\<lparr>d_ivar := d_ivar d @ [binoffset]\<rparr> # fst p, snd p)
      else let p = interleave_round bn ds binoffset in (d # fst p, snd p))"

primrec interleave_loop :: "nat \<Rightarrow> int \<Rightarrow> Domain list \<Rightarrow> int \<Rightarrow> Domain list option" where
  "interleave_loop 0 bn ds binoffset = None"
| "interleave_loop (Suc k) bn ds binoffset =
     (if list_ex (\<lambda>d. bn < d_binsize d) ds
      then let p = interleave_round bn ds binoffset in interleave_loop k (bn + 1) (fst p) (snd p)
      else Some ds)"

definition make_domain_set :: "Domain \<Rightarrow> bdd_state \<Rightarrow> Domain bm" where
  "make_domain_set d s =
     bnd (bdd_makeset (d_ivar d) s) (\<lambda>v s. bnd (bdd_addref v s) (\<lambda>_ s. ret (d\<lparr>d_var := v\<rparr>) s))"

text \<open>The entries from \<open>k\<close> on become those of the list.\<close>

primrec put_domains :: "(int \<Rightarrow> Domain) \<Rightarrow> int \<Rightarrow> Domain list \<Rightarrow> int \<Rightarrow> Domain" where
  "put_domains f k [] = f"
| "put_domains f k (d # ds) = put_domains (f(k := d)) (k + 1) ds"

definition grown_alloc :: "int \<Rightarrow> bdd_state \<Rightarrow> int" where
  "grown_alloc num s =
     (if domain s = None then num
      else if fdvarnum s + num > fdvaralloc s
      then fdvaralloc s + (if num > fdvaralloc s then num else fdvaralloc s)
      else fdvaralloc s)"

definition no_domain :: Domain where
  "no_domain = \<lparr>d_realsize = 0, d_binsize = 0, d_ivar = [], d_var = 0\<rparr>"

definition fdd_extdomain :: "int list \<Rightarrow> bdd_state \<Rightarrow> int bm" where
  "fdd_extdomain sizes s0 =
     (let offset = fdvarnum s0; num = int (length sizes) in
      if \<not> bddrunning s0 then bdd_error BDD_RUNNING s0
      else let
        table = (case domain s0 of None \<Rightarrow> (\<lambda>_. no_domain) | Some ds \<Rightarrow> ds);
        s = s0\<lparr>fdvaralloc := grown_alloc num s0, domain := Some table\<rparr> in
      bnd (each Domain_allocate sizes s) (\<lambda>ds s.
      let extravars = sum_list (map d_binsize ds); binoffset = firstbddvar s in
      bnd (if firstbddvar s + extravars > bddvarnum s then bdd_setvarnum (firstbddvar s + extravars) s
           else ret 0 s) (\<lambda>_ s.
      case interleave_loop 32 0 ds binoffset of
        None \<Rightarrow> fail Nofuel s
      | Some ds \<Rightarrow>
        bnd (each make_domain_set ds s) (\<lambda>ds s.
        ret offset (s\<lparr>domain := Some (put_domains table (fdvarnum s) ds),
          fdvarnum := fdvarnum s + num, firstbddvar := firstbddvar s + extravars\<rparr>)))))"

definition fdd_overlapdomain :: "int \<Rightarrow> int \<Rightarrow> bdd_state \<Rightarrow> int bm" where
  "fdd_overlapdomain v1 v2 s = block_check_code [v1, v2] s (\<lambda>s.
     let s = (if fdvarnum s + 1 > fdvaralloc s then s\<lparr>fdvaralloc := 2 * fdvaralloc s\<rparr> else s) in
     with_domain v1 s (\<lambda>d1. with_domain v2 s (\<lambda>d2.
     bnd (make_domain_set
       \<lparr>d_realsize = d_realsize d1 * d_realsize d2, d_binsize = d_binsize d1 + d_binsize d2,
        d_ivar = d_ivar d1 @ d_ivar d2, d_var = 0\<rparr> s) (\<lambda>d s.
     ret (fdvarnum s) (s\<lparr>domain := map_option (\<lambda>ds. ds(fdvarnum s := d)) (domain s),
       fdvarnum := fdvarnum s + 1\<rparr>)))))"

definition fdd_clearall :: "bdd_state \<Rightarrow> unit bm" where
  "fdd_clearall s = bnd (bdd_fdd_done s) (\<lambda>_ s. ret () (bdd_fdd_init s))"

section \<open>Information\<close>

definition fdd_domainnum :: "bdd_state \<Rightarrow> int bm" where
  "fdd_domainnum s = (if \<not> bddrunning s then bdd_error BDD_RUNNING s else ret (fdvarnum s) s)"

definition fdd_domainsize :: "int \<Rightarrow> bdd_state \<Rightarrow> int bm" where
  "fdd_domainsize v s = block_check_code [v] s (\<lambda>s. with_domain v s (\<lambda>d. ret (d_realsize d) s))"

definition fdd_varnum :: "int \<Rightarrow> bdd_state \<Rightarrow> int bm" where
  "fdd_varnum v s = block_check_code [v] s (\<lambda>s. with_domain v s (\<lambda>d. ret (d_binsize d) s))"

definition fdd_vars :: "int \<Rightarrow> bdd_state \<Rightarrow> int list option bm" where
  "fdd_vars v s = block_check [v] None s (\<lambda>s. with_domain v s (\<lambda>d. ret (Some (d_ivar d)) s))"

section \<open>Values\<close>

primrec ithvar_loop :: "int list \<Rightarrow> int \<Rightarrow> BDD \<Rightarrow> bdd_state \<Rightarrow> BDD bm" where
  "ithvar_loop [] val v s = ret v s"
| "ithvar_loop (x # xs) val v s =
     bnd (bdd_addref v s) (\<lambda>_ s.
     bnd (if val mod 2 = 1
          then bnd (bdd_ithvar x s) (\<lambda>l s. bdd_apply l v bddop_and s)
          else bnd (bdd_nithvar x s) (\<lambda>l s. bdd_apply l v bddop_and s)) (\<lambda>tmp s.
     bnd (bdd_delref v s) (\<lambda>_ s. ithvar_loop xs (val div 2) tmp s)))"

definition fdd_ithvar :: "int \<Rightarrow> int \<Rightarrow> bdd_state \<Rightarrow> BDD bm" where
  "fdd_ithvar var val s = block_check [var] bddfalse s (\<lambda>s. with_domain var s (\<lambda>d.
     if val < 0 \<or> val \<ge> d_realsize d then bnd (bdd_error BDD_RANGE s) (\<lambda>_ s. ret bddfalse s)
     else ithvar_loop (d_ivar d) val 1 s))"

text \<open>The path that is scanned: 1 for the variables where it goes high; the others keep 0.\<close>

primrec scan_path :: "nat \<Rightarrow> BDD \<Rightarrow> (int \<Rightarrow> bool) \<Rightarrow> bdd_state \<Rightarrow> (int \<Rightarrow> bool) option" where
  "scan_path 0 p seen s = None"
| "scan_path (Suc k) p seen s =
     (if ISCONST p then Some seen
      else if \<not> ISZERO (LOW s p) then scan_path k (LOW s p) (seen(bddlevel2var s (LEVEL s p) := False)) s
      else scan_path k (HIGH s p) (seen(bddlevel2var s (LEVEL s p) := True)) s)"

primrec block_value :: "(int \<Rightarrow> bool) \<Rightarrow> int list \<Rightarrow> int" where
  "block_value seen [] = 0"
| "block_value seen (x # xs) = (if seen x then block_value seen xs * 2 + 1 else block_value seen xs * 2)"

definition fdd_scanallvar :: "BDD \<Rightarrow> bdd_state \<Rightarrow> int list option bm" where
  "fdd_scanallvar r s = CHECKa r None s (\<lambda>s.
     if r = bddfalse then ret None s
     else case scan_path (op_fuel s) r (\<lambda>_. False) s of
       None \<Rightarrow> fail Nofuel s
     | Some seen \<Rightarrow>
         (case domain s of
            None \<Rightarrow> if fdvarnum s \<le> 0 then ret (Some []) s else fail Trap s
          | Some ds \<Rightarrow> ret (Some (map (\<lambda>n. block_value seen (d_ivar (ds n))) [0..fdvarnum s - 1])) s))"

definition fdd_scanvar :: "BDD \<Rightarrow> int \<Rightarrow> bdd_state \<Rightarrow> int bm" where
  "fdd_scanvar r var s = CHECK r s (\<lambda>s.
     if r = bddfalse then ret (-1) s
     else if var < 0 \<or> var \<ge> fdvarnum s then bdd_error BDD_VAR s
     else bnd (fdd_scanallvar r s) (\<lambda>allvar s. case allvar of
       None \<Rightarrow> fail Trap s
     | Some vs \<Rightarrow> ret (vs ! nat var) s))"

section \<open>Sets of values and relations\<close>

definition fdd_ithset :: "int \<Rightarrow> bdd_state \<Rightarrow> BDD bm" where
  "fdd_ithset var s = block_check [var] bddfalse s (\<lambda>s. with_domain var s (\<lambda>d. ret (d_var d) s))"

primrec domain_loop :: "int list \<Rightarrow> int \<Rightarrow> BDD \<Rightarrow> bdd_state \<Rightarrow> BDD bm" where
  "domain_loop [] val d s = ret d s"
| "domain_loop (x # xs) val d s =
     bnd (bdd_nithvar x s) (\<lambda>l s.
     bnd (if val mod 2 = 1 then bdd_apply l d bddop_or s else bdd_apply l d bddop_and s) (\<lambda>tmp s.
     bnd (bdd_addref tmp s) (\<lambda>_ s.
     bnd (bdd_delref d s) (\<lambda>_ s. domain_loop xs (val div 2) tmp s))))"

definition fdd_domain :: "int \<Rightarrow> bdd_state \<Rightarrow> BDD bm" where
  "fdd_domain var s = block_check [var] bddfalse s (\<lambda>s. with_domain var s (\<lambda>dom.
     domain_loop (d_ivar dom) (d_realsize dom - 1) bddtrue s))"

primrec equals_loop :: "(int \<times> int) list \<Rightarrow> BDD \<Rightarrow> bdd_state \<Rightarrow> BDD bm" where
  "equals_loop [] e s = bnd (bdd_delref e s) (\<lambda>_ s. ret e s)"
| "equals_loop (p # ps) e s =
     bnd (bdd_ithvar (fst p) s) (\<lambda>l s. bnd (bdd_ithvar (snd p) s) (\<lambda>r s.
     bnd (addref_of (bdd_apply l r bddop_biimp s)) (\<lambda>tmp1 s.
     bnd (addref_of (bdd_apply e tmp1 bddop_and s)) (\<lambda>tmp2 s.
     bnd (bdd_delref tmp1 s) (\<lambda>_ s.
     bnd (bdd_delref e s) (\<lambda>_ s. equals_loop ps tmp2 s))))))"

definition fdd_equals :: "int \<Rightarrow> int \<Rightarrow> bdd_state \<Rightarrow> BDD bm" where
  "fdd_equals left right s = block_check [left, right] bddfalse s (\<lambda>s.
     with_domain left s (\<lambda>dl. with_domain right s (\<lambda>dr.
     if d_realsize dl \<noteq> d_realsize dr then bnd (bdd_error BDD_RANGE s) (\<lambda>_ s. ret bddfalse s)
     else equals_loop (zip (d_ivar dl) (d_ivar dr)) bddtrue s)))"

text \<open>The domains that share a variable with the set; the code, and the list on success.\<close>

definition fdd_scanset :: "BDD \<Rightarrow> bdd_state \<Rightarrow> (int \<times> int list) bm" where
  "fdd_scanset r s =
     (if \<not> bddrunning s then bnd (bdd_error BDD_RUNNING s) (\<lambda>e s. ret (e, []) s)
      else bnd (bdd_scanset r s) (\<lambda>(n, fv) s.
        if n < 0 then ret (n, []) s
        else case domain s of
          None \<Rightarrow> if fdvarnum s \<le> 0 then ret (0, []) s else fail Trap s
        | Some ds \<Rightarrow>
            ret (0, filter (\<lambda>n. list_ex (\<lambda>x. x \<in> set fv) (d_ivar (ds n))) [0..fdvarnum s - 1]) s))"

primrec fdd_makeset_loop :: "int list \<Rightarrow> BDD \<Rightarrow> bdd_state \<Rightarrow> BDD bm" where
  "fdd_makeset_loop [] res s = ret res s"
| "fdd_makeset_loop (x # xs) res s =
     bnd (bdd_addref res s) (\<lambda>_ s. with_domain x s (\<lambda>d.
     bnd (bdd_apply (d_var d) res bddop_and s) (\<lambda>tmp s.
     bnd (bdd_delref res s) (\<lambda>_ s. fdd_makeset_loop xs tmp s))))"

definition fdd_makeset :: "int list \<Rightarrow> bdd_state \<Rightarrow> BDD bm" where
  "fdd_makeset varset s = block_check varset bddfalse s (\<lambda>s. fdd_makeset_loop varset bddtrue s)"

text \<open>
  The conjunction of the blocks' variable sets is never referenced before the last \<open>bdd_delref\<close>.
\<close>

primrec varblock_loop :: "nat \<Rightarrow> int \<Rightarrow> BDD \<Rightarrow> bdd_state \<Rightarrow> BDD bm" where
  "varblock_loop 0 n res s = ret res s"
| "varblock_loop (Suc k) n res s =
     bnd (bdd_addref res s) (\<lambda>_ s. with_domain n s (\<lambda>d.
     bnd (bdd_apply (d_var d) res bddop_and s) (\<lambda>tmp s.
     bnd (bdd_delref res s) (\<lambda>_ s. varblock_loop k (n + 1) tmp s))))"

definition fdd_intaddvarblock :: "int \<Rightarrow> int \<Rightarrow> int \<Rightarrow> bdd_state \<Rightarrow> int bm" where
  "fdd_intaddvarblock start stop fixed s =
     (if \<not> bddrunning s then bdd_error BDD_RUNNING s
      else if start > stop \<or> start < 0 \<or> stop \<ge> fdvarnum s then bdd_error BDD_VARBLK s
      else bnd (varblock_loop (nat (stop - start + 1)) start bddtrue s) (\<lambda>res s.
           bnd (bdd_addvarblock res fixed s) (\<lambda>err s.
           bnd (bdd_delref res s) (\<lambda>_ s. ret err s))))"

section \<open>Pairs\<close>

primrec fdd_setpair_loop :: "nat option \<Rightarrow> (int \<times> int) list \<Rightarrow> bdd_state \<Rightarrow> int bm" where
  "fdd_setpair_loop pair [] s = ret 0 s"
| "fdd_setpair_loop pair (p # ps) s =
     bnd (bdd_setpair pair (fst p) (snd p) s) (\<lambda>e s.
     if e < 0 then ret e s else fdd_setpair_loop pair ps s)"

definition fdd_setpair :: "nat option \<Rightarrow> int \<Rightarrow> int \<Rightarrow> bdd_state \<Rightarrow> int bm" where
  "fdd_setpair pair p1 p2 s = block_check_code [p1, p2] s (\<lambda>s.
     with_domain p1 s (\<lambda>d1. with_domain p2 s (\<lambda>d2.
     if d_binsize d1 \<noteq> d_binsize d2 then bdd_error BDD_VARNUM s
     else fdd_setpair_loop pair (zip (d_ivar d1) (d_ivar d2)) s)))"

primrec fdd_setpairs_loop :: "nat option \<Rightarrow> (int \<times> int) list \<Rightarrow> bdd_state \<Rightarrow> int bm" where
  "fdd_setpairs_loop pair [] s = ret 0 s"
| "fdd_setpairs_loop pair (p # ps) s =
     bnd (fdd_setpair pair (fst p) (snd p) s) (\<lambda>e s.
     if e < 0 then ret e s else fdd_setpairs_loop pair ps s)"

definition fdd_setpairs :: "nat option \<Rightarrow> int list \<Rightarrow> int list \<Rightarrow> bdd_state \<Rightarrow> int bm" where
  "fdd_setpairs pair p1 p2 s = block_check_code (p1 @ p2) s (\<lambda>s. fdd_setpairs_loop pair (zip p1 p2) s)"

section \<open>Boolean vectors of a domain\<close>

text \<open>\<open>bvec_varfdd\<close> of \<^verbatim>\<open>src/bvec.c\<close>; the errors of the two queries are both reported.\<close>

definition bvec_varfdd :: "int \<Rightarrow> bdd_state \<Rightarrow> BVEC bm" where
  "bvec_varfdd var s =
     bnd (fdd_vars var s) (\<lambda>bddvar s. bnd (fdd_varnum var s) (\<lambda>varbitnum s.
     case bddvar of
       None \<Rightarrow> ret [] s
     | Some xs \<Rightarrow> bnd (bvec_build varbitnum False s) (\<lambda>_ s. each bdd_ithvar xs s)))"

section \<open>Printing\<close>

text \<open>
  What \<open>fdd_fprintset\<close> writes, as a list of the pieces it passes to \<open>fprintf\<close> and of the calls of
  the user's handler. \<open>fdddec2bin\<close> writes past its array for a value that needs more than
  \<open>binsize\<close> bits (\<open>None\<close>).
\<close>

datatype piece = Text string | Digits int | Handler nat int

primrec dec2bin_loop :: "nat \<Rightarrow> nat \<Rightarrow> int \<Rightarrow> int list \<Rightarrow> int list option" where
  "dec2bin_loop 0 n val res = (if val > 0 then None else Some res)"
| "dec2bin_loop (Suc k) n val res =
     (if val > 0
      then if n < length res then dec2bin_loop k (Suc n) (val div 2) (if val mod 2 = 1 then res[n := 1] else res)
           else None
      else Some res)"

definition fdddec2bin :: "Domain \<Rightarrow> int \<Rightarrow> int list option" where
  "fdddec2bin d val = dec2bin_loop 32 0 val (replicate (nat (d_binsize d)) 0)"

definition value_ok :: "(int \<Rightarrow> int) \<Rightarrow> int list \<Rightarrow> int list \<Rightarrow> bool" where
  "value_ok vset var binval =
     list_all (\<lambda>(x, b). \<not> (vset x = 1 \<and> b \<noteq> 0) \<and> \<not> (vset x = 2 \<and> b \<noteq> 1)) (zip var binval)"

primrec print_values :: "nat \<Rightarrow> int \<Rightarrow> bool \<Rightarrow> Domain \<Rightarrow> (int \<Rightarrow> int) \<Rightarrow> piece list option" where
  "print_values 0 m firstval d vset = Some []"
| "print_values (Suc k) m firstval d vset =
     (case fdddec2bin d m of
        None \<Rightarrow> None
      | Some binval \<Rightarrow>
          if value_ok vset (d_ivar d) binval
          then map_option (\<lambda>out. (if firstval then [Digits m] else [Text ''/'', Digits m]) @ out)
                 (print_values k (m + 1) False d vset)
          else print_values k (m + 1) firstval d vset)"

primrec print_blocks :: "nat option \<Rightarrow> int list \<Rightarrow> bool \<Rightarrow> (int \<Rightarrow> Domain) \<Rightarrow> (int \<Rightarrow> int) \<Rightarrow> piece list option" where
  "print_blocks h [] first ds vset = Some []"
| "print_blocks h (n # ns) first ds vset =
     (let d = ds n in
      if list_ex (\<lambda>x. vset x \<noteq> 0) (d_ivar d)
      then case (if d_binsize d > 30 then None else print_values (2 ^ nat (d_binsize d)) 0 True d vset) of
          None \<Rightarrow> None
        | Some seen \<Rightarrow>
            map_option (\<lambda>out. (if first then [] else [Text '', '']) @
                [case h of Some f \<Rightarrow> Handler f n | None \<Rightarrow> Digits n] @ [Text '':''] @ seen @ out)
              (print_blocks h ns False ds vset)
      else print_blocks h ns first ds vset)"

primrec fdd_printset_rec :: "nat \<Rightarrow> nat option \<Rightarrow> (int \<Rightarrow> Domain) \<Rightarrow> BDD \<Rightarrow> (int \<Rightarrow> int) \<Rightarrow> bdd_state \<Rightarrow> piece list option" where
  "fdd_printset_rec 0 h ds r vset s = None"
| "fdd_printset_rec (Suc k) h ds r vset s =
     (if r = 0 then Some []
      else if r = 1
      then map_option (\<lambda>out. [Text ''<''] @ out @ [Text ''>'']) (print_blocks h [0..fdvarnum s - 1] True ds vset)
      else let x = bddlevel2var s (LEVEL s r) in
        case fdd_printset_rec k h ds (LOW s r) (vset(x := 1)) s of
          None \<Rightarrow> None
        | Some lo \<Rightarrow> map_option (\<lambda>hi. lo @ hi) (fdd_printset_rec k h ds (HIGH s r) (vset(x := 2)) s))"

definition fdd_fprintset :: "nat option \<Rightarrow> BDD \<Rightarrow> bdd_state \<Rightarrow> piece list bm" where
  "fdd_fprintset h r s =
     (if \<not> bddrunning s then bnd (bdd_error BDD_RUNNING s) (\<lambda>_ s. ret [] s)
      else if r < 2 then ret [Text (if r = 0 then ''F'' else ''T'')] s
      else case domain s of
        None \<Rightarrow> (if fdvarnum s \<le> 0 then
            (case fdd_printset_rec (op_fuel s) h (\<lambda>_. no_domain) r (\<lambda>_. 0) s of
               None \<Rightarrow> fail Trap s | Some out \<Rightarrow> ret out s)
          else fail Trap s)
      | Some ds \<Rightarrow> (case fdd_printset_rec (op_fuel s) h ds r (\<lambda>_. 0) s of
               None \<Rightarrow> fail Trap s | Some out \<Rightarrow> ret out s))"

text \<open>\<open>CHECKn\<close> prints before it reports a number that is no node.\<close>

definition CHECKn_print :: "BDD \<Rightarrow> bdd_state \<Rightarrow> (bdd_state \<Rightarrow> piece list bm) \<Rightarrow> piece list bm" where
  "CHECKn_print r s k =
     (if \<not> bddrunning s then bnd (bdd_error BDD_RUNNING s) (\<lambda>_ s. ret [] s)
      else if r < 0 \<or> r \<ge> bddnodesize s
      then bnd (bdd_error BDD_ILLBDD s) (\<lambda>_ s. ret [Text ''checkn'', Text [CHR 0x0A]] s)
      else if r \<ge> 2 \<and> LOW s r = -1
      then bnd (bdd_error BDD_ILLBDD s) (\<lambda>_ s. ret [Text ''checkn2'', Text [CHR 0x0A]] s)
      else k s)"

definition fdd_printset :: "nat option \<Rightarrow> BDD \<Rightarrow> bdd_state \<Rightarrow> piece list bm" where
  "fdd_printset h r s = CHECKn_print r s (\<lambda>s. fdd_fprintset h r s)"

end
