(* ===== verification/FddOps.thy ===== *)
theory FddOps
  imports BvecShift Fdd
begin

text \<open>
  Correctness of the finite domains: a block of variables is a Boolean vector of literals, so that
  the value of a domain under an assignment is the \<open>number\<close> of its block.
\<close>

section \<open>Blocks of variables\<close>

lemma refs_held_less: "refs_held s (M + N) \<Longrightarrow> refs_held s N"
  unfolding refs_held_def by fastforce

lemma own_less: "own E (M + L) s \<Longrightarrow> own E L s"
  using refs_held_less [of s "image_mset fst M" "image_mset fst L + pair_refs s"] by (auto simp: own_def ac_simps)

definition literals :: "bdd_state \<Rightarrow> int list \<Rightarrow> bfun list" where
  "literals E xs = map (\<lambda>x e. e (bddvar2level E x)) xs"

lemma literals_simps [simp]:
  "literals E [] = []" "literals E (x # xs) = (\<lambda>e. e (bddvar2level E x)) # literals E xs"
  "length (literals E xs) = length xs"
  by (simp_all add: literals_def)

definition variables :: "bdd_state \<Rightarrow> int list \<Rightarrow> bool" where
  "variables E xs = list_all (\<lambda>x. 0 \<le> x \<and> x < bddvarnum E) xs"

text \<open>Domain \<open>v\<close> has the variables \<open>xs\<close> and the size \<open>n\<close>.\<close>

definition block :: "bdd_state \<Rightarrow> int \<Rightarrow> int list \<Rightarrow> int \<Rightarrow> bool" where
  "block E v xs n =
     (0 \<le> v \<and> v < fdvarnum E \<and> variables E xs \<and> distinct xs \<and> 0 < n \<and> n \<le> 2 ^ length xs \<and>
      (\<exists>ds. domain E = Some ds \<and> d_ivar (ds v) = xs \<and> d_realsize (ds v) = n))"

lemma block_with:
  assumes O: "own E L s" and b: "block E v xs n"
  obtains ds where "domain s = Some ds" "d_ivar (ds v) = xs" "d_realsize (ds v) = n"
    "\<not> v < 0" "\<not> fdvarnum s \<le> v" "bddrunning s"
  using b settledD(7,8) [OF own_settled [OF O]] running [OF own_session [OF O]] unfolding block_def by auto

lemmas block_simps = block_check_def block_check_code_def with_domain_def

lemma variables_simps [simp]:
  "variables E []" "variables E (x # xs) \<longleftrightarrow> 0 \<le> x \<and> x < bddvarnum E \<and> variables E xs"
  by (simp_all add: variables_def)

text \<open>Sequencing with literals, which need no references.\<close>

lemma seq_ithvar:
  assumes "own E L s" "0 \<le> v" "v < bddvarnum E"
    "\<And>x. own E (add_mset (x, \<lambda>e. e (bddvar2level E v)) L) s \<Longrightarrow> runs (k x s) Q"
  shows "runs (bnd (bdd_ithvar v s) k) Q"
  using ithvar_own(1) [OF assms(1-3)] assms(4) by auto

lemma seq_nithvar:
  assumes "own E L s" "0 \<le> v" "v < bddvarnum E"
    "\<And>x. own E (add_mset (x, \<lambda>e. \<not> e (bddvar2level E v)) L) s \<Longrightarrow> runs (k x s) Q"
  shows "runs (bnd (bdd_nithvar v s) k) Q"
  using ithvar_own(2) [OF assms(1-3)] assms(4) by auto

lemma own_less1: "own E (add_mset x L) s \<Longrightarrow> own E L s"
  using own_less [of E "{#x#}" L s] by simp

section \<open>Values\<close>

lemma ithvar_step_own:
  assumes O: "own E L s" and h: "has L v F" and x: "0 \<le> x" "x < bddvarnum E"
  shows "runs (if val mod 2 = 1
      then bnd (bdd_ithvar x s) (\<lambda>l s. bdd_apply l v bddop_and s)
      else bnd (bdd_nithvar x s) (\<lambda>l s. bdd_apply l v bddop_and s))
    (\<lambda>y t. own E L t \<and> stands t y (\<lambda>e. e (bddvar2level E x) = (val mod 2 = 1) \<and> F e))"
proof -
  have "runs (bnd (bdd_ithvar x s) (\<lambda>l s. bdd_apply l v bddop_and s))
      (\<lambda>y t. own E L t \<and> stands t y (\<lambda>e. e (bddvar2level E x) \<and> F e))"
  proof (rule seq_ithvar [OF O x])
    fix l assume "own E (add_mset (l, \<lambda>e. e (bddvar2level E x)) L) s"
    from apply_own [OF this has_add has_more [OF h] op_ranges(1,2)]
    show "runs (bdd_apply l v bddop_and s) (\<lambda>y t. own E L t \<and> stands t y (\<lambda>e. e (bddvar2level E x) \<and> F e))"
      by (rule runs_conseq) (auto simp: bool_ops dest: own_less1)
  qed
  moreover have "runs (bnd (bdd_nithvar x s) (\<lambda>l s. bdd_apply l v bddop_and s))
      (\<lambda>y t. own E L t \<and> stands t y (\<lambda>e. \<not> e (bddvar2level E x) \<and> F e))"
  proof (rule seq_nithvar [OF O x])
    fix l assume "own E (add_mset (l, \<lambda>e. \<not> e (bddvar2level E x)) L) s"
    from apply_own [OF this has_add has_more [OF h] op_ranges(1,2)]
    show "runs (bdd_apply l v bddop_and s) (\<lambda>y t. own E L t \<and> stands t y (\<lambda>e. \<not> e (bddvar2level E x) \<and> F e))"
      by (rule runs_conseq) (auto simp: bool_ops dest: own_less1)
  qed
  ultimately show ?thesis by (cases "val mod 2 = 1") simp_all
qed

lemma seq_addref:
  assumes "own E L s" "stands s v F" "\<And>t. own E (add_mset (v, F) L) t \<Longrightarrow> runs (k v t) Q"
  shows "runs (bnd (bdd_addref v s) k) Q"
  using addref_rule [OF assms(1,2)] assms(3) by auto

lemma mod_bit: "v mod 2 ^ Suc n = of_bool (v mod 2 = 1) + 2 * (v div 2 mod 2 ^ n :: int)"
  by (cases "v mod 2 = 1") (simp_all add: zmod_zmult2_eq)

lemma bit_eq: "(of_bool f + 2 * x = of_bool b + 2 * (y :: int)) = (f = b \<and> x = y)"
  by (cases f; cases b; simp; presburger?)

lemma bit_less:
  "(of_bool f + 2 * x < of_bool b + 2 * (y :: int) \<or> of_bool f + 2 * x = of_bool b + 2 * y \<and> D) =
   (x < y \<or> x = y \<and> (if b then \<not> f \<or> D else \<not> f \<and> D))"
  by (cases f; cases b; cases D; simp; presburger?)

lemma number_cons_eq:
  "(number (F # Fs) e = v mod 2 ^ Suc n) = (F e = (v mod 2 = 1) \<and> number Fs e = v div 2 mod 2 ^ n)"
  unfolding mod_bit number_simps by (rule bit_eq)

lemma ithvar_loop_own:
  assumes "own E L s" "stands s v F" "variables E xs"
  shows "runs (ithvar_loop xs val v s)
    (\<lambda>y t. own E L t \<and> stands t y (\<lambda>e. F e \<and> number (literals E xs) e = val mod 2 ^ length xs))"
  using assms
proof (induction xs arbitrary: val v F s)
  case (Cons x xs)
  then have x: "0 \<le> x" "x < bddvarnum E" "variables E xs" by simp_all
  let ?F = "\<lambda>e. e (bddvar2level E x) = (val mod 2 = 1) \<and> F e"
  show ?case unfolding ithvar_loop.simps
  proof (rule seq_addref [OF Cons.prems(1,2)], rule runs_bnd [OF ithvar_step_own [OF _ has_add x(1,2)]],
      assumption, elim conjE, erule stands_delref)
    fix y s t assume y: "stands s y ?F" and t: "own E L t" and st: "\<And>n G. stands t n G = stands s n G"
    from Cons.IH [OF t, of y ?F "val div 2"] y x(3) st
    show "runs (ithvar_loop xs (val div 2) y t)
        (\<lambda>y t. own E L t \<and> stands t y (\<lambda>e. F e \<and> number (literals E (x # xs)) e = val mod 2 ^ length (x # xs)))"
      unfolding literals_simps length_Cons number_cons_eq by (simp add: conj_ac)
  qed
qed simp

lemma fdd_ithvar_own:
  assumes O: "own E L s" and b: "block E v xs n" and val: "0 \<le> val" "val < n"
  shows "runs (fdd_ithvar v val s) (\<lambda>y t. own E L t \<and> stands t y (\<lambda>e. number (literals E xs) e = val))"
proof -
  obtain ds where d: "domain s = Some ds" "d_ivar (ds v) = xs" "d_realsize (ds v) = n" "\<not> v < 0" "\<not> fdvarnum s \<le> v" "bddrunning s"
    by (rule block_with [OF O b])
  have "stands s 1 (\<lambda>_. True)" by (simp add: stands_def node_id_def fun_eq_iff)
  from ithvar_loop_own [OF O this, of xs val] b
  have "runs (ithvar_loop xs val 1 s) (\<lambda>y t. own E L t \<and> stands t y (\<lambda>e. number (literals E xs) e = val mod 2 ^ length xs))"
    by (simp add: block_def)
  moreover have "val mod 2 ^ length xs = val" using b val by (simp add: block_def)
  ultimately show ?thesis
    using val by (simp add: fdd_ithvar_def block_simps d)
qed

section \<open>The values below the size\<close>

lemma number_cons_less:
  "(number (F # Fs) e < v mod 2 ^ Suc n \<or> number (F # Fs) e = v mod 2 ^ Suc n \<and> D) =
   (number Fs e < v div 2 mod 2 ^ n \<or> number Fs e = v div 2 mod 2 ^ n \<and>
     (if v mod 2 = 1 then \<not> F e \<or> D else \<not> F e \<and> D))"
  unfolding mod_bit number_simps by (rule bit_less)

lemma domain_step_own:
  assumes O: "own E (add_mset (d, D) L) s" and h: "has (add_mset (d, D) L) l (\<lambda>e. \<not> F e)"
  shows "runs (if val mod 2 = 1 then bdd_apply l d bddop_or s else bdd_apply l d bddop_and s)
    (\<lambda>y t. own E (add_mset (d, D) L) t \<and>
      stands t y (\<lambda>e. if (val :: int) mod 2 = 1 then \<not> F e \<or> D e else \<not> F e \<and> D e))"
  using apply_own [OF O h has_add op_ranges(1,2)] apply_own [OF O h has_add op_ranges(5,6)]
  by (cases "val mod 2 = 1") (simp_all add: bool_ops)

lemma domain_loop_own:
  assumes "own E (add_mset (d, D) L) s" "variables E xs"
  shows "runs (domain_loop xs val d s) (\<lambda>y t. own E (add_mset (y, \<lambda>e.
    number (literals E xs) e < val mod 2 ^ length xs \<or> number (literals E xs) e = val mod 2 ^ length xs \<and> D e) L) t)"
  using assms
proof (induction xs arbitrary: val d D s)
  case (Cons x xs)
  then have x: "0 \<le> x" "x < bddvarnum E" "variables E xs" by simp_all
  let ?D = "\<lambda>e. if val mod 2 = 1 then \<not> e (bddvar2level E x) \<or> D e else \<not> e (bddvar2level E x) \<and> D e"
  show ?case unfolding domain_loop.simps
  proof (rule seq_nithvar [OF Cons.prems(1) x(1,2)])
    fix l assume O: "own E (add_mset (l, \<lambda>e. \<not> e (bddvar2level E x)) (add_mset (d, D) L)) s"
    then have "own E (add_mset (d, D) (add_mset (l, \<lambda>e. \<not> e (bddvar2level E x)) L)) s" by (simp add: add_mset_commute)
    from domain_step_own [OF this has_there [OF has_add], of val]
    have 1: "runs (if val mod 2 = 1 then bdd_apply l d bddop_or s else bdd_apply l d bddop_and s)
        (\<lambda>y t. own E (add_mset (d, D) L) t \<and> stands t y ?D)"
      by (elim runs_conseq) (auto dest: own_less1 simp: add_mset_commute [of "(d, D)"])
    show "runs (bnd (if val mod 2 = 1 then bdd_apply l d bddop_or s else bdd_apply l d bddop_and s) (\<lambda>tmp s.
        bnd (bdd_addref tmp s) (\<lambda>_ s. bnd (bdd_delref d s) (\<lambda>_ s. domain_loop xs (val div 2) tmp s))))
      (\<lambda>y t. own E (add_mset (y, \<lambda>e. number (literals E (x # xs)) e < val mod 2 ^ length (x # xs) \<or>
         number (literals E (x # xs)) e = val mod 2 ^ length (x # xs) \<and> D e) L) t)"
    proof (rule runs_bnd [OF 1], elim conjE, erule seq_addref, assumption)
      fix y t assume "own E (add_mset (y, ?D) (add_mset (d, D) L)) t"
      then show "runs (bnd (bdd_delref d t) (\<lambda>_ s. domain_loop xs (val div 2) y s))
        (\<lambda>y t. own E (add_mset (y, \<lambda>e. number (literals E (x # xs)) e < val mod 2 ^ length (x # xs) \<or>
           number (literals E (x # xs)) e = val mod 2 ^ length (x # xs) \<and> D e) L) t)"
        unfolding literals_simps length_Cons number_cons_less
        by (elim seq_delref [OF _ pick_there [OF pick_here]] Cons.IH) (rule x(3))
    qed
  qed
qed simp

text \<open>The result is referenced, unlike the results of the other functions.\<close>

lemma fdd_domain_own:
  assumes O: "own E L s" and b: "block E v xs n"
  shows "runs (fdd_domain v s) (\<lambda>y t. own E (add_mset (y, \<lambda>e. number (literals E xs) e < n) L) t)"
proof -
  obtain ds where d: "domain s = Some ds" "d_ivar (ds v) = xs" "d_realsize (ds v) = n" "\<not> v < 0" "\<not> fdvarnum s \<le> v" "bddrunning s"
    by (rule block_with [OF O b])
  have "(n - 1) mod 2 ^ length xs = n - 1" using b by (simp add: block_def)
  then have e: "(number (literals E xs) e < (n - 1) mod 2 ^ length xs \<or> number (literals E xs) e = (n - 1) mod 2 ^ length xs \<and> True)
      = (number (literals E xs) e < n)" for e by auto
  from domain_loop_own [OF own_const(2) [OF O], of xs "n - 1"] b
  have "runs (domain_loop xs (n - 1) bddtrue s) (\<lambda>y t. own E (add_mset (y, \<lambda>e. number (literals E xs) e < n) L) t)"
    unfolding e by (simp add: block_def bddtrue_def)
  then show ?thesis
    by (simp add: fdd_domain_def block_simps d)
qed

section \<open>Equality of two domains\<close>

lemma equals_loop_own:
  assumes "own E (add_mset (c, C) L) s" "variables E xs" "variables E ys" "length xs = length ys"
  shows "runs (equals_loop (zip xs ys) c s) (\<lambda>y t. own E L t \<and>
    stands t y (\<lambda>e. C e \<and> number (literals E xs) e = number (literals E ys) e))"
  using assms
proof (induction xs arbitrary: ys c C s)
  case Nil
  then have "stands s c C" by (auto simp: own_def)
  then show ?case using delref_rule [OF Nil(1)] Nil(2-) by auto
next
  case (Cons x xs)
  then obtain y zs where ys: "ys = y # zs" by (cases ys) auto
  have v: "0 \<le> x" "x < bddvarnum E" "0 \<le> y" "y < bddvarnum E" using Cons.prems by (simp_all add: ys)
  have num: "(number (literals E (x # xs)) e = number (literals E ys) e) =
      ((e (bddvar2level E x) = e (bddvar2level E y)) \<and> number (literals E xs) e = number (literals E zs) e)" for e
    unfolding ys literals_simps number_simps by (rule bit_eq)
  show ?case unfolding ys zip_Cons_Cons equals_loop.simps fst_conv snd_conv
  proof (rule seq_ithvar [OF Cons.prems(1) v(1,2)], erule seq_ithvar [OF _ v(3,4)])
    fix l r
    let ?X = "\<lambda>e. e (bddvar2level E x)" and ?Y = "\<lambda>e. e (bddvar2level E y)"
    assume O: "own E (add_mset (r, ?Y) (add_mset (l, ?X) (add_mset (c, C) L))) s"
    show "runs (bnd (addref_of (bdd_apply l r bddop_biimp s)) (\<lambda>tmp1 s.
        bnd (addref_of (bdd_apply c tmp1 bddop_and s)) (\<lambda>tmp2 s. bnd (bdd_delref tmp1 s) (\<lambda>_ s.
        bnd (bdd_delref c s) (\<lambda>_ s. equals_loop (zip xs zs) tmp2 s)))))
      (\<lambda>z t. own E L t \<and> stands t z (\<lambda>e. C e \<and> number (literals E (x # xs)) e = number (literals E (y # zs)) e))"
      unfolding num [unfolded ys]
    proof (rule O seq | assumption)+
      fix z t assume "own E (add_mset (z, \<lambda>e. bool_op bddop_and (C e) (bool_op bddop_biimp (?X e) (?Y e)))
          (add_mset (r, ?Y) (add_mset (l, ?X) L))) t"
      then have t: "own E (add_mset (z, \<lambda>e. C e \<and> (?X e = ?Y e)) L) t"
        using own_less [of E "{#(r, ?Y), (l, ?X)#}" "add_mset (z, \<lambda>e. C e \<and> (?X e = ?Y e)) L" t]
        by (simp add: bool_ops add_mset_commute)
      from Cons.IH [OF t, of zs] Cons.prems
      show "runs (equals_loop (zip xs zs) z t) (\<lambda>z t. own E L t \<and>
          stands t z (\<lambda>e. C e \<and> (?X e = ?Y e) \<and> number (literals E xs) e = number (literals E zs) e))"
        by (simp add: ys conj_assoc)
    qed
  qed
qed

lemma fdd_equals_own:
  assumes O: "own E L s" and b: "block E v xs n" "block E w ys n" "length xs = length ys"
  shows "runs (fdd_equals v w s)
    (\<lambda>y t. own E L t \<and> stands t y (\<lambda>e. number (literals E xs) e = number (literals E ys) e))"
proof -
  obtain ds where d: "domain s = Some ds" "d_ivar (ds v) = xs" "d_realsize (ds v) = n" "\<not> v < 0" "\<not> fdvarnum s \<le> v" "bddrunning s"
    by (rule block_with [OF O b(1)])
  obtain ds' where d': "domain s = Some ds'" "d_ivar (ds' w) = ys" "d_realsize (ds' w) = n" "\<not> w < 0" "\<not> fdvarnum s \<le> w" "bddrunning s"
    by (rule block_with [OF O b(2)])
  have "runs (equals_loop (zip xs ys) bddtrue s)
      (\<lambda>y t. own E L t \<and> stands t y (\<lambda>e. True \<and> number (literals E xs) e = number (literals E ys) e))"
    unfolding bddtrue_def by (rule equals_loop_own [OF own_const(2) [OF O]]) (use b in \<open>auto simp: block_def\<close>)
  then show ?thesis
    using d d' by (simp add: fdd_equals_def block_simps)
qed

end
