(* ===== verification/FddScan.thy ===== *)
theory FddScan
  imports FddOps OpRestrict
begin

text \<open>
  Reading values back: the path that \<open>fdd_scanallvar\<close> follows is a satisfying assignment, and the
  chain that \<open>bdd_scanset\<close> follows is the set that \<open>bdd_makeset\<close> built.
\<close>

section \<open>The scanned path\<close>

text \<open>The assignment of the levels that a store of variables stands for.\<close>

definition at_levels :: "bdd_state \<Rightarrow> (int \<Rightarrow> bool) \<Rightarrow> int \<Rightarrow> bool" where
  "at_levels s f l = f (bddlevel2var s l)"

lemma levels_inverse:
  assumes "session s"
  shows "0 \<le> l \<Longrightarrow> l < bddvarnum s \<Longrightarrow> bddvar2level s (bddlevel2var s l) = l"
    "0 \<le> v \<Longrightarrow> v < bddvarnum s \<Longrightarrow> bddlevel2var s (bddvar2level s v) = v"
    "0 \<le> v \<Longrightarrow> v < bddvarnum s \<Longrightarrow> 0 \<le> bddvar2level s v \<and> bddvar2level s v < bddvarnum s"
  using sessionD(4) [OF assms] by (auto simp: vars_ok_def var_ok_def Let_def)

lemma scan_path_sat:
  assumes S: "session s" and n: "node_id s r" "r \<noteq> 0" and k: "nat (bddvarnum s - LEVEL s r) < k"
  shows "\<exists>g. scan_path k r f s = Some g \<and> sem s r (at_levels s g) \<and>
    (\<forall>l. 0 \<le> l \<and> l < LEVEL s r \<longrightarrow> at_levels s g l = at_levels s f l)"
  using n k
proof (induction k arbitrary: r f)
  case (Suc k)
  note T = binvD(2,3) [OF sessionD(1) [OF S]]
  note N = bdd_node [OF T Suc.prems(1)]
  show ?case
  proof (cases "2 \<le> r")
    case False
    then show ?thesis using Suc.prems N(6) by (cases "r = 1") (auto simp: ISCONST_def)
  next
    case True
    let ?x = "bddlevel2var s (LEVEL s r)" and ?b = "LOW s r = 0"
    let ?c = "if ?b then HIGH s r else LOW s r"
    have c: "node_id s ?c" "LEVEL s r < LEVEL s ?c" using N True by auto
    have nz: "?c \<noteq> 0"
      using T(1) N(4) True by (auto simp: bdd_table_def inner_def)
    have "nat (bddvarnum s - LEVEL s ?c) < k" using c(2) N(5) True Suc.prems(3) by linarith
    from Suc.IH [OF c(1) nz this, of "f(?x := ?b)"] obtain g where g: "scan_path k ?c (f(?x := ?b)) s = Some g"
      "sem s ?c (at_levels s g)" "\<And>l. 0 \<le> l \<Longrightarrow> l < LEVEL s ?c \<Longrightarrow> at_levels s g l = at_levels s (f(?x := ?b)) l"
      by blast
    have l: "0 \<le> LEVEL s r" "LEVEL s r < bddvarnum s" using N True by auto
    have "at_levels s g (LEVEL s r) = ?b" using g(3) [OF l(1) c(2)] by (simp add: at_levels_def)
    then have "sem s r (at_levels s g)" using g(2) N(4) True by (simp add: sem_inner split: if_splits)
    moreover have "at_levels s g l = at_levels s f l" if "0 \<le> l" "l < LEVEL s r" for l
    proof -
      have "bddlevel2var s l \<noteq> ?x" using levels_inverse(1) [OF S] that l by (metis less_irrefl order.strict_trans)
      then show ?thesis using g(3) [of l] that c(2) by (simp add: at_levels_def)
    qed
    moreover have "scan_path (Suc k) r f s = Some g"
      using g(1) True by (cases ?b) (simp_all add: ISCONST_def ISZERO_def)
    ultimately show ?thesis by blast
  qed
qed simp

lemma block_value_number:
  assumes "session s" "variables s xs"
  shows "block_value f xs = number (literals s xs) (at_levels s f)"
  using assms(2) levels_inverse(2) [OF assms(1)] by (induction xs) (simp_all add: at_levels_def)

lemma literals_cong: "settled E s \<Longrightarrow> literals s xs = literals E xs" "settled E s \<Longrightarrow> variables s xs = variables E xs"
  by (simp_all add: literals_def variables_def settledD)

text \<open>What \<open>fdd_scanallvar\<close> returns is, for one satisfying assignment, the values of all domains.\<close>

lemma fdd_scanallvar_own:
  assumes O: "own E L s" and r: "node_id s r" "r \<noteq> 0" and ds: "domain E = Some ds"
    and V: "\<And>v. 0 \<le> v \<Longrightarrow> v < fdvarnum E \<Longrightarrow> variables E (d_ivar (ds v))"
  shows "\<exists>vs e. fdd_scanallvar r s = ret (Some vs) s \<and> sem s r e \<and> length vs = nat (fdvarnum E) \<and>
    (\<forall>v. 0 \<le> v \<and> v < fdvarnum E \<longrightarrow> vs ! nat v = number (literals E (d_ivar (ds v))) e)"
proof -
  note S = own_session [OF O] and D = settledD [OF own_settled [OF O]]
  note T = binvD(2,3) [OF sessionD(1) [OF S]]
  note N = bdd_node [OF T r(1)]
  have "nat (bddvarnum s - LEVEL s r) < op_fuel s" using N(1) by (simp add: op_fuel_def)
  from scan_path_sat [OF S r this] obtain g where
    g: "scan_path (op_fuel s) r (\<lambda>_. False) s = Some g" "sem s r (at_levels s g)" by blast
  let ?vs = "map (\<lambda>n. block_value g (d_ivar (ds n))) [0..fdvarnum E - 1]"
  have "check_code r s = 0" using r(1) running [OF S] tab_invD(1) [OF T(2)]
    by (auto simp: check_code_def node_id_def allocd_def size_ok_def)
  then have "fdd_scanallvar r s = ret (Some ?vs) s"
    using r(2) ds D(7,8) g(1) by (simp add: fdd_scanallvar_def CHECKa_def bddfalse_def)
  moreover have "?vs ! nat v = number (literals E (d_ivar (ds v))) (at_levels s g)" if "0 \<le> v" "v < fdvarnum E" for v
    using that V [OF that] block_value_number [OF S, of "d_ivar (ds v)" g] literals_cong [OF own_settled [OF O]]
    by (simp add: nth_upto)
  ultimately show ?thesis using g(2) by (intro exI [of _ ?vs] exI [of _ "at_levels s g"]) simp
qed

text \<open>Different variables can take every value.\<close>

lemma literals_onto:
  assumes S: "session s"
  shows "variables s xs \<Longrightarrow> distinct xs \<Longrightarrow> 0 \<le> val \<Longrightarrow> val < 2 ^ length xs \<Longrightarrow> \<exists>e. number (literals s xs) e = val"
proof (induction xs arbitrary: val)
  case (Cons x xs)
  then obtain e where e: "number (literals s xs) e = val div 2" by fastforce
  have "number (literals s ys) (e(bddvar2level s x := b)) = number (literals s ys) e"
    if "x \<notin> set ys" "variables s ys" for ys b
    using that
  proof (induction ys)
    case (Cons y ys)
    then have "bddvar2level s y \<noteq> bddvar2level s x"
      using levels_inverse(2) [OF S, of y] levels_inverse(2) [OF S, of x] Cons.prems \<open>variables s (x # xs)\<close>
      by (metis list.set_intros(1) variables_simps(2))
    then show ?case using Cons by simp
  qed simp
  from this [of xs "val mod 2 = 1"] have "number (literals s (x # xs)) (e(bddvar2level s x := val mod 2 = 1)) = val"
    using Cons.prems e by (cases "val mod 2 = 1") (simp_all, presburger+)
  then show ?case by blast
qed (auto intro: order_antisym)

definition all_blocks :: "bdd_state \<Rightarrow> bool" where
  "all_blocks E = (\<exists>ds. domain E = Some ds \<and> (\<forall>v. 0 \<le> v \<and> v < fdvarnum E \<longrightarrow> variables E (d_ivar (ds v))))"

lemma fdd_scanvar_own:
  assumes O: "own E L s" and b: "block E v xs n" "all_blocks E"
    and r: "stands s r (\<lambda>e. number (literals E xs) e = val)" and val: "0 \<le> val" "val < n" and e: "bdderrorcond s = 0"
  shows "fdd_scanvar r v s = ret val s"
proof -
  note S = own_session [OF O] and D = settledD [OF own_settled [OF O]]
  note T = binvD(2,3) [OF sessionD(1) [OF S]]
  have n: "node_id s r" "sem s r = (\<lambda>e. number (literals E xs) e = val)" using r e by (simp_all add: stands_def)
  obtain ds where ds: "domain E = Some ds" "d_ivar (ds v) = xs" "0 \<le> v" "v < fdvarnum E" "variables E xs" "distinct xs" "n \<le> 2 ^ length xs"
    using b(1) by (auto simp: block_def)
  have V: "\<And>v. 0 \<le> v \<Longrightarrow> v < fdvarnum E \<Longrightarrow> variables E (d_ivar (ds v))"
    using b(2) ds(1) by (auto simp: all_blocks_def)
  show ?thesis
  proof (cases "r = 0")
    case False
    from fdd_scanallvar_own [OF O n(1) False ds(1) V] obtain vs e where
      "fdd_scanallvar r s = ret (Some vs) s" "sem s r e" "vs ! nat v = number (literals E (d_ivar (ds v))) e"
      using ds(3,4) by blast
    moreover have "check_code r s = 0" using n(1) running [OF S] tab_invD(1) [OF T(2)]
      by (auto simp: check_code_def node_id_def allocd_def size_ok_def)
    ultimately show ?thesis
      using False ds n(2) D(8) by (simp add: fdd_scanvar_def CHECK_def bddfalse_def)
  next
    case True
    obtain e where "number (literals s xs) e = val"
      using literals_onto [OF S _ ds(6), of val] ds(5,7) val literals_cong(2) [OF own_settled [OF O]] by auto
    then show ?thesis using True n(2) literals_cong(1) [OF own_settled [OF O]] by (metis sem_const(1))
  qed
qed

section \<open>Variable sets\<close>

lemma cube_vset:
  assumes T: "bdd_table s" and I: "tab_inv s" and n: "node_id s n"
    and "sem s n = (\<lambda>e. \<forall>l\<in>A. e l)"
  shows "vset s n = A"
  using T I n assms(4)
proof (induction arbitrary: A rule: node_induct)
  case (const n)
  then have "n = 1" by (auto simp: fun_eq_iff)
  then have "\<forall>l\<in>A. False" using const(2) by (metis sem_const(2))
  then show ?case using \<open>n = 1\<close> by auto
next
  case (node n)
  note N = bdd_node [OF T I node(3)] and C = sem_cofactors [OF T I node(3) node(1)]
  let ?l = "LEVEL s n"
  have ne: "LOW s n \<noteq> HIGH s n" using T node(2) by (auto simp: bdd_table_def inner_def)
  have l: "?l \<in> A"
  proof (rule ccontr)
    assume "?l \<notin> A"
    then have "sem s (LOW s n) e = sem s (HIGH s n) e" for e
      unfolding C node.prems by (metis fun_upd_other)
    then show False using sem_inject [OF T I N(7,8)] node(1) ne by blast
  qed
  have "sem s (HIGH s n) = (\<lambda>e. \<forall>l\<in>A - {?l}. e l)" unfolding C node.prems by (auto simp: fun_eq_iff)
  from node.IH(2) [OF this] show ?case using l by (auto simp: vset_inner [OF node(2)])
qed

lemma scan_high_vset:
  assumes T: "bdd_table s" "tab_inv s" and n: "node_id s n" and k: "nat (bddvarnum s - LEVEL s n) < k"
  shows "\<exists>ls. scan_high k n s = Some (map (bddlevel2var s) ls) \<and> sorted_wrt (<) ls \<and> set ls = vset s n"
  using n k
proof (induction k arbitrary: n)
  case (Suc k)
  note N = bdd_node [OF T Suc.prems(1)]
  show ?case
  proof (cases "2 \<le> n")
    case True
    have "nat (bddvarnum s - LEVEL s (HIGH s n)) < k" using N(5,10) True Suc.prems(2) by linarith
    from Suc.IH [OF N(8) [OF True] this] obtain ls where
      ls: "scan_high k (HIGH s n) s = Some (map (bddlevel2var s) ls)" "sorted_wrt (<) ls" "set ls = vset s (HIGH s n)"
      by blast
    have "LEVEL s n < l" if "l \<in> set ls" for l
      using that vset_levels [OF T N(8) [OF True]] N(10) True ls(3) by fastforce
    then show ?thesis
      using ls True by (intro exI [of _ "LEVEL s n # ls"]) (simp add: vset_inner [OF N(4)])
  qed (simp add: exI [of _ "[]"])
qed simp

lemma makeset_loop_own:
  assumes "own E L s" "stands s r F" "variables E xs"
  shows "runs (makeset_loop xs r s) (\<lambda>y t. own E L t \<and> stands t y (\<lambda>e. F e \<and> (\<forall>x\<in>set xs. e (bddvar2level E x))))"
  using assms
proof (induction xs arbitrary: r F s)
  case (Cons x xs)
  then have x: "0 \<le> x" "x < bddvarnum E" "variables E xs" by simp_all
  let ?X = "\<lambda>e. e (bddvar2level E x)"
  show ?case unfolding makeset_loop.simps
  proof (rule seq_addref [OF Cons.prems(1,2)], erule seq_ithvar [OF _ x(1,2)])
    fix l s assume O: "own E (add_mset (l, ?X) (add_mset (r, F) L)) s"
    have 1: "runs (bdd_apply r l bddop_and s)
      (\<lambda>y t. own E (add_mset (l, ?X) (add_mset (r, F) L)) t \<and> stands t y (\<lambda>e. F e \<and> ?X e))"
      using apply_own [OF O has_there [OF has_add] has_add op_ranges(1,2)] by (simp add: bool_ops)
    show "runs (bnd (bdd_apply r l bddop_and s) (\<lambda>tmp s. bnd (bdd_delref r s) (\<lambda>_ s. makeset_loop xs tmp s)))
      (\<lambda>y t. own E L t \<and> stands t y (\<lambda>e. F e \<and> (\<forall>x\<in>set (x # xs). e (bddvar2level E x))))"
    proof (rule runs_bnd [OF 1], elim conjE, drule own_less1, erule stands_delref)
      fix y s t assume y: "stands s y (\<lambda>e. F e \<and> ?X e)" and t: "own E L t" "\<And>n G. stands t n G = stands s n G"
      from Cons.IH [OF t(1), of y "\<lambda>e. F e \<and> ?X e"] y t(2) x(3)
      show "runs (makeset_loop xs y t) (\<lambda>y t. own E L t \<and> stands t y (\<lambda>e. F e \<and> (\<forall>x\<in>set (x # xs). e (bddvar2level E x))))"
        by (simp add: conj_ac)
    qed
  qed
qed simp

lemma bdd_makeset_own:
  assumes O: "own E L s" and xs: "variables E xs"
  shows "runs (bdd_makeset xs s) (\<lambda>y t. own E L t \<and> stands t y (\<lambda>e. \<forall>x\<in>set xs. e (bddvar2level E x)))"
proof -
  have "stands s 1 (\<lambda>_. True)" by (simp add: stands_def node_id_def fun_eq_iff)
  from makeset_loop_own [OF O this, of "rev xs"] xs show ?thesis
    by (simp add: bdd_makeset_def variables_def list_all_iff)
qed

lemma check_ok: "session s \<Longrightarrow> node_id s r \<Longrightarrow> check_code r s = 0"
  using running [of s] tab_invD(1) [OF binvD(3) [OF sessionD(1), of s]]
  by (auto simp: check_code_def node_id_def allocd_def size_ok_def)

text \<open>What \<open>bdd_scanset\<close> returns for a set: its variables, in the order of their levels.\<close>

lemma bdd_scanset_own:
  assumes O: "own E L s" and xs: "variables E xs"
    and r: "stands s r (\<lambda>e. \<forall>x\<in>set xs. e (bddvar2level E x))" and e: "bdderrorcond s = 0"
  shows "\<exists>ys. bdd_scanset r s = ret (0, ys) s \<and> set ys = set xs \<and> sorted_wrt (<) (map (bddvar2level E) ys)"
proof -
  note S = own_session [OF O] and D = settledD [OF own_settled [OF O]]
  note T = binvD(2,3) [OF sessionD(1) [OF S]]
  have n: "node_id s r" "sem s r = (\<lambda>e. \<forall>l\<in>bddvar2level E ` set xs. e l)" using r e by (simp_all add: stands_def)
  have v: "vset s r = bddvar2level E ` set xs" by (rule cube_vset [OF T n])
  show ?thesis
  proof (cases "r < 2")
    case True
    then show ?thesis using v check_ok [OF S n(1)] by (intro exI [of _ "[]"]) (simp add: bdd_scanset_def)
  next
    case False
    note N = bdd_node [OF T n(1)]
    have "nat (bddvarnum s - LEVEL s r) < nat (bddvarnum s) + 2" using N(1) by simp
    from scan_high_vset [OF T n(1) this] obtain ls where
      ls: "scan_high (nat (bddvarnum s) + 2) r s = Some (map (bddlevel2var s) ls)" "sorted_wrt (<) ls" "set ls = vset s r" by blast
    have inv: "bddlevel2var s (bddvar2level E x) = x" if "x \<in> set xs" for x
      using that xs D levels_inverse(2) [OF S, of x] by (auto simp: variables_def list_all_iff)
    have "map (bddvar2level E \<circ> bddlevel2var s) ls = ls"
      by (rule map_idI) (use ls(3) v inv in auto)
    moreover have "bddlevel2var s ` bddvar2level E ` set xs = set xs" using inv by force
    ultimately show ?thesis
      using False ls v check_ok [OF S n(1)] by (intro exI [of _ "map (bddlevel2var s) ls"]) (simp add: bdd_scanset_def del: scan_high.simps)
  qed
qed

section \<open>Sets of domains\<close>

definition domain_vars :: "bdd_state \<Rightarrow> int \<Rightarrow> int list" where
  "domain_vars E v = (case domain E of None \<Rightarrow> [] | Some ds \<Rightarrow> d_ivar (ds v))"

definition domain_set :: "bdd_state \<Rightarrow> int \<Rightarrow> BDD" where
  "domain_set E v = (case domain E of None \<Rightarrow> 0 | Some ds \<Rightarrow> d_var (ds v))"

text \<open>The variable sets of the domains belong to the ledger.\<close>

definition sets_held :: "bdd_state \<Rightarrow> (int \<times> bfun) multiset \<Rightarrow> bool" where
  "sets_held E L = (\<exists>ds. domain E = Some ds \<and> (\<forall>v. 0 \<le> v \<and> v < fdvarnum E \<longrightarrow>
     has L (domain_set E v) (\<lambda>e. \<forall>x\<in>set (domain_vars E v). e (bddvar2level E x)) \<and> variables E (domain_vars E v)))"

lemma sets_held_more: "sets_held E L \<Longrightarrow> sets_held E (add_mset x L)"
  unfolding sets_held_def by auto

lemma fdd_makeset_loop_own:
  assumes "own E L s" "stands s r F" "sets_held E L" "\<forall>v\<in>set vs. 0 \<le> v \<and> v < fdvarnum E"
  shows "runs (fdd_makeset_loop vs r s)
    (\<lambda>y t. own E L t \<and> stands t y (\<lambda>e. F e \<and> (\<forall>v\<in>set vs. \<forall>x\<in>set (domain_vars E v). e (bddvar2level E x))))"
  using assms
proof (induction vs arbitrary: r F s)
  case (Cons v vs)
  let ?V = "\<lambda>e. \<forall>x\<in>set (domain_vars E v). e (bddvar2level E x)"
  show ?case unfolding fdd_makeset_loop.simps
  proof (rule seq_addref [OF Cons.prems(1,2)])
    fix s assume O: "own E (add_mset (r, F) L) s"
    have h: "has (add_mset (r, F) L) (domain_set E v) ?V" using Cons.prems(3,4) by (auto simp: sets_held_def)
    have w: "with_domain v s k = k ((the (domain E)) v)" "d_var ((the (domain E)) v) = domain_set E v"
      for k :: "Domain \<Rightarrow> BDD bm"
      using settledD(7) [OF own_settled [OF O]] Cons.prems(3)
      by (auto simp: with_domain_def sets_held_def domain_set_def)
    have 1: "runs (bdd_apply (domain_set E v) r bddop_and s)
        (\<lambda>y t. own E (add_mset (r, F) L) t \<and> stands t y (\<lambda>e. ?V e \<and> F e))"
      using apply_own [OF O h has_add op_ranges(1,2)] by (simp add: bool_ops)
    show "runs (with_domain v s (\<lambda>d. bnd (bdd_apply (d_var d) r bddop_and s) (\<lambda>tmp s.
        bnd (bdd_delref r s) (\<lambda>_ s. fdd_makeset_loop vs tmp s))))
      (\<lambda>y t. own E L t \<and> stands t y (\<lambda>e. F e \<and> (\<forall>v\<in>set (v # vs). \<forall>x\<in>set (domain_vars E v). e (bddvar2level E x))))"
      unfolding w
    proof (rule runs_bnd [OF 1], elim conjE, erule stands_delref)
      fix y s t assume y: "stands s y (\<lambda>e. ?V e \<and> F e)" and t: "own E L t" "\<And>n G. stands t n G = stands s n G"
      from Cons.IH [OF t(1), of y "\<lambda>e. ?V e \<and> F e"] y t(2) Cons.prems
      show "runs (fdd_makeset_loop vs y t) (\<lambda>y t. own E L t \<and>
          stands t y (\<lambda>e. F e \<and> (\<forall>v\<in>set (v # vs). \<forall>x\<in>set (domain_vars E v). e (bddvar2level E x))))"
        by (simp add: conj_ac)
    qed
  qed
qed simp

lemma fdd_makeset_own:
  assumes O: "own E L s" and H: "sets_held E L" and vs: "\<forall>v\<in>set vs. 0 \<le> v \<and> v < fdvarnum E"
  shows "runs (fdd_makeset vs s)
    (\<lambda>y t. own E L t \<and> stands t y (\<lambda>e. \<forall>x\<in>set (concat (map (domain_vars E) vs)). e (bddvar2level E x)))"
proof -
  have "stands s 1 (\<lambda>_. True)" by (simp add: stands_def node_id_def fun_eq_iff)
  from fdd_makeset_loop_own [OF O this H vs]
  have "runs (fdd_makeset_loop vs bddtrue s)
    (\<lambda>y t. own E L t \<and> stands t y (\<lambda>e. \<forall>x\<in>set (concat (map (domain_vars E) vs)). e (bddvar2level E x)))"
    by (simp add: bddtrue_def)
  moreover have "\<not> list_ex (\<lambda>v. v < 0 \<or> v \<ge> fdvarnum s) vs"
    using vs settledD(8) [OF own_settled [OF O]] by (fastforce simp: list_ex_iff)
  ultimately show ?thesis
    using running [OF own_session [OF O]] by (simp add: fdd_makeset_def block_check_def)
qed

text \<open>For disjoint domains that have variables, the scan returns the domains of the set.\<close>

definition disjoint_blocks :: "bdd_state \<Rightarrow> bool" where
  "disjoint_blocks E = (\<forall>v w. 0 \<le> v \<and> v < fdvarnum E \<and> 0 \<le> w \<and> w < fdvarnum E \<longrightarrow>
     domain_vars E v \<noteq> [] \<and> (v \<noteq> w \<longrightarrow> set (domain_vars E v) \<inter> set (domain_vars E w) = {}))"

lemma fdd_scanset_own:
  assumes O: "own E L s" and H: "sets_held E L" "disjoint_blocks E" and vs: "\<forall>v\<in>set vs. 0 \<le> v \<and> v < fdvarnum E"
    and r: "stands s r (\<lambda>e. \<forall>x\<in>set (concat (map (domain_vars E) vs)). e (bddvar2level E x))" and e: "bdderrorcond s = 0"
  shows "fdd_scanset r s = ret (0, filter (\<lambda>v. v \<in> set vs) [0..fdvarnum E - 1]) s"
proof -
  let ?xs = "concat (map (domain_vars E) vs)"
  note D = settledD [OF own_settled [OF O]]
  have "variables E ?xs" using H(1) vs by (auto simp: sets_held_def variables_def list_all_iff)
  from bdd_scanset_own [OF O this r e] obtain ys where ys: "bdd_scanset r s = ret (0, ys) s" "set ys = set ?xs" by blast
  obtain ds where ds: "domain s = Some ds" "\<And>v. d_ivar (ds v) = domain_vars E v"
    using H(1) D(7) by (auto simp: sets_held_def domain_vars_def)
  have "list_ex (\<lambda>x. x \<in> set ys) (domain_vars E v) = (v \<in> set vs)" if "0 \<le> v" "v < fdvarnum E" for v
  proof
    assume "list_ex (\<lambda>x. x \<in> set ys) (domain_vars E v)"
    then obtain x w where "x \<in> set (domain_vars E v)" "w \<in> set vs" "x \<in> set (domain_vars E w)"
      by (auto simp: list_ex_iff ys(2))
    then show "v \<in> set vs" using H(2) vs that by (auto simp: disjoint_blocks_def)
  next
    assume v: "v \<in> set vs"
    have "domain_vars E v \<noteq> []" using H(2) that by (auto simp: disjoint_blocks_def)
    then show "list_ex (\<lambda>x. x \<in> set ys) (domain_vars E v)"
      using v by (cases "domain_vars E v") (force simp: ys(2))+
  qed
  then have "filter (\<lambda>v. list_ex (\<lambda>x. x \<in> set ys) (domain_vars E v)) [0..fdvarnum E - 1] =
      filter (\<lambda>v. v \<in> set vs) [0..fdvarnum E - 1]" by (intro filter_cong) auto
  then show ?thesis
    using running [OF own_session [OF O]] ys(1) ds D(8) by (simp add: fdd_scanset_def)
qed

end
