(* ===== verification/PropsFdd.thy ===== *)
theory PropsFdd
  imports PropsBvec FddScan
begin

text \<open>
  The properties of finite domains and variable sets. \<open>block E v xs n\<close> says that domain \<open>v\<close> of \<open>E\<close> has the
  variables \<open>xs\<close> and the size \<open>n\<close>; its value for an assignment is the number of its literals.
\<close>

section \<open>A session with two domains\<close>

definition ex_domains :: "int \<Rightarrow> Domain" where
  "ex_domains v = \<lparr>d_realsize = 2, d_binsize = 1, d_ivar = [v], d_var = 2 * v + 2\<rparr>"

definition blocks :: bdd_state where
  "blocks = example\<lparr>domain := Some ex_domains, fdvaralloc := 2, fdvarnum := 2, firstbddvar := 2\<rparr>"

lemma blocks_sel:
  "bddnodes blocks = bddnodes example" "bddnodesize blocks = bddnodesize example" "bddvarnum blocks = 2"
  "ops blocks = zero_ops" "pairs blocks = []" "bddvar2level blocks = (\<lambda>v. v)" "domain blocks = Some ex_domains"
  "fdvarnum blocks = 2" "bddvarset blocks = (\<lambda>i. i + 2)" "bdderrorcond blocks = 0"
  by (simp_all add: blocks_def example_sel)

lemma blocks_session: "session blocks"
proof -
  have st: "tab_inv blocks = tab_inv example" by (rule tab_inv_cong) (simp_all add: blocks_def)
  have "kinv blocks = kinv example"
    by (simp add: kinv_def st prime_size_def env_ok_def bdd_reorder_ready_def) (simp add: blocks_def)
  moreover have "bdd_table blocks = bdd_table example"
    unfolding bdd_table_def core_eq [OF blocks_sel(1,2)] by (simp add: blocks_def)
  ultimately have "bdd_base blocks"
    using ex_bdd_base by (simp add: bdd_base_def st) (simp add: blocks_def)
  moreover have "caches_ok blocks"
    by (simp add: caches_ok_def Let_def blocks_def example_sel ex_base_def ex_cache_def fresh_cache_ok)
  moreover have "vars_ok blocks = vars_ok example"
    unfolding vars_ok_def var_ok_def lit_node_def core_eq [OF blocks_sel(1,2)] by (simp add: blocks_def)
  moreover have "pairs_ok blocks"
    by (simp add: pairs_ok_def) (simp add: blocks_def INT_MAX_def example_sel)
  ultimately show ?thesis
    using ex_session by (simp add: session_def fr.inv_def ratio_ok_def blocks_sel) (simp add: blocks_def example_sel)
qed

lemma blocks_own: "own blocks ex_ledger blocks"
proof -
  have 0: "own blocks {#} blocks"
    using blocks_session by (simp add: own_quiet quiet_def pair_refs_def refs_held_def blocks_sel)
  have V: "0 \<le> (0::int)" "0 < bddvarnum blocks" "0 \<le> (1::int)" "1 < bddvarnum blocks" by (simp_all add: blocks_sel)
  from ithvar_own(1) [OF 0 V(3,4)] have 1: "own blocks {#(4, \<lambda>e. e 1)#} blocks"
    by (simp add: bdd_ithvar_def blocks_sel ret_def)
  from ithvar_own(1) [OF 1 V(1,2)] show ?thesis
    by (simp add: bdd_ithvar_def blocks_sel ex_ledger_def add_mset_commute ret_def)
qed

lemma blocks_block: "v = 0 \<or> v = 1 \<Longrightarrow> block blocks v [v] 2"
  by (auto simp: block_def blocks_sel ex_domains_def)

lemma blocks_blocks: "all_blocks blocks" "disjoint_blocks blocks" "sets_held blocks ex_ledger"
proof -
  show "all_blocks blocks" "disjoint_blocks blocks"
    by (auto simp: all_blocks_def disjoint_blocks_def domain_vars_def blocks_sel ex_domains_def)
  have "v = 0 \<or> v = 1" if "0 \<le> v" "v < 2" for v :: int using that by auto
  then show "sets_held blocks ex_ledger"
    by (force simp: sets_held_def domain_set_def domain_vars_def blocks_sel ex_domains_def has_def ex_ledger_def)
qed

section \<open>Values of domains\<close>

text \<open>
  C29. The encodings of finite domains are right: \<open>fdd_ithvar\<close> stands for \<open>value = val\<close>,
  \<open>fdd_domain\<close> for \<open>value < size\<close>, and \<open>fdd_equals\<close> for the equality of two values. The result of
  \<open>fdd_domain\<close> is referenced, those of the others are not.
\<close>

theorem fdd_encoding_correct:
  assumes "own E L s" "block E v xs n" "block E w ys n" "length xs = length ys" "0 \<le> val" "val < n"
  shows "runs (fdd_ithvar v val s) (\<lambda>r t. own E L t \<and> stands t r (\<lambda>e. number (literals E xs) e = val)) \<and>
    runs (fdd_domain v s) (\<lambda>r t. own E (add_mset (r, \<lambda>e. number (literals E xs) e < n) L) t) \<and>
    runs (fdd_equals v w s) (\<lambda>r t. own E L t \<and>
      stands t r (\<lambda>e. number (literals E xs) e = number (literals E ys) e))"
  using fdd_ithvar_own [OF assms(1,2,5,6)] fdd_domain_own [OF assms(1,2)] fdd_equals_own [OF assms(1-4)]
  by simp

theorem fdd_encoding_correct_example:
  "runs (fdd_equals 0 1 blocks) (\<lambda>r t. own blocks ex_ledger t \<and>
     stands t r (\<lambda>e. number (literals blocks [0]) e = number (literals blocks [1]) e))"
  using fdd_encoding_correct [OF blocks_own blocks_block [of 0] blocks_block [of 1], of 1] by simp

text \<open>C30. \<open>fdd_scanvar\<close> reads the value back that \<open>fdd_ithvar\<close> encoded.\<close>

theorem fdd_value_roundtrip:
  assumes "own E L s" "block E v xs n" "all_blocks E" "0 \<le> val" "val < n"
  shows "runs (fdd_ithvar v val s) (\<lambda>r t. bdderrorcond t = 0 \<longrightarrow> fdd_scanvar r v t = ret val t)"
  using fdd_ithvar_own [OF assms(1,2,4,5)]
  by (rule runs_conseq) (use fdd_scanvar_own assms in blast)

theorem fdd_value_roundtrip_example:
  "runs (fdd_ithvar 1 1 blocks) (\<lambda>r t. bdderrorcond t = 0 \<longrightarrow> fdd_scanvar r 1 t = ret 1 t)"
  using fdd_value_roundtrip [OF blocks_own blocks_block [of 1] blocks_blocks(1), of 1] by simp

section \<open>Sets\<close>



text \<open>
  C32. \<open>fdd_scanset\<close> returns the domains of the set that \<open>fdd_makeset\<close> built, in increasing order, for
  disjoint domains.
\<close>

theorem fdd_set_roundtrip:
  assumes "own E L s" "sets_held E L" "disjoint_blocks E" "\<forall>v\<in>set vs. 0 \<le> v \<and> v < fdvarnum E"
  shows "runs (fdd_makeset vs s) (\<lambda>r t. bdderrorcond t = 0 \<longrightarrow>
    fdd_scanset r t = ret (0, filter (\<lambda>v. v \<in> set vs) [0..fdvarnum E - 1]) t)"
  using fdd_makeset_own [OF assms(1,2,4)] by (rule runs_conseq) (use fdd_scanset_own assms in blast)

theorem fdd_set_roundtrip_example:
  "runs (fdd_makeset [1] blocks) (\<lambda>r t. bdderrorcond t = 0 \<longrightarrow>
    fdd_scanset r t = ret (0, filter (\<lambda>v. v \<in> set [1]) [0..fdvarnum blocks - 1]) t)"
  using fdd_set_roundtrip [OF blocks_own blocks_blocks(3,2), of "[1]"] by (simp add: blocks_sel)

end
