(* ===== verification/VarGrow.thy ===== *)
theory VarGrow
  imports OpRefs KernelInit OpReplace
begin

text \<open>
  The loop of \<open>bdd_setvarnum\<close>: each round creates the two literals of the next variable, with the
  invariant \<open>grows\<close> between the state before the call and the state reached.
\<close>

section \<open>Nothing live has changed\<close>

definition kept :: "bdd_state \<Rightarrow> bdd_state \<Rightarrow> bool" where
  "kept s t =
     (set (bddrefstack s) \<subseteq> set (bddrefstack t) \<and> bddnodesize s \<le> bddnodesize t \<and>
      (bdderrorcond t = 0 \<longrightarrow> bdderrorcond s = 0) \<and>
      (\<forall>n. n = 0 \<or> n = 1 \<or> keep s n \<longrightarrow> same_node s t n))"

lemma ext_kept: "ext s t \<Longrightarrow> kept s t"
  by (simp add: ext_def kept_def)

lemma kept_refl [simp]: "kept s s"
  by (simp add: kept_def)

text \<open>The part of \<open>t\<close> that \<open>kept\<close> sees, with the settings of \<open>s\<close>.\<close>

definition graft :: "bdd_state \<Rightarrow> bdd_state \<Rightarrow> bdd_state" where
  "graft t s = s\<lparr>bddnodes := bddnodes t, bddnodesize := bddnodesize t, bddrefstack := bddrefstack t,
     bdderrorcond := bdderrorcond t\<rparr>"

lemma graft_core [simp]:
  "live (graft t s) n = live t n" "allocd (graft t s) = allocd t" "same_node r (graft t s) = same_node r t"
  "stat (graft t s) = stat s"
  by (rule live_cong, simp_all add: graft_def fun_eq_iff allocd_def same_node_def LOW_def LEVEL_def HIGH_def)

lemma kept_ext: "kept s t = ext s (graft t s)"
  by (simp add: ext_def kept_def) (simp add: graft_def)

lemma kept_live: "kept s t \<Longrightarrow> tab_inv s \<Longrightarrow> live s n \<Longrightarrow> live t n"
  using ext_live [of s "graft t s" n] by (simp add: kept_ext)

lemma kept_keep: "kept s t \<Longrightarrow> keep s n \<Longrightarrow> allocd t n \<and> same_node s t n"
  using ext_keep [of s "graft t s" n] by (simp add: kept_ext)

lemma kept_trans:
  assumes I: "tab_inv s" and 1: "kept s t" and 2: "kept t u"
  shows "kept s u"
proof -
  have "same_node s u n" if "n = 0 \<or> n = 1 \<or> keep s n" for n
  proof -
    have "same_node s t n" using 1 that unfolding kept_def by blast
    moreover have "same_node t u n"
      using that 2 kept_keep [OF 1, of n] kept_live [OF 1 I, of n] unfolding kept_def by blast
    ultimately show ?thesis by (rule same_node_trans)
  qed
  then show ?thesis using 1 2 by (auto simp: kept_def)
qed

text \<open>Only the nodes, the stack and the error condition matter.\<close>

lemma kept_cong:
  assumes "kept s t" "bddnodes u = bddnodes t" "bddnodesize u = bddnodesize t"
    "bdderrorcond u = bdderrorcond t" "set (bddrefstack s) \<subseteq> set (bddrefstack u)"
  shows "kept s u"
  using assms by (simp add: kept_def same_node_def LOW_def LEVEL_def HIGH_def)

section \<open>Empty caches\<close>

definition caches_empty :: "bdd_state \<Rightarrow> bool" where
  "caches_empty s = (let c = caches s; e = (\<lambda>c. cache_ok (\<lambda>_. False) c \<and> 0 < tablesize c) in
     e (applycache c) \<and> e (itecache c) \<and> e (quantcache c) \<and> e (appexcache c) \<and>
     e (replacecache c) \<and> e (misccache c))"

lemma caches_empty_ok: "caches_empty s \<Longrightarrow> caches_ok s"
  by (auto simp: caches_empty_def caches_ok_def Let_def elim: bc.all_ok_mono)

lemma caches_empty_cong: "caches_empty s \<Longrightarrow> caches t = caches s \<Longrightarrow> caches_empty t"
  by (simp add: caches_empty_def)

text \<open>Caches that a reset empties.\<close>

definition caches_sane :: "bdd_state \<Rightarrow> bool" where
  "caches_sane s = (let c = caches s; e = (\<lambda>c. cache_wf c \<and> 0 < tablesize c) in
     e (applycache c) \<and> e (itecache c) \<and> e (quantcache c) \<and> e (appexcache c) \<and>
     e (replacecache c) \<and> e (misccache c))"

lemma caches_sane: "caches_ok s \<Longrightarrow> caches_sane s" "caches_empty s \<Longrightarrow> caches_sane s"
  by (auto simp: caches_empty_def caches_ok_def caches_sane_def Let_def dest: bc.all_ok_wf)

lemma caches_sane_cong: "caches t = caches s \<Longrightarrow> caches_sane t = caches_sane s"
  by (simp add: caches_sane_def)

lemma reset_empty:
  assumes "caches_sane s" "caches t = caches (bdd_operator_reset s)"
  shows "caches_empty t"
proof -
  have "cache_wf c \<Longrightarrow> cache_ok (\<lambda>_. False) (BddCache_reset c)" for c
    using bc.all_ok_reset [of "\<lambda>_. True" c "\<lambda>_. False"] by (simp add: bc.all_ok_def)
  then show ?thesis
    using assms unfolding caches_empty_def Let_def
    by (simp add: caches_sane_def Let_def bdd_operator_reset_def mtbdd_operator_reset_def
        MtbddCache_registry_reset_all_def)
qed

section \<open>The invariant of the loop\<close>

text \<open>The settings apart from the variable tables.\<close>

definition novars :: "bdd_state \<Rightarrow> bdd_state" where
  "novars s = s\<lparr>bddvarnum := 0, bddvarset := (\<lambda>_. 0), bddvar2level := (\<lambda>_. 0), bddlevel2var := (\<lambda>_. 0)\<rparr>"

lemma stat_novars: "stat (novars s) = novars (stat s)"
  by (simp add: novars_def stat_def)

lemma novars_upd:
  "novars (s\<lparr>bddrefstack := x, bddvarset := f\<rparr>) = (novars s)\<lparr>bddrefstack := x\<rparr>"
  "novars (s\<lparr>bddvarset := f, bddrefstack := x\<rparr>) = (novars s)\<lparr>bddrefstack := x\<rparr>"
  by (simp_all add: novars_def)

definition tables_extend :: "bdd_state \<Rightarrow> bdd_state \<Rightarrow> bool" where
  "tables_extend s t =
     (bddvarnum s \<le> bddvarnum t \<and>
      (\<forall>v. v < bddvarnum s \<longrightarrow> bddvar2level t v = bddvar2level s v \<and> bddlevel2var t v = bddlevel2var s v \<and>
         bddvarset t (v * 2) = bddvarset s (v * 2) \<and> bddvarset t (v * 2 + 1) = bddvarset s (v * 2 + 1)) \<and>
      (\<forall>v. bddvarnum s \<le> v \<and> v < bddvarnum t \<longrightarrow> bddvar2level t v = v \<and> bddlevel2var t v = v \<and>
         lit_node t (bddvarset t (v * 2)) v 0 1 \<and> lit_node t (bddvarset t (v * 2 + 1)) v 1 0))"

definition leveled :: "bdd_state \<Rightarrow> bool" where
  "leveled t = (\<forall>n. allocd t n \<longrightarrow> LEVEL t n < bddvarnum t \<and> LOW t n \<noteq> HIGH t n)"

text \<open>Either no node and no cache entry has gone, or the caches are empty.\<close>

definition emptied :: "bdd_state \<Rightarrow> bdd_state \<Rightarrow> bool" where
  "emptied s t =
     (caches t = caches s \<and> (\<forall>n. allocd s n \<longrightarrow> allocd t n \<and> same_node s t n) \<or> caches_empty t)"

definition grows :: "bdd_state \<Rightarrow> bdd_state \<Rightarrow> bool" where
  "grows s t =
     (kinv t \<and> bddrefstack t = [] \<and> stat (novars t) = stat (novars s) \<and> kept s t \<and>
      leveled t \<and> emptied s t \<and> tables_extend s t)"

lemma growsD:
  assumes "grows s t"
  shows "kinv t" "bddrefstack t = []" "stat (novars t) = stat (novars s)" "kept s t" "leveled t"
    "emptied s t" "tables_extend s t"
  using assms by (simp_all add: grows_def)

lemma grows_refl:
  assumes "kinv s" "bddrefstack s = []" "leveled s"
  shows "grows s s"
  using assms by (auto simp: grows_def emptied_def tables_extend_def same_node_def)

lemma novars_stat:
  assumes "stat (novars t) = stat (novars s)"
  shows "bddrunning t = bddrunning s" "mtbdd t = mtbdd s" "checkSameChildren t = checkSameChildren s"
    "bddrefslots t = bddrefslots s" "ops t = ops s" "pairs t = pairs s" "pairsid t = pairsid s"
    "rand t = rand s" "memlimit t = memlimit s" "bddmaxnodeincrease t = bddmaxnodeincrease s"
    "reorderdisabled t = reorderdisabled s" "vartree t = vartree s"
    "bddreordermethod t = bddreordermethod s" "bddreordertimes t = bddreordertimes s"
  using statD [OF assms] by (simp_all add: novars_def)

text \<open>\<open>kinv\<close> does not see the variable tables and the stack of valid nodes.\<close>

lemma kinv_cong:
  assumes K: "kinv s" and e: "bddnodes t = bddnodes s" "bddnodesize t = bddnodesize s"
    "bddfreepos t = bddfreepos s" "bddfreenum t = bddfreenum s" "mtvals t = mtvals s"
    "memlimit t = memlimit s" "env_ok t"
    and st: "\<And>x. x \<in> set (bddrefstack t) \<Longrightarrow> node_id s x"
  shows "kinv t"
proof -
  have "tab_inv (s\<lparr>bddrefstack := bddrefstack t\<rparr>)" by (rule tab_inv_refstack [OF kinvD(1) [OF K] st])
  also have "tab_inv (s\<lparr>bddrefstack := bddrefstack t\<rparr>) = tab_inv t"
    by (rule tab_inv_cong [symmetric]) (simp_all add: e)
  finally show ?thesis using kinvD(2) [OF K] e by (simp add: kinv_def prime_size_def)
qed

lemma env_ok_same:
  assumes "env_ok s" "rand t = rand s" "memlimit t = memlimit s" "bddmaxnodeincrease t = bddmaxnodeincrease s"
    "reorderdisabled t = reorderdisabled s" "vartree t = vartree s"
    "bddreordermethod t = bddreordermethod s" "bddreordertimes t = bddreordertimes s"
  shows "env_ok t"
  using assms by (simp add: env_ok_def bdd_reorder_ready_def)

section \<open>One round\<close>

text \<open>After the two calls of \<open>bdd_makenode\<close>, with the stack popped.\<close>

definition is_lit :: "bdd_state \<Rightarrow> int \<Rightarrow> int \<Rightarrow> int \<Rightarrow> int \<Rightarrow> bool" where
  "is_lit s n l a b = (inner s n \<and> LEVEL s n = l \<and> LOW s n = a \<and> HIGH s n = b)"

definition only_level :: "bdd_state \<Rightarrow> int \<Rightarrow> bdd_state \<Rightarrow> bool" where
  "only_level s v t =
     (\<forall>n. allocd t n \<longrightarrow> allocd s n \<and> same_node s t n \<or> LEVEL t n = v \<and> LOW t n \<noteq> HIGH t n)"

definition two_made :: "bdd_state \<Rightarrow> int \<Rightarrow> int \<Rightarrow> bdd_state \<Rightarrow> bool" where
  "two_made t r q u = (let v = bddvarnum t in
     kinv u \<and> bddrefstack u = [] \<and> kept t u \<and> emptied t u \<and> only_level t v u \<and>
     stat (novars u) = stat (novars t) \<and> bddvarnum u = v \<and>
     bddvar2level u = bddvar2level t \<and> bddlevel2var u = bddlevel2var t \<and>
     bddvarset u = (bddvarset t)(v * 2 := r, v * 2 + 1 := q) \<and>
     (bdderrorcond u = 0 \<longrightarrow> is_lit u r v 0 1 \<and> is_lit u q v 1 0))"

lemma same_core_cong:
  assumes "bddnodes t = bddnodes s" "bddnodesize t = bddnodesize s"
  shows "allocd t = allocd s" "same_node r t = same_node r s" "is_lit t = is_lit s" "same_node t = same_node s"
  using assms by (simp_all add: fun_eq_iff allocd_def inner_def is_lit_def same_node_def LOW_def LEVEL_def HIGH_def)

lemma emptied_made:
  assumes "made s v a b r t" "caches_sane s"
  shows "emptied s t"
  using assms reset_empty [of s t] unfolding made_def caches_rel_def emptied_def by blast

lemma emptied_trans: "emptied s t \<Longrightarrow> emptied t u \<Longrightarrow> emptied s u"
  using caches_empty_cong [of t u] same_node_trans [of s t _ u] unfolding emptied_def by metis

lemma emptied_cong:
  assumes "emptied s t" "bddnodes u = bddnodes t" "bddnodesize u = bddnodesize t" "caches u = caches t"
  shows "emptied s u"
  using assms(1) caches_empty_cong [OF _ assms(4)] same_core_cong(1,2) [OF assms(2,3)]
  unfolding emptied_def assms(4) by auto

lemma emptied_sane: "emptied s t \<Longrightarrow> caches_sane s \<Longrightarrow> caches_sane t"
  using caches_sane_cong [of t s] caches_sane(2) [of t] unfolding emptied_def by blast

lemma only_level_made:
  assumes "made s v a b r t" "a \<noteq> b"
  shows "only_level s v t"
  using assms unfolding made_def only_new_def only_level_def by blast

lemma only_level_trans:
  assumes "only_level s v t" "only_level t v u"
  shows "only_level s v u"
  unfolding only_level_def
proof (intro allI impI)
  fix n assume n: "allocd u n"
  then consider "allocd t n" "same_node t u n" | "LEVEL u n = v" "LOW u n \<noteq> HIGH u n"
    using assms(2) unfolding only_level_def by blast
  then show "allocd s n \<and> same_node s u n \<or> LEVEL u n = v \<and> LOW u n \<noteq> HIGH u n"
  proof cases
    case 1
    then consider "allocd s n" "same_node s t n" | "LEVEL t n = v" "LOW t n \<noteq> HIGH t n"
      using assms(1) unfolding only_level_def by blast
    then show ?thesis
    proof cases
      case 1
      then show ?thesis using \<open>same_node t u n\<close> same_node_trans by blast
    next
      case 2
      then show ?thesis using \<open>same_node t u n\<close> by (simp add: same_node_def)
    qed
  qed simp
qed

lemma fits_const: "c = 0 \<or> c = 1 \<Longrightarrow> fits s v c"
  by (auto simp: fits_def node_id_def below_def)

definition literals_of :: "int \<Rightarrow> bdd_state \<Rightarrow> (int \<times> int) bm" where
  "literals_of v s =
     bnd (bdd_makenode v 0 1 s) (\<lambda>r s.
     bnd (PUSHREF r s) (\<lambda>r s.
     let s = s\<lparr>bddvarset := (bddvarset s)(v * 2 := r)\<rparr> in
     bnd (bdd_makenode v 1 0 s) (\<lambda>q s.
     let s = s\<lparr>bddvarset := (bddvarset s)(v * 2 + 1 := q)\<rparr> in
     bnd (POPREF 1 s) (\<lambda>_ s. ret (r, q) s))))"

lemma literals_made:
  assumes K: "kinv t" and st: "bddrefstack t = []" and sl: "0 < bddrefslots t"
    and v: "v = bddvarnum t" "0 \<le> v" "v < MAXLEVEL" and c: "caches_sane t"
  shows "runs (literals_of v t) (\<lambda>(r, q). two_made t r q)"
  unfolding literals_of_def
proof (rule runs_bnd [OF bdd_makenode_spec [OF K v(2,3) fits_const fits_const]])
  fix r t1 assume M: "made t v 0 1 r t1"
  then have E: "ext t t1" and K1: "kinv t1" and s1: "bddrefstack t1 = []"
    and N1: "is_node t1 v 0 1 r \<or> r = 0 \<and> bdderrorcond t1 \<noteq> 0"
    using st by (simp_all add: made_def)
  have st1: "stat t1 = stat t" using E by (simp add: ext_def)
  note D1 = statD [OF st1]
  define t2 where "t2 = t1\<lparr>bddrefstack := [r], bddvarset := (bddvarset t)(v * 2 := r)\<rparr>"
  have pu: "PUSHREF r t1 = ret r (t1\<lparr>bddrefstack := [r]\<rparr>)"
    using sl D1 s1 by (simp add: PUSHREF_def)
  have r1: "bdderrorcond t1 = 0 \<Longrightarrow> is_lit t1 r v 0 1" using N1 by (auto simp: is_node_def is_lit_def split: if_splits)
  have nr: "node_id t1 r" using N1 by (auto simp: is_node_def node_id_def inner_def split: if_splits)
  have K2: "kinv t2"
    by (rule kinv_cong [OF K1]) (use nr kinvD(3) [OF K1] in \<open>auto simp: t2_def intro: env_ok_same\<close>)
  have k12: "kept t1 t2" by (rule kept_cong [OF kept_refl]) (simp_all add: t2_def s1)
  have k2: "kept t t2" by (rule kept_trans [OF kinvD(1) [OF K] ext_kept [OF E] k12])
  have C12: "allocd t2 = allocd t1" "same_node x t2 = same_node x t1" "is_lit t2 = is_lit t1" for x
    by (rule same_core_cong; simp add: t2_def)+
  have e2: "emptied t t2"
    by (rule emptied_cong [OF emptied_made [OF M c]]) (simp_all add: t2_def)
  have o2: "only_level t v t2"
    using only_level_made [OF M] unfolding only_level_def C12 by (simp add: t2_def LEVEL_def LOW_def HIGH_def)
  have nv2: "stat (novars t2) = stat (novars t)"
    unfolding t2_def novars_upd stat_upd stat_novars st1 ..
  have "runs (bnd (bdd_makenode v 1 0 t2) (\<lambda>q s.
     let s = s\<lparr>bddvarset := (bddvarset s)(v * 2 + 1 := q)\<rparr> in
     bnd (POPREF 1 s) (\<lambda>_ s. ret (r, q) s))) (\<lambda>(r, q). two_made t r q)"
  proof (rule runs_bnd [OF bdd_makenode_spec [OF K2 v(2,3) fits_const fits_const]])
    fix q t3 assume M3: "made t2 v 1 0 q t3"
    then have E3: "ext t2 t3" and K3: "kinv t3" and s3: "bddrefstack t3 = [r]"
      and N3: "is_node t3 v 1 0 q \<or> q = 0 \<and> bdderrorcond t3 \<noteq> 0"
      by (simp_all add: made_def t2_def)
    have st3: "stat t3 = stat t2" using E3 by (simp add: ext_def)
    note D3 = statD [OF st3]
    define u where "u = t3\<lparr>bddvarset := (bddvarset t)(v * 2 := r, v * 2 + 1 := q), bddrefstack := []\<rparr>"
    have C: "allocd u = allocd t3" "same_node x u = same_node x t3" "is_lit u = is_lit t3" for x
      by (rule same_core_cong; simp add: u_def)+
    have ku: "kinv u"
      by (rule kinv_cong [OF K3]) (use kinvD(3) [OF K3] in \<open>auto simp: u_def intro: env_ok_same\<close>)
    have k3: "kept t t3" by (rule kept_trans [OF kinvD(1) [OF K] k2 ext_kept [OF E3]])
    have k: "kept t u" by (rule kept_cong [OF k3]) (simp_all add: u_def st)
    have "emptied t t3" by (rule emptied_trans [OF e2 emptied_made [OF M3 emptied_sane [OF e2 c]]])
    then have e: "emptied t u" by (rule emptied_cong) (simp_all add: u_def)
    have "only_level t v t3" by (rule only_level_trans [OF o2 only_level_made [OF M3]]) simp
    then have o: "only_level t v u" unfolding only_level_def C by (simp add: u_def LEVEL_def LOW_def HIGH_def)
    have nv: "stat (novars u) = stat (novars t)"
      using nv2 unfolding u_def novars_upd stat_upd stat_novars st3 .
    have vars: "bddvarnum u = bddvarnum t" "bddvar2level u = bddvar2level t" "bddlevel2var u = bddlevel2var t"
      using D3 D1 by (simp_all add: u_def t2_def)
    have lits: "is_lit u r v 0 1 \<and> is_lit u q v 1 0" if e0: "bdderrorcond u = 0"
    proof -
      have z3: "bdderrorcond t3 = 0" using e0 by (simp add: u_def)
      then have "bdderrorcond t2 = 0" using E3 by (simp add: ext_def)
      then have l2: "is_lit t2 r v 0 1" using r1 unfolding C12 by (simp add: t2_def)
      have "live t2 r" by (rule live.live_stack) (simp add: t2_def)
      moreover have "allocd t2 r" using l2 by (simp add: is_lit_def inner_def)
      ultimately have "allocd t3 r" "same_node t2 t3 r" using ext_keep [OF E3] by simp_all
      then have "is_lit t3 r v 0 1" using l2 by (simp add: is_lit_def inner_def same_node_def)
      moreover have "is_lit t3 q v 1 0" using N3 z3 by (auto simp: is_node_def is_lit_def split: if_splits)
      ultimately show ?thesis unfolding C by simp
    qed
    have "POPREF 1 (t3\<lparr>bddvarset := (bddvarset t3)(v * 2 + 1 := q)\<rparr>) = ret () u"
      using D3(8) by (simp add: POPREF_def s3 u_def t2_def)
    then show "runs (let s = t3\<lparr>bddvarset := (bddvarset t3)(v * 2 + 1 := q)\<rparr> in
        bnd (POPREF 1 s) (\<lambda>_ s. ret (r, q) s)) (\<lambda>(r, q). two_made t r q)"
      using ku k e o nv vars lits by (simp add: two_made_def Let_def v(1) u_def)
  qed simp_all
  then show "runs (bnd (PUSHREF r t1) (\<lambda>r s.
     let s = s\<lparr>bddvarset := (bddvarset s)(v * 2 := r)\<rparr> in
     bnd (bdd_makenode v 1 0 s) (\<lambda>q s.
     let s = s\<lparr>bddvarset := (bddvarset s)(v * 2 + 1 := q)\<rparr> in
     bnd (POPREF 1 s) (\<lambda>_ s. ret (r, q) s)))) (\<lambda>(r, q). two_made t r q)"
    using D1(8) by (simp add: pu t2_def)
qed simp_all

text \<open>The new literals get the reference count that is never decremented.\<close>

definition pinned :: "int \<Rightarrow> int \<Rightarrow> bdd_state \<Rightarrow> bdd_state" where
  "pinned r q s = upd_node (\<lambda>d. d\<lparr>n_refcou := MAXREF\<rparr>) q (upd_node (\<lambda>d. d\<lparr>n_refcou := MAXREF\<rparr>) r s)"

lemma pinned_other: "n \<noteq> r \<Longrightarrow> n \<noteq> q \<Longrightarrow> bddnodes (pinned r q s) n = bddnodes s n"
  by (simp add: pinned_def upd_node_def)

lemma pinned_refcou: "n_refcou (bddnodes (pinned r q s) n) = (if n = r \<or> n = q then MAXREF else n_refcou (bddnodes s n))"
  by (simp add: pinned_def upd_node_def)

lemma pinned_frame:
  "bddnodesize (pinned r q s) = bddnodesize s" "bddrefstack (pinned r q s) = bddrefstack s"
  "bddfreepos (pinned r q s) = bddfreepos s" "bddfreenum (pinned r q s) = bddfreenum s"
  "mtvals (pinned r q s) = mtvals s" "memlimit (pinned r q s) = memlimit s" "caches (pinned r q s) = caches s"
  "bdderrorcond (pinned r q s) = bdderrorcond s" "novars (pinned r q s) = pinned r q (novars s)"
  "bddvarnum (pinned r q s) = bddvarnum s" "bddvar2level (pinned r q s) = bddvar2level s"
  "bddlevel2var (pinned r q s) = bddlevel2var s" "bddvarset (pinned r q s) = bddvarset s"
  "stat (pinned r q s) = stat s"
  by (simp_all add: pinned_def upd_node_def novars_def)

lemma pinned_recounted:
  assumes I: "tab_inv s" and rq: "allocd s r" "allocd s q"
  shows "recounted s (pinned r q s)"
proof -
  let ?c = "\<lambda>n. n_refcou (bddnodes (pinned r q s) n)"
  have "pinned r q s = s\<lparr>bddnodes := (\<lambda>n. (bddnodes s n)\<lparr>n_refcou := ?c n\<rparr>)\<rparr>"
    by (simp add: pinned_def upd_node_def fun_eq_iff)
  moreover have "0 \<le> ?c n \<and> ?c n \<le> MAXREF" for n
    using tab_invD(7) [OF I] by (simp add: refs_ok_def pinned_refcou MAXREF_def)
  ultimately show ?thesis
    unfolding recounted_def using rq by (intro exI [of _ ?c]) (auto simp: pinned_refcou)
qed

definition with_var :: "int \<Rightarrow> bdd_state \<Rightarrow> bdd_state" where
  "with_var v s = s\<lparr>bddlevel2var := (bddlevel2var s)(v := v), bddvar2level := (bddvar2level s)(v := v),
     bddvarnum := v + 1\<rparr>"

lemma with_var_frame [simp]:
  "bddnodes (with_var v s) = bddnodes s" "bddnodesize (with_var v s) = bddnodesize s"
  "bddrefstack (with_var v s) = bddrefstack s" "bddfreepos (with_var v s) = bddfreepos s"
  "bddfreenum (with_var v s) = bddfreenum s" "mtvals (with_var v s) = mtvals s"
  "memlimit (with_var v s) = memlimit s" "caches (with_var v s) = caches s"
  "bdderrorcond (with_var v s) = bdderrorcond s" "novars (with_var v s) = novars s"
  "bddvarnum (with_var v s) = v + 1" "bddvarset (with_var v s) = bddvarset s"
  by (simp_all add: with_var_def novars_def)

lemma is_lit_pinned: "recounted s (pinned r q s) \<Longrightarrow> is_lit (pinned r q s) = is_lit s"
  using shape_acc [OF recounted_shape(1)] by (simp add: fun_eq_iff is_lit_def)

lemma lit_node_is_lit: "lit_node s n l a b = (is_lit s n l a b \<and> n_refcou (bddnodes s n) = MAXREF)"
  by (auto simp: lit_node_def is_lit_def)

lemma tables_extend_step:
  assumes T: "tables_extend s t" and v: "v = bddvarnum t"
    and set: "bddvarset w = (bddvarset t)(v * 2 := r, v * 2 + 1 := q)"
      "bddvar2level w = (bddvar2level t)(v := v)" "bddlevel2var w = (bddlevel2var t)(v := v)" "bddvarnum w = v + 1"
    and old: "\<And>n l a b. lit_node t n l a b \<Longrightarrow> lit_node w n l a b"
    and new: "lit_node w r v 0 1" "lit_node w q v 1 0"
  shows "tables_extend s w"
  unfolding tables_extend_def
proof (intro conjI allI impI)
  fix u
  have ne: "u * 2 \<noteq> v * 2 + 1" "u * 2 + 1 \<noteq> v * 2" by presburger+
  show "bddvarnum s \<le> bddvarnum w" using T v set by (simp add: tables_extend_def)
  show "bddvar2level w u = bddvar2level s u" "bddlevel2var w u = bddlevel2var s u"
    "bddvarset w (u * 2) = bddvarset s (u * 2)" "bddvarset w (u * 2 + 1) = bddvarset s (u * 2 + 1)"
    if "u < bddvarnum s"
    using T v set that ne by (auto simp: tables_extend_def)
  show "bddvar2level w u = u" "bddlevel2var w u = u" "lit_node w (bddvarset w (u * 2)) u 0 1"
    "lit_node w (bddvarset w (u * 2 + 1)) u 1 0" if "bddvarnum s \<le> u \<and> u < bddvarnum w"
    using T v set that ne new old by (auto simp: tables_extend_def)
qed

lemma grows_step:
  assumes G: "grows s t" and Is: "tab_inv s" and M: "two_made t r q u" and e: "bdderrorcond u = 0"
  shows "grows s (with_var (bddvarnum t) (pinned r q u))"
proof -
  let ?v = "bddvarnum t" and ?x = "pinned r q u" and ?w = "with_var (bddvarnum t) (pinned r q u)"
  note g = growsD [OF G]
  from M e have u: "kinv u" "bddrefstack u = []" "kept t u" "emptied t u" "only_level t ?v u"
    "stat (novars u) = stat (novars t)" "bddvarnum u = ?v" "bddvar2level u = bddvar2level t"
    "bddlevel2var u = bddlevel2var t" "bddvarset u = (bddvarset t)(?v * 2 := r, ?v * 2 + 1 := q)"
    and l: "is_lit u r ?v 0 1" "is_lit u q ?v 1 0"
    by (simp_all add: two_made_def Let_def)
  have rq: "allocd u r" "allocd u q" "LEVEL u r = ?v" "LEVEL u q = ?v"
    using l by (simp_all add: is_lit_def inner_def)
  have R: "recounted u ?x" by (rule pinned_recounted [OF kinvD(1) [OF u(1)] rq(1,2)])
  have "env_ok ?x" using kinvD(3) [OF u(1)] env_ok_stat [of ?x u] by (simp add: pinned_frame)
  then have kx: "kinv ?x"
    using recounted_tab [OF R kinvD(1) [OF u(1)]] kinvD(2) [OF u(1)]
    by (simp add: kinv_def prime_size_def pinned_frame)
  have kw: "kinv ?w"
    by (rule kinv_cong [OF kx]) (use kinvD(3) [OF kx] u(2) in \<open>auto simp: pinned_frame with_var_def intro: env_ok_same\<close>)
  have al: "allocd ?w = allocd u" "LEVEL ?w = LEVEL u" "LOW ?w = LOW u" "HIGH ?w = HIGH u" "is_lit ?w = is_lit u"
    using shape_acc [OF recounted_shape(1) [OF R]] is_lit_pinned [OF R] same_core_cong [of ?w ?x]
    by (simp_all add: fun_eq_iff LEVEL_def LOW_def HIGH_def)
  have low: "same_node t ?w n" if "same_node t u n" "n = 0 \<or> n = 1 \<or> allocd t n" for n
  proof -
    have "n \<noteq> r \<and> n \<noteq> q"
      using that rq g(5) by (auto simp: leveled_def same_node_def allocd_def)
    then have "bddnodes ?w n = bddnodes u n" by (simp add: pinned_other)
    then show ?thesis using that(1) by (simp add: same_node_def LEVEL_def LOW_def HIGH_def)
  qed
  have k: "kept t ?w"
    unfolding kept_def
  proof (intro conjI allI impI)
    fix n assume "n = 0 \<or> n = 1 \<or> keep t n"
    then show "same_node t ?w n" using u(3) low unfolding kept_def by blast
  qed (use u(2,3) g(2) in \<open>auto simp: kept_def pinned_frame\<close>)
  have "emptied t ?w"
    using u(4) low caches_empty_cong [of u ?w] unfolding emptied_def al by (auto simp: pinned_frame)
  then have em: "emptied s ?w" by (rule emptied_trans [OF g(6)])
  have lv: "leveled ?w"
    using u(5) g(5) unfolding leveled_def only_level_def al by (force simp: same_node_def)
  have old: "lit_node ?w n l a b" if "lit_node t n l a b" for n l a b
  proof -
    have n: "inner t n" "0 < n_refcou (bddnodes t n)" using that by (simp_all add: lit_node_def MAXREF_def)
    then have "keep t n" by (auto simp: inner_def allocd_def intro!: live.live_ref)
    then have "allocd ?w n" "same_node t ?w n" using kept_keep [OF k, of n] by simp_all
    then show ?thesis using that by (simp add: lit_node_def inner_def same_node_def)
  qed
  have new: "lit_node ?w r ?v 0 1" "lit_node ?w q ?v 1 0"
    using l unfolding lit_node_is_lit al by (simp_all add: pinned_refcou)
  have "stat (novars ?w) = stat (novars s)" using u(6) g(3) by (simp add: pinned_frame)
  moreover have "tables_extend s ?w"
    by (rule tables_extend_step [OF g(7) refl _ _ _ _ old new]) (simp_all add: u pinned_frame with_var_def)
  ultimately show ?thesis
    using kw kept_trans [OF Is g(4) k] lv em u(2) by (simp add: grows_def pinned_frame)
qed

lemma setvar_step_eq:
  "setvar_step t = (let v = bddvarnum t in
     bnd (literals_of v t) (\<lambda>_ s.
       if bdderrorcond s \<noteq> 0 then ret False s
       else let s = pinned (bddvarset s (v * 2)) (bddvarset s (v * 2 + 1)) s in
         ret True (s\<lparr>bddlevel2var := (bddlevel2var s)(v := v), bddvar2level := (bddvar2level s)(v := v)\<rparr>)))"
  by (simp add: setvar_step_def literals_of_def bnd_assoc Let_def pinned_def upd_node_def cong: if_cong)

lemma setvar_loop_spec:
  assumes Is: "tab_inv s" and sl: "0 < bddrefslots s" and vn: "0 \<le> bddvarnum s" and c: "caches_sane s"
  shows "grows s t \<Longrightarrow> bddvarnum t + int k \<le> MAXVAR \<Longrightarrow>
    runs (setvar_loop k d t) (\<lambda>ok u. if ok then grows s u \<and> bddvarnum u = bddvarnum t + int k else bdderrorcond u \<noteq> 0)"
proof (induction k arbitrary: t)
  case 0
  then show ?case by simp
next
  case (Suc k)
  let ?v = "bddvarnum t"
  note g = growsD [OF Suc.prems(1)]
  have v: "0 \<le> ?v" "?v < MAXLEVEL"
    using vn g(7) Suc.prems(2) by (auto simp: tables_extend_def MAXVAR_def MAXLEVEL_def)
  have sl': "0 < bddrefslots t" using sl novars_stat(4) [OF g(3)] by simp
  have "runs (setvar_step t) (\<lambda>ok u. if ok then bddvarnum u = ?v \<and> grows s (u\<lparr>bddvarnum := bddvarnum u + 1\<rparr>)
      else bdderrorcond u \<noteq> 0)" (is "runs _ ?P")
    unfolding setvar_step_eq Let_def
  proof (rule runs_bnd [OF literals_made [OF g(1,2) sl' refl v emptied_sane [OF g(6) c]]])
    fix rq u assume M: "(case rq of (r, q) \<Rightarrow> two_made t r q) u"
    obtain r q where rq: "rq = (r, q)" by (cases rq)
    then have M: "two_made t r q u" using M by simp
    then have "bddvarset u (?v * 2) = r" "bddvarset u (?v * 2 + 1) = q" "bddvarnum u = ?v"
      by (simp_all add: two_made_def Let_def)
    then show "runs (if bdderrorcond u \<noteq> 0 then ret False u
       else ret True ((pinned (bddvarset u (?v * 2)) (bddvarset u (?v * 2 + 1)) u)
          \<lparr>bddlevel2var := (bddlevel2var (pinned (bddvarset u (?v * 2)) (bddvarset u (?v * 2 + 1)) u))(?v := ?v),
           bddvar2level := (bddvar2level (pinned (bddvarset u (?v * 2)) (bddvarset u (?v * 2 + 1)) u))(?v := ?v)\<rparr>)) ?P"
      using grows_step [OF Suc.prems(1) Is M] by (simp add: with_var_def pinned_frame)
  qed
  then have "runs (bnd (setvar_step t) (\<lambda>ok s. if \<not> ok then ret False (s\<lparr>bddvarnum := d\<rparr>)
      else setvar_loop k d (s\<lparr>bddvarnum := bddvarnum s + 1\<rparr>)))
    (\<lambda>ok u. if ok then grows s u \<and> bddvarnum u = ?v + int (Suc k) else bdderrorcond u \<noteq> 0)"
  proof (rule runs_bnd)
    fix ok u assume P: "?P ok u"
    show "runs (if \<not> ok then ret False (u\<lparr>bddvarnum := d\<rparr>)
        else setvar_loop k d (u\<lparr>bddvarnum := bddvarnum u + 1\<rparr>))
      (\<lambda>ok u. if ok then grows s u \<and> bddvarnum u = ?v + int (Suc k) else bdderrorcond u \<noteq> 0)"
    proof (cases ok)
      case False
      then show ?thesis using P by simp
    next
      case True
      let ?u = "u\<lparr>bddvarnum := bddvarnum u + 1\<rparr>"
      have u: "bddvarnum u = ?v" "grows s ?u" using P True by auto
      have "runs (setvar_loop k d ?u) (\<lambda>ok w. if ok then grows s w \<and> bddvarnum w = bddvarnum ?u + int k
          else bdderrorcond w \<noteq> 0)"
        by (rule Suc.IH [OF u(2)]) (use Suc.prems(2) u(1) in simp)
      then show ?thesis using True by (simp add: u(1) algebra_simps cong: if_cong)
    qed
  qed
  then show ?case by simp
qed

section \<open>Raising the constants\<close>

text \<open>
  Raising the constants to the level below the new variables, at the end of \<open>bdd_setvarnum\<close>: all
  diagrams keep their functions, and the entries of the operation caches stay valid, except for
  the counts in \<open>misccache\<close>, which \<open>bdd_operator_varresize\<close> empties.
\<close>

definition raised_pair :: "bdd_state \<Rightarrow> bddPair \<Rightarrow> bddPair \<Rightarrow> bool" where
  "raised_pair s p q =
     (p_id q = p_id p \<and> p_last q = p_last p \<and> p_last p < bddvarnum s \<and>
      (\<forall>l. l < bddvarnum s \<longrightarrow> p_result q l = p_result p l))"

definition raised :: "bdd_state \<Rightarrow> bdd_state \<Rightarrow> bool" where
  "raised s w =
     (wf_nodes s \<and> tab_inv w \<and> bdd_table w \<and> (\<forall>n. allocd s n \<longrightarrow> allocd w n \<and> same_node s w n) \<and>
      leveled s \<and> 0 \<le> bddvarnum s \<and> bddvarnum s \<le> bddvarnum w \<and>
      bddvarnum s \<le> LEVEL s 0 \<and> bddvarnum s \<le> LEVEL s 1 \<and>
      (bdderrorcond w = 0 \<longrightarrow> bdderrorcond s = 0) \<and> pairsid w = pairsid s \<and>
      (\<forall>q \<in> set (pairs w). \<exists>p \<in> set (pairs s). raised_pair s p q))"

text \<open>What becomes of a level.\<close>

definition lift :: "bdd_state \<Rightarrow> bdd_state \<Rightarrow> int \<Rightarrow> int" where
  "lift s w l = (if l < bddvarnum s then l else bddvarnum w)"

lemma raised_facts:
  assumes R: "raised s w" and n: "node_id s n"
  shows "node_id w n" "LEVEL w n = lift s w (LEVEL s n)" "sem w n = sem s n" "vset w n = vset s n"
    "lit w n = lit s n" "levels w n = levels s n"
proof -
  have T: "wf_nodes s" "\<And>n. allocd s n \<Longrightarrow> allocd w n \<and> same_node s w n" using R by (auto simp: raised_def)
  have A: "agree s w n" using T n by (simp add: agree_def)
  show "node_id w n" using T n by (auto simp: node_id_def)
  show "LEVEL w n = lift s w (LEVEL s n)"
    using n R by (auto simp: raised_def lift_def node_id_def bdd_table_def leveled_def same_node_def)
  show "sem w n = sem s n" using sem_eq [OF T(1) A] by (simp add: fun_eq_iff)
  show "vset w n = vset s n" "lit w n = lit s n" "levels w n = levels s n"
    using agree_sets [OF T(1) A] by (simp_all add: fun_eq_iff)
qed

lemma lift_mono: "raised s w \<Longrightarrow> k \<le> l \<Longrightarrow> lift s w k \<le> lift s w l"
  by (auto simp: lift_def raised_def)

lemma lift_min: "raised s w \<Longrightarrow> lift s w (min k l) = min (lift s w k) (lift s w l)"
  using lift_mono [of s w k l] lift_mono [of s w l k] by (auto simp: min_def)

lemma raised_res: "raised s w \<Longrightarrow> res_ok s L F r \<Longrightarrow> res_ok w (lift s w L) F r"
  using raised_facts [of s w r] lift_mono [of s w L "LEVEL s r"] by (auto simp: res_ok_def raised_def)

lemma raised_relation:
  assumes R: "raised s w"
    and e: "node_id s a \<and> node_id s b \<and>
      (\<exists>F. res_ok s (min (LEVEL s a) (LEVEL s b)) F r \<and> (\<forall>x. sem s b x \<longrightarrow> F x = sem s a x))"
  shows "node_id w a \<and> node_id w b \<and>
      (\<exists>F. res_ok w (min (LEVEL w a) (LEVEL w b)) F r \<and> (\<forall>x. sem w b x \<longrightarrow> F x = sem w a x))"
  using e raised_facts [OF R, of a] raised_facts [OF R, of b] raised_res [OF R] lift_min [OF R] by metis

lemma raised_apply:
  assumes R: "raised s w" and e: "apply_entry s e"
  shows "apply_entry w e"
  unfolding apply_entry_def
proof (intro conjI impI)
  assume op: "0 \<le> c_c e \<and> c_c e \<le> bddop_invimp"
  then have n: "node_id s (c_a e)" "node_id s (c_b e)"
    and r: "res_ok s (min (LEVEL s (c_a e)) (LEVEL s (c_b e)))
           (\<lambda>x. bool_op (c_c e) (sem s (c_a e) x) (sem s (c_b e) x)) (c_res e)"
    using e by (simp_all add: apply_entry_def)
  show "node_id w (c_a e)" "node_id w (c_b e)"
    "res_ok w (min (LEVEL w (c_a e)) (LEVEL w (c_b e)))
           (\<lambda>x. bool_op (c_c e) (sem w (c_a e) x) (sem w (c_b e) x)) (c_res e)"
    using raised_facts [OF R n(1)] raised_facts [OF R n(2)] raised_res [OF R r] lift_min [OF R] by simp_all
next
  assume op: "c_c e = bddop_not"
  then have n: "node_id s (c_a e)" and r: "res_ok s (LEVEL s (c_a e)) (\<lambda>x. \<not> sem s (c_a e) x) (c_res e)"
    using e by (simp_all add: apply_entry_def)
  show "node_id w (c_a e)" "res_ok w (LEVEL w (c_a e)) (\<lambda>x. \<not> sem w (c_a e) x) (c_res e)"
    using raised_facts [OF R n] raised_res [OF R r] by simp_all
next
  assume "c_c e = bddop_simplify"
  then have "node_id s (c_a e) \<and> node_id s (c_b e) \<and>
      (\<exists>F. res_ok s (min (LEVEL s (c_a e)) (LEVEL s (c_b e))) F (c_res e) \<and>
           (\<forall>x. sem s (c_b e) x \<longrightarrow> F x = sem s (c_a e) x))"
    using e by (simp add: apply_entry_def)
  from raised_relation [OF R this]
  show "node_id w (c_a e)" "node_id w (c_b e)"
    "\<exists>F. res_ok w (min (LEVEL w (c_a e)) (LEVEL w (c_b e))) F (c_res e) \<and>
         (\<forall>x. sem w (c_b e) x \<longrightarrow> F x = sem w (c_a e) x)" by blast+
qed

lemma raised_ite:
  assumes R: "raised s w" and e: "ite_entry s e"
  shows "ite_entry w e"
proof -
  have n: "node_id s (c_a e)" "node_id s (c_b e)" "node_id s (c_c e)"
    and r: "res_ok s (min (LEVEL s (c_a e)) (min (LEVEL s (c_b e)) (LEVEL s (c_c e))))
        (\<lambda>x. if sem s (c_a e) x then sem s (c_b e) x else sem s (c_c e) x) (c_res e)"
    using e unfolding ite_entry_def by blast+
  show ?thesis
    unfolding ite_entry_def using raised_res [OF R r]
    by (simp only: raised_facts [OF R n(1)] raised_facts [OF R n(2)] raised_facts [OF R n(3)] lift_min [OF R])
qed

lemma raised_quant:
  assumes R: "raised s w" and e: "quant_entry s e"
  shows "quant_entry w e"
proof -
  from e obtain q V F where q: "node_id s (c_a e)" "node_id s V" "2 \<le> V \<and> V < 2 ^ 22" "q \<in> {0, 1, 2}"
    "quant_key q V (c_c e)" "res_ok s (LEVEL s (c_a e)) F (c_res e)" "quant_sem q (vset s V) (sem s (c_a e)) F"
    unfolding quant_entry_def by blast
  note f = raised_facts [OF R q(1)] raised_facts [OF R q(2)]
  have "res_ok w (LEVEL w (c_a e)) F (c_res e)" using raised_res [OF R q(6)] f by simp
  moreover have "quant_sem q (vset w V) (sem w (c_a e)) F" using q(7) f by simp
  moreover have "node_id w (c_a e)" "node_id w V" by (rule f)+
  ultimately show ?thesis using q(3-5) unfolding quant_entry_def by blast
qed

lemma raised_appex:
  assumes R: "raised s w" and e: "appex_entry s e"
  shows "appex_entry w e"
proof -
  from e obtain q V op F where q: "node_id s (c_a e)" "node_id s (c_b e)" "node_id s V" "2 \<le> V \<and> V < 2 ^ 22"
    "q \<in> {0, 1, 2}" "0 \<le> op" "op \<le> bddop_invimp" "c_c e = appex_tag q op V"
    "res_ok s (min (LEVEL s (c_a e)) (LEVEL s (c_b e))) F (c_res e)"
    "quant_sem q (vset s V) (\<lambda>x. bool_op op (sem s (c_a e) x) (sem s (c_b e) x)) F"
    unfolding appex_entry_def by blast
  note f = raised_facts [OF R q(1)] raised_facts [OF R q(2)] raised_facts [OF R q(3)]
  have "res_ok w (min (LEVEL w (c_a e)) (LEVEL w (c_b e))) F (c_res e)"
    using raised_res [OF R q(9)] f lift_min [OF R] by simp
  moreover have "quant_sem q (vset w V) (\<lambda>x. bool_op op (sem w (c_a e) x) (sem w (c_b e) x)) F"
    using q(10) f by simp
  moreover have "node_id w (c_a e)" "node_id w (c_b e)" "node_id w V" by (rule f)+
  ultimately show ?thesis using q(4-8) unfolding appex_entry_def by blast
qed

section \<open>Entries about pairs\<close>

lemma raised_pairs:
  assumes R: "raised s w" and q: "raised_pair s p q" and N: "pair_nodes s p"
  shows "pair_nodes w q" "psem w q = psem s p" "\<And>l. l < bddvarnum s \<Longrightarrow> pmap w q l = lift s w (pmap s p l)"
proof -
  have r: "p_result q l = p_result p l" "node_id s (p_result p l)" "p_last q = p_last p"
    if "0 \<le> l \<and> l \<le> p_last q" for l
    using q N that by (auto simp: raised_pair_def pair_nodes_def)
  have l: "p_last q = p_last p" using q by (simp add: raised_pair_def)
  show "pair_nodes w q" using r raised_facts(1) [OF R] by (auto simp: pair_nodes_def)
  show "psem w q = psem s p" using r raised_facts(3) [OF R] l by (auto simp: fun_eq_iff psem_def)
  show "pmap w q l = lift s w (pmap s p l)" if "l < bddvarnum s" for l
    using r [of l] raised_facts(2) [OF R] l that by (auto simp: pmap_def lift_def)
qed

lemma raised_levels:
  assumes R: "raised s w" and l: "l \<in> levels s n"
  shows "l < bddvarnum s"
  using l R by (auto simp: levels_def raised_def leveled_def inner_def)

lemma raised_renames:
  assumes R: "raised s w" and q: "raised_pair s p q" and N: "pair_nodes s p" and n: "node_id s n"
    and r: "renames w q n"
  shows "renames s p n" "\<And>l. l \<in> levels s n \<Longrightarrow> pmap w q l = pmap s p l"
proof -
  have m: "pmap w q l = lift s w (pmap s p l)" if "l \<in> levels s n" for l
    by (rule raised_pairs(3) [OF R q N raised_levels [OF R that]])
  have inj: "inj_on (pmap w q) (levels s n)" and lt: "\<And>l. l \<in> levels s n \<Longrightarrow> pmap w q l < bddvarnum w"
    using r raised_facts(6) [OF R n] by (auto simp: renames_def)
  have b: "pmap s p l < bddvarnum s" if "l \<in> levels s n" for l
    using lt [OF that] m [OF that] by (auto simp: lift_def split: if_splits)
  show eq: "pmap w q l = pmap s p l" if "l \<in> levels s n" for l
    using m [OF that] b [OF that] by (simp add: lift_def)
  show "renames s p n" using inj b eq by (auto simp: renames_def inj_on_def)
qed

lemma raised_subst:
  assumes R: "raised s w" and q: "raised_pair s p q" and n: "node_id s (c_a e)" and e: "subst_entry s e p"
  shows "subst_entry w e q"
proof -
  have N: "pair_nodes s p" using e by (simp add: subst_entry_def)
  from e obtain F where F: "res_ok s 0 F (c_res e)"
    "c_c e mod 4 = CACHEID_REPLACE \<Longrightarrow> renames s p (c_a e) \<Longrightarrow> (\<forall>x. F x = sem s (c_a e) (\<lambda>l. x (pmap s p l)))"
    "c_c e mod 4 = CACHEID_VECCOMPOSE \<Longrightarrow> (\<forall>x. F x = sem s (c_a e) (psem s p x))"
    by (auto simp: subst_entry_def)
  have W: "bdd_table w" "tab_inv w" using R by (simp_all add: raised_def)
  note P = raised_pairs [OF R q N] and f = raised_facts [OF R n]
  have "0 \<le> lift s w 0" using R by (auto simp: lift_def raised_def)
  then have "res_ok w 0 F (c_res e)" using raised_res [OF R F(1)] by (simp add: res_ok_def)
  moreover have "F x = sem w (c_a e) (\<lambda>l. x (pmap w q l))"
    if "c_c e mod 4 = CACHEID_REPLACE" "renames w q (c_a e)" for x
  proof -
    note r = raised_renames [OF R q N n that(2)]
    have "sem w (c_a e) (\<lambda>l. x (pmap w q l)) = sem w (c_a e) (\<lambda>l. x (pmap s p l))"
      by (rule sem_on_levels [OF W f(1)]) (simp add: f(6) r(2))
    then show ?thesis using F(2) [OF that(1) r(1)] f(3) by simp
  qed
  moreover have "\<forall>x. F x = sem w (c_a e) (psem w q x)" if "c_c e mod 4 = CACHEID_VECCOMPOSE"
    using F(3) [OF that] f(3) P(2) by simp
  ultimately show ?thesis using P(1) unfolding subst_entry_def by blast
qed

lemma raised_replace:
  assumes R: "raised s w" and e: "replace_entry s e"
  shows "replace_entry w e"
  unfolding replace_entry_def
proof (intro conjI impI ballI)
  assume "c_c e mod 4 = CACHEID_COMPOSE"
  then have c: "compose_entry s e" using e by (simp add: replace_entry_def)
  then have n: "node_id s (c_a e)" "node_id s (c_b e)" by (simp_all add: compose_entry_def)
  show "compose_entry w e"
    using c raised_res [OF R] unfolding compose_entry_def
    by (simp add: raised_facts [OF R n(1)] raised_facts [OF R n(2)] lift_min [OF R, symmetric])
next
  assume "c_c e mod 4 \<noteq> CACHEID_COMPOSE"
  then have c: "node_id s (c_a e)" "c_c e div 4 \<le> pairsid s"
    "\<And>p. p \<in> set (pairs s) \<Longrightarrow> p_id p = c_c e div 4 \<Longrightarrow> subst_entry s e p"
    using e by (auto simp: replace_entry_def)
  show "node_id w (c_a e)" using raised_facts [OF R c(1)] by simp
  show "c_c e div 4 \<le> pairsid w" using c(2) R by (simp add: raised_def)
  fix q assume q: "q \<in> set (pairs w)" "p_id q = c_c e div 4"
  then obtain p where p: "p \<in> set (pairs s)" "raised_pair s p q" using R by (auto simp: raised_def)
  then show "subst_entry w e q" using c(1,3) q(2) raised_subst [OF R] by (auto simp: raised_pair_def)
qed

text \<open>All caches but \<open>misccache\<close>, which is empty.\<close>

lemma raised_caches:
  assumes R: "raised s w" and c: "caches_ok s"
    and w: "caches w = (caches s)\<lparr>misccache := BddCache_reset (misccache (caches s))\<rparr>"
  shows "caches_ok w"
  using c unfolding caches_ok_def Let_def w
  by (auto elim!: bc.all_ok_mono intro: bc.all_ok_reset raised_apply [OF R] raised_ite [OF R]
      raised_quant [OF R] raised_appex [OF R] raised_replace [OF R])

end
