(* ===== verification/VarSet.thy ===== *)
theory VarSet
  imports VarGrow
begin

text \<open>
  \<open>bdd_init\<close> and \<open>bdd_setvarnum\<close>: the first establishes a state in which variables can be
  defined, the second turns such a state, or a session, into a session with more variables.
\<close>

section \<open>States in which variables can be added\<close>

definition startable :: "bdd_state \<Rightarrow> bool" where
  "startable s =
     (kinv s \<and> bddrunning s \<and> \<not> mtbdd s \<and> checkSameChildren s \<and> leveled s \<and>
      0 \<le> bddvarnum s \<and> bddvarnum s \<le> LEVEL s 0 \<and> caches_ok s \<and> ratio_ok s \<and> vars_ok s \<and> pairs_ok s)"

lemma session_startable: "session s \<Longrightarrow> startable s"
  using binvD [OF sessionD(1), of s] bdd_baseD [OF binvD(1) [OF sessionD(1)], of s] fr.invD(2) [OF sessionD(1), of s]
    sessionD [of s]
  by (auto simp: startable_def bdd_table_def leveled_def)

lemma startableD:
  assumes "startable s"
  shows "kinv s" "bddrunning s" "\<not> mtbdd s" "checkSameChildren s" "leveled s" "0 \<le> bddvarnum s"
    "bddvarnum s \<le> LEVEL s 0" "caches_ok s" "ratio_ok s" "vars_ok s" "pairs_ok s" "tab_inv s"
    "bddvarnum s \<le> LEVEL s 1"
  using assms tab_invD(2) [OF kinvD(1), of s] kinvD(1) [of s] by (simp_all add: startable_def consts_ok_def)

text \<open>The loop starts with reordering off, an empty stack of the new size and the same tables.\<close>

definition opened :: "int \<Rightarrow> bdd_state \<Rightarrow> bdd_state" where
  "opened num s = (bdd_disable_reorder s)\<lparr>bddrefslots := num * 128 + 8192, bddrefstack := []\<rparr>"

lemma opened_sel [simp]:
  "bddnodes (opened num s) = bddnodes s" "bddnodesize (opened num s) = bddnodesize s"
  "bddrefstack (opened num s) = []" "bddrefslots (opened num s) = num * 128 + 8192"
  "bddvarnum (opened num s) = bddvarnum s" "caches (opened num s) = caches s" "ops (opened num s) = ops s"
  "pairs (opened num s) = pairs s" "pairsid (opened num s) = pairsid s"
  "bdderrorcond (opened num s) = bdderrorcond s" "bddrunning (opened num s) = bddrunning s"
  "mtbdd (opened num s) = mtbdd s" "checkSameChildren (opened num s) = checkSameChildren s"
  "bddvar2level (opened num s) = bddvar2level s" "bddlevel2var (opened num s) = bddlevel2var s"
  "bddvarset (opened num s) = bddvarset s"
  by (simp_all add: opened_def bdd_disable_reorder_def)

lemma opened_nodes:
  "LEVEL (opened num s) = LEVEL s" "LOW (opened num s) = LOW s" "HIGH (opened num s) = HIGH s"
  "inner (opened num s) = inner s" "node_id (opened num s) = node_id s" "allocd (opened num s) = allocd s"
  "sem (opened num s) = sem s"
  by (rule core_eq; simp)+

lemma opened_kinv: "kinv s \<Longrightarrow> kinv (opened num s)"
  by (rule kinv_cong [of s])
    (auto simp: opened_def bdd_disable_reorder_def env_ok_def bdd_reorder_ready_def dest: kinvD(3))

lemma opened_arg: "arg (opened num s) n = handle s n"
  using live_cong [of "opened num s" "INITREF s" n]
  by (simp add: handle_iff) (simp add: arg_def opened_nodes)

section \<open>The end of the call\<close>

definition raise_consts :: "int \<Rightarrow> bdd_state \<Rightarrow> bdd_state" where
  "raise_consts num s =
     (upd_node (\<lambda>d. d\<lparr>n_level := num\<rparr>) 1 (upd_node (\<lambda>d. d\<lparr>n_level := num\<rparr>) 0 s))
        \<lparr>bddvar2level := (bddvar2level s)(num := num), bddlevel2var := (bddlevel2var s)(num := num)\<rparr>"

lemma raise_sel [simp]:
  "bddnodesize (raise_consts num s) = bddnodesize s" "bddrefstack (raise_consts num s) = bddrefstack s"
  "bddfreepos (raise_consts num s) = bddfreepos s" "bddfreenum (raise_consts num s) = bddfreenum s"
  "mtvals (raise_consts num s) = mtvals s" "memlimit (raise_consts num s) = memlimit s"
  "caches (raise_consts num s) = caches s" "bdderrorcond (raise_consts num s) = bdderrorcond s"
  "bddvarnum (raise_consts num s) = bddvarnum s" "bddvarset (raise_consts num s) = bddvarset s"
  "ops (raise_consts num s) = ops s" "pairs (raise_consts num s) = pairs s"
  "pairsid (raise_consts num s) = pairsid s" "bddrefslots (raise_consts num s) = bddrefslots s"
  "bddrunning (raise_consts num s) = bddrunning s" "mtbdd (raise_consts num s) = mtbdd s"
  "checkSameChildren (raise_consts num s) = checkSameChildren s"
  "bddvar2level (raise_consts num s) = (bddvar2level s)(num := num)"
  "bddlevel2var (raise_consts num s) = (bddlevel2var s)(num := num)"
  "rand (raise_consts num s) = rand s" "bddmaxnodeincrease (raise_consts num s) = bddmaxnodeincrease s"
  "vartree (raise_consts num s) = vartree s" "bddreordermethod (raise_consts num s) = bddreordermethod s"
  "bddreordertimes (raise_consts num s) = bddreordertimes s"
  "reorderdisabled (raise_consts num s) = reorderdisabled s"
  by (simp_all add: raise_consts_def upd_node_def)

lemma raise_node: "2 \<le> n \<Longrightarrow> bddnodes (raise_consts num s) n = bddnodes s n"
  by (simp add: raise_consts_def upd_node_def)

lemma raise_acc:
  "LOW (raise_consts num s) = LOW s" "HIGH (raise_consts num s) = HIGH s" "nx (raise_consts num s) = nx s"
  "bucket (raise_consts num s) = bucket s" "MARKED (raise_consts num s) = MARKED s"
  "n_refcou (bddnodes (raise_consts num s) n) = n_refcou (bddnodes s n)"
  "2 \<le> n \<Longrightarrow> LEVEL (raise_consts num s) n = LEVEL s n"
  "LEVEL (raise_consts num s) 0 = num" "LEVEL (raise_consts num s) 1 = num"
  by (simp_all add: fun_eq_iff raise_consts_def upd_node_def LOW_def HIGH_def LEVEL_def nx_def bucket_def MARKED_def)

lemma raise_alloc:
  "allocd (raise_consts num s) = allocd s" "inner (raise_consts num s) = inner s"
  "node_id (raise_consts num s) = node_id s"
  by (auto simp: fun_eq_iff allocd_def inner_def node_id_def raise_acc)

lemma raise_tab:
  assumes I: "tab_inv s"
  shows "tab_inv (raise_consts num s)"
proof -
  let ?w = "raise_consts num s"
  note D = tab_invD [OF I]
  have lev: "LEVEL ?w n = LEVEL s n" if "allocd s n" for n using that by (simp add: raise_acc allocd_def)
  have b: "below ?w v c = below s v c" for v c by (simp add: below_def raise_acc)
  have "built 2 ?w"
    by (rule built_cong [OF D(5)]) (auto simp: raise_acc intro: gbc_hash_cong)
  moreover have inn: "LEVEL ?w n = LEVEL s n" if "inner s n" for n using that lev by (simp add: inner_def)
  moreover have "wf_nodes ?w"
    unfolding wf_nodes_def raise_alloc b raise_acc(1,2)
  proof (intro allI impI)
    fix n assume n: "inner s n"
    show "0 \<le> LEVEL ?w n \<and> LEVEL ?w n < MAXLEVEL \<and> node_id s (LOW s n) \<and> node_id s (HIGH s n) \<and>
        below s (LEVEL ?w n) (LOW s n) \<and> below s (LEVEL ?w n) (HIGH s n)"
      unfolding inn [OF n] using D(3) n unfolding wf_nodes_def by blast
  qed
  moreover have "unique_nodes ?w"
    unfolding unique_nodes_def raise_alloc raise_acc(1,2)
    using unique_nodesD [OF D(4)] inn by metis
  moreover have "slots_distinct ?w"
    unfolding slots_distinct_def raise_alloc raise_acc(1,2) raise_sel
  proof (intro impI allI)
    fix m n assume c: "domaintype (mtvals s) = CUSTOM"
      and mn: "allocd s m \<and> allocd s n \<and> LEVEL ?w m = MAXLEVEL \<and> LEVEL ?w n = MAXLEVEL \<and> m \<noteq> n"
    then show "u32 (HIGH s m) \<noteq> u32 (HIGH s n)" using D(9) lev unfolding slots_distinct_def by metis
  qed
  moreover have "refs_ok ?w" using D(7) unfolding refs_ok_def by (auto simp: raise_acc)
  ultimately show ?thesis
    using D(1,2,6,8) unfolding tab_inv_def
    by (auto simp: size_ok_def consts_ok_def marks_clear_def stack_ok_def raise_acc raise_alloc)
qed

text \<open>The pairs map the new variables to themselves.\<close>

definition widen_pair :: "int \<Rightarrow> int \<Rightarrow> bdd_state \<Rightarrow> bddPair \<Rightarrow> bddPair" where
  "widen_pair old new s p =
     p\<lparr>p_result := (\<lambda>l. if old \<le> l \<and> l < new then bddvarset s (l * 2) else p_result p l)\<rparr>"

lemma identity_results_eq:
  assumes "\<And>n. old \<le> n \<Longrightarrow> n < old + int k \<Longrightarrow> bddlevel2var s n = n \<and> 0 \<le> n \<and> n < bddvarnum s"
  shows "identity_results k old res s =
     ret (\<lambda>l. if old \<le> l \<and> l < old + int k then bddvarset s (l * 2) else res l) s"
  using assms
proof (induction k arbitrary: old res)
  case 0
  have "(\<lambda>l. if old \<le> l \<and> l < old + int 0 then bddvarset s (l * 2) else res l) = res" by auto
  then show ?case by simp
next
  case (Suc k)
  have "bddlevel2var s old = old" "0 \<le> old" "old < bddvarnum s" using Suc.prems [of old] by auto
  then have "bdd_ithvar (bddlevel2var s old) s = ret (bddvarset s (old * 2)) s" by (simp add: bdd_ithvar_def)
  moreover have "(\<lambda>l. if old + 1 \<le> l \<and> l < old + 1 + int k then bddvarset s (l * 2)
        else (res(old := bddvarset s (old * 2))) l) =
      (\<lambda>l. if old \<le> l \<and> l < old + int (Suc k) then bddvarset s (l * 2) else res l)"
    by (rule HOL.ext) auto
  moreover have "identity_results k (old + 1) (res(old := bddvarset s (old * 2))) s =
      ret (\<lambda>l. if old + 1 \<le> l \<and> l < old + 1 + int k then bddvarset s (l * 2)
        else (res(old := bddvarset s (old * 2))) l) s"
    by (rule Suc.IH) (use Suc.prems in auto)
  ultimately show ?case by (simp del: fun_upd_apply)
qed

lemma resize_pairs_eq:
  assumes "\<And>n. old \<le> n \<Longrightarrow> n < new \<Longrightarrow> bddlevel2var s n = n \<and> 0 \<le> n \<and> n < bddvarnum s" "old \<le> new"
  shows "resize_pairs ps old new s = ret (map (widen_pair old new s) ps) s"
proof (induction ps)
  case (Cons p ps)
  have "identity_results (nat (new - old)) old (p_result p) s =
      ret (\<lambda>l. if old \<le> l \<and> l < old + int (nat (new - old)) then bddvarset s (l * 2) else p_result p l) s"
    by (rule identity_results_eq) (use assms in auto)
  then show ?case using Cons assms(2) by (simp add: widen_pair_def)
qed simp

definition closed :: "int \<Rightarrow> int \<Rightarrow> bdd_state \<Rightarrow> bdd_state" where
  "closed old num s =
     bdd_enable_reorder (bdd_operator_varresize
       ((raise_consts num s)\<lparr>pairs := map (widen_pair old num (raise_consts num s)) (pairs s)\<rparr>))"

lemma closed_sel [simp]:
  "bddnodes (closed old num s) = bddnodes (raise_consts num s)" "bddnodesize (closed old num s) = bddnodesize s"
  "bddrefstack (closed old num s) = bddrefstack s" "bddfreepos (closed old num s) = bddfreepos s"
  "bddfreenum (closed old num s) = bddfreenum s" "mtvals (closed old num s) = mtvals s"
  "memlimit (closed old num s) = memlimit s" "bdderrorcond (closed old num s) = bdderrorcond s"
  "bddvarnum (closed old num s) = bddvarnum s" "bddvarset (closed old num s) = bddvarset s"
  "pairs (closed old num s) = map (widen_pair old num s) (pairs s)"
  "pairsid (closed old num s) = pairsid s" "bddrefslots (closed old num s) = bddrefslots s"
  "bddrunning (closed old num s) = bddrunning s" "mtbdd (closed old num s) = mtbdd s"
  "checkSameChildren (closed old num s) = checkSameChildren s"
  "bddvar2level (closed old num s) = (bddvar2level s)(num := num)"
  "bddlevel2var (closed old num s) = (bddlevel2var s)(num := num)"
  "rand (closed old num s) = rand s" "bddmaxnodeincrease (closed old num s) = bddmaxnodeincrease s"
  "vartree (closed old num s) = vartree s" "bddreordermethod (closed old num s) = bddreordermethod s"
  "bddreordertimes (closed old num s) = bddreordertimes s" "reorderdisabled (closed old num s) = False"
  "caches (closed old num s) = (caches s)\<lparr>misccache := BddCache_reset (misccache (caches s))\<rparr>"
  "ops (closed old num s) = (ops s)\<lparr>quantvarset := (\<lambda>_. 0), quantvarsetID := 0\<rparr>"
  by (simp_all add: closed_def bdd_enable_reorder_def bdd_operator_varresize_def widen_pair_def [abs_def]
      cong: if_cong)

lemma closed_acc:
  "allocd (closed old num s) = allocd s" "inner (closed old num s) = inner s"
  "node_id (closed old num s) = node_id s" "LOW (closed old num s) = LOW s" "HIGH (closed old num s) = HIGH s"
  "LEVEL (closed old num s) = LEVEL (raise_consts num s)"
  "n_refcou (bddnodes (closed old num s) n) = n_refcou (bddnodes s n)"
  using core_eq [of "closed old num s" "raise_consts num s"] raise_alloc [of num s] raise_acc [where num = num and s = s]
  by simp_all

lemma closed_same: "2 \<le> n \<Longrightarrow> same_node s (closed old num s) n"
  using raise_acc(6) [of num s n] raise_acc(7) [of n num s] by (simp add: same_node_def closed_acc)

lemma closed_live: "live s n \<Longrightarrow> live (closed old num s) n"
  by (induction rule: live.induct) (auto simp: closed_acc intro: live.intros [where s = "closed old num s", unfolded closed_acc])

lemma closed_kinv:
  assumes "kinv s" "\<not> bdd_reorder_ready (bdd_enable_reorder s)"
  shows "kinv (closed old num s)"
proof -
  have "tab_inv (closed old num s) = tab_inv (raise_consts num s)" by (rule tab_inv_cong) simp_all
  moreover have "env_ok (closed old num s)"
    using kinvD(3) [OF assms(1)] assms(2) by (simp add: env_ok_def bdd_reorder_ready_def bdd_enable_reorder_def)
  ultimately show ?thesis
    using raise_tab [OF kinvD(1) [OF assms(1)]] kinvD(2) [OF assms(1)] by (simp add: kinv_def prime_size_def)
qed

text \<open>What the client held before the call it still holds.\<close>

definition carried :: "bdd_state \<Rightarrow> bdd_state \<Rightarrow> bool" where
  "carried s w = (\<forall>n. handle s n \<longrightarrow> handle w n \<and> sem w n = sem s n)"

lemma lit_node_closed: "lit_node s n l a b \<Longrightarrow> lit_node (closed old num s) n l a b"
  using raise_acc(6) [of num s n] raise_acc(7) [of n num s]
  by (auto simp: lit_node_def closed_acc inner_def allocd_def)

lemma lit_node_kept:
  assumes "kept s t" "lit_node s n l a b"
  shows "lit_node t n l a b"
proof -
  have "keep s n" using assms(2) by (auto simp: lit_node_def inner_def allocd_def MAXREF_def intro!: live.live_ref)
  then have "allocd t n" "same_node s t n" using kept_keep [OF assms(1), of n] by simp_all
  then show ?thesis using assms(2) by (simp add: lit_node_def inner_def same_node_def)
qed

definition enlarges :: "bdd_state \<Rightarrow> int \<Rightarrow> bdd_state \<Rightarrow> bool" where
  "enlarges s num u =
     (startable s \<and> grows (opened num s) u \<and> bddvarnum u = num \<and> num < MAXVAR \<and>
      \<not> bdd_reorder_ready (bdd_enable_reorder s))"

lemma enlargesD:
  assumes "enlarges s num u"
  shows "startable s" "kinv u" "bddrefstack u = []" "kept (opened num s) u" "leveled u"
    "emptied (opened num s) u" "tables_extend (opened num s) u" "bddvarnum u = num" "num < MAXVAR"
    "bddrunning u = bddrunning s" "mtbdd u = mtbdd s" "checkSameChildren u = checkSameChildren s"
    "bddrefslots u = num * 128 + 8192" "ops u = ops s" "pairs u = pairs s" "pairsid u = pairsid s"
    "\<not> bdd_reorder_ready (bdd_enable_reorder u)" "kinv (opened num s)" "bddvarnum s \<le> num"
proof -
  show S: "startable s" "kinv u" "bddrefstack u = []" "kept (opened num s) u" "leveled u"
    "emptied (opened num s) u" "tables_extend (opened num s) u" "bddvarnum u = num" "num < MAXVAR"
    using assms by (simp_all add: enlarges_def grows_def)
  have "stat (novars u) = stat (novars (opened num s))" using assms by (simp add: enlarges_def grows_def)
  note N = novars_stat [OF this]
  show "bddrunning u = bddrunning s" "mtbdd u = mtbdd s" "checkSameChildren u = checkSameChildren s"
    "bddrefslots u = num * 128 + 8192" "ops u = ops s" "pairs u = pairs s" "pairsid u = pairsid s"
    using N by simp_all
  show "\<not> bdd_reorder_ready (bdd_enable_reorder u)"
    using assms N by (simp add: enlarges_def bdd_reorder_ready_def bdd_enable_reorder_def opened_def bdd_disable_reorder_def)
  show "kinv (opened num s)" by (rule opened_kinv [OF startableD(1) [OF S(1)]])
  show "bddvarnum s \<le> num" using S(7,8) by (simp add: tables_extend_def)
qed

lemma enlarged_held:
  assumes E: "enlarges s num u" and h: "handle s n"
  defines "w \<equiv> closed (bddvarnum s) num u"
  shows "handle w n" "sem w n = sem s n"
proof -
  let ?o = "opened num s"
  note e = enlargesD [OF E]
  note I = kinvD(1) [OF e(18)]
  have a: "arg ?o n" using h by (simp add: opened_arg)
  have A: "agree ?o (graft u ?o) n" by (rule arg_agree [OF _ a]) (use e(4) in \<open>simp add: kept_ext\<close>)
  have "agree ?o w n"
    unfolding agree_def
  proof (intro conjI allI impI)
    show nid: "node_id ?o n" using a by (simp add: arg_def)
    fix m assume m: "reach ?o n m \<and> allocd ?o m"
    then have u: "allocd u m" "same_node ?o u m" using A unfolding agree_def by simp_all
    then show "allocd w m" by (simp add: w_def closed_acc)
    have "2 \<le> m" using m by (simp add: allocd_def)
    then show "same_node ?o w m" using same_node_trans [OF u(2)] closed_same by (simp add: w_def)
  qed
  then have "sem w n = sem ?o n" by (intro HOL.ext) (rule sem_eq [OF tab_invD(3) [OF I]])
  then show "sem w n = sem s n" by (simp add: opened_nodes)
  have "live w n" if "2 \<le> n"
    unfolding w_def by (rule closed_live, rule kept_live [OF e(4) I]) (use a that in \<open>simp add: arg_def\<close>)
  moreover have "node_id w n"
    using a kept_keep [OF e(4), of n] by (auto simp: w_def closed_acc arg_def node_id_def allocd_def)
  ultimately show "handle w n"
    using live_nostack [of w n] e(3) by (auto simp: handle_iff w_def)
qed

lemma enlarged_table:
  assumes E: "enlarges s num u"
  shows "bdd_table (closed (bddvarnum s) num u)" "kinv (closed (bddvarnum s) num u)"
proof -
  note e = enlargesD [OF E] and S = startableD [OF enlargesD(1) [OF E]]
  have "LEVEL (raise_consts num u) n = LEVEL u n" if "allocd u n" for n
    using that by (simp add: raise_acc allocd_def)
  then show "bdd_table (closed (bddvarnum s) num u)"
    using e(5,8,9,12,19) S(4,6) by (simp add: bdd_table_def closed_acc raise_acc leveled_def)
  show "kinv (closed (bddvarnum s) num u)" by (rule closed_kinv [OF e(2,17)])
qed

lemma enlarged_caches:
  assumes E: "enlarges s num u"
  shows "caches_ok (closed (bddvarnum s) num u)"
proof -
  let ?o = "opened num s" and ?w = "closed (bddvarnum s) num u"
  note e = enlargesD [OF E] and S = startableD [OF enlargesD(1) [OF E]]
  from e(6) consider "caches u = caches s" "\<And>n. allocd ?o n \<Longrightarrow> allocd u n \<and> same_node ?o u n" | "caches_empty u"
    unfolding emptied_def by auto
  then show ?thesis
  proof cases
    case 1
    have sn: "same_node s = same_node ?o" "allocd s = allocd ?o" using same_core_cong [of ?o s] by simp_all
    have "same_node s ?w n" if "allocd s n" for n
      using 1(2) [of n] that closed_same [of n u] same_node_trans [of ?o u n ?w] unfolding sn by (simp add: allocd_def)
    moreover have "allocd ?w n" if "allocd s n" for n using 1(2) [of n] that unfolding sn by (simp add: closed_acc)
    moreover have "\<exists>p \<in> set (pairs s). raised_pair s p q" if "q \<in> set (pairs ?w)" for q
    proof -
      from that obtain p where p: "p \<in> set (pairs s)" "q = widen_pair (bddvarnum s) num u p" using e(15) by auto
      then have "p_last p < bddvarnum s" using S(11) by (simp add: pairs_ok_def pair_ok_def)
      then have "raised_pair s p q" by (simp add: raised_pair_def p(2) widen_pair_def)
      then show ?thesis using p(1) by blast
    qed
    moreover have "bdderrorcond ?w = 0 \<longrightarrow> bdderrorcond s = 0" using e(4) by (simp add: kept_def)
    ultimately have "raised s ?w"
      using S(5-7,12,13) e(8,16,19) enlarged_table [OF E] kinvD(1) tab_invD(3) [OF S(12)] by (simp add: raised_def)
    then show ?thesis using raised_caches [OF _ S(8)] 1(1) by simp
  next
    case 2
    then have "caches_empty ?w"
      by (simp add: caches_empty_def Let_def) (auto intro: bc.all_ok_reset)
    then show ?thesis by (rule caches_empty_ok)
  qed
qed

lemma enlarged_vars:
  assumes E: "enlarges s num u"
  shows "vars_ok (closed (bddvarnum s) num u)"
proof -
  let ?o = "opened num s" and ?w = "closed (bddvarnum s) num u"
  note e = enlargesD [OF E] and S = startableD [OF enlargesD(1) [OF E]]
  have lo: "lit_node ?w n l a b" if "lit_node s n l a b" for n l a b
    using that lit_node_closed [OF lit_node_kept [OF e(4)]] by (simp add: lit_node_def opened_nodes)
  have new: "bddvar2level u v = v" "bddlevel2var u v = v" "lit_node ?w (bddvarset u (v * 2)) v 0 1"
    "lit_node ?w (bddvarset u (v * 2 + 1)) v 1 0" if "bddvarnum s \<le> v" "v < num" for v
    using e(7,8) that lit_node_closed by (auto simp: tables_extend_def)
  have old: "bddvar2level u v = bddvar2level s v" "bddlevel2var u v = bddlevel2var s v"
    "bddvarset u (v * 2) = bddvarset s (v * 2)" "bddvarset u (v * 2 + 1) = bddvarset s (v * 2 + 1)"
    if "v < bddvarnum s" for v
    using e(7) that by (auto simp: tables_extend_def)
  have V: "\<And>v. 0 \<le> v \<Longrightarrow> v < bddvarnum s \<Longrightarrow> var_ok s v"
    "\<And>l. 0 \<le> l \<Longrightarrow> l < bddvarnum s \<Longrightarrow> 0 \<le> bddlevel2var s l \<and> bddlevel2var s l < bddvarnum s \<and>
       bddvar2level s (bddlevel2var s l) = l"
    using S(10) by (simp_all add: vars_ok_def)
  have "var_ok ?w v" if v: "0 \<le> v" "v < num" for v
  proof (cases "v < bddvarnum s")
    case True
    have k: "0 \<le> bddvar2level s v" "bddvar2level s v < bddvarnum s" "bddlevel2var s (bddvar2level s v) = v"
      "lit_node s (bddvarset s (v * 2)) (bddvar2level s v) 0 1"
      "lit_node s (bddvarset s (v * 2 + 1)) (bddvar2level s v) 1 0"
      using V(1) [OF v(1) True] by (simp_all add: var_ok_def Let_def)
    then show ?thesis
      using e(8,19) v lo [OF k(4)] lo [OF k(5)] by (simp add: var_ok_def old [OF True] old(2) [OF k(2)])
  next
    case False
    then show ?thesis using new [of v] v S(6) e(8) by (simp add: var_ok_def)
  qed
  moreover have "0 \<le> bddlevel2var u l \<and> bddlevel2var u l < num \<and> bddvar2level u (bddlevel2var u l) = l"
    if l: "0 \<le> l" "l < num" for l
  proof (cases "l < bddvarnum s")
    case True
    then show ?thesis using V(2) [OF l(1) True] e(19) old by auto
  next
    case False
    then show ?thesis using new [of l] l by simp
  qed
  ultimately show ?thesis using e(8) by (fastforce simp: vars_ok_def)
qed

lemma enlarged_pairs:
  assumes E: "enlarges s num u"
  shows "pairs_ok (closed (bddvarnum s) num u)"
proof -
  let ?w = "closed (bddvarnum s) num u"
  note e = enlargesD [OF E] and S = startableD [OF enlargesD(1) [OF E]]
  have id: "map p_addr (pairs ?w) = map p_addr (pairs s)" "map p_id (pairs ?w) = map p_id (pairs s)"
    using e(15) by (simp_all add: widen_pair_def comp_def)
  have "pair_ok ?w (widen_pair (bddvarnum s) num u p)" if p: "p \<in> set (pairs s)" for p
  proof -
    have q: "0 \<le> p_id p" "p_id p \<le> pairsid s" "p_last p < bddvarnum s"
      "\<And>l. 0 \<le> l \<Longrightarrow> l < bddvarnum s \<Longrightarrow> handle s (p_result p l)"
      using S(11) p by (simp_all add: pairs_ok_def pair_ok_def)
    have "handle ?w (bddvarset u (l * 2))" if "bddvarnum s \<le> l" "l < num" for l
    proof -
      have "lit_node u (bddvarset u (l * 2)) l 0 1" using e(7,8) that by (simp add: tables_extend_def)
      then show ?thesis using lit_node_handle lit_node_closed by blast
    qed
    then show ?thesis using q e(8,16,19) enlarged_held(1) [OF E] by (simp add: pair_ok_def widen_pair_def)
  qed
  then show ?thesis
    using S(11) id e(15,16) by (auto simp: pairs_ok_def simp del: map_map)
qed

lemma enlarged_session:
  assumes E: "enlarges s num u"
  shows "session (closed (bddvarnum s) num u)"
proof -
  note e = enlargesD [OF E] and S = startableD [OF enlargesD(1) [OF E]]
  have "bddnodesize s \<le> bddnodesize u" using e(4) by (simp add: kept_def)
  then have "ratio_ok (closed (bddvarnum s) num u)" using S(9) e(14) by (simp add: ratio_ok_def)
  then show ?thesis
    using enlarged_table [OF E] enlarged_caches [OF E] enlarged_vars [OF E] enlarged_pairs [OF E] S(2,3) e(8,10,11,13)
    by (simp add: session_def fr.inv_def bdd_base_def quant_table_def INT_MAX_def)
qed

section \<open>The specification of \<open>bdd_setvarnum\<close>\<close>

text \<open>The old variables keep their tables, the new ones are appended below them.\<close>

definition appended :: "bdd_state \<Rightarrow> bdd_state \<Rightarrow> bool" where
  "appended s t =
     ((\<forall>v. 0 \<le> v \<and> v < bddvarnum s \<longrightarrow> bddvar2level t v = bddvar2level s v \<and>
         bddvarset t (v * 2) = bddvarset s (v * 2) \<and> bddvarset t (v * 2 + 1) = bddvarset s (v * 2 + 1)) \<and>
      (\<forall>v. bddvarnum s \<le> v \<and> v < bddvarnum t \<longrightarrow> bddvar2level t v = v))"

definition set_to :: "bdd_state \<Rightarrow> int \<Rightarrow> int \<Rightarrow> bdd_state \<Rightarrow> bool" where
  "set_to s num r t =
     (if r = 0 then session t \<and> bddvarnum t = num \<and> appended s t \<and> carried s t
      else r = - bdderrorcond t)"

lemma enlarged_set_to:
  assumes E: "enlarges s num u"
  shows "set_to s num 0 (closed (bddvarnum s) num u)"
proof -
  note e = enlargesD [OF E]
  have "appended s (closed (bddvarnum s) num u)"
    using e(7,8,19) by (auto simp: appended_def tables_extend_def)
  moreover have "carried s (closed (bddvarnum s) num u)" using enlarged_held [OF E] by (simp add: carried_def)
  ultimately show ?thesis using enlarged_session [OF E] e(8) by (simp add: set_to_def)
qed

lemma bdd_setvarnum_spec:
  assumes S: "startable s" and num: "bddvarnum s < num" "num < MAXVAR" "0 < num"
    and order: "\<not> bdd_reorder_ready (bdd_enable_reorder s)"
  shows "runs (bdd_setvarnum num s) (set_to s num)"
proof -
  let ?o = "opened num s" and ?old = "bddvarnum s"
  note D = startableD [OF S]
  have ko: "kinv ?o" by (rule opened_kinv [OF D(1)])
  have "leveled ?o" using D(5) by (simp add: leveled_def opened_nodes)
  then have g0: "grows ?o ?o" by (intro grows_refl [OF ko]) simp_all
  have sane: "caches_sane ?o" using caches_sane(1) [OF D(8)] caches_sane_cong [of ?o s] by simp
  have pos: "0 < bddrefslots ?o" using num(3) by simp
  have vn: "0 \<le> bddvarnum ?o" using D(6) by simp
  have bnd: "bddvarnum ?o + int (nat (num - ?old)) \<le> MAXVAR" using num by simp
  have eq: "bdd_setvarnum num s =
      bnd (setvar_loop (nat (num - ?old)) ?old ?o) (\<lambda>ok u.
        if \<not> ok then ret (- bdderrorcond u) u
        else bnd (bdd_pairs_resize ?old (bddvarnum (raise_consts num u)) (raise_consts num u)) (\<lambda>_ s.
           ret 0 (bdd_enable_reorder (bdd_operator_varresize s))))"
    using num D(2,6)
    by (simp add: bdd_setvarnum_def Let_def opened_def bdd_disable_reorder_def raise_consts_def upd_node_def
        cong: if_cong)
  show ?thesis
    unfolding eq
  proof (rule runs_bnd [OF setvar_loop_spec [OF kinvD(1) [OF ko] pos vn sane g0 bnd]])
    fix ok u
    assume P: "if ok then grows ?o u \<and> bddvarnum u = bddvarnum ?o + int (nat (num - ?old)) else bdderrorcond u \<noteq> 0"
    show "runs (if \<not> ok then ret (- bdderrorcond u) u
        else bnd (bdd_pairs_resize ?old (bddvarnum (raise_consts num u)) (raise_consts num u)) (\<lambda>_ s.
           ret 0 (bdd_enable_reorder (bdd_operator_varresize s)))) (set_to s num)"
    proof (cases ok)
      case False
      then show ?thesis using P by (simp add: set_to_def)
    next
      case True
      then have u: "grows ?o u" "bddvarnum u = num" using P num(1) by simp_all
      have E: "enlarges s num u" using S u num order by (simp add: enlarges_def)
      have "bddlevel2var (raise_consts num u) n = n \<and> 0 \<le> n \<and> n < bddvarnum (raise_consts num u)"
        if "?old \<le> n" "n < num" for n
        using growsD(7) [OF u(1)] that u(2) D(6) by (auto simp: tables_extend_def)
      then have "bdd_pairs_resize ?old (bddvarnum (raise_consts num u)) (raise_consts num u) =
          ret 0 ((raise_consts num u)\<lparr>pairs := map (widen_pair ?old num (raise_consts num u)) (pairs u)\<rparr>)"
        using resize_pairs_eq [of ?old num "raise_consts num u"] num(1) u(2) by (simp add: bdd_pairs_resize_def)
      then show ?thesis using True enlarged_set_to [OF E] by (simp add: closed_def)
    qed
  qed
qed

end
