(* ===== verification/VarInit.thy ===== *)
theory VarInit
  imports VarSet Example
begin

text \<open>
  \<open>bdd_init\<close> on the static initial state: the node table is one chain of free entries above
  the constants, all caches are empty, and variables can be defined.
\<close>

section \<open>The state before \<open>bdd_init\<close>\<close>

definition unstarted :: "bdd_state \<Rightarrow> bool" where
  "unstarted s =
     (\<not> bddrunning s \<and> \<not> mtbdd s \<and> checkSameChildren s \<and> bddrefstack s = [] \<and>
      mr_sound (rand s) (nat (memlimit s)) \<and> memlimit s < 2 ^ 30 \<and>
      (\<forall>n. n_refcou (bddnodes s n) = 0 \<and> \<not> n_mark (bddnodes s n)))"

lemma unstartedD:
  assumes "unstarted s"
  shows "\<not> bddrunning s" "\<not> mtbdd s" "checkSameChildren s" "bddrefstack s = []"
    "mr_sound (rand s) (nat (memlimit s))" "memlimit s < 2 ^ 30" "n_refcou (bddnodes s n) = 0"
    "\<not> n_mark (bddnodes s n)"
  using assms by (simp_all add: unstarted_def)

text \<open>A size for which the prime search has an answer below \<open>2 ^ 31\<close>.\<close>

definition size_arg :: "int \<Rightarrow> bool" where
  "size_arg n = (2 \<le> n \<and> (\<exists>q. is_prime (nat q) \<and> n \<le> q \<and> 3 \<le> q \<and> q < 2 ^ 31))"

lemma size_argD:
  assumes "size_arg n"
  shows "\<exists>r p. prime_gte_st n s = ret r (s\<lparr>randpos := p\<rparr>) \<and> n \<le> r \<and> 3 \<le> r \<and>
     (\<forall>N. mr_sound (rand s) N \<and> nat r \<le> N \<longrightarrow> is_prime (nat r))"
  using assms prime_gte_st_spec [of _ n s] unfolding size_arg_def by meson

section \<open>The caches\<close>

definition fresh_cache :: "BddCache \<Rightarrow> bool" where
  "fresh_cache c = (\<exists>m. 0 < m \<and> c = \<lparr>table = (\<lambda>_. zero_entry), tablesize = m, current_generation = 1\<rparr>)"

lemma fresh_cache_empty: "fresh_cache c \<Longrightarrow> cache_ok P c \<and> 0 < tablesize c"
  by (auto simp: fresh_cache_def fresh_cache_ok)

definition recache :: "bdd_state \<Rightarrow> (bddCaches \<Rightarrow> bool) \<Rightarrow> bdd_state \<Rightarrow> bool" where
  "recache s P t = (\<exists>p c. t = s\<lparr>randpos := p, caches := c\<rparr> \<and> P c)"

lemma recache_refl: "P (caches s) \<Longrightarrow> recache s P s"
  unfolding recache_def by (intro exI [of _ "randpos s"] exI [of _ "caches s"]) simp

lemma init_cache_spec:
  assumes n: "size_arg n" and t: "recache s P t"
    and Q: "\<And>c f. P c \<Longrightarrow> fresh_cache f \<Longrightarrow> Q (upd (\<lambda>_. f) c)"
  shows "runs (init_cache upd n t) (\<lambda>_. recache s Q)"
proof -
  from t obtain p c where t: "t = s\<lparr>randpos := p, caches := c\<rparr>" "P c" by (auto simp: recache_def)
  from size_argD [OF n, of t] obtain r p' where r: "prime_gte_st n t = ret r (t\<lparr>randpos := p'\<rparr>)" "3 \<le> r" by blast
  let ?f = "\<lparr>table = (\<lambda>_. zero_entry), tablesize = r, current_generation = 1\<rparr>"
  have "fresh_cache ?f" using r(2) by (auto simp: fresh_cache_def)
  then have "Q (upd (\<lambda>_. ?f) c)" by (rule Q [OF t(2)])
  then have "recache s Q (s\<lparr>randpos := p', caches := upd (\<lambda>_. ?f) c\<rparr>)" unfolding recache_def by blast
  then show ?thesis by (simp add: init_cache_def BddCache_init_def alloc_def r(1) [unfolded t(1)] t(1))
qed

definition op_caches :: "bddCaches \<Rightarrow> bool" where
  "op_caches c = (fresh_cache (applycache c) \<and> fresh_cache (itecache c) \<and> fresh_cache (quantcache c) \<and>
     fresh_cache (appexcache c) \<and> fresh_cache (replacecache c) \<and> fresh_cache (misccache c))"

definition inited :: "bdd_state \<Rightarrow> bdd_state \<Rightarrow> bool" where
  "inited s t =
     (\<exists>p c g. t = s\<lparr>randpos := p, caches := c, ops := g\<rparr> \<and> op_caches c \<and> cacheratio g = 0)"

lemma inited_ops:
  assumes "inited s t" "cacheratio g = 0"
  shows "inited s (t\<lparr>ops := g\<rparr>)"
proof -
  from assms(1) obtain p c h where "t = s\<lparr>randpos := p, caches := c, ops := h\<rparr>" "op_caches c"
    by (auto simp: inited_def)
  then have "t\<lparr>ops := g\<rparr> = s\<lparr>randpos := p, caches := c, ops := g\<rparr>" "op_caches c" by simp_all
  then show ?thesis using assms(2) unfolding inited_def by blast
qed

lemma init_step:
  assumes "size_arg n" "recache s P t" "\<And>c f. P c \<Longrightarrow> fresh_cache f \<Longrightarrow> Q (upd (\<lambda>_. f) c)"
    and "\<And>u. recache s Q u \<Longrightarrow> runs (k u) R"
  shows "runs (bnd (init_cache upd n t) (\<lambda>_. k)) R"
proof (rule runs_bnd)
  show "runs (init_cache upd n t) (\<lambda>_. recache s Q)"
    using assms(3) by (intro init_cache_spec [where P = P and Q = Q, OF assms(1,2)])
qed (rule assms(4))

lemma mtbdd_operator_init_spec:
  assumes n: "size_arg n" and t: "recache s op_caches t"
  shows "runs (mtbdd_operator_init n t) (\<lambda>_. inited s)"
proof -
  have fin: "inited s (u\<lparr>ops := g\<rparr>)" if "recache s op_caches u" "cacheratio g = 0" for u g
    using that by (auto simp: recache_def inited_def)
  note step = init_step [where P = op_caches and Q = op_caches and s = s, OF n]
  show ?thesis
    unfolding mtbdd_operator_init_def
    by (rule step, rule t, simp add: op_caches_def, rule step, assumption, simp add: op_caches_def,
        rule step, assumption, simp add: op_caches_def) (simp add: fin)
qed

lemma operator_init_spec:
  assumes n: "size_arg n"
  shows "runs (bdd_operator_init n s) (\<lambda>_. inited s)"
proof -
  let ?a = "\<lambda>c. fresh_cache (applycache c)" and ?b = "\<lambda>c. fresh_cache (itecache c)"
    and ?q = "\<lambda>c. fresh_cache (quantcache c)" and ?e = "\<lambda>c. fresh_cache (appexcache c)"
    and ?r = "\<lambda>c. fresh_cache (replacecache c)"
  note step = init_step [where s = s, OF n]
  have fin: "runs (bnd (mtbdd_operator_init n t) (\<lambda>_ s. ret 0 (s\<lparr>ops := (ops s)\<lparr>quantvarsetID := 0,
      quantvarset := (\<lambda>_. 0), cacheratio := 0, supportSet := (\<lambda>_. 0), supportSize := 0\<rparr>\<rparr>))) (\<lambda>_. inited s)"
    if "recache s op_caches t" for t
    by (rule runs_bnd [OF mtbdd_operator_init_spec [OF n that]]) (simp add: inited_ops)
  show ?thesis
    unfolding bdd_operator_init_def
    by (rule step [where P = "\<lambda>_. True" and Q = ?a], rule recache_refl, simp, simp,
        rule step [where Q = "\<lambda>c. ?a c \<and> ?b c"], assumption, simp,
        rule step [where Q = "\<lambda>c. ?a c \<and> ?b c \<and> ?q c"], assumption, simp,
        rule step [where Q = "\<lambda>c. ?a c \<and> ?b c \<and> ?q c \<and> ?e c"], assumption, simp,
        rule step [where Q = "\<lambda>c. ?a c \<and> ?b c \<and> ?q c \<and> ?e c \<and> ?r c"], assumption, simp,
        rule step [where Q = op_caches], assumption, simp add: op_caches_def) (rule fin)
qed

section \<open>The node table\<close>

definition first_table :: "int \<Rightarrow> bdd_state \<Rightarrow> bdd_state" where
  "first_table sz s = s\<lparr>bddnodesize := sz, bddresized := False,
     bddnodes := (\<lambda>n. if 0 \<le> n \<and> n < sz then init_node sz n else bddnodes s n)\<rparr>"

lemma free_chain:
  assumes "1 \<le> a" "a + int k = sz" and f: "\<And>n. a \<le> n \<Longrightarrow> n < sz \<Longrightarrow> f n = (if n = sz - 1 then 0 else n + 1)"
  shows "chain f (if k = 0 then 0 else a) [a..sz - 1]"
  using assms
proof (induction k arbitrary: a)
  case 0
  then show ?case by simp
next
  case (Suc k)
  have "[a..sz - 1] = a # [a + 1..sz - 1]" using Suc.prems(2) by (intro upto_rec1) simp
  moreover have "chain f (if k = 0 then 0 else a + 1) [a + 1..sz - 1]"
    by (rule Suc.IH) (use Suc.prems in auto)
  moreover have "f a = (if k = 0 then 0 else a + 1)" using Suc.prems by auto
  ultimately show ?case using Suc.prems(1) by simp
qed

text \<open>What \<open>bdd_init\<close> leaves, up to the parts of the state that no invariant mentions.\<close>

definition started :: "bdd_state \<Rightarrow> int \<Rightarrow> bdd_state \<Rightarrow> bool" where
  "started s sz t =
     (bddnodes t = bddnodes (first_table sz s) \<and> bddnodesize t = sz \<and> bddrefstack t = bddrefstack s \<and>
      bddfreepos t = 2 \<and> bddfreenum t = sz - 2 \<and> mtvals t = mtvals s \<and> bddvarnum t = 0 \<and>
      bddrunning t \<and> mtbdd t = mtbdd s \<and> checkSameChildren t = checkSameChildren s \<and>
      memlimit t = memlimit s \<and> rand t = rand s \<and> bddmaxnodeincrease t = DEFAULTMAXNODEINC \<and>
      bddreordermethod t = BDD_REORDER_NONE \<and> bdderrorcond t = 0 \<and> pairs t = [] \<and> pairsid t = 0 \<and>
      op_caches (caches t) \<and> cacheratio (ops t) = 0)"

lemma started_acc:
  assumes "started s sz t"
  shows "LOW t n = (if 0 \<le> n \<and> n < sz then (if n = 0 then 0 else if n = 1 then 1 else -1) else LOW s n)"
    "HIGH t n = (if 0 \<le> n \<and> n < sz then (if n = 1 then 1 else 0) else HIGH s n)"
    "LEVEL t n = (if 0 \<le> n \<and> n < sz then (if n = 0 \<or> n = 1 then MAXLEVEL else 0) else LEVEL s n)"
    "nx t n = (if 0 \<le> n \<and> n < sz then (if n = sz - 1 then 0 else n + 1) else nx s n)"
    "bucket t n = (if 0 \<le> n \<and> n < sz then 0 else bucket s n)"
    "n_refcou (bddnodes t n) = (if n = 0 \<and> 0 < sz \<or> n = 1 \<and> 1 < sz then MAXREF
       else if 0 \<le> n \<and> n < sz then 0 else n_refcou (bddnodes s n))"
    "MARKED t n = (if 0 \<le> n \<and> n < sz then False else n_mark (bddnodes s n))"
  using assms
  by (simp_all add: started_def first_table_def init_node_def LOW_def HIGH_def LEVEL_def nx_def bucket_def MARKED_def)

lemma started_tab:
  assumes U: "unstarted s" and T: "started s sz t" and sz: "3 \<le> sz" "sz < 2 ^ 31"
  shows "tab_inv t" "\<not> allocd t n"
proof -
  note u = unstartedD [OF U] and a = started_acc [OF T]
  have z: "bddnodesize t = sz" "bddrefstack t = []" "bddfreepos t = 2" "bddfreenum t = sz - 2"
    using T u(4) by (simp_all add: started_def)
  show na: "\<not> allocd t n" for n using z(1) by (simp add: allocd_def a)
  then have ni: "\<not> inner t n" for n by (simp add: inner_def)
  have lo: "LOW t n = -1" if "2 \<le> n" "n < sz" for n using that by (simp add: a)
  have "bucket_ok 2 t b" if "0 \<le> b" "b < sz" for b
    unfolding bucket_ok_def using that lo by (intro exI [of _ "[]"]) (auto simp: a z)
  moreover have "free_ok 2 t"
  proof -
    have "chain (nx t) (if nat (sz - 2) = 0 then 0 else 2) [2..sz - 1]"
      by (rule free_chain) (use sz in \<open>auto simp: a\<close>)
    then have "chain (nx t) 2 [2..sz - 1]" using sz by simp
    moreover have "set [2..sz - 1] = {n. 2 \<le> n \<and> n < sz \<and> LOW t n = -1}" using lo by auto
    moreover have "sz - 2 = int (length [2..sz - 1])" using sz by simp
    ultimately show ?thesis unfolding free_ok_def z by (intro exI [of _ "[2..sz - 1]"]) simp
  qed
  ultimately have "built 2 t" by (simp add: built_def z)
  moreover have "refs_ok t" using u(7) lo by (auto simp: refs_ok_def a z MAXREF_def)
  moreover have "marks_clear t" using u(8) by (simp add: marks_clear_def a)
  ultimately show "tab_inv t"
    using sz ni na by (simp add: tab_inv_def size_ok_def consts_ok_def wf_nodes_def unique_nodes_def stack_ok_def
        slots_distinct_def z a)
qed

lemma started_startable:
  assumes U: "unstarted s" and T: "started s sz t" and sz: "3 \<le> sz" "sz \<le> memlimit s" "is_prime (nat sz)"
  shows "startable t" "\<not> bdd_reorder_ready (bdd_enable_reorder t)"
proof -
  note u = unstartedD [OF U] and a = started_acc [OF T]
  have z: "bddnodesize t = sz" "bddvarnum t = 0" "bddrunning t" "mtbdd t = mtbdd s"
    "checkSameChildren t = checkSameChildren s" "memlimit t = memlimit s" "rand t = rand s"
    "bddmaxnodeincrease t = DEFAULTMAXNODEINC" "bddreordermethod t = BDD_REORDER_NONE" "pairs t = []"
    "pairsid t = 0" "op_caches (caches t)" "cacheratio (ops t) = 0"
    using T by (simp_all add: started_def)
  have sz31: "sz < 2 ^ 31" using sz(2) u(6) by simp
  note I = started_tab [OF U T sz(1) sz31]
  show "\<not> bdd_reorder_ready (bdd_enable_reorder t)" by (simp add: bdd_reorder_ready_def bdd_enable_reorder_def z)
  have "env_ok t" using u(5,6) by (simp add: env_ok_def bdd_reorder_ready_def z DEFAULTMAXNODEINC_def)
  then have "kinv t" using I(1) sz(2,3) by (simp add: kinv_def prime_size_def z)
  moreover have "caches_ok t"
    using z(12) fresh_cache_empty by (auto simp: caches_ok_def Let_def op_caches_def)
  moreover have "LEVEL t 0 = MAXLEVEL" using sz(1) by (simp add: a)
  ultimately show "startable t"
    using u(2,3) I(2) sz(1)
    by (auto simp: startable_def leveled_def ratio_ok_def vars_ok_def pairs_ok_def z MAXLEVEL_def INT_MAX_def)
qed

section \<open>The specification of \<open>bdd_init\<close>\<close>

lemma bdd_init_spec:
  assumes U: "unstarted s" and n: "size_arg n" and cs: "size_arg cs"
  shows "runs (bdd_init n cs s) (\<lambda>r t. r = 0 \<and> startable t \<and> \<not> bdd_reorder_ready (bdd_enable_reorder t) \<and>
     bddvarnum t = 0 \<and> bdderrorcond t = 0)"
proof -
  note u = unstartedD [OF U]
  from size_argD [OF n, of s] obtain sz p where p: "prime_gte_st n s = ret sz (s\<lparr>randpos := p\<rparr>)" "3 \<le> sz"
    "\<And>N. mr_sound (rand s) N \<Longrightarrow> nat sz \<le> N \<Longrightarrow> is_prime (nat sz)" by blast
  show ?thesis
  proof (cases "sz \<le> memlimit s")
    case False
    then show ?thesis using u(1) by (simp add: bdd_init_def p(1) alloc_def)
  next
    case True
    have pr: "is_prime (nat sz)" using p(3) [OF u(5)] True by simp
    let ?s = "first_table sz (s\<lparr>randpos := p\<rparr>)"
    let ?fin = "\<lambda>u. bdd_fdd_init (bdd_reorder_init (bdd_pairs_init (u\<lparr>bddfreepos := 2, bddfreenum := bddnodesize u - 2,
      bddrunning := True, bddvarnum := 0, gbcollectnum := 0, cachesize := cs,
      usednodes_nextreorder := bddnodesize u, bddmaxnodeincrease := DEFAULTMAXNODEINC, bdderrorcond := 0,
      gbc_handler := Some 0, err_handler := DefaultHandler, resize_handler := None\<rparr>)))"
    have "bdd_init n cs s = bnd (bdd_operator_init cs ?s) (\<lambda>_ u. ret 0 (?fin u))"
      using u(1,2) True by (simp add: bdd_init_def p(1) alloc_def Let_def first_table_def cong: if_cong)
    moreover have "runs (bnd (bdd_operator_init cs ?s) (\<lambda>_ u. ret 0 (?fin u)))
      (\<lambda>r t. r = 0 \<and> startable t \<and> \<not> bdd_reorder_ready (bdd_enable_reorder t) \<and> bddvarnum t = 0 \<and> bdderrorcond t = 0)"
    proof (rule runs_bnd [OF operator_init_spec [OF cs]])
      fix r u assume "inited ?s u"
      then obtain p' c g where i: "u = ?s\<lparr>randpos := p', caches := c, ops := g\<rparr>" "op_caches c" "cacheratio g = 0"
        by (auto simp: inited_def)
      have "started s sz (?fin u)"
        using i(2,3) by (simp add: started_def i(1) bdd_fdd_init_def bdd_reorder_init_def upd_reo_def bdd_pairs_init_def
            first_table_def cong: if_cong)
      note S = started_startable [OF U this p(2) True pr]
      have "bddvarnum (?fin u) = 0" "bdderrorcond (?fin u) = 0"
        by (simp_all add: bdd_fdd_init_def bdd_reorder_init_def upd_reo_def bdd_pairs_init_def)
      then show "runs (ret 0 (?fin u)) (\<lambda>r t. r = 0 \<and> startable t \<and> \<not> bdd_reorder_ready (bdd_enable_reorder t) \<and>
          bddvarnum t = 0 \<and> bdderrorcond t = 0)"
        using S unfolding runs_ret by blast
    qed
    ultimately show ?thesis by simp
  qed
qed

end
