(* ===== verification/PropsVars.thy ===== *)
theory PropsVars
  imports VarInit
begin

text \<open>
  The properties of starting the library and defining variables: every theorem about sessions applies
  after \<open>bdd_init\<close> and \<open>bdd_setvarnum\<close>.
\<close>

text \<open>A variable is on its level, and its two literals stand for it.\<close>

lemma session_literals:
  assumes S: "session s" and v: "0 \<le> v" "v < bddvarnum s"
  shows "0 \<le> bddvar2level s v \<and> bddvar2level s v < bddvarnum s \<and> bddlevel2var s (bddvar2level s v) = v \<and>
    handle s (bddvarset s (v * 2)) \<and> handle s (bddvarset s (v * 2 + 1)) \<and>
    (bdderrorcond s = 0 \<longrightarrow>
       sem s (bddvarset s (v * 2)) = (\<lambda>e. e (bddvar2level s v)) \<and>
       sem s (bddvarset s (v * 2 + 1)) = (\<lambda>e. \<not> e (bddvar2level s v)))"
proof -
  have V: "var_ok s v" using sessionD(4) [OF S] v by (simp add: vars_ok_def)
  then show ?thesis
    using literal_sem [OF S v] lit_node_handle by (auto simp: var_ok_def Let_def stands_def)
qed

text \<open>
  C22. \<open>bdd_setvarnum\<close> on a running session adds variables and returns 0, with every handle of the client
  still protected and standing for the same function, the old variables where they were, and each new
  variable on the level of its number; or it returns the negated error code of a full table. The
  result is a session again: the node invariant, the caches (whose old entries stay valid under the
  raised constants), the pairs, which map the new variables to themselves, and the variable tables.
\<close>

theorem bdd_setvarnum_correct:
  assumes "session s" "bddvarnum s < num" "num < MAXVAR" "0 < num" "\<not> bdd_reorder_ready (bdd_enable_reorder s)"
  shows "runs (bdd_setvarnum num s) (\<lambda>r t.
    if r = 0
    then session t \<and> bddvarnum t = num \<and>
      (\<forall>n. handle s n \<longrightarrow> handle t n \<and> sem t n = sem s n) \<and>
      (\<forall>v. 0 \<le> v \<and> v < bddvarnum s \<longrightarrow> bddvar2level t v = bddvar2level s v \<and>
         bddvarset t (v * 2) = bddvarset s (v * 2) \<and> bddvarset t (v * 2 + 1) = bddvarset s (v * 2 + 1)) \<and>
      (\<forall>v. bddvarnum s \<le> v \<and> v < num \<longrightarrow> bddvar2level t v = v)
    else r = - bdderrorcond t)"
  by (rule runs_conseq [OF bdd_setvarnum_spec [OF session_startable [OF assms(1)] assms(2-5)]])
    (auto simp: set_to_def carried_def appended_def)

lemma ex_reorder: "\<not> bdd_reorder_ready (bdd_enable_reorder example)"
  by (simp add: bdd_reorder_ready_def bdd_enable_reorder_def example_sel BDD_REORDER_NONE_def)

theorem bdd_setvarnum_correct_example:
  "runs (bdd_setvarnum 3 example) (\<lambda>r t. r = 0 \<longrightarrow> session t \<and> bddvarnum t = 3 \<and> handle t 7 \<and>
     sem t 7 = sem example 7)"
proof -
  have "bddvarnum example < 3" "(3::int) < MAXVAR" by (simp_all add: example_sel MAXVAR_def)
  from bdd_setvarnum_correct [OF ex_session this _ ex_reorder]
  show ?thesis by (rule runs_conseq) (auto simp: ex_handles split: if_splits)
qed

text \<open>
  C21. Starting: from the static initial state \<open>bdd_init\<close> (with sizes for which there is a prime below
  \<open>2 ^ 31\<close>) returns 0, and the call of \<open>bdd_setvarnum\<close> after it establishes a session in which each
  variable is on the level of its number and its two entries of \<open>bddvarset\<close> are referenced nodes that
  stand for the variable and its negation; or it returns the negated error code.
\<close>

theorem bdd_init_starts:
  assumes "unstarted s" "size_arg nodesize" "size_arg cs" "0 < num" "num < MAXVAR"
  shows "runs (bnd (bdd_init nodesize cs s) (\<lambda>_. bdd_setvarnum num)) (\<lambda>r t.
    if r = 0
    then session t \<and> bddvarnum t = num \<and>
      (\<forall>v. 0 \<le> v \<and> v < num \<longrightarrow> bddvar2level t v = v \<and>
         handle t (bddvarset t (v * 2)) \<and> handle t (bddvarset t (v * 2 + 1)) \<and>
         (bdderrorcond t = 0 \<longrightarrow>
            sem t (bddvarset t (v * 2)) = (\<lambda>e. e v) \<and> sem t (bddvarset t (v * 2 + 1)) = (\<lambda>e. \<not> e v)))
    else r = - bdderrorcond t)"
proof (rule runs_bnd [OF bdd_init_spec [OF assms(1-3)]])
  fix r t
  assume t: "r = 0 \<and> startable t \<and> \<not> bdd_reorder_ready (bdd_enable_reorder t) \<and> bddvarnum t = 0 \<and>
    bdderrorcond t = 0"
  then have "runs (bdd_setvarnum num t) (set_to t num)"
    using assms(4,5) by (intro bdd_setvarnum_spec) simp_all
  then show "runs (bdd_setvarnum num t) (\<lambda>r t.
    if r = 0
    then session t \<and> bddvarnum t = num \<and>
      (\<forall>v. 0 \<le> v \<and> v < num \<longrightarrow> bddvar2level t v = v \<and>
         handle t (bddvarset t (v * 2)) \<and> handle t (bddvarset t (v * 2 + 1)) \<and>
         (bdderrorcond t = 0 \<longrightarrow>
            sem t (bddvarset t (v * 2)) = (\<lambda>e. e v) \<and> sem t (bddvarset t (v * 2 + 1)) = (\<lambda>e. \<not> e v)))
    else r = - bdderrorcond t)"
    by (rule runs_conseq) (use t session_literals in \<open>auto simp: set_to_def appended_def\<close>)
qed

lemma boot_unstarted: "unstarted boot"
  by (simp add: unstarted_def boot_def zero_node_def mr_sound_small)

lemma size_arg_small:
  assumes "2 \<le> n" "n \<le> 13"
  shows "size_arg n"
proof -
  show ?thesis using assms prime_13 by (auto simp: size_arg_def intro!: exI [of _ 13])
qed

theorem bdd_init_starts_example:
  "runs (bnd (bdd_init 7 3 boot) (\<lambda>_. bdd_setvarnum 2)) (\<lambda>r t. r = 0 \<longrightarrow> session t \<and> bddvarnum t = 2)"
proof -
  have "size_arg 7" "size_arg 3" by (simp_all add: size_arg_small)
  moreover have "(0::int) < 2" "(2::int) < MAXVAR" by (simp_all add: MAXVAR_def)
  ultimately have "runs (bnd (bdd_init 7 3 boot) (\<lambda>_. bdd_setvarnum 2)) (\<lambda>r t.
    if r = 0
    then session t \<and> bddvarnum t = 2 \<and>
      (\<forall>v. 0 \<le> v \<and> v < 2 \<longrightarrow> bddvar2level t v = v \<and>
         handle t (bddvarset t (v * 2)) \<and> handle t (bddvarset t (v * 2 + 1)) \<and>
         (bdderrorcond t = 0 \<longrightarrow>
            sem t (bddvarset t (v * 2)) = (\<lambda>e. e v) \<and> sem t (bddvarset t (v * 2 + 1)) = (\<lambda>e. \<not> e v)))
    else r = - bdderrorcond t)"
    by (rule bdd_init_starts [OF boot_unstarted])
  then show ?thesis by (rule runs_conseq) (auto split: if_splits)
qed

end
