(* ===== verification/SwapLists.thy ===== *)
theory SwapLists
  imports Sem ReorderOps
begin

text \<open>
  The node table in the reordering mode: the sub-tables of the variables, the lists of nodes filed in
  them, and what the steps of an exchange do to these lists. In this mode the field \<open>level\<close> is the variable
  of a node.
\<close>

lemma VAR_LEVEL [simp]: "VAR s n = LEVEL s n"
  by (simp add: VAR_def LEVEL_def)

definition rc :: "bdd_state \<Rightarrow> int \<Rightarrow> int" where "rc s n = n_refcou (bddnodes s n)"

definition part :: "bdd_state \<Rightarrow> int \<Rightarrow> int set" where
  "part s v = {lv_start (lvl s v)..<lv_start (lvl s v) + lv_size (lvl s v)}"

definition parts_ok :: "bdd_state \<Rightarrow> bool" where
  "parts_ok s =
     (bddnodesize s < 2 ^ 31 \<and>
      (\<forall>v. 0 \<le> v \<and> v < bddvarnum s \<longrightarrow> 0 < lv_size (lvl s v) \<and> part s v \<subseteq> {0..<bddnodesize s}) \<and>
      (\<forall>v w. 0 \<le> v \<and> v < bddvarnum s \<and> 0 \<le> w \<and> w < bddvarnum s \<and> v \<noteq> w \<longrightarrow> part s v \<inter> part s w = {}))"

definition hash_of :: "bdd_state \<Rightarrow> int \<Rightarrow> int" where
  "hash_of s n = RHASH s (LEVEL s n) (LOW s n) (HIGH s n)"

lemma part_bounds:
  assumes "parts_ok s" "0 \<le> v" "v < bddvarnum s"
  shows "0 \<le> lv_start (lvl s v)" "0 < lv_size (lvl s v)" "lv_start (lvl s v) + lv_size (lvl s v) \<le> bddnodesize s"
    "bddnodesize s < 2 ^ 31"
proof -
  show sz: "0 < lv_size (lvl s v)" "bddnodesize s < 2 ^ 31" using assms by (auto simp: parts_ok_def)
  have "part s v \<subseteq> {0..<bddnodesize s}" using assms by (auto simp: parts_ok_def)
  moreover have "lv_start (lvl s v) \<in> part s v" "lv_start (lvl s v) + lv_size (lvl s v) - 1 \<in> part s v"
    using sz by (auto simp: part_def)
  ultimately show "0 \<le> lv_start (lvl s v)" "lv_start (lvl s v) + lv_size (lvl s v) \<le> bddnodesize s" by auto
qed

lemma RHASH_part:
  assumes "parts_ok s" "0 \<le> v" "v < bddvarnum s"
  shows "RHASH s v l h \<in> part s v"
proof -
  note b = part_bounds [OF assms]
  let ?a = "lv_start (lvl s v)" and ?z = "lv_size (lvl s v)" and ?p = "PAIR l h"
  have z: "u32 ?z = ?z" "u32 ?a = ?a" using b by (simp_all add: u32_def)
  have m: "0 \<le> ?p mod ?z" "?p mod ?z < ?z" using b by simp_all
  then have "0 \<le> ?p mod ?z + ?a" "?p mod ?z + ?a < 2 ^ 32" using b power_strict_increasing [of 31 32 "2 :: int"] by linarith+
  then have "RHASH s v l h = ?p mod ?z + ?a" by (simp add: RHASH_def z) (simp add: u32_def)
  then show ?thesis using m by (simp add: part_def)
qed

lemma rhash_ret: "parts_ok s \<Longrightarrow> 0 \<le> v \<Longrightarrow> v < bddvarnum s \<Longrightarrow> rhash v l h s = ret (RHASH s v l h) s"
  using part_bounds(2) [of s v] by (simp add: rhash_def)

lemma part_unique:
  "parts_ok s \<Longrightarrow> 0 \<le> v \<Longrightarrow> v < bddvarnum s \<Longrightarrow> 0 \<le> w \<Longrightarrow> w < bddvarnum s \<Longrightarrow> b \<in> part s v \<Longrightarrow>
   b \<in> part s w \<Longrightarrow> v = w"
  unfolding parts_ok_def by blast

section \<open>What stays\<close>

text \<open>Only nodes, the free list and the numbers of nodes of the sub-tables may differ.\<close>

definition bare :: "reorder_globals \<Rightarrow> int \<Rightarrow> levelData" where
  "bare r v = (rlevels r v)\<lparr>lv_nodenum := 0\<rparr>"

definition rest :: "bdd_state \<Rightarrow> bdd_state" where
  "rest s = s\<lparr>bddnodes := (\<lambda>_. \<lparr>n_high = 0, n_low = 0, n_refcou = 0, n_level = 0, n_mark = False, n_hash = 0, n_next = 0\<rparr>),
     bddfreepos := 0, bddfreenum := 0, bddproduced := 0,
     reo := (reo s)\<lparr>rlevels := bare (reo s)\<rparr>\<rparr>"

definition stay :: "bdd_state \<Rightarrow> bdd_state \<Rightarrow> bool" where
  "stay s t = (rest s = rest t)"

lemma stay_refl [simp]: "stay s s"
  by (simp add: stay_def)

lemma stay_trans: "stay s t \<Longrightarrow> stay t u \<Longrightarrow> stay s u"
  by (simp add: stay_def)

lemma rest_upd [simp]:
  "rest (s\<lparr>bddnodes := a\<rparr>) = rest s" "rest (s\<lparr>bddfreepos := b\<rparr>) = rest s"
  "rest (s\<lparr>bddfreenum := b\<rparr>) = rest s" "rest (s\<lparr>bddproduced := b\<rparr>) = rest s"
  by (simp_all add: rest_def)

lemma rest_sel:
  "bddnodesize (rest s) = bddnodesize s" "bddvarnum (rest s) = bddvarnum s"
  "bddvar2level (rest s) = bddvar2level s" "bddlevel2var (rest s) = bddlevel2var s"
  "iactmtx (reo (rest s)) = iactmtx (reo s)" "resizedInMakenode (reo (rest s)) = resizedInMakenode (reo s)"
  "extroots (reo (rest s)) = extroots (reo s)" "lv_start (lvl (rest s) v) = lv_start (lvl s v)"
  "lv_size (lvl (rest s) v) = lv_size (lvl s v)" "pairs (rest s) = pairs s"
  "bddrefstack (rest s) = bddrefstack s" "vartree (rest s) = vartree s" "mtbdd (rest s) = mtbdd s"
  "checkSameChildren (rest s) = checkSameChildren s"
  by (simp_all add: rest_def lvl_def bare_def)

lemma stayD:
  assumes "stay s t"
  shows "bddnodesize t = bddnodesize s" "bddvarnum t = bddvarnum s" "bddvar2level t = bddvar2level s"
    "bddlevel2var t = bddlevel2var s" "part t = part s" "parts_ok t = parts_ok s" "RHASH t = RHASH s"
    "mark_fuel t = mark_fuel s" "iactmtx (reo t) = iactmtx (reo s)"
    "resizedInMakenode (reo t) = resizedInMakenode (reo s)" "lv_start (lvl t v) = lv_start (lvl s v)"
    "lv_size (lvl t v) = lv_size (lvl s v)" "extroots (reo t) = extroots (reo s)" "pairs t = pairs s"
    "bddrefstack t = bddrefstack s" "vartree t = vartree s" "mtbdd t = mtbdd s"
    "checkSameChildren t = checkSameChildren s"
proof -
  have r: "rest t = rest s" using assms by (simp add: stay_def)
  show L: "lv_start (lvl t v) = lv_start (lvl s v)" "lv_size (lvl t v) = lv_size (lvl s v)" for v
    by (metis r rest_sel(8)) (metis r rest_sel(9))
  show nv: "bddnodesize t = bddnodesize s" "bddvarnum t = bddvarnum s"
    and "bddvar2level t = bddvar2level s"
    "bddlevel2var t = bddlevel2var s" "iactmtx (reo t) = iactmtx (reo s)"
    "resizedInMakenode (reo t) = resizedInMakenode (reo s)" "extroots (reo t) = extroots (reo s)"
    "pairs t = pairs s" "bddrefstack t = bddrefstack s" "vartree t = vartree s" "mtbdd t = mtbdd s"
    "checkSameChildren t = checkSameChildren s"
    by (metis r rest_sel)+
  show "mark_fuel t = mark_fuel s" by (simp add: mark_fuel_def nv)
  show "part t = part s" by (simp add: fun_eq_iff part_def L)
  then show "parts_ok t = parts_ok s" by (simp add: parts_ok_def L nv)
  show "RHASH t = RHASH s" by (simp add: fun_eq_iff RHASH_def L)
qed

named_theorems stays

lemma stay_upd_node [stays]: "stay s (upd_node f n s)"
  by (simp add: stay_def upd_node_def)

lemma stay_link [stays]: "stay s (link_node n h s)"
  unfolding link_node_def by (rule stay_trans [OF stay_upd_node stay_upd_node])

lemma stay_set [stays]: "stay s (set_hash n x s)" "stay s (set_next n x s)"
  by (simp_all add: set_hash_def set_next_def stays)

lemma stay_lvl_nodenum [stays]: "stay s (upd_lvl v (\<lambda>l. l\<lparr>lv_nodenum := f (lv_nodenum l)\<rparr>) s)"
proof -
  have "bare (r\<lparr>rlevels := (rlevels r)(v := (rlevels r v)\<lparr>lv_nodenum := k\<rparr>)\<rparr>) = bare r" for r k
    by (simp add: fun_eq_iff bare_def)
  then show ?thesis by (simp add: stay_def rest_def upd_lvl_def upd_reo_def)
qed

lemma stay_add_nodenum [stays]: "stay s (add_nodenum v k s)"
  unfolding add_nodenum_def by (rule stay_lvl_nodenum)

lemma rest_steps [simp]:
  "rest (upd_node f n s) = rest s" "rest (link_node n h s) = rest s" "rest (add_nodenum v k s) = rest s"
  using stay_upd_node [of s f n] stay_link [of s n h] stay_add_nodenum [of s v k] by (simp_all add: stay_def)

lemma upd_lvl_sel [simp]:
  "bddnodes (upd_lvl v f s) = bddnodes s" "bddfreepos (upd_lvl v f s) = bddfreepos s"
  "bddfreenum (upd_lvl v f s) = bddfreenum s" "bddnodesize (upd_lvl v f s) = bddnodesize s"
  "bddvarnum (upd_lvl v f s) = bddvarnum s"
  by (simp_all add: upd_lvl_def upd_reo_def)

lemma add_nodenum_sel [simp]:
  "bddnodes (add_nodenum v k s) = bddnodes s" "bddfreepos (add_nodenum v k s) = bddfreepos s"
  "bddfreenum (add_nodenum v k s) = bddfreenum s" "bddnodesize (add_nodenum v k s) = bddnodesize s"
  "bddvarnum (add_nodenum v k s) = bddvarnum s" "bddproduced (add_nodenum v k s) = bddproduced s"
  by (simp_all add: add_nodenum_def upd_lvl_def upd_reo_def)

text \<open>The accessors depend on the node array only.\<close>

lemma acc_nodes:
  assumes "bddnodes t = bddnodes s"
  shows "LEVEL t = LEVEL s" "LOW t = LOW s" "HIGH t = HIGH s" "nx t = nx s" "bucket t = bucket s" "rc t = rc s"
    "MARKED t = MARKED s"
  using assms by (simp_all add: fun_eq_iff LEVEL_def LOW_def HIGH_def nx_def bucket_def rc_def MARKED_def)

lemma set_next_acc [acc]:
  "LEVEL (set_next n x s) = LEVEL s" "LOW (set_next n x s) = LOW s" "HIGH (set_next n x s) = HIGH s"
  "nx (set_next n x s) = (nx s)(n := x)" "bucket (set_next n x s) = bucket s" "rc (set_next n x s) = rc s"
  "bddfreepos (set_next n x s) = bddfreepos s" "bddfreenum (set_next n x s) = bddfreenum s"
  by (auto simp: fun_eq_iff set_next_def LEVEL_def LOW_def HIGH_def nx_def bucket_def rc_def)

lemma set_hash_acc [acc]:
  "LEVEL (set_hash n x s) = LEVEL s" "LOW (set_hash n x s) = LOW s" "HIGH (set_hash n x s) = HIGH s"
  "nx (set_hash n x s) = nx s" "bucket (set_hash n x s) = (bucket s)(n := x)" "rc (set_hash n x s) = rc s"
  "bddfreepos (set_hash n x s) = bddfreepos s" "bddfreenum (set_hash n x s) = bddfreenum s"
  by (auto simp: fun_eq_iff set_hash_def LEVEL_def LOW_def HIGH_def nx_def bucket_def rc_def)

lemma link_node_rc [acc]: "rc (link_node n h s) = rc s"
  by (simp add: fun_eq_iff rc_def)

lemma add_nodenum_acc [acc]:
  "LEVEL (add_nodenum v k s) = LEVEL s" "LOW (add_nodenum v k s) = LOW s" "HIGH (add_nodenum v k s) = HIGH s"
  "nx (add_nodenum v k s) = nx s" "bucket (add_nodenum v k s) = bucket s" "rc (add_nodenum v k s) = rc s"
  by (simp_all add: acc_nodes [of "add_nodenum v k s" s])

section \<open>Nodes filed in the sub-tables\<close>

definition filed :: "bdd_state \<Rightarrow> int set \<Rightarrow> int \<Rightarrow> bool" where
  "filed s A b =
     (\<exists>xs. chain (nx s) (bucket s b) xs \<and> distinct xs \<and> set xs = {n \<in> A. hash_of s n = b})"

definition files :: "bdd_state \<Rightarrow> int set \<Rightarrow> bool" where
  "files s A = (\<forall>v b. 0 \<le> v \<and> v < bddvarnum s \<and> b \<in> part s v \<longrightarrow> filed s A b)"

lemma filesD: "files s A \<Longrightarrow> 0 \<le> v \<Longrightarrow> v < bddvarnum s \<Longrightarrow> b \<in> part s v \<Longrightarrow> filed s A b"
  unfolding files_def by blast

lemma hash_of_cong:
  "stay s t \<Longrightarrow> LEVEL t n = LEVEL s n \<Longrightarrow> LOW t n = LOW s n \<Longrightarrow> HIGH t n = HIGH s n \<Longrightarrow> hash_of t n = hash_of s n"
  by (simp add: hash_of_def stayD)

lemma filed_cong:
  assumes F: "filed s A b" and st: "stay s t" and b: "bucket t b = bucket s b"
    and eq: "\<And>n. n \<in> A \<Longrightarrow> LEVEL t n = LEVEL s n \<and> LOW t n = LOW s n \<and> HIGH t n = HIGH s n \<and> nx t n = nx s n"
  shows "filed t A b"
proof -
  obtain xs where xs: "chain (nx s) (bucket s b) xs" "distinct xs" "set xs = {n \<in> A. hash_of s n = b}"
    using F unfolding filed_def by blast
  have "chain (nx t) (bucket t b) xs = chain (nx s) (bucket s b) xs"
    unfolding b by (rule chain_cong) (use xs(3) eq in auto)
  moreover have "{n \<in> A. hash_of t n = b} = {n \<in> A. hash_of s n = b}"
    using eq hash_of_cong [OF st] by auto
  ultimately show ?thesis using xs unfolding filed_def by auto
qed

lemma files_cong:
  assumes F: "files s A" and st: "stay s t" and b: "\<And>b. bucket t b = bucket s b"
    and eq: "\<And>n. n \<in> A \<Longrightarrow> LEVEL t n = LEVEL s n \<and> LOW t n = LOW s n \<and> HIGH t n = HIGH s n \<and> nx t n = nx s n"
  shows "files t A"
  unfolding files_def
proof (intro allI impI)
  fix v b assume v: "0 \<le> v \<and> v < bddvarnum t \<and> b \<in> part t v"
  then have "filed s A b" using filesD [OF F, of v b] by (simp add: stayD [OF st])
  then show "filed t A b" by (rule filed_cong [OF _ st]) (use \<open>bucket t _ = _\<close> eq in auto)
qed

lemma filed_link:
  assumes F: "filed s A b" and n: "n \<notin> A" "n \<noteq> 0"
  shows "filed (link_node n (hash_of s n) s) (insert n A) b"
proof -
  let ?t = "link_node n (hash_of s n) s"
  obtain xs where xs: "chain (nx s) (bucket s b) xs" "distinct xs" "set xs = {m \<in> A. hash_of s m = b}"
    using F unfolding filed_def by blast
  have notin: "n \<notin> set xs" using xs(3) n by auto
  have h: "hash_of ?t m = hash_of s m" for m by (rule hash_of_cong) (simp_all add: stays acc)
  show ?thesis
  proof (cases "hash_of s n = b")
    case True
    have "bucket ?t b = n" "nx ?t = (nx s)(n := bucket s b)" using True by (simp_all add: acc)
    then have "chain (nx ?t) (bucket ?t b) (n # xs)" using xs(1) n notin by (simp add: chain_upd_notin)
    moreover have "set (n # xs) = {m \<in> insert n A. hash_of ?t m = b}" using xs(3) True h by auto
    moreover have "distinct (n # xs)" using xs(2) notin by simp
    ultimately show ?thesis unfolding filed_def by blast
  next
    case False
    have "bucket ?t b = bucket s b" using False by (simp add: acc)
    then have "chain (nx ?t) (bucket ?t b) xs" using xs(1) notin by (simp add: acc(5) chain_upd_notin)
    moreover have "set xs = {m \<in> insert n A. hash_of ?t m = b}" using xs(3) False by (auto simp: h)
    ultimately show ?thesis using xs(2) unfolding filed_def by blast
  qed
qed

lemma files_link:
  assumes "files s A" "n \<notin> A" "n \<noteq> 0"
  shows "files (link_node n (hash_of s n) s) (insert n A)"
  using assms filed_link [of s A _ n] by (simp add: files_def stayD [OF stay_link])

text \<open>Taking the whole list out of a bucket.\<close>

lemma files_take:
  assumes F: "files s A" and P: "parts_ok s" and v: "0 \<le> v" "v < bddvarnum s" "b \<in> part s v"
  shows "files (set_hash b 0 s) {n \<in> A. hash_of s n \<noteq> b}"
    and "\<exists>xs. chain (nx s) (bucket s b) xs \<and> distinct xs \<and> set xs = {n \<in> A. hash_of s n = b}"
proof -
  show "\<exists>xs. chain (nx s) (bucket s b) xs \<and> distinct xs \<and> set xs = {n \<in> A. hash_of s n = b}"
    using filesD [OF F v] unfolding filed_def .
  let ?t = "set_hash b 0 s" and ?A = "{n \<in> A. hash_of s n \<noteq> b}"
  have st: "stay s ?t" by (rule stays)
  have h: "hash_of ?t m = hash_of s m" for m by (rule hash_of_cong [OF st]) (simp_all add: acc)
  show "files ?t ?A"
    unfolding files_def
  proof (intro allI impI)
    fix w c assume w: "0 \<le> w \<and> w < bddvarnum ?t \<and> c \<in> part ?t w"
    then have F': "filed s A c" using filesD [OF F, of w c] by (simp add: stayD [OF st])
    show "filed ?t ?A c"
    proof (cases "c = b")
      case True
      then show ?thesis unfolding filed_def by (intro exI [of _ "[]"]) (auto simp: acc h)
    next
      case False
      obtain xs where xs: "chain (nx s) (bucket s c) xs" "distinct xs" "set xs = {n \<in> A. hash_of s n = c}"
        using F' unfolding filed_def by blast
      then show ?thesis using False unfolding filed_def by (intro exI [of _ xs]) (auto simp: acc h)
    qed
  qed
qed

text \<open>The lists are short enough for the fuel.\<close>

lemma filed_length:
  assumes "distinct xs" "set xs \<subseteq> {n. allocd s n}"
  shows "length xs < mark_fuel s"
  by (rule table_list_length [OF assms(1)]) (use assms(2) in \<open>auto simp: allocd_def\<close>)

section \<open>The first step\<close>

text \<open>
  The first step of an exchange, \<open>reorder_downSimple\<close>: the nodes of the upper variable with a
  child at the lower one are taken out of the sub-table and strung on a list of their own; nothing else
  changes.
\<close>

definition graph :: "bdd_state \<Rightarrow> bdd_state \<Rightarrow> bool" where
  "graph s t =
     (stay s t \<and> LEVEL t = LEVEL s \<and> LOW t = LOW s \<and> HIGH t = HIGH s \<and> rc t = rc s \<and>
      bddfreepos t = bddfreepos s \<and> bddfreenum t = bddfreenum s)"

lemma graph_refl [simp]: "graph s s"
  by (simp add: graph_def)

lemma graph_trans: "graph s t \<Longrightarrow> graph t u \<Longrightarrow> graph s u"
  by (auto simp: graph_def intro: stay_trans)

lemma graphD:
  assumes "graph s t"
  shows "stay s t" "LEVEL t = LEVEL s" "LOW t = LOW s" "HIGH t = HIGH s" "rc t = rc s"
    "bddfreepos t = bddfreepos s" "bddfreenum t = bddfreenum s" "hash_of t = hash_of s" "allocd t = allocd s"
    "mark_fuel t = mark_fuel s"
  using assms stayD [of s t] by (auto simp: graph_def hash_of_def fun_eq_iff allocd_def)

lemma graph_steps:
  "graph s (add_nodenum v k s)" "graph s (link_node n h s)" "graph s (set_next n x s)" "graph s (set_hash n x s)"
  "graph s (upd_lvl v (\<lambda>l. l\<lparr>lv_nodenum := k\<rparr>) s)"
  using stay_lvl_nodenum [of s v "\<lambda>_. k"] by (simp_all add: graph_def stays acc acc_nodes [OF upd_lvl_sel(1)])

definition meets :: "bdd_state \<Rightarrow> int \<Rightarrow> int \<Rightarrow> bool" where
  "meets s y n = (LEVEL s (LOW s n) = y \<or> LEVEL s (HIGH s n) = y)"

lemma meets_graph: "graph s t \<Longrightarrow> meets t y n = meets s y n"
  by (simp add: meets_def graphD)

lemma files_graph:
  "files s A \<Longrightarrow> graph s t \<Longrightarrow> (\<And>b. bucket t b = bucket s b) \<Longrightarrow> (\<And>n. n \<in> A \<Longrightarrow> nx t n = nx s n) \<Longrightarrow> files t A"
  by (rule files_cong) (simp_all add: graphD)

lemma files_nodenum: "files (add_nodenum v k s) A = files s A"
  by (rule iffI; erule files_cong) (simp_all add: acc stays stay_def stay_add_nodenum [unfolded stay_def, symmetric])

lemma down_chain_spec:
  assumes "chain (nx s) r rs" "distinct rs" "chain (nx s) todo ts" "distinct ts" "set rs \<inter> set ts = {}"
    "files s A" "set rs \<inter> A = {}" "set ts \<inter> A = {}" "\<forall>n \<in> set rs. hash_of s n = b" "length rs < k"
  shows "\<exists>todo' t ts'. down_chain k r todo b x y s = ret todo' t \<and> graph s t \<and> chain (nx t) todo' ts' \<and>
    distinct ts' \<and> set ts' = set ts \<union> {n \<in> set rs. meets s y n} \<and>
    files t (A \<union> {n \<in> set rs. \<not> meets s y n}) \<and> (\<forall>n. n \<notin> set rs \<longrightarrow> nx t n = nx s n)"
  using assms
proof (induction rs arbitrary: r todo ts A s k)
  case Nil
  then obtain k' where k: "k = Suc k'" by (cases k) auto
  show ?case
    unfolding k by (intro exI [of _ todo] exI [of _ s] exI [of _ ts]) (use Nil.prems in simp)
next
  case (Cons a rs)
  from Cons.prems(1) have r: "r = a" "a \<noteq> 0" and c: "chain (nx s) (nx s a) rs" by auto
  obtain k' where k: "k = Suc k'" "length rs < k'" using Cons.prems(10) by (cases k) auto
  have a: "a \<notin> set rs" "a \<notin> set ts" "a \<notin> A" using Cons.prems by auto
  show ?case
  proof (cases "meets s y a")
    case False
    let ?u = "add_nodenum x 1 (link_node a b s)"
    have g: "graph s ?u" by (rule graph_trans [OF graph_steps(2) graph_steps(1)])
    have nx: "nx ?u = (nx s)(a := bucket s b)" by (simp add: acc)
    have ha: "hash_of s a = b" using Cons.prems(9) by simp
    have F: "files ?u (insert a A)"
      using files_link [OF Cons.prems(6) a(3) r(2)] by (simp add: ha files_nodenum)
    have "\<exists>todo' t ts'. down_chain k' (nx s a) todo b x y ?u = ret todo' t \<and> graph ?u t \<and>
        chain (nx t) todo' ts' \<and> distinct ts' \<and> set ts' = set ts \<union> {n \<in> set rs. meets ?u y n} \<and>
        files t (insert a A \<union> {n \<in> set rs. \<not> meets ?u y n}) \<and> (\<forall>n. n \<notin> set rs \<longrightarrow> nx t n = nx ?u n)"
    proof (rule Cons.IH)
      show "chain (nx ?u) (nx s a) rs" "chain (nx ?u) todo ts"
        unfolding nx using c Cons.prems(3) a by (simp_all add: chain_upd_notin)
    qed (use Cons.prems a k F in \<open>auto simp: graphD [OF g]\<close>)
    then obtain todo' t ts' where *: "down_chain k' (nx s a) todo b x y ?u = ret todo' t" "graph ?u t"
      "chain (nx t) todo' ts'" "distinct ts'" "set ts' = set ts \<union> {n \<in> set rs. meets ?u y n}"
      "files t (insert a A \<union> {n \<in> set rs. \<not> meets ?u y n})" "\<forall>n. n \<notin> set rs \<longrightarrow> nx t n = nx ?u n" by blast
    have "down_chain k r todo b x y s = ret todo' t"
      using *(1) False by (simp add: k r meets_def nx_def)
    moreover have "insert a A \<union> {n \<in> set rs. \<not> meets ?u y n} = A \<union> {n \<in> set (a # rs). \<not> meets s y n}"
      using False by (auto simp: meets_graph [OF g])
    moreover have "set ts \<union> {n \<in> set rs. meets ?u y n} = set ts \<union> {n \<in> set (a # rs). meets s y n}"
      using False by (auto simp: meets_graph [OF g])
    ultimately show ?thesis
      using * graph_trans [OF g *(2)] nx by (intro exI [of _ todo'] exI [of _ t] exI [of _ ts']) simp
  next
    case True
    let ?u = "set_next a todo s"
    have g: "graph s ?u" by (rule graph_steps)
    have nx: "nx ?u = (nx s)(a := todo)" by (simp add: acc)
    have F: "files ?u A" by (rule files_graph [OF Cons.prems(6) g]) (use a in \<open>auto simp: acc\<close>)
    have "\<exists>todo' t ts'. down_chain k' (nx s a) a b x y ?u = ret todo' t \<and> graph ?u t \<and>
        chain (nx t) todo' ts' \<and> distinct ts' \<and> set ts' = set (a # ts) \<union> {n \<in> set rs. meets ?u y n} \<and>
        files t (A \<union> {n \<in> set rs. \<not> meets ?u y n}) \<and> (\<forall>n. n \<notin> set rs \<longrightarrow> nx t n = nx ?u n)"
    proof (rule Cons.IH)
      show "chain (nx ?u) (nx s a) rs" "chain (nx ?u) a (a # ts)"
        unfolding nx using c Cons.prems(3) a r by (simp_all add: chain_upd_notin)
    qed (use Cons.prems a k F in \<open>auto simp: graphD [OF g]\<close>)
    then obtain todo' t ts' where *: "down_chain k' (nx s a) a b x y ?u = ret todo' t" "graph ?u t"
      "chain (nx t) todo' ts'" "distinct ts'" "set ts' = set (a # ts) \<union> {n \<in> set rs. meets ?u y n}"
      "files t (A \<union> {n \<in> set rs. \<not> meets ?u y n})" "\<forall>n. n \<notin> set rs \<longrightarrow> nx t n = nx ?u n" by blast
    have "down_chain k r todo b x y s = ret todo' t"
      using *(1) True by (auto simp add: k r meets_def nx_def)
    moreover have "A \<union> {n \<in> set rs. \<not> meets ?u y n} = A \<union> {n \<in> set (a # rs). \<not> meets s y n}"
      using True by (auto simp: meets_graph [OF g])
    moreover have "set (a # ts) \<union> {n \<in> set rs. meets ?u y n} = set ts \<union> {n \<in> set (a # rs). meets s y n}"
      using True by (auto simp: meets_graph [OF g])
    ultimately show ?thesis
      using * graph_trans [OF g *(2)] nx by (intro exI [of _ todo'] exI [of _ t] exI [of _ ts']) simp
  qed
qed

text \<open>All buckets of the upper variable.\<close>

lemma down_buckets_spec:
  assumes "files s A" "A \<subseteq> {n. allocd s n}" "parts_ok s" "0 \<le> x" "x < bddvarnum s"
    "lv_start (lvl s x) \<le> b" "b + int k = lv_start (lvl s x) + lv_size (lvl s x)"
    "chain (nx s) todo ts" "distinct ts" "set ts \<inter> A = {}"
  shows "\<exists>todo' t ts'. down_buckets k b todo x y s = ret todo' t \<and> graph s t \<and> chain (nx t) todo' ts' \<and>
    distinct ts' \<and> set ts' = set ts \<union> {n \<in> A. b \<le> hash_of s n \<and> hash_of s n < b + int k \<and> meets s y n} \<and>
    files t {n \<in> A. \<not> (b \<le> hash_of s n \<and> hash_of s n < b + int k \<and> meets s y n)} \<and>
    (\<forall>n. n \<notin> A \<longrightarrow> nx t n = nx s n)"
  using assms
proof (induction k arbitrary: b todo ts A s)
  case 0
  then show ?case by (intro exI [of _ todo] exI [of _ s] exI [of _ ts]) auto
next
  case (Suc k)
  let ?u = "set_hash b 0 s" and ?B = "{n \<in> A. hash_of s n \<noteq> b}"
  have bp: "b \<in> part s x" using Suc.prems(6,7) by (simp add: part_def)
  note T = files_take [OF Suc.prems(1,3,4,5) bp]
  obtain rs where rs: "chain (nx s) (bucket s b) rs" "distinct rs" "set rs = {n \<in> A. hash_of s n = b}"
    using T(2) by blast
  have g: "graph s ?u" by (rule graph_steps)
  have len: "length rs < mark_fuel s" by (rule filed_length [OF rs(2)]) (use rs(3) Suc.prems(2) in auto)
  have "\<exists>todo' t ts'. down_chain (mark_fuel s) (bucket s b) todo b x y ?u = ret todo' t \<and> graph ?u t \<and>
      chain (nx t) todo' ts' \<and> distinct ts' \<and> set ts' = set ts \<union> {n \<in> set rs. meets ?u y n} \<and>
      files t (?B \<union> {n \<in> set rs. \<not> meets ?u y n}) \<and> (\<forall>n. n \<notin> set rs \<longrightarrow> nx t n = nx ?u n)"
    by (rule down_chain_spec)
      (use rs len Suc.prems T(1) in \<open>auto simp: acc graphD [OF g]\<close>)
  then obtain p u qs where p: "down_chain (mark_fuel s) (bucket s b) todo b x y ?u = ret p u" "graph ?u u"
    "chain (nx u) p qs" "distinct qs" "set qs = set ts \<union> {n \<in> set rs. meets ?u y n}"
    "files u (?B \<union> {n \<in> set rs. \<not> meets ?u y n})" "\<forall>n. n \<notin> set rs \<longrightarrow> nx u n = nx ?u n" by blast
  have gu: "graph s u" by (rule graph_trans [OF g p(2)])
  let ?C = "{n \<in> A. \<not> (hash_of s n = b \<and> meets s y n)}"
  have C: "?B \<union> {n \<in> set rs. \<not> meets ?u y n} = ?C" by (auto simp: rs(3) meets_graph [OF g])
  have qs: "set qs = set ts \<union> {n \<in> A. hash_of s n = b \<and> meets s y n}"
    by (auto simp: p(5) rs(3) meets_graph [OF g])
  note st = stayD [OF graphD(1) [OF gu]]
  have "\<exists>todo' t ts'. down_buckets k (b + 1) p x y u = ret todo' t \<and> graph u t \<and> chain (nx t) todo' ts' \<and>
    distinct ts' \<and> set ts' = set qs \<union> {n \<in> ?C. b + 1 \<le> hash_of u n \<and> hash_of u n < b + 1 + int k \<and> meets u y n} \<and>
    files t {n \<in> ?C. \<not> (b + 1 \<le> hash_of u n \<and> hash_of u n < b + 1 + int k \<and> meets u y n)} \<and>
    (\<forall>n. n \<notin> ?C \<longrightarrow> nx t n = nx u n)"
  proof (rule Suc.IH)
    show "files u ?C" using p(6) unfolding C .
    show "?C \<subseteq> {n. allocd u n}" using Suc.prems(2) by (auto simp: graphD(9) [OF gu])
    show "set qs \<inter> ?C = {}" using qs Suc.prems(10) by auto
  qed (use p(3,4) Suc.prems(3-7) in \<open>simp_all add: st\<close>)
  then obtain q t ts' where q: "down_buckets k (b + 1) p x y u = ret q t" "graph u t" "chain (nx t) q ts'"
    "distinct ts'" "set ts' = set qs \<union> {n \<in> ?C. b + 1 \<le> hash_of u n \<and> hash_of u n < b + 1 + int k \<and> meets u y n}"
    "files t {n \<in> ?C. \<not> (b + 1 \<le> hash_of u n \<and> hash_of u n < b + 1 + int k \<and> meets u y n)}"
    "\<forall>n. n \<notin> ?C \<longrightarrow> nx t n = nx u n" by blast
  have "down_buckets (Suc k) b todo x y s = ret q t"
    using p(1) q(1) by (simp add: bucket_def)
  moreover have "set ts' = set ts \<union> {n \<in> A. b \<le> hash_of s n \<and> hash_of s n < b + int (Suc k) \<and> meets s y n}"
    unfolding q(5) qs graphD(8) [OF gu] meets_graph [OF gu] by auto
  moreover have "{n \<in> ?C. \<not> (b + 1 \<le> hash_of u n \<and> hash_of u n < b + 1 + int k \<and> meets u y n)} =
      {n \<in> A. \<not> (b \<le> hash_of s n \<and> hash_of s n < b + int (Suc k) \<and> meets s y n)}"
    unfolding graphD(8) [OF gu] meets_graph [OF gu] by auto
  moreover have "nx t n = nx s n" if "n \<notin> A" for n
    using that q(7) p(7) rs(3) by (simp add: acc)
  ultimately show ?case
    using q graph_trans [OF gu q(2)] by (intro exI [of _ q] exI [of _ t] exI [of _ ts']) simp
qed

lemma reorder_downSimple_spec:
  assumes F: "files s {n. allocd s n}" and P: "parts_ok s" and x: "0 \<le> x" "x < bddvarnum s"
    and lev: "\<And>n. allocd s n \<Longrightarrow> 0 \<le> LEVEL s n \<and> LEVEL s n < bddvarnum s"
  shows "\<exists>todo t ts. reorder_downSimple x s = ret todo t \<and> graph s t \<and> chain (nx t) todo ts \<and> distinct ts \<and>
    set ts = {n. allocd s n \<and> LEVEL s n = x \<and> meets s (next_var s x) n} \<and> files t {n. allocd s n \<and> n \<notin> set ts} \<and>
    (\<forall>n. \<not> allocd s n \<longrightarrow> nx t n = nx s n)"
proof -
  let ?u = "upd_lvl x (\<lambda>l. l\<lparr>lv_nodenum := 0\<rparr>) s" and ?A = "{n. allocd s n}" and ?y = "next_var s x"
  let ?k = "nat (lv_size (lvl s x))" and ?b = "lv_start (lvl s x)"
  have g: "graph s ?u" by (rule graph_steps)
  note st = stayD [OF graphD(1) [OF g]] and pb = part_bounds [OF P x]
  have same: "bucket ?u = bucket s" "nx ?u = nx s" by (simp_all add: acc_nodes [OF upd_lvl_sel(1)])
  have Fu: "files ?u ?A" by (rule files_graph [OF F g]) (simp_all add: same)
  have "\<exists>todo t ts. down_buckets ?k ?b 0 x ?y ?u = ret todo t \<and> graph ?u t \<and> chain (nx t) todo ts \<and> distinct ts \<and>
    set ts = set [] \<union> {n \<in> ?A. ?b \<le> hash_of ?u n \<and> hash_of ?u n < ?b + int ?k \<and> meets ?u ?y n} \<and>
    files t {n \<in> ?A. \<not> (?b \<le> hash_of ?u n \<and> hash_of ?u n < ?b + int ?k \<and> meets ?u ?y n)} \<and>
    (\<forall>n. n \<notin> ?A \<longrightarrow> nx t n = nx ?u n)"
    by (rule down_buckets_spec) (use Fu P x pb in \<open>simp_all add: st graphD [OF g]\<close>)
  then obtain todo t ts where d: "down_buckets ?k ?b 0 x ?y ?u = ret todo t" "graph ?u t" "chain (nx t) todo ts"
    "distinct ts" "set ts = {n \<in> ?A. ?b \<le> hash_of ?u n \<and> hash_of ?u n < ?b + int ?k \<and> meets ?u ?y n}"
    "files t {n \<in> ?A. \<not> (?b \<le> hash_of ?u n \<and> hash_of ?u n < ?b + int ?k \<and> meets ?u ?y n)}"
    "\<forall>n. n \<notin> ?A \<longrightarrow> nx t n = nx ?u n" by auto
  have mine: "(?b \<le> hash_of s n \<and> hash_of s n < ?b + int ?k) = (LEVEL s n = x)" if "allocd s n" for n
  proof -
    have "hash_of s n \<in> part s (LEVEL s n)" unfolding hash_of_def by (rule RHASH_part [OF P]) (use lev that in auto)
    moreover have "(?b \<le> hash_of s n \<and> hash_of s n < ?b + int ?k) = (hash_of s n \<in> part s x)"
      using pb by (auto simp: part_def)
    ultimately show ?thesis using part_unique [OF P _ _ x] lev [OF that] by blast
  qed
  have ts: "set ts = {n. allocd s n \<and> LEVEL s n = x \<and> meets s ?y n}"
    unfolding d(5) graphD(8) [OF g] meets_graph [OF g] using mine by blast
  moreover have "{n \<in> ?A. \<not> (?b \<le> hash_of ?u n \<and> hash_of ?u n < ?b + int ?k \<and> meets ?u ?y n)} =
      {n. allocd s n \<and> n \<notin> set ts}"
    unfolding ts graphD(8) [OF g] meets_graph [OF g] using mine by blast
  ultimately show ?thesis
    using d graph_trans [OF g d(2)] same
    by (intro exI [of _ todo] exI [of _ t] exI [of _ ts]) (simp add: reorder_downSimple_def next_var_def st)
qed

end
