(* ===== verification/SwapMake.thy ===== *)
theory SwapMake
  imports SwapLists
begin

text \<open>
  Reference counts in the reordering mode: a count is the number of edges to the node from allocated nodes
  plus the references held elsewhere (\<open>e\<close>), or it is stuck at \<open>MAXREF\<close>.
\<close>

definition alloc_set :: "bdd_state \<Rightarrow> int set" where "alloc_set s = {n. allocd s n}"

lemma finite_alloc [simp]: "finite (alloc_set s)"
  by (rule finite_subset [of _ "{2..<bddnodesize s}"]) (auto simp: alloc_set_def allocd_def)

lemma in_alloc [simp]: "n \<in> alloc_set s \<longleftrightarrow> allocd s n"
  by (simp add: alloc_set_def)

lemma alloc_mono: "alloc_set s \<subseteq> alloc_set t \<Longrightarrow> allocd s n \<Longrightarrow> allocd t n"
  by (metis in_alloc subsetD)

definition edges :: "bdd_state \<Rightarrow> int \<Rightarrow> int \<Rightarrow> int" where
  "edges s n m = of_bool (LOW s m = n) + of_bool (HIGH s m = n)"

definition parents :: "bdd_state \<Rightarrow> int \<Rightarrow> int" where
  "parents s n = (\<Sum>m \<in> alloc_set s. edges s n m)"

lemma edges_nonneg [simp]: "0 \<le> edges s n m"
  by (simp add: edges_def)

lemma parents_nonneg: "0 \<le> parents s n"
  unfolding parents_def by (rule sum_nonneg) simp

definition ref_counted :: "bdd_state \<Rightarrow> (int \<Rightarrow> int) \<Rightarrow> bool" where
  "ref_counted s e =
     ((\<forall>n. 0 \<le> rc s n \<and> rc s n \<le> MAXREF) \<and> (\<forall>n. 0 \<le> e n) \<and>
      (\<forall>n. 2 \<le> n \<and> \<not> allocd s n \<longrightarrow> e n = 0) \<and>
      (\<forall>n. allocd s n \<longrightarrow> rc s n = MAXREF \<or> rc s n = parents s n + e n))"

lemma countedD:
  assumes "ref_counted s e"
  shows "0 \<le> rc s n" "rc s n \<le> MAXREF" "0 \<le> e n" "2 \<le> n \<Longrightarrow> \<not> allocd s n \<Longrightarrow> e n = 0"
    "allocd s n \<Longrightarrow> rc s n = MAXREF \<or> rc s n = parents s n + e n"
  using assms unfolding ref_counted_def by blast+

lemma counted_cong:
  assumes "ref_counted s e" "LOW t = LOW s" "HIGH t = HIGH s" "rc t = rc s" "bddnodesize t = bddnodesize s"
  shows "ref_counted t e"
proof -
  have "allocd t = allocd s" by (simp add: fun_eq_iff allocd_def assms)
  moreover have "alloc_set t = alloc_set s" by (simp add: alloc_set_def allocd_def assms)
  then have "parents t = parents s" by (simp add: fun_eq_iff parents_def edges_def assms)
  ultimately show ?thesis using assms by (simp add: ref_counted_def)
qed

lemma counted_graph: "ref_counted s e \<Longrightarrow> graph s t \<Longrightarrow> ref_counted t e"
  by (erule counted_cong) (simp_all add: graphD stayD [OF graphD(1)])

section \<open>Counting up and down\<close>

lemma INCREF_same [acc]:
  "LEVEL (INCREF n s) = LEVEL s" "LOW (INCREF n s) = LOW s" "HIGH (INCREF n s) = HIGH s" "nx (INCREF n s) = nx s"
  "bucket (INCREF n s) = bucket s" "bddfreepos (INCREF n s) = bddfreepos s" "bddfreenum (INCREF n s) = bddfreenum s"
  "bddnodesize (INCREF n s) = bddnodesize s"
  by (auto simp: fun_eq_iff INCREF_def LEVEL_def LOW_def HIGH_def nx_def bucket_def)

lemma DECREF_same [acc]:
  "LEVEL (DECREF n s) = LEVEL s" "LOW (DECREF n s) = LOW s" "HIGH (DECREF n s) = HIGH s" "nx (DECREF n s) = nx s"
  "bucket (DECREF n s) = bucket s" "bddfreepos (DECREF n s) = bddfreepos s" "bddfreenum (DECREF n s) = bddfreenum s"
  "bddnodesize (DECREF n s) = bddnodesize s"
  by (auto simp: fun_eq_iff DECREF_def LEVEL_def LOW_def HIGH_def nx_def bucket_def)

lemma INCREF_rc: "rc (INCREF n s) m = (if m = n \<and> rc s n < MAXREF then rc s n + 1 else rc s m)"
  by (simp add: INCREF_def rc_def)

lemma DECREF_rc: "rc (DECREF n s) m = (if m = n \<and> rc s n \<noteq> MAXREF \<and> 0 < rc s n then rc s n - 1 else rc s m)"
  by (simp add: DECREF_def rc_def)

lemma stay_refs [stays]: "stay s (INCREF n s)" "stay s (DECREF n s)"
  by (simp_all add: INCREF_def DECREF_def stay_upd_node)

lemma counted_INCREF:
  assumes C: "ref_counted s e" and n: "n < 2 \<or> allocd s n"
  shows "ref_counted (INCREF n s) (e(n := e n + 1))"
proof -
  let ?t = "INCREF n s"
  have al: "allocd ?t = allocd s" "alloc_set ?t = alloc_set s" by (auto simp: fun_eq_iff alloc_set_def allocd_def acc)
  have pa: "parents ?t m = parents s m" for m by (simp add: parents_def al edges_def acc)
  note D = countedD [OF C]
  show ?thesis
    unfolding ref_counted_def al pa
  proof (intro conjI allI impI)
    fix m assume m: "allocd s m"
    show "rc ?t m = MAXREF \<or> rc ?t m = parents s m + (e(n := e n + 1)) m"
      using D(5) [OF m] D(2) [of n] by (auto simp: INCREF_rc)
  qed (use D n in \<open>auto simp: INCREF_rc add_nonneg_nonneg\<close>)
qed

section \<open>Changing one node\<close>

lemma edges_eq: "LOW t m = LOW s m \<and> HIGH t m = HIGH s m \<Longrightarrow> edges t n m = edges s n m"
  by (simp add: edges_def)

lemma sum_edges_eq:
  assumes "r \<notin> A" "\<And>m. m \<noteq> r \<Longrightarrow> LOW t m = LOW s m \<and> HIGH t m = HIGH s m"
  shows "(\<Sum>m \<in> A. edges t n m) = (\<Sum>m \<in> A. edges s n m)"
  by (rule sum.cong [OF refl], rule edges_eq, rule assms(2)) (use assms(1) in auto)

lemma parents_insert:
  assumes al: "alloc_set t = insert r (alloc_set s)" and r: "\<not> allocd s r"
    and eq: "\<And>m. m \<noteq> r \<Longrightarrow> LOW t m = LOW s m \<and> HIGH t m = HIGH s m"
  shows "parents t n = parents s n + edges t n r"
proof -
  have "parents t n = edges t n r + (\<Sum>m \<in> alloc_set s. edges t n m)"
    unfolding parents_def al using r by (subst sum.insert) auto
  also have "(\<Sum>m \<in> alloc_set s. edges t n m) = parents s n"
    unfolding parents_def by (rule sum_edges_eq [OF _ eq]) (use r in simp)
  finally show ?thesis by simp
qed

lemma parents_change:
  assumes al: "alloc_set t = alloc_set s" and r: "allocd s r"
    and eq: "\<And>m. m \<noteq> r \<Longrightarrow> LOW t m = LOW s m \<and> HIGH t m = HIGH s m"
  shows "parents t n = parents s n - edges s n r + edges t n r"
proof -
  have *: "parents u n = edges u n r + (\<Sum>m \<in> alloc_set s - {r}. edges u n m)" if "alloc_set u = alloc_set s" for u
    unfolding parents_def that using r by (subst sum.remove [of _ r]) auto
  have "(\<Sum>m \<in> alloc_set s - {r}. edges t n m) = (\<Sum>m \<in> alloc_set s - {r}. edges s n m)"
    by (rule sum_edges_eq [where r = r]) (auto simp: eq)
  then show ?thesis using * [of s] * [OF al] by simp
qed

lemma parents_delete:
  assumes al: "alloc_set t = alloc_set s - {r}" and r: "allocd s r"
    and eq: "\<And>m. m \<noteq> r \<Longrightarrow> LOW t m = LOW s m \<and> HIGH t m = HIGH s m"
  shows "parents t n = parents s n - edges s n r"
proof -
  have "parents s n = edges s n r + (\<Sum>m \<in> alloc_set s - {r}. edges s n m)"
    unfolding parents_def using r by (subst sum.remove [of _ r]) auto
  moreover have "parents t n = (\<Sum>m \<in> alloc_set s - {r}. edges s n m)"
    unfolding parents_def al by (rule sum_edges_eq [where r = r]) (auto simp: eq)
  ultimately show ?thesis by simp
qed

lemma parents_edge: "allocd s m \<Longrightarrow> edges s n m \<le> parents s n"
  unfolding parents_def by (rule member_le_sum) simp_all

text \<open>A node nothing points to.\<close>

lemma parents_zero:
  "(\<And>m. allocd s m \<Longrightarrow> LOW s m \<noteq> n \<and> HIGH s m \<noteq> n) \<Longrightarrow> parents s n = 0"
  unfolding parents_def by (rule sum.neutral) (auto simp: edges_def)

lemma parents_zeroD: "parents s n = 0 \<Longrightarrow> allocd s m \<Longrightarrow> LOW s m \<noteq> n \<and> HIGH s m \<noteq> n"
  using parents_edge [of s m n] by (auto simp: edges_def of_bool_def split: if_splits)

section \<open>Making nodes\<close>

text \<open>
  \<open>reorder_makenode\<close>: it returns the child itself when both are equal, the node found in the sub-table, or a
  new node, and in each case the result has one more reference.
\<close>

section \<open>Reference counts of a new and of a changed node\<close>

definition more :: "(int \<Rightarrow> int) \<Rightarrow> int \<Rightarrow> int \<Rightarrow> int" where "more e n = e(n := e n + 1)"

lemma more_app: "more e a n = e n + of_bool (n = a)"
  by (simp add: more_def)

lemma more_ge: "e n \<le> more e a n"
  by (simp add: more_app)

lemma counted_add:
  assumes C: "ref_counted s (more (more e lo) hi)" and e: "\<And>n. 0 \<le> e n"
    and r: "\<not> allocd s r" "2 \<le> r" "r \<noteq> lo" "r \<noteq> hi" "parents s r = 0"
    and al: "alloc_set t = insert r (alloc_set s)"
    and eq: "LOW t = (LOW s)(r := lo)" "HIGH t = (HIGH s)(r := hi)" "rc t = (rc s)(r := 1)"
  shows "ref_counted t (more e r)"
proof -
  note D = countedD [OF C]
  have er: "e r = 0" using D(4) [of r] r by (simp add: more_app)
  have pa: "parents t n = parents s n + of_bool (lo = n) + of_bool (hi = n)" for n
    using parents_insert [OF al r(1), of n] by (simp add: eq edges_def)
  have al': "allocd t n = (n = r \<or> allocd s n)" for n
    using al by (metis in_alloc insert_iff)
  show ?thesis
    unfolding ref_counted_def
  proof (intro conjI allI impI)
    fix n assume "2 \<le> n \<and> \<not> allocd t n"
    then show "more e r n = 0" using D(4) [of n] e [of n] by (simp add: al' more_app of_bool_def split: if_splits)
  next
    fix n assume "allocd t n"
    then consider "n = r" | "n \<noteq> r" "allocd s n" by (auto simp: al')
    then show "rc t n = MAXREF \<or> rc t n = parents t n + more e r n"
    proof cases
      case 1
      then show ?thesis using r er by (simp add: pa eq more_app)
    next
      case 2
      then show ?thesis using D(5) [of n] by (auto simp: pa eq more_app of_bool_def)
    qed
  qed (use D(1,2) e in \<open>auto simp: eq more_app MAXREF_def\<close>)
qed

lemma le_diff: "x \<le> y \<Longrightarrow> x - 1 \<le> (y :: int)"
  by simp

lemma counted_change:
  assumes C: "ref_counted s (more (more e a) b)" and e: "\<And>n. 0 \<le> e n"
    and r: "allocd s r" "LOW s r \<noteq> HIGH s r" and ab: "a < 2 \<or> allocd s a" "b < 2 \<or> allocd s b"
    and al: "alloc_set t = alloc_set s"
    and eq: "LOW t = (LOW s)(r := a)" "HIGH t = (HIGH s)(r := b)"
      "rc t = rc (DECREF (HIGH s r) (DECREF (LOW s r) s))"
  shows "ref_counted t e"
proof -
  note D = countedD [OF C]
  have pa: "parents t n = parents s n - edges s n r + (of_bool (a = n) + of_bool (b = n))" for n
    using parents_change [OF al r(1), of n] by (simp add: eq edges_def)
  have al': "allocd t n = allocd s n" for n using al by (metis in_alloc)
  have rct: "rc t n = (if (n = LOW s r \<or> n = HIGH s r) \<and> rc s n \<noteq> MAXREF \<and> 0 < rc s n then rc s n - 1 else rc s n)"
    for n using r(2) by (auto simp: eq DECREF_rc)
  show ?thesis
    unfolding ref_counted_def
  proof (intro conjI allI impI)
    fix n assume "2 \<le> n \<and> \<not> allocd t n"
    then show "e n = 0" using D(4) [of n] e [of n] by (simp add: al' more_app of_bool_def split: if_splits)
  next
    fix n assume n: "allocd t n"
    have ed: "edges s n r = of_bool (n = LOW s r \<or> n = HIGH s r)" using r(2) by (auto simp: edges_def)
    have "edges s n r \<le> parents s n" by (rule parents_edge [OF r(1)])
    then show "rc t n = MAXREF \<or> rc t n = parents t n + e n"
      using D(5) [of n] n e [of n] parents_nonneg [of s n] unfolding rct pa ed by (auto simp: al' more_app of_bool_def split: if_splits)
  qed (use D(1,2) e in \<open>auto simp: rct le_diff\<close>)
qed

lemma counted_drop:
  assumes C: "ref_counted s e" and r: "allocd s r" "LOW s r \<noteq> HIGH s r" "rc s r = 0"
    and al: "alloc_set t = alloc_set s - {r}"
    and eq: "\<And>m. m \<noteq> r \<Longrightarrow> LOW t m = LOW s m \<and> HIGH t m = HIGH s m"
      "rc t = rc (DECREF (HIGH s r) (DECREF (LOW s r) s))"
  shows "ref_counted t e" "parents s r = 0" "e r = 0"
proof -
  note D = countedD [OF C]
  have "rc s r = parents s r + e r" using D(5) [OF r(1)] r(3) by (simp add: MAXREF_def)
  then show z: "parents s r = 0" "e r = 0" using r(3) D(3) [of r] parents_nonneg [of s r] by simp_all
  have pa: "parents t n = parents s n - edges s n r" for n
    by (rule parents_delete [OF al r(1)]) (rule eq)
  have al': "allocd t n = (allocd s n \<and> n \<noteq> r)" for n using al by (metis Diff_iff in_alloc singletonD singletonI)
  have rct: "rc t n = (if (n = LOW s r \<or> n = HIGH s r) \<and> rc s n \<noteq> MAXREF \<and> 0 < rc s n then rc s n - 1 else rc s n)"
    for n using r(2) by (auto simp: eq(2) DECREF_rc)
  show "ref_counted t e"
    unfolding ref_counted_def
  proof (intro conjI allI impI)
    fix n assume "2 \<le> n \<and> \<not> allocd t n"
    then show "e n = 0" using D(4) [of n] z by (auto simp: al')
  next
    fix n assume n: "allocd t n"
    have ed: "edges s n r = of_bool (n = LOW s r \<or> n = HIGH s r)" using r(2) by (auto simp: edges_def)
    have "edges s n r \<le> parents s n" by (rule parents_edge [OF r(1)])
    then show "rc t n = MAXREF \<or> rc t n = parents t n + e n"
      using D(3,5) [of n] n parents_nonneg [of s n] unfolding rct pa ed by (auto simp: al' of_bool_def split: if_splits)
  qed (use D(1-3) in \<open>auto simp: rct le_diff\<close>)
qed

section \<open>Node creation\<close>

definition fetched :: "int \<Rightarrow> bdd_state \<Rightarrow> bdd_state" where
  "fetched v s = (add_nodenum v 1 (s\<lparr>bddfreepos := n_next (bddnodes s (bddfreepos s))\<rparr>))
     \<lparr>bddproduced := bddproduced s + 1, bddfreenum := bddfreenum s - 1\<rparr>"

definition raw :: "int \<Rightarrow> int \<Rightarrow> BDD \<Rightarrow> BDD \<Rightarrow> bdd_state \<Rightarrow> bdd_state" where
  "raw h v lo hi s = upd_node (\<lambda>d. d\<lparr>n_refcou := 1\<rparr>) (bddfreepos s) (link_node (bddfreepos s) h
     (upd_node (\<lambda>d. d\<lparr>n_level := v, n_low := lo, n_high := hi\<rparr>) (bddfreepos s) (fetched v s)))"

definition created :: "int \<Rightarrow> int \<Rightarrow> BDD \<Rightarrow> BDD \<Rightarrow> bdd_state \<Rightarrow> bdd_state" where
  "created h v lo hi s = INCREF hi (INCREF lo (raw h v lo hi s))"

lemma reorder_build_ret: "reorder_build h v lo hi s = ret (bddfreepos s) (created h v lo hi s)"
  by (simp add: created_def raw_def fetched_def reorder_build_def Let_def)

lemma raw_acc:
  "LEVEL (raw h v lo hi s) = (LEVEL s)(bddfreepos s := v)"
  "LOW (raw h v lo hi s) = (LOW s)(bddfreepos s := lo)"
  "HIGH (raw h v lo hi s) = (HIGH s)(bddfreepos s := hi)"
  "nx (raw h v lo hi s) = (nx s)(bddfreepos s := bucket s h)"
  "bucket (raw h v lo hi s) = (bucket s)(h := bddfreepos s)"
  "rc (raw h v lo hi s) = (rc s)(bddfreepos s := 1)"
  "bddfreepos (raw h v lo hi s) = nx s (bddfreepos s)"
  "bddfreenum (raw h v lo hi s) = bddfreenum s - 1"
  "bddnodesize (raw h v lo hi s) = bddnodesize s"
  by (auto simp: raw_def fetched_def fun_eq_iff link_node_def upd_node_def LEVEL_def LOW_def HIGH_def nx_def
      bucket_def rc_def)

lemma created_acc:
  "LEVEL (created h v lo hi s) = (LEVEL s)(bddfreepos s := v)"
  "LOW (created h v lo hi s) = (LOW s)(bddfreepos s := lo)"
  "HIGH (created h v lo hi s) = (HIGH s)(bddfreepos s := hi)"
  "nx (created h v lo hi s) = (nx s)(bddfreepos s := bucket s h)"
  "bucket (created h v lo hi s) = (bucket s)(h := bddfreepos s)"
  "bddfreepos (created h v lo hi s) = nx s (bddfreepos s)"
  "bddfreenum (created h v lo hi s) = bddfreenum s - 1"
  "bddnodesize (created h v lo hi s) = bddnodesize s"
  by (simp_all add: created_def acc raw_acc)

lemma created_rc:
  assumes "bddfreepos s \<noteq> lo" "bddfreepos s \<noteq> hi"
  shows "rc (created h v lo hi s) = (rc (INCREF hi (INCREF lo s)))(bddfreepos s := 1)"
  using assms by (auto simp: fun_eq_iff created_def INCREF_rc raw_acc)

lemma stay_fetched: "stay s (fetched v s)"
proof -
  have "stay s (add_nodenum v 1 (s\<lparr>bddfreepos := n_next (bddnodes s (bddfreepos s))\<rparr>))"
    by (rule stay_trans [OF _ stay_add_nodenum]) (simp add: stay_def)
  then show ?thesis by (simp add: fetched_def stay_def)
qed

lemma stay_raw: "stay s (raw h v lo hi s)"
  unfolding raw_def
  by (rule stay_trans [OF stay_trans [OF stay_trans [OF stay_fetched stay_upd_node] stay_link] stay_upd_node])

lemma created_stay: "stay s (created h v lo hi s)"
  unfolding created_def by (rule stay_trans [OF stay_trans [OF stay_raw stay_refs(1)] stay_refs(1)])

text \<open>The result of \<open>reorder_makenode\<close>; \<open>A\<close> are the nodes filed before, \<open>A'\<close> those filed after.\<close>

definition mkd ::
    "bdd_state \<Rightarrow> int set \<Rightarrow> (int \<Rightarrow> int) \<Rightarrow> int \<Rightarrow> int \<Rightarrow> int \<Rightarrow> int \<Rightarrow> bdd_state \<Rightarrow> int set \<Rightarrow> bool" where
  "mkd s A e v lo hi r t A' =
     (stay s t \<and> files t A' \<and> free_ok 2 t \<and> bddfreenum s \<le> bddfreenum t + 1 \<and> ref_counted t (more e r) \<and>
      (\<forall>n. n = r \<and> r \<notin> A \<and> lo \<noteq> hi \<or> LEVEL t n = LEVEL s n \<and> LOW t n = LOW s n \<and> HIGH t n = HIGH s n \<and> nx t n = nx s n) \<and>
      (if lo = hi then r = lo \<and> A' = A
       else r \<in> A' \<and> LEVEL t r = v \<and> LOW t r = lo \<and> HIGH t r = hi \<and>
            (A' = A \<or> A' = insert r A \<and> \<not> allocd s r \<and> (\<forall>n \<in> A. \<not> matches s v lo hi n))) \<and>
      alloc_set t = alloc_set s \<union> A')"

lemma find_child_chain:
  "chain (nx s) a xs \<Longrightarrow> length xs < k \<Longrightarrow>
   \<exists>r. find_child k a lo hi s = ret r s \<and>
       ((r = 0 \<and> (\<forall>x\<in>set xs. \<not> (LOW s x = lo \<and> HIGH s x = hi))) \<or>
        (r \<in> set xs \<and> r \<noteq> 0 \<and> LOW s r = lo \<and> HIGH s r = hi))"
proof (induction xs arbitrary: a k)
  case Nil
  then show ?case by (cases k) auto
next
  case (Cons x xs)
  then obtain k' where k: "k = Suc k'" by (cases k) auto
  show ?case
  proof (cases "LOW s x = lo \<and> HIGH s x = hi")
    case True
    then show ?thesis using Cons.prems k by auto
  next
    case False
    then have "find_child k a lo hi s = find_child k' (nx s a) lo hi s"
      using Cons.prems k by (auto simp: nx_def)
    then show ?thesis using Cons.IH [of "nx s a" k'] Cons.prems k False by auto
  qed
qed

lemma files_INCREF: "files s A \<Longrightarrow> files (INCREF n s) A"
  by (erule files_cong) (simp_all add: stays acc)

lemma free_ok_cong:
  assumes "free_ok 2 s" "\<And>n. LOW t n = -1 \<longleftrightarrow> LOW s n = -1" "\<And>n. LOW s n = -1 \<Longrightarrow> nx t n = nx s n" "bddfreepos t = bddfreepos s"
    "bddfreenum t = bddfreenum s" "bddnodesize t = bddnodesize s"
  shows "free_ok 2 t"
proof -
  obtain ys where ys: "chain (nx s) (bddfreepos s) ys" "distinct ys"
    "set ys = {m. 2 \<le> m \<and> m < bddnodesize s \<and> LOW s m = -1}" "bddfreenum s = int (length ys)"
    using assms(1) unfolding free_ok_def by auto
  have "chain (nx t) (bddfreepos s) ys = chain (nx s) (bddfreepos s) ys"
    by (rule chain_cong) (use ys(3) assms(3) in auto)
  then show ?thesis using ys assms unfolding free_ok_def by auto
qed

lemma free_ok_INCREF: "free_ok 2 s \<Longrightarrow> free_ok 2 (INCREF n s)"
  by (erule free_ok_cong) (simp_all add: acc)

lemma alloc_INCREF [simp]: "alloc_set (INCREF n s) = alloc_set s" "allocd (INCREF n s) = allocd s"
  by (auto simp: fun_eq_iff alloc_set_def allocd_def acc)

lemma parents_INCREF [simp]: "parents (INCREF n s) = parents s"
  by (simp add: fun_eq_iff parents_def edges_def acc)

text \<open>A new node is filed, and the free list is one shorter.\<close>

lemma files_created:
  assumes F: "files s A" and r: "bddfreepos s \<notin> A" "bddfreepos s \<noteq> 0"
  shows "files (created (RHASH s v lo hi) v lo hi s) (insert (bddfreepos s) A)"
proof -
  let ?r = "bddfreepos s" and ?h = "RHASH s v lo hi"
  let ?u = "upd_node (\<lambda>d. d\<lparr>n_level := v, n_low := lo, n_high := hi\<rparr>) ?r (fetched v s)"
  have u: "LEVEL ?u = (LEVEL s)(?r := v)" "LOW ?u = (LOW s)(?r := lo)" "HIGH ?u = (HIGH s)(?r := hi)"
    "nx ?u = nx s" "bucket ?u = bucket s"
    by (auto simp: fetched_def fun_eq_iff LEVEL_def LOW_def HIGH_def nx_def bucket_def)
  have st: "stay s ?u" by (rule stay_trans [OF stay_fetched stay_upd_node])
  have Fu: "files ?u A" by (rule files_cong [OF F st]) (use r in \<open>auto simp: u\<close>)
  have h: "hash_of ?u ?r = ?h" by (simp add: hash_of_def u stayD [OF st])
  have "files (link_node ?r ?h ?u) (insert ?r A)" using files_link [OF Fu r] by (simp add: h)
  then have "files (raw ?h v lo hi s) (insert ?r A)"
    unfolding raw_def
    by (rule files_cong [OF _ stay_upd_node]) (auto simp: LEVEL_def LOW_def HIGH_def nx_def bucket_def)
  then show ?thesis unfolding created_def by (intro files_INCREF)
qed

lemma free_ok_created:
  assumes F: "free_ok 2 s" and r: "bddfreepos s \<noteq> 0" and lo: "lo \<noteq> -1"
  shows "free_ok 2 (created h v lo hi s)"
proof -
  let ?r = "bddfreepos s"
  obtain ys where ys: "chain (nx s) ?r ys" "distinct ys" "set ys = {m. 2 \<le> m \<and> m < bddnodesize s \<and> LOW s m = -1}"
    "bddfreenum s = int (length ys)" using F unfolding free_ok_def by auto
  then obtain zs where zs: "ys = ?r # zs" "chain (nx s) (nx s ?r) zs" using r by (auto simp: chain_nonzero)
  have "chain (nx (created h v lo hi s)) (nx s ?r) zs"
    using zs ys(2) by (simp add: created_acc chain_upd_notin)
  moreover have "set zs = {m. 2 \<le> m \<and> m < bddnodesize s \<and> ((LOW s)(?r := lo)) m = -1}"
  proof -
    have "set zs = set ys - {?r}" using zs(1) ys(2) by auto
    then show ?thesis using lo by (auto simp: ys(3))
  qed
  ultimately show ?thesis
    using ys(2,4) zs(1) unfolding free_ok_def by (intro exI [of _ zs]) (simp add: created_acc)
qed

lemma free_pos:
  assumes F: "free_ok 2 s" and k: "1 \<le> bddfreenum s"
  shows "bddfreepos s \<noteq> 0" "2 \<le> bddfreepos s" "bddfreepos s < bddnodesize s" "LOW s (bddfreepos s) = -1"
    "\<not> allocd s (bddfreepos s)"
proof -
  obtain ys where ys: "chain (nx s) (bddfreepos s) ys" "distinct ys"
    "set ys = {m. 2 \<le> m \<and> m < bddnodesize s \<and> LOW s m = -1}" "bddfreenum s = int (length ys)"
    using F unfolding free_ok_def by auto
  then obtain zs where "ys = bddfreepos s # zs" "bddfreepos s \<noteq> 0" using k by (cases ys) auto
  then show "bddfreepos s \<noteq> 0" "2 \<le> bddfreepos s" "bddfreepos s < bddnodesize s" "LOW s (bddfreepos s) = -1"
    "\<not> allocd s (bddfreepos s)" using ys(3) by (auto simp: allocd_def)
qed

definition closed_nodes :: "bdd_state \<Rightarrow> bool" where
  "closed_nodes s = (\<forall>n. allocd s n \<longrightarrow> node_id s (LOW s n) \<and> node_id s (HIGH s n))"

lemma created_mkd:
  assumes P: "parts_ok s" and F: "files s A" "A \<subseteq> alloc_set s" and fr: "free_ok 2 s" "1 \<le> bddfreenum s"
    and C: "ref_counted s e" and cl: "closed_nodes s" and lohi: "node_id s lo" "node_id s hi" "lo \<noteq> hi"
    and new: "\<forall>n \<in> A. \<not> matches s v lo hi n"
  shows "mkd s A e v lo hi (bddfreepos s) (created (RHASH s v lo hi) v lo hi s) (insert (bddfreepos s) A)"
proof -
  let ?r = "bddfreepos s" and ?t = "created (RHASH s v lo hi) v lo hi s"
  note r = free_pos [OF fr]
  have rA: "?r \<notin> A" using F(2) r(5) by auto
  have nid: "\<not> node_id s ?r" using r by (simp add: node_id_def)
  then have ne: "?r \<noteq> lo" "?r \<noteq> hi" using lohi by auto
  have ge: "0 \<le> lo" "0 \<le> hi" using lohi by (auto simp: node_id_def allocd_def)
  have al: "alloc_set ?t = insert ?r (alloc_set s)"
    using ge r by (auto simp: alloc_set_def allocd_def created_acc)
  have C1: "ref_counted (INCREF lo s) (more e lo)"
    unfolding more_def by (rule counted_INCREF [OF C]) (use lohi in \<open>auto simp: node_id_def\<close>)
  have C2: "ref_counted (INCREF hi (INCREF lo s)) (more (more e lo) hi)"
    unfolding more_def [of _ hi] by (rule counted_INCREF [OF C1]) (use lohi in \<open>auto simp: node_id_def\<close>)
  have "parents s ?r = 0" by (rule parents_zero) (use cl nid in \<open>auto simp: closed_nodes_def\<close>)
  then have "ref_counted ?t (more e ?r)"
    using r ne al countedD(3) [OF C]
    by (intro counted_add [OF C2]) (simp_all add: created_acc created_rc acc)
  moreover have "files ?t (insert ?r A)" by (rule files_created [OF F(1) rA r(1)])
  moreover have "free_ok 2 ?t" by (rule free_ok_created [OF fr(1) r(1)]) (use ge in simp)
  ultimately show ?thesis
    unfolding mkd_def using created_stay [of s] lohi(3) rA r new al F(2) by (auto simp: created_acc)
qed

lemma reorder_makenode_spec:
  assumes P: "parts_ok s" and v: "0 \<le> v" "v < bddvarnum s" and F: "files s A" "A \<subseteq> alloc_set s"
    and lev: "\<And>n. n \<in> A \<Longrightarrow> 0 \<le> LEVEL s n \<and> LEVEL s n < bddvarnum s"
    and fr: "free_ok 2 s" "1 \<le> bddfreenum s" and C: "ref_counted s e" and cl: "closed_nodes s"
    and lohi: "node_id s lo" "node_id s hi"
  shows "\<exists>r t A'. reorder_makenode v lo hi s = ret r t \<and> mkd s A e v lo hi r t A'"
proof (cases "lo = hi")
  case True
  have "ref_counted (INCREF lo s) (more e lo)"
    unfolding more_def by (rule counted_INCREF [OF C]) (use lohi in \<open>auto simp: node_id_def\<close>)
  then have "mkd s A e v lo hi lo (INCREF lo s) A"
    using True F fr by (auto simp: mkd_def stays acc files_INCREF free_ok_INCREF)
  then show ?thesis using True by (auto simp: reorder_makenode_def)
next
  case False
  let ?h = "RHASH s v lo hi"
  have hp: "?h \<in> part s v" by (rule RHASH_part [OF P v])
  obtain xs where xs: "chain (nx s) (bucket s ?h) xs" "distinct xs" "set xs = {n \<in> A. hash_of s n = ?h}"
    using filesD [OF F(1) v hp] unfolding filed_def by blast
  have mine: "n \<in> set xs \<and> LOW s n = lo \<and> HIGH s n = hi \<longleftrightarrow> n \<in> A \<and> matches s v lo hi n" for n
  proof -
    have "LEVEL s n = v" if "n \<in> A" "hash_of s n = ?h"
    proof -
      have "hash_of s n \<in> part s (LEVEL s n)" unfolding hash_of_def by (rule RHASH_part [OF P]) (use lev that in auto)
      then show ?thesis using part_unique [OF P _ _ v, of "LEVEL s n" ?h] lev [OF that(1)] that(2) hp by auto
    qed
    then show ?thesis by (auto simp: xs(3) matches_def hash_of_def)
  qed
  have "length xs < mark_fuel s" by (rule filed_length [OF xs(2)]) (use xs(3) F(2) in auto)
  from find_child_chain [OF xs(1) this, of lo hi] obtain r where
    r: "find_child (mark_fuel s) (bucket s ?h) lo hi s = ret r s"
      "(r = 0 \<and> (\<forall>x\<in>set xs. \<not> (LOW s x = lo \<and> HIGH s x = hi))) \<or>
       (r \<in> set xs \<and> r \<noteq> 0 \<and> LOW s r = lo \<and> HIGH s r = hi)" by blast
  have run: "reorder_makenode v lo hi s =
      (if r \<noteq> 0 then ret r (INCREF r s)
       else if bddfreepos s = 0 then
          if bdderrorcond s \<noteq> 0 then ret 0 s
          else bnd (bdd_noderesize False s) (\<lambda>_ s.
            let s = upd_reo (\<lambda>r. r\<lparr>resizedInMakenode := True\<rparr>) s in
            if bddfreepos s = 0
            then bnd (bdd_error BDD_NODENUM s) (\<lambda>_ s. ret 0 (s\<lparr>bdderrorcond := abs BDD_NODENUM\<rparr>))
            else reorder_build ?h v lo hi s)
        else reorder_build ?h v lo hi s)"
    using False r(1) by (simp add: reorder_makenode_def rhash_ret [OF P v] bucket_def)
  show ?thesis
  proof (cases "r = 0")
    case True
    then have "\<forall>n \<in> A. \<not> matches s v lo hi n" using r(2) mine by blast
    from created_mkd [OF P F fr C cl lohi False this]
    show ?thesis using run True free_pos(1) [OF fr] by (auto simp: reorder_build_ret)
  next
    case False
    then have m: "r \<in> A" "matches s v lo hi r" using r(2) mine by blast+
    have "ref_counted (INCREF r s) (more e r)"
      unfolding more_def by (rule counted_INCREF [OF C]) (use m(1) F(2) in auto)
    then have "mkd s A e v lo hi r (INCREF r s) A"
      using m \<open>lo \<noteq> hi\<close> F fr by (auto simp: mkd_def stays acc files_INCREF free_ok_INCREF matches_def)
    then show ?thesis using run False by auto
  qed
qed

end
