(* ===== verification/SwapGc.thy ===== *)
theory SwapGc
  imports SwapMake
begin

text \<open>
  The third step of an exchange, \<open>reorder_localGbc\<close>: nodes of the lower variable without references are
  released. The reference counts show that nothing points to them.
\<close>

definition levels_ok :: "bdd_state \<Rightarrow> bool" where
  "levels_ok s = (\<forall>n. allocd s n \<longrightarrow> 0 \<le> LEVEL s n \<and> LEVEL s n < bddvarnum s)"

definition sound :: "bdd_state \<Rightarrow> (int \<Rightarrow> int) \<Rightarrow> bool" where
  "sound s e =
     (levels_ok s \<and> closed_nodes s \<and> (\<forall>n. allocd s n \<longrightarrow> LOW s n \<noteq> HIGH s n) \<and> free_ok 2 s \<and> ref_counted s e)"

text \<open>The nodes \<open>D\<close> are gone; nothing else has changed.\<close>

definition gone :: "bdd_state \<Rightarrow> (int \<Rightarrow> int) \<Rightarrow> bdd_state \<Rightarrow> int set \<Rightarrow> bool" where
  "gone s e t D =
     (stay s t \<and> alloc_set t = alloc_set s - D \<and> LEVEL t = LEVEL s \<and> HIGH t = HIGH s \<and>
      (\<forall>n. n \<notin> D \<longrightarrow> LOW t n = LOW s n) \<and> (\<forall>n \<in> D. e n = 0))"

lemma gone_refl: "gone s e s {}"
  by (simp add: gone_def)

lemma gone_trans: "gone s e t D \<Longrightarrow> gone t e u D' \<Longrightarrow> gone s e u (D \<union> D')"
  unfolding gone_def using stay_trans [of s t u] by auto

lemma gone_graph: "graph s t \<Longrightarrow> gone t e u D \<Longrightarrow> gone s e u D"
  unfolding gone_def using stay_trans [of s t u] by (auto simp: graphD alloc_set_def)

lemma sound_graph:
  assumes S: "sound s e" and g: "graph s t" and nx: "\<And>n. \<not> allocd s n \<Longrightarrow> nx t n = nx s n"
  shows "sound t e"
proof -
  note G = graphD [OF g]
  have "free_ok 2 t"
    by (rule free_ok_cong [of s]) (use S nx G stayD(1) [OF G(1)] in \<open>auto simp: sound_def allocd_def\<close>)
  moreover have "ref_counted t e" by (rule counted_graph [OF _ g]) (use S in \<open>simp add: sound_def\<close>)
  ultimately show ?thesis
    using S by (simp add: sound_def levels_ok_def closed_nodes_def node_id_def G stayD(2) [OF G(1)])
qed

lemma local_free_acc:
  "LEVEL (local_free r v s) = LEVEL s" "LOW (local_free r v s) = (LOW s)(r := -1)" "HIGH (local_free r v s) = HIGH s"
  "nx (local_free r v s) = (nx s)(r := bddfreepos s)" "bucket (local_free r v s) = bucket s"
  "rc (local_free r v s) = rc (DECREF (HIGH s r) (DECREF (LOW s r) s))"
  "bddfreepos (local_free r v s) = r" "bddfreenum (local_free r v s) = bddfreenum s + 1"
  "bddnodesize (local_free r v s) = bddnodesize s" "stay s (local_free r v s)"
proof -
  define u where "u = DECREF (HIGH s r) (DECREF (LOW s r) s)"
  have u: "LEVEL u = LEVEL s" "LOW u = LOW s" "HIGH u = HIGH s" "nx u = nx s" "bucket u = bucket s"
    "bddfreepos u = bddfreepos s" "bddfreenum u = bddfreenum s" "bddnodesize u = bddnodesize s"
    by (simp_all add: u_def acc)
  have su: "stay s u" unfolding u_def by (rule stay_trans [OF stay_refs(2) stay_refs(2)])
  define w where "w = upd_node (\<lambda>d. d\<lparr>n_low := -1, n_next := bddfreepos u\<rparr>) r u"
  have t: "local_free r v s =
      (add_nodenum v (-1) (w\<lparr>bddfreepos := r\<rparr>))\<lparr>bddfreenum := bddfreenum s + 1\<rparr>"
    by (simp add: local_free_def Let_def u_def [symmetric] acc w_def [symmetric]) (simp add: w_def u)
  have w: "LEVEL w = LEVEL s" "LOW w = (LOW s)(r := -1)" "HIGH w = HIGH s" "nx w = (nx s)(r := bddfreepos s)"
    "bucket w = bucket s" "rc w = rc u" "bddnodesize w = bddnodesize s"
    using u by (auto simp: w_def fun_eq_iff LEVEL_def LOW_def HIGH_def nx_def bucket_def rc_def)
  have n: "bddnodes (local_free r v s) = bddnodes w" by (simp add: t)
  show "LEVEL (local_free r v s) = LEVEL s" "LOW (local_free r v s) = (LOW s)(r := -1)"
    "HIGH (local_free r v s) = HIGH s" "nx (local_free r v s) = (nx s)(r := bddfreepos s)"
    "bucket (local_free r v s) = bucket s" "rc (local_free r v s) = rc u"
    using acc_nodes [OF n] by (simp_all add: w)
  show "bddfreepos (local_free r v s) = r" "bddfreenum (local_free r v s) = bddfreenum s + 1"
    "bddnodesize (local_free r v s) = bddnodesize s" by (simp_all add: t w)
  have "stay s w" unfolding w_def by (rule stay_trans [OF su stay_upd_node])
  then show "stay s (local_free r v s)" unfolding t by (simp add: stay_def)
qed

lemma free_ok_push:
  assumes F: "free_ok 2 s" and r: "2 \<le> r" "r < bddnodesize s" "LOW s r \<noteq> -1"
    and t: "LOW t = (LOW s)(r := -1)" "nx t = (nx s)(r := bddfreepos s)" "bddfreepos t = r"
      "bddfreenum t = bddfreenum s + 1" "bddnodesize t = bddnodesize s"
  shows "free_ok 2 t"
proof -
  obtain ys where ys: "chain (nx s) (bddfreepos s) ys" "distinct ys"
    "set ys = {m. 2 \<le> m \<and> m < bddnodesize s \<and> LOW s m = -1}" "bddfreenum s = int (length ys)"
    using F unfolding free_ok_def by auto
  have notin: "r \<notin> set ys" using r ys(3) by auto
  have "chain (nx t) r (r # ys)" using ys(1) notin r by (simp add: t chain_upd_notin)
  moreover have "set (r # ys) = {m. 2 \<le> m \<and> m < bddnodesize t \<and> LOW t m = -1}" using ys(3) r by (auto simp: t)
  moreover have "distinct (r # ys)" "bddfreenum t = int (length (r # ys))" using ys notin by (simp_all add: t)
  ultimately show ?thesis unfolding free_ok_def t(3) by blast
qed

text \<open>Releasing one node.\<close>

lemma local_free_spec:
  assumes S: "sound s e" and r: "allocd s r" "rc s r = 0"
  shows "gone s e (local_free r v s) {r}" "sound (local_free r v s) e"
proof -
  let ?t = "local_free r v s"
  note A = local_free_acc [where r = r and v = v and s = s]
  have S': "levels_ok s" "closed_nodes s" "LOW s r \<noteq> HIGH s r" "free_ok 2 s" "ref_counted s e"
    and lh: "\<And>n. allocd s n \<Longrightarrow> LOW s n \<noteq> HIGH s n"
    using S r by (auto simp: sound_def)
  have al: "alloc_set ?t = alloc_set s - {r}" by (auto simp: alloc_set_def allocd_def A)
  have al': "allocd ?t n = (allocd s n \<and> n \<noteq> r)" for n by (auto simp: allocd_def A)
  note C = counted_drop [OF S'(5) r(1) S'(3) r(2) al, unfolded A(2,3,6)]
  have C1: "ref_counted ?t e" "parents s r = 0" "e r = 0"
    by (rule C; simp)+
  show "gone s e ?t {r}" using A(10) al C1(3) by (simp add: gone_def A)
  have "closed_nodes ?t"
    unfolding closed_nodes_def
  proof (intro allI impI)
    fix n assume n: "allocd ?t n"
    then have "LOW s n \<noteq> r \<and> HIGH s n \<noteq> r" using parents_zeroD [OF C1(2)] al' by blast
    then show "node_id ?t (LOW ?t n) \<and> node_id ?t (HIGH ?t n)"
      using S'(2) n by (auto simp: closed_nodes_def node_id_def al' A)
  qed
  moreover have "free_ok 2 ?t"
    by (rule free_ok_push [OF S'(4)]) (use r in \<open>auto simp: A allocd_def\<close>)
  ultimately show "sound ?t e"
    using S'(1) C1(1) lh by (auto simp: sound_def levels_ok_def al' A stayD(2) [OF A(10)])
qed

lemma local_chain_spec:
  assumes "chain (nx s) r rs" "distinct rs" "set rs \<inter> A = {}" "set rs \<subseteq> alloc_set s" "files s A"
    "A \<subseteq> alloc_set s" "\<forall>n \<in> set rs. hash_of s n = b" "sound s e" "length rs < k"
  shows "\<exists>t D. local_chain k r b v s = ret () t \<and> gone s e t D \<and> sound t e \<and> D \<subseteq> set rs \<and>
    files t (A \<union> (set rs - D))"
  using assms
proof (induction rs arbitrary: r A s k)
  case Nil
  then obtain k' where k: "k = Suc k'" by (cases k) auto
  show ?case
    unfolding k by (intro exI [of _ s] exI [of _ "{}"]) (use Nil.prems gone_refl in simp)
next
  case (Cons a rs)
  obtain k' where k: "k = Suc k'" "length rs < k'" using Cons.prems(9) by (cases k) auto
  have r: "r = a" "a \<noteq> 0" and c: "chain (nx s) (nx s a) rs" using Cons.prems(1) by auto
  have a: "a \<notin> set rs" "a \<notin> A" "allocd s a" using Cons.prems(2-4) by auto
  have ha: "hash_of s a = b" using Cons.prems(7) by simp
  show ?case
  proof (cases "0 < rc s a")
    case True
    let ?u = "link_node a b s"
    have g: "graph s ?u" by (rule graph_steps)
    have nx: "nx ?u = (nx s)(a := bucket s b)" by (simp add: acc)
    have F: "files ?u (insert a A)" using files_link [OF Cons.prems(5) a(2) r(2)] by (simp add: ha)
    have Su: "sound ?u e" by (rule sound_graph [OF Cons.prems(8) g]) (use a in \<open>auto simp: nx\<close>)
    have al: "alloc_set ?u = alloc_set s" by (simp add: alloc_set_def graphD [OF g])
    have "\<exists>t D. local_chain k' (nx s a) b v ?u = ret () t \<and> gone ?u e t D \<and> sound t e \<and> D \<subseteq> set rs \<and>
      files t (insert a A \<union> (set rs - D))"
    proof (rule Cons.IH)
      show "chain (nx ?u) (nx s a) rs" unfolding nx using c a(1) by (simp add: chain_upd_notin)
      show "set rs \<inter> insert a A = {}" "insert a A \<subseteq> alloc_set ?u" "set rs \<subseteq> alloc_set ?u"
        using Cons.prems(3,4,6) a unfolding al by auto
    qed (use Cons.prems k F Su in \<open>auto simp: graphD [OF g]\<close>)
    then obtain t D where *: "local_chain k' (nx s a) b v ?u = ret () t" "gone ?u e t D" "sound t e" "D \<subseteq> set rs"
      "files t (insert a A \<union> (set rs - D))" by blast
    have "local_chain k r b v s = ret () t" using *(1) True by (simp add: k r nx_def rc_def)
    moreover have "insert a A \<union> (set rs - D) = A \<union> (set (a # rs) - D)" using *(4) a(1) by auto
    ultimately show ?thesis
      using * gone_graph [OF g *(2)] by (intro exI [of _ t] exI [of _ D]) auto
  next
    case False
    then have rc0: "rc s a = 0" using countedD(1) [of s e a] Cons.prems(8) by (simp add: sound_def)
    let ?u = "local_free a v s"
    note L = local_free_acc [where r = a and v = v and s = s] and P = local_free_spec [OF Cons.prems(8) a(3) rc0, of v]
    have hash: "hash_of ?u n = hash_of s n" if "n \<noteq> a" for n
      by (rule hash_of_cong [OF L(10)]) (use that in \<open>simp_all add: L\<close>)
    have al: "alloc_set ?u = alloc_set s - {a}" using P(1) by (simp add: gone_def)
    have "\<exists>t D. local_chain k' (nx s a) b v ?u = ret () t \<and> gone ?u e t D \<and> sound t e \<and> D \<subseteq> set rs \<and>
      files t (A \<union> (set rs - D))"
    proof (rule Cons.IH)
      show "chain (nx ?u) (nx s a) rs" using c a(1) by (simp add: L chain_upd_notin)
      show "files ?u A" by (rule files_cong [OF Cons.prems(5) L(10)]) (use a in \<open>auto simp: L\<close>)
      show "\<forall>n \<in> set rs. hash_of ?u n = b" using Cons.prems(7) a(1) hash by (metis list.set_intros(2))
      show "set rs \<subseteq> alloc_set ?u" "A \<subseteq> alloc_set ?u" using Cons.prems(4,6) a unfolding al by auto
    qed (use Cons.prems k P(2) in auto)
    then obtain t D where *: "local_chain k' (nx s a) b v ?u = ret () t" "gone ?u e t D" "sound t e" "D \<subseteq> set rs"
      "files t (A \<union> (set rs - D))" by blast
    have "local_chain k r b v s = ret () t" using *(1) False by (simp add: k r nx_def rc_def)
    moreover have "A \<union> (set rs - D) = A \<union> (set (a # rs) - insert a D)" using a(1) by auto
    moreover have "gone s e t (insert a D)" using gone_trans [OF P(1) *(2)] by simp
    ultimately show ?thesis
      using * by (intro exI [of _ t] exI [of _ "insert a D"]) auto
  qed
qed

text \<open>All buckets of the lower variable.\<close>

lemma local_buckets_spec:
  assumes "files s (alloc_set s)" "sound s e" "parts_ok s" "0 \<le> y" "y < bddvarnum s"
    "lv_start (lvl s y) \<le> b" "b + int k = lv_start (lvl s y) + lv_size (lvl s y)"
  shows "\<exists>t D. local_buckets k b y s = ret () t \<and> gone s e t D \<and> sound t e \<and> files t (alloc_set t) \<and>
    D \<subseteq> {n. allocd s n \<and> LEVEL s n = y}"
  using assms
proof (induction k arbitrary: b s)
  case 0
  then show ?case by (intro exI [of _ s] exI [of _ "{}"]) (simp add: gone_refl)
next
  case (Suc k)
  let ?u = "set_hash b 0 s" and ?B = "{n \<in> alloc_set s. hash_of s n \<noteq> b}"
  have bp: "b \<in> part s y" using Suc.prems(6,7) by (simp add: part_def)
  note T = files_take [OF Suc.prems(1,3,4,5) bp]
  obtain rs where rs: "chain (nx s) (bucket s b) rs" "distinct rs" "set rs = {n \<in> alloc_set s. hash_of s n = b}"
    using T(2) by blast
  have g: "graph s ?u" by (rule graph_steps)
  note G = graphD [OF g]
  have len: "length rs < mark_fuel s" by (rule filed_length [OF rs(2)]) (use rs(3) in auto)
  have al: "alloc_set ?u = alloc_set s" by (simp add: alloc_set_def G)
  have "\<exists>t D. local_chain (mark_fuel s) (bucket s b) b y ?u = ret () t \<and> gone ?u e t D \<and> sound t e \<and> D \<subseteq> set rs \<and>
      files t (?B \<union> (set rs - D))"
  proof (rule local_chain_spec [OF _ rs(2) _ _ T(1)])
    show "chain (nx ?u) (bucket s b) rs" using rs(1) by (simp add: acc)
    show "sound ?u e" by (rule sound_graph [OF Suc.prems(2) g]) (simp add: acc)
    show "set rs \<inter> ?B = {}" "set rs \<subseteq> alloc_set ?u" "?B \<subseteq> alloc_set ?u" unfolding al rs(3) by auto
    show "\<forall>n \<in> set rs. hash_of ?u n = b" unfolding rs(3) G by simp
  qed (rule len)
  then obtain t D where *: "local_chain (mark_fuel s) (bucket s b) b y ?u = ret () t" "gone ?u e t D" "sound t e"
    "D \<subseteq> set rs" "files t (?B \<union> (set rs - D))" by blast
  note gt = gone_graph [OF g *(2)]
  have st: "stay s t" using gt by (simp add: gone_def)
  note st = stayD [OF st]
  have "?B \<union> (set rs - D) = alloc_set t" using gt *(4) rs(3) by (auto simp: gone_def)
  then have F: "files t (alloc_set t)" using *(5) by simp
  have lev: "LEVEL s n = y" if n: "n \<in> D" for n
  proof -
    have "allocd s n" "hash_of s n = b" using n *(4) rs(3) by auto
    moreover have "0 \<le> LEVEL s n" "LEVEL s n < bddvarnum s"
      using Suc.prems(2) \<open>allocd s n\<close> by (simp_all add: sound_def levels_ok_def)
    ultimately show ?thesis
      using RHASH_part [OF Suc.prems(3), of "LEVEL s n" "LOW s n" "HIGH s n"]
        part_unique [OF Suc.prems(3) _ _ Suc.prems(4,5), of "LEVEL s n" b] bp by (simp add: hash_of_def)
  qed
  have "lv_start (lvl t y) \<le> b + 1" "b + 1 + int k = lv_start (lvl t y) + lv_size (lvl t y)"
    using Suc.prems(6,7) by (simp_all add: st)
  then obtain v E where v: "local_buckets k (b + 1) y t = ret () v" "gone t e v E" "sound v e" "files v (alloc_set v)"
    "E \<subseteq> {n. allocd t n \<and> LEVEL t n = y}"
    using Suc.IH [OF F *(3), of "b + 1"] Suc.prems(3-5) unfolding st by blast
  have "local_buckets (Suc k) b y s = ret () v" using *(1) v(1) by (simp add: bucket_def)
  moreover have "alloc_set t \<subseteq> alloc_set s" "LEVEL t = LEVEL s" using gt by (auto simp: gone_def)
  then have "D \<union> E \<subseteq> {n. allocd s n \<and> LEVEL s n = y}"
    using v(5) lev *(4) rs(3) alloc_mono [of t s] by auto
  ultimately show ?case using gone_trans [OF gt v(2)] v by (intro exI [of _ v] exI [of _ "D \<union> E"]) simp
qed

lemma reorder_localGbc_spec:
  assumes "files s (alloc_set s)" "sound s e" "parts_ok s" "0 \<le> next_var s x" "next_var s x < bddvarnum s"
  shows "\<exists>t D. reorder_localGbc x s = ret () t \<and> gone s e t D \<and> sound t e \<and> files t (alloc_set t) \<and>
    D \<subseteq> {n. allocd s n \<and> LEVEL s n = next_var s x}"
  unfolding reorder_localGbc_def Let_def
  by (rule local_buckets_spec [OF assms]) (use part_bounds [OF assms(3-5)] in simp_all)

end
