(* ===== verification/SwapStep.thy ===== *)
theory SwapStep
  imports SwapGc
begin

text \<open>
  The node table between exchanges (\<open>rmode\<close>), and the second step of an exchange, \<open>reorder_swap\<close>: each node on
  the list becomes a node of the lower variable over nodes of the upper one.
\<close>

section \<open>The reordering mode\<close>

definition perm_ok :: "bdd_state \<Rightarrow> bool" where
  "perm_ok s =
     ((\<forall>v. 0 \<le> v \<and> v < bddvarnum s \<longrightarrow>
         0 \<le> bddvar2level s v \<and> bddvar2level s v < bddvarnum s \<and> bddlevel2var s (bddvar2level s v) = v) \<and>
      (\<forall>l. 0 \<le> l \<and> l < bddvarnum s \<longrightarrow>
         0 \<le> bddlevel2var s l \<and> bddlevel2var s l < bddvarnum s \<and> bddvar2level s (bddlevel2var s l) = l) \<and>
      bddvar2level s (bddvarnum s) = bddvarnum s)"

definition place :: "bdd_state \<Rightarrow> int \<Rightarrow> int" where
  "place s n = bddvar2level s (LEVEL s n)"

definition tree_ok :: "bdd_state \<Rightarrow> bool" where
  "tree_ok s =
     (LEVEL s 0 = bddvarnum s \<and> LEVEL s 1 = bddvarnum s \<and>
      (\<forall>n. allocd s n \<longrightarrow> 0 \<le> LEVEL s n \<and> LEVEL s n < bddvarnum s \<and> node_id s (LOW s n) \<and> node_id s (HIGH s n) \<and>
         LOW s n \<noteq> HIGH s n \<and> place s n < place s (LOW s n) \<and> place s n < place s (HIGH s n)))"

definition uniq :: "bdd_state \<Rightarrow> bool" where
  "uniq s = (\<forall>m n. allocd s m \<and> allocd s n \<and> LEVEL s m = LEVEL s n \<and> LOW s m = LOW s n \<and> HIGH s m = HIGH s n
     \<longrightarrow> m = n)"

definition rmode :: "bdd_state \<Rightarrow> (int \<Rightarrow> int) \<Rightarrow> bool" where
  "rmode s e =
     (bddvarnum s \<le> MAXVAR \<and> parts_ok s \<and> perm_ok s \<and> tree_ok s \<and> uniq s \<and> files s (alloc_set s) \<and>
      free_ok 2 s \<and> ref_counted s e)"

lemma rmodeD:
  assumes "rmode s e"
  shows "bddvarnum s \<le> MAXVAR" "parts_ok s" "perm_ok s" "tree_ok s" "uniq s" "files s (alloc_set s)" "free_ok 2 s"
    "ref_counted s e"
  using assms by (auto simp: rmode_def)

lemma perm_okD:
  assumes "perm_ok s"
  shows "0 \<le> v \<Longrightarrow> v < bddvarnum s \<Longrightarrow> 0 \<le> bddvar2level s v"
    "0 \<le> v \<Longrightarrow> v < bddvarnum s \<Longrightarrow> bddvar2level s v < bddvarnum s"
    "0 \<le> v \<Longrightarrow> v < bddvarnum s \<Longrightarrow> bddlevel2var s (bddvar2level s v) = v"
    "0 \<le> l \<Longrightarrow> l < bddvarnum s \<Longrightarrow> 0 \<le> bddlevel2var s l"
    "0 \<le> l \<Longrightarrow> l < bddvarnum s \<Longrightarrow> bddlevel2var s l < bddvarnum s"
    "0 \<le> l \<Longrightarrow> l < bddvarnum s \<Longrightarrow> bddvar2level s (bddlevel2var s l) = l"
    "bddvar2level s (bddvarnum s) = bddvarnum s"
  using assms by (auto simp: perm_ok_def)

lemma tree_okD:
  assumes "tree_ok s" "allocd s n"
  shows "0 \<le> LEVEL s n" "LEVEL s n < bddvarnum s" "node_id s (LOW s n)" "node_id s (HIGH s n)" "LOW s n \<noteq> HIGH s n"
    "place s n < place s (LOW s n)" "place s n < place s (HIGH s n)"
  using assms by (auto simp: tree_ok_def)

lemma place_const: "tree_ok s \<Longrightarrow> perm_ok s \<Longrightarrow> n = 0 \<or> n = 1 \<Longrightarrow> place s n = bddvarnum s"
  by (auto simp: place_def tree_ok_def perm_okD(7))

lemma uniqD:
  "uniq s \<Longrightarrow> allocd s m \<Longrightarrow> allocd s n \<Longrightarrow> LEVEL s m = LEVEL s n \<Longrightarrow> LOW s m = LOW s n \<Longrightarrow> HIGH s m = HIGH s n \<Longrightarrow>
   m = n"
  unfolding uniq_def by blast

text \<open>The state as far as the two variables of an exchange matter.\<close>

definition deep :: "bdd_state \<Rightarrow> int \<Rightarrow> int \<Rightarrow> bool" where
  "deep s x c = (node_id s c \<and> bddvar2level s x + 1 < place s c)"

definition cof :: "bdd_state \<Rightarrow> int \<Rightarrow> int \<Rightarrow> bool \<Rightarrow> int" where
  "cof s y c b = (if LEVEL s c = y then if b then HIGH s c else LOW s c else c)"

definition todo_set :: "bdd_state \<Rightarrow> int \<Rightarrow> int set" where
  "todo_set s x = {n. allocd s n \<and> LEVEL s n = x \<and> meets s (next_var s x) n}"

text \<open>The variables that can be exchanged: \<open>x\<close> and the next one.\<close>

definition movable :: "bdd_state \<Rightarrow> int \<Rightarrow> bool" where
  "movable s x = (0 \<le> x \<and> x < bddvarnum s \<and> bddvar2level s x < bddvarnum s - 1)"

lemma next_var_props:
  assumes P: "perm_ok s" and m: "movable s x"
  shows "0 \<le> next_var s x" "next_var s x < bddvarnum s" "bddvar2level s (next_var s x) = bddvar2level s x + 1"
    "next_var s x \<noteq> x"
proof -
  have "0 \<le> bddvar2level s x + 1" "bddvar2level s x + 1 < bddvarnum s"
    using perm_okD(1) [OF P, of x] m by (auto simp: movable_def)
  then show "0 \<le> next_var s x" "next_var s x < bddvarnum s" "bddvar2level s (next_var s x) = bddvar2level s x + 1"
    using perm_okD(4-6) [OF P] by (simp_all add: next_var_def)
  then show "next_var s x \<noteq> x" by auto
qed

lemma level_eq_place:
  assumes "perm_ok s" "0 \<le> v" "v < bddvarnum s" "0 \<le> w" "w < bddvarnum s" "bddvar2level s v = bddvar2level s w"
  shows "v = w"
  using perm_okD(3) [OF assms(1)] assms by metis

text \<open>The cofactors of a child of a node of \<open>x\<close> lie below both variables.\<close>

lemma deep_cof:
  assumes R: "rmode s e" and m: "movable s x" and n: "allocd s n" "LEVEL s n = x"
    and c: "c = LOW s n \<or> c = HIGH s n"
  shows "deep s x (cof s (next_var s x) c b)"
proof -
  note D = rmodeD [OF R] and Y = next_var_props [OF rmodeD(3) [OF R] m]
  have c1: "node_id s c" "bddvar2level s x < place s c"
    using tree_okD [OF D(4) n(1)] c n(2) by (auto simp: place_def)
  show ?thesis
  proof (cases "LEVEL s c = next_var s x")
    case True
    then have "allocd s c" using c1(1) Y(2) D(4) by (auto simp: node_id_def tree_ok_def)
    note T = tree_okD [OF D(4) this]
    have "place s c = bddvar2level s x + 1" using True Y(3) by (simp add: place_def)
    then show ?thesis using T True by (simp add: deep_def cof_def)
  next
    case False
    have "place s c \<noteq> bddvar2level s x + 1"
    proof
      assume p: "place s c = bddvar2level s x + 1"
      have "allocd s c"
        using c1(1) p place_const [OF D(4,3), of c] m by (auto simp: node_id_def movable_def)
      from tree_okD(1,2) [OF D(4) this] False p Y level_eq_place [OF D(3), of "LEVEL s c" "next_var s x"]
      show False by (simp add: place_def)
    qed
    then show ?thesis using c1 False by (simp add: deep_def cof_def)
  qed
qed

text \<open>The children are determined by their cofactors.\<close>

lemma cof_inj:
  assumes R: "rmode s e" and m: "movable s x" and c: "node_id s c" "node_id s d"
    and eq: "cof s (next_var s x) c False = cof s (next_var s x) d False"
      "cof s (next_var s x) c True = cof s (next_var s x) d True"
  shows "c = d"
proof -
  note D = rmodeD [OF R] and Y = next_var_props [OF rmodeD(3) [OF R] m]
  have al: "allocd s a" if "node_id s a" "LEVEL s a = next_var s x" for a
    using that Y(2) D(4) by (auto simp: node_id_def tree_ok_def)
  show ?thesis
  proof (cases "LEVEL s c = next_var s x"; cases "LEVEL s d = next_var s x")
    assume "LEVEL s c = next_var s x" "LEVEL s d = next_var s x"
    then show ?thesis using uniqD [OF D(5) al [OF c(1)] al [OF c(2)]] eq by (simp add: cof_def)
  next
    assume l: "LEVEL s c = next_var s x" "LEVEL s d \<noteq> next_var s x"
    then show ?thesis using tree_okD(5) [OF D(4) al [OF c(1)]] eq by (simp add: cof_def)
  next
    assume l: "LEVEL s c \<noteq> next_var s x" "LEVEL s d = next_var s x"
    then show ?thesis using tree_okD(5) [OF D(4) al [OF c(2)]] eq by (simp add: cof_def)
  qed (use eq in \<open>simp add: cof_def\<close>)
qed

section \<open>The second step\<close>

text \<open>The second step of an exchange, \<open>reorder_swap\<close>: the invariant of the loop and its preservation.\<close>

section \<open>What node creation gives\<close>

lemma mkd_filed:
  assumes M: "mkd s (alloc_set s - T) e v lo hi r t A'" and T: "T \<subseteq> alloc_set s"
  shows "A' = alloc_set t - T" "T \<subseteq> alloc_set t" "alloc_set s \<subseteq> alloc_set t"
proof -
  have al: "alloc_set t = alloc_set s \<union> A'" using M by (simp add: mkd_def)
  have "A' = alloc_set s - T \<or> A' = insert r (alloc_set s - T) \<and> \<not> allocd s r"
    using M by (auto simp: mkd_def split: if_splits)
  then have "alloc_set s - T \<subseteq> A' \<and> A' \<inter> T = {}" using T by auto
  then show "A' = alloc_set t - T" unfolding al by auto
  show "T \<subseteq> alloc_set t" "alloc_set s \<subseteq> alloc_set t" using T al by auto
qed

lemma mkd_old:
  assumes M: "mkd s (alloc_set s - T) e v lo hi r t A'" and n: "node_id s n" and c: "\<not> allocd s 0" "\<not> allocd s 1"
    and T: "T \<subseteq> alloc_set s"
  shows "LEVEL t n = LEVEL s n \<and> LOW t n = LOW s n \<and> HIGH t n = HIGH s n"
    and "n \<in> T \<Longrightarrow> nx t n = nx s n"
proof -
  have *: "\<not> (n = r \<and> r \<notin> alloc_set s - T \<and> lo \<noteq> hi) \<Longrightarrow>
      LEVEL t n = LEVEL s n \<and> LOW t n = LOW s n \<and> HIGH t n = HIGH s n \<and> nx t n = nx s n"
    using M by (simp add: mkd_def) blast
  show "LEVEL t n = LEVEL s n \<and> LOW t n = LOW s n \<and> HIGH t n = HIGH s n"
    "n \<in> T \<Longrightarrow> nx t n = nx s n"
  proof -
    have no: "\<not> (n = r \<and> r \<notin> alloc_set s - T \<and> lo \<noteq> hi)"
    proof
      assume r: "n = r \<and> r \<notin> alloc_set s - T \<and> lo \<noteq> hi"
      then have "\<not> allocd s r" "r \<in> A'" using M by (auto simp: mkd_def split: if_splits)
      then have "r = 0 \<or> r = 1" using n r by (simp add: node_id_def)
      moreover have "r \<in> alloc_set t" using M \<open>r \<in> A'\<close> by (simp add: mkd_def)
      ultimately show False by (auto simp: allocd_def)
    qed
    show "LEVEL t n = LEVEL s n \<and> LOW t n = LOW s n \<and> HIGH t n = HIGH s n" "n \<in> T \<Longrightarrow> nx t n = nx s n"
      using * [OF no] by simp_all
  qed
qed

lemma not_alloc_const [simp]: "\<not> allocd s 0" "\<not> allocd s 1"
  by (simp_all add: allocd_def)

lemma mkd_new:
  assumes M: "mkd s (alloc_set s - T) e v lo hi r t A'" and T: "T \<subseteq> alloc_set s" and n: "allocd t n" "\<not> allocd s n"
  shows "n = r" "LEVEL t n = v" "LOW t n = lo" "HIGH t n = hi" "lo \<noteq> hi"
    "\<forall>m. allocd s m \<and> m \<notin> T \<longrightarrow> \<not> matches s v lo hi m"
proof -
  have "n \<in> A'" using n mkd_filed [OF M T] T by auto
  moreover have "lo \<noteq> hi" using M \<open>n \<in> A'\<close> n(2) by (auto simp: mkd_def split: if_splits)
  ultimately show "n = r" "LEVEL t n = v" "LOW t n = lo" "HIGH t n = hi" "lo \<noteq> hi"
    "\<forall>m. allocd s m \<and> m \<notin> T \<longrightarrow> \<not> matches s v lo hi m"
    using M n(2) by (auto simp: mkd_def)
qed

lemma mkd_result:
  assumes M: "mkd s (alloc_set s - T) e v lo hi r t A'" and T: "T \<subseteq> alloc_set s"
  shows "lo = hi \<and> r = lo \<or> lo \<noteq> hi \<and> allocd t r \<and> r \<notin> T \<and> LEVEL t r = v \<and> LOW t r = lo \<and> HIGH t r = hi"
  using M mkd_filed [OF M T] by (auto simp: mkd_def split: if_splits)

section \<open>The loop invariant\<close>

text \<open>\<open>c\<close> stands for a node of \<open>x\<close> over \<open>a\<close> and \<open>b\<close>, or for \<open>a\<close> when the two are the same.\<close>

definition split_at :: "bdd_state \<Rightarrow> int \<Rightarrow> int set \<Rightarrow> int \<Rightarrow> int \<Rightarrow> int \<Rightarrow> bool" where
  "split_at s x T c a b =
     (a = b \<and> c = a \<or> a \<noteq> b \<and> allocd s c \<and> c \<notin> T \<and> LEVEL s c = x \<and> LOW s c = a \<and> HIGH s c = b)"

definition turned :: "bdd_state \<Rightarrow> int \<Rightarrow> int set \<Rightarrow> bdd_state \<Rightarrow> int \<Rightarrow> bool" where
  "turned s0 x T s n = (let y = next_var s0 x; f0 = LOW s0 n; f1 = HIGH s0 n in
     LEVEL s n = y \<and> split_at s x T (LOW s n) (cof s0 y f0 False) (cof s0 y f1 False) \<and>
     split_at s x T (HIGH s n) (cof s0 y f0 True) (cof s0 y f1 True))"

definition swp_old :: "bdd_state \<Rightarrow> int set \<Rightarrow> bdd_state \<Rightarrow> bool" where
  "swp_old s0 D s =
     (\<forall>n. node_id s0 n \<and> n \<notin> D \<longrightarrow> LEVEL s n = LEVEL s0 n \<and> LOW s n = LOW s0 n \<and> HIGH s n = HIGH s0 n)"

definition swp_new :: "bdd_state \<Rightarrow> int \<Rightarrow> bdd_state \<Rightarrow> bool" where
  "swp_new s0 x s =
     (\<forall>n. allocd s n \<and> \<not> allocd s0 n \<longrightarrow> LEVEL s n = x \<and> LOW s n \<noteq> HIGH s n \<and>
        (\<exists>m b. m \<in> todo_set s0 x \<and> LOW s n = cof s0 (next_var s0 x) (LOW s0 m) b \<and>
           HIGH s n = cof s0 (next_var s0 x) (HIGH s0 m) b))"

definition swp_uniq :: "int \<Rightarrow> int set \<Rightarrow> bdd_state \<Rightarrow> bool" where
  "swp_uniq x T s =
     (\<forall>m n. allocd s m \<and> allocd s n \<and> m \<notin> T \<and> n \<notin> T \<and> LEVEL s m = x \<and> LEVEL s n = x \<and>
        LOW s m = LOW s n \<and> HIGH s m = HIGH s n \<longrightarrow> m = n)"

definition swp :: "bdd_state \<Rightarrow> int \<Rightarrow> (int \<Rightarrow> int) \<Rightarrow> bdd_state \<Rightarrow> int list \<Rightarrow> bool" where
  "swp s0 x e s ts =
     (stay s0 s \<and> set ts \<subseteq> todo_set s0 x \<and> distinct ts \<and> files s (alloc_set s - set ts) \<and> free_ok 2 s \<and>
      ref_counted s e \<and> 2 * int (length ts) \<le> bddfreenum s \<and> alloc_set s0 \<subseteq> alloc_set s \<and>
      swp_old s0 (todo_set s0 x - set ts) s \<and> (\<forall>n \<in> todo_set s0 x - set ts. turned s0 x (todo_set s0 x) s n) \<and>
      swp_new s0 x s \<and> swp_uniq x (todo_set s0 x) s)"

lemma swpD:
  assumes "swp s0 x e s ts"
  shows "stay s0 s" "set ts \<subseteq> todo_set s0 x" "distinct ts" "files s (alloc_set s - set ts)" "free_ok 2 s"
    "ref_counted s e" "2 * int (length ts) \<le> bddfreenum s" "alloc_set s0 \<subseteq> alloc_set s"
    "swp_old s0 (todo_set s0 x - set ts) s" "\<forall>n \<in> todo_set s0 x - set ts. turned s0 x (todo_set s0 x) s n"
    "swp_new s0 x s" "swp_uniq x (todo_set s0 x) s"
  using assms by (simp_all add: swp_def)

lemma swp_oldD:
  "swp_old s0 D s \<Longrightarrow> node_id s0 n \<Longrightarrow> n \<notin> D \<Longrightarrow> LEVEL s n = LEVEL s0 n \<and> LOW s n = LOW s0 n \<and> HIGH s n = HIGH s0 n"
  unfolding swp_old_def by blast

lemma swp_newD:
  assumes "swp_new s0 x s" "allocd s n" "\<not> allocd s0 n"
  shows "LEVEL s n = x" "LOW s n \<noteq> HIGH s n"
    "\<exists>m b. m \<in> todo_set s0 x \<and> LOW s n = cof s0 (next_var s0 x) (LOW s0 m) b \<and>
       HIGH s n = cof s0 (next_var s0 x) (HIGH s0 m) b"
  using assms unfolding swp_new_def by blast+

lemma swp_uniqD:
  "swp_uniq x T s \<Longrightarrow> allocd s m \<Longrightarrow> allocd s n \<Longrightarrow> m \<notin> T \<Longrightarrow> n \<notin> T \<Longrightarrow> LEVEL s m = x \<Longrightarrow> LEVEL s n = x \<Longrightarrow>
   LOW s m = LOW s n \<Longrightarrow> HIGH s m = HIGH s n \<Longrightarrow> m = n"
  unfolding swp_uniq_def by blast

lemma todo_setD:
  assumes "n \<in> todo_set s x"
  shows "allocd s n" "LEVEL s n = x"
  using assms by (simp_all add: todo_set_def)

lemma todo_alloc: "todo_set s x \<subseteq> alloc_set s"
  by (auto dest: todo_setD)

text \<open>Nodes below both variables are untouched.\<close>

lemma deep_not_todo: "deep s x c \<Longrightarrow> c \<notin> todo_set s x"
  by (auto simp: deep_def todo_set_def place_def)

lemma swp_deep:
  assumes S: "swp s0 x e s ts" and c: "deep s0 x c"
  shows "LEVEL s c = LEVEL s0 c" "LOW s c = LOW s0 c" "HIGH s c = HIGH s0 c" "node_id s c"
proof -
  have n: "node_id s0 c" using c by (simp add: deep_def)
  show "LEVEL s c = LEVEL s0 c" "LOW s c = LOW s0 c" "HIGH s c = HIGH s0 c"
    using swp_oldD [OF swpD(9) [OF S] n] deep_not_todo [OF c] by auto
  show "node_id s c" using n swpD(8) [OF S] by (auto simp: node_id_def)
qed

text \<open>The state at the start of the loop.\<close>

lemma swp_start:
  assumes R: "rmode s0 e" and g: "graph s0 s" and ts: "distinct ts" "set ts = todo_set s0 x"
    and F: "files s {n. allocd s0 n \<and> n \<notin> set ts}" and nx: "\<And>n. \<not> allocd s0 n \<Longrightarrow> nx s n = nx s0 n"
    and room: "2 * int (length ts) \<le> bddfreenum s0"
  shows "swp s0 x e s ts"
proof -
  note D = rmodeD [OF R] and G = graphD [OF g]
  have al: "alloc_set s = alloc_set s0" by (simp add: alloc_set_def G)
  have "files s (alloc_set s - set ts)"
    using F by (simp add: alloc_set_def G set_diff_eq)
  moreover have "free_ok 2 s"
    by (rule free_ok_cong [OF D(7)]) (use nx G stayD(1) [OF G(1)] in \<open>auto simp: allocd_def\<close>)
  moreover have "ref_counted s e" by (rule counted_graph [OF D(8) g])
  moreover have "swp_uniq x (todo_set s0 x) s"
    using uniqD [OF D(5)] unfolding swp_uniq_def G by metis
  ultimately show ?thesis
    using ts room G unfolding swp_def swp_old_def swp_new_def by (simp add: al)
qed

section \<open>One node\<close>

lemma swp_child:
  assumes R: "rmode s0 e" and m: "movable s0 x" and n: "n \<in> todo_set s0 x"
  shows "node_id s0 (LOW s0 n)" "node_id s0 (HIGH s0 n)" "LOW s0 n \<notin> todo_set s0 x" "HIGH s0 n \<notin> todo_set s0 x"
proof -
  note T = tree_okD [OF rmodeD(4) [OF R] todo_setD(1) [OF n]]
  show "node_id s0 (LOW s0 n)" "node_id s0 (HIGH s0 n)" using T by simp_all
  show "LOW s0 n \<notin> todo_set s0 x" "HIGH s0 n \<notin> todo_set s0 x"
    using T(6,7) todo_setD(2) [OF n] by (auto simp: place_def todo_set_def)
qed

lemma swp_cof:
  assumes S: "swp s0 x e s ts" and c: "node_id s0 c" "c \<notin> todo_set s0 x"
  shows "cof s y c b = cof s0 y c b"
  using swp_oldD [OF swpD(9) [OF S] c(1)] c(2) by (simp add: cof_def)

lemma split_at_node: "split_at s x T c a b \<Longrightarrow> node_id s a \<Longrightarrow> node_id s c"
  by (auto simp: split_at_def node_id_def)

text \<open>All nodes of the state have a level in range and children that are nodes.\<close>

lemma swp_wf:
  assumes R: "rmode s0 e" and m: "movable s0 x" and S: "swp s0 x e' s ts"
  shows "levels_ok s" "closed_nodes s"
proof -
  note D = rmodeD [OF R] and Y = next_var_props [OF rmodeD(3) [OF R] m] and W = swpD [OF S]
  have cofs: "node_id s (cof s0 (next_var s0 x) (LOW s0 k) b)" "node_id s (cof s0 (next_var s0 x) (HIGH s0 k) b)"
    if "k \<in> todo_set s0 x" for k b
    using deep_cof [OF R m todo_setD [OF that]] swp_deep(4) [OF S] by blast+
  have sub: "node_id s c" if "node_id s0 c" for c using that W(8) by (auto simp: node_id_def)
  have all: "(0 \<le> LEVEL s n \<and> LEVEL s n < bddvarnum s) \<and> node_id s (LOW s n) \<and> node_id s (HIGH s n)"
    if n: "allocd s n" for n
  proof -
    consider "allocd s0 n" "n \<notin> todo_set s0 x - set ts" | "n \<in> todo_set s0 x - set ts" | "\<not> allocd s0 n"
      by (auto dest: todo_setD)
    then show ?thesis
    proof cases
      case 1
      then show ?thesis
        using swp_oldD [OF W(9), of n] tree_okD [OF D(4) 1(1)] sub stayD(2) [OF W(1)] by (simp add: node_id_def)
    next
      case 2
      then have "turned s0 x (todo_set s0 x) s n" using W(10) by blast
      then show ?thesis
        using 2 cofs Y stayD(2) [OF W(1)] split_at_node by (fastforce simp: turned_def Let_def)
    next
      case 3
      then show ?thesis using swp_newD [OF W(11) n] cofs m stayD(2) [OF W(1)] by (auto simp: movable_def)
    qed
  qed
  then show "levels_ok s" "closed_nodes s" by (simp_all add: levels_ok_def closed_nodes_def)
qed

lemma mkd_wf:
  assumes M: "mkd s (alloc_set s - T) e v lo hi r t A'" and T: "T \<subseteq> alloc_set s" and L: "levels_ok s" "closed_nodes s"
    and v: "0 \<le> v" "v < bddvarnum s" and lohi: "node_id s lo" "node_id s hi"
  shows "levels_ok t" "closed_nodes t" "node_id s c \<Longrightarrow> node_id t c"
proof -
  have V: "bddvarnum t = bddvarnum s" using M by (simp add: mkd_def stayD)
  show sub: "node_id t c" if "node_id s c" for c using that mkd_filed(3) [OF M T] by (auto simp: node_id_def)
  have all: "(0 \<le> LEVEL t n \<and> LEVEL t n < bddvarnum t) \<and> node_id t (LOW t n) \<and> node_id t (HIGH t n)"
    if n: "allocd t n" for n
  proof (cases "allocd s n")
    case True
    then show ?thesis
      using mkd_old [OF M _ _ _ T, of n] L sub by (simp add: levels_ok_def closed_nodes_def V node_id_def [of s n])
  next
    case False
    then show ?thesis using mkd_new [OF M T n False] v lohi sub by (simp add: V)
  qed
  then show "levels_ok t" "closed_nodes t" by (simp_all add: levels_ok_def closed_nodes_def)
qed

lemma mkd_uniq:
  assumes M: "mkd s (alloc_set s - T) e x lo hi r t A'" and T: "T \<subseteq> alloc_set s" "T \<subseteq> U" and U: "swp_uniq x U s"
  shows "swp_uniq x U t"
  unfolding swp_uniq_def
proof (intro allI impI, elim conjE)
  fix m n assume a: "allocd t m" "allocd t n" "m \<notin> U" "n \<notin> U" "LEVEL t m = x" "LEVEL t n = x" "LOW t m = LOW t n"
    "HIGH t m = HIGH t n"
  have old: "LEVEL t k = LEVEL s k \<and> LOW t k = LOW s k \<and> HIGH t k = HIGH s k" if "allocd s k" for k
    using mkd_old [OF M _ _ _ T(1), of k] that by (simp add: node_id_def)
  have clash: False if "allocd t j" "\<not> allocd s j" "allocd s k" "k \<notin> U" "LEVEL t k = x" "LOW t j = LOW t k" "HIGH t j = HIGH t k"
    for j k
    using mkd_new [OF M T(1) that(1,2)] that old [OF that(3)] T(2) by (auto simp: matches_def)
  show "m = n"
  proof (cases "allocd s m"; cases "allocd s n")
    assume "allocd s m" "allocd s n"
    then show ?thesis using swp_uniqD [OF U, of m n] old a by simp
  next
    assume "\<not> allocd s m" "\<not> allocd s n"
    then show ?thesis using mkd_new(1) [OF M T(1)] a by blast
  next
    assume "allocd s m" "\<not> allocd s n"
    then show ?thesis using clash [of n m] a by simp
  next
    assume "\<not> allocd s m" "allocd s n"
    then show ?thesis using clash [of m n] a by simp
  qed
qed

end
