(* ===== verification/SwapLoop.thy ===== *)
theory SwapLoop
  imports SwapStep
begin

text \<open>The second step of an exchange: one node, and the whole list.\<close>

definition turn0 :: "int \<Rightarrow> int \<Rightarrow> int \<Rightarrow> int \<Rightarrow> bdd_state \<Rightarrow> bdd_state" where
  "turn0 n y a b s = add_nodenum y 1 (upd_node (\<lambda>d. d\<lparr>n_level := y, n_low := a, n_high := b\<rparr>) n
     (DECREF (HIGH s n) (DECREF (LOW s n) s)))"

definition turn :: "int \<Rightarrow> int \<Rightarrow> int \<Rightarrow> int \<Rightarrow> bdd_state \<Rightarrow> bdd_state" where
  "turn n y a b s = link_node n (RHASH s y a b) (turn0 n y a b s)"

lemma turn0_acc:
  "LEVEL (turn0 n y a b s) = (LEVEL s)(n := y)" "LOW (turn0 n y a b s) = (LOW s)(n := a)"
  "HIGH (turn0 n y a b s) = (HIGH s)(n := b)" "nx (turn0 n y a b s) = nx s" "bucket (turn0 n y a b s) = bucket s"
  "rc (turn0 n y a b s) = rc (DECREF (HIGH s n) (DECREF (LOW s n) s))"
  "bddfreepos (turn0 n y a b s) = bddfreepos s" "bddfreenum (turn0 n y a b s) = bddfreenum s"
  "bddnodesize (turn0 n y a b s) = bddnodesize s"
proof -
  define u where "u = DECREF (HIGH s n) (DECREF (LOW s n) s)"
  have u: "LEVEL u = LEVEL s" "LOW u = LOW s" "HIGH u = HIGH s" "nx u = nx s" "bucket u = bucket s"
    "bddfreepos u = bddfreepos s" "bddfreenum u = bddfreenum s" "bddnodesize u = bddnodesize s"
    by (simp_all add: u_def acc)
  have t: "turn0 n y a b s = add_nodenum y 1 (upd_node (\<lambda>d. d\<lparr>n_level := y, n_low := a, n_high := b\<rparr>) n u)"
    by (simp add: turn0_def u_def)
  have "LEVEL (turn0 n y a b s) = (LEVEL u)(n := y)" "LOW (turn0 n y a b s) = (LOW u)(n := a)"
    "HIGH (turn0 n y a b s) = (HIGH u)(n := b)" "nx (turn0 n y a b s) = nx u" "bucket (turn0 n y a b s) = bucket u"
    "rc (turn0 n y a b s) = rc u"
    unfolding t by (auto simp: fun_eq_iff LEVEL_def LOW_def HIGH_def nx_def bucket_def rc_def)
  then show "LEVEL (turn0 n y a b s) = (LEVEL s)(n := y)" "LOW (turn0 n y a b s) = (LOW s)(n := a)"
    "HIGH (turn0 n y a b s) = (HIGH s)(n := b)" "nx (turn0 n y a b s) = nx s" "bucket (turn0 n y a b s) = bucket s"
    "rc (turn0 n y a b s) = rc u" by (simp_all add: u)
  show "bddfreepos (turn0 n y a b s) = bddfreepos s" "bddfreenum (turn0 n y a b s) = bddfreenum s"
    "bddnodesize (turn0 n y a b s) = bddnodesize s" unfolding t by (simp_all add: u)
qed

lemma turn0_stay: "stay s (turn0 n y a b s)"
  unfolding turn0_def
  by (rule stay_trans [OF stay_trans [OF stay_trans [OF stay_refs(2) stay_refs(2)] stay_upd_node] stay_add_nodenum])

lemma turn_stay: "stay s (turn n y a b s)"
  unfolding turn_def by (rule stay_trans [OF turn0_stay stay_link])

lemma turn_acc:
  "LEVEL (turn n y a b s) = (LEVEL s)(n := y)" "LOW (turn n y a b s) = (LOW s)(n := a)"
  "HIGH (turn n y a b s) = (HIGH s)(n := b)" "nx (turn n y a b s) = (nx s)(n := bucket s (RHASH s y a b))"
  "rc (turn n y a b s) = rc (DECREF (HIGH s n) (DECREF (LOW s n) s))"
  "bddfreepos (turn n y a b s) = bddfreepos s" "bddfreenum (turn n y a b s) = bddfreenum s"
  "bddnodesize (turn n y a b s) = bddnodesize s"
  by (simp_all add: turn_def acc turn0_acc)

lemma turn_ret:
  assumes "parts_ok s" "0 \<le> y" "y < bddvarnum s"
  shows "(let s = DECREF (LOW s n) s; s = DECREF (HIGH s n) s;
        s = upd_node (\<lambda>d. d\<lparr>n_level := y, n_low := a, n_high := b\<rparr>) n s;
        s = add_nodenum y 1 s in insert_node n s) = ret () (turn n y a b s)"
proof -
  have "(let s = DECREF (LOW s n) s; s = DECREF (HIGH s n) s;
        s = upd_node (\<lambda>d. d\<lparr>n_level := y, n_low := a, n_high := b\<rparr>) n s;
        s = add_nodenum y 1 s in insert_node n s) = insert_node n (turn0 n y a b s)"
    by (simp add: Let_def turn0_def acc)
  also have "\<dots> = ret () (turn n y a b s)"
    using assms stayD [OF turn0_stay [of s n y a b]]
    by (simp add: insert_node_def turn0_acc rhash_ret turn_def)
  finally show ?thesis .
qed

lemma turn_files:
  assumes F: "files s A" and n: "n \<notin> A" "n \<noteq> 0"
  shows "files (turn n y a b s) (insert n A)"
proof -
  have "files (turn0 n y a b s) A"
    by (rule files_cong [OF F turn0_stay]) (use n in \<open>auto simp: turn0_acc\<close>)
  from files_link [OF this n] show ?thesis
    by (simp add: turn_def hash_of_def turn0_acc stayD [OF turn0_stay])
qed

lemma split_at_mono:
  assumes "split_at s x T c a b" "\<And>k. allocd s k \<Longrightarrow> k \<notin> T \<Longrightarrow> allocd t k \<and> LEVEL t k = LEVEL s k \<and> LOW t k = LOW s k \<and> HIGH t k = HIGH s k"
  shows "split_at t x T c a b"
  using assms by (auto simp: split_at_def)

lemma mkd_split:
  assumes M: "mkd s (alloc_set s - set ts) e x lo hi r t A'" and T: "set ts \<subseteq> alloc_set s"
    and U: "\<And>k. k \<in> U \<Longrightarrow> k \<in> set ts \<or> allocd s k \<and> LEVEL s k \<noteq> x"
  shows "split_at t x U r lo hi"
proof -
  consider "lo = hi" "r = lo" | "lo \<noteq> hi" "allocd t r" "r \<notin> set ts" "LEVEL t r = x" "LOW t r = lo" "HIGH t r = hi"
    using mkd_result [OF M T] by blast
  then show ?thesis
  proof cases
    case 2
    have "r \<notin> U"
    proof
      assume "r \<in> U"
      then have "allocd s r" "LEVEL s r \<noteq> x" using U 2(3) by blast+
      then show False using mkd_old [OF M _ _ _ T, of r] 2(4) by (simp add: node_id_def)
    qed
    then show ?thesis using 2 by (simp add: split_at_def)
  qed (simp add: split_at_def)
qed

text \<open>The two calls of \<open>reorder_makenode\<close> for the node \<open>n\<close>.\<close>

definition step2 :: "bdd_state \<Rightarrow> int \<Rightarrow> (int \<Rightarrow> int) \<Rightarrow> bdd_state \<Rightarrow> int list \<Rightarrow> int \<Rightarrow> int \<Rightarrow> int \<Rightarrow> bdd_state \<Rightarrow> bool" where
  "step2 s0 x e s ts n r0 r1 t = (let T = todo_set s0 x; y = next_var s0 x; f0 = LOW s0 n; f1 = HIGH s0 n in
     stay s t \<and> files t (alloc_set t - set ts) \<and> set ts \<subseteq> alloc_set t \<and> free_ok 2 t \<and> bddfreenum s \<le> bddfreenum t + 2 \<and>
     ref_counted t (more (more e r0) r1) \<and> node_id t r0 \<and> node_id t r1 \<and> alloc_set s \<subseteq> alloc_set t \<and>
     (\<forall>k. node_id s k \<longrightarrow> LEVEL t k = LEVEL s k \<and> LOW t k = LOW s k \<and> HIGH t k = HIGH s k) \<and>
     (\<forall>k \<in> set ts. nx t k = nx s k) \<and>
     split_at t x T r0 (cof s0 y f0 False) (cof s0 y f1 False) \<and>
     split_at t x T r1 (cof s0 y f0 True) (cof s0 y f1 True) \<and>
     (\<forall>k. allocd t k \<and> \<not> allocd s k \<longrightarrow> LEVEL t k = x \<and> LOW t k \<noteq> HIGH t k \<and>
        (\<exists>b. LOW t k = cof s0 y f0 b \<and> HIGH t k = cof s0 y f1 b)) \<and>
     swp_uniq x T t)"

lemma step2_spec:
  assumes R: "rmode s0 e" and m: "movable s0 x" and S: "swp s0 x e s ts" and n: "n \<in> set ts"
  defines "y \<equiv> next_var s0 x" and "f0 \<equiv> LOW s0 n" and "f1 \<equiv> HIGH s0 n"
  shows "\<exists>r0 u r1 t. reorder_makenode x (cof s0 y f0 False) (cof s0 y f1 False) s = ret r0 u \<and>
    reorder_makenode x (cof s0 y f0 True) (cof s0 y f1 True) u = ret r1 t \<and> step2 s0 x e s ts n r0 r1 t"
proof -
  note W = swpD [OF S]
  let ?T = "todo_set s0 x"
  have nT: "n \<in> ?T" using W(2) n by blast
  have xv: "0 \<le> x" "x < bddvarnum s" using m stayD(2) [OF W(1)] by (simp_all add: movable_def)
  have len: "1 \<le> length ts" using n by (cases ts) auto
  have P: "parts_ok s" using rmodeD(2) [OF R] stayD(6) [OF W(1)] by simp
  have dc: "deep s0 x (cof s0 y f0 b)" "deep s0 x (cof s0 y f1 b)" for b
    using deep_cof [OF R m todo_setD [OF nT]] unfolding y_def f0_def f1_def by blast+
  have nc: "node_id s (cof s0 y f0 b)" "node_id s (cof s0 y f1 b)" for b
    using dc swp_deep(4) [OF S] by blast+
  note wf = swp_wf [OF R m S]
  have Ts: "set ts \<subseteq> alloc_set s" using W(2,8) todo_alloc by blast
  have "\<exists>r t A'. reorder_makenode x (cof s0 y f0 False) (cof s0 y f1 False) s = ret r t \<and>
      mkd s (alloc_set s - set ts) e x (cof s0 y f0 False) (cof s0 y f1 False) r t A'"
    by (rule reorder_makenode_spec [OF P xv W(4)]) (use wf W nc len in \<open>auto simp: levels_ok_def\<close>)
  then obtain r0 u A1 where u: "reorder_makenode x (cof s0 y f0 False) (cof s0 y f1 False) s = ret r0 u"
    and M1: "mkd s (alloc_set s - set ts) e x (cof s0 y f0 False) (cof s0 y f1 False) r0 u A1" by blast
  note A1 = mkd_filed [OF M1 Ts] and wf1 = mkd_wf [OF M1 Ts wf xv nc] and old1 = mkd_old [OF M1 _ _ _ Ts]
  have u2: "stay s u" "files u (alloc_set u - set ts)" "free_ok 2 u" "bddfreenum s \<le> bddfreenum u + 1" "ref_counted u (more e r0)"
    using M1 A1(1) by (simp_all add: mkd_def)
  have xu: "0 \<le> x" "x < bddvarnum u" "parts_ok u" using xv P stayD [OF u2(1)] by simp_all
  have "\<exists>r t A'. reorder_makenode x (cof s0 y f0 True) (cof s0 y f1 True) u = ret r t \<and>
      mkd u (alloc_set u - set ts) (more e r0) x (cof s0 y f0 True) (cof s0 y f1 True) r t A'"
    by (rule reorder_makenode_spec [OF xu(3,1,2) u2(2)])
      (use wf1 W(7) nc u2 len in \<open>auto simp: levels_ok_def\<close>)
  then obtain r1 t A2 where t: "reorder_makenode x (cof s0 y f0 True) (cof s0 y f1 True) u = ret r1 t"
    and M2: "mkd u (alloc_set u - set ts) (more e r0) x (cof s0 y f0 True) (cof s0 y f1 True) r1 t A2" by blast
  note A2 = mkd_filed [OF M2 A1(2)] and old2 = mkd_old [OF M2 _ _ _ A1(2)]
    and wf2 = mkd_wf [OF M2 A1(2) wf1(1,2) xu(1,2) wf1(3) [OF nc(1)] wf1(3) [OF nc(2)]]
  have t2: "stay u t" "files t (alloc_set t - set ts)" "free_ok 2 t" "bddfreenum u \<le> bddfreenum t + 1"
    "ref_counted t (more (more e r0) r1)"
    using M2 A2(1) by (simp_all add: mkd_def)
  have sub: "node_id u k" if "node_id s k" for k using that A1(3) by (auto simp: node_id_def)
  have same: "LEVEL t k = LEVEL s k \<and> LOW t k = LOW s k \<and> HIGH t k = HIGH s k" if "node_id s k" for k
    using old1(1) [OF that] old2(1) [OF sub [OF that]] by simp
  have todo: "k \<in> set ts \<or> allocd s k \<and> LEVEL s k \<noteq> x" if "k \<in> ?T" for k
  proof (cases "k \<in> set ts")
    case False
    then have "turned s0 x ?T s k" using that W(10) by blast
    then show ?thesis
      using todo_setD(1) [OF that] W(8) next_var_props(4) [OF rmodeD(3) [OF R] m] by (auto simp: turned_def Let_def)
  qed simp
  have todo1: "k \<in> set ts \<or> allocd u k \<and> LEVEL u k \<noteq> x" if "k \<in> ?T" for k
    using todo [OF that] A1(3) old1(1) [of k] by (auto simp: node_id_def)
  have sp0: "split_at u x ?T r0 (cof s0 y f0 False) (cof s0 y f1 False)" by (rule mkd_split [OF M1 Ts todo])
  have sp0': "split_at t x ?T r0 (cof s0 y f0 False) (cof s0 y f1 False)"
    by (rule split_at_mono [OF sp0]) (use old2(1) A2(3) in \<open>auto simp: node_id_def\<close>)
  have sp1: "split_at t x ?T r1 (cof s0 y f0 True) (cof s0 y f1 True)" by (rule mkd_split [OF M2 A1(2) todo1])
  have new: "LEVEL t k = x \<and> LOW t k \<noteq> HIGH t k \<and> (\<exists>b. LOW t k = cof s0 y f0 b \<and> HIGH t k = cof s0 y f1 b)"
    if k: "allocd t k" "\<not> allocd s k" for k
  proof (cases "allocd u k")
    case True
    then show ?thesis
      using mkd_new [OF M1 Ts True k(2)] old2(1) [of k] by (auto simp: node_id_def)
  next
    case False
    then show ?thesis using mkd_new [OF M2 A1(2) k(1)] by auto
  qed
  have U: "swp_uniq x ?T t" by (rule mkd_uniq [OF M2 A1(2) W(2) mkd_uniq [OF M1 Ts W(2,12)]])
  have nid: "node_id t r0" "node_id t r1"
    using split_at_node [OF sp0'] split_at_node [OF sp1] wf2(3) wf1(3) nc by blast+
  have nxs: "nx t k = nx s k" if "k \<in> set ts" for k
  proof -
    have "node_id s k" "node_id u k" using that Ts A1(2) by (auto simp: node_id_def)
    then show ?thesis using old1(2) old2(2) that by simp
  qed
  have "step2 s0 x e s ts n r0 r1 t"
    unfolding step2_def Let_def y_def [symmetric] f0_def [symmetric] f1_def [symmetric]
    using stay_trans [OF u2(1) t2(1)] t2 u2(4) A1 A2 nid same sp0' sp1 new U nxs by auto
  then show ?thesis using u t by blast
qed

lemma step2D:
  assumes "step2 s0 x e s ts n r0 r1 t"
  shows "stay s t" "files t (alloc_set t - set ts)" "set ts \<subseteq> alloc_set t" "free_ok 2 t" "bddfreenum s \<le> bddfreenum t + 2"
    "ref_counted t (more (more e r0) r1)" "node_id t r0" "node_id t r1" "alloc_set s \<subseteq> alloc_set t"
    "\<And>k. node_id s k \<Longrightarrow> LEVEL t k = LEVEL s k \<and> LOW t k = LOW s k \<and> HIGH t k = HIGH s k"
    "\<And>k. k \<in> set ts \<Longrightarrow> nx t k = nx s k"
    "split_at t x (todo_set s0 x) r0 (cof s0 (next_var s0 x) (LOW s0 n) False) (cof s0 (next_var s0 x) (HIGH s0 n) False)"
    "split_at t x (todo_set s0 x) r1 (cof s0 (next_var s0 x) (LOW s0 n) True) (cof s0 (next_var s0 x) (HIGH s0 n) True)"
    "\<And>k. allocd t k \<Longrightarrow> \<not> allocd s k \<Longrightarrow> LEVEL t k = x \<and> LOW t k \<noteq> HIGH t k \<and>
        (\<exists>b. LOW t k = cof s0 (next_var s0 x) (LOW s0 n) b \<and> HIGH t k = cof s0 (next_var s0 x) (HIGH s0 n) b)"
    "swp_uniq x (todo_set s0 x) t"
  using assms unfolding step2_def Let_def by (elim conjE, blast)+

lemma swap_node_eq:
  "swap_node n x y s =
     bnd (reorder_makenode x (cof s y (LOW s n) False) (cof s y (HIGH s n) False) s) (\<lambda>a u.
     bnd (reorder_makenode x (cof s y (LOW s n) True) (cof s y (HIGH s n) True) u) (\<lambda>b s.
       let s = DECREF (LOW s n) s; s = DECREF (HIGH s n) s;
           s = upd_node (\<lambda>d. d\<lparr>n_level := y, n_low := a, n_high := b\<rparr>) n s;
           s = add_nodenum y 1 s in insert_node n s))"
  by (simp add: swap_node_def cof_def Let_def)

lemma swap_node_spec:
  assumes R: "rmode s0 e" and m: "movable s0 x" and S: "swp s0 x e s (n # ts)"
  shows "\<exists>t. swap_node n x (next_var s0 x) s = ret () t \<and> swp s0 x e t ts \<and> (\<forall>k \<in> set ts. nx t k = nx s k)"
proof -
  let ?y = "next_var s0 x" and ?T = "todo_set s0 x"
  note W = swpD [OF S] and D = rmodeD [OF R] and Y = next_var_props [OF rmodeD(3) [OF R] m]
  have nT: "n \<in> ?T" "n \<notin> set ts" "set ts \<subseteq> ?T" "distinct ts" using W(2,3) by auto
  have n0: "node_id s0 n" "allocd s0 n" "n \<notin> ?T - set (n # ts)" using todo_setD(1) [OF nT(1)] by (auto simp: node_id_def)
  have same: "LEVEL s n = LEVEL s0 n \<and> LOW s n = LOW s0 n \<and> HIGH s n = HIGH s0 n"
    by (rule swp_oldD [OF W(9) n0(1,3)])
  note ch = swp_child [OF R m nT(1)]
  have cofs: "cof s ?y (LOW s0 n) b = cof s0 ?y (LOW s0 n) b" "cof s ?y (HIGH s0 n) b = cof s0 ?y (HIGH s0 n) b" for b
    using swp_cof [OF S] ch by blast+
  obtain r0 u r1 v where mk: "reorder_makenode x (cof s0 ?y (LOW s0 n) False) (cof s0 ?y (HIGH s0 n) False) s = ret r0 u"
    "reorder_makenode x (cof s0 ?y (LOW s0 n) True) (cof s0 ?y (HIGH s0 n) True) u = ret r1 v"
    "step2 s0 x e s (n # ts) n r0 r1 v"
    using step2_spec [OF R m S, of n] by auto
  note V = step2D [OF mk(3)]
  let ?t = "turn n ?y r0 r1 v"
  have al0: "allocd s n" "allocd v n" using n0(2) alloc_mono [OF W(8)] alloc_mono [OF V(9)] by blast+
  have sv: "node_id s n" using al0 by (simp add: node_id_def)
  have Pv: "parts_ok v" "0 \<le> ?y" "?y < bddvarnum v"
    using D(2) Y(1,2) stayD [OF W(1)] stayD [OF V(1)] by simp_all
  have run: "swap_node n x ?y s = ret () ?t"
    unfolding swap_node_eq by (simp only: same cofs mk(1,2) bnd_ret turn_ret [OF Pv])
  note A = turn_acc [of n ?y r0 r1 v]
  have st: "stay s0 ?t" by (rule stay_trans [OF stay_trans [OF W(1) V(1)] turn_stay])
  have n2: "2 \<le> n" "n < bddnodesize v" using al0(2) by (simp_all add: allocd_def)
  have ge: "0 \<le> r0" "0 \<le> r1" using V(7,8) by (auto simp: node_id_def allocd_def)
  have al: "alloc_set ?t = alloc_set v" using ge n2 al0(2) by (auto simp: alloc_set_def allocd_def A)
  have al': "allocd ?t k = allocd v k" for k using al by (metis in_alloc)
  have lh: "LOW v n \<noteq> HIGH v n" using V(10) [OF sv] same tree_okD(5) [OF D(4) n0(2)] by simp
  have F: "files ?t (alloc_set ?t - set ts)"
  proof -
    have "files ?t (insert n (alloc_set v - set (n # ts)))" by (rule turn_files [OF V(2)]) (use n2 in auto)
    moreover have "insert n (alloc_set v - set (n # ts)) = alloc_set ?t - set ts" unfolding al using al0 nT(2) by auto
    ultimately show ?thesis by simp
  qed
  have fr: "free_ok 2 ?t"
    by (rule free_ok_cong [OF V(4)]) (use ge al0(2) in \<open>auto simp: A allocd_def\<close>)
  have C: "ref_counted ?t e"
    by (rule counted_change [OF V(6) countedD(3) [OF W(6)] al0(2) lh _ _ al])
      (use V(7,8) in \<open>auto simp: A node_id_def\<close>)
  have sub: "node_id s k" if "node_id s0 k" for k using that W(8) by (auto simp: node_id_def)
  have old: "swp_old s0 (?T - set ts) ?t"
    unfolding swp_old_def
  proof (intro allI impI, elim conjE)
    fix k assume k: "node_id s0 k" "k \<notin> ?T - set ts"
    then have "k \<noteq> n" "k \<notin> ?T - set (n # ts)" using nT by auto
    then show "LEVEL ?t k = LEVEL s0 k \<and> LOW ?t k = LOW s0 k \<and> HIGH ?t k = HIGH s0 k"
      using swp_oldD [OF W(9) k(1)] V(10) [OF sub [OF k(1)]] by (simp add: A)
  qed
  have keepv: "allocd ?t k \<and> LEVEL ?t k = LEVEL v k \<and> LOW ?t k = LOW v k \<and> HIGH ?t k = HIGH v k"
    if "allocd v k" "k \<notin> ?T" for k
    using that nT(1) by (auto simp: A al')
  have keeps: "allocd ?t k \<and> LEVEL ?t k = LEVEL s k \<and> LOW ?t k = LOW s k \<and> HIGH ?t k = HIGH s k"
    if "allocd s k" "k \<notin> ?T" for k
    using keepv [of k] V(9) V(10) [of k] that by (auto simp: node_id_def)
  have turned: "turned s0 x ?T ?t k" if k: "k \<in> ?T - set ts" for k
  proof (cases "k = n")
    case True
    then show ?thesis
      using split_at_mono [OF V(12) keepv] split_at_mono [OF V(13) keepv] by (simp add: turned_def Let_def A)
  next
    case False
    then have t: "turned s0 x ?T s k" using W(10) k by auto
    have "node_id s k" using k todo_setD(1) [of k s0 x] sub by (simp add: node_id_def)
    then have "LEVEL ?t k = LEVEL s k" "LOW ?t k = LOW s k" "HIGH ?t k = HIGH s k"
      using V(10) [of k] False by (simp_all add: A)
    then show ?thesis
      using t unfolding turned_def Let_def by (auto intro: split_at_mono [OF _ keeps])
  qed
  have new: "swp_new s0 x ?t"
    unfolding swp_new_def
  proof (intro allI impI, elim conjE)
    fix k assume k: "allocd ?t k" "\<not> allocd s0 k"
    then have kT: "k \<notin> ?T" "allocd v k" using todo_setD(1) [of k s0 x] by (auto simp: al')
    show "LEVEL ?t k = x \<and> LOW ?t k \<noteq> HIGH ?t k \<and> (\<exists>m b. m \<in> ?T \<and> LOW ?t k = cof s0 ?y (LOW s0 m) b \<and>
        HIGH ?t k = cof s0 ?y (HIGH s0 m) b)"
    proof (cases "allocd s k")
      case True
      then show ?thesis using swp_newD [OF W(11) True k(2)] keeps [OF True kT(1)] by simp
    next
      case False
      then show ?thesis using V(14) [OF kT(2)] keepv [OF kT(2,1)] nT(1) by auto
    qed
  qed
  have U: "swp_uniq x ?T ?t"
    unfolding swp_uniq_def
  proof (intro allI impI, elim conjE)
    fix j k assume jk: "allocd ?t j" "allocd ?t k" "j \<notin> ?T" "k \<notin> ?T" "LEVEL ?t j = x" "LEVEL ?t k = x" "LOW ?t j = LOW ?t k"
      "HIGH ?t j = HIGH ?t k"
    have v: "allocd v j" "allocd v k" using jk(1,2) unfolding al' .
    note kj = keepv [OF v(1) jk(3)] and kk = keepv [OF v(2) jk(4)]
    show "j = k"
    proof (rule swp_uniqD [OF V(15) v jk(3,4)])
      show "LEVEL v j = x" using kj jk(5) by metis
      show "LEVEL v k = x" using kk jk(6) by metis
      show "LOW v j = LOW v k" using kj kk jk(7) by metis
      show "HIGH v j = HIGH v k" using kj kk jk(8) by metis
    qed
  qed
  have len: "2 * int (length ts) \<le> bddfreenum ?t" using W(7) V(5) by (simp add: A)
  have "alloc_set s0 \<subseteq> alloc_set ?t" using W(8) V(9) al by blast
  then have "swp s0 x e ?t ts"
    unfolding swp_def using st nT(3,4) F fr C len old turned new U by simp
  moreover have "nx ?t k = nx s k" if "k \<in> set ts" for k
    using V(11) [of k] that nT(2) by (auto simp: A)
  ultimately show ?thesis using run by blast
qed

text \<open>The whole list.\<close>

lemma reorder_swap_spec:
  assumes R: "rmode s0 e" and m: "movable s0 x"
  shows "swp s0 x e s ts \<Longrightarrow> chain (nx s) todo ts \<Longrightarrow> length ts < k \<Longrightarrow>
    \<exists>t. reorder_swap k todo x (next_var s0 x) s = ret () t \<and> swp s0 x e t []"
proof (induction ts arbitrary: s todo k)
  case Nil
  then show ?case by (cases k) auto
next
  case (Cons n ts)
  obtain k' where k: "k = Suc k'" "length ts < k'" using Cons.prems(3) by (cases k) auto
  have c: "todo = n" "n \<noteq> 0" "chain (nx s) (nx s n) ts" using Cons.prems(2) by auto
  obtain u where u: "swap_node n x (next_var s0 x) s = ret () u" "swp s0 x e u ts" "\<forall>k \<in> set ts. nx u k = nx s k"
    using swap_node_spec [OF R m Cons.prems(1)] by blast
  have "chain (nx u) (nx s n) ts" using c(3) chain_cong [of ts "nx u" "nx s"] u(3) by blast
  from Cons.IH [OF u(2) this k(2)] obtain t where
    "reorder_swap k' (nx s n) x (next_var s0 x) u = ret () t" "swp s0 x e t []" by blast
  then show ?case using u(1) c k by (intro exI [of _ t]) (simp add: nx_def)
qed

end
