(* ===== verification/SwapSem.thy ===== *)
theory SwapSem
  imports SwapLoop
begin

text \<open>
  What the exchange has built once the list is empty: the nodes are ordered with the two variables exchanged, no
  node is redundant or stored twice, and every old node stands for its old function.
\<close>

section \<open>The turned nodes\<close>

lemma inner_order: "tree_ok s \<Longrightarrow> bddvarnum s \<le> MAXVAR \<Longrightarrow> inner s n \<longleftrightarrow> allocd s n"
  using tree_okD(2) [of s n] by (auto simp: inner_def MAXLEVEL_def MAXVAR_def)

text \<open>A node in the place of a pair determines the pair.\<close>

lemma split_at_level:
  assumes R: "rmode s0 e" and m: "movable s0 x" and S: "swp s0 x e t []"
    and c: "split_at t x (todo_set s0 x) c a b" and d: "deep s0 x a"
  shows "LEVEL t c = x \<longleftrightarrow> a \<noteq> b"
proof -
  have "LEVEL t a \<noteq> x" using swp_deep(1) [OF S d] d by (auto simp: deep_def place_def)
  then show ?thesis using c by (auto simp: split_at_def)
qed

lemma split_at_det:
  assumes R: "rmode s0 e" and m: "movable s0 x" and S: "swp s0 x e t []"
    and c: "split_at t x (todo_set s0 x) c a b" "deep s0 x a" "split_at t x (todo_set s0 x) c a' b'" "deep s0 x a'"
  shows "a = a' \<and> b = b'"
  using split_at_level [OF R m S c(1,2)] split_at_level [OF R m S c(3,4)] c by (auto simp: split_at_def)

lemma turnedD:
  assumes S: "swp s0 x e t []" and n: "n \<in> todo_set s0 x"
  shows "LEVEL t n = next_var s0 x"
    "split_at t x (todo_set s0 x) (LOW t n) (cof s0 (next_var s0 x) (LOW s0 n) False) (cof s0 (next_var s0 x) (HIGH s0 n) False)"
    "split_at t x (todo_set s0 x) (HIGH t n) (cof s0 (next_var s0 x) (LOW s0 n) True) (cof s0 (next_var s0 x) (HIGH s0 n) True)"
  using swpD(10) [OF S] n by (auto simp: turned_def Let_def)

lemma todo_cof:
  assumes R: "rmode s0 e" and m: "movable s0 x" and n: "n \<in> todo_set s0 x"
  shows "deep s0 x (cof s0 (next_var s0 x) (LOW s0 n) b)" "deep s0 x (cof s0 (next_var s0 x) (HIGH s0 n) b)"
  using deep_cof [OF R m todo_setD [OF n]] by blast+

text \<open>One of its children belongs to \<open>x\<close>, and the two differ.\<close>

lemma turned_child:
  assumes R: "rmode s0 e" and m: "movable s0 x" and S: "swp s0 x e t []" and n: "n \<in> todo_set s0 x"
  shows "LEVEL t (LOW t n) = x \<or> LEVEL t (HIGH t n) = x"
proof (rule ccontr)
  assume "\<not> ?thesis"
  then have "cof s0 (next_var s0 x) (LOW s0 n) False = cof s0 (next_var s0 x) (HIGH s0 n) False"
    "cof s0 (next_var s0 x) (LOW s0 n) True = cof s0 (next_var s0 x) (HIGH s0 n) True"
    using split_at_level [OF R m S turnedD(2) [OF S n] todo_cof(1) [OF R m n]]
      split_at_level [OF R m S turnedD(3) [OF S n] todo_cof(1) [OF R m n]] by simp_all
  then have "LOW s0 n = HIGH s0 n" by (rule cof_inj [OF R m swp_child(1,2) [OF R m n]])
  then show False using tree_okD(5) [OF rmodeD(4) [OF R] todo_setD(1) [OF n]] by simp
qed

lemma turned_differ:
  assumes R: "rmode s0 e" and m: "movable s0 x" and S: "swp s0 x e t []" and n: "n \<in> todo_set s0 x"
  shows "LOW t n \<noteq> HIGH t n"
proof
  let ?y = "next_var s0 x"
  assume eq: "LOW t n = HIGH t n"
  have c: "cof s0 ?y (LOW s0 n) False = cof s0 ?y (LOW s0 n) True"
    "cof s0 ?y (HIGH s0 n) False = cof s0 ?y (HIGH s0 n) True"
    using split_at_det [OF R m S turnedD(2) [OF S n] todo_cof(1) [OF R m n] turnedD(3) [OF S n, folded eq]
      todo_cof(1) [OF R m n]] by simp_all
  have al: "allocd s0 c" if "node_id s0 c" "LEVEL s0 c = ?y" for c
    using that next_var_props(2) [OF rmodeD(3) [OF R] m] rmodeD(4) [OF R] by (auto simp: node_id_def tree_ok_def)
  have "LEVEL s0 (LOW s0 n) \<noteq> ?y" "LEVEL s0 (HIGH s0 n) \<noteq> ?y"
    using c al swp_child(1,2) [OF R m n] tree_okD(5) [OF rmodeD(4) [OF R]] by (auto simp: cof_def split: if_splits)
  then show False using n by (simp add: todo_set_def meets_def)
qed

section \<open>The order\<close>

text \<open>The place of a node when the two variables have been exchanged.\<close>

definition place2 :: "bdd_state \<Rightarrow> int \<Rightarrow> int \<Rightarrow> int" where
  "place2 s0 x v = (if v = x then bddvar2level s0 x + 1 else if v = next_var s0 x then bddvar2level s0 x else bddvar2level s0 v)"

lemma place2_low:
  assumes R: "rmode s0 e" and m: "movable s0 x" and S: "swp s0 x e t []" and c: "node_id s0 c"
  shows "place s0 c < bddvar2level s0 x \<Longrightarrow> place2 s0 x (LEVEL t c) = place s0 c"
    and "deep s0 x c \<Longrightarrow> place2 s0 x (LEVEL t c) = place s0 c"
    and "bddvar2level s0 x \<le> place s0 c \<Longrightarrow> bddvar2level s0 x \<le> place2 s0 x (LEVEL t c)"
proof -
  note Y = next_var_props [OF rmodeD(3) [OF R] m] and W = swpD [OF S]
  have old: "LEVEL t c = LEVEL s0 c" if "c \<notin> todo_set s0 x" using swp_oldD [OF W(9) c] that by simp
  have T: "place s0 c = bddvar2level s0 x" if "c \<in> todo_set s0 x" using that by (simp add: place_def todo_set_def)
  have hi: "place2 s0 x (LEVEL t c) = place s0 c" if "place s0 c < bddvar2level s0 x \<or> bddvar2level s0 x + 1 < place s0 c"
  proof -
    have "c \<notin> todo_set s0 x" using T that by auto
    then have "LEVEL t c = LEVEL s0 c" by (rule old)
    then show ?thesis using that Y by (auto simp: place2_def place_def)
  qed
  show "place s0 c < bddvar2level s0 x \<Longrightarrow> place2 s0 x (LEVEL t c) = place s0 c"
    "deep s0 x c \<Longrightarrow> place2 s0 x (LEVEL t c) = place s0 c"
    using hi by (auto simp: deep_def)
  show "bddvar2level s0 x \<le> place s0 c \<Longrightarrow> bddvar2level s0 x \<le> place2 s0 x (LEVEL t c)"
    using old turnedD(1) [OF S] by (cases "c \<in> todo_set s0 x") (auto simp: place2_def place_def)
qed

lemma swp_order:
  assumes R: "rmode s0 e" and m: "movable s0 x" and S: "swp s0 x e t []" and n: "allocd t n"
  shows "place2 s0 x (LEVEL t n) < place2 s0 x (LEVEL t (LOW t n)) \<and>
    place2 s0 x (LEVEL t n) < place2 s0 x (LEVEL t (HIGH t n)) \<and> LOW t n \<noteq> HIGH t n"
proof -
  let ?l = "bddvar2level s0 x" and ?y = "next_var s0 x"
  note D = rmodeD [OF R] and Y = next_var_props [OF rmodeD(3) [OF R] m] and W = swpD [OF S] and L = place2_low [OF R m S]
  have deep: "?l + 1 < place2 s0 x (LEVEL t c)" if "deep s0 x c" for c
    using L(2) [of c] that by (simp add: deep_def)
  consider "n \<in> todo_set s0 x" | "\<not> allocd s0 n" | "allocd s0 n" "n \<notin> todo_set s0 x" by blast
  then show ?thesis
  proof cases
    case 1
    have "?l < place2 s0 x (LEVEL t c)" if c: "split_at t x (todo_set s0 x) c a b" and "deep s0 x a" for a b c
      using deep [OF that(2)] c Y(4) by (auto simp: split_at_def place2_def)
    then show ?thesis
      using turnedD [OF S 1] todo_cof [OF R m 1] turned_differ [OF R m S 1] Y by (auto simp: place2_def)
  next
    case 2
    then obtain k b where k: "k \<in> todo_set s0 x" "LOW t n = cof s0 ?y (LOW s0 k) b" "HIGH t n = cof s0 ?y (HIGH s0 k) b"
      using swp_newD(3) [OF W(11) n 2] by blast
    then show ?thesis using deep todo_cof [OF R m k(1)] swp_newD(1,2) [OF W(11) n 2] by (simp add: place2_def)
  next
    case 3
    then have same: "LEVEL t n = LEVEL s0 n" "LOW t n = LOW s0 n" "HIGH t n = HIGH s0 n"
      using swp_oldD [OF W(9), of n] by (simp_all add: node_id_def)
    note T = tree_okD [OF D(4) 3(1)]
    have child: "place2 s0 x (LEVEL t n) < place2 s0 x (LEVEL t c)" if c: "c = LOW s0 n \<or> c = HIGH s0 n" for c
    proof -
      have cn: "node_id s0 c" "place s0 n < place s0 c" using c T by auto
      show ?thesis
      proof (cases "LEVEL s0 n = x")
        case True
        then have "LEVEL s0 c \<noteq> ?y" using 3 c by (auto simp: todo_set_def meets_def)
        then have "deep s0 x c" using deep_cof [OF R m 3(1) True c] by (simp add: cof_def)
        then show ?thesis using deep True same by (simp add: place2_def)
      next
        case x: False
        show ?thesis
        proof (cases "LEVEL s0 n = ?y")
          case True
          then have "deep s0 x c" using cn Y by (simp add: deep_def place_def)
          then show ?thesis using deep [of c] True same Y(4) by (simp add: place2_def)
        next
          case False
          then have p: "place2 s0 x (LEVEL t n) = place s0 n" using x same by (simp add: place2_def place_def)
          have "0 \<le> x" "x < bddvarnum s0" using m by (simp_all add: movable_def)
          then have ne: "place s0 n \<noteq> ?l" "place s0 n \<noteq> ?l + 1"
            using x False Y(1-3) level_eq_place [OF D(3) T(1,2), of x] level_eq_place [OF D(3) T(1,2), of ?y]
            unfolding place_def by metis+
          show ?thesis
          proof (cases "place s0 c < ?l")
            case True
            then show ?thesis using L(1) [OF cn(1)] cn(2) p by simp
          next
            case c2: False
            show ?thesis
            proof (cases "place s0 n < ?l")
              case True
              then show ?thesis using L(3) [OF cn(1)] c2 p by simp
            next
              case False
              then have "deep s0 x c" using cn ne by (simp add: deep_def)
              then show ?thesis using L(2) [OF cn(1)] cn(2) p by simp
            qed
          qed
        qed
      qed
    qed
    then show ?thesis using T(5) same by simp
  qed
qed

section \<open>No duplicates\<close>

lemma swp_unique:
  assumes R: "rmode s0 e" and m: "movable s0 x" and S: "swp s0 x e t []"
  shows "uniq t"
  unfolding uniq_def
proof (intro allI impI, elim conjE)
  let ?y = "next_var s0 x" and ?T = "todo_set s0 x"
  note D = rmodeD [OF R] and Y = next_var_props [OF rmodeD(3) [OF R] m] and W = swpD [OF S]
  have old: "LEVEL t k = LEVEL s0 k \<and> LOW t k = LOW s0 k \<and> HIGH t k = HIGH s0 k" if "allocd s0 k" "k \<notin> ?T" for k
    using swp_oldD [OF W(9), of k] that by (simp add: node_id_def)
  have Tx: "k \<notin> ?T" if "LEVEL t k = x" for k using turnedD(1) [OF S, of k] that Y(4) by auto
  have noty: "allocd s0 k" if "allocd t k" "LEVEL t k \<noteq> x" for k using swp_newD(1) [OF W(11), of k] that by blast
  have clash: False if "k \<in> ?T" "allocd s0 j" "j \<notin> ?T" "LEVEL t j = ?y" "LOW t k = LOW t j" "HIGH t k = HIGH t j" for j k
  proof -
    note o = old [OF that(2,3)]
    have "deep s0 x (LOW s0 j)" "deep s0 x (HIGH s0 j)"
      using tree_okD(3,4,6,7) [OF D(4) that(2)] o that(4) Y by (simp_all add: deep_def place_def)
    then have "LEVEL t (LOW t j) \<noteq> x" "LEVEL t (HIGH t j) \<noteq> x"
      using swp_deep(1) [OF S] o by (auto simp: deep_def place_def)
    then show False using turned_child [OF R m S that(1)] that(5,6) by simp
  qed
  fix a b assume ab: "allocd t a" "allocd t b" "LEVEL t a = LEVEL t b" "LOW t a = LOW t b" "HIGH t a = HIGH t b"
  show "a = b"
  proof (cases "LEVEL t a = x")
    case True
    then show ?thesis using swp_uniqD [OF W(12) ab(1,2)] ab Tx by simp
  next
    case False
    then have al: "allocd s0 a" "allocd s0 b" using noty ab by simp_all
    show ?thesis
    proof (cases "a \<in> ?T"; cases "b \<in> ?T")
      assume T: "a \<in> ?T" "b \<in> ?T"
      have l: "cof s0 ?y (LOW s0 a) False = cof s0 ?y (LOW s0 b) False \<and> cof s0 ?y (HIGH s0 a) False = cof s0 ?y (HIGH s0 b) False"
        by (rule split_at_det [OF R m S turnedD(2) [OF S T(1)] todo_cof(1) [OF R m T(1)]
              turnedD(2) [OF S T(2), folded ab(4)] todo_cof(1) [OF R m T(2)]])
      have h: "cof s0 ?y (LOW s0 a) True = cof s0 ?y (LOW s0 b) True \<and> cof s0 ?y (HIGH s0 a) True = cof s0 ?y (HIGH s0 b) True"
        by (rule split_at_det [OF R m S turnedD(3) [OF S T(1)] todo_cof(1) [OF R m T(1)]
              turnedD(3) [OF S T(2), folded ab(5)] todo_cof(1) [OF R m T(2)]])
      have "LOW s0 a = LOW s0 b" "HIGH s0 a = HIGH s0 b"
        using cof_inj [OF R m] swp_child(1,2) [OF R m T(1)] swp_child(1,2) [OF R m T(2)] l h by blast+
      then show ?thesis using uniqD [OF D(5) al] todo_setD(2) T by simp
    next
      assume "a \<in> ?T" "b \<notin> ?T"
      then show ?thesis using clash [of a b] al turnedD(1) [OF S, of a] ab by simp
    next
      assume "a \<notin> ?T" "b \<in> ?T"
      then show ?thesis using clash [of b a] al turnedD(1) [OF S, of b] ab by simp
    next
      assume "a \<notin> ?T" "b \<notin> ?T"
      then show ?thesis using uniqD [OF D(5) al] old al ab by metis
    qed
  qed
qed

section \<open>The functions\<close>

lemma sem_cof:
  assumes R: "rmode s e" and m: "movable s x" and c: "node_id s c"
  shows "sem s c env = sem s (cof s (next_var s x) c (env (next_var s x))) env"
proof (cases "LEVEL s c = next_var s x")
  case True
  then have "allocd s c"
    using c next_var_props(2) [OF rmodeD(3) [OF R] m] rmodeD(4) [OF R] by (auto simp: node_id_def tree_ok_def)
  then have "inner s c" using inner_order [OF rmodeD(4) [OF R] rmodeD(1) [OF R]] by simp
  then show ?thesis using True by (simp add: sem_inner cof_def)
next
  case False
  then show ?thesis by (simp add: cof_def)
qed

lemma swp_inner:
  assumes R: "rmode s0 e" and m: "movable s0 x" and S: "swp s0 x e t []"
  shows "inner t n \<longleftrightarrow> allocd t n"
proof
  assume "allocd t n"
  then have "LEVEL t n < bddvarnum s0"
    using swp_wf(1) [OF R m S] stayD(2) [OF swpD(1) [OF S]] by (simp add: levels_ok_def)
  then show "inner t n" using rmodeD(1) [OF R] \<open>allocd t n\<close> by (simp add: inner_def MAXLEVEL_def MAXVAR_def)
qed (simp add: inner_def)

lemma sem_split_at:
  assumes R: "rmode s0 e" and m: "movable s0 x" and S: "swp s0 x e t []" and c: "split_at t x T c a b"
  shows "sem t c env = sem t (if env x then b else a) env"
  using c swp_inner [OF R m S] by (auto simp: split_at_def sem_inner)

lemma swp_sem:
  assumes R: "rmode s0 e" and m: "movable s0 x" and S: "swp s0 x e t []" and n: "node_id s0 n"
  shows "sem t n env = sem s0 n env"
  using n
proof (induction "nat (bddvarnum s0 - place s0 n)" arbitrary: n rule: less_induct)
  case less
  let ?y = "next_var s0 x" and ?T = "todo_set s0 x"
  note D = rmodeD [OF R] and W = swpD [OF S]
  consider "n = 0 \<or> n = 1" | "allocd s0 n" using less.prems by (auto simp: node_id_def)
  then show ?case
  proof cases
    case 2
    note T = tree_okD [OF D(4) 2]
    have pl: "place s0 n < bddvarnum s0" using perm_okD(2) [OF D(3) T(1,2)] by (simp add: place_def)
    have IH: "sem t c env = sem s0 c env" if "node_id s0 c" "place s0 n < place s0 c" for c
      by (rule less.hyps) (use that pl in auto)
    have i0: "inner s0 n" using inner_order [OF D(4,1)] 2 by simp
    have al: "allocd t n" using alloc_mono [OF W(8) 2] .
    show ?thesis
    proof (cases "n \<in> ?T")
      case False
      then have same: "LEVEL t n = LEVEL s0 n" "LOW t n = LOW s0 n" "HIGH t n = HIGH s0 n"
        using swp_oldD [OF W(9) less.prems] by simp_all
      have "inner t n" using al swp_inner [OF R m S] by simp
      then show ?thesis using i0 IH T by (simp add: sem_inner same)
    next
      case True
      have x: "LEVEL s0 n = x" by (rule todo_setD(2) [OF True])
      let ?c = "\<lambda>b. cof s0 ?y (LOW s0 n) b" and ?d = "\<lambda>b. cof s0 ?y (HIGH s0 n) b"
      have dc: "sem t (?c b) env = sem s0 (?c b) env" "sem t (?d b) env = sem s0 (?d b) env" for b
        using todo_cof [OF R m True, of b] IH x by (auto simp: deep_def place_def)
      have i: "inner t n" using al swp_inner [OF R m S] by simp
      have "sem t n env = sem t (if env ?y then HIGH t n else LOW t n) env"
        using i turnedD(1) [OF S True] by (simp add: sem_inner)
      also have "\<dots> = sem t (if env x then ?d (env ?y) else ?c (env ?y)) env"
        using sem_split_at [OF R m S turnedD(2) [OF S True], of env] sem_split_at [OF R m S turnedD(3) [OF S True], of env]
        by simp
      also have "\<dots> = sem s0 (if env x then ?d (env ?y) else ?c (env ?y)) env" using dc by simp
      also have "\<dots> = sem s0 (if env x then HIGH s0 n else LOW s0 n) env"
        using sem_cof [OF R m T(3), of env] sem_cof [OF R m T(4), of env] by simp
      also have "\<dots> = sem s0 n env" using i0 x by (simp add: sem_inner)
      finally show ?thesis .
    qed
  qed auto
qed

text \<open>Releasing nodes nothing points to leaves the functions of the others alone.\<close>

lemma gone_sem:
  assumes G: "gone s e t D" and cl: "closed_nodes t" and n: "node_id t n"
  shows "sem t n env = sem s n env"
proof -
  have al: "allocd t k \<Longrightarrow> allocd s k \<and> LEVEL t k = LEVEL s k \<and> LOW t k = LOW s k \<and> HIGH t k = HIGH s k" for k
    using G unfolding gone_def by (metis DiffE in_alloc)
  have "evals t env k b \<Longrightarrow> node_id t k \<Longrightarrow> evals s env k b" for k b
  proof (induction rule: evals.induct)
    case (ev_low k b)
    then show ?case using al [of k] cl evals.ev_low [of s k env b] by (auto simp: inner_def closed_nodes_def)
  next
    case (ev_high k b)
    then show ?case using al [of k] cl evals.ev_high [of s k env b] by (auto simp: inner_def closed_nodes_def)
  qed (auto intro: evals.intros)
  moreover have "evals s env k b \<Longrightarrow> node_id t k \<Longrightarrow> evals t env k b" for k b
  proof (induction rule: evals.induct)
    case (ev_low k b)
    then have "allocd t k" by (auto simp: node_id_def)
    then show ?case using ev_low al [of k] cl evals.ev_low [of t k env b] by (auto simp: inner_def closed_nodes_def)
  next
    case (ev_high k b)
    then have "allocd t k" by (auto simp: node_id_def)
    then show ?case using ev_high al [of k] cl evals.ev_high [of t k env b] by (auto simp: inner_def closed_nodes_def)
  qed (auto intro: evals.intros)
  ultimately show ?thesis using n unfolding sem_def by blast
qed

end
