(* ===== verification/SwapVar.thy ===== *)
theory SwapVar
  imports SwapSem
begin

text \<open>
  The whole exchange, \<open>reorder_vardown\<close>: the three steps, the exchange of the two entries of the
  variable tables, and the invariant \<open>rmode\<close> for the new order.
\<close>

section \<open>What does not depend on the variable tables\<close>

definition same_table :: "bdd_state \<Rightarrow> bdd_state \<Rightarrow> bool" where
  "same_table s t =
     (bddnodes t = bddnodes s \<and> rlevels (reo t) = rlevels (reo s) \<and> bddvarnum t = bddvarnum s \<and>
      bddnodesize t = bddnodesize s \<and> bddfreepos t = bddfreepos s \<and> bddfreenum t = bddfreenum s)"

lemma same_tableD:
  assumes "same_table s t"
  shows "LEVEL t = LEVEL s" "LOW t = LOW s" "HIGH t = HIGH s" "nx t = nx s" "bucket t = bucket s" "rc t = rc s"
    "allocd t = allocd s" "node_id t = node_id s" "alloc_set t = alloc_set s" "part t = part s" "RHASH t = RHASH s"
    "hash_of t = hash_of s" "parts_ok t = parts_ok s" "uniq t = uniq s" "files t = files s" "free_ok 2 t = free_ok 2 s"
    "ref_counted t = ref_counted s" "bddvarnum t = bddvarnum s" "bddfreenum t = bddfreenum s"
proof -
  have e: "bddnodes t = bddnodes s" "rlevels (reo t) = rlevels (reo s)" "bddvarnum t = bddvarnum s"
    "bddnodesize t = bddnodesize s" "bddfreepos t = bddfreepos s" "bddfreenum t = bddfreenum s"
    using assms by (simp_all add: same_table_def)
  note A = acc_nodes [OF e(1)]
  show "LEVEL t = LEVEL s" "LOW t = LOW s" "HIGH t = HIGH s" "nx t = nx s" "bucket t = bucket s" "rc t = rc s"
    "bddvarnum t = bddvarnum s" "bddfreenum t = bddfreenum s"
    by (simp_all only: A e)
  have l: "lvl t = lvl s" by (simp add: fun_eq_iff lvl_def e)
  show al: "allocd t = allocd s" by (simp add: fun_eq_iff allocd_def A e)
  show "node_id t = node_id s" by (simp add: fun_eq_iff node_id_def al)
  show as: "alloc_set t = alloc_set s" by (simp add: alloc_set_def al)
  show pt: "part t = part s" by (simp add: fun_eq_iff part_def l)
  show rh: "RHASH t = RHASH s" by (simp add: fun_eq_iff RHASH_def l)
  show h: "hash_of t = hash_of s" by (simp add: fun_eq_iff hash_of_def rh A)
  show "parts_ok t = parts_ok s" by (simp add: parts_ok_def pt l e)
  show "uniq t = uniq s" by (simp add: uniq_def al A)
  have "filed t = filed s" by (simp add: fun_eq_iff filed_def h A)
  then show "files t = files s" by (simp add: fun_eq_iff files_def pt e)
  show "free_ok 2 t = free_ok 2 s" by (simp add: free_ok_def A e)
  have "parents t = parents s" by (simp add: fun_eq_iff parents_def edges_def as A)
  then show "ref_counted t = ref_counted s" by (simp add: fun_eq_iff ref_counted_def al A)
qed

lemma same_table_sem:
  assumes "same_table s t"
  shows "sem t n env = sem s n env"
proof -
  have *: "evals b env n True" if "evals a env n True" "bddnodes b = bddnodes a" "bddnodesize b = bddnodesize a" for a b
    by (rule evals_transfer [OF _ that(1)])
      (use that(2,3) in \<open>simp add: inner_def allocd_def same_node_def acc_nodes [OF that(2)]\<close>)
  show ?thesis using * [of s t] * [of t s] assms unfolding sem_def same_table_def by metis
qed

lemma same_table_rmode:
  assumes T: "same_table s t" and v: "bddvar2level t = bddvar2level s" "bddlevel2var t = bddlevel2var s"
  shows "rmode t e = rmode s e"
proof -
  note D = same_tableD [OF T]
  have "perm_ok t = perm_ok s" by (simp add: perm_ok_def v D)
  moreover have "place t = place s" by (simp add: fun_eq_iff place_def v D)
  then have "tree_ok t = tree_ok s" by (simp add: tree_ok_def D)
  ultimately show ?thesis by (simp add: rmode_def D)
qed

section \<open>The tables\<close>

text \<open>The order after the exchange of \<open>x\<close> with the next variable.\<close>

definition exchanged :: "bdd_state \<Rightarrow> int \<Rightarrow> bdd_state \<Rightarrow> bool" where
  "exchanged s x t = (let l = bddvar2level s x; y = next_var s x in
     bddvarnum t = bddvarnum s \<and>
     bddvar2level t = (bddvar2level s)(x := l + 1, y := l) \<and>
     bddlevel2var t = (bddlevel2var s)(l := y, l + 1 := x))"

lemma swap_tables_eq:
  assumes P: "perm_ok s" and m: "movable s x"
  shows "swap_tables x (bddvar2level s x) s =
    s\<lparr>bddlevel2var := (bddlevel2var s)(bddvar2level s x := next_var s x, bddvar2level s x + 1 := x),
      bddvar2level := (bddvar2level s)(x := bddvar2level s x + 1, next_var s x := bddvar2level s x)\<rparr>"
proof -
  have "bddlevel2var s (bddvar2level s x) = x" using perm_okD(3) [OF P] m by (simp add: movable_def)
  moreover note next_var_props(3,4) [OF P m]
  ultimately show ?thesis by (simp add: swap_tables_def Let_def next_var_def)
qed

lemma exchanged_perm:
  assumes P: "perm_ok s" and m: "movable s x" and E: "exchanged s x t"
  shows "perm_ok t"
proof -
  note Y = next_var_props [OF P m] and D = perm_okD [OF P]
  have x: "0 \<le> x" "x < bddvarnum s" "bddvar2level s x < bddvarnum s - 1" using m by (simp_all add: movable_def)
  have t: "bddvarnum t = bddvarnum s"
    "bddvar2level t = (bddvar2level s)(x := bddvar2level s x + 1, next_var s x := bddvar2level s x)"
    "bddlevel2var t = (bddlevel2var s)(bddvar2level s x := next_var s x, bddvar2level s x + 1 := x)"
    using E by (simp_all add: exchanged_def Let_def)
  have ne: "bddvar2level s v \<noteq> bddvar2level s x \<and> bddvar2level s v \<noteq> bddvar2level s x + 1"
    if "0 \<le> v" "v < bddvarnum s" "v \<noteq> x" "v \<noteq> next_var s x" for v
    using level_eq_place [OF P that(1,2)] x(1,2) Y(1-3) that(3,4) by metis
  have nl: "bddlevel2var s l \<noteq> x \<and> bddlevel2var s l \<noteq> next_var s x"
    if "0 \<le> l" "l < bddvarnum s" "l \<noteq> bddvar2level s x" "l \<noteq> bddvar2level s x + 1" for l
    using D(6) [OF that(1,2)] Y(3) that(3,4) by metis
  have lx: "0 \<le> bddvar2level s x" using D(1) x by simp
  show ?thesis
    unfolding perm_ok_def t(1)
  proof (intro conjI allI impI; (elim conjE)?)
    fix v assume v: "0 \<le> v" "v < bddvarnum s"
    show "0 \<le> bddvar2level t v" "bddvar2level t v < bddvarnum s"
      using D(1,2) [OF v] lx x(3) by (simp_all add: t)
    show "bddlevel2var t (bddvar2level t v) = v" using ne [OF v] D(3) [OF v] by (auto simp: t)
  next
    fix l assume l: "0 \<le> l" "l < bddvarnum s"
    show "0 \<le> bddlevel2var t l" "bddlevel2var t l < bddvarnum s"
      using D(4,5) [OF l] x Y(1,2) by (simp_all add: t)
    show "bddvar2level t (bddlevel2var t l) = l" using nl [OF l] D(6) [OF l] Y(4) by (auto simp: t)
  next
    show "bddvar2level t (bddvarnum s) = bddvarnum s" using D(7) x Y(2) by (simp add: t)
  qed
qed

lemma exchanged_place:
  assumes P: "perm_ok s" and m: "movable s x" and E: "exchanged s x t"
  shows "place t n = place2 s x (LEVEL t n)"
  using E next_var_props(4) [OF P m] by (auto simp: exchanged_def Let_def place_def place2_def)

section \<open>The steps together\<close>

definition mid :: "int \<Rightarrow> bdd_state \<Rightarrow> unit bm" where
  "mid x s = bnd (reorder_downSimple x s) (\<lambda>todo s.
     bnd (reorder_swap (mark_fuel s) todo x (next_var s x) s) (\<lambda>_ s. reorder_localGbc x s))"

definition swept :: "bdd_state \<Rightarrow> int \<Rightarrow> (int \<Rightarrow> int) \<Rightarrow> bdd_state \<Rightarrow> bool" where
  "swept s x e u =
     (\<exists>t D. swp s x e t [] \<and> gone t e u D \<and> sound u e \<and> files u (alloc_set u) \<and>
        D \<subseteq> {n. allocd t n \<and> LEVEL t n = next_var s x})"

lemma rmode_levels: "rmode s e \<Longrightarrow> levels_ok s"
  using tree_okD(1,2) [OF rmodeD(4)] by (simp add: levels_ok_def)

lemma swp_sound:
  assumes R: "rmode s e" and m: "movable s x" and S: "swp s x e t []"
  shows "sound t e"
proof -
  have "LOW t n \<noteq> HIGH t n" if "allocd t n" for n using swp_order [OF R m S that] by simp
  then show ?thesis unfolding sound_def using swp_wf [OF R m S] swpD(5,6) [OF S] by blast
qed

lemma swept_none:
  assumes R: "rmode s e" and m: "movable s x" and T: "todo_set s x = {}"
  shows "swept s x e s"
proof -
  note D = rmodeD [OF R]
  have "\<exists>ys :: int list. bddfreenum s = int (length ys)" using D(7) unfolding free_ok_def by (elim exE conjE) (rule exI)
  then have f: "0 \<le> bddfreenum s" by fastforce
  have S: "swp s x e s []"
  proof (rule swp_start [OF R graph_refl])
    show "files s {n. allocd s n \<and> n \<notin> set []}" using D(6) by (simp add: alloc_set_def)
  qed (use f T in simp_all)
  then show ?thesis
    unfolding swept_def using gone_refl swp_sound [OF R m S] D(6) by (intro exI [of _ s] exI [of _ "{}"]) simp
qed

lemma mid_spec:
  assumes R: "rmode s e" and m: "movable s x" and room: "2 * int (card (todo_set s x)) \<le> bddfreenum s"
  shows "\<exists>u. mid x s = ret () u \<and> swept s x e u"
proof -
  note D = rmodeD [OF R] and Y = next_var_props [OF rmodeD(3) [OF R] m]
  have x: "0 \<le> x" "x < bddvarnum s" using m by (simp_all add: movable_def)
  obtain todo t ts where d: "reorder_downSimple x s = ret todo t" "graph s t" "chain (nx t) todo ts" "distinct ts"
    "set ts = todo_set s x" "files t {n. allocd s n \<and> n \<notin> set ts}" "\<forall>n. \<not> allocd s n \<longrightarrow> nx t n = nx s n"
    using reorder_downSimple_spec [OF _ D(2) x] D(6) rmode_levels [OF R]
    unfolding alloc_set_def levels_ok_def todo_set_def by blast
  have G: "stay s t" by (rule graphD(1) [OF d(2)])
  have nv: "next_var t x = next_var s x" by (simp add: next_var_def stayD [OF G])
  have n: "length ts = card (todo_set s x)" using distinct_card [OF d(4)] d(5) by simp
  have S: "swp s x e t ts" by (rule swp_start [OF R d(2,4,5,6)]) (use d(7) room n in auto)
  have len: "length ts < mark_fuel t"
    by (rule filed_length [OF d(4)]) (use d(5) todo_setD(1) graphD(9) [OF d(2)] in auto)
  obtain u where u: "reorder_swap (mark_fuel t) todo x (next_var s x) t = ret () u" "swp s x e u []"
    using reorder_swap_spec [OF R m S d(3) len] by blast
  note U = swpD [OF u(2)]
  have nu: "next_var u x = next_var s x" by (simp add: next_var_def stayD [OF U(1)])
  have "\<exists>v D. reorder_localGbc x u = ret () v \<and> gone u e v D \<and> sound v e \<and> files v (alloc_set v) \<and>
    D \<subseteq> {n. allocd u n \<and> LEVEL u n = next_var u x}"
    by (rule reorder_localGbc_spec [OF _ swp_sound [OF R m u(2)]])
      (use U(4) D(2) Y stayD [OF U(1)] in \<open>simp_all add: nu\<close>)
  then obtain v E where v: "reorder_localGbc x u = ret () v" "gone u e v E" "sound v e" "files v (alloc_set v)"
    "E \<subseteq> {n. allocd u n \<and> LEVEL u n = next_var s x}" unfolding nu by blast
  have "mid x s = ret () v" by (simp add: mid_def d(1) nv u(1) v(1))
  then show ?thesis unfolding swept_def using u(2) v by blast
qed

text \<open>What the state after the steps and the exchange of the tables is like.\<close>

lemma swept_rmode:
  assumes R: "rmode s e" and m: "movable s x" and S: "swept s x e u" and T: "same_table u w" and E: "exchanged s x w"
  shows "rmode w e" "\<And>n. node_id s n \<Longrightarrow> node_id w n \<Longrightarrow> sem w n env = sem s n env"
    "\<And>n. allocd s n \<Longrightarrow> 0 < e n \<Longrightarrow> allocd w n" "\<And>n. allocd s n \<Longrightarrow> LEVEL s n \<noteq> x \<Longrightarrow> LEVEL s n \<noteq> next_var s x \<Longrightarrow> allocd w n"
proof -
  note D = rmodeD [OF R] and W = same_tableD [OF T] and Y = next_var_props [OF rmodeD(3) [OF R] m]
  obtain t G where t: "swp s x e t []" "gone t e u G" "sound u e" "files u (alloc_set u)"
    "G \<subseteq> {n. allocd t n \<and> LEVEL t n = next_var s x}" using S unfolding swept_def by blast
  note P = swpD [OF t(1)]
  have st: "stay s u" using stay_trans [OF P(1)] t(2) by (simp add: gone_def)
  have old: "allocd t n \<and> LEVEL w n = LEVEL t n \<and> LOW w n = LOW t n \<and> HIGH w n = HIGH t n" if "allocd w n" for n
    using t(2) that unfolding gone_def W by (metis DiffE in_alloc)
  have lv: "LEVEL w n = LEVEL t n" for n using t(2) by (simp add: gone_def W)
  have S2: "levels_ok u" "closed_nodes u" "free_ok 2 u" "ref_counted u e" using t(3) by (simp_all add: sound_def)
  have pw: "place w n = place2 s x (LEVEL t n)" for n using exchanged_place [OF D(3) m E] lv by simp
  have const: "LEVEL w c = bddvarnum w" if c: "c = 0 \<or> c = 1" for c
  proof -
    have "LEVEL t c = LEVEL s c" using swp_oldD [OF P(9), of c] c todo_setD(1) [of c s x] not_alloc_const [of s] by (metis Diff_iff node_id_def)
    moreover have "LEVEL s c = bddvarnum s" using c D(4) by (auto simp: tree_ok_def)
    ultimately show ?thesis using stayD(2) [OF st] W(18) by (simp only: lv)
  qed
  have tree: "tree_ok w"
    unfolding tree_ok_def
  proof (intro conjI allI impI)
    fix n assume n: "allocd w n"
    note o = old [OF n]
    show "0 \<le> LEVEL w n" "LEVEL w n < bddvarnum w" using S2(1) n by (simp_all add: levels_ok_def W)
    show "node_id w (LOW w n)" "node_id w (HIGH w n)" using S2(2) n by (simp_all add: closed_nodes_def W)
    have "place2 s x (LEVEL t n) < place2 s x (LEVEL t (LOW t n)) \<and>
        place2 s x (LEVEL t n) < place2 s x (LEVEL t (HIGH t n)) \<and> LOW t n \<noteq> HIGH t n"
      by (rule swp_order [OF R m t(1)]) (use o in simp)
    then show "LOW w n \<noteq> HIGH w n" "place w n < place w (LOW w n)" "place w n < place w (HIGH w n)"
      using o by (simp_all add: pw)
  qed (use const in simp_all)
  have un: "uniq w"
    unfolding uniq_def
  proof (intro allI impI, elim conjE)
    fix a b assume ab: "allocd w a" "allocd w b" "LEVEL w a = LEVEL w b" "LOW w a = LOW w b" "HIGH w a = HIGH w b"
    show "a = b"
      by (rule uniqD [OF swp_unique [OF R m t(1)]]) (use old [OF ab(1)] old [OF ab(2)] ab(3-5) in simp_all)
  qed
  have "bddvarnum w = bddvarnum s" "parts_ok u = parts_ok s" using stayD [OF st] by (simp_all add: W)
  then show "rmode w e"
    using D(1,2) t(4) S2(3,4) exchanged_perm [OF D(3) m E] tree un by (simp add: rmode_def W)
  show "sem w n env = sem s n env" if "node_id s n" "node_id w n" for n
    using same_table_sem [OF T] gone_sem [OF t(2) S2(2)] swp_sem [OF R m t(1) that(1)] that(2) by (simp add: W)
  have al: "allocd w n" if "allocd s n" "n \<notin> G" for n
    using t(2) alloc_mono [OF P(8) that(1)] that(2) unfolding gone_def W by (metis DiffI in_alloc)
  show "allocd w n" if "allocd s n" "0 < e n" for n
    by (rule al [OF that(1)]) (use t(2) that(2) in \<open>auto simp: gone_def\<close>)
  show "allocd w n" if n: "allocd s n" "LEVEL s n \<noteq> x" "LEVEL s n \<noteq> next_var s x" for n
  proof (rule al [OF n(1)])
    have "LEVEL t n = LEVEL s n" using swp_oldD [OF P(9), of n] n todo_setD(2) [of n s x] by (auto simp: node_id_def)
    then show "n \<notin> G" using t(5) n(3) by auto
  qed
qed

section \<open>The exchange\<close>

text \<open>
  The nodes that must stay: the constants, the nodes with a reference from outside, and the nodes of the other variables.
\<close>

definition kept :: "bdd_state \<Rightarrow> int \<Rightarrow> (int \<Rightarrow> int) \<Rightarrow> bdd_state \<Rightarrow> bool" where
  "kept s x e t =
     (\<forall>n. allocd s n \<and> (0 < e n \<or> LEVEL s n \<noteq> x \<and> LEVEL s n \<noteq> next_var s x) \<longrightarrow> allocd t n)"

lemma vardown_run:
  assumes R: "rmode s e" and m: "movable s x" and room: "2 * int (card (todo_set s x)) \<le> bddfreenum s"
    and dep: "imatrixDepends (iactmtx (reo s)) x (next_var s x) \<or> todo_set s x = {}"
  shows "\<exists>w. reorder_vardown x s = ret 0 w \<and> rmode w e \<and> exchanged s x w \<and> kept s x e w \<and>
    pairs w = map (vardown_pair (bddvar2level s x)) (pairs s) \<and>
    (\<forall>n env. node_id s n \<and> node_id w n \<longrightarrow> sem w n env = sem s n env)"
proof -
  let ?l = "bddvar2level s x"
  define s1 where "s1 = upd_reo (\<lambda>r. r\<lparr>resizedInMakenode := False\<rparr>) s"
  have T1: "same_table s s1" by (simp add: s1_def upd_reo_def same_table_def)
  note W1 = same_tableD [OF T1]
  have v1: "bddvar2level s1 = bddvar2level s" "bddlevel2var s1 = bddlevel2var s" "iactmtx (reo s1) = iactmtx (reo s)"
    "pairs s1 = pairs s" "\<not> resizedInMakenode (reo s1)"
    by (simp_all add: s1_def upd_reo_def)
  have R1: "rmode s1 e" using same_table_rmode [OF T1 v1(1,2)] R by simp
  have n1: "next_var s1 x = next_var s x" by (simp add: next_var_def v1)
  have m1: "movable s1 x" using m by (simp add: movable_def v1 W1)
  have t1: "todo_set s1 x = todo_set s x" by (simp add: todo_set_def meets_def n1 W1)
  let ?dep = "imatrixDepends (iactmtx (reo s1)) x (bddlevel2var s1 (?l + 1))"
  have "\<exists>u. (if ?dep then mid x s1 else ret () s1) = ret () u \<and> swept s1 x e u"
  proof (cases ?dep)
    case True
    have "\<exists>u. mid x s1 = ret () u \<and> swept s1 x e u" by (rule mid_spec [OF R1 m1]) (use room in \<open>simp add: t1 W1\<close>)
    then show ?thesis using True by simp
  next
    case False
    then have "todo_set s1 x = {}" using dep by (simp add: v1 next_var_def t1)
    then show ?thesis using False swept_none [OF R1 m1] by (intro exI [of _ s1]) simp
  qed
  then obtain u where u: "(if ?dep then mid x s1 else ret () s1) = ret () u" "swept s1 x e u" by blast
  obtain t D where "swp s1 x e t []" "gone t e u D" using u(2) unfolding swept_def by blast
  then have st: "stay s1 u" using stay_trans swpD(1) by (metis gone_def)
  note U = stayD [OF st]
  define w where "w = bdd_pairs_vardown ?l (swap_tables x ?l u)"
  have Pu: "perm_ok u" using rmodeD(3) [OF R1] by (simp add: perm_ok_def U)
  have mu: "movable u x" "next_var u x = next_var s x" "bddvar2level u = bddvar2level s" "bddlevel2var u = bddlevel2var s"
    using m1 n1 by (simp_all add: movable_def next_var_def U v1)
  have w: "w = (u\<lparr>bddlevel2var := (bddlevel2var s)(?l := next_var s x, ?l + 1 := x),
      bddvar2level := (bddvar2level s)(x := ?l + 1, next_var s x := ?l)\<rparr>)\<lparr>pairs := map (vardown_pair ?l) (pairs s)\<rparr>"
    using swap_tables_eq [OF Pu mu(1)] by (simp add: w_def bdd_pairs_vardown_def mu U v1)
  have T: "same_table u w" by (simp add: same_table_def w)
  have E: "exchanged s x w" "exchanged s1 x w" by (simp_all add: exchanged_def w U v1 W1 n1)
  have res: "\<not> resizedInMakenode (reo w)" by (simp add: w U v1)
  have x: "0 \<le> x" "x < bddvarnum s" "?l < bddvarnum s - 1" using m by (simp_all add: movable_def)
  have run: "reorder_vardown x s = ret 0 w"
    using u(1) x res unfolding reorder_vardown_def Let_def s1_def [symmetric] mid_def w_def by simp
  note F = swept_rmode [OF R1 m1 u(2) T E(2)]
  have "sem s1 n env = sem s n env" for n env by (rule same_table_sem [OF T1])
  then have "\<forall>n env. node_id s n \<and> node_id w n \<longrightarrow> sem w n env = sem s n env" using F(2) by (simp add: W1)
  moreover have "kept s x e w" using F(3,4) unfolding kept_def W1 n1 by blast
  moreover have "pairs w = map (vardown_pair ?l) (pairs s)" by (simp add: w)
  ultimately show ?thesis using run F(1) E(1) by blast
qed

end
