(* ===== verification/PropsReorder.thy ===== *)
theory PropsReorder
  imports SwapVar Example
begin

text \<open>
  The correctness of the exchange of two adjacent variables, on which every reordering method is built, and a
  concrete table in the reordering mode.
\<close>

section \<open>An example\<close>

text \<open>
  Two variables with a sub-table of four entries each: node 5 stands for variable 1, node 6 for the conjunction of
  both; node 6 is referenced from outside.
\<close>

definition rx_table :: "int \<Rightarrow> BddNode" where
  "rx_table n =
     (if n = 0 then ex_node 2 0 0 MAXREF else if n = 1 then ex_node 2 1 1 MAXREF
      else if n = 2 then (ex_node 0 (-1) 0 0)\<lparr>n_next := 3\<rparr>
      else if n = 3 then (ex_node 0 (-1) 0 0)\<lparr>n_next := 4, n_hash := 6\<rparr>
      else if n = 4 then (ex_node 0 (-1) 0 0)\<lparr>n_next := 7\<rparr>
      else if n = 5 then (ex_node 1 0 1 1)\<lparr>n_hash := 5\<rparr> else if n = 6 then ex_node 0 0 5 1
      else if n = 7 then ex_node 0 (-1) 0 0 else zero_node)"

definition rx_levels :: "int \<Rightarrow> levelData" where
  "rx_levels v = \<lparr>lv_start = 4 * v, lv_size = 4, lv_maxsize = 4, lv_nodenum = 1\<rparr>"

definition rx :: bdd_state where
  "rx = boot\<lparr>bddrunning := True, bddnodesize := 8, bddnodes := rx_table, bddvarnum := 2, bddfreepos := 2,
     bddfreenum := 4, bddvar2level := (\<lambda>v. v), bddlevel2var := (\<lambda>v. v),
     reo := zero_reo\<lparr>rlevels := rx_levels, iactmtx := imatrixSet 0 1 (imatrixNew 2)\<rparr>\<rparr>"

lemma rx_sel:
  "bddnodesize rx = 8" "bddvarnum rx = 2" "bddfreepos rx = 2" "bddfreenum rx = 4" "bddvar2level rx v = v"
  "bddlevel2var rx v = v" "iactmtx (reo rx) = imatrixSet 0 1 (imatrixNew 2)" "lvl rx = rx_levels"
  "bddnodes rx = rx_table"
  by (simp_all add: rx_def fun_eq_iff lvl_def)

lemma rx_acc:
  "LEVEL rx n = n_level (rx_table n)" "LOW rx n = n_low (rx_table n)" "HIGH rx n = n_high (rx_table n)"
  "nx rx n = n_next (rx_table n)" "bucket rx n = n_hash (rx_table n)" "rc rx n = n_refcou (rx_table n)"
  by (simp_all add: rx_sel LEVEL_def LOW_def HIGH_def nx_def bucket_def rc_def)

lemma rx_alloc: "allocd rx n = (n = 5 \<or> n = 6)"
  by (auto simp: allocd_def rx_sel rx_acc rx_table_def)

lemma rx_alloc_set: "alloc_set rx = {5, 6}"
  by (auto simp: rx_alloc)

lemma rx_entries:
  "rx_table 0 = ex_node 2 0 0 MAXREF" "rx_table 1 = ex_node 2 1 1 MAXREF"
  "rx_table 5 = (ex_node 1 0 1 1)\<lparr>n_hash := 5\<rparr>" "rx_table 6 = ex_node 0 0 5 1"
  by (simp_all add: rx_table_def)

lemma rx_parts: "part rx v = {4 * v..<4 * v + 4}"
  by (simp add: part_def rx_sel rx_levels_def)

lemma rx_vars: "0 \<le> v \<and> v < (2 :: int) \<longleftrightarrow> v = 0 \<or> v = 1"
  by auto

lemma rx_parts_ok: "parts_ok rx"
  unfolding parts_ok_def rx_sel rx_parts rx_levels_def by (auto simp: rx_vars)

lemma rx_perm: "perm_ok rx"
  by (simp add: perm_ok_def rx_sel)

lemma rx_tree: "tree_ok rx"
  by (auto simp: tree_ok_def rx_alloc node_id_def place_def rx_acc rx_entries rx_sel)

lemma rx_uniq: "uniq rx"
  by (auto simp: uniq_def rx_alloc rx_acc rx_entries)

lemma rx_hash: "hash_of rx 5 = 5" "hash_of rx 6 = 3"
  by (simp_all add: hash_of_def RHASH_def PAIR_def Let_def u32_def rx_acc rx_entries rx_sel rx_levels_def)

lemma rx_filed: "filed rx (alloc_set rx) b" if "0 \<le> b" "b < 8"
proof -
  have "{n \<in> alloc_set rx. hash_of rx n = b} = (if b = 5 then {5} else if b = 3 then {6} else {})"
    by (auto simp: rx_alloc_set rx_hash)
  then have "chain (nx rx) (bucket rx b) (if b = 5 then [5] else if b = 3 then [6] else []) \<and>
      set (if b = 5 then [5] else if b = 3 then [6] else []) = {n \<in> alloc_set rx. hash_of rx n = b}"
    by (auto simp: rx_acc rx_table_def ex_node_def zero_node_def)
  then show ?thesis
    unfolding filed_def by (intro exI [of _ "if b = 5 then [5] else if b = 3 then [6] else []"]) simp
qed

lemma rx_files: "files rx (alloc_set rx)"
  unfolding files_def rx_sel rx_parts using rx_filed by (auto simp: rx_vars)

lemma rx_free: "free_ok 2 rx"
proof -
  have "chain (nx rx) (bddfreepos rx) [2, 3, 4, 7]"
    by (simp add: rx_sel rx_acc rx_table_def ex_node_def zero_node_def)
  moreover have "set [2, 3, 4, 7] = {m. 2 \<le> m \<and> m < bddnodesize rx \<and> LOW rx m = -1}"
    by (auto simp: rx_sel rx_acc rx_table_def)
  moreover have "distinct [2, 3, 4, 7 :: int]" "bddfreenum rx = int (length [2, 3, 4, 7 :: int])" by (simp_all add: rx_sel)
  ultimately show ?thesis unfolding free_ok_def by blast
qed

definition rx_refs :: "int \<Rightarrow> int" where "rx_refs n = (if n = 6 then 1 else 0)"

lemma rx_counted: "ref_counted rx rx_refs"
  by (auto simp: ref_counted_def rx_alloc rx_alloc_set parents_def edges_def rx_refs_def rx_acc rx_table_def MAXREF_def
      split: if_splits)

lemma rx_rmode: "rmode rx rx_refs"
  using rx_parts_ok rx_perm rx_tree rx_uniq rx_files rx_free rx_counted by (simp add: rmode_def rx_sel MAXVAR_def)

lemma rx_next: "next_var rx 0 = 1"
  by (simp add: next_var_def rx_sel)

lemma rx_movable: "movable rx 0"
  by (simp add: movable_def rx_sel)

lemma rx_todo: "todo_set rx 0 = {6}"
  by (auto simp: todo_set_def meets_def rx_next rx_alloc rx_acc rx_entries)

lemma rx_depends: "imatrixDepends (iactmtx (reo rx)) 0 (next_var rx 0)"
  by (simp add: rx_sel rx_next depends_set)

section \<open>The exchange\<close>

text \<open>
  C33. \<open>reorder_vardown\<close>: in the reordering mode (\<open>rmode\<close>: the node table is a reduced, ordered diagram without
  duplicates, each node is in the right bucket of the sub-table of its variable, the free list is complete and the
  reference counts are the numbers of edges plus the outside references \<open>e\<close>), moving a variable that is not the
  lowest one down by one level returns 0 and gives a table with the same properties for the exchanged
  order. The variable tables and the pairs are exchanged; nodes with outside references and nodes of other
  variables stay; and every node that is still there stands for the same function of the variables as before.
  The interaction matrix must not deny an edge from \<open>x\<close> to the next variable, and the free list must
  have two entries for each node to be rebuilt, so that the table need not grow in between.
\<close>

theorem reorder_vardown_correct:
  assumes "rmode s e" "movable s x" "2 * int (card (todo_set s x)) \<le> bddfreenum s"
    "imatrixDepends (iactmtx (reo s)) x (next_var s x) \<or> todo_set s x = {}"
  shows "\<exists>t. reorder_vardown x s = ret 0 t \<and> rmode t e \<and> exchanged s x t \<and> kept s x e t \<and>
    pairs t = map (vardown_pair (bddvar2level s x)) (pairs s) \<and>
    (\<forall>n env. node_id s n \<and> node_id t n \<longrightarrow> sem t n env = sem s n env)"
  by (rule vardown_run [OF assms])

theorem reorder_vardown_correct_example:
  "\<exists>t. reorder_vardown 0 rx = ret 0 t \<and> rmode t rx_refs \<and> bddlevel2var t 0 = 1 \<and> bddlevel2var t 1 = 0 \<and>
     allocd t 6 \<and> (\<forall>env. sem t 6 env = sem rx 6 env)"
proof -
  have "2 * int (card (todo_set rx 0)) \<le> bddfreenum rx" by (simp add: rx_todo rx_sel)
  then obtain t where t: "reorder_vardown 0 rx = ret 0 t" "rmode t rx_refs" "exchanged rx 0 t" "kept rx 0 rx_refs t"
    "\<forall>n env. node_id rx n \<and> node_id t n \<longrightarrow> sem t n env = sem rx n env"
    using reorder_vardown_correct [OF rx_rmode rx_movable] rx_depends by blast
  have "allocd t 6" using t(4) by (auto simp: kept_def rx_alloc rx_refs_def)
  moreover have "bddlevel2var t 0 = 1" "bddlevel2var t 1 = 0" using t(3) by (simp_all add: exchanged_def rx_next rx_sel Let_def)
  ultimately show ?thesis using t by (auto simp: node_id_def rx_alloc)
qed

section \<open>The interaction matrix\<close>



end
