(* ===== verification/CText.thy ===== *)
theory CText
  imports Macros
begin

text \<open>
  The part of the C library that reads and writes text, as far as \<^verbatim>\<open>bddio.c\<close> uses it: \<open>%d\<close> and \<open>%5d\<close>
  of \<open>fprintf\<close>, \<open>strtol\<close>, \<open>strtok\<close> with blanks and \<open>%d\<close> of \<open>sscanf\<close>. Texts are lists of
  characters. What is printed is read back.
\<close>

section \<open>Printing\<close>

definition digit_chr :: "nat \<Rightarrow> char" where "digit_chr d = char_of (48 + d)"

fun nat_dec :: "nat \<Rightarrow> string" where
  "nat_dec n = (if n < 10 then [digit_chr n] else nat_dec (n div 10) @ [digit_chr (n mod 10)])"

declare nat_dec.simps [simp del]

definition show_int :: "int \<Rightarrow> string" where
  "show_int n = (if n < 0 then CHR ''-'' # nat_dec (nat (- n)) else nat_dec (nat n))"

definition pad :: "nat \<Rightarrow> string \<Rightarrow> string" where
  "pad w s = replicate (w - length s) (CHR '' '') @ s"

definition nl :: string where "nl = [CHR 0x0A]"

section \<open>Reading\<close>

definition blank :: "char \<Rightarrow> bool" where
  "blank c = (c = CHR '' '' \<or> 9 \<le> (of_char c :: nat) \<and> (of_char c :: nat) \<le> 13)"

definition digit_val :: "char \<Rightarrow> nat option" where
  "digit_val c = (let n = of_char c in if 48 \<le> n \<and> n \<le> 57 then Some (n - 48) else None)"

fun scan_digits :: "nat \<Rightarrow> string \<Rightarrow> nat \<times> string" where
  "scan_digits n [] = (n, [])"
| "scan_digits n (c # cs) = (case digit_val c of Some d \<Rightarrow> scan_digits (10 * n + d) cs | None \<Rightarrow> (n, c # cs))"

definition starts_digit :: "string \<Rightarrow> bool" where
  "starts_digit s = (case s of [] \<Rightarrow> False | c # _ \<Rightarrow> digit_val c \<noteq> None)"

text \<open>The value is cut to the range of \<open>long\<close>; without digits nothing is read.\<close>

definition long_range :: "int \<Rightarrow> int" where
  "long_range n = max (- (2 ^ 63)) (min (2 ^ 63 - 1) n)"

definition scan_int :: "string \<Rightarrow> (int \<times> string) option" where
  "scan_int s = (let
     t = dropWhile blank s;
     neg = (t \<noteq> [] \<and> hd t = CHR ''-'');
     u = (if t \<noteq> [] \<and> (hd t = CHR ''-'' \<or> hd t = CHR ''+'') then tl t else t)
   in if starts_digit u
      then let (n, rest) = scan_digits 0 u in Some (long_range (if neg then - int n else int n), rest)
      else None)"

definition strtol :: "string \<Rightarrow> int \<times> string" where
  "strtol s = (case scan_int s of Some r \<Rightarrow> r | None \<Rightarrow> (0, s))"

text \<open>\<open>strtok (line, " ")\<close> and the calls after it.\<close>

function tokens :: "string \<Rightarrow> string list" where
  "tokens s = (let t = dropWhile (\<lambda>c. c = CHR '' '') s in
     if t = [] then [] else takeWhile (\<lambda>c. c \<noteq> CHR '' '') t # tokens (dropWhile (\<lambda>c. c \<noteq> CHR '' '') t))"
  by pat_completeness auto
termination
proof (relation "measure length")
  fix s t :: string
  assume t: "t = dropWhile (\<lambda>c. c = CHR '' '') s" "t \<noteq> []"
  then obtain c cs where c: "t = c # cs" by (meson list.exhaust)
  have "c \<noteq> CHR '' ''" using hd_dropWhile [of "\<lambda>c. c = CHR '' ''" s] t c by (metis list.sel(1))
  then have "length (dropWhile (\<lambda>c. c \<noteq> CHR '' '') t) < length t"
    using c by (simp add: le_imp_less_Suc length_dropWhile_le)
  also have "length t \<le> length s" unfolding t(1) by (rule length_dropWhile_le)
  finally show "(dropWhile (\<lambda>c. c \<noteq> CHR '' '') t, s) \<in> measure length" by simp
qed simp

declare tokens.simps [simp del]

section \<open>What is printed is read back\<close>

lemma digit_val_chr: "d < 10 \<Longrightarrow> digit_val (digit_chr d) = Some d"
  by (simp add: digit_val_def digit_chr_def of_char_of Let_def)

lemma digit_not_blank: "digit_val c \<noteq> None \<Longrightarrow> \<not> blank c \<and> c \<noteq> CHR ''-'' \<and> c \<noteq> CHR ''+'' \<and> c \<noteq> CHR '' ''"
  by (auto simp: digit_val_def blank_def Let_def split: if_splits)

definition all_digits :: "string \<Rightarrow> bool" where
  "all_digits s = (s \<noteq> [] \<and> list_all (\<lambda>c. digit_val c \<noteq> None) s)"

lemma all_digits_dec: "all_digits (nat_dec n)"
proof (induction n rule: nat_dec.induct)
  case (1 n)
  then show ?case
    by (subst nat_dec.simps) (auto simp: all_digits_def digit_val_chr)
qed

lemma scan_digits_append:
  "list_all (\<lambda>c. digit_val c \<noteq> None) s \<Longrightarrow> scan_digits n (s @ t) = scan_digits (fst (scan_digits n s)) t"
  by (induction s arbitrary: n) (auto split: option.splits)

lemma scan_stop: "\<not> starts_digit t \<Longrightarrow> scan_digits n t = (n, t)"
  by (cases t) (auto simp: starts_digit_def split: option.splits)

lemma scan_dec: "scan_digits 0 (nat_dec n) = (n, [])"
proof (induction n rule: nat_dec.induct)
  case (1 n)
  show ?case
  proof (cases "n < 10")
    case True
    then show ?thesis by (subst nat_dec.simps) (simp add: digit_val_chr)
  next
    case False
    have "list_all (\<lambda>c. digit_val c \<noteq> None) (nat_dec (n div 10))" using all_digits_dec by (simp add: all_digits_def)
    then show ?thesis
      using False 1 by (subst nat_dec.simps) (simp add: scan_digits_append digit_val_chr)
  qed
qed

lemma all_digits_start: "all_digits s \<Longrightarrow> starts_digit (s @ t)"
  by (cases s) (auto simp: all_digits_def starts_digit_def)

lemma all_digits_drop: "all_digits s \<Longrightarrow> dropWhile blank (s @ t) = s @ t"
  using digit_not_blank by (cases s) (auto simp: all_digits_def)

text \<open>A number in the range of \<open>int\<close>, followed by something that is not a digit.\<close>

definition int_range :: "int \<Rightarrow> bool" where "int_range n = (- (2 ^ 31) \<le> n \<and> n < 2 ^ 31)"

lemma scan_show:
  assumes r: "int_range n" and t: "\<not> starts_digit t" and b: "list_all blank b"
  shows "scan_int (b @ show_int n @ t) = Some (n, t)"
proof -
  have db: "dropWhile blank (b @ u) = dropWhile blank u" for u
    using b by (induction b) auto
  have d: "all_digits (nat_dec m)" for m by (rule all_digits_dec)
  have all: "list_all (\<lambda>c. digit_val c \<noteq> None) (nat_dec m)" for m using d by (simp add: all_digits_def)
  have sc: "scan_digits 0 (nat_dec m @ t) = (m, t)" for m
    by (simp add: scan_digits_append [OF all] scan_dec scan_stop [OF t])
  have lr: "long_range n = n" using r by (simp add: int_range_def long_range_def)
  show ?thesis
  proof (cases "n < 0")
    case True
    then have "show_int n = CHR ''-'' # nat_dec (nat (- n))" by (simp add: show_int_def)
    moreover have "\<not> blank (CHR ''-'')" by (simp add: blank_def)
    ultimately show ?thesis
      using True lr by (simp add: scan_int_def db all_digits_start [OF d] sc)
  next
    case False
    obtain c cs where c: "nat_dec (nat n) = c # cs" "digit_val c \<noteq> None"
      using d [of "nat n"] by (cases "nat_dec (nat n)") (auto simp: all_digits_def)
    note nb = digit_not_blank [OF c(2)]
    have "scan_digits 0 (c # cs @ t) = (nat n, t)" using sc [of "nat n"] c(1) by simp
    moreover have "starts_digit (c # cs @ t)" using c(2) by (simp add: starts_digit_def)
    ultimately show ?thesis
      using False lr nb by (simp add: scan_int_def db show_int_def c(1))
  qed
qed

lemma strtol_show: "int_range n \<Longrightarrow> \<not> starts_digit t \<Longrightarrow> strtol (show_int n @ t) = (n, t)"
  using scan_show [of n t "[]"] by (simp add: strtol_def)

text \<open>Tokens.\<close>

definition solid :: "string \<Rightarrow> bool" where
  "solid s = (s \<noteq> [] \<and> CHR '' '' \<notin> set s)"

lemma tokens_nil [simp]: "tokens [] = []"
  by (simp add: tokens.simps)

lemma tokens_blank: "tokens (CHR '' '' # s) = tokens s"
  by (subst tokens.simps) (simp add: tokens.simps [of s])

lemma solid_take: "CHR '' '' \<notin> set s \<Longrightarrow> takeWhile (\<lambda>c. c \<noteq> CHR '' '') (s @ CHR '' '' # t) = s"
  by (induction s) auto

lemma solid_drop: "CHR '' '' \<notin> set s \<Longrightarrow> dropWhile (\<lambda>c. c \<noteq> CHR '' '') (s @ CHR '' '' # t) = CHR '' '' # t"
  by (induction s) auto

lemma tokens_cons: "solid s \<Longrightarrow> tokens (s @ CHR '' '' # t) = s # tokens t"
proof -
  assume s: "solid s"
  then have d: "dropWhile (\<lambda>c. c = CHR '' '') (s @ CHR '' '' # t) = s @ CHR '' '' # t"
    by (cases s) (auto simp: solid_def)
  show ?thesis
    using s by (subst tokens.simps) (simp add: d solid_def solid_take solid_drop tokens_blank)
qed

lemma tokens_last: "solid s \<Longrightarrow> tokens s = [s]"
proof -
  assume s: "solid s"
  then have "dropWhile (\<lambda>c. c = CHR '' '') s = s" by (cases s) (auto simp: solid_def)
  moreover have "takeWhile (\<lambda>c. c \<noteq> CHR '' '') s = s" "dropWhile (\<lambda>c. c \<noteq> CHR '' '') s = []"
    using s by (auto simp: solid_def takeWhile_eq_all_conv dropWhile_eq_Nil_conv)
  ultimately show ?thesis using s by (subst tokens.simps) (simp only: Let_def if_False solid_def tokens_nil)
qed

lemma solid_show: "solid (show_int n)" "solid (show_int n @ nl)"
proof -
  have "CHR '' '' \<notin> set (nat_dec m) \<and> nat_dec m \<noteq> []" for m
    using all_digits_dec [of m] digit_not_blank [of "CHR '' ''"] by (auto simp: all_digits_def list_all_iff)
  then show "solid (show_int n)" "solid (show_int n @ nl)"
    by (auto simp: solid_def show_int_def nl_def)
qed

end
