(* ===== verification/Bddio.thy ===== *)
theory Bddio
  imports CText Bddop KernelInit
begin

text \<open>
  Model of the writing half of \<^verbatim>\<open>src/bddio.c\<close>: what the functions print, as text, and \<open>bdd_save\<close>.
  The file handler of the user turns a variable into text; without one the number of the variable is printed. The
  DOT output of edge-valued diagrams is left out with those diagrams.
\<close>

definition BDD_FILE :: int where "BDD_FILE = -6"
definition BDD_FORMAT :: int where "BDD_FORMAT = -7"

section \<open>Printing\<close>

type_synonym filehandler = "(int \<Rightarrow> string) option"

text \<open>The result and the new value of the static variable.\<close>

definition bdd_file_hook :: "filehandler \<Rightarrow> filehandler \<Rightarrow> filehandler \<times> filehandler" where
  "bdd_file_hook handler filehandler = (filehandler, handler)"

definition print_var :: "filehandler \<Rightarrow> nat \<Rightarrow> int \<Rightarrow> string" where
  "print_var h w v = (case h of Some f \<Rightarrow> f v | None \<Rightarrow> pad w (show_int v))"

definition print_row :: "filehandler \<Rightarrow> bdd_state \<Rightarrow> int \<Rightarrow> string" where
  "print_row h s n =
     print_var h 3 (bddlevel2var s (LEVEL s n)) @ '': '' @ pad 3 (show_int (LOW s n)) @ '' '' @
     pad 3 (show_int (HIGH s n)) @ nl"

primrec printall_loop :: "nat \<Rightarrow> int \<Rightarrow> filehandler \<Rightarrow> bdd_state \<Rightarrow> string" where
  "printall_loop 0 n h s = []"
| "printall_loop (Suc k) n h s =
     (if LOW s n \<noteq> -1
      then ''['' @ pad 5 (show_int n) @ '' - '' @ pad 2 (show_int (n_refcou (bddnodes s n))) @ ''] '' @ print_row h s n
      else []) @ printall_loop k (n + 1) h s"

definition bdd_fprintall :: "filehandler \<Rightarrow> bdd_state \<Rightarrow> string" where
  "bdd_fprintall h s = printall_loop (nat (bddnodesize s)) 0 h s"

definition bdd_printall :: "filehandler \<Rightarrow> bdd_state \<Rightarrow> string" where
  "bdd_printall h s = bdd_fprintall h s"

primrec printtable_loop :: "nat \<Rightarrow> int \<Rightarrow> filehandler \<Rightarrow> bdd_state \<Rightarrow> string \<times> bdd_state" where
  "printtable_loop 0 n h s = ([], s)"
| "printtable_loop (Suc k) n h s =
     (if MARKED s n
      then let s = UNMARK n s; (out, t) = printtable_loop k (n + 1) h s
        in (''['' @ pad 5 (show_int n) @ ''] '' @ print_row h s n @ out, t)
      else printtable_loop k (n + 1) h s)"

definition bdd_fprinttable :: "filehandler \<Rightarrow> BDD \<Rightarrow> bdd_state \<Rightarrow> string bm" where
  "bdd_fprinttable h r s = (let out0 = ''ROOT: '' @ show_int r @ nl in
     if r < 2 then ret out0 s
     else bnd (bdd_mark (mark_fuel s) r s) (\<lambda>_ s.
       let (out, s) = printtable_loop (nat (bddnodesize s)) 0 h s in ret (out0 @ out) s))"

definition bdd_printtable :: "filehandler \<Rightarrow> BDD \<Rightarrow> bdd_state \<Rightarrow> string bm" where
  "bdd_printtable h r s = bdd_fprinttable h r s"

primrec printset_line :: "int list \<Rightarrow> bool \<Rightarrow> filehandler \<Rightarrow> (int \<Rightarrow> int) \<Rightarrow> bdd_state \<Rightarrow> string" where
  "printset_line [] first h vs s = []"
| "printset_line (n # ns) first h vs s =
     (if vs n > 0
      then (if first then [] else '', '') @ print_var h 0 (bddlevel2var s n) @ '':'' @
        show_int (if vs n = 2 then 1 else 0) @ printset_line ns False h vs s
      else printset_line ns first h vs s)"

primrec bdd_printset_rec ::
    "nat \<Rightarrow> filehandler \<Rightarrow> BDD \<Rightarrow> (int \<Rightarrow> int) \<Rightarrow> bdd_state \<Rightarrow> (string \<times> (int \<Rightarrow> int)) bm" where
  "bdd_printset_rec 0 h r vs s = fail Nofuel s"
| "bdd_printset_rec (Suc k) h r vs s =
     (if r = 0 then ret ([], vs) s
      else if r = 1 then ret (''<'' @ printset_line [0..bddvarnum s - 1] True h vs s @ ''>'', vs) s
      else
        bnd (bdd_printset_rec k h (LOW s r) (vs(LEVEL s r := 1)) s) (\<lambda>(lo, vs) s.
        bnd (bdd_printset_rec k h (HIGH s r) (vs(LEVEL s r := 2)) s) (\<lambda>(hi, vs) s.
        ret (lo @ hi, vs(LEVEL s r := 0)) s)))"

definition bdd_fprintset :: "filehandler \<Rightarrow> BDD \<Rightarrow> bdd_state \<Rightarrow> string bm" where
  "bdd_fprintset h r s =
     (if r < 2 then ret (if r = 0 then ''F'' else ''T'') s
      else bnd (bdd_printset_rec (mark_fuel s) h r (\<lambda>_. 0) s) (\<lambda>(out, vs) s. ret out s))"

definition bdd_printset :: "filehandler \<Rightarrow> BDD \<Rightarrow> bdd_state \<Rightarrow> string bm" where
  "bdd_printset h r s = bdd_fprintset h r s"

section \<open>DOT\<close>

definition dot_edge :: "BDD \<Rightarrow> BDD \<Rightarrow> string \<Rightarrow> string" where
  "dot_edge r c style = show_int r @ '' -> '' @ show_int c @ '' [style='' @ style @ ''];'' @ nl"

definition dot_label :: "BDD \<Rightarrow> string \<Rightarrow> string" where
  "dot_label r rest = show_int r @ '' [label='' @ [CHR 0x22] @ rest"

text \<open>\<open>p\<close> is the caller's function that prints a terminal node.\<close>

primrec bdd_fprintdot_rec :: "nat \<Rightarrow> filehandler \<Rightarrow> BDD \<Rightarrow> (BDD \<Rightarrow> string) \<Rightarrow> bdd_state \<Rightarrow> string bm" where
  "bdd_fprintdot_rec 0 h r p s = fail Nofuel s"
| "bdd_fprintdot_rec (Suc k) h r p s =
     (if ISCONST r then ret [] s
      else if MARKED s r then ret [] s
      else if ISTERMINAL s r then ret (dot_label r (p r @ [CHR 0x22] @ '',shape=box];'' @ nl)) s
      else let
          out = dot_label r (print_var h 0 (bddlevel2var s (LEVEL s r)) @ [CHR 0x22] @ ''];'' @ nl) @
            dot_edge r (LOW s r) ''dotted'' @ dot_edge r (HIGH s r) ''filled'';
          s = SETMARK r s
        in bnd (bdd_fprintdot_rec k h (LOW s r) p s) (\<lambda>lo s.
           bnd (bdd_fprintdot_rec k h (HIGH s r) p s) (\<lambda>hi s. ret (out @ lo @ hi) s)))"

definition const_box :: "string \<Rightarrow> string" where
  "const_box c = c @ '' [shape=box, label='' @ [CHR 0x22] @ c @ [CHR 0x22] @
     '', style=filled, shape=box, height=0.3, width=0.3];'' @ nl"

definition bdd_fprintdot :: "filehandler \<Rightarrow> BDD \<Rightarrow> (BDD \<Rightarrow> string) \<Rightarrow> bdd_state \<Rightarrow> string bm" where
  "bdd_fprintdot h r p s =
     bnd (bdd_fprintdot_rec (mark_fuel s) h r p s) (\<lambda>out s.
     bnd (bdd_unmark (mark_fuel s) r s) (\<lambda>_ s.
     ret (''digraph G {'' @ nl @ const_box ''0'' @ const_box ''1'' @ out @ ''}'' @ nl) s))"

definition bdd_printdot :: "filehandler \<Rightarrow> BDD \<Rightarrow> (BDD \<Rightarrow> string) \<Rightarrow> bdd_state \<Rightarrow> string bm" where
  "bdd_printdot h r p s = bdd_fprintdot h r p s"

text \<open>\<open>opens\<close>: the file can be opened. The result is the code and the contents of the file.\<close>

definition bdd_fnprintdot ::
    "bool \<Rightarrow> filehandler \<Rightarrow> BDD \<Rightarrow> (BDD \<Rightarrow> string) \<Rightarrow> bdd_state \<Rightarrow> (int \<times> string) bm" where
  "bdd_fnprintdot opens h r p s =
     (if \<not> opens then bnd (bdd_error BDD_FILE s) (\<lambda>e s. ret (e, []) s)
      else bnd (bdd_fprintdot h r p s) (\<lambda>out s. ret (0, out) s))"

text \<open>
  The variant for MTBDDs prints the value of a terminal with the function registered for its type
  (\<open>tostr\<close> maps the registered number to the user's function). Without one an error is reported and a null pointer is
  called.
\<close>

primrec buddy_mtbdd_fprintdot_rec ::
    "nat \<Rightarrow> filehandler \<Rightarrow> (nat \<Rightarrow> int \<Rightarrow> string) \<Rightarrow> BDD \<Rightarrow> bdd_state \<Rightarrow> string bm" where
  "buddy_mtbdd_fprintdot_rec 0 h tostr r s = fail Nofuel s"
| "buddy_mtbdd_fprintdot_rec (Suc k) h tostr r s =
     (if ISCONST r then ret (const_box (show_int r)) s
      else if MARKED s r then ret [] s
      else if ISTERMINAL s r
      then bnd (mtbdd_getvaluep (bddnodes s r) s) (\<lambda>v s.
        case toStrFun (type_functions s (n_low (bddnodes s r))) of
          None \<Rightarrow> bnd (bdd_error BDD_OP s) (\<lambda>_ s. fail Trap s)
        | Some f \<Rightarrow>
            ret (dot_label r (tostr f v @ [CHR 0x22] @ '', style=filled,shape=box];'' @ nl)) (SETMARK r s))
      else let
          out = dot_label r (print_var h 0 (bddlevel2var s (LEVEL s r)) @ [CHR 0x22] @ ''];'' @ nl) @
            dot_edge r (LOW s r) ''dashed'' @ dot_edge r (HIGH s r) ''filled'';
          s = SETMARK r s
        in bnd (buddy_mtbdd_fprintdot_rec k h tostr (LOW s r) s) (\<lambda>lo s.
           bnd (buddy_mtbdd_fprintdot_rec k h tostr (HIGH s r) s) (\<lambda>hi s. ret (out @ lo @ hi) s)))"

definition buddy_mtbdd_fprintdot ::
    "filehandler \<Rightarrow> (nat \<Rightarrow> int \<Rightarrow> string) \<Rightarrow> BDD \<Rightarrow> bdd_state \<Rightarrow> string bm" where
  "buddy_mtbdd_fprintdot h tostr r s =
     bnd (buddy_mtbdd_fprintdot_rec (mark_fuel s) h tostr r s) (\<lambda>out s.
     bnd (bdd_unmark (mark_fuel s) r s) (\<lambda>_ s.
     ret (''digraph G {'' @ nl @ ''invisible [shape=point, width=0, label='' @ [CHR 0x22, CHR 0x22] @ ''];'' @
       ''invisible -> '' @ show_int r @ '' [style=solid];'' @ out @ ''}'' @ nl) s))"

section \<open>Saving\<close>

text \<open>One line of a file: \<open>id[var] low high\<close>.\<close>

definition node_line :: "int \<Rightarrow> int \<Rightarrow> int \<Rightarrow> int \<Rightarrow> string" where
  "node_line n v lo hi =
     show_int n @ ''['' @ show_int v @ ''] '' @ show_int lo @ '' '' @ show_int hi @ nl"

text \<open>The result is the error code and the lines written.\<close>

primrec bdd_save_rec :: "nat \<Rightarrow> BDD \<Rightarrow> bdd_state \<Rightarrow> (int \<times> string list) bm" where
  "bdd_save_rec 0 r s = fail Nofuel s"
| "bdd_save_rec (Suc k) r s =
     (if r < 2 then ret (0, []) s
      else if MARKED s r then ret (0, []) s
      else let s = SETMARK r s in
        bnd (bdd_save_rec k (LOW s r) s) (\<lambda>(err, lo) s.
        if err < 0 then ret (err, lo) s
        else bnd (bdd_save_rec k (HIGH s r) s) (\<lambda>(err, hi) s.
          if err < 0 then ret (err, lo @ hi) s
          else ret (0, lo @ hi @
            [node_line r (bddlevel2var s (LEVEL s r)) (LOW s r) (HIGH s r)]) s)))"

definition bdd_save :: "BDD \<Rightarrow> bdd_state \<Rightarrow> (int \<times> string list) bm" where
  "bdd_save r s =
     (if r < 2 then ret (0, [''%Vars 0'' @ nl, ''%Nodes 0'' @ nl, ''%Root '' @ show_int r @ nl]) s
      else
        bnd (bdd_markcount (mark_fuel s) r 0 s) (\<lambda>n s.
        bnd (bdd_unmark (mark_fuel s) r s) (\<lambda>_ s. let
          out = [''%Vars '' @ show_int (bddvarnum s) @ nl, ''%Nodes '' @ show_int n @ nl,
            ''%Root '' @ show_int r @ nl,
            ''%Ordering '' @ concat (map (\<lambda>v. show_int (bddvar2level s v) @ '' '') [0..bddvarnum s - 1]) @ nl]
        in
        bnd (bdd_save_rec (mark_fuel s) r s) (\<lambda>(err, lines) s.
        bnd (bdd_unmark (mark_fuel s) r s) (\<lambda>_ s. ret (err, out @ lines) s)))))"

text \<open>The result is the code and the text of the file.\<close>

definition bdd_fnsave :: "bool \<Rightarrow> BDD \<Rightarrow> string \<Rightarrow> string \<Rightarrow> bdd_state \<Rightarrow> (int \<times> string) bm" where
  "bdd_fnsave opens r bddname bddtype s =
     (if \<not> opens then bnd (bdd_error BDD_FILE s) (\<lambda>e s. ret (e, []) s)
      else bnd (bdd_save r s) (\<lambda>(ok, out) s.
        ret (ok, ''@'' @ bddtype @ nl @ ''%Name '' @ bddname @ nl @ concat out) s))"

end
