(* ===== verification/SaveLines.thy ===== *)
theory SaveLines
  imports Bddio Sem
begin

text \<open>
  What \<open>bdd_save\<close> writes: one line for each node of the diagram, children before parents and the root last; the
  table is unchanged afterwards. All the traversals see the marks as a decoration of the table.
\<close>

section \<open>Counting and removing marks\<close>

lemma decor_l2v [simp]: "bddlevel2var (decor m h s) = bddlevel2var s" "bddvar2level (decor m h s) = bddvar2level s"
  "bddvarnum (decor m h s) = bddvarnum s"
  by (simp_all add: decor_def)

text \<open>An allocated node of a plain table, with its children.\<close>

lemma plain_node:
  assumes "tab_inv s" "bdd_table s" "node_id s i" "\<not> i < 2"
  shows "allocd s i" "inner s i" "LOW s i \<noteq> -1" "node_id s (LOW s i)" "node_id s (HIGH s i)"
    "LEVEL s i < LEVEL s (LOW s i)" "LEVEL s i < LEVEL s (HIGH s i)"
  using bdd_node(4,7-10) [OF assms(2,1,3)] assms(3,4) by (auto simp: node_id_def allocd_def)

lemma card_unmarked_set: "allocd s i \<Longrightarrow> \<not> m i \<Longrightarrow> card (unmarked s m) = Suc (card (unmarked s (m(i := True))))"
proof -
  assume "allocd s i" "\<not> m i"
  then have "unmarked s m = insert i (unmarked s (m(i := True)))" "i \<notin> unmarked s (m(i := True))"
    by (auto simp: unmarked_def)
  then show ?thesis by (simp add: card_insert_if)
qed

lemma bdd_markcount_spec:
  assumes I: "tab_inv s" "bdd_table s"
  shows "node_id s i \<Longrightarrow> card (unmarked s m) < k \<Longrightarrow>
    \<exists>m'. bdd_markcount k i cou (decor m h s) =
        ret (cou + int (card (unmarked s m)) - int (card (unmarked s m'))) (decor m' h s) \<and> marks_from s i m m'"
proof (induction k arbitrary: i m cou)
  case 0
  then show ?case by simp
next
  case (Suc k)
  show ?case
  proof (cases "i < 2 \<or> m i")
    case True
    then show ?thesis by (intro exI [of _ m]) (auto intro: marks_from_nothing simp: marked_def)
  next
    case False
    note N = plain_node [OF I Suc.prems(1)]
    have i: "allocd s i" "inner s i" "\<not> i < 2" "\<not> m i" "LOW s i \<noteq> -1" using N False by auto
    let ?m = "m(i := True)"
    have c0: "card (unmarked s m) = Suc (card (unmarked s ?m))" by (rule card_unmarked_set [where m = m, OF i(1,4)])
    then have c: "card (unmarked s ?m) < k" using Suc.prems(2) by simp
    obtain m1 where m1: "bdd_markcount k (LOW s i) (cou + 1) (decor ?m h s) =
        ret (cou + 1 + int (card (unmarked s ?m)) - int (card (unmarked s m1))) (decor m1 h s)"
      "marks_from s (LOW s i) ?m m1" using Suc.IH [OF N(4) [OF i(3)] c] by blast
    then have c1: "card (unmarked s m1) < k" using card_unmarked_le [of ?m m1 s] c by (auto simp: marks_from_def)
    obtain m2 where m2: "bdd_markcount k (HIGH s i) (cou + 1 + int (card (unmarked s ?m)) - int (card (unmarked s m1)))
        (decor m1 h s) = ret (cou + 1 + int (card (unmarked s ?m)) - int (card (unmarked s m1)) +
          int (card (unmarked s m1)) - int (card (unmarked s m2))) (decor m2 h s)"
      "marks_from s (HIGH s i) m1 m2" using Suc.IH [OF N(5) [OF i(3)] c1] by blast
    have "marks_from s i m m2" using i(2,4) m1(2) m2(2) by (rule marks_from_inner)
    moreover have "bdd_markcount (Suc k) i cou (decor m h s) =
        ret (cou + int (card (unmarked s m)) - int (card (unmarked s m2))) (decor m2 h s)"
      using i(3-5) m1(1) m2(1) by (simp add: Let_def c0 algebra_simps)
    ultimately show ?thesis by blast
  qed
qed

text \<open>Removing marks is marking seen from the unmarked nodes.\<close>

definition flip :: "(int \<Rightarrow> bool) \<Rightarrow> int \<Rightarrow> bool" where "flip m n = (\<not> m n)"

lemma flip_upd: "flip (m(i := False)) = (flip m)(i := True)"
  by (rule HOL.ext) (simp add: flip_def)

lemma bdd_unmark_spec:
  assumes I: "tab_inv s" "bdd_table s"
  shows "node_id s i \<Longrightarrow> card (unmarked s (flip m)) < k \<Longrightarrow>
    \<exists>m'. bdd_unmark k i (decor m h s) = ret () (decor m' h s) \<and> marks_from s i (flip m) (flip m')"
proof (induction k arbitrary: i m)
  case 0
  then show ?case by simp
next
  case (Suc k)
  show ?case
  proof (cases "i < 2 \<or> \<not> m i")
    case True
    then show ?thesis by (intro exI [of _ m]) (auto intro: marks_from_nothing simp: marked_def flip_def)
  next
    case False
    note N = plain_node [OF I Suc.prems(1)]
    have i: "allocd s i" "inner s i" "\<not> i < 2" "\<not> flip m i" "LOW s i \<noteq> -1" "m i" using N False by (auto simp: flip_def)
    let ?m = "m(i := False)"
    have c: "card (unmarked s (flip ?m)) < k"
      using card_unmarked_set [where m = "flip m", OF i(1,4)] Suc.prems(2) by (simp add: flip_upd)
    obtain m1 where m1: "bdd_unmark k (LOW s i) (decor ?m h s) = ret () (decor m1 h s)"
      "marks_from s (LOW s i) (flip ?m) (flip m1)" using Suc.IH [OF N(4) [OF i(3)] c] by blast
    then have "card (unmarked s (flip m1)) < k"
      using card_unmarked_le [of "flip ?m" "flip m1" s] c by (auto simp: marks_from_def)
    then obtain m2 where m2: "bdd_unmark k (HIGH s i) (decor m1 h s) = ret () (decor m2 h s)"
      "marks_from s (HIGH s i) (flip m1) (flip m2)" using Suc.IH [OF N(5) [OF i(3)]] by blast
    have "marks_from s i (flip m) (flip m2)"
      using i(2,4) m1(2) [unfolded flip_upd] m2(2) by (rule marks_from_inner)
    moreover have "bdd_unmark (Suc k) i (decor m h s) = ret () (decor m2 h s)"
      using i(3,5,6) m1(1) m2(1) by (simp add: Let_def UNMARK_decor)
    ultimately show ?thesis by blast
  qed
qed

text \<open>Marks set from a root are removed from it completely.\<close>

lemma unmark_clears:
  assumes M: "marks_from s i (\<lambda>_. False) m" and U: "marks_from s i (flip m) (flip m')"
  shows "m' = (\<lambda>_. False)"
proof -
  have all: "reach s i n \<Longrightarrow> n < 2 \<or> m n \<and> \<not> m' n" for n
  proof (induction rule: reach.induct)
    case reach_self
    then show ?case using M U by (auto simp: marks_from_def marked_def flip_def)
  next
    case (reach_low n)
    then have "m n" "\<not> m' n" by (auto simp: inner_def allocd_def)
    then have "kids_marked s m n" "kids_marked s (flip m') n" using M U unfolding marks_from_def flip_def by blast+
    then show ?case using reach_low.hyps(2) by (auto simp: kids_marked_def marked_def flip_def)
  next
    case (reach_high n)
    then have "m n" "\<not> m' n" by (auto simp: inner_def allocd_def)
    then have "kids_marked s m n" "kids_marked s (flip m') n" using M U unfolding marks_from_def flip_def by blast+
    then show ?case using reach_high.hyps(2) by (auto simp: kids_marked_def marked_def flip_def)
  qed
  have "\<not> m' n" for n
  proof
    assume n: "m' n"
    then have "m n" using U by (auto simp: marks_from_def flip_def le_fun_def)
    then have "reach s i n" "allocd s n" using M by (auto simp: marks_from_def)
    then show False using all [of n] n by (auto simp: allocd_def)
  qed
  then show ?thesis by auto
qed

section \<open>The lines\<close>

definition known :: "int set \<Rightarrow> int \<Rightarrow> bool" where
  "known A c = (c = 0 \<or> c = 1 \<or> c \<in> A)"

text \<open>Nodes of the diagram, each after its children, where those in \<open>A\<close> have been listed before.\<close>

primrec listing :: "bdd_state \<Rightarrow> int set \<Rightarrow> int list \<Rightarrow> bool" where
  "listing s A [] = True"
| "listing s A (n # ns) =
     (inner s n \<and> n \<notin> A \<and> known A (LOW s n) \<and> known A (HIGH s n) \<and> listing s (insert n A) ns)"

lemma listing_append: "listing s A (xs @ ys) = (listing s A xs \<and> listing s (A \<union> set xs) ys)"
  by (induction xs arbitrary: A) auto

lemma known_mono: "known A c \<Longrightarrow> A \<subseteq> B \<Longrightarrow> known B c"
  by (auto simp: known_def)

definition line_of :: "bdd_state \<Rightarrow> int \<Rightarrow> string" where
  "line_of s n = node_line n (bddlevel2var s (LEVEL s n)) (LOW s n) (HIGH s n)"

text \<open>The nodes \<open>ns\<close> are written from \<open>i\<close> when those in \<open>A\<close> have been written and \<open>m\<close> is marked.\<close>

definition writes :: "bdd_state \<Rightarrow> int \<Rightarrow> int set \<Rightarrow> (int \<Rightarrow> bool) \<Rightarrow> int list \<Rightarrow> bool" where
  "writes s i A m ns =
     (listing s A ns \<and> known (A \<union> set ns) i \<and> (\<forall>n \<in> set ns. \<not> m n) \<and>
      (2 \<le> i \<and> \<not> m i \<longrightarrow> (\<exists>ns'. ns = ns' @ [i])))"

lemma bdd_save_rec_spec:
  assumes I: "tab_inv s" "bdd_table s"
  shows "node_id s i \<Longrightarrow> card (unmarked s m) < k \<Longrightarrow> \<forall>n. m n \<longrightarrow> n \<in> A \<or> LEVEL s n < LEVEL s i \<Longrightarrow>
    \<forall>n \<in> A. m n \<Longrightarrow>
    \<exists>ns m'. bdd_save_rec k i (decor m h s) = ret (0, map (line_of s) ns) (decor m' h s) \<and>
      m' = (\<lambda>n. m n \<or> n \<in> set ns) \<and> writes s i A m ns \<and> marks_from s i m m'"
proof (induction k arbitrary: i m A)
  case 0
  then show ?case by simp
next
  case (Suc k)
  show ?case
  proof (cases "i < 2 \<or> m i")
    case True
    have "known A i"
    proof (cases "i < 2")
      case True
      then show ?thesis using Suc.prems(1) by (auto simp: known_def node_id_def allocd_def)
    next
      case False
      then show ?thesis using True Suc.prems(3) by (auto simp: known_def)
    qed
    then show ?thesis
      using True by (intro exI [of _ "[]"] exI [of _ m]) (auto simp: writes_def marked_def intro: marks_from_nothing)
  next
    case False
    note N = plain_node [OF I Suc.prems(1)]
    have i: "allocd s i" "inner s i" "\<not> i < 2" "\<not> m i" using N False by auto
    let ?m = "m(i := True)"
    have c: "card (unmarked s ?m) < k" using card_unmarked_set [where m = m, OF i(1,4)] Suc.prems(2) by simp
    have lev: "\<forall>n. ?m n \<longrightarrow> n \<in> A \<or> LEVEL s n < LEVEL s c" if "LEVEL s i < LEVEL s c" for c
      using Suc.prems(3) that by auto
    have A1: "\<forall>n \<in> A. ?m n" using Suc.prems(4) by simp
    obtain lo m1 where l: "bdd_save_rec k (LOW s i) (decor ?m h s) = ret (0, map (line_of s) lo) (decor m1 h s)"
      "m1 = (\<lambda>n. ?m n \<or> n \<in> set lo)" "writes s (LOW s i) A ?m lo" "marks_from s (LOW s i) ?m m1"
      using Suc.IH [OF N(4) [OF i(3)] c lev [OF N(6) [OF i(3)]] A1] by blast
    have c1: "card (unmarked s m1) < k" using card_unmarked_le [of ?m m1 s] c l(4) by (auto simp: marks_from_def)
    have "\<forall>n. m1 n \<longrightarrow> n \<in> A \<union> set lo \<or> LEVEL s n < LEVEL s (HIGH s i)"
      using lev [OF N(7) [OF i(3)]] unfolding l(2) by blast
    moreover have "\<forall>n \<in> A \<union> set lo. m1 n" using A1 l(2) by auto
    ultimately obtain hi m2 where r: "bdd_save_rec k (HIGH s i) (decor m1 h s) = ret (0, map (line_of s) hi) (decor m2 h s)"
      "m2 = (\<lambda>n. m1 n \<or> n \<in> set hi)" "writes s (HIGH s i) (A \<union> set lo) m1 hi" "marks_from s (HIGH s i) m1 m2"
      using Suc.IH [OF N(5) [OF i(3)] c1] by blast
    let ?ns = "lo @ hi @ [i]"
    have "bdd_save_rec (Suc k) i (decor m h s) = ret (0, map (line_of s) ?ns) (decor m2 h s)"
      using i(3,4) l(1) r(1) by (simp add: Let_def line_of_def)
    moreover have "m2 = (\<lambda>n. m n \<or> n \<in> set ?ns)" using l(2) r(2) by (auto simp: fun_eq_iff)
    moreover have "marks_from s i m m2" using i(2,4) l(4) r(4) by (rule marks_from_inner)
    moreover have "writes s i A m ?ns"
    proof -
      have L: "listing s A lo" "known (A \<union> set lo) (LOW s i)" "\<forall>n \<in> set lo. \<not> ?m n"
        using l(3) unfolding writes_def by blast+
      have H: "listing s (A \<union> set lo) hi" "known (A \<union> set lo \<union> set hi) (HIGH s i)" "\<forall>n \<in> set hi. \<not> m1 n"
        using r(3) unfolding writes_def by blast+
      have um: "\<not> m n \<and> n \<noteq> i" if "\<not> ?m n" for n using that by (simp split: if_splits)
      have lo: "\<not> m n \<and> n \<noteq> i" if "n \<in> set lo" for n using L(3) that um by blast
      have hi: "\<not> m n \<and> n \<noteq> i" if "n \<in> set hi" for n using H(3) that um unfolding l(2) by blast
      have "i \<notin> A" "i \<notin> set lo" "i \<notin> set hi" using i(4) Suc.prems(4) lo hi by blast+
      moreover have "known (A \<union> set lo \<union> set hi) (LOW s i)" by (rule known_mono [OF L(2)]) blast
      ultimately have "listing s A ?ns" using L(1) H(1,2) i(2) by (simp add: listing_append Un_assoc)
      moreover have "\<forall>n \<in> set ?ns. \<not> m n" using lo hi i(4) by auto
      ultimately show ?thesis unfolding writes_def by (simp add: known_def)
    qed
    ultimately show ?thesis by blast
  qed
qed

section \<open>Saving\<close>

lemma decor_clear: "marks_clear s \<Longrightarrow> decor (\<lambda>_. False) (bucket s) s = s"
proof -
  assume "marks_clear s"
  then have "MARKED s = (\<lambda>_. False)" by (simp add: fun_eq_iff marks_clear_def)
  then show ?thesis using decor_id [of s] by simp
qed

definition ordering_line :: "bdd_state \<Rightarrow> string" where
  "ordering_line s = ''%Ordering '' @
     concat (map (\<lambda>v. show_int (bddvar2level s v) @ '' '') [0..bddvarnum s - 1]) @ nl"

definition header_lines :: "bdd_state \<Rightarrow> int \<Rightarrow> BDD \<Rightarrow> string list" where
  "header_lines s n r =
     [''%Vars '' @ show_int (bddvarnum s) @ nl, ''%Nodes '' @ show_int n @ nl, ''%Root '' @ show_int r @ nl,
      ordering_line s]"

lemma bdd_save_spec:
  assumes I: "tab_inv s" "bdd_table s" and r: "node_id s r" "2 \<le> r"
  shows "\<exists>n ns. bdd_save r s = ret (0, header_lines s n r @ map (line_of s) (ns @ [r])) s \<and>
    listing s {} (ns @ [r]) \<and> 0 \<le> n \<and> n \<le> bddnodesize s"
proof -
  let ?h = "bucket s" and ?c = "\<lambda>_. False"
  have s: "decor ?c ?h s = s" by (rule decor_clear [OF tab_invD(6) [OF I(1)]])
  have fu: "card (unmarked s m) < mark_fuel s" for m by (rule card_unmarked_fuel)
  obtain m1 where m1: "bdd_markcount (mark_fuel s) r 0 (decor ?c ?h s) =
      ret (0 + int (card (unmarked s ?c)) - int (card (unmarked s m1))) (decor m1 ?h s)" "marks_from s r ?c m1"
    using bdd_markcount_spec [OF I r(1) fu] by blast
  let ?n = "int (card (unmarked s ?c)) - int (card (unmarked s m1))"
  obtain m2 where m2: "bdd_unmark (mark_fuel s) r (decor m1 ?h s) = ret () (decor m2 ?h s)"
    "marks_from s r (flip m1) (flip m2)" using bdd_unmark_spec [OF I r(1) fu] by blast
  have u2: "decor m2 ?h s = s" using unmark_clears [OF m1(2) m2(2)] s by simp
  obtain ns m3 where m3: "bdd_save_rec (mark_fuel s) r (decor ?c ?h s) = ret (0, map (line_of s) ns) (decor m3 ?h s)"
    "writes s r {} ?c ns" "marks_from s r ?c m3"
    using bdd_save_rec_spec [OF I r(1) fu, of ?c "{}" ?h] by auto
  obtain m4 where m4: "bdd_unmark (mark_fuel s) r (decor m3 ?h s) = ret () (decor m4 ?h s)"
    "marks_from s r (flip m3) (flip m4)" using bdd_unmark_spec [OF I r(1) fu] by blast
  have u4: "decor m4 ?h s = s" using unmark_clears [OF m3(3) m4(2)] s by simp
  obtain ns' where ns: "ns = ns' @ [r]" using m3(2) r(2) by (auto simp: writes_def)
  have "bdd_save r s = ret (0, header_lines s ?n r @ map (line_of s) ns) s"
    using r(2) m1(1) m2(1) m3(1) m4(1)
    by (simp add: bdd_save_def s u2 u4 Let_def header_lines_def ordering_line_def)
  moreover have "0 \<le> ?n"
    using card_unmarked_le [of ?c m1 s] m1(2) by (simp add: marks_from_def)
  moreover have "?n \<le> bddnodesize s"
    using fu [of ?c] tab_invD(1) [OF I(1)] unfolding mark_fuel_def size_ok_def by linarith
  moreover have "listing s {} (ns' @ [r])" using m3(2) ns by (simp add: writes_def)
  ultimately show ?thesis unfolding ns by blast
qed

end
