(* ===== verification/BddioLoad.thy ===== *)
theory BddioLoad
  imports Bddio
begin

text \<open>
  Model of the reading half of \<^verbatim>\<open>src/bddio.c\<close>: the hash table from the numbers in the file to the loaded nodes,
  the list of nodes whose children are still unknown, the header and the loop over the lines. A file is its
  text. The static variables of the loader are a record that the
  functions pass on. The warnings on \<open>stderr\<close> are left out.
\<close>

section \<open>State\<close>

record LoadHash =
  lh_key :: int
  lh_data :: int
  lh_first :: int
  lh_next :: int

record unresolved_node =
  un_key :: int
  un_high :: int
  un_low :: int
  un_var :: int

definition LH_INIT_VALUE :: int where "LH_INIT_VALUE = 1000"

text \<open>\<open>un_null\<close>: the array \<open>un_nodes\<close> has not been allocated yet; afterwards it has \<open>unresolved_size\<close> entries.\<close>

record loader =
  lh_table :: "int \<Rightarrow> LoadHash"
  lh_freepos :: int
  lh_nodenum :: int
  lh_count :: int
  loadvar2level :: "int \<Rightarrow> int"
  un_nodes :: "int \<Rightarrow> unresolved_node"
  un_null :: bool
  unresolved :: int
  unresolved_size :: int

section \<open>The hash table\<close>

text \<open>The loop that clears a new table of \<open>n\<close> entries.\<close>

definition lh_fresh :: "int \<Rightarrow> int \<Rightarrow> LoadHash" where
  "lh_fresh n i = \<lparr>lh_key = 0, lh_data = 0, lh_first = -1, lh_next = (if i = n - 1 then -1 else i + 1)\<rparr>"

definition upd_lh :: "int \<Rightarrow> (LoadHash \<Rightarrow> LoadHash) \<Rightarrow> loader \<Rightarrow> loader" where
  "upd_lh i f l = l\<lparr>lh_table := (lh_table l)(i := f (lh_table l i))\<rparr>"

text \<open>The remainder of a negative key, if not 0, is an index before the table (\<open>None\<close>).\<close>

definition lh_hash :: "int \<Rightarrow> loader \<Rightarrow> int option" where
  "lh_hash key l =
     (if 0 \<le> key then Some (key mod lh_nodenum l) else if - key mod lh_nodenum l = 0 then Some 0 else None)"

definition loadhash_insert :: "int \<Rightarrow> int \<Rightarrow> loader \<Rightarrow> loader option" where
  "loadhash_insert key data l = (case lh_hash key l of
      None \<Rightarrow> None
    | Some hash \<Rightarrow> Some (let
        pos = lh_freepos l;
        l = l\<lparr>lh_freepos := lh_next (lh_table l pos)\<rparr>;
        l = upd_lh pos (\<lambda>e. e\<lparr>lh_next := lh_first (lh_table l hash)\<rparr>) l;
        l = upd_lh hash (\<lambda>e. e\<lparr>lh_first := pos\<rparr>) l;
        l = upd_lh pos (\<lambda>e. e\<lparr>lh_key := key\<rparr>) l;
        l = upd_lh pos (\<lambda>e. e\<lparr>lh_data := data\<rparr>) l
      in l\<lparr>lh_count := lh_count l + 1\<rparr>))"

definition lh_fuel :: "loader \<Rightarrow> nat" where "lh_fuel l = Suc (nat (lh_nodenum l))"

text \<open>One chain of the old table, and all of its buckets, are entered into the new one.\<close>

primrec copy_chain :: "nat \<Rightarrow> int \<Rightarrow> (int \<Rightarrow> LoadHash) \<Rightarrow> loader \<Rightarrow> loader option" where
  "copy_chain 0 p old l = None"
| "copy_chain (Suc k) p old l =
     (if p = -1 then Some l
      else case loadhash_insert (lh_key (old p)) (lh_data (old p)) l of
          None \<Rightarrow> None
        | Some l \<Rightarrow> copy_chain k (lh_next (old p)) old l)"

primrec copy_buckets :: "nat \<Rightarrow> nat \<Rightarrow> int \<Rightarrow> (int \<Rightarrow> LoadHash) \<Rightarrow> loader \<Rightarrow> loader option" where
  "copy_buckets fuel 0 b old l = Some l"
| "copy_buckets fuel (Suc k) b old l = (case copy_chain fuel (lh_first (old b)) old l of
      None \<Rightarrow> None
    | Some l \<Rightarrow> copy_buckets fuel k (b + 1) old l)"

definition loadhash_realloc :: "loader \<Rightarrow> bdd_state \<Rightarrow> loader bm" where
  "loadhash_realloc l s = (let oldSize = lh_nodenum l in
     bnd (alloc (2 * oldSize) s) (\<lambda>_ s.
       case copy_buckets (lh_fuel l) (nat oldSize) 0 (lh_table l)
           (l\<lparr>lh_table := lh_fresh (2 * oldSize), lh_nodenum := 2 * oldSize, lh_freepos := 0, lh_count := 0\<rparr>) of
         None \<Rightarrow> fail Trap s
       | Some l \<Rightarrow> ret l s))"

definition loadhash_add :: "int \<Rightarrow> int \<Rightarrow> loader \<Rightarrow> bdd_state \<Rightarrow> loader bm" where
  "loadhash_add key data l s =
     bnd (if lh_freepos l = -1 then loadhash_realloc l s else ret l s) (\<lambda>l s.
       case loadhash_insert key data l of None \<Rightarrow> fail Trap s | Some l \<Rightarrow> ret l s)"

primrec lh_find :: "nat \<Rightarrow> int \<Rightarrow> int \<Rightarrow> loader \<Rightarrow> int option" where
  "lh_find 0 hash key l = None"
| "lh_find (Suc k) hash key l =
     (if hash \<noteq> -1 \<and> lh_key (lh_table l hash) \<noteq> key then lh_find k (lh_next (lh_table l hash)) key l
      else Some hash)"

text \<open>Called with keys from 2 upwards.\<close>

definition loadhash_get :: "int \<Rightarrow> loader \<Rightarrow> bdd_state \<Rightarrow> int bm" where
  "loadhash_get key l s =
     (case lh_find (lh_fuel l) (lh_first (lh_table l (key mod lh_nodenum l))) key l of
        None \<Rightarrow> fail Nofuel s
      | Some hash \<Rightarrow> ret (if hash = -1 then -1 else lh_data (lh_table l hash)) s)"

section \<open>Nodes with unknown children\<close>

text \<open>The array grows when it is three quarters full.\<close>

definition unresolved_realloc :: "loader \<Rightarrow> loader" where
  "unresolved_realloc l =
     (if un_null l then l\<lparr>un_null := False\<rparr>
      else if 4 * unresolved l < 3 * unresolved_size l then l
      else l\<lparr>unresolved_size := unresolved_size l * 2\<rparr>)"

definition add_unresolved :: "int \<Rightarrow> int \<Rightarrow> int \<Rightarrow> int \<Rightarrow> loader \<Rightarrow> loader" where
  "add_unresolved key var high low l = (let
     l = unresolved_realloc l;
     toadd = \<lparr>un_key = key, un_high = high, un_low = low, un_var = var\<rparr>;
     l = l\<lparr>un_nodes := (un_nodes l)(unresolved l := toadd)\<rparr>
   in l\<lparr>unresolved := unresolved l + 1\<rparr>)"

definition load_child :: "int \<Rightarrow> loader \<Rightarrow> bdd_state \<Rightarrow> int bm" where
  "load_child c l s = (if c \<ge> 2 then loadhash_get c l s else ret c s)"

definition load_node :: "int \<Rightarrow> int \<Rightarrow> int \<Rightarrow> int \<Rightarrow> loader \<Rightarrow> bdd_state \<Rightarrow> (int \<times> loader) bm" where
  "load_node key var highH lowH l s =
     bnd (bdd_ithvar var s) (\<lambda>v s.
     bnd (bdd_ite v highH lowH s) (\<lambda>r s.
     bnd (bdd_addref r s) (\<lambda>rt s.
     bnd (loadhash_add key rt l s) (\<lambda>l s. ret (rt, l) s))))"

primrec resolve_loop :: "nat \<Rightarrow> int \<Rightarrow> int \<Rightarrow> loader \<Rightarrow> bdd_state \<Rightarrow> (int \<times> loader) bm" where
  "resolve_loop 0 i rt l s = fail Nofuel s"
| "resolve_loop (Suc k) i rt l s =
     (if i < unresolved l
      then let u = un_nodes l i in
        bnd (load_child (un_low u) l s) (\<lambda>lowH s.
        bnd (load_child (un_high u) l s) (\<lambda>highH s.
        if highH < 0 \<or> lowH < 0 then resolve_loop k (i + 1) rt l s
        else bnd (load_node (un_key u) (un_var u) highH lowH l s) (\<lambda>(rt, l) s.
          if i = unresolved l - 1 then resolve_loop k (i + 1) rt (l\<lparr>unresolved := unresolved l - 1\<rparr>) s
          else resolve_loop k i rt
            (l\<lparr>un_nodes := (un_nodes l)(i := un_nodes l (unresolved l - 1)), unresolved := unresolved l - 1\<rparr>) s)))
      else ret (rt, l) s)"

definition resolve_nodes :: "int \<Rightarrow> loader \<Rightarrow> bdd_state \<Rightarrow> (int \<times> loader) bm" where
  "resolve_nodes rt l s = resolve_loop (Suc (nat (2 * unresolved l))) 0 rt l s"

primrec resolve_all :: "nat \<Rightarrow> int \<Rightarrow> loader \<Rightarrow> bdd_state \<Rightarrow> (int \<times> loader) bm" where
  "resolve_all 0 rt l s = fail Nofuel s"
| "resolve_all (Suc k) rt l s =
     (if unresolved l = 0 then ret (rt, l) s
      else let preunresolved = unresolved l in
        bnd (resolve_nodes rt l s) (\<lambda>(rt, l) s.
        if preunresolved = unresolved l then ret (rt, l) s else resolve_all k rt l s))"

section \<open>The lines of the nodes\<close>

text \<open>\<open>sscanf (line, "%d[%d] %d %d", &key, &var, &low, &high)\<close> when all four are read; a value is cut to an int.\<close>

definition scan_chr :: "char \<Rightarrow> string \<Rightarrow> string option" where
  "scan_chr c s = (case s of [] \<Rightarrow> None | d # t \<Rightarrow> if d = c then Some t else None)"

definition scan_node :: "string \<Rightarrow> (int \<times> int \<times> int \<times> int) option" where
  "scan_node line =
     Option.bind (scan_int line) (\<lambda>(key, t).
     Option.bind (scan_chr (CHR ''['') t) (\<lambda>t.
     Option.bind (scan_int t) (\<lambda>(var, t).
     Option.bind (scan_chr (CHR '']'') t) (\<lambda>t.
     Option.bind (scan_int t) (\<lambda>(low, t).
     Option.bind (scan_int t) (\<lambda>(high, t). Some (s32 key, s32 var, s32 low, s32 high)))))))"

primrec loaddata_loop :: "string list \<Rightarrow> int \<Rightarrow> loader \<Rightarrow> bdd_state \<Rightarrow> (int \<times> loader) bm" where
  "loaddata_loop [] rt l s =
     bnd (resolve_all (Suc (nat (unresolved l))) rt l s) (\<lambda>(rt, l) s.
     if unresolved l \<noteq> 0 then bnd (bdd_error BDD_FORMAT s) (\<lambda>e s. ret (e, l) s) else ret (rt, l) s)"
| "loaddata_loop (line # lines) rt l s =
     (if line \<noteq> [] \<and> hd line = CHR ''#'' then loaddata_loop lines rt l s
      else case scan_node line of
        None \<Rightarrow> bnd (bdd_error BDD_FORMAT s) (\<lambda>e s. ret (e, l) s)
      | Some (key, var, low, high) \<Rightarrow>
          bnd (load_child low l s) (\<lambda>lowH s.
          bnd (load_child high l s) (\<lambda>highH s.
          if var < 0 then bnd (bdd_error BDD_FORMAT s) (\<lambda>e s. ret (e, l) s)
          else if highH < 0 \<or> lowH < 0 then loaddata_loop lines rt (add_unresolved key var high low l) s
          else bnd (load_node key var highH lowH l s) (\<lambda>(rt, l) s.
            bnd (resolve_nodes rt l s) (\<lambda>(rt, l) s. loaddata_loop lines rt l s)))))"

definition bdd_loaddata :: "string list \<Rightarrow> loader \<Rightarrow> bdd_state \<Rightarrow> (int \<times> loader) bm" where
  "bdd_loaddata lines l s = loaddata_loop lines 0 l s"

section \<open>The header\<close>

definition parseInt :: "string \<Rightarrow> int" where
  "parseInt token = (let (value, rest) = strtol token in
     if rest \<noteq> [] \<and> hd rest \<noteq> CHR 0x0A then -1 else s32 value)"

text \<open>
  The local variables of \<open>bdd_load\<close>. All the flags but the last are read without having been initialised
  unless the line they stand for was seen, and so is the number of variables (\<open>None\<close>).
\<close>

record load_header =
  h_started :: bool
  h_typeR :: bool
  h_nameR :: bool
  h_varsR :: bool
  h_rootR :: bool
  h_orderR :: bool
  h_vnum :: "int option"
  h_root :: int

primrec ordering_loop :: "nat \<Rightarrow> int \<Rightarrow> string list \<Rightarrow> loader \<Rightarrow> loader option" where
  "ordering_loop 0 n ts l = Some l"
| "ordering_loop (Suc k) n ts l = (case ts of
      [] \<Rightarrow> None
    | t # ts \<Rightarrow> let v = parseInt t; l = l\<lparr>loadvar2level := (loadvar2level l)(n := v)\<rparr>
        in if v < 0 then None else ordering_loop k (n + 1) ts l)"

text \<open>The result is an error code, or 0 to go on.\<close>

definition format_error ::
    "load_header \<Rightarrow> loader \<Rightarrow> bdd_state \<Rightarrow> (int \<times> load_header \<times> loader) bm" where
  "format_error h l s = bnd (bdd_error BDD_FORMAT s) (\<lambda>e s. ret (e, h, l) s)"

definition header_line ::
    "string \<Rightarrow> load_header \<Rightarrow> loader \<Rightarrow> bdd_state \<Rightarrow> (int \<times> load_header \<times> loader) bm" where
  "header_line line h l s = (let c = (if line = [] then CHR 0x00 else hd line) in
     if c = CHR ''@'' then ret (0, h\<lparr>h_started := True, h_typeR := True\<rparr>, l) s
     else if \<not> h_started h \<or> c \<noteq> CHR ''%'' then ret (0, h, l) s
     else let ts = tokens line; token = hd ts; args = tl ts in
       if token = ''%Name''
       then (if args = [] then format_error h l s else ret (0, h\<lparr>h_nameR := True\<rparr>, l) s)
       else if token = ''%Vars''
       then (if args = [] \<or> parseInt (hd args) < 0 then format_error h l s
             else ret (0, h\<lparr>h_varsR := True, h_vnum := Some (parseInt (hd args))\<rparr>, l) s)
       else if token = ''%Nodes''
       then (if args = [] then format_error h l s
             else let l = l\<lparr>lh_nodenum := parseInt (hd args)\<rparr> in
               if lh_nodenum l < 0 then format_error h l s else ret (0, h, l) s)
       else if token = ''%Root''
       then (if args = [] then format_error h l s
             else let h = h\<lparr>h_rootR := True, h_root := parseInt (hd args)\<rparr> in
               if h_root h < 0 then format_error h l s
               else ret (0, if h_root h < 2 then h\<lparr>h_orderR := True\<rparr> else h, l) s)
       else if token = ''%Ordering''
       then (case h_vnum h of
            None \<Rightarrow> fail Trap s
          | Some vnum \<Rightarrow> bnd (alloc vnum s) (\<lambda>_ s.
              case ordering_loop (nat vnum) 0 args l of
                None \<Rightarrow> format_error h l s
              | Some l \<Rightarrow> ret (0, h\<lparr>h_orderR := True\<rparr>, l) s))
       else format_error h l s)"

primrec header_loop ::
    "string list \<Rightarrow> load_header \<Rightarrow> loader \<Rightarrow> bdd_state \<Rightarrow> (int \<times> load_header \<times> loader \<times> string list) bm" where
  "header_loop [] h l s =
     (if h_orderR h then ret (0, h, l, []) s else bnd (bdd_error BDD_FORMAT s) (\<lambda>e s. ret (e, h, l, []) s))"
| "header_loop (line # lines) h l s =
     (if h_orderR h then ret (0, h, l, line # lines) s
      else bnd (header_line line h l s) (\<lambda>(e, h, l) s.
        if e \<noteq> 0 then ret (e, h, l, lines) s else header_loop lines h l s))"

section \<open>Loading\<close>

text \<open>The lines that \<open>getline\<close> returns one after the other.\<close>

primrec file_lines :: "string \<Rightarrow> string list" where
  "file_lines [] = []"
| "file_lines (c # cs) =
     (if c = CHR 0x0A then [c] # file_lines cs
      else case file_lines cs of [] \<Rightarrow> [[c]] | l # ls \<Rightarrow> (c # l) # ls)"

primrec delref_loop :: "nat \<Rightarrow> int \<Rightarrow> loader \<Rightarrow> bdd_state \<Rightarrow> unit bm" where
  "delref_loop 0 n l s = ret () s"
| "delref_loop (Suc k) n l s =
     bnd (bdd_delref (lh_data (lh_table l n)) s) (\<lambda>_ s. delref_loop k (n + 1) l s)"

text \<open>The second half of \<open>bdd_load\<close>, for a diagram that is not a constant.\<close>

definition load_nodes :: "int \<Rightarrow> string list \<Rightarrow> loader \<Rightarrow> bdd_state \<Rightarrow> (int \<times> int \<times> loader) bm" where
  "load_nodes vnum lines l s =
     bnd (if vnum > bddvarnum s then bnd (bdd_setvarnum vnum s) (\<lambda>_ s. ret () s) else ret () s) (\<lambda>_ s. let
       l = (if lh_nodenum l < 1 then l\<lparr>lh_nodenum := 1\<rparr> else l) in
     bnd (alloc (lh_nodenum l) s) (\<lambda>_ s.
     bnd (bdd_loaddata lines (l\<lparr>lh_table := lh_fresh (lh_nodenum l), lh_freepos := 0\<rparr>) s) (\<lambda>(tmproot, l) s.
     bnd (delref_loop (nat (lh_nodenum l)) 0 l s) (\<lambda>_ s.
     ret (if tmproot < 0 then (tmproot, 0, l) else (0, tmproot, l)) s))))"

text \<open>The result: the code, the root and the static variables.\<close>

definition bdd_load :: "string \<Rightarrow> loader \<Rightarrow> bdd_state \<Rightarrow> (int \<times> int \<times> loader) bm" where
  "bdd_load ifile l s = (let
     h = \<lparr>h_started = False, h_typeR = False, h_nameR = False, h_varsR = False, h_rootR = False,
          h_orderR = False, h_vnum = None, h_root = 0\<rparr>;
     l = l\<lparr>lh_count := 0, lh_freepos := 0, lh_nodenum := LH_INIT_VALUE, unresolved := 0\<rparr>
   in bnd (header_loop (file_lines ifile) h l s) (\<lambda>(e, h, l, lines) s.
     if e \<noteq> 0 then ret (e, h_root h, l) s
     else if \<not> (h_typeR h \<and> h_nameR h \<and> h_rootR h \<and> h_varsR h) then fail Trap s
     else if h_root h = 0 \<or> h_root h = 1 then ret (0, h_root h, l) s
     else case h_vnum h of None \<Rightarrow> fail Trap s | Some vnum \<Rightarrow> load_nodes vnum lines l s))"

definition bdd_fnload :: "string option \<Rightarrow> loader \<Rightarrow> bdd_state \<Rightarrow> (int \<times> int \<times> loader) bm" where
  "bdd_fnload ifile l s = (case ifile of
      None \<Rightarrow> bnd (bdd_error BDD_FILE s) (\<lambda>e s. ret (e, 0, l) s)
    | Some text \<Rightarrow> bdd_load text l s)"

end
