(* ===== verification/LoadTable.thy ===== *)
theory LoadTable
  imports BddioLoad "HOL-Library.Multiset"
begin

text \<open>
  The hash table of the loader is a finite map: adding a new key, which may make the table grow, and looking a key up
  are what they are on the list of the pairs added so far.
\<close>

section \<open>The invariant\<close>

abbreviation "lhn l p \<equiv> lh_next (lh_table l p)"
abbreviation "lhk l p \<equiv> lh_key (lh_table l p)"
abbreviation "lhd l p \<equiv> lh_data (lh_table l p)"
abbreviation "lhf l p \<equiv> lh_first (lh_table l p)"

text \<open>Lists that end with -1.\<close>

primrec lchain :: "(int \<Rightarrow> int) \<Rightarrow> int \<Rightarrow> int list \<Rightarrow> bool" where
  "lchain nx a [] = (a = -1)"
| "lchain nx a (x # xs) = (a = x \<and> a \<noteq> -1 \<and> lchain nx (nx a) xs)"

lemma lchain_cong: "(\<And>x. x \<in> set xs \<Longrightarrow> f x = g x) \<Longrightarrow> lchain f a xs = lchain g a xs"
  by (induction xs arbitrary: a) auto

text \<open>The entries \<open>0\<close> to \<open>lh_count - 1\<close> are in use, the others free in this order.\<close>

definition used :: "loader \<Rightarrow> int set" where "used l = {0..<lh_count l}"

definition lh_bucket :: "loader \<Rightarrow> int \<Rightarrow> bool" where
  "lh_bucket l b =
     (\<exists>ps. lchain (lhn l) (lhf l b) ps \<and> distinct ps \<and> set ps = {p \<in> used l. lhk l p mod lh_nodenum l = b})"

definition lh_free :: "loader \<Rightarrow> bool" where
  "lh_free l =
     (lh_freepos l = (if lh_count l = lh_nodenum l then -1 else lh_count l) \<and>
      (\<forall>p. lh_count l \<le> p \<and> p < lh_nodenum l \<longrightarrow>
         lhn l p = (if p = lh_nodenum l - 1 then -1 else p + 1) \<and> lhd l p = 0))"

definition lh_ok :: "loader \<Rightarrow> bool" where
  "lh_ok l =
     (1 \<le> lh_nodenum l \<and> 0 \<le> lh_count l \<and> lh_count l \<le> lh_nodenum l \<and> lh_free l \<and>
      (\<forall>b. 0 \<le> b \<and> b < lh_nodenum l \<longrightarrow> lh_bucket l b) \<and>
      (\<forall>p \<in> used l. 0 \<le> lhk l p) \<and> inj_on (lhk l) (used l))"

lemma lh_okD:
  assumes "lh_ok l"
  shows "1 \<le> lh_nodenum l" "0 \<le> lh_count l" "lh_count l \<le> lh_nodenum l" "lh_free l"
    "0 \<le> b \<Longrightarrow> b < lh_nodenum l \<Longrightarrow> lh_bucket l b" "p \<in> used l \<Longrightarrow> 0 \<le> lhk l p" "inj_on (lhk l) (used l)"
  using assms by (auto simp: lh_ok_def)

text \<open>The pairs of keys and data.\<close>

definition pairs_at :: "loader \<Rightarrow> int set \<Rightarrow> (int \<times> int) multiset" where
  "pairs_at l P = image_mset (\<lambda>p. (lhk l p, lhd l p)) (mset_set P)"

definition lh_pairs :: "loader \<Rightarrow> (int \<times> int) multiset" where
  "lh_pairs l = pairs_at l (used l)"

lemma finite_used [simp]: "finite (used l)"
  by (simp add: used_def)

lemma in_lh_pairs: "(k, d) \<in># lh_pairs l \<longleftrightarrow> (\<exists>p \<in> used l. lhk l p = k \<and> lhd l p = d)"
  by (auto simp: lh_pairs_def pairs_at_def)

lemma size_lh_pairs: "0 \<le> lh_count l \<Longrightarrow> int (size (lh_pairs l)) = lh_count l"
  by (simp add: lh_pairs_def pairs_at_def used_def)

definition fresh_key :: "int \<Rightarrow> loader \<Rightarrow> bool" where
  "fresh_key k l = (\<forall>d. (k, d) \<notin># lh_pairs l)"

lemma fresh_key_iff: "fresh_key k l \<longleftrightarrow> (\<forall>p \<in> used l. lhk l p \<noteq> k)"
  by (auto simp: fresh_key_def in_lh_pairs)

lemma lh_pairs_fun: "lh_ok l \<Longrightarrow> (k, d) \<in># lh_pairs l \<Longrightarrow> (k, d') \<in># lh_pairs l \<Longrightarrow> d = d'"
  using lh_okD(7) [of l] by (auto simp: in_lh_pairs dest: inj_onD)

section \<open>Looking up\<close>

lemma lh_find_chain:
  "lchain (lhn l) a ps \<Longrightarrow> length ps < k \<Longrightarrow>
   \<exists>r. lh_find k a key l = Some r \<and>
     (if \<exists>p \<in> set ps. lhk l p = key then r \<in> set ps \<and> lhk l r = key else r = -1)"
proof (induction ps arbitrary: a k)
  case Nil
  then show ?case by (cases k) auto
next
  case (Cons p ps)
  then obtain k' where k: "k = Suc k'" by (cases k) auto
  show ?case
  proof (cases "lhk l p = key")
    case True
    then show ?thesis using Cons.prems by (simp add: k)
  next
    case False
    obtain r where r: "lh_find k' (lhn l p) key l = Some r"
      "if \<exists>q \<in> set ps. lhk l q = key then r \<in> set ps \<and> lhk l r = key else r = -1"
      using Cons.IH [of "lhn l p" k'] Cons.prems by (auto simp: k)
    have "lh_find k a key l = Some r" using False Cons.prems(1) r(1) by (simp add: k)
    moreover have "(\<exists>q \<in> set (p # ps). lhk l q = key) = (\<exists>q \<in> set ps. lhk l q = key)" using False by simp
    ultimately show ?thesis using r(2) by (intro exI [of _ r]) (auto split: if_splits)
  qed
qed

lemma bucket_length:
  assumes "distinct ps" "set ps \<subseteq> used l" "lh_ok l"
  shows "length ps < lh_fuel l"
proof -
  have "length ps = card (set ps)" using assms(1) by (simp add: distinct_card)
  also have "\<dots> \<le> card (used l)" by (rule card_mono) (simp_all add: assms(2))
  finally show ?thesis using lh_okD(2,3) [OF assms(3)] by (simp add: used_def lh_fuel_def)
qed

lemma loadhash_get_spec:
  assumes L: "lh_ok l" and k: "0 \<le> k"
  shows "(k, d) \<in># lh_pairs l \<Longrightarrow> loadhash_get k l s = ret d s" "fresh_key k l \<Longrightarrow> loadhash_get k l s = ret (-1) s"
proof -
  let ?b = "k mod lh_nodenum l"
  have b: "0 \<le> ?b" "?b < lh_nodenum l" using lh_okD(1) [OF L] by simp_all
  obtain ps where ps: "lchain (lhn l) (lhf l ?b) ps" "distinct ps" "set ps = {p \<in> used l. lhk l p mod lh_nodenum l = ?b}"
    using lh_okD(5) [OF L b] by (auto simp: lh_bucket_def)
  have len: "length ps < lh_fuel l" by (rule bucket_length [OF ps(2) _ L]) (auto simp: ps(3))
  obtain r where r: "lh_find (lh_fuel l) (lhf l ?b) k l = Some r"
    "if \<exists>p \<in> set ps. lhk l p = k then r \<in> set ps \<and> lhk l r = k else r = -1"
    using lh_find_chain [OF ps(1) len] by blast
  have g: "loadhash_get k l s = ret (if r = -1 then -1 else lhd l r) s" by (simp add: loadhash_get_def r(1))
  show "loadhash_get k l s = ret d s" if kd: "(k, d) \<in># lh_pairs l"
  proof -
    obtain p where p: "p \<in> used l" "lhk l p = k" "lhd l p = d" using kd by (auto simp: in_lh_pairs)
    then have "p \<in> set ps" by (simp add: ps(3))
    then have "\<exists>p \<in> set ps. lhk l p = k" using p(2) by blast
    then have q: "r \<in> set ps" "lhk l r = k" using r(2) by simp_all
    then have "r = p" using lh_okD(7) [OF L] p by (auto simp: ps(3) dest: inj_onD)
    then show ?thesis using p by (simp add: g used_def)
  qed
  show "loadhash_get k l s = ret (-1) s" if "fresh_key k l"
  proof -
    have "\<not> (\<exists>p \<in> set ps. lhk l p = k)" using that by (auto simp: fresh_key_iff ps(3))
    then show ?thesis using r(2) by (simp add: g)
  qed
qed

section \<open>Adding\<close>

text \<open>Fields the table does not touch.\<close>

definition same_rest :: "loader \<Rightarrow> loader \<Rightarrow> bool" where
  "same_rest l m =
     (unresolved m = unresolved l \<and> un_nodes m = un_nodes l \<and> un_null m = un_null l \<and>
      unresolved_size m = unresolved_size l \<and> loadvar2level m = loadvar2level l)"

lemma same_rest_refl [simp]: "same_rest l l"
  by (simp add: same_rest_def)

lemma same_rest_trans: "same_rest l m \<Longrightarrow> same_rest m n \<Longrightarrow> same_rest l n"
  by (simp add: same_rest_def)

definition inserted :: "int \<Rightarrow> int \<Rightarrow> loader \<Rightarrow> loader \<Rightarrow> bool" where
  "inserted k d l m =
     (same_rest l m \<and> lh_nodenum m = lh_nodenum l \<and> lh_count m = lh_count l + 1 \<and>
      lh_freepos m = lhn l (lh_freepos l) \<and>
      (\<forall>p. lhn m p = (if p = lh_freepos l then lhf l (k mod lh_nodenum l) else lhn l p)) \<and>
      (\<forall>p. lhf m p = (if p = k mod lh_nodenum l then lh_freepos l else lhf l p)) \<and>
      (\<forall>p. lhk m p = (if p = lh_freepos l then k else lhk l p)) \<and>
      (\<forall>p. lhd m p = (if p = lh_freepos l then d else lhd l p)))"

lemma loadhash_insert_eq:
  assumes "0 \<le> k"
  shows "\<exists>m. loadhash_insert k d l = Some m \<and> inserted k d l m"
  using assms
  by (simp add: loadhash_insert_def lh_hash_def Let_def inserted_def same_rest_def upd_lh_def)

lemma inserted_ok:
  assumes L: "lh_ok l" and c: "lh_count l < lh_nodenum l" and k: "0 \<le> k" "fresh_key k l" and I: "inserted k d l m"
  shows "lh_ok m" "lh_pairs m = add_mset (k, d) (lh_pairs l)"
proof -
  let ?c = "lh_count l" and ?n = "lh_nodenum l"
  note D = lh_okD [OF L]
  have fp: "lh_freepos l = ?c" using D(4) c by (simp add: lh_free_def)
  have m: "lh_nodenum m = ?n" "lh_count m = ?c + 1" "lh_freepos m = lhn l ?c"
    "\<And>p. lhn m p = (if p = ?c then lhf l (k mod ?n) else lhn l p)"
    "\<And>p. lhf m p = (if p = k mod ?n then ?c else lhf l p)"
    "\<And>p. lhk m p = (if p = ?c then k else lhk l p)" "\<And>p. lhd m p = (if p = ?c then d else lhd l p)"
    using I by (simp_all add: inserted_def fp)
  have u: "used m = insert ?c (used l)" "?c \<notin> used l" using D(2) by (auto simp: used_def m)
  have old: "lhk m p = lhk l p" "lhd m p = lhd l p" if "p \<in> used l" for p using that u(2) by (auto simp: m)
  have "pairs_at m (used l) = pairs_at l (used l)"
    unfolding pairs_at_def by (rule image_mset_cong) (simp add: old)
  then show "lh_pairs m = add_mset (k, d) (lh_pairs l)"
    using u by (simp add: lh_pairs_def) (simp add: pairs_at_def m)
  have free: "lh_free m"
  proof -
    have "lhn l ?c = (if ?c = ?n - 1 then -1 else ?c + 1)" using D(4) c by (simp add: lh_free_def)
    then show ?thesis using D(4) by (auto simp: lh_free_def m)
  qed
  have bucket: "lh_bucket m b" if b: "0 \<le> b" "b < ?n" for b
  proof -
    obtain ps where ps: "lchain (lhn l) (lhf l b) ps" "distinct ps" "set ps = {p \<in> used l. lhk l p mod ?n = b}"
      using D(5) [OF b] by (auto simp: lh_bucket_def)
    have nc: "?c \<notin> set ps" using u(2) by (simp add: ps(3))
    have same: "lchain (lhn m) a ps = lchain (lhn l) a ps" for a by (rule lchain_cong) (use nc in \<open>auto simp: m\<close>)
    show ?thesis
    proof (cases "k mod ?n = b")
      case True
      have "lhf m b = ?c" "lhn m ?c = lhf l b" using True by (simp_all add: m)
      then have "lchain (lhn m) (lhf m b) (?c # ps)" using ps(1) D(2) same by simp
      moreover have "set (?c # ps) = {p \<in> used m. lhk m p mod lh_nodenum m = b}"
        using ps(3) True u by (auto simp: m)
      moreover have "distinct (?c # ps)" using ps(2) nc by simp
      ultimately show ?thesis unfolding lh_bucket_def by blast
    next
      case False
      have "lchain (lhn m) (lhf m b) ps" using False ps(1) unfolding same by (simp add: m(5))
      moreover have "set ps = {p \<in> used m. lhk m p mod lh_nodenum m = b}" using ps(3) False u by (auto simp: m)
      ultimately show ?thesis using ps(2) unfolding lh_bucket_def by blast
    qed
  qed
  have inj: "inj_on (lhk m) (used m)"
    unfolding u(1)
  proof (rule inj_on_insert [THEN iffD2], intro conjI)
    have "inj_on (lhk m) (used l) = inj_on (lhk l) (used l)" by (rule inj_on_cong) (simp add: old)
    then show "inj_on (lhk m) (used l)" using D(7) by simp
    show "lhk m ?c \<notin> lhk m ` (used l - {?c})" using k(2) u(2) by (auto simp: fresh_key_iff old m(6))
  qed
  show "lh_ok m"
    unfolding lh_ok_def using D(1,2,6) c k(1) free bucket inj u by (auto simp: m(1,2) m(6))
qed

text \<open>The empty table.\<close>

lemma lh_fresh_ok:
  assumes "1 \<le> n"
  shows "lh_ok (l\<lparr>lh_table := lh_fresh n, lh_nodenum := n, lh_freepos := 0, lh_count := 0\<rparr>)"
    "lh_pairs (l\<lparr>lh_table := lh_fresh n, lh_nodenum := n, lh_freepos := 0, lh_count := 0\<rparr>) = {#}"
  using assms
  by (auto simp: lh_ok_def lh_free_def lh_bucket_def used_def lh_fresh_def lh_pairs_def pairs_at_def)

section \<open>Growing\<close>

lemma copy_chain_spec:
  assumes "lh_ok m" "lchain (\<lambda>p. lh_next (old p)) a ps" "length ps < k" "distinct (map (\<lambda>p. lh_key (old p)) ps)"
    "\<forall>p \<in> set ps. 0 \<le> lh_key (old p) \<and> fresh_key (lh_key (old p)) m" "lh_count m + int (length ps) \<le> lh_nodenum m"
  shows "\<exists>m'. copy_chain k a old m = Some m' \<and> lh_ok m' \<and> lh_nodenum m' = lh_nodenum m \<and> same_rest m m' \<and>
    lh_pairs m' = lh_pairs m + mset (map (\<lambda>p. (lh_key (old p), lh_data (old p))) ps)"
  using assms
proof (induction ps arbitrary: a k m)
  case Nil
  then obtain k' where "k = Suc k'" by (cases k) auto
  then show ?case using Nil.prems by simp
next
  case (Cons p ps)
  obtain k' where k: "k = Suc k'" "length ps < k'" using Cons.prems(3) by (cases k) auto
  have p: "a = p" "p \<noteq> -1" "lchain (\<lambda>p. lh_next (old p)) (lh_next (old p)) ps" using Cons.prems(2) by auto
  have kp: "0 \<le> lh_key (old p)" "fresh_key (lh_key (old p)) m" using Cons.prems(5) by auto
  obtain m1 where m1: "loadhash_insert (lh_key (old p)) (lh_data (old p)) m = Some m1"
    "inserted (lh_key (old p)) (lh_data (old p)) m m1" using loadhash_insert_eq [OF kp(1)] by blast
  have c: "lh_count m < lh_nodenum m" using Cons.prems(6) by simp
  note I = inserted_ok [OF Cons.prems(1) c kp m1(2)]
  have n1: "lh_nodenum m1 = lh_nodenum m" "lh_count m1 = lh_count m + 1" "same_rest m m1"
    using m1(2) by (simp_all add: inserted_def)
  have "\<exists>m'. copy_chain k' (lh_next (old p)) old m1 = Some m' \<and> lh_ok m' \<and> lh_nodenum m' = lh_nodenum m1 \<and>
    same_rest m1 m' \<and> lh_pairs m' = lh_pairs m1 + mset (map (\<lambda>p. (lh_key (old p), lh_data (old p))) ps)"
  proof (rule Cons.IH [OF I(1) p(3) k(2)])
    show "\<forall>q \<in> set ps. 0 \<le> lh_key (old q) \<and> fresh_key (lh_key (old q)) m1"
    proof
      fix q assume q: "q \<in> set ps"
      then have "lh_key (old q) \<in> set (map (\<lambda>p. lh_key (old p)) ps)" unfolding set_map by (rule imageI)
      moreover have "lh_key (old p) \<notin> set (map (\<lambda>p. lh_key (old p)) ps)"
        using Cons.prems(4) unfolding list.map distinct.simps by blast
      ultimately have "lh_key (old q) \<noteq> lh_key (old p)" by metis
      then show "0 \<le> lh_key (old q) \<and> fresh_key (lh_key (old q)) m1"
        using Cons.prems(5) q by (auto simp: fresh_key_def I(2))
    qed
  qed (use Cons.prems n1 in simp_all)
  then obtain m' where m': "copy_chain k' (lh_next (old p)) old m1 = Some m'" "lh_ok m'"
    "lh_nodenum m' = lh_nodenum m1" "same_rest m1 m'"
    "lh_pairs m' = lh_pairs m1 + mset (map (\<lambda>p. (lh_key (old p), lh_data (old p))) ps)" by blast
  then show ?case using p k m1(1) n1 I(2) same_rest_trans [OF n1(3) m'(4)] by (intro exI [of _ m']) simp
qed

definition below_bucket :: "loader \<Rightarrow> int \<Rightarrow> int set" where
  "below_bucket l b = {p \<in> used l. lhk l p mod lh_nodenum l < b}"

lemma finite_below [simp]: "finite (below_bucket l b)"
  by (simp add: below_bucket_def)

lemma copy_buckets_spec:
  assumes L: "lh_ok l" and "lh_ok m" "0 \<le> b" "b + int k = lh_nodenum l" "lh_pairs m = pairs_at l (below_bucket l b)"
    "lh_nodenum m = 2 * lh_nodenum l"
  shows "\<exists>m'. copy_buckets (lh_fuel l) k b (lh_table l) m = Some m' \<and> lh_ok m' \<and> lh_nodenum m' = lh_nodenum m \<and>
    same_rest m m' \<and> lh_pairs m' = pairs_at l (below_bucket l (lh_nodenum l))"
  using assms(2-)
proof (induction k arbitrary: b m)
  case 0
  then show ?case by simp
next
  case (Suc k)
  note D = lh_okD [OF L]
  have b: "0 \<le> b" "b < lh_nodenum l" using Suc.prems by simp_all
  obtain ps where ps: "lchain (lhn l) (lhf l b) ps" "distinct ps" "set ps = {p \<in> used l. lhk l p mod lh_nodenum l = b}"
    using D(5) [OF b] by (auto simp: lh_bucket_def)
  have sub: "set ps \<subseteq> used l" by (auto simp: ps(3))
  have dis: "set ps \<inter> below_bucket l b = {}" by (auto simp: ps(3) below_bucket_def)
  have un: "below_bucket l (b + 1) = set ps \<union> below_bucket l b" by (auto simp: ps(3) below_bucket_def)
  have inj: "inj_on (lhk l) (set ps)" using D(7) sub by (rule inj_on_subset)
  have cm: "lh_count m = int (card (below_bucket l b))"
    using size_lh_pairs [OF lh_okD(2) [OF Suc.prems(1)]] Suc.prems(4) by (simp add: pairs_at_def)
  have "card (below_bucket l (b + 1)) \<le> card (used l)" by (rule card_mono) (auto simp: below_bucket_def)
  then have "card (set ps) + card (below_bucket l b) \<le> card (used l)"
    using dis by (simp add: un card_Un_disjoint)
  then have room: "lh_count m + int (length ps) \<le> lh_nodenum m"
    using cm D(1-3) Suc.prems(5) distinct_card [OF ps(2)] by (simp add: used_def)
  have "\<exists>m'. copy_chain (lh_fuel l) (lhf l b) (lh_table l) m = Some m' \<and> lh_ok m' \<and> lh_nodenum m' = lh_nodenum m \<and>
    same_rest m m' \<and> lh_pairs m' = lh_pairs m + mset (map (\<lambda>p. (lhk l p, lhd l p)) ps)"
  proof (rule copy_chain_spec [OF Suc.prems(1) ps(1) bucket_length [OF ps(2) sub L] _ _ room])
    show "distinct (map (lhk l) ps)" using ps(2) inj by (simp add: distinct_map)
    show "\<forall>p \<in> set ps. 0 \<le> lhk l p \<and> fresh_key (lhk l p) m"
    proof
      fix p assume p: "p \<in> set ps"
      have "lhk l q \<noteq> lhk l p" if "q \<in> below_bucket l b" for q
        using p that by (auto simp: below_bucket_def ps(3))
      then show "0 \<le> lhk l p \<and> fresh_key (lhk l p) m"
        using D(6) sub p by (fastforce simp: fresh_key_def Suc.prems(4) pairs_at_def)
    qed
  qed
  then obtain m1 where m1: "copy_chain (lh_fuel l) (lhf l b) (lh_table l) m = Some m1" "lh_ok m1"
    "lh_nodenum m1 = lh_nodenum m" "same_rest m m1"
    "lh_pairs m1 = lh_pairs m + mset (map (\<lambda>p. (lhk l p, lhd l p)) ps)" by blast
  have "lh_pairs m1 = pairs_at l (below_bucket l (b + 1))"
  proof -
    have "mset_set (below_bucket l (b + 1)) = mset ps + mset_set (below_bucket l b)"
      unfolding un using dis ps(2) by (simp add: mset_set_Union mset_set_set)
    then show ?thesis using m1(5) Suc.prems(4) by (simp add: pairs_at_def)
  qed
  then obtain m' where "copy_buckets (lh_fuel l) k (b + 1) (lh_table l) m1 = Some m'" "lh_ok m'"
    "lh_nodenum m' = lh_nodenum m1" "same_rest m1 m'" "lh_pairs m' = pairs_at l (below_bucket l (lh_nodenum l))"
    using Suc.IH [OF m1(2), of "b + 1"] Suc.prems m1(3) by auto
  then show ?case using m1 same_rest_trans [OF m1(4)] by (intro exI [of _ m']) simp
qed

text \<open>A new key is added, in a table twice as large if the old one is full.\<close>

lemma loadhash_add_spec:
  assumes L: "lh_ok l" and k: "0 \<le> k" "fresh_key k l"
  shows "runs (loadhash_add k d l s) (\<lambda>m t. t = s \<and> lh_ok m \<and> same_rest l m \<and> lh_pairs m = add_mset (k, d) (lh_pairs l))"
proof (cases "lh_count l = lh_nodenum l")
  case False
  then have c: "lh_count l < lh_nodenum l" "lh_freepos l \<noteq> -1" using lh_okD(2-4) [OF L] by (auto simp: lh_free_def)
  obtain m where m: "loadhash_insert k d l = Some m" "inserted k d l m" using loadhash_insert_eq [OF k(1)] by blast
  show ?thesis
    using inserted_ok [OF L c(1) k m(2)] m c(2) by (simp add: loadhash_add_def inserted_def)
next
  case True
  let ?n = "lh_nodenum l"
  let ?m = "l\<lparr>lh_table := lh_fresh (2 * ?n), lh_nodenum := 2 * ?n, lh_freepos := 0, lh_count := 0\<rparr>"
  note D = lh_okD [OF L]
  have f: "lh_freepos l = -1" using D(4) True by (simp add: lh_free_def)
  have "1 \<le> 2 * ?n" using D(1) by simp
  note F = lh_fresh_ok [OF this, of l]
  have e0: "below_bucket l 0 = {}" using D(1) by (auto simp: below_bucket_def pos_mod_sign not_less)
  have en: "below_bucket l ?n = used l" using D(1) by (auto simp: below_bucket_def)
  have "\<exists>m'. copy_buckets (lh_fuel l) (nat ?n) 0 (lh_table l) ?m = Some m' \<and> lh_ok m' \<and> lh_nodenum m' = lh_nodenum ?m \<and>
    same_rest ?m m' \<and> lh_pairs m' = pairs_at l (below_bucket l ?n)"
    by (rule copy_buckets_spec [OF L F(1)]) (use D(1) F(2) e0 in \<open>simp_all add: pairs_at_def\<close>)
  then obtain m1 where m1: "copy_buckets (lh_fuel l) (nat ?n) 0 (lh_table l) ?m = Some m1" "lh_ok m1"
    "lh_nodenum m1 = 2 * ?n" "same_rest ?m m1" "lh_pairs m1 = lh_pairs l"
    unfolding en lh_pairs_def [symmetric] by auto
  have c: "lh_count m1 < lh_nodenum m1"
    using size_lh_pairs [OF lh_okD(2) [OF m1(2)]] size_lh_pairs [OF D(2)] True D(1) m1(3,5) by simp
  have k1: "fresh_key k m1" using k(2) by (simp add: fresh_key_def m1(5))
  obtain m where m: "loadhash_insert k d m1 = Some m" "inserted k d m1 m" using loadhash_insert_eq [OF k(1)] by blast
  note I = inserted_ok [OF m1(2) c k(1) k1 m(2)]
  have "same_rest l m" using m1(4) m(2) by (simp add: same_rest_def inserted_def)
  then show ?thesis
    using I m(1) m1(1,5) f by (simp add: loadhash_add_def loadhash_realloc_def Let_def alloc_def)
qed

end
