(* ===== verification/LoadLines.thy ===== *)
theory LoadLines
  imports SaveLines LoadTable FddOps
begin

text \<open>
  Loading the lines that \<open>bdd_save\<close> writes: each line becomes a referenced node with the function of the saved
  one; when the table is given back, the root is left.
\<close>

section \<open>Reading one line\<close>

lemma s32_id: "int_range n \<Longrightarrow> s32 n = n"
  by (simp add: s32_def int_range_def)

lemma scan_node_line:
  assumes "int_range n" "int_range v" "int_range lo" "int_range hi"
  shows "scan_node (node_line n v lo hi) = Some (n, v, lo, hi)"
proof -
  have stop: "\<not> starts_digit (CHR ''['' # u)" "\<not> starts_digit (CHR '']'' # u)" "\<not> starts_digit (CHR '' '' # u)"
    "\<not> starts_digit nl" for u
    by (simp_all add: starts_digit_def digit_val_def nl_def)
  have b: "list_all blank [CHR '' '']" by (simp add: blank_def)
  have 1: "scan_int (show_int n @ CHR ''['' # u) = Some (n, CHR ''['' # u)" for u
    using scan_show [OF assms(1) stop(1), of "[]"] by simp
  have 2: "scan_int (show_int v @ CHR '']'' # u) = Some (v, CHR '']'' # u)" for u
    using scan_show [OF assms(2) stop(2), of "[]"] by simp
  have 3: "scan_int (CHR '' '' # show_int lo @ CHR '' '' # u) = Some (lo, CHR '' '' # u)" for u
    using scan_show [OF assms(3) stop(3) b] by simp
  have 4: "scan_int (CHR '' '' # show_int hi @ nl) = Some (hi, nl)"
    using scan_show [OF assms(4) stop(4) b] by simp
  show ?thesis
    by (simp add: scan_node_def node_line_def scan_chr_def 1 2 3 4 s32_id assms)
qed

lemma node_line_hd: "node_line n v lo hi \<noteq> [] \<and> hd (node_line n v lo hi) \<noteq> CHR ''#''"
proof -
  obtain c cs where c: "nat_dec (nat n) = c # cs" "digit_val c \<noteq> None"
    using all_digits_dec [of "nat n"] by (cases "nat_dec (nat n)") (auto simp: all_digits_def)
  have "c \<noteq> CHR ''#''" using c(2) by (auto simp: digit_val_def)
  then show ?thesis by (simp add: node_line_def show_int_def c(1))
qed

section \<open>The functions of the loaded nodes\<close>

text \<open>An assignment to the levels of \<open>E\<close> as one to the levels of \<open>s\<close>, through the variables.\<close>

definition across :: "bdd_state \<Rightarrow> bdd_state \<Rightarrow> (int \<Rightarrow> bool) \<Rightarrow> int \<Rightarrow> bool" where
  "across E s e l = e (bddvar2level E (bddlevel2var s l))"

definition saved_fn :: "bdd_state \<Rightarrow> bdd_state \<Rightarrow> int \<Rightarrow> bfun" where
  "saved_fn E s n e = sem s n (across E s e)"

text \<open>The references that the table holds.\<close>

definition held :: "bdd_state \<Rightarrow> bdd_state \<Rightarrow> loader \<Rightarrow> (int \<times> bfun) multiset" where
  "held E s l = image_mset (\<lambda>(k, d). (d, saved_fn E s k)) (lh_pairs l)"

definition keyset :: "loader \<Rightarrow> int set" where "keyset l = fst ` set_mset (lh_pairs l)"

lemma saved_fn_const: "saved_fn E s 0 = (\<lambda>_. False)" "saved_fn E s 1 = (\<lambda>_. True)"
  by (simp_all add: saved_fn_def fun_eq_iff)

lemma saved_fn_inner:
  "inner s n \<Longrightarrow> saved_fn E s n e = (if e (bddvar2level E (bddlevel2var s (LEVEL s n))) then saved_fn E s (HIGH s n) e
    else saved_fn E s (LOW s n) e)"
  by (simp add: saved_fn_def sem_inner across_def)

lemma load_child_spec:
  assumes O: "own E (held E s l + L) t" and T: "lh_ok l" and c: "node_id s c" "known (keyset l) c"
  shows "\<exists>d. load_child c l t = ret d t \<and> has (held E s l + L) d (saved_fn E s c) \<and> 0 \<le> d"
proof (cases "2 \<le> c")
  case True
  then obtain d where d: "(c, d) \<in># lh_pairs l" using c(2) by (auto simp: known_def keyset_def)
  then have h: "has (held E s l + L) d (saved_fn E s c)" by (force simp: has_def held_def)
  have "node_id t d" using own_has(2) [OF O h] by (simp add: stands_def)
  then have "0 \<le> d" by (auto simp: node_id_def allocd_def)
  then show ?thesis using loadhash_get_spec(1) [OF T _ d] True h by (auto simp: load_child_def)
next
  case False
  then have "c = 0 \<or> c = 1" using c(1) by (auto simp: node_id_def allocd_def)
  then show ?thesis
    using False by (auto simp: load_child_def has_def saved_fn_const)
qed

text \<open>One node.\<close>

lemma load_node_spec:
  assumes O: "own E (held E s l + L) t" and T: "lh_ok l" and n: "inner s n" "0 \<le> n" "n \<notin> keyset l"
    and v: "0 \<le> v" "v < bddvarnum E" "v = bddlevel2var s (LEVEL s n)"
    and h: "has (held E s l + L) hi (saved_fn E s (HIGH s n))" "has (held E s l + L) lo (saved_fn E s (LOW s n))"
  shows "runs (load_node n v hi lo l t) (\<lambda>(x, m) u. lh_ok m \<and> same_rest l m \<and>
    lh_pairs m = add_mset (n, x) (lh_pairs l) \<and> own E (held E s m + L) u)"
  unfolding load_node_def
proof (rule seq_ithvar [OF O v(1,2)])
  fix x assume "own E (add_mset (x, \<lambda>e. e (bddvar2level E v)) (held E s l + L)) t"
  note I = ite_own [OF this has_add has_more [OF h(1)] has_more [OF h(2)]]
  have eq: "(\<lambda>e. if e (bddvar2level E v) then saved_fn E s (HIGH s n) e else saved_fn E s (LOW s n) e) = saved_fn E s n"
    using saved_fn_inner [OF n(1), of E] v(3) by (simp add: fun_eq_iff)
  have fr: "fresh_key n l" using n(3) by (force simp: fresh_key_def keyset_def)
  show "runs (bnd (bdd_ite x hi lo t) (\<lambda>r s. bnd (bdd_addref r s) (\<lambda>rt s. bnd (loadhash_add n rt l s) (\<lambda>l s. ret (rt, l) s))))
      (\<lambda>(x, m) u. lh_ok m \<and> same_rest l m \<and> lh_pairs m = add_mset (n, x) (lh_pairs l) \<and> own E (held E s m + L) u)"
  proof (rule runs_bnd [OF I [unfolded eq]], elim conjE, drule own_less1, erule seq_addref, assumption)
    fix r u assume u: "own E (add_mset (r, saved_fn E s n) (held E s l + L)) u"
    show "runs (bnd (loadhash_add n r l u) (\<lambda>l s. ret (r, l) s))
      (\<lambda>(x, m) u. lh_ok m \<and> same_rest l m \<and> lh_pairs m = add_mset (n, x) (lh_pairs l) \<and> own E (held E s m + L) u)"
      by (rule runs_bnd [OF loadhash_add_spec [OF T n(2) fr]]) (use u in \<open>auto simp: held_def\<close>)
  qed
qed

lemma resolve_none: "unresolved l = 0 \<Longrightarrow> resolve_nodes rt l s = ret (rt, l) s"
  by (simp add: resolve_nodes_def)

section \<open>All lines\<close>

text \<open>What is needed of the saved diagram: its variables exist in the session that loads it.\<close>

definition fits_in :: "bdd_state \<Rightarrow> bdd_state \<Rightarrow> bool" where
  "fits_in s E =
     (tab_inv s \<and> bdd_table s \<and> bddvarnum s \<le> bddvarnum E \<and>
      (\<forall>l. 0 \<le> l \<and> l < bddvarnum s \<longrightarrow> 0 \<le> bddlevel2var s l \<and> bddlevel2var s l < bddvarnum s))"

lemma fits_line:
  assumes F: "fits_in s E" and n: "inner s n"
  shows "0 \<le> bddlevel2var s (LEVEL s n)" "bddlevel2var s (LEVEL s n) < bddvarnum E" "0 \<le> n"
    "node_id s (LOW s n)" "node_id s (HIGH s n)" "scan_node (line_of s n) =
       Some (n, bddlevel2var s (LEVEL s n), LOW s n, HIGH s n)"
proof -
  have I: "tab_inv s" "bdd_table s" using F by (simp_all add: fits_in_def)
  have id: "node_id s n" "\<not> n < 2" using n by (auto simp: inner_def node_id_def allocd_def)
  note P = plain_node [OF I id] and B = bdd_node(1,5) [OF I(2,1) id(1)]
  show ch: "node_id s (LOW s n)" "node_id s (HIGH s n)" by (rule P(4), rule P(5))
  show "0 \<le> n" using id(2) by simp
  have l: "0 \<le> bddlevel2var s (LEVEL s n)" "bddlevel2var s (LEVEL s n) < bddvarnum s" "bddvarnum s \<le> bddvarnum E"
    using F B id(2) by (simp_all add: fits_in_def)
  then show "0 \<le> bddlevel2var s (LEVEL s n)" "bddlevel2var s (LEVEL s n) < bddvarnum E" by simp_all
  have sz: "bddnodesize s < 2 ^ 31" "3 \<le> bddnodesize s" using tab_invD(1) [OF I(1)] by (simp_all add: size_ok_def)
  have r: "int_range c" if "node_id s c" for c
    using that sz by (auto simp: node_id_def allocd_def int_range_def)
  have "bddvarnum s \<le> MAXVAR" using I(2) by (simp add: bdd_table_def)
  then have "int_range (bddlevel2var s (LEVEL s n))" using l by (simp add: int_range_def MAXVAR_def)
  then show "scan_node (line_of s n) = Some (n, bddlevel2var s (LEVEL s n), LOW s n, HIGH s n)"
    unfolding line_of_def by (rule scan_node_line [OF r [OF id(1)] _ r [OF ch(1)] r [OF ch(2)]])
qed

lemma loaddata_spec:
  assumes F: "fits_in s E"
  shows "own E (held E s l + L) t \<Longrightarrow> lh_ok l \<Longrightarrow> unresolved l = 0 \<Longrightarrow> listing s (keyset l) ns \<Longrightarrow>
    ns = [] \<longrightarrow> (k, rt) \<in># lh_pairs l \<Longrightarrow> ns \<noteq> [] \<longrightarrow> last ns = k \<Longrightarrow>
    runs (loaddata_loop (map (line_of s) ns) rt l t)
      (\<lambda>(x, m) u. lh_ok m \<and> own E (held E s m + L) u \<and> (k, x) \<in># lh_pairs m)"
proof (induction ns arbitrary: l t rt)
  case Nil
  then show ?case by simp
next
  case (Cons n ns)
  have n: "inner s n" "n \<notin> keyset l" "known (keyset l) (LOW s n)" "known (keyset l) (HIGH s n)"
    "listing s (insert n (keyset l)) ns" using Cons.prems(4) by simp_all
  note Fl = fits_line [OF F n(1)]
  obtain lo where lo: "load_child (LOW s n) l t = ret lo t" "has (held E s l + L) lo (saved_fn E s (LOW s n))" "0 \<le> lo"
    using load_child_spec [OF Cons.prems(1,2) Fl(4) n(3)] by blast
  obtain hi where hi: "load_child (HIGH s n) l t = ret hi t" "has (held E s l + L) hi (saved_fn E s (HIGH s n))" "0 \<le> hi"
    using load_child_spec [OF Cons.prems(1,2) Fl(5) n(4)] by blast
  note N = load_node_spec [OF Cons.prems(1,2) n(1) Fl(3) n(2) Fl(1,2) refl hi(2) lo(2)]
  have hd: "line_of s n \<noteq> [] \<and> hd (line_of s n) \<noteq> CHR ''#''" unfolding line_of_def by (rule node_line_hd)
  have "loaddata_loop (map (line_of s) (n # ns)) rt l t =
    bnd (load_node n (bddlevel2var s (LEVEL s n)) hi lo l t) (\<lambda>(rt, l) s'.
      bnd (resolve_nodes rt l s') (\<lambda>(rt, l) s'. loaddata_loop (map (line_of s) ns) rt l s'))"
    using hd Fl(1) by (simp add: Fl(6) lo(1) hi(1) leD [OF lo(3)] leD [OF hi(3)])
  also have "runs \<dots> (\<lambda>(x, m) u. lh_ok m \<and> own E (held E s m + L) u \<and> (k, x) \<in># lh_pairs m)"
  proof (rule runs_bnd [OF N], clarify)
    fix x m u
    assume m: "lh_ok m" "same_rest l m" "lh_pairs m = add_mset (n, x) (lh_pairs l)" "own E (held E s m + L) u"
    have u0: "unresolved m = 0" using m(2) Cons.prems(3) by (simp add: same_rest_def)
    have ks: "keyset m = insert n (keyset l)" by (simp add: keyset_def m(3))
    have "runs (loaddata_loop (map (line_of s) ns) x m u)
        (\<lambda>(x, m) u. lh_ok m \<and> own E (held E s m + L) u \<and> (k, x) \<in># lh_pairs m)"
      by (rule Cons.IH [OF m(4,1) u0]) (use n(5) ks Cons.prems(6) m(3) in auto)
    then show "runs (bnd (resolve_nodes x m u) (\<lambda>(rt, l) s'. loaddata_loop (map (line_of s) ns) rt l s'))
        (\<lambda>(x, m) u. lh_ok m \<and> own E (held E s m + L) u \<and> (k, x) \<in># lh_pairs m)"
      by (simp add: resolve_none [OF u0])
  qed
  finally show ?case .
qed

section \<open>Giving the references back\<close>

definition held_from :: "bdd_state \<Rightarrow> bdd_state \<Rightarrow> loader \<Rightarrow> int \<Rightarrow> (int \<times> bfun) multiset" where
  "held_from E s l n = image_mset (\<lambda>p. (lhd l p, saved_fn E s (lhk l p))) (mset_set {n..<lh_count l})"

lemma held_from_0: "held_from E s l 0 = held E s l"
  by (simp add: held_from_def held_def lh_pairs_def pairs_at_def used_def image_mset.compositionality comp_def)

lemma held_from_step: "n < lh_count l \<Longrightarrow> held_from E s l n = add_mset (lhd l n, saved_fn E s (lhk l n)) (held_from E s l (n + 1))"
proof -
  assume "n < lh_count l"
  then have "{n..<lh_count l} = insert n {n + 1..<lh_count l}" by auto
  then show ?thesis by (simp add: held_from_def)
qed

lemma held_from_none: "lh_count l \<le> n \<Longrightarrow> held_from E s l n = {#}"
  by (simp add: held_from_def)

lemma delref_loop_spec:
  assumes T: "lh_ok l"
  shows "own E (held_from E s l n + L) t \<Longrightarrow> 0 \<le> n \<Longrightarrow> n + int k = lh_nodenum l \<Longrightarrow>
    runs (delref_loop k n l t) (\<lambda>_ u. own E L u \<and> (\<forall>m G. stands u m G = stands t m G))"
proof (induction k arbitrary: n t)
  case 0
  then show ?case using lh_okD(3) [OF T] held_from_none [of l n] by simp
next
  case (Suc k)
  show ?case
  proof (cases "n < lh_count l")
    case True
    have "own E (add_mset (lhd l n, saved_fn E s (lhk l n)) (held_from E s l (n + 1) + L)) t"
      using Suc.prems(1) by (simp add: held_from_step [OF True])
    then show ?thesis unfolding delref_loop.simps
    proof (rule stands_delref)
      fix u assume u: "own E (held_from E s l (n + 1) + L) u" "\<And>m G. stands u m G = stands t m G"
      show "runs (delref_loop k (n + 1) l u) (\<lambda>_ u. own E L u \<and> (\<forall>m G. stands u m G = stands t m G))"
        using Suc.IH [OF u(1)] Suc.prems by (simp add: u(2))
    qed
  next
    case False
    then have d: "lhd l n = 0" using lh_okD(4) [OF T] Suc.prems by (simp add: lh_free_def)
    have h: "held_from E s l n = {#}" "held_from E s l (n + 1) = {#}" using False by (simp_all add: held_from_none)
    have "bdd_delref 0 t = ret 0 t" by (simp add: bdd_delref_def)
    then show ?thesis using Suc.IH [of "n + 1" t] Suc.prems by (simp add: d h)
  qed
qed

lemma load_nodes_spec:
  assumes F: "fits_in s E" and O: "own E L t" and l: "listing s {} (ns @ [r])" and u0: "unresolved l0 = 0"
    and c0: "lh_count l0 = 0"
  shows "runs (load_nodes (bddvarnum s) (map (line_of s) (ns @ [r])) l0 t)
    (\<lambda>(code, rt, m) u. code = 0 \<and> own E L u \<and> stands u rt (saved_fn E s r))"
proof -
  have v: "\<not> bddvarnum s > bddvarnum t" using F settledD(1) [OF own_settled [OF O]] by (simp add: fits_in_def)
  define n where "n = (if lh_nodenum l0 < 1 then 1 else lh_nodenum l0)"
  define l1 where "l1 = (if lh_nodenum l0 < 1 then l0\<lparr>lh_nodenum := 1\<rparr> else l0)"
  define l2 where "l2 = l1\<lparr>lh_table := lh_fresh n, lh_freepos := 0\<rparr>"
  have n1: "lh_nodenum l1 = n" "1 \<le> n" by (simp_all add: l1_def n_def)
  have "l2 = l0\<lparr>lh_table := lh_fresh n, lh_nodenum := n, lh_freepos := 0, lh_count := 0\<rparr>"
    using c0 by (simp add: l2_def l1_def n_def)
  then have T: "lh_ok l2" "lh_pairs l2 = {#}" using lh_fresh_ok [OF n1(2)] by simp_all
  have h0: "held E s l2 = {#}" "keyset l2 = {}" by (simp_all add: held_def keyset_def T(2))
  have u2: "unresolved l2 = 0" using u0 by (simp add: l2_def l1_def)
  have "runs (loaddata_loop (map (line_of s) (ns @ [r])) 0 l2 t)
      (\<lambda>(x, m) u. lh_ok m \<and> own E (held E s m + L) u \<and> (r, x) \<in># lh_pairs m)"
    by (rule loaddata_spec [OF F _ T(1) u2]) (use O l h0 in simp_all)
  then have D: "runs (bdd_loaddata (map (line_of s) (ns @ [r])) l2 t)
      (\<lambda>(x, m) u. lh_ok m \<and> own E (held E s m + L) u \<and> (r, x) \<in># lh_pairs m)" by (simp add: bdd_loaddata_def)
  have "runs (bnd (bdd_loaddata (map (line_of s) (ns @ [r])) l2 t) (\<lambda>(tmproot, l) s.
     bnd (delref_loop (nat (lh_nodenum l)) 0 l s) (\<lambda>_ s.
     ret (if tmproot < 0 then (tmproot, 0, l) else (0, tmproot, l)) s)))
    (\<lambda>(code, rt, m) u. code = 0 \<and> own E L u \<and> stands u rt (saved_fn E s r))"
  proof (rule runs_bnd [OF D], clarify)
    fix x m u assume m: "lh_ok m" "own E (held E s m + L) u" "(r, x) \<in># lh_pairs m"
    have "has (held E s m + L) x (saved_fn E s r)" using m(3) by (force simp: has_def held_def)
    then have st: "stands u x (saved_fn E s r)" by (rule own_has(2) [OF m(2)])
    then have x0: "\<not> x < 0" by (auto simp: stands_def node_id_def allocd_def)
    have "runs (delref_loop (nat (lh_nodenum m)) 0 m u) (\<lambda>_ w. own E L w \<and> (\<forall>k G. stands w k G = stands u k G))"
      by (rule delref_loop_spec [OF m(1)]) (use m(2) lh_okD(1) [OF m(1)] in \<open>simp_all add: held_from_0\<close>)
    then show "runs (bnd (delref_loop (nat (lh_nodenum m)) 0 m u) (\<lambda>_ s.
        ret (if x < 0 then (x, 0, m) else (0, x, m)) s))
      (\<lambda>(code, rt, m) u. code = 0 \<and> own E L u \<and> stands u rt (saved_fn E s r))"
      by (rule runs_bnd) (use x0 st in simp)
  qed
  then show ?thesis
    using v by (simp add: load_nodes_def Let_def alloc_def l1_def [symmetric] n1 l2_def [symmetric])
qed

end
