(* ===== verification/PropsIo.thy ===== *)
theory PropsIo
  imports LoadLines Example
begin

text \<open>The properties of \<^verbatim>\<open>bddio.c\<close>: the table of the loader and the round trip through a file.\<close>

section \<open>The header\<close>

lemma file_lines_app: "CHR 0x0A \<notin> set l \<Longrightarrow> file_lines (l @ nl @ t) = (l @ nl) # file_lines t"
  by (induction l) (auto simp: nl_def)

definition one_line :: "string \<Rightarrow> bool" where
  "one_line l = (\<exists>k. l = k @ nl \<and> CHR 0x0A \<notin> set k)"

lemma file_lines_concat: "list_all one_line ls \<Longrightarrow> file_lines (concat ls) = ls"
  using file_lines_app by (induction ls) (auto simp: one_line_def)

lemma show_no_nl: "CHR 0x0A \<notin> set (show_int n)"
proof -
  have "CHR 0x0A \<notin> set (nat_dec m)" for m
    using all_digits_dec [of m] by (auto simp: all_digits_def list_all_iff digit_val_def)
  then show ?thesis by (auto simp: show_int_def)
qed

lemma one_line_node: "one_line (node_line n v lo hi)"
  unfolding one_line_def node_line_def using show_no_nl
  by (intro exI [of _ "show_int n @ ''['' @ show_int v @ ''] '' @ show_int lo @ '' '' @ show_int hi"]) simp

lemma tokens_some: "c \<in> set s \<Longrightarrow> c \<noteq> CHR '' '' \<Longrightarrow> tokens s \<noteq> []"
  by (subst tokens.simps) (auto simp: Let_def dropWhile_eq_Nil_conv)

lemma tokens_cmd:
  "tokens (''%Name '' @ t) = ''%Name'' # tokens t" "tokens (''%Vars '' @ t) = ''%Vars'' # tokens t"
  "tokens (''%Nodes '' @ t) = ''%Nodes'' # tokens t" "tokens (''%Root '' @ t) = ''%Root'' # tokens t"
  "tokens (''%Ordering '' @ t) = ''%Ordering'' # tokens t"
  using tokens_cons [of "''%Name''" t] tokens_cons [of "''%Vars''" t] tokens_cons [of "''%Nodes''" t]
    tokens_cons [of "''%Root''" t] tokens_cons [of "''%Ordering''" t]
  by (simp_all add: solid_def)

lemma parseInt_show: "int_range n \<Longrightarrow> parseInt (show_int n) = n" "int_range n \<Longrightarrow> parseInt (show_int n @ nl) = n"
  using strtol_show [of n "[]"] strtol_show [of n nl]
  by (simp_all add: parseInt_def s32_id starts_digit_def nl_def digit_val_def)

lemma tokens_ordering: "tokens (concat (map (\<lambda>v. show_int (f v) @ '' '') vs) @ nl) = map (\<lambda>v. show_int (f v)) vs @ [nl]"
proof (induction vs)
  case Nil
  show ?case using tokens_last [of nl] by (simp add: solid_def nl_def)
next
  case (Cons v vs)
  then show ?case using tokens_cons [OF solid_show(1)] by simp
qed

lemma ordering_loop_show:
  "\<forall>v \<in> set vs. 0 \<le> f v \<and> int_range (f v) \<Longrightarrow>
   \<exists>g. ordering_loop (length vs) n (map (\<lambda>v. show_int (f v)) vs @ ts) l = Some (l\<lparr>loadvar2level := g\<rparr>)"
proof (induction vs arbitrary: n l)
  case Nil
  show ?case by (intro exI [of _ "loadvar2level l"]) simp
next
  case (Cons v vs)
  then show ?case
    using Cons.IH [of "n + 1" "l\<lparr>loadvar2level := (loadvar2level l)(n := f v)\<rparr>"]
    by (auto simp: parseInt_show Let_def)
qed

abbreviation "no_header \<equiv> \<lparr>h_started = False, h_typeR = False, h_nameR = False, h_varsR = False, h_rootR = False,
  h_orderR = False, h_vnum = None, h_root = 0\<rparr>"

abbreviation "named_header \<equiv> no_header\<lparr>h_started := True, h_typeR := True, h_nameR := True\<rparr>"

lemma header_named:
  "header_loop ((''@'' @ bddtype @ nl) # (''%Name '' @ name @ nl) # lines) no_header l s =
   header_loop lines named_header l s"
proof -
  have "tokens (name @ nl) \<noteq> []" by (rule tokens_some [of "CHR 0x0A"]) (simp_all add: nl_def)
  moreover have "tokens (''%Name '' @ name @ nl) = ''%Name'' # tokens (name @ nl)" by (rule tokens_cmd)
  ultimately show ?thesis by (simp add: header_line_def Let_def)
qed

lemma tokens_number: "tokens (show_int n @ nl) = [show_int n @ nl]"
  by (rule tokens_last [OF solid_show(2)])

lemma header_vars:
  assumes "int_range v" "0 \<le> v" "h_started h" "\<not> h_orderR h"
  shows "header_loop ((''%Vars '' @ show_int v @ nl) # lines) h l s =
    header_loop lines (h\<lparr>h_varsR := True, h_vnum := Some v\<rparr>) l s"
proof -
  have "tokens (''%Vars '' @ show_int v @ nl) = [''%Vars'', show_int v @ nl]" by (simp only: tokens_cmd tokens_number)
  then show ?thesis using assms by (simp add: header_line_def Let_def parseInt_show)
qed

lemma header_nodes:
  assumes "int_range n" "0 \<le> n" "h_started h" "\<not> h_orderR h"
  shows "header_loop ((''%Nodes '' @ show_int n @ nl) # lines) h l s = header_loop lines h (l\<lparr>lh_nodenum := n\<rparr>) s"
proof -
  have "tokens (''%Nodes '' @ show_int n @ nl) = [''%Nodes'', show_int n @ nl]" by (simp only: tokens_cmd tokens_number)
  then show ?thesis using assms by (simp add: header_line_def Let_def parseInt_show)
qed

lemma header_root:
  assumes "int_range r" "0 \<le> r" "h_started h" "\<not> h_orderR h"
  shows "header_loop ((''%Root '' @ show_int r @ nl) # lines) h l s =
    header_loop lines (if r < 2 then h\<lparr>h_rootR := True, h_root := r, h_orderR := True\<rparr>
      else h\<lparr>h_rootR := True, h_root := r\<rparr>) l s"
proof -
  have "tokens (''%Root '' @ show_int r @ nl) = [''%Root'', show_int r @ nl]" by (simp only: tokens_cmd tokens_number)
  then show ?thesis using assms by (cases "r < 2") (simp_all add: header_line_def Let_def parseInt_show)
qed

lemma header_done: "h_orderR h \<Longrightarrow> header_loop lines h l s = ret (0, h, l, lines) s"
  by (cases lines) simp_all

definition numbered :: "int \<Rightarrow> int \<Rightarrow> load_header" where
  "numbered v r = (let h = named_header\<lparr>h_varsR := True, h_vnum := Some v\<rparr>
     in if r < 2 then h\<lparr>h_rootR := True, h_root := r, h_orderR := True\<rparr> else h\<lparr>h_rootR := True, h_root := r\<rparr>)"

lemma header_numbers:
  assumes "int_range v" "0 \<le> v" "int_range n" "0 \<le> n" "int_range r" "0 \<le> r"
  shows "header_loop ((''@'' @ bddtype @ nl) # (''%Name '' @ name @ nl) # (''%Vars '' @ show_int v @ nl) #
      (''%Nodes '' @ show_int n @ nl) # (''%Root '' @ show_int r @ nl) # lines) no_header l s =
    header_loop lines (numbered v r) (l\<lparr>lh_nodenum := n\<rparr>) s" (is "?a = _")
proof -
  let ?h = "named_header\<lparr>h_varsR := True, h_vnum := Some v\<rparr>"
  have "?a = header_loop ((''%Nodes '' @ show_int n @ nl) # (''%Root '' @ show_int r @ nl) # lines) ?h l s"
    unfolding header_named by (rule header_vars [OF assms(1,2)]) simp_all
  also have "\<dots> = header_loop ((''%Root '' @ show_int r @ nl) # lines) ?h (l\<lparr>lh_nodenum := n\<rparr>) s"
    by (rule header_nodes [OF assms(3,4)]) simp_all
  also have "\<dots> = header_loop lines (numbered v r) (l\<lparr>lh_nodenum := n\<rparr>) s"
    unfolding numbered_def Let_def by (rule header_root [OF assms(5,6)]) simp_all
  finally show ?thesis .
qed

lemma top_lines: "[a, b] @ ls = a # b # (ls :: string list)"
  by simp

lemma header_ordering:
  assumes "\<And>v. 0 \<le> v \<Longrightarrow> v < bddvarnum s \<Longrightarrow> 0 \<le> bddvar2level s v \<and> bddvar2level s v < bddvarnum s"
    "bddvarnum s \<le> MAXVAR" "h_started h" "\<not> h_orderR h" "h_vnum h = Some (bddvarnum s)"
  shows "\<exists>g. header_loop (ordering_line s # lines) h l t =
    (if bddvarnum s \<le> memlimit t then ret (0, h\<lparr>h_orderR := True\<rparr>, l\<lparr>loadvar2level := g\<rparr>, lines) t else fail Oom t)"
proof -
  let ?vs = "[0..bddvarnum s - 1]" and ?f = "\<lambda>v. show_int (bddvar2level s v)"
  have r: "\<forall>v \<in> set ?vs. 0 \<le> bddvar2level s v \<and> int_range (bddvar2level s v)"
    using assms(1,2) by (auto simp: int_range_def MAXVAR_def) force+
  have len: "length ?vs = nat (bddvarnum s)" by simp
  obtain g where g: "ordering_loop (nat (bddvarnum s)) 0 (map ?f ?vs @ [nl]) l = Some (l\<lparr>loadvar2level := g\<rparr>)"
    using ordering_loop_show [OF r, of 0 "[nl]" l] unfolding len by blast
  have tk: "tokens (ordering_line s) = ''%Ordering'' # map ?f ?vs @ [nl]"
    unfolding ordering_line_def tokens_cmd tokens_ordering ..
  have hd: "ordering_line s \<noteq> []" "hd (ordering_line s) = CHR ''%''" by (simp_all add: ordering_line_def)
  show ?thesis
    using assms(3-5) g by (intro exI [of _ g]) (simp add: header_line_def Let_def hd tk alloc_def header_done)
qed

section \<open>The table\<close>

text \<open>
  C35. The hash table of the loader (\<open>loadhash_add\<close>, \<open>loadhash_get\<close>, \<open>loadhash_realloc\<close>) implements a finite map: in a
  table that stands for the pairs \<open>lh_pairs l\<close>, a lookup returns the datum of a key or -1, and adding a new key gives a
  table that stands for the old pairs and the new one, also when the table is full and is rebuilt with twice
  the size first.
\<close>

theorem loadhash_refines_map:
  assumes "lh_ok l" "0 \<le> k" "fresh_key k l"
  shows "loadhash_get k l s = ret (-1) s \<and>
    runs (loadhash_add k d l s) (\<lambda>m t. t = s \<and> lh_ok m \<and> lh_pairs m = add_mset (k, d) (lh_pairs l) \<and>
      (\<forall>k' d'. 0 \<le> k' \<and> (k', d') \<in># lh_pairs m \<longrightarrow> loadhash_get k' m s = ret d' s) \<and>
      (\<forall>k'. 0 \<le> k' \<and> fresh_key k' m \<longrightarrow> loadhash_get k' m s = ret (-1) s))"
proof
  show "loadhash_get k l s = ret (-1) s" by (rule loadhash_get_spec(2) [OF assms])
  show "runs (loadhash_add k d l s) (\<lambda>m t. t = s \<and> lh_ok m \<and> lh_pairs m = add_mset (k, d) (lh_pairs l) \<and>
      (\<forall>k' d'. 0 \<le> k' \<and> (k', d') \<in># lh_pairs m \<longrightarrow> loadhash_get k' m s = ret d' s) \<and>
      (\<forall>k'. 0 \<le> k' \<and> fresh_key k' m \<longrightarrow> loadhash_get k' m s = ret (-1) s))"
    by (rule runs_conseq [OF loadhash_add_spec [OF assms]]) (blast intro: loadhash_get_spec)
qed

text \<open>A table with one entry that is full, so that the second key makes it grow.\<close>

definition lh_start :: loader where
  "lh_start = \<lparr>lh_table = lh_fresh 1, lh_freepos = 0, lh_nodenum = 1, lh_count = 0, loadvar2level = (\<lambda>_. 0),
     un_nodes = (\<lambda>_. \<lparr>un_key = 0, un_high = 0, un_low = 0, un_var = 0\<rparr>), un_null = True, unresolved = 0,
     unresolved_size = 1000\<rparr>"

definition lh_one :: loader where "lh_one = the (loadhash_insert 7 5 lh_start)"

lemma lh_one_ok: "lh_ok lh_one" "lh_pairs lh_one = {#(7, 5)#}" "lh_freepos lh_one = -1"
proof -
  have "lh_start = lh_start\<lparr>lh_table := lh_fresh 1, lh_nodenum := 1, lh_freepos := 0, lh_count := 0\<rparr>"
    by (simp add: lh_start_def)
  then have S: "lh_ok lh_start" "lh_pairs lh_start = {#}" using lh_fresh_ok [of 1 lh_start] by simp_all
  obtain m where m: "loadhash_insert 7 5 lh_start = Some m" "inserted 7 5 lh_start m"
    using loadhash_insert_eq [of 7 5 lh_start] by auto
  have c: "lh_count lh_start < lh_nodenum lh_start" by (simp add: lh_start_def)
  have f: "fresh_key 7 lh_start" by (simp add: fresh_key_def S(2))
  have one: "lh_one = m" by (simp add: lh_one_def m(1))
  show "lh_ok lh_one" "lh_pairs lh_one = {#(7, 5)#}"
    unfolding one using inserted_ok [OF S(1) c _ f m(2)] S(2) by simp_all
  show "lh_freepos lh_one = -1"
    using m(2) by (simp add: one inserted_def lh_start_def lh_fresh_def)
qed

theorem loadhash_refines_map_example:
  "runs (loadhash_add 9 6 lh_one example) (\<lambda>m t. loadhash_get 7 m t = ret 5 t \<and> loadhash_get 9 m t = ret 6 t \<and>
     loadhash_get 8 m t = ret (-1) t)"
proof -
  have "fresh_key 9 lh_one" by (simp add: fresh_key_def lh_one_ok)
  note T = loadhash_refines_map [OF lh_one_ok(1) _ this, where d = 6 and s = example]
  have "runs (loadhash_add 9 6 lh_one example) (\<lambda>m t. t = example \<and> lh_ok m \<and>
      lh_pairs m = add_mset (9, 6) (lh_pairs lh_one) \<and>
      (\<forall>k' d'. 0 \<le> k' \<and> (k', d') \<in># lh_pairs m \<longrightarrow> loadhash_get k' m example = ret d' example) \<and>
      (\<forall>k'. 0 \<le> k' \<and> fresh_key k' m \<longrightarrow> loadhash_get k' m example = ret (-1) example))"
    using T by simp
  then show ?thesis by (rule runs_conseq) (simp add: lh_one_ok fresh_key_def)
qed

section \<open>The round trip\<close>

lemma one_line_header: "list_all one_line (header_lines s n r)"
proof -
  have "one_line (''%Vars '' @ show_int (bddvarnum s) @ nl)" "one_line (''%Nodes '' @ show_int n @ nl)"
    "one_line (''%Root '' @ show_int r @ nl)" "one_line (ordering_line s)"
    unfolding one_line_def ordering_line_def using show_no_nl
    by (intro exI [of _ "''%Vars '' @ show_int (bddvarnum s)"], simp, intro exI [of _ "''%Nodes '' @ show_int n"], simp,
        intro exI [of _ "''%Root '' @ show_int r"], simp,
        intro exI [of _ "''%Ordering '' @ concat (map (\<lambda>v. show_int (bddvar2level s v) @ '' '') [0..bddvarnum s - 1])"], simp)
  then show ?thesis by (simp add: header_lines_def)
qed

lemma fits_session: "session s \<Longrightarrow> bddvarnum s \<le> bddvarnum E \<Longrightarrow> fits_in s E"
  using sessionD(4) [of s] binvD(2,3) [OF sessionD(1), of s] by (auto simp: fits_in_def vars_ok_def)

text \<open>The lines that \<open>bdd_fnsave\<close> writes first, and those of a constant.\<close>

abbreviation "first_lines name bddtype \<equiv> [''@'' @ bddtype @ nl, ''%Name '' @ name @ nl]"
abbreviation "const_lines r \<equiv> [''%Vars '' @ show_int 0 @ nl, ''%Nodes '' @ show_int 0 @ nl, ''%Root '' @ show_int r @ nl]"
abbreviation "load_start l \<equiv> l\<lparr>lh_count := 0, lh_freepos := 0, lh_nodenum := LH_INIT_VALUE, unresolved := 0\<rparr>"

lemma one_line_first: "CHR 0x0A \<notin> set name \<Longrightarrow> CHR 0x0A \<notin> set bddtype \<Longrightarrow> list_all one_line (first_lines name bddtype)"
  unfolding one_line_def by (auto simp: nl_def)

lemma one_line_const: "list_all one_line (const_lines r)"
proof -
  have "one_line (''%Vars '' @ show_int n @ nl)" "one_line (''%Nodes '' @ show_int n @ nl)"
    "one_line (''%Root '' @ show_int n @ nl)" for n
    unfolding one_line_def using show_no_nl
    by (intro exI [of _ "''%Vars '' @ show_int n"], simp, intro exI [of _ "''%Nodes '' @ show_int n"], simp,
        intro exI [of _ "''%Root '' @ show_int n"], simp)
  then show ?thesis by simp
qed

lemma fnsave_const:
  "r < 2 \<Longrightarrow> bdd_fnsave True r name bddtype s = ret (0, concat (first_lines name bddtype @ const_lines r)) s"
proof -
  have "show_int 0 = ''0''" by code_simp
  then show "r < 2 \<Longrightarrow> ?thesis" by (simp add: bdd_fnsave_def bdd_save_def)
qed

lemma load_const:
  assumes r: "0 \<le> r" "r < 2" and nn: "CHR 0x0A \<notin> set name" "CHR 0x0A \<notin> set bddtype"
  shows "bdd_load (concat (first_lines name bddtype @ const_lines r)) l t = ret (0, r, (load_start l)\<lparr>lh_nodenum := 0\<rparr>) t"
proof -
  let ?ls = "first_lines name bddtype @ const_lines r" and ?l = "load_start l"
  have fl: "file_lines (concat ?ls) = ?ls"
    by (rule file_lines_concat) (use one_line_first [OF nn] one_line_const [of r] in simp)
  have i: "int_range 0" "int_range r" using r by (simp_all add: int_range_def)
  have h1: "header_loop ?ls no_header ?l t = header_loop [] (numbered 0 r) (?l\<lparr>lh_nodenum := 0\<rparr>) t"
    unfolding top_lines by (rule header_numbers [OF i(1) _ i(1) _ i(2) r(1)]) simp_all
  have h2: "header_loop [] (numbered 0 r) (?l\<lparr>lh_nodenum := 0\<rparr>) t = ret (0, numbered 0 r, ?l\<lparr>lh_nodenum := 0\<rparr>, []) t"
    by (rule header_done) (use r in \<open>simp add: numbered_def\<close>)
  show ?thesis using r unfolding bdd_load_def Let_def fl trans [OF h1 h2] by (auto simp: numbered_def)
qed

lemma header_saved:
  assumes s: "session s" and n: "int_range n" "0 \<le> n" and r: "int_range r" "2 \<le> r"
  shows "\<exists>g. header_loop (first_lines name bddtype @ header_lines s n r @ ls) no_header l t =
    (if bddvarnum s \<le> memlimit t
     then ret (0, (numbered (bddvarnum s) r)\<lparr>h_orderR := True\<rparr>, l\<lparr>lh_nodenum := n, loadvar2level := g\<rparr>, ls) t
     else fail Oom t)"
proof -
  let ?h = "numbered (bddvarnum s) r"
  have vn: "0 \<le> bddvarnum s" "bddvarnum s \<le> MAXVAR" using binvD(2) [OF sessionD(1) [OF s]] by (simp_all add: bdd_table_def)
  then have vr: "int_range (bddvarnum s)" by (simp add: int_range_def MAXVAR_def)
  have v2l: "0 \<le> bddvar2level s v \<and> bddvar2level s v < bddvarnum s" if "0 \<le> v" "v < bddvarnum s" for v
    using sessionD(4) [OF s] that by (simp add: vars_ok_def var_ok_def Let_def)
  have "header_loop (first_lines name bddtype @ header_lines s n r @ ls) no_header l t =
      header_loop (ordering_line s # ls) ?h (l\<lparr>lh_nodenum := n\<rparr>) t"
    using header_numbers [OF vr vn(1) n r(1), of bddtype name "ordering_line s # ls" l t] r(2)
    unfolding header_lines_def by simp
  moreover have "h_started ?h" "\<not> h_orderR ?h" "h_vnum ?h = Some (bddvarnum s)"
    using r(2) by (simp_all add: numbered_def)
  ultimately show ?thesis
    using header_ordering [OF v2l vn(2), of ?h ls "l\<lparr>lh_nodenum := n\<rparr>" t] by auto
qed

lemma load_saved:
  assumes s: "session s" and F: "fits_in s E" and O: "own E L t" and ns: "listing s {} (ns @ [r])"
    and n: "int_range n" "0 \<le> n" and r: "int_range r" "2 \<le> r"
    and nn: "CHR 0x0A \<notin> set name" "CHR 0x0A \<notin> set bddtype"
  shows "runs (bdd_load (concat (first_lines name bddtype @ header_lines s n r @ map (line_of s) (ns @ [r]))) l t)
    (\<lambda>(code, root, m) u. code = 0 \<and> own E L u \<and> stands u root (saved_fn E s r))"
proof -
  let ?nodes = "map (line_of s) (ns @ [r])"
  let ?ls = "first_lines name bddtype @ header_lines s n r @ ?nodes"
  have "list_all one_line ?nodes" using one_line_node by (auto simp: list_all_iff line_of_def)
  with one_line_first [OF nn] one_line_header [of s n r] have "list_all one_line ?ls"
    unfolding list_all_append by blast
  then have fl: "file_lines (concat ?ls) = ?ls" by (rule file_lines_concat)
  obtain g where hl: "header_loop ?ls no_header (load_start l) t =
      (if bddvarnum s \<le> memlimit t then ret (0, (numbered (bddvarnum s) r)\<lparr>h_orderR := True\<rparr>,
         (load_start l)\<lparr>lh_nodenum := n, loadvar2level := g\<rparr>, ?nodes) t else fail Oom t)"
    using header_saved [OF s n r, where name = name and bddtype = bddtype and ls = ?nodes and l = "load_start l" and t = t]
    by blast
  have ld: "runs (load_nodes (bddvarnum s) ?nodes ((load_start l)\<lparr>lh_nodenum := n, loadvar2level := g\<rparr>) t)
    (\<lambda>(code, root, m) u. code = 0 \<and> own E L u \<and> stands u root (saved_fn E s r))"
    by (rule load_nodes_spec [OF F O ns]) simp_all
  show ?thesis
    using ld r(2) unfolding bdd_load_def Let_def fl hl by (cases "bddvarnum s \<le> memlimit t") (auto simp: numbered_def)
qed

text \<open>
  C36. Saving and loading: \<open>bdd_fnsave\<close> leaves the session as it is and writes a text (type and name without a line
  break) from which \<open>bdd_load\<close>, in any session that has at least as many variables, whatever their order is there,
  returns 0 and a node that stands for the same function of the variables; all the references the loader has taken are
  given back.
\<close>

theorem bdd_save_load_roundtrip:
  assumes s: "session s" "handle s r" and O: "own E L t" and v: "bddvarnum s \<le> bddvarnum E"
    and nn: "CHR 0x0A \<notin> set name" "CHR 0x0A \<notin> set bddtype"
  shows "\<exists>out. bdd_fnsave True r name bddtype s = ret (0, out) s \<and>
    runs (bdd_load out l t) (\<lambda>(code, root, m) u. code = 0 \<and> own E L u \<and> stands u root (saved_fn E s r))"
proof -
  have F: "fits_in s E" by (rule fits_session [OF s(1) v])
  then have I: "tab_inv s" "bdd_table s" by (simp_all add: fits_in_def)
  have id: "node_id s r" using s(2) by (simp add: handle_iff)
  have sz: "bddnodesize s < 2 ^ 31" using tab_invD(1) [OF I(1)] by (simp add: size_ok_def)
  have r: "int_range r" "0 \<le> r" using id sz by (auto simp: node_id_def allocd_def int_range_def)
  show ?thesis
  proof (cases "r < 2")
    case True
    then have "r = 0 \<or> r = 1" using r(2) by auto
    then have "stands t r (saved_fn E s r)" by (auto simp: stands_def node_id_def saved_fn_const fun_eq_iff)
    then show ?thesis using O fnsave_const [OF True] load_const [OF r(2) True nn] by auto
  next
    case False
    obtain n ns where sv: "bdd_save r s = ret (0, header_lines s n r @ map (line_of s) (ns @ [r])) s"
      "listing s {} (ns @ [r])" "0 \<le> n" "n \<le> bddnodesize s"
      using bdd_save_spec [OF I id] False by auto
    have "bdd_fnsave True r name bddtype s =
        ret (0, concat (first_lines name bddtype @ header_lines s n r @ map (line_of s) (ns @ [r]))) s"
      by (simp add: bdd_fnsave_def sv(1))
    moreover have "int_range n" using sv(3,4) sz by (simp add: int_range_def)
    ultimately show ?thesis
      using load_saved [OF s(1) F O sv(2) _ sv(3) r(1) _ nn, of l] False by auto
  qed
qed

text \<open>The exclusive or of the example, saved and loaded again.\<close>

lemma ex_nothing: "own example {#} example"
  using ex_session by (simp add: own_quiet quiet_def pair_refs_def refs_held_def example_sel)

theorem bdd_save_load_roundtrip_example:
  "\<exists>out. bdd_fnsave True 7 ''xor'' ''BDD'' example = ret (0, out) example \<and>
    runs (bdd_load out lh_start example) (\<lambda>(code, root, m) u. code = 0 \<and> (bdderrorcond u = 0 \<longrightarrow>
      sem u root = (\<lambda>e. e 0 \<noteq> e 1)))"
proof -
  have "saved_fn example example 7 = (\<lambda>e. e 0 \<noteq> e 1)"
    by (simp add: saved_fn_def across_def fun_eq_iff sem_inner ex_inner ex_table_acc ex_table_simps example_sel)
  then have "\<exists>out. bdd_fnsave True 7 ''xor'' ''BDD'' example = ret (0, out) example \<and>
      runs (bdd_load out lh_start example)
        (\<lambda>(code, root, m) u. code = 0 \<and> own example {#} u \<and> stands u root (\<lambda>e. e 0 \<noteq> e 1))"
    using bdd_save_load_roundtrip [OF ex_session ex_handles(5) ex_nothing, of "''xor''" "''BDD''" lh_start] by simp
  then obtain out where t: "bdd_fnsave True 7 ''xor'' ''BDD'' example = ret (0, out) example"
    "runs (bdd_load out lh_start example)
      (\<lambda>(code, root, m) u. code = 0 \<and> own example {#} u \<and> stands u root (\<lambda>e. e 0 \<noteq> e 1))" by blast
  have "runs (bdd_load out lh_start example) (\<lambda>(code, root, m) u. code = 0 \<and> (bdderrorcond u = 0 \<longrightarrow>
      sem u root = (\<lambda>e. e 0 \<noteq> e 1)))"
    by (rule runs_conseq [OF t(2)]) (auto simp: stands_def)
  with t(1) show ?thesis by blast
qed

section \<open>Without a type\<close>

lemma header_unstarted:
  "\<forall>line \<in> set lines. line \<noteq> [] \<and> hd line \<noteq> CHR ''@'' \<Longrightarrow> \<not> h_started h \<Longrightarrow> \<not> h_orderR h \<Longrightarrow>
   header_loop lines h l t = bnd (bdd_error BDD_FORMAT t) (\<lambda>e s. ret (e, h, l, []) s)"
  by (induction lines) (simp_all add: header_line_def Let_def)

lemma node_line_digit: "node_line n v lo hi \<noteq> [] \<and> hd (node_line n v lo hi) \<noteq> CHR ''@''"
proof -
  obtain c cs where c: "nat_dec (nat n) = c # cs" "digit_val c \<noteq> None"
    using all_digits_dec [of "nat n"] by (cases "nat_dec (nat n)") (auto simp: all_digits_def)
  have "c \<noteq> CHR ''@''" using c(2) by (auto simp: digit_val_def)
  then show ?thesis by (simp add: node_line_def show_int_def c(1))
qed

lemma saved_fn_lines:
  assumes "session s" "handle s r"
  shows "\<exists>ls. bdd_save r s = ret (0, ls) s \<and> list_all one_line ls \<and> (\<forall>l \<in> set ls. l \<noteq> [] \<and> hd l \<noteq> CHR ''@'')"
proof (cases "r < 2")
  case True
  have "one_line (''%Vars 0'' @ nl)" "one_line (''%Nodes 0'' @ nl)" "one_line (''%Root '' @ show_int r @ nl)"
    unfolding one_line_def using show_no_nl [of r]
    by (intro exI [of _ "''%Vars 0''"], simp, intro exI [of _ "''%Nodes 0''"], simp, intro exI [of _ "''%Root '' @ show_int r"], simp)
  then show ?thesis using True
    by (intro exI [of _ "[''%Vars 0'' @ nl, ''%Nodes 0'' @ nl, ''%Root '' @ show_int r @ nl]"]) (simp add: bdd_save_def)
next
  case False
  have "fits_in s s" by (rule fits_session [OF assms(1)]) simp
  then have I: "tab_inv s" "bdd_table s" by (simp_all add: fits_in_def)
  have "node_id s r" using assms(2) by (simp add: handle_iff)
  then obtain n ns where sv: "bdd_save r s = ret (0, header_lines s n r @ map (line_of s) (ns @ [r])) s"
    using bdd_save_spec [OF I, of r] False by auto
  have "\<forall>l \<in> set (header_lines s n r @ map (line_of s) (ns @ [r])). l \<noteq> [] \<and> hd l \<noteq> CHR ''@''"
    using node_line_digit by (auto simp: header_lines_def ordering_line_def line_of_def)
  moreover have "list_all one_line (header_lines s n r @ map (line_of s) (ns @ [r]))"
    unfolding list_all_append using one_line_header one_line_node by (auto simp: line_of_def list_all_iff)
  ultimately show ?thesis using sv by blast
qed

text \<open>
  C37. What \<open>bdd_save\<close> itself writes cannot be loaded: the line with the type that \<open>bdd_load\<close> waits for is written by
  \<open>bdd_fnsave\<close> only, and \<open>bdd_load\<close> reads to the end of the file and reports the format error.
\<close>

theorem bdd_save_output_rejected:
  assumes "session s" "handle s r"
  shows "\<exists>ls. bdd_save r s = ret (0, ls) s \<and>
    bdd_load (concat ls) l t = bnd (bdd_error BDD_FORMAT t) (\<lambda>e u. ret (e, 0,
      l\<lparr>lh_count := 0, lh_freepos := 0, lh_nodenum := LH_INIT_VALUE, unresolved := 0\<rparr>) u)"
proof -
  obtain ls where ls: "bdd_save r s = ret (0, ls) s" "list_all one_line ls" "\<forall>l \<in> set ls. l \<noteq> [] \<and> hd l \<noteq> CHR ''@''"
    using saved_fn_lines [OF assms] by blast
  note fl = file_lines_concat [OF ls(2)]
  have "fst (bdd_error BDD_FORMAT t) \<noteq> Inr 0"
    by (cases "err_handler t") (simp_all add: bdd_error_def BDD_FORMAT_def ret_def fail_def)
  then have "bdd_load (concat ls) l t = bnd (bdd_error BDD_FORMAT t) (\<lambda>e u. ret (e, 0,
      l\<lparr>lh_count := 0, lh_freepos := 0, lh_nodenum := LH_INIT_VALUE, unresolved := 0\<rparr>) u)"
    unfolding bdd_load_def Let_def fl
    by (subst header_unstarted [OF ls(3)]) (auto simp: bnd_def ret_def split: prod.splits sum.splits)
  then show ?thesis using ls(1) by blast
qed

theorem bdd_save_output_rejected_example:
  "\<exists>ls. bdd_save 7 example = ret (0, ls) example \<and>
    bdd_load (concat ls) lh_start example = bnd (bdd_error BDD_FORMAT example) (\<lambda>e u. ret (e, 0, lh_start\<lparr>lh_nodenum := 1000\<rparr>) u)"
  using bdd_save_output_rejected [OF ex_session ex_handles(5), of lh_start example]
  by (simp add: lh_start_def LH_INIT_VALUE_def)

end
