(* ===== verification/Mtbdd.thy ===== *)
theory Mtbdd
  imports KernelApi KernelInit Bddop
begin

text \<open>
  Model of \<^verbatim>\<open>src/mtbdd.c\<close>, first part: the start of the package in MTBDD mode, the
  table of terminal values, the creation of terminals and access to them, and the functions that need no
  operation on leaves.

  A value that the C code passes as a pointer is an \<open>int option\<close>: \<open>None\<close> is \<open>NULL\<close>; otherwise
  the pattern of the number, or in the \<open>CUSTOM\<close> domain the address. In the other domains the release of the buffer that
  held the number is left out.
\<close>

section \<open>Values on the way to a terminal\<close>

primrec cachekey_loop :: "int list \<Rightarrow> int \<Rightarrow> int" where
  "cachekey_loop [] key = key"
| "cachekey_loop (c # cs) key = cachekey_loop cs (s32 (PAIR key (s32 c)))"

text \<open>\<open>controls\<close> are the entries from the current one on, \<open>controlNum + 1\<close> of them are read.\<close>

definition mtbdd_controls_cachekey :: "int list \<Rightarrow> int \<Rightarrow> int" where
  "mtbdd_controls_cachekey controls controlNum =
     cachekey_loop (take (Suc (nat controlNum)) controls) (s32 controlNum)"

definition type_known :: "int \<Rightarrow> bdd_state \<Rightarrow> bool" where
  "type_known t s = (0 \<le> t \<and> t < mtbdd_terminal_type_number s)"

definition mtbdd_release_temp_value :: "int option \<Rightarrow> int \<Rightarrow> bdd_state \<Rightarrow> unit bm" where
  "mtbdd_release_temp_value v t s = (case v of
      None \<Rightarrow> ret () s
    | Some p \<Rightarrow>
        if \<not> type_known t s then fail Trap s
        else ret () (s\<lparr>trace := trace s @
          (case freefun (type_functions s t) of None \<Rightarrow> [] | Some f \<Rightarrow> [EvFreefun f p]) @ [EvFree p]\<rparr>))"

definition mtbdd_init :: "int \<Rightarrow> int \<Rightarrow> bdd_state \<Rightarrow> int bm" where
  "mtbdd_init initnodesize cs s =
     (if bddrunning s then bdd_error BDD_RUNNING s
      else bnd (bdd_init initnodesize cs (s\<lparr>mtbdd := True\<rparr>)) (\<lambda>err s.
        ret err (if err < 0 then s\<lparr>mtbdd := False\<rparr> else s)))"

section \<open>The table of values\<close>

definition first_values :: "mtbddValues \<Rightarrow> mtbddValues" where
  "first_values v =
     (if mtbddmaxTerminalSize v = 0
      then (if domaintype v = CUSTOM then v\<lparr>vals := (\<lambda>_. 0)\<rparr> else v)\<lparr>mtbddmaxTerminalSize := INITIAL_TERMINAL_SIZE\<rparr>
      else v)"

definition more_values :: "mtbddValues \<Rightarrow> mtbddValues" where
  "more_values v =
     (if mtbddTerminalUsed v = mtbddmaxTerminalSize v then let
        old_size = mtbddmaxTerminalSize v;
        v = v\<lparr>mtbddmaxTerminalSize := mtbddmaxTerminalSize v * 2\<rparr>
      in if domaintype v = CUSTOM
         then v\<lparr>vals := (\<lambda>i. if old_size \<le> i \<and> i < mtbddmaxTerminalSize v then 0 else vals v i)\<rparr>
         else v
      else v)"

definition put_value :: "int \<Rightarrow> mtbddValues \<Rightarrow> int \<times> mtbddValues" where
  "put_value x v = (let
     (index, v) = mtbdd_IndexStackPop v;
     (index, v) = (if index = -1 then (mtbddLastValueIndex v, v\<lparr>mtbddLastValueIndex := mtbddLastValueIndex v + 1\<rparr>)
                   else (index, v))
   in (index, v\<lparr>vals := (vals v)(index := x), mtbddTerminalUsed := mtbddTerminalUsed v + 1\<rparr>))"

text \<open>The allocation for a table that has become larger.\<close>

definition alloc_values :: "mtbddValues \<Rightarrow> mtbddValues \<Rightarrow> bdd_state \<Rightarrow> unit bm" where
  "alloc_values v w s =
     (if mtbddmaxTerminalSize w = mtbddmaxTerminalSize v then ret () s
      else if mtbddmaxTerminalSize w > INT_MAX then fail Trap s
      else alloc (mtbddmaxTerminalSize w) s)"

definition mtbdd_insertvalue :: "int \<Rightarrow> bdd_state \<Rightarrow> int bm" where
  "mtbdd_insertvalue x s = (let
     v = mtvals s;
     v = (if mtbddmaxTerminalSize v = 0 then v\<lparr>mtbddLastValueIndex := 0, indexstack := []\<rparr> else v)
   in if domaintype v \<in> {DOUBLEVAL, LONGVAL, CUSTOM} then
        bnd (alloc_values v (first_values v) s) (\<lambda>_ s.
        bnd (alloc_values (first_values v) (more_values (first_values v)) s) (\<lambda>_ s. let
          (index, v) = put_value x (more_values (first_values v))
        in ret index (s\<lparr>mtvals := v\<rparr>)))
      else ret (-1) (s\<lparr>mtvals := v\<rparr>))"

text \<open>Equality of two doubles given by their patterns: no NaN is equal to anything, the two zeros are equal.\<close>

definition double_nan :: "int \<Rightarrow> bool" where
  "double_nan x = (take_bit 63 x > 0x7FF0000000000000)"

definition double_eq :: "int \<Rightarrow> int \<Rightarrow> bool" where
  "double_eq x y = (\<not> double_nan x \<and> \<not> double_nan y \<and> (u64 x = u64 y \<or> take_bit 63 x = 0 \<and> take_bit 63 y = 0))"

definition same_value :: "int \<Rightarrow> int \<Rightarrow> BDD \<Rightarrow> bdd_state \<Rightarrow> bool" where
  "same_value x t res s = (let y = vals (mtvals s) (u32 (HIGH s res)) in
     case domaintype (mtvals s) of
       LONGVAL \<Rightarrow> x = y
     | DOUBLEVAL \<Rightarrow> double_eq x y
     | CUSTOM \<Rightarrow> t = u32 (LOW s res) \<and> (case comparefun (type_functions s t) of None \<Rightarrow> False | Some cmp \<Rightarrow> cmp x y)
     | _ \<Rightarrow> False)"

primrec findterminal_loop :: "nat \<Rightarrow> BDD \<Rightarrow> int \<Rightarrow> int \<Rightarrow> bdd_state \<Rightarrow> BDD bm" where
  "findterminal_loop 0 res x t s = fail Nofuel s"
| "findterminal_loop (Suc k) res x t s =
     (if res = 0 then ret (-1) s
      else if LEVEL s res \<noteq> MAXLEVEL then findterminal_loop k (n_next (bddnodes s res)) x t s
      else if u32 (HIGH s res) \<ge> mtbddmaxTerminalSize (mtvals s)
      then findterminal_loop k (n_next (bddnodes s res)) x t s
      else if same_value x t res s then ret res s
      else findterminal_loop k (n_next (bddnodes s res)) x t s)"

definition mtbdd_findterminal :: "int \<Rightarrow> int \<Rightarrow> int \<Rightarrow> bdd_state \<Rightarrow> BDD bm" where
  "mtbdd_findterminal x hash t s = (let res = n_hash (bddnodes s hash) in
     if domaintype (mtvals s) = CUSTOM \<and> \<not> type_known t s then fail Trap s
     else if domaintype (mtvals s) = CUSTOM \<and> comparefun (type_functions s t) = None
     then bnd (bdd_error BDD_OP s) (\<lambda>_ s. ret bddfalse s)
     else findterminal_loop (mark_fuel s) res x t s)"

section \<open>Terminals\<close>

text \<open>A terminal whose value goes to the table: the pattern \<open>low\<close>, \<open>high\<close> only selects the bucket.\<close>

definition insert_terminal :: "int \<Rightarrow> int \<Rightarrow> int \<Rightarrow> int \<Rightarrow> bdd_state \<Rightarrow> BDD bm" where
  "insert_terminal x low high t s =
     bnd (mtbdd_insertvalue x s) (\<lambda>valIndex s.
     bnd (bdd_makenode MAXLEVEL (s32 low) (s32 high) s) (\<lambda>n s.
     ret n (upd_node (\<lambda>d. d\<lparr>n_high := valIndex, n_low := s32 t\<rparr>) n s)))"

definition number_terminal :: "int \<Rightarrow> int \<Rightarrow> bdd_state \<Rightarrow> BDD bm" where
  "number_terminal x t s = (let low = u32 x; high = u32 (drop_bit 32 x) in
     bnd (mtbdd_findterminal x (NODEHASH s MAXLEVEL low high) t s) (\<lambda>foundTerminal s.
     if foundTerminal \<noteq> -1 then ret foundTerminal s else insert_terminal x low high t s))"

definition custom_terminal :: "int \<Rightarrow> int \<Rightarrow> bdd_state \<Rightarrow> BDD bm" where
  "custom_terminal x t s =
     (if \<not> type_known t s then fail Trap s
      else let custom = (case hashfun (type_functions s t) of None \<Rightarrow> 42 | Some h \<Rightarrow> u32 (h x)) in
        bnd (mtbdd_findterminal x (NODEHASH s MAXLEVEL custom 42) t s) (\<lambda>foundTerminal s.
        if foundTerminal \<noteq> -1
        then bnd (mtbdd_release_temp_value (Some x) t s) (\<lambda>_ s. ret foundTerminal s)
        else bnd (insert_terminal x custom 42 t s) (\<lambda>n s. ret n (upd_node (\<lambda>d. d\<lparr>n_refcou := 0\<rparr>) n s))))"

definition mtbdd_maketerminal :: "int option \<Rightarrow> int \<Rightarrow> bdd_state \<Rightarrow> BDD bm" where
  "mtbdd_maketerminal v t s = (case v of
      None \<Rightarrow> ret 0 s
    | Some x \<Rightarrow> (case domaintype (mtvals s) of
          INTVAL \<Rightarrow> bdd_makenode MAXLEVEL 42 (s32 x) s
        | FLOATVAL \<Rightarrow> bdd_makenode MAXLEVEL 42 (s32 x) s
        | UNSIGNEDVAL \<Rightarrow> bdd_makenode MAXLEVEL 42 (s32 x) s
        | LONGVAL \<Rightarrow> number_terminal x t s
        | DOUBLEVAL \<Rightarrow> number_terminal x t s
        | CUSTOM \<Rightarrow> custom_terminal x t s
        | _ \<Rightarrow> ret (-1) s))"

definition address :: "int \<Rightarrow> int option" where "address p = (if p = 0 then None else Some p)"

definition mtbdd_getTerminalValue :: "BDD \<Rightarrow> bdd_state \<Rightarrow> int option bm" where
  "mtbdd_getTerminalValue terminal s =
     (if ISCONST terminal then ret None s
      else bnd (if \<not> ISTERMINAL s terminal then bdd_error BDD_OP s else ret 0 s) (\<lambda>_ s.
        let x = vals (mtvals s) (u32 (HIGH s terminal)) in
        case domaintype (mtvals s) of
          INTVAL \<Rightarrow> ret (Some (HIGH s terminal)) s
        | FLOATVAL \<Rightarrow> ret (Some (HIGH s terminal)) s
        | UNSIGNEDVAL \<Rightarrow> ret (Some (HIGH s terminal)) s
        | LONGVAL \<Rightarrow> ret (Some x) s
        | DOUBLEVAL \<Rightarrow> ret (Some x) s
        | CUSTOM \<Rightarrow> ret (address x) s
        | _ \<Rightarrow> ret None s))"

definition mtbdd_get_terminal_type :: "BDD \<Rightarrow> bdd_state \<Rightarrow> int" where
  "mtbdd_get_terminal_type terminal s = u32 (LOW s terminal)"

text \<open>
  The result is the node and the flag \<open>reused\<close>. \<open>r\<close> is negative for unary operations; the compare function gets 0
  for a \<open>NULL\<close>.
\<close>

definition the_address :: "int option \<Rightarrow> int" where "the_address v = (case v of None \<Rightarrow> 0 | Some p \<Rightarrow> p)"

definition mtbdd_leaf_result ::
    "int option \<Rightarrow> int \<Rightarrow> BDD \<Rightarrow> int option \<Rightarrow> BDD \<Rightarrow> int option \<Rightarrow> bdd_state \<Rightarrow> (BDD \<times> bool) bm" where
  "mtbdd_leaf_result v t l valueL r valueR s = (case v of
      None \<Rightarrow> ret (bddfalse, False) s
    | Some x \<Rightarrow>
        if domaintype (mtvals s) \<noteq> CUSTOM
        then bnd (mtbdd_maketerminal v t s) (\<lambda>n s. ret (n, False) s)
        else (case (if t < mtbdd_terminal_type_number s then comparefun (type_functions s t) else None) of
            None \<Rightarrow> bnd (bdd_error BDD_OP s) (\<lambda>_ s.
              bnd (mtbdd_release_temp_value v t s) (\<lambda>_ s. ret (bddfalse, False) s))
          | Some cmp \<Rightarrow>
              if cmp x (the_address valueL)
              then bnd (mtbdd_release_temp_value v t s) (\<lambda>_ s. ret (l, True) s)
              else if r \<ge> 0 \<and> cmp x (the_address valueR)
              then bnd (mtbdd_release_temp_value v t s) (\<lambda>_ s. ret (r, True) s)
              else bnd (mtbdd_maketerminal v t s) (\<lambda>n s. ret (n, False) s)))"

definition ISMTBDDLEAF :: "bdd_state \<Rightarrow> BDD \<Rightarrow> bool" where
  "ISMTBDDLEAF s a = (ISTERMINAL s a \<or> ISCONST a)"

section \<open>Functions without an operation\<close>

definition mtbdd_set_decision :: "BDD \<Rightarrow> BDD \<Rightarrow> BDD \<Rightarrow> bdd_state \<Rightarrow> BDD bm" where
  "mtbdd_set_decision f g h s = ret f (upd_node (\<lambda>d. d\<lparr>n_low := g, n_high := h\<rparr>) f s)"

text \<open>The loop over \<open>i = width - 1, \<dots>, 0\<close>; \<open>1 << i\<close> is defined up to the width of an int.\<close>

primrec cube2_loop :: "nat \<Rightarrow> int \<Rightarrow> BDD list \<Rightarrow> BDD \<Rightarrow> BDD \<Rightarrow> bdd_state \<Rightarrow> BDD bm" where
  "cube2_loop 0 value variables leaf0 result s = ret result s"
| "cube2_loop (Suc i) value variables leaf0 result s =
     (if length variables \<le> i \<or> 31 < i then fail Trap s
      else let level = LEVEL s (variables ! i) in
        bnd (PUSHREF result s) (\<lambda>_ s.
        bnd (if bit value i then bdd_makenode level leaf0 (READREF 1 s) s
             else bdd_makenode level (READREF 1 s) leaf0 s) (\<lambda>result s.
        bnd (POPREF 1 s) (\<lambda>_ s. cube2_loop i value variables leaf0 result s))))"

definition mtbdd_cube2 :: "int \<Rightarrow> int \<Rightarrow> BDD list \<Rightarrow> BDD \<Rightarrow> BDD \<Rightarrow> bdd_state \<Rightarrow> BDD bm" where
  "mtbdd_cube2 value width variables leaf1 leaf0 s = cube2_loop (nat width) value variables leaf0 leaf1 s"

primrec mtbdd_leaf_count_fn :: "nat \<Rightarrow> BDD \<Rightarrow> bdd_state \<Rightarrow> int bm" where
  "mtbdd_leaf_count_fn 0 n s = fail Nofuel s"
| "mtbdd_leaf_count_fn (Suc k) n s =
     (if ISCONST n then ret 0 s
      else if MARKED s n then ret 0 s
      else let s = SETMARK n s in
        if ISTERMINAL s n then ret 1 s
        else bnd (mtbdd_leaf_count_fn k (LOW s n) s) (\<lambda>a s.
             bnd (mtbdd_leaf_count_fn k (HIGH s n) s) (\<lambda>b s. ret (a + b) s)))"

definition mtbdd_leaf_count :: "BDD \<Rightarrow> bdd_state \<Rightarrow> int bm" where
  "mtbdd_leaf_count n s =
     bnd (mtbdd_leaf_count_fn (mark_fuel s) n s) (\<lambda>count s.
     bnd (bdd_unmark (mark_fuel s) n s) (\<lambda>_ s. ret count s))"

end
