(* ===== verification/MtbddApply.thy ===== *)
theory MtbddApply
  imports Mtbdd
begin

text \<open>
  Model of \<^verbatim>\<open>src/mtbdd.c\<close>, second part: the recursive operations. A callback is an
  argument: a function of the state, together with the number \<open>(int)(size_t)op\<close> that the caches use as its name;
  \<open>NULL\<close> is \<open>None\<close>. A guarded callback also returns whether it has set its flag to valid, which it is documented to do
  in every call.
\<close>

type_synonym 'f fptr = "(int \<times> 'f) option"
type_synonym leaf_op2 = "int option \<Rightarrow> int option \<Rightarrow> bdd_state \<Rightarrow> int option bm"
type_synonym leaf_op1 = "int option \<Rightarrow> bdd_state \<Rightarrow> int option bm"
type_synonym guarded_op2 = "BDD \<Rightarrow> BDD \<Rightarrow> bdd_state \<Rightarrow> (BDD \<times> bool) bm"
type_synonym guarded_op1 = "BDD \<Rightarrow> int \<Rightarrow> bdd_state \<Rightarrow> (BDD \<times> bool) bm"
type_synonym target_op = "int \<Rightarrow> BDD \<Rightarrow> BDD \<Rightarrow> bdd_state \<Rightarrow> BDD bm"
type_synonym guarded_target_op = "int \<Rightarrow> BDD \<Rightarrow> bdd_state \<Rightarrow> (BDD \<times> bool) bm"

section \<open>Caches\<close>

definition HASH4 :: "int \<Rightarrow> int \<Rightarrow> int \<Rightarrow> int \<Rightarrow> int" where
  "HASH4 a b c d = HASH_FOLD (u64 (u64 (HASH_W2 a b * HASH_K0) + u64 (HASH_W2 c d * HASH_K2)))"

definition HASH5 :: "int \<Rightarrow> int \<Rightarrow> int \<Rightarrow> int \<Rightarrow> int \<Rightarrow> int" where
  "HASH5 a b c d e = HASH_FOLD (u64 (u64 (HASH_W2 a b * HASH_K0) + u64 (u32 c * HASH_K1) + u64 (HASH_W2 d e * HASH_K2)))"

definition CACHE_SIZE_T_LO :: "int \<Rightarrow> int" where "CACHE_SIZE_T_LO p = s32 (u32 p)"
definition CACHE_SIZE_T_HI :: "int \<Rightarrow> int" where "CACHE_SIZE_T_HI p = s32 (u32 (drop_bit 32 (u64 p)))"

definition lookup_in :: "(bddCaches \<Rightarrow> BddCache) \<Rightarrow> int \<Rightarrow> bdd_state \<Rightarrow> (int \<Rightarrow> 'a bm) \<Rightarrow> 'a bm" where
  "lookup_in sel hash s k =
     (if tablesize (sel (caches s)) = 0 then fail Trap s else k (BddCache_lookup (sel (caches s)) hash))"

text \<open>The entry when it is valid.\<close>

definition cached :: "(bddCaches \<Rightarrow> BddCache) \<Rightarrow> int \<Rightarrow> bdd_state \<Rightarrow> (BddCacheData \<Rightarrow> bool) \<Rightarrow> bool" where
  "cached sel i s P = (BddCache_is_valid (sel (caches s)) i \<and> P (table (sel (caches s)) i))"

definition hit :: "(bddCaches \<Rightarrow> BddCache) \<Rightarrow> int \<Rightarrow> bdd_state \<Rightarrow> BDD bm" where
  "hit sel i s = ret (c_res (table (sel (caches s)) i)) s"

definition store3 :: "int \<Rightarrow> int \<Rightarrow> int \<Rightarrow> BDD \<Rightarrow> BddCacheData \<Rightarrow> BddCacheData" where
  "store3 a b c res e = e\<lparr>c_a := a, c_b := b, c_c := c, c_d := -1, c_res := res\<rparr>"

definition BddCache_store4_sizet :: "int \<Rightarrow> int \<Rightarrow> int \<Rightarrow> int \<Rightarrow> BDD \<Rightarrow> BddCacheData \<Rightarrow> BddCacheData" where
  "BddCache_store4_sizet a b c param res e =
     e\<lparr>c_a := a, c_b := b, c_c := c, c_d := CACHE_SIZE_T_LO param, c_r2 := CACHE_SIZE_T_HI param, c_res := res\<rparr>"

definition BddCache_store_sizet_b :: "int \<Rightarrow> int \<Rightarrow> int \<Rightarrow> BDD \<Rightarrow> BddCacheData \<Rightarrow> BddCacheData" where
  "BddCache_store_sizet_b a param c res e =
     e\<lparr>c_a := a, c_b := CACHE_SIZE_T_LO param, c_c := c, c_d := -1, c_r2 := CACHE_SIZE_T_HI param, c_res := res\<rparr>"

section \<open>The shared shape of the recursions\<close>

text \<open>The three cases of a binary operation, by the levels of the operands, and the unary case.\<close>

definition descend2 :: "(BDD \<Rightarrow> BDD \<Rightarrow> bdd_state \<Rightarrow> BDD bm) \<Rightarrow> BDD \<Rightarrow> BDD \<Rightarrow> bdd_state \<Rightarrow> BDD bm" where
  "descend2 rec l r s =
     (if LEVEL s l = LEVEL s r then
        both (\<lambda>s. rec (LOW s l) (LOW s r) s) (\<lambda>s. rec (HIGH s l) (HIGH s r) s)
          (\<lambda>lo hi s. bdd_makenode (LEVEL s l) lo hi s) s
      else if LEVEL s l < LEVEL s r then
        both (\<lambda>s. rec (LOW s l) r s) (\<lambda>s. rec (HIGH s l) r s) (\<lambda>lo hi s. bdd_makenode (LEVEL s l) lo hi s) s
      else
        both (\<lambda>s. rec l (LOW s r) s) (\<lambda>s. rec l (HIGH s r) s) (\<lambda>lo hi s. bdd_makenode (LEVEL s r) lo hi s) s)"

definition descend1 :: "(BDD \<Rightarrow> bdd_state \<Rightarrow> BDD bm) \<Rightarrow> BDD \<Rightarrow> bdd_state \<Rightarrow> BDD bm" where
  "descend1 rec l s =
     both (\<lambda>s. rec (LOW s l) s) (\<lambda>s. rec (HIGH s l) s) (\<lambda>lo hi s. bdd_makenode (LEVEL s l) lo hi s) s"

text \<open>The leaves of the operations on values.\<close>

definition leaf2 :: "leaf_op2 \<Rightarrow> BDD \<Rightarrow> BDD \<Rightarrow> bdd_state \<Rightarrow> (BDD \<times> bool) bm" where
  "leaf2 op l r s =
     bnd (mtbdd_getTerminalValue l s) (\<lambda>valueL s.
     bnd (mtbdd_getTerminalValue r s) (\<lambda>valueR s.
     let decidingTerminalType = (if ISCONST l then mtbdd_get_terminal_type r s else mtbdd_get_terminal_type l s) in
     bnd (op valueL valueR s) (\<lambda>resultValue s.
     mtbdd_leaf_result resultValue decidingTerminalType l valueL r valueR s)))"

definition leaf1 :: "leaf_op1 \<Rightarrow> BDD \<Rightarrow> bdd_state \<Rightarrow> (BDD \<times> bool) bm" where
  "leaf1 op l s =
     bnd (mtbdd_getTerminalValue l s) (\<lambda>value s.
     let terminalType = mtbdd_get_terminal_type l s in
     bnd (op value s) (\<lambda>resultValue s.
     mtbdd_leaf_result resultValue terminalType l value (-1) None s))"

text \<open>The result of a leaf is stored unless it is an operand.\<close>

definition keep_result :: "(BDD \<times> bool) bm \<Rightarrow> (BDD \<Rightarrow> bdd_state \<Rightarrow> bdd_state) \<Rightarrow> BDD bm" where
  "keep_result m st = bnd m (\<lambda>(res, reused) s. ret res (if reused then s else st res s))"

definition not_reused :: "BDD bm \<Rightarrow> (BDD \<times> bool) bm" where
  "not_reused m = bnd m (\<lambda>res s. ret (res, False) s)"

abbreviation "store_apply f i s \<equiv> store mtbdd_cache_apply_update f i s"
abbreviation "store_operation f i s \<equiv> store mtbdd_cache_operation_update f i s"

section \<open>Apply\<close>

primrec mtbdd_apply_rec :: "nat \<Rightarrow> BDD \<Rightarrow> BDD \<Rightarrow> int \<times> leaf_op2 \<Rightarrow> bdd_state \<Rightarrow> BDD bm" where
  "mtbdd_apply_rec 0 l r op s = fail Nofuel s"
| "mtbdd_apply_rec (Suc k) l r op s =
     lookup_in mtbdd_cache_apply (HASH3 l r (fst op)) s (\<lambda>i.
       if cached mtbdd_cache_apply i s (\<lambda>e. c_a e = l \<and> c_b e = r \<and> c_c e = fst op) then hit mtbdd_cache_apply i s
       else keep_result
         (if ISMTBDDLEAF s l \<and> ISMTBDDLEAF s r then leaf2 (snd op) l r s
          else not_reused (descend2 (\<lambda>l r. mtbdd_apply_rec k l r op) l r s))
         (\<lambda>res. store_apply (store3 l r (fst op) res) i))"

definition mtbdd_apply :: "BDD \<Rightarrow> BDD \<Rightarrow> leaf_op2 fptr \<Rightarrow> bdd_state \<Rightarrow> BDD bm" where
  "mtbdd_apply l r op s = CHECKa l bddfalse s (\<lambda>s. CHECKa r bddfalse s (\<lambda>s. case op of
       None \<Rightarrow> bnd (bdd_error BDD_OP s) (\<lambda>_ s. ret bddfalse s)
     | Some f \<Rightarrow> mtbdd_apply_rec (op_fuel s) l r f s))"

primrec mtbdd_apply_param_rec :: "nat \<Rightarrow> BDD \<Rightarrow> BDD \<Rightarrow> int \<times> (int \<Rightarrow> leaf_op2) \<Rightarrow> int \<Rightarrow> bdd_state \<Rightarrow> BDD bm" where
  "mtbdd_apply_param_rec 0 l r op param s = fail Nofuel s"
| "mtbdd_apply_param_rec (Suc k) l r op param s =
     lookup_in mtbdd_cache_apply (HASH5 l r (fst op) (CACHE_SIZE_T_LO param) (CACHE_SIZE_T_HI param)) s (\<lambda>i.
       if cached mtbdd_cache_apply i s (\<lambda>e. c_a e = l \<and> c_b e = r \<and> c_c e = fst op \<and>
            c_d e = CACHE_SIZE_T_LO param \<and> c_r2 e = CACHE_SIZE_T_HI param)
       then hit mtbdd_cache_apply i s
       else keep_result
         (if ISMTBDDLEAF s l \<and> ISMTBDDLEAF s r then leaf2 (snd op param) l r s
          else not_reused (descend2 (\<lambda>l r. mtbdd_apply_param_rec k l r op param) l r s))
         (\<lambda>res. store_apply (BddCache_store4_sizet l r (fst op) param res) i))"

definition mtbdd_apply_param :: "BDD \<Rightarrow> BDD \<Rightarrow> (int \<Rightarrow> leaf_op2) fptr \<Rightarrow> int \<Rightarrow> bdd_state \<Rightarrow> BDD bm" where
  "mtbdd_apply_param l r op param s = CHECKa l bddfalse s (\<lambda>s. CHECKa r bddfalse s (\<lambda>s. case op of
       None \<Rightarrow> bnd (bdd_error BDD_OP s) (\<lambda>_ s. ret bddfalse s)
     | Some f \<Rightarrow> mtbdd_apply_param_rec (op_fuel s) l r f param s))"

text \<open>The guarded versions ask the callback at every node first; at two leaves its result counts in any case.\<close>

primrec mtbdd_apply_guarded_rec :: "nat \<Rightarrow> BDD \<Rightarrow> BDD \<Rightarrow> int \<times> guarded_op2 \<Rightarrow> bdd_state \<Rightarrow> BDD bm" where
  "mtbdd_apply_guarded_rec 0 l r op s = fail Nofuel s"
| "mtbdd_apply_guarded_rec (Suc k) l r op s =
     bnd (snd op l r s) (\<lambda>(res, valid) s.
     if valid then ret res s
     else lookup_in mtbdd_cache_apply (HASH3 l r (fst op)) s (\<lambda>i.
       if cached mtbdd_cache_apply i s (\<lambda>e. c_a e = l \<and> c_b e = r \<and> c_c e = fst op) then hit mtbdd_cache_apply i s
       else keep_result
         (not_reused (if ISMTBDDLEAF s l \<and> ISMTBDDLEAF s r then bnd (snd op l r s) (\<lambda>(res, _) s. ret res s)
                      else descend2 (\<lambda>l r. mtbdd_apply_guarded_rec k l r op) l r s))
         (\<lambda>res. store_apply (store3 l r (fst op) res) i)))"

definition mtbdd_apply_guarded :: "BDD \<Rightarrow> BDD \<Rightarrow> guarded_op2 fptr \<Rightarrow> bdd_state \<Rightarrow> BDD bm" where
  "mtbdd_apply_guarded l r op s = CHECKa l bddfalse s (\<lambda>s. CHECKa r bddfalse s (\<lambda>s. case op of
       None \<Rightarrow> bnd (bdd_error BDD_OP s) (\<lambda>_ s. ret bddfalse s)
     | Some f \<Rightarrow> mtbdd_apply_guarded_rec (op_fuel s) l r f s))"

primrec mtbdd_apply_guarded_param_rec ::
    "nat \<Rightarrow> BDD \<Rightarrow> BDD \<Rightarrow> int \<times> (int \<Rightarrow> guarded_op2) \<Rightarrow> int \<Rightarrow> bdd_state \<Rightarrow> BDD bm" where
  "mtbdd_apply_guarded_param_rec 0 l r op param s = fail Nofuel s"
| "mtbdd_apply_guarded_param_rec (Suc k) l r op param s =
     bnd (snd op param l r s) (\<lambda>(res, valid) s.
     if valid then ret res s
     else lookup_in mtbdd_cache_apply (HASH5 l r (fst op) (CACHE_SIZE_T_LO param) (CACHE_SIZE_T_HI param)) s (\<lambda>i.
       if cached mtbdd_cache_apply i s (\<lambda>e. c_a e = l \<and> c_b e = r \<and> c_c e = fst op \<and>
            c_d e = CACHE_SIZE_T_LO param \<and> c_r2 e = CACHE_SIZE_T_HI param)
       then hit mtbdd_cache_apply i s
       else keep_result
         (not_reused (if ISMTBDDLEAF s l \<and> ISMTBDDLEAF s r then bnd (snd op param l r s) (\<lambda>(res, _) s. ret res s)
                      else descend2 (\<lambda>l r. mtbdd_apply_guarded_param_rec k l r op param) l r s))
         (\<lambda>res. store_apply (BddCache_store4_sizet l r (fst op) param res) i)))"

definition mtbdd_apply_guarded_param ::
    "BDD \<Rightarrow> BDD \<Rightarrow> (int \<Rightarrow> guarded_op2) fptr \<Rightarrow> int \<Rightarrow> bdd_state \<Rightarrow> BDD bm" where
  "mtbdd_apply_guarded_param l r op param s = CHECKa l bddfalse s (\<lambda>s. CHECKa r bddfalse s (\<lambda>s. case op of
       None \<Rightarrow> bnd (bdd_error BDD_OP s) (\<lambda>_ s. ret bddfalse s)
     | Some f \<Rightarrow> mtbdd_apply_guarded_param_rec (op_fuel s) l r f param s))"

section \<open>Unary operations\<close>

primrec mtbdd_apply_unary_rec :: "nat \<Rightarrow> BDD \<Rightarrow> int \<times> leaf_op1 \<Rightarrow> bdd_state \<Rightarrow> BDD bm" where
  "mtbdd_apply_unary_rec 0 l op s = fail Nofuel s"
| "mtbdd_apply_unary_rec (Suc k) l op s =
     lookup_in mtbdd_cache_apply (HASH2 l (fst op)) s (\<lambda>i.
       if cached mtbdd_cache_apply i s (\<lambda>e. c_a e = l \<and> c_b e = -1 \<and> c_c e = fst op) then hit mtbdd_cache_apply i s
       else keep_result
         (if ISMTBDDLEAF s l then leaf1 (snd op) l s
          else not_reused (descend1 (\<lambda>l. mtbdd_apply_unary_rec k l op) l s))
         (\<lambda>res. store_apply (store3 l (-1) (fst op) res) i))"

definition mtbdd_apply_unary :: "BDD \<Rightarrow> leaf_op1 fptr \<Rightarrow> bdd_state \<Rightarrow> BDD bm" where
  "mtbdd_apply_unary l op s = CHECKa l bddfalse s (\<lambda>s. case op of
       None \<Rightarrow> bnd (bdd_error BDD_OP s) (\<lambda>_ s. ret bddfalse s)
     | Some f \<Rightarrow> mtbdd_apply_unary_rec (op_fuel s) l f s)"

primrec mtbdd_apply_unary_param_rec :: "nat \<Rightarrow> BDD \<Rightarrow> int \<times> (int \<Rightarrow> leaf_op1) \<Rightarrow> int \<Rightarrow> bdd_state \<Rightarrow> BDD bm" where
  "mtbdd_apply_unary_param_rec 0 l op param s = fail Nofuel s"
| "mtbdd_apply_unary_param_rec (Suc k) l op param s =
     lookup_in mtbdd_cache_apply (HASH4 l (fst op) (CACHE_SIZE_T_LO param) (CACHE_SIZE_T_HI param)) s (\<lambda>i.
       if cached mtbdd_cache_apply i s (\<lambda>e. c_a e = l \<and> c_b e = CACHE_SIZE_T_LO param \<and> c_c e = fst op \<and>
            c_r2 e = CACHE_SIZE_T_HI param)
       then hit mtbdd_cache_apply i s
       else keep_result
         (if ISMTBDDLEAF s l then leaf1 (snd op param) l s
          else not_reused (descend1 (\<lambda>l. mtbdd_apply_unary_param_rec k l op param) l s))
         (\<lambda>res. store_apply (BddCache_store_sizet_b l param (fst op) res) i))"

definition mtbdd_apply_unary_param :: "BDD \<Rightarrow> (int \<Rightarrow> leaf_op1) fptr \<Rightarrow> int \<Rightarrow> bdd_state \<Rightarrow> BDD bm" where
  "mtbdd_apply_unary_param l op param s = CHECKa l bddfalse s (\<lambda>s. case op of
       None \<Rightarrow> bnd (bdd_error BDD_OP s) (\<lambda>_ s. ret bddfalse s)
     | Some f \<Rightarrow> mtbdd_apply_unary_param_rec (op_fuel s) l f param s)"

primrec mtbdd_apply_unary_guarded_rec :: "nat \<Rightarrow> BDD \<Rightarrow> int \<times> guarded_op1 \<Rightarrow> int \<Rightarrow> bdd_state \<Rightarrow> BDD bm" where
  "mtbdd_apply_unary_guarded_rec 0 l op arg s = fail Nofuel s"
| "mtbdd_apply_unary_guarded_rec (Suc k) l op arg s =
     lookup_in mtbdd_cache_apply (HASH4 l (fst op) (CACHE_SIZE_T_LO arg) (CACHE_SIZE_T_HI arg)) s (\<lambda>i.
       if cached mtbdd_cache_apply i s (\<lambda>e. c_a e = l \<and> c_b e = CACHE_SIZE_T_LO arg \<and> c_c e = fst op \<and>
            c_r2 e = CACHE_SIZE_T_HI arg)
       then hit mtbdd_cache_apply i s
       else bnd (snd op l arg s) (\<lambda>(res, valid) s.
         if valid then ret res (store_apply (BddCache_store_sizet_b l arg (fst op) res) i s)
         else if ISTERMINAL s l \<or> ISCONST l then ret res s
         else bnd (descend1 (\<lambda>l. mtbdd_apply_unary_guarded_rec k l op arg) l s) (\<lambda>res s.
           ret res (store_apply (BddCache_store_sizet_b l arg (fst op) res) i s))))"

definition mtbdd_apply_unary_guarded :: "BDD \<Rightarrow> guarded_op1 fptr \<Rightarrow> int \<Rightarrow> bdd_state \<Rightarrow> BDD bm" where
  "mtbdd_apply_unary_guarded l op arg s = CHECKa l bddfalse s (\<lambda>s. case op of
       None \<Rightarrow> bnd (bdd_error BDD_OP s) (\<lambda>_ s. ret bddfalse s)
     | Some f \<Rightarrow> mtbdd_apply_unary_guarded_rec (op_fuel s) l f arg s)"

section \<open>If-then-else\<close>

text \<open>The nine cases are those of \<open>ite_rec\<close>.\<close>

definition descend3 :: "(BDD \<Rightarrow> BDD \<Rightarrow> BDD \<Rightarrow> bdd_state \<Rightarrow> BDD bm) \<Rightarrow> BDD \<Rightarrow> BDD \<Rightarrow> BDD \<Rightarrow> bdd_state \<Rightarrow> BDD bm" where
  "descend3 rec f g h s = (case ite_split s f g h of
       F_G_H \<Rightarrow> both (\<lambda>s. rec (LOW s f) (LOW s g) (LOW s h) s) (\<lambda>s. rec (HIGH s f) (HIGH s g) (HIGH s h) s)
                  (\<lambda>lo hi s. bdd_makenode (LEVEL s f) lo hi s) s
     | F_G \<Rightarrow> both (\<lambda>s. rec (LOW s f) (LOW s g) h s) (\<lambda>s. rec (HIGH s f) (HIGH s g) h s)
                  (\<lambda>lo hi s. bdd_makenode (LEVEL s f) lo hi s) s
     | H_only \<Rightarrow> both (\<lambda>s. rec f g (LOW s h) s) (\<lambda>s. rec f g (HIGH s h) s)
                  (\<lambda>lo hi s. bdd_makenode (LEVEL s h) lo hi s) s
     | F_H \<Rightarrow> both (\<lambda>s. rec (LOW s f) g (LOW s h) s) (\<lambda>s. rec (HIGH s f) g (HIGH s h) s)
                  (\<lambda>lo hi s. bdd_makenode (LEVEL s f) lo hi s) s
     | F_only \<Rightarrow> both (\<lambda>s. rec (LOW s f) g h s) (\<lambda>s. rec (HIGH s f) g h s)
                  (\<lambda>lo hi s. bdd_makenode (LEVEL s f) lo hi s) s
     | G_H \<Rightarrow> both (\<lambda>s. rec f (LOW s g) (LOW s h) s) (\<lambda>s. rec f (HIGH s g) (HIGH s h) s)
                  (\<lambda>lo hi s. bdd_makenode (LEVEL s g) lo hi s) s
     | G_only \<Rightarrow> both (\<lambda>s. rec f (LOW s g) h s) (\<lambda>s. rec f (HIGH s g) h s)
                  (\<lambda>lo hi s. bdd_makenode (LEVEL s g) lo hi s) s)"

primrec mtbdd_ite_rec :: "nat \<Rightarrow> BDD \<Rightarrow> BDD \<Rightarrow> BDD \<Rightarrow> bdd_state \<Rightarrow> BDD bm" where
  "mtbdd_ite_rec 0 f g h s = fail Nofuel s"
| "mtbdd_ite_rec (Suc k) f g h s =
     (if ISZERO f then ret h s
      else if ISONE f then ret g s
      else if g = h then ret g s
      else if ISTERMINAL s g \<and> ISTERMINAL s h then bdd_makenode (LEVEL s f) g h s
      else lookup_in mtbdd_cache_ite (HASH3 f g h) s (\<lambda>i.
        if cached mtbdd_cache_ite i s (\<lambda>e. c_a e = f \<and> c_b e = g \<and> c_c e = h) then hit mtbdd_cache_ite i s
        else bnd (descend3 (mtbdd_ite_rec k) f g h s) (\<lambda>res s.
          ret res (store mtbdd_cache_ite_update (store3 f g h res) i s))))"

definition mtbdd_ite :: "BDD \<Rightarrow> BDD \<Rightarrow> BDD \<Rightarrow> bdd_state \<Rightarrow> BDD bm" where
  "mtbdd_ite f g h s = CHECKa f bddfalse s (\<lambda>s. CHECKa g bddfalse s (\<lambda>s. CHECKa h bddfalse s (\<lambda>s.
     mtbdd_ite_rec (op_fuel s) f g h s)))"

section \<open>Operations on a level\<close>

text \<open>
  \<open>controls\<close> are the entries of the array from the current one on, levels; the last of \<open>controlNum + 1\<close> is the
  target. A diagram that does not test the level gets a node with two equal children there.
\<close>

definition at_level :: "BDD \<Rightarrow> int \<Rightarrow> bdd_state \<Rightarrow> BDD bm" where
  "at_level operand control s =
     (if LEVEL s operand > control \<or> ISTERMINAL s operand \<or> ISCONST operand
      then bnd (PUSHREF operand (s\<lparr>checkSameChildren := False\<rparr>)) (\<lambda>_ s.
           bnd (bdd_makenode control (READREF 1 s) (READREF 1 s) s) (\<lambda>targetDD s.
           bnd (POPREF 1 (s\<lparr>checkSameChildren := True\<rparr>)) (\<lambda>_ s. ret targetDD s)))
      else ret operand s)"

text \<open>The four cases after that: the target, a control, a level above it, and anything else.\<close>

definition operate ::
    "(BDD \<Rightarrow> int list \<Rightarrow> int \<Rightarrow> bdd_state \<Rightarrow> BDD bm) \<Rightarrow> target_op \<Rightarrow> BDD \<Rightarrow> int list \<Rightarrow> int \<Rightarrow> bdd_state \<Rightarrow> BDD bm" where
  "operate rec op targetDD controls controlNum s = (let control = hd controls in
     if LEVEL s targetDD = control \<and> controlNum = 0
     then both (\<lambda>s. ret (LOW s targetDD) s) (\<lambda>s. ret (HIGH s targetDD) s) (op control) s
     else if LEVEL s targetDD = control
     then both (\<lambda>s. ret (LOW s targetDD) s) (\<lambda>s. rec (HIGH s targetDD) (tl controls) (controlNum - 1) s)
            (bdd_makenode control) s
     else if LEVEL s targetDD < control
     then let oldLow = LOW s targetDD; oldHigh = HIGH s targetDD in
       both (\<lambda>s. rec (LOW s targetDD) controls controlNum s) (\<lambda>s. rec (HIGH s targetDD) controls controlNum s)
         (\<lambda>lo hi s. if lo = oldLow \<and> hi = oldHigh then ret targetDD s
                     else bdd_makenode (LEVEL s targetDD) lo hi s) s
     else ret targetDD s)"

definition target_fuel :: "int \<Rightarrow> bdd_state \<Rightarrow> nat" where
  "target_fuel controlNum s = op_fuel s + nat controlNum + 1"

primrec mtbdd_operation_rec ::
    "nat \<Rightarrow> BDD \<Rightarrow> int list \<Rightarrow> int \<Rightarrow> (int \<times> target_op) option \<Rightarrow> bdd_state \<Rightarrow> BDD bm" where
  "mtbdd_operation_rec 0 operand controls controlNum op s = fail Nofuel s"
| "mtbdd_operation_rec (Suc k) operand controls controlNum op s =
     CHECKa operand bddfalse s (\<lambda>s.
     if operand = bddfalse then ret bddfalse s
     else case op of
         None \<Rightarrow> bnd (bdd_error BDD_OP s) (\<lambda>_ s. ret bddfalse s)
       | Some f \<Rightarrow>
         if int (length controls) \<le> controlNum then fail Trap s
         else let controls_key = mtbdd_controls_cachekey controls controlNum in
           lookup_in mtbdd_cache_operation (HASH3 operand controls_key (fst f)) s (\<lambda>i.
             if cached mtbdd_cache_operation i s (\<lambda>e. c_a e = operand \<and> c_b e = controls_key \<and> c_c e = fst f)
             then hit mtbdd_cache_operation i s
             else bnd (at_level operand (hd controls) s) (\<lambda>targetDD s.
                  bnd (operate (\<lambda>n cs m. mtbdd_operation_rec k n cs m op) (snd f) targetDD controls controlNum s)
                    (\<lambda>res s. ret res (store_operation (store3 operand controls_key (fst f) res) i s)))))"

definition mtbdd_operation :: "BDD \<Rightarrow> int list \<Rightarrow> int \<Rightarrow> target_op fptr \<Rightarrow> bdd_state \<Rightarrow> BDD bm" where
  "mtbdd_operation operand controls controlNum op s = CHECKa operand bddfalse s (\<lambda>s.
     mtbdd_operation_rec (target_fuel controlNum s) operand controls controlNum op s)"

primrec mtbdd_operation_param_rec ::
    "nat \<Rightarrow> BDD \<Rightarrow> int list \<Rightarrow> int \<Rightarrow> (int \<times> (int \<Rightarrow> target_op)) option \<Rightarrow> int \<Rightarrow> bdd_state \<Rightarrow> BDD bm" where
  "mtbdd_operation_param_rec 0 operand controls controlNum op param s = fail Nofuel s"
| "mtbdd_operation_param_rec (Suc k) operand controls controlNum op param s =
     CHECKa operand bddfalse s (\<lambda>s.
     if operand = bddfalse then ret bddfalse s
     else case op of
         None \<Rightarrow> bnd (bdd_error BDD_OP s) (\<lambda>_ s. ret bddfalse s)
       | Some f \<Rightarrow>
         if int (length controls) \<le> controlNum then fail Trap s
         else let controls_key = mtbdd_controls_cachekey controls controlNum in
           lookup_in mtbdd_cache_operation
             (HASH5 operand controls_key (fst f) (CACHE_SIZE_T_LO param) (CACHE_SIZE_T_HI param)) s (\<lambda>i.
             if cached mtbdd_cache_operation i s (\<lambda>e. c_a e = operand \<and> c_b e = controls_key \<and> c_c e = fst f \<and>
                  c_d e = CACHE_SIZE_T_LO param \<and> c_r2 e = CACHE_SIZE_T_HI param)
             then hit mtbdd_cache_operation i s
             else bnd (at_level operand (hd controls) s) (\<lambda>targetDD s.
                  bnd (operate (\<lambda>n cs m. mtbdd_operation_param_rec k n cs m op param) (snd f param)
                         targetDD controls controlNum s)
                    (\<lambda>res s. ret res (store_operation
                       (BddCache_store4_sizet operand controls_key (fst f) param res) i s)))))"

definition mtbdd_operation_param ::
    "BDD \<Rightarrow> int list \<Rightarrow> int \<Rightarrow> (int \<Rightarrow> target_op) fptr \<Rightarrow> int \<Rightarrow> bdd_state \<Rightarrow> BDD bm" where
  "mtbdd_operation_param operand controls controlNum op param s = CHECKa operand bddfalse s (\<lambda>s.
     mtbdd_operation_param_rec (target_fuel controlNum s) operand controls controlNum op param s)"

text \<open>The guarded version protects the results of its recursive calls by reference counts.\<close>

definition operate_guarded ::
    "(BDD \<Rightarrow> int list \<Rightarrow> int \<Rightarrow> bdd_state \<Rightarrow> BDD bm) \<Rightarrow> guarded_target_op \<Rightarrow> BDD \<Rightarrow> int list \<Rightarrow> int \<Rightarrow> bdd_state \<Rightarrow>
     BDD bm" where
  "operate_guarded rec op targetDD controls controlNum s = (let control = hd controls in
     if LEVEL s targetDD = control \<and> controlNum = 0
     then bnd (PUSHREF targetDD s) (\<lambda>_ s.
          bnd (op control (READREF 1 s) s) (\<lambda>(res, _) s.
          bnd (POPREF 1 s) (\<lambda>_ s.
          ret (if \<not> ISCONST res \<and> \<not> ISTERMINAL s res \<and> HIGH s res = LOW s res then LOW s res else res) s)))
     else if LEVEL s targetDD = control
     then bnd (PUSHREF (LOW s targetDD) s) (\<lambda>_ s.
          bnd (rec (HIGH s targetDD) (tl controls) (controlNum - 1) s) (\<lambda>h s.
          bnd (bdd_addref h s) (\<lambda>high s.
          bnd (PUSHREF high s) (\<lambda>_ s.
          bnd (bdd_makenode control (READREF 2 s) (READREF 1 s) s) (\<lambda>res s.
          bnd (POPREF 2 s) (\<lambda>_ s.
          bnd (bdd_delref high s) (\<lambda>_ s. ret res s)))))))
     else if LEVEL s targetDD < control
     then let oldLow = LOW s targetDD; oldHigh = HIGH s targetDD in
          bnd (rec (LOW s targetDD) controls controlNum s) (\<lambda>l s.
          bnd (bdd_addref l s) (\<lambda>low s.
          bnd (rec (HIGH s targetDD) controls controlNum s) (\<lambda>h s.
          bnd (bdd_addref h s) (\<lambda>high s.
          bnd (if low = oldLow \<and> high = oldHigh then ret targetDD s
               else bdd_makenode (LEVEL s targetDD) low high s) (\<lambda>res s.
          bnd (bdd_delref low s) (\<lambda>_ s.
          bnd (bdd_delref high s) (\<lambda>_ s. ret res s)))))))
     else ret targetDD s)"

primrec operation_guarded_rec ::
    "nat \<Rightarrow> BDD \<Rightarrow> int list \<Rightarrow> int \<Rightarrow> (int \<times> guarded_target_op) option \<Rightarrow> bdd_state \<Rightarrow> BDD bm" where
  "operation_guarded_rec 0 operand controls controlNum op s = fail Nofuel s"
| "operation_guarded_rec (Suc k) operand controls controlNum op s =
     CHECKa operand bddfalse s (\<lambda>s.
     if operand = bddfalse then ret bddfalse s
     else case op of
         None \<Rightarrow> bnd (bdd_error BDD_OP s) (\<lambda>_ s. ret bddfalse s)
       | Some f \<Rightarrow>
         if int (length controls) \<le> controlNum then fail Trap s
         else let controls_key = mtbdd_controls_cachekey controls controlNum in
           bnd (snd f (hd controls) operand s) (\<lambda>(res, valid) s.
           if valid then ret res s
           else lookup_in mtbdd_cache_operation (HASH3 operand controls_key (fst f)) s (\<lambda>i.
             if cached mtbdd_cache_operation i s (\<lambda>e. c_a e = operand \<and> c_b e = controls_key \<and> c_c e = fst f)
             then hit mtbdd_cache_operation i s
             else bnd (at_level operand (hd controls) s) (\<lambda>targetDD s.
                  bnd (operate_guarded (\<lambda>n cs m. operation_guarded_rec k n cs m op) (snd f)
                         targetDD controls controlNum s)
                    (\<lambda>res s. ret res (store_operation (store3 operand controls_key (fst f) res) i s))))))"

definition mtbdd_operation_guarded ::
    "BDD \<Rightarrow> int list \<Rightarrow> int \<Rightarrow> guarded_target_op fptr \<Rightarrow> bdd_state \<Rightarrow> BDD bm" where
  "mtbdd_operation_guarded operand controls controlNum op s =
     operation_guarded_rec (target_fuel controlNum s) operand controls controlNum op s"

end
