(* ===== verification/MtFrame.thy ===== *)
theory MtFrame
  imports OpFrame MtbddApply OpRules
begin

text \<open>
  Multi-terminal diagrams whose values are inline words (the domains \<open>INTVAL\<close>, \<open>FLOATVAL\<close>, \<open>UNSIGNEDVAL\<close>): the function from
  assignments to leaves that a node stands for, the creation of terminals, and the frame in which the operations
  are verified.
\<close>

section \<open>The function of a node\<close>

datatype leaf = Zero | One | Term int

definition leaf_of :: "bdd_state \<Rightarrow> int \<Rightarrow> leaf" where
  "leaf_of s n = (if n = 0 then Zero else if n = 1 then One else Term (HIGH s n))"

text \<open>\<open>mval s n e v\<close>: following the edges chosen by \<open>e\<close> from \<open>n\<close> ends in the leaf \<open>v\<close>.\<close>

inductive mval :: "bdd_state \<Rightarrow> int \<Rightarrow> (int \<Rightarrow> bool) \<Rightarrow> leaf \<Rightarrow> bool" for s :: bdd_state where
  mv_leaf: "\<not> inner s n \<Longrightarrow> mval s n e (leaf_of s n)"
| mv_low: "inner s n \<Longrightarrow> \<not> e (LEVEL s n) \<Longrightarrow> mval s (LOW s n) e v \<Longrightarrow> mval s n e v"
| mv_high: "inner s n \<Longrightarrow> e (LEVEL s n) \<Longrightarrow> mval s (HIGH s n) e v \<Longrightarrow> mval s n e v"

inductive_cases mvalE: "mval s n e v"

lemma mval_leaf: "\<not> inner s n \<Longrightarrow> mval s n e v = (v = leaf_of s n)"
  by (auto elim: mvalE intro: mv_leaf)

lemma mval_inner: "inner s n \<Longrightarrow> mval s n e v = (if e (LEVEL s n) then mval s (HIGH s n) e v else mval s (LOW s n) e v)"
  by (auto elim: mvalE [of s n e v] intro: mv_low mv_high)

lemma mval_const [simp]: "mval s 0 e v = (v = Zero)" "mval s 1 e v = (v = One)"
  by (simp_all add: mval_leaf leaf_of_def)

lemma mval_unique: "mval s n e v \<Longrightarrow> mval s n e w \<Longrightarrow> v = w"
proof (induction rule: mval.induct)
  case (mv_low n e v)
  then show ?case using mval_inner [of s n e w] by simp
next
  case (mv_high n e v)
  then show ?case using mval_inner [of s n e w] by simp
qed (simp add: mval_leaf)

lemma mval_transfer:
  assumes "\<And>m. reach s n m \<Longrightarrow> (inner t m \<longleftrightarrow> inner s m) \<and> (2 \<le> m \<longrightarrow> same_node s t m) \<and> 0 \<le> m"
  shows "mval s n e v \<Longrightarrow> mval t n e v"
proof -
  have "mval s m e v \<Longrightarrow> reach s n m \<Longrightarrow> mval t m e v" for m
  proof (induction rule: mval.induct)
    case (mv_leaf m e)
    then have "\<not> inner t m" "2 \<le> m \<longrightarrow> same_node s t m" "0 \<le> m" using assms by blast+
    moreover have "leaf_of t m = leaf_of s m"
      using calculation by (cases "2 \<le> m") (auto simp: leaf_of_def same_node_def)
    ultimately show ?case using mval.mv_leaf [of t m e] by simp
  next
    case (mv_low m e v)
    then have "inner t m" "same_node s t m" "mval t (LOW s m) e v"
      using assms [of m] reach_low [of s n m] mv_low.IH by (simp_all add: inner_def allocd_def)
    then show ?case using mval.mv_low [of t m e v] mv_low by (simp add: same_node_def)
  next
    case (mv_high m e v)
    then have "inner t m" "same_node s t m" "mval t (HIGH s m) e v"
      using assms [of m] reach_high [of s n m] mv_high.IH by (simp_all add: inner_def allocd_def)
    then show ?case using mval.mv_high [of t m e v] mv_high by (simp add: same_node_def)
  qed
  then show "mval s n e v \<Longrightarrow> mval t n e v" by (auto intro: reach_self)
qed

lemma mval_eq:
  assumes wf: "wf_nodes s" and A: "agree s t n"
  shows "mval t n e v = mval s n e v"
proof -
  have F: "(inner t m \<longleftrightarrow> inner s m) \<and> (2 \<le> m \<longrightarrow> same_node s t m) \<and> 0 \<le> m" if r: "reach s n m" for m
  proof -
    have n: "node_id s m" by (rule reach_node_id [OF r wf]) (use A in \<open>simp add: agree_def\<close>)
    then have "2 \<le> m \<Longrightarrow> allocd s m" by (auto simp: node_id_def)
    then have "2 \<le> m \<longrightarrow> same_node s t m" using A r by (auto simp: agree_def)
    moreover have "0 \<le> m" using n by (auto simp: node_id_def allocd_def)
    ultimately show ?thesis using agree_inner(1) [OF wf A r] by blast
  qed
  have B: "(inner s m \<longleftrightarrow> inner t m) \<and> (2 \<le> m \<longrightarrow> same_node t s m) \<and> 0 \<le> m" if "reach t n m" for m
    using F [OF agree_reach [OF wf A that]] by (auto simp: same_node_def)
  show ?thesis using mval_transfer [OF F] mval_transfer [OF B] by blast
qed

lemma mval_arg_ext: "ext s t \<Longrightarrow> tab_inv s \<Longrightarrow> arg s n \<Longrightarrow> mval t n e v = mval s n e v"
  by (rule mval_eq [OF tab_invD(3) arg_agree])

lemma mval_grow: "grow s t \<Longrightarrow> tab_inv s \<Longrightarrow> node_id s n \<Longrightarrow> mval t n e v = mval s n e v"
  by (rule mval_eq [OF tab_invD(3) grow_agree])

section \<open>Creating terminals\<close>

lemma built_leaf_inv:
  assumes I: "tab_inv s" and f: "bddfreepos s \<noteq> 0" and d: "\<not> DOMAIN_NOT_SHORT s"
    and lo: "lo \<noteq> -1" and h: "h = NODEHASH s MAXLEVEL lo hi"
  shows "tab_inv (built_node h MAXLEVEL lo hi s)" (is "tab_inv ?t")
proof -
  let ?r = "bddfreepos s"
  note D = tab_invD [OF I]
  note al = built_node_alloc [OF D(5) f lo, of h MAXLEVEL hi] and r = free_head [OF D(5) f]
  have nin: "\<not> inner s ?r" "\<not> allocd s ?r" using r by (simp_all add: inner_def allocd_def)
  have inn: "inner ?t n \<longleftrightarrow> inner s n" for n
    using nin by (auto simp: inner_def al built_node_sel)
  have ne: "n \<noteq> ?r" if "inner s n" for n using that nin by blast
  have nid: "node_id s n \<Longrightarrow> node_id ?t n \<and> n \<noteq> ?r" for n
    using nin(2) r by (auto simp: node_id_def al)
  have "wf_nodes ?t" unfolding wf_nodes_def
  proof (intro allI impI)
    fix n assume "inner ?t n"
    then have n: "inner s n" "n \<noteq> ?r" using inn ne by blast+
    note ch = wf_nodes_child [OF D(3) n(1)]
    show "0 \<le> LEVEL ?t n \<and> LEVEL ?t n < MAXLEVEL \<and> node_id ?t (LOW ?t n) \<and> node_id ?t (HIGH ?t n) \<and>
        below ?t (LEVEL ?t n) (LOW ?t n) \<and> below ?t (LEVEL ?t n) (HIGH ?t n)"
      using ch nid [OF ch(1)] nid [OF ch(2)] n(2) by (auto simp: built_node_sel below_def)
  qed
  moreover have "unique_nodes ?t" unfolding unique_nodes_def
  proof (intro allI impI)
    fix m n
    assume mn: "inner ?t m \<and> inner ?t n \<and> LEVEL ?t m = LEVEL ?t n \<and> LOW ?t m = LOW ?t n \<and> HIGH ?t m = HIGH ?t n"
    then have "inner s m" "inner s n" "m \<noteq> ?r" "n \<noteq> ?r" using inn ne by blast+
    with mn show "m = n" using unique_nodesD [OF D(4), of m n] by (simp add: built_node_sel)
  qed
  moreover have "slots_distinct ?t"
    using d by (auto simp: slots_distinct_def built_node_sel DOMAIN_NOT_SHORT_def)
  moreover have "built 2 ?t" using d by (intro built_node_built [OF D(5) f lo _ h]) simp
  moreover have "size_ok ?t" "consts_ok ?t"
    using D(1,2) r by (auto simp: size_ok_def consts_ok_def built_node_sel)
  moreover have "marks_clear ?t" using D(6) by (simp add: marks_clear_def built_node_sel)
  moreover have "refs_ok ?t" using D(7) lo by (auto simp: refs_ok_def built_node_sel MAXREF_def)
  moreover have "stack_ok ?t" using D(8) nid by (auto simp: stack_ok_def built_node_sel)
  ultimately show ?thesis by (simp add: tab_inv_def)
qed

text \<open>What a caller of \<open>bdd_makenode\<close> for a terminal may rely on.\<close>

definition only_leaf :: "bdd_state \<Rightarrow> bdd_state \<Rightarrow> bool" where
  "only_leaf s t = (\<forall>n. inner t n \<longrightarrow> inner s n \<and> same_node s t n)"

definition made_leaf :: "bdd_state \<Rightarrow> int \<Rightarrow> int \<Rightarrow> bdd_state \<Rightarrow> bool" where
  "made_leaf s v r t =
     (kinv t \<and> ext s t \<and> bddrefstack t = bddrefstack s \<and> caches_rel s t \<and> only_leaf s t \<and>
      (allocd t r \<and> LEVEL t r = MAXLEVEL \<and> HIGH t r = v \<or> r = 0 \<and> bdderrorcond t \<noteq> 0))"

lemma find_leaf_spec:
  assumes I: "tab_inv s"
  shows "\<exists>r. find_node (mark_fuel s) (n_hash (bddnodes s (NODEHASH s lev lo hi))) lev lo hi s = ret r s \<and>
     (r = 0 \<or> allocd s r \<and> matches s lev lo hi r)"
proof -
  let ?h = "NODEHASH s lev lo hi"
  note D = tab_invD [OF I]
  have "bucket_ok 2 s ?h" using D(5) NODEHASH_range [OF D(1)] by (simp add: built_def)
  then obtain xs where xs: "chain (nx s) (bucket s ?h) xs" "distinct xs"
    "set xs = {n. 2 \<le> n \<and> n < bddnodesize s \<and> LOW s n \<noteq> -1 \<and> gbc_hash s n = ?h}"
    unfolding bucket_ok_def by auto
  have "set xs \<subseteq> {2..<bddnodesize s}" unfolding xs(3) by auto
  with xs(2) have "length xs < mark_fuel s" by (rule table_list_length)
  from find_node_chain [OF xs(1) this, of lev lo hi] show ?thesis
    unfolding bucket_def xs(3) allocd_def by auto
qed

lemma build_leaf_spec:
  assumes K: "kinv s" and f: "bddfreepos s \<noteq> 0" and d: "\<not> DOMAIN_NOT_SHORT s"
    and lo: "lo \<noteq> -1" and h: "h = NODEHASH s MAXLEVEL lo hi"
  shows "runs (build_node h MAXLEVEL lo hi s) (\<lambda>r t. made_leaf s hi r t \<and> caches t = caches s)"
proof -
  let ?r = "bddfreepos s" and ?t = "built_node h MAXLEVEL lo hi s"
  note I = kinvD [OF K]
  note B = tab_invD(5) [OF I(1)]
  note r = free_head [OF B f] and al = built_node_alloc [OF B f lo, of h MAXLEVEL hi]
  have T: "tab_inv ?t" by (rule built_leaf_inv [OF I(1) f d lo h])
  have st: "stat ?t = stat s" by (simp add: built_node_sel)
  have sn: "same_node s ?t n" if "allocd s n \<or> n = 0 \<or> n = 1" for n
    using that r by (intro built_node_same) (auto simp: allocd_def)
  have "prime_size ?t" using I(2) statD [OF st] by (simp add: prime_size_def built_node_sel)
  then have "kinv ?t" using T I(3) env_ok_stat [OF st] by (simp add: kinv_def)
  moreover have "ext s ?t" using sn by (auto simp: ext_def st built_node_sel)
  moreover have "allocd ?t ?r" "LEVEL ?t ?r = MAXLEVEL" "HIGH ?t ?r = hi" by (simp_all add: al built_node_sel)
  moreover have "only_leaf s ?t" unfolding only_leaf_def
    using sn r by (auto simp: inner_def al built_node_sel)
  ultimately show ?thesis
    using sn by (auto simp: build_node_ret made_leaf_def caches_rel_def al built_node_sel)
qed

lemma make_leaf_spec:
  assumes K: "kinv s" and d: "\<not> DOMAIN_NOT_SHORT s"
  shows "runs (bdd_makenode MAXLEVEL 42 v s) (made_leaf s v)"
proof -
  let ?h = "NODEHASH s MAXLEVEL 42 v"
  obtain r where f: "find_node (mark_fuel s) (n_hash (bddnodes s ?h)) MAXLEVEL 42 v s = ret r s"
    and r: "r = 0 \<or> allocd s r \<and> matches s MAXLEVEL 42 v r"
    using find_leaf_spec [OF kinvD(1) [OF K], of MAXLEVEL 42 v] by blast
  have eq: "bdd_makenode MAXLEVEL 42 v s = (if r \<noteq> 0 then ret r s
      else if bddfreepos s = 0 then make_room ?h MAXLEVEL 42 v s else build_node ?h MAXLEVEL 42 v s)"
    using d f by (simp add: bdd_makenode_def Let_def)
  have self: "only_leaf s s" by (simp add: only_leaf_def same_node_def)
  consider "r \<noteq> 0" | "r = 0" "bddfreepos s = 0" | "r = 0" "bddfreepos s \<noteq> 0" by blast
  then show ?thesis
  proof cases
    case 1
    then show ?thesis using K r self by (auto simp: eq made_leaf_def caches_rel_def matches_def same_node_def)
  next
    case 2
    have "runs (make_room ?h MAXLEVEL 42 v s) (made_leaf s v)"
    proof (rule make_room_rule [OF K refl])
      assume "bdderrorcond s \<noteq> 0"
      then show "made_leaf s v 0 s" using K self by (simp add: made_leaf_def caches_rel_def same_node_def)
    next
      fix u assume "cleared s u" "bdderrorcond u \<noteq> 0"
      then show "made_leaf s v 0 u"
        by (auto simp: made_leaf_def caches_rel_def cleared_def only_leaf_def inner_def same_node_def)
    next
      fix u assume u: "cleared s u" and fu: "bddfreepos u \<noteq> 0"
      note U = clearedD [OF u]
      have "\<not> DOMAIN_NOT_SHORT u" using d U(2) statD(25) [of u s] by (simp add: ext_def DOMAIN_NOT_SHORT_def)
      note B = build_leaf_spec [OF U(1) fu this _ refl, of 42 v]
      show "runs (build_node (NODEHASH u MAXLEVEL 42 v) MAXLEVEL 42 v u) (made_leaf s v)"
      proof (rule runs_conseq [OF B])
        fix r w assume m: "made_leaf u v r w \<and> caches w = caches u"
        have "inner s n \<and> same_node s w n" if "inner w n" for n
        proof -
          have "inner u n" "same_node u w n" using that m by (auto simp: made_leaf_def only_leaf_def)
          then show ?thesis using U(5,6) [of n] same_node_trans [of s u n w] by (auto simp: inner_def same_node_def)
        qed
        then show "made_leaf s v r w"
          using m U(3,4) ext_trans [OF kinvD(1) [OF K] U(2), of w]
          by (simp add: made_leaf_def caches_rel_def only_leaf_def)
      qed simp
    qed
    then show ?thesis using 2 by (simp add: eq)
  next
    case 3
    then show ?thesis using build_leaf_spec [OF K _ d _ refl, of 42 v] by (auto simp: eq elim: runs_conseq)
  qed
qed

section \<open>The frame of the operations\<close>

text \<open>
  The invariant of a table of multi-terminal diagrams with inline values, the meaning of the entries of their cache,
  and the rules for nodes, terminals and the recursion schemes.
\<close>

section \<open>Results of callbacks\<close>

text \<open>The value a callback is given for a leaf, and the leaf its answer becomes.\<close>

definition pointed :: "leaf \<Rightarrow> int option" where
  "pointed v = (case v of Zero \<Rightarrow> None | One \<Rightarrow> None | Term x \<Rightarrow> Some x)"

definition outcome :: "int option \<Rightarrow> leaf" where
  "outcome v = (case v of None \<Rightarrow> Zero | Some x \<Rightarrow> Term (s32 x))"

definition lift2 :: "(int option \<Rightarrow> int option \<Rightarrow> int option) \<Rightarrow> ((int \<Rightarrow> bool) \<Rightarrow> leaf \<Rightarrow> bool) \<Rightarrow>
    ((int \<Rightarrow> bool) \<Rightarrow> leaf \<Rightarrow> bool) \<Rightarrow> (int \<Rightarrow> bool) \<Rightarrow> leaf \<Rightarrow> bool" where
  "lift2 f A B e v = (\<exists>a b. A e a \<and> B e b \<and> v = outcome (f (pointed a) (pointed b)))"

definition lift1 :: "(int option \<Rightarrow> int option) \<Rightarrow> ((int \<Rightarrow> bool) \<Rightarrow> leaf \<Rightarrow> bool) \<Rightarrow> (int \<Rightarrow> bool) \<Rightarrow> leaf \<Rightarrow> bool" where
  "lift1 f A e v = (\<exists>a. A e a \<and> v = outcome (f (pointed a)))"

text \<open>
  What the functions do whose addresses are used as names in the cache: a function of one or two values, perhaps
  with a parameter.
\<close>

datatype meaning =
    OnTwo "int option \<Rightarrow> int option \<Rightarrow> int option"
  | OnTwoP "int \<Rightarrow> int option \<Rightarrow> int option \<Rightarrow> int option"
  | OnOne "int option \<Rightarrow> int option"
  | OnOneP "int \<Rightarrow> int option \<Rightarrow> int option"

section \<open>The invariant\<close>

definition mt_table :: "bdd_state \<Rightarrow> bool" where
  "mt_table s =
     (0 \<le> bddvarnum s \<and> bddvarnum s \<le> MAXVAR \<and> LEVEL s 0 = bddvarnum s \<and> LEVEL s 1 = bddvarnum s \<and>
      (\<forall>n. inner s n \<longrightarrow> LEVEL s n < bddvarnum s))"

definition mt_base :: "bdd_state \<Rightarrow> bool" where
  "mt_base s = (kinv s \<and> mt_table s \<and> bddrunning s \<and> \<not> DOMAIN_NOT_SHORT s)"

text \<open>\<open>r\<close> is a node not above level \<open>L\<close> and, unless an error is pending, stands for \<open>F\<close>.\<close>

definition mres :: "bdd_state \<Rightarrow> int \<Rightarrow> ((int \<Rightarrow> bool) \<Rightarrow> leaf \<Rightarrow> bool) \<Rightarrow> int \<Rightarrow> bool" where
  "mres s L F r =
     (node_id s r \<and> L \<le> LEVEL s r \<and> (bdderrorcond s = 0 \<longrightarrow> (\<forall>e v. mval s r e v = F e v)))"

definition mtop2 :: "bdd_state \<Rightarrow> int \<Rightarrow> int \<Rightarrow> int" where
  "mtop2 s l r = min (bddvarnum s) (min (LEVEL s l) (LEVEL s r))"

definition mtop1 :: "bdd_state \<Rightarrow> int \<Rightarrow> int" where
  "mtop1 s l = min (bddvarnum s) (LEVEL s l)"

definition bin_ok :: "bdd_state \<Rightarrow> (int option \<Rightarrow> int option \<Rightarrow> int option) \<Rightarrow> int \<Rightarrow> int \<Rightarrow> int \<Rightarrow> bool" where
  "bin_ok s f l r res = (node_id s l \<and> node_id s r \<and> mres s (mtop2 s l r) (lift2 f (mval s l) (mval s r)) res)"

definition un_ok :: "bdd_state \<Rightarrow> (int option \<Rightarrow> int option) \<Rightarrow> int \<Rightarrow> int \<Rightarrow> bool" where
  "un_ok s f l res = (node_id s l \<and> mres s (mtop1 s l) (lift1 f (mval s l)) res)"

text \<open>The two words under which a parameter of 64 bits is kept.\<close>

definition halves :: "int \<Rightarrow> int \<Rightarrow> int \<Rightarrow> bool" where
  "halves p lo hi = (0 \<le> p \<and> p < 2 ^ 64 \<and> lo = CACHE_SIZE_T_LO p \<and> hi = CACHE_SIZE_T_HI p)"

definition mt_entry :: "(int \<Rightarrow> meaning option) \<Rightarrow> bdd_state \<Rightarrow> BddCacheData \<Rightarrow> bool" where
  "mt_entry den s e = (case den (c_c e) of
      None \<Rightarrow> True
    | Some (OnTwo f) \<Rightarrow> bin_ok s f (c_a e) (c_b e) (c_res e)
    | Some (OnTwoP f) \<Rightarrow> (\<exists>p. halves p (c_d e) (c_r2 e) \<and> bin_ok s (f p) (c_a e) (c_b e) (c_res e))
    | Some (OnOne f) \<Rightarrow> un_ok s f (c_a e) (c_res e)
    | Some (OnOneP f) \<Rightarrow> (\<exists>p. halves p (c_b e) (c_r2 e) \<and> un_ok s (f p) (c_a e) (c_res e)))"

definition mt_caches :: "(int \<Rightarrow> meaning option) \<Rightarrow> bdd_state \<Rightarrow> bool" where
  "mt_caches den s =
     (cache_ok (mt_entry den s) (mtbdd_cache_apply (caches s)) \<and> 0 < tablesize (mtbdd_cache_apply (caches s)))"

definition mt_good :: "(int \<Rightarrow> meaning option) \<Rightarrow> bdd_state \<Rightarrow> bool" where
  "mt_good den s = (mt_base s \<and> mt_caches den s)"

lemma mt_goodD:
  assumes "mt_good den s"
  shows "mt_base s" "mt_caches den s" "kinv s" "tab_inv s" "mt_table s" "bddrunning s" "\<not> DOMAIN_NOT_SHORT s"
  using assms kinvD(1) by (auto simp: mt_good_def mt_base_def)

section \<open>Parameters\<close>

lemma s32_u32_inj:
  assumes "0 \<le> a" "a < 2 ^ 32" "0 \<le> b" "b < 2 ^ 32" "s32 a = s32 b"
  shows "a = b"
proof -
  have "(a + 2 ^ 31) mod 2 ^ 32 = (b + 2 ^ 31) mod 2 ^ 32" using assms(5) by (simp add: s32_def)
  then have "((a + 2 ^ 31) - 2 ^ 31) mod 2 ^ 32 = ((b + 2 ^ 31) - 2 ^ 31) mod 2 ^ 32" by (rule mod_diff_cong) simp
  then show ?thesis using assms(1-4) by simp
qed

lemma halves_inj:
  assumes "halves p lo hi" "halves q lo hi"
  shows "p = q"
proof -
  have p: "0 \<le> p" "p < 2 ^ 64" "0 \<le> q" "q < 2 ^ 64" using assms by (simp_all add: halves_def)
  have lo: "p mod 2 ^ 32 = q mod 2 ^ 32"
    using assms by - (rule s32_u32_inj; simp add: halves_def CACHE_SIZE_T_LO_def u32_def)
  have D: "0 \<le> x div 2 ^ 32" "x div 2 ^ 32 < 2 ^ 32" if "0 \<le> x" "x < 2 ^ 64" for x :: int
    using that zdiv_mono1 [of x "2 ^ 64 - 1" "2 ^ 32"] by (simp_all add: pos_imp_zdiv_nonneg_iff)
  have H: "CACHE_SIZE_T_HI x = s32 (x div 2 ^ 32)" if "0 \<le> x" "x < 2 ^ 64" for x
    using that D [OF that] by (simp add: CACHE_SIZE_T_HI_def drop_bit_eq_div u64_def u32_def)
  have "s32 (p div 2 ^ 32) = s32 (q div 2 ^ 32)" using assms H [OF p(1,2)] H [OF p(3,4)] by (simp add: halves_def)
  then have hi: "p div 2 ^ 32 = q div 2 ^ 32" by (rule s32_u32_inj [OF D [OF p(1,2)] D [OF p(3,4)]])
  have "p = 2 ^ 32 * (p div 2 ^ 32) + p mod 2 ^ 32" by simp
  also have "\<dots> = q" unfolding lo hi by simp
  finally show ?thesis .
qed


section \<open>Growth\<close>

lemma mt_grown:
  assumes G: "grown_ok s t" and n: "node_id s n"
  shows "node_id t n" "LEVEL t n = LEVEL s n" "mval t n = mval s n" "mtop1 t n = mtop1 s n"
proof -
  have g: "grow s t" "tab_inv s" "stat t = stat s" using G by (simp_all add: grown_ok_def)
  note F = grow_facts [OF g(1,2) n]
  show "node_id t n" "LEVEL t n = LEVEL s n" by (rule F)+
  show "mval t n = mval s n" by (intro ext) (rule mval_grow [OF g(1,2) n])
  show "mtop1 t n = mtop1 s n" using F(2) statD(4) [OF g(3)] by (simp add: mtop1_def)
qed

lemma mtop2_top1: "mtop2 s l r = min (mtop1 s l) (mtop1 s r)"
  by (simp add: mtop2_def mtop1_def)

lemma mres_grown: "grown_ok s t \<Longrightarrow> mres s L F r \<Longrightarrow> mres t L F r"
  using mt_grown [of s t r] by (auto simp: mres_def grown_ok_def)

lemma bin_ok_grown: "grown_ok s t \<Longrightarrow> bin_ok s f l r res \<Longrightarrow> bin_ok t f l r res"
  using mt_grown [of s t l] mt_grown [of s t r] mres_grown [of s t] by (simp add: bin_ok_def mtop2_top1)

lemma un_ok_grown: "grown_ok s t \<Longrightarrow> un_ok s f l res \<Longrightarrow> un_ok t f l res"
  using mt_grown [of s t l] mres_grown [of s t] by (simp add: un_ok_def)

lemma mt_entry_grown: "grown_ok s t \<Longrightarrow> mt_entry den s e \<Longrightarrow> mt_entry den t e"
  unfolding mt_entry_def using bin_ok_grown [of s t] un_ok_grown [of s t]
  by (auto split: option.splits meaning.splits)

lemma mt_caches_grown: "grown_ok s t \<Longrightarrow> caches t = caches s \<Longrightarrow> mt_caches den s \<Longrightarrow> mt_caches den t"
  by (auto simp: mt_caches_def elim!: bc.all_ok_mono intro: mt_entry_grown)

lemma mt_caches_reset: "caches t = caches (bdd_operator_reset s) \<Longrightarrow> mt_caches den s \<Longrightarrow> mt_caches den t"
  by (auto simp: mt_caches_def bdd_operator_reset_def mtbdd_operator_reset_def
      MtbddCache_registry_reset_all_def intro: bc.all_ok_reset)

text \<open>A state in which at most terminals and nodes on levels of variables are new.\<close>

lemma mt_good_after:
  assumes G: "mt_good den s" and K: "kinv t" and E: "ext s t" and C: "caches_rel s t"
    and N: "\<And>n. inner t n \<Longrightarrow> inner s n \<and> same_node s t n \<or> LEVEL t n < bddvarnum s"
  shows "mt_good den t"
proof -
  note D = mt_goodD [OF G]
  have st: "stat t = stat s" using E by (simp add: ext_def)
  have c01: "same_node s t 0" "same_node s t 1" using E by (simp_all add: ext_def)
  have "LEVEL t n < bddvarnum t" if "inner t n" for n
    using N [OF that] D(5) statD(4) [OF st] by (auto simp: mt_table_def same_node_def)
  then have "mt_table t" using D(5) statD [OF st] c01 by (simp add: mt_table_def same_node_def)
  then have "mt_base t" using K D(6,7) statD [OF st] by (simp add: mt_base_def DOMAIN_NOT_SHORT_def)
  moreover have "mt_caches den t"
    using C unfolding caches_rel_def
  proof
    assume c: "caches t = caches s \<and> (\<forall>n. allocd s n \<longrightarrow> allocd t n \<and> same_node s t n)"
    then have "grown_ok s t" using D(4) c01 E by (simp add: grown_ok_def grow_def ext_def)
    then show ?thesis using c D(2) by (blast intro: mt_caches_grown)
  qed (use D(2) mt_caches_reset in blast)
  ultimately show ?thesis by (simp add: mt_good_def)
qed

section \<open>The reference stack\<close>

lemma mt_good_stack:
  assumes "mt_good den s" "\<And>x. x \<in> set xs \<Longrightarrow> node_id s x"
  shows "mt_good den (s\<lparr>bddrefstack := xs\<rparr>)"
proof -
  note D = mt_goodD [OF assms(1)]
  have "tab_inv (s\<lparr>bddrefstack := xs\<rparr>)" by (rule tab_inv_refstack [OF D(4) assms(2)])
  moreover have "env_ok (s\<lparr>bddrefstack := xs\<rparr>) = env_ok s" by (rule env_ok_stat) simp
  ultimately have "mt_base (s\<lparr>bddrefstack := xs\<rparr>)"
    using D(1) by (simp add: mt_base_def kinv_def prime_size_def mt_table_def DOMAIN_NOT_SHORT_def)
  moreover have "grown_ok s (s\<lparr>bddrefstack := xs\<rparr>)"
    using D(4) by (simp add: grown_ok_def grow_def same_node_def)
  then have "mt_caches den (s\<lparr>bddrefstack := xs\<rparr>)" by (rule mt_caches_grown) (simp_all add: D(2))
  ultimately show ?thesis by (simp add: mt_good_def)
qed

lemma mres_ext:
  assumes "mres s L F r" "ext s t" "tab_inv s" "arg s r"
  shows "mres t L F r"
  using arg_ext(1,2) [OF assms(2-4)] mval_arg_ext [OF assms(2-4)] assms(1,2)
  by (auto simp: mres_def arg_def same_node_def ext_def)

interpretation mt: stack_frame "mt_good den" "\<lambda>s p r. mres s (fst p) (snd p) r" for den
proof
  fix s and f :: "int \<times> ((int \<Rightarrow> bool) \<Rightarrow> leaf \<Rightarrow> bool)" and r t xs
  show "mt_good den s \<Longrightarrow> tab_inv s" by (rule mt_goodD(4))
  show "mt_good den s \<Longrightarrow> (\<And>x. x \<in> set xs \<Longrightarrow> node_id s x) \<Longrightarrow> mt_good den (s\<lparr>bddrefstack := xs\<rparr>)"
    by (rule mt_good_stack)
  show "mres s (fst f) (snd f) r \<Longrightarrow> node_id s r" by (simp add: mres_def)
  show "mres s (fst f) (snd f) r \<Longrightarrow> ext s t \<Longrightarrow> tab_inv s \<Longrightarrow> arg s r \<Longrightarrow> mres t (fst f) (snd f) r"
    by (rule mres_ext)
  show "mres s (fst f) (snd f) r \<Longrightarrow> tab_inv s \<Longrightarrow> mres (s\<lparr>bddrefstack := xs\<rparr>) (fst f) (snd f) r"
    by (rule mres_grown) (simp_all add: grown_ok_def grow_def same_node_def)
qed

end
