(* ===== verification/MtSpec.thy ===== *)
theory MtSpec
  imports MtFrame
begin

text \<open>
  The operations with callbacks on leaves: with enough fuel and room on the reference stack each recursion ends
  with the invariant, everything live unchanged, and a node whose leaves are the answers of the callback.
\<close>

section \<open>Arguments and results\<close>

definition mpost ::
    "(int \<Rightarrow> meaning option) \<Rightarrow> bdd_state \<Rightarrow> int \<Rightarrow> ((int \<Rightarrow> bool) \<Rightarrow> leaf \<Rightarrow> bool) \<Rightarrow> int \<Rightarrow> bdd_state \<Rightarrow> bool" where
  "mpost den s L F r t = (mt_good den t \<and> ext s t \<and> bddrefstack t = bddrefstack s \<and> mres t L F r)"

lemma mpost_yields: "mpost den s L F r t \<Longrightarrow> mt.yields den s ((=) (L, F)) r t"
  by (auto simp: mpost_def mt.yields_def)

lemma yields_mpost: "mt.yields den s ((=) (L, F)) = mpost den s L F"
  by (auto simp: fun_eq_iff mpost_def mt.yields_def)

lemma mt_arg:
  assumes G: "mt_good den s" and n: "arg s n"
  shows "node_id s n" "0 \<le> n" "0 \<le> LEVEL s n" "ISMTBDDLEAF s n \<longleftrightarrow> \<not> inner s n" "inner s n \<longleftrightarrow> LEVEL s n < bddvarnum s"
    "inner s n \<Longrightarrow> arg s (LOW s n)" "inner s n \<Longrightarrow> arg s (HIGH s n)"
    "inner s n \<Longrightarrow> LEVEL s n < LEVEL s (LOW s n)" "inner s n \<Longrightarrow> LEVEL s n < LEVEL s (HIGH s n)"
proof -
  note D = mt_goodD [OF G]
  have T: "bddvarnum s \<le> MAXLEVEL" "0 \<le> bddvarnum s" "LEVEL s 0 = bddvarnum s" "LEVEL s 1 = bddvarnum s"
    using D(5) by (simp_all add: mt_table_def MAXVAR_def MAXLEVEL_def)
  show id: "node_id s n" using n by (simp add: arg_def)
  show "0 \<le> n" using id by (auto simp: node_id_def allocd_def)
  have lv: "LEVEL s n < bddvarnum s" if "inner s n" using that D(5) by (simp add: mt_table_def)
  have al: "allocd s n" if "2 \<le> n" using that id by (auto simp: node_id_def)
  have nin: "n = 0 \<or> n = 1 \<or> LEVEL s n = MAXLEVEL" if "\<not> inner s n"
    using that id by (auto simp: node_id_def inner_def)
  show "inner s n \<longleftrightarrow> LEVEL s n < bddvarnum s"
    using lv nin T by (cases "inner s n") auto
  show "0 \<le> LEVEL s n"
    using nin T wf_nodes_child(5) [OF tab_invD(3) [OF D(4)], of n] by (cases "inner s n") auto
  show "ISMTBDDLEAF s n \<longleftrightarrow> \<not> inner s n"
    using id by (auto simp: ISMTBDDLEAF_def ISTERMINAL_def ISCONST_def inner_def allocd_def node_id_def)
  show "inner s n \<Longrightarrow> arg s (LOW s n)" "inner s n \<Longrightarrow> arg s (HIGH s n)"
    using arg_children [OF D(4) n] by simp_all
  have child: "LEVEL s n < LEVEL s c" if "inner s n" "node_id s c" "below s (LEVEL s n) c" for c
  proof (cases "2 \<le> c")
    case True
    then show ?thesis using that(3) by (simp add: below_def)
  next
    case False
    then have "LEVEL s c = bddvarnum s" using that(2) T by (auto simp: node_id_def allocd_def)
    then show ?thesis using lv [OF that(1)] by simp
  qed
  show "inner s n \<Longrightarrow> LEVEL s n < LEVEL s (LOW s n)" "inner s n \<Longrightarrow> LEVEL s n < LEVEL s (HIGH s n)"
    using wf_nodes_child [OF tab_invD(3) [OF D(4)], of n] child by auto
qed

lemma mt_later:
  assumes E: "ext s t" and G: "mt_good den s" and n: "arg s n"
  shows "arg t n" "LEVEL t n = LEVEL s n" "LOW t n = LOW s n" "HIGH t n = HIGH s n" "mval t n = mval s n"
    "dep t n = dep s n" "mtop1 t n = mtop1 s n"
proof -
  note I = mt_goodD(4) [OF G]
  note A = arg_ext(1,2) [OF E I n]
  show "arg t n" by (rule A)
  show "LEVEL t n = LEVEL s n" "LOW t n = LOW s n" "HIGH t n = HIGH s n" using A(2) by (simp_all add: same_node_def)
  show "mval t n = mval s n" by (intro ext) (rule mval_arg_ext [OF E I n])
  have "stat t = stat s" using E by (simp add: ext_def)
  from statD(4) [OF this] show "dep t n = dep s n" "mtop1 t n = mtop1 s n"
    using A(2) by (simp_all add: dep_def mtop1_def same_node_def)
qed

lemma mpost_ext: "mt_good den s \<Longrightarrow> ext s u \<Longrightarrow> bddrefstack u = bddrefstack s \<Longrightarrow> mpost den u L F r t \<Longrightarrow> mpost den s L F r t"
  using ext_trans [OF mt_goodD(4), of den s u t] by (simp add: mpost_def)

lemma mpost_weaken: "mpost den s L F r t \<Longrightarrow> L' \<le> L \<Longrightarrow> (\<And>e v. F e v = G e v) \<Longrightarrow> mpost den s L' G r t"
  by (auto simp: mpost_def mres_def)

section \<open>Nodes and terminals\<close>

lemma mt_makenode:
  assumes G: "mt_good den s" and lev: "0 \<le> lev" "lev < bddvarnum s" and a: "arg s lo" "arg s hi"
    and lv: "lev < LEVEL s lo" "lev < LEVEL s hi"
  shows "runs (bdd_makenode lev lo hi s) (mpost den s lev (\<lambda>e v. if e lev then mval s hi e v else mval s lo e v))"
proof -
  note D = mt_goodD [OF G]
  have lm: "lev < MAXLEVEL" using lev(2) D(5) by (simp add: mt_table_def MAXVAR_def MAXLEVEL_def)
  have fits: "fits s lev lo" "fits s lev hi" using a lv by (auto intro!: arg_fits simp: below_def)
  show ?thesis
  proof (rule runs_conseq [OF bdd_makenode_spec [OF D(3) lev(1) lm fits]])
    fix r t assume M: "made s lev lo hi r t"
    then have E: "ext s t" and K: "kinv t" and st: "bddrefstack t = bddrefstack s" and C: "caches_rel s t"
      and N: "is_node t lev lo hi r \<or> r = 0 \<and> bdderrorcond t \<noteq> 0" by (simp_all add: made_def)
    have Gt: "mt_good den t"
    proof (rule mt_good_after [OF G K E C])
      fix n assume "inner t n"
      then show "inner s n \<and> same_node s t n \<or> LEVEL t n < bddvarnum s"
        using M lev(2) unfolding made_def only_new_def inner_def same_node_def by fastforce
    qed
    note L = mt_later [OF E G a(1)] and H = mt_later [OF E G a(2)]
    from N have "mres t lev (\<lambda>e v. if e lev then mval s hi e v else mval s lo e v) r"
    proof
      assume n: "is_node t lev lo hi r"
      show ?thesis
      proof (cases "checkSameChildren t \<and> lo = hi")
        case True
        then have "r = lo" using n by (simp add: is_node_def)
        then show ?thesis using True L lv by (simp add: mres_def arg_def)
      next
        case False
        then have "inner t r" "LEVEL t r = lev" "LOW t r = lo" "HIGH t r = hi"
          using n unfolding is_node_def by (simp_all split: if_splits)
        then show ?thesis using L(5) H(5) by (simp add: mres_def mval_inner inner_def node_id_def)
      qed
    next
      assume r: "r = 0 \<and> bdderrorcond t \<noteq> 0"
      have "LEVEL t 0 = bddvarnum t" "bddvarnum t = bddvarnum s"
        using mt_goodD(5) [OF Gt] E statD(4) [of t s] by (simp_all add: mt_table_def ext_def)
      then show ?thesis using r lev by (simp add: mres_def node_id_def)
    qed
    then show "mpost den s lev (\<lambda>e v. if e lev then mval s hi e v else mval s lo e v) r t"
      using Gt E st by (simp add: mpost_def)
  qed
qed

lemma mt_terminal:
  assumes G: "mt_good den s"
  shows "runs (mtbdd_maketerminal (Some x) ty s) (mpost den s (bddvarnum s) (\<lambda>e v. v = Term (s32 x)))"
proof -
  note D = mt_goodD [OF G]
  have "mtbdd_maketerminal (Some x) ty s = bdd_makenode MAXLEVEL 42 (s32 x) s"
    using D(7) by (auto simp: mtbdd_maketerminal_def DOMAIN_NOT_SHORT_def)
  moreover have "runs (bdd_makenode MAXLEVEL 42 (s32 x) s) (mpost den s (bddvarnum s) (\<lambda>e v. v = Term (s32 x)))"
  proof (rule runs_conseq [OF make_leaf_spec [OF D(3,7)]])
    fix r t assume M: "made_leaf s (s32 x) r t"
    then have E: "ext s t" and K: "kinv t" and st: "bddrefstack t = bddrefstack s" and C: "caches_rel s t"
      and N: "allocd t r \<and> LEVEL t r = MAXLEVEL \<and> HIGH t r = s32 x \<or> r = 0 \<and> bdderrorcond t \<noteq> 0"
      by (simp_all add: made_leaf_def)
    have Gt: "mt_good den t"
      by (rule mt_good_after [OF G K E C]) (use M in \<open>simp add: made_leaf_def only_leaf_def\<close>)
    have V: "LEVEL t 0 = bddvarnum s" "bddvarnum s \<le> MAXLEVEL"
      using mt_goodD(5) [OF Gt] E statD(4) [of t s] by (simp_all add: mt_table_def ext_def MAXVAR_def MAXLEVEL_def)
    from N have "mres t (bddvarnum s) (\<lambda>e v. v = Term (s32 x)) r"
    proof
      assume r: "allocd t r \<and> LEVEL t r = MAXLEVEL \<and> HIGH t r = s32 x"
      then have "\<not> inner t r" "r \<noteq> 0" "r \<noteq> 1" by (auto simp: inner_def allocd_def)
      then show ?thesis using r V by (simp add: mres_def node_id_def mval_leaf leaf_of_def)
    next
      assume "r = 0 \<and> bdderrorcond t \<noteq> 0"
      then show ?thesis using V by (simp add: mres_def node_id_def)
    qed
    then show "mpost den s (bddvarnum s) (\<lambda>e v. v = Term (s32 x)) r t"
      using Gt E st by (simp add: mpost_def)
  qed
  ultimately show ?thesis by simp
qed

lemma mt_value:
  assumes G: "mt_good den s" and n: "arg s n" "\<not> inner s n"
  shows "mtbdd_getTerminalValue n s = ret (pointed (leaf_of s n)) s"
proof (cases "n < 2")
  case True
  then have "n = 0 \<or> n = 1" using mt_arg(2) [OF G n(1)] by auto
  then show ?thesis by (auto simp: mtbdd_getTerminalValue_def ISCONST_def leaf_of_def pointed_def)
next
  case False
  then have "ISTERMINAL s n" using mt_arg(4) [OF G n(1)] n(2) by (simp add: ISMTBDDLEAF_def ISCONST_def)
  moreover have "domaintype (mtvals s) \<in> {INTVAL, FLOATVAL, UNSIGNEDVAL}"
    using mt_goodD(7) [OF G] by (simp add: DOMAIN_NOT_SHORT_def)
  ultimately show ?thesis
    using False by (auto simp: mtbdd_getTerminalValue_def ISCONST_def leaf_of_def pointed_def)
qed

lemma mt_leaf_result:
  assumes G: "mt_good den s"
  shows "runs (mtbdd_leaf_result v ty l vl r vr s)
    (\<lambda>(res, reused) t. \<not> reused \<and> mpost den s (bddvarnum s) (\<lambda>e w. w = outcome v) res t)"
proof (cases v)
  case None
  have "LEVEL s 0 = bddvarnum s" using mt_goodD(5) [OF G] by (simp add: mt_table_def)
  then show ?thesis
    using G None by (simp add: mtbdd_leaf_result_def mpost_def mres_def outcome_def bddfalse_def node_id_def)
next
  case (Some x)
  have "domaintype (mtvals s) \<noteq> CUSTOM" using mt_goodD(7) [OF G] by (auto simp: DOMAIN_NOT_SHORT_def)
  then have "mtbdd_leaf_result v ty l vl r vr s = bnd (mtbdd_maketerminal v ty s) (\<lambda>n s. ret (n, False) s)"
    by (simp add: mtbdd_leaf_result_def Some)
  then show ?thesis using mt_terminal [OF G, of x ty] unfolding Some by (simp add: runs_bnd outcome_def)
qed

definition pure2 :: "leaf_op2 \<Rightarrow> (int option \<Rightarrow> int option \<Rightarrow> int option) \<Rightarrow> bool" where
  "pure2 op f = (\<forall>a b s. op a b s = ret (f a b) s)"

definition pure1 :: "leaf_op1 \<Rightarrow> (int option \<Rightarrow> int option) \<Rightarrow> bool" where
  "pure1 op f = (\<forall>a s. op a s = ret (f a) s)"

lemma leaf2_spec:
  assumes G: "mt_good den s" and a: "arg s l" "arg s r" "\<not> inner s l" "\<not> inner s r" and op: "pure2 op f"
  shows "runs (leaf2 op l r s)
    (\<lambda>(res, reused) t. \<not> reused \<and> mpost den s (bddvarnum s) (lift2 f (mval s l) (mval s r)) res t)"
proof -
  have F: "lift2 f (mval s l) (mval s r) = (\<lambda>e w. w = outcome (f (pointed (leaf_of s l)) (pointed (leaf_of s r))))"
    using a(3,4) by (simp add: fun_eq_iff lift2_def mval_leaf)
  have "leaf2 op l r s = mtbdd_leaf_result (f (pointed (leaf_of s l)) (pointed (leaf_of s r)))
      (if ISCONST l then mtbdd_get_terminal_type r s else mtbdd_get_terminal_type l s)
      l (pointed (leaf_of s l)) r (pointed (leaf_of s r)) s"
    using op by (simp add: leaf2_def mt_value [OF G a(1,3)] mt_value [OF G a(2,4)] pure2_def Let_def)
  then show ?thesis using mt_leaf_result [OF G] unfolding F by simp
qed

lemma leaf1_spec:
  assumes G: "mt_good den s" and a: "arg s l" "\<not> inner s l" and op: "pure1 op f"
  shows "runs (leaf1 op l s)
    (\<lambda>(res, reused) t. \<not> reused \<and> mpost den s (bddvarnum s) (lift1 f (mval s l)) res t)"
proof -
  have F: "lift1 f (mval s l) = (\<lambda>e w. w = outcome (f (pointed (leaf_of s l))))"
    using a(2) by (simp add: fun_eq_iff lift1_def mval_leaf)
  have "leaf1 op l s = mtbdd_leaf_result (f (pointed (leaf_of s l))) (mtbdd_get_terminal_type l s)
      l (pointed (leaf_of s l)) (-1) None s"
    using op by (simp add: leaf1_def mt_value [OF G a] pure1_def Let_def)
  then show ?thesis using mt_leaf_result [OF G] unfolding F by simp
qed

section \<open>Descending\<close>

lemma mt_both:
  assumes G: "mt_good den s" and R: "room s (Suc d)"
    and f: "runs (f s) (mpost den s L0 F0)"
    and g: "\<And>s1. mt_good den s1 \<Longrightarrow> ext s s1 \<Longrightarrow> room s1 d \<Longrightarrow> runs (g s1) (mpost den s1 L1 F1)"
    and k: "\<And>s2 l h. mt_good den s2 \<Longrightarrow> ext s s2 \<Longrightarrow> arg s2 l \<Longrightarrow> arg s2 h \<Longrightarrow>
              mres s2 L0 F0 l \<Longrightarrow> mres s2 L1 F1 h \<Longrightarrow> runs (k l h s2) (mpost den s2 L F)"
  shows "runs (both f g k s) (mpost den s L F)"
  unfolding yields_mpost [symmetric]
proof (rule mt.both_yields [where f = f and g = g and k = k and s = s and d = d, OF G R])
  show "runs (f s) (mt.yields den s ((=) (L0, F0)))" using f by (simp add: yields_mpost)
  show "runs (g s1) (mt.yields den s1 ((=) (L1, F1)))" if "mt_good den s1" "ext s s1" "room s1 d" for s1
    using g [OF that] by (simp add: yields_mpost)
  fix s2 l h and P0 P1 :: "int \<times> ((int \<Rightarrow> bool) \<Rightarrow> leaf \<Rightarrow> bool)"
  assume "mt_good den s2" "ext s s2" "room s2 d" "arg s2 l" "arg s2 h" "(L0, F0) = P0" "(L1, F1) = P1"
    "mres s2 (fst P0) (snd P0) l" "mres s2 (fst P1) (snd P1) h"
  then show "runs (k l h s2) (mt.yields den s2 ((=) (L, F)))"
    using k [of s2 l h] by (auto simp: yields_mpost)
qed

text \<open>A new node at level \<open>v\<close> from results below it.\<close>

lemma mt_node:
  assumes s2: "mt_good den s2" "arg s2 l" "arg s2 h" and v: "0 \<le> v" "v < bddvarnum s2" "v < L"
    and r: "mres s2 L F0 l" "mres s2 L F1 h" and F: "\<And>e w. F e w = (if e v then F1 e w else F0 e w)"
  shows "runs (bdd_makenode v l h s2) (mpost den s2 v F)"
proof -
  have lv: "v < LEVEL s2 l" "v < LEVEL s2 h" using r v(3) by (simp_all add: mres_def)
  show ?thesis
  proof (rule runs_conseq [OF mt_makenode [OF s2(1) v(1,2) s2(2,3) lv]])
    fix q t assume P: "mpost den s2 v (\<lambda>e w. if e v then mval s2 h e w else mval s2 l e w) q t"
    then have "bdderrorcond t = 0 \<Longrightarrow> bdderrorcond s2 = 0" by (simp add: mpost_def ext_def)
    then show "mpost den s2 v F q t" using P r by (simp add: mpost_def mres_def F)
  qed
qed

lemma mt_down:
  assumes G: "mt_good den s" and n: "arg s n" and v: "v \<le> LEVEL s n" "v < bddvarnum s"
  shows "arg s (down s v n b)" "v < LEVEL s (down s v n b)" "dep s (down s v n b) < nat (bddvarnum s - v)"
    "mval s n e = mval s (down s v n (e v)) e"
proof -
  note N = mt_arg [OF G n]
  have i: "inner s n" if "LEVEL s n = v" using that v(2) N(5) by simp
  show A: "arg s (down s v n b)" and L: "v < LEVEL s (down s v n b)" using n v N(6-9) i by (auto simp: down_def)
  show "dep s (down s v n b) < nat (bddvarnum s - v)" using L v(2) by (simp add: dep_def)
  show "mval s n e = mval s (down s v n (e v)) e" using i by (auto simp: down_def fun_eq_iff mval_inner)
qed

text \<open>Every case of \<open>descend2\<close> descends in the operands that are on the top level.\<close>

lemma descend2_eq:
  assumes v: "v = top2 s l r"
  obtains x p q where "descend2 m l r s = both p q (\<lambda>lo hi s. bdd_makenode (LEVEL s x) lo hi s) s"
    "x \<in> {l, r}" "LEVEL s x = v" "p s = m (down s v l False) (down s v r False) s"
    "\<And>t. LOW t l = LOW s l \<Longrightarrow> LOW t r = LOW s r \<Longrightarrow> HIGH t l = HIGH s l \<Longrightarrow> HIGH t r = HIGH s r \<Longrightarrow>
         q t = m (down s v l True) (down s v r True) t"
proof -
  consider "LEVEL s l = LEVEL s r" | "LEVEL s l < LEVEL s r" | "LEVEL s r < LEVEL s l" by linarith
  then show ?thesis
  proof cases
    case 1
    then show ?thesis
      by (intro that [of "\<lambda>s. m (LOW s l) (LOW s r) s" "\<lambda>s. m (HIGH s l) (HIGH s r) s" l])
        (simp_all add: descend2_def down_def v top2_def)
  next
    case 2
    then show ?thesis
      by (intro that [of "\<lambda>s. m (LOW s l) r s" "\<lambda>s. m (HIGH s l) r s" l])
        (simp_all add: descend2_def down_def v top2_def)
  next
    case 3
    then show ?thesis
      by (intro that [of "\<lambda>s. m l (LOW s r) s" "\<lambda>s. m l (HIGH s r) s" r])
        (simp_all add: descend2_def down_def v top2_def)
  qed
qed

lemma mtop2_top2: "top2 s l r < bddvarnum s \<Longrightarrow> mtop2 s l r = top2 s l r"
  by (simp add: mtop2_def top2_def)

lemma mt_descend2:
  assumes G: "mt_good den s" and a: "arg s l" "arg s r" and nl: "inner s l \<or> inner s r"
    and R: "room s (dep2 s l r)"
    and rec: "\<And>s1 l' r'. mt_good den s1 \<Longrightarrow> arg s1 l' \<Longrightarrow> arg s1 r' \<Longrightarrow> dep2 s1 l' r' < dep2 s l r \<Longrightarrow>
        room s1 (dep2 s1 l' r') \<Longrightarrow>
        runs (m l' r' s1) (mpost den s1 (mtop2 s1 l' r') (lift2 f (mval s1 l') (mval s1 r')))"
  shows "runs (descend2 m l r s) (mpost den s (mtop2 s l r) (lift2 f (mval s l) (mval s r)))"
proof -
  let ?v = "top2 s l r"
  note L = mt_arg [OF G a(1)] and Rn = mt_arg [OF G a(2)]
  have vl: "?v \<le> LEVEL s l" "?v \<le> LEVEL s r" by (simp_all add: top2_def)
  have v: "0 \<le> ?v" "?v < bddvarnum s" using nl L(3,5) Rn(3,5) by (auto simp: top2_def)
  note DL = mt_down [OF G a(1) vl(1) v(2)] and DR = mt_down [OF G a(2) vl(2) v(2)]
  define F where "F b = lift2 f (mval s (down s ?v l b)) (mval s (down s ?v r b))" for b
  obtain d where d: "dep2 s l r = Suc d" using v by (cases "dep2 s l r") (auto simp: dep2_top)
  have sub: "runs (m (down s ?v l b) (down s ?v r b) s1) (mpost den s1 (?v + 1) (F b))"
    if s1: "mt_good den s1" "ext s s1" "room s1 d" for s1 b
  proof -
    note A = mt_later [OF s1(2) G DL(1) [of b]] and B = mt_later [OF s1(2) G DR(1) [of b]]
    have eq: "dep2 s1 (down s ?v l b) (down s ?v r b) = dep2 s (down s ?v l b) (down s ?v r b)"
      "mtop2 s1 (down s ?v l b) (down s ?v r b) = mtop2 s (down s ?v l b) (down s ?v r b)"
      using A B by (simp_all add: dep2_def mtop2_top1)
    have lt: "dep2 s (down s ?v l b) (down s ?v r b) \<le> d"
      using DL(3) [of b] DR(3) [of b] d unfolding dep2_top [of s l r] by (simp add: dep2_def)
    have "?v + 1 \<le> mtop2 s (down s ?v l b) (down s ?v r b)"
      using DL(2) [of b] DR(2) [of b] v(2) by (simp add: mtop2_def)
    moreover have "runs (m (down s ?v l b) (down s ?v r b) s1)
        (mpost den s1 (mtop2 s (down s ?v l b) (down s ?v r b)) (F b))"
      using rec [OF s1(1) A(1) B(1)] lt d room_mono [OF s1(3) lt] A(5) B(5) by (simp add: eq F_def)
    ultimately show ?thesis by (auto intro: mpost_weaken elim: runs_conseq)
  qed
  obtain x p q where x: "descend2 m l r s = both p q (\<lambda>lo hi s. bdd_makenode (LEVEL s x) lo hi s) s"
    "x \<in> {l, r}" "LEVEL s x = ?v" "p s = m (down s ?v l False) (down s ?v r False) s"
    "\<And>t. LOW t l = LOW s l \<Longrightarrow> LOW t r = LOW s r \<Longrightarrow> HIGH t l = HIGH s l \<Longrightarrow> HIGH t r = HIGH s r \<Longrightarrow>
         q t = m (down s ?v l True) (down s ?v r True) t"
    by (rule descend2_eq [OF refl, of m l r s]) blast
  have Fe: "lift2 f (mval s l) (mval s r) e w = (if e ?v then F True e w else F False e w)" for e w
    using DL(4) [of e] DR(4) [of e] by (simp add: F_def lift2_def)
  have "runs (both p q (\<lambda>lo hi s. bdd_makenode (LEVEL s x) lo hi s) s) (mpost den s ?v (lift2 f (mval s l) (mval s r)))"
  proof (rule mt_both [OF G])
    show "room s (Suc d)" using R d by simp
    then show "runs (p s) (mpost den s (?v + 1) (F False))"
      unfolding x(4) by (intro sub G ext_refl) (auto intro: room_mono)
    fix s1 assume s1: "mt_good den s1" "ext s s1" "room s1 d"
    have "q s1 = m (down s ?v l True) (down s ?v r True) s1"
      by (rule x(5)) (simp_all add: mt_later [OF s1(2) G a(1)] mt_later [OF s1(2) G a(2)])
    then show "runs (q s1) (mpost den s1 (?v + 1) (F True))" using sub [OF s1] by simp
  next
    fix s2 lo hi
    assume s2: "mt_good den s2" "ext s s2" "arg s2 lo" "arg s2 hi"
      "mres s2 (?v + 1) (F False) lo" "mres s2 (?v + 1) (F True) hi"
    have "LEVEL s2 x = ?v" using mt_later(2) [OF s2(2) G] a x(2,3) by auto
    moreover have "bddvarnum s2 = bddvarnum s" using s2(2) statD(4) [of s2 s] by (simp add: ext_def)
    ultimately show "runs (bdd_makenode (LEVEL s2 x) lo hi s2) (mpost den s2 ?v (lift2 f (mval s l) (mval s r)))"
      using mt_node [OF s2(1,3,4) v(1) _ _ s2(5,6) Fe] v(2) by simp
  qed
  then show ?thesis using x(1) mtop2_top2 [OF v(2)] by simp
qed

section \<open>The recursions\<close>

text \<open>
  The recursions of \<open>mtbdd_apply\<close>, \<open>mtbdd_apply_param\<close>, \<open>mtbdd_apply_unary\<close> and \<open>mtbdd_apply_unary_param\<close>: one rule for
  the lookup, the computation and the store that they share, and the induction over the fuel.
\<close>

lemma mt_descend1:
  assumes G: "mt_good den s" and a: "arg s l" and nl: "inner s l" and R: "room s (dep s l)"
    and rec: "\<And>s1 l'. mt_good den s1 \<Longrightarrow> arg s1 l' \<Longrightarrow> dep s1 l' < dep s l \<Longrightarrow> room s1 (dep s1 l') \<Longrightarrow>
        runs (m l' s1) (mpost den s1 (mtop1 s1 l') (lift1 f (mval s1 l')))"
  shows "runs (descend1 m l s) (mpost den s (mtop1 s l) (lift1 f (mval s l)))"
proof -
  let ?v = "LEVEL s l"
  note L = mt_arg [OF G a]
  have v: "?v < bddvarnum s" "mtop1 s l = ?v" using nl L(5) by (simp_all add: mtop1_def)
  obtain d where d: "dep s l = Suc d" using v by (cases "dep s l") (auto simp: dep_def)
  have sub: "runs (m c s1) (mpost den s1 (?v + 1) (lift1 f (mval s c)))"
    if s1: "mt_good den s1" "ext s s1" "room s1 d" and c: "arg s c" "?v < LEVEL s c" for s1 c
  proof -
    note A = mt_later [OF s1(2) G c(1)]
    have lt: "dep s c \<le> d" using c(2) v(1) d by (auto simp: dep_def)
    have "runs (m c s1) (mpost den s1 (mtop1 s c) (lift1 f (mval s c)))"
      using rec [OF s1(1) A(1)] lt d room_mono [OF s1(3) lt] A(5-7) by simp
    moreover have "?v + 1 \<le> mtop1 s c" using c(2) v(1) by (simp add: mtop1_def)
    ultimately show ?thesis by (auto intro: mpost_weaken elim: runs_conseq)
  qed
  have Fe: "lift1 f (mval s l) e w =
      (if e ?v then lift1 f (mval s (HIGH s l)) e w else lift1 f (mval s (LOW s l)) e w)" for e w
    using nl by (simp add: lift1_def mval_inner)
  have "runs (both (\<lambda>s. m (LOW s l) s) (\<lambda>s. m (HIGH s l) s) (\<lambda>lo hi s. bdd_makenode (LEVEL s l) lo hi s) s)
      (mpost den s ?v (lift1 f (mval s l)))"
  proof (rule mt_both [OF G, where f = "\<lambda>s. m (LOW s l) s" and g = "\<lambda>s. m (HIGH s l) s"])
    show "room s (Suc d)" using R d by simp
    then show "runs (m (LOW s l) s) (mpost den s (?v + 1) (lift1 f (mval s (LOW s l))))"
      using L(6,8) nl by (intro sub G ext_refl) (auto intro: room_mono)
    fix s1 assume s1: "mt_good den s1" "ext s s1" "room s1 d"
    show "runs (m (HIGH s1 l) s1) (mpost den s1 (?v + 1) (lift1 f (mval s (HIGH s l))))"
      using sub [OF s1, of "HIGH s l"] L(7,9) nl mt_later(4) [OF s1(2) G a] by simp
  next
    fix s2 lo hi
    assume s2: "mt_good den s2" "ext s s2" "arg s2 lo" "arg s2 hi"
      "mres s2 (?v + 1) (lift1 f (mval s (LOW s l))) lo" "mres s2 (?v + 1) (lift1 f (mval s (HIGH s l))) hi"
    have "LEVEL s2 l = ?v" by (rule mt_later(2) [OF s2(2) G a])
    moreover have "bddvarnum s2 = bddvarnum s" using s2(2) statD(4) [of s2 s] by (simp add: ext_def)
    ultimately show "runs (bdd_makenode (LEVEL s2 l) lo hi s2) (mpost den s2 ?v (lift1 f (mval s l)))"
      using mt_node [OF s2(1,3,4) L(3) _ _ s2(5,6) Fe] v(1) by simp
  qed
  then show ?thesis using v(2) by (simp add: descend1_def)
qed

section \<open>The lookup, the computation and the store\<close>

lemma ext_store: "ext s t \<Longrightarrow> ext s (store upd g i t)"
  by (simp add: store_def ext_def same_node_def LEVEL_def LOW_def HIGH_def stat_def)

lemma mt_store:
  assumes P: "mpost den s L F res t"
    and e: "\<And>e g. mt_entry den t ((w e)\<lparr>c_generation := g\<rparr>)"
  shows "mpost den s L F res (store_apply w i t)" (is "mpost den s L F res ?t")
proof -
  have t: "mt_good den t" "ext s t" "bddrefstack t = bddrefstack s" "mres t L F res"
    using P by (simp_all add: mpost_def)
  note D = mt_goodD [OF t(1)]
  have acc: "LEVEL ?t = LEVEL t" "LOW ?t = LOW t" "HIGH ?t = HIGH t" "allocd ?t = allocd t" "inner ?t = inner t"
    by (simp_all add: fun_eq_iff store_def LEVEL_def LOW_def HIGH_def allocd_def inner_def)
  have st: "stat ?t = stat t" by (simp add: store_def stat_def)
  have "tab_inv ?t" using D(4) by (subst tab_inv_cong [of _ t]) (simp_all add: store_def)
  then have I: "mt_base ?t"
    using D(1) env_ok_stat [OF st] acc
    by (simp add: mt_base_def kinv_def prime_size_def mt_table_def DOMAIN_NOT_SHORT_def store_def)
  have G: "grown_ok t ?t"
    using D(4) st acc by (simp add: grown_ok_def grow_def same_node_def) (simp add: store_def)
  have "mt_caches den ?t"
  proof -
    let ?c = "mtbdd_cache_apply (caches t)"
    have "cache_ok (mt_entry den t) (write_entry w i ?c)"
      using D(2) e by (intro bc.all_ok_store) (simp_all add: mt_caches_def written_def)
    then have "cache_ok (mt_entry den ?t) (write_entry w i ?c)"
      by (rule bc.all_ok_mono) (rule mt_entry_grown [OF G])
    then show ?thesis using D(2) by (simp add: mt_caches_def store_def)
  qed
  then have "mt_good den ?t" using I by (simp add: mt_good_def)
  then show ?thesis
    using t mres_grown [OF G t(4)] ext_store [OF t(2)] by (simp add: mpost_def) (simp add: store_def)
qed

lemma mt_step:
  assumes G: "mt_good den s"
    and hit: "\<And>e. mt_entry den s e \<Longrightarrow> P e \<Longrightarrow> mres s L F (c_res e)"
    and run: "runs m (\<lambda>(res, reused) t. \<not> reused \<and> mpost den s L F res t)"
    and st: "\<And>res t e g. mpost den s L F res t \<Longrightarrow> mt_entry den t ((st res e)\<lparr>c_generation := g\<rparr>)"
  shows "runs (lookup_in mtbdd_cache_apply h s (\<lambda>i.
      if cached mtbdd_cache_apply i s P then hit mtbdd_cache_apply i s
      else keep_result m (\<lambda>res. store_apply (st res) i))) (mpost den s L F)"
proof -
  note C = mt_goodD(2) [OF G]
  let ?c = "mtbdd_cache_apply (caches s)"
  let ?i = "BddCache_lookup ?c h"
  have lk: "lookup_in mtbdd_cache_apply h s k = k ?i" for k :: "int \<Rightarrow> BDD bm"
    using C by (simp add: lookup_in_def mt_caches_def)
  show ?thesis
  proof (cases "cached mtbdd_cache_apply ?i s P")
    case True
    then have "mt_entry den s (table ?c ?i)" "P (table ?c ?i)"
      using C bc.all_ok_hit [of "mt_entry den s" ?c] valid_entry_in [of ?c ?i]
      by (auto simp: cached_def mt_caches_def)
    then have "mres s L F (c_res (table ?c ?i))" by (rule hit)
    then show ?thesis using True G by (simp add: lk hit_def mpost_def)
  next
    case False
    have "runs (keep_result m (\<lambda>res. store_apply (st res) ?i)) (mpost den s L F)"
      unfolding keep_result_def
    proof (rule runs_bnd [OF run])
      fix x t assume "(\<lambda>(res, reused) t. \<not> reused \<and> mpost den s L F res t) x t"
      then obtain res where x: "x = (res, False)" "mpost den s L F res t" by (cases x) auto
      have "mpost den s L F res (store_apply (st res) ?i t)"
        by (rule mt_store [OF x(2)]) (rule st [OF x(2)])
      then show "runs ((\<lambda>(res, reused) s. ret res (if reused then s else store_apply (st res) ?i s)) x t)
          (mpost den s L F)" by (simp add: x(1))
    qed
    then show ?thesis using False by (simp add: lk)
  qed
qed

lemma mt_not_reused: "runs m (mpost den s L F) \<Longrightarrow> runs (not_reused m) (\<lambda>(res, reused) t. \<not> reused \<and> mpost den s L F res t)"
  unfolding not_reused_def by (rule runs_bnd) auto

section \<open>The recursions\<close>

text \<open>What is computed when the cache has no answer, for two operands and for one.\<close>

lemma mt_compute2:
  assumes G: "mt_good den s" and a: "arg s l" "arg s r" and op: "pure2 cb f"
    and d: "room s (dep2 s l r)"
    and rec: "\<And>s1 l' r'. mt_good den s1 \<Longrightarrow> arg s1 l' \<Longrightarrow> arg s1 r' \<Longrightarrow> dep2 s1 l' r' < dep2 s l r \<Longrightarrow>
        room s1 (dep2 s1 l' r') \<Longrightarrow>
        runs (m l' r' s1) (mpost den s1 (mtop2 s1 l' r') (lift2 f (mval s1 l') (mval s1 r')))"
  shows "runs (if ISMTBDDLEAF s l \<and> ISMTBDDLEAF s r then leaf2 cb l r s else not_reused (descend2 m l r s))
    (\<lambda>(res, reused) t. \<not> reused \<and> mpost den s (mtop2 s l r) (lift2 f (mval s l) (mval s r)) res t)"
proof (cases "ISMTBDDLEAF s l \<and> ISMTBDDLEAF s r")
  case True
  then have nl: "\<not> inner s l" "\<not> inner s r" using mt_arg(4) [OF G a(1)] mt_arg(4) [OF G a(2)] by simp_all
  have "mtop2 s l r = bddvarnum s"
    using nl mt_arg(5) [OF G a(1)] mt_arg(5) [OF G a(2)] by (simp add: mtop2_def)
  then show ?thesis using True leaf2_spec [OF G a nl op] by simp
next
  case False
  then have nl: "inner s l \<or> inner s r" using mt_arg(4) [OF G a(1)] mt_arg(4) [OF G a(2)] by blast
  have "runs (descend2 m l r s) (mpost den s (mtop2 s l r) (lift2 f (mval s l) (mval s r)))"
    by (rule mt_descend2 [OF G a nl d rec])
  then show ?thesis using False by (auto intro: mt_not_reused)
qed

lemma mt_compute1:
  assumes G: "mt_good den s" and a: "arg s l" and op: "pure1 cb f" and d: "room s (dep s l)"
    and rec: "\<And>s1 l'. mt_good den s1 \<Longrightarrow> arg s1 l' \<Longrightarrow> dep s1 l' < dep s l \<Longrightarrow> room s1 (dep s1 l') \<Longrightarrow>
        runs (m l' s1) (mpost den s1 (mtop1 s1 l') (lift1 f (mval s1 l')))"
  shows "runs (if ISMTBDDLEAF s l then leaf1 cb l s else not_reused (descend1 m l s))
    (\<lambda>(res, reused) t. \<not> reused \<and> mpost den s (mtop1 s l) (lift1 f (mval s l)) res t)"
proof (cases "ISMTBDDLEAF s l")
  case True
  then have nl: "\<not> inner s l" using mt_arg(4) [OF G a] by simp
  then have "mtop1 s l = bddvarnum s" using mt_arg(5) [OF G a] by (simp add: mtop1_def)
  then show ?thesis using True leaf1_spec [OF G a nl op] by simp
next
  case False
  then have nl: "inner s l" using mt_arg(4) [OF G a] by blast
  have "runs (descend1 m l s) (mpost den s (mtop1 s l) (lift1 f (mval s l)))"
    by (rule mt_descend1 [OF G a nl d rec])
  then show ?thesis using False by (auto intro: mt_not_reused)
qed

text \<open>An entry for operands of an earlier state.\<close>

lemma bin_ok_later:
  assumes P: "mpost den s (mtop2 s l r) (lift2 f (mval s l) (mval s r)) res t"
    and G: "mt_good den s" and a: "arg s l" "arg s r"
  shows "bin_ok t f l r res"
proof -
  have E: "ext s t" using P by (simp add: mpost_def)
  note L = mt_later [OF E G a(1)] and R = mt_later [OF E G a(2)]
  show ?thesis using P L(1,5,7) R(1,5,7) by (simp add: bin_ok_def mpost_def arg_def mtop2_top1)
qed

lemma un_ok_later:
  assumes P: "mpost den s (mtop1 s l) (lift1 f (mval s l)) res t" and G: "mt_good den s" and a: "arg s l"
  shows "un_ok t f l res"
proof -
  have E: "ext s t" using P by (simp add: mpost_def)
  note L = mt_later [OF E G a]
  show ?thesis using P L(1,5,7) by (simp add: un_ok_def mpost_def arg_def)
qed

lemma mtbdd_apply_rec_spec:
  assumes den: "den key = Some (OnTwo f)" and op: "pure2 cb f"
  shows "mt_good den s \<Longrightarrow> arg s l \<Longrightarrow> arg s r \<Longrightarrow> dep2 s l r < k \<Longrightarrow> room s (dep2 s l r) \<Longrightarrow>
    runs (mtbdd_apply_rec k l r (key, cb) s) (mpost den s (mtop2 s l r) (lift2 f (mval s l) (mval s r)))"
proof (induction k arbitrary: s l r)
  case (Suc k)
  note G = Suc.prems(1) and a = Suc.prems(2,3)
  show ?case unfolding mtbdd_apply_rec.simps fst_conv snd_conv
  proof (rule mt_step [OF G, rotated])
    show "runs (if ISMTBDDLEAF s l \<and> ISMTBDDLEAF s r then leaf2 cb l r s
        else not_reused (descend2 (\<lambda>l r. mtbdd_apply_rec k l r (key, cb)) l r s))
      (\<lambda>(res, reused) t. \<not> reused \<and> mpost den s (mtop2 s l r) (lift2 f (mval s l) (mval s r)) res t)"
      by (rule mt_compute2 [OF G a op Suc.prems(5)], rule Suc.IH) (use Suc.prems(4) in simp_all)
  next
    fix res t e g assume "mpost den s (mtop2 s l r) (lift2 f (mval s l) (mval s r)) res t"
    then show "mt_entry den t ((store3 l r key res e)\<lparr>c_generation := g\<rparr>)"
      using bin_ok_later [OF _ G a] by (simp add: mt_entry_def store3_def den)
  next
    fix e assume "mt_entry den s e" "c_a e = l \<and> c_b e = r \<and> c_c e = key"
    then show "mres s (mtop2 s l r) (lift2 f (mval s l) (mval s r)) (c_res e)"
      by (simp add: mt_entry_def den bin_ok_def)
  qed
qed simp

lemma mtbdd_apply_param_rec_spec:
  assumes den: "den key = Some (OnTwoP f)" and op: "pure2 (cb p) (f p)" and p: "0 \<le> p" "p < 2 ^ 64"
  shows "mt_good den s \<Longrightarrow> arg s l \<Longrightarrow> arg s r \<Longrightarrow> dep2 s l r < k \<Longrightarrow> room s (dep2 s l r) \<Longrightarrow>
    runs (mtbdd_apply_param_rec k l r (key, cb) p s) (mpost den s (mtop2 s l r) (lift2 (f p) (mval s l) (mval s r)))"
proof (induction k arbitrary: s l r)
  case (Suc k)
  note G = Suc.prems(1) and a = Suc.prems(2,3)
  have H: "halves p (CACHE_SIZE_T_LO p) (CACHE_SIZE_T_HI p)" using p by (simp add: halves_def)
  show ?case unfolding mtbdd_apply_param_rec.simps fst_conv snd_conv
  proof (rule mt_step [OF G, rotated])
    show "runs (if ISMTBDDLEAF s l \<and> ISMTBDDLEAF s r then leaf2 (cb p) l r s
        else not_reused (descend2 (\<lambda>l r. mtbdd_apply_param_rec k l r (key, cb) p) l r s))
      (\<lambda>(res, reused) t. \<not> reused \<and> mpost den s (mtop2 s l r) (lift2 (f p) (mval s l) (mval s r)) res t)"
      by (rule mt_compute2 [OF G a op Suc.prems(5)], rule Suc.IH) (use Suc.prems(4) in simp_all)
  next
    fix res t e g assume "mpost den s (mtop2 s l r) (lift2 (f p) (mval s l) (mval s r)) res t"
    then show "mt_entry den t ((BddCache_store4_sizet l r key p res e)\<lparr>c_generation := g\<rparr>)"
      using bin_ok_later [OF _ G a] H by (auto simp: mt_entry_def BddCache_store4_sizet_def den)
  next
    fix e assume e: "mt_entry den s e" "c_a e = l \<and> c_b e = r \<and> c_c e = key \<and>
        c_d e = CACHE_SIZE_T_LO p \<and> c_r2 e = CACHE_SIZE_T_HI p"
    then obtain q where q: "halves q (c_d e) (c_r2 e)" "bin_ok s (f q) l r (c_res e)"
      by (auto simp: mt_entry_def den)
    then have "q = p" using halves_inj [of q] H e(2) by simp
    then show "mres s (mtop2 s l r) (lift2 (f p) (mval s l) (mval s r)) (c_res e)" using q by (simp add: bin_ok_def)
  qed
qed simp

lemma mtbdd_apply_unary_rec_spec:
  assumes den: "den key = Some (OnOne f)" and op: "pure1 cb f"
  shows "mt_good den s \<Longrightarrow> arg s l \<Longrightarrow> dep s l < k \<Longrightarrow> room s (dep s l) \<Longrightarrow>
    runs (mtbdd_apply_unary_rec k l (key, cb) s) (mpost den s (mtop1 s l) (lift1 f (mval s l)))"
proof (induction k arbitrary: s l)
  case (Suc k)
  note G = Suc.prems(1) and a = Suc.prems(2)
  show ?case unfolding mtbdd_apply_unary_rec.simps fst_conv snd_conv
  proof (rule mt_step [OF G, rotated])
    show "runs (if ISMTBDDLEAF s l then leaf1 cb l s
        else not_reused (descend1 (\<lambda>l. mtbdd_apply_unary_rec k l (key, cb)) l s))
      (\<lambda>(res, reused) t. \<not> reused \<and> mpost den s (mtop1 s l) (lift1 f (mval s l)) res t)"
      by (rule mt_compute1 [OF G a op Suc.prems(4)], rule Suc.IH) (use Suc.prems(3) in simp_all)
  qed (use un_ok_later [OF _ G a] in \<open>auto simp: mt_entry_def store3_def den un_ok_def\<close>)
qed simp

lemma mtbdd_apply_unary_param_rec_spec:
  assumes den: "den key = Some (OnOneP f)" and op: "pure1 (cb p) (f p)" and p: "0 \<le> p" "p < 2 ^ 64"
  shows "mt_good den s \<Longrightarrow> arg s l \<Longrightarrow> dep s l < k \<Longrightarrow> room s (dep s l) \<Longrightarrow>
    runs (mtbdd_apply_unary_param_rec k l (key, cb) p s) (mpost den s (mtop1 s l) (lift1 (f p) (mval s l)))"
proof (induction k arbitrary: s l)
  case (Suc k)
  note G = Suc.prems(1) and a = Suc.prems(2)
  have H: "halves p (CACHE_SIZE_T_LO p) (CACHE_SIZE_T_HI p)" using p by (simp add: halves_def)
  show ?case unfolding mtbdd_apply_unary_param_rec.simps fst_conv snd_conv
  proof (rule mt_step [OF G, rotated])
    show "runs (if ISMTBDDLEAF s l then leaf1 (cb p) l s
        else not_reused (descend1 (\<lambda>l. mtbdd_apply_unary_param_rec k l (key, cb) p) l s))
      (\<lambda>(res, reused) t. \<not> reused \<and> mpost den s (mtop1 s l) (lift1 (f p) (mval s l)) res t)"
      by (rule mt_compute1 [OF G a op Suc.prems(4)], rule Suc.IH) (use Suc.prems(3) in simp_all)
  next
    fix res t e g assume "mpost den s (mtop1 s l) (lift1 (f p) (mval s l)) res t"
    then show "mt_entry den t ((BddCache_store_sizet_b l p key res e)\<lparr>c_generation := g\<rparr>)"
      using un_ok_later [OF _ G a] H by (auto simp: mt_entry_def BddCache_store_sizet_b_def den)
  next
    fix e assume e: "mt_entry den s e" "c_a e = l \<and> c_b e = CACHE_SIZE_T_LO p \<and> c_c e = key \<and>
        c_r2 e = CACHE_SIZE_T_HI p"
    then obtain q where q: "halves q (c_b e) (c_r2 e)" "un_ok s (f q) l (c_res e)"
      by (auto simp: mt_entry_def den)
    then have "q = p" using halves_inj [of q] H e(2) by simp
    then show "mres s (mtop1 s l) (lift1 (f p) (mval s l)) (c_res e)" using q by (simp add: un_ok_def)
  qed
qed simp

end
