(* ===== verification/MtSession.thy ===== *)
theory MtSession
  imports MtSpec Example
begin

text \<open>
  The operations on multi-terminal diagrams as the user calls them, and a concrete session for the instances of
  their properties.
\<close>

section \<open>Sessions\<close>

text \<open>The invariant, and a reference stack with room for an operation.\<close>

definition mt_session :: "(int \<Rightarrow> meaning option) \<Rightarrow> bdd_state \<Rightarrow> bool" where
  "mt_session den s = (mt_good den s \<and> room s (nat (bddvarnum s)))"

text \<open>What an operation promises to the user, whose nodes are those of which \<open>arg\<close> holds.\<close>

definition mt_ends :: "(int \<Rightarrow> meaning option) \<Rightarrow> bdd_state \<Rightarrow> ((int \<Rightarrow> bool) \<Rightarrow> leaf \<Rightarrow> bool) \<Rightarrow> int \<Rightarrow> bdd_state \<Rightarrow> bool" where
  "mt_ends den s F r t =
     (mt_session den t \<and> ext s t \<and> node_id t r \<and> (bdderrorcond t = 0 \<longrightarrow> (\<forall>e v. mval t r e v = F e v)))"

lemma mt_sessionD: "mt_session den s \<Longrightarrow> mt_good den s" "mt_session den s \<Longrightarrow> bddrunning s"
  "mt_session den s \<Longrightarrow> room s (nat (bddvarnum s))"
  by (simp_all add: mt_session_def mt_good_def mt_base_def)

lemma mpost_ends: "mt_session den s \<Longrightarrow> mpost den s L F r t \<Longrightarrow> mt_ends den s F r t"
  using statD [of t s]
  by (auto simp: mt_ends_def mpost_def mt_session_def mres_def room_def ext_def)

lemma mt_dep:
  assumes "mt_session den s" "arg s n"
  shows "dep s n \<le> nat (bddvarnum s)" "room s (dep s n)"
proof -
  show d: "dep s n \<le> nat (bddvarnum s)" using mt_arg(3) [OF mt_sessionD(1) [OF assms(1)] assms(2)] by (simp add: dep_def)
  show "room s (dep s n)" by (rule room_mono [OF mt_sessionD(3) [OF assms(1)] d])
qed

lemma mt_dep2:
  assumes "mt_session den s" "arg s l" "arg s r"
  shows "dep2 s l r \<le> nat (bddvarnum s)" "room s (dep2 s l r)"
  using mt_dep [OF assms(1,2)] mt_dep [OF assms(1,3)] by (auto simp: dep2_def max_def)

lemma mt_check:
  assumes S: "mt_session den s" and a: "arg s n"
  shows "CHECKa n x s k = k s"
proof -
  have "node_id s n" "tab_inv s" "bddrunning s"
    using mt_arg(1) [OF mt_sessionD(1) [OF S] a] mt_goodD(4) [OF mt_sessionD(1) [OF S]] mt_sessionD(2) [OF S] by simp_all
  then have "check_code n s = 0" using tab_invD(1) [of s]
    by (auto simp: check_code_def node_id_def allocd_def size_ok_def)
  then show ?thesis by (simp add: CHECKa_def)
qed

section \<open>Every assignment leads to one leaf\<close>

lemma mval_total:
  assumes G: "mt_good den s"
  shows "arg s n \<Longrightarrow> \<exists>v. mval s n e v"
proof (induction "dep s n" arbitrary: n rule: less_induct)
  case less
  note A = mt_arg [OF G less.prems]
  show ?case
  proof (cases "inner s n")
    case True
    then have "dep s (LOW s n) < dep s n" "dep s (HIGH s n) < dep s n"
      using A(5,8,9) by (auto simp: dep_def)
    then obtain v w where "mval s (LOW s n) e v" "mval s (HIGH s n) e w"
      using less.hyps [OF _ A(6) [OF True]] less.hyps [OF _ A(7) [OF True]] by blast
    then show ?thesis by (cases "e (LEVEL s n)") (auto simp: mval_inner [OF True])
  next
    case False
    then show ?thesis by (blast intro: mv_leaf)
  qed
qed

section \<open>The operations\<close>

lemma mtbdd_apply_ends:
  assumes S: "mt_session den s" and a: "arg s l" "arg s r" and d: "den key = Some (OnTwo f)" and p: "pure2 cb f"
  shows "runs (mtbdd_apply l r (Some (key, cb)) s) (mt_ends den s (lift2 f (mval s l) (mval s r)))"
proof -
  have "dep2 s l r < op_fuel s" using mt_dep2(1) [OF S a] by (simp add: op_fuel_def)
  note mtbdd_apply_rec_spec [where den = den, OF d p mt_sessionD(1) [OF S] a this mt_dep2(2) [OF S a]]
  then show ?thesis
    using mpost_ends [OF S] by (auto simp: mtbdd_apply_def mt_check [OF S] a elim: runs_conseq)
qed

lemma mtbdd_apply_param_ends:
  assumes S: "mt_session den s" and a: "arg s l" "arg s r" and d: "den key = Some (OnTwoP f)"
    and p: "pure2 (cb x) (f x)" and x: "0 \<le> x" "x < 2 ^ 64"
  shows "runs (mtbdd_apply_param l r (Some (key, cb)) x s) (mt_ends den s (lift2 (f x) (mval s l) (mval s r)))"
proof -
  have "dep2 s l r < op_fuel s" using mt_dep2(1) [OF S a] by (simp add: op_fuel_def)
  note mtbdd_apply_param_rec_spec [where den = den and cb = cb and f = f and p = x, OF d p x mt_sessionD(1) [OF S] a this mt_dep2(2) [OF S a]]
  then show ?thesis
    using mpost_ends [OF S] by (auto simp: mtbdd_apply_param_def mt_check [OF S] a elim: runs_conseq)
qed

lemma mtbdd_apply_unary_ends:
  assumes S: "mt_session den s" and a: "arg s l" and d: "den key = Some (OnOne f)" and p: "pure1 cb f"
  shows "runs (mtbdd_apply_unary l (Some (key, cb)) s) (mt_ends den s (lift1 f (mval s l)))"
proof -
  have "dep s l < op_fuel s" using mt_dep(1) [OF S a] by (simp add: op_fuel_def)
  note mtbdd_apply_unary_rec_spec [where den = den, OF d p mt_sessionD(1) [OF S] a this mt_dep(2) [OF S a]]
  then show ?thesis
    using mpost_ends [OF S] by (auto simp: mtbdd_apply_unary_def mt_check [OF S a] elim: runs_conseq)
qed

lemma mtbdd_apply_unary_param_ends:
  assumes S: "mt_session den s" and a: "arg s l" and d: "den key = Some (OnOneP f)"
    and p: "pure1 (cb x) (f x)" and x: "0 \<le> x" "x < 2 ^ 64"
  shows "runs (mtbdd_apply_unary_param l (Some (key, cb)) x s) (mt_ends den s (lift1 (f x) (mval s l)))"
proof -
  have "dep s l < op_fuel s" using mt_dep(1) [OF S a] by (simp add: op_fuel_def)
  note mtbdd_apply_unary_param_rec_spec [where den = den and cb = cb and f = f and p = x, OF d p x mt_sessionD(1) [OF S] a this mt_dep(2) [OF S a]]
  then show ?thesis
    using mpost_ends [OF S] by (auto simp: mtbdd_apply_unary_param_def mt_check [OF S a] elim: runs_conseq)
qed

text \<open>Between two terminals \<open>mtbdd_ite\<close> looks at the level of the condition only.\<close>

lemma mtbdd_ite_terminals_ends:
  assumes S: "mt_session den s" and a: "arg s f" "arg s g" "arg s h" and f: "inner s f"
    and t: "ISTERMINAL s g" "ISTERMINAL s h" "g \<noteq> h"
  shows "runs (mtbdd_ite f g h s)
    (mt_ends den s (\<lambda>e v. v = (if e (LEVEL s f) then leaf_of s h else leaf_of s g)))"
proof -
  let ?v = "LEVEL s f"
  note G = mt_sessionD(1) [OF S]
  note F = mt_arg [OF G a(1)]
  have lf: "\<not> inner s g" "\<not> inner s h" using mt_arg(4) [OF G a(2)] mt_arg(4) [OF G a(3)] t(1,2) by (simp_all add: ISMTBDDLEAF_def)
  have v: "?v < bddvarnum s" using F(5) f by simp
  have lv: "?v < LEVEL s g" "?v < LEVEL s h"
    using mt_arg(5) [OF G a(2)] mt_arg(5) [OF G a(3)] lf v by auto
  have nf: "f \<noteq> 0" "f \<noteq> 1" using f by (auto simp: inner_def allocd_def)
  have "mtbdd_ite f g h s = bdd_makenode ?v g h s"
    using nf t by (simp add: mtbdd_ite_def mt_check [OF S] a op_fuel_def ISZERO_def ISONE_def numeral_2_eq_2)
  moreover have "(\<lambda>e w. if e ?v then mval s h e w else mval s g e w) =
      (\<lambda>e w. w = (if e ?v then leaf_of s h else leaf_of s g))"
    by (simp add: fun_eq_iff mval_leaf lf)
  ultimately show ?thesis
    using mt_makenode [OF G F(3) v a(2,3) lv] mpost_ends [OF S] by (auto elim: runs_conseq)
qed

section \<open>A concrete session\<close>

text \<open>
  Two variables and integer values: the terminals 10 and 20 are the nodes 6 and 7, node 8 tests the first variable
  (low 10, high 20), node 9 the second (low 20, high 10). The callback 5 adds two numbers, 6 adds its parameter.
\<close>

definition mt_nodes :: "int \<Rightarrow> BddNode" where
  "mt_nodes n =
     (if n = 6 then ex_node MAXLEVEL 42 10 1 else if n = 7 then ex_node MAXLEVEL 42 20 1
      else if n = 8 then ex_node 0 6 7 1 else if n = 9 then ex_node 1 7 6 1 else ex_table n)"

definition mt_start :: bdd_state where
  "mt_start = ex_base\<lparr>bddnodes := mt_nodes, mtbdd := True, mtvals := zero_values\<lparr>domaintype := INTVAL\<rparr>,
     caches := (caches ex_base)\<lparr>mtbdd_cache_apply := ex_cache, mtbdd_cache_ite := ex_cache,
       mtbdd_cache_operation := ex_cache\<rparr>\<rparr>"

definition mt_example :: bdd_state where
  "mt_example = bdd_gbc_rehash mt_start"

definition add_values :: "int option \<Rightarrow> int option \<Rightarrow> int option" where
  "add_values a b = (case (a, b) of (Some x, Some y) \<Rightarrow> Some (x + y) | _ \<Rightarrow> None)"

definition shift_value :: "int \<Rightarrow> int option \<Rightarrow> int option" where
  "shift_value p a = map_option (\<lambda>x. x + p) a"

definition mt_den :: "int \<Rightarrow> meaning option" where
  "mt_den k = (if k = 5 then Some (OnTwo add_values) else if k = 6 then Some (OnOneP shift_value) else None)"

lemma mt_rehashed: "rehashed mt_start 2 mt_example"
  unfolding mt_example_def
  by (rule bdd_gbc_rehash_spec)
    (simp_all add: mt_start_def ex_base_def bucket_def mt_nodes_def ex_table_def ex_node_def zero_node_def)

lemma mt_start_sel:
  "bddnodes mt_start = mt_nodes" "bddnodesize mt_start = 13" "bddrefstack mt_start = []" "bddvarnum mt_start = 2"
  by (simp_all add: mt_start_def ex_base_def boot_def)

lemma mt_acc:
  "LEVEL mt_example n = n_level (mt_nodes n)" "LOW mt_example n = n_low (mt_nodes n)"
  "HIGH mt_example n = n_high (mt_nodes n)" "n_refcou (bddnodes mt_example n) = n_refcou (mt_nodes n)"
  "MARKED mt_example n = n_mark (mt_nodes n)"
  using mt_rehashed by (simp_all add: rehashed_def fun_eq_iff LEVEL_def LOW_def HIGH_def MARKED_def mt_start_sel)

lemma mt_sel:
  "bddnodesize mt_example = 13" "bddrefstack mt_example = []" "bdderrorcond mt_example = 0"
  "bddvarnum mt_example = 2" "bddrunning mt_example" "bddrefslots mt_example = 8448"
  "memlimit mt_example = 288" "rand mt_example = (\<lambda>_. 0)" "bddmaxnodeincrease mt_example = DEFAULTMAXNODEINC"
  "bddreordermethod mt_example = 0" "domaintype (mtvals mt_example) = INTVAL"
  "mtbdd_cache_apply (caches mt_example) = ex_cache"
proof -
  have G: "gc_frame mt_start mt_example" "caches mt_example = caches mt_start" "mtvals mt_example = mtvals mt_start"
    using mt_rehashed by (simp_all add: rehashed_def)
  then have "stat mt_example = stat mt_start" by (simp add: gc_frame_def)
  note D = statD [OF this]
  show "bddnodesize mt_example = 13" "bddrefstack mt_example = []" "bdderrorcond mt_example = 0"
    "domaintype (mtvals mt_example) = INTVAL" "mtbdd_cache_apply (caches mt_example) = ex_cache"
    using G by (simp_all add: gc_frame_def mt_start_def ex_base_def boot_def)
  show "bddvarnum mt_example = 2" "bddrunning mt_example" "bddrefslots mt_example = 8448"
    "memlimit mt_example = 288" "rand mt_example = (\<lambda>_. 0)" "bddmaxnodeincrease mt_example = DEFAULTMAXNODEINC"
    "bddreordermethod mt_example = 0"
    using D by (simp_all add: mt_start_def ex_base_def boot_def)
qed

lemma mt_nodes_simps:
  "mt_nodes 0 = ex_node 2 0 0 MAXREF" "mt_nodes 1 = ex_node 2 1 1 MAXREF"
  "mt_nodes 2 = ex_node 0 0 1 MAXREF" "mt_nodes 3 = ex_node 0 1 0 MAXREF"
  "mt_nodes 4 = ex_node 1 0 1 MAXREF" "mt_nodes 5 = ex_node 1 1 0 MAXREF"
  "mt_nodes 6 = ex_node MAXLEVEL 42 10 1" "mt_nodes 7 = ex_node MAXLEVEL 42 20 1"
  "mt_nodes 8 = ex_node 0 6 7 1" "mt_nodes 9 = ex_node 1 7 6 1"
  by (simp_all add: mt_nodes_def ex_table_def)

lemma mt_alloc: "allocd mt_example n = (n \<in> {2, 3, 4, 5, 6, 7, 8, 9})"
  by (auto simp: allocd_def mt_sel mt_acc mt_nodes_def ex_table_def)

lemma mt_inner: "inner mt_example n = (n \<in> {2, 3, 4, 5, 8, 9})"
  by (auto simp: inner_def mt_alloc mt_acc mt_nodes_simps MAXLEVEL_def)

lemma mt_node_id: "node_id mt_example n = (n \<in> {0, 1, 2, 3, 4, 5, 6, 7, 8, 9})"
  by (auto simp: node_id_def mt_alloc)

lemma mt_tab_inv: "tab_inv mt_example"
  unfolding tab_inv_def
proof (intro conjI)
  show "size_ok mt_example" "consts_ok mt_example"
    by (simp_all add: size_ok_def consts_ok_def mt_sel mt_acc mt_nodes_simps)
  show "wf_nodes mt_example"
    unfolding wf_nodes_def mt_inner by (auto simp: mt_acc mt_nodes_simps mt_node_id below_def MAXLEVEL_def)
  show "unique_nodes mt_example"
    unfolding unique_nodes_def mt_inner by (auto simp: mt_acc mt_nodes_simps)
  show "built 2 mt_example" using mt_rehashed by (simp add: rehashed_def)
  show "marks_clear mt_example" by (simp add: marks_clear_def mt_acc mt_nodes_def ex_table_def)
  show "refs_ok mt_example"
    by (auto simp: refs_ok_def mt_acc mt_nodes_def ex_table_def MAXREF_def mt_sel split: if_splits)
  show "stack_ok mt_example" by (simp add: stack_ok_def mt_sel)
  show "slots_distinct mt_example" by (simp add: slots_distinct_def mt_sel)
qed

lemma mt_example_session: "mt_session mt_den mt_example"
proof -
  have "kinv mt_example"
    using mt_tab_inv prime_13 mr_sound_small [of 288 "\<lambda>_. 0"]
    by (simp add: kinv_def prime_size_def env_ok_def mt_sel DEFAULTMAXNODEINC_def bdd_reorder_ready_def BDD_REORDER_NONE_def)
  moreover have "mt_table mt_example"
    by (auto simp: mt_table_def mt_sel mt_acc mt_nodes_simps mt_inner MAXVAR_def)
  ultimately have "mt_base mt_example" by (simp add: mt_base_def mt_sel DOMAIN_NOT_SHORT_def)
  moreover have "mt_caches mt_den mt_example" by (simp add: mt_caches_def mt_sel ex_cache_def fresh_cache_ok)
  ultimately show ?thesis by (simp add: mt_session_def mt_good_def room_def mt_sel)
qed

lemma mt_args: "arg mt_example 2" "arg mt_example 6" "arg mt_example 7" "arg mt_example 8" "arg mt_example 9"
  by (simp_all add: arg_def mt_node_id)
    (rule live_ref; simp add: mt_acc mt_nodes_simps mt_sel MAXREF_def)+

lemma mt_values:
  "mval mt_example 8 e v = (v = Term (if e 0 then 20 else 10))"
  "mval mt_example 9 e v = (v = Term (if e 1 then 10 else 20))"
  by (simp_all add: mval_inner mval_leaf mt_inner mt_acc mt_nodes_simps leaf_of_def)

end
