(* ===== verification/PropsMtbdd.thy ===== *)
theory PropsMtbdd
  imports MtSession
begin

text \<open>
  The properties of the multi-terminal diagrams with inline values. \<open>den\<close> gives the functions whose addresses are in use
  as names in the cache their meaning; a callback is pure when its answer depends on the values only. \<open>mval s n e v\<close>
  says that the assignment \<open>e\<close> leads from the node \<open>n\<close> to the leaf \<open>v\<close>.
\<close>

text \<open>
  C38. \<open>mtbdd_apply\<close> applies a pure function of two values leaf by leaf: in the result every assignment leads to the
  answer for the two leaves it leads to in the operands. Collections and enlargements of the table on the way, and
  answers from the cache, do not matter, and the nodes in use are kept.
\<close>

theorem mtbdd_apply_correct:
  assumes "mt_session den s" "arg s l" "arg s r" "den key = Some (OnTwo f)" "pure2 op f"
  shows "runs (mtbdd_apply l r (Some (key, op)) s) (\<lambda>res t. mt_session den t \<and> ext s t \<and> node_id t res \<and>
    (bdderrorcond t = 0 \<longrightarrow> (\<forall>e. \<exists>a b. mval s l e a \<and> mval s r e b \<and>
       (\<forall>v. mval t res e v \<longleftrightarrow> v = outcome (f (pointed a) (pointed b))))))"
proof (rule runs_conseq [OF mtbdd_apply_ends [OF assms]])
  fix res t assume "mt_ends den s (lift2 f (mval s l) (mval s r)) res t"
  moreover have "\<exists>a b. mval s l e a \<and> mval s r e b \<and>
      (\<forall>v. lift2 f (mval s l) (mval s r) e v \<longleftrightarrow> v = outcome (f (pointed a) (pointed b)))" for e
    using mval_total [OF mt_sessionD(1) [OF assms(1)]] assms(2,3) mval_unique [of s l e] mval_unique [of s r e]
    unfolding lift2_def by metis
  ultimately show "mt_session den t \<and> ext s t \<and> node_id t res \<and>
    (bdderrorcond t = 0 \<longrightarrow> (\<forall>e. \<exists>a b. mval s l e a \<and> mval s r e b \<and>
       (\<forall>v. mval t res e v \<longleftrightarrow> v = outcome (f (pointed a) (pointed b)))))"
    by (simp add: mt_ends_def)
qed

theorem mtbdd_apply_correct_example:
  "arg mt_example 8 \<and> arg mt_example 9 \<and>
   runs (mtbdd_apply 8 9 (Some (5, \<lambda>a b s. ret (add_values a b) s)) mt_example)
     (\<lambda>res t. mt_session mt_den t \<and> ext mt_example t \<and> node_id t res \<and>
       (bdderrorcond t = 0 \<longrightarrow> (\<forall>e v. mval t res e v \<longleftrightarrow>
          v = Term ((if e 0 then 20 else 10) + (if e 1 then 10 else 20)))))"
proof (intro conjI mt_args runs_conseq [OF mtbdd_apply_correct [OF mt_example_session mt_args(4,5)]])
  show "mt_den 5 = Some (OnTwo add_values)" "pure2 (\<lambda>a b s. ret (add_values a b) s) add_values"
    by (simp_all add: mt_den_def pure2_def)
qed (auto simp: mt_values outcome_def pointed_def add_values_def s32_def)

text \<open>
  C39. \<open>mtbdd_apply_unary_param\<close> applies a pure function of one value and a parameter of 64 bits to every leaf,
  although the cache keeps the parameter in two words of 32 bits.
\<close>

theorem mtbdd_apply_unary_param_correct:
  assumes "mt_session den s" "arg s l" "den key = Some (OnOneP f)" "pure1 (op p) (f p)" "0 \<le> p" "p < 2 ^ 64"
  shows "runs (mtbdd_apply_unary_param l (Some (key, op)) p s) (\<lambda>res t. mt_session den t \<and> ext s t \<and> node_id t res \<and>
    (bdderrorcond t = 0 \<longrightarrow> (\<forall>e. \<exists>a. mval s l e a \<and>
       (\<forall>v. mval t res e v \<longleftrightarrow> v = outcome (f p (pointed a))))))"
proof (rule runs_conseq [OF mtbdd_apply_unary_param_ends [where den = den and cb = op and f = f and x = p, OF assms]])
  fix res t assume "mt_ends den s (lift1 (f p) (mval s l)) res t"
  moreover have "\<exists>a. mval s l e a \<and> (\<forall>v. lift1 (f p) (mval s l) e v \<longleftrightarrow> v = outcome (f p (pointed a)))" for e
    using mval_total [OF mt_sessionD(1) [OF assms(1)]] assms(2) mval_unique [of s l e] unfolding lift1_def by metis
  ultimately show "mt_session den t \<and> ext s t \<and> node_id t res \<and>
    (bdderrorcond t = 0 \<longrightarrow> (\<forall>e. \<exists>a. mval s l e a \<and> (\<forall>v. mval t res e v \<longleftrightarrow> v = outcome (f p (pointed a)))))"
    by (simp add: mt_ends_def)
qed

theorem mtbdd_apply_unary_param_correct_example:
  "arg mt_example 8 \<and>
   runs (mtbdd_apply_unary_param 8 (Some (6, \<lambda>p a s. ret (shift_value p a) s)) 7 mt_example)
     (\<lambda>res t. mt_session mt_den t \<and> ext mt_example t \<and> node_id t res \<and>
       (bdderrorcond t = 0 \<longrightarrow> (\<forall>e v. mval t res e v \<longleftrightarrow> v = Term (if e 0 then 27 else 17))))"
proof (intro conjI mt_args runs_conseq [OF mtbdd_apply_unary_param_correct [OF mt_example_session mt_args(4)]])
  show "mt_den 6 = Some (OnOneP shift_value)" "pure1 (\<lambda>a s. ret (shift_value 7 a) s) (shift_value 7)"
    by (simp_all add: mt_den_def pure1_def)
qed (auto simp: mt_values outcome_def pointed_def shift_value_def s32_def)

text \<open>
  C40. \<open>mtbdd_ite\<close> with two different terminals exchanges its branches and looks only at the topmost variable of the
  condition: where that variable is true the result is the \<open>else\<close> value, where it is false the \<open>then\<close> value.
\<close>

theorem mtbdd_ite_exchanges_terminals:
  assumes "mt_session den s" "arg s f" "arg s g" "arg s h" "inner s f"
    and "ISTERMINAL s g" "ISTERMINAL s h" "g \<noteq> h"
  shows "runs (mtbdd_ite f g h s) (\<lambda>res t. mt_session den t \<and> ext s t \<and> node_id t res \<and>
    (bdderrorcond t = 0 \<longrightarrow> (\<forall>e v. mval t res e v \<longleftrightarrow>
       v = (if e (LEVEL s f) then leaf_of s h else leaf_of s g))))"
  by (rule runs_conseq [OF mtbdd_ite_terminals_ends [OF assms]]) (simp add: mt_ends_def)

text \<open>Node 2 is the first variable: where it is true, \<open>mtbdd_ite\<close> of it, 10 and 20 should be 10, and is 20.\<close>

theorem mtbdd_ite_exchanges_terminals_example:
  "LOW mt_example 2 = 0 \<and> HIGH mt_example 2 = 1 \<and> HIGH mt_example 6 = 10 \<and> HIGH mt_example 7 = 20 \<and>
   runs (mtbdd_ite 2 6 7 mt_example) (\<lambda>res t. mt_session mt_den t \<and> ext mt_example t \<and> node_id t res \<and>
     (bdderrorcond t = 0 \<longrightarrow> (\<forall>e v. mval t res e v \<longleftrightarrow> v = Term (if e 0 then 20 else 10))))"
proof (intro conjI runs_conseq [OF mtbdd_ite_exchanges_terminals [OF mt_example_session mt_args(1-3)]])
  show "inner mt_example 2" "ISTERMINAL mt_example 6" "ISTERMINAL mt_example 7"
    by (simp_all add: mt_inner ISTERMINAL_def ISCONST_def mt_acc mt_nodes_simps)
qed (auto simp: mt_acc mt_nodes_simps leaf_of_def)

end
