(* ===== verification/Spec2Isabelle.thy ===== *)
theory Spec2Isabelle
  imports PropsKernel PropsOps PropsSubst PropsQuant PropsBvec PropsFdd PropsVars PropsReorder PropsIo PropsMtbdd
begin

text \<open>
  A verification development for the C code of \<^bold>\<open>MoToBuddy\<close>, the BuDDy package of binary decision
  diagrams extended by multi-terminal diagrams (directory \<^verbatim>\<open>src/\<close>).

  \<^bold>\<open>The program.\<close> All nodes of all diagrams live in one table (\<^verbatim>\<open>kernel.c\<close>). A node has a level, a low and
  a high child; it is found again through hash chains threaded through the table, so that equal nodes are one entry.
  The user protects nodes by reference counts, the recursive operations protect their intermediate results by a
  stack; every other node may be collected whenever \<^verbatim>\<open>bdd_makenode\<close> finds the table full, and the table may then
  also grow. The operations (\<^verbatim>\<open>bddop.c\<close>, \<^verbatim>\<open>mtbdd.c\<close>) keep results in caches (\<^verbatim>\<open>cache.c\<close>)
  whose entries a collection makes invalid. On top of them are tables of substitutions (\<^verbatim>\<open>pairs.c\<close>), Boolean
  vectors (\<^verbatim>\<open>bvec.c\<close>), finite domains (\<^verbatim>\<open>fdd.c\<close>) and files (\<^verbatim>\<open>bddio.c\<close>). Reordering
  (\<^verbatim>\<open>reorder.c\<close>, \<^verbatim>\<open>tree.c\<close>, \<^verbatim>\<open>imatrix.c\<close>) rewrites the table in place by exchanging
  adjacent variables.

  \<^bold>\<open>How it is modelled.\<close> A C function is a HOL function from its arguments and the state to an outcome and a new state
  (\<open>Prelude\<close>): \<open>Inr x\<close> when it returns \<open>x\<close>, \<open>Inl e\<close> for an end by \<^verbatim>\<open>exit\<close>, an allocation that the memory limit
  refuses (\<open>Oom\<close>), undefined behaviour (\<open>Trap\<close>), lack of fuel (\<open>Nofuel\<close>) or a \<^verbatim>\<open>longjmp\<close>. \<open>runs m P\<close> says that
  \<open>m\<close> returns with \<open>P\<close>, or ends by \<open>Exit\<close> or \<open>Oom\<close>; it excludes \<open>Trap\<close>, \<open>Nofuel\<close> and an uncaught jump. The globals of the library are
  the record \<open>bdd_state\<close> (\<open>State\<close>); arrays are functions on \<open>int\<close>, and \<^verbatim>\<open>int\<close> arithmetic writes the reduction
  modulo \<open>2 ^ 32\<close> (\<open>u32\<close>, \<open>s32\<close>) where it can wrap. Numbers drawn from \<^verbatim>\<open>rand\<close> are a stream in the state, over
  which the theorems quantify. Results that the code computes as \<^verbatim>\<open>double\<close> (counting) are reals. Callbacks of the
  user are parameters.

  \<^bold>\<open>Theories with definitions from the code.\<close>
  \<^item> \<open>State\<close>, \<open>Macros\<close>: the globals, and the macros of \<^verbatim>\<open>kernel.h\<close>, \<^verbatim>\<open>bdd.h\<close>, \<^verbatim>\<open>mtbdd.h\<close>;
    \<open>Prime\<close>: \<^verbatim>\<open>prime.c\<close>; \<open>Cache\<close>: \<^verbatim>\<open>cache.c\<close>, \<^verbatim>\<open>cache.h\<close>,
    \<^verbatim>\<open>mtbdd_cache_registry.c\<close>; \<open>Terminal\<close>: \<^verbatim>\<open>terminal.c\<close>.
  \<^item> \<open>Kernel\<close>, \<open>KernelInit\<close>, \<open>KernelApi\<close>: \<^verbatim>\<open>kernel.c\<close>; \<open>Pairs\<close>: \<^verbatim>\<open>pairs.c\<close>;
    \<open>OpSetup\<close>, \<open>Bddop\<close>, \<open>BddopSubst\<close>, \<open>BddopQuant\<close>, \<open>BddopInfo\<close>: \<^verbatim>\<open>bddop.c\<close>.
  \<^item> \<open>Mtbdd\<close>, \<open>MtbddApply\<close>: \<^verbatim>\<open>mtbdd.c\<close>; \<open>Bvec\<close>: \<^verbatim>\<open>bvec.c\<close>; \<open>Fdd\<close>:
    \<^verbatim>\<open>fdd.c\<close>; \<open>CText\<close>, \<open>Bddio\<close>, \<open>BddioLoad\<close>: \<^verbatim>\<open>bddio.c\<close> and what it uses of
    \<^verbatim>\<open>stdio\<close>; \<open>Tree\<close>, \<open>Reorder\<close>, \<open>ReorderOps\<close>: \<^verbatim>\<open>tree.c\<close>,
    \<^verbatim>\<open>imatrix.c\<close>, \<^verbatim>\<open>reorder.c\<close>.
\<close>

text \<open>
  \<^bold>\<open>Theories with the lemmas.\<close>
  \<^item> Kernel: \<open>KernelInv\<close> states the invariant \<open>tab_inv\<close> of the table; \<open>KernelMark\<close>, \<open>KernelGc\<close>, \<open>KernelResize\<close>, \<open>KernelMake\<close> verify marking, sweeping, the hash chains, growth and \<open>bdd_makenode\<close>; \<open>Sem\<close> gives
    a node its Boolean function and proves canonicity; \<open>PrimeFacts\<close> is the theory of the prime search;
    \<open>VarGrow\<close>, \<open>VarSet\<close>, \<open>VarInit\<close> verify \<open>bdd_init\<close> and \<open>bdd_setvarnum\<close>.
  \<^item> Operations: the locale \<open>stack_frame\<close> (\<open>OpFrame\<close>) is the contract of the reference stack, \<open>op_frame\<close> extends it by what
    the operations need of caches; both are interpreted on the library (\<open>OpCaches\<close>, and for multi-terminal diagrams
    \<open>MtFrame\<close>). \<open>OpRules\<close> has the rules for lookups, stores and descents; \<open>OpApply\<close>, \<open>OpCofactor\<close>,
    \<open>OpRestrict\<close>, \<open>OpQuant\<close>, \<open>OpCompose\<close>, \<open>OpReplace\<close>, \<open>OpCount\<close> verify the recursions and
    \<open>OpSession\<close> the external functions between which \<open>session\<close> holds.
  \<^item> Clients: \<open>OpRefs\<close> is the ledger \<open>own E L s\<close> of the references a client holds, with which \<open>BvecOps\<close>,
    \<open>BvecShift\<close>, \<open>BvecDiv\<close>, \<open>FddOps\<close>, \<open>FddScan\<close> and \<open>LoadLines\<close> account for every reference taken and
    given back; \<open>SaveLines\<close> and \<open>LoadTable\<close> are about the text of a file and the hash table of the loader.
  \<^item> Reordering: \<open>SwapLists\<close>, \<open>SwapMake\<close>, \<open>SwapGc\<close>, \<open>SwapStep\<close>, \<open>SwapLoop\<close>,
    \<open>SwapSem\<close>, \<open>SwapVar\<close> verify the exchange of two adjacent variables, \<open>reorder_vardown\<close>.
  \<^item> Multi-terminal diagrams: \<open>MtFrame\<close>, \<open>MtSpec\<close>, \<open>MtSession\<close> verify the operations with callbacks on
    leaves for the domains whose values are stored in the node (integers, floats, unsigned), for pure callbacks.
  \<^item> The theories \<open>Props...\<close> state the properties, each with an instance on a concrete session (\<open>Example\<close>).

  \<^bold>\<open>Fuel.\<close> A recursion over a diagram has fuel \<open>op_fuel\<close> (the number of variables and 2), since levels increase along
  edges; walks over the table have \<open>mark_fuel\<close> (its size and 1); the search in the loader's table \<open>lh_fuel\<close> (the number of
  its entries and 1); the operations on a level \<open>target_fuel\<close> (\<open>op_fuel\<close> and one for each control); the loops of
  reordering have one round for each variable or pair of variables (\<open>move_fuel\<close>). The properties
  proved by \<open>runs\<close> exclude \<open>Nofuel\<close>, so the fuel is enough there.

  \<^bold>\<open>Bounds.\<close> The numbers of variable sets must be below \<open>2 ^ 22\<close> (with an operator) or \<open>2 ^ 28\<close>, for the tags of the caches to keep all bits. Sessions
  have a reference stack as large as \<open>bdd_setvarnum\<close> makes it, and automatic reordering off. \<open>qsort\<close> is taken to
  be stable.

  \<^bold>\<open>Not modelled.\<close> The C++ parts (\<^verbatim>\<open>cppext.cxx\<close>, the class in \<^verbatim>\<open>bdd.h\<close>,
  \<^verbatim>\<open>mtbddop.cxx\<close>, \<^verbatim>\<open>mosf_parser.h\<close>) wrap or instantiate the C functions;
  the edge-valued diagrams (\<^verbatim>\<open>evdd_*.c\<close>) are a second package with its own node table; tests, examples and
  benchmarks are clients. Of the modelled files, clock readings, statistics, messages to the
  terminal, code under \<^verbatim>\<open>#ifdef\<close> that is not compiled, and unregistering and resizing of
  caches in \<^verbatim>\<open>mtbdd_cache_registry.c\<close> are left out. Allocations other than those of tables succeed.
\<close>

end
